(* ===== verification/Prelude.thy ===== *)
theory Prelude
  imports Main "HOL-Library.Word"
begin

text \<open>
  Shared vocabulary of the development: the exceptions of \<open>src/src/errors.h\<close>, the
  state-and-exception computations in which every stateful operation is written, byte
  buffers with the \<open>memcpy\<close>-style accessors the storage code uses, and the little-endian
  integer encoding behind its \<open>reinterpret_cast\<close>s.
\<close>

named_theorems mem_simps \<open>reading back from a byte buffer after a write\<close>
named_theorems exn_simps \<open>unfolding of the state-and-exception combinators\<close>

section \<open>Machine-level types\<close>

type_synonym byte = "8 word"
type_synonym bytes = "byte list"

text \<open>\<open>frame_id_t\<close>, \<open>page_id_t\<close>, \<open>txn_id_t\<close>, \<open>lsn_t\<close> and \<open>timestamp_t\<close> of
  \<open>common/config.h\<close> are 32-bit signed integers; they are \<open>int\<close> here, and the 32-bit range
  is written out where a value is stored in a page or could wrap.\<close>

type_synonym frame_id_t = int
type_synonym page_id_t = int
type_synonym txn_id_t = int
type_synonym lsn_t = int
type_synonym timestamp_t = int

abbreviation PAGE_SIZE :: nat where "PAGE_SIZE \<equiv> 4096"
abbreviation INVALID_PAGE_ID :: int where "INVALID_PAGE_ID \<equiv> -1"
abbreviation INVALID_TXN_ID :: int where "INVALID_TXN_ID \<equiv> -1"
abbreviation INVALID_LSN :: int where "INVALID_LSN \<equiv> -1"

definition int32 :: "int \<Rightarrow> bool" where
  "int32 x \<longleftrightarrow> - (2 ^ 31) \<le> x \<and> x < 2 ^ 31"

definition int64 :: "int \<Rightarrow> bool" where
  "int64 x \<longleftrightarrow> - (2 ^ 63) \<le> x \<and> x < 2 ^ 63"

section \<open>Decimal printing, as \<open>std::to_string\<close>\<close>

fun nat_to_string :: "nat \<Rightarrow> string" where
  "nat_to_string n =
     (if n < 10 then [char_of (48 + n)] else nat_to_string (n div 10) @ [char_of (48 + n mod 10)])"

declare nat_to_string.simps [simp del]

definition int_to_string :: "int \<Rightarrow> string" where
  "int_to_string i = (if i < 0 then ''-'' @ nat_to_string (nat (- i)) else nat_to_string (nat i))"

section \<open>Exceptions\<close>

text \<open>
  The exception classes of \<open>errors.h\<close>, one constructor each, with the arguments their
  constructors take. \<open>RMDBError\<close> is the base class thrown with its own message.
  \<open>TransactionAbort\<close> stands for the \<open>TransactionAbortException\<close> of \<open>txn_defs.h\<close>, which is none of
  these classes. \<open>AssertionFailure\<close> is the process abort of a failing \<open>assert\<close>, and
  \<open>OutOfRange\<close> the \<open>std::out_of_range\<close> of \<open>unordered_map::at\<close>.
  \<open>UndefinedBehaviour\<close> marks a step C++ does not define (a null pointer, a read of an array
  slot that was never written), and \<open>OutOfFuel\<close> that a bounded model of a loop stopped
  before the loop did; neither is an exception of the program.
\<close>

datatype AbortReason = LOCK_ON_SHIRINKING | UPGRADE_CONFLICT | DEADLOCK_PREVENTION

datatype rmdb_error =
    RMDBError string
  | InternalError string
  | UnixError
  | FileNotOpenError int
  | FileNotClosedError string
  | FileExistsError string
  | FileNotFoundError string
  | RecordNotFoundError int int
  | InvalidRecordSizeError int
  | InvalidColLengthError int
  | IndexEntryNotFoundError
  | DatabaseNotFoundError string
  | DatabaseExistsError string
  | TableNotFoundError string
  | TableExistsError string
  | ColumnNotFoundError string
  | IndexNotFoundError string "string list"
  | IndexExistsError string "string list"
  | InvalidValueCountError
  | StringOverflowError
  | IncompatibleTypeError string string
  | NumericOverflowError string
  | InvalidDateTimeError string
  | AmbiguousColumnError string
  | PageNotExistError string int
  | TransactionAbort txn_id_t AbortReason
  | AssertionFailure
  | OutOfRange
  | UndefinedBehaviour
  | OutOfFuel

fun join_names :: "string list \<Rightarrow> string" where
  "join_names [] = []"
| "join_names [x] = x"
| "join_names (x # y # xs) = x @ '', '' @ join_names (y # xs)"

text \<open>The message \<open>what()\<close> returns; \<open>strerror(errno)\<close> is a parameter.\<close>

fun error_msg :: "string \<Rightarrow> rmdb_error \<Rightarrow> string" where
  "error_msg errno (RMDBError m) = ''Error: '' @ m"
| "error_msg errno (InternalError m) = ''Error: '' @ m"
| "error_msg errno UnixError = ''Error: '' @ errno"
| "error_msg errno (FileNotOpenError fd) = ''Error: Invalid file descriptor: '' @ int_to_string fd"
| "error_msg errno (FileNotClosedError f) = ''Error: File is opened: '' @ f"
| "error_msg errno (FileExistsError f) = ''Error: File already exists: '' @ f"
| "error_msg errno (FileNotFoundError f) = ''Error: File not found: '' @ f"
| "error_msg errno (RecordNotFoundError p s) =
     ''Error: Record not found: ('' @ int_to_string p @ '','' @ int_to_string s @ '')''"
| "error_msg errno (InvalidRecordSizeError n) = ''Error: Invalid record size: '' @ int_to_string n"
| "error_msg errno (InvalidColLengthError n) = ''Error: Invalid column length: '' @ int_to_string n"
| "error_msg errno IndexEntryNotFoundError = ''Error: Index entry not found''"
| "error_msg errno (DatabaseNotFoundError d) = ''Error: Database not found: '' @ d"
| "error_msg errno (DatabaseExistsError d) = ''Error: Database already exists: '' @ d"
| "error_msg errno (TableNotFoundError t) = ''Error: Table not found: '' @ t"
| "error_msg errno (TableExistsError t) = ''Error: Table already exists: '' @ t"
| "error_msg errno (ColumnNotFoundError c) = ''Error: Column not found: '' @ c"
| "error_msg errno (IndexNotFoundError t cs) =
     ''Error: Index not found: '' @ t @ ''.('' @ join_names cs @ '')''"
| "error_msg errno (IndexExistsError t cs) =
     ''Error: Index already exists: '' @ t @ ''.('' @ join_names cs @ '')''"
| "error_msg errno InvalidValueCountError = ''Error: Invalid value count''"
| "error_msg errno StringOverflowError = ''Error: String is too long''"
| "error_msg errno (IncompatibleTypeError l r) =
     ''Error: Incompatible type error: lhs '' @ l @ '', rhs '' @ r"
| "error_msg errno (NumericOverflowError t) = ''Error: Numeric value out of range for '' @ t"
| "error_msg errno (InvalidDateTimeError v) = ''Error: Invalid datetime literal: '' @ v"
| "error_msg errno (AmbiguousColumnError c) = ''Error: Ambiguous column: '' @ c"
| "error_msg errno (PageNotExistError t p) =
     ''Error: Page '' @ int_to_string p @ '' in table '' @ t @ ''not exits''"
| "error_msg errno (TransactionAbort t r) = []"
| "error_msg errno AssertionFailure = []"
| "error_msg errno OutOfRange = []"
| "error_msg errno UndefinedBehaviour = []"
| "error_msg errno OutOfFuel = []"

section \<open>State-and-exception computations\<close>

text \<open>A computation maps a state to its outcome (\<open>Inl\<close> an exception, \<open>Inr\<close> a value)
  and the state it leaves; an exception keeps the writes made before it was thrown.\<close>

type_synonym ('s, 'a) comp = "'s \<Rightarrow> (rmdb_error + 'a) \<times> 's"

definition returnE :: "'a \<Rightarrow> ('s, 'a) comp" where
  "returnE x = (\<lambda>s. (Inr x, s))"

definition throwE :: "rmdb_error \<Rightarrow> ('s, 'a) comp" where
  "throwE e = (\<lambda>s. (Inl e, s))"

definition getE :: "('s \<Rightarrow> 'a) \<Rightarrow> ('s, 'a) comp" where
  "getE f = (\<lambda>s. (Inr (f s), s))"

definition modifyE :: "('s \<Rightarrow> 's) \<Rightarrow> ('s, unit) comp" where
  "modifyE f = (\<lambda>s. (Inr (), f s))"

definition bindE :: "('s, 'a) comp \<Rightarrow> ('a \<Rightarrow> ('s, 'b) comp) \<Rightarrow> ('s, 'b) comp" where
  "bindE m f = (\<lambda>s. case m s of (Inl e, t) \<Rightarrow> (Inl e, t) | (Inr x, t) \<Rightarrow> f x t)"

definition thenE :: "('s, 'a) comp \<Rightarrow> ('s, 'b) comp \<Rightarrow> ('s, 'b) comp" where
  "thenE m n = bindE m (\<lambda>_. n)"

definition assertE :: "bool \<Rightarrow> ('s, unit) comp" where
  "assertE b = (if b then returnE () else throwE AssertionFailure)"

fun mapE :: "('x \<Rightarrow> ('s, 'a) comp) \<Rightarrow> 'x list \<Rightarrow> ('s, unit) comp" where
  "mapE f [] = returnE ()"
| "mapE f (x # xs) = thenE (f x) (mapE f xs)"

lemma returnE_apply [simp, exn_simps]: "returnE x s = (Inr x, s)"
  by (simp add: returnE_def)

lemma throwE_apply [simp, exn_simps]: "throwE e s = (Inl e, s)"
  by (simp add: throwE_def)

lemma getE_apply [simp, exn_simps]: "getE f s = (Inr (f s), s)"
  by (simp add: getE_def)

lemma modifyE_apply [simp, exn_simps]: "modifyE f s = (Inr (), f s)"
  by (simp add: modifyE_def)

lemma bindE_Inr: "m s = (Inr x, t) \<Longrightarrow> bindE m f s = f x t"
  by (simp add: bindE_def)

lemma bindE_Inl: "m s = (Inl e, t) \<Longrightarrow> bindE m f s = (Inl e, t)"
  by (simp add: bindE_def)

lemma thenE_Inr: "m s = (Inr x, t) \<Longrightarrow> thenE m n s = n t"
  by (simp add: thenE_def bindE_Inr)

lemma thenE_Inl: "m s = (Inl e, t) \<Longrightarrow> thenE m n s = (Inl e, t)"
  by (simp add: thenE_def bindE_Inl)

lemma bindE_simps [simp]:
  "bindE (returnE x) f s = f x s"
  "bindE (throwE e) f s = (Inl e, s)"
  "bindE (getE g) f s = f (g s) s"
  "bindE (modifyE h) f' s = f' () (h s)"
  by (simp_all add: bindE_def)

lemma thenE_simps [simp]:
  "thenE (returnE x) n s = n s"
  "thenE (throwE e) n s = (Inl e, s)"
  "thenE (modifyE h) n s = n (h s)"
  by (simp_all add: thenE_def)

lemma assertE_simps [simp]:
  "b \<Longrightarrow> assertE b = returnE ()"
  "\<not> b \<Longrightarrow> assertE b = throwE AssertionFailure"
  by (simp_all add: assertE_def)

lemma bindE_eq_Inr:
  "bindE m f s = (Inr y, u) \<longleftrightarrow> (\<exists>x t. m s = (Inr x, t) \<and> f x t = (Inr y, u))"
  by (auto simp: bindE_def split: prod.splits sum.splits)

lemma thenE_eq_Inr:
  "thenE m n s = (Inr y, u) \<longleftrightarrow> (\<exists>x t. m s = (Inr x, t) \<and> n t = (Inr y, u))"
  by (simp add: thenE_def bindE_eq_Inr)

text \<open>Replacing the rest of a computation that returned by one that returns the same.\<close>

lemma bindE_rest:
  "bindE m g s = (Inr y, u) \<Longrightarrow> (\<And>x t. g x t = (Inr y, u) \<Longrightarrow> g' x t = (Inr y, u)) \<Longrightarrow> bindE m g' s = (Inr y, u)"
  by (auto simp: bindE_eq_Inr)

lemma thenE_rest:
  "thenE m n s = (Inr y, u) \<Longrightarrow> (\<And>t. n t = (Inr y, u) \<Longrightarrow> n' t = (Inr y, u)) \<Longrightarrow> thenE m n' s = (Inr y, u)"
  by (auto simp: thenE_eq_Inr)

section \<open>Byte buffers\<close>

text \<open>\<open>mem_get d off n\<close> reads \<open>n\<close> bytes at offset \<open>off\<close> of a buffer; \<open>mem_put d off bs\<close>
  is \<open>memcpy(d + off, bs, |bs|)\<close>.\<close>

definition mem_get :: "'a list \<Rightarrow> nat \<Rightarrow> nat \<Rightarrow> 'a list" where
  "mem_get d off n = take n (drop off d)"

definition mem_put :: "'a list \<Rightarrow> nat \<Rightarrow> 'a list \<Rightarrow> 'a list" where
  "mem_put d off bs = take off d @ bs @ drop (off + length bs) d"

lemma length_mem_get: "off + n \<le> length d \<Longrightarrow> length (mem_get d off n) = n"
  by (simp add: mem_get_def)

lemma length_mem_put [mem_simps]:
  "off + length bs \<le> length d \<Longrightarrow> length (mem_put d off bs) = length d"
  by (simp add: mem_put_def)

lemma mem_get_put_same [mem_simps]:
  "off + length bs \<le> length d \<Longrightarrow> n = length bs \<Longrightarrow> mem_get (mem_put d off bs) off n = bs"
  by (simp add: mem_get_def mem_put_def)

lemma nth_mem_put:
  assumes "off + length bs \<le> length d" "i < length d"
  shows "mem_put d off bs ! i = (if off \<le> i \<and> i < off + length bs then bs ! (i - off) else d ! i)"
  using assms by (auto simp: mem_put_def nth_append min_def)

lemma mem_get_eqI:
  assumes "length d = length d'" "\<And>i. off \<le> i \<Longrightarrow> i < off + n \<Longrightarrow> i < length d \<Longrightarrow> d ! i = d' ! i"
  shows "mem_get d off n = mem_get d' off n"
  using assms by (intro nth_equalityI) (auto simp: mem_get_def)

lemma mem_get_put_disjoint [mem_simps]:
  assumes "off + length bs \<le> length d" "off' + n \<le> off \<or> off + length bs \<le> off'"
  shows "mem_get (mem_put d off bs) off' n = mem_get d off' n"
  using assms by (intro mem_get_eqI) (auto simp: length_mem_put nth_mem_put)

text \<open>The characters of a \<open>std::string\<close> as bytes.\<close>

definition bytes_of_string :: "string \<Rightarrow> bytes" where
  "bytes_of_string s = map (\<lambda>c. word_of_nat (of_char c)) s"

lemma unat_byte_of_char [simp]: "unat (word_of_nat (of_char c) :: byte) = of_char c"
  by (simp add: unat_of_nat)

lemma length_bytes_of_string [simp]: "length (bytes_of_string s) = length s"
  by (simp add: bytes_of_string_def)

section \<open>Little-endian integers\<close>

primrec le_bytes :: "nat \<Rightarrow> int \<Rightarrow> bytes" where
  "le_bytes 0 x = []"
| "le_bytes (Suc n) x = word_of_int x # le_bytes n (x div 256)"

fun le_uint :: "bytes \<Rightarrow> int" where
  "le_uint [] = 0"
| "le_uint (b # bs) = uint b + 256 * le_uint bs"

definition le_sint :: "bytes \<Rightarrow> int" where
  "le_sint bs =
     (let u = le_uint bs; m = 256 ^ length bs in if 2 * u < m then u else u - m)"

lemma length_le_bytes [simp]: "length (le_bytes n x) = n"
  by (induction n arbitrary: x) auto

lemma le_uint_le_bytes: "le_uint (le_bytes n x) = x mod 256 ^ n"
proof (induction n arbitrary: x)
  case 0
  then show ?case by simp
next
  case (Suc n)
  have "uint (word_of_int x :: byte) = x mod 256"
    by (simp add: uint_word_of_int)
  then show ?case
    using Suc.IH[of "x div 256"]
    by (simp add: zmod_zmult2_eq mult.commute)
qed

lemma le_uint_bounds: "0 \<le> le_uint bs \<and> le_uint bs < 256 ^ length bs"
proof (induction bs)
  case Nil
  then show ?case by simp
next
  case (Cons b bs)
  have "0 \<le> uint b" and "uint b < 256"
    using uint_lt2p[of b] by simp_all
  with Cons show ?case by simp
qed

lemma le_sint_le_bytes:
  assumes "- (256 ^ n) \<le> 2 * x" "2 * x < 256 ^ n"
  shows "le_sint (le_bytes n x) = x"
proof (cases "0 \<le> x")
  case True
  with assms have "x mod 256 ^ n = x" by simp
  with True assms show ?thesis
    by (simp add: le_sint_def le_uint_le_bytes Let_def)
next
  case False
  with assms have "x mod 256 ^ n = x + 256 ^ n"
    by (subst mod_add_self2 [symmetric], intro mod_pos_pos_trivial) auto
  with False assms show ?thesis
    by (simp add: le_sint_def le_uint_le_bytes Let_def)
qed

lemma le_sint_int32 [simp]: "int32 x \<Longrightarrow> le_sint (le_bytes 4 x) = x"
  by (rule le_sint_le_bytes) (auto simp: int32_def)

lemma le_sint_int64 [simp]: "int64 x \<Longrightarrow> le_sint (le_bytes 8 x) = x"
  by (rule le_sint_le_bytes) (auto simp: int64_def)

lemma le_uint_nonneg: "0 \<le> x \<Longrightarrow> x < 256 ^ n \<Longrightarrow> le_uint (le_bytes n x) = x"
  by (simp add: le_uint_le_bytes)

end
