(* ===== verification/Bitmap.thy ===== *)
theory Bitmap
  imports Prelude
begin

unbundle bit_operations_syntax

text \<open>
  The slot bitmap of a record page (\<open>record/bitmap.h\<close>). The argument \<open>bm\<close> is the memory from
  the bitmap pointer on; positions are counted from the highest bit of the first byte. The
  operations are shown to be those of a set of positions, and \<open>next_bit\<close> to return the first
  position with the wanted bit.
\<close>

section \<open>Operations\<close>

abbreviation BITMAP_WIDTH :: int where "BITMAP_WIDTH \<equiv> 8"
abbreviation BITMAP_HIGHEST_BIT :: byte where "BITMAP_HIGHEST_BIT \<equiv> 0x80"

definition get_bucket :: "int \<Rightarrow> nat" where
  "get_bucket pos = nat (pos div BITMAP_WIDTH)"

definition get_bit :: "int \<Rightarrow> byte" where
  "get_bit pos = drop_bit (nat (pos mod BITMAP_WIDTH)) BITMAP_HIGHEST_BIT"

definition bm_init :: "bytes \<Rightarrow> nat \<Rightarrow> bytes" where
  "bm_init bm sz = mem_put bm 0 (replicate sz 0)"

definition bm_set :: "bytes \<Rightarrow> int \<Rightarrow> bytes" where
  "bm_set bm pos = bm[get_bucket pos := (bm ! get_bucket pos) OR get_bit pos]"

definition bm_reset :: "bytes \<Rightarrow> int \<Rightarrow> bytes" where
  "bm_reset bm pos = bm[get_bucket pos := (bm ! get_bucket pos) AND NOT (get_bit pos)]"

definition is_set :: "bytes \<Rightarrow> int \<Rightarrow> bool" where
  "is_set bm pos \<longleftrightarrow> (bm ! get_bucket pos) AND get_bit pos \<noteq> 0"

function next_bit :: "bool \<Rightarrow> bytes \<Rightarrow> int \<Rightarrow> int \<Rightarrow> int" where
  "next_bit b bm max_n cur =
     (if cur + 1 < max_n
      then if is_set bm (cur + 1) = b then cur + 1 else next_bit b bm max_n (cur + 1)
      else max_n)"
  by pat_completeness auto
termination
  by (relation "measure (\<lambda>(b, bm, max_n, cur). nat (max_n - cur))") auto

declare next_bit.simps [simp del]

definition first_bit :: "bool \<Rightarrow> bytes \<Rightarrow> int \<Rightarrow> int" where
  "first_bit b bm max_n = next_bit b bm max_n (-1)"

section \<open>The bitmap as a set of positions\<close>

lemma bit_highest: "bit BITMAP_HIGHEST_BIT i \<longleftrightarrow> i = 7"
proof -
  have "BITMAP_HIGHEST_BIT = 2 ^ 7" by simp
  then have "bit BITMAP_HIGHEST_BIT i \<longleftrightarrow> possible_bit TYPE(byte) i \<and> i = 7"
    by (simp only: bit_exp_iff)
  then show ?thesis by auto
qed

lemma bit_get_bit: "bit (get_bit pos) k \<longleftrightarrow> k = 7 - nat (pos mod 8)"
proof -
  have "bit (get_bit pos) k \<longleftrightarrow> nat (pos mod 8) + k = 7"
    unfolding get_bit_def bit_drop_bit_eq comp_def bit_highest by simp
  moreover have "nat (pos mod 8) \<le> 7" by simp
  ultimately show ?thesis by linarith
qed

lemma is_set_bit: "is_set bm pos \<longleftrightarrow> bit (bm ! get_bucket pos) (7 - nat (pos mod 8))"
proof -
  have "(x AND get_bit pos \<noteq> 0) \<longleftrightarrow> bit x (7 - nat (pos mod 8))" for x :: byte
    unfolding bit_eq_iff[of "x AND get_bit pos" 0] by (auto simp: bit_and_iff bit_get_bit dest: bit_imp_possible_bit)
  then show ?thesis by (simp add: is_set_def)
qed

lemma same_position:
  assumes "0 \<le> p" "0 \<le> q" "get_bucket p = get_bucket q" "7 - nat (p mod 8) = 7 - nat (q mod 8)"
  shows "p = q"
proof -
  have "p div 8 = q div 8" using assms by (simp add: get_bucket_def nat_eq_iff pos_imp_zdiv_nonneg_iff)
  moreover have "nat (p mod 8) \<le> 7" "nat (q mod 8) \<le> 7" by simp_all
  then have "nat (p mod 8) = nat (q mod 8)" using assms(4) by linarith
  then have "p mod 8 = q mod 8" by (simp add: nat_eq_iff)
  ultimately show ?thesis by (metis div_mult_mod_eq)
qed

lemma length_bm_ops [simp]:
  "length (bm_set bm p) = length bm" "length (bm_reset bm p) = length bm"
  by (simp_all add: bm_set_def bm_reset_def)

lemma is_set_bm_set:
  assumes "0 \<le> p" "0 \<le> q" "get_bucket p < length bm"
  shows "is_set (bm_set bm p) q \<longleftrightarrow> q = p \<or> is_set bm q"
proof (cases "get_bucket q = get_bucket p")
  case True
  then have "is_set (bm_set bm p) q \<longleftrightarrow> is_set bm q \<or> 7 - nat (q mod 8) = 7 - nat (p mod 8)"
    using assms(3) by (simp add: is_set_bit bm_set_def bit_or_iff bit_get_bit)
  with same_position[OF assms(2,1) True] show ?thesis by auto
next
  case False
  then show ?thesis by (auto simp: is_set_bit bm_set_def)
qed

lemma is_set_bm_reset:
  assumes "0 \<le> p" "0 \<le> q" "get_bucket p < length bm"
  shows "is_set (bm_reset bm p) q \<longleftrightarrow> q \<noteq> p \<and> is_set bm q"
proof (cases "get_bucket q = get_bucket p")
  case True
  have "7 - nat (q mod 8) < 8" by simp
  then have "is_set (bm_reset bm p) q \<longleftrightarrow> is_set bm q \<and> 7 - nat (q mod 8) \<noteq> 7 - nat (p mod 8)"
    using assms(3) True by (simp add: is_set_bit bm_reset_def bit_and_iff bit_not_iff bit_get_bit)
  with same_position[OF assms(2,1) True] show ?thesis by auto
next
  case False
  then show ?thesis by (auto simp: is_set_bit bm_reset_def)
qed

lemma get_bucket_less: "0 \<le> p \<Longrightarrow> p < 8 * int n \<Longrightarrow> get_bucket p < n"
  by (simp add: get_bucket_def nat_less_iff pos_imp_zdiv_nonneg_iff)

lemma is_set_init: "get_bucket p < sz \<Longrightarrow> \<not> is_set (bm_init bm sz) p"
  by (simp add: is_set_def bm_init_def mem_put_def nth_append)

section \<open>Searching\<close>

lemma next_bit_step: "cur + 1 < max_n \<Longrightarrow> is_set bm (cur + 1) \<noteq> b \<Longrightarrow>
    next_bit b bm max_n cur = next_bit b bm max_n (cur + 1)"
  "cur + 1 < max_n \<Longrightarrow> is_set bm (cur + 1) = b \<Longrightarrow> next_bit b bm max_n cur = cur + 1"
  "max_n \<le> cur + 1 \<Longrightarrow> next_bit b bm max_n cur = max_n"
  by (simp_all add: next_bit.simps[of b bm max_n cur])

lemma next_bit_spec:
  "cur < max_n \<Longrightarrow> cur < next_bit b bm max_n cur \<and> next_bit b bm max_n cur \<le> max_n \<and>
     (next_bit b bm max_n cur < max_n \<longrightarrow> is_set bm (next_bit b bm max_n cur) = b) \<and>
     (\<forall>j. cur < j \<longrightarrow> j < next_bit b bm max_n cur \<longrightarrow> is_set bm j \<noteq> b)"
proof (induction b bm max_n cur rule: next_bit.induct)
  case (1 b bm max_n cur)
  show ?case
  proof (cases "cur + 1 < max_n \<and> is_set bm (cur + 1) \<noteq> b")
    case True
    then have eq: "next_bit b bm max_n cur = next_bit b bm max_n (cur + 1)" by (simp add: next_bit_step)
    have "is_set bm j \<noteq> b" if "cur < j" "j < next_bit b bm max_n (cur + 1)" for j
      using that True 1(1) by (cases "j = cur + 1") auto
    then show ?thesis using True 1(1) unfolding eq by auto
  next
    case False
    then have "next_bit b bm max_n cur = cur + 1 \<and> is_set bm (cur + 1) = b \<and> cur + 1 < max_n \<or>
        next_bit b bm max_n cur = max_n \<and> max_n = cur + 1"
      using 1(2) next_bit_step[where cur = cur and max_n = max_n and bm = bm and b = b] by force
    then show ?thesis by auto
  qed
qed

lemma first_bit_spec:
  assumes "0 \<le> max_n"
  shows "0 \<le> first_bit b bm max_n" "first_bit b bm max_n \<le> max_n"
    "first_bit b bm max_n < max_n \<Longrightarrow> is_set bm (first_bit b bm max_n) = b"
    "0 \<le> j \<Longrightarrow> j < first_bit b bm max_n \<Longrightarrow> is_set bm j \<noteq> b"
  using next_bit_spec[of "-1" max_n b bm] assms by (auto simp: first_bit_def)

end
