(* ===== verification/RecordPage.thy ===== *)
theory RecordPage
  imports Bitmap
begin

text \<open>
  The layout of a record page (\<open>record/rm_defs.h\<close>, \<open>RmPageHandle\<close> in
  \<open>record/rm_file_handle.h\<close>): the page header after the log sequence number, the bitmap, and
  fixed-size slots, all as bytes of the page. Reads after writes are worked out once here, so
  that the record file only sees a set of used slots with their bytes.
\<close>

section \<open>Headers and layout\<close>

abbreviation RM_NO_PAGE :: int where "RM_NO_PAGE \<equiv> -1"
abbreviation RM_FILE_HDR_PAGE :: int where "RM_FILE_HDR_PAGE \<equiv> 0"
abbreviation RM_FIRST_RECORD_PAGE :: int where "RM_FIRST_RECORD_PAGE \<equiv> 1"
abbreviation RM_MAX_RECORD_SIZE :: int where "RM_MAX_RECORD_SIZE \<equiv> 512"

record RmFileHdr =
  record_size :: int
  num_pages :: int
  num_records_per_page :: int
  first_free_page_no :: int
  bitmap_size :: int

datatype Rid = Rid (rid_page_no: int) (rid_slot_no: int)

definition OFFSET_PAGE_HDR :: nat where "OFFSET_PAGE_HDR = 4"
definition sizeof_RmPageHdr :: nat where "sizeof_RmPageHdr = 8"

definition next_free_page_no :: "bytes \<Rightarrow> int" where
  "next_free_page_no d = le_sint (mem_get d OFFSET_PAGE_HDR 4)"

definition num_records :: "bytes \<Rightarrow> int" where
  "num_records d = le_sint (mem_get d (OFFSET_PAGE_HDR + 4) 4)"

definition set_next_free_page_no :: "int \<Rightarrow> bytes \<Rightarrow> bytes" where
  "set_next_free_page_no v d = mem_put d OFFSET_PAGE_HDR (le_bytes 4 v)"

definition set_num_records :: "int \<Rightarrow> bytes \<Rightarrow> bytes" where
  "set_num_records v d = mem_put d (OFFSET_PAGE_HDR + 4) (le_bytes 4 v)"

definition page_bitmap :: "bytes \<Rightarrow> bytes" where
  "page_bitmap d = drop (OFFSET_PAGE_HDR + sizeof_RmPageHdr) d"

definition edit_bitmap :: "(bytes \<Rightarrow> bytes) \<Rightarrow> bytes \<Rightarrow> bytes" where
  "edit_bitmap g d = take (OFFSET_PAGE_HDR + sizeof_RmPageHdr) d @ g (page_bitmap d)"

definition slot_offset :: "RmFileHdr \<Rightarrow> int \<Rightarrow> nat" where
  "slot_offset h slot_no =
     nat (int (OFFSET_PAGE_HDR + sizeof_RmPageHdr) + bitmap_size h + slot_no * record_size h)"

definition get_slot :: "RmFileHdr \<Rightarrow> int \<Rightarrow> bytes \<Rightarrow> bytes" where
  "get_slot h slot_no d = mem_get d (slot_offset h slot_no) (nat (record_size h))"

definition put_slot :: "RmFileHdr \<Rightarrow> int \<Rightarrow> bytes \<Rightarrow> bytes \<Rightarrow> bytes" where
  "put_slot h slot_no buf d = mem_put d (slot_offset h slot_no) (take (nat (record_size h)) buf)"

text \<open>The header \<open>RmManager::create_file\<close> computes.\<close>

definition init_file_hdr :: "int \<Rightarrow> RmFileHdr" where
  "init_file_hdr rs =
     (let n = (BITMAP_WIDTH * (int PAGE_SIZE - 1 - 20) + 1) div (1 + rs * BITMAP_WIDTH)
      in \<lparr>record_size = rs, num_pages = 1, num_records_per_page = n,
          first_free_page_no = RM_NO_PAGE, bitmap_size = (n + BITMAP_WIDTH - 1) div BITMAP_WIDTH\<rparr>)"

definition hdr_to_bytes :: "RmFileHdr \<Rightarrow> bytes" where
  "hdr_to_bytes h = le_bytes 4 (record_size h) @ le_bytes 4 (num_pages h) @
     le_bytes 4 (num_records_per_page h) @ le_bytes 4 (first_free_page_no h) @ le_bytes 4 (bitmap_size h)"

definition hdr_of_bytes :: "bytes \<Rightarrow> RmFileHdr" where
  "hdr_of_bytes bs =
     \<lparr>record_size = le_sint (mem_get bs 0 4), num_pages = le_sint (mem_get bs 4 4),
      num_records_per_page = le_sint (mem_get bs 8 4), first_free_page_no = le_sint (mem_get bs 12 4),
      bitmap_size = le_sint (mem_get bs 16 4)\<rparr>"

section \<open>Well-formed layouts\<close>

text \<open>The header, the bitmap and the slots fit in the page, and the bitmap has a bit per slot.\<close>

definition layout_ok :: "RmFileHdr \<Rightarrow> bool" where
  "layout_ok h \<longleftrightarrow> 1 \<le> record_size h \<and> 1 \<le> num_records_per_page h \<and>
     num_records_per_page h \<le> 8 * bitmap_size h \<and>
     12 + bitmap_size h + num_records_per_page h * record_size h \<le> int PAGE_SIZE"

lemma layout_init:
  assumes "1 \<le> rs" "rs \<le> RM_MAX_RECORD_SIZE"
  shows "layout_ok (init_file_hdr rs)"
proof -
  let ?n = "32601 div (1 + rs * 8) :: int"
  have pos: "0 < 1 + rs * 8" using assms by simp
  have "?n * (1 + rs * 8) \<le> 32601" by (metis div_mult_mod_eq le_add_same_cancel1 mod_int_pos_iff pos less_imp_le)
  then have le: "?n + 8 * (?n * rs) \<le> 32601" by (simp add: algebra_simps)
  have "1 * (1 + rs * 8) \<le> 32601" using assms by simp
  then have n1: "1 \<le> ?n" using pos by (simp add: pos_imp_zdiv_pos_iff int_one_le_iff_zero_less)
  have b: "8 * ((?n + 7) div 8) \<le> ?n + 7" "?n \<le> 8 * ((?n + 7) div 8)" by simp_all
  from b(1) le have "12 + (?n + 7) div 8 + ?n * rs \<le> 4096" by linarith
  with n1 b(2) assms show ?thesis by (simp add: layout_ok_def init_file_hdr_def Let_def add.commute)
qed

lemma hdr_roundtrip:
  assumes "int32 (record_size h)" "int32 (num_pages h)" "int32 (num_records_per_page h)"
    "int32 (first_free_page_no h)" "int32 (bitmap_size h)"
  shows "hdr_of_bytes (hdr_to_bytes h) = h" "length (hdr_to_bytes h) = 20"
  using assms by (simp_all add: hdr_of_bytes_def hdr_to_bytes_def mem_get_def)

definition slot_ok :: "RmFileHdr \<Rightarrow> int \<Rightarrow> bool" where
  "slot_ok h s \<longleftrightarrow> 0 \<le> s \<and> s < num_records_per_page h"

lemma layout_bounds:
  assumes "layout_ok h"
  shows "1 \<le> record_size h" "1 \<le> num_records_per_page h" "0 \<le> bitmap_size h"
    "num_records_per_page h \<le> 8 * bitmap_size h"
    "12 + bitmap_size h + num_records_per_page h * record_size h \<le> 4096"
    "num_records_per_page h < 4096"
proof -
  have a: "1 \<le> record_size h" "1 \<le> num_records_per_page h" "num_records_per_page h \<le> 8 * bitmap_size h"
    "12 + bitmap_size h + num_records_per_page h * record_size h \<le> 4096" using assms by (simp_all add: layout_ok_def)
  have "num_records_per_page h * 1 \<le> num_records_per_page h * record_size h"
    using a by (intro mult_left_mono) auto
  with a show "1 \<le> record_size h" "1 \<le> num_records_per_page h" "0 \<le> bitmap_size h"
    "num_records_per_page h \<le> 8 * bitmap_size h"
    "12 + bitmap_size h + num_records_per_page h * record_size h \<le> 4096"
    "num_records_per_page h < 4096"
    by linarith+
qed

lemma slot_offset_bounds:
  assumes l: "layout_ok h" and s: "slot_ok h s"
  shows "12 + nat (bitmap_size h) \<le> slot_offset h s" "slot_offset h s + nat (record_size h) \<le> PAGE_SIZE"
    "int (slot_offset h s) = 12 + bitmap_size h + s * record_size h"
proof -
  note b = layout_bounds[OF l]
  have 0: "0 \<le> s * record_size h" using s b(1) by (simp add: slot_ok_def)
  have "(s + 1) * record_size h \<le> num_records_per_page h * record_size h"
    using s b(1) by (intro mult_right_mono) (auto simp: slot_ok_def)
  then have 1: "s * record_size h + record_size h \<le> num_records_per_page h * record_size h"
    by (simp add: algebra_simps)
  have eq: "slot_offset h s = nat (12 + bitmap_size h + s * record_size h)"
    by (simp add: slot_offset_def OFFSET_PAGE_HDR_def sizeof_RmPageHdr_def)
  show "int (slot_offset h s) = 12 + bitmap_size h + s * record_size h" using b 0 by (simp add: eq)
  then show "12 + nat (bitmap_size h) \<le> slot_offset h s" "slot_offset h s + nat (record_size h) \<le> PAGE_SIZE"
    using b 0 1 by linarith+
qed

lemma slots_disjoint:
  assumes l: "layout_ok h" and s: "slot_ok h s" and t: "slot_ok h t" and ne: "s \<noteq> t"
  shows "slot_offset h s + nat (record_size h) \<le> slot_offset h t \<or>
         slot_offset h t + nat (record_size h) \<le> slot_offset h s"
proof -
  note os = slot_offset_bounds(3)[OF l s] and ot = slot_offset_bounds(3)[OF l t]
  have r: "1 \<le> record_size h" by (rule layout_bounds(1)[OF l])
  show ?thesis
  proof (cases "s < t")
    case True
    then have "(s + 1) * record_size h \<le> t * record_size h" using r by (intro mult_right_mono) auto
    then show ?thesis using os ot r unfolding distrib_right by linarith
  next
    case False
    with ne have "(t + 1) * record_size h \<le> s * record_size h" using r by (intro mult_right_mono) auto
    then show ?thesis using os ot r unfolding distrib_right by linarith
  qed
qed

section \<open>Reading a page after writing it\<close>

definition slot_used :: "bytes \<Rightarrow> int \<Rightarrow> bool" where
  "slot_used d s \<longleftrightarrow> is_set (page_bitmap d) s"

lemma mem_get_pages:
  assumes "length d = PAGE_SIZE" "length d' = PAGE_SIZE" "\<And>i. off \<le> i \<Longrightarrow> i < off + n \<Longrightarrow> i < PAGE_SIZE \<Longrightarrow> d' ! i = d ! i"
  shows "mem_get d' off n = mem_get d off n"
  using assms by (intro mem_get_eqI) auto

lemma slot_used_nth:
  "length d = PAGE_SIZE \<Longrightarrow> 12 + get_bucket s < PAGE_SIZE \<Longrightarrow>
   slot_used d s \<longleftrightarrow> bit (d ! (12 + get_bucket s)) (7 - nat (s mod 8))"
  by (simp add: slot_used_def is_set_bit page_bitmap_def OFFSET_PAGE_HDR_def sizeof_RmPageHdr_def)

lemma bucket_bound:
  assumes "layout_ok h" "slot_ok h s"
  shows "get_bucket s < nat (bitmap_size h)" "12 + get_bucket s < PAGE_SIZE"
proof -
  note b = layout_bounds[OF assms(1)]
  show 1: "get_bucket s < nat (bitmap_size h)"
    using assms(2) b by (intro get_bucket_less) (auto simp: slot_ok_def)
  have "0 \<le> num_records_per_page h * record_size h" using b(1,2) by simp
  with 1 b show "12 + get_bucket s < PAGE_SIZE" by linarith
qed

lemma set_next_free_reads:
  assumes "length d = PAGE_SIZE" "layout_ok h"
  shows "length (set_next_free_page_no v d) = PAGE_SIZE"
    "int32 v \<Longrightarrow> next_free_page_no (set_next_free_page_no v d) = v"
    "num_records (set_next_free_page_no v d) = num_records d"
    "slot_ok h s \<Longrightarrow> slot_used (set_next_free_page_no v d) s = slot_used d s"
    "slot_ok h s \<Longrightarrow> get_slot h s (set_next_free_page_no v d) = get_slot h s d"
proof -
  let ?d = "set_next_free_page_no v d"
  show len: "length ?d = PAGE_SIZE"
    using assms by (simp add: set_next_free_page_no_def OFFSET_PAGE_HDR_def mem_simps)
  have nth: "?d ! i = d ! i" if "8 \<le> i" "i < PAGE_SIZE" for i
    using that assms by (simp add: set_next_free_page_no_def OFFSET_PAGE_HDR_def nth_mem_put)
  show "int32 v \<Longrightarrow> next_free_page_no ?d = v" "num_records ?d = num_records d"
    using assms by (simp_all add: next_free_page_no_def num_records_def set_next_free_page_no_def
        OFFSET_PAGE_HDR_def mem_simps)
  show "slot_used ?d s = slot_used d s" if "slot_ok h s"
    using bucket_bound[OF assms(2) that] nth by (simp add: slot_used_nth len assms)
  show "get_slot h s ?d = get_slot h s d" if "slot_ok h s"
    using slot_offset_bounds[OF assms(2) that] nth unfolding get_slot_def
    by (intro mem_get_pages assms len) auto
qed

lemma set_num_records_reads:
  assumes "length d = PAGE_SIZE" "layout_ok h"
  shows "length (set_num_records v d) = PAGE_SIZE"
    "next_free_page_no (set_num_records v d) = next_free_page_no d"
    "int32 v \<Longrightarrow> num_records (set_num_records v d) = v"
    "slot_ok h s \<Longrightarrow> slot_used (set_num_records v d) s = slot_used d s"
    "slot_ok h s \<Longrightarrow> get_slot h s (set_num_records v d) = get_slot h s d"
proof -
  let ?d = "set_num_records v d"
  show len: "length ?d = PAGE_SIZE"
    using assms by (simp add: set_num_records_def OFFSET_PAGE_HDR_def mem_simps)
  have nth: "?d ! i = d ! i" if "12 \<le> i" "i < PAGE_SIZE" for i
    using that assms by (simp add: set_num_records_def OFFSET_PAGE_HDR_def nth_mem_put)
  show "int32 v \<Longrightarrow> num_records ?d = v" "next_free_page_no ?d = next_free_page_no d"
    using assms by (simp_all add: next_free_page_no_def num_records_def set_num_records_def
        OFFSET_PAGE_HDR_def mem_simps)
  show "slot_used ?d s = slot_used d s" if "slot_ok h s"
    using bucket_bound[OF assms(2) that] nth by (simp add: slot_used_nth len assms)
  show "get_slot h s ?d = get_slot h s d" if "slot_ok h s"
    using slot_offset_bounds[OF assms(2) that] nth unfolding get_slot_def
    by (intro mem_get_pages assms len) auto
qed

lemma put_slot_reads:
  assumes "length d = PAGE_SIZE" "layout_ok h" "slot_ok h t" "nat (record_size h) \<le> length buf"
  shows "length (put_slot h t buf d) = PAGE_SIZE"
    "next_free_page_no (put_slot h t buf d) = next_free_page_no d"
    "num_records (put_slot h t buf d) = num_records d"
    "slot_ok h s \<Longrightarrow> slot_used (put_slot h t buf d) s = slot_used d s"
    "slot_ok h s \<Longrightarrow> get_slot h s (put_slot h t buf d) = (if s = t then take (nat (record_size h)) buf else get_slot h s d)"
proof -
  let ?d = "put_slot h t buf d" and ?b = "take (nat (record_size h)) buf"
  note o = slot_offset_bounds[OF assms(2,3)]
  have lb: "length ?b = nat (record_size h)" using assms(4) by simp
  have in_page: "slot_offset h t + length ?b \<le> length d" using o lb assms(1) by simp
  show len: "length ?d = PAGE_SIZE" using in_page assms(1) by (simp add: put_slot_def mem_simps)
  have nth: "?d ! i = d ! i" if "i < 12 + nat (bitmap_size h)" "i < PAGE_SIZE" for i
    using that o(1) in_page assms(1) by (simp add: put_slot_def nth_mem_put)
  show "next_free_page_no ?d = next_free_page_no d" "num_records ?d = num_records d"
    unfolding next_free_page_no_def num_records_def OFFSET_PAGE_HDR_def
    by (auto intro!: arg_cong[of _ _ le_sint] mem_get_pages len assms nth)
  show "slot_used ?d s = slot_used d s" if "slot_ok h s"
    using bucket_bound[OF assms(2) that] nth by (simp add: slot_used_nth len assms)
  show "get_slot h s ?d = (if s = t then ?b else get_slot h s d)" if "slot_ok h s"
    using slots_disjoint[OF assms(2) that assms(3)] in_page lb
    by (auto simp: get_slot_def put_slot_def mem_simps)
qed

lemma edit_bitmap_reads:
  assumes len: "length d = PAGE_SIZE" and lay: "layout_ok h"
    and g: "length (g (page_bitmap d)) = length (page_bitmap d)"
      "\<And>i. nat (bitmap_size h) \<le> i \<Longrightarrow> i < length (page_bitmap d) \<Longrightarrow> g (page_bitmap d) ! i = page_bitmap d ! i"
  shows "length (edit_bitmap g d) = PAGE_SIZE"
    "next_free_page_no (edit_bitmap g d) = next_free_page_no d"
    "num_records (edit_bitmap g d) = num_records d"
    "slot_used (edit_bitmap g d) s = is_set (g (page_bitmap d)) s"
    "slot_ok h s \<Longrightarrow> get_slot h s (edit_bitmap g d) = get_slot h s d"
proof -
  let ?d = "edit_bitmap g d"
  have lb: "length (page_bitmap d) = 4084"
    using len by (simp add: page_bitmap_def OFFSET_PAGE_HDR_def sizeof_RmPageHdr_def)
  have tk: "take 12 ?d = take 12 d" "drop 12 ?d = g (page_bitmap d)"
    using len by (simp_all add: edit_bitmap_def OFFSET_PAGE_HDR_def sizeof_RmPageHdr_def)
  show l: "length ?d = PAGE_SIZE"
    using len lb g(1) by (simp add: edit_bitmap_def OFFSET_PAGE_HDR_def sizeof_RmPageHdr_def)
  have lo: "?d ! i = d ! i" if "i < 12" for i
    using arg_cong[OF tk(1), of "\<lambda>x. x ! i"] that len l by simp
  have hi: "?d ! i = d ! i" if "12 + nat (bitmap_size h) \<le> i" "i < PAGE_SIZE" for i
  proof -
    have "?d ! i = drop 12 ?d ! (i - 12)" using that l by simp
    also have "\<dots> = page_bitmap d ! (i - 12)" unfolding tk(2) using that lb by (intro g(2)) auto
    also have "\<dots> = d ! i"
      using that len by (simp add: page_bitmap_def OFFSET_PAGE_HDR_def sizeof_RmPageHdr_def)
    finally show ?thesis .
  qed
  show "next_free_page_no ?d = next_free_page_no d" "num_records ?d = num_records d"
    unfolding next_free_page_no_def num_records_def OFFSET_PAGE_HDR_def
    by (auto intro!: arg_cong[of _ _ le_sint] mem_get_pages l len lo)
  show "slot_used ?d s = is_set (g (page_bitmap d)) s"
    using tk(2) by (simp add: slot_used_def page_bitmap_def OFFSET_PAGE_HDR_def sizeof_RmPageHdr_def)
  show "get_slot h s ?d = get_slot h s d" if "slot_ok h s"
    using slot_offset_bounds[OF lay that] hi unfolding get_slot_def
    by (intro mem_get_pages len l) auto
qed

lemma bitmap_set_reads:
  assumes len: "length d = PAGE_SIZE" and lay: "layout_ok h" and t: "slot_ok h t"
    and d': "d' = edit_bitmap (\<lambda>b. bm_set b t) d"
  shows "length d' = PAGE_SIZE" "next_free_page_no d' = next_free_page_no d" "num_records d' = num_records d"
    "slot_ok h s \<Longrightarrow> slot_used d' s \<longleftrightarrow> s = t \<or> slot_used d s"
    "slot_ok h s \<Longrightarrow> get_slot h s d' = get_slot h s d"
proof -
  have bk: "get_bucket t < length (page_bitmap d)"
    using bucket_bound[OF lay t] len by (simp add: page_bitmap_def OFFSET_PAGE_HDR_def sizeof_RmPageHdr_def)
  have "bm_set (page_bitmap d) t ! i = page_bitmap d ! i" if "nat (bitmap_size h) \<le> i" for i
    using that bucket_bound(1)[OF lay t] by (simp add: bm_set_def)
  note r = edit_bitmap_reads[OF len lay, of "\<lambda>b. bm_set b t", OF _ this, simplified, folded d']
  show "length d' = PAGE_SIZE" "next_free_page_no d' = next_free_page_no d" "num_records d' = num_records d"
    "slot_ok h s \<Longrightarrow> get_slot h s d' = get_slot h s d" by (rule r; assumption?)+
  show "slot_ok h s \<Longrightarrow> slot_used d' s \<longleftrightarrow> s = t \<or> slot_used d s"
    using t is_set_bm_set[OF _ _ bk] unfolding r(4) by (auto simp: slot_ok_def slot_used_def)
qed

lemma bitmap_reset_reads:
  assumes len: "length d = PAGE_SIZE" and lay: "layout_ok h" and t: "slot_ok h t"
    and d': "d' = edit_bitmap (\<lambda>b. bm_reset b t) d"
  shows "length d' = PAGE_SIZE" "next_free_page_no d' = next_free_page_no d" "num_records d' = num_records d"
    "slot_ok h s \<Longrightarrow> slot_used d' s \<longleftrightarrow> s \<noteq> t \<and> slot_used d s"
    "slot_ok h s \<Longrightarrow> get_slot h s d' = get_slot h s d"
proof -
  have bk: "get_bucket t < length (page_bitmap d)"
    using bucket_bound[OF lay t] len by (simp add: page_bitmap_def OFFSET_PAGE_HDR_def sizeof_RmPageHdr_def)
  have "bm_reset (page_bitmap d) t ! i = page_bitmap d ! i" if "nat (bitmap_size h) \<le> i" for i
    using that bucket_bound(1)[OF lay t] by (simp add: bm_reset_def)
  note r = edit_bitmap_reads[OF len lay, of "\<lambda>b. bm_reset b t", OF _ this, simplified, folded d']
  show "length d' = PAGE_SIZE" "next_free_page_no d' = next_free_page_no d" "num_records d' = num_records d"
    "slot_ok h s \<Longrightarrow> get_slot h s d' = get_slot h s d" by (rule r; assumption?)+
  show "slot_ok h s \<Longrightarrow> slot_used d' s \<longleftrightarrow> s \<noteq> t \<and> slot_used d s"
    using t is_set_bm_reset[OF _ _ bk] unfolding r(4) by (auto simp: slot_ok_def slot_used_def)
qed

section \<open>A page as a map of its slots\<close>

definition page_rec :: "RmFileHdr \<Rightarrow> bytes \<Rightarrow> int \<rightharpoonup> bytes" where
  "page_rec h d s = (if slot_ok h s \<and> slot_used d s then Some (get_slot h s d) else None)"

definition page_wf :: "RmFileHdr \<Rightarrow> bytes \<Rightarrow> bool" where
  "page_wf h d \<longleftrightarrow> length d = PAGE_SIZE \<and> num_records d = int (card (dom (page_rec h d)))"

text \<open>The byte edits of an insertion, of an insertion at a given slot and of a deletion.\<close>

definition ins_page :: "RmFileHdr \<Rightarrow> int \<Rightarrow> bytes \<Rightarrow> bytes \<Rightarrow> bytes" where
  "ins_page h s buf d =
     (let d1 = edit_bitmap (\<lambda>b. bm_set b s) (put_slot h s buf d)
      in set_num_records (num_records d1 + 1) d1)"

definition ins_at_page :: "RmFileHdr \<Rightarrow> int \<Rightarrow> bytes \<Rightarrow> bytes \<Rightarrow> bytes" where
  "ins_at_page h s buf d =
     put_slot h s buf
       (if \<not> is_set (page_bitmap d) s
        then let d1 = edit_bitmap (\<lambda>b. bm_set b s) d in set_num_records (num_records d1 + 1) d1
        else d)"

definition del_page :: "RmFileHdr \<Rightarrow> int \<Rightarrow> bytes \<Rightarrow> bytes" where
  "del_page h s d =
     (let d1 = put_slot h s (replicate (nat (record_size h)) 0) (edit_bitmap (\<lambda>b. bm_reset b s) d)
      in set_num_records (num_records d1 - 1) d1)"

lemma finite_page_rec: "finite (dom (page_rec h d))"
  by (rule finite_subset[of _ "{0..<num_records_per_page h}"]) (auto simp: page_rec_def slot_ok_def split: if_splits)

lemma card_page_rec: "int (card (dom (page_rec h d))) \<le> num_records_per_page h" if "layout_ok h"
proof -
  have "card (dom (page_rec h d)) \<le> card {0..<num_records_per_page h}"
    by (rule card_mono) (auto simp: page_rec_def slot_ok_def split: if_splits)
  with layout_bounds[OF that] show ?thesis by simp
qed

lemma num_records_int32:
  assumes "layout_ok h" "page_wf h d"
  shows "0 \<le> num_records d" "num_records d \<le> num_records_per_page h"
    "int32 (num_records d + 1)" "int32 (num_records d - 1)"
  using assms card_page_rec[OF assms(1), of d] layout_bounds[OF assms(1)]
  by (simp_all add: page_wf_def int32_def)

lemma page_wfI:
  assumes "length d = PAGE_SIZE" "num_records d = int (card (dom m))" "page_rec h d = m"
  shows "page_wf h d"
  using assms by (simp add: page_wf_def)

lemma ins_page_ok:
  assumes wf: "page_wf h d" and lay: "layout_ok h" and s: "slot_ok h s" "page_rec h d s = None"
    and buf: "length buf = nat (record_size h)" and d': "d' = ins_page h s buf d"
  shows "page_wf h d'" "page_rec h d' = (page_rec h d)(s \<mapsto> buf)" "num_records d' = num_records d + 1"
    "next_free_page_no d' = next_free_page_no d"
proof -
  have len: "length d = PAGE_SIZE" using wf by (simp add: page_wf_def)
  have lb: "nat (record_size h) \<le> length buf" using buf by simp
  define d1 where "d1 = put_slot h s buf d"
  define d2 where "d2 = edit_bitmap (\<lambda>b. bm_set b s) d1"
  have eq: "d' = set_num_records (num_records d2 + 1) d2" by (simp add: d' d1_def d2_def ins_page_def Let_def)
  note p = put_slot_reads[OF len lay s(1) lb, folded d1_def]
  note q = bitmap_set_reads[OF p(1) lay s(1) d2_def]
  note r = set_num_records_reads[OF q(1) lay, where v = "num_records d2 + 1", folded eq]
  have i32: "int32 (num_records d2 + 1)" using num_records_int32(3)[OF lay wf] by (simp add: q(3) p(3))
  have rec: "page_rec h d' = (page_rec h d)(s \<mapsto> buf)"
    using s buf by (auto simp: page_rec_def r(4,5) q(4,5) p(4,5) fun_eq_iff)
  have n: "num_records d' = num_records d + 1" by (simp add: r(3)[OF i32] q(3) p(3))
  have "card (dom ((page_rec h d)(s \<mapsto> buf))) = Suc (card (dom (page_rec h d)))"
    using s finite_page_rec[of h d] by (simp add: card_insert_if domIff)
  with wf n rec show "page_wf h d'" by (intro page_wfI[OF _ _ rec]) (simp_all add: r(1) page_wf_def)
  show "page_rec h d' = (page_rec h d)(s \<mapsto> buf)" "num_records d' = num_records d + 1"
    "next_free_page_no d' = next_free_page_no d"
    using rec n by (simp_all add: r(2) q(2) p(2))
qed

lemma put_slot_ok:
  assumes wf: "page_wf h d" and lay: "layout_ok h" and s: "slot_ok h s" "page_rec h d s \<noteq> None"
    and buf: "length buf = nat (record_size h)" and d': "d' = put_slot h s buf d"
  shows "page_wf h d'" "page_rec h d' = (page_rec h d)(s \<mapsto> buf)" "num_records d' = num_records d"
    "next_free_page_no d' = next_free_page_no d"
proof -
  have len: "length d = PAGE_SIZE" using wf by (simp add: page_wf_def)
  have lb: "nat (record_size h) \<le> length buf" using buf by simp
  note p = put_slot_reads[OF len lay s(1) lb, folded d']
  show rec: "page_rec h d' = (page_rec h d)(s \<mapsto> buf)"
    using s buf by (auto simp: page_rec_def p(4,5) fun_eq_iff split: if_splits)
  have "dom ((page_rec h d)(s \<mapsto> buf)) = dom (page_rec h d)" using s(2) by auto
  with wf show "page_wf h d'" by (intro page_wfI[OF _ _ rec]) (simp_all add: p page_wf_def)
  show "num_records d' = num_records d" "next_free_page_no d' = next_free_page_no d" by (rule p)+
qed

lemma ins_at_page_ok:
  assumes wf: "page_wf h d" and lay: "layout_ok h" and s: "slot_ok h s"
    and buf: "length buf = nat (record_size h)" and d': "d' = ins_at_page h s buf d"
  shows "page_wf h d'" "page_rec h d' = (page_rec h d)(s \<mapsto> buf)" "num_records d \<le> num_records d'"
    "next_free_page_no d' = next_free_page_no d"
proof -
  have len: "length d = PAGE_SIZE" using wf by (simp add: page_wf_def)
  have lb: "nat (record_size h) \<le> length buf" using buf by simp
  have goal: "page_wf h d' \<and> page_rec h d' = (page_rec h d)(s \<mapsto> buf) \<and> num_records d \<le> num_records d' \<and>
    next_free_page_no d' = next_free_page_no d"
  proof (cases "page_rec h d s = None")
    case False
    then have "d' = put_slot h s buf d" using s d' by (auto simp: ins_at_page_def page_rec_def slot_used_def split: if_splits)
    with put_slot_ok[OF wf lay s False buf] show ?thesis by simp
  next
    case True
    define d1 where "d1 = edit_bitmap (\<lambda>b. bm_set b s) d"
    define d2 where "d2 = set_num_records (num_records d1 + 1) d1"
    have eq: "d' = put_slot h s buf d2"
      using True s by (simp add: d' d1_def d2_def ins_at_page_def Let_def page_rec_def slot_used_def split: if_splits)
    note q = bitmap_set_reads[OF len lay s d1_def]
    note r = set_num_records_reads[OF q(1) lay, where v = "num_records d1 + 1", folded d2_def]
    note p = put_slot_reads[OF r(1) lay s lb, folded eq]
    have i32: "int32 (num_records d1 + 1)" using num_records_int32(3)[OF lay wf] by (simp add: q(3))
    have rec: "page_rec h d' = (page_rec h d)(s \<mapsto> buf)"
      using s buf by (auto simp: page_rec_def r(4,5) q(4,5) p(4,5) fun_eq_iff)
    have n: "num_records d' = num_records d + 1" by (simp add: r(3)[OF i32] q(3) p(3))
    have "card (dom ((page_rec h d)(s \<mapsto> buf))) = Suc (card (dom (page_rec h d)))"
      using True finite_page_rec[of h d] by (simp add: card_insert_if domIff)
    with wf n rec have "page_wf h d'" by (intro page_wfI[OF _ _ rec]) (simp_all add: p(1) page_wf_def)
    with rec n show ?thesis by (simp add: p(2) r(2) q(2))
  qed
  then show "page_wf h d'" "page_rec h d' = (page_rec h d)(s \<mapsto> buf)" "num_records d \<le> num_records d'"
    "next_free_page_no d' = next_free_page_no d" by blast+
qed

lemma del_page_ok:
  assumes wf: "page_wf h d" and lay: "layout_ok h" and s: "slot_ok h s" "page_rec h d s \<noteq> None"
    and d': "d' = del_page h s d"
  shows "page_wf h d'" "page_rec h d' = (page_rec h d)(s := None)" "num_records d' = num_records d - 1"
    "next_free_page_no d' = next_free_page_no d"
proof -
  have len: "length d = PAGE_SIZE" using wf by (simp add: page_wf_def)
  let ?z = "replicate (nat (record_size h)) (0 :: byte)"
  define d1 where "d1 = edit_bitmap (\<lambda>b. bm_reset b s) d"
  define d2 where "d2 = put_slot h s ?z d1"
  have eq: "d' = set_num_records (num_records d2 - 1) d2" by (simp add: d' d1_def d2_def del_page_def Let_def)
  have lz: "nat (record_size h) \<le> length ?z" by simp
  note q = bitmap_reset_reads[OF len lay s(1) d1_def]
  note p = put_slot_reads[OF q(1) lay s(1) lz, folded d2_def]
  note r = set_num_records_reads[OF p(1) lay, where v = "num_records d2 - 1", folded eq]
  have i32: "int32 (num_records d2 - 1)" using num_records_int32(4)[OF lay wf] by (simp add: q(3) p(3))
  have rec: "page_rec h d' = (page_rec h d)(s := None)"
    using s by (auto simp: page_rec_def r(4,5) q(4,5) p(4,5) fun_eq_iff split: if_splits)
  have n: "num_records d' = num_records d - 1" by (simp add: r(3)[OF i32] q(3) p(3))
  have "int (card (dom ((page_rec h d)(s := None)))) = int (card (dom (page_rec h d))) - 1"
    using s(2) finite_page_rec[of h d] card_gt_0_iff[of "dom (page_rec h d)"] by (auto simp: card_Diff_singleton_if)
  with wf n rec show "page_wf h d'" by (intro page_wfI[OF _ _ rec]) (simp_all add: r(1) page_wf_def)
  show "page_rec h d' = (page_rec h d)(s := None)" "num_records d' = num_records d - 1"
    "next_free_page_no d' = next_free_page_no d"
    using rec n by (simp_all add: r(2) q(2) p(2))
qed

end
