(* ===== verification/LruReplacer.thy ===== *)
theory LruReplacer
  imports Prelude
begin

text \<open>
  The LRU replacer (\<open>replacer/lru_replacer.h\<close>, \<open>replacer/lru_replacer.cpp\<close>). The
  \<open>std::list\<close> is a list of nodes with an identity, so that the iterators the hash map holds
  are modelled as node identities and \<open>list::erase(iterator)\<close> removes the node an iterator
  designates. The locale \<open>replacer\<close> is the interface the buffer pool relies on; the model is
  an interpretation of it, and simulates a plain most-recent-first list.
\<close>

section \<open>State and operations\<close>

record lru_replacer =
  LRUlist :: "(nat \<times> frame_id_t) list"   \<comment> \<open>list nodes (identity, frame id), most recent first\<close>
  LRUhash :: "frame_id_t \<rightharpoonup> nat"        \<comment> \<open>frame id to the iterator of its node\<close>
  max_size :: nat
  next_node :: nat                       \<comment> \<open>identity of the next node \<open>push_front\<close> allocates\<close>

definition LRUReplacer :: "nat \<Rightarrow> lru_replacer" where
  "LRUReplacer num_pages =
     \<lparr>LRUlist = [], LRUhash = Map.empty, max_size = num_pages, next_node = 0\<rparr>"

definition erase_node :: "nat \<Rightarrow> (nat \<times> frame_id_t) list \<Rightarrow> (nat \<times> frame_id_t) list" where
  "erase_node it xs = filter (\<lambda>n. fst n \<noteq> it) xs"

definition victim :: "lru_replacer \<Rightarrow> frame_id_t option \<times> lru_replacer" where
  "victim r =
     (if LRUlist r = [] then (None, r)
      else let frame_id = snd (last (LRUlist r)) in
        (Some frame_id,
         r\<lparr>LRUhash := (LRUhash r)(frame_id := None), LRUlist := butlast (LRUlist r)\<rparr>))"

definition pin :: "frame_id_t \<Rightarrow> lru_replacer \<Rightarrow> lru_replacer" where
  "pin frame_id r =
     (case LRUhash r frame_id of
        None \<Rightarrow> r
      | Some iter \<Rightarrow>
          r\<lparr>LRUlist := erase_node iter (LRUlist r), LRUhash := (LRUhash r)(frame_id := None)\<rparr>)"

definition unpin :: "frame_id_t \<Rightarrow> lru_replacer \<Rightarrow> lru_replacer" where
  "unpin frame_id r =
     (if LRUhash r frame_id \<noteq> None \<or> max_size r \<le> length (LRUlist r) then r
      else r\<lparr>LRUlist := (next_node r, frame_id) # LRUlist r,
             LRUhash := (LRUhash r)(frame_id \<mapsto> next_node r),
             next_node := Suc (next_node r)\<rparr>)"

definition replacer_size :: "lru_replacer \<Rightarrow> nat" where
  "replacer_size r = length (LRUlist r)"

section \<open>Invariant and abstraction\<close>

definition evictable :: "lru_replacer \<Rightarrow> frame_id_t list" where
  "evictable r = map snd (LRUlist r)"

definition lru_inv :: "lru_replacer \<Rightarrow> bool" where
  "lru_inv r \<longleftrightarrow>
     distinct (map fst (LRUlist r)) \<and> distinct (map snd (LRUlist r)) \<and>
     (\<forall>f n. LRUhash r f = Some n \<longleftrightarrow> (n, f) \<in> set (LRUlist r)) \<and>
     (\<forall>n\<in>set (LRUlist r). fst n < next_node r) \<and>
     length (LRUlist r) \<le> max_size r"

lemma lru_inv_hash_None: "lru_inv r \<Longrightarrow> LRUhash r f = None \<longleftrightarrow> f \<notin> set (evictable r)"
  unfolding lru_inv_def evictable_def by (metis (no_types, lifting) imageE image_eqI list.set_map
      not_Some_eq prod.collapse snd_conv)

lemma lru_inv_init: "lru_inv (LRUReplacer n)"
  by (simp add: lru_inv_def LRUReplacer_def)

lemma evictable_init [simp]: "evictable (LRUReplacer n) = []"
  by (simp add: evictable_def LRUReplacer_def)

lemma erase_node_map_snd:
  assumes "distinct (map fst xs)" "distinct (map snd xs)" "(it, f) \<in> set xs"
  shows "map snd (erase_node it xs) = remove1 f (map snd xs)"
  using assms
proof (induction xs)
  case Nil
  then show ?case by simp
next
  case (Cons x xs)
  show ?case
  proof (cases "x = (it, f)")
    case True
    with Cons.prems have "it \<notin> fst ` set xs" by simp
    then have "erase_node it xs = xs"
      by (auto simp: erase_node_def intro!: filter_True)
    with True show ?thesis by (simp add: erase_node_def)
  next
    case False
    with Cons.prems have "(it, f) \<in> set xs" by simp
    with Cons.prems have "fst x \<noteq> it" "snd x \<noteq> f" by (force simp: image_iff)+
    with Cons \<open>(it, f) \<in> set xs\<close> show ?thesis by (simp add: erase_node_def)
  qed
qed

lemma distinct_map_unique:
  "distinct (map g xs) \<Longrightarrow> x \<in> set xs \<Longrightarrow> y \<in> set xs \<Longrightarrow> g x = g y \<Longrightarrow> x = y"
  by (meson distinct_map inj_onD)

lemma lru_inv_pin:
  assumes inv: "lru_inv r"
  shows "lru_inv (pin f r)"
proof (cases "LRUhash r f")
  case None
  with inv show ?thesis by (simp add: pin_def)
next
  case (Some it)
  with inv have mem: "(it, f) \<in> set (LRUlist r)" by (simp add: lru_inv_def)
  have df: "distinct (map fst (LRUlist r))" and ds: "distinct (map snd (LRUlist r))"
    using inv by (simp_all add: lru_inv_def)
  have hash: "((LRUhash r)(f := None)) g = Some n \<longleftrightarrow> (n, g) \<in> set (LRUlist r) \<and> n \<noteq> it" for g n
  proof -
    have "LRUhash r g = Some n \<longleftrightarrow> (n, g) \<in> set (LRUlist r)"
      using inv unfolding lru_inv_def by blast
    moreover have "n = it \<longleftrightarrow> g = f" if "(n, g) \<in> set (LRUlist r)"
      using distinct_map_unique[OF df mem that] distinct_map_unique[OF ds mem that] by auto
    ultimately show ?thesis by (cases "g = f") auto
  qed
  have eq: "pin f r = r\<lparr>LRUlist := erase_node it (LRUlist r), LRUhash := (LRUhash r)(f := None)\<rparr>"
    using Some by (simp add: pin_def)
  have "length (erase_node it (LRUlist r)) \<le> max_size r"
    using inv length_filter_le[of _ "LRUlist r"] unfolding lru_inv_def erase_node_def
    by (meson order.trans)
  moreover have "\<forall>n\<in>set (erase_node it (LRUlist r)). fst n < next_node r"
    using inv by (simp add: lru_inv_def erase_node_def)
  moreover have "\<forall>g n. ((LRUhash r)(f := None)) g = Some n \<longleftrightarrow> (n, g) \<in> set (erase_node it (LRUlist r))"
    unfolding hash by (simp add: erase_node_def)
  moreover have "distinct (map fst (erase_node it (LRUlist r)))" "distinct (map snd (erase_node it (LRUlist r)))"
    using df ds by (simp_all add: erase_node_def distinct_map_filter)
  ultimately show ?thesis
    unfolding eq lru_inv_def by simp
qed

lemma lru_inv_unpin: "lru_inv r \<Longrightarrow> lru_inv (unpin f r)"
  using lru_inv_hash_None[of r f]
  unfolding lru_inv_def unpin_def evictable_def by (auto simp: image_iff less_Suc_eq)

lemma lru_inv_victim:
  assumes "lru_inv r"
  shows "lru_inv (snd (victim r))"
proof (cases "LRUlist r" rule: rev_cases)
  case Nil
  with assms show ?thesis by (simp add: victim_def)
next
  case (snoc xs x)
  obtain n f where x: "x = (n, f)" by (cases x)
  from assms snoc x show ?thesis
    by (fastforce simp: lru_inv_def victim_def Let_def image_iff)
qed

lemma evictable_pin: "lru_inv r \<Longrightarrow> evictable (pin f r) = remove1 f (evictable r)"
proof (cases "LRUhash r f")
  case None
  assume "lru_inv r"
  with None have "f \<notin> set (evictable r)" by (simp add: lru_inv_hash_None)
  with None show ?thesis by (simp add: pin_def remove1_idem)
next
  case (Some it)
  assume inv: "lru_inv r"
  with Some have "(it, f) \<in> set (LRUlist r)" by (simp add: lru_inv_def)
  with inv have "map snd (erase_node it (LRUlist r)) = remove1 f (map snd (LRUlist r))"
    by (intro erase_node_map_snd) (simp_all add: lru_inv_def)
  with Some show ?thesis by (simp add: pin_def evictable_def)
qed

lemma evictable_unpin:
  "lru_inv r \<Longrightarrow> evictable (unpin f r) =
     (if f \<in> set (evictable r) \<or> max_size r \<le> length (evictable r) then evictable r
      else f # evictable r)"
  using lru_inv_hash_None[of r f] by (auto simp: unpin_def evictable_def)

lemma evictable_victim:
  "victim r = (None, r) \<and> evictable r = [] \<or>
   (\<exists>r'. victim r = (Some (last (evictable r)), r') \<and> evictable r \<noteq> [] \<and>
         evictable r' = butlast (evictable r))"
  by (auto simp: victim_def evictable_def Let_def last_map map_butlast)

lemma max_size_ops [simp]:
  "max_size (pin f r) = max_size r" "max_size (unpin f r) = max_size r"
  "max_size (snd (victim r)) = max_size r" "max_size (LRUReplacer n) = n"
  by (auto simp: pin_def unpin_def victim_def LRUReplacer_def Let_def split: option.splits)

section \<open>The replacer interface\<close>

datatype replacer_op = Victim | Pin frame_id_t | Unpin frame_id_t

text \<open>The specification machine: a list of evictable frames, most recently released first,
  with at most \<open>n\<close> entries.\<close>

fun spec_step :: "nat \<Rightarrow> frame_id_t list \<Rightarrow> replacer_op \<Rightarrow> frame_id_t option \<times> frame_id_t list" where
  "spec_step n xs Victim = (if xs = [] then (None, xs) else (Some (last xs), butlast xs))"
| "spec_step n xs (Pin f) = (None, remove1 f xs)"
| "spec_step n xs (Unpin f) = (None, if f \<in> set xs \<or> n \<le> length xs then xs else f # xs)"

fun spec_run :: "nat \<Rightarrow> frame_id_t list \<Rightarrow> replacer_op list \<Rightarrow> frame_id_t option list \<times> frame_id_t list" where
  "spec_run n xs [] = ([], xs)"
| "spec_run n xs (op # ops) =
     (let (out, ys) = spec_step n xs op; (outs, zs) = spec_run n ys ops in (out # outs, zs))"

locale replacer =
  fixes r_victim :: "'r \<Rightarrow> frame_id_t option \<times> 'r"
    and r_pin :: "frame_id_t \<Rightarrow> 'r \<Rightarrow> 'r"
    and r_unpin :: "frame_id_t \<Rightarrow> 'r \<Rightarrow> 'r"
    and r_list :: "'r \<Rightarrow> frame_id_t list"
    and r_cap :: "'r \<Rightarrow> nat"
    and r_inv :: "'r \<Rightarrow> bool"
  assumes victim_empty: "r_inv r \<Longrightarrow> r_list r = [] \<Longrightarrow> r_victim r = (None, r)"
    and victim_out: "r_inv r \<Longrightarrow> r_list r \<noteq> [] \<Longrightarrow> fst (r_victim r) = Some (last (r_list r))"
    and victim_list: "r_inv r \<Longrightarrow> r_list (snd (r_victim r)) = butlast (r_list r)"
    and pin_list: "r_inv r \<Longrightarrow> r_list (r_pin f r) = remove1 f (r_list r)"
    and unpin_list: "r_inv r \<Longrightarrow> r_list (r_unpin f r) =
          (if f \<in> set (r_list r) \<or> r_cap r \<le> length (r_list r) then r_list r else f # r_list r)"
    and cap_ops: "r_cap (r_pin f r) = r_cap r" "r_cap (r_unpin f r) = r_cap r"
          "r_cap (snd (r_victim r)) = r_cap r"
    and inv_ops: "r_inv r \<Longrightarrow> r_inv (r_pin f r)" "r_inv r \<Longrightarrow> r_inv (r_unpin f r)"
          "r_inv r \<Longrightarrow> r_inv (snd (r_victim r))"
    and list_distinct: "r_inv r \<Longrightarrow> distinct (r_list r)"
begin

fun run_step :: "'r \<Rightarrow> replacer_op \<Rightarrow> frame_id_t option \<times> 'r" where
  "run_step r Victim = r_victim r"
| "run_step r (Pin f) = (None, r_pin f r)"
| "run_step r (Unpin f) = (None, r_unpin f r)"

fun run :: "'r \<Rightarrow> replacer_op list \<Rightarrow> frame_id_t option list \<times> 'r" where
  "run r [] = ([], r)"
| "run r (op # ops) =
     (let (out, r') = run_step r op; (outs, r'') = run r' ops in (out # outs, r''))"

lemma step_simulates:
  assumes "r_inv r" "run_step r op = (out, r')"
  shows "spec_step (r_cap r) (r_list r) op = (out, r_list r') \<and> r_inv r' \<and> r_cap r' = r_cap r"
  using assms
proof (cases op)
  case Victim
  with assms(2) have r': "r' = snd (r_victim r)" "out = fst (r_victim r)" by simp_all
  show ?thesis
  proof (cases "r_list r = []")
    case True
    with assms(1) r' Victim show ?thesis by (simp add: victim_empty)
  next
    case False
    with assms(1) r' Victim show ?thesis by (simp add: victim_out victim_list inv_ops cap_ops)
  qed
qed (auto simp: pin_list unpin_list inv_ops cap_ops)

lemma run_simulates:
  "r_inv r \<Longrightarrow> run r ops = (outs, r') \<Longrightarrow>
   spec_run (r_cap r) (r_list r) ops = (outs, r_list r') \<and> r_inv r'"
proof (induction ops arbitrary: r outs r')
  case Nil
  then show ?case by simp
next
  case (Cons op ops)
  obtain out r1 where step: "run_step r op = (out, r1)" by fastforce
  obtain outs' r2 where rest: "run r1 ops = (outs', r2)" by fastforce
  from step_simulates[OF Cons.prems(1) step]
  have sim: "spec_step (r_cap r) (r_list r) op = (out, r_list r1)" "r_inv r1" "r_cap r1 = r_cap r"
    by simp_all
  with Cons.IH[OF sim(2) rest] Cons.prems(2) step rest show ?case by simp
qed

lemma victim_in_list:
  "r_inv r \<Longrightarrow> r_victim r = (Some f, r') \<Longrightarrow>
     f \<in> set (r_list r) \<and> set (r_list r') = set (r_list r) - {f} \<and> r_inv r'"
  using victim_out[of r] victim_list[of r] victim_empty[of r] inv_ops(3)[of r] list_distinct[of r]
  by (cases "r_list r" rule: rev_cases) auto

lemma pin_set: "r_inv r \<Longrightarrow> set (r_list (r_pin f r)) = set (r_list r) - {f}"
  using list_distinct[of r] by (simp add: pin_list set_remove1_eq)

lemma unpin_set:
  "r_inv r \<Longrightarrow> length (r_list r) < r_cap r \<Longrightarrow> set (r_list (r_unpin f r)) = insert f (set (r_list r))"
  by (auto simp: unpin_list)

end

interpretation lru: replacer victim pin unpin evictable max_size lru_inv
proof (unfold_locales, goal_cases)
  case (1 r)
  then show ?case using evictable_victim[of r] by auto
next
  case (2 r)
  then show ?case using evictable_victim[of r] by auto
next
  case (3 r)
  then show ?case using evictable_victim[of r] by auto
next
  case (12 r)
  then show ?case by (simp add: lru_inv_def evictable_def)
qed (simp_all add: evictable_pin evictable_unpin lru_inv_pin lru_inv_unpin lru_inv_victim)

section \<open>Properties\<close>

text \<open>A run of the replacer, as a function of the model's operations.\<close>

fun lru_step :: "lru_replacer \<Rightarrow> replacer_op \<Rightarrow> frame_id_t option \<times> lru_replacer" where
  "lru_step r Victim = victim r"
| "lru_step r (Pin f) = (None, pin f r)"
| "lru_step r (Unpin f) = (None, unpin f r)"

fun lru_run :: "lru_replacer \<Rightarrow> replacer_op list \<Rightarrow> frame_id_t option list \<times> lru_replacer" where
  "lru_run r [] = ([], r)"
| "lru_run r (op # ops) =
     (let (out, r') = lru_step r op; (outs, r'') = lru_run r' ops in (out # outs, r''))"

lemma lru_step_run_step: "lru_step r op = lru.run_step r op"
  by (cases op) simp_all

lemma lru_run_run: "lru_run r ops = lru.run r ops"
  by (induction ops arbitrary: r) (simp_all add: lru_step_run_step split_def)

lemma spec_step_length: "length xs \<le> n \<Longrightarrow> length (snd (spec_step n xs op)) \<le> n"
  by (cases op) (auto simp: length_remove1)

lemma spec_run_length: "length xs \<le> n \<Longrightarrow> length (snd (spec_run n xs ops)) \<le> n"
  using spec_step_length by (induction ops arbitrary: xs) (simp_all add: split_def Let_def)

text \<open>Property C30: from its construction on, for every sequence of \<open>victim\<close>, \<open>pin\<close> and
  \<open>unpin\<close> calls, the replacer returns the victims of the specification machine, a list of the
  evictable frames with the most recently released first, and its list is that machine's.\<close>

theorem lru_refines_spec:
  "case lru_run (LRUReplacer n) ops of (outs, r) \<Rightarrow>
     spec_run n [] ops = (outs, evictable r) \<and> replacer_size r \<le> n"
proof -
  obtain outs r where run: "lru_run (LRUReplacer n) ops = (outs, r)" by fastforce
  from lru.run_simulates[OF lru_inv_init, of n ops outs r] run
  have sim: "spec_run n [] ops = (outs, evictable r)" and inv: "lru_inv r"
    by (simp_all add: lru_run_run)
  from spec_run_length[of "[]" n ops] sim have "replacer_size r \<le> n" by (simp add: replacer_size_def evictable_def)
  with run sim show ?thesis by simp
qed

end
