(* ===== verification/DiskManager.thy ===== *)
theory DiskManager
  imports Prelude
begin

text \<open>
  The disk manager (\<open>storage/disk_manager.h\<close>, \<open>storage/disk_manager.cpp\<close>) over a model of
  the POSIX calls it makes. A regular file is its byte contents; a descriptor designates a
  path; \<open>write\<close> past the end fills the gap with zeros and \<open>read\<close> returns at most what is
  there. What \<open>open(2)\<close> returns is chosen by the operating system and is an argument of the
  operations that call it. Calls on an open descriptor of a regular file do not fail in the
  model, so a full disk is outside it. The shell commands of \<open>create_dir\<close> and
  \<open>destroy_dir\<close> are not modelled.
\<close>

section \<open>Files and descriptors\<close>

record os_state =
  os_files :: "string \<rightharpoonup> bytes"
  os_fds :: "int \<rightharpoonup> string"

definition pwrite :: "bytes \<Rightarrow> nat \<Rightarrow> bytes \<Rightarrow> bytes" where
  "pwrite c pos bs = take pos (c @ replicate (pos - length c) 0) @ bs @ drop (pos + length bs) c"

definition os_content :: "os_state \<Rightarrow> int \<Rightarrow> bytes option" where
  "os_content os fd = Option.bind (os_fds os fd) (os_files os)"

definition os_lseek :: "os_state \<Rightarrow> int \<Rightarrow> int \<Rightarrow> int" where
  "os_lseek os fd pos = (if os_content os fd \<noteq> None \<and> 0 \<le> pos then pos else -1)"

definition os_write :: "os_state \<Rightarrow> int \<Rightarrow> nat \<Rightarrow> bytes \<Rightarrow> int \<times> os_state" where
  "os_write os fd pos bs =
     (case (os_fds os fd, os_content os fd) of
        (Some path, Some c) \<Rightarrow>
          (int (length bs), os\<lparr>os_files := (os_files os)(path \<mapsto> pwrite c pos bs)\<rparr>)
      | _ \<Rightarrow> (-1, os))"

definition os_read :: "os_state \<Rightarrow> int \<Rightarrow> nat \<Rightarrow> nat \<Rightarrow> bytes" where
  "os_read os fd pos n = (case os_content os fd of None \<Rightarrow> [] | Some c \<Rightarrow> mem_get c pos n)"

section \<open>The disk manager\<close>

record disk_manager =
  path2fd :: "string \<rightharpoonup> int"
  fd2path :: "int \<rightharpoonup> string"
  log_fd :: int
  fd2pageno :: "int \<Rightarrow> int"
  dm_os :: os_state

abbreviation MAX_FD :: int where "MAX_FD \<equiv> 8192"

definition LOG_FILE_NAME :: string where "LOG_FILE_NAME = ''db.log''"

definition DiskManager :: "os_state \<Rightarrow> disk_manager" where
  "DiskManager os =
     \<lparr>path2fd = Map.empty, fd2path = Map.empty, log_fd = -1, fd2pageno = (\<lambda>_. 0), dm_os = os\<rparr>"

definition write_page :: "int \<Rightarrow> page_id_t \<Rightarrow> bytes \<Rightarrow> nat \<Rightarrow> (disk_manager, unit) comp" where
  "write_page fd page_no offset num_bytes d =
     (let pos = os_lseek (dm_os d) fd (page_no * int PAGE_SIZE) in
      if pos = -1 then (Inl UnixError, d)
      else
        let (bytes_write, os') = os_write (dm_os d) fd (nat pos) (take num_bytes offset);
            d' = d\<lparr>dm_os := os'\<rparr>
        in if bytes_write \<noteq> int num_bytes then (Inl (InternalError ''DiskManager::write_page Error''), d')
           else (Inr (), d'))"

text \<open>\<open>read_page\<close> returns its outcome and the buffer it filled: a short read leaves the
  bytes it got in the buffer before it throws.\<close>

definition read_page ::
  "disk_manager \<Rightarrow> int \<Rightarrow> page_id_t \<Rightarrow> bytes \<Rightarrow> nat \<Rightarrow> (rmdb_error + unit) \<times> bytes" where
  "read_page d fd page_no offset num_bytes =
     (let pos = os_lseek (dm_os d) fd (page_no * int PAGE_SIZE) in
      if pos = -1 then (Inl UnixError, offset)
      else
        let got = os_read (dm_os d) fd (nat pos) num_bytes;
            offset' = mem_put offset 0 got
        in if length got \<noteq> num_bytes then (Inl (InternalError ''DiskManager::read_page Error''), offset')
           else (Inr (), offset'))"

definition allocate_page :: "int \<Rightarrow> (disk_manager, page_id_t) comp" where
  "allocate_page fd d =
     (if 0 \<le> fd \<and> fd < MAX_FD
      then (Inr (fd2pageno d fd), d\<lparr>fd2pageno := (fd2pageno d)(fd := fd2pageno d fd + 1)\<rparr>)
      else (Inl AssertionFailure, d))"

definition deallocate_page :: "page_id_t \<Rightarrow> disk_manager \<Rightarrow> disk_manager" where
  "deallocate_page page_id d = d"

definition is_file :: "disk_manager \<Rightarrow> string \<Rightarrow> bool" where
  "is_file d path \<longleftrightarrow> os_files (dm_os d) path \<noteq> None"

definition get_file_size :: "disk_manager \<Rightarrow> string \<Rightarrow> int" where
  "get_file_size d file_name =
     (case os_files (dm_os d) file_name of None \<Rightarrow> -1 | Some c \<Rightarrow> int (length c))"

definition set_fd2pageno :: "int \<Rightarrow> int \<Rightarrow> disk_manager \<Rightarrow> disk_manager" where
  "set_fd2pageno fd start_page_no d = d\<lparr>fd2pageno := (fd2pageno d)(fd := start_page_no)\<rparr>"

definition get_fd2pageno :: "disk_manager \<Rightarrow> int \<Rightarrow> page_id_t" where
  "get_fd2pageno d fd = fd2pageno d fd"

text \<open>\<open>ofd\<close> is what \<open>open(2)\<close> returns: \<open>-1\<close>, or the new descriptor.\<close>

definition dm_create_file :: "int \<Rightarrow> string \<Rightarrow> (disk_manager, unit) comp" where
  "dm_create_file ofd path d =
     (if is_file d path then (Inl (FileExistsError path), d)
      else if ofd = -1 then (Inl UnixError, d)
      else (Inr (), d\<lparr>dm_os := (dm_os d)\<lparr>os_files := (os_files (dm_os d))(path \<mapsto> [])\<rparr>\<rparr>))"

definition dm_destroy_file :: "string \<Rightarrow> (disk_manager, unit) comp" where
  "dm_destroy_file path d =
     (if \<not> is_file d path then (Inl (FileNotFoundError path), d)
      else if path2fd d path \<noteq> None then (Inl (FileNotClosedError path), d)
      else (Inr (), d\<lparr>dm_os := (dm_os d)\<lparr>os_files := (os_files (dm_os d))(path := None)\<rparr>\<rparr>))"

definition dm_open_file :: "int \<Rightarrow> string \<Rightarrow> (disk_manager, int) comp" where
  "dm_open_file ofd path d =
     (if \<not> is_file d path then (Inl (FileNotFoundError path), d)
      else case path2fd d path of
        Some fd \<Rightarrow> (Inr fd, d)
      | None \<Rightarrow>
          if ofd = -1 then (Inl UnixError, d)
          else
            (Inr ofd,
             d\<lparr>dm_os := (dm_os d)\<lparr>os_fds := (os_fds (dm_os d))(ofd \<mapsto> path)\<rparr>,
               path2fd := (path2fd d)(path \<mapsto> ofd),
               fd2path := (fd2path d)(ofd \<mapsto> path),
               fd2pageno := (fd2pageno d)
                 (ofd := (get_file_size d path + int PAGE_SIZE - 1) div int PAGE_SIZE)\<rparr>))"

definition dm_close_file :: "int \<Rightarrow> (disk_manager, unit) comp" where
  "dm_close_file fd d =
     (case fd2path d fd of
        None \<Rightarrow> (Inl (FileNotOpenError fd), d)
      | Some path \<Rightarrow>
          if os_fds (dm_os d) fd = None then (Inl UnixError, d)
          else
            (Inr (),
             d\<lparr>dm_os := (dm_os d)\<lparr>os_fds := (os_fds (dm_os d))(fd := None)\<rparr>,
               fd2path := (fd2path d)(fd := None),
               path2fd := (path2fd d)(path := None),
               log_fd := (if log_fd d = fd then -1 else log_fd d)\<rparr>))"

definition get_file_name :: "disk_manager \<Rightarrow> int \<Rightarrow> rmdb_error + string" where
  "get_file_name d fd =
     (case fd2path d fd of None \<Rightarrow> Inl (FileNotOpenError fd) | Some path \<Rightarrow> Inr path)"

definition get_file_fd :: "int \<Rightarrow> string \<Rightarrow> (disk_manager, int) comp" where
  "get_file_fd ofd file_name d =
     (case path2fd d file_name of None \<Rightarrow> dm_open_file ofd file_name d | Some fd \<Rightarrow> (Inr fd, d))"

text \<open>The descriptor of the log file, opened on first use.\<close>

definition ensure_log_fd :: "int \<Rightarrow> (disk_manager, unit) comp" where
  "ensure_log_fd ofd d =
     (if log_fd d = -1
      then case dm_open_file ofd LOG_FILE_NAME d of
             (Inl e, d') \<Rightarrow> (Inl e, d')
           | (Inr fd, d') \<Rightarrow> (Inr (), d'\<lparr>log_fd := fd\<rparr>)
      else (Inr (), d))"

text \<open>The result of \<open>read_log\<close>: its return value and the bytes stored in \<open>log_data\<close>.\<close>

definition read_log :: "int \<Rightarrow> int \<Rightarrow> int \<Rightarrow> (disk_manager, int \<times> bytes) comp" where
  "read_log ofd sz offset =
     thenE (ensure_log_fd ofd)
       (bindE (getE (\<lambda>d. get_file_size d LOG_FILE_NAME)) (\<lambda>file_size.
          if offset > file_size then returnE (-1, [])
          else
            let sz' = min sz (file_size - offset) in
            if sz' = 0 then returnE (0, [])
            else
              bindE (getE (\<lambda>d. os_read (dm_os d) (log_fd d) (nat offset) (nat sz'))) (\<lambda>got.
                thenE (assertE (int (length got) = sz')) (returnE (int (length got), got)))))"

definition write_log :: "int \<Rightarrow> bytes \<Rightarrow> nat \<Rightarrow> (disk_manager, unit) comp" where
  "write_log ofd log_data sz =
     thenE (ensure_log_fd ofd)
       (\<lambda>d. let end_pos = (case os_content (dm_os d) (log_fd d) of None \<Rightarrow> 0 | Some c \<Rightarrow> length c);
                (bytes_write, os') = os_write (dm_os d) (log_fd d) end_pos (take sz log_data);
                d' = d\<lparr>dm_os := os'\<rparr>
            in if bytes_write \<noteq> int sz then (Inl UnixError, d') else (Inr (), d'))"

section \<open>Well-formedness\<close>

definition dm_inv :: "disk_manager \<Rightarrow> bool" where
  "dm_inv d \<longleftrightarrow>
     (\<forall>path fd. path2fd d path = Some fd \<longleftrightarrow> fd2path d fd = Some path) \<and>
     (\<forall>fd path. fd2path d fd = Some path \<longrightarrow>
        os_fds (dm_os d) fd = Some path \<and> os_files (dm_os d) path \<noteq> None)"

lemma dm_inv_inj: "dm_inv d \<Longrightarrow> fd2path d fd = Some p \<Longrightarrow> fd2path d fd' = Some p \<Longrightarrow> fd = fd'"
  by (metis dm_inv_def option.inject)

lemma dm_inv_content: "dm_inv d \<Longrightarrow> fd2path d fd = Some p \<Longrightarrow> \<exists>c. os_content (dm_os d) fd = Some c"
  by (fastforce simp: dm_inv_def os_content_def)

text \<open>The page a full-page read returns, if the file is long enough to hold it.\<close>

definition disk_page :: "disk_manager \<Rightarrow> int \<Rightarrow> page_id_t \<Rightarrow> bytes option" where
  "disk_page d fd page_no =
     (case os_content (dm_os d) fd of
        None \<Rightarrow> None
      | Some c \<Rightarrow>
          if 0 \<le> page_no \<and> (nat page_no + 1) * PAGE_SIZE \<le> length c
          then Some (mem_get c (nat page_no * PAGE_SIZE) PAGE_SIZE) else None)"

lemma length_disk_page: "disk_page d fd p = Some bs \<Longrightarrow> length bs = PAGE_SIZE"
  by (auto simp: disk_page_def length_mem_get split: option.splits if_splits)

lemma length_pwrite: "length (pwrite c pos bs) = max (length c) (pos + length bs)"
  by (simp add: pwrite_def)

lemma mem_get_pwrite_same: "mem_get (pwrite c pos bs) pos (length bs) = bs"
  by (simp add: mem_get_def pwrite_def)

lemma nth_pwrite_old:
  assumes "i < length c" "i < pos \<or> pos + length bs \<le> i"
  shows "pwrite c pos bs ! i = c ! i"
  using assms by (auto simp: pwrite_def nth_append min_def)

lemma mem_get_pwrite_disjoint:
  assumes "off + n \<le> length c" "off + n \<le> pos \<or> pos + length bs \<le> off"
  shows "mem_get (pwrite c pos bs) off n = mem_get c off n"
  using assms by (intro nth_equalityI) (auto simp: mem_get_def length_pwrite nth_pwrite_old)

lemma page_ranges_disjoint:
  assumes "p \<noteq> q" "0 \<le> p" "0 \<le> q"
  shows "nat p * PAGE_SIZE + PAGE_SIZE \<le> nat q * PAGE_SIZE \<or> nat q * PAGE_SIZE + PAGE_SIZE \<le> nat p * PAGE_SIZE"
proof (cases "nat p < nat q")
  case True
  then have "Suc (nat p) * PAGE_SIZE \<le> nat q * PAGE_SIZE" by (intro mult_le_mono1) linarith
  then show ?thesis by simp
next
  case False
  with assms have "nat q < nat p" by linarith
  then have "Suc (nat q) * PAGE_SIZE \<le> nat p * PAGE_SIZE" by (intro mult_le_mono1) linarith
  then show ?thesis by simp
qed

section \<open>Reading and writing pages\<close>

lemma read_page_full:
  assumes "disk_page d fd p = Some bs" "length buf = PAGE_SIZE"
  shows "read_page d fd p buf PAGE_SIZE = (Inr (), bs)"
  using assms
  by (auto simp: disk_page_def read_page_def os_lseek_def os_read_def Let_def length_mem_get
      mem_put_def nat_mult_distrib split: option.splits if_splits)

lemma read_page_short:
  assumes "disk_page d fd p = None"
  shows "\<exists>e buf'. read_page d fd p buf PAGE_SIZE = (Inl e, buf')"
  using assms
  by (auto simp: disk_page_def read_page_def os_lseek_def os_read_def Let_def mem_get_def
      nat_mult_distrib split: option.splits if_splits)

lemma os_write_content:
  assumes "os_content os fd = Some c"
  obtains os' where "os_write os fd pos bs = (int (length bs), os')"
    "os_fds os' = os_fds os" "os_content os' fd = Some (pwrite c pos bs)"
    "\<And>fd'. os_fds os fd' \<noteq> os_fds os fd \<Longrightarrow> os_content os' fd' = os_content os fd'"
    "dom (os_files os') = dom (os_files os)"
    "\<And>path. os_fds os fd \<noteq> Some path \<Longrightarrow> os_files os' path = os_files os path"
proof -
  from assms obtain path where path: "os_fds os fd = Some path" "os_files os path = Some c"
    by (auto simp: os_content_def bind_eq_Some_conv)
  let ?os = "os\<lparr>os_files := (os_files os)(path \<mapsto> pwrite c pos bs)\<rparr>"
  have "os_content ?os fd' = os_content os fd'" if "os_fds os fd' \<noteq> os_fds os fd" for fd'
    using that path by (auto simp: os_content_def intro!: Option.bind_cong)
  moreover have "os_content ?os fd = Some (pwrite c pos bs)"
    using path by (simp add: os_content_def)
  moreover have "os_write os fd pos bs = (int (length bs), ?os)"
    using path assms by (simp add: os_write_def)
  ultimately show thesis using path by (intro that[of ?os]) auto
qed

text \<open>What page writes leave alone: the tables of open files, and the log file.\<close>

definition dm_paths :: "disk_manager \<Rightarrow> (string \<rightharpoonup> int) \<times> int \<times> bytes option" where
  "dm_paths d = (path2fd d, log_fd d, os_files (dm_os d) LOG_FILE_NAME)"

lemma dm_paths_pageno [simp]: "dm_paths (d\<lparr>fd2pageno := n\<rparr>) = dm_paths d"
  by (simp add: dm_paths_def)

text \<open>A write of one whole page to an open file succeeds; the page then reads back as written
  and no other page of any file changes.\<close>

lemma write_page_full:
  assumes inv: "dm_inv d" and opened: "fd2path d fd = Some path" "path \<noteq> LOG_FILE_NAME"
    and p: "0 \<le> p" and len: "length bs = PAGE_SIZE"
  obtains d' where "write_page fd p bs PAGE_SIZE d = (Inr (), d')" "dm_inv d'"
    "disk_page d' fd p = Some bs"
    "\<And>fd' q. (fd', q) \<noteq> (fd, p) \<Longrightarrow> disk_page d fd' q \<noteq> None \<Longrightarrow> fd2path d fd' \<noteq> None \<Longrightarrow>
        disk_page d' fd' q = disk_page d fd' q"
    "fd2path d' = fd2path d" "dm_paths d' = dm_paths d" "fd2pageno d' = fd2pageno d"
proof -
  obtain c where c: "os_content (dm_os d) fd = Some c"
    using dm_inv_content[OF inv opened(1)] by blast
  from os_write_content[OF c, of "nat p * PAGE_SIZE" bs] obtain os' where
    os': "os_write (dm_os d) fd (nat p * PAGE_SIZE) bs = (int (length bs), os')"
    "os_fds os' = os_fds (dm_os d)" "os_content os' fd = Some (pwrite c (nat p * PAGE_SIZE) bs)"
    "\<And>fd'. os_fds (dm_os d) fd' \<noteq> os_fds (dm_os d) fd \<Longrightarrow> os_content os' fd' = os_content (dm_os d) fd'"
    "dom (os_files os') = dom (os_files (dm_os d))"
    "\<And>path. os_fds (dm_os d) fd \<noteq> Some path \<Longrightarrow> os_files os' path = os_files (dm_os d) path" by blast
  let ?d = "d\<lparr>dm_os := os'\<rparr>"
  have w: "write_page fd p bs PAGE_SIZE d = (Inr (), ?d)"
    using c p len os'(1) by (simp add: write_page_def os_lseek_def Let_def nat_mult_distrib)
  have i: "dm_inv ?d"
    using inv os'(2,5) by (fastforce simp: dm_inv_def dom_def)
  have same: "disk_page ?d fd p = Some bs"
    using os'(3) p len mem_get_pwrite_same[of c "nat p * PAGE_SIZE" bs]
    by (simp add: disk_page_def length_pwrite)
  have other: "disk_page ?d fd' q = disk_page d fd' q"
    if "(fd', q) \<noteq> (fd, p)" and rd: "disk_page d fd' q \<noteq> None" and op: "fd2path d fd' \<noteq> None" for fd' q
  proof (cases "fd' = fd")
    case False
    with inv opened(1) op have "os_fds (dm_os d) fd' \<noteq> os_fds (dm_os d) fd"
      by (metis dm_inv_def dm_inv_inj option.collapse)
    then have "os_content os' fd' = os_content (dm_os d) fd'" by (rule os'(4))
    then show ?thesis by (simp add: disk_page_def)
  next
    case True
    with rd c have q: "0 \<le> q" "(nat q + 1) * PAGE_SIZE \<le> length c"
      by (auto simp: disk_page_def split: if_splits)
    from True that(1) have "q \<noteq> p" by simp
    with page_ranges_disjoint[of q p] p q len
    have "mem_get (pwrite c (nat p * PAGE_SIZE) bs) (nat q * PAGE_SIZE) PAGE_SIZE
        = mem_get c (nat q * PAGE_SIZE) PAGE_SIZE"
      by (intro mem_get_pwrite_disjoint) auto
    with True c q os'(3) show ?thesis by (simp add: disk_page_def length_pwrite)
  qed
  have "os_fds (dm_os d) fd \<noteq> Some LOG_FILE_NAME" using inv opened by (auto simp: dm_inv_def)
  then have "dm_paths ?d = dm_paths d" by (simp add: dm_paths_def os'(6))
  from that[OF w i same other _ this] show thesis by simp
qed

section \<open>Opening, closing and the log\<close>

lemma dm_inv_init: "dm_inv (DiskManager os)"
  by (simp add: dm_inv_def DiskManager_def)

lemma dm_inv_create: "dm_inv d \<Longrightarrow> dm_inv (snd (dm_create_file ofd path d))"
  by (auto simp: dm_inv_def dm_create_file_def)

lemma dm_inv_destroy: "dm_inv d \<Longrightarrow> dm_inv (snd (dm_destroy_file path d))"
  by (force simp: dm_inv_def dm_destroy_file_def)

text \<open>A descriptor the operating system hands out is not in use.\<close>

definition fresh_fd :: "disk_manager \<Rightarrow> int \<Rightarrow> bool" where
  "fresh_fd d ofd \<longleftrightarrow> ofd = -1 \<or> (0 \<le> ofd \<and> os_fds (dm_os d) ofd = None)"

lemma dm_inv_open:
  assumes "dm_inv d" "fresh_fd d ofd"
  shows "dm_inv (snd (dm_open_file ofd path d))"
proof (cases "is_file d path \<and> path2fd d path = None \<and> ofd \<noteq> -1")
  case True
  with assms have "fd2path d ofd = None"
    by (metis dm_inv_def fresh_fd_def option.distinct(1) not_None_eq)
  moreover have "fd2path d fd \<noteq> Some path" for fd
    using True assms(1) by (metis dm_inv_def option.distinct(1))
  ultimately show ?thesis using True assms(1)
    by (auto simp: dm_open_file_def dm_inv_def is_file_def)
qed (use assms in \<open>auto simp: dm_open_file_def split: option.splits\<close>)

lemma dm_open_file_result:
  assumes "dm_open_file ofd path d = (Inr fd, d')"
  shows "path2fd d' path = Some fd"
  using assms by (auto simp: dm_open_file_def split: if_splits option.splits)

lemma dm_inv_close:
  assumes inv: "dm_inv d"
  shows "dm_inv (snd (dm_close_file fd d))"
proof (cases "fd2path d fd")
  case None
  with inv show ?thesis by (simp add: dm_close_file_def)
next
  case (Some path)
  have "fd2path d fd' = Some path \<longleftrightarrow> fd' = fd" for fd'
    using Some dm_inv_inj[OF inv Some] by blast
  moreover have "path2fd d p = Some fd \<longleftrightarrow> p = path" for p
    using inv Some by (auto simp: dm_inv_def)
  moreover have "dm_close_file fd d =
      (Inr (), d\<lparr>dm_os := (dm_os d)\<lparr>os_fds := (os_fds (dm_os d))(fd := None)\<rparr>,
        fd2path := (fd2path d)(fd := None), path2fd := (path2fd d)(path := None),
        log_fd := (if log_fd d = fd then -1 else log_fd d)\<rparr>)"
    using inv Some by (auto simp: dm_close_file_def dm_inv_def)
  ultimately show ?thesis
    using inv by (auto simp: dm_inv_def)
qed

lemma write_log_appends:
  assumes inv: "dm_inv d" and lf: "fd2path d (log_fd d) = Some path" "log_fd d \<noteq> -1"
    and c: "os_files (dm_os d) path = Some c" and sz: "sz \<le> length bs"
  shows "\<exists>d'. write_log ofd bs sz d = (Inr (), d') \<and> dm_inv d' \<and>
    os_files (dm_os d') = (os_files (dm_os d))(path \<mapsto> c @ take sz bs) \<and>
    fd2path d' = fd2path d \<and> log_fd d' = log_fd d"
proof -
  have fds: "os_fds (dm_os d) (log_fd d) = Some path"
    using inv lf by (auto simp: dm_inv_def)
  have app: "pwrite c (length c) (take sz bs) = c @ take sz bs"
    by (simp add: pwrite_def)
  let ?d = "d\<lparr>dm_os := (dm_os d)\<lparr>os_files := (os_files (dm_os d))(path \<mapsto> c @ take sz bs)\<rparr>\<rparr>"
  have "write_log ofd bs sz d = (Inr (), ?d)"
    using fds c lf sz
    by (simp add: write_log_def ensure_log_fd_def thenE_def bindE_def os_write_def os_content_def
        Let_def app min_absorb2)
  moreover have "dm_inv ?d" using inv by (auto simp: dm_inv_def)
  ultimately show ?thesis by auto
qed

end
