(* ===== verification/BufferPool.thy ===== *)
theory BufferPool
  imports LruReplacer DiskManager "HOL-Library.AList"
begin

text \<open>
  Pages and the buffer pool manager (\<open>storage/page.h\<close>, \<open>storage/buffer_pool_manager.h\<close>,
  \<open>storage/buffer_pool_manager.cpp\<close>). A \<open>Page *\<close> into the frame array is the index of its
  frame, \<open>nullptr\<close> is \<open>None\<close>. The page table is an association list with distinct keys:
  its order stands for the iteration order of the \<open>unordered_map\<close>, about which nothing is
  assumed. The pool is proved to be a cache: the logical contents of every page (the frame's
  bytes if it is cached, the file's otherwise) only change by the writes of its clients.
\<close>

section \<open>Pages\<close>

datatype PageId = PageId (pid_fd: int) (pid_page_no: page_id_t)

text \<open>\<open>PageId::operator<\<close>, and the key \<open>PageIdHash\<close> and \<open>Get\<close> compute (on operands whose
  shifted value does not overflow).\<close>

definition PageId_less :: "PageId \<Rightarrow> PageId \<Rightarrow> bool" where
  "PageId_less x y = (if pid_fd x < pid_fd y then True else pid_page_no x < pid_page_no y)"

definition PageId_Get :: "PageId \<Rightarrow> int" where
  "PageId_Get x = or (push_bit 16 (pid_fd x)) (pid_page_no x)"

record page =
  pg_id :: PageId
  pg_data :: bytes
  pg_is_dirty :: bool
  pg_pin_count :: int

definition zero_page :: bytes where
  "zero_page = replicate PAGE_SIZE 0"

text \<open>A \<open>Page\<close> as constructed: its \<open>fd\<close> is not initialised.\<close>

definition Page :: "int \<Rightarrow> page" where
  "Page junk = \<lparr>pg_id = PageId junk INVALID_PAGE_ID, pg_data = zero_page,
                pg_is_dirty = False, pg_pin_count = 0\<rparr>"

definition get_page_lsn :: "bytes \<Rightarrow> lsn_t" where
  "get_page_lsn d = le_sint (mem_get d 0 4)"

definition set_page_lsn :: "lsn_t \<Rightarrow> bytes \<Rightarrow> bytes" where
  "set_page_lsn page_lsn d = mem_put d 0 (le_bytes 4 page_lsn)"

section \<open>The buffer pool manager\<close>

record buffer_pool =
  pool_size :: nat
  pages :: "page list"
  page_table :: "(PageId \<times> frame_id_t) list"
  free_list :: "frame_id_t list"
  bp_disk :: disk_manager
  bp_replacer :: lru_replacer

definition BufferPoolManager :: "int \<Rightarrow> nat \<Rightarrow> disk_manager \<Rightarrow> buffer_pool" where
  "BufferPoolManager junk n dm =
     \<lparr>pool_size = n, pages = replicate n (Page junk), page_table = [],
      free_list = map int [0..<n], bp_disk = dm, bp_replacer = LRUReplacer n\<rparr>"

definition page_at :: "buffer_pool \<Rightarrow> frame_id_t \<Rightarrow> page" where
  "page_at b f = pages b ! nat f"

definition upd_page :: "frame_id_t \<Rightarrow> (page \<Rightarrow> page) \<Rightarrow> buffer_pool \<Rightarrow> buffer_pool" where
  "upd_page f g b = b\<lparr>pages := (pages b)[nat f := g (page_at b f)]\<rparr>"

definition on_disk :: "(disk_manager, 'a) comp \<Rightarrow> (buffer_pool, 'a) comp" where
  "on_disk m b = (case m (bp_disk b) of (r, d) \<Rightarrow> (r, b\<lparr>bp_disk := d\<rparr>))"

definition on_replacer :: "(lru_replacer \<Rightarrow> lru_replacer) \<Rightarrow> buffer_pool \<Rightarrow> buffer_pool" where
  "on_replacer g b = b\<lparr>bp_replacer := g (bp_replacer b)\<rparr>"

definition find_frame :: "buffer_pool \<Rightarrow> PageId \<Rightarrow> frame_id_t option" where
  "find_frame b = map_of (page_table b)"

definition mark_dirty :: "frame_id_t \<Rightarrow> buffer_pool \<Rightarrow> buffer_pool" where
  "mark_dirty f = upd_page f (\<lambda>p. p\<lparr>pg_is_dirty := True\<rparr>)"

definition find_victim_page :: "(buffer_pool, frame_id_t option) comp" where
  "find_victim_page b =
     (case free_list b of
        f # fs \<Rightarrow> (Inr (Some f), b\<lparr>free_list := fs\<rparr>)
      | [] \<Rightarrow> (case victim (bp_replacer b) of (fo, r) \<Rightarrow> (Inr fo, b\<lparr>bp_replacer := r\<rparr>)))"

definition update_page :: "frame_id_t \<Rightarrow> PageId \<Rightarrow> frame_id_t \<Rightarrow> (buffer_pool, unit) comp" where
  "update_page pg new_page_id new_frame_id =
     thenE
       (bindE (getE (\<lambda>b. page_at b pg)) (\<lambda>p.
          if pid_page_no (pg_id p) \<noteq> INVALID_PAGE_ID then
            thenE
              (if pg_is_dirty p then
                 thenE (on_disk (write_page (pid_fd (pg_id p)) (pid_page_no (pg_id p)) (pg_data p) PAGE_SIZE))
                   (modifyE (upd_page pg (\<lambda>p. p\<lparr>pg_is_dirty := False\<rparr>)))
               else returnE ())
              (modifyE (\<lambda>b. b\<lparr>page_table := AList.delete (pg_id p) (page_table b)\<rparr>))
          else returnE ()))
       (thenE
          (modifyE (upd_page pg (\<lambda>p. p\<lparr>pg_data := zero_page, pg_id := new_page_id,
                                        pg_pin_count := 0, pg_is_dirty := False\<rparr>)))
          (if pid_page_no new_page_id \<noteq> INVALID_PAGE_ID then
             modifyE (\<lambda>b. b\<lparr>page_table := AList.update new_page_id new_frame_id (page_table b)\<rparr>)
           else returnE ()))"

definition load_page :: "PageId \<Rightarrow> frame_id_t \<Rightarrow> (buffer_pool, unit) comp" where
  "load_page page_id f b =
     (case read_page (bp_disk b) (pid_fd page_id) (pid_page_no page_id) (pg_data (page_at b f)) PAGE_SIZE of
        (res, buf) \<Rightarrow> (res, upd_page f (\<lambda>p. p\<lparr>pg_data := buf\<rparr>) b))"

definition fetch_page :: "PageId \<Rightarrow> (buffer_pool, frame_id_t option) comp" where
  "fetch_page page_id =
     bindE (getE (\<lambda>b. find_frame b page_id)) (\<lambda>iter. case iter of
       Some frame_id \<Rightarrow>
         thenE (modifyE (upd_page frame_id (\<lambda>p. p\<lparr>pg_pin_count := pg_pin_count p + 1\<rparr>)))
           (thenE (modifyE (on_replacer (pin frame_id))) (returnE (Some frame_id)))
     | None \<Rightarrow>
         bindE find_victim_page (\<lambda>fo. case fo of
           None \<Rightarrow> returnE None
         | Some frame_id \<Rightarrow>
             thenE (update_page frame_id page_id frame_id)
               (thenE (load_page page_id frame_id)
                 (thenE (modifyE (upd_page frame_id (\<lambda>p. p\<lparr>pg_pin_count := 1\<rparr>)))
                   (thenE (modifyE (on_replacer (pin frame_id))) (returnE (Some frame_id)))))))"

definition unpin_page :: "PageId \<Rightarrow> bool \<Rightarrow> (buffer_pool, bool) comp" where
  "unpin_page page_id dirty =
     bindE (getE (\<lambda>b. find_frame b page_id)) (\<lambda>iter. case iter of
       None \<Rightarrow> returnE False
     | Some f \<Rightarrow>
         bindE (getE (\<lambda>b. pg_pin_count (page_at b f))) (\<lambda>count.
           if count \<le> 0 then returnE False
           else
             thenE (modifyE (upd_page f (\<lambda>p. p\<lparr>pg_pin_count := count - 1,
                                               pg_is_dirty := (pg_is_dirty p \<or> dirty)\<rparr>)))
               (thenE (if count - 1 = 0 then modifyE (on_replacer (unpin f)) else returnE ())
                 (returnE True))))"

definition flush_page :: "PageId \<Rightarrow> (buffer_pool, bool) comp" where
  "flush_page page_id =
     bindE (getE (\<lambda>b. find_frame b page_id)) (\<lambda>iter. case iter of
       None \<Rightarrow> returnE False
     | Some f \<Rightarrow>
         bindE (getE (\<lambda>b. pg_data (page_at b f))) (\<lambda>bs.
           thenE (on_disk (write_page (pid_fd page_id) (pid_page_no page_id) bs PAGE_SIZE))
             (thenE (modifyE (upd_page f (\<lambda>p. p\<lparr>pg_is_dirty := False\<rparr>))) (returnE True))))"

text \<open>\<open>new_page\<close> takes the file of the page identifier it fills in.\<close>

definition new_page :: "int \<Rightarrow> (buffer_pool, (PageId \<times> frame_id_t) option) comp" where
  "new_page fd =
     bindE find_victim_page (\<lambda>fo. case fo of
       None \<Rightarrow> returnE None
     | Some frame_id \<Rightarrow>
         bindE (on_disk (allocate_page fd)) (\<lambda>pno.
           thenE (update_page frame_id (PageId fd pno) frame_id)
             (thenE (modifyE (upd_page frame_id (\<lambda>p. p\<lparr>pg_pin_count := 1\<rparr>)))
               (thenE (modifyE (on_replacer (pin frame_id))) (returnE (Some (PageId fd pno, frame_id)))))))"

text \<open>Removing a cached page: off the replacer, written back if dirty, onto the free list.\<close>

definition drop_frame :: "int \<Rightarrow> frame_id_t \<Rightarrow> (buffer_pool, unit) comp" where
  "drop_frame fd frame_id =
     thenE (modifyE (on_replacer (pin frame_id)))
       (thenE (update_page frame_id (PageId fd INVALID_PAGE_ID) frame_id)
         (modifyE (\<lambda>b. b\<lparr>free_list := free_list b @ [frame_id]\<rparr>)))"

definition delete_page :: "PageId \<Rightarrow> (buffer_pool, bool) comp" where
  "delete_page page_id =
     bindE (getE (\<lambda>b. find_frame b page_id)) (\<lambda>iter. case iter of
       None \<Rightarrow> thenE (modifyE (\<lambda>b. b\<lparr>bp_disk := deallocate_page (pid_page_no page_id) (bp_disk b)\<rparr>))
                 (returnE True)
     | Some frame_id \<Rightarrow>
         bindE (getE (\<lambda>b. pg_pin_count (page_at b frame_id))) (\<lambda>count.
           if count \<noteq> 0 then returnE False
           else
             thenE (drop_frame (pid_fd page_id) frame_id)
               (thenE (modifyE (\<lambda>b. b\<lparr>bp_disk := deallocate_page (pid_page_no page_id) (bp_disk b)\<rparr>))
                 (returnE True))))"

definition drop_cached :: "int \<Rightarrow> PageId \<Rightarrow> (buffer_pool, unit) comp" where
  "drop_cached fd pid =
     bindE (getE (\<lambda>b. find_frame b pid)) (\<lambda>iter. case iter of
       None \<Rightarrow> returnE ()
     | Some frame_id \<Rightarrow> drop_frame fd frame_id)"

definition delete_all_pages :: "int \<Rightarrow> (buffer_pool, bool) comp" where
  "delete_all_pages fd =
     bindE (getE (\<lambda>b. map fst (filter (\<lambda>e. pid_fd (fst e) = fd) (page_table b)))) (\<lambda>page_ids.
       bindE (getE (\<lambda>b. list_ex (\<lambda>pid. case find_frame b pid of
                          None \<Rightarrow> False | Some f \<Rightarrow> pg_pin_count (page_at b f) \<noteq> 0) page_ids)) (\<lambda>pinned.
         if pinned then returnE False
         else
           thenE (mapE (drop_cached fd) page_ids) (returnE True)))"

definition flush_entry :: "int \<Rightarrow> PageId \<times> frame_id_t \<Rightarrow> (buffer_pool, unit) comp" where
  "flush_entry fd = (\<lambda>(pid, f).
     if pid_fd pid \<noteq> fd then returnE ()
     else
       bindE (getE (\<lambda>b. pg_data (page_at b f))) (\<lambda>bs.
         thenE (on_disk (write_page fd (pid_page_no pid) bs PAGE_SIZE))
           (modifyE (upd_page f (\<lambda>p. p\<lparr>pg_is_dirty := False\<rparr>)))))"

definition flush_all_pages :: "int \<Rightarrow> (buffer_pool, unit) comp" where
  "flush_all_pages fd = bindE (getE page_table) (mapE (flush_entry fd))"

text \<open>A client's store through the \<open>Page *\<close> it holds.\<close>

definition write_data :: "frame_id_t \<Rightarrow> bytes \<Rightarrow> buffer_pool \<Rightarrow> buffer_pool" where
  "write_data f bs = upd_page f (\<lambda>p. p\<lparr>pg_data := bs\<rparr>)"

section \<open>The pool as a cache\<close>

text \<open>The logical contents and the pin count of a page.\<close>

definition bp_content :: "buffer_pool \<Rightarrow> PageId \<Rightarrow> bytes option" where
  "bp_content b pid =
     (case find_frame b pid of
        Some f \<Rightarrow> Some (pg_data (page_at b f))
      | None \<Rightarrow> disk_page (bp_disk b) (pid_fd pid) (pid_page_no pid))"

definition bp_pins :: "buffer_pool \<Rightarrow> PageId \<Rightarrow> int" where
  "bp_pins b pid = (case find_frame b pid of Some f \<Rightarrow> pg_pin_count (page_at b f) | None \<Rightarrow> 0)"

definition bp_cached :: "buffer_pool \<Rightarrow> PageId set" where
  "bp_cached b = dom (find_frame b)"

text \<open>The file is open, and is not the log file: pages of the log are never cached.\<close>

definition bp_open :: "buffer_pool \<Rightarrow> int \<Rightarrow> bool" where
  "bp_open b fd \<longleftrightarrow> fd2path (bp_disk b) fd \<noteq> None \<and> fd2path (bp_disk b) fd \<noteq> Some LOG_FILE_NAME"

definition frame_ok :: "buffer_pool \<Rightarrow> frame_id_t \<Rightarrow> bool" where
  "frame_ok b f \<longleftrightarrow> 0 \<le> f \<and> nat f < pool_size b"

text \<open>The frame holds what the disk holds, or is marked for write-back.\<close>

definition synced :: "buffer_pool \<Rightarrow> frame_id_t \<Rightarrow> bool" where
  "synced b f \<longleftrightarrow> pg_is_dirty (page_at b f) \<or>
     disk_page (bp_disk b) (pid_fd (pg_id (page_at b f))) (pid_page_no (pg_id (page_at b f)))
       = Some (pg_data (page_at b f))"

text \<open>\<open>pool_inv H W b\<close>: the pool is consistent, except that the frames in \<open>H\<close> are in
  transit (taken by \<open>find_victim_page\<close>, not yet handed out), and the pages in \<open>W\<close> have
  been written by the client that pins them without being marked dirty yet.\<close>

definition frames_inv :: "frame_id_t set \<Rightarrow> buffer_pool \<Rightarrow> bool" where
  "frames_inv H b \<longleftrightarrow>
     length (pages b) = pool_size b \<and>
     (\<forall>f. frame_ok b f \<longrightarrow> length (pg_data (page_at b f)) = PAGE_SIZE \<and> 0 \<le> pg_pin_count (page_at b f)) \<and>
     distinct (free_list b) \<and>
     (\<forall>f\<in>set (free_list b). frame_ok b f \<and> f \<notin> H \<and> pg_pin_count (page_at b f) = 0) \<and>
     (\<forall>f. frame_ok b f \<longrightarrow> f \<notin> H \<longrightarrow>
        (f \<in> set (free_list b) \<longleftrightarrow> pid_page_no (pg_id (page_at b f)) = INVALID_PAGE_ID))"

definition table_inv :: "buffer_pool \<Rightarrow> bool" where
  "table_inv b \<longleftrightarrow>
     distinct (map fst (page_table b)) \<and>
     (\<forall>pid f. find_frame b pid = Some f \<longleftrightarrow>
        frame_ok b f \<and> pg_id (page_at b f) = pid \<and> pid_page_no pid \<noteq> INVALID_PAGE_ID) \<and>
     (\<forall>pid f. find_frame b pid = Some f \<longrightarrow> 0 \<le> pid_page_no pid \<and> bp_open b (pid_fd pid))"

definition replacer_inv :: "frame_id_t set \<Rightarrow> buffer_pool \<Rightarrow> bool" where
  "replacer_inv H b \<longleftrightarrow>
     lru_inv (bp_replacer b) \<and> max_size (bp_replacer b) = pool_size b \<and>
     set (evictable (bp_replacer b)) =
       {f. frame_ok b f \<and> f \<notin> H \<and> pid_page_no (pg_id (page_at b f)) \<noteq> INVALID_PAGE_ID \<and>
           pg_pin_count (page_at b f) = 0}"

definition content_inv :: "frame_id_t set \<Rightarrow> PageId set \<Rightarrow> buffer_pool \<Rightarrow> bool" where
  "content_inv H W b \<longleftrightarrow>
     dm_inv (bp_disk b) \<and>
     (\<forall>f. frame_ok b f \<longrightarrow> f \<notin> H \<longrightarrow> pid_page_no (pg_id (page_at b f)) \<noteq> INVALID_PAGE_ID \<longrightarrow>
        pg_id (page_at b f) \<in> W \<or> synced b f) \<and>
     (\<forall>pid\<in>W. 0 < bp_pins b pid)"

definition pool_inv :: "frame_id_t set \<Rightarrow> PageId set \<Rightarrow> buffer_pool \<Rightarrow> bool" where
  "pool_inv H W b \<longleftrightarrow> frames_inv H b \<and> table_inv b \<and> replacer_inv H b \<and> content_inv H W b"

abbreviation bp_inv :: "PageId set \<Rightarrow> buffer_pool \<Rightarrow> bool" where
  "bp_inv \<equiv> pool_inv {}"

lemmas pool_inv_defs = pool_inv_def frames_inv_def table_inv_def replacer_inv_def content_inv_def


section \<open>Frames\<close>

lemma upd_page_sel [simp]:
  "pool_size (upd_page f g b) = pool_size b" "page_table (upd_page f g b) = page_table b"
  "free_list (upd_page f g b) = free_list b" "bp_disk (upd_page f g b) = bp_disk b"
  "bp_replacer (upd_page f g b) = bp_replacer b" "length (pages (upd_page f g b)) = length (pages b)"
  by (simp_all add: upd_page_def)

lemma on_replacer_sel [simp]:
  "pool_size (on_replacer g b) = pool_size b" "page_table (on_replacer g b) = page_table b"
  "free_list (on_replacer g b) = free_list b" "bp_disk (on_replacer g b) = bp_disk b"
  "bp_replacer (on_replacer g b) = g (bp_replacer b)" "pages (on_replacer g b) = pages b"
  by (simp_all add: on_replacer_def)

lemma page_at_cong: "pages b' = pages b \<Longrightarrow> page_at b' f = page_at b f"
  by (simp add: page_at_def)

lemma page_at_sel [simp]:
  "page_at (on_replacer g b) f = page_at b f" "page_at (b\<lparr>free_list := fl\<rparr>) f = page_at b f"
  "page_at (b\<lparr>page_table := pt\<rparr>) f = page_at b f" "page_at (b\<lparr>bp_disk := d\<rparr>) f = page_at b f"
  "page_at (b\<lparr>bp_replacer := r\<rparr>) f = page_at b f"
  by (simp_all add: page_at_def)

lemma frame_ok_sel [simp]:
  "frame_ok (upd_page f' g b) f = frame_ok b f" "frame_ok (on_replacer h b) f = frame_ok b f"
  "frame_ok (b\<lparr>free_list := fl\<rparr>) f = frame_ok b f" "frame_ok (b\<lparr>page_table := pt\<rparr>) f = frame_ok b f"
  "frame_ok (b\<lparr>bp_disk := d\<rparr>) f = frame_ok b f" "frame_ok (b\<lparr>bp_replacer := r\<rparr>) f = frame_ok b f"
  "frame_ok (b\<lparr>pages := ps\<rparr>) f = frame_ok b f"
  by (simp_all add: frame_ok_def)

lemma find_frame_sel [simp]:
  "find_frame (upd_page f g b) = find_frame b" "find_frame (on_replacer h b) = find_frame b"
  "find_frame (b\<lparr>free_list := fl\<rparr>) = find_frame b" "find_frame (b\<lparr>bp_disk := d\<rparr>) = find_frame b"
  "find_frame (b\<lparr>bp_replacer := r\<rparr>) = find_frame b" "find_frame (b\<lparr>pages := ps\<rparr>) = find_frame b"
  by (simp_all add: find_frame_def)

lemma bp_open_sel [simp]:
  "bp_open (upd_page f g b) fd = bp_open b fd" "bp_open (on_replacer h b) fd = bp_open b fd"
  "bp_open (b\<lparr>free_list := fl\<rparr>) fd = bp_open b fd" "bp_open (b\<lparr>page_table := pt\<rparr>) fd = bp_open b fd"
  "bp_open (b\<lparr>bp_replacer := r\<rparr>) fd = bp_open b fd" "bp_open (b\<lparr>pages := ps\<rparr>) fd = bp_open b fd"
  by (simp_all add: bp_open_def)

lemma page_at_upd_page:
  "frame_ok b f \<Longrightarrow> frame_ok b f' \<Longrightarrow> length (pages b) = pool_size b \<Longrightarrow>
   page_at (upd_page f g b) f' = (if f' = f then g (page_at b f) else page_at b f')"
  by (auto simp: page_at_def upd_page_def frame_ok_def nth_list_update)

lemma find_frame_AList:
  "find_frame (b\<lparr>page_table := AList.delete k (page_table b)\<rparr>) = (find_frame b)(k := None)"
  "find_frame (b\<lparr>page_table := AList.update k f (page_table b)\<rparr>) = (find_frame b)(k \<mapsto> f)"
  by (simp_all add: find_frame_def delete_conv' update_conv')

lemma pool_invD:
  assumes "pool_inv H W b"
  shows "length (pages b) = pool_size b" "dm_inv (bp_disk b)" "lru_inv (bp_replacer b)"
    "frame_ok b f \<Longrightarrow> length (pg_data (page_at b f)) = PAGE_SIZE"
    "frame_ok b f \<Longrightarrow> 0 \<le> pg_pin_count (page_at b f)"
    "find_frame b pid = Some f \<longleftrightarrow>
       frame_ok b f \<and> pg_id (page_at b f) = pid \<and> pid_page_no pid \<noteq> INVALID_PAGE_ID"
    "find_frame b pid = Some f \<Longrightarrow> 0 \<le> pid_page_no pid \<and> bp_open b (pid_fd pid)"
  using assms unfolding pool_inv_defs by blast+

lemma finite_frames: "finite {f. frame_ok b f}"
  by (rule finite_subset[of _ "{0..<int (pool_size b)}"]) (auto simp: frame_ok_def)

lemma card_frames: "card {f. frame_ok b f} = pool_size b"
proof -
  have "{f. frame_ok b f} = int ` {0..<pool_size b}"
    by (auto simp: frame_ok_def image_iff) (metis atLeastLessThan_iff nat_0_le zero_le)
  then show ?thesis by (simp add: card_image)
qed

text \<open>A frame the replacer does not list leaves room for it in the replacer.\<close>

lemma replacer_room:
  assumes "pool_inv H W b" "frame_ok b f" "f \<notin> set (evictable (bp_replacer b))"
  shows "length (evictable (bp_replacer b)) < max_size (bp_replacer b)"
proof -
  have sub: "insert f (set (evictable (bp_replacer b))) \<subseteq> {f. frame_ok b f}"
    using assms by (auto simp: pool_inv_defs)
  have "Suc (length (evictable (bp_replacer b))) = card (insert f (set (evictable (bp_replacer b))))"
    using assms(3) lru.list_distinct[OF pool_invD(3)[OF assms(1)]] by (simp add: distinct_card)
  also have "\<dots> \<le> card {f. frame_ok b f}"
    by (rule card_mono[OF finite_frames sub])
  finally show ?thesis
    using assms(1) by (simp add: card_frames pool_inv_defs)
qed

section \<open>Taking a frame\<close>

text \<open>What the pool shows depends on its frames, its table and the files only.\<close>

lemma views_cong:
  assumes "pages b' = pages b" "page_table b' = page_table b" "pool_size b' = pool_size b"
    "dm_os (bp_disk b') = dm_os (bp_disk b)" "fd2path (bp_disk b') = fd2path (bp_disk b)"
  shows "page_at b' = page_at b" "find_frame b' = find_frame b" "bp_open b' = bp_open b"
    "frame_ok b' = frame_ok b" "synced b' = synced b" "bp_content b' = bp_content b" "bp_pins b' = bp_pins b"
proof -
  have pa: "page_at b' = page_at b" and ff: "find_frame b' = find_frame b"
    using assms by (simp_all add: page_at_def find_frame_def fun_eq_iff)
  have dp: "disk_page (bp_disk b') fd p = disk_page (bp_disk b) fd p" for fd p
    using assms by (simp add: disk_page_def)
  show "page_at b' = page_at b" "find_frame b' = find_frame b" "bp_open b' = bp_open b"
    "frame_ok b' = frame_ok b" "synced b' = synced b" "bp_content b' = bp_content b" "bp_pins b' = bp_pins b"
    using assms by (simp_all add: pa ff dp bp_open_def frame_ok_def synced_def bp_content_def bp_pins_def fun_eq_iff
        split: option.split)
qed

text \<open>\<open>find_victim_page\<close> fails exactly when every frame is pinned; otherwise it yields an
  unpinned frame whose contents are safe to drop once they are written back if dirty.\<close>

lemma find_victim_page_Some:
  assumes inv: "pool_inv {} W b" and fv: "find_victim_page b = (Inr (Some f), b')"
  shows "pool_inv {f} W b'" "frame_ok b f" "pg_pin_count (page_at b f) = 0"
    "pid_page_no (pg_id (page_at b f)) \<noteq> INVALID_PAGE_ID \<Longrightarrow> synced b f"
    "pages b' = pages b" "page_table b' = page_table b" "bp_disk b' = bp_disk b"
    "pool_size b' = pool_size b"
proof -
  have eqs: "pages b' = pages b \<and> page_table b' = page_table b \<and> bp_disk b' = bp_disk b \<and>
      pool_size b' = pool_size b"
    using fv by (auto simp: find_victim_page_def split: list.splits prod.splits)
  then have [simp]: "pages b' = pages b" "page_table b' = page_table b" "bp_disk b' = bp_disk b"
    "pool_size b' = pool_size b" by simp_all
  have cong: "page_at b' = page_at b" "frame_ok b' = frame_ok b" "find_frame b' = find_frame b"
    "bp_open b' = bp_open b" "synced b' = synced b" "bp_pins b' = bp_pins b"
    by (intro views_cong; simp)+
  have main: "pool_inv {f} W b' \<and> frame_ok b f \<and> pg_pin_count (page_at b f) = 0 \<and>
    (pid_page_no (pg_id (page_at b f)) \<noteq> INVALID_PAGE_ID \<longrightarrow> synced b f)"
  proof (cases "free_list b")
    case (Cons g fs)
    with fv have [simp]: "g = f" and b': "b' = b\<lparr>free_list := fs\<rparr>"
      by (auto simp: find_victim_page_def)
    from inv Cons have "frame_ok b f" "pg_pin_count (page_at b f) = 0"
      "pid_page_no (pg_id (page_at b f)) = INVALID_PAGE_ID"
      by (auto simp: pool_inv_defs)
    moreover have "pool_inv {f} W b'"
      using inv Cons calculation
      unfolding pool_inv_def frames_inv_def table_inv_def replacer_inv_def content_inv_def cong
      by (auto simp: b')
    ultimately show ?thesis by simp
  next
    case Nil
    with fv obtain r where v: "victim (bp_replacer b) = (Some f, r)" and b': "b' = b\<lparr>bp_replacer := r\<rparr>"
      by (auto simp: find_victim_page_def split: prod.splits)
    have "f \<in> set (evictable (bp_replacer b))" and ev: "set (evictable r) = set (evictable (bp_replacer b)) - {f}"
      and r: "lru_inv r"
      using lru.victim_in_list[OF pool_invD(3)[OF inv] v] by simp_all
    then have f: "frame_ok b f" "pg_pin_count (page_at b f) = 0"
      "pid_page_no (pg_id (page_at b f)) \<noteq> INVALID_PAGE_ID"
      using inv by (auto simp: pool_inv_defs)
    then have "find_frame b (pg_id (page_at b f)) = Some f"
      using pool_invD(6)[OF inv] by blast
    then have "bp_pins b (pg_id (page_at b f)) = 0" using f by (simp add: bp_pins_def)
    then have sy: "synced b f" using inv f unfolding pool_inv_def content_inv_def by force
    have "max_size r = max_size (bp_replacer b)" using v lru.cap_ops(3) by (metis snd_conv)
    with inv ev r f sy Nil show ?thesis
      unfolding pool_inv_def frames_inv_def table_inv_def replacer_inv_def content_inv_def cong
      by (auto simp: b')
  qed
  from main eqs show "pool_inv {f} W b'" "frame_ok b f" "pg_pin_count (page_at b f) = 0"
    "pid_page_no (pg_id (page_at b f)) \<noteq> INVALID_PAGE_ID \<Longrightarrow> synced b f"
    "pages b' = pages b" "page_table b' = page_table b" "bp_disk b' = bp_disk b"
    "pool_size b' = pool_size b"
    by simp_all
qed

lemma find_victim_page_total:
  assumes inv: "pool_inv {} W b"
  obtains (none) "find_victim_page b = (Inr None, b)" "\<And>f. frame_ok b f \<Longrightarrow> 0 < pg_pin_count (page_at b f)"
  | (some) f b' where "find_victim_page b = (Inr (Some f), b')"
proof (cases "free_list b = [] \<and> evictable (bp_replacer b) = []")
  case True
  then have "find_victim_page b = (Inr None, b)"
    using lru.victim_empty[OF pool_invD(3)[OF inv]] by (simp add: find_victim_page_def)
  moreover have "0 < pg_pin_count (page_at b f)" if "frame_ok b f" for f
    using inv True that pool_invD(5)[OF inv that] by (fastforce simp: pool_inv_defs)
  ultimately show ?thesis by (rule none)
next
  case False
  show ?thesis
  proof (cases "free_list b")
    case Nil
    with False have "evictable (bp_replacer b) \<noteq> []" by simp
    with lru.victim_out[OF pool_invD(3)[OF inv]] Nil show ?thesis
      by (cases "victim (bp_replacer b)") (auto intro: some simp: find_victim_page_def)
  next
    case (Cons f fs)
    then show ?thesis by (intro some) (auto simp: find_victim_page_def)
  qed
qed

text \<open>The pool after \<open>update_page\<close>, with the old page's frame reset and the table moved from
  the old to the new page.\<close>

definition table_moved :: "PageId \<Rightarrow> PageId \<Rightarrow> frame_id_t \<Rightarrow> (PageId \<times> frame_id_t) list \<Rightarrow> (PageId \<times> frame_id_t) list" where
  "table_moved old new f pt =
     (let pt1 = (if pid_page_no old \<noteq> INVALID_PAGE_ID then AList.delete old pt else pt)
      in if pid_page_no new \<noteq> INVALID_PAGE_ID then AList.update new f pt1 else pt1)"

lemma page_reset:
  "p\<lparr>pg_data := bs, pg_id := pid, pg_pin_count := c, pg_is_dirty := x\<rparr> =
   \<lparr>pg_id = pid, pg_data = bs, pg_is_dirty = x, pg_pin_count = c\<rparr>"
  "p\<lparr>pg_is_dirty := y, pg_data := bs, pg_id := pid, pg_pin_count := c, pg_is_dirty := x\<rparr> =
   \<lparr>pg_id = pid, pg_data = bs, pg_is_dirty = x, pg_pin_count = c\<rparr>"
  by simp_all

lemma update_page_eq:
  assumes inv: "pool_inv H W b" and f: "frame_ok b f"
  obtains d where
    "update_page f pid f b =
       (Inr (), b\<lparr>pages := (pages b)[nat f := \<lparr>pg_id = pid, pg_data = zero_page, pg_is_dirty = False, pg_pin_count = 0\<rparr>],
                  page_table := table_moved (pg_id (page_at b f)) pid f (page_table b), bp_disk := d\<rparr>)"
    "dm_inv d" "fd2path d = fd2path (bp_disk b)" "dm_paths d = dm_paths (bp_disk b)"
    "fd2pageno d = fd2pageno (bp_disk b)"
    "\<And>fd q. PageId fd q \<noteq> pg_id (page_at b f) \<Longrightarrow> disk_page (bp_disk b) fd q \<noteq> None \<Longrightarrow>
       bp_open b fd \<Longrightarrow> disk_page d fd q = disk_page (bp_disk b) fd q"
    "pid_page_no (pg_id (page_at b f)) \<noteq> INVALID_PAGE_ID \<Longrightarrow> synced b f \<Longrightarrow>
       disk_page d (pid_fd (pg_id (page_at b f))) (pid_page_no (pg_id (page_at b f)))
         = Some (pg_data (page_at b f))"
proof -
  let ?p = "page_at b f"
  let ?old = "pg_id ?p"
  have len: "length (pages b) = pool_size b" and dm: "dm_inv (bp_disk b)"
    using pool_invD[OF inv] by blast+
  have nf: "nat f < length (pages b)" using f len by (simp add: frame_ok_def)
  show thesis
  proof (cases "pid_page_no ?old \<noteq> INVALID_PAGE_ID \<and> pg_is_dirty ?p")
    case False
    then have "update_page f pid f b =
       (Inr (), b\<lparr>pages := (pages b)[nat f := \<lparr>pg_id = pid, pg_data = zero_page, pg_is_dirty = False, pg_pin_count = 0\<rparr>],
                  page_table := table_moved ?old pid f (page_table b), bp_disk := bp_disk b\<rparr>)"
      by (auto simp: update_page_def thenE_def bindE_def upd_page_def page_at_def table_moved_def
          Let_def page_reset)
    from that[OF this dm] False show thesis by (auto simp: synced_def)
  next
    case True
    have "find_frame b ?old = Some f" using pool_invD(6)[OF inv] f True by blast
    then have op: "bp_open b (pid_fd ?old)" and pn: "0 \<le> pid_page_no ?old"
      using pool_invD(7)[OF inv] by blast+
    from op obtain path where path: "fd2path (bp_disk b) (pid_fd ?old) = Some path" "path \<noteq> LOG_FILE_NAME"
      by (auto simp: bp_open_def)
    from write_page_full[OF dm path pn pool_invD(4)[OF inv f]] obtain d where
      w: "write_page (pid_fd ?old) (pid_page_no ?old) (pg_data ?p) PAGE_SIZE (bp_disk b) = (Inr (), d)"
      "dm_inv d" "disk_page d (pid_fd ?old) (pid_page_no ?old) = Some (pg_data ?p)"
      "\<And>fd' q. (fd', q) \<noteq> (pid_fd ?old, pid_page_no ?old) \<Longrightarrow> disk_page (bp_disk b) fd' q \<noteq> None \<Longrightarrow>
         fd2path (bp_disk b) fd' \<noteq> None \<Longrightarrow> disk_page d fd' q = disk_page (bp_disk b) fd' q"
      "fd2path d = fd2path (bp_disk b)" "dm_paths d = dm_paths (bp_disk b)"
      "fd2pageno d = fd2pageno (bp_disk b)" by blast
    have eq: "update_page f pid f b =
       (Inr (), b\<lparr>pages := (pages b)[nat f := \<lparr>pg_id = pid, pg_data = zero_page, pg_is_dirty = False, pg_pin_count = 0\<rparr>],
                  page_table := table_moved ?old pid f (page_table b), bp_disk := d\<rparr>)"
      using True w(1) nf
      by (simp add: update_page_def thenE_def bindE_def upd_page_def page_at_def on_disk_def
          table_moved_def Let_def page_reset)
    have "disk_page d fd q = disk_page (bp_disk b) fd q"
      if "PageId fd q \<noteq> ?old" "disk_page (bp_disk b) fd q \<noteq> None" "bp_open b fd" for fd q
      using that by (intro w(4)) (auto simp: bp_open_def)
    with that[OF eq w(2,5-7)] w(3) show thesis by blast
  qed
qed

lemma find_frame_table_moved:
  assumes inv: "pool_inv {f} W b" and f: "frame_ok b f"
    and new: "pid_page_no pid = INVALID_PAGE_ID \<or> find_frame b pid = None"
  shows "map_of (table_moved (pg_id (page_at b f)) pid f (page_table b)) q =
    (if pid_page_no pid \<noteq> INVALID_PAGE_ID \<and> q = pid then Some f
     else if q = pg_id (page_at b f) then None else find_frame b q)"
proof -
  have "find_frame b (pg_id (page_at b f)) = None" if "pid_page_no (pg_id (page_at b f)) = INVALID_PAGE_ID"
    using that pool_invD(6)[OF inv, of "pg_id (page_at b f)"] by (metis not_Some_eq)
  with new show ?thesis
    by (auto simp: table_moved_def Let_def find_frame_def delete_conv' update_conv')
qed

lemma distinct_table_moved:
  "distinct (map fst pt) \<Longrightarrow> distinct (map fst (table_moved old new f pt))"
  by (auto simp: table_moved_def Let_def distinct_delete intro!: distinct_update)

lemma update_page_ok:
  assumes inv: "pool_inv {f} W b" and f: "frame_ok b f" and pin0: "pg_pin_count (page_at b f) = 0"
    and syn: "pid_page_no (pg_id (page_at b f)) \<noteq> INVALID_PAGE_ID \<Longrightarrow> synced b f"
    and new: "pid_page_no pid = INVALID_PAGE_ID \<or>
      0 \<le> pid_page_no pid \<and> bp_open b (pid_fd pid) \<and> find_frame b pid = None"
  obtains b' where "update_page f pid f b = (Inr (), b')" "pool_inv {f} W b'"
    "page_at b' f = \<lparr>pg_id = pid, pg_data = zero_page, pg_is_dirty = False, pg_pin_count = 0\<rparr>"
    "pool_size b' = pool_size b" "free_list b' = free_list b" "bp_replacer b' = bp_replacer b"
    "fd2path (bp_disk b') = fd2path (bp_disk b)" "dm_paths (bp_disk b') = dm_paths (bp_disk b)"
    "fd2pageno (bp_disk b') = fd2pageno (bp_disk b)"
    "bp_pins b' = bp_pins b"
    "\<And>q. q \<noteq> pid \<Longrightarrow> bp_content b q \<noteq> None \<Longrightarrow> bp_open b (pid_fd q) \<Longrightarrow> bp_content b' q = bp_content b q"
    "\<And>q. find_frame b q = None \<Longrightarrow> bp_open b (pid_fd q) \<Longrightarrow> bp_content b q \<noteq> None \<Longrightarrow>
      disk_page (bp_disk b') (pid_fd q) (pid_page_no q) = bp_content b q"
    "pid_page_no pid \<noteq> INVALID_PAGE_ID \<Longrightarrow> find_frame b' pid = Some f"
    "\<And>q. q \<noteq> pid \<Longrightarrow> find_frame b' q = (if q = pg_id (page_at b f) then None else find_frame b q)"
proof -
  let ?old = "pg_id (page_at b f)"
  let ?pg = "\<lparr>pg_id = pid, pg_data = zero_page, pg_is_dirty = False, pg_pin_count = 0\<rparr>"
  from update_page_eq[OF inv f, of pid] obtain d where
    eq: "update_page f pid f b = (Inr (), b\<lparr>pages := (pages b)[nat f := ?pg],
          page_table := table_moved ?old pid f (page_table b), bp_disk := d\<rparr>)"
    and d: "dm_inv d" "fd2path d = fd2path (bp_disk b)" "dm_paths d = dm_paths (bp_disk b)"
      "fd2pageno d = fd2pageno (bp_disk b)"
    and other: "\<And>fd q. PageId fd q \<noteq> ?old \<Longrightarrow> disk_page (bp_disk b) fd q \<noteq> None \<Longrightarrow>
       bp_open b fd \<Longrightarrow> disk_page d fd q = disk_page (bp_disk b) fd q"
    and old: "pid_page_no ?old \<noteq> INVALID_PAGE_ID \<Longrightarrow> synced b f \<Longrightarrow>
       disk_page d (pid_fd ?old) (pid_page_no ?old) = Some (pg_data (page_at b f))" by blast
  define b' where "b' = b\<lparr>pages := (pages b)[nat f := ?pg],
          page_table := table_moved ?old pid f (page_table b), bp_disk := d\<rparr>"
  have len: "length (pages b) = pool_size b" using pool_invD[OF inv] by blast
  have at: "page_at b' g = (if g = f then ?pg else page_at b g)" if "frame_ok b g" for g
    using that f len by (auto simp: b'_def page_at_def frame_ok_def nth_list_update)
  have ok: "frame_ok b' g = frame_ok b g" for g by (simp add: b'_def frame_ok_def)
  have disk': "bp_disk b' = d" by (simp add: b'_def)
  have op: "bp_open b' fd = bp_open b fd" for fd by (simp add: disk' bp_open_def d)
  have nn: "pid_page_no pid = INVALID_PAGE_ID \<or> find_frame b pid = None" using new by auto
  have ff: "find_frame b' q = (if pid_page_no pid \<noteq> INVALID_PAGE_ID \<and> q = pid then Some f
     else if q = ?old then None else find_frame b q)" for q
    using find_frame_table_moved[OF inv f nn] by (simp add: b'_def find_frame_def)
  have uniq: "find_frame b q = Some g \<Longrightarrow> g = f \<longleftrightarrow> q = ?old" for q g
    using pool_invD(6)[OF inv, of q g] pool_invD(6)[OF inv, of q f] f by auto
  have pins: "bp_pins b' q = bp_pins b q" for q
  proof (cases "find_frame b q")
    case None
    with at[OF f] show ?thesis by (simp add: bp_pins_def ff)
  next
    case (Some g)
    then have g: "frame_ok b g" using pool_invD(6)[OF inv] by blast
    have "q \<noteq> pid \<or> pid_page_no pid = INVALID_PAGE_ID" using Some nn by auto
    with Some pin0 at[OF g] uniq[OF Some] show ?thesis
      by (auto simp: bp_pins_def ff)
  qed
  have cont: "bp_content b' q = bp_content b q"
    if "q \<noteq> pid" "bp_content b q \<noteq> None" "bp_open b (pid_fd q)" for q
  proof (cases "find_frame b q")
    case None
    then have nf: "find_frame b' q = None" using that(1) by (auto simp: ff)
    show ?thesis
    proof (cases "q = ?old")
      case True
      with None f have "pid_page_no q = INVALID_PAGE_ID"
        using pool_invD(6)[OF inv, of q f] by auto
      with None that(2) show ?thesis by (simp add: bp_content_def disk_page_def split: option.splits)
    next
      case False
      then have "PageId (pid_fd q) (pid_page_no q) \<noteq> ?old" by simp
      from other[OF this] that None nf show ?thesis by (simp add: bp_content_def disk')
    qed
  next
    case (Some g)
    then have g: "frame_ok b g" "pid_page_no q \<noteq> INVALID_PAGE_ID" using pool_invD(6)[OF inv] by blast+
    show ?thesis
    proof (cases "q = ?old")
      case True
      with Some uniq have "g = f" by blast
      with True that Some g syn old show ?thesis by (simp add: bp_content_def ff disk')
    next
      case False
      with Some uniq have "g \<noteq> f" by blast
      with False that Some at[OF g(1)] show ?thesis by (simp add: bp_content_def ff)
    qed
  qed
  have sy: "synced b' g" if "frame_ok b g" "g \<noteq> f" "synced b g"
    "pid_page_no (pg_id (page_at b g)) \<noteq> INVALID_PAGE_ID" for g
  proof -
    have "find_frame b (pg_id (page_at b g)) = Some g" using that pool_invD(6)[OF inv] by blast
    then have "pg_id (page_at b g) \<noteq> ?old" "bp_open b (pid_fd (pg_id (page_at b g)))"
      using uniq that(2) pool_invD(7)[OF inv] by blast+
    then have "disk_page (bp_disk b) (pid_fd (pg_id (page_at b g))) (pid_page_no (pg_id (page_at b g)))
        = Some (pg_data (page_at b g)) \<Longrightarrow>
      disk_page d (pid_fd (pg_id (page_at b g))) (pid_page_no (pg_id (page_at b g)))
        = Some (pg_data (page_at b g))"
      using other[of "pid_fd (pg_id (page_at b g))" "pid_page_no (pg_id (page_at b g))"] by simp
    with that(2,3) at[OF that(1)] show ?thesis by (auto simp: synced_def disk')
  qed
  have fi: "frames_inv {f} b'"
    using inv at len unfolding pool_inv_def frames_inv_def ok
    by (auto simp: b'_def zero_page_def)
  have ti: "table_inv b'"
    unfolding table_inv_def ok op
  proof (intro conjI allI impI)
    show "distinct (map fst (page_table b'))"
      using inv by (auto simp: b'_def pool_inv_defs intro!: distinct_table_moved)
    show "find_frame b' q = Some g \<longleftrightarrow> frame_ok b g \<and> pg_id (page_at b' g) = q \<and> pid_page_no q \<noteq> INVALID_PAGE_ID" for q g
    proof (cases "g = f")
      case True
      then show ?thesis using at[OF f] f nn uniq[of q f] by (auto simp: ff)
    next
      case False
      then show ?thesis using at[of g] nn pool_invD(6)[OF inv, of q g] uniq[of q g] by (auto simp: ff)
    qed
    show "0 \<le> pid_page_no q" "bp_open b (pid_fd q)" if "find_frame b' q = Some g" for q g
      using that pool_invD(7)[OF inv, of q g] new unfolding ff by (auto split: if_splits)
  qed
  have ri: "replacer_inv {f} b'"
    using inv at unfolding pool_inv_def replacer_inv_def ok by (auto simp: b'_def)
  have ci: "content_inv {f} W b'"
    using inv sy at d(1) unfolding pool_inv_def content_inv_def ok pins disk' by (auto simp: disk')
  have dp: "disk_page (bp_disk b') (pid_fd q) (pid_page_no q) = bp_content b q"
    if "find_frame b q = None" "bp_open b (pid_fd q)" "bp_content b q \<noteq> None" for q
  proof (cases "q = ?old")
    case True
    with that(1) f have "pid_page_no q = INVALID_PAGE_ID"
      using pool_invD(6)[OF inv, of q f] by auto
    with that(1,3) show ?thesis by (simp add: bp_content_def disk_page_def split: option.splits)
  next
    case False
    then have "PageId (pid_fd q) (pid_page_no q) \<noteq> ?old" by simp
    from other[OF this] that show ?thesis by (simp add: bp_content_def disk')
  qed
  show thesis
  proof (rule that)
    show "update_page f pid f b = (Inr (), b')" by (simp add: eq b'_def)
    show "pool_inv {f} W b'" using fi ti ri ci by (simp add: pool_inv_def)
  qed (use at f pins cont dp ff d in \<open>auto simp: b'_def fun_eq_iff\<close>)
qed

section \<open>Stepping one frame\<close>

lemma find_frame_unique:
  assumes "pool_inv H W b" "find_frame b p = Some f" "find_frame b q = Some f"
  shows "p = q"
  using assms(2,3) pool_invD(6)[OF assms(1), of p f] pool_invD(6)[OF assms(1), of q f] by simp

text \<open>Every operation that touches a single cached page is an instance of this step: the frame's
  page is replaced and the replacer is told.\<close>

definition upd_ok :: "PageId set \<Rightarrow> buffer_pool \<Rightarrow> PageId \<Rightarrow> frame_id_t \<Rightarrow> page \<Rightarrow> lru_replacer \<Rightarrow> PageId set \<Rightarrow> bool" where
  "upd_ok W b pid f p' r W' \<longleftrightarrow>
     pg_id p' = pid \<and> length (pg_data p') = PAGE_SIZE \<and> 0 \<le> pg_pin_count p' \<and>
     lru_inv r \<and> max_size r = max_size (bp_replacer b) \<and>
     set (evictable r) =
       (if pg_pin_count p' = 0 then insert f (set (evictable (bp_replacer b)))
        else set (evictable (bp_replacer b)) - {f}) \<and>
     W' - {pid} = W - {pid} \<and> (pid \<in> W' \<longrightarrow> 0 < pg_pin_count p') \<and>
     (pid \<in> W' \<or> pg_is_dirty p' \<or> disk_page (bp_disk b) (pid_fd pid) (pid_page_no pid) = Some (pg_data p'))"

lemma pool_inv_upd:
  assumes inv: "pool_inv H W b" and f: "find_frame b pid = Some f" and ok: "upd_ok W b pid f p' r W'"
    and b': "b' = (upd_page f (\<lambda>_. p') b)\<lparr>bp_replacer := r\<rparr>"
  shows "pool_inv (H - {f}) W' b'" "page_at b' f = p'" "find_frame b' = find_frame b"
    "bp_content b' = (bp_content b)(pid \<mapsto> pg_data p')" "bp_pins b' = (bp_pins b)(pid := pg_pin_count p')"
    "bp_disk b' = bp_disk b" "pool_size b' = pool_size b"
proof -
  have g: "pg_id p' = pid" "length (pg_data p') = PAGE_SIZE" "0 \<le> pg_pin_count p'"
    and r: "lru_inv r" "max_size r = max_size (bp_replacer b)"
      "set (evictable r) = (if pg_pin_count p' = 0 then insert f (set (evictable (bp_replacer b)))
         else set (evictable (bp_replacer b)) - {f})"
    and W': "W' - {pid} = W - {pid}" "pid \<in> W' \<Longrightarrow> 0 < pg_pin_count p'"
    and c: "pid \<in> W' \<or> pg_is_dirty p' \<or> disk_page (bp_disk b) (pid_fd pid) (pid_page_no pid) = Some (pg_data p')"
    using ok unfolding upd_ok_def by blast+
  have fo: "frame_ok b f" "pg_id (page_at b f) = pid" "pid_page_no pid \<noteq> INVALID_PAGE_ID"
    using f pool_invD(6)[OF inv] by blast+
  have len: "length (pages b) = pool_size b" using pool_invD[OF inv] by blast
  have ff: "find_frame b' = find_frame b" and ok: "frame_ok b' h = frame_ok b h"
    and op: "bp_open b' fd = bp_open b fd" and dk: "bp_disk b' = bp_disk b" for h fd
    by (simp_all add: b')
  have at: "page_at b' h = (if h = f then p' else page_at b h)" if "frame_ok b h" for h
    using page_at_upd_page[OF fo(1) that len] by (simp add: b')
  have nofree: "f \<notin> set (free_list b)"
    using inv fo by (auto simp: pool_inv_defs)
  have cached: "frame_ok b h" if "find_frame b q = Some h" for q h
    using that pool_invD(6)[OF inv] by blast
  have neq: "q = pid" if "find_frame b q = Some f" for q
    using find_frame_unique[OF inv f that] by simp
  have cont: "bp_content b' q = ((bp_content b)(pid \<mapsto> pg_data p')) q"
    and pins: "bp_pins b' q = ((bp_pins b)(pid := pg_pin_count p')) q" for q
  proof -
    have "bp_content b' q = ((bp_content b)(pid \<mapsto> pg_data p')) q \<and>
      bp_pins b' q = ((bp_pins b)(pid := pg_pin_count p')) q"
    proof (cases "find_frame b q")
      case None
      with f have "q \<noteq> pid" by auto
      with None show ?thesis by (simp add: bp_content_def bp_pins_def ff dk)
    next
      case (Some h)
      have "h = f \<longleftrightarrow> q = pid" using Some neq[of q] f by auto
      with Some at[OF cached[OF Some]] show ?thesis by (simp add: bp_content_def bp_pins_def ff)
    qed
    then show "bp_content b' q = ((bp_content b)(pid \<mapsto> pg_data p')) q"
      "bp_pins b' q = ((bp_pins b)(pid := pg_pin_count p')) q" by blast+
  qed
  show "page_at b' f = p'" "find_frame b' = find_frame b" "bp_disk b' = bp_disk b"
    "bp_content b' = (bp_content b)(pid \<mapsto> pg_data p')" "bp_pins b' = (bp_pins b)(pid := pg_pin_count p')"
    "pool_size b' = pool_size b"
    using at[OF fo(1)] ff dk cont pins by (auto simp: b' fun_eq_iff)
  have fi: "frames_inv (H - {f}) b'"
    using inv at fo g nofree len unfolding pool_inv_def frames_inv_def ok by (auto simp: b')
  have ti: "table_inv b'"
    unfolding table_inv_def ok op ff
  proof (intro conjI allI impI)
    show "distinct (map fst (page_table b'))"
      using inv by (simp add: b' pool_inv_defs)
    show "find_frame b q = Some h \<longleftrightarrow> frame_ok b h \<and> pg_id (page_at b' h) = q \<and> pid_page_no q \<noteq> INVALID_PAGE_ID" for q h
      using at[of h] fo g(1) pool_invD(6)[OF inv, of q h] by (cases "h = f") auto
    show "0 \<le> pid_page_no q" "bp_open b (pid_fd q)" if "find_frame b q = Some h" for q h
      using that pool_invD(7)[OF inv] by blast+
  qed
  have ri: "replacer_inv (H - {f}) b'"
  proof -
    have "set (evictable (bp_replacer b)) = {h. frame_ok b h \<and> h \<notin> H \<and>
        pid_page_no (pg_id (page_at b h)) \<noteq> INVALID_PAGE_ID \<and> pg_pin_count (page_at b h) = 0}"
      "max_size (bp_replacer b) = pool_size b"
      using inv unfolding pool_inv_def replacer_inv_def by blast+
    then show ?thesis
      using at fo g r unfolding replacer_inv_def ok by (auto simp: b' split: if_splits)
  qed
  have sy: "synced b' h" if "synced b h" "frame_ok b h" "h \<noteq> f" for h
    using that at by (simp add: synced_def dk)
  have other: "pg_id (page_at b h) \<noteq> pid" if "frame_ok b h" "h \<noteq> f"
    "pid_page_no (pg_id (page_at b h)) \<noteq> INVALID_PAGE_ID" for h
    using that f pool_invD(6)[OF inv, of pid h] fo by auto
  have ci: "content_inv (H - {f}) W' b'"
    unfolding content_inv_def ok dk
  proof (intro conjI allI impI ballI)
    show "dm_inv (bp_disk b)" using pool_invD[OF inv] by blast
    show "pg_id (page_at b' h) \<in> W' \<or> synced b' h"
      if h: "frame_ok b h" "h \<notin> H - {f}" "pid_page_no (pg_id (page_at b' h)) \<noteq> INVALID_PAGE_ID" for h
    proof (cases "h = f")
      case True
      with c at[OF fo(1)] g show ?thesis by (auto simp: synced_def dk)
    next
      case False
      with h at have "pg_id (page_at b h) \<in> W \<or> synced b h"
        using inv unfolding pool_inv_def content_inv_def by auto
      with False h at other[of h] sy[of h] W'(1) show ?thesis by auto
    qed
    show "0 < bp_pins b' q" if "q \<in> W'" for q
      using that W' inv unfolding pins pool_inv_def content_inv_def by auto
  qed
  from fi ti ri ci show "pool_inv (H - {f}) W' b'" by (simp add: pool_inv_def)
qed

section \<open>The operations on a cached page\<close>

text \<open>\<open>pool_step X b b'\<close>: the pool keeps its size and its open files, and every readable page
  of an open file outside \<open>X\<close> keeps its contents.\<close>

definition pool_step :: "PageId set \<Rightarrow> buffer_pool \<Rightarrow> buffer_pool \<Rightarrow> bool" where
  "pool_step X b b' \<longleftrightarrow> pool_size b' = pool_size b \<and>
     fd2path (bp_disk b') = fd2path (bp_disk b) \<and> dm_paths (bp_disk b') = dm_paths (bp_disk b) \<and>
     (\<forall>q. q \<notin> X \<longrightarrow> bp_open b (pid_fd q) \<longrightarrow> bp_content b q \<noteq> None \<longrightarrow> bp_content b' q = bp_content b q)"

lemma pool_step_refl [simp]: "pool_step X b b"
  by (simp add: pool_step_def)

lemma pool_step_open: "pool_step X b b' \<Longrightarrow> bp_open b' = bp_open b"
  by (simp add: pool_step_def bp_open_def fun_eq_iff)

lemma pool_step_trans:
  assumes "pool_step X b b'" "pool_step Y b' b''" "X \<union> Y \<subseteq> Z"
  shows "pool_step Z b b''"
proof -
  have "bp_open b' = bp_open b" by (rule pool_step_open[OF assms(1)])
  with assms show ?thesis unfolding pool_step_def by (metis UnI1 UnI2 subsetD)
qed

lemma pool_step_mono: "pool_step X b b' \<Longrightarrow> X \<subseteq> Y \<Longrightarrow> pool_step Y b b'"
  by (auto simp: pool_step_def)

lemma pool_step_content:
  "pool_step X b b' \<Longrightarrow> q \<notin> X \<Longrightarrow> bp_open b (pid_fd q) \<Longrightarrow> bp_content b q = Some bs \<Longrightarrow>
   bp_content b' q = Some bs"
  by (simp add: pool_step_def)

lemma length_bp_content:
  assumes "pool_inv H W b" "bp_content b pid = Some bs"
  shows "length bs = PAGE_SIZE"
  using assms(2) pool_invD(4)[OF assms(1)] pool_invD(6)[OF assms(1), of pid]
  by (auto simp: bp_content_def length_disk_page split: option.splits)

text \<open>A frame is available when fewer pages are pinned than the pool has frames.\<close>

definition bp_room :: "buffer_pool \<Rightarrow> bool" where
  "bp_room b \<longleftrightarrow> card {pid. 0 < bp_pins b pid} < pool_size b"

lemma pinned_frames:
  assumes inv: "pool_inv {} W b"
  shows "{pid. 0 < bp_pins b pid} = (\<lambda>f. pg_id (page_at b f)) ` {f. frame_ok b f \<and> 0 < pg_pin_count (page_at b f)}"
proof -
  have valid: "pid_page_no (pg_id (page_at b f)) \<noteq> INVALID_PAGE_ID"
    if "frame_ok b f" "0 < pg_pin_count (page_at b f)" for f
    using that inv by (fastforce simp: pool_inv_defs)
  have "0 < bp_pins b pid \<longleftrightarrow> (\<exists>f. find_frame b pid = Some f \<and> 0 < pg_pin_count (page_at b f))" for pid
    by (auto simp: bp_pins_def split: option.splits)
  with valid show ?thesis unfolding image_def pool_invD(6)[OF inv] by auto
qed

lemma finite_pinned: "pool_inv {} W b \<Longrightarrow> finite {pid. 0 < bp_pins b pid}"
  unfolding pinned_frames by (intro finite_imageI finite_subset[OF _ finite_frames[of b]]) auto

lemma bp_room_frame:
  assumes inv: "pool_inv {} W b" and room: "bp_room b"
  shows "\<exists>f. frame_ok b f \<and> pg_pin_count (page_at b f) = 0"
proof (rule ccontr)
  assume "\<not> ?thesis"
  then have all: "{f. frame_ok b f \<and> 0 < pg_pin_count (page_at b f)} = {f. frame_ok b f}"
    using pool_invD(5)[OF inv] by fastforce
  have "inj_on (\<lambda>f. pg_id (page_at b f)) {f. frame_ok b f}"
  proof (rule inj_onI)
    fix f g
    assume f: "f \<in> {f. frame_ok b f}" and g: "g \<in> {f. frame_ok b f}"
      and eq: "pg_id (page_at b f) = pg_id (page_at b g)"
    from f all have "0 < pg_pin_count (page_at b f)" by blast
    with f inv have "pid_page_no (pg_id (page_at b f)) \<noteq> INVALID_PAGE_ID"
      by (fastforce simp: pool_inv_defs)
    with f g eq pool_invD(6)[OF inv, of "pg_id (page_at b f)" f] pool_invD(6)[OF inv, of "pg_id (page_at b f)" g]
    show "f = g" by simp
  qed
  then have "card {pid. 0 < bp_pins b pid} = pool_size b"
    by (simp add: pinned_frames[OF inv] all card_image card_frames)
  with room show False by (simp add: bp_room_def)
qed

lemma cached:
  assumes "find_frame b pid = Some f"
  shows "bp_content b pid = Some (pg_data (page_at b f))" "bp_pins b pid = pg_pin_count (page_at b f)"
  using assms by (simp_all add: bp_content_def bp_pins_def)

lemma upd_page_id: "g (page_at b f) = page_at b f \<Longrightarrow> upd_page f g b = b"
  by (simp add: upd_page_def page_at_def)

lemma upd_page_const: "upd_page f g b = upd_page f (\<lambda>_. g (page_at b f)) b"
  by (simp add: upd_page_def)

lemma fetch_page_hit:
  assumes inv: "bp_inv W b" and f: "find_frame b pid = Some f"
  obtains b' where "fetch_page pid b = (Inr (Some f), b')" "bp_inv W b'" "find_frame b' pid = Some f"
    "bp_content b' = bp_content b" "bp_pins b' = (bp_pins b)(pid := bp_pins b pid + 1)"
    "bp_disk b' = bp_disk b" "pool_size b' = pool_size b" "find_frame b' = find_frame b"
proof -
  let ?p = "page_at b f"
  let ?p' = "?p\<lparr>pg_pin_count := pg_pin_count ?p + 1\<rparr>"
  let ?b = "(upd_page f (\<lambda>_. ?p') b)\<lparr>bp_replacer := pin f (bp_replacer b)\<rparr>"
  have fo: "frame_ok b f" "pg_id ?p = pid" "pid_page_no pid \<noteq> INVALID_PAGE_ID"
    using f pool_invD(6)[OF inv] by blast+
  have lru: "lru_inv (bp_replacer b)" using pool_invD[OF inv] by blast
  have c: "pid \<in> W \<or> synced b f" using inv fo by (auto simp: pool_inv_defs)
  have pos: "0 \<le> pg_pin_count ?p" using pool_invD(5)[OF inv fo(1)] .
  have "fetch_page pid b = (Inr (Some f), ?b)"
    using f by (simp add: fetch_page_def on_replacer_def upd_page_def)
  moreover have "upd_ok W b pid f ?p' (pin f (bp_replacer b)) W"
    using pos lru c fo pool_invD(4)[OF inv fo(1)]
    by (auto simp: upd_ok_def lru.inv_ops lru.cap_ops lru.pin_set synced_def)
  note u = pool_inv_upd[OF inv f this refl]
  ultimately show thesis
    using f u by (intro that[of ?b]) (simp_all add: cached fun_upd_idem)
qed

text \<open>Taking a frame for a page that is not cached: \<open>n\<close> is the page counter \<open>allocate_page\<close>
  leaves, if it runs in between.\<close>

abbreviation with_pageno :: "(int \<Rightarrow> int) \<Rightarrow> buffer_pool \<Rightarrow> buffer_pool" where
  "with_pageno n b \<equiv> b\<lparr>bp_disk := (bp_disk b)\<lparr>fd2pageno := n\<rparr>\<rparr>"

lemma pool_inv_pageno: "pool_inv H W (with_pageno n b) = pool_inv H W b"
proof -
  have "dm_inv ((bp_disk b)\<lparr>fd2pageno := n\<rparr>) = dm_inv (bp_disk b)" by (simp add: dm_inv_def)
  moreover note e = views_cong[of "with_pageno n b" b, simplified]
  ultimately show ?thesis unfolding pool_inv_defs e(1-5,7) by simp
qed

lemma take_frame:
  assumes inv: "bp_inv W b" and f: "find_frame b pid = None" and room: "bp_room b"
    and op: "bp_open b (pid_fd pid)" and pn: "0 \<le> pid_page_no pid"
  obtains h b1 b2 where "find_victim_page b = (Inr (Some h), b1)" "bp_disk b1 = bp_disk b"
    "update_page h pid h (with_pageno n b1) = (Inr (), b2)" "pool_inv {h} W b2"
    "page_at b2 h = \<lparr>pg_id = pid, pg_data = zero_page, pg_is_dirty = False, pg_pin_count = 0\<rparr>"
    "find_frame b2 pid = Some h" "pool_step {pid} b b2" "bp_pins b2 = bp_pins b"
    "fd2pageno (bp_disk b2) = n"
    "bp_content b pid \<noteq> None \<longrightarrow> disk_page (bp_disk b2) (pid_fd pid) (pid_page_no pid) = bp_content b pid"
    "bp_cached b2 \<subseteq> insert pid (bp_cached b)" "\<forall>q. 0 < bp_pins b q \<longrightarrow> find_frame b2 q = find_frame b q"
proof -
  obtain h b1 where h: "find_victim_page b = (Inr (Some h), b1)"
    using bp_room_frame[OF inv room] by (metis find_victim_page_total[OF inv] less_irrefl)
  note v = find_victim_page_Some[OF inv h]
  let ?b = "with_pageno n b1"
  have e1: "page_at ?b = page_at b" "find_frame ?b = find_frame b" "bp_open ?b = bp_open b" "frame_ok ?b = frame_ok b"
    "synced ?b = synced b" "bp_content ?b = bp_content b" "bp_pins ?b = bp_pins b"
    using v(5-8) by (intro views_cong; simp)+
  have v': "frame_ok ?b h" "pg_pin_count (page_at ?b h) = 0"
    "pid_page_no (pg_id (page_at ?b h)) \<noteq> INVALID_PAGE_ID \<Longrightarrow> synced ?b h"
    "pid_page_no pid = INVALID_PAGE_ID \<or>
      0 \<le> pid_page_no pid \<and> bp_open ?b (pid_fd pid) \<and> find_frame ?b pid = None"
    using v(2-4) op f pn unfolding e1 by simp_all
  obtain b2 where u: "update_page h pid h ?b = (Inr (), b2)" "pool_inv {h} W b2"
    "page_at b2 h = \<lparr>pg_id = pid, pg_data = zero_page, pg_is_dirty = False, pg_pin_count = 0\<rparr>"
    "pool_size b2 = pool_size ?b"
    "fd2path (bp_disk b2) = fd2path (bp_disk ?b)" "dm_paths (bp_disk b2) = dm_paths (bp_disk ?b)"
    "fd2pageno (bp_disk b2) = fd2pageno (bp_disk ?b)" "bp_pins b2 = bp_pins ?b"
    "\<And>q. q \<noteq> pid \<Longrightarrow> bp_content ?b q \<noteq> None \<Longrightarrow> bp_open ?b (pid_fd q) \<Longrightarrow> bp_content b2 q = bp_content ?b q"
    "\<And>q. find_frame ?b q = None \<Longrightarrow> bp_open ?b (pid_fd q) \<Longrightarrow> bp_content ?b q \<noteq> None \<Longrightarrow>
      disk_page (bp_disk b2) (pid_fd q) (pid_page_no q) = bp_content ?b q"
    "pid_page_no pid \<noteq> INVALID_PAGE_ID \<Longrightarrow> find_frame b2 pid = Some h"
    "\<And>q. q \<noteq> pid \<Longrightarrow> find_frame b2 q = (if q = pg_id (page_at ?b h) then None else find_frame ?b q)"
    by (rule update_page_ok[OF iffD2[OF pool_inv_pageno v(1)] v'], assumption) blast
  show thesis
  proof (rule that[OF h v(7) u(1,2,3)])
    show "pool_step {pid} b b2" using u(4-6,9) v(7,8) unfolding e1 by (auto simp: pool_step_def)
    show "bp_content b pid \<noteq> None \<longrightarrow> disk_page (bp_disk b2) (pid_fd pid) (pid_page_no pid) = bp_content b pid"
      using u(10)[of pid] f op unfolding e1 by blast
    show "bp_cached b2 \<subseteq> insert pid (bp_cached b)"
      using u(12) unfolding e1 by (auto simp: bp_cached_def split: if_splits)
    show "\<forall>q. 0 < bp_pins b q \<longrightarrow> find_frame b2 q = find_frame b q"
    proof (intro allI impI)
      fix q
      assume q: "0 < bp_pins b q"
      obtain g where g: "find_frame b q = Some g" "pg_pin_count (page_at b g) \<noteq> 0"
        using q by (auto simp: bp_pins_def split: option.splits)
      have "q \<noteq> pg_id (page_at b h)"
        using g v(2,3) pool_invD(6)[OF inv, of q g] pool_invD(6)[OF inv, of q h] by auto
      moreover have "q \<noteq> pid" using g(1) f by auto
      ultimately show "find_frame b2 q = find_frame b q" using u(12)[of q] unfolding e1 by simp
    qed
  qed (use u(7,8,11) pn e1 in auto)
qed

text \<open>Handing the frame out, pinned once, with the page's bytes in it.\<close>

lemma hand_out:
  assumes inv: "pool_inv {h} W b" and ff: "find_frame b pid = Some h" and len: "length bs = PAGE_SIZE"
    and W': "W' - {pid} = W - {pid}"
    and c: "pid \<in> W' \<or> disk_page (bp_disk b) (pid_fd pid) (pid_page_no pid) = Some bs"
    and pg: "page_at b h = \<lparr>pg_id = pid, pg_data = zero_page, pg_is_dirty = False, pg_pin_count = 0\<rparr>"
    and b': "b' = on_replacer (pin h) (upd_page h (\<lambda>p. p\<lparr>pg_pin_count := 1\<rparr>) (upd_page h (\<lambda>p. p\<lparr>pg_data := bs\<rparr>) b))"
  shows "bp_inv W' b'" "find_frame b' pid = Some h" "bp_content b' = (bp_content b)(pid \<mapsto> bs)"
    "bp_pins b' = (bp_pins b)(pid := 1)" "bp_disk b' = bp_disk b" "pool_size b' = pool_size b"
proof -
  let ?p' = "\<lparr>pg_id = pid, pg_data = bs, pg_is_dirty = False, pg_pin_count = 1\<rparr>"
  have ok: "frame_ok b h" "length (pages b) = pool_size b" using ff pool_invD[OF inv] by blast+
  have eq: "b' = (upd_page h (\<lambda>_. ?p') b)\<lparr>bp_replacer := pin h (bp_replacer b)\<rparr>"
    using pg ok by (simp add: b' on_replacer_def upd_page_def page_at_def frame_ok_def)
  have "upd_ok W b pid h ?p' (pin h (bp_replacer b)) W'"
    using len c W' pool_invD(3)[OF inv] by (auto simp: upd_ok_def lru.inv_ops lru.cap_ops lru.pin_set)
  note w = pool_inv_upd[OF inv ff this eq]
  from w ff show "bp_inv W' b'" "find_frame b' pid = Some h" "bp_content b' = (bp_content b)(pid \<mapsto> bs)"
    "bp_pins b' = (bp_pins b)(pid := 1)" "bp_disk b' = bp_disk b" "pool_size b' = pool_size b" by simp_all
qed

lemma pool_step_put:
  assumes "pool_step {pid} b b2" "bp_content b' = (bp_content b2)(pid \<mapsto> bs)" "bp_disk b' = bp_disk b2"
    "pool_size b' = pool_size b2"
  shows "pool_step {pid} b b'"
  using assms by (auto simp: pool_step_def)

text \<open>A page of an open file that lies on disk is read into a frame as long as one is free.\<close>

lemma fetch_page_miss:
  assumes inv: "bp_inv W b" and f: "find_frame b pid = None" and room: "bp_room b"
    and op: "bp_open b (pid_fd pid)" and c: "bp_content b pid = Some bs"
  obtains f b' where "fetch_page pid b = (Inr (Some f), b')" "bp_inv W b'" "find_frame b' pid = Some f"
    "bp_content b' pid = Some bs" "pool_step {} b b'"
    "bp_pins b' = (bp_pins b)(pid := 1)" "fd2pageno (bp_disk b') = fd2pageno (bp_disk b)"
    "bp_cached b' \<subseteq> insert pid (bp_cached b)" "\<forall>q. 0 < bp_pins b q \<longrightarrow> find_frame b' q = find_frame b q"
proof -
  have pn: "0 \<le> pid_page_no pid" using c f by (auto simp: bp_content_def disk_page_def split: option.splits if_splits)
  have len: "length bs = PAGE_SIZE" by (rule length_bp_content[OF inv c])
  obtain h b1 b2 where t: "find_victim_page b = (Inr (Some h), b1)" "bp_disk b1 = bp_disk b"
    "update_page h pid h (with_pageno (fd2pageno (bp_disk b)) b1) = (Inr (), b2)" "pool_inv {h} W b2"
    "page_at b2 h = \<lparr>pg_id = pid, pg_data = zero_page, pg_is_dirty = False, pg_pin_count = 0\<rparr>"
    "find_frame b2 pid = Some h" "pool_step {pid} b b2" "bp_pins b2 = bp_pins b"
    "fd2pageno (bp_disk b2) = fd2pageno (bp_disk b)"
    "bp_content b pid \<noteq> None \<longrightarrow> disk_page (bp_disk b2) (pid_fd pid) (pid_page_no pid) = bp_content b pid"
    "bp_cached b2 \<subseteq> insert pid (bp_cached b)" "\<forall>q. 0 < bp_pins b q \<longrightarrow> find_frame b2 q = find_frame b q"
    by (rule take_frame[OF inv f room op pn, of "fd2pageno (bp_disk b)"])
  have same: "with_pageno (fd2pageno (bp_disk b)) b1 = b1" using t(2)[symmetric] by simp
  have dk: "disk_page (bp_disk b2) (pid_fd pid) (pid_page_no pid) = Some bs" using t(10) c by simp
  let ?b = "on_replacer (pin h) (upd_page h (\<lambda>p. p\<lparr>pg_pin_count := 1\<rparr>) (upd_page h (\<lambda>p. p\<lparr>pg_data := bs\<rparr>) b2))"
  have "load_page pid h b2 = (Inr (), upd_page h (\<lambda>p. p\<lparr>pg_data := bs\<rparr>) b2)"
    using read_page_full[OF dk, of zero_page] t(5) by (simp add: load_page_def zero_page_def)
  then have eq: "fetch_page pid b = (Inr (Some h), ?b)"
    using f t(1,3) by (simp add: fetch_page_def bindE_Inr thenE_Inr same)
  note w = hand_out[OF t(4,6) len refl _ t(5) refl]
  show thesis
  proof (rule that[OF eq])
    show "pool_step {} b ?b"
      using pool_step_put[OF t(7) w(3,5,6)] c w(3) dk by (auto simp: pool_step_def)
    show "bp_cached ?b \<subseteq> insert pid (bp_cached b)" using t(11) by (simp add: bp_cached_def)
    show "\<forall>q. 0 < bp_pins b q \<longrightarrow> find_frame ?b q = find_frame b q" using t(12) by simp
  qed (use w dk t(8,9) in auto)
qed

text \<open>A new page reads as zeros. It has no copy on disk until it is written back, so the client
  that holds it must unpin it dirty.\<close>

lemma new_page_ok:
  assumes inv: "bp_inv W b" and room: "bp_room b" and op: "bp_open b fd" and fd: "0 \<le> fd" "fd < MAX_FD"
    and pn: "0 \<le> fd2pageno (bp_disk b) fd" and fresh: "find_frame b (PageId fd (fd2pageno (bp_disk b) fd)) = None"
  obtains f b' where "new_page fd b = (Inr (Some (PageId fd (fd2pageno (bp_disk b) fd), f)), b')"
    "bp_inv (insert (PageId fd (fd2pageno (bp_disk b) fd)) W) b'"
    "find_frame b' (PageId fd (fd2pageno (bp_disk b) fd)) = Some f"
    "bp_content b' (PageId fd (fd2pageno (bp_disk b) fd)) = Some zero_page"
    "pool_step {PageId fd (fd2pageno (bp_disk b) fd)} b b'"
    "bp_pins b' = (bp_pins b)(PageId fd (fd2pageno (bp_disk b) fd) := 1)"
    "fd2pageno (bp_disk b') = (fd2pageno (bp_disk b))(fd := fd2pageno (bp_disk b) fd + 1)"
    "bp_cached b' \<subseteq> insert (PageId fd (fd2pageno (bp_disk b) fd)) (bp_cached b)"
proof -
  let ?pid = "PageId fd (fd2pageno (bp_disk b) fd)"
  let ?n = "(fd2pageno (bp_disk b))(fd := fd2pageno (bp_disk b) fd + 1)"
  have pp: "bp_open b (pid_fd ?pid)" "0 \<le> pid_page_no ?pid" using op pn by simp_all
  obtain h b1 b2 where t: "find_victim_page b = (Inr (Some h), b1)" "bp_disk b1 = bp_disk b"
    "update_page h ?pid h (with_pageno ?n b1) = (Inr (), b2)" "pool_inv {h} W b2"
    "page_at b2 h = \<lparr>pg_id = ?pid, pg_data = zero_page, pg_is_dirty = False, pg_pin_count = 0\<rparr>"
    "find_frame b2 ?pid = Some h" "pool_step {?pid} b b2" "bp_pins b2 = bp_pins b"
    "fd2pageno (bp_disk b2) = ?n" "bp_cached b2 \<subseteq> insert ?pid (bp_cached b)"
    by (rule take_frame[OF inv fresh room pp, of ?n])
  let ?b = "on_replacer (pin h) (upd_page h (\<lambda>p. p\<lparr>pg_pin_count := 1\<rparr>) (upd_page h (\<lambda>p. p\<lparr>pg_data := zero_page\<rparr>) b2))"
  have "on_disk (allocate_page fd) b1 = (Inr (fd2pageno (bp_disk b) fd), with_pageno ?n b1)"
    using fd t(2) by (simp add: on_disk_def allocate_page_def)
  moreover have "upd_page h (\<lambda>p. p\<lparr>pg_data := zero_page\<rparr>) b2 = b2"
    by (rule upd_page_id) (simp add: t(5))
  ultimately have eq: "new_page fd b = (Inr (Some (?pid, h)), ?b)"
    using t(1,3) by (simp add: new_page_def bindE_Inr thenE_Inr)
  have "insert ?pid W - {?pid} = W - {?pid}" by blast
  note w = hand_out[OF t(4,6) _ this _ t(5) refl, of zero_page]
  show thesis
  proof (rule that[OF eq])
    show "pool_step {?pid} b ?b"
      using pool_step_put[OF t(7) w(3,5,6)] by (simp add: zero_page_def)
    show "bp_cached ?b \<subseteq> insert ?pid (bp_cached b)" using t(10) by (simp add: bp_cached_def)
  qed (use w t(8,9) in \<open>auto simp: zero_page_def\<close>)
qed

lemma fetch_page_ok:
  assumes inv: "bp_inv W b" and room: "bp_room b \<or> 0 < bp_pins b pid"
    and op: "bp_open b (pid_fd pid)" and c: "bp_content b pid = Some bs"
  obtains f b' where "fetch_page pid b = (Inr (Some f), b')" "bp_inv W b'" "find_frame b' pid = Some f"
    "bp_content b' pid = Some bs" "pool_step {} b b'"
    "bp_pins b' = (bp_pins b)(pid := bp_pins b pid + 1)" "fd2pageno (bp_disk b') = fd2pageno (bp_disk b)"
    "bp_cached b' \<subseteq> insert pid (bp_cached b)" "\<forall>q. 0 < bp_pins b q \<longrightarrow> find_frame b' q = find_frame b q"
proof (cases "find_frame b pid")
  case None
  then have r: "bp_room b" and [simp]: "bp_pins b pid = 0" using room by (auto simp: bp_pins_def)
  show thesis
    by (rule fetch_page_miss[OF inv None r op c], rule that, assumption+) simp_all
next
  case (Some f)
  obtain b' where "fetch_page pid b = (Inr (Some f), b')" "bp_inv W b'" "find_frame b' pid = Some f"
    "bp_content b' = bp_content b" "bp_pins b' = (bp_pins b)(pid := bp_pins b pid + 1)"
    "bp_disk b' = bp_disk b" "pool_size b' = pool_size b" "find_frame b' = find_frame b"
    by (rule fetch_page_hit[OF inv Some])
  with c show thesis by (intro that[of f b']) (auto simp: pool_step_def bp_cached_def)
qed

lemma unpin_page_ok:
  assumes inv: "bp_inv W b" and pos: "0 < bp_pins b pid" and d: "dirty \<or> pid \<notin> W"
  obtains b' where "unpin_page pid dirty b = (Inr True, b')" "bp_inv (W - {pid}) b'"
    "bp_content b' = bp_content b" "bp_pins b' = (bp_pins b)(pid := bp_pins b pid - 1)"
    "bp_disk b' = bp_disk b" "pool_size b' = pool_size b" "find_frame b' = find_frame b"
proof -
  from pos obtain f where f: "find_frame b pid = Some f" by (auto simp: bp_pins_def split: option.splits)
  let ?p = "page_at b f"
  let ?p' = "?p\<lparr>pg_pin_count := pg_pin_count ?p - 1, pg_is_dirty := (pg_is_dirty ?p \<or> dirty)\<rparr>"
  let ?r = "if pg_pin_count ?p - 1 = 0 then unpin f (bp_replacer b) else bp_replacer b"
  let ?b = "(upd_page f (\<lambda>_. ?p') b)\<lparr>bp_replacer := ?r\<rparr>"
  have fo: "frame_ok b f" "pg_id ?p = pid" "pid_page_no pid \<noteq> INVALID_PAGE_ID"
    using f pool_invD(6)[OF inv] by blast+
  have lru: "lru_inv (bp_replacer b)" using pool_invD[OF inv] by blast
  have c: "pid \<in> W \<or> synced b f" using inv fo by (auto simp: pool_inv_defs)
  have p1: "0 < pg_pin_count ?p" using pos cached(2)[OF f] by simp
  then have nev: "f \<notin> set (evictable (bp_replacer b))" using inv by (auto simp: pool_inv_defs)
  have ev: "set (evictable ?r) = (if pg_pin_count ?p - 1 = 0 then insert f (set (evictable (bp_replacer b)))
      else set (evictable (bp_replacer b)) - {f})"
    using nev lru.unpin_set[OF lru replacer_room[OF inv fo(1) nev]] by auto
  have "unpin_page pid dirty b = (Inr True, ?b)"
    using f p1 by (auto simp: unpin_page_def on_replacer_def upd_page_def thenE_def bindE_def)
  moreover have "upd_ok W b pid f ?p' ?r (W - {pid})"
    unfolding upd_ok_def ev using p1 lru c fo d pool_invD(4)[OF inv fo(1)]
    by (auto simp: lru.inv_ops lru.cap_ops synced_def)
  note u = pool_inv_upd[OF inv f this refl]
  ultimately show thesis
    using f u by (intro that[of ?b]) (simp_all add: cached fun_upd_idem)
qed

lemma write_data_ok:
  assumes inv: "bp_inv W b" and pos: "0 < bp_pins b pid" and f: "find_frame b pid = Some f"
    and len: "length bs = PAGE_SIZE"
  shows "bp_inv (insert pid W) (write_data f bs b)" "find_frame (write_data f bs b) = find_frame b"
    "bp_content (write_data f bs b) = (bp_content b)(pid \<mapsto> bs)"
    "bp_pins (write_data f bs b) = bp_pins b" "bp_disk (write_data f bs b) = bp_disk b"
    "pool_size (write_data f bs b) = pool_size b"
proof -
  let ?p = "page_at b f"
  have fo: "frame_ok b f" "pg_id ?p = pid" using f pool_invD(6)[OF inv] by blast+
  have p1: "0 < pg_pin_count ?p" using pos cached(2)[OF f] by simp
  then have nev: "f \<notin> set (evictable (bp_replacer b))" using inv by (auto simp: pool_inv_defs)
  have "upd_ok W b pid f (?p\<lparr>pg_data := bs\<rparr>) (bp_replacer b) (insert pid W)"
    using fo p1 nev len pool_invD(3)[OF inv] by (auto simp: upd_ok_def)
  note u = pool_inv_upd[OF inv f this refl]
  have eq: "write_data f bs b = (upd_page f (\<lambda>_. ?p\<lparr>pg_data := bs\<rparr>) b)\<lparr>bp_replacer := bp_replacer b\<rparr>"
    by (simp add: write_data_def upd_page_def)
  show "bp_inv (insert pid W) (write_data f bs b)" "find_frame (write_data f bs b) = find_frame b"
    "bp_content (write_data f bs b) = (bp_content b)(pid \<mapsto> bs)"
    "bp_pins (write_data f bs b) = bp_pins b" "bp_disk (write_data f bs b) = bp_disk b"
    "pool_size (write_data f bs b) = pool_size b"
    using u unfolding eq by (simp_all add: cached(2)[OF f, symmetric])
qed

text \<open>A page whose bytes were changed through a pointer is safe once it is marked dirty.\<close>

lemma mark_dirty_ok:
  assumes inv: "bp_inv W b" and f: "find_frame b pid = Some f" and pos: "0 < bp_pins b pid"
  shows "bp_inv (W - {pid}) (mark_dirty f b)" "bp_content (mark_dirty f b) = bp_content b"
    "bp_pins (mark_dirty f b) = bp_pins b"
proof -
  let ?p = "page_at b f"
  have fo: "frame_ok b f" "pg_id ?p = pid" using f pool_invD(6)[OF inv] by blast+
  have p1: "0 < pg_pin_count ?p" using pos cached(2)[OF f] by simp
  then have nev: "f \<notin> set (evictable (bp_replacer b))" using inv by (auto simp: pool_inv_defs)
  have "upd_ok W b pid f (?p\<lparr>pg_is_dirty := True\<rparr>) (bp_replacer b) (W - {pid})"
    using fo p1 nev pool_invD(3)[OF inv] pool_invD(4)[OF inv fo(1)] by (auto simp: upd_ok_def)
  note u = pool_inv_upd[OF inv f this refl]
  have eq: "mark_dirty f b = (upd_page f (\<lambda>_. ?p\<lparr>pg_is_dirty := True\<rparr>) b)\<lparr>bp_replacer := bp_replacer b\<rparr>"
    by (simp add: mark_dirty_def upd_page_def)
  show "bp_inv (W - {pid}) (mark_dirty f b)" "bp_content (mark_dirty f b) = bp_content b"
    "bp_pins (mark_dirty f b) = bp_pins b"
    using u unfolding eq by (simp_all add: cached[OF f, symmetric] fun_upd_idem)
qed

section \<open>Write-back and removal\<close>

lemma pool_inv_disk:
  assumes inv: "pool_inv H W b" and d: "dm_inv d" "fd2path d = fd2path (bp_disk b)"
    and f: "find_frame b pid = Some f"
    and same: "disk_page d (pid_fd pid) (pid_page_no pid) = Some (pg_data (page_at b f))"
    and other: "\<And>fd q. (fd, q) \<noteq> (pid_fd pid, pid_page_no pid) \<Longrightarrow> disk_page (bp_disk b) fd q \<noteq> None \<Longrightarrow>
       fd2path (bp_disk b) fd \<noteq> None \<Longrightarrow> disk_page d fd q = disk_page (bp_disk b) fd q"
  shows "pool_inv H W (b\<lparr>bp_disk := d\<rparr>)" "bp_pins (b\<lparr>bp_disk := d\<rparr>) = bp_pins b"
    "dm_paths d = dm_paths (bp_disk b) \<Longrightarrow> pool_step {} b (b\<lparr>bp_disk := d\<rparr>)"
proof -
  let ?b = "b\<lparr>bp_disk := d\<rparr>"
  show pins: "bp_pins ?b = bp_pins b" by (simp add: bp_pins_def fun_eq_iff split: option.split)
  have op: "bp_open ?b = bp_open b" by (simp add: bp_open_def d fun_eq_iff)
  have sy: "synced ?b g" if g: "synced b g" "frame_ok b g" "pid_page_no (pg_id (page_at b g)) \<noteq> INVALID_PAGE_ID" for g
  proof (cases "g = f")
    case True
    with f same pool_invD(6)[OF inv, of pid f] show ?thesis by (simp add: synced_def)
  next
    case False
    have gf: "find_frame b (pg_id (page_at b g)) = Some g" using g pool_invD(6)[OF inv] by blast
    with False f have "(pid_fd (pg_id (page_at b g)), pid_page_no (pg_id (page_at b g))) \<noteq> (pid_fd pid, pid_page_no pid)"
      by (metis PageId.collapse option.inject prod.inject)
    moreover have "fd2path (bp_disk b) (pid_fd (pg_id (page_at b g))) \<noteq> None"
      using pool_invD(7)[OF inv gf] by (simp add: bp_open_def)
    ultimately show ?thesis
      using g(1) other[of "pid_fd (pg_id (page_at b g))" "pid_page_no (pg_id (page_at b g))"]
      by (auto simp: synced_def)
  qed
  have "frames_inv H ?b" "table_inv ?b" "replacer_inv H ?b"
    using inv by (simp_all add: pool_inv_def frames_inv_def table_inv_def replacer_inv_def op)
  moreover have "content_inv H W ?b"
    using inv sy d(1) unfolding pool_inv_def content_inv_def pins by auto
  ultimately show "pool_inv H W ?b" by (simp add: pool_inv_def)
  show "pool_step {} b ?b" if "dm_paths d = dm_paths (bp_disk b)"
    unfolding pool_step_def
  proof (intro conjI allI impI)
    fix q assume q: "bp_open b (pid_fd q)" "bp_content b q \<noteq> None"
    show "bp_content ?b q = bp_content b q"
    proof (cases "find_frame b q")
      case None
      with f have "(pid_fd q, pid_page_no q) \<noteq> (pid_fd pid, pid_page_no pid)"
        by (metis PageId.collapse option.distinct(1) prod.inject)
      from other[OF this] None q show ?thesis by (simp add: bp_content_def bp_open_def)
    qed (simp add: bp_content_def)
  qed (use d that in simp_all)
qed

lemma write_back:
  assumes inv: "pool_inv H W b" and f: "find_frame b pid = Some f"
  obtains b' where "on_disk (write_page (pid_fd pid) (pid_page_no pid) (pg_data (page_at b f)) PAGE_SIZE) b = (Inr (), b')"
    "pool_inv H W b'" "bp_pins b' = bp_pins b" "pool_step {} b b'"
    "disk_page (bp_disk b') (pid_fd pid) (pid_page_no pid) = Some (pg_data (page_at b f))"
    "fd2pageno (bp_disk b') = fd2pageno (bp_disk b)"
    "find_frame b' = find_frame b" "page_at b' = page_at b"
proof -
  have fo: "frame_ok b f" "0 \<le> pid_page_no pid" "bp_open b (pid_fd pid)"
    using f pool_invD(6)[OF inv] pool_invD(7)[OF inv] by blast+
  from fo(3) obtain path where path: "fd2path (bp_disk b) (pid_fd pid) = Some path" "path \<noteq> LOG_FILE_NAME" by (auto simp: bp_open_def)
  obtain d where w: "write_page (pid_fd pid) (pid_page_no pid) (pg_data (page_at b f)) PAGE_SIZE (bp_disk b) = (Inr (), d)"
    "dm_inv d" "disk_page d (pid_fd pid) (pid_page_no pid) = Some (pg_data (page_at b f))"
    "\<And>fd' q. (fd', q) \<noteq> (pid_fd pid, pid_page_no pid) \<Longrightarrow> disk_page (bp_disk b) fd' q \<noteq> None \<Longrightarrow>
       fd2path (bp_disk b) fd' \<noteq> None \<Longrightarrow> disk_page d fd' q = disk_page (bp_disk b) fd' q"
    "fd2path d = fd2path (bp_disk b)" "dm_paths d = dm_paths (bp_disk b)"
    "fd2pageno d = fd2pageno (bp_disk b)"
    using write_page_full[OF pool_invD(2)[OF inv] path fo(2) pool_invD(4)[OF inv fo(1)]] by blast
  note k = pool_inv_disk[OF inv w(2,5) f w(3,4)]
  show thesis
    using k w by (intro that[of "b\<lparr>bp_disk := d\<rparr>"]) (simp_all add: on_disk_def fun_eq_iff)
qed

lemma clean_frame:
  assumes inv: "bp_inv W b" and f: "find_frame b pid = Some f"
    and dk: "disk_page (bp_disk b) (pid_fd pid) (pid_page_no pid) = Some (pg_data (page_at b f))"
    and b': "b' = upd_page f (\<lambda>p. p\<lparr>pg_is_dirty := False\<rparr>) b"
  shows "bp_inv (W - {pid}) b'" "bp_content b' = bp_content b" "bp_pins b' = bp_pins b"
    "bp_disk b' = bp_disk b" "pool_size b' = pool_size b" "find_frame b' = find_frame b"
proof -
  let ?p' = "(page_at b f)\<lparr>pg_is_dirty := False\<rparr>"
  have fo: "frame_ok b f" "pg_id (page_at b f) = pid" "pid_page_no pid \<noteq> INVALID_PAGE_ID"
    using f pool_invD(6)[OF inv] by blast+
  have "f \<in> set (evictable (bp_replacer b)) \<longleftrightarrow> pg_pin_count (page_at b f) = 0"
    using inv fo by (auto simp: pool_inv_defs)
  then have "upd_ok W b pid f ?p' (bp_replacer b) (W - {pid})"
    using fo dk pool_invD(3)[OF inv] pool_invD(4,5)[OF inv fo(1)] by (auto simp: upd_ok_def)
  note u = pool_inv_upd[OF inv f this refl]
  have eq: "b' = (upd_page f (\<lambda>_. ?p') b)\<lparr>bp_replacer := bp_replacer b\<rparr>" by (simp add: b' upd_page_def)
  show "bp_inv (W - {pid}) b'" "bp_content b' = bp_content b" "bp_pins b' = bp_pins b"
    "bp_disk b' = bp_disk b" "pool_size b' = pool_size b" "find_frame b' = find_frame b"
    using u unfolding eq by (simp_all add: cached[OF f, symmetric] fun_upd_idem)
qed

lemma flush_page_ok:
  assumes inv: "bp_inv W b" and f: "find_frame b pid = Some f"
  obtains b' where "flush_page pid b = (Inr True, b')" "bp_inv (W - {pid}) b'" "pool_step {} b b'"
    "bp_pins b' = bp_pins b" "find_frame b' = find_frame b"
    "disk_page (bp_disk b') (pid_fd pid) (pid_page_no pid) = bp_content b pid"
    "fd2pageno (bp_disk b') = fd2pageno (bp_disk b)"
proof -
  obtain b1 where w: "on_disk (write_page (pid_fd pid) (pid_page_no pid) (pg_data (page_at b f)) PAGE_SIZE) b = (Inr (), b1)"
    "pool_inv {} W b1" "bp_pins b1 = bp_pins b" "pool_step {} b b1"
    "disk_page (bp_disk b1) (pid_fd pid) (pid_page_no pid) = Some (pg_data (page_at b f))"
    "fd2pageno (bp_disk b1) = fd2pageno (bp_disk b)"
    "find_frame b1 = find_frame b" "page_at b1 = page_at b"
    by (rule write_back[OF inv f])
  let ?b = "upd_page f (\<lambda>p. p\<lparr>pg_is_dirty := False\<rparr>) b1"
  note c = clean_frame[OF w(2) _ _ refl, of pid f]
  show thesis
  proof (rule that[of ?b])
    show "flush_page pid b = (Inr True, ?b)" using f w(1) by (simp add: flush_page_def thenE_Inr)
  qed (use c w f cached(1)[OF f] in \<open>auto simp: pool_step_def\<close>)
qed

lemma pin_out:
  assumes inv: "bp_inv W b" and nf: "f \<notin> set (free_list b)"
  shows "pool_inv {f} W (on_replacer (pin f) b)"
proof -
  let ?b = "on_replacer (pin f) b"
  note e = views_cong[of ?b b, simplified]
  have "frames_inv {f} ?b" "table_inv ?b" "content_inv {f} W ?b"
    using inv nf unfolding pool_inv_def frames_inv_def table_inv_def content_inv_def e by auto
  moreover have "replacer_inv {f} ?b"
    using inv pool_invD(3)[OF inv] unfolding pool_inv_def replacer_inv_def e
    by (auto simp: lru.inv_ops lru.cap_ops lru.pin_set)
  ultimately show ?thesis by (simp add: pool_inv_def)
qed

lemma free_frame:
  assumes inv: "pool_inv {f} W b" and f: "frame_ok b f" "f \<notin> set (free_list b)"
    "pg_pin_count (page_at b f) = 0" "pid_page_no (pg_id (page_at b f)) = INVALID_PAGE_ID"
  shows "bp_inv W (b\<lparr>free_list := free_list b @ [f]\<rparr>)"
proof -
  let ?b = "b\<lparr>free_list := free_list b @ [f]\<rparr>"
  note e = views_cong[of ?b b, simplified]
  have "table_inv ?b = table_inv b" by (simp add: table_inv_def e)
  moreover have "frames_inv {} ?b"
  proof -
    have fi: "length (pages b) = pool_size b" "distinct (free_list b)"
      "frame_ok b g \<Longrightarrow> length (pg_data (page_at b g)) = PAGE_SIZE \<and> 0 \<le> pg_pin_count (page_at b g)"
      "g \<in> set (free_list b) \<Longrightarrow> frame_ok b g \<and> pg_pin_count (page_at b g) = 0"
      "frame_ok b g \<Longrightarrow> g \<noteq> f \<Longrightarrow>
         g \<in> set (free_list b) \<longleftrightarrow> pid_page_no (pg_id (page_at b g)) = INVALID_PAGE_ID" for g
      using inv unfolding pool_inv_def frames_inv_def by blast+
    show ?thesis unfolding frames_inv_def e
      using fi(1,2,3) f by (auto dest: fi(4) fi(5))
  qed
  moreover have "replacer_inv {} ?b" using inv f unfolding pool_inv_def replacer_inv_def e by auto
  moreover have "content_inv {} W ?b" using inv f unfolding pool_inv_def content_inv_def e by auto
  ultimately show ?thesis using inv by (simp add: pool_inv_def)
qed

lemma drop_frame_ok:
  assumes inv: "bp_inv W b" and f: "find_frame b pid = Some f" and pin0: "bp_pins b pid = 0"
  obtains b' where "drop_frame fd f b = (Inr (), b')" "bp_inv W b'" "pool_step {} b b'"
    "bp_pins b' = bp_pins b" "find_frame b' = (find_frame b)(pid := None)"
    "disk_page (bp_disk b') (pid_fd pid) (pid_page_no pid) = bp_content b pid"
    "fd2pageno (bp_disk b') = fd2pageno (bp_disk b)"
proof -
  let ?b = "on_replacer (pin f) b"
  have fo: "frame_ok b f" "pg_id (page_at b f) = pid" "pid_page_no pid \<noteq> INVALID_PAGE_ID"
    using f pool_invD(6)[OF inv] by blast+
  have pf: "pg_pin_count (page_at b f) = 0" using pin0 cached(2)[OF f] by simp
  have nf: "f \<notin> set (free_list b)" using inv fo by (auto simp: pool_inv_defs)
  have nW: "pid \<notin> W" using inv pin0 by (auto simp: pool_inv_def content_inv_def)
  then have sy: "synced b f" using inv fo by (auto simp: pool_inv_defs)
  note e = views_cong[of ?b b, simplified]
  have i1: "pool_inv {f} W ?b" by (rule pin_out[OF inv nf])
  have v: "frame_ok ?b f" "pg_pin_count (page_at ?b f) = 0"
    "pid_page_no (pg_id (page_at ?b f)) \<noteq> INVALID_PAGE_ID \<Longrightarrow> synced ?b f"
    "pid_page_no (PageId fd INVALID_PAGE_ID) = INVALID_PAGE_ID \<or>
      0 \<le> pid_page_no (PageId fd INVALID_PAGE_ID) \<and> bp_open ?b (pid_fd (PageId fd INVALID_PAGE_ID)) \<and>
      find_frame ?b (PageId fd INVALID_PAGE_ID) = None"
    using fo pf sy unfolding e by simp_all
  obtain b2 where u: "update_page f (PageId fd INVALID_PAGE_ID) f ?b = (Inr (), b2)" "pool_inv {f} W b2"
    "page_at b2 f = \<lparr>pg_id = PageId fd INVALID_PAGE_ID, pg_data = zero_page, pg_is_dirty = False, pg_pin_count = 0\<rparr>"
    "pool_size b2 = pool_size ?b" "free_list b2 = free_list ?b"
    "fd2path (bp_disk b2) = fd2path (bp_disk ?b)" "dm_paths (bp_disk b2) = dm_paths (bp_disk ?b)"
    "fd2pageno (bp_disk b2) = fd2pageno (bp_disk ?b)" "bp_pins b2 = bp_pins ?b"
    "\<And>q. q \<noteq> PageId fd INVALID_PAGE_ID \<Longrightarrow> bp_content ?b q \<noteq> None \<Longrightarrow> bp_open ?b (pid_fd q) \<Longrightarrow> bp_content b2 q = bp_content ?b q"
    "\<And>q. q \<noteq> PageId fd INVALID_PAGE_ID \<Longrightarrow> find_frame b2 q = (if q = pg_id (page_at ?b f) then None else find_frame ?b q)"
    by (rule update_page_ok[OF i1 v], assumption) blast
  have inval: "bp_content b q = None" "find_frame b q = None" "find_frame b2 q = None"
    if "q = PageId fd INVALID_PAGE_ID" for q
    using that pool_invD(6)[OF inv, of q] pool_invD(6)[OF u(2), of q]
    by (auto simp: bp_content_def disk_page_def split: option.splits)
  have ff: "find_frame b2 q = ((find_frame b)(pid := None)) q" for q
    using u(11)[of q] inval[of q] fo(2) unfolding e by (cases "q = PageId fd INVALID_PAGE_ID") auto
  let ?b' = "b2\<lparr>free_list := free_list b2 @ [f]\<rparr>"
  note e' = views_cong[of ?b' b2, simplified]
  have fo2: "frame_ok b2 f" using fo(1) u(4) by (simp add: frame_ok_def)
  have i2: "bp_inv W ?b'" using u(3,5) nf fo2 by (intro free_frame[OF u(2)]) simp_all
  have ps: "bp_content b2 q = bp_content b q" if "bp_open b (pid_fd q)" "bp_content b q \<noteq> None" for q
    using u(10)[of q] that inval(1)[of q] unfolding e by (cases "q = PageId fd INVALID_PAGE_ID") auto
  have "bp_content b2 pid = bp_content b pid"
    using ps[of pid] cached(1)[OF f] pool_invD(7)[OF inv f] by simp
  then have dk: "disk_page (bp_disk b2) (pid_fd pid) (pid_page_no pid) = bp_content b pid"
    by (simp add: bp_content_def[of b2] ff)
  show thesis
  proof (rule that[of ?b'])
    show "drop_frame fd f b = (Inr (), ?b')" using u(1) by (simp add: drop_frame_def thenE_Inr)
    show "pool_step {} b ?b'" using ps u(4,6,7) unfolding pool_step_def e' by simp
  qed (use i2 dk ff u(8,9) e' e in \<open>simp_all add: fun_eq_iff\<close>)
qed

lemma delete_page_ok:
  assumes inv: "bp_inv W b"
  shows "bp_pins b pid \<noteq> 0 \<Longrightarrow> delete_page pid b = (Inr False, b)"
    "bp_pins b pid = 0 \<Longrightarrow> \<exists>b'. delete_page pid b = (Inr True, b') \<and> bp_inv W b' \<and> pool_step {} b b' \<and>
       bp_pins b' = bp_pins b \<and> find_frame b' = (find_frame b)(pid := None)"
proof -
  show "delete_page pid b = (Inr False, b)" if "bp_pins b pid \<noteq> 0"
    using that by (auto simp: delete_page_def bp_pins_def split: option.splits)
  assume 0: "bp_pins b pid = 0"
  show "\<exists>b'. delete_page pid b = (Inr True, b') \<and> bp_inv W b' \<and> pool_step {} b b' \<and>
       bp_pins b' = bp_pins b \<and> find_frame b' = (find_frame b)(pid := None)"
  proof (cases "find_frame b pid")
    case None
    with inv show ?thesis by (auto simp: delete_page_def deallocate_page_def fun_upd_idem)
  next
    case (Some f)
    obtain b' where "drop_frame (pid_fd pid) f b = (Inr (), b')" "bp_inv W b'" "pool_step {} b b'"
      "bp_pins b' = bp_pins b" "find_frame b' = (find_frame b)(pid := None)"
      by (rule drop_frame_ok[OF inv Some 0])
    with Some 0 show ?thesis by (auto simp: delete_page_def deallocate_page_def cached(2) thenE_Inr)
  qed
qed

lemma drop_all_ok:
  assumes "bp_inv W b" "\<And>pid. pid \<in> set pids \<Longrightarrow> bp_pins b pid = 0"
  shows "\<exists>b'. mapE (drop_cached fd) pids b = (Inr (), b') \<and>
    bp_inv W b' \<and> pool_step {} b b' \<and> bp_pins b' = bp_pins b \<and>
    (\<forall>q. find_frame b' q = (if q \<in> set pids then None else find_frame b q))"
  using assms
proof (induction pids arbitrary: b)
  case Nil
  then show ?case by simp
next
  case (Cons pid pids)
  obtain b1 where b1: "drop_cached fd pid b = (Inr (), b1)"
    "bp_inv W b1" "pool_step {} b b1" "bp_pins b1 = bp_pins b" "find_frame b1 = (find_frame b)(pid := None)"
  proof (cases "find_frame b pid")
    case None
    with Cons.prems(1) show thesis by (intro that[of b]) (simp_all add: drop_cached_def fun_upd_idem)
  next
    case (Some f)
    have p0: "bp_pins b pid = 0" using Cons.prems(2) by simp
    obtain b' where "drop_frame fd f b = (Inr (), b')" "bp_inv W b'" "pool_step {} b b'"
      "bp_pins b' = bp_pins b" "find_frame b' = (find_frame b)(pid := None)"
      by (rule drop_frame_ok[OF Cons.prems(1) Some p0])
    with Some show thesis by (intro that[of b']) (simp_all add: drop_cached_def)
  qed
  have "\<And>q. q \<in> set pids \<Longrightarrow> bp_pins b1 q = 0" using Cons.prems(2) b1(4) by simp
  from Cons.IH[OF b1(2) this] obtain b2 where b2: "mapE (drop_cached fd) pids b1 = (Inr (), b2)"
    "bp_inv W b2" "pool_step {} b1 b2" "bp_pins b2 = bp_pins b1"
    "\<And>q. find_frame b2 q = (if q \<in> set pids then None else find_frame b1 q)" by auto
  have "pool_step {} b b2" by (rule pool_step_trans[OF b1(3) b2(3)]) simp
  with b1 b2 show ?case by (auto simp: thenE_Inr)
qed

lemma find_frame_Some_table: "pool_inv H W b \<Longrightarrow> find_frame b pid = Some f \<longleftrightarrow> (pid, f) \<in> set (page_table b)"
  unfolding find_frame_def pool_inv_def table_inv_def by (intro map_of_eq_Some_iff) blast

lemma delete_all_pages_ok:
  assumes inv: "bp_inv W b"
  shows "(\<exists>pid. pid_fd pid = fd \<and> bp_pins b pid \<noteq> 0) \<Longrightarrow> delete_all_pages fd b = (Inr False, b)"
    "(\<And>pid. pid_fd pid = fd \<Longrightarrow> bp_pins b pid = 0) \<Longrightarrow>
       \<exists>b'. delete_all_pages fd b = (Inr True, b') \<and> bp_inv W b' \<and> pool_step {} b b' \<and> bp_pins b' = bp_pins b \<and>
         (\<forall>q. find_frame b' q = (if pid_fd q = fd then None else find_frame b q))"
proof -
  let ?pids = "map fst (filter (\<lambda>e. pid_fd (fst e) = fd) (page_table b))"
  have mem: "pid \<in> set ?pids \<longleftrightarrow> pid_fd pid = fd \<and> find_frame b pid \<noteq> None" for pid
    using find_frame_Some_table[OF inv, of pid] by (force simp: image_iff)
  have pinned: "list_ex (\<lambda>pid. case find_frame b pid of None \<Rightarrow> False | Some f \<Rightarrow> pg_pin_count (page_at b f) \<noteq> 0) ?pids
      \<longleftrightarrow> (\<exists>pid. pid_fd pid = fd \<and> bp_pins b pid \<noteq> 0)"
    unfolding list_ex_iff Bex_def mem by (auto simp: bp_pins_def split: option.splits)
  show "delete_all_pages fd b = (Inr False, b)" if "\<exists>pid. pid_fd pid = fd \<and> bp_pins b pid \<noteq> 0"
    using that pinned by (simp add: delete_all_pages_def)
  assume none: "\<And>pid. pid_fd pid = fd \<Longrightarrow> bp_pins b pid = 0"
  then have "\<And>pid. pid \<in> set ?pids \<Longrightarrow> bp_pins b pid = 0" unfolding mem by blast
  from drop_all_ok[OF inv this, of ?pids fd] obtain b' where
    b': "mapE (drop_cached fd) ?pids b = (Inr (), b')"
    "bp_inv W b'" "pool_step {} b b'" "bp_pins b' = bp_pins b"
    "\<And>q. find_frame b' q = (if q \<in> set ?pids then None else find_frame b q)" by blast
  have "\<not> list_ex (\<lambda>pid. case find_frame b pid of None \<Rightarrow> False | Some f \<Rightarrow> pg_pin_count (page_at b f) \<noteq> 0) ?pids"
    using pinned none by blast
  then have "delete_all_pages fd b = (Inr True, b')"
    unfolding delete_all_pages_def using b'(1) by (simp add: thenE_Inr)
  with b'(2-5) mem show "\<exists>b'. delete_all_pages fd b = (Inr True, b') \<and> bp_inv W b' \<and> pool_step {} b b' \<and>
      bp_pins b' = bp_pins b \<and> (\<forall>q. find_frame b' q = (if pid_fd q = fd then None else find_frame b q))" by auto
qed

lemma flush_entries_ok:
  assumes "bp_inv W b" "\<And>pid f. (pid, f) \<in> set es \<Longrightarrow> find_frame b pid = Some f"
  shows "\<exists>b'. mapE (flush_entry fd) es b = (Inr (), b') \<and> bp_inv (W - {pid \<in> fst ` set es. pid_fd pid = fd}) b' \<and>
    pool_step {} b b' \<and> bp_pins b' = bp_pins b \<and> find_frame b' = find_frame b \<and>
    fd2pageno (bp_disk b') = fd2pageno (bp_disk b) \<and>
    (\<forall>f. frame_ok b f \<longrightarrow> pg_is_dirty (page_at b' f) \<longrightarrow>
       pg_is_dirty (page_at b f) \<and> \<not> (\<exists>pid. (pid, f) \<in> set es \<and> pid_fd pid = fd))"
  using assms
proof (induction es arbitrary: b W)
  case Nil
  then show ?case by simp
next
  case (Cons e es)
  obtain pid f where e: "e = (pid, f)" by (cases e)
  have f: "find_frame b pid = Some f" using Cons.prems(2) e by simp
  show ?case
  proof (cases "pid_fd pid = fd")
    case False
    then have "flush_entry fd e b = (Inr (), b)" by (simp add: flush_entry_def e)
    moreover have "{q \<in> fst ` set (e # es). pid_fd q = fd} = {q \<in> fst ` set es. pid_fd q = fd}"
      using False e by auto
    ultimately show ?thesis
      using Cons.IH[OF Cons.prems(1)] Cons.prems(2) False e by (fastforce simp: thenE_Inr)
  next
    case True
    obtain b1 where w: "on_disk (write_page (pid_fd pid) (pid_page_no pid) (pg_data (page_at b f)) PAGE_SIZE) b = (Inr (), b1)"
      "pool_inv {} W b1" "bp_pins b1 = bp_pins b" "pool_step {} b b1"
      "disk_page (bp_disk b1) (pid_fd pid) (pid_page_no pid) = Some (pg_data (page_at b f))"
      "fd2pageno (bp_disk b1) = fd2pageno (bp_disk b)"
      "find_frame b1 = find_frame b" "page_at b1 = page_at b"
      by (rule write_back[OF Cons.prems(1) f])
    let ?b = "upd_page f (\<lambda>p. p\<lparr>pg_is_dirty := False\<rparr>) b1"
    have f1: "find_frame b1 pid = Some f" "disk_page (bp_disk b1) (pid_fd pid) (pid_page_no pid) = Some (pg_data (page_at b1 f))"
      using w f by simp_all
    note c = clean_frame[OF w(2) f1 refl]
    have fe: "flush_entry fd e b = (Inr (), ?b)" using True w(1) by (simp add: flush_entry_def e thenE_Inr)
    have st: "pool_step {} b ?b" using w(4) c by (auto simp: pool_step_def)
    have ok: "frame_ok ?b g = frame_ok b g" for g using st by (simp add: pool_step_def frame_ok_def)
    have fo: "frame_ok b f" "frame_ok b1 f" using f f1 pool_invD(6)[OF Cons.prems(1)] pool_invD(6)[OF w(2)] by blast+
    have at: "page_at ?b g = (if g = f then (page_at b f)\<lparr>pg_is_dirty := False\<rparr> else page_at b g)" if "frame_ok b g" for g
      using page_at_upd_page[OF fo(2) _ pool_invD(1)[OF w(2)], of g] that ok w(8) by simp
    have es: "\<And>pid f. (pid, f) \<in> set es \<Longrightarrow> find_frame ?b pid = Some f" using Cons.prems(2) w(7) by simp
    from Cons.IH[OF c(1) es] obtain b2 where b2: "mapE (flush_entry fd) es ?b = (Inr (), b2)"
      "bp_inv (W - {pid} - {q \<in> fst ` set es. pid_fd q = fd}) b2" "pool_step {} ?b b2" "bp_pins b2 = bp_pins ?b"
      "find_frame b2 = find_frame ?b" "fd2pageno (bp_disk b2) = fd2pageno (bp_disk ?b)"
      "\<forall>f. frame_ok b f \<longrightarrow> pg_is_dirty (page_at b2 f) \<longrightarrow>
         pg_is_dirty (page_at ?b f) \<and> \<not> (\<exists>pid. (pid, f) \<in> set es \<and> pid_fd pid = fd)"
      unfolding ok by blast
    have W: "W - {q \<in> fst ` set (e # es). pid_fd q = fd} = W - {pid} - {q \<in> fst ` set es. pid_fd q = fd}"
      using True e by auto
    have d: "\<forall>g. frame_ok b g \<longrightarrow> pg_is_dirty (page_at b2 g) \<longrightarrow>
       pg_is_dirty (page_at b g) \<and> \<not> (\<exists>pid. (pid, g) \<in> set (e # es) \<and> pid_fd pid = fd)"
      using b2(7) at fo e by (auto split: if_splits)
    have "pool_step {} b b2" by (rule pool_step_trans[OF st b2(3)]) simp
    with fe b2 d c(3,4,6) w(3,6,7) show ?thesis unfolding W by (intro exI[of _ b2]) (simp add: thenE_Inr)
  qed
qed

lemma flush_all_pages_ok:
  assumes inv: "bp_inv W b"
  obtains b' where "flush_all_pages fd b = (Inr (), b')" "bp_inv (W - {pid. pid_fd pid = fd}) b'"
    "pool_step {} b b'" "bp_pins b' = bp_pins b" "find_frame b' = find_frame b"
    "fd2pageno (bp_disk b') = fd2pageno (bp_disk b)"
    "\<And>pid. pid_fd pid = fd \<Longrightarrow> find_frame b pid \<noteq> None \<Longrightarrow>
       disk_page (bp_disk b') fd (pid_page_no pid) = bp_content b pid"
proof -
  have t: "(pid, f) \<in> set (page_table b) \<longleftrightarrow> find_frame b pid = Some f" for pid f
    using find_frame_Some_table[OF inv] by blast
  from flush_entries_ok[OF inv, of "page_table b" fd] t obtain b' where
    b': "mapE (flush_entry fd) (page_table b) b = (Inr (), b')"
    "bp_inv (W - {pid \<in> fst ` set (page_table b). pid_fd pid = fd}) b'"
    "pool_step {} b b'" "bp_pins b' = bp_pins b" "find_frame b' = find_frame b"
    "fd2pageno (bp_disk b') = fd2pageno (bp_disk b)"
    "\<And>f. frame_ok b f \<Longrightarrow> pg_is_dirty (page_at b' f) \<Longrightarrow>
       \<not> (\<exists>pid. (pid, f) \<in> set (page_table b) \<and> pid_fd pid = fd)" by auto
  have "pid \<in> fst ` set (page_table b)" if "pid \<in> W" for pid
  proof -
    have "0 < bp_pins b pid" using inv that by (auto simp: pool_inv_def content_inv_def)
    then obtain f where "find_frame b pid = Some f" by (auto simp: bp_pins_def split: option.splits)
    then show ?thesis using t by force
  qed
  then have W: "W - {pid \<in> fst ` set (page_table b). pid_fd pid = fd} = W - {pid. pid_fd pid = fd}" by blast
  show thesis
  proof (rule that[OF _ _ b'(3-6)])
    show "flush_all_pages fd b = (Inr (), b')" using b'(1) by (simp add: flush_all_pages_def)
    show i: "bp_inv (W - {pid. pid_fd pid = fd}) b'" using b'(2) unfolding W .
    fix pid assume pid: "pid_fd pid = fd" "find_frame b pid \<noteq> None"
    then obtain f where f: "find_frame b pid = Some f" by blast
    then have f': "find_frame b' pid = Some f" "frame_ok b f" "bp_open b (pid_fd pid)"
      using b'(5) pool_invD(6)[OF inv] pool_invD(7)[OF inv] by auto
    then have p: "frame_ok b' f" "pg_id (page_at b' f) = pid" "pid_page_no pid \<noteq> INVALID_PAGE_ID"
      using pool_invD(6)[OF i] by blast+
    have "\<not> pg_is_dirty (page_at b' f)" using b'(7)[OF f'(2)] t f pid(1) by blast
    moreover have "synced b' f" using i p pid(1) by (auto simp: pool_inv_def content_inv_def)
    ultimately have "disk_page (bp_disk b') fd (pid_page_no pid) = Some (pg_data (page_at b' f))"
      using p pid(1) by (simp add: synced_def)
    also have "\<dots> = bp_content b pid"
      using pool_step_content[OF b'(3) _ f'(3) cached(1)[OF f]] cached(1)[OF f] cached(1)[OF f'(1)] by simp
    finally show "disk_page (bp_disk b') fd (pid_page_no pid) = bp_content b pid" .
  qed
qed

lemma bp_inv_init:
  assumes "dm_inv dm"
  shows "bp_inv {} (BufferPoolManager junk n dm)"
proof -
  have "page_at (BufferPoolManager junk n dm) f = Page junk" if "frame_ok (BufferPoolManager junk n dm) f" for f
    using that by (simp add: page_at_def BufferPoolManager_def frame_ok_def)
  then show ?thesis
    using assms lru_inv_init[of n]
    by (auto simp: pool_inv_defs BufferPoolManager_def Page_def zero_page_def find_frame_def frame_ok_def
        distinct_map image_iff Bex_def)
qed

section \<open>The interface its clients use\<close>

text \<open>What the record, index and recovery code rely on: a fetched page shows its logical contents
  and stays put while it is pinned, a page written through the pointer and unpinned dirty keeps
  what was written, and nothing else changes.\<close>

locale page_cache =
  fixes pc_fetch :: "PageId \<Rightarrow> ('s, 'f option) comp"
    and pc_unpin :: "PageId \<Rightarrow> bool \<Rightarrow> ('s, bool) comp"
    and pc_write :: "'f \<Rightarrow> bytes \<Rightarrow> 's \<Rightarrow> 's"
    and pc_data :: "'s \<Rightarrow> 'f \<Rightarrow> bytes"
    and pc_inv :: "PageId set \<Rightarrow> 's \<Rightarrow> bool"
    and pc_content :: "'s \<Rightarrow> PageId \<Rightarrow> bytes option"
    and pc_pins :: "'s \<Rightarrow> PageId \<Rightarrow> int"
    and pc_open :: "'s \<Rightarrow> int \<Rightarrow> bool"
    and pc_room :: "'s \<Rightarrow> bool"
    and pc_holds :: "'s \<Rightarrow> PageId \<Rightarrow> 'f \<Rightarrow> bool"
    and pc_step :: "PageId set \<Rightarrow> 's \<Rightarrow> 's \<Rightarrow> bool"
    and pc_cached :: "'s \<Rightarrow> PageId set"
  assumes fetch_law: "pc_inv W s \<Longrightarrow> pc_room s \<Longrightarrow> pc_open s (pid_fd pid) \<Longrightarrow> pc_content s pid = Some bs \<Longrightarrow>
      \<exists>f s'. pc_fetch pid s = (Inr (Some f), s') \<and> pc_inv W s' \<and> pc_holds s' pid f \<and> pc_step {} s s' \<and>
        pc_pins s' = (pc_pins s)(pid := pc_pins s pid + 1) \<and> pc_cached s' \<subseteq> insert pid (pc_cached s)"
    and unpin_law: "pc_inv W s \<Longrightarrow> 0 < pc_pins s pid \<Longrightarrow> dirty \<or> pid \<notin> W \<Longrightarrow>
      \<exists>s'. pc_unpin pid dirty s = (Inr True, s') \<and> pc_inv (W - {pid}) s' \<and> pc_step {} s s' \<and>
        pc_content s' = pc_content s \<and> pc_pins s' = (pc_pins s)(pid := pc_pins s pid - 1) \<and>
        pc_cached s' = pc_cached s"
    and write_law: "pc_inv W s \<Longrightarrow> 0 < pc_pins s pid \<Longrightarrow> pc_holds s pid f \<Longrightarrow> length bs = PAGE_SIZE \<Longrightarrow>
      pc_inv (insert pid W) (pc_write f bs s) \<and> pc_content (pc_write f bs s) = (pc_content s)(pid \<mapsto> bs) \<and>
        pc_holds (pc_write f bs s) = pc_holds s \<and> pc_pins (pc_write f bs s) = pc_pins s \<and>
        pc_step {pid} s (pc_write f bs s) \<and> pc_cached (pc_write f bs s) = pc_cached s"
    and holds_data: "pc_holds s pid f \<Longrightarrow> pc_content s pid = Some (pc_data s f)"
    and pins_nonneg: "pc_inv W s \<Longrightarrow> 0 \<le> pc_pins s pid"
    and step_mono: "pc_step X s s' \<Longrightarrow> X \<subseteq> Y \<Longrightarrow> pc_step Y s s'"
    and step_trans: "pc_step X s s' \<Longrightarrow> pc_step Y s' s'' \<Longrightarrow> pc_step (X \<union> Y) s s''"
    and step_content: "pc_step X s s' \<Longrightarrow> q \<notin> X \<Longrightarrow> pc_open s (pid_fd q) \<Longrightarrow> pc_content s q = Some c \<Longrightarrow>
      pc_content s' q = Some c"
    and step_room: "pc_step X s s' \<Longrightarrow> pc_pins s' = pc_pins s \<Longrightarrow> pc_room s' = pc_room s"
begin

text \<open>Fetching a page of known contents, and reading: fetch, look, unpin clean.\<close>

lemma fetch_data:
  assumes "pc_inv W s" "pc_room s" "pc_open s (pid_fd pid)" "pc_content s pid = Some bs"
  obtains f s1 where "pc_fetch pid s = (Inr (Some f), s1)" "pc_data s1 f = bs" "pc_inv W s1" "pc_holds s1 pid f"
    "pc_step {} s s1" "pc_pins s1 = (pc_pins s)(pid := pc_pins s pid + 1)" "pc_cached s1 \<subseteq> insert pid (pc_cached s)"
    "0 < pc_pins s1 pid" "pc_content s1 pid = Some bs"
proof -
  from fetch_law[OF assms] obtain f s1 where f: "pc_fetch pid s = (Inr (Some f), s1)" "pc_inv W s1"
    "pc_holds s1 pid f" "pc_step {} s s1" "pc_pins s1 = (pc_pins s)(pid := pc_pins s pid + 1)"
    "pc_cached s1 \<subseteq> insert pid (pc_cached s)" by blast
  moreover have c1: "pc_content s1 pid = Some bs" using step_content[OF f(4) _ assms(3,4)] by simp
  moreover have "0 < pc_pins s1 pid" using f(5) pins_nonneg[OF assms(1), of pid] by simp
  moreover have "pc_data s1 f = bs" using holds_data[OF f(3)] c1 by simp
  ultimately show thesis using that by blast
qed

lemma read_cycle:
  assumes "pc_inv W s" "pc_room s" "pc_open s (pid_fd pid)" "pc_content s pid = Some bs" "pid \<notin> W"
  obtains f s1 s2 where "pc_fetch pid s = (Inr (Some f), s1)" "pc_data s1 f = bs"
    "pc_unpin pid False s1 = (Inr True, s2)" "pc_inv W s2" "pc_step {} s s2" "pc_pins s2 = pc_pins s"
    "pc_room s2" "pc_cached s2 \<subseteq> insert pid (pc_cached s)"
proof -
  obtain f s1 where f: "pc_fetch pid s = (Inr (Some f), s1)" "pc_data s1 f = bs" "pc_inv W s1" "pc_holds s1 pid f"
    "pc_step {} s s1" "pc_pins s1 = (pc_pins s)(pid := pc_pins s pid + 1)" "pc_cached s1 \<subseteq> insert pid (pc_cached s)"
    "0 < pc_pins s1 pid" "pc_content s1 pid = Some bs" by (rule fetch_data[OF assms(1-4)])
  from unpin_law[OF f(3,8), of False] assms(5) obtain s2 where u: "pc_unpin pid False s1 = (Inr True, s2)"
    "pc_inv (W - {pid}) s2" "pc_step {} s1 s2"
    "pc_pins s2 = (pc_pins s1)(pid := pc_pins s1 pid - 1)" "pc_cached s2 = pc_cached s1" by blast
  have st: "pc_step {} s s2" using step_trans[OF f(5) u(3)] by simp
  have pins: "pc_pins s2 = pc_pins s" using u(4) f(6) by auto
  have "pc_inv W s2" using u(2) assms(5) by simp
  then show thesis
    using that[OF f(1,2) u(1) _ st pins] u(5) f(7) step_room[OF st pins] assms(2) by simp
qed

text \<open>Giving back a page that was pinned since state \<open>s\<close>, after storing new bytes in it.\<close>

lemma release_dirty:
  assumes "pc_inv W s1" "pc_holds s1 pid f" "pc_step {pid} s s1" "pc_room s" "0 < pc_pins s1 pid"
    "pc_pins s1 = (pc_pins s)(pid := pc_pins s pid + 1)" "length bs' = PAGE_SIZE"
  obtains s2 where "pc_unpin pid True (pc_write f bs' s1) = (Inr True, s2)" "pc_inv (W - {pid}) s2"
    "pc_step {pid} s s2" "pc_pins s2 = pc_pins s" "pc_content s2 pid = Some bs'" "pc_room s2"
    "pc_cached s2 = pc_cached s1"
proof -
  let ?s = "pc_write f bs' s1"
  from write_law[OF assms(1,5,2,7)] have w: "pc_inv (insert pid W) ?s" "pc_cached ?s = pc_cached s1"
    "pc_content ?s = (pc_content s1)(pid \<mapsto> bs')" "pc_pins ?s = pc_pins s1" "pc_step {pid} s1 ?s" by simp_all
  have "0 < pc_pins ?s pid" using assms(5) w(4) by simp
  from unpin_law[OF w(1) this, of True] obtain s2 where u: "pc_unpin pid True ?s = (Inr True, s2)"
    "pc_inv (insert pid W - {pid}) s2" "pc_step {} ?s s2" "pc_content s2 = pc_content ?s"
    "pc_pins s2 = (pc_pins ?s)(pid := pc_pins ?s pid - 1)" "pc_cached s2 = pc_cached ?s" by blast
  have W: "insert pid W - {pid} = W - {pid}" by blast
  have st: "pc_step {pid} s s2" using step_trans[OF step_trans[OF assms(3) w(5)] u(3)] by simp
  have pins: "pc_pins s2 = pc_pins s" using u(5) w(4) assms(6) by auto
  show thesis
    using that[OF u(1) _ st pins] u(2,4,6) w(2,3) step_room[OF st pins] assms(4) unfolding W by simp
qed

text \<open>Updating a page: fetch, write, unpin dirty.\<close>

lemma write_cycle:
  assumes "pc_inv W s" "pc_room s" "pc_open s (pid_fd pid)" "pc_content s pid = Some bs"
  obtains f s1 where "pc_fetch pid s = (Inr (Some f), s1)" "pc_data s1 f = bs" "pc_holds s1 pid f"
    "\<And>bs'. length bs' = PAGE_SIZE \<Longrightarrow>
       \<exists>s2. pc_unpin pid True (pc_write f bs' s1) = (Inr True, s2) \<and> pc_inv (W - {pid}) s2 \<and> pc_step {pid} s s2 \<and>
         pc_pins s2 = pc_pins s \<and> pc_content s2 pid = Some bs' \<and> pc_room s2 \<and>
         pc_cached s2 \<subseteq> insert pid (pc_cached s)"
proof -
  obtain f s1 where f: "pc_fetch pid s = (Inr (Some f), s1)" "pc_data s1 f = bs" "pc_inv W s1" "pc_holds s1 pid f"
    "pc_step {} s s1" "pc_pins s1 = (pc_pins s)(pid := pc_pins s pid + 1)" "pc_cached s1 \<subseteq> insert pid (pc_cached s)"
    "0 < pc_pins s1 pid" "pc_content s1 pid = Some bs" by (rule fetch_data[OF assms])
  have st: "pc_step {pid} s s1" by (rule step_mono[OF f(5)]) simp
  show thesis
  proof (rule that[OF f(1,2,4)])
    fix bs' :: bytes
    assume len: "length bs' = PAGE_SIZE"
    show "\<exists>s2. pc_unpin pid True (pc_write f bs' s1) = (Inr True, s2) \<and> pc_inv (W - {pid}) s2 \<and> pc_step {pid} s s2 \<and>
         pc_pins s2 = pc_pins s \<and> pc_content s2 pid = Some bs' \<and> pc_room s2 \<and> pc_cached s2 \<subseteq> insert pid (pc_cached s)"
      by (rule release_dirty[OF f(3,4) st assms(2) f(8,6) len]) (use f(7) in blast)
  qed
qed

end

interpretation pool: page_cache fetch_page unpin_page write_data "\<lambda>b f. pg_data (page_at b f)" bp_inv
  bp_content bp_pins bp_open bp_room "\<lambda>b pid f. find_frame b pid = Some f"
  "\<lambda>X b b'. pool_step X b b' \<and> fd2pageno (bp_disk b') = fd2pageno (bp_disk b)" bp_cached
proof (unfold_locales, goal_cases)
  case (1 W s pid bs)
  show ?case by (rule fetch_page_ok[OF 1(1) disjI1[OF 1(2)] 1(3,4)]) blast
next
  case (2 W s pid dirty)
  show ?case by (rule unpin_page_ok[OF 2]) (auto simp: pool_step_def bp_cached_def)
next
  case (3 W s pid f bs)
  show ?case using write_data_ok[OF 3] by (simp add: pool_step_def bp_cached_def)
next
  case (4 s pid f)
  then show ?case by (rule cached(1))
next
  case (5 W s pid)
  show ?case
  proof (cases "find_frame s pid")
    case None
    then show ?thesis by (simp add: bp_pins_def)
  next
    case (Some f)
    then have "frame_ok s f" using pool_invD(6)[OF 5] by blast
    from pool_invD(5)[OF 5 this] cached(2)[OF Some] show ?thesis by simp
  qed
next
  case (6 X s s' Y)
  then show ?case by (auto simp: pool_step_def)
next
  case (7 X s s' Y s'')
  then show ?case using pool_step_trans[of X s s' Y s'' "X \<union> Y"] by simp
next
  case (8 X s s' q c)
  then show ?case using pool_step_content by blast
next
  case (9 X s s')
  then show ?case by (simp add: bp_room_def pool_step_def)
qed

section \<open>Properties\<close>

text \<open>A pool of two frames over one open file of two pages of zeros, for the witnesses.\<close>

definition demo_dm :: disk_manager where
  "demo_dm = \<lparr>path2fd = [''t'' \<mapsto> 3], fd2path = [3 \<mapsto> ''t''], log_fd = -1, fd2pageno = (\<lambda>_. 2),
     dm_os = \<lparr>os_files = [''t'' \<mapsto> replicate (2 * PAGE_SIZE) 0], os_fds = [3 \<mapsto> ''t'']\<rparr>\<rparr>"

definition demo_pool :: buffer_pool where
  "demo_pool = BufferPoolManager 0 2 demo_dm"

lemma demo_pool_ok:
  "bp_inv {} demo_pool" "bp_room demo_pool" "bp_open demo_pool 3" "bp_content demo_pool (PageId 3 1) = Some zero_page"
  "bp_cached demo_pool = {}"
proof -
  have "dm_inv demo_dm" by (simp add: dm_inv_def demo_dm_def)
  then show "bp_inv {} demo_pool" unfolding demo_pool_def by (rule bp_inv_init)
  show "bp_room demo_pool"
    by (simp add: bp_room_def demo_pool_def BufferPoolManager_def bp_pins_def find_frame_def)
  show "bp_open demo_pool 3" by (simp add: bp_open_def demo_pool_def BufferPoolManager_def demo_dm_def LOG_FILE_NAME_def)
  show "bp_cached demo_pool = {}" by (simp add: bp_cached_def demo_pool_def BufferPoolManager_def find_frame_def)
  show "bp_content demo_pool (PageId 3 1) = Some zero_page"
    by (simp add: bp_content_def find_frame_def demo_pool_def BufferPoolManager_def disk_page_def demo_dm_def
        os_content_def zero_page_def mem_get_def)
qed

text \<open>Property C27: \<open>fetch_page\<close> on a consistent pool with a frame to spare returns the frame that
  holds the page, with the page's logical contents (what the pool caches, or else what the file
  holds), pins it once more, and changes the contents of no page and no other pin; the evicted
  page, if dirty, is on disk afterwards.\<close>

theorem fetch_page_returns_content:
  assumes "bp_inv W b" "bp_room b" "bp_open b (pid_fd pid)" "bp_content b pid = Some bs"
  shows "\<exists>f b'. fetch_page pid b = (Inr (Some f), b') \<and> pg_data (page_at b' f) = bs \<and> bp_inv W b' \<and>
    pool_step {} b b' \<and> bp_pins b' = (bp_pins b)(pid := bp_pins b pid + 1)"
  by (rule pool.fetch_data[OF assms]) blast

theorem fetch_page_returns_content_witness:
  "\<exists>f b'. fetch_page (PageId 3 1) demo_pool = (Inr (Some f), b') \<and> pg_data (page_at b' f) = zero_page"
  using fetch_page_returns_content[of "{}" demo_pool "PageId 3 1"] demo_pool_ok by fastforce

text \<open>Property C29: a client that fetches a page, stores a page's worth of bytes through the pointer
  and unpins it dirty leaves a consistent pool in which that page reads as stored, every other
  page reads as before and every pin count is what it was.\<close>

theorem page_update_cycle:
  assumes "bp_inv {} b" "bp_room b" "bp_open b (pid_fd pid)" "bp_content b pid = Some bs" "length bs' = PAGE_SIZE"
  shows "\<exists>f b1 b2. fetch_page pid b = (Inr (Some f), b1) \<and>
    unpin_page pid True (write_data f bs' b1) = (Inr True, b2) \<and> bp_inv {} b2 \<and>
    bp_content b2 pid = Some bs' \<and> bp_pins b2 = bp_pins b \<and> pool_step {pid} b b2"
proof -
  obtain f b1 where f: "fetch_page pid b = (Inr (Some f), b1)" and
    w: "\<exists>b2. unpin_page pid True (write_data f bs' b1) = (Inr True, b2) \<and> bp_inv ({} - {pid}) b2 \<and>
      (pool_step {pid} b b2 \<and> fd2pageno (bp_disk b2) = fd2pageno (bp_disk b)) \<and> bp_pins b2 = bp_pins b \<and>
      bp_content b2 pid = Some bs' \<and> bp_room b2 \<and> bp_cached b2 \<subseteq> insert pid (bp_cached b)"
    by (rule pool.write_cycle[OF assms(1-4)]) (use assms(5) in blast)
  from f w show ?thesis by auto
qed

theorem page_update_cycle_witness:
  "\<exists>f b1 b2. fetch_page (PageId 3 1) demo_pool = (Inr (Some f), b1) \<and>
    unpin_page (PageId 3 1) True (write_data f (replicate PAGE_SIZE 7) b1) = (Inr True, b2) \<and>
    bp_content b2 (PageId 3 1) = Some (replicate PAGE_SIZE 7)"
  using page_update_cycle[of demo_pool "PageId 3 1" zero_page "replicate PAGE_SIZE 7"] demo_pool_ok by fastforce

text \<open>Property C29: \<open>new_page\<close> returns the file's next page number, with a zeroed frame pinned once,
  and advances the counter; no other page changes.\<close>

theorem new_page_zeroed:
  assumes "bp_inv W b" "bp_room b" "bp_open b fd" "0 \<le> fd" "fd < MAX_FD" "n = fd2pageno (bp_disk b) fd" "0 \<le> n"
    "PageId fd n \<notin> bp_cached b"
  shows "\<exists>f b'. new_page fd b = (Inr (Some (PageId fd n, f)), b') \<and> bp_inv (insert (PageId fd n) W) b' \<and>
    pg_data (page_at b' f) = zero_page \<and> pool_step {PageId fd n} b b' \<and>
    bp_pins b' = (bp_pins b)(PageId fd n := 1) \<and> fd2pageno (bp_disk b') fd = n + 1"
proof -
  have pn: "0 \<le> fd2pageno (bp_disk b) fd" and fr: "find_frame b (PageId fd (fd2pageno (bp_disk b) fd)) = None"
    using assms(6-8) by (auto simp: bp_cached_def)
  show ?thesis
    by (rule new_page_ok[OF assms(1-5) pn fr]) (auto simp: assms(6) dest: cached(1))
qed

theorem new_page_zeroed_witness:
  "\<exists>f b'. new_page 3 demo_pool = (Inr (Some (PageId 3 2, f)), b') \<and> pg_data (page_at b' f) = zero_page"
proof -
  have n: "2 = fd2pageno (bp_disk demo_pool) 3" by (simp add: demo_pool_def BufferPoolManager_def demo_dm_def)
  have c: "PageId 3 2 \<notin> bp_cached demo_pool" using demo_pool_ok(5) by simp
  have "(0 :: int) \<le> 3" "(3 :: int) < MAX_FD" "(0 :: int) \<le> 2" by simp_all
  from new_page_zeroed[OF demo_pool_ok(1-3) this(1,2) n this(3) c] show ?thesis by blast
qed

text \<open>\<open>flush_all_pages\<close> makes the file hold the logical contents of every cached page
  of it, keeps the pool consistent and changes no page's contents and no pin.\<close>

theorem flush_all_pages_persists:
  assumes "bp_inv W b"
  shows "\<exists>b'. flush_all_pages fd b = (Inr (), b') \<and> bp_inv (W - {pid. pid_fd pid = fd}) b' \<and> pool_step {} b b' \<and>
    bp_pins b' = bp_pins b \<and>
    (\<forall>pid \<in> bp_cached b. pid_fd pid = fd \<longrightarrow> disk_page (bp_disk b') fd (pid_page_no pid) = bp_content b pid)"
  by (rule flush_all_pages_ok[OF assms]) (auto simp: bp_cached_def dom_def)

theorem flush_all_pages_persists_witness:
  "\<exists>b' b''. fetch_page (PageId 3 1) demo_pool = (Inr (Some 0), b') \<and> PageId 3 1 \<in> bp_cached b' \<and>
     flush_all_pages 3 b' = (Inr (), b'') \<and> disk_page (bp_disk b'') 3 1 = bp_content b' (PageId 3 1)"
proof -
  have ff: "find_frame demo_pool (PageId 3 1) = None" using demo_pool_ok(5) by (auto simp: bp_cached_def)
  obtain f b' where f: "fetch_page (PageId 3 1) demo_pool = (Inr (Some f), b')" "bp_inv {} b'"
    "find_frame b' (PageId 3 1) = Some f"
    by (rule fetch_page_miss[OF demo_pool_ok(1) ff demo_pool_ok(2) _ demo_pool_ok(4)]) (use demo_pool_ok(3) in auto)
  have "find_victim_page demo_pool = (Inr (Some 0), demo_pool\<lparr>free_list := [1]\<rparr>)"
    by (simp add: find_victim_page_def demo_pool_def BufferPoolManager_def upt_conv_Cons)
  then have "f = 0" using f(1) ff by (simp add: fetch_page_def bindE_Inr thenE_eq_Inr) blast
  moreover have "PageId 3 1 \<in> bp_cached b'" using f(3) by (auto simp: bp_cached_def)
  ultimately show ?thesis using flush_all_pages_persists[OF f(2), of 3] f by force
qed

text \<open>Property C30: \<open>delete_all_pages\<close> refuses, changing nothing, exactly when a page of the file is
  pinned; otherwise no page of the file stays cached and every page still reads as before.\<close>

theorem delete_all_pages_spec:
  assumes "bp_inv W b"
  shows "\<exists>b'. delete_all_pages fd b = (Inr (\<forall>pid. pid_fd pid = fd \<longrightarrow> bp_pins b pid = 0), b') \<and>
    bp_inv W b' \<and> pool_step {} b b' \<and> bp_pins b' = bp_pins b \<and>
    bp_cached b' = (if \<forall>pid. pid_fd pid = fd \<longrightarrow> bp_pins b pid = 0 then {pid \<in> bp_cached b. pid_fd pid \<noteq> fd} else bp_cached b)"
proof (cases "\<forall>pid. pid_fd pid = fd \<longrightarrow> bp_pins b pid = 0")
  case True
  with delete_all_pages_ok(2)[OF assms, of fd] obtain b' where
    b': "delete_all_pages fd b = (Inr True, b')" "bp_inv W b'" "pool_step {} b b'" "bp_pins b' = bp_pins b"
    "\<And>q. find_frame b' q = (if pid_fd q = fd then None else find_frame b q)" by blast
  then have "bp_cached b' = {pid \<in> bp_cached b. pid_fd pid \<noteq> fd}" by (auto simp: bp_cached_def split: if_splits)
  with b' True show ?thesis by auto
next
  case False
  then have "delete_all_pages fd b = (Inr False, b)" using delete_all_pages_ok(1)[OF assms, of fd] by blast
  with False assms show ?thesis by auto
qed

theorem delete_all_pages_spec_witness: "\<exists>b'. delete_all_pages 3 demo_pool = (Inr True, b') \<and> bp_inv {} b'"
proof -
  have "\<forall>pid. pid_fd pid = 3 \<longrightarrow> bp_pins demo_pool pid = 0"
    by (simp add: bp_pins_def demo_pool_def BufferPoolManager_def find_frame_def)
  with delete_all_pages_spec[OF demo_pool_ok(1), of 3] show ?thesis by auto
qed

end
