(* ===== verification/RecordFile.thy ===== *)
theory RecordFile
  imports RecordPage BufferPool
begin

text \<open>
  Record files (\<open>record/rm_file_handle.cpp\<close>, \<open>record/rm_file_handle.h\<close>,
  \<open>record/rm_scan.cpp\<close>, \<open>record/rm_manager.h\<close>) over the buffer pool. A page handle is the
  frame of its page; reads and writes through its pointers go to the frame's bytes. A record
  file is shown to implement a finite map from record identifiers to byte strings.
\<close>

section \<open>File handles\<close>

record rm_state =
  rm_fd :: int
  rm_hdr :: RmFileHdr
  rm_pool :: buffer_pool

definition on_pool :: "(buffer_pool, 'a) comp \<Rightarrow> (rm_state, 'a) comp" where
  "on_pool m st = (case m (rm_pool st) of (r, b) \<Rightarrow> (r, st\<lparr>rm_pool := b\<rparr>))"

definition page_data :: "frame_id_t \<Rightarrow> (rm_state, bytes) comp" where
  "page_data f = getE (\<lambda>st. pg_data (page_at (rm_pool st) f))"

definition edit_page :: "frame_id_t \<Rightarrow> (bytes \<Rightarrow> bytes) \<Rightarrow> (rm_state, unit) comp" where
  "edit_page f g = modifyE (\<lambda>st.
     st\<lparr>rm_pool := write_data f (g (pg_data (page_at (rm_pool st) f))) (rm_pool st)\<rparr>)"

definition handle_page_no :: "frame_id_t \<Rightarrow> (rm_state, int) comp" where
  "handle_page_no f = getE (\<lambda>st. pid_page_no (pg_id (page_at (rm_pool st) f)))"

definition edit_hdr :: "(RmFileHdr \<Rightarrow> RmFileHdr) \<Rightarrow> (rm_state, unit) comp" where
  "edit_hdr g = modifyE (\<lambda>st. st\<lparr>rm_hdr := g (rm_hdr st)\<rparr>)"

definition unpin_handle :: "int \<Rightarrow> bool \<Rightarrow> (rm_state, bool) comp" where
  "unpin_handle page_no dirty st = on_pool (unpin_page (PageId (rm_fd st) page_no) dirty) st"

definition fetch_page_handle :: "int \<Rightarrow> (rm_state, frame_id_t) comp" where
  "fetch_page_handle page_no st =
     (if page_no < RM_FIRST_RECORD_PAGE \<or> num_pages (rm_hdr st) \<le> page_no
      then case get_file_name (bp_disk (rm_pool st)) (rm_fd st) of
             Inl e \<Rightarrow> (Inl e, st)
           | Inr path \<Rightarrow> (Inl (PageNotExistError path page_no), st)
      else bindE (on_pool (fetch_page (PageId (rm_fd st) page_no))) (\<lambda>fo. case fo of
             None \<Rightarrow> throwE (InternalError ''RmFileHandle::fetch_page_handle Error'')
           | Some f \<Rightarrow> returnE f) st)"

definition create_new_page_handle :: "(rm_state, frame_id_t) comp" where
  "create_new_page_handle =
     bindE (\<lambda>st. on_pool (new_page (rm_fd st)) st) (\<lambda>fo. case fo of
       None \<Rightarrow> throwE (InternalError ''RmFileHandle::create_new_page_handle Error'')
     | Some (page_id, f) \<Rightarrow>
         thenE (edit_hdr (\<lambda>h. h\<lparr>num_pages := pid_page_no page_id + 1\<rparr>))
           (bindE (getE rm_hdr) (\<lambda>h.
             thenE (edit_page f (\<lambda>d.
                 edit_bitmap (\<lambda>b. bm_init b (nat (bitmap_size h)))
                   (set_num_records 0 (set_next_free_page_no RM_NO_PAGE d))))
               (thenE (edit_hdr (\<lambda>h. h\<lparr>first_free_page_no := pid_page_no page_id\<rparr>))
                 (returnE f)))))"

definition create_page_handle :: "(rm_state, frame_id_t) comp" where
  "create_page_handle =
     bindE (getE rm_hdr) (\<lambda>h.
       if first_free_page_no h = RM_NO_PAGE then create_new_page_handle
       else fetch_page_handle (first_free_page_no h))"

definition release_page_handle :: "frame_id_t \<Rightarrow> (rm_state, unit) comp" where
  "release_page_handle f =
     bindE (getE rm_hdr) (\<lambda>h.
       thenE (edit_page f (set_next_free_page_no (first_free_page_no h)))
         (bindE (handle_page_no f) (\<lambda>p. edit_hdr (\<lambda>h. h\<lparr>first_free_page_no := p\<rparr>))))"

section \<open>Record operations\<close>

definition is_record :: "Rid \<Rightarrow> (rm_state, bool) comp" where
  "is_record rid =
     bindE (fetch_page_handle (rid_page_no rid)) (\<lambda>f.
       bindE (page_data f) (\<lambda>d.
         thenE (unpin_handle (rid_page_no rid) False)
           (returnE (is_set (page_bitmap d) (rid_slot_no rid)))))"

definition get_record :: "Rid \<Rightarrow> (rm_state, bytes) comp" where
  "get_record rid =
     bindE (fetch_page_handle (rid_page_no rid)) (\<lambda>f.
       bindE (page_data f) (\<lambda>d.
         if \<not> is_set (page_bitmap d) (rid_slot_no rid)
         then thenE (unpin_handle (rid_page_no rid) False)
                (throwE (RecordNotFoundError (rid_page_no rid) (rid_slot_no rid)))
         else
           bindE (getE rm_hdr) (\<lambda>h.
             thenE (unpin_handle (rid_page_no rid) False)
               (returnE (get_slot h (rid_slot_no rid) d)))))"

definition insert_record :: "bytes \<Rightarrow> (rm_state, Rid) comp" where
  "insert_record buf =
     bindE create_page_handle (\<lambda>f.
       bindE (page_data f) (\<lambda>d.
         bindE (getE rm_hdr) (\<lambda>h.
           bindE (handle_page_no f) (\<lambda>page_no.
             let slot_no = first_bit False (page_bitmap d) (num_records_per_page h) in
             if slot_no = num_records_per_page h
             then thenE (unpin_handle page_no False)
                    (throwE (InternalError ''RmFileHandle::insert_record Error''))
             else
               thenE (edit_page f (ins_page h slot_no buf))
                 (bindE (page_data f) (\<lambda>d1.
                   thenE
                     (if num_records d1 = num_records_per_page h
                      then thenE (edit_hdr (\<lambda>h. h\<lparr>first_free_page_no := next_free_page_no d1\<rparr>))
                             (edit_page f (set_next_free_page_no RM_NO_PAGE))
                      else returnE ())
                     (thenE (unpin_handle page_no True) (returnE (Rid page_no slot_no)))))))))"

text \<open>The search of the free list in the insertion at a given place. It follows the list for at
  most \<open>fuel\<close> pages; the result tells whether it ended.\<close>

fun unlink_free :: "nat \<Rightarrow> frame_id_t \<Rightarrow> int \<Rightarrow> int \<Rightarrow> (rm_state, bool) comp" where
  "unlink_free 0 page_handle page_no prev = returnE (prev = RM_NO_PAGE)"
| "unlink_free (Suc fuel) page_handle page_no prev =
     (if prev = RM_NO_PAGE then returnE True
      else
        bindE (fetch_page_handle prev) (\<lambda>pf.
          bindE (page_data pf) (\<lambda>pd.
            if next_free_page_no pd = page_no
            then
              bindE (page_data page_handle) (\<lambda>d.
                thenE (edit_page pf (set_next_free_page_no (next_free_page_no d)))
                  (thenE (unpin_handle prev True)
                    (thenE (edit_page page_handle (set_next_free_page_no RM_NO_PAGE))
                      (returnE True))))
            else
              thenE (unpin_handle prev False)
                (unlink_free fuel page_handle page_no (next_free_page_no pd)))))"

definition insert_record_at :: "nat \<Rightarrow> Rid \<Rightarrow> bytes \<Rightarrow> (rm_state, bool) comp" where
  "insert_record_at fuel rid buf =
     bindE (fetch_page_handle (rid_page_no rid)) (\<lambda>f.
       bindE (getE rm_hdr) (\<lambda>h.
         thenE (edit_page f (ins_at_page h (rid_slot_no rid) buf))
           (bindE (page_data f) (\<lambda>d.
             bindE
               (if num_records d = num_records_per_page h
                then
                  if first_free_page_no h = rid_page_no rid
                  then thenE (edit_hdr (\<lambda>h. h\<lparr>first_free_page_no := next_free_page_no d\<rparr>))
                         (thenE (edit_page f (set_next_free_page_no RM_NO_PAGE)) (returnE True))
                  else unlink_free fuel f (rid_page_no rid) (first_free_page_no h)
                else returnE True)
               (\<lambda>ended.
                 thenE (unpin_handle (rid_page_no rid) True) (returnE ended))))))"

definition delete_record :: "Rid \<Rightarrow> (rm_state, unit) comp" where
  "delete_record rid =
     bindE (fetch_page_handle (rid_page_no rid)) (\<lambda>f.
       bindE (page_data f) (\<lambda>d.
         if \<not> is_set (page_bitmap d) (rid_slot_no rid)
         then thenE (unpin_handle (rid_page_no rid) False)
                (throwE (RecordNotFoundError (rid_page_no rid) (rid_slot_no rid)))
         else
           bindE (getE rm_hdr) (\<lambda>h.
             thenE (edit_page f (del_page h (rid_slot_no rid)))
               (thenE (if num_records d = num_records_per_page h then release_page_handle f else returnE ())
                 (thenE (unpin_handle (rid_page_no rid) True) (returnE ()))))))"

definition update_record :: "Rid \<Rightarrow> bytes \<Rightarrow> (rm_state, unit) comp" where
  "update_record rid buf =
     bindE (fetch_page_handle (rid_page_no rid)) (\<lambda>f.
       bindE (page_data f) (\<lambda>d.
         if \<not> is_set (page_bitmap d) (rid_slot_no rid)
         then thenE (unpin_handle (rid_page_no rid) False)
                (throwE (RecordNotFoundError (rid_page_no rid) (rid_slot_no rid)))
         else
           bindE (getE rm_hdr) (\<lambda>h.
             thenE (edit_page f (put_slot h (rid_slot_no rid) buf))
               (thenE (unpin_handle (rid_page_no rid) True) (returnE ())))))"

section \<open>Scans\<close>

definition scan_is_end :: "RmFileHdr \<Rightarrow> Rid \<Rightarrow> bool" where
  "scan_is_end h rid \<longleftrightarrow> num_pages h \<le> rid_page_no rid"

function scan_loop :: "RmFileHdr \<Rightarrow> int \<Rightarrow> int \<Rightarrow> (rm_state, Rid) comp" where
  "scan_loop h page_no slot_no =
     (if page_no < num_pages h
      then
        bindE (fetch_page_handle page_no) (\<lambda>f.
          bindE (page_data f) (\<lambda>d.
            thenE (unpin_handle page_no False)
              (let next_slot = next_bit True (page_bitmap d) (num_records_per_page h) slot_no in
               if next_slot < num_records_per_page h then returnE (Rid page_no next_slot)
               else scan_loop h (page_no + 1) (-1))))
      else returnE (Rid (num_pages h) (-1)))"
  by pat_completeness auto
termination
  by (relation "measure (\<lambda>(h, page_no, slot_no). nat (num_pages h - page_no))") auto

declare scan_loop.simps [simp del]

definition scan_next :: "Rid \<Rightarrow> (rm_state, Rid) comp" where
  "scan_next rid =
     bindE (getE rm_hdr) (\<lambda>h.
       if scan_is_end h rid then returnE rid
       else scan_loop h (rid_page_no rid) (rid_slot_no rid))"

definition RmScan :: "(rm_state, Rid) comp" where
  "RmScan =
     bindE (getE rm_hdr) (\<lambda>h.
       if num_pages h \<le> RM_FIRST_RECORD_PAGE then returnE (Rid (num_pages h) (-1))
       else scan_next (Rid RM_FIRST_RECORD_PAGE (-1)))"

section \<open>The record manager\<close>

text \<open>\<open>ofd1\<close> and \<open>ofd2\<close> are what \<open>open(2)\<close> returns in \<open>create_file\<close> and \<open>open_file\<close> of the
  disk manager.\<close>

definition rm_create_file :: "int \<Rightarrow> int \<Rightarrow> string \<Rightarrow> int \<Rightarrow> (disk_manager, unit) comp" where
  "rm_create_file ofd1 ofd2 filename rs =
     (if rs < 1 \<or> RM_MAX_RECORD_SIZE < rs then throwE (InvalidRecordSizeError rs)
      else
        thenE (dm_create_file ofd1 filename)
          (bindE (dm_open_file ofd2 filename) (\<lambda>fd.
            thenE (write_page fd RM_FILE_HDR_PAGE (hdr_to_bytes (init_file_hdr rs)) 20)
              (dm_close_file fd))))"

definition rm_destroy_file :: "string \<Rightarrow> (disk_manager, unit) comp" where
  "rm_destroy_file filename = dm_destroy_file filename"

text \<open>The constructor of \<open>RmFileHandle\<close> reads the header and sets the page counter; \<open>junk\<close> is
  the uninitialised header object.\<close>

definition RmFileHandle :: "bytes \<Rightarrow> int \<Rightarrow> (buffer_pool, RmFileHdr) comp" where
  "RmFileHandle junk fd b =
     (case read_page (bp_disk b) fd RM_FILE_HDR_PAGE junk 20 of
        (Inl e, _) \<Rightarrow> (Inl e, b)
      | (Inr _, bs) \<Rightarrow>
          let h = hdr_of_bytes bs
          in (Inr h, b\<lparr>bp_disk := set_fd2pageno fd (num_pages h) (bp_disk b)\<rparr>))"

definition rm_open_file :: "bytes \<Rightarrow> int \<Rightarrow> string \<Rightarrow> (buffer_pool, int \<times> RmFileHdr) comp" where
  "rm_open_file junk ofd filename =
     bindE (on_disk (dm_open_file ofd filename)) (\<lambda>fd.
       bindE (RmFileHandle junk fd) (\<lambda>h. returnE (fd, h)))"

definition rm_close_file :: "(rm_state, unit) comp" where
  "rm_close_file =
     bindE (getE rm_fd) (\<lambda>fd.
       bindE (getE rm_hdr) (\<lambda>h.
         thenE (on_pool (on_disk (write_page fd RM_FILE_HDR_PAGE (hdr_to_bytes h) 20)))
           (thenE (on_pool (flush_all_pages fd))
             (bindE (on_pool (delete_all_pages fd)) (\<lambda>ok.
               if \<not> ok then throwE (InternalError ''RmManager::close_file Error'')
               else on_pool (on_disk (dm_close_file fd)))))))"

section \<open>The file as headers and pages\<close>

text \<open>The pages of the file as a function from page numbers; only the pages the header counts
  matter. The pages with a free slot form a linked list that starts in the header.\<close>

definition page_in :: "RmFileHdr \<Rightarrow> int \<Rightarrow> bool" where
  "page_in h p \<longleftrightarrow> RM_FIRST_RECORD_PAGE \<le> p \<and> p < num_pages h"

fun free_chain :: "(int \<Rightarrow> bytes) \<Rightarrow> int \<Rightarrow> int list \<Rightarrow> bool" where
  "free_chain pg start [] \<longleftrightarrow> start = RM_NO_PAGE"
| "free_chain pg start (p # ps) \<longleftrightarrow> start = p \<and> free_chain pg (next_free_page_no (pg p)) ps"

definition free_pages :: "RmFileHdr \<Rightarrow> (int \<Rightarrow> bytes) \<Rightarrow> int set" where
  "free_pages h pg = {p. page_in h p \<and> num_records (pg p) < num_records_per_page h}"

text \<open>The linked list holds only pages with room, and all of them but those in \<open>L\<close>. With
  \<open>L = {}\<close> it is complete; pages can get lost from the list in recovery, which is shown for
  \<open>L = UNIV\<close>.\<close>

definition file_wf :: "int set \<Rightarrow> RmFileHdr \<Rightarrow> (int \<Rightarrow> bytes) \<Rightarrow> bool" where
  "file_wf L h pg \<longleftrightarrow> layout_ok h \<and> 1 \<le> num_pages h \<and> int32 (num_pages h) \<and>
     (\<forall>p. page_in h p \<longrightarrow> page_wf h (pg p)) \<and>
     (\<exists>ps. distinct ps \<and> free_chain pg (first_free_page_no h) ps \<and>
        set ps \<subseteq> free_pages h pg \<and> free_pages h pg \<subseteq> set ps \<union> L)"

definition file_rec :: "RmFileHdr \<Rightarrow> (int \<Rightarrow> bytes) \<Rightarrow> Rid \<rightharpoonup> bytes" where
  "file_rec h pg rid =
     (if page_in h (rid_page_no rid) then page_rec h (pg (rid_page_no rid)) (rid_slot_no rid) else None)"

lemma page_rec_upd [simp]:
  "page_rec (h\<lparr>first_free_page_no := x\<rparr>) = page_rec h" "page_rec (h\<lparr>num_pages := y\<rparr>) = page_rec h"
  by (auto simp: page_rec_def slot_ok_def get_slot_def slot_offset_def fun_eq_iff)

lemma hdr_upd_simps [simp]:
  "layout_ok (h\<lparr>first_free_page_no := x\<rparr>) = layout_ok h" "layout_ok (h\<lparr>num_pages := y\<rparr>) = layout_ok h"
  "page_wf (h\<lparr>first_free_page_no := x\<rparr>) = page_wf h" "page_wf (h\<lparr>num_pages := y\<rparr>) = page_wf h"
  "page_in (h\<lparr>first_free_page_no := x\<rparr>) = page_in h"
  "free_pages (h\<lparr>first_free_page_no := x\<rparr>) = free_pages h"
  by (auto simp: layout_ok_def page_wf_def page_in_def free_pages_def fun_eq_iff)

lemma file_rec_hdr [simp]: "file_rec (h\<lparr>first_free_page_no := x\<rparr>) = file_rec h"
  by (simp add: file_rec_def fun_eq_iff)

lemma free_chain_cong:
  "(\<And>p. p \<in> set ps \<Longrightarrow> next_free_page_no (pg p) = next_free_page_no (pg' p)) \<Longrightarrow>
   free_chain pg start ps = free_chain pg' start ps"
  by (induction ps arbitrary: start) auto

lemma free_chain_upd: "p \<notin> set ps \<Longrightarrow> free_chain (pg(p := d)) start ps = free_chain pg start ps"
  by (rule free_chain_cong) auto

lemma free_chain_Cons: "free_chain pg start ps \<Longrightarrow> start \<noteq> RM_NO_PAGE \<Longrightarrow>
    \<exists>qs. ps = start # qs \<and> free_chain pg (next_free_page_no (pg start)) qs"
  by (cases ps) auto

lemma file_wfD:
  assumes "file_wf L h pg"
  shows "layout_ok h" "1 \<le> num_pages h" "page_in h p \<Longrightarrow> page_wf h (pg p)" "int32 (num_pages h)"
  using assms by (auto simp: file_wf_def)

lemma page_in_int32: "file_wf L h pg \<Longrightarrow> page_in h p \<Longrightarrow> int32 p"
  by (auto simp: file_wf_def page_in_def int32_def)

lemma file_rec_upd:
  assumes "page_rec h d = (page_rec h (pg p))(s := v)" "page_in h p"
  shows "file_rec h (pg(p := d)) = (file_rec h pg)(Rid p s := v)"
  using assms by (auto simp: file_rec_def fun_eq_iff)

lemma file_wf_chain:
  assumes "file_wf L h pg"
  obtains ps where "distinct ps" "free_chain pg (first_free_page_no h) ps" "set ps \<subseteq> free_pages h pg"
    "free_pages h pg \<subseteq> set ps \<union> L"
  using assms by (auto simp: file_wf_def)

lemma file_wfI:
  assumes "layout_ok h" "1 \<le> num_pages h" "int32 (num_pages h)" "\<And>p. page_in h p \<Longrightarrow> page_wf h (pg p)"
    "distinct ps" "free_chain pg (first_free_page_no h) ps" "set ps \<subseteq> free_pages h pg"
    "free_pages h pg \<subseteq> set ps \<union> L"
  shows "file_wf L h pg"
  using assms by (auto simp: file_wf_def)

text \<open>Replacing a page by one with the same free status and link keeps the file well-formed.\<close>

lemma file_wf_same:
  assumes wf: "file_wf L h pg" and p: "page_in h p" and d: "page_wf h d"
    "next_free_page_no d = next_free_page_no (pg p)"
    "num_records d < num_records_per_page h \<longleftrightarrow> num_records (pg p) < num_records_per_page h"
  shows "file_wf L h (pg(p := d))"
proof -
  obtain ps where ps: "distinct ps" "free_chain pg (first_free_page_no h) ps" "set ps \<subseteq> free_pages h pg"
    "free_pages h pg \<subseteq> set ps \<union> L" by (rule file_wf_chain[OF wf])
  have "free_chain (pg(p := d)) (first_free_page_no h) ps"
    using ps(2) d(2) free_chain_cong[of ps pg "pg(p := d)" "first_free_page_no h"] by auto
  moreover have "free_pages h (pg(p := d)) = free_pages h pg" using d(3) by (auto simp: free_pages_def)
  ultimately show ?thesis using ps d(1) file_wfD[OF wf] by (intro file_wfI[of _ _ ps]) auto
qed

text \<open>A page in the list becomes full and is taken out of it: the head, or a page that follows
  another one.\<close>

lemma file_wf_fill:
  assumes wf: "file_wf L h pg" and p: "first_free_page_no h = p" "p \<noteq> RM_NO_PAGE" and d: "page_wf h d"
    "\<not> num_records d < num_records_per_page h"
  shows "page_in h p" "file_wf L (h\<lparr>first_free_page_no := next_free_page_no (pg p)\<rparr>) (pg(p := d))"
proof -
  obtain ps0 where ps0: "distinct ps0" "free_chain pg (first_free_page_no h) ps0" "set ps0 \<subseteq> free_pages h pg"
    "free_pages h pg \<subseteq> set ps0 \<union> L" by (rule file_wf_chain[OF wf])
  with p free_chain_Cons[OF ps0(2)] obtain ps where ps: "ps0 = p # ps" "free_chain pg (next_free_page_no (pg p)) ps" by auto
  with ps0 show "page_in h p" by (auto simp: free_pages_def)
  have "free_chain (pg(p := d)) (next_free_page_no (pg p)) ps"
    using ps ps0(1) by (simp add: free_chain_upd)
  moreover have "set ps \<subseteq> free_pages h (pg(p := d))" "free_pages h (pg(p := d)) \<subseteq> set ps \<union> L"
    using ps ps0 d(2) by (auto simp: free_pages_def)
  ultimately show "file_wf L (h\<lparr>first_free_page_no := next_free_page_no (pg p)\<rparr>) (pg(p := d))"
    using file_wfD[OF wf] ps ps0(1) d(1) by (intro file_wfI[of _ _ ps]) auto
qed

text \<open>A full page gets a free slot and is put in front of the list.\<close>

lemma file_wf_release:
  assumes wf: "file_wf L h pg" and p: "page_in h p" "\<not> num_records (pg p) < num_records_per_page h"
    and d: "page_wf h d" "num_records d < num_records_per_page h" "next_free_page_no d = first_free_page_no h"
  shows "file_wf L (h\<lparr>first_free_page_no := p\<rparr>) (pg(p := d))"
proof -
  obtain ps where ps: "distinct ps" "free_chain pg (first_free_page_no h) ps" "set ps \<subseteq> free_pages h pg"
    "free_pages h pg \<subseteq> set ps \<union> L" by (rule file_wf_chain[OF wf])
  have np: "p \<notin> set ps" using ps(3) p by (auto simp: free_pages_def)
  have "free_chain (pg(p := d)) p (p # ps)"
    using ps(2) d(3) np by (simp add: free_chain_upd)
  moreover have "set (p # ps) \<subseteq> free_pages h (pg(p := d))" "free_pages h (pg(p := d)) \<subseteq> set (p # ps) \<union> L"
    using ps(3,4) d(2) p by (auto simp: free_pages_def)
  moreover have "distinct (p # ps)" using ps(1) np by simp
  ultimately show ?thesis using file_wfD[OF wf] d(1) by (intro file_wfI[of _ _ "p # ps"]) auto
qed

text \<open>The first free page exists and is not full.\<close>

lemma first_free_ok:
  assumes wf: "file_wf L h pg" and p: "first_free_page_no h \<noteq> RM_NO_PAGE"
  shows "first_free_page_no h \<in> free_pages h pg"
proof -
  obtain ps where ps: "distinct ps" "free_chain pg (first_free_page_no h) ps" "set ps \<subseteq> free_pages h pg"
    "free_pages h pg \<subseteq> set ps \<union> L" by (rule file_wf_chain[OF wf])
  with p show ?thesis by (cases ps) auto
qed

lemma no_free_pages:
  assumes wf: "file_wf L h pg" and ff: "first_free_page_no h = RM_NO_PAGE"
  shows "free_pages h pg \<subseteq> L"
proof -
  obtain ps where ps: "distinct ps" "free_chain pg (first_free_page_no h) ps" "set ps \<subseteq> free_pages h pg"
    "free_pages h pg \<subseteq> set ps \<union> L" by (rule file_wf_chain[OF wf])
  show ?thesis
  proof (cases ps)
    case (Cons q qs)
    with ps(2,3) ff have "RM_NO_PAGE \<in> free_pages h pg" by auto
    then show ?thesis by (simp add: free_pages_def page_in_def)
  qed (use ps in simp)
qed

section \<open>The file in the pool\<close>

text \<open>The handle and the pool represent the header \<open>h\<close> and the pages \<open>pg\<close>; no other page of the
  file is cached, so that a new page number is fresh, and there is a frame to work with.\<close>

definition rm_rel :: "rm_state \<Rightarrow> RmFileHdr \<Rightarrow> (int \<Rightarrow> bytes) \<Rightarrow> bool" where
  "rm_rel st h pg \<longleftrightarrow> rm_hdr st = h \<and> bp_inv {} (rm_pool st) \<and> bp_room (rm_pool st) \<and>
     bp_open (rm_pool st) (rm_fd st) \<and> 0 \<le> rm_fd st \<and> rm_fd st < MAX_FD \<and>
     fd2pageno (bp_disk (rm_pool st)) (rm_fd st) = num_pages h \<and>
     (\<forall>p. PageId (rm_fd st) p \<in> bp_cached (rm_pool st) \<longrightarrow> p < num_pages h) \<and>
     (\<forall>p. page_in h p \<longrightarrow> bp_content (rm_pool st) (PageId (rm_fd st) p) = Some (pg p))"

text \<open>Only pages of one file change or come into the pool.\<close>

definition file_step :: "int \<Rightarrow> buffer_pool \<Rightarrow> buffer_pool \<Rightarrow> bool" where
  "file_step fd b b' \<longleftrightarrow> pool_step {pid. pid_fd pid = fd} b b' \<and>
     bp_cached b' \<subseteq> bp_cached b \<union> {pid. pid_fd pid = fd} \<and>
     (\<forall>fd'. fd' \<noteq> fd \<longrightarrow> fd2pageno (bp_disk b') fd' = fd2pageno (bp_disk b) fd')"

lemma file_step_refl [simp]: "file_step fd b b"
  by (auto simp: file_step_def)

lemma file_step_trans: "file_step fd b b' \<Longrightarrow> file_step fd b' b'' \<Longrightarrow> file_step fd b b''"
  using pool_step_trans[of "{pid. pid_fd pid = fd}" b b' "{pid. pid_fd pid = fd}" b'']
  by (auto simp: file_step_def)

lemma file_step_page:
  assumes "pool_step {} b b'" "fd2pageno (bp_disk b') = fd2pageno (bp_disk b)" "bp_cached b' \<subseteq> insert (PageId fd p) (bp_cached b)"
  shows "file_step fd b b'"
  using assms pool_step_mono[OF assms(1)] by (auto simp: file_step_def)

lemma file_step_write:
  assumes "file_step fd b b1" "bp_content b' = (bp_content b1)(PageId fd p \<mapsto> d)" "bp_disk b' = bp_disk b1"
    "pool_size b' = pool_size b1" "find_frame b' = find_frame b1"
  shows "file_step fd b b'"
  using assms by (auto simp: file_step_def pool_step_def bp_cached_def)

text \<open>A header keeps its layout, and a file never shrinks.\<close>

definition hdr_grow :: "RmFileHdr \<Rightarrow> RmFileHdr \<Rightarrow> bool" where
  "hdr_grow h h' \<longleftrightarrow> record_size h' = record_size h \<and> num_records_per_page h' = num_records_per_page h \<and>
     bitmap_size h' = bitmap_size h \<and> num_pages h \<le> num_pages h'"

lemma hdr_grow_refl [simp]: "hdr_grow h h" "hdr_grow h (h\<lparr>first_free_page_no := x\<rparr>)"
  "hdr_grow h (h\<lparr>num_pages := num_pages h + 1, first_free_page_no := x\<rparr>)"
  by (simp_all add: hdr_grow_def)

lemma hdr_grow_trans: "hdr_grow h h' \<Longrightarrow> hdr_grow h' h'' \<Longrightarrow> hdr_grow h h''"
  by (simp add: hdr_grow_def)

text \<open>Nothing outside the file changes, and every pin is given back.\<close>

definition rm_frame :: "rm_state \<Rightarrow> rm_state \<Rightarrow> bool" where
  "rm_frame st st' \<longleftrightarrow> rm_fd st' = rm_fd st \<and> hdr_grow (rm_hdr st) (rm_hdr st') \<and> bp_pins (rm_pool st') = bp_pins (rm_pool st) \<and>
     file_step (rm_fd st) (rm_pool st) (rm_pool st')"

lemma rm_frame_refl [simp]: "rm_frame st st"
  by (simp add: rm_frame_def)

lemma rm_frame_trans: "rm_frame st st' \<Longrightarrow> rm_frame st' st'' \<Longrightarrow> rm_frame st st''"
  using file_step_trans[of "rm_fd st" "rm_pool st" "rm_pool st'"] hdr_grow_trans by (auto simp: rm_frame_def)

lemma on_pool_eq: "m (rm_pool st) = (r, b) \<Longrightarrow> on_pool m st = (r, st\<lparr>rm_pool := b\<rparr>)"
  by (simp add: on_pool_def)

lemma write_data_twice: "write_data f bs' (write_data f bs b) = write_data f bs' b"
  by (cases "nat f < length (pages b)") (simp_all add: write_data_def upd_page_def page_at_def list_update_beyond)

lemma page_at_write_data:
  "bp_inv W b \<Longrightarrow> find_frame b pid = Some f \<Longrightarrow> page_at (write_data f bs b) f = (page_at b f)\<lparr>pg_data := bs\<rparr>"
  using pool_invD(6)[of "{}" W b pid f] pool_invD(1)[of "{}" W b]
  by (auto simp: write_data_def page_at_upd_page)

text \<open>A page of the file is held: pinned once more than in \<open>st0\<close>, with the bytes \<open>d\<close>.\<close>

definition rm_held :: "rm_state \<Rightarrow> rm_state \<Rightarrow> frame_id_t \<Rightarrow> int \<Rightarrow> RmFileHdr \<Rightarrow> (int \<Rightarrow> bytes) \<Rightarrow> bool" where
  "rm_held st0 st f p h pg \<longleftrightarrow> rm_hdr st = h \<and> hdr_grow (rm_hdr st0) h \<and> rm_fd st = rm_fd st0 \<and> page_in h p \<and>
     (\<exists>W \<subseteq> {PageId (rm_fd st) p}. bp_inv W (rm_pool st)) \<and>
     find_frame (rm_pool st) (PageId (rm_fd st) p) = Some f \<and>
     pg_data (page_at (rm_pool st) f) = pg p \<and>
     file_step (rm_fd st) (rm_pool st0) (rm_pool st) \<and> bp_room (rm_pool st0) \<and>
     bp_open (rm_pool st0) (rm_fd st0) \<and> 0 \<le> rm_fd st0 \<and> rm_fd st0 < MAX_FD \<and>
     bp_pins (rm_pool st) = (bp_pins (rm_pool st0))
       (PageId (rm_fd st) p := bp_pins (rm_pool st0) (PageId (rm_fd st) p) + 1) \<and>
     0 \<le> bp_pins (rm_pool st0) (PageId (rm_fd st) p) \<and>
     fd2pageno (bp_disk (rm_pool st)) (rm_fd st) = num_pages h \<and>
     (\<forall>q. PageId (rm_fd st) q \<in> bp_cached (rm_pool st) \<longrightarrow> q < num_pages h) \<and>
     (\<forall>q. page_in h q \<longrightarrow> q \<noteq> p \<longrightarrow> bp_content (rm_pool st) (PageId (rm_fd st) q) = Some (pg q))"

lemma held_page_no: "rm_held st0 st f p h pg \<Longrightarrow> pid_page_no (pg_id (page_at (rm_pool st) f)) = p"
  unfolding rm_held_def using pool_invD(6)[of "{}"] by fastforce

lemma fetch_page_handle_ok:
  assumes rel: "rm_rel st h pg" and p: "page_in h p"
  obtains f st1 where "fetch_page_handle p st = (Inr f, st1)" "rm_held st st1 f p h pg"
proof -
  let ?pid = "PageId (rm_fd st) p"
  have r: "bp_inv {} (rm_pool st)" "bp_room (rm_pool st)" "bp_open (rm_pool st) (pid_fd ?pid)"
    "bp_content (rm_pool st) ?pid = Some (pg p)" using rel p by (auto simp: rm_rel_def)
  obtain f b where f: "fetch_page ?pid (rm_pool st) = (Inr (Some f), b)" "pg_data (page_at b f) = pg p" "bp_inv {} b"
    "find_frame b ?pid = Some f"
    "pool_step {} (rm_pool st) b \<and> fd2pageno (bp_disk b) = fd2pageno (bp_disk (rm_pool st))"
    "bp_pins b = (bp_pins (rm_pool st))(?pid := bp_pins (rm_pool st) ?pid + 1)"
    "bp_cached b \<subseteq> insert ?pid (bp_cached (rm_pool st))"
    by (rule pool.fetch_data[OF r])
  have "fetch_page_handle p st = (Inr f, st\<lparr>rm_pool := b\<rparr>)"
    using p rel on_pool_eq[of "fetch_page ?pid" st, OF f(1)]
    by (auto simp: fetch_page_handle_def page_in_def rm_rel_def bindE_def)
  moreover have "pool_step {} (rm_pool st) b" using f(5) by simp
  then have "rm_held st (st\<lparr>rm_pool := b\<rparr>) f p h pg"
    using f rel p pool.pins_nonneg[OF r(1)] pool_step_content[of "{}" "rm_pool st" b] file_step_page[of "rm_pool st" b "rm_fd st" p]
    by (auto simp: rm_held_def rm_rel_def page_in_def)
  ultimately show thesis by (rule that)
qed

text \<open>Giving a held page back unchanged, or with new bytes and a header of the same size.\<close>

lemma unpin_handle_eq: "unpin_handle p dirty st = on_pool (unpin_page (PageId (rm_fd st) p) dirty) st"
  by (simp add: unpin_handle_def)

lemma held_release:
  assumes held: "rm_held st0 st f p h pg" and len: "length d = PAGE_SIZE" and hg: "hdr_grow h h'" and h': "num_pages h' = num_pages h"
  obtains st' where
    "unpin_handle p True (st\<lparr>rm_hdr := h', rm_pool := write_data f d (rm_pool st)\<rparr>) = (Inr True, st')"
    "rm_rel st' h' (pg(p := d))" "rm_frame st0 st'"
proof -
  let ?pid = "PageId (rm_fd st) p"
  obtain W where W: "W \<subseteq> {?pid}" and hd: "bp_inv W (rm_pool st)" "find_frame (rm_pool st) ?pid = Some f"
    "file_step (rm_fd st) (rm_pool st0) (rm_pool st)" "bp_room (rm_pool st0)" "0 < bp_pins (rm_pool st) ?pid"
    "bp_pins (rm_pool st) = (bp_pins (rm_pool st0))(?pid := bp_pins (rm_pool st0) ?pid + 1)"
    "rm_fd st = rm_fd st0" "page_in h p" "bp_open (rm_pool st0) (rm_fd st0)" "0 \<le> rm_fd st0" "rm_fd st0 < MAX_FD"
    "fd2pageno (bp_disk (rm_pool st)) (rm_fd st) = num_pages h"
    "\<And>q. PageId (rm_fd st) q \<in> bp_cached (rm_pool st) \<Longrightarrow> q < num_pages h"
    "\<And>q. page_in h q \<Longrightarrow> q \<noteq> p \<Longrightarrow> bp_content (rm_pool st) (PageId (rm_fd st) q) = Some (pg q)"
    using held by (auto simp: rm_held_def)
  let ?w = "write_data f d (rm_pool st)"
  note w = write_data_ok[OF hd(1,5,2) len]
  have wpos: "0 < bp_pins ?w ?pid" using w(4) hd(5) by simp
  obtain b where b: "unpin_page ?pid True ?w = (Inr True, b)" "bp_inv (insert ?pid W - {?pid}) b"
    "bp_content b = bp_content ?w" "bp_pins b = (bp_pins ?w)(?pid := bp_pins ?w ?pid - 1)"
    "bp_disk b = bp_disk ?w" "pool_size b = pool_size ?w" "find_frame b = find_frame ?w"
    by (rule unpin_page_ok[OF w(1) wpos disjI1[OF TrueI]])
  have "insert ?pid W - {?pid} = {}" using W by blast
  with b(2) have inv: "bp_inv {} b" by simp
  have pins: "bp_pins b = bp_pins (rm_pool st0)" using b(4) w(4) hd(6) by auto
  have fst: "file_step (rm_fd st) (rm_pool st0) b"
    using file_step_write[OF hd(3), of b p d] b(3,5,6,7) w(2,3,5,6) by simp
  then have st: "pool_step {pid. pid_fd pid = rm_fd st} (rm_pool st0) b" by (simp add: file_step_def)
  have op: "bp_open b (rm_fd st)" using hd(7,9) pool_step_open[OF st] by simp
  have room: "bp_room b" using hd(4) pins st by (simp add: bp_room_def pool_step_def)
  have cont: "bp_content b (PageId (rm_fd st) q) = Some ((pg(p := d)) q)" if "page_in h q" for q
    using hd(14)[OF that] b(3) w(3) by auto
  let ?st = "st\<lparr>rm_hdr := h', rm_pool := b\<rparr>"
  have "page_in h' q = page_in h q" for q using h' by (simp add: page_in_def)
  then have "rm_rel ?st h' (pg(p := d))"
    using inv room op hd(7,10,11,12,13) h' b(5,7) w(2,5) cont
    by (auto simp: rm_rel_def bp_cached_def)
  moreover have "rm_frame st0 ?st"
    using pins fst hd(7) held hg hdr_grow_trans[of "rm_hdr st0" h h'] by (simp add: rm_frame_def rm_held_def)
  moreover have "unpin_handle p True (st\<lparr>rm_hdr := h', rm_pool := ?w\<rparr>) = (Inr True, ?st)"
    using b(1) by (simp add: unpin_handle_eq on_pool_def)
  ultimately show thesis by (intro that)
qed

lemma rm_upd_comm: "st\<lparr>rm_pool := b, rm_hdr := h\<rparr> = st\<lparr>rm_hdr := h, rm_pool := b\<rparr>"
  by (cases st) simp

lemma rm_hdr_same: "rm_hdr st = h \<Longrightarrow> st\<lparr>rm_hdr := h, rm_pool := b\<rparr> = st\<lparr>rm_pool := b\<rparr>"
  by (cases st) simp

lemma read_handle:
  assumes rel: "rm_rel st h pg" and p: "page_in h p"
  obtains f st1 st2 where "fetch_page_handle p st = (Inr f, st1)" "pg_data (page_at (rm_pool st1) f) = pg p"
    "rm_hdr st1 = h" "unpin_handle p False st1 = (Inr True, st2)" "rm_rel st2 h pg" "rm_frame st st2"
proof -
  let ?pid = "PageId (rm_fd st) p"
  have r: "bp_inv {} (rm_pool st)" "bp_room (rm_pool st)" "bp_open (rm_pool st) (pid_fd ?pid)"
    "bp_content (rm_pool st) ?pid = Some (pg p)" "?pid \<notin> {}" using rel p by (auto simp: rm_rel_def)
  obtain f b1 b2 where f: "fetch_page ?pid (rm_pool st) = (Inr (Some f), b1)" "pg_data (page_at b1 f) = pg p"
    "unpin_page ?pid False b1 = (Inr True, b2)" "bp_inv {} b2"
    "pool_step {} (rm_pool st) b2 \<and> fd2pageno (bp_disk b2) = fd2pageno (bp_disk (rm_pool st))"
    "bp_pins b2 = bp_pins (rm_pool st)" "bp_room b2" "bp_cached b2 \<subseteq> insert ?pid (bp_cached (rm_pool st))"
    by (rule pool.read_cycle[OF r])
  have st: "pool_step {} (rm_pool st) b2" using f(5) by simp
  have "fetch_page_handle p st = (Inr f, st\<lparr>rm_pool := b1\<rparr>)"
    using p rel on_pool_eq[of "fetch_page ?pid" st, OF f(1)]
    by (auto simp: fetch_page_handle_def page_in_def rm_rel_def bindE_def)
  moreover have "unpin_handle p False (st\<lparr>rm_pool := b1\<rparr>) = (Inr True, st\<lparr>rm_pool := b2\<rparr>)"
    using f(3) by (simp add: unpin_handle_eq on_pool_def)
  moreover have "rm_frame st (st\<lparr>rm_pool := b2\<rparr>)"
    using f(5,6,8) file_step_page[OF st] by (simp add: rm_frame_def)
  moreover have "rm_rel (st\<lparr>rm_pool := b2\<rparr>) h pg"
    using rel f(4,5,7,8) p pool_step_open[OF st] pool_step_content[OF st]
    by (auto simp: rm_rel_def page_in_def)
  moreover have "rm_hdr (st\<lparr>rm_pool := b1\<rparr>) = h" using rel by (simp add: rm_rel_def)
  ultimately show thesis using f(2) by (intro that[of f "st\<lparr>rm_pool := b1\<rparr>"]) simp_all
qed

section \<open>Reading and updating records\<close>

lemma page_rec_is_set:
  assumes "slot_ok h s"
  shows "is_set (page_bitmap d) s \<longleftrightarrow> page_rec h d s \<noteq> None"
    "page_rec h d s = Some bs \<Longrightarrow> get_slot h s d = bs"
  using assms by (auto simp: page_rec_def slot_used_def split: if_splits)

definition rid_ok :: "RmFileHdr \<Rightarrow> Rid \<Rightarrow> bool" where
  "rid_ok h rid \<longleftrightarrow> page_in h (rid_page_no rid) \<and> slot_ok h (rid_slot_no rid)"

lemma file_rec_page: "rid_ok h rid \<Longrightarrow> file_rec h pg rid = page_rec h (pg (rid_page_no rid)) (rid_slot_no rid)"
  by (simp add: rid_ok_def file_rec_def)

lemma get_record_rel:
  assumes rel: "rm_rel st h pg" and rid: "rid_ok h rid"
  shows "\<exists>st'. get_record rid st =
      ((case file_rec h pg rid of
          None \<Rightarrow> Inl (RecordNotFoundError (rid_page_no rid) (rid_slot_no rid)) | Some bs \<Rightarrow> Inr bs), st') \<and>
    rm_rel st' h pg \<and> rm_frame st st'"
proof -
  have p: "page_in h (rid_page_no rid)" and s: "slot_ok h (rid_slot_no rid)" using rid by (simp_all add: rid_ok_def)
  obtain f st1 st2 where r: "fetch_page_handle (rid_page_no rid) st = (Inr f, st1)"
    "pg_data (page_at (rm_pool st1) f) = pg (rid_page_no rid)" "rm_hdr st1 = h"
    "unpin_handle (rid_page_no rid) False st1 = (Inr True, st2)" "rm_rel st2 h pg" "rm_frame st st2"
    by (rule read_handle[OF rel p])
  show ?thesis
    using r page_rec_is_set[OF s, of "pg (rid_page_no rid)"]
    by (auto simp: get_record_def bindE_Inr thenE_Inr page_data_def file_rec_page[OF rid] split: option.splits)
qed

lemma is_record_rel:
  assumes rel: "rm_rel st h pg" and rid: "rid_ok h rid"
  shows "\<exists>st'. is_record rid st = (Inr (file_rec h pg rid \<noteq> None), st') \<and> rm_rel st' h pg \<and> rm_frame st st'"
proof -
  have p: "page_in h (rid_page_no rid)" and s: "slot_ok h (rid_slot_no rid)" using rid by (simp_all add: rid_ok_def)
  obtain f st1 st2 where r: "fetch_page_handle (rid_page_no rid) st = (Inr f, st1)"
    "pg_data (page_at (rm_pool st1) f) = pg (rid_page_no rid)" "rm_hdr st1 = h"
    "unpin_handle (rid_page_no rid) False st1 = (Inr True, st2)" "rm_rel st2 h pg" "rm_frame st st2"
    by (rule read_handle[OF rel p])
  show ?thesis
    using r page_rec_is_set[OF s, of "pg (rid_page_no rid)"]
    by (simp add: is_record_def bindE_Inr thenE_Inr page_data_def file_rec_page[OF rid])
qed

lemma missing_record:
  assumes rel: "rm_rel st h pg" and rid: "rid_ok h rid" and none: "file_rec h pg rid = None"
  shows "\<exists>st'. delete_record rid st = (Inl (RecordNotFoundError (rid_page_no rid) (rid_slot_no rid)), st') \<and>
      rm_rel st' h pg \<and> rm_frame st st'"
    "\<exists>st'. update_record rid buf st = (Inl (RecordNotFoundError (rid_page_no rid) (rid_slot_no rid)), st') \<and>
      rm_rel st' h pg \<and> rm_frame st st'"
proof -
  have p: "page_in h (rid_page_no rid)" and s: "slot_ok h (rid_slot_no rid)" using rid by (simp_all add: rid_ok_def)
  obtain f st1 st2 where r: "fetch_page_handle (rid_page_no rid) st = (Inr f, st1)"
    "pg_data (page_at (rm_pool st1) f) = pg (rid_page_no rid)" "rm_hdr st1 = h"
    "unpin_handle (rid_page_no rid) False st1 = (Inr True, st2)" "rm_rel st2 h pg" "rm_frame st st2"
    by (rule read_handle[OF rel p])
  show "\<exists>st'. delete_record rid st = (Inl (RecordNotFoundError (rid_page_no rid) (rid_slot_no rid)), st') \<and>
      rm_rel st' h pg \<and> rm_frame st st'"
    "\<exists>st'. update_record rid buf st = (Inl (RecordNotFoundError (rid_page_no rid) (rid_slot_no rid)), st') \<and>
      rm_rel st' h pg \<and> rm_frame st st'"
    using r page_rec_is_set[OF s, of "pg (rid_page_no rid)"] none
    by (simp_all add: delete_record_def update_record_def bindE_Inr thenE_Inr page_data_def file_rec_page[OF rid])
qed

lemma heldD:
  assumes "rm_held st0 st f p h pg"
  shows "rm_hdr st = h" "pg_data (page_at (rm_pool st) f) = pg p" "page_in h p"
    "edit_page f g st = (Inr (), st\<lparr>rm_pool := write_data f (g (pg p)) (rm_pool st)\<rparr>)"
    "pg_data (page_at (write_data f bs (rm_pool st)) f) = bs"
    "pid_page_no (pg_id (page_at (write_data f bs (rm_pool st)) f)) = p"
  using assms held_page_no[OF assms] page_at_write_data[of _ "rm_pool st" "PageId (rm_fd st) p" f bs]
  by (auto simp: rm_held_def edit_page_def)

lemma update_record_rel:
  assumes rel: "rm_rel st h pg" and wf: "file_wf L h pg" and rid: "rid_ok h rid" and some: "file_rec h pg rid \<noteq> None"
    and buf: "length buf = nat (record_size h)"
  shows "\<exists>st' pg'. update_record rid buf st = (Inr (), st') \<and> rm_rel st' h pg' \<and> file_wf L h pg' \<and>
     file_rec h pg' = (file_rec h pg)(rid \<mapsto> buf) \<and> rm_frame st st'"
proof -
  let ?p = "rid_page_no rid" and ?s = "rid_slot_no rid"
  have p: "page_in h ?p" and s: "slot_ok h ?s" using rid by (simp_all add: rid_ok_def)
  obtain f st1 where f: "fetch_page_handle ?p st = (Inr f, st1)" "rm_held st st1 f ?p h pg"
    by (rule fetch_page_handle_ok[OF rel p])
  note hd = heldD[OF f(2)]
  have rec: "page_rec h (pg ?p) ?s \<noteq> None" using some by (simp add: file_rec_page[OF rid])
  let ?d = "put_slot h ?s buf (pg ?p)"
  note d = put_slot_ok[OF file_wfD(3)[OF wf p] file_wfD(1)[OF wf] s rec buf refl]
  have len: "length ?d = PAGE_SIZE" using d(1) by (simp add: page_wf_def)
  obtain st' where st': "unpin_handle ?p True (st1\<lparr>rm_hdr := h, rm_pool := write_data f ?d (rm_pool st1)\<rparr>) = (Inr True, st')"
    "rm_rel st' h (pg(?p := ?d))" "rm_frame st st'" by (rule held_release[OF f(2) len hdr_grow_refl(1) refl])
  have "update_record rid buf st = (Inr (), st')"
    using f(1) st'(1)[unfolded rm_hdr_same[OF hd(1)]] hd page_rec_is_set[OF s, of "pg ?p"] rec
    by (simp add: update_record_def bindE_Inr thenE_Inr page_data_def)
  moreover have "file_wf L h (pg(?p := ?d))" using d by (intro file_wf_same[OF wf p]) simp_all
  moreover have "file_rec h (pg(?p := ?d)) = (file_rec h pg)(rid \<mapsto> buf)"
    using file_rec_upd[of h ?d pg ?p ?s "Some buf"] d(2) p by (cases rid) simp
  ultimately show ?thesis using st'(2,3) by blast
qed

section \<open>Deleting records\<close>

lemma delete_record_rel:
  assumes rel: "rm_rel st h pg" and wf: "file_wf L h pg" and rid: "rid_ok h rid" and some: "file_rec h pg rid \<noteq> None"
  shows "\<exists>st' h' pg'. delete_record rid st = (Inr (), st') \<and> rm_rel st' h' pg' \<and> file_wf L h' pg' \<and>
     file_rec h' pg' = (file_rec h pg)(rid := None) \<and> rm_frame st st'"
proof -
  let ?p = "rid_page_no rid" and ?s = "rid_slot_no rid"
  have p: "page_in h ?p" and s: "slot_ok h ?s" using rid by (simp_all add: rid_ok_def)
  note lay = file_wfD(1)[OF wf] and pw = file_wfD(3)[OF wf p]
  obtain f st1 where f: "fetch_page_handle ?p st = (Inr f, st1)" "rm_held st st1 f ?p h pg"
    by (rule fetch_page_handle_ok[OF rel p])
  note hd = heldD[OF f(2)]
  have rec: "page_rec h (pg ?p) ?s \<noteq> None" using some by (simp add: file_rec_page[OF rid])
  define d where "d = del_page h ?s (pg ?p)"
  note d = del_page_ok[OF pw lay s rec d_def]
  have len: "length d = PAGE_SIZE" using d(1) by (simp add: page_wf_def)
  have fr: "file_rec h (pg(?p := d')) = (file_rec h pg)(rid := None)" if "page_rec h d' = page_rec h d" for d'
    using file_rec_upd[of h d' pg ?p ?s None] d(2) that p by (cases rid) simp
  note run = delete_record_def bindE_Inr thenE_Inr page_data_def
  have set: "is_set (page_bitmap (pg ?p)) ?s" using page_rec_is_set[OF s] rec by blast
  show ?thesis
  proof (cases "num_records (pg ?p) = num_records_per_page h")
    case False
    obtain st' where st': "unpin_handle ?p True (st1\<lparr>rm_hdr := h, rm_pool := write_data f d (rm_pool st1)\<rparr>) = (Inr True, st')"
      "rm_rel st' h (pg(?p := d))" "rm_frame st st'" by (rule held_release[OF f(2) len hdr_grow_refl(1) refl])
    have "delete_record rid st = (Inr (), st')"
      using f(1) st'(1)[unfolded rm_hdr_same[OF hd(1)]] hd False set by (simp add: run d_def)
    moreover have "file_wf L h (pg(?p := d))"
      using d False num_records_int32(2)[OF lay pw] by (intro file_wf_same[OF wf p]) simp_all
    ultimately show ?thesis using st'(2,3) fr[of d] by blast
  next
    case True
    let ?d = "set_next_free_page_no (first_free_page_no h) d" and ?h = "h\<lparr>first_free_page_no := ?p\<rparr>"
    have ff: "int32 (first_free_page_no h)"
      using first_free_ok[OF wf] page_in_int32[OF wf]
      by (cases "first_free_page_no h = RM_NO_PAGE") (auto simp: free_pages_def int32_def)
    note n = set_next_free_reads[OF len lay, where v = "first_free_page_no h"]
    have rc: "page_rec h ?d = page_rec h d" using n(4,5) by (auto simp: page_rec_def fun_eq_iff)
    have wd: "page_wf h ?d" using d(1) n(1,3) by (simp add: page_wf_def rc)
    obtain st' where st': "unpin_handle ?p True (st1\<lparr>rm_hdr := ?h, rm_pool := write_data f ?d (rm_pool st1)\<rparr>) = (Inr True, st')"
      "rm_rel st' ?h (pg(?p := ?d))" "rm_frame st st'" by (rule held_release[OF f(2) n(1), of ?h]) simp_all
    have "delete_record rid st = (Inr (), st')"
      using f(1) st'(1) hd True set
      by (simp add: run release_page_handle_def edit_page_def edit_hdr_def handle_page_no_def
          write_data_twice rm_upd_comm flip: d_def)
    moreover have "file_wf L ?h (pg(?p := ?d))"
      using wd d(3) n(2)[OF ff] n(3) True by (intro file_wf_release[OF wf p]) simp_all
    moreover have "file_rec ?h (pg(?p := ?d)) = (file_rec h pg)(rid := None)"
      using fr[OF rc] by simp
    ultimately show ?thesis using st'(2,3) by blast
  qed
qed

section \<open>Inserting records\<close>

text \<open>A page just created: empty, and the only one with room.\<close>

definition fresh_page :: "RmFileHdr \<Rightarrow> bytes" where
  "fresh_page h = edit_bitmap (\<lambda>b. bm_init b (nat (bitmap_size h)))
     (set_num_records 0 (set_next_free_page_no RM_NO_PAGE zero_page))"

lemma fresh_page_ok:
  assumes lay: "layout_ok h"
  shows "page_wf h (fresh_page h)" "page_rec h (fresh_page h) = Map.empty"
    "num_records (fresh_page h) = 0" "next_free_page_no (fresh_page h) = RM_NO_PAGE"
proof -
  have z: "length zero_page = PAGE_SIZE" by (simp add: zero_page_def)
  define d1 where "d1 = set_next_free_page_no RM_NO_PAGE zero_page"
  define d2 where "d2 = set_num_records 0 d1"
  note a = set_next_free_reads[OF z lay, where v = RM_NO_PAGE, folded d1_def]
  note b = set_num_records_reads[OF a(1) lay, where v = 0, folded d2_def]
  have lb: "length (page_bitmap d2) = 4084" "nat (bitmap_size h) \<le> 4084"
  proof -
    show "length (page_bitmap d2) = 4084"
      using b(1) by (simp add: page_bitmap_def OFFSET_PAGE_HDR_def sizeof_RmPageHdr_def)
    have "0 \<le> num_records_per_page h * record_size h" using layout_bounds(1,2)[OF lay] by simp
    then show "nat (bitmap_size h) \<le> 4084" using layout_bounds(5)[OF lay] by linarith
  qed
  let ?g = "\<lambda>b. bm_init b (nat (bitmap_size h))"
  have g: "length (?g (page_bitmap d2)) = length (page_bitmap d2)"
    using lb by (simp add: bm_init_def mem_simps)
  have "?g (page_bitmap d2) ! i = page_bitmap d2 ! i" if "nat (bitmap_size h) \<le> i" "i < length (page_bitmap d2)" for i
    using that lb by (simp add: bm_init_def nth_mem_put)
  note c = edit_bitmap_reads[OF b(1) lay, where g = ?g, OF g this]
  have eq: "fresh_page h = edit_bitmap ?g d2" by (simp add: fresh_page_def d1_def d2_def)
  have "\<not> slot_used (fresh_page h) s" if "slot_ok h s" for s
    using is_set_init[OF bucket_bound(1)[OF lay that]] by (simp add: eq c(4))
  then show rec: "page_rec h (fresh_page h) = Map.empty" by (auto simp: page_rec_def)
  show n: "num_records (fresh_page h) = 0" "next_free_page_no (fresh_page h) = RM_NO_PAGE"
    unfolding eq by (simp_all add: c(2,3) b(2,3) a(2) int32_def)
  show "page_wf h (fresh_page h)" using c(1) rec n by (simp add: page_wf_def eq[symmetric])
qed

lemma file_wf_extend:
  assumes wf: "file_wf L h pg" and ff: "first_free_page_no h = RM_NO_PAGE \<or> L = UNIV" and sz: "int32 (num_pages h + 1)"
    and h': "h' = h\<lparr>num_pages := num_pages h + 1, first_free_page_no := num_pages h\<rparr>"
  shows "file_wf L h' (pg(num_pages h := fresh_page h))" "file_rec h' (pg(num_pages h := fresh_page h)) = file_rec h pg"
    "page_in h' (num_pages h)"
proof -
  note fp = fresh_page_ok[OF file_wfD(1)[OF wf]]
  have n1: "1 \<le> num_records_per_page h" using layout_bounds[OF file_wfD(1)[OF wf]] by simp
  have pin: "page_in h' p \<longleftrightarrow> page_in h p \<or> p = num_pages h" for p
    using file_wfD(2)[OF wf] by (auto simp: page_in_def h')
  let ?pg = "pg(num_pages h := fresh_page h)"
  have "free_pages h pg \<subseteq> L" using no_free_pages[OF wf] ff by auto
  then have fpg: "set [num_pages h] \<subseteq> free_pages h' ?pg" "free_pages h' ?pg \<subseteq> set [num_pages h] \<union> L"
    using n1 fp(3) unfolding free_pages_def pin by (auto simp: h' page_in_def)
  show "file_wf L h' ?pg"
  proof (rule file_wfI[OF _ _ _ _ _ _ fpg])
    show "page_wf h' (?pg p)" if "page_in h' p" for p
      using that fp(1) file_wfD(3)[OF wf] pin[of p] by (auto simp: h')
  qed (use file_wfD(1,2)[OF wf] sz fp(4) in \<open>simp_all add: h'\<close>)
  show "file_rec h' ?pg = file_rec h pg"
    using fp(2) pin by (auto simp: file_rec_def fun_eq_iff h' page_in_def)
  show "page_in h' (num_pages h)" using pin by simp
qed

lemma create_new_page_handle_ok:
  assumes rel: "rm_rel st h pg" and wf: "file_wf L h pg"
    and h': "h' = h\<lparr>num_pages := num_pages h + 1, first_free_page_no := num_pages h\<rparr>"
  obtains f st1 where "create_new_page_handle st = (Inr f, st1)"
    "rm_held st st1 f (num_pages h) h' (pg(num_pages h := fresh_page h))"
proof -
  let ?p = "num_pages h" and ?fd = "rm_fd st"
  have hdr: "rm_hdr st = h" using rel by (simp add: rm_rel_def)
  have r: "bp_inv {} (rm_pool st)" "bp_room (rm_pool st)" "bp_open (rm_pool st) ?fd" "0 \<le> ?fd" "?fd < MAX_FD"
    and no: "fd2pageno (bp_disk (rm_pool st)) ?fd = ?p" and np: "1 \<le> ?p"
    using rel file_wfD(2)[OF wf] by (auto simp: rm_rel_def)
  have pn: "0 \<le> fd2pageno (bp_disk (rm_pool st)) ?fd" using no np by simp
  have fresh: "find_frame (rm_pool st) (PageId ?fd (fd2pageno (bp_disk (rm_pool st)) ?fd)) = None"
    using rel no by (auto simp: rm_rel_def bp_cached_def)
  obtain f b where b: "new_page ?fd (rm_pool st) = (Inr (Some (PageId ?fd ?p, f)), b)"
    "bp_inv (insert (PageId ?fd ?p) {}) b" "find_frame b (PageId ?fd ?p) = Some f"
    "bp_content b (PageId ?fd ?p) = Some zero_page" "pool_step {PageId ?fd ?p} (rm_pool st) b"
    "bp_pins b = (bp_pins (rm_pool st))(PageId ?fd ?p := 1)"
    "fd2pageno (bp_disk b) = (fd2pageno (bp_disk (rm_pool st)))(?fd := ?p + 1)"
    "bp_cached b \<subseteq> insert (PageId ?fd ?p) (bp_cached (rm_pool st))"
    by (rule new_page_ok[OF r pn fresh, unfolded no])
  have z: "pg_data (page_at b f) = zero_page" using cached(1)[OF b(3)] b(4) by simp
  have len: "length (fresh_page h) = PAGE_SIZE" using fresh_page_ok(1)[OF file_wfD(1)[OF wf]] by (simp add: page_wf_def)
  have pos: "0 < bp_pins b (PageId ?fd ?p)" using b(6) by simp
  let ?b = "write_data f (fresh_page h) b"
  note w = write_data_ok[OF b(2) pos b(3) len]
  have p0: "bp_pins (rm_pool st) (PageId ?fd ?p) = 0" using fresh no by (simp add: bp_pins_def)
  have "create_new_page_handle st = (Inr f, st\<lparr>rm_hdr := h', rm_pool := ?b\<rparr>)"
    using on_pool_eq[of "new_page ?fd" st, OF b(1)] z hdr
    by (simp add: create_new_page_handle_def bindE_def edit_hdr_def edit_page_def h' fresh_page_def)
  moreover have "rm_held st (st\<lparr>rm_hdr := h', rm_pool := ?b\<rparr>) f ?p h' (pg(?p := fresh_page h))"
  proof -
    have c: "bp_cached ?b \<subseteq> insert (PageId ?fd ?p) (bp_cached (rm_pool st))" using b(8) w(2) by (simp add: bp_cached_def)
    have st: "pool_step {PageId ?fd ?p} (rm_pool st) ?b" using b(5) w(3,5,6) by (auto simp: pool_step_def)
    have "pool_step {pid. pid_fd pid = ?fd} (rm_pool st) ?b" by (rule pool_step_mono[OF st]) auto
    then have st': "file_step ?fd (rm_pool st) ?b" using c b(7) w(5) by (auto simp: file_step_def)
    have cont: "bp_content ?b (PageId ?fd q) = Some (pg q)" if "page_in h q" "q \<noteq> ?p" for q
      using pool_step_content[OF st, of "PageId ?fd q"] that rel by (simp add: rm_rel_def)
    have "page_in h' q \<Longrightarrow> q \<noteq> ?p \<Longrightarrow> page_in h q" for q by (auto simp: page_in_def h')
    moreover have "page_in h' ?p" using np by (simp add: page_in_def h')
    moreover have "PageId ?fd q \<in> bp_cached ?b \<Longrightarrow> q < num_pages h'" for q
      using c rel by (auto simp: h' rm_rel_def)
    ultimately show ?thesis
      using rel r w(1,2,4,5) b(3,6,7) st' cont p0 heldD(5) page_at_write_data[OF b(2,3), of "fresh_page h"]
      by (auto simp: rm_held_def rm_rel_def h' intro!: exI[of _ "{PageId ?fd ?p}"])
  qed
  ultimately show thesis by (rule that)
qed

lemma create_page_handle_ok:
  assumes rel: "rm_rel st h pg" and wf: "file_wf L h pg" and sz: "int32 (num_pages h + 1)"
  obtains f st1 h1 pg1 where "create_page_handle st = (Inr f, st1)"
    "rm_held st st1 f (first_free_page_no h1) h1 pg1" "file_wf L h1 pg1" "file_rec h1 pg1 = file_rec h pg"
    "first_free_page_no h1 \<noteq> RM_NO_PAGE" "record_size h1 = record_size h"
proof (cases "first_free_page_no h = RM_NO_PAGE")
  case True
  define h' where "h' = h\<lparr>num_pages := num_pages h + 1, first_free_page_no := num_pages h\<rparr>"
  obtain f st1 where f: "create_new_page_handle st = (Inr f, st1)"
    "rm_held st st1 f (num_pages h) h' (pg(num_pages h := fresh_page h))"
    by (rule create_new_page_handle_ok[OF rel wf h'_def])
  note e = file_wf_extend[OF wf disjI1[OF True] sz h'_def]
  have "create_page_handle st = (Inr f, st1)" using True f(1) rel by (simp add: create_page_handle_def rm_rel_def)
  with that[of f st1 h' "pg(num_pages h := fresh_page h)"] f(2) e file_wfD(2)[OF wf] show thesis
    by (simp add: h'_def)
next
  case False
  then have p: "page_in h (first_free_page_no h)" using first_free_ok[OF wf] by (simp add: free_pages_def)
  obtain f st1 where f: "fetch_page_handle (first_free_page_no h) st = (Inr f, st1)"
    "rm_held st st1 f (first_free_page_no h) h pg" by (rule fetch_page_handle_ok[OF rel p])
  have "create_page_handle st = (Inr f, st1)" using False f(1) rel by (simp add: create_page_handle_def rm_rel_def)
  with that[of f st1 h pg] f(2) wf False show thesis by simp
qed

text \<open>A page with room has a free slot, and the search finds it.\<close>

lemma free_slot:
  assumes lay: "layout_ok h" and wf: "page_wf h d" and room: "num_records d < num_records_per_page h"
    and s: "s = first_bit False (page_bitmap d) (num_records_per_page h)"
  shows "slot_ok h s" "page_rec h d s = None" "s \<noteq> num_records_per_page h"
proof -
  let ?n = "num_records_per_page h"
  have n0: "0 \<le> ?n" using layout_bounds[OF lay] by simp
  note fb = first_bit_spec[OF n0, where b = False and bm = "page_bitmap d"]
  have "s < ?n"
  proof (rule ccontr)
    assume "\<not> s < ?n"
    then have "s = ?n" using fb(2) s by simp
    then have "dom (page_rec h d) = {0..<?n}"
      using fb(4) s by (auto simp: page_rec_def slot_ok_def slot_used_def split: if_splits)
    then show False using room wf n0 by (simp add: page_wf_def)
  qed
  with fb(1,3) s show "slot_ok h s" "page_rec h d s = None" "s \<noteq> ?n"
    by (auto simp: slot_ok_def page_rec_def slot_used_def)
qed

lemma insert_record_rel:
  assumes rel: "rm_rel st h pg" and wf: "file_wf L h pg" and sz: "int32 (num_pages h + 1)"
    and buf: "length buf = nat (record_size h)"
  shows "\<exists>rid st' h' pg'. insert_record buf st = (Inr rid, st') \<and> rm_rel st' h' pg' \<and> file_wf L h' pg' \<and>
     file_rec h pg rid = None \<and> file_rec h' pg' = (file_rec h pg)(rid \<mapsto> buf) \<and> rm_frame st st'"
proof -
  obtain f st1 h1 pg1 where c: "create_page_handle st = (Inr f, st1)"
    "rm_held st st1 f (first_free_page_no h1) h1 pg1" "file_wf L h1 pg1" "file_rec h1 pg1 = file_rec h pg"
    "first_free_page_no h1 \<noteq> RM_NO_PAGE" "record_size h1 = record_size h"
    by (rule create_page_handle_ok[OF rel wf sz])
  define p where "p = first_free_page_no h1"
  note hd = heldD[OF c(2), folded p_def] and lay = file_wfD(1)[OF c(3)] and pw = file_wfD(3)[OF c(3)]
  have p: "page_in h1 p" "num_records (pg1 p) < num_records_per_page h1"
    using first_free_ok[OF c(3,5)] by (simp_all add: free_pages_def p_def)
  define s where "s = first_bit False (page_bitmap (pg1 p)) (num_records_per_page h1)"
  note sl = free_slot[OF lay pw[OF p(1)] p(2) s_def]
  define d where "d = ins_page h1 s buf (pg1 p)"
  have buf1: "length buf = nat (record_size h1)" using buf c(6) by simp
  note d = ins_page_ok[OF pw[OF p(1)] lay sl(1,2) buf1 d_def]
  have len: "length d = PAGE_SIZE" using d(1) by (simp add: page_wf_def)
  have new: "file_rec h pg (Rid p s) = None" using sl(2) unfolding c(4)[symmetric] by (simp add: file_rec_def)
  have fr: "file_rec h1 (pg1(p := d')) = (file_rec h pg)(Rid p s \<mapsto> buf)" if "page_rec h1 d' = page_rec h1 d" for d'
    using file_rec_upd[of h1 d' pg1 p s "Some buf"] d(2) that p(1) c(4) by simp
  note run = insert_record_def bindE_Inr thenE_Inr page_data_def handle_page_no_def Let_def
  have pno: "pid_page_no (pg_id (page_at (rm_pool st1) f)) = p" using held_page_no[OF c(2)] by (simp add: p_def)
  have sn: "first_bit False (page_bitmap (pg1 p)) (num_records_per_page h1) = s" by (simp add: s_def)
  show ?thesis
  proof (cases "num_records d = num_records_per_page h1")
    case False
    obtain st' where st': "unpin_handle p True (st1\<lparr>rm_hdr := h1, rm_pool := write_data f d (rm_pool st1)\<rparr>) = (Inr True, st')"
      "rm_rel st' h1 (pg1(p := d))" "rm_frame st st'" by (rule held_release[OF c(2)[folded p_def] len hdr_grow_refl(1) refl])
    have "insert_record buf st = (Inr (Rid p s), st')"
      using c(1) st'(1)[unfolded rm_hdr_same[OF hd(1)]] hd pno False sl(3)
      by (simp add: run sn flip: d_def)
    moreover have "file_wf L h1 (pg1(p := d))"
      using d False p(2) by (intro file_wf_same[OF c(3) p(1)]) auto
    ultimately show ?thesis using st'(2,3) new fr[of d] by blast
  next
    case True
    let ?d = "set_next_free_page_no RM_NO_PAGE d" and ?h = "h1\<lparr>first_free_page_no := next_free_page_no d\<rparr>"
    note n = set_next_free_reads[OF len lay, where v = RM_NO_PAGE]
    have rc: "page_rec h1 ?d = page_rec h1 d" using n(4,5) by (auto simp: page_rec_def fun_eq_iff)
    have wd: "page_wf h1 ?d" using d(1) n(1,3) by (simp add: page_wf_def rc)
    obtain st' where st': "unpin_handle p True (st1\<lparr>rm_hdr := ?h, rm_pool := write_data f ?d (rm_pool st1)\<rparr>) = (Inr True, st')"
      "rm_rel st' ?h (pg1(p := ?d))" "rm_frame st st'" by (rule held_release[OF c(2)[folded p_def] n(1), of ?h]) simp_all
    have "insert_record buf st = (Inr (Rid p s), st')"
      using c(1) st'(1) hd pno True sl(3)
      by (simp add: run sn edit_page_def edit_hdr_def write_data_twice rm_upd_comm flip: d_def)
    moreover have "file_wf L ?h (pg1(p := ?d))"
      using file_wf_fill(2)[OF c(3) p_def[symmetric] c(5)[folded p_def] wd] n(3) True d(4) by simp
    moreover have "file_rec ?h (pg1(p := ?d)) = (file_rec h pg)(Rid p s \<mapsto> buf)" using fr[OF rc] by simp
    ultimately show ?thesis using st'(2,3) new by blast
  qed
qed

section \<open>Inserting at a given place\<close>

text \<open>While one page is held, another page of the file is read or changed. This takes a second
  frame.\<close>

definition bp_room2 :: "buffer_pool \<Rightarrow> bool" where
  "bp_room2 b \<longleftrightarrow> card {pid. 0 < bp_pins b pid} + 1 < pool_size b"

lemma held_room:
  assumes held: "rm_held st0 st f p h pg" and room: "bp_room2 (rm_pool st0)" and inv: "bp_inv {} (rm_pool st0)"
  shows "bp_room (rm_pool st)"
proof -
  have "{pid. 0 < bp_pins (rm_pool st) pid} \<subseteq> insert (PageId (rm_fd st) p) {pid. 0 < bp_pins (rm_pool st0) pid}"
    using held by (auto simp: rm_held_def)
  then have "card {pid. 0 < bp_pins (rm_pool st) pid} \<le> card (insert (PageId (rm_fd st) p) {pid. 0 < bp_pins (rm_pool st0) pid})"
    using finite_pinned[OF inv] by (intro card_mono) auto
  also have "\<dots> \<le> card {pid. 0 < bp_pins (rm_pool st0) pid} + 1"
    using finite_pinned[OF inv] by (simp add: card_insert_if)
  finally show ?thesis using room held by (simp add: bp_room_def bp_room2_def rm_held_def file_step_def pool_step_def)
qed

lemma held_edit:
  assumes held: "rm_held st0 st f p h pg" and len: "length d = PAGE_SIZE"
  shows "rm_held st0 (st\<lparr>rm_pool := write_data f d (rm_pool st)\<rparr>) f p h (pg(p := d))"
proof -
  let ?pid = "PageId (rm_fd st) p"
  obtain W where W: "W \<subseteq> {?pid}" "bp_inv W (rm_pool st)" and f: "find_frame (rm_pool st) ?pid = Some f"
    and pos: "0 < bp_pins (rm_pool st) ?pid" using held by (auto simp: rm_held_def)
  note w = write_data_ok[OF W(2) pos f len]
  have "insert ?pid W \<subseteq> {?pid}" using W(1) by auto
  moreover have "file_step (rm_fd st) (rm_pool st0) (write_data f d (rm_pool st))"
    by (rule file_step_write[OF _ w(3,5,6,2)]) (use held in \<open>auto simp: rm_held_def\<close>)
  ultimately show ?thesis
    using held w heldD(5)[OF held, of d] by (auto simp: rm_held_def bp_cached_def intro!: exI[of _ "insert ?pid W"])
qed

lemma held_other:
  assumes held: "rm_held st0 st f p h pg" and q: "page_in h q" "q \<noteq> p" and room: "bp_room (rm_pool st)"
  obtains g st1 where "fetch_page_handle q st = (Inr g, st1)" "pg_data (page_at (rm_pool st1) g) = pg q"
    "pg_data (page_at (rm_pool st1) f) = pg p"
    "\<exists>st2. unpin_handle q False st1 = (Inr True, st2) \<and> rm_held st0 st2 f p h pg \<and> bp_room (rm_pool st2)"
    "\<forall>d. length d = PAGE_SIZE \<longrightarrow> (\<exists>st2. unpin_handle q True (st1\<lparr>rm_pool := write_data g d (rm_pool st1)\<rparr>) =
        (Inr True, st2) \<and> rm_held st0 st2 f p h (pg(q := d)) \<and> bp_room (rm_pool st2))"
proof -
  let ?pid = "PageId (rm_fd st) p" and ?qid = "PageId (rm_fd st) q" and ?b = "rm_pool st"
  obtain W where W: "W \<subseteq> {?pid}" "bp_inv W ?b" and f: "find_frame ?b ?pid = Some f"
    and pos: "0 < bp_pins ?b ?pid" and c: "bp_content ?b ?qid = Some (pg q)" and hd: "rm_hdr st = h"
    using held q by (auto simp: rm_held_def)
  have op: "bp_open ?b (pid_fd ?qid)" using held pool_step_open by (fastforce simp: rm_held_def file_step_def)
  obtain g b1 where g: "fetch_page ?qid ?b = (Inr (Some g), b1)" "bp_inv W b1" "find_frame b1 ?qid = Some g"
    "bp_content b1 ?qid = Some (pg q)" "pool_step {} ?b b1" "bp_pins b1 = (bp_pins ?b)(?qid := bp_pins ?b ?qid + 1)"
    "fd2pageno (bp_disk b1) = fd2pageno (bp_disk ?b)" "bp_cached b1 \<subseteq> insert ?qid (bp_cached ?b)"
    "\<forall>q. 0 < bp_pins ?b q \<longrightarrow> find_frame b1 q = find_frame ?b q"
    by (rule fetch_page_ok[OF W(2) disjI1[OF room] op c])
  have f1: "find_frame b1 ?pid = Some f" using g(9) pos f by simp
  have cp: "bp_content b1 ?pid = Some (pg p)"
    using pool_step_content[OF g(5), of ?pid] cached(1)[OF f] heldD(2)[OF held] op by simp
  have cont: "bp_content b1 (PageId (rm_fd st) r) = Some (pg r)" if "page_in h r" for r
    using held pool_step_content[OF g(5), of "PageId (rm_fd st) r"] op cp that by (cases "r = p") (auto simp: rm_held_def)
  have qpos: "0 < bp_pins b1 ?qid" using g(6) pool.pins_nonneg[OF W(2), of ?qid] by simp
  let ?st1 = "st\<lparr>rm_pool := b1\<rparr>"
  have step: "file_step (rm_fd st) (rm_pool st0) b1"
    by (rule file_step_trans[OF _ file_step_page[OF g(5,7,8)]]) (use held in \<open>auto simp: rm_held_def\<close>)
  have keep: "rm_held st0 (st\<lparr>rm_pool := b2\<rparr>) f p h pg' \<and> bp_room b2"
    if b2: "bp_inv W b2" "bp_content b2 = (bp_content b1)(?qid \<mapsto> pg' q)" "find_frame b2 = find_frame b1" "bp_pins b2 = bp_pins ?b"
      "bp_disk b2 = bp_disk b1" "pool_size b2 = pool_size b1" "\<And>r. r \<noteq> q \<Longrightarrow> pg' r = pg r" for b2 pg'
  proof -
    have "file_step (rm_fd st) (rm_pool st0) b2" by (rule file_step_write[OF step b2(2,5,6,3)])
    moreover have "bp_room b2" using room b2(4,6) g(5) by (simp add: bp_room_def pool_step_def)
    moreover have "pg_data (page_at b2 f) = pg' p" using cached(1)[of b2 ?pid f] b2(2,3,7) f1 cp q(2) by simp
    moreover have "\<forall>r. PageId (rm_fd st) r \<in> bp_cached b2 \<longrightarrow> r < num_pages h"
    proof -
      have "bp_cached b2 \<subseteq> insert ?qid (bp_cached ?b)" using g(8) b2(3) by (simp add: bp_cached_def)
      then show ?thesis using held q(1) by (auto simp: rm_held_def page_in_def)
    qed
    moreover have "\<forall>r. page_in h r \<longrightarrow> r \<noteq> p \<longrightarrow> bp_content b2 (PageId (rm_fd st) r) = Some (pg' r)"
      using b2(2,7) cont by auto
    ultimately show ?thesis
      using held b2(1,3-6) W(1) f1 g(7) unfolding rm_held_def by auto
  qed
  have nq: "?qid \<notin> W" "W - {?qid} = W" "insert ?qid W - {?qid} = W" using W(1) q(2) by auto
  show thesis
  proof (rule that[of g ?st1])
    show "fetch_page_handle q st = (Inr g, ?st1)"
      using on_pool_eq[of "fetch_page ?qid" st, OF g(1)] q(1) hd by (simp add: fetch_page_handle_def page_in_def bindE_def)
    show "pg_data (page_at (rm_pool ?st1) g) = pg q" using cached(1)[OF g(3)] g(4) by simp
    show "pg_data (page_at (rm_pool ?st1) f) = pg p" using cached(1)[OF f1] cp by simp
    obtain b2 where b2: "unpin_page ?qid False b1 = (Inr True, b2)" "bp_inv (W - {?qid}) b2"
      "bp_content b2 = bp_content b1" "bp_pins b2 = (bp_pins b1)(?qid := bp_pins b1 ?qid - 1)"
      "bp_disk b2 = bp_disk b1" "pool_size b2 = pool_size b1" "find_frame b2 = find_frame b1"
      by (rule unpin_page_ok[OF g(2) qpos disjI2[OF nq(1)]])
    have "bp_content b2 = (bp_content b1)(?qid \<mapsto> pg q)" using b2(3) g(4) by auto
    moreover have "bp_pins b2 = bp_pins ?b" using b2(4) g(6) by auto
    ultimately have "rm_held st0 (st\<lparr>rm_pool := b2\<rparr>) f p h pg \<and> bp_room b2"
      using b2(2,5-7) nq(2) by (intro keep) auto
    then show "\<exists>st2. unpin_handle q False ?st1 = (Inr True, st2) \<and> rm_held st0 st2 f p h pg \<and> bp_room (rm_pool st2)"
      using b2(1) by (auto simp: unpin_handle_eq on_pool_def)
    show "\<forall>d. length d = PAGE_SIZE \<longrightarrow> (\<exists>st2. unpin_handle q True (?st1\<lparr>rm_pool := write_data g d (rm_pool ?st1)\<rparr>) =
        (Inr True, st2) \<and> rm_held st0 st2 f p h (pg(q := d)) \<and> bp_room (rm_pool st2))"
    proof (intro allI impI)
      fix d :: bytes
      assume len: "length d = PAGE_SIZE"
      note w = write_data_ok[OF g(2) qpos g(3) len]
      have wpos: "0 < bp_pins (write_data g d b1) ?qid" using w(4) qpos by simp
      obtain b2 where b2: "unpin_page ?qid True (write_data g d b1) = (Inr True, b2)" "bp_inv (insert ?qid W - {?qid}) b2"
        "bp_content b2 = bp_content (write_data g d b1)"
        "bp_pins b2 = (bp_pins (write_data g d b1))(?qid := bp_pins (write_data g d b1) ?qid - 1)"
        "bp_disk b2 = bp_disk (write_data g d b1)" "pool_size b2 = pool_size (write_data g d b1)"
        "find_frame b2 = find_frame (write_data g d b1)"
        by (rule unpin_page_ok[OF w(1) wpos disjI1[OF TrueI]])
      have "bp_pins b2 = bp_pins ?b" using b2(4) w(4) g(6) by auto
      then have "rm_held st0 (st\<lparr>rm_pool := b2\<rparr>) f p h (pg(q := d)) \<and> bp_room b2"
        using b2(2,3,5-7) w nq(3) by (intro keep) auto
      then show "\<exists>st2. unpin_handle q True (?st1\<lparr>rm_pool := write_data g d (rm_pool ?st1)\<rparr>) =
        (Inr True, st2) \<and> rm_held st0 st2 f p h (pg(q := d)) \<and> bp_room (rm_pool st2)"
        using b2(1) by (auto simp: unpin_handle_eq on_pool_def)
    qed
  qed
qed

text \<open>The search ends, and takes the page out of the list if it is there.\<close>

lemma unlink_free_rel:
  assumes "rm_held st0 st f p h pg" "bp_room (rm_pool st)" "free_chain pg prev qs" "\<forall>q \<in> set qs. page_in h q"
    "prev \<noteq> p" "length qs \<le> fuel" "\<And>q. page_in h q \<Longrightarrow> length (pg q) = PAGE_SIZE" "layout_ok h"
  shows "\<exists>st'. unlink_free fuel f p prev st = (Inr True, st') \<and>
    (p \<notin> set qs \<and> rm_held st0 st' f p h pg \<or>
     (\<exists>as q bs. qs = as @ q # p # bs \<and> rm_held st0 st' f p h
        (pg(q := set_next_free_page_no (next_free_page_no (pg p)) (pg q), p := set_next_free_page_no RM_NO_PAGE (pg p)))))"
  using assms
proof (induction qs arbitrary: prev fuel st)
  case Nil
  then show ?case by (cases fuel) auto
next
  case (Cons q qs)
  then obtain n where n: "fuel = Suc n" "length qs \<le> n" by (cases fuel) auto
  have q: "prev = q" "page_in h q" "q \<noteq> p" "free_chain pg (next_free_page_no (pg q)) qs" "q \<noteq> RM_NO_PAGE"
    using Cons.prems(3-5) by (auto simp: page_in_def)
  obtain g st1 where g: "fetch_page_handle q st = (Inr g, st1)" "pg_data (page_at (rm_pool st1) g) = pg q"
    "pg_data (page_at (rm_pool st1) f) = pg p"
    "\<exists>st2. unpin_handle q False st1 = (Inr True, st2) \<and> rm_held st0 st2 f p h pg \<and> bp_room (rm_pool st2)"
    "\<forall>d. length d = PAGE_SIZE \<longrightarrow> (\<exists>st2. unpin_handle q True (st1\<lparr>rm_pool := write_data g d (rm_pool st1)\<rparr>) =
        (Inr True, st2) \<and> rm_held st0 st2 f p h (pg(q := d)) \<and> bp_room (rm_pool st2))"
    by (rule held_other[OF Cons.prems(1) q(2,3) Cons.prems(2)])
  note run = bindE_Inr thenE_Inr page_data_def
  show ?case
  proof (cases "next_free_page_no (pg q) = p")
    case False
    from g(4) obtain st2 where st2: "unpin_handle q False st1 = (Inr True, st2)" "rm_held st0 st2 f p h pg" "bp_room (rm_pool st2)"
      by blast
    have "unlink_free fuel f p prev st = unlink_free n f p (next_free_page_no (pg q)) st2"
      using q(1,5) g(1,2) st2(1) False by (simp add: n(1) run)
    moreover have all: "\<forall>q \<in> set qs. page_in h q" using Cons.prems(4) by simp
    from Cons.IH[OF st2(2,3) q(4) all False n(2) Cons.prems(7,8)] obtain st' where
      "unlink_free n f p (next_free_page_no (pg q)) st2 = (Inr True, st')"
      "p \<notin> set qs \<and> rm_held st0 st' f p h pg \<or>
       (\<exists>as r bs. qs = as @ r # p # bs \<and> rm_held st0 st' f p h
        (pg(r := set_next_free_page_no (next_free_page_no (pg p)) (pg r), p := set_next_free_page_no RM_NO_PAGE (pg p))))"
      by blast
    moreover have "\<exists>as' r bs'. q # as @ r # p # bs = as' @ r # p # bs'" for as r bs by (metis append_Cons)
    ultimately show ?thesis using q(3) by (intro exI[of _ st']) (metis append_Cons set_ConsD)
  next
    case True
    have pn: "p \<noteq> RM_NO_PAGE" using heldD(3)[OF Cons.prems(1)] by (auto simp: page_in_def)
    with q(4) True free_chain_Cons obtain bs where bs: "qs = p # bs" by blast
    let ?dq = "set_next_free_page_no (next_free_page_no (pg p)) (pg q)" and ?dp = "set_next_free_page_no RM_NO_PAGE (pg p)"
    have lq: "length ?dq = PAGE_SIZE" "length ?dp = PAGE_SIZE"
      using set_next_free_reads(1)[OF Cons.prems(7)[OF q(2)] Cons.prems(8)]
        set_next_free_reads(1)[OF Cons.prems(7)[OF heldD(3)[OF Cons.prems(1)]] Cons.prems(8)] by blast+
    from g(5) lq(1) obtain st2 where st2: "unpin_handle q True (st1\<lparr>rm_pool := write_data g ?dq (rm_pool st1)\<rparr>) = (Inr True, st2)"
      "rm_held st0 st2 f p h (pg(q := ?dq))" "bp_room (rm_pool st2)" by blast
    note he = held_edit[OF st2(2) lq(2)]
    have "unlink_free fuel f p prev st = (Inr True, st2\<lparr>rm_pool := write_data f ?dp (rm_pool st2)\<rparr>)"
      using q(1,3,5) g(1-3) st2(1) True heldD(2)[OF st2(2)] by (simp add: n(1) run edit_page_def)
    moreover have "q # qs = [] @ q # p # bs" using bs by simp
    ultimately show ?thesis using he by blast
  qed
qed

lemma free_chain_unlink:
  assumes "free_chain pg x (as @ q # p # bs)" "distinct (as @ q # p # bs)" "next_free_page_no dq = next_free_page_no (pg p)"
  shows "free_chain (pg(q := dq, p := d)) x (as @ q # bs)"
  using assms
proof (induction as arbitrary: x)
  case Nil
  then have "free_chain (pg(q := dq, p := d)) y bs = free_chain pg y bs" for y by (intro free_chain_cong) auto
  with Nil show ?case by (auto simp del: fun_upd_apply simp: fun_upd_other fun_upd_same)
next
  case (Cons a as)
  then show ?case by auto
qed

text \<open>A page that is full now leaves the list, wherever it was.\<close>

lemma file_wf_unlink:
  assumes wf: "file_wf L h pg" and ps: "distinct (as @ q # p # bs)" "free_chain pg (first_free_page_no h) (as @ q # p # bs)"
    "set (as @ q # p # bs) \<subseteq> free_pages h pg" "free_pages h pg \<subseteq> set (as @ q # p # bs) \<union> L"
    and d: "page_wf h d" "\<not> num_records d < num_records_per_page h"
    and dq: "page_wf h dq" "next_free_page_no dq = next_free_page_no (pg p)" "num_records dq = num_records (pg q)"
  shows "file_wf L h (pg(q := dq, p := d))"
proof (rule file_wfI)
  show "free_chain (pg(q := dq, p := d)) (first_free_page_no h) (as @ q # bs)"
    by (rule free_chain_unlink[OF ps(2,1) dq(2)])
  show "set (as @ q # bs) \<subseteq> free_pages h (pg(q := dq, p := d))" "free_pages h (pg(q := dq, p := d)) \<subseteq> set (as @ q # bs) \<union> L"
    using ps d(2) dq(3) by (auto simp: free_pages_def)
  show "distinct (as @ q # bs)" using ps(1) by auto
qed (use file_wfD[OF wf] d(1) dq(1) in auto)

lemma file_wf_unlisted:
  assumes wf: "file_wf L h pg" and ps: "distinct ps" "free_chain pg (first_free_page_no h) ps"
    "set ps \<subseteq> free_pages h pg" "free_pages h pg \<subseteq> set ps \<union> L" "p \<notin> set ps"
    and d: "page_wf h d" "\<not> num_records d < num_records_per_page h"
  shows "file_wf L h (pg(p := d))"
proof (rule file_wfI)
  show "free_chain (pg(p := d)) (first_free_page_no h) ps" using ps(2,5) by (simp add: free_chain_upd)
  show "set ps \<subseteq> free_pages h (pg(p := d))" "free_pages h (pg(p := d)) \<subseteq> set ps \<union> L"
    using ps d(2) by (auto simp: free_pages_def)
qed (use file_wfD[OF wf] d(1) ps(1) in auto)

lemma free_list_short:
  assumes "distinct ps" "set ps \<subseteq> free_pages h pg" shows "length ps \<le> nat (num_pages h)"
proof -
  have "set ps \<subseteq> {1..<num_pages h}" using assms(2) by (auto simp: free_pages_def page_in_def)
  from card_mono[OF _ this] assms(1) show ?thesis by (simp add: distinct_card)
qed

lemma set_next_free_page:
  assumes wf: "page_wf h d" and lay: "layout_ok h"
  shows "page_wf h (set_next_free_page_no v d)" "page_rec h (set_next_free_page_no v d) = page_rec h d"
    "num_records (set_next_free_page_no v d) = num_records d"
    "int32 v \<Longrightarrow> next_free_page_no (set_next_free_page_no v d) = v" "length (set_next_free_page_no v d) = PAGE_SIZE"
proof -
  have len: "length d = PAGE_SIZE" using wf by (simp add: page_wf_def)
  note n = set_next_free_reads[OF len lay, where v = v]
  show rc: "page_rec h (set_next_free_page_no v d) = page_rec h d" using n(4,5) by (auto simp: page_rec_def fun_eq_iff)
  show "page_wf h (set_next_free_page_no v d)" using wf n(1,3) by (simp add: page_wf_def rc)
  show "num_records (set_next_free_page_no v d) = num_records d" by (rule n(3))
  show "int32 v \<Longrightarrow> next_free_page_no (set_next_free_page_no v d) = v" by (rule n(2))
  show "length (set_next_free_page_no v d) = PAGE_SIZE" by (rule n(1))
qed

lemma chain_next_int32:
  assumes wf: "file_wf L h pg" and c: "free_chain pg x (as @ p # bs)" "set (as @ p # bs) \<subseteq> free_pages h pg"
  shows "int32 (next_free_page_no (pg p))"
proof -
  have "free_chain pg (next_free_page_no (pg p)) bs" using c(1) by (induction as arbitrary: x) auto
  then show ?thesis using c(2) page_in_int32[OF wf] by (cases bs) (auto simp: free_pages_def int32_def)
qed

lemma held_release_same:
  assumes held: "rm_held st0 st f p h pg" and len: "length (pg p) = PAGE_SIZE"
  obtains st' where "unpin_handle p True st = (Inr True, st')" "rm_rel st' h pg" "rm_frame st0 st'"
proof -
  have "upd_page f (\<lambda>p. p\<lparr>pg_data := pg_data (page_at (rm_pool st) f)\<rparr>) (rm_pool st) = rm_pool st"
    by (rule upd_page_id) simp
  then have "write_data f (pg p) (rm_pool st) = rm_pool st" using heldD(2)[OF held] by (simp add: write_data_def)
  then have st: "st\<lparr>rm_hdr := h, rm_pool := write_data f (pg p) (rm_pool st)\<rparr> = st" using heldD(1)[OF held] by simp
  show thesis by (rule held_release[OF held len hdr_grow_refl(1) refl]) (use that st in simp)
qed

lemma insert_record_at_rel:
  assumes rel: "rm_rel st h pg" and wf: "file_wf L h pg" and rid: "rid_ok h rid" and room: "bp_room2 (rm_pool st)"
    and buf: "length buf = nat (record_size h)" and fuel: "nat (num_pages h) \<le> fuel"
  shows "\<exists>st' h' pg'. insert_record_at fuel rid buf st = (Inr True, st') \<and> rm_rel st' h' pg' \<and> file_wf L h' pg' \<and>
     file_rec h' pg' = (file_rec h pg)(rid \<mapsto> buf) \<and> rm_frame st st'"
proof -
  let ?p = "rid_page_no rid" and ?s = "rid_slot_no rid"
  have p: "page_in h ?p" and s: "slot_ok h ?s" using rid by (simp_all add: rid_ok_def)
  note lay = file_wfD(1)[OF wf] and pw = file_wfD(3)[OF wf p]
  obtain f st1 where f: "fetch_page_handle ?p st = (Inr f, st1)" "rm_held st st1 f ?p h pg"
    by (rule fetch_page_handle_ok[OF rel p])
  define d where "d = ins_at_page h ?s buf (pg ?p)"
  note d = ins_at_page_ok[OF pw lay s buf d_def]
  have len: "length d = PAGE_SIZE" using d(1) by (simp add: page_wf_def)
  note hd = heldD[OF f(2)] and he = held_edit[OF f(2) len]
  let ?st2 = "st1\<lparr>rm_pool := write_data f d (rm_pool st1)\<rparr>"
  have fr: "file_rec h pg' = (file_rec h pg)(rid \<mapsto> buf)"
    if "page_rec h (pg' ?p) = page_rec h d" "\<And>q. q \<noteq> ?p \<Longrightarrow> page_rec h (pg' q) = page_rec h (pg q)" for pg'
  proof (intro ext)
    fix x
    show "file_rec h pg' x = ((file_rec h pg)(rid \<mapsto> buf)) x"
      using that d(2) p Rid.expand[of x rid] by (cases "rid_page_no x = ?p") (auto simp: file_rec_def)
  qed
  note run = insert_record_at_def bindE_Inr thenE_Inr page_data_def edit_page_def edit_hdr_def
  have r2: "bp_room (rm_pool ?st2)"
    using held_room[OF he room] rel by (simp add: rm_rel_def)
  obtain ps where ps: "distinct ps" "free_chain pg (first_free_page_no h) ps" "set ps \<subseteq> free_pages h pg"
    "free_pages h pg \<subseteq> set ps \<union> L" by (rule file_wf_chain[OF wf])
  consider (room) "num_records d \<noteq> num_records_per_page h"
    | (head) "num_records d = num_records_per_page h" "first_free_page_no h = ?p"
    | (inner) "num_records d = num_records_per_page h" "first_free_page_no h \<noteq> ?p" by blast
  then show ?thesis
  proof cases
    case room
    obtain st' where st': "unpin_handle ?p True ?st2 = (Inr True, st')" "rm_rel st' h (pg(?p := d))" "rm_frame st st'"
      by (rule held_release_same[OF he]) (simp add: len)
    have "num_records d \<le> num_records_per_page h" by (rule num_records_int32(2)[OF lay d(1)])
    with room d have "file_wf L h (pg(?p := d))" by (intro file_wf_same[OF wf p]) auto
    moreover have "insert_record_at fuel rid buf st = (Inr True, st')"
      using f(1) st'(1) hd room by (simp add: run flip: d_def)
    ultimately show ?thesis using st'(2,3) fr[of "pg(?p := d)"] by auto
  next
    case head
    let ?d = "set_next_free_page_no RM_NO_PAGE d" and ?h = "h\<lparr>first_free_page_no := next_free_page_no d\<rparr>"
    note n = set_next_free_page[OF d(1) lay, of RM_NO_PAGE]
    obtain st' where st': "unpin_handle ?p True (st1\<lparr>rm_hdr := ?h, rm_pool := write_data f ?d (rm_pool st1)\<rparr>) = (Inr True, st')"
      "rm_rel st' ?h (pg(?p := ?d))" "rm_frame st st'" by (rule held_release[OF f(2) n(5), of ?h]) simp_all
    have "insert_record_at fuel rid buf st = (Inr True, st')"
      using f(1) st'(1) hd head by (simp add: run write_data_twice rm_upd_comm flip: d_def)
    moreover have "?p \<noteq> RM_NO_PAGE" using p by (auto simp: page_in_def)
    then have "file_wf L ?h (pg(?p := ?d))" using file_wf_fill(2)[OF wf head(2) _ n(1)] n(3) head(1) d(4) by simp
    moreover have "file_rec ?h (pg(?p := ?d)) = (file_rec h pg)(rid \<mapsto> buf)" using fr[of "pg(?p := ?d)"] n(2) by simp
    ultimately show ?thesis using st'(2,3) by blast
  next
    case inner
    have c: "free_chain (pg(?p := d)) (first_free_page_no h) ps"
      using ps(2) d(4) free_chain_cong[of ps pg "pg(?p := d)"] by auto
    have fu: "length ps \<le> fuel" using free_list_short[OF ps(1,3)] fuel by simp
    have lq: "length ((pg(?p := d)) q) = PAGE_SIZE" if "page_in h q" for q
      using file_wfD(3)[OF wf that] len by (simp add: page_wf_def)
    have all: "\<forall>q \<in> set ps. page_in h q" using ps(3) by (auto simp: free_pages_def)
    from unlink_free_rel[OF he r2 c all inner(2) fu lq lay, unfolded fun_upd_same] obtain st3 where
      u: "unlink_free fuel f ?p (first_free_page_no h) ?st2 = (Inr True, st3)" and
      cs: "?p \<notin> set ps \<and> rm_held st st3 f ?p h (pg(?p := d)) \<or>
       (\<exists>as q bs. ps = as @ q # ?p # bs \<and> rm_held st st3 f ?p h
        (pg(?p := d, q := set_next_free_page_no (next_free_page_no d) ((pg(?p := d)) q), ?p := set_next_free_page_no RM_NO_PAGE d)))"
      by blast
    have "\<exists>pg'. rm_held st st3 f ?p h pg' \<and> file_wf L h pg' \<and> file_rec h pg' = (file_rec h pg)(rid \<mapsto> buf) \<and> length (pg' ?p) = PAGE_SIZE"
      using cs
    proof (elim disjE conjE exE)
      assume a: "?p \<notin> set ps" "rm_held st st3 f ?p h (pg(?p := d))"
      then show ?thesis
        using file_wf_unlisted[OF wf ps a(1) d(1)] inner(1) fr[of "pg(?p := d)"] len by (intro exI[of _ "pg(?p := d)"]) simp
    next
      fix as q bs
      assume a: "ps = as @ q # ?p # bs" and hl: "rm_held st st3 f ?p h
        (pg(?p := d, q := set_next_free_page_no (next_free_page_no d) ((pg(?p := d)) q), ?p := set_next_free_page_no RM_NO_PAGE d))"
      let ?dq = "set_next_free_page_no (next_free_page_no d) (pg q)" and ?d = "set_next_free_page_no RM_NO_PAGE d"
      have qp: "q \<noteq> ?p" "page_in h q" using ps(1) all a by auto
      have i: "int32 (next_free_page_no d)"
        using chain_next_int32[OF wf, of "first_free_page_no h" "as @ [q]" ?p bs] ps(2,3) d(4) by (simp add: a)
      note n = set_next_free_page[OF d(1) lay, of RM_NO_PAGE]
        and m = set_next_free_page[OF file_wfD(3)[OF wf qp(2)] lay, of "next_free_page_no d"]
      have eq: "pg(?p := d, q := set_next_free_page_no (next_free_page_no d) ((pg(?p := d)) q), ?p := ?d) = pg(q := ?dq, ?p := ?d)"
        using qp(1) by auto
      have "file_wf L h (pg(q := ?dq, ?p := ?d))"
        using file_wf_unlink[OF wf ps[unfolded a] n(1) _ m(1)] n(3) inner(1) m(3) m(4)[OF i] d(4) by simp
      then show ?thesis using hl fr[of "pg(q := ?dq, ?p := ?d)"] n(2,5) m(2) qp(1) unfolding eq by (intro exI[of _ "pg(q := ?dq, ?p := ?d)"]) simp
    qed
    then obtain pg' where g: "rm_held st st3 f ?p h pg'" "file_wf L h pg'" "file_rec h pg' = (file_rec h pg)(rid \<mapsto> buf)" "length (pg' ?p) = PAGE_SIZE"
      by blast
    obtain st' where st': "unpin_handle ?p True st3 = (Inr True, st')" "rm_rel st' h pg'" "rm_frame st st'"
      by (rule held_release_same[OF g(1,4)])
    have "insert_record_at fuel rid buf st = (Inr True, st')"
      using f(1) st'(1) hd inner u by (simp add: run flip: d_def)
    then show ?thesis using st'(2,3) g(2,3) by blast
  qed
qed

text \<open>More fuel does not change the outcome of a search that ended.\<close>

lemma unlink_free_mono:
  "unlink_free n f p prev st = (Inr True, st') \<Longrightarrow> n \<le> m \<Longrightarrow> unlink_free m f p prev st = (Inr True, st')"
proof (induction n arbitrary: m prev st)
  case 0
  then show ?case by (cases m) auto
next
  case (Suc n)
  then obtain k where k: "m = Suc k" "n \<le> k" by (cases m) auto
  note ih = Suc.IH[OF _ k(2)]
  from Suc.prems(1) show ?case
    by (auto simp: k(1) bindE_eq_Inr thenE_eq_Inr ih split: if_splits)
qed

lemma insert_record_at_mono:
  "insert_record_at n rid buf st = (Inr True, st') \<Longrightarrow> n \<le> m \<Longrightarrow> insert_record_at m rid buf st = (Inr True, st')"
  unfolding insert_record_at_def
proof (elim bindE_rest thenE_rest, goal_cases)
  case (1 f st1 h st2 st3 d st4)
  then show ?case
    by (auto simp: bindE_eq_Inr[of "unlink_free n f (rid_page_no rid) (first_free_page_no h)"]
        bindE_eq_Inr[of "unlink_free m f (rid_page_no rid) (first_free_page_no h)"] thenE_eq_Inr
        split: if_splits dest!: unlink_free_mono[of n _ _ _ _ _ m]) (rule exI[of _ True], simp)
qed

section \<open>Scanning\<close>

definition rid_less :: "Rid \<Rightarrow> Rid \<Rightarrow> bool" where
  "rid_less a b \<longleftrightarrow> rid_page_no a < rid_page_no b \<or>
     rid_page_no a = rid_page_no b \<and> rid_slot_no a < rid_slot_no b"

text \<open>The position a scan moves to: the first record after \<open>rid\<close>, or the end.\<close>

definition next_rid :: "RmFileHdr \<Rightarrow> (int \<Rightarrow> bytes) \<Rightarrow> Rid \<Rightarrow> Rid \<Rightarrow> bool" where
  "next_rid h pg rid rid' \<longleftrightarrow>
     (rid' = Rid (num_pages h) (-1) \<or> file_rec h pg rid' \<noteq> None \<and> rid_less rid rid') \<and>
     (\<forall>r. file_rec h pg r \<noteq> None \<longrightarrow> rid_less rid r \<longrightarrow> r = rid' \<or> rid_less rid' r)"

lemma file_rec_SomeD: "file_rec h pg r \<noteq> None \<Longrightarrow> page_in h (rid_page_no r) \<and> slot_ok h (rid_slot_no r) \<and>
    is_set (page_bitmap (pg (rid_page_no r))) (rid_slot_no r)"
  by (auto simp: file_rec_def page_rec_def slot_used_def split: if_splits)

lemma next_rid_end:
  assumes "num_pages h \<le> rid_page_no rid"
  shows "next_rid h pg rid (Rid (num_pages h) (-1))"
proof -
  have "\<not> rid_less rid r" if "file_rec h pg r \<noteq> None" for r
    using file_rec_SomeD[OF that] assms by (auto simp: rid_less_def page_in_def)
  then show ?thesis by (auto simp: next_rid_def)
qed

lemma next_rid_here:
  assumes "page_in h p" "n = next_bit True (page_bitmap (pg p)) (num_records_per_page h) s"
    "n < num_records_per_page h" "-1 \<le> s" "s < num_records_per_page h"
  shows "next_rid h pg (Rid p s) (Rid p n)"
proof -
  have nb: "s < n" "is_set (page_bitmap (pg p)) n" "\<And>j. s < j \<Longrightarrow> j < n \<Longrightarrow> \<not> is_set (page_bitmap (pg p)) j"
    using next_bit_spec[OF assms(5), of True "page_bitmap (pg p)"] assms(2,3) by auto
  have "file_rec h pg (Rid p n) \<noteq> None"
    using assms nb by (simp add: file_rec_def page_rec_def slot_ok_def slot_used_def)
  moreover have "r = Rid p n \<or> rid_less (Rid p n) r" if "file_rec h pg r \<noteq> None" "rid_less (Rid p s) r" for r
    using file_rec_SomeD[OF that(1)] that(2) nb(3)[of "rid_slot_no r"] Rid.expand[of r "Rid p n"] linorder_less_linear[of n "rid_slot_no r"]
    by (force simp: rid_less_def)
  ultimately show ?thesis using nb(1) by (simp add: next_rid_def rid_less_def)
qed

lemma next_rid_skip:
  assumes "page_in h p" "next_bit True (page_bitmap (pg p)) (num_records_per_page h) s = num_records_per_page h"
    "s < num_records_per_page h" "next_rid h pg (Rid (p + 1) (-1)) rid'"
  shows "next_rid h pg (Rid p s) rid'"
proof -
  have nb: "\<And>j. s < j \<Longrightarrow> j < num_records_per_page h \<Longrightarrow> \<not> is_set (page_bitmap (pg p)) j"
    using next_bit_spec[OF assms(3), of True "page_bitmap (pg p)"] assms(2) by auto
  have "rid_less (Rid (p + 1) (-1)) r" if "file_rec h pg r \<noteq> None" "rid_less (Rid p s) r" for r
    using file_rec_SomeD[OF that(1)] that(2) nb[of "rid_slot_no r"] by (auto simp: rid_less_def slot_ok_def)
  moreover have "rid_less (Rid p s) r" if "rid_less (Rid (p + 1) (-1)) r" for r
    using that by (auto simp: rid_less_def)
  ultimately show ?thesis using assms(4) by (auto simp: next_rid_def)
qed

lemma scan_loop_rel:
  assumes "rm_rel st h pg" "file_wf L h pg" "1 \<le> p" "-1 \<le> s" "s < num_records_per_page h"
  shows "\<exists>rid' st'. scan_loop h p s st = (Inr rid', st') \<and> rm_rel st' h pg \<and> rm_frame st st' \<and> next_rid h pg (Rid p s) rid'"
  using assms
proof (induction h p s arbitrary: st rule: scan_loop.induct)
  case (1 h p s)
  show ?case
  proof (cases "p < num_pages h")
    case False
    with 1(2) next_rid_end[of h "Rid p s" pg] show ?thesis by (subst scan_loop.simps) auto
  next
    case True
    then have p: "page_in h p" using 1(4) by (simp add: page_in_def)
    obtain f st1 st2 where r: "fetch_page_handle p st = (Inr f, st1)"
      "pg_data (page_at (rm_pool st1) f) = pg p" "rm_hdr st1 = h"
      "unpin_handle p False st1 = (Inr True, st2)" "rm_rel st2 h pg" "rm_frame st st2"
      by (rule read_handle[OF 1(2) p])
    let ?n = "next_bit True (page_bitmap (pg p)) (num_records_per_page h) s"
    have step: "scan_loop h p s st = (if ?n < num_records_per_page h then (Inr (Rid p ?n), st2)
        else scan_loop h (p + 1) (-1) st2)"
      using True r by (subst scan_loop.simps) (simp add: bindE_Inr thenE_Inr page_data_def Let_def)
    show ?thesis
    proof (cases "?n < num_records_per_page h")
      case True
      with step r(5,6) next_rid_here[OF p _ True 1(5,6)] show ?thesis by auto
    next
      case False
      then have eq: "?n = num_records_per_page h"
        using next_bit_spec[OF 1(6), of True "page_bitmap (pg p)"] by auto
      have n1: "-1 < num_records_per_page h" using layout_bounds[OF file_wfD(1)[OF 1(3)]] by simp
      from 1(1)[OF True refl _ r(5) 1(3), of "pg p"] 1(4) n1 False obtain rid' st' where
        "scan_loop h (p + 1) (-1) st2 = (Inr rid', st')" "rm_rel st' h pg" "rm_frame st2 st'"
        "next_rid h pg (Rid (p + 1) (-1)) rid'" by auto
      with step False next_rid_skip[where h = h and p = p and pg = pg and s = s, OF p eq 1(6)] rm_frame_trans[OF r(6)] show ?thesis by auto
    qed
  qed
qed

lemma scan_next_rel:
  assumes "rm_rel st h pg" "file_wf L h pg" "file_rec h pg rid \<noteq> None"
  shows "\<exists>rid' st'. scan_next rid st = (Inr rid', st') \<and> rm_rel st' h pg \<and> rm_frame st st' \<and> next_rid h pg rid rid'"
  using scan_loop_rel[OF assms(1,2), of "rid_page_no rid" "rid_slot_no rid"] file_rec_SomeD[OF assms(3)] assms(1)
  by (auto simp: scan_next_def scan_is_end_def rm_rel_def page_in_def slot_ok_def)

lemma RmScan_rel:
  assumes "rm_rel st h pg" "file_wf L h pg"
  shows "\<exists>rid' st'. RmScan st = (Inr rid', st') \<and> rm_rel st' h pg \<and> rm_frame st st' \<and> next_rid h pg (Rid 0 (-1)) rid'"
proof (cases "num_pages h \<le> 1")
  case True
  then have "file_rec h pg r = None" for r by (auto simp: file_rec_def page_in_def)
  with True assms(1) show ?thesis by (auto simp: RmScan_def rm_rel_def next_rid_def)
next
  case False
  have n1: "-1 < num_records_per_page h" using layout_bounds[OF file_wfD(1)[OF assms(2)]] by simp
  have "rid_less (Rid 1 (-1)) r \<and> rid_less (Rid 0 (-1)) r" if "file_rec h pg r \<noteq> None" for r
    using file_rec_SomeD[OF that] by (auto simp: rid_less_def slot_ok_def page_in_def)
  then have "next_rid h pg (Rid 1 (-1)) r \<Longrightarrow> next_rid h pg (Rid 0 (-1)) r" for r
    by (auto simp: next_rid_def)
  with scan_loop_rel[OF assms, of 1 "-1"] n1 False assms(1) show ?thesis
    by (auto simp: RmScan_def scan_next_def scan_is_end_def rm_rel_def)
qed

section \<open>Properties\<close>

text \<open>What a handle in a consistent state stands for: a map from record identifiers to records.\<close>

definition rm_pages :: "rm_state \<Rightarrow> int \<Rightarrow> bytes" where
  "rm_pages st p = the (bp_content (rm_pool st) (PageId (rm_fd st) p))"

definition rm_ok :: "int set \<Rightarrow> rm_state \<Rightarrow> bool" where
  "rm_ok L st \<longleftrightarrow> rm_rel st (rm_hdr st) (rm_pages st) \<and> file_wf L (rm_hdr st) (rm_pages st)"

definition rm_records :: "rm_state \<Rightarrow> Rid \<rightharpoonup> bytes" where
  "rm_records st = file_rec (rm_hdr st) (rm_pages st)"

lemma file_wf_cong:
  assumes "\<And>p. page_in h p \<Longrightarrow> pg' p = pg p"
  shows "file_wf L h pg = file_wf L h pg'" "file_rec h pg = file_rec h pg'"
proof -
  have fp: "free_pages h pg = free_pages h pg'" using assms by (auto simp: free_pages_def)
  have "set ps \<subseteq> free_pages h pg' \<Longrightarrow> free_chain pg x ps = free_chain pg' x ps" for x ps
    using assms by (intro free_chain_cong) (auto simp: free_pages_def)
  then show "file_wf L h pg = file_wf L h pg'" using assms unfolding file_wf_def fp by metis
  show "file_rec h pg = file_rec h pg'" using assms by (auto simp: file_rec_def fun_eq_iff)
qed

lemma rm_ok_rel:
  assumes "rm_rel st h pg" "file_wf L h pg"
  shows "rm_ok L st" "rm_records st = file_rec h pg"
proof -
  have h: "rm_hdr st = h" using assms(1) by (simp add: rm_rel_def)
  have eq: "rm_pages st p = pg p" if "page_in h p" for p
    using assms(1) that by (simp add: rm_rel_def rm_pages_def)
  note c = file_wf_cong[of h "rm_pages st" pg, OF eq]
  have "rm_rel st h (rm_pages st)" using assms(1) eq by (simp add: rm_rel_def)
  then show "rm_ok L st" "rm_records st = file_rec h pg" using assms(2) c h by (simp_all add: rm_ok_def rm_records_def)
qed

text \<open>An empty table of eight-byte records on a pool of two frames, for the witnesses.\<close>

definition demo_file :: rm_state where
  "demo_file = \<lparr>rm_fd = 3, rm_hdr = init_file_hdr 8,
     rm_pool = BufferPoolManager 0 2 (demo_dm\<lparr>fd2pageno := (\<lambda>_. 1)\<rparr>)\<rparr>"

lemma demo_file_rel: "rm_rel demo_file (init_file_hdr 8) pg" "file_wf L (init_file_hdr 8) pg"
proof -
  let ?b = "BufferPoolManager 0 2 (demo_dm\<lparr>fd2pageno := (\<lambda>_. 1)\<rparr>)"
  have "dm_inv (demo_dm\<lparr>fd2pageno := (\<lambda>_. 1)\<rparr>)" by (simp add: dm_inv_def demo_dm_def)
  then have "bp_inv {} ?b" by (rule bp_inv_init)
  moreover have "bp_room ?b" "bp_open ?b 3" "bp_cached ?b = {}"
    by (simp_all add: bp_room_def bp_open_def bp_cached_def BufferPoolManager_def bp_pins_def find_frame_def demo_dm_def LOG_FILE_NAME_def)
  moreover have "num_pages (init_file_hdr 8) = 1" "\<And>p. \<not> page_in (init_file_hdr 8) p"
    "fd2pageno (bp_disk ?b) 3 = 1" "first_free_page_no (init_file_hdr 8) = RM_NO_PAGE"
    by (simp_all add: init_file_hdr_def Let_def page_in_def BufferPoolManager_def)
  ultimately show "rm_rel demo_file (init_file_hdr 8) pg" "file_wf L (init_file_hdr 8) pg"
    using layout_init[of 8]
    by (auto simp: rm_rel_def demo_file_def file_wf_def free_pages_def int32_def intro!: exI[of _ "[]"])
qed

lemma demo_file_ok: "rm_ok L demo_file" "rm_records demo_file = Map.empty" "record_size (rm_hdr demo_file) = 8"
  "int32 (num_pages (rm_hdr demo_file) + 1)"
  using rm_ok_rel[OF demo_file_rel(1) demo_file_rel(2)[where L = L and pg = undefined]]
  by (auto simp: file_rec_def page_in_def init_file_hdr_def Let_def demo_file_def int32_def fun_eq_iff)

lemma insert_record_ok:
  assumes "rm_ok L st" "int32 (num_pages (rm_hdr st) + 1)" "length buf = nat (record_size (rm_hdr st))"
  shows "\<exists>rid st'. insert_record buf st = (Inr rid, st') \<and> rm_ok L st' \<and> rm_records st rid = None \<and>
    rm_records st' = (rm_records st)(rid \<mapsto> buf) \<and> rm_frame st st'"
proof -
  have r: "rm_rel st (rm_hdr st) (rm_pages st)" "file_wf L (rm_hdr st) (rm_pages st)"
    using assms(1) by (simp_all add: rm_ok_def)
  from insert_record_rel[OF r assms(2,3)] obtain rid st' h' pg' where
    i: "insert_record buf st = (Inr rid, st')" "rm_rel st' h' pg'" "file_wf L h' pg'"
    "file_rec (rm_hdr st) (rm_pages st) rid = None"
    "file_rec h' pg' = (file_rec (rm_hdr st) (rm_pages st))(rid \<mapsto> buf)" "rm_frame st st'" by blast
  from i rm_ok_rel[OF i(2,3)] show ?thesis by (auto simp: rm_records_def)
qed

text \<open>Property C9: \<open>insert_record\<close> stores the record at an identifier that held none, leaves every
  other record as it was, keeps the file well-formed (bitmaps, record counts and the linked list
  of pages with room agree), returns its pin, and touches no page of another file.\<close>

theorem insert_record_refines:
  assumes "rm_ok L st" "int32 (num_pages (rm_hdr st) + 1)" "length buf = nat (record_size (rm_hdr st))"
  shows "\<exists>rid st'. insert_record buf st = (Inr rid, st') \<and> rm_ok L st' \<and> rm_records st rid = None \<and>
    rm_records st' = (rm_records st)(rid \<mapsto> buf) \<and> rm_frame st st'"
  by (rule insert_record_ok[OF assms])

theorem insert_record_refines_witness:
  "\<exists>rid st'. insert_record (replicate 8 1) demo_file = (Inr rid, st') \<and> rm_records st' = [rid \<mapsto> replicate 8 1]"
proof -
  have "length (replicate 8 (1 :: byte)) = nat (record_size (rm_hdr demo_file))" using demo_file_ok(3) by simp
  from insert_record_refines[OF demo_file_ok(1)[where L = "{}"] demo_file_ok(4) this] demo_file_ok(2) show ?thesis by auto
qed

text \<open>A table with one record in it, for the witnesses of the other operations.\<close>

lemma demo_one:
  obtains rid st where "rm_ok L st" "rm_records st = [rid \<mapsto> replicate 8 1]" "record_size (rm_hdr st) = 8"
    "rid_ok (rm_hdr st) rid"
proof -
  have lb: "length (replicate 8 (1 :: byte)) = nat (record_size (init_file_hdr 8))" by (simp add: init_file_hdr_def Let_def)
  have sz: "int32 (num_pages (init_file_hdr 8) + 1)" by (simp add: init_file_hdr_def Let_def int32_def)
  from insert_record_rel[OF demo_file_rel(1) demo_file_rel(2)[where L = L] sz lb, of undefined] obtain rid st' h' pg' where
    i: "rm_rel st' h' pg'" "file_wf L h' pg'" "file_rec h' pg' = (file_rec (init_file_hdr 8) undefined)(rid \<mapsto> replicate 8 1)"
    by blast
  have e: "file_rec (init_file_hdr 8) undefined = Map.empty"
    by (auto simp: file_rec_def page_in_def init_file_hdr_def Let_def fun_eq_iff)
  have h: "rm_hdr st' = h'" using i(1) by (simp add: rm_rel_def)
  have some: "file_rec h' pg' rid = Some (replicate 8 1)" using i(3) by simp
  have ro: "rid_ok h' rid" using file_rec_SomeD[of h' pg' rid] some by (simp add: rid_ok_def)
  have "length (get_slot h' (rid_slot_no rid) (pg' (rid_page_no rid))) = 8"
    using some file_rec_page[OF ro] page_rec_is_set(2)[of h' "rid_slot_no rid"] ro by (simp add: rid_ok_def)
  moreover have "slot_offset h' (rid_slot_no rid) + nat (record_size h') \<le> PAGE_SIZE"
    using slot_offset_bounds(2)[OF file_wfD(1)[OF i(2)]] ro by (simp add: rid_ok_def)
  moreover have "length (pg' (rid_page_no rid)) = PAGE_SIZE"
    using file_wfD(3)[OF i(2)] ro by (simp add: rid_ok_def page_wf_def)
  ultimately have "nat (record_size h') = 8" by (simp add: get_slot_def length_mem_get)
  then have "record_size h' = 8" by simp
  with that rm_ok_rel[OF i(1,2)] i(3) e ro h show thesis by metis
qed

lemma get_record_ok:
  assumes "rm_ok L st" "rid_ok (rm_hdr st) rid"
  shows "\<exists>st'. get_record rid st = ((case rm_records st rid of
        None \<Rightarrow> Inl (RecordNotFoundError (rid_page_no rid) (rid_slot_no rid)) | Some bs \<Rightarrow> Inr bs), st') \<and>
    rm_ok L st' \<and> rm_records st' = rm_records st \<and> rm_frame st st'"
proof -
  have r: "rm_rel st (rm_hdr st) (rm_pages st)" "file_wf L (rm_hdr st) (rm_pages st)"
    using assms(1) by (simp_all add: rm_ok_def)
  from get_record_rel[OF r(1) assms(2)] rm_ok_rel[OF _ r(2)] show ?thesis
    unfolding rm_records_def[of st] by blast
qed

text \<open>Property C20: \<open>get_record\<close> returns the record stored under an identifier within the file, or
  throws \<open>RecordNotFoundError\<close> when there is none, and changes no record.\<close>

theorem get_record_returns:
  assumes "rm_ok L st" "rid_ok (rm_hdr st) rid"
  shows "\<exists>st'. get_record rid st = ((case rm_records st rid of
        None \<Rightarrow> Inl (RecordNotFoundError (rid_page_no rid) (rid_slot_no rid)) | Some bs \<Rightarrow> Inr bs), st') \<and>
    rm_ok L st' \<and> rm_records st' = rm_records st \<and> rm_frame st st'"
  by (rule get_record_ok[OF assms])

theorem get_record_returns_witness:
  "\<exists>st rid st'. rm_records st = [rid \<mapsto> replicate 8 1] \<and> get_record rid st = (Inr (replicate 8 1), st')"
proof -
  obtain rid st where d: "rm_ok {} st" "rm_records st = [rid \<mapsto> replicate 8 1]" "record_size (rm_hdr st) = 8"
    "rid_ok (rm_hdr st) rid" by (rule demo_one)
  from get_record_returns[OF d(1,4)] d(2) have "\<exists>st'. get_record rid st = (Inr (replicate 8 1), st')" by auto
  with d(2) show ?thesis by blast
qed

lemma delete_record_ok:
  assumes "rm_ok L st" "rid_ok (rm_hdr st) rid"
  shows "\<exists>st'. delete_record rid st = ((if rm_records st rid = None
        then Inl (RecordNotFoundError (rid_page_no rid) (rid_slot_no rid)) else Inr ()), st') \<and>
    rm_ok L st' \<and> rm_records st' = (rm_records st)(rid := None) \<and> rm_frame st st'"
proof -
  have r: "rm_rel st (rm_hdr st) (rm_pages st)" "file_wf L (rm_hdr st) (rm_pages st)"
    using assms(1) by (simp_all add: rm_ok_def)
  show ?thesis
  proof (cases "rm_records st rid = None")
    case True
    then have n: "file_rec (rm_hdr st) (rm_pages st) rid = None" by (simp add: rm_records_def)
    from missing_record(1)[OF r(1) assms(2) n] obtain st' where
      "delete_record rid st = (Inl (RecordNotFoundError (rid_page_no rid) (rid_slot_no rid)), st')"
      "rm_rel st' (rm_hdr st) (rm_pages st)" "rm_frame st st'" by blast
    with True rm_ok_rel[OF _ r(2), of st'] show ?thesis
      by (auto simp: rm_records_def[of st] fun_upd_idem)
  next
    case False
    then have n: "file_rec (rm_hdr st) (rm_pages st) rid \<noteq> None" by (simp add: rm_records_def)
    from delete_record_rel[OF r assms(2) n] obtain st' h' pg' where
      i: "delete_record rid st = (Inr (), st')" "rm_rel st' h' pg'" "file_wf L h' pg'"
      "file_rec h' pg' = (file_rec (rm_hdr st) (rm_pages st))(rid := None)" "rm_frame st st'" by blast
    with False rm_ok_rel[OF i(2,3)] show ?thesis by (auto simp: rm_records_def[of st])
  qed
qed

text \<open>Property C19: \<open>delete_record\<close> of a stored record removes exactly that record; of an identifier
  that holds none it throws \<open>RecordNotFoundError\<close> and changes nothing.\<close>

theorem delete_record_refines:
  assumes "rm_ok L st" "rid_ok (rm_hdr st) rid"
  shows "\<exists>st'. delete_record rid st = ((if rm_records st rid = None
        then Inl (RecordNotFoundError (rid_page_no rid) (rid_slot_no rid)) else Inr ()), st') \<and>
    rm_ok L st' \<and> rm_records st' = (rm_records st)(rid := None) \<and> rm_frame st st'"
  by (rule delete_record_ok[OF assms])

theorem delete_record_refines_witness:
  "\<exists>st rid st'. rm_records st = [rid \<mapsto> replicate 8 1] \<and> delete_record rid st = (Inr (), st') \<and>
     rm_records st' = Map.empty"
proof -
  obtain rid st where d: "rm_ok {} st" "rm_records st = [rid \<mapsto> replicate 8 1]" "record_size (rm_hdr st) = 8"
    "rid_ok (rm_hdr st) rid" by (rule demo_one)
  from delete_record_refines[OF d(1,4)] d(2)
  have "\<exists>st'. delete_record rid st = (Inr (), st') \<and> rm_records st' = Map.empty" by auto
  with d(2) show ?thesis by blast
qed

lemma update_record_ok:
  assumes "rm_ok L st" "rid_ok (rm_hdr st) rid" "rm_records st rid \<noteq> None" "length buf = nat (record_size (rm_hdr st))"
  shows "\<exists>st'. update_record rid buf st = (Inr (), st') \<and> rm_ok L st' \<and>
    rm_records st' = (rm_records st)(rid \<mapsto> buf) \<and> rm_frame st st'"
proof -
  have r: "rm_rel st (rm_hdr st) (rm_pages st)" "file_wf L (rm_hdr st) (rm_pages st)"
    using assms(1) by (simp_all add: rm_ok_def)
  have n: "file_rec (rm_hdr st) (rm_pages st) rid \<noteq> None" using assms(3) by (simp add: rm_records_def)
  from update_record_rel[OF r assms(2) n assms(4)] obtain st' pg' where
    i: "update_record rid buf st = (Inr (), st')" "rm_rel st' (rm_hdr st) pg'" "file_wf L (rm_hdr st) pg'"
    "file_rec (rm_hdr st) pg' = (file_rec (rm_hdr st) (rm_pages st))(rid \<mapsto> buf)" "rm_frame st st'" by blast
  with rm_ok_rel[OF i(2,3)] show ?thesis by (auto simp: rm_records_def[of st])
qed

text \<open>Property C21: \<open>update_record\<close> of a stored record replaces exactly that record.\<close>

theorem update_record_refines:
  assumes "rm_ok L st" "rid_ok (rm_hdr st) rid" "rm_records st rid \<noteq> None" "length buf = nat (record_size (rm_hdr st))"
  shows "\<exists>st'. update_record rid buf st = (Inr (), st') \<and> rm_ok L st' \<and>
    rm_records st' = (rm_records st)(rid \<mapsto> buf) \<and> rm_frame st st'"
  by (rule update_record_ok[OF assms])

theorem update_record_refines_witness:
  "\<exists>st rid st'. rm_records st = [rid \<mapsto> replicate 8 1] \<and> update_record rid (replicate 8 2) st = (Inr (), st') \<and>
     rm_records st' = [rid \<mapsto> replicate 8 2]"
proof -
  obtain rid st where d: "rm_ok {} st" "rm_records st = [rid \<mapsto> replicate 8 1]" "record_size (rm_hdr st) = 8"
    "rid_ok (rm_hdr st) rid" by (rule demo_one)
  have "rm_records st rid \<noteq> None" "length (replicate 8 (2 :: byte)) = nat (record_size (rm_hdr st))" using d by simp_all
  from update_record_refines[OF d(1,4) this] d(2)
  have "\<exists>st'. update_record rid (replicate 8 2) st = (Inr (), st') \<and> rm_records st' = [rid \<mapsto> replicate 8 2]" by auto
  with d(2) show ?thesis by blast
qed

lemma scan_next_ok:
  assumes "rm_ok L st" "rm_records st rid \<noteq> None"
  shows "\<exists>rid' st'. scan_next rid st = (Inr rid', st') \<and> rm_ok L st' \<and> rm_records st' = rm_records st \<and> rm_frame st st' \<and>
    (rid' = Rid (num_pages (rm_hdr st)) (-1) \<or> rm_records st rid' \<noteq> None \<and> rid_less rid rid') \<and>
    (\<forall>r \<in> dom (rm_records st). rid_less rid r \<longrightarrow> r = rid' \<or> rid_less rid' r)"
proof -
  have r: "rm_rel st (rm_hdr st) (rm_pages st)" "file_wf L (rm_hdr st) (rm_pages st)"
    using assms(1) by (simp_all add: rm_ok_def)
  from scan_next_rel[OF r assms(2)[unfolded rm_records_def]] obtain rid' st' where
    n: "scan_next rid st = (Inr rid', st')" "rm_rel st' (rm_hdr st) (rm_pages st)" "rm_frame st st'"
    "next_rid (rm_hdr st) (rm_pages st) rid rid'" by blast
  with rm_ok_rel[OF n(2) r(2)] show ?thesis
    unfolding rm_records_def[of st] next_rid_def by (intro exI[of _ rid'] exI[of _ st']) auto
qed

text \<open>A scan positioned on a record moves to the least larger identifier (by page, then
  slot) that holds a record, or to the end when there is none.\<close>

theorem scan_next_least:
  assumes "rm_ok L st" "rm_records st rid \<noteq> None"
  shows "\<exists>rid' st'. scan_next rid st = (Inr rid', st') \<and> rm_ok L st' \<and> rm_records st' = rm_records st \<and> rm_frame st st' \<and>
    (rid' = Rid (num_pages (rm_hdr st)) (-1) \<or> rm_records st rid' \<noteq> None \<and> rid_less rid rid') \<and>
    (\<forall>r \<in> dom (rm_records st). rid_less rid r \<longrightarrow> r = rid' \<or> rid_less rid' r)"
  by (rule scan_next_ok[OF assms])

theorem scan_next_least_witness:
  "\<exists>st rid st'. rm_records st = [rid \<mapsto> replicate 8 1] \<and>
     scan_next rid st = (Inr (Rid (num_pages (rm_hdr st)) (-1)), st')"
proof -
  obtain rid st where d: "rm_ok {} st" "rm_records st = [rid \<mapsto> replicate 8 1]" "record_size (rm_hdr st) = 8"
    "rid_ok (rm_hdr st) rid" by (rule demo_one)
  have "rm_records st rid \<noteq> None" using d by simp
  from scan_next_least[OF d(1) this] obtain rid' st' where
    s: "scan_next rid st = (Inr rid', st')" "rid' = Rid (num_pages (rm_hdr st)) (-1) \<or> rm_records st rid' \<noteq> None \<and> rid_less rid rid'"
    by blast
  have "\<not> rid_less rid rid" by (simp add: rid_less_def)
  with s d(2) have "rid' = Rid (num_pages (rm_hdr st)) (-1)" by (auto split: if_splits)
  with s(1) d(2) show ?thesis by blast
qed

end
