(* ===== verification/TableFiles.thy ===== *)
theory TableFiles
  imports RecordFile
begin

text \<open>
  The open record files of a database: the map \<open>fhs_\<close> of \<open>SmManager\<close> from table names to file
  handles, all on one buffer pool. An operation on one table is shown to leave the other tables,
  the tables of open files and the log file alone.
\<close>

record table_files =
  tf_fhs :: "string \<rightharpoonup> int \<times> RmFileHdr"
  tf_pool :: buffer_pool

definition handle :: "int \<Rightarrow> RmFileHdr \<Rightarrow> buffer_pool \<Rightarrow> rm_state" where
  "handle fd h b = \<lparr>rm_fd = fd, rm_hdr = h, rm_pool = b\<rparr>"

text \<open>A call on \<open>fhs_.at(table_name)\<close>.\<close>

definition on_file :: "string \<Rightarrow> (rm_state, 'a) comp \<Rightarrow> (table_files, 'a) comp" where
  "on_file tab_name m s =
     (case tf_fhs s tab_name of
        None \<Rightarrow> (Inl OutOfRange, s)
      | Some (fd, h) \<Rightarrow>
          (case m (handle fd h (tf_pool s)) of
             (r, st) \<Rightarrow> (r, s\<lparr>tf_fhs := (tf_fhs s)(tab_name \<mapsto> (rm_fd st, rm_hdr st)), tf_pool := rm_pool st\<rparr>)))"

section \<open>All tables at once\<close>

definition tables_ok :: "table_files \<Rightarrow> bool" where
  "tables_ok s \<longleftrightarrow> bp_room2 (tf_pool s) \<and>
     (\<forall>t fd h. tf_fhs s t = Some (fd, h) \<longrightarrow> rm_ok UNIV (handle fd h (tf_pool s))) \<and>
     (\<forall>t t' fd h h'. tf_fhs s t = Some (fd, h) \<longrightarrow> tf_fhs s t' = Some (fd, h') \<longrightarrow> t = t')"

definition tables_db :: "table_files \<Rightarrow> string \<Rightarrow> Rid \<rightharpoonup> bytes" where
  "tables_db s t = (case tf_fhs s t of None \<Rightarrow> Map.empty | Some (fd, h) \<Rightarrow> rm_records (handle fd h (tf_pool s)))"

definition tables_frame :: "table_files \<Rightarrow> table_files \<Rightarrow> bool" where
  "tables_frame s s' \<longleftrightarrow>
     (\<forall>t. tf_fhs s t = None \<longrightarrow> tf_fhs s' t = None) \<and>
     (\<forall>t fd h. tf_fhs s t = Some (fd, h) \<longrightarrow> (\<exists>h'. tf_fhs s' t = Some (fd, h') \<and> hdr_grow h h')) \<and>
     dm_paths (bp_disk (tf_pool s')) = dm_paths (bp_disk (tf_pool s)) \<and>
     fd2path (bp_disk (tf_pool s')) = fd2path (bp_disk (tf_pool s)) \<and>
     (dm_inv (bp_disk (tf_pool s)) \<longrightarrow> dm_inv (bp_disk (tf_pool s')))"

lemma tables_frame_refl [simp]: "tables_frame s s"
  by (simp add: tables_frame_def)

lemma tables_frameD:
  "tables_frame s s' \<Longrightarrow> tf_fhs s t = Some (fd, h) \<Longrightarrow> \<exists>h'. tf_fhs s' t = Some (fd, h') \<and> hdr_grow h h'"
  unfolding tables_frame_def by blast

lemma tables_frame_trans:
  assumes "tables_frame s s'" "tables_frame s' s''"
  shows "tables_frame s s''"
proof -
  have "\<exists>h''. tf_fhs s'' t = Some (fd, h'') \<and> hdr_grow h h''" if t: "tf_fhs s t = Some (fd, h)" for t fd h
  proof -
    obtain h' where h': "tf_fhs s' t = Some (fd, h')" "hdr_grow h h'"
      using tables_frameD[OF assms(1) t] by blast
    obtain h'' where "tf_fhs s'' t = Some (fd, h'')" "hdr_grow h' h''"
      using tables_frameD[OF assms(2) h'(1)] by blast
    then show ?thesis using hdr_grow_trans[OF h'(2)] by blast
  qed
  then show ?thesis using assms by (simp add: tables_frame_def)
qed

lemma handle_simps [simp]: "rm_fd (handle fd h b) = fd" "rm_hdr (handle fd h b) = h" "rm_pool (handle fd h b) = b"
  by (simp_all add: handle_def)

text \<open>Another file on the same pool is not affected.\<close>

lemma rm_ok_other:
  assumes ok: "rm_ok L (handle fd' h' b)" and st: "file_step fd b b1" and ne: "fd' \<noteq> fd"
    and b1: "bp_inv {} b1" "bp_room b1"
  shows "rm_ok L (handle fd' h' b1)" "rm_records (handle fd' h' b1) = rm_records (handle fd' h' b)"
proof -
  let ?pg = "rm_pages (handle fd' h' b)"
  have r: "rm_rel (handle fd' h' b) h' ?pg" "file_wf L h' ?pg" using ok by (simp_all add: rm_ok_def)
  have ps: "pool_step {pid. pid_fd pid = fd} b b1" "bp_cached b1 \<subseteq> bp_cached b \<union> {pid. pid_fd pid = fd}"
    "fd2pageno (bp_disk b1) fd' = fd2pageno (bp_disk b) fd'"
    using st ne by (auto simp: file_step_def)
  have "bp_content b1 (PageId fd' p) = Some (?pg p)" if "page_in h' p" for p
    using pool_step_content[OF ps(1), of "PageId fd' p"] r(1) ne that by (auto simp: rm_rel_def)
  then have "rm_rel (handle fd' h' b1) h' ?pg"
    using r(1) ps(2,3) ne b1 pool_step_open[OF ps(1)] by (auto simp: rm_rel_def)
  from rm_ok_rel[OF this r(2)] show "rm_ok L (handle fd' h' b1)" "rm_records (handle fd' h' b1) = rm_records (handle fd' h' b)"
    by (simp_all add: rm_records_def)
qed

lemma on_file_run:
  assumes ok: "tables_ok s" and t: "tf_fhs s t = Some (fd, h)"
    and m: "m (handle fd h (tf_pool s)) = (r, st')" "rm_ok UNIV st'" "rm_frame (handle fd h (tf_pool s)) st'"
  shows "\<exists>s'. on_file t m s = (r, s') \<and> tables_ok s' \<and> tables_db s' = (tables_db s)(t := rm_records st') \<and> tables_frame s s'"
proof -
  define s' where "s' = s\<lparr>tf_fhs := (tf_fhs s)(t \<mapsto> (fd, rm_hdr st')), tf_pool := rm_pool st'\<rparr>"
  have fr: "rm_fd st' = fd" "hdr_grow h (rm_hdr st')" "bp_pins (rm_pool st') = bp_pins (tf_pool s)"
    "file_step fd (tf_pool s) (rm_pool st')" using m(3) by (simp_all add: rm_frame_def)
  have ps: "pool_step {pid. pid_fd pid = fd} (tf_pool s) (rm_pool st')" using fr(4) by (simp add: file_step_def)
  have ok': "bp_inv {} (rm_pool st')" "bp_room (rm_pool st')" using m(2) by (simp_all add: rm_ok_def rm_rel_def)
  have hst: "handle fd (rm_hdr st') (rm_pool st') = st'" using fr(1) by (cases st') (simp add: handle_def)
  have inj: "tf_fhs s t' = Some (fd', h') \<Longrightarrow> t' \<noteq> t \<Longrightarrow> fd' \<noteq> fd" for t' fd' h'
    using ok t by (auto simp: tables_ok_def)
  have oth: "rm_ok UNIV (handle fd' h' (rm_pool st'))"
    "rm_records (handle fd' h' (rm_pool st')) = rm_records (handle fd' h' (tf_pool s))"
    if "tf_fhs s t' = Some (fd', h')" "t' \<noteq> t" for t' fd' h'
    using rm_ok_other[OF _ fr(4) inj[OF that] ok', of UNIV h'] ok that by (auto simp: tables_ok_def)
  have "on_file t m s = (r, s')" using t m(1) fr(1) by (simp add: on_file_def s'_def)
  moreover have "bp_room2 (rm_pool st')"
    using ok fr(3) ps by (simp add: tables_ok_def bp_room2_def pool_step_def)
  then have "tables_ok s'" using ok oth(1) m(2) hst inj t unfolding tables_ok_def s'_def by auto
  moreover have "tables_db s' = (tables_db s)(t := rm_records st')"
    using oth(2) hst by (auto simp: tables_db_def s'_def fun_eq_iff split: option.splits)
  moreover have "dm_inv (bp_disk (rm_pool st'))" by (rule pool_invD(2)[OF ok'(1)])
  then have "tables_frame s s'" using t fr(2) ps by (auto simp: tables_frame_def s'_def pool_step_def)
  ultimately show ?thesis by blast
qed

section \<open>Another disk below the pool\<close>

text \<open>A change of files that no open table is kept in is not seen through the pool.\<close>

definition same_files :: "buffer_pool \<Rightarrow> disk_manager \<Rightarrow> bool" where
  "same_files b d \<longleftrightarrow> dm_inv d \<and> (\<forall>fd. bp_open b fd \<longrightarrow> fd2path d fd = fd2path (bp_disk b) fd \<and>
     fd2pageno d fd = fd2pageno (bp_disk b) fd \<and> disk_page d fd = disk_page (bp_disk b) fd)"

lemma pool_new_disk:
  assumes sf: "same_files b d" and inv: "bp_inv {} b"
  defines "b' \<equiv> b\<lparr>bp_disk := d\<rparr>"
  shows "bp_inv {} b'" "bp_pins b' = bp_pins b" "bp_cached b' = bp_cached b" "bp_open b fd \<Longrightarrow> bp_open b' fd"
    "bp_open b (pid_fd pid) \<Longrightarrow> bp_content b' pid = bp_content b pid"
proof -
  have sel: "find_frame b' = find_frame b" "page_at b' = page_at b" "frame_ok b' = frame_ok b" "free_list b' = free_list b"
    "page_table b' = page_table b" "bp_replacer b' = bp_replacer b" "pool_size b' = pool_size b" "pages b' = pages b"
    by (simp_all add: b'_def find_frame_def page_at_def frame_ok_def fun_eq_iff)
  have dsk: "bp_disk b' = d" by (simp add: b'_def)
  show op: "bp_open b' fd" if "bp_open b fd" for fd using sf that by (auto simp: bp_open_def same_files_def dsk)
  show pins: "bp_pins b' = bp_pins b" by (simp add: bp_pins_def[abs_def] sel cong: option.case_cong)
  show "bp_cached b' = bp_cached b" by (simp add: bp_cached_def sel)
  have pg: "disk_page d fd = disk_page (bp_disk b) fd" if "bp_open b fd" for fd using sf that by (simp add: same_files_def)
  then show "bp_content b' pid = bp_content b pid" if "bp_open b (pid_fd pid)"
    using that by (simp add: bp_content_def sel dsk split: option.split)
  have o: "bp_open b (pid_fd (pg_id (page_at b f)))" if "frame_ok b f" "pid_page_no (pg_id (page_at b f)) \<noteq> INVALID_PAGE_ID" for f
    using inv that unfolding pool_inv_def table_inv_def by blast
  then have "synced b' f = synced b f" if "frame_ok b f" "pid_page_no (pg_id (page_at b f)) \<noteq> INVALID_PAGE_ID" for f
    using that pg by (simp add: synced_def sel dsk)
  moreover have "dm_inv d" using sf by (simp add: same_files_def)
  ultimately show "bp_inv {} b'" using inv op by (simp add: pool_inv_defs sel pins dsk)
qed

lemma tables_new_disk:
  assumes ok: "tables_ok s" and sf: "same_files (tf_pool s) d"
  defines "s' \<equiv> s\<lparr>tf_pool := (tf_pool s)\<lparr>bp_disk := d\<rparr>\<rparr>"
  shows "tables_ok s'" "tables_db s' = tables_db s"
proof -
  let ?b = "tf_pool s" and ?b' = "tf_pool s'"
  have b': "?b' = ?b\<lparr>bp_disk := d\<rparr>" "tf_fhs s' = tf_fhs s" by (simp_all add: s'_def)
  have k: "rm_ok UNIV (handle fd h ?b') \<and> rm_records (handle fd h ?b') = rm_records (handle fd h ?b)"
    if t: "tf_fhs s t = Some (fd, h)" for t fd h
  proof -
    let ?pg = "rm_pages (handle fd h ?b)"
    have "rm_ok UNIV (handle fd h ?b)" using ok t unfolding tables_ok_def by blast
    then have r: "rm_rel (handle fd h ?b) h ?pg" "file_wf UNIV h ?pg" by (simp_all add: rm_ok_def)
    have inv: "bp_inv {} ?b" "bp_open ?b fd" using r(1) by (simp_all add: rm_rel_def)
    note p = pool_new_disk[OF sf inv(1), folded b'(1)]
    have "fd2pageno (bp_disk ?b') fd = fd2pageno (bp_disk ?b) fd" using sf inv(2) by (simp add: b' same_files_def)
    then have "rm_rel (handle fd h ?b') h ?pg" using r(1) p inv(2) by (auto simp: rm_rel_def bp_room_def b')
    from rm_ok_rel[OF this r(2)] show ?thesis by (simp add: rm_records_def)
  qed
  have pins: "bp_pins ?b' = bp_pins ?b" by (simp add: b' bp_pins_def[abs_def] find_frame_def page_at_def cong: option.case_cong)
  then have "bp_room2 ?b' = bp_room2 ?b" by (simp add: bp_room2_def b')
  then show "tables_ok s'" using ok k b'(2) unfolding tables_ok_def by auto
  show "tables_db s' = tables_db s" using k b'(2) by (auto simp: tables_db_def fun_eq_iff split: option.splits)
qed

end
