(* ===== verification/Types.thy ===== *)
theory Types
  imports Prelude "HOL-Library.List_Lexorder"
begin

text \<open>
  Column types (\<open>defs.h\<close>), 32-bit floats as their bit patterns, and the comparison of index keys
  (\<open>ix_compare\<close> of \<open>index/ix_index_handle.h\<close>). The comparison is shown to be a linear order on the
  ranks of keys, lists of integers compared lexicographically.
\<close>

section \<open>Column types\<close>

datatype ColType = TYPE_INT | TYPE_BIGINT | TYPE_FLOAT | TYPE_STRING | TYPE_DATETIME

fun ColType_code :: "ColType \<Rightarrow> int" where
  "ColType_code TYPE_INT = 0"
| "ColType_code TYPE_BIGINT = 1"
| "ColType_code TYPE_FLOAT = 2"
| "ColType_code TYPE_STRING = 3"
| "ColType_code TYPE_DATETIME = 4"

definition ColType_of_code :: "int \<Rightarrow> ColType option" where
  "ColType_of_code c = map_of [(0, TYPE_INT), (1, TYPE_BIGINT), (2, TYPE_FLOAT), (3, TYPE_STRING), (4, TYPE_DATETIME)] c"

fun coltype2str :: "ColType \<Rightarrow> string" where
  "coltype2str TYPE_INT = ''INT''"
| "coltype2str TYPE_BIGINT = ''BIGINT''"
| "coltype2str TYPE_FLOAT = ''FLOAT''"
| "coltype2str TYPE_STRING = ''STRING''"
| "coltype2str TYPE_DATETIME = ''DATETIME''"

lemma ColType_code_inv [simp]: "ColType_of_code (ColType_code ty) = Some ty"
  by (cases ty) (simp_all add: ColType_of_code_def)

section \<open>Floats\<close>

text \<open>An IEEE single is its bit pattern \<open>u\<close>, a number below \<open>2 ^ 32\<close>: sign, 8 bits of exponent, 23
  bits of fraction. Finite floats compare as their signed magnitudes.\<close>

type_synonym float32 = int

definition float_mag :: "float32 \<Rightarrow> int" where
  "float_mag u = u mod 2 ^ 31"

definition float_nan :: "float32 \<Rightarrow> bool" where
  "float_nan u \<longleftrightarrow> 255 * 2 ^ 23 < float_mag u"

definition float_rank :: "float32 \<Rightarrow> int" where
  "float_rank u = (if 2 ^ 31 \<le> u then - float_mag u else float_mag u)"

definition float_less :: "float32 \<Rightarrow> float32 \<Rightarrow> bool" where
  "float_less u v \<longleftrightarrow> \<not> float_nan u \<and> \<not> float_nan v \<and> float_rank u < float_rank v"

section \<open>Comparing keys\<close>

definition cmp3 :: "int \<Rightarrow> int \<Rightarrow> int" where
  "cmp3 a b = (if a < b then -1 else if b < a then 1 else 0)"

fun memcmp :: "bytes \<Rightarrow> bytes \<Rightarrow> nat \<Rightarrow> int" where
  "memcmp (a # as) (b # bs) (Suc n) = (if a = b then memcmp as bs n else cmp3 (uint a) (uint b))"
| "memcmp _ _ _ = 0"

fun ix_compare_col :: "bytes \<Rightarrow> bytes \<Rightarrow> ColType \<Rightarrow> int \<Rightarrow> int" where
  "ix_compare_col a b TYPE_INT len = cmp3 (le_sint (take 4 a)) (le_sint (take 4 b))"
| "ix_compare_col a b TYPE_BIGINT len = cmp3 (le_sint (take 8 a)) (le_sint (take 8 b))"
| "ix_compare_col a b TYPE_DATETIME len = cmp3 (le_sint (take 8 a)) (le_sint (take 8 b))"
| "ix_compare_col a b TYPE_FLOAT len =
     (let fa = le_uint (take 4 a); fb = le_uint (take 4 b)
      in if float_less fa fb then -1 else if float_less fb fa then 1 else 0)"
| "ix_compare_col a b TYPE_STRING len = memcmp a b (nat len)"

fun ix_compare :: "ColType list \<Rightarrow> int list \<Rightarrow> bytes \<Rightarrow> bytes \<Rightarrow> int" where
  "ix_compare (ty # types) (len # lens) a b =
     (let res = ix_compare_col a b ty len in
      if res \<noteq> 0 then res else ix_compare types lens (drop (nat len) a) (drop (nat len) b))"
| "ix_compare _ _ a b = 0"

section \<open>Ranks\<close>

text \<open>A key as the indexes use them: the columns have the length of their types, and no float is a
  NaN.\<close>

fun col_wf :: "ColType \<Rightarrow> int \<Rightarrow> bytes \<Rightarrow> bool" where
  "col_wf TYPE_INT len bs \<longleftrightarrow> len = 4"
| "col_wf TYPE_BIGINT len bs \<longleftrightarrow> len = 8"
| "col_wf TYPE_DATETIME len bs \<longleftrightarrow> len = 8"
| "col_wf TYPE_FLOAT len bs \<longleftrightarrow> len = 4 \<and> \<not> float_nan (le_uint (take 4 bs))"
| "col_wf TYPE_STRING len bs \<longleftrightarrow> 0 \<le> len"

fun key_wf :: "ColType list \<Rightarrow> int list \<Rightarrow> bytes \<Rightarrow> bool" where
  "key_wf [] [] k \<longleftrightarrow> k = []"
| "key_wf (ty # types) (len # lens) k \<longleftrightarrow>
     col_wf ty len k \<and> nat len \<le> length k \<and> key_wf types lens (drop (nat len) k)"
| "key_wf _ _ k \<longleftrightarrow> False"

fun col_rank :: "ColType \<Rightarrow> int \<Rightarrow> bytes \<Rightarrow> int list" where
  "col_rank TYPE_INT len bs = [le_sint (take 4 bs)]"
| "col_rank TYPE_BIGINT len bs = [le_sint (take 8 bs)]"
| "col_rank TYPE_DATETIME len bs = [le_sint (take 8 bs)]"
| "col_rank TYPE_FLOAT len bs = [float_rank (le_uint (take 4 bs))]"
| "col_rank TYPE_STRING len bs = map uint (take (nat len) bs)"

fun key_rank :: "ColType list \<Rightarrow> int list \<Rightarrow> bytes \<Rightarrow> int list" where
  "key_rank (ty # types) (len # lens) k = col_rank ty len k @ key_rank types lens (drop (nat len) k)"
| "key_rank _ _ k = []"

lemma cmp3_sign [simp]: "cmp3 a b < 0 \<longleftrightarrow> a < b" "cmp3 a b = 0 \<longleftrightarrow> a = b" "0 < cmp3 a b \<longleftrightarrow> b < a"
  by (auto simp: cmp3_def)

lemma memcmp_rank:
  assumes "n \<le> length a" "n \<le> length b"
  shows "memcmp a b n < 0 \<longleftrightarrow> map uint (take n a) < map uint (take n b)"
    "memcmp a b n = 0 \<longleftrightarrow> map uint (take n a) = map uint (take n b)"
  using assms by (induction a b n rule: memcmp.induct) (auto simp: word_uint_eq_iff)

lemma append_less_iff:
  fixes a b c d :: "int list"
  assumes "length a = length b"
  shows "a @ c < b @ d \<longleftrightarrow> a < b \<or> a = b \<and> c < d"
  using assms by (induction a b rule: list_induct2) auto

lemma col_rank_cmp:
  assumes "col_wf ty len a" "col_wf ty len b" "nat len \<le> length a" "nat len \<le> length b"
  shows "ix_compare_col a b ty len < 0 \<longleftrightarrow> col_rank ty len a < col_rank ty len b"
    "ix_compare_col a b ty len = 0 \<longleftrightarrow> col_rank ty len a = col_rank ty len b"
    "length (col_rank ty len a) = length (col_rank ty len b)"
  using assms memcmp_rank[of "nat len" a b]
  by (cases ty; force simp: Let_def float_less_def)+

lemma ix_compare_rank:
  assumes "key_wf types lens a" "key_wf types lens b"
  shows "ix_compare types lens a b < 0 \<longleftrightarrow> key_rank types lens a < key_rank types lens b"
    "ix_compare types lens a b = 0 \<longleftrightarrow> key_rank types lens a = key_rank types lens b"
  using assms
proof (induction types lens a b rule: ix_compare.induct)
  case (1 ty types len lens a b)
  note c = col_rank_cmp[of ty len a b]
  case 1
  with c "1.IH"(1) show ?case by (auto simp: Let_def append_less_iff)
  case 2
  with c "1.IH"(2) show ?case by (auto simp: Let_def)
qed (auto)

end
