(* ===== verification/Meta.thy ===== *)
theory Meta
  imports Types "HOL-Library.Char_ord"
begin

text \<open>
  The catalog of a database (\<open>system/sm_meta.h\<close>): metadata of columns, indexes and tables with
  their queries, and the text form in which \<open>SmManager\<close> keeps them in the file \<open>db.meta\<close>. A
  reader maps the rest of a stream to the value read and what is left, or to \<open>None\<close> when the
  stream fails. What is written is shown to be read back.
\<close>

section \<open>Metadata\<close>

record ColMeta =
  cm_tab_name :: string
  cm_name :: string
  cm_type :: ColType
  cm_len :: int
  cm_offset :: int
  cm_index :: bool

record IndexMeta =
  im_tab_name :: string
  im_col_tot_len :: int
  im_col_num :: int
  im_cols :: "ColMeta list"

record TabMeta =
  tm_name :: string
  tm_cols :: "ColMeta list"
  tm_indexes :: "IndexMeta list"

text \<open>The \<open>std::map\<close> of the tables is a list in the order of the names.\<close>

record DbMeta =
  db_name :: string
  db_tabs :: "(string \<times> TabMeta) list"

definition is_col :: "TabMeta \<Rightarrow> string \<Rightarrow> bool" where
  "is_col tab col_name \<longleftrightarrow> (\<exists>col \<in> set (tm_cols tab). cm_name col = col_name)"

definition index_on :: "string list \<Rightarrow> IndexMeta \<Rightarrow> bool" where
  "index_on col_names index \<longleftrightarrow>
     im_col_num index = int (length col_names) \<and> map cm_name (take (length col_names) (im_cols index)) = col_names"

definition is_index :: "TabMeta \<Rightarrow> string list \<Rightarrow> bool" where
  "is_index tab col_names \<longleftrightarrow> (\<exists>index \<in> set (tm_indexes tab). index_on col_names index)"

definition get_index_meta :: "TabMeta \<Rightarrow> string list \<Rightarrow> rmdb_error + IndexMeta" where
  "get_index_meta tab col_names =
     (case find (index_on col_names) (tm_indexes tab) of
        None \<Rightarrow> Inl (IndexNotFoundError (tm_name tab) col_names)
      | Some index \<Rightarrow> Inr index)"

definition get_col :: "TabMeta \<Rightarrow> string \<Rightarrow> rmdb_error + ColMeta" where
  "get_col tab col_name =
     (case find (\<lambda>col. cm_name col = col_name) (tm_cols tab) of
        None \<Rightarrow> Inl (ColumnNotFoundError col_name)
      | Some col \<Rightarrow> Inr col)"

fun map_put :: "'k :: linorder \<Rightarrow> 'v \<Rightarrow> ('k \<times> 'v) list \<Rightarrow> ('k \<times> 'v) list" where
  "map_put k v [] = [(k, v)]"
| "map_put k v ((k', v') # kvs) =
     (if k < k' then (k, v) # (k', v') # kvs
      else if k = k' then (k, v) # kvs
      else (k', v') # map_put k v kvs)"

definition is_table :: "DbMeta \<Rightarrow> string \<Rightarrow> bool" where
  "is_table db tab_name \<longleftrightarrow> map_of (db_tabs db) tab_name \<noteq> None"

definition SetTabMeta :: "string \<Rightarrow> TabMeta \<Rightarrow> DbMeta \<Rightarrow> DbMeta" where
  "SetTabMeta tab_name meta db = db\<lparr>db_tabs := map_put tab_name meta (db_tabs db)\<rparr>"

definition get_table :: "DbMeta \<Rightarrow> string \<Rightarrow> rmdb_error + TabMeta" where
  "get_table db tab_name =
     (case map_of (db_tabs db) tab_name of
        None \<Rightarrow> Inl (TableNotFoundError tab_name)
      | Some tab \<Rightarrow> Inr tab)"

section \<open>Writing\<close>

definition show_bool :: "bool \<Rightarrow> string" where
  "show_bool b = (if b then ''1'' else ''0'')"

definition show_col :: "ColMeta \<Rightarrow> string" where
  "show_col col = cm_tab_name col @ '' '' @ cm_name col @ '' '' @ int_to_string (ColType_code (cm_type col)) @ '' '' @
     int_to_string (cm_len col) @ '' '' @ int_to_string (cm_offset col) @ '' '' @ show_bool (cm_index col)"

abbreviation newline :: string where "newline \<equiv> [CHR 0x0A]"

definition show_index_meta :: "IndexMeta \<Rightarrow> string" where
  "show_index_meta index = im_tab_name index @ '' '' @ int_to_string (im_col_tot_len index) @ '' '' @
     int_to_string (im_col_num index) @ concat (map (\<lambda>col. newline @ show_col col) (im_cols index))"

definition show_tab :: "TabMeta \<Rightarrow> string" where
  "show_tab tab = tm_name tab @ newline @ int_to_string (int (length (tm_cols tab))) @ newline @
     concat (map (\<lambda>col. show_col col @ newline) (tm_cols tab)) @
     int_to_string (int (length (tm_indexes tab))) @ newline @
     concat (map (\<lambda>index. show_index_meta index @ newline) (tm_indexes tab))"

definition show_db :: "DbMeta \<Rightarrow> string" where
  "show_db db = db_name db @ newline @ int_to_string (int (length (db_tabs db))) @ newline @
     concat (map (\<lambda>(_, tab). show_tab tab @ newline) (db_tabs db))"

section \<open>Reading\<close>

type_synonym 'a reader = "string \<Rightarrow> ('a \<times> string) option"

definition then_read :: "'a reader \<Rightarrow> ('a \<Rightarrow> 'b reader) \<Rightarrow> 'b reader" where
  "then_read r f is = (case r is of None \<Rightarrow> None | Some (x, is') \<Rightarrow> f x is')"

definition read_done :: "'a \<Rightarrow> 'a reader" where
  "read_done x is = Some (x, is)"

fun read_times :: "nat \<Rightarrow> 'a reader \<Rightarrow> 'a list reader" where
  "read_times 0 r = read_done []"
| "read_times (Suc n) r = then_read r (\<lambda>x. then_read (read_times n r) (\<lambda>xs. read_done (x # xs)))"

definition is_space :: "char \<Rightarrow> bool" where
  "is_space c \<longleftrightarrow> (of_char c :: nat) = 32 \<or> 9 \<le> (of_char c :: nat) \<and> (of_char c :: nat) \<le> 13"

definition is_digit :: "char \<Rightarrow> bool" where
  "is_digit c \<longleftrightarrow> 48 \<le> (of_char c :: nat) \<and> (of_char c :: nat) \<le> 57"

definition read_word :: "string reader" where
  "read_word is =
     (let w = dropWhile is_space is; word = takeWhile (\<lambda>c. \<not> is_space c) w
      in if word = [] then None else Some (word, dropWhile (\<lambda>c. \<not> is_space c) w))"

definition digits_value :: "string \<Rightarrow> nat" where
  "digits_value ds = foldl (\<lambda>n c. 10 * n + (of_char c - 48)) 0 ds"

definition read_integer :: "(int \<Rightarrow> bool) \<Rightarrow> int reader" where
  "read_integer fits is =
     (let w = dropWhile is_space is; neg = (take 1 w = ''-'');
          w' = (if neg \<or> take 1 w = ''+'' then drop 1 w else w);
          ds = takeWhile is_digit w'; i = (if neg then - int (digits_value ds) else int (digits_value ds))
      in if ds = [] \<or> \<not> fits i then None else Some (i, dropWhile is_digit w'))"

definition read_int_field :: "int reader" where
  "read_int_field = read_integer int32"

text \<open>\<open>size_t\<close>: numbers with a sign are left out.\<close>

definition read_size :: "nat reader" where
  "read_size = then_read (read_integer (\<lambda>i. 0 \<le> i \<and> i < 2 ^ 64)) (\<lambda>i. read_done (nat i))"

definition read_bool :: "bool reader" where
  "read_bool = then_read (read_integer (\<lambda>i. i = 0 \<or> i = 1)) (\<lambda>i. read_done (i = 1))"

text \<open>A number that is no \<open>ColType\<close> is converted to a value outside the enumeration, with which
  nothing sensible can follow.\<close>

definition read_coltype :: "ColType reader" where
  "read_coltype = then_read read_int_field (\<lambda>i is. case ColType_of_code i of None \<Rightarrow> None | Some ty \<Rightarrow> Some (ty, is))"

definition read_col :: "ColMeta reader" where
  "read_col =
     then_read read_word (\<lambda>tab_name. then_read read_word (\<lambda>name. then_read read_coltype (\<lambda>type.
     then_read read_int_field (\<lambda>len. then_read read_int_field (\<lambda>offset. then_read read_bool (\<lambda>index.
       read_done \<lparr>cm_tab_name = tab_name, cm_name = name, cm_type = type, cm_len = len, cm_offset = offset, cm_index = index\<rparr>))))))"

definition read_index_meta :: "IndexMeta reader" where
  "read_index_meta =
     then_read read_word (\<lambda>tab_name. then_read read_int_field (\<lambda>col_tot_len. then_read read_int_field (\<lambda>col_num.
     then_read (read_times (nat col_num) read_col) (\<lambda>cols.
       read_done \<lparr>im_tab_name = tab_name, im_col_tot_len = col_tot_len, im_col_num = col_num, im_cols = cols\<rparr>))))"

definition read_tab :: "TabMeta reader" where
  "read_tab =
     then_read read_word (\<lambda>name. then_read read_size (\<lambda>n. then_read (read_times n read_col) (\<lambda>cols.
     then_read read_size (\<lambda>n. then_read (read_times n read_index_meta) (\<lambda>indexes.
       read_done \<lparr>tm_name = name, tm_cols = cols, tm_indexes = indexes\<rparr>)))))"

definition read_db :: "DbMeta reader" where
  "read_db =
     then_read read_word (\<lambda>name. then_read read_size (\<lambda>n. then_read (read_times n read_tab) (\<lambda>tabs.
       read_done \<lparr>db_name = name, db_tabs = fold (\<lambda>tab. map_put (tm_name tab) tab) tabs []\<rparr>)))"

section \<open>Reading back\<close>

definition word_ok :: "string \<Rightarrow> bool" where
  "word_ok w \<longleftrightarrow> w \<noteq> [] \<and> (\<forall>c \<in> set w. \<not> is_space c)"

text \<open>The next character ends a word or a number.\<close>

definition at_gap :: "string \<Rightarrow> bool" where
  "at_gap rest \<longleftrightarrow> rest = [] \<or> is_space (hd rest)"

lemma at_gap_Cons [simp]: "at_gap (c # rest) \<longleftrightarrow> is_space c"
  by (simp add: at_gap_def)

lemma at_gap_Nil [simp]: "at_gap []"
  by (simp add: at_gap_def)

lemma is_space_consts [simp]: "is_space (CHR '' '')" "is_space (CHR 0x0A)" "\<not> is_space (CHR ''-'')" "\<not> is_space (CHR ''0'')" "\<not> is_space (CHR ''1'')"
  by (simp_all add: is_space_def)

lemma digit_not_space: "is_digit c \<Longrightarrow> \<not> is_space c"
  by (auto simp: is_digit_def is_space_def)

lemma then_read_Some [simp]: "r is = Some (x, is') \<Longrightarrow> then_read r f is = f x is'"
  by (simp add: then_read_def)

lemma read_done_apply [simp]: "read_done x is = Some (x, is)"
  by (simp add: read_done_def)

lemma drop_space:
  assumes "\<forall>c \<in> set ws. is_space c" "w \<noteq> []" "\<not> is_space (hd w)"
  shows "dropWhile is_space (ws @ w @ rest) = w @ rest"
  using assms by (cases w) auto

lemma take_till_gap:
  assumes "\<forall>c \<in> set w. P c" "at_gap rest" "\<And>c. is_space c \<Longrightarrow> \<not> P c"
  shows "takeWhile P (w @ rest) = w" "dropWhile P (w @ rest) = rest"
  using assms by (cases rest; auto)+

lemma read_word_back:
  assumes "\<forall>c \<in> set ws. is_space c" "word_ok w" "at_gap rest"
  shows "read_word (ws @ w @ rest) = Some (w, rest)"
proof -
  have "dropWhile is_space (ws @ w @ rest) = w @ rest"
    using assms by (intro drop_space) (auto simp: word_ok_def neq_Nil_conv)
  moreover have "takeWhile (\<lambda>c. \<not> is_space c) (w @ rest) = w" "dropWhile (\<lambda>c. \<not> is_space c) (w @ rest) = rest"
    using take_till_gap[of w "\<lambda>c. \<not> is_space c" rest] assms by (auto simp: word_ok_def)
  ultimately show ?thesis using assms(2) by (simp add: read_word_def word_ok_def)
qed

lemma nat_to_string_digits: "nat_to_string n \<noteq> [] \<and> (\<forall>c \<in> set (nat_to_string n). is_digit c)"
proof (induction n rule: nat_to_string.induct)
  case (1 n)
  have "is_digit (char_of (48 + k))" if "k < 10" for k :: nat using that by (simp add: is_digit_def)
  with 1 show ?case by (subst (1 2) nat_to_string.simps) auto
qed

lemma digits_value_nat_to_string: "digits_value (nat_to_string n) = n"
proof (induction n rule: nat_to_string.induct)
  case (1 n)
  show ?case
  proof (cases "n < 10")
    case True
    then show ?thesis by (subst nat_to_string.simps) (simp add: digits_value_def)
  next
    case False
    then show ?thesis using 1 by (subst nat_to_string.simps) (simp add: digits_value_def)
  qed
qed

lemma read_integer_back:
  assumes "\<forall>c \<in> set ws. is_space c" "fits i" "at_gap rest"
  shows "read_integer fits (ws @ int_to_string i @ rest) = Some (i, rest)"
proof -
  have nd: "\<not> is_digit (CHR ''-'')" "\<not> is_digit (CHR ''+'')" by (simp_all add: is_digit_def)
  obtain d ds where d: "nat_to_string (nat \<bar>i\<bar>) = d # ds" "is_digit d" "\<forall>c \<in> set ds. is_digit c"
    using nat_to_string_digits[of "nat \<bar>i\<bar>"] by (cases "nat_to_string (nat \<bar>i\<bar>)") auto
  have t: "takeWhile is_digit (d # ds @ rest) = d # ds" "dropWhile is_digit (d # ds @ rest) = rest"
    using take_till_gap[of "d # ds" is_digit rest] d(2,3) assms(3) digit_not_space by auto
  have v: "digits_value (d # ds) = nat \<bar>i\<bar>" using digits_value_nat_to_string[of "nat \<bar>i\<bar>"] d(1) by simp
  have s: "int_to_string i = (if i < 0 then CHR ''-'' # d # ds else d # ds)" using d(1) by (cases "i < 0") (simp_all add: int_to_string_def)
  have "dropWhile is_space (ws @ int_to_string i @ rest) = int_to_string i @ rest"
    by (rule drop_space) (use assms(1) s digit_not_space[OF d(2)] in auto)
  moreover have "d \<noteq> CHR ''-''" "d \<noteq> CHR ''+''" using d(2) nd by auto
  ultimately show ?thesis using t v assms(2) by (simp add: read_integer_def s Let_def)
qed

lemma read_int_field_back: "\<forall>c \<in> set ws. is_space c \<Longrightarrow> int32 i \<Longrightarrow> at_gap rest \<Longrightarrow> read_int_field (ws @ int_to_string i @ rest) = Some (i, rest)"
  by (simp add: read_int_field_def read_integer_back)

lemma read_size_back:
  "\<forall>c \<in> set ws. is_space c \<Longrightarrow> n < 2 ^ 64 \<Longrightarrow> at_gap rest \<Longrightarrow> read_size (ws @ int_to_string (int n) @ rest) = Some (n, rest)"
  by (simp add: read_size_def read_integer_back)

lemma read_bool_back:
  assumes "\<forall>c \<in> set ws. is_space c" "at_gap rest"
  shows "read_bool (ws @ show_bool b @ rest) = Some (b, rest)"
proof -
  have "''1'' = int_to_string 1" "''0'' = int_to_string 0" by code_simp+
  then have "show_bool b = int_to_string (if b then 1 else 0)" by (simp add: show_bool_def)
  with assms show ?thesis by (simp add: read_bool_def read_integer_back)
qed

lemma read_coltype_back:
  assumes "\<forall>c \<in> set ws. is_space c" "at_gap rest"
  shows "read_coltype (ws @ int_to_string (ColType_code ty) @ rest) = Some (ty, rest)"
proof -
  have "int32 (ColType_code ty)" by (cases ty) (simp_all add: int32_def)
  with assms show ?thesis by (simp add: read_coltype_def read_int_field_back)
qed

definition col_ok :: "ColMeta \<Rightarrow> bool" where
  "col_ok col \<longleftrightarrow> word_ok (cm_tab_name col) \<and> word_ok (cm_name col) \<and> int32 (cm_len col) \<and> int32 (cm_offset col)"

definition index_meta_ok :: "IndexMeta \<Rightarrow> bool" where
  "index_meta_ok index \<longleftrightarrow> word_ok (im_tab_name index) \<and> int32 (im_col_tot_len index) \<and> int32 (im_col_num index) \<and>
     im_col_num index = int (length (im_cols index)) \<and> (\<forall>col \<in> set (im_cols index). col_ok col)"

definition tab_ok :: "TabMeta \<Rightarrow> bool" where
  "tab_ok tab \<longleftrightarrow> word_ok (tm_name tab) \<and> length (tm_cols tab) < 2 ^ 64 \<and> length (tm_indexes tab) < 2 ^ 64 \<and>
     (\<forall>col \<in> set (tm_cols tab). col_ok col) \<and> (\<forall>index \<in> set (tm_indexes tab). index_meta_ok index)"

definition db_ok :: "DbMeta \<Rightarrow> bool" where
  "db_ok db \<longleftrightarrow> word_ok (db_name db) \<and> length (db_tabs db) < 2 ^ 64 \<and> sorted_wrt (<) (map fst (db_tabs db)) \<and>
     (\<forall>(name, tab) \<in> set (db_tabs db). name = tm_name tab \<and> tab_ok tab)"

lemma read_col_back:
  assumes ws: "\<forall>c \<in> set ws. is_space c" and ok: "col_ok col" and gap: "at_gap rest"
  shows "read_col (ws @ show_col col @ rest) = Some (col, rest)"
proof -
  have w: "word_ok (cm_tab_name col)" "word_ok (cm_name col)" "int32 (cm_len col)" "int32 (cm_offset col)"
    using ok by (simp_all add: col_ok_def)
  note sp = read_word_back[of "'' ''"] read_coltype_back[of "'' ''"] read_int_field_back[of "'' ''"] read_bool_back[of "'' ''"]
  show ?thesis
    using read_word_back[OF ws w(1)] sp w gap by (simp add: read_col_def show_col_def)
qed

text \<open>A list of items, each read back from its text.\<close>

lemma read_times_back:
  assumes "\<And>x ws rest. P x \<Longrightarrow> \<forall>c \<in> set ws. is_space c \<Longrightarrow> at_gap rest \<Longrightarrow>
      \<exists>ws'. r (ws @ f x @ rest) = Some (x, ws' @ rest) \<and> (\<forall>c \<in> set ws'. is_space c)"
    and "\<forall>x \<in> set xs. P x" "\<forall>c \<in> set ws. is_space c"
  shows "\<exists>ws'. read_times (length xs) r (ws @ concat (map (\<lambda>x. f x @ newline) xs) @ rest) = Some (xs, ws' @ rest) \<and>
    (\<forall>c \<in> set ws'. is_space c)"
  using assms(2,3)
proof (induction xs arbitrary: ws)
  case Nil
  then show ?case by auto
next
  case (Cons x xs)
  let ?tl = "concat (map (\<lambda>x. f x @ newline) xs) @ rest"
  have "\<exists>ws1. r (ws @ f x @ newline @ ?tl) = Some (x, ws1 @ newline @ ?tl) \<and> (\<forall>c \<in> set ws1. is_space c)"
    using Cons.prems by (intro assms(1)) simp_all
  then obtain ws1 where w1: "r (ws @ f x @ newline @ ?tl) = Some (x, ws1 @ newline @ ?tl)" "\<forall>c \<in> set ws1. is_space c" by blast
  then have "\<forall>c \<in> set (ws1 @ newline). is_space c" by auto
  from Cons.IH[OF _ this] Cons.prems obtain ws' where
    "read_times (length xs) r ((ws1 @ newline) @ ?tl) = Some (xs, ws' @ rest)" "\<forall>c \<in> set ws'. is_space c" by auto
  with w1(1) show ?case by (intro exI[of _ ws']) simp
qed

lemma read_cols_back:
  assumes "\<forall>col \<in> set cols. col_ok col" "at_gap rest"
  shows "read_times (length cols) read_col (concat (map (\<lambda>col. newline @ show_col col) cols) @ rest) = Some (cols, rest)"
  using assms(1)
proof (induction cols)
  case (Cons col cols)
  have "at_gap (concat (map (\<lambda>col. newline @ show_col col) cols) @ rest)" using assms(2) by (cases cols) simp_all
  then have "read_col (newline @ show_col col @ concat (map (\<lambda>col. newline @ show_col col) cols) @ rest) =
      Some (col, concat (map (\<lambda>col. newline @ show_col col) cols) @ rest)"
    using Cons.prems by (intro read_col_back) simp_all
  then show ?case using Cons by simp
qed simp

lemma read_index_back:
  assumes ws: "\<forall>c \<in> set ws. is_space c" and ok: "index_meta_ok index" and gap: "at_gap rest"
  shows "read_index_meta (ws @ show_index_meta index @ rest) = Some (index, rest)"
proof -
  let ?cols = "concat (map (\<lambda>col. newline @ show_col col) (im_cols index)) @ rest"
  have w: "word_ok (im_tab_name index)" "int32 (im_col_tot_len index)" "int32 (im_col_num index)"
    "nat (im_col_num index) = length (im_cols index)" "\<forall>col \<in> set (im_cols index). col_ok col"
    using ok by (auto simp: index_meta_ok_def)
  have g: "at_gap ?cols" using gap by (cases "im_cols index") simp_all
  show ?thesis
    using read_word_back[OF ws w(1)] read_int_field_back[of "'' ''" "im_col_tot_len index"]
      read_int_field_back[of "'' ''" "im_col_num index" ?cols] w(2-4) g read_cols_back[OF w(5) gap]
    by (simp add: read_index_meta_def show_index_meta_def)
qed

lemma read_tab_back:
  assumes ws: "\<forall>c \<in> set ws. is_space c" and ok: "tab_ok tab"
  shows "\<exists>ws'. read_tab (ws @ show_tab tab @ rest) = Some (tab, ws' @ rest) \<and> (\<forall>c \<in> set ws'. is_space c)"
proof -
  let ?ixs = "concat (map (\<lambda>index. show_index_meta index @ newline) (tm_indexes tab)) @ rest"
  let ?tail = "int_to_string (int (length (tm_indexes tab))) @ newline @ ?ixs"
  have w: "word_ok (tm_name tab)" "length (tm_cols tab) < 2 ^ 64" "length (tm_indexes tab) < 2 ^ 64"
    "\<forall>col \<in> set (tm_cols tab). col_ok col" "\<forall>index \<in> set (tm_indexes tab). index_meta_ok index"
    using ok by (simp_all add: tab_ok_def)
  obtain ws1 where c: "read_times (length (tm_cols tab)) read_col (newline @ concat (map (\<lambda>col. show_col col @ newline) (tm_cols tab)) @ ?tail) =
      Some (tm_cols tab, ws1 @ ?tail)" "\<forall>c \<in> set ws1. is_space c"
    using read_times_back[where P = col_ok and r = read_col and f = show_col, OF _ w(4), of newline ?tail] read_col_back by fastforce
  obtain ws2 where i: "read_times (length (tm_indexes tab)) read_index_meta (newline @ ?ixs) = Some (tm_indexes tab, ws2 @ rest)"
      "\<forall>c \<in> set ws2. is_space c"
    using read_times_back[where P = index_meta_ok and r = read_index_meta and f = show_index_meta, OF _ w(5), of newline rest] read_index_back
    by fastforce
  have "read_tab (ws @ show_tab tab @ rest) = Some (tab, ws2 @ rest)"
    using read_word_back[OF ws w(1)] read_size_back[of newline "length (tm_cols tab)"] w(2) c(1)
      read_size_back[OF c(2) w(3)] i(1)
    by (simp add: read_tab_def show_tab_def)
  with i(2) show ?thesis by blast
qed

lemma map_put_last:
  assumes "\<forall>x \<in> set kvs. fst x < k"
  shows "map_put k v kvs = kvs @ [(k, v)]"
  using assms by (induction k v kvs rule: map_put.induct) auto

lemma fold_map_put:
  assumes "sorted_wrt (<) (map fst kvs)" "\<forall>(k, v) \<in> set kvs. k = f v"
  shows "fold (\<lambda>v. map_put (f v) v) (map snd kvs) [] = kvs"
  using assms
proof (induction kvs rule: rev_induct)
  case (snoc x kvs)
  then have "fst x = f (snd x)" "\<forall>y \<in> set kvs. fst y < fst x" by (auto simp: sorted_wrt_append)
  with snoc show ?case by (cases x) (simp add: sorted_wrt_append map_put_last)
qed simp

text \<open>Property C25: the catalog of a database is read back from the file \<open>db.meta\<close> as it was written:
  the names are words and the tables stand under their names.\<close>

theorem db_meta_roundtrip:
  assumes "db_ok db"
  shows "\<exists>rest. read_db (show_db db) = Some (db, rest)"
proof -
  let ?tabs = "map snd (db_tabs db)"
  have w: "word_ok (db_name db)" "length (db_tabs db) < 2 ^ 64" "sorted_wrt (<) (map fst (db_tabs db))"
    "\<forall>(name, tab) \<in> set (db_tabs db). name = tm_name tab" "\<forall>tab \<in> set ?tabs. tab_ok tab"
    using assms by (auto simp: db_ok_def)
  have e: "concat (map (\<lambda>(_, tab). show_tab tab @ newline) (db_tabs db)) = concat (map (\<lambda>tab. show_tab tab @ newline) ?tabs) @ []"
    by (simp add: comp_def case_prod_unfold)
  obtain ws where t: "read_times (length ?tabs) read_tab (newline @ concat (map (\<lambda>tab. show_tab tab @ newline) ?tabs) @ []) = Some (?tabs, ws @ [])"
    using read_times_back[where P = tab_ok and r = read_tab and f = show_tab and xs = ?tabs and ws = newline and rest = "[]"]
      read_tab_back w(5) by auto
  have "read_db (show_db db) = Some (db, ws)"
    using read_word_back[of "[]" "db_name db"] w(1,2) read_size_back[of newline "length (db_tabs db)"] t
      fold_map_put[OF w(3), of tm_name] w(4)
    by (simp add: read_db_def show_db_def e)
  then show ?thesis by blast
qed

definition demo_cols :: "ColMeta list" where
  "demo_cols =
     [\<lparr>cm_tab_name = ''t'', cm_name = ''id'', cm_type = TYPE_INT, cm_len = 4, cm_offset = 0, cm_index = True\<rparr>,
      \<lparr>cm_tab_name = ''t'', cm_name = ''name'', cm_type = TYPE_STRING, cm_len = 12, cm_offset = 4, cm_index = False\<rparr>]"

definition demo_tab :: TabMeta where
  "demo_tab = \<lparr>tm_name = ''t'', tm_cols = demo_cols, tm_indexes =
     [\<lparr>im_tab_name = ''t'', im_col_tot_len = 4, im_col_num = 1, im_cols = take 1 demo_cols\<rparr>]\<rparr>"

definition demo_db :: DbMeta where
  "demo_db = \<lparr>db_name = ''d'', db_tabs = [(''t'', demo_tab)]\<rparr>"

lemma demo_db_ok: "db_ok demo_db"
  by (simp add: db_ok_def demo_db_def tab_ok_def demo_tab_def demo_cols_def col_ok_def index_meta_ok_def word_ok_def is_space_def int32_def)

theorem db_meta_roundtrip_witness: "\<exists>rest. read_db (show_db demo_db) = Some (demo_db, rest)"
  by (rule db_meta_roundtrip[OF demo_db_ok])

end
