(* ===== verification/Datetime.thy ===== *)
theory Datetime
  imports Prelude "HOL-Library.Signed_Division"
begin

text \<open>
  Date and time literals (\<open>common/datetime_utils.h\<close>): a literal is stored as the decimal number
  \<open>YYYYMMDDhhmmss\<close> in an \<open>int64_t\<close>. The division and remainder of C++ round towards zero, and
  \<open>fmt_int w\<close> is the conversion \<open>%0wd\<close> of \<open>snprintf\<close>.
\<close>

section \<open>Definitions\<close>

definition is_leap_year :: "int \<Rightarrow> bool" where
  "is_leap_year year \<longleftrightarrow> (year smod 4 = 0 \<and> year smod 100 \<noteq> 0) \<or> year smod 400 = 0"

definition days_in_month :: "int \<Rightarrow> int \<Rightarrow> int" where
  "days_in_month year month =
     (if month = 2 \<and> is_leap_year year then 29
      else [31, 28, 31, 30, 31, 30, 31, 31, 30, 31, 30, 31] ! nat (month - 1))"

fun component_loop :: "string \<Rightarrow> string \<Rightarrow> int \<Rightarrow> rmdb_error + int" where
  "component_loop v [] result = Inr result"
| "component_loop v (ch # cs) result =
     (if 48 \<le> (of_char ch :: nat) \<and> (of_char ch :: nat) \<le> 57
      then component_loop v cs (result * 10 + (int (of_char ch) - 48))
      else Inl (InvalidDateTimeError v))"

definition parse_datetime_component :: "string \<Rightarrow> nat \<Rightarrow> nat \<Rightarrow> rmdb_error + int" where
  "parse_datetime_component v begin len = component_loop v (take len (drop begin v)) 0"

definition datetime_in_range :: "int \<Rightarrow> int \<Rightarrow> int \<Rightarrow> int \<Rightarrow> int \<Rightarrow> int \<Rightarrow> bool" where
  "datetime_in_range year month day hour minute second \<longleftrightarrow>
     \<not> (year < 1000 \<or> year > 9999 \<or> month < 1 \<or> month > 12 \<or> day < 1 \<or> day > days_in_month year month \<or>
        hour < 0 \<or> hour > 23 \<or> minute < 0 \<or> minute > 59 \<or> second < 0 \<or> second > 59)"

definition encode_datetime :: "int \<Rightarrow> int \<Rightarrow> int \<Rightarrow> int \<Rightarrow> int \<Rightarrow> int \<Rightarrow> int" where
  "encode_datetime year month day hour minute second =
     ((((year * 100 + month) * 100 + day) * 100 + hour) * 100 + minute) * 100 + second"

definition parse_datetime_string :: "string \<Rightarrow> rmdb_error + int" where
  "parse_datetime_string v =
     (if length v \<noteq> 19 \<or> v ! 4 \<noteq> CHR ''-'' \<or> v ! 7 \<noteq> CHR ''-'' \<or> v ! 10 \<noteq> CHR '' '' \<or> v ! 13 \<noteq> CHR '':'' \<or> v ! 16 \<noteq> CHR '':''
      then Inl (InvalidDateTimeError v)
      else
        case parse_datetime_component v 0 4 of Inl e \<Rightarrow> Inl e | Inr year \<Rightarrow>
        case parse_datetime_component v 5 2 of Inl e \<Rightarrow> Inl e | Inr month \<Rightarrow>
        case parse_datetime_component v 8 2 of Inl e \<Rightarrow> Inl e | Inr day \<Rightarrow>
        case parse_datetime_component v 11 2 of Inl e \<Rightarrow> Inl e | Inr hour \<Rightarrow>
        case parse_datetime_component v 14 2 of Inl e \<Rightarrow> Inl e | Inr minute \<Rightarrow>
        case parse_datetime_component v 17 2 of Inl e \<Rightarrow> Inl e | Inr second \<Rightarrow>
        if datetime_in_range year month day hour minute second
        then Inr (encode_datetime year month day hour minute second)
        else Inl (InvalidDateTimeError v))"

definition fmt_int :: "nat \<Rightarrow> int \<Rightarrow> string" where
  "fmt_int w i =
     (let sign = (if i < 0 then ''-'' else ''''); ds = nat_to_string (nat \<bar>i\<bar>)
      in sign @ replicate (w - length sign - length ds) (CHR ''0'') @ ds)"

definition format_datetime_value :: "int \<Rightarrow> string" where
  "format_datetime_value encoded =
     (let second = encoded smod 100; encoded1 = encoded sdiv 100;
          minute = encoded1 smod 100; encoded2 = encoded1 sdiv 100;
          hour = encoded2 smod 100; encoded3 = encoded2 sdiv 100;
          day = encoded3 smod 100; encoded4 = encoded3 sdiv 100;
          month = encoded4 smod 100; encoded5 = encoded4 sdiv 100;
          year = encoded5 smod 10000
      in take 19 (fmt_int 4 year @ ''-'' @ fmt_int 2 month @ ''-'' @ fmt_int 2 day @ '' '' @
           fmt_int 2 hour @ '':'' @ fmt_int 2 minute @ '':'' @ fmt_int 2 second))"

section \<open>Numbers of a fixed width\<close>

lemma length_nat_to_string: "0 < w \<Longrightarrow> n < 10 ^ w \<Longrightarrow> length (nat_to_string n) \<le> w"
proof (induction w arbitrary: n)
  case (Suc w)
  show ?case
  proof (cases "n < 10")
    case False
    then have "n div 10 < 10 ^ w" "0 < w" using Suc.prems by (auto simp: less_mult_imp_div_less intro: gr0I)
    then show ?thesis using Suc.IH False by (subst nat_to_string.simps) simp
  qed (simp add: nat_to_string.simps)
qed simp

lemma char_zero: "char_of (48 :: nat) = CHR ''0''"
  by code_simp

lemma fmt_int_snoc:
  assumes "0 \<le> n" "0 < w"
  shows "fmt_int (Suc w) n = fmt_int w (n div 10) @ [char_of (48 + nat (n mod 10))]"
proof -
  have d: "nat (n div 10) = nat n div 10" "nat (n mod 10) = nat n mod 10"
    using assms(1) by (simp_all add: nat_div_distrib nat_mod_distrib)
  show ?thesis
  proof (cases "n < 10")
    case True
    then have "nat n < 10" "n div 10 = 0" using assms(1) by auto
    moreover have "replicate w c = replicate (w - 1) c @ [c]" for c :: char
      using assms(2) by (cases w) (simp_all add: replicate_append_same)
    ultimately show ?thesis
      using assms d(2) by (simp add: fmt_int_def Let_def nat_to_string.simps char_zero)
  next
    case False
    then have "nat_to_string (nat n) = nat_to_string (nat (n div 10)) @ [char_of (48 + nat (n mod 10))]"
      using d by (subst nat_to_string.simps) auto
    with assms show ?thesis by (simp add: fmt_int_def Let_def)
  qed
qed

lemma fmt_int_one: "0 \<le> n \<Longrightarrow> n < 10 \<Longrightarrow> fmt_int (Suc 0) n = [char_of (48 + nat n)]"
  by (simp add: fmt_int_def Let_def nat_to_string.simps)

lemma length_fmt_int:
  assumes "0 \<le> n" "n < 10 ^ w" "0 < w"
  shows "length (fmt_int w n) = w"
proof -
  have "length (nat_to_string (nat n)) \<le> w"
    using assms by (intro length_nat_to_string) (auto simp: nat_less_iff)
  then show ?thesis using assms by (simp add: fmt_int_def Let_def)
qed

lemma component_loop_append:
  "component_loop v (xs @ ys) r = (case component_loop v xs r of Inl e \<Rightarrow> Inl e | Inr n \<Rightarrow> component_loop v ys n)"
  by (induction v xs r rule: component_loop.induct) auto

lemma digit_char:
  assumes "48 \<le> (of_char c :: nat)" "(of_char c :: nat) \<le> 57"
  obtains d where "0 \<le> d" "d < 10" "int (of_char c) - 48 = d" "c = char_of (48 + nat d)"
proof (rule that[of "int (of_char c) - 48"])
  have "48 + nat (int (of_char c) - 48) = of_char c" using assms by linarith
  then show "c = char_of (48 + nat (int (of_char c) - 48))" by simp
qed (use assms in linarith)+

lemma component_loop_digit:
  assumes "0 \<le> d" "d < 10"
  shows "component_loop v [char_of (48 + nat d)] r = Inr (r * 10 + d)"
proof -
  have "(of_char (char_of (48 + nat d) :: char) :: nat) = 48 + nat d" using assms by simp
  then show ?thesis using assms by simp
qed

text \<open>The loop reads exactly the numbers of the width it is given.\<close>

lemma component_loop_iff:
  assumes "length cs = Suc w"
  shows "component_loop v cs 0 = Inr n \<longleftrightarrow> 0 \<le> n \<and> n < 10 ^ Suc w \<and> cs = fmt_int (Suc w) n"
  using assms
proof (induction w arbitrary: cs n)
  case 0
  then obtain c where c: "cs = [c]" by (auto simp: length_Suc_conv)
  show ?case
  proof
    assume l: "component_loop v cs 0 = Inr n"
    then have "48 \<le> (of_char c :: nat)" "(of_char c :: nat) \<le> 57" "int (of_char c) - 48 = n"
      using c by (auto split: if_splits)
    then have "0 \<le> n" "n < 10" "c = char_of (48 + nat n)" by (metis digit_char)+
    then show "0 \<le> n \<and> n < 10 ^ Suc 0 \<and> cs = fmt_int (Suc 0) n" using c by (simp add: fmt_int_one)
  next
    assume "0 \<le> n \<and> n < 10 ^ Suc 0 \<and> cs = fmt_int (Suc 0) n"
    then show "component_loop v cs 0 = Inr n" using component_loop_digit[of n v 0] by (simp add: fmt_int_one del: component_loop.simps)
  qed
next
  case (Suc w)
  obtain xs c where cs: "cs = xs @ [c]" "length xs = Suc w"
    using Suc.prems by (cases cs rule: rev_cases) auto
  note IH = Suc.IH[OF cs(2)]
  show ?case
  proof
    assume l: "component_loop v cs 0 = Inr n"
    then obtain m where m: "component_loop v xs 0 = Inr m" "component_loop v [c] m = Inr n"
      using cs(1) by (auto simp: component_loop_append split: sum.splits)
    then have "48 \<le> (of_char c :: nat)" "(of_char c :: nat) \<le> 57" "n = m * 10 + (int (of_char c) - 48)"
      by (auto split: if_splits)
    then obtain d where d: "0 \<le> d" "d < 10" "n = m * 10 + d" "c = char_of (48 + nat d)" by (metis digit_char)
    have x: "0 \<le> m" "m < 10 ^ Suc w" "xs = fmt_int (Suc w) m" using IH[of m] m(1) by auto
    have "n div 10 = m" "n mod 10 = d" using d by auto
    with d x cs(1) fmt_int_snoc[of n "Suc w"] show "0 \<le> n \<and> n < 10 ^ Suc (Suc w) \<and> cs = fmt_int (Suc (Suc w)) n" by auto
  next
    assume n: "0 \<le> n \<and> n < 10 ^ Suc (Suc w) \<and> cs = fmt_int (Suc (Suc w)) n"
    then have "xs = fmt_int (Suc w) (n div 10)" "c = char_of (48 + nat (n mod 10))"
      using cs(1) fmt_int_snoc[of n "Suc w"] by auto
    moreover have "0 \<le> n div 10" "n div 10 < 10 ^ Suc w" using n by auto
    ultimately show "component_loop v cs 0 = Inr n"
      using IH[of "n div 10"] cs(1) component_loop_digit[of "n mod 10" v "n div 10"]
      by (simp add: component_loop_append del: component_loop.simps)
  qed
qed

section \<open>Literals\<close>

definition datetime_string :: "int \<Rightarrow> int \<Rightarrow> int \<Rightarrow> int \<Rightarrow> int \<Rightarrow> int \<Rightarrow> string" where
  "datetime_string y mo d h mi se =
     fmt_int 4 y @ ''-'' @ fmt_int 2 mo @ ''-'' @ fmt_int 2 d @ '' '' @ fmt_int 2 h @ '':'' @ fmt_int 2 mi @ '':'' @ fmt_int 2 se"

lemma days_in_month_le: "1 \<le> m \<Longrightarrow> m \<le> 12 \<Longrightarrow> days_in_month y m \<le> 31"
proof -
  assume "1 \<le> m" "m \<le> 12"
  then have "m \<in> {1, 2, 3, 4, 5, 6, 7, 8, 9, 10, 11, 12}" by (simp only: insert_iff empty_iff) presburger
  then show ?thesis by (auto simp: days_in_month_def)
qed

lemma datetime_in_rangeD:
  assumes "datetime_in_range y mo d h mi se"
  shows "1000 \<le> y" "y \<le> 9999" "1 \<le> mo" "mo \<le> 12" "1 \<le> d" "d \<le> 31" "0 \<le> h" "h \<le> 23" "0 \<le> mi" "mi \<le> 59" "0 \<le> se" "se \<le> 59"
  using assms days_in_month_le[of mo y] by (auto simp: datetime_in_range_def)

lemma encode_datetime_parts:
  assumes "datetime_in_range y mo d h mi se"
  shows "format_datetime_value (encode_datetime y mo d h mi se) = datetime_string y mo d h mi se"
proof -
  note r = datetime_in_rangeD[OF assms]
  have step: "(a * 100 + b) sdiv 100 = a" "(a * 100 + b) smod 100 = b" if "0 \<le> a" "0 \<le> b" "b < 100" for a b :: int
    using that by (simp_all add: signed_divide_int_def signed_modulo_int_def sgn_if)
  define e4 e3 e2 e1 where "e4 = y * 100 + mo" and "e3 = e4 * 100 + d" and "e2 = e3 * 100 + h" and "e1 = e2 * 100 + mi"
  have p: "0 \<le> e4" "0 \<le> e3" "0 \<le> e2" "0 \<le> e1" using r by (simp_all add: e4_def e3_def e2_def e1_def)
  have "e1 sdiv 100 = e2" "e1 smod 100 = mi" "e2 sdiv 100 = e3" "e2 smod 100 = h" "e3 sdiv 100 = e4" "e3 smod 100 = d"
    "e4 sdiv 100 = y" "e4 smod 100 = mo"
    using r p step[of e2 mi] step[of e3 h] step[of e4 d] step[of y mo]
    by (simp_all add: e1_def[symmetric] e2_def[symmetric] e3_def[symmetric] e4_def[symmetric])
  moreover have "encode_datetime y mo d h mi se = e1 * 100 + se"
    by (simp only: encode_datetime_def e1_def e2_def e3_def e4_def)
  moreover have "y smod 10000 = y" using r by (simp add: signed_modulo_int_def signed_divide_int_def sgn_if)
  moreover have "length (fmt_int 4 y) = 4" "\<And>n. 0 \<le> n \<Longrightarrow> n \<le> 59 \<Longrightarrow> length (fmt_int 2 n) = 2"
    using r by (simp_all add: length_fmt_int)
  ultimately show ?thesis
    using r p(4) step[of e1 se] by (simp add: format_datetime_value_def Let_def datetime_string_def)
qed

lemma parse_component_iff:
  assumes "0 < len" "begin + len \<le> length v"
  shows "parse_datetime_component v begin len = Inr n \<longleftrightarrow> 0 \<le> n \<and> n < 10 ^ len \<and> take len (drop begin v) = fmt_int len n"
  using component_loop_iff[of "take len (drop begin v)" "len - 1" v n] assms by (simp add: parse_datetime_component_def)

lemma parse_component_error: "parse_datetime_component v begin len = Inl e \<Longrightarrow> e = InvalidDateTimeError v"
proof -
  have "component_loop v cs r = Inl e \<Longrightarrow> e = InvalidDateTimeError v" for cs r
    by (induction v cs r rule: component_loop.induct) (auto split: if_splits)
  then show "parse_datetime_component v begin len = Inl e \<Longrightarrow> e = InvalidDateTimeError v"
    unfolding parse_datetime_component_def by blast
qed

text \<open>The pieces of a string of 19 characters.\<close>

lemma datetime_pieces:
  assumes "length v = 19"
  shows "v = take 4 v @ [v ! 4] @ take 2 (drop 5 v) @ [v ! 7] @ take 2 (drop 8 v) @ [v ! 10] @ take 2 (drop 11 v) @ [v ! 13] @
    take 2 (drop 14 v) @ [v ! 16] @ take 2 (drop 17 v)"
proof -
  have cut: "drop i v = take n (drop i v) @ [v ! (i + n)] @ drop (i + n + 1) v" if "i + n < 19" for i n
    using that assms by (metis Cons_nth_drop_Suc Suc_eq_plus1 append_Cons append_Nil append_take_drop_id add.commute drop_drop)
  have "v = take 4 v @ [v ! 4] @ drop 5 v" using cut[of 0 4] by simp
  also have "drop 5 v = take 2 (drop 5 v) @ [v ! 7] @ drop 8 v" using cut[of 5 2] by simp
  also have "drop 8 v = take 2 (drop 8 v) @ [v ! 10] @ drop 11 v" using cut[of 8 2] by simp
  also have "drop 11 v = take 2 (drop 11 v) @ [v ! 13] @ drop 14 v" using cut[of 11 2] by simp
  also have "drop 14 v = take 2 (drop 14 v) @ [v ! 16] @ drop 17 v" using cut[of 14 2] by simp
  also have "drop 17 v = take 2 (drop 17 v)" using assms by simp
  finally show ?thesis .
qed

lemma datetime_string_pieces:
  assumes "datetime_in_range y mo d h mi se" and v: "v = datetime_string y mo d h mi se"
  shows "length v = 19" "v ! 4 = CHR ''-''" "v ! 7 = CHR ''-''" "v ! 10 = CHR '' ''" "v ! 13 = CHR '':''" "v ! 16 = CHR '':''"
    "take 4 v = fmt_int 4 y" "take 2 (drop 5 v) = fmt_int 2 mo" "take 2 (drop 8 v) = fmt_int 2 d"
    "take 2 (drop 11 v) = fmt_int 2 h" "take 2 (drop 14 v) = fmt_int 2 mi" "take 2 (drop 17 v) = fmt_int 2 se"
proof -
  note r = datetime_in_rangeD[OF assms(1)]
  have l: "length (fmt_int 4 y) = 4" "length (fmt_int 2 mo) = 2" "length (fmt_int 2 d) = 2" "length (fmt_int 2 h) = 2"
    "length (fmt_int 2 mi) = 2" "length (fmt_int 2 se) = 2"
    using r by (simp_all add: length_fmt_int)
  show "length v = 19" "v ! 4 = CHR ''-''" "v ! 7 = CHR ''-''" "v ! 10 = CHR '' ''" "v ! 13 = CHR '':''" "v ! 16 = CHR '':''"
    "take 4 v = fmt_int 4 y" "take 2 (drop 5 v) = fmt_int 2 mo" "take 2 (drop 8 v) = fmt_int 2 d"
    "take 2 (drop 11 v) = fmt_int 2 h" "take 2 (drop 14 v) = fmt_int 2 mi" "take 2 (drop 17 v) = fmt_int 2 se"
    by (simp_all add: v datetime_string_def l nth_append nth_Cons')
qed

lemma parse_datetime_iff:
  "parse_datetime_string v = Inr e \<longleftrightarrow>
     (\<exists>y mo d h mi se. datetime_in_range y mo d h mi se \<and> v = datetime_string y mo d h mi se \<and> e = encode_datetime y mo d h mi se)"
  (is "_ \<longleftrightarrow> (\<exists>y mo d h mi se. ?P y mo d h mi se)")
proof
  assume p: "parse_datetime_string v = Inr e"
  then have v: "length v = 19" "v ! 4 = CHR ''-''" "v ! 7 = CHR ''-''" "v ! 10 = CHR '' ''" "v ! 13 = CHR '':''" "v ! 16 = CHR '':''"
    by (auto simp: parse_datetime_string_def split: if_splits)
  with p obtain y mo d h mi se where c: "parse_datetime_component v 0 4 = Inr y" "parse_datetime_component v 5 2 = Inr mo"
    "parse_datetime_component v 8 2 = Inr d" "parse_datetime_component v 11 2 = Inr h" "parse_datetime_component v 14 2 = Inr mi"
    "parse_datetime_component v 17 2 = Inr se" and r: "datetime_in_range y mo d h mi se" "e = encode_datetime y mo d h mi se"
    by (auto simp: parse_datetime_string_def split: sum.splits if_splits)
  have "v = datetime_string y mo d h mi se"
    using datetime_pieces[OF v(1)] c v by (simp add: parse_component_iff datetime_string_def)
  with r show "\<exists>y mo d h mi se. ?P y mo d h mi se" by blast
next
  assume "\<exists>y mo d h mi se. ?P y mo d h mi se"
  then obtain y mo d h mi se where r: "datetime_in_range y mo d h mi se" "v = datetime_string y mo d h mi se"
    "e = encode_datetime y mo d h mi se" by blast
  note q = datetime_string_pieces[OF r(1,2)] and b = datetime_in_rangeD[OF r(1)]
  have "parse_datetime_component v 0 4 = Inr y" "parse_datetime_component v 5 2 = Inr mo"
    "parse_datetime_component v 8 2 = Inr d" "parse_datetime_component v 11 2 = Inr h" "parse_datetime_component v 14 2 = Inr mi"
    "parse_datetime_component v 17 2 = Inr se"
    using q b by (simp_all add: parse_component_iff length_fmt_int)
  then show "parse_datetime_string v = Inr e" using q r(1,3) by (simp add: parse_datetime_string_def)
qed

text \<open>Property C34: a literal is accepted exactly when it is the printed form of a valid date and time,
  and the value stored for it prints as the literal again.\<close>

theorem datetime_roundtrip:
  "parse_datetime_string v = Inr e \<longleftrightarrow>
     v = format_datetime_value e \<and>
     (\<exists>y mo d h mi se. datetime_in_range y mo d h mi se \<and> e = encode_datetime y mo d h mi se)"
  using encode_datetime_parts unfolding parse_datetime_iff by metis

text \<open>Every other literal is refused with the literal in the message.\<close>

lemma parse_datetime_error: "parse_datetime_string v = Inl e \<Longrightarrow> e = InvalidDateTimeError v"
  by (auto simp: parse_datetime_string_def dest: parse_component_error split: if_splits sum.splits)

end
