(* ===== verification/Floats.thy ===== *)
theory Floats
  imports Types
begin

text \<open>
  The arithmetic of \<open>float\<close> and \<open>long double\<close> the executors use. A finite number is an integer
  multiple of the smallest positive float, \<open>2 ^ -149\<close>, and stands for that integer. A
  \<open>long double\<close> is the 80-bit format of the x86-64 ABI: 64 significant bits and exponents far
  beyond those of the numbers that arise, so that only the number of bits limits a sum. The sign of a zero
  is not kept: it neither shows in comparisons nor arises in sums that start from zero.
\<close>

datatype long_double = LFin int | LInf bool | LNan

abbreviation ld_unit :: int where "ld_unit \<equiv> 2 ^ 149"

definition ld_of_int :: "int \<Rightarrow> long_double" where
  "ld_of_int i = LFin (i * ld_unit)"

definition scale_mag :: "int \<Rightarrow> int" where
  "scale_mag m =
     (let e = m div 2 ^ 23; f = m mod 2 ^ 23 in if e = 0 then f else (2 ^ 23 + f) * 2 ^ nat (e - 1))"

definition float_scaled :: "float32 \<Rightarrow> int" where
  "float_scaled u = (if 2 ^ 31 \<le> u then - scale_mag (float_mag u) else scale_mag (float_mag u))"

definition float_inf :: "float32 \<Rightarrow> bool" where
  "float_inf u \<longleftrightarrow> float_mag u = 255 * 2 ^ 23"

definition ld_of_float :: "float32 \<Rightarrow> long_double" where
  "ld_of_float u =
     (if float_nan u then LNan else if float_inf u then LInf (2 ^ 31 \<le> u) else LFin (float_scaled u))"

fun ld_less :: "long_double \<Rightarrow> long_double \<Rightarrow> bool" where
  "ld_less (LFin a) (LFin b) \<longleftrightarrow> a < b"
| "ld_less (LFin a) (LInf neg) \<longleftrightarrow> \<not> neg"
| "ld_less (LInf neg) (LFin b) \<longleftrightarrow> neg"
| "ld_less (LInf neg) (LInf neg') \<longleftrightarrow> neg \<and> \<not> neg'"
| "ld_less _ _ \<longleftrightarrow> False"

text \<open>Rounding to \<open>k\<close> significant bits, to the nearest, ties to even.\<close>

fun bit_len :: "nat \<Rightarrow> nat" where
  "bit_len n = (if n = 0 then 0 else Suc (bit_len (n div 2)))"

declare bit_len.simps [simp del]

definition round_nat :: "nat \<Rightarrow> nat \<Rightarrow> nat" where
  "round_nat k n =
     (let sh = bit_len n - k; q = n div 2 ^ sh; r = n mod 2 ^ sh
      in (if 2 ^ sh < 2 * r \<or> 2 ^ sh = 2 * r \<and> odd q then q + 1 else q) * 2 ^ sh)"

definition round_int :: "nat \<Rightarrow> int \<Rightarrow> int" where
  "round_int k i = (if i < 0 then - int (round_nat k (nat (- i))) else int (round_nat k (nat i)))"

fun ld_add :: "long_double \<Rightarrow> long_double \<Rightarrow> long_double" where
  "ld_add (LFin a) (LFin b) = LFin (round_int 64 (a + b))"
| "ld_add (LInf neg) (LFin b) = LInf neg"
| "ld_add (LFin a) (LInf neg) = LInf neg"
| "ld_add (LInf neg) (LInf neg') = (if neg = neg' then LInf neg else LNan)"
| "ld_add _ _ = LNan"

text \<open>\<open>static_cast<float>\<close>: 24 significant bits, and infinity when the exponent is too large.\<close>

definition float_of_mag :: "bool \<Rightarrow> nat \<Rightarrow> float32" where
  "float_of_mag neg n =
     (let r = round_nat 24 n; sh = bit_len r - 24
      in (if neg then 2 ^ 31 else 0) + min (int sh * 2 ^ 23 + int (r div 2 ^ sh)) (255 * 2 ^ 23))"

fun float_of_ld :: "long_double \<Rightarrow> float32" where
  "float_of_ld (LFin i) = float_of_mag (i < 0) (nat \<bar>i\<bar>)"
| "float_of_ld (LInf neg) = (if neg then 2 ^ 31 else 0) + 255 * 2 ^ 23"
| "float_of_ld LNan = 511 * 2 ^ 22"

text \<open>\<open>static_cast\<close> to an integer type truncates; out of its range it is not defined.\<close>

fun int_of_ld :: "(int \<Rightarrow> bool) \<Rightarrow> long_double \<Rightarrow> rmdb_error + int" where
  "int_of_ld fits (LFin i) =
     (let n = sgn i * (\<bar>i\<bar> div ld_unit) in if fits n then Inr n else Inl UndefinedBehaviour)"
| "int_of_ld fits _ = Inl UndefinedBehaviour"

section \<open>Order\<close>

lemma scale_mag_less:
  assumes "0 \<le> m" "m < n"
  shows "scale_mag m < scale_mag n"
proof -
  define e f e' f' where "e = m div 2 ^ 23" and "f = m mod 2 ^ 23" and "e' = n div 2 ^ 23" and "f' = n mod 2 ^ 23"
  have m: "m = e * 2 ^ 23 + f" "0 \<le> f" "f < 2 ^ 23" "0 \<le> e" and n: "n = e' * 2 ^ 23 + f'" "0 \<le> f'" "f' < 2 ^ 23" "0 \<le> e'"
    using assms by (simp_all add: e_def f_def e'_def f'_def)
  have le: "e < e' \<or> e = e' \<and> f < f'" using assms m n by auto
  have sm: "scale_mag m = (if e = 0 then f else (2 ^ 23 + f) * 2 ^ nat (e - 1))"
    "scale_mag n = (if e' = 0 then f' else (2 ^ 23 + f') * 2 ^ nat (e' - 1))"
    by (simp_all add: scale_mag_def e_def f_def e'_def f'_def Let_def)
  show ?thesis
  proof (cases "e = e'")
    case True
    then show ?thesis using le sm by auto
  next
    case False
    then have "e < e'" using le by simp
    have "scale_mag m < 2 ^ 23 * 2 ^ nat e"
    proof (cases "e = 0")
      case True
      then show ?thesis using sm m by simp
    next
      case False
      then have "nat e = Suc (nat (e - 1))" using m by simp
      then have "(2 ^ 23 + f) * 2 ^ nat (e - 1) < 2 ^ 23 * 2 ^ nat e" using m by simp
      then show ?thesis using sm False by simp
    qed
    also have "\<dots> \<le> (2 ^ 23 + f') * 2 ^ nat (e' - 1)"
      using n \<open>e < e'\<close> m by (intro mult_mono power_increasing) auto
    finally show ?thesis using sm \<open>e < e'\<close> m by simp
  qed
qed

lemma scale_mag_less_iff: "0 \<le> m \<Longrightarrow> 0 \<le> n \<Longrightarrow> scale_mag m < scale_mag n \<longleftrightarrow> m < n"
  using scale_mag_less[of m n] scale_mag_less[of n m] by (cases m n rule: linorder_cases) auto

lemma scale_mag_zero [simp]: "scale_mag 0 = 0"
  by (simp add: scale_mag_def)

lemma float_mag_nonneg: "0 \<le> float_mag u"
  by (simp add: float_mag_def)

lemma float_scaled_less: "float_scaled u < float_scaled v \<longleftrightarrow> float_rank u < float_rank v"
proof -
  have z: "0 \<le> scale_mag (float_mag w)" "0 < scale_mag (float_mag w) \<longleftrightarrow> 0 < float_mag w" for w
    using scale_mag_less_iff[of 0 "float_mag w"] scale_mag_less_iff[of "float_mag w" 0] float_mag_nonneg[of w]
    by simp_all
  have "scale_mag (float_mag u) < scale_mag (float_mag v) \<longleftrightarrow> float_mag u < float_mag v"
    "scale_mag (float_mag v) < scale_mag (float_mag u) \<longleftrightarrow> float_mag v < float_mag u"
    by (simp_all add: scale_mag_less_iff float_mag_nonneg)
  with z[of u] z[of v] show ?thesis
    using float_mag_nonneg[of u] float_mag_nonneg[of v] by (auto simp: float_scaled_def float_rank_def)
qed

text \<open>A \<open>float\<close> compares as a \<open>long double\<close> the way it compares with another \<open>float\<close>.\<close>

lemma ld_less_float: "ld_less (ld_of_float u) (ld_of_float v) \<longleftrightarrow> float_less u v"
proof -
  have b: "float_rank w < 255 * 2 ^ 23 \<and> - (255 * 2 ^ 23) < float_rank w" if "\<not> float_nan w" "\<not> float_inf w" for w
    using that float_mag_nonneg[of w] unfolding float_rank_def float_inf_def float_nan_def by auto
  have i: "float_rank w = (if 2 ^ 31 \<le> w then - (255 * 2 ^ 23) else 255 * 2 ^ 23)" if "float_inf w" for w
    using that by (simp add: float_rank_def float_inf_def)
  show ?thesis
    using b[of u] b[of v] i[of u] i[of v]
    by (cases "float_nan u"; cases "float_nan v"; cases "float_inf u"; cases "float_inf v")
      (auto simp: ld_of_float_def float_less_def float_scaled_less)
qed

section \<open>Sums of integers\<close>

lemma bit_len_double: "0 < n \<Longrightarrow> bit_len (2 * n) = Suc (bit_len n)"
  by (subst bit_len.simps) simp

lemma bit_len_shift: "0 < n \<Longrightarrow> bit_len (n * 2 ^ k) = bit_len n + k"
proof (induction k)
  case (Suc k)
  then show ?case using bit_len_double[of "n * 2 ^ k"] by (simp add: mult.left_commute)
qed simp

lemma bit_len_le: "n < 2 ^ k \<Longrightarrow> bit_len n \<le> k"
proof (induction k arbitrary: n)
  case (Suc k)
  then have "n div 2 < 2 ^ k" by simp
  from Suc.IH[OF this] show ?case by (simp add: bit_len.simps[of n])
qed (simp add: bit_len.simps)

lemma round_nat_shift:
  assumes "n < 2 ^ k"
  shows "round_nat k (n * 2 ^ j) = n * 2 ^ j"
proof (cases "n = 0")
  case True
  then show ?thesis by (simp add: round_nat_def bit_len.simps)
next
  case False
  define sh where "sh = bit_len (n * 2 ^ j) - k"
  have "sh \<le> j" using bit_len_shift[of n j] bit_len_le[OF assms] False by (simp add: sh_def)
  then have "(2::nat) ^ sh dvd n * 2 ^ j" by (simp add: le_imp_power_dvd)
  then show ?thesis by (simp add: round_nat_def Let_def sh_def[symmetric])
qed

text \<open>As long as it needs no more than 64 bits, a sum of integers is exact.\<close>

lemma ld_add_int:
  assumes "\<bar>s + i\<bar> < 2 ^ 64"
  shows "ld_add (ld_of_int s) (ld_of_int i) = ld_of_int (s + i)"
proof -
  have *: "int (round_nat 64 (nat (m * ld_unit))) = m * ld_unit" if "0 \<le> m" "m < 2 ^ 64" for m
  proof -
    have "nat (m * ld_unit) = nat m * 2 ^ 149" using that by (simp add: nat_mult_distrib nat_power_eq)
    moreover have "nat m < 2 ^ 64" using that by simp
    ultimately show ?thesis using round_nat_shift[of "nat m" 64 149] that by simp
  qed
  have "round_int 64 ((s + i) * ld_unit) = (s + i) * ld_unit"
  proof (cases "s + i < 0")
    case True
    then have "(s + i) * ld_unit < 0" by (intro mult_neg_pos) simp_all
    moreover have "nat (- ((s + i) * ld_unit)) = nat (- (s + i) * ld_unit)" by simp
    ultimately show ?thesis using *[of "- (s + i)"] True assms unfolding round_int_def by simp
  next
    case False
    then have "\<not> (s + i) * ld_unit < 0" by (simp add: not_less)
    then show ?thesis using *[of "s + i"] False assms unfolding round_int_def by simp
  qed
  then show ?thesis by (simp add: ld_of_int_def distrib_right)
qed

lemma int_of_ld_int: "fits i \<Longrightarrow> int_of_ld fits (ld_of_int i) = Inr i"
proof -
  have "sgn (i * ld_unit) * (\<bar>i * ld_unit\<bar> div ld_unit) = i" by (simp add: sgn_mult abs_mult sgn_mult_abs)
  then show "fits i \<Longrightarrow> ?thesis" by (simp add: ld_of_int_def Let_def)
qed

end
