(* ===== verification/IxNode.thy ===== *)
theory IxNode
  imports Types RecordPage
begin

text \<open>
  Index file headers and B+ tree nodes (\<open>index/ix_defs.h\<close> and \<open>IxNodeHandle\<close> of
  \<open>index/ix_index_handle.h\<close>, \<open>index/ix_index_handle.cpp\<close>). A node is its page header and the pairs of
  keys and record identifiers in its slots \<open>0\<close> to \<open>num_key - 1\<close>. The searches and edits of a node are
  shown to be those of a list of pairs sorted by key.
\<close>

section \<open>File headers\<close>

abbreviation IX_NO_PAGE :: int where "IX_NO_PAGE \<equiv> -1"
abbreviation IX_FILE_HDR_PAGE :: int where "IX_FILE_HDR_PAGE \<equiv> 0"
abbreviation IX_LEAF_HEADER_PAGE :: int where "IX_LEAF_HEADER_PAGE \<equiv> 1"
abbreviation IX_INIT_ROOT_PAGE :: int where "IX_INIT_ROOT_PAGE \<equiv> 2"
abbreviation IX_INIT_NUM_PAGES :: int where "IX_INIT_NUM_PAGES \<equiv> 3"
abbreviation IX_MAX_COL_LEN :: int where "IX_MAX_COL_LEN \<equiv> 512"

record IxFileHdr =
  ix_first_free_page_no :: page_id_t
  ix_num_pages :: int
  root_page :: page_id_t
  col_num :: int
  col_types :: "ColType list"
  col_lens :: "int list"
  col_tot_len :: int
  btree_order :: int
  keys_size :: int
  first_leaf :: page_id_t
  last_leaf :: page_id_t
  tot_len :: int

definition update_tot_len :: "IxFileHdr \<Rightarrow> IxFileHdr" where
  "update_tot_len h = h\<lparr>tot_len := 4 * 4 + 4 * 6 + (4 * col_num h + 4 * col_num h)\<rparr>"

text \<open>The vectors hold \<open>col_num_\<close> elements. The result is what \<open>serialize\<close> stores at \<open>dest\<close>, after
  its final assertion.\<close>

definition hdr_fields :: "IxFileHdr \<Rightarrow> int list" where
  "hdr_fields h =
     [tot_len h, ix_first_free_page_no h, ix_num_pages h, root_page h, col_num h] @
     map ColType_code (take (nat (col_num h)) (col_types h)) @ take (nat (col_num h)) (col_lens h) @
     [col_tot_len h, btree_order h, keys_size h, first_leaf h, last_leaf h]"

definition ix_serialize :: "IxFileHdr \<Rightarrow> rmdb_error + bytes" where
  "ix_serialize h =
     (let bs = concat (map (le_bytes 4) (hdr_fields h))
      in if int (length bs) = tot_len h then Inr bs else Inl AssertionFailure)"

definition int_at :: "bytes \<Rightarrow> nat \<Rightarrow> int" where
  "int_at src i = le_sint (mem_get src (4 * i) 4)"

text \<open>\<open>deserialize\<close> into a header as constructed, with empty vectors. A type code outside the
  enumeration is undefined.\<close>

definition ix_deserialize :: "bytes \<Rightarrow> rmdb_error + IxFileHdr" where
  "ix_deserialize src =
     (let n = nat (int_at src 4);
          types = map (\<lambda>i. ColType_of_code (int_at src (5 + i))) [0..<n];
          lens = map (\<lambda>i. int_at src (5 + n + i)) [0..<n];
          h = \<lparr>ix_first_free_page_no = int_at src 1, ix_num_pages = int_at src 2, root_page = int_at src 3,
               col_num = int_at src 4, col_types = map the types, col_lens = lens,
               col_tot_len = int_at src (5 + 2 * n), btree_order = int_at src (6 + 2 * n),
               keys_size = int_at src (7 + 2 * n), first_leaf = int_at src (8 + 2 * n),
               last_leaf = int_at src (9 + 2 * n), tot_len = int_at src 0\<rparr>
      in if None \<in> set types then Inl UndefinedBehaviour
         else if int (4 * (10 + 2 * n)) = tot_len h then Inr h else Inl AssertionFailure)"

section \<open>Nodes\<close>

record ix_node =
  nd_next_free_page_no :: page_id_t
  nd_parent :: page_id_t
  nd_is_leaf :: bool
  nd_prev_leaf :: page_id_t
  nd_next_leaf :: page_id_t
  nd_pairs :: "(bytes \<times> Rid) list"

definition get_size :: "ix_node \<Rightarrow> nat" where
  "get_size n = length (nd_pairs n)"

definition get_max_size :: "IxFileHdr \<Rightarrow> int" where
  "get_max_size h = btree_order h + 1"

definition get_min_size :: "IxFileHdr \<Rightarrow> int" where
  "get_min_size h = get_max_size h div 2"

definition get_key :: "ix_node \<Rightarrow> nat \<Rightarrow> bytes" where
  "get_key n i = fst (nd_pairs n ! i)"

definition get_rid :: "ix_node \<Rightarrow> nat \<Rightarrow> Rid" where
  "get_rid n i = snd (nd_pairs n ! i)"

definition value_at :: "ix_node \<Rightarrow> nat \<Rightarrow> page_id_t" where
  "value_at n i = rid_page_no (get_rid n i)"

definition is_root_page :: "ix_node \<Rightarrow> bool" where
  "is_root_page n \<longleftrightarrow> nd_parent n = INVALID_PAGE_ID"

definition set_key :: "nat \<Rightarrow> bytes \<Rightarrow> ix_node \<Rightarrow> ix_node" where
  "set_key i k n = n\<lparr>nd_pairs := (nd_pairs n)[i := (k, get_rid n i)]\<rparr>"

definition key_compare :: "IxFileHdr \<Rightarrow> bytes \<Rightarrow> bytes \<Rightarrow> int" where
  "key_compare h = ix_compare (col_types h) (col_lens h)"

text \<open>The two binary searches.\<close>

function lower_loop :: "IxFileHdr \<Rightarrow> ix_node \<Rightarrow> bytes \<Rightarrow> nat \<Rightarrow> nat \<Rightarrow> nat" where
  "lower_loop h n target left right =
     (if left < right
      then
        let mid = left + (right - left) div 2 in
        if key_compare h (get_key n mid) target < 0 then lower_loop h n target (mid + 1) right
        else lower_loop h n target left mid
      else left)"
  by pat_completeness auto
termination
  by (relation "measure (\<lambda>(h, n, t, left, right). right - left)") (auto simp: Let_def)

function upper_loop :: "IxFileHdr \<Rightarrow> ix_node \<Rightarrow> bytes \<Rightarrow> nat \<Rightarrow> nat \<Rightarrow> nat" where
  "upper_loop h n target left right =
     (if left < right
      then
        let mid = left + (right - left) div 2 in
        if key_compare h (get_key n mid) target \<le> 0 then upper_loop h n target (mid + 1) right
        else upper_loop h n target left mid
      else left)"
  by pat_completeness auto
termination
  by (relation "measure (\<lambda>(h, n, t, left, right). right - left)") (auto simp: Let_def)

declare lower_loop.simps [simp del] upper_loop.simps [simp del]

definition nd_lower_bound :: "IxFileHdr \<Rightarrow> ix_node \<Rightarrow> bytes \<Rightarrow> nat" where
  "nd_lower_bound h n target = lower_loop h n target 0 (get_size n)"

definition nd_upper_bound :: "IxFileHdr \<Rightarrow> ix_node \<Rightarrow> bytes \<Rightarrow> nat" where
  "nd_upper_bound h n target = upper_loop h n target 1 (get_size n)"

definition leaf_lookup :: "IxFileHdr \<Rightarrow> ix_node \<Rightarrow> bytes \<Rightarrow> Rid option" where
  "leaf_lookup h n key =
     (let key_idx = nd_lower_bound h n key in
      if get_size n \<le> key_idx then None
      else if key_compare h (get_key n key_idx) key \<noteq> 0 then None
      else Some (get_rid n key_idx))"

text \<open>On a node without pairs the child read is not initialised.\<close>

definition internal_lookup :: "IxFileHdr \<Rightarrow> ix_node \<Rightarrow> bytes \<Rightarrow> rmdb_error + page_id_t" where
  "internal_lookup h n key =
     (let child_idx = nd_upper_bound h n key - 1 in
      if child_idx < get_size n then Inr (value_at n child_idx) else Inl UndefinedBehaviour)"

definition insert_pairs :: "IxFileHdr \<Rightarrow> nat \<Rightarrow> (bytes \<times> Rid) list \<Rightarrow> ix_node \<Rightarrow> rmdb_error + ix_node" where
  "insert_pairs h pos kvs n =
     (if pos \<le> get_size n \<and> int (get_size n + length kvs) \<le> get_max_size h
      then Inr (n\<lparr>nd_pairs := take pos (nd_pairs n) @ kvs @ drop pos (nd_pairs n)\<rparr>)
      else Inl AssertionFailure)"

definition nd_insert :: "IxFileHdr \<Rightarrow> bytes \<Rightarrow> Rid \<Rightarrow> ix_node \<Rightarrow> rmdb_error + ix_node" where
  "nd_insert h key value n =
     (let pos = nd_lower_bound h n key in
      if pos < get_size n \<and> key_compare h (get_key n pos) key = 0 then Inr n
      else insert_pairs h pos [(key, value)] n)"

definition erase_pair :: "nat \<Rightarrow> ix_node \<Rightarrow> rmdb_error + ix_node" where
  "erase_pair pos n =
     (if pos < get_size n then Inr (n\<lparr>nd_pairs := take pos (nd_pairs n) @ drop (pos + 1) (nd_pairs n)\<rparr>)
      else Inl AssertionFailure)"

definition nd_remove :: "IxFileHdr \<Rightarrow> bytes \<Rightarrow> ix_node \<Rightarrow> rmdb_error + ix_node" where
  "nd_remove h key n =
     (let pos = nd_lower_bound h n key in
      if pos < get_size n \<and> key_compare h (get_key n pos) key = 0 then erase_pair pos n else Inr n)"

definition remove_and_return_only_child :: "ix_node \<Rightarrow> rmdb_error + page_id_t \<times> ix_node" where
  "remove_and_return_only_child n =
     (if get_size n \<noteq> 1 then Inl AssertionFailure
      else case erase_pair 0 n of Inl e \<Rightarrow> Inl e | Inr n' \<Rightarrow> Inr (value_at n 0, n'))"

fun child_index :: "page_id_t \<Rightarrow> (bytes \<times> Rid) list \<Rightarrow> nat" where
  "child_index c [] = 0"
| "child_index c (kv # kvs) = (if rid_page_no (snd kv) = c then 0 else Suc (child_index c kvs))"

definition find_child :: "page_id_t \<Rightarrow> ix_node \<Rightarrow> rmdb_error + nat" where
  "find_child c n =
     (let rid_idx = child_index c (nd_pairs n)
      in if rid_idx < get_size n then Inr rid_idx else Inl AssertionFailure)"

section \<open>Keys in order\<close>

text \<open>What the nodes need of the comparison of keys: on valid keys its sign is that of the ranks.\<close>

definition ordered_by :: "('k \<Rightarrow> 'r :: linorder) \<Rightarrow> ('k \<times> 'v) list \<Rightarrow> bool" where
  "ordered_by rank kvs \<longleftrightarrow> sorted_wrt (\<lambda>a b. rank (fst a) < rank (fst b)) kvs"

definition below :: "('k \<Rightarrow> 'r :: linorder) \<Rightarrow> 'k \<Rightarrow> ('k \<times> 'v) list \<Rightarrow> nat" where
  "below rank x kvs = length (takeWhile (\<lambda>kv. rank (fst kv) < rank x) kvs)"

text \<open>The three operations on a list of pairs in order.\<close>

definition lookup_by :: "('k \<Rightarrow> 'r :: linorder) \<Rightarrow> 'k \<Rightarrow> ('k \<times> 'v) list \<Rightarrow> 'v option" where
  "lookup_by rank x kvs = map_option snd (find (\<lambda>kv. rank (fst kv) = rank x) kvs)"

definition insert_by :: "('k \<Rightarrow> 'r :: linorder) \<Rightarrow> 'k \<Rightarrow> 'v \<Rightarrow> ('k \<times> 'v) list \<Rightarrow> ('k \<times> 'v) list" where
  "insert_by rank x v kvs =
     filter (\<lambda>kv. rank (fst kv) < rank x) kvs @ (x, v) # filter (\<lambda>kv. rank x < rank (fst kv)) kvs"

definition delete_by :: "('k \<Rightarrow> 'r :: linorder) \<Rightarrow> 'k \<Rightarrow> ('k \<times> 'v) list \<Rightarrow> ('k \<times> 'v) list" where
  "delete_by rank x kvs = filter (\<lambda>kv. rank (fst kv) \<noteq> rank x) kvs"

lemma ordered_append:
  "ordered_by rank (xs @ ys) \<longleftrightarrow>
     ordered_by rank xs \<and> ordered_by rank ys \<and> (\<forall>a \<in> set xs. \<forall>b \<in> set ys. rank (fst a) < rank (fst b))"
  by (simp add: ordered_by_def sorted_wrt_append)

lemma ordered_Cons:
  "ordered_by rank (a # ys) \<longleftrightarrow> ordered_by rank ys \<and> (\<forall>b \<in> set ys. rank (fst a) < rank (fst b))"
  by (auto simp: ordered_by_def)

lemma ordered_nth:
  "ordered_by rank kvs \<Longrightarrow> i < j \<Longrightarrow> j < length kvs \<Longrightarrow> rank (fst (kvs ! i)) < rank (fst (kvs ! j))"
  by (simp add: ordered_by_def sorted_wrt_iff_nth_less)

text \<open>A list in order falls apart at every key.\<close>

lemma ordered_split:
  assumes "ordered_by rank kvs"
  shows "kvs = filter (\<lambda>kv. rank (fst kv) < rank x) kvs @ filter (\<lambda>kv. rank (fst kv) = rank x) kvs @
    filter (\<lambda>kv. rank x < rank (fst kv)) kvs"
  using assms
proof (induction kvs)
  case (Cons a kvs)
  have 1: "filter (\<lambda>kv. rank (fst kv) < rank x) kvs = []" if "\<not> rank (fst a) < rank x"
    using Cons.prems that by (fastforce simp: ordered_Cons filter_empty_conv)
  have 2: "filter (\<lambda>kv. rank (fst kv) = rank x) kvs = []" if "\<not> rank (fst a) < rank x"
    using Cons.prems that by (fastforce simp: ordered_Cons filter_empty_conv)
  show ?case using Cons 1 2 by (cases "rank (fst a)" "rank x" rule: linorder_cases) (auto simp: ordered_Cons)
qed simp

lemma below_filter:
  assumes "ordered_by rank kvs"
  shows "below rank x kvs = length (filter (\<lambda>kv. rank (fst kv) < rank x) kvs)"
  using assms
proof (induction kvs)
  case (Cons a kvs)
  have "filter (\<lambda>kv. rank (fst kv) < rank x) kvs = []" if "\<not> rank (fst a) < rank x"
    using Cons.prems that by (fastforce simp: ordered_Cons filter_empty_conv)
  with Cons show ?case by (auto simp: below_def ordered_Cons)
qed (simp add: below_def)

lemma below_take_drop:
  assumes "ordered_by rank kvs"
  shows "take (below rank x kvs) kvs = filter (\<lambda>kv. rank (fst kv) < rank x) kvs"
    "drop (below rank x kvs) kvs = filter (\<lambda>kv. rank (fst kv) = rank x) kvs @ filter (\<lambda>kv. rank x < rank (fst kv)) kvs"
proof -
  let ?l = "filter (\<lambda>kv. rank (fst kv) < rank x) kvs"
  let ?r = "filter (\<lambda>kv. rank (fst kv) = rank x) kvs @ filter (\<lambda>kv. rank x < rank (fst kv)) kvs"
  have "kvs = ?l @ ?r" by (rule ordered_split[OF assms])
  then have "take (length ?l) kvs = ?l" "drop (length ?l) kvs = ?r" by (metis append_eq_conv_conj)+
  then show "take (below rank x kvs) kvs = ?l" "drop (below rank x kvs) kvs = ?r"
    by (simp_all only: below_filter[OF assms])
qed

lemma below_nth:
  assumes "ordered_by rank kvs" "i < length kvs"
  shows "rank (fst (kvs ! i)) < rank x \<longleftrightarrow> i < below rank x kvs"
proof
  let ?b = "below rank x kvs"
  show "i < ?b" if "rank (fst (kvs ! i)) < rank x"
  proof (rule ccontr)
    assume "\<not> i < ?b"
    then have "kvs ! i \<in> set (drop ?b kvs)" using assms(2) by (auto simp: in_set_conv_nth intro!: exI[of _ "i - ?b"])
    with that show False using below_take_drop(2)[OF assms(1), of x] by auto
  qed
  show "rank (fst (kvs ! i)) < rank x" if "i < ?b"
  proof -
    have "kvs ! i \<in> set (take ?b kvs)" using that assms(2) by (auto simp: in_set_conv_nth intro!: exI[of _ i])
    then show ?thesis using below_take_drop(1)[OF assms(1), of x] by auto
  qed
qed

lemma below_le: "below rank x kvs \<le> length kvs"
  by (simp add: below_def length_takeWhile_le)

text \<open>At most one pair has a given rank.\<close>

lemma equal_filter:
  assumes "ordered_by rank kvs"
  shows "filter (\<lambda>kv. rank (fst kv) = rank x) kvs =
    (if below rank x kvs < length kvs \<and> rank (fst (kvs ! below rank x kvs)) = rank x then [kvs ! below rank x kvs] else [])"
    (is "?e = _")
proof -
  let ?b = "below rank x kvs"
  have d: "drop ?b kvs = ?e @ filter (\<lambda>kv. rank x < rank (fst kv)) kvs" by (rule below_take_drop[OF assms])
  have o: "ordered_by rank ?e" using assms by (simp add: ordered_by_def sorted_wrt_filter)
  show ?thesis
  proof (cases ?e)
    case Nil
    have "rank (fst (kvs ! ?b)) \<noteq> rank x" if "?b < length kvs" using Nil that by (auto simp: filter_empty_conv)
    then show ?thesis using Nil by auto
  next
    case (Cons a as)
    have all: "\<forall>e \<in> set (a # as). rank (fst e) = rank x" 
    proof
      fix e assume "e \<in> set (a # as)"
      then have "e \<in> set ?e" using Cons by simp
      then show "rank (fst e) = rank x" by simp
    qed
    then have "as = []" using o Cons by (cases as) (auto simp: ordered_Cons)
    moreover have lt: "?b < length kvs" using d Cons by (metis append_Cons drop_eq_Nil linorder_not_le list.distinct(1))
    moreover have "kvs ! ?b = a" using d Cons lt by (metis append_Cons nth_Cons_0 Cons_nth_drop_Suc)
    ultimately show ?thesis using Cons all by simp
  qed
qed

lemma find_filter: "find P xs = (case filter P xs of [] \<Rightarrow> None | a # as \<Rightarrow> Some a)"
  by (induction xs) auto

lemma lookup_by_below:
  assumes "ordered_by rank kvs"
  shows "lookup_by rank x kvs =
    (let b = below rank x kvs in if b < length kvs \<and> rank (fst (kvs ! b)) = rank x then Some (snd (kvs ! b)) else None)"
  using equal_filter[OF assms, of x] by (auto simp: lookup_by_def Let_def find_filter)

lemma insert_by_below:
  assumes "ordered_by rank kvs" "lookup_by rank x kvs = None"
  shows "insert_by rank x v kvs = take (below rank x kvs) kvs @ (x, v) # drop (below rank x kvs) kvs"
proof -
  have "filter (\<lambda>kv. rank (fst kv) = rank x) kvs = []" using assms(2) by (auto simp: lookup_by_def find_None_iff filter_empty_conv)
  then show ?thesis using below_take_drop[OF assms(1), of x] by (simp add: insert_by_def)
qed

lemma delete_by_below:
  assumes "ordered_by rank kvs"
  shows "delete_by rank x kvs = (if lookup_by rank x kvs = None then kvs
    else take (below rank x kvs) kvs @ drop (below rank x kvs + 1) kvs)"
proof (cases "lookup_by rank x kvs = None")
  case True
  then show ?thesis by (auto simp: delete_by_def lookup_by_def find_None_iff intro!: filter_True)
next
  case False
  let ?b = "below rank x kvs"
  let ?l = "filter (\<lambda>kv. rank (fst kv) < rank x) kvs" and ?g = "filter (\<lambda>kv. rank x < rank (fst kv)) kvs"
  have b: "?b < length kvs" "rank (fst (kvs ! ?b)) = rank x"
    using False lookup_by_below[OF assms, of x] by (auto simp: Let_def split: if_splits)
  have d: "drop ?b kvs = (kvs ! ?b) # ?g" using below_take_drop(2)[OF assms, of x] equal_filter[OF assms, of x] b by simp
  then have d1: "drop (?b + 1) kvs = ?g" by (metis Suc_eq_plus1 drop_Suc list.sel(3) tl_drop)
  have "delete_by rank x kvs = delete_by rank x (?l @ (kvs ! ?b) # ?g)"
    using below_take_drop(1)[OF assms, of x] d by (metis append_take_drop_id)
  also have "\<dots> = ?l @ ?g" using b(2) by (auto simp: delete_by_def intro!: arg_cong2[where f = append] filter_cong)
  finally show ?thesis using False below_take_drop(1)[OF assms, of x] d1 by (simp only: if_False)
qed

lemma insert_by_ordered:
  "ordered_by rank kvs \<Longrightarrow> ordered_by rank (insert_by rank x v kvs)"
  by (auto simp: insert_by_def ordered_by_def sorted_wrt_append sorted_wrt_filter)

lemma delete_by_ordered: "ordered_by rank kvs \<Longrightarrow> ordered_by rank (delete_by rank x kvs)"
  by (simp add: delete_by_def ordered_by_def sorted_wrt_filter)

section \<open>The operations of a node\<close>

text \<open>A header for keys of these columns, with room for more than two pairs in a node.\<close>

definition hdr_for :: "ColType list \<Rightarrow> int list \<Rightarrow> IxFileHdr \<Rightarrow> bool" where
  "hdr_for types lens h \<longleftrightarrow> col_types h = types \<and> col_lens h = lens \<and> col_tot_len h = sum_list lens \<and> 2 < btree_order h"

text \<open>The child for a key: the last one whose separator is not above it; the first separator
  is not looked at.\<close>

definition child_pos :: "('k \<Rightarrow> 'r :: linorder) \<Rightarrow> 'k \<Rightarrow> ('k \<times> 'v) list \<Rightarrow> nat" where
  "child_pos rank x kvs = length (takeWhile (\<lambda>kv. rank (fst kv) \<le> rank x) (tl kvs))"

lemma child_pos_nth:
  assumes "ordered_by rank (tl kvs)" "0 < i" "i < length kvs"
  shows "rank (fst (kvs ! i)) \<le> rank x \<longleftrightarrow> i \<le> child_pos rank x kvs"
proof -
  let ?P = "\<lambda>kv. rank (fst kv) \<le> rank x" and ?c = "child_pos rank x kvs"
  have i: "kvs ! i = tl kvs ! (i - 1)" "i - 1 < length (tl kvs)" using assms by (auto simp: nth_tl)
  show ?thesis
  proof
    assume "i \<le> ?c"
    then have "i - 1 < length (takeWhile ?P (tl kvs))" using assms(2) by (simp add: child_pos_def)
    then show "?P (kvs ! i)" unfolding i(1) by (metis nth_mem set_takeWhileD takeWhile_nth)
  next
    assume p: "?P (kvs ! i)"
    show "i \<le> ?c"
    proof (rule ccontr)
      assume "\<not> i \<le> ?c"
      then have c: "?c \<le> i - 1" "?c < length (tl kvs)" using i(2) by auto
      then have "\<not> ?P (tl kvs ! ?c)" unfolding child_pos_def by (metis nth_length_takeWhile)
      moreover have "?c = i - 1 \<or> rank (fst (tl kvs ! ?c)) < rank (fst (tl kvs ! (i - 1)))"
        using ordered_nth[OF assms(1), of ?c "i - 1"] c i(2) by linarith
      ultimately show False using p i(1) by auto
    qed
  qed
qed

lemma child_pos_less: "kvs \<noteq> [] \<Longrightarrow> child_pos rank x kvs < length kvs"
  using length_takeWhile_le[of "\<lambda>kv. rank (fst kv) \<le> rank x" "tl kvs"] by (cases kvs) (auto simp: child_pos_def)

text \<open>The contract of the comparison, and the node operations proved once from it.\<close>

locale key_order =
  fixes types :: "ColType list" and lens :: "int list" and rank :: "bytes \<Rightarrow> 'r :: linorder" and ok :: "bytes \<Rightarrow> bool"
  assumes cmp_less: "ok a \<Longrightarrow> ok b \<Longrightarrow> ix_compare types lens a b < 0 \<longleftrightarrow> rank a < rank b"
    and cmp_eq: "ok a \<Longrightarrow> ok b \<Longrightarrow> ix_compare types lens a b = 0 \<longleftrightarrow> rank a = rank b"
    and ok_length: "ok a \<Longrightarrow> length a = nat (sum_list lens)"
begin

lemma key_compare_for: "hdr_for types lens h \<Longrightarrow> key_compare h = ix_compare types lens"
  by (simp add: hdr_for_def key_compare_def)

lemma cmp_le: "ok a \<Longrightarrow> ok b \<Longrightarrow> ix_compare types lens a b \<le> 0 \<longleftrightarrow> rank a \<le> rank b"
  using cmp_less[of a b] cmp_eq[of a b] by (auto simp: order_le_less)

lemma lower_loop_below:
  assumes h: "hdr_for types lens h" and n: "ordered_by rank (nd_pairs n)" "\<forall>kv \<in> set (nd_pairs n). ok (fst kv)" and x: "ok x"
  shows "left \<le> below rank x (nd_pairs n) \<Longrightarrow> below rank x (nd_pairs n) \<le> right \<Longrightarrow> right \<le> get_size n \<Longrightarrow>
    lower_loop h n x left right = below rank x (nd_pairs n)"
proof (induction "right - left" arbitrary: left right rule: less_induct)
  case less
  let ?b = "below rank x (nd_pairs n)" and ?mid = "left + (right - left) div 2"
  show ?case
  proof (cases "left < right")
    case True
    then have m: "?mid < right" "?mid < length (nd_pairs n)" using less.prems by (auto simp: get_size_def)
    then have "key_compare h (get_key n ?mid) x < 0 \<longleftrightarrow> ?mid < ?b"
      using cmp_less[of "get_key n ?mid" x] n x below_nth[OF n(1), of ?mid x] by (simp add: key_compare_for[OF h] get_key_def)
    moreover have "right - (?mid + 1) < right - left" "?mid - left < right - left" using True m by auto
    ultimately show ?thesis
      using less.hyps[of right "?mid + 1"] less.hyps[of ?mid left] less.prems True m
      by (subst lower_loop.simps) (auto simp: Let_def)
  next
    case False
    with less.prems show ?thesis by (subst lower_loop.simps) auto
  qed
qed

lemma nd_lower_bound_below:
  "hdr_for types lens h \<Longrightarrow> ordered_by rank (nd_pairs n) \<Longrightarrow> \<forall>kv \<in> set (nd_pairs n). ok (fst kv) \<Longrightarrow> ok x \<Longrightarrow>
    nd_lower_bound h n x = below rank x (nd_pairs n)"
  using below_le[of rank x "nd_pairs n"] by (simp add: nd_lower_bound_def lower_loop_below get_size_def)

lemma leaf_lookup_lookup:
  assumes h: "hdr_for types lens h" and n: "ordered_by rank (nd_pairs n)" "\<forall>kv \<in> set (nd_pairs n). ok (fst kv)" and x: "ok x"
  shows "leaf_lookup h n x = lookup_by rank x (nd_pairs n)"
  using cmp_eq[of "get_key n (below rank x (nd_pairs n))" x] n x
  by (auto simp: leaf_lookup_def Let_def nd_lower_bound_below[OF assms] lookup_by_below[OF n(1)] get_size_def get_rid_def
      get_key_def key_compare_for[OF h])

lemma nd_insert_insert:
  assumes h: "hdr_for types lens h" and n: "ordered_by rank (nd_pairs n)" "\<forall>kv \<in> set (nd_pairs n). ok (fst kv)" and x: "ok x"
    and new: "lookup_by rank x (nd_pairs n) = None" and room: "int (get_size n) < get_max_size h"
  shows "nd_insert h x v n = Inr (n\<lparr>nd_pairs := insert_by rank x v (nd_pairs n)\<rparr>)"
  using cmp_eq[of "get_key n (below rank x (nd_pairs n))" x] n x new room below_le[of rank x "nd_pairs n"]
  by (auto simp: nd_insert_def Let_def nd_lower_bound_below[OF h n x] lookup_by_below[OF n(1)] get_size_def
      get_key_def key_compare_for[OF h] insert_pairs_def insert_by_below[OF n(1) new] split: if_splits)

lemma nd_remove_delete:
  assumes h: "hdr_for types lens h" and n: "ordered_by rank (nd_pairs n)" "\<forall>kv \<in> set (nd_pairs n). ok (fst kv)" and x: "ok x"
  shows "nd_remove h x n = Inr (n\<lparr>nd_pairs := delete_by rank x (nd_pairs n)\<rparr>)"
  using cmp_eq[of "get_key n (below rank x (nd_pairs n))" x] n x
  by (auto simp: nd_remove_def Let_def nd_lower_bound_below[OF assms] lookup_by_below[OF n(1)] get_size_def
      get_key_def key_compare_for[OF h] erase_pair_def delete_by_below[OF n(1)] split: if_splits)

lemma upper_loop_child_pos:
  assumes h: "hdr_for types lens h" and n: "ordered_by rank (tl (nd_pairs n))" "\<forall>kv \<in> set (tl (nd_pairs n)). ok (fst kv)" and x: "ok x"
  shows "0 < left \<Longrightarrow> left \<le> child_pos rank x (nd_pairs n) + 1 \<Longrightarrow> child_pos rank x (nd_pairs n) < right \<Longrightarrow> right \<le> get_size n \<Longrightarrow>
    upper_loop h n x left right = child_pos rank x (nd_pairs n) + 1"
proof (induction "right - left" arbitrary: left right rule: less_induct)
  case less
  let ?b = "child_pos rank x (nd_pairs n)" and ?mid = "left + (right - left) div 2"
  show ?case
  proof (cases "left < right")
    case True
    then have m: "0 < ?mid" "?mid < right" "?mid < length (nd_pairs n)" using less.prems by (auto simp: get_size_def)
    have "nd_pairs n ! ?mid = tl (nd_pairs n) ! (?mid - 1)" "?mid - 1 < length (tl (nd_pairs n))"
      using m(1,3) by (auto simp: nth_tl)
    then have "nd_pairs n ! ?mid \<in> set (tl (nd_pairs n))" using nth_mem by metis
    then have "key_compare h (get_key n ?mid) x \<le> 0 \<longleftrightarrow> ?mid \<le> ?b"
      using cmp_le[of "get_key n ?mid" x] n x child_pos_nth[OF n(1) m(1,3), where x = x] by (simp add: key_compare_for[OF h] get_key_def)
    moreover have "right - (?mid + 1) < right - left" "?mid - left < right - left" using True m by auto
    ultimately show ?thesis
      using less.hyps[of right "?mid + 1"] less.hyps[of ?mid left] less.prems True m
      by (subst upper_loop.simps) (auto simp: Let_def)
  next
    case False
    with less.prems show ?thesis by (subst upper_loop.simps) auto
  qed
qed

lemma internal_lookup_child:
  assumes h: "hdr_for types lens h" and n: "ordered_by rank (tl (nd_pairs n))" "\<forall>kv \<in> set (tl (nd_pairs n)). ok (fst kv)" and x: "ok x"
    and ne: "nd_pairs n \<noteq> []"
  shows "internal_lookup h n x = Inr (value_at n (child_pos rank x (nd_pairs n)))"
  using upper_loop_child_pos[OF h n x, of 1 "get_size n"] child_pos_less[OF ne, of rank x]
  by (simp add: internal_lookup_def nd_upper_bound_def get_size_def)

end

text \<open>The comparison of the index keys meets the contract.\<close>

lemma key_wf_length: "key_wf types lens k \<Longrightarrow> length k = nat (sum_list lens) \<and> 0 \<le> sum_list lens"
proof (induction types lens k rule: key_wf.induct)
  case (2 ty types len lens k)
  then have "0 \<le> len" by (cases ty) auto
  with 2 show ?case by auto
qed auto

interpretation ko: key_order types lens "key_rank types lens" "key_wf types lens" for types lens
  by unfold_locales (simp_all add: ix_compare_rank key_wf_length)


section \<open>Properties\<close>

definition ix_hdr_wf :: "IxFileHdr \<Rightarrow> bool" where
  "ix_hdr_wf h \<longleftrightarrow> col_num h = int (length (col_types h)) \<and> length (col_lens h) = length (col_types h) \<and>
     tot_len h = 4 * (10 + 2 * col_num h) \<and> list_all int32 (hdr_fields h)"

lemma int_at_concat:
  "i < length xs \<Longrightarrow> int32 (xs ! i) \<Longrightarrow> int_at (concat (map (le_bytes 4) xs) @ rest) i = xs ! i"
proof (induction xs arbitrary: i)
  case (Cons x xs)
  show ?case
  proof (cases i)
    case 0
    then show ?thesis using Cons.prems by (simp add: int_at_def mem_get_def)
  next
    case (Suc j)
    have "int_at (concat (map (le_bytes 4) (x # xs)) @ rest) (Suc j) = int_at (concat (map (le_bytes 4) xs) @ rest) j"
      by (simp add: int_at_def mem_get_def)
    with Suc Cons show ?thesis by simp
  qed
qed simp

text \<open>An index file header survives a round trip through the header page: what
  \<open>serialize\<close> stores there, \<open>deserialize\<close> reads back, whatever follows on the page.\<close>

theorem ix_hdr_roundtrip:
  assumes "ix_hdr_wf h"
  shows "\<exists>bs. ix_serialize h = Inr bs \<and> int (length bs) = tot_len h \<and> ix_deserialize (bs @ rest) = Inr h"
proof -
  let ?xs = "hdr_fields h" and ?n = "length (col_types h)"
  let ?bs = "concat (map (le_bytes 4) (hdr_fields h))"
  have wf: "col_num h = int ?n" "length (col_lens h) = ?n" "tot_len h = 4 * (10 + 2 * col_num h)" "list_all int32 ?xs"
    using assms by (auto simp: ix_hdr_wf_def)
  have xs: "?xs = [tot_len h, ix_first_free_page_no h, ix_num_pages h, root_page h, col_num h] @
     map ColType_code (col_types h) @ col_lens h @ [col_tot_len h, btree_order h, keys_size h, first_leaf h, last_leaf h]"
    using wf by (simp add: hdr_fields_def)
  have len: "length ?xs = 10 + 2 * ?n" using wf by (simp add: xs)
  have "length ?bs = 4 * length ?xs" by (simp add: length_concat comp_def sum_list_triv)
  then have bl: "int (length ?bs) = tot_len h" using len wf by simp
  have at: "int_at (?bs @ rest) i = ?xs ! i" if "i < 10 + 2 * ?n" for i
    by (rule int_at_concat) (use that len wf(4) in \<open>simp_all add: list_all_length\<close>)
  have ty: "map (\<lambda>i. ColType_of_code (int_at (?bs @ rest) (5 + i))) [0..<?n] = map Some (col_types h)"
    by (rule nth_equalityI) (use at in \<open>simp_all add: xs nth_append\<close>)
  have ln: "map (\<lambda>i. int_at (?bs @ rest) (5 + ?n + i)) [0..<?n] = col_lens h"
    by (rule nth_equalityI) (use at wf in \<open>simp_all add: xs nth_append\<close>)
  have c: "int_at (?bs @ rest) 4 = int ?n" using at[of 4] wf(1) by (simp add: xs nth_append)
  have fs: "int_at (?bs @ rest) 0 = tot_len h" "int_at (?bs @ rest) 1 = ix_first_free_page_no h"
    "int_at (?bs @ rest) 2 = ix_num_pages h" "int_at (?bs @ rest) 3 = root_page h"
    using at[of 0] at[of 1] at[of 2] at[of 3] by (simp_all add: xs)
  have gs: "int_at (?bs @ rest) (5 + 2 * ?n) = col_tot_len h" "int_at (?bs @ rest) (6 + 2 * ?n) = btree_order h"
    "int_at (?bs @ rest) (7 + 2 * ?n) = keys_size h" "int_at (?bs @ rest) (8 + 2 * ?n) = first_leaf h"
    "int_at (?bs @ rest) (9 + 2 * ?n) = last_leaf h"
    using wf(2) at[of "5 + 2 * ?n"] at[of "6 + 2 * ?n"] at[of "7 + 2 * ?n"] at[of "8 + 2 * ?n"] at[of "9 + 2 * ?n"]
    by (simp_all add: xs nth_append)
  have "ix_deserialize (?bs @ rest) = Inr h"
    unfolding ix_deserialize_def Let_def c nat_int ty ln fs gs using wf by (simp add: comp_def)
  then show ?thesis using bl by (intro exI[of _ ?bs]) (simp add: ix_serialize_def)
qed

definition demo_ix_hdr :: IxFileHdr where
  "demo_ix_hdr = \<lparr>ix_first_free_page_no = -1, ix_num_pages = 3, root_page = 2, col_num = 2, col_types = [TYPE_INT, TYPE_STRING],
     col_lens = [4, 12], col_tot_len = 16, btree_order = 168, keys_size = 2704, first_leaf = 2, last_leaf = 2, tot_len = 56\<rparr>"

theorem ix_hdr_roundtrip_witness:
  "\<exists>bs. ix_serialize demo_ix_hdr = Inr bs \<and> int (length bs) = 56 \<and> ix_deserialize (bs @ replicate 4040 0) = Inr demo_ix_hdr"
proof -
  have "ix_hdr_wf demo_ix_hdr" by (simp add: ix_hdr_wf_def demo_ix_hdr_def hdr_fields_def int32_def)
  from ix_hdr_roundtrip[OF this, of "replicate 4040 0"] show ?thesis by (simp add: demo_ix_hdr_def)
qed

end
