(* ===== verification/IxTree.thy ===== *)
theory IxTree
  imports IxNode
begin

text \<open>
  The B+ tree of an index (\<open>IxIndexHandle\<close> of \<open>index/ix_index_handle.cpp\<close> and \<open>IxScan\<close> of
  \<open>index/ix_scan.cpp\<close>). The pages of the index file are a store of nodes, an \<open>IxNodeHandle\<close> pointer is
  the number of its page, so that two handles of one page see each other's changes. Pins, which
  only the buffer pool sees, are left out, and so are the parameters the code ignores.
\<close>

section \<open>State\<close>

record ix_state =
  ix_hdr :: IxFileHdr
  ix_nodes :: "page_id_t \<rightharpoonup> ix_node"
  ix_next_page :: page_id_t

datatype Iid = Iid (iid_page_no: int) (iid_slot_no: int)

abbreviation node_at :: "ix_state \<Rightarrow> page_id_t \<Rightarrow> ix_node" where
  "node_at s p \<equiv> the (ix_nodes s p)"

definition set_node :: "page_id_t \<Rightarrow> ix_node \<Rightarrow> ix_state \<Rightarrow> ix_state" where
  "set_node p n s = s\<lparr>ix_nodes := (ix_nodes s)(p \<mapsto> n)\<rparr>"

definition edit_node :: "page_id_t \<Rightarrow> (ix_node \<Rightarrow> ix_node) \<Rightarrow> (ix_state, unit) comp" where
  "edit_node p f = modifyE (\<lambda>s. set_node p (f (node_at s p)) s)"

text \<open>A method of a node that may fail.\<close>

definition call_node :: "page_id_t \<Rightarrow> (IxFileHdr \<Rightarrow> ix_node \<Rightarrow> rmdb_error + ix_node) \<Rightarrow> (ix_state, unit) comp" where
  "call_node p f s =
     (case f (ix_hdr s) (node_at s p) of Inl e \<Rightarrow> (Inl e, s) | Inr n \<Rightarrow> (Inr (), set_node p n s))"

definition ask_node :: "page_id_t \<Rightarrow> (IxFileHdr \<Rightarrow> ix_node \<Rightarrow> rmdb_error + 'a) \<Rightarrow> (ix_state, 'a) comp" where
  "ask_node p f s = (f (ix_hdr s) (node_at s p), s)"

text \<open>Reading a slot; the slots from \<open>num_key\<close> on hold whatever was there before.\<close>

definition slot_of :: "nat \<Rightarrow> (ix_node \<Rightarrow> nat \<Rightarrow> 'a) \<Rightarrow> IxFileHdr \<Rightarrow> ix_node \<Rightarrow> rmdb_error + 'a" where
  "slot_of i f h n = (if i < get_size n then Inr (f n i) else Inl UndefinedBehaviour)"

section \<open>Getting and creating nodes\<close>

definition fetch_node :: "page_id_t \<Rightarrow> (ix_state, page_id_t) comp" where
  "fetch_node p s =
     (if p < 0 then (Inl UnixError, s)
      else if ix_nodes s p = None then (Inl (InternalError ''DiskManager::read_page Error''), s)
      else (Inr p, s))"

definition zero_node :: ix_node where
  "zero_node = \<lparr>nd_next_free_page_no = 0, nd_parent = 0, nd_is_leaf = False, nd_prev_leaf = 0, nd_next_leaf = 0, nd_pairs = []\<rparr>"

definition create_node :: "(ix_state, page_id_t) comp" where
  "create_node s =
     (let h = ix_hdr s; p = ix_next_page s
      in (Inr p, set_node p zero_node s\<lparr>ix_hdr := h\<lparr>ix_num_pages := ix_num_pages h + 1\<rparr>, ix_next_page := p + 1\<rparr>))"

definition update_root_page_no :: "page_id_t \<Rightarrow> (ix_state, unit) comp" where
  "update_root_page_no root = modifyE (\<lambda>s. s\<lparr>ix_hdr := (ix_hdr s)\<lparr>root_page := root\<rparr>\<rparr>)"

definition ix_is_empty :: "ix_state \<Rightarrow> bool" where
  "ix_is_empty s \<longleftrightarrow> root_page (ix_hdr s) = IX_NO_PAGE"

definition release_node_handle :: "page_id_t \<Rightarrow> (ix_state, unit) comp" where
  "release_node_handle p = modifyE (\<lambda>s. s\<lparr>ix_hdr := (ix_hdr s)\<lparr>ix_num_pages := ix_num_pages (ix_hdr s) - 1\<rparr>\<rparr>)"

definition maintain_child :: "page_id_t \<Rightarrow> nat \<Rightarrow> (ix_state, unit) comp" where
  "maintain_child node child_idx =
     bindE (getE (\<lambda>s. nd_is_leaf (node_at s node))) (\<lambda>leaf.
       if leaf then returnE ()
       else
         bindE (ask_node node (slot_of child_idx value_at)) (\<lambda>child_page_no.
           bindE (fetch_node child_page_no) (\<lambda>child.
             edit_node child (\<lambda>n. n\<lparr>nd_parent := node\<rparr>))))"

text \<open>The loop climbs at most \<open>fuel\<close> parents.\<close>

fun maintain_parent :: "nat \<Rightarrow> page_id_t \<Rightarrow> (ix_state, unit) comp" where
  "maintain_parent fuel node =
     bindE (getE (\<lambda>s. nd_parent (node_at s node))) (\<lambda>up.
       if up = IX_NO_PAGE then returnE ()
       else
         (case fuel of
            0 \<Rightarrow> throwE OutOfFuel
          | Suc fuel' \<Rightarrow>
              bindE (fetch_node up) (\<lambda>parent.
                bindE (ask_node parent (\<lambda>h. find_child node)) (\<lambda>rank.
                  bindE (ask_node parent (slot_of rank get_key)) (\<lambda>parent_key.
                    bindE (ask_node node (slot_of 0 get_key)) (\<lambda>child_first_key.
                      bindE (getE (\<lambda>s. nat (col_tot_len (ix_hdr s)))) (\<lambda>len.
                        if memcmp parent_key child_first_key len = 0 then returnE ()
                        else thenE (edit_node parent (set_key rank child_first_key)) (maintain_parent fuel' parent))))))))"

declare maintain_parent.simps [simp del]

definition erase_leaf :: "page_id_t \<Rightarrow> (ix_state, unit) comp" where
  "erase_leaf leaf =
     bindE (getE (\<lambda>s. node_at s leaf)) (\<lambda>n.
       thenE (assertE (nd_is_leaf n))
      (bindE (fetch_node (nd_prev_leaf n)) (\<lambda>prev.
        thenE (edit_node prev (\<lambda>m. m\<lparr>nd_next_leaf := nd_next_leaf n\<rparr>))
       (bindE (getE (\<lambda>s. node_at s leaf)) (\<lambda>n.
         bindE (fetch_node (nd_next_leaf n)) (\<lambda>next.
           edit_node next (\<lambda>m. m\<lparr>nd_prev_leaf := nd_prev_leaf n\<rparr>)))))))"

section \<open>Search\<close>

fun descend :: "nat \<Rightarrow> bytes \<Rightarrow> bool \<Rightarrow> page_id_t \<Rightarrow> (ix_state, page_id_t) comp" where
  "descend fuel key find_first node =
     bindE (getE (\<lambda>s. nd_is_leaf (node_at s node))) (\<lambda>leaf.
       if leaf then returnE node
       else
         (case fuel of
            0 \<Rightarrow> throwE OutOfFuel
          | Suc fuel' \<Rightarrow>
              bindE (if find_first then ask_node node (slot_of 0 value_at)
                     else ask_node node (\<lambda>h n. internal_lookup h n key)) (\<lambda>child_page_no.
                bindE (fetch_node child_page_no) (\<lambda>child. descend fuel' key find_first child))))"

declare descend.simps [simp del]

definition find_leaf_page :: "nat \<Rightarrow> bytes \<Rightarrow> bool \<Rightarrow> (ix_state, page_id_t) comp" where
  "find_leaf_page fuel key find_first =
     bindE (getE (\<lambda>s. root_page (ix_hdr s))) (\<lambda>root.
       bindE (fetch_node root) (\<lambda>node. descend fuel key find_first node))"

definition get_value :: "nat \<Rightarrow> bytes \<Rightarrow> (ix_state, Rid option) comp" where
  "get_value fuel key =
     bindE (find_leaf_page fuel key False) (\<lambda>leaf. getE (\<lambda>s. leaf_lookup (ix_hdr s) (node_at s leaf) key))"

section \<open>Insertion\<close>

definition link_new_leaf :: "page_id_t \<Rightarrow> page_id_t \<Rightarrow> (ix_state, unit) comp" where
  "link_new_leaf node new_node =
     thenE (edit_node new_node (\<lambda>n. n\<lparr>nd_prev_leaf := node\<rparr>))
    (thenE (modifyE (\<lambda>s. set_node new_node ((node_at s new_node)\<lparr>nd_next_leaf := nd_next_leaf (node_at s node)\<rparr>) s))
    (bindE (getE (\<lambda>s. nd_next_leaf (node_at s node))) (\<lambda>next.
     bindE (fetch_node next) (\<lambda>next_leaf.
       thenE (edit_node next_leaf (\<lambda>n. n\<lparr>nd_prev_leaf := new_node\<rparr>))
      (thenE (edit_node node (\<lambda>n. n\<lparr>nd_next_leaf := new_node\<rparr>))
      (modifyE (\<lambda>s. if last_leaf (ix_hdr s) = node then s\<lparr>ix_hdr := (ix_hdr s)\<lparr>last_leaf := new_node\<rparr>\<rparr> else s)))))))"

definition split_node :: "page_id_t \<Rightarrow> (ix_state, page_id_t) comp" where
  "split_node node =
     bindE create_node (\<lambda>new_node.
       thenE (modifyE (\<lambda>s. set_node new_node
         \<lparr>nd_next_free_page_no = IX_NO_PAGE, nd_parent = nd_parent (node_at s node), nd_is_leaf = nd_is_leaf (node_at s node),
          nd_prev_leaf = IX_NO_PAGE, nd_next_leaf = IX_NO_PAGE, nd_pairs = []\<rparr> s))
      (bindE (getE (\<lambda>s. nd_pairs (node_at s node))) (\<lambda>kvs.
        let split_pos = length kvs div 2 in
        thenE (call_node new_node (\<lambda>h. insert_pairs h 0 (drop split_pos kvs)))
       (thenE (edit_node node (\<lambda>n. n\<lparr>nd_pairs := take split_pos (nd_pairs n)\<rparr>))
       (bindE (getE (\<lambda>s. nd_is_leaf (node_at s node))) (\<lambda>leaf.
         thenE (if leaf then link_new_leaf node new_node
                else mapE (maintain_child new_node) [0..<length kvs - split_pos])
           (returnE new_node)))))))"

definition new_root :: "page_id_t \<Rightarrow> bytes \<Rightarrow> page_id_t \<Rightarrow> (ix_state, unit) comp" where
  "new_root old_node key new_node =
     bindE create_node (\<lambda>root.
       thenE (edit_node root (\<lambda>_.
         \<lparr>nd_next_free_page_no = IX_NO_PAGE, nd_parent = IX_NO_PAGE, nd_is_leaf = False, nd_prev_leaf = IX_NO_PAGE,
          nd_next_leaf = IX_NO_PAGE, nd_pairs = []\<rparr>))
      (bindE (ask_node old_node (slot_of 0 get_key)) (\<lambda>old_key.
        thenE (call_node root (\<lambda>h. insert_pairs h 0 [(old_key, Rid old_node (-1))]))
       (thenE (call_node root (\<lambda>h. insert_pairs h 1 [(key, Rid new_node (-1))]))
       (thenE (edit_node old_node (\<lambda>n. n\<lparr>nd_parent := root\<rparr>))
       (thenE (edit_node new_node (\<lambda>n. n\<lparr>nd_parent := root\<rparr>))
       (update_root_page_no root)))))))"

fun insert_into_parent :: "nat \<Rightarrow> page_id_t \<Rightarrow> bytes \<Rightarrow> page_id_t \<Rightarrow> (ix_state, unit) comp" where
  "insert_into_parent fuel old_node key new_node =
     bindE (getE (\<lambda>s. node_at s old_node)) (\<lambda>old.
       if is_root_page old then new_root old_node key new_node
       else
         bindE (fetch_node (nd_parent old)) (\<lambda>parent.
           bindE (ask_node parent (\<lambda>h. find_child old_node)) (\<lambda>old_idx.
             thenE (call_node parent (\<lambda>h. insert_pairs h (old_idx + 1) [(key, Rid new_node (-1))]))
            (thenE (edit_node new_node (\<lambda>n. n\<lparr>nd_parent := parent\<rparr>))
            (bindE (getE (\<lambda>s. get_max_size (ix_hdr s) \<le> int (get_size (node_at s parent)))) (\<lambda>full.
              if \<not> full then returnE ()
              else
                (case fuel of
                   0 \<Rightarrow> throwE OutOfFuel
                 | Suc fuel' \<Rightarrow>
                     bindE (split_node parent) (\<lambda>new_parent.
                       bindE (ask_node new_parent (slot_of 0 get_key)) (\<lambda>first_key.
                         insert_into_parent fuel' parent first_key new_parent)))))))))"

declare insert_into_parent.simps [simp del]

definition insert_entry :: "nat \<Rightarrow> bytes \<Rightarrow> Rid \<Rightarrow> (ix_state, page_id_t) comp" where
  "insert_entry fuel key value =
     bindE (get_value fuel key) (\<lambda>found.
       if found \<noteq> None then throwE (RMDBError ''Unique index constraint violated'')
       else
         bindE (find_leaf_page fuel key False) (\<lambda>leaf.
           thenE (call_node leaf (\<lambda>h. nd_insert h key value))
          (bindE (getE (\<lambda>s. get_max_size (ix_hdr s) \<le> int (get_size (node_at s leaf)))) (\<lambda>full.
            if \<not> full then returnE leaf
            else
              bindE (split_node leaf) (\<lambda>new_leaf.
                bindE (ask_node new_leaf (slot_of 0 get_key)) (\<lambda>first_key.
                  bindE (getE (\<lambda>s. 0 \<le> key_compare (ix_hdr s) key first_key)) (\<lambda>right.
                    thenE (insert_into_parent fuel leaf first_key new_leaf)
                      (returnE (if right then new_leaf else leaf)))))))))"

section \<open>Deletion\<close>

definition adjust_root :: "page_id_t \<Rightarrow> (ix_state, bool) comp" where
  "adjust_root old_root =
     bindE (getE (\<lambda>s. node_at s old_root)) (\<lambda>n.
       if \<not> nd_is_leaf n \<and> get_size n = 1
       then
         bindE (fetch_node (value_at n 0)) (\<lambda>child.
           thenE (edit_node child (\<lambda>m. m\<lparr>nd_parent := IX_NO_PAGE\<rparr>))
          (thenE (update_root_page_no child) (returnE True)))
       else if nd_is_leaf n \<and> get_size n = 0
       then
         thenE (update_root_page_no old_root)
        (thenE (modifyE (\<lambda>s. s\<lparr>ix_hdr := (ix_hdr s)\<lparr>first_leaf := old_root, last_leaf := old_root\<rparr>\<rparr>)) (returnE False))
       else returnE False)"

definition take_from :: "page_id_t \<Rightarrow> page_id_t \<Rightarrow> nat \<Rightarrow> nat \<Rightarrow> (ix_state, unit) comp" where
  "take_from neighbor node i pos =
     bindE (ask_node neighbor (slot_of i (\<lambda>n j. nd_pairs n ! j))) (\<lambda>kv.
       thenE (call_node node (\<lambda>h. insert_pairs h pos [kv]))
      (thenE (call_node neighbor (\<lambda>h. erase_pair i))
      (bindE (getE (\<lambda>s. nd_is_leaf (node_at s node))) (\<lambda>leaf.
        if leaf then returnE () else maintain_child node pos))))"

definition refresh_key :: "page_id_t \<Rightarrow> page_id_t \<Rightarrow> (ix_state, unit) comp" where
  "refresh_key parent child =
     bindE (ask_node parent (\<lambda>h. find_child child)) (\<lambda>idx.
       bindE (ask_node child (slot_of 0 get_key)) (\<lambda>key. edit_node parent (set_key idx key)))"

definition redistribute :: "nat \<Rightarrow> page_id_t \<Rightarrow> page_id_t \<Rightarrow> page_id_t \<Rightarrow> nat \<Rightarrow> (ix_state, unit) comp" where
  "redistribute fuel neighbor node parent index =
     thenE
       (if index = 0
        then bindE (getE (\<lambda>s. get_size (node_at s node))) (\<lambda>pos. take_from neighbor node 0 pos)
        else bindE (getE (\<lambda>s. get_size (node_at s neighbor))) (\<lambda>n. take_from neighbor node (n - 1) 0))
    (thenE (refresh_key parent node)
    (thenE (refresh_key parent neighbor)
    (maintain_parent fuel parent)))"

text \<open>The part of \<open>coalesce\<close> before its recursive call; \<open>neighbor\<close> is the left node.\<close>

definition merge_into :: "nat \<Rightarrow> page_id_t \<Rightarrow> page_id_t \<Rightarrow> page_id_t \<Rightarrow> nat \<Rightarrow> (ix_state, unit) comp" where
  "merge_into fuel neighbor node parent index =
     bindE (getE (\<lambda>s. get_size (node_at s neighbor))) (\<lambda>old_size.
       bindE (getE (\<lambda>s. nd_pairs (node_at s node))) (\<lambda>kvs.
         thenE (call_node neighbor (\<lambda>h. insert_pairs h old_size kvs))
        (bindE (getE (\<lambda>s. nd_is_leaf (node_at s neighbor))) (\<lambda>leaf.
          thenE
            (if leaf
             then
               thenE (modifyE (\<lambda>s. if last_leaf (ix_hdr s) = node then s\<lparr>ix_hdr := (ix_hdr s)\<lparr>last_leaf := neighbor\<rparr>\<rparr> else s))
                 (erase_leaf node)
             else mapE (maintain_child neighbor) [old_size..<old_size + length kvs])
         (thenE (call_node parent (\<lambda>h. erase_pair index))
         (bindE (getE (\<lambda>s. get_size (node_at s parent))) (\<lambda>n.
           if 0 < n then thenE (refresh_key parent neighbor) (maintain_parent fuel parent) else returnE ())))))))"

text \<open>\<open>coalesce\<close> and its caller call each other; each round is one level up.\<close>

fun coalesce_or_redistribute :: "nat \<Rightarrow> page_id_t \<Rightarrow> (ix_state, bool) comp" where
  "coalesce_or_redistribute fuel node =
     bindE (getE (\<lambda>s. node_at s node)) (\<lambda>n.
       if is_root_page n then adjust_root node
       else
         bindE (getE (\<lambda>s. get_min_size (ix_hdr s))) (\<lambda>min_size.
           if min_size \<le> int (get_size n) then returnE False
           else
             bindE (fetch_node (nd_parent n)) (\<lambda>parent.
               bindE (ask_node parent (\<lambda>h. find_child node)) (\<lambda>index.
                 bindE (ask_node parent (slot_of (if index = 0 then 1 else index - 1) value_at)) (\<lambda>neighbor_no.
                   bindE (fetch_node neighbor_no) (\<lambda>neighbor.
                     bindE (getE (\<lambda>s. get_size (node_at s neighbor))) (\<lambda>neighbor_size.
                       if 2 * min_size \<le> int (neighbor_size + get_size n)
                       then thenE (redistribute fuel neighbor node parent index) (returnE False)
                       else
                         (case fuel of
                            0 \<Rightarrow> throwE OutOfFuel
                          | Suc fuel' \<Rightarrow>
                              thenE
                                (if index = 0 then merge_into fuel' node neighbor parent 1
                                 else merge_into fuel' neighbor node parent index)
                                (coalesce_or_redistribute fuel' parent)))))))))"

declare coalesce_or_redistribute.simps [simp del]

definition delete_entry :: "nat \<Rightarrow> bytes \<Rightarrow> (ix_state, bool) comp" where
  "delete_entry fuel key =
     bindE (find_leaf_page fuel key False) (\<lambda>leaf.
       bindE (getE (\<lambda>s. get_size (node_at s leaf))) (\<lambda>old_size.
         thenE (call_node leaf (\<lambda>h. nd_remove h key))
        (bindE (getE (\<lambda>s. node_at s leaf)) (\<lambda>n.
          if get_size n = old_size then returnE False
          else
            thenE (if \<not> is_root_page n \<and> 0 < get_size n then maintain_parent fuel leaf else returnE ())
           (thenE (coalesce_or_redistribute fuel leaf) (returnE True))))))"

section \<open>Positions and scans\<close>

definition get_rid_at :: "Iid \<Rightarrow> (ix_state, Rid) comp" where
  "get_rid_at iid =
     bindE (fetch_node (iid_page_no iid)) (\<lambda>node.
       bindE (getE (\<lambda>s. node_at s node)) (\<lambda>n.
         if int (get_size n) \<le> iid_slot_no iid then throwE IndexEntryNotFoundError
         else if iid_slot_no iid < 0 then throwE UndefinedBehaviour
         else returnE (get_rid n (nat (iid_slot_no iid)))))"

definition leaf_end :: "(ix_state, Iid) comp" where
  "leaf_end =
     bindE (getE (\<lambda>s. last_leaf (ix_hdr s))) (\<lambda>p.
       bindE (fetch_node p) (\<lambda>node. getE (\<lambda>s. Iid p (int (get_size (node_at s node))))))"

definition leaf_begin :: "ix_state \<Rightarrow> Iid" where
  "leaf_begin s = Iid (first_leaf (ix_hdr s)) 0"

definition iid_from :: "page_id_t \<Rightarrow> nat \<Rightarrow> (ix_state, Iid) comp" where
  "iid_from leaf slot_no =
     bindE (getE (\<lambda>s. node_at s leaf)) (\<lambda>n.
       bindE (getE (\<lambda>s. last_leaf (ix_hdr s))) (\<lambda>last.
         if slot_no < get_size n then returnE (Iid leaf (int slot_no))
         else if leaf \<noteq> last then returnE (Iid (nd_next_leaf n) 0)
         else leaf_end))"

definition ix_lower_bound :: "nat \<Rightarrow> bytes \<Rightarrow> (ix_state, Iid) comp" where
  "ix_lower_bound fuel key =
     bindE (find_leaf_page fuel key False) (\<lambda>leaf.
       bindE (getE (\<lambda>s. nd_lower_bound (ix_hdr s) (node_at s leaf) key)) (\<lambda>slot_no. iid_from leaf slot_no))"

definition ix_upper_bound :: "nat \<Rightarrow> bytes \<Rightarrow> (ix_state, Iid) comp" where
  "ix_upper_bound fuel key =
     bindE (find_leaf_page fuel key False) (\<lambda>leaf.
       bindE (getE (\<lambda>s. nd_lower_bound (ix_hdr s) (node_at s leaf) key)) (\<lambda>slot_no.
         bindE (getE (\<lambda>s. slot_no < get_size (node_at s leaf) \<and> key_compare (ix_hdr s) (get_key (node_at s leaf) slot_no) key = 0)) (\<lambda>eq.
           iid_from leaf (if eq then slot_no + 1 else slot_no))))"

record ix_scan =
  sc_iid :: Iid
  sc_end :: Iid

definition ix_scan_is_end :: "ix_scan \<Rightarrow> bool" where
  "ix_scan_is_end sc \<longleftrightarrow> sc_iid sc = sc_end sc"

definition ix_scan_next :: "ix_scan \<Rightarrow> (ix_state, ix_scan) comp" where
  "ix_scan_next sc =
     thenE (assertE (\<not> ix_scan_is_end sc))
    (bindE (fetch_node (iid_page_no (sc_iid sc))) (\<lambda>node.
     bindE (getE (\<lambda>s. node_at s node)) (\<lambda>n.
     bindE (getE (\<lambda>s. last_leaf (ix_hdr s))) (\<lambda>last.
       thenE (assertE (nd_is_leaf n))
      (thenE (assertE (iid_slot_no (sc_iid sc) < int (get_size n)))
      (let slot_no = iid_slot_no (sc_iid sc) + 1 in
       returnE
         (if node \<noteq> last \<and> slot_no = int (get_size n) then sc\<lparr>sc_iid := Iid (nd_next_leaf n) 0\<rparr>
          else sc\<lparr>sc_iid := Iid node slot_no\<rparr>)))))))"

definition ix_scan_rid :: "ix_scan \<Rightarrow> (ix_state, Rid) comp" where
  "ix_scan_rid sc = get_rid_at (sc_iid sc)"

end
