(* ===== verification/Values.thy ===== *)
theory Values
  imports Meta Datetime Floats IxTree
begin

text \<open>
  Values, conditions and their evaluation on records (\<open>common/common.h\<close> and
  \<open>execution/executor_utils.h\<close>): casting a value to the type of a column, its bytes in a record,
  the comparison of two fields, and index keys. A field is given by the bytes from its first one on.
\<close>

section \<open>Values and conditions\<close>

record TabCol =
  tc_tab_name :: string
  tc_col_name :: string

text \<open>The tag of a value with the member of the union it selects.\<close>

datatype val_data =
    IntVal int
  | BigintVal int
  | FloatVal float32
  | StrVal string
  | DatetimeVal int

record Value =
  v_data :: val_data
  v_raw :: "bytes option"

fun data_type :: "val_data \<Rightarrow> ColType" where
  "data_type (IntVal i) = TYPE_INT"
| "data_type (BigintVal i) = TYPE_BIGINT"
| "data_type (FloatVal u) = TYPE_FLOAT"
| "data_type (StrVal s) = TYPE_STRING"
| "data_type (DatetimeVal i) = TYPE_DATETIME"

abbreviation val_type :: "Value \<Rightarrow> ColType" where
  "val_type v \<equiv> data_type (v_data v)"

fun raw_bytes :: "val_data \<Rightarrow> int \<Rightarrow> rmdb_error + bytes" where
  "raw_bytes (IntVal i) len = (if len = 4 then Inr (le_bytes 4 i) else Inl AssertionFailure)"
| "raw_bytes (BigintVal i) len = (if len = 8 then Inr (le_bytes 8 i) else Inl AssertionFailure)"
| "raw_bytes (FloatVal u) len = (if len = 4 then Inr (le_bytes 4 u) else Inl AssertionFailure)"
| "raw_bytes (StrVal s) len =
     (if len < int (length s) then Inl StringOverflowError
      else Inr (bytes_of_string s @ replicate (nat len - length s) 0))"
| "raw_bytes (DatetimeVal i) len = (if len = 8 then Inr (le_bytes 8 i) else Inl AssertionFailure)"

definition init_raw :: "int \<Rightarrow> Value \<Rightarrow> rmdb_error + Value" where
  "init_raw len v =
     (if v_raw v \<noteq> None then Inl AssertionFailure
      else case raw_bytes (v_data v) len of Inl e \<Rightarrow> Inl e | Inr bs \<Rightarrow> Inr (v\<lparr>v_raw := Some bs\<rparr>))"

datatype CompOp = OP_EQ | OP_NE | OP_LT | OP_GT | OP_LE | OP_GE

record Condition =
  lhs_col :: TabCol
  cond_op :: CompOp
  is_rhs_val :: bool
  rhs_col :: TabCol
  rhs_val :: Value

record SetClause =
  set_lhs :: TabCol
  set_rhs :: Value

section \<open>Casting\<close>

definition is_numeric_type :: "ColType \<Rightarrow> bool" where
  "is_numeric_type type \<longleftrightarrow> type = TYPE_INT \<or> type = TYPE_BIGINT \<or> type = TYPE_FLOAT"

definition is_integral_type :: "ColType \<Rightarrow> bool" where
  "is_integral_type type \<longleftrightarrow> type = TYPE_INT \<or> type = TYPE_BIGINT"

fun value_as_long_double :: "val_data \<Rightarrow> rmdb_error + long_double" where
  "value_as_long_double (IntVal i) = Inr (ld_of_int i)"
| "value_as_long_double (BigintVal i) = Inr (ld_of_int i)"
| "value_as_long_double (FloatVal u) = Inr (ld_of_float u)"
| "value_as_long_double d = Inl (IncompatibleTypeError ''NUMERIC'' (coltype2str (data_type d)))"

definition ld_to_range :: "int \<Rightarrow> int \<Rightarrow> ColType \<Rightarrow> long_double \<Rightarrow> rmdb_error + int" where
  "ld_to_range lo hi type x =
     (if ld_less x (ld_of_int lo) \<or> ld_less (ld_of_int hi) x then Inl (NumericOverflowError (coltype2str type))
      else int_of_ld (\<lambda>i. lo \<le> i \<and> i \<le> hi) x)"

definition cast_numeric :: "ColType \<Rightarrow> val_data \<Rightarrow> rmdb_error + val_data" where
  "cast_numeric type d =
     (case value_as_long_double d of
        Inl e \<Rightarrow> Inl e
      | Inr numeric \<Rightarrow>
          (case type of
             TYPE_FLOAT \<Rightarrow> Inr (FloatVal (float_of_ld numeric))
           | TYPE_INT \<Rightarrow>
               (case ld_to_range (- (2 ^ 31)) (2 ^ 31 - 1) TYPE_INT numeric of Inl e \<Rightarrow> Inl e | Inr i \<Rightarrow> Inr (IntVal i))
           | TYPE_BIGINT \<Rightarrow>
               (case ld_to_range (- (2 ^ 63)) (2 ^ 63 - 1) TYPE_BIGINT numeric of Inl e \<Rightarrow> Inl e | Inr i \<Rightarrow> Inr (BigintVal i))
           | _ \<Rightarrow> Inl (IncompatibleTypeError (coltype2str type) (coltype2str (data_type d)))))"

definition cast_data :: "ColType \<Rightarrow> val_data \<Rightarrow> rmdb_error + val_data" where
  "cast_data type d =
     (if data_type d = type then Inr d
      else if type = TYPE_DATETIME
      then
        (case d of
           StrVal s \<Rightarrow> (case parse_datetime_string s of Inl e \<Rightarrow> Inl e | Inr i \<Rightarrow> Inr (DatetimeVal i))
         | _ \<Rightarrow> Inl (IncompatibleTypeError (coltype2str type) (coltype2str (data_type d))))
      else if \<not> is_numeric_type (data_type d) \<or> \<not> is_numeric_type type
      then Inl (IncompatibleTypeError (coltype2str type) (coltype2str (data_type d)))
      else cast_numeric type d)"

definition cast_value_to_col_type :: "Value \<Rightarrow> ColMeta \<Rightarrow> rmdb_error + Value" where
  "cast_value_to_col_type v col =
     (case cast_data (cm_type col) (v_data v) of Inl e \<Rightarrow> Inl e | Inr d \<Rightarrow> Inr (v\<lparr>v_data := d\<rparr>))"

section \<open>Comparing fields\<close>

definition find_col_meta :: "ColMeta list \<Rightarrow> TabCol \<Rightarrow> rmdb_error + ColMeta" where
  "find_col_meta cols target =
     (case find (\<lambda>col. cm_tab_name col = tc_tab_name target \<and> cm_name col = tc_col_name target) cols of
        None \<Rightarrow> Inl (ColumnNotFoundError (tc_tab_name target @ ''.'' @ tc_col_name target))
      | Some col \<Rightarrow> Inr col)"

definition integral_at :: "ColType \<Rightarrow> bytes \<Rightarrow> int" where
  "integral_at type p = (if type = TYPE_INT then le_sint (take 4 p) else le_sint (take 8 p))"

definition number_at :: "ColType \<Rightarrow> bytes \<Rightarrow> long_double" where
  "number_at type p =
     (if is_integral_type type then ld_of_int (integral_at type p) else ld_of_float (le_uint (take 4 p)))"

definition compare_strings :: "bytes \<Rightarrow> nat \<Rightarrow> bytes \<Rightarrow> nat \<Rightarrow> int" where
  "compare_strings lhs lhs_len rhs rhs_len =
     (let common_len = min lhs_len rhs_len; cmp = memcmp lhs rhs common_len in
      if cmp \<noteq> 0 then cmp
      else if lhs_len = rhs_len then 0
      else if rhs_len < lhs_len then (if \<exists>c \<in> set (mem_get lhs common_len (lhs_len - common_len)). c \<noteq> 0 then 1 else 0)
      else (if \<exists>c \<in> set (mem_get rhs common_len (rhs_len - common_len)). c \<noteq> 0 then -1 else 0))"

definition compare_raw_data :: "bytes \<Rightarrow> ColType \<Rightarrow> int \<Rightarrow> bytes \<Rightarrow> ColType \<Rightarrow> int \<Rightarrow> rmdb_error + int" where
  "compare_raw_data lhs lhs_type lhs_len rhs rhs_type rhs_len =
     (if is_numeric_type lhs_type \<and> is_numeric_type rhs_type
      then
        if is_integral_type lhs_type \<and> is_integral_type rhs_type
        then Inr (cmp3 (integral_at lhs_type lhs) (integral_at rhs_type rhs))
        else
          (let lhs_value = number_at lhs_type lhs; rhs_value = number_at rhs_type rhs
           in Inr (if ld_less lhs_value rhs_value then -1 else if ld_less rhs_value lhs_value then 1 else 0))
      else if lhs_type \<noteq> rhs_type then Inl (IncompatibleTypeError (coltype2str lhs_type) (coltype2str rhs_type))
      else if lhs_type = TYPE_DATETIME then Inr (cmp3 (le_sint (take 8 lhs)) (le_sint (take 8 rhs)))
      else if lhs_type = TYPE_STRING then Inr (compare_strings lhs (nat lhs_len) rhs (nat rhs_len))
      else if lhs_type = TYPE_INT then Inr (cmp3 (le_sint (take 4 lhs)) (le_sint (take 4 rhs)))
      else if lhs_type = TYPE_BIGINT then Inr (cmp3 (le_sint (take 8 lhs)) (le_sint (take 8 rhs)))
      else
        (let u = le_uint (take 4 lhs); v = le_uint (take 4 rhs)
         in Inr (if float_less u v then -1 else if float_less v u then 1 else 0)))"

fun evaluate_compare_result :: "int \<Rightarrow> CompOp \<Rightarrow> bool" where
  "evaluate_compare_result cmp OP_EQ \<longleftrightarrow> cmp = 0"
| "evaluate_compare_result cmp OP_NE \<longleftrightarrow> cmp \<noteq> 0"
| "evaluate_compare_result cmp OP_LT \<longleftrightarrow> cmp < 0"
| "evaluate_compare_result cmp OP_GT \<longleftrightarrow> 0 < cmp"
| "evaluate_compare_result cmp OP_LE \<longleftrightarrow> cmp \<le> 0"
| "evaluate_compare_result cmp OP_GE \<longleftrightarrow> 0 \<le> cmp"

text \<open>The right-hand side of a condition: bytes, type and length.\<close>

definition cond_rhs :: "bytes \<Rightarrow> ColMeta list \<Rightarrow> Condition \<Rightarrow> rmdb_error + bytes \<times> ColType \<times> int" where
  "cond_rhs rec cols cond =
     (if is_rhs_val cond
      then
        (case v_raw (rhs_val cond) of
           None \<Rightarrow> Inl (InternalError ''Condition raw value is not initialized'')
         | Some raw \<Rightarrow> Inr (raw, val_type (rhs_val cond), int (length raw)))
      else
        (case find_col_meta cols (rhs_col cond) of
           Inl e \<Rightarrow> Inl e
         | Inr rhs_meta \<Rightarrow> Inr (drop (nat (cm_offset rhs_meta)) rec, cm_type rhs_meta, cm_len rhs_meta)))"

definition condition_holds :: "bytes \<Rightarrow> ColMeta list \<Rightarrow> Condition \<Rightarrow> rmdb_error + bool" where
  "condition_holds rec cols cond =
     (case find_col_meta cols (lhs_col cond) of
        Inl e \<Rightarrow> Inl e
      | Inr lhs_meta \<Rightarrow>
          (case cond_rhs rec cols cond of
             Inl e \<Rightarrow> Inl e
           | Inr (rhs_data, rhs_type, rhs_len) \<Rightarrow>
               (case compare_raw_data (drop (nat (cm_offset lhs_meta)) rec) (cm_type lhs_meta) (cm_len lhs_meta) rhs_data rhs_type rhs_len of
                  Inl e \<Rightarrow> Inl e
                | Inr cmp \<Rightarrow> Inr (evaluate_compare_result cmp (cond_op cond)))))"

fun record_satisfies_conditions :: "bytes \<Rightarrow> ColMeta list \<Rightarrow> Condition list \<Rightarrow> rmdb_error + bool" where
  "record_satisfies_conditions rec cols [] = Inr True"
| "record_satisfies_conditions rec cols (cond # conds) =
     (case condition_holds rec cols cond of
        Inl e \<Rightarrow> Inl e
      | Inr holds \<Rightarrow> if \<not> holds then Inr False else record_satisfies_conditions rec cols conds)"

section \<open>Index keys\<close>

fun copy_key_cols :: "ColMeta list \<Rightarrow> bytes \<Rightarrow> nat \<Rightarrow> bytes \<Rightarrow> bytes" where
  "copy_key_cols [] rec offset key = key"
| "copy_key_cols (col # cols) rec offset key =
     copy_key_cols cols rec (offset + nat (cm_len col)) (mem_put key offset (mem_get rec (nat (cm_offset col)) (nat (cm_len col))))"

definition build_index_key :: "IndexMeta \<Rightarrow> bytes \<Rightarrow> bytes" where
  "build_index_key index rec = copy_key_cols (im_cols index) rec 0 (replicate (nat (im_col_tot_len index)) 0)"

definition ensure_index_key_unique :: "nat \<Rightarrow> bytes \<Rightarrow> Rid option \<Rightarrow> (ix_state, unit) comp" where
  "ensure_index_key_unique fuel key self_rid =
     bindE (get_value fuel key) (\<lambda>hit.
       if hit \<noteq> None \<and> (self_rid = None \<or> hit \<noteq> self_rid) then throwE (RMDBError ''Unique index constraint violated'')
       else returnE ())"

section \<open>Properties\<close>

lemma compare_raw_data_col: "compare_raw_data a ty len b ty len = Inr (ix_compare_col a b ty len)"
  by (cases ty)
    (simp_all add: compare_raw_data_def is_numeric_type_def is_integral_type_def integral_at_def number_at_def
      compare_strings_def ld_less_float Let_def)

text \<open>Two fields of the same type and length compare in conditions, sorting and aggregates
  exactly as they do in the keys of an index.\<close>

theorem compare_as_index: "compare_raw_data a ty len b ty len = Inr (ix_compare_col a b ty len)"
  by (rule compare_raw_data_col)

definition data_ok :: "val_data \<Rightarrow> bool" where
  "data_ok d \<longleftrightarrow>
     (case d of IntVal i \<Rightarrow> int32 i | BigintVal i \<Rightarrow> int64 i | FloatVal u \<Rightarrow> 0 \<le> u \<and> u < 2 ^ 32
      | StrVal s \<Rightarrow> CHR 0x00 \<notin> set s | DatetimeVal i \<Rightarrow> int64 i)"

text \<open>The value a client is shown for a field.\<close>

fun data_at :: "ColType \<Rightarrow> bytes \<Rightarrow> int \<Rightarrow> val_data" where
  "data_at TYPE_INT p len = IntVal (le_sint (take 4 p))"
| "data_at TYPE_BIGINT p len = BigintVal (le_sint (take 8 p))"
| "data_at TYPE_FLOAT p len = FloatVal (le_uint (take 4 p))"
| "data_at TYPE_DATETIME p len = DatetimeVal (le_sint (take 8 p))"
| "data_at TYPE_STRING p len = StrVal (map (\<lambda>b. char_of (unat b)) (takeWhile (\<lambda>b. b \<noteq> 0) (take (nat len) p)))"

lemma float_of_ld_bounds: "0 \<le> float_of_ld x \<and> float_of_ld x < 2 ^ 32"
proof (cases x)
  case (LFin i)
  have "0 \<le> min (int sh * 2 ^ 23 + int q) (255 * 2 ^ 23)" "min (int sh * 2 ^ 23 + int q) (255 * 2 ^ 23) < 2 ^ 31" for sh q
    by (simp_all add: min_def)
  with LFin show ?thesis by (fastforce simp: float_of_mag_def Let_def)
qed auto

lemma ld_to_range_bounds: "ld_to_range lo hi ty x = Inr i \<Longrightarrow> lo \<le> i \<and> i \<le> hi"
  by (cases x) (auto simp: ld_to_range_def Let_def split: if_splits)

lemma encode_datetime_int64: "datetime_in_range y mo d h mi se \<Longrightarrow> int64 (encode_datetime y mo d h mi se)"
  using datetime_in_rangeD[of y mo d h mi se] by (simp add: encode_datetime_def int64_def)

lemma cast_data_ok:
  assumes "data_ok d" "cast_data ty d = Inr d'"
  shows "data_type d' = ty \<and> data_ok d'"
proof (cases "data_type d = ty")
  case True
  then show ?thesis using assms by (simp add: cast_data_def)
next
  case False
  show ?thesis
  proof (cases "ty = TYPE_DATETIME")
    case True
    with False assms(2) obtain s i where "parse_datetime_string s = Inr i" "d' = DatetimeVal i"
      by (auto simp: cast_data_def split: val_data.splits sum.splits)
    then show ?thesis using True encode_datetime_int64 by (auto simp: parse_datetime_iff data_ok_def)
  next
    case False
    with \<open>data_type d \<noteq> ty\<close> assms(2) have "cast_numeric ty d = Inr d'" by (auto simp: cast_data_def split: if_splits)
    then show ?thesis
      using ld_to_range_bounds float_of_ld_bounds
      by (force simp: cast_numeric_def data_ok_def int32_def int64_def split: sum.splits ColType.splits)
  qed
qed

lemma string_of_bytes:
  assumes "CHR 0x00 \<notin> set s"
  shows "map (\<lambda>b. char_of (unat b)) (takeWhile (\<lambda>b. b \<noteq> 0) (bytes_of_string s @ replicate n 0)) = s"
proof -
  have "word_of_nat (of_char c) \<noteq> (0 :: byte)" if "c \<in> set s" for c
  proof
    assume "word_of_nat (of_char c) = (0 :: byte)"
    then have "of_char c = (0 :: nat)" using unat_byte_of_char[of c] by simp
    then have "of_char c = (of_char (CHR 0x00) :: nat)" by simp
    then show False using assms that by (simp only: of_char_eq_iff)
  qed
  then have "takeWhile (\<lambda>b. b \<noteq> 0) (bytes_of_string s @ replicate n 0) = bytes_of_string s"
    by (subst takeWhile_append2) (auto simp: bytes_of_string_def)
  then show ?thesis by (simp add: bytes_of_string_def comp_def)
qed

lemma raw_bytes_shown:
  assumes "data_ok d" "raw_bytes d len = Inr bs"
  shows "int (length bs) = len" "data_at (data_type d) (bs @ rest) len = d"
  using assms string_of_bytes by (cases d; auto simp: data_ok_def le_uint_nonneg split: if_splits)+

text \<open>Property C26: a value cast to the type of a column and written to a field of its length has the
  type of the column, and the field is shown as that value.\<close>

theorem stored_value_shown:
  assumes "data_ok (v_data v)" "cast_value_to_col_type v col = Inr v1" "init_raw (cm_len col) v1 = Inr v2"
  shows "\<exists>bs. v_raw v2 = Some bs \<and> int (length bs) = cm_len col \<and> val_type v2 = cm_type col \<and>
    data_at (cm_type col) (bs @ rest) (cm_len col) = v_data v1"
proof -
  obtain d where d: "cast_data (cm_type col) (v_data v) = Inr d" "v1 = v\<lparr>v_data := d\<rparr>"
    using assms(2) by (auto simp: cast_value_to_col_type_def split: sum.splits)
  obtain bs where bs: "raw_bytes d (cm_len col) = Inr bs" "v2 = v1\<lparr>v_raw := Some bs\<rparr>"
    using assms(3) d(2) by (auto simp: init_raw_def split: if_splits sum.splits)
  have "data_type d = cm_type col" "data_ok d" using cast_data_ok[OF assms(1) d(1)] by auto
  then show ?thesis using raw_bytes_shown(1)[OF _ bs(1)] raw_bytes_shown(2)[OF _ bs(1), of rest] bs(2) d(2) by simp
qed

definition demo_value :: Value where
  "demo_value = \<lparr>v_data = BigintVal (-5), v_raw = None\<rparr>"

theorem stored_value_shown_witness:
  "\<exists>bs. int (length bs) = 4 \<and> data_at TYPE_INT (bs @ []) 4 = IntVal (-5)"
proof -
  have "cast_value_to_col_type demo_value (hd demo_cols) = Inr (demo_value\<lparr>v_data := IntVal (-5)\<rparr>)"
    by code_simp
  moreover have "init_raw 4 (demo_value\<lparr>v_data := IntVal (-5)\<rparr>) = Inr (demo_value\<lparr>v_data := IntVal (-5), v_raw := Some (le_bytes 4 (-5))\<rparr>)"
    by (simp add: init_raw_def demo_value_def)
  ultimately show ?thesis
    using stored_value_shown[of demo_value "hd demo_cols" _ _ "[]"] by (fastforce simp: data_ok_def demo_value_def int64_def demo_cols_def)
qed

end
