(* ===== verification/Database.thy ===== *)
theory Database
  imports TableFiles Values
begin

text \<open>
  The state of an open database: the members of \<open>SmManager\<close> (\<open>system/sm_manager.h\<close>), that is the
  catalog, the table files and the open indexes. Computations on one of them are lifted to the
  whole, and reading a table in the order of its scan is described by its records sorted by
  identifier.
\<close>

section \<open>Record identifiers in order\<close>

instantiation Rid :: linorder
begin

definition less_Rid :: "Rid \<Rightarrow> Rid \<Rightarrow> bool" where
  "less_Rid a b \<longleftrightarrow> rid_less a b"

definition less_eq_Rid :: "Rid \<Rightarrow> Rid \<Rightarrow> bool" where
  "less_eq_Rid a b \<longleftrightarrow> a = b \<or> rid_less a b"

instance
  by standard (auto simp: less_Rid_def less_eq_Rid_def rid_less_def intro: Rid.expand)

end

section \<open>State\<close>

record database =
  sm_db :: DbMeta
  sm_tables :: table_files
  sm_ihs :: "string \<rightharpoonup> ix_state"

definition on_tables :: "(table_files, 'a) comp \<Rightarrow> (database, 'a) comp" where
  "on_tables m s = (case m (sm_tables s) of (r, tf) \<Rightarrow> (r, s\<lparr>sm_tables := tf\<rparr>))"

text \<open>A call on \<open>ihs_.at(index_name)\<close>.\<close>

definition on_index :: "string \<Rightarrow> (ix_state, 'a) comp \<Rightarrow> (database, 'a) comp" where
  "on_index index_name m s =
     (case sm_ihs s index_name of
        None \<Rightarrow> (Inl OutOfRange, s)
      | Some ix \<Rightarrow> (case m ix of (r, ix') \<Rightarrow> (r, s\<lparr>sm_ihs := (sm_ihs s)(index_name \<mapsto> ix')\<rparr>)))"

text \<open>The header of the file of a table; \<open>fhs_.at\<close> has found the table before.\<close>

definition table_hdr :: "database \<Rightarrow> string \<Rightarrow> RmFileHdr" where
  "table_hdr s tab_name = snd (the (tf_fhs (sm_tables s) tab_name))"

section \<open>Reading a table\<close>

lemma on_file_read:
  assumes ok: "tables_ok s" and t: "tf_fhs s t = Some (fd, h)"
    and m: "m (handle fd h (tf_pool s)) = (r, st')" "rm_rel st' h pg" "rm_frame (handle fd h (tf_pool s)) st'"
    and pg: "pg = rm_pages (handle fd h (tf_pool s))"
  shows "\<exists>s'. on_file t m s = (r, s') \<and> tables_ok s' \<and> tables_db s' = tables_db s \<and> tf_fhs s' = tf_fhs s \<and> tables_frame s s'"
proof -
  have "rm_ok UNIV (handle fd h (tf_pool s))" using ok t unfolding tables_ok_def by blast
  then have wf: "file_wf UNIV h pg" by (simp add: rm_ok_def pg)
  note rel = rm_ok_rel[OF m(2) wf]
  have recs: "rm_records st' = rm_records (handle fd h (tf_pool s))" using rel(2) by (simp add: rm_records_def pg)
  have "rm_hdr st' = h" "rm_fd st' = fd" using m(2,3) by (simp_all add: rm_rel_def rm_frame_def)
  then have same: "tf_fhs (snd (on_file t m s)) = tf_fhs s" using t m(1) by (auto simp: on_file_def fun_eq_iff)
  from on_file_run[of s t fd h m r st', OF ok t m(1) rel(1) m(3)] obtain s' where
    s': "on_file t m s = (r, s')" "tables_ok s'" "tables_db s' = (tables_db s)(t := rm_records st')" "tables_frame s s'" by blast
  moreover have "tables_db s' = tables_db s" using s'(3) recs t by (auto simp: tables_db_def fun_eq_iff)
  ultimately show ?thesis using same by auto
qed

text \<open>\<open>db_view w0 w\<close>: the same database, except for what the buffer pool holds.\<close>

definition db_view :: "database \<Rightarrow> database \<Rightarrow> bool" where
  "db_view w0 w \<longleftrightarrow> tables_ok (sm_tables w) \<and> tables_db (sm_tables w) = tables_db (sm_tables w0) \<and>
     tf_fhs (sm_tables w) = tf_fhs (sm_tables w0) \<and> sm_db w = sm_db w0 \<and> sm_ihs w = sm_ihs w0 \<and>
     fd2path (bp_disk (tf_pool (sm_tables w))) = fd2path (bp_disk (tf_pool (sm_tables w0)))"

definition table_rids :: "database \<Rightarrow> string \<Rightarrow> Rid list" where
  "table_rids w t = sorted_list_of_set (dom (tables_db (sm_tables w) t))"

definition record_at :: "database \<Rightarrow> string \<Rightarrow> Rid \<Rightarrow> bytes" where
  "record_at w t rid = the (tables_db (sm_tables w) t rid)"

definition end_rid :: "database \<Rightarrow> string \<Rightarrow> Rid" where
  "end_rid w t = Rid (num_pages (table_hdr w t)) (-1)"

lemma db_view_refl: "tables_ok (sm_tables w) \<Longrightarrow> db_view w w"
  by (simp add: db_view_def)

lemma db_view_rids [simp]:
  assumes "db_view w0 w"
  shows "table_rids w = table_rids w0" "record_at w = record_at w0" "end_rid w = end_rid w0" "table_hdr w = table_hdr w0"
  using assms by (simp_all add: db_view_def table_rids_def[abs_def] record_at_def[abs_def] end_rid_def[abs_def] table_hdr_def[abs_def])

definition scan_pos :: "database \<Rightarrow> string \<Rightarrow> Rid list \<Rightarrow> Rid" where
  "scan_pos w t rids = (case rids of [] \<Rightarrow> end_rid w t | r # _ \<Rightarrow> r)"

lemma finite_file_rec: "finite (dom (file_rec h pg))"
proof (rule finite_subset)
  show "dom (file_rec h pg) \<subseteq> (\<lambda>(p, s). Rid p s) ` ({1..<num_pages h} \<times> {0..<num_records_per_page h})"
  proof
    fix r assume "r \<in> dom (file_rec h pg)"
    then have "file_rec h pg r \<noteq> None" by blast
    from file_rec_SomeD[OF this] have "(rid_page_no r, rid_slot_no r) \<in> {1..<num_pages h} \<times> {0..<num_records_per_page h}"
      by (auto simp: page_in_def slot_ok_def)
    then have "(\<lambda>(p, s). Rid p s) (rid_page_no r, rid_slot_no r) \<in> (\<lambda>(p, s). Rid p s) ` ({1..<num_pages h} \<times> {0..<num_records_per_page h})"
      by (rule imageI)
    then show "r \<in> (\<lambda>(p, s). Rid p s) ` ({1..<num_pages h} \<times> {0..<num_records_per_page h})" by simp
  qed
qed simp

lemma finite_tables_db: "finite (dom (tables_db s t))"
  by (auto simp: tables_db_def rm_records_def finite_file_rec split: option.splits)

lemma set_table_rids [simp]: "set (table_rids w t) = dom (tables_db (sm_tables w) t)"
  by (simp add: table_rids_def finite_tables_db)

lemma sorted_table_rids: "sorted_wrt (<) (table_rids w t)"
  by (simp add: table_rids_def)

lemma next_rid_first:
  assumes n: "next_rid h pg p rid'" and rs: "sorted_wrt (<) rs" "set rs = {r \<in> dom (file_rec h pg). p < r}"
  shows "rid' = (case rs of [] \<Rightarrow> Rid (num_pages h) (-1) | r # _ \<Rightarrow> r)"
proof -
  have e: "\<not> Rid (num_pages h) (-1) \<le> r" if "r \<in> dom (file_rec h pg)" for r
    using file_rec_SomeD[of h pg r] that by (auto simp: less_eq_Rid_def rid_less_def page_in_def)
  have n1: "rid' = Rid (num_pages h) (-1) \<or> rid' \<in> dom (file_rec h pg) \<and> p < rid'"
    and n2: "\<And>r. r \<in> dom (file_rec h pg) \<Longrightarrow> p < r \<Longrightarrow> rid' \<le> r"
    using n by (auto simp: next_rid_def less_Rid_def less_eq_Rid_def)
  show ?thesis
  proof (cases rs)
    case Nil
    then show ?thesis using n1 rs(2) by auto
  next
    case (Cons y ys)
    then have y: "y \<in> dom (file_rec h pg)" "p < y" "\<And>r. r \<in> dom (file_rec h pg) \<Longrightarrow> p < r \<Longrightarrow> y \<le> r"
      using rs by (auto simp: set_eq_iff) (metis less_imp_le order_refl domI)
    with n2[OF y(1,2)] n1 e[OF y(1)] have "rid' = y" by (metis order_antisym)
    with Cons show ?thesis by simp
  qed
qed

text \<open>The state of a table inside a database that is being read.\<close>

lemma table_view:
  assumes "db_view w0 w" "tf_fhs (sm_tables w0) t = Some (fd, h)"
  shows "rm_rel (handle fd h (tf_pool (sm_tables w))) h (rm_pages (handle fd h (tf_pool (sm_tables w))))"
    "file_wf UNIV h (rm_pages (handle fd h (tf_pool (sm_tables w))))"
    "file_rec h (rm_pages (handle fd h (tf_pool (sm_tables w)))) = tables_db (sm_tables w0) t" "table_hdr w0 t = h"
proof -
  have t: "tf_fhs (sm_tables w) t = Some (fd, h)" and ok: "tables_ok (sm_tables w)"
    using assms by (simp_all add: db_view_def)
  then have "rm_ok UNIV (handle fd h (tf_pool (sm_tables w)))" unfolding tables_ok_def by blast
  then show "rm_rel (handle fd h (tf_pool (sm_tables w))) h (rm_pages (handle fd h (tf_pool (sm_tables w))))"
    "file_wf UNIV h (rm_pages (handle fd h (tf_pool (sm_tables w))))" by (simp_all add: rm_ok_def)
  have "tables_db (sm_tables w) t = tables_db (sm_tables w0) t" using assms(1) by (simp add: db_view_def)
  then show "file_rec h (rm_pages (handle fd h (tf_pool (sm_tables w)))) = tables_db (sm_tables w0) t"
    using t by (simp add: tables_db_def rm_records_def)
  show "table_hdr w0 t = h" using assms(2) by (simp add: table_hdr_def)
qed

lemma on_tables_read:
  assumes v: "db_view w0 w" and t: "tf_fhs (sm_tables w0) t = Some (fd, h)"
    and m: "m (handle fd h (tf_pool (sm_tables w))) = (r, st')" "rm_rel st' h (rm_pages (handle fd h (tf_pool (sm_tables w))))"
      "rm_frame (handle fd h (tf_pool (sm_tables w))) st'"
  shows "\<exists>w'. on_tables (on_file t m) w = (r, w') \<and> db_view w0 w'"
proof -
  have ok: "tables_ok (sm_tables w)" "tf_fhs (sm_tables w) t = Some (fd, h)" using v t by (simp_all add: db_view_def)
  from on_file_read[where m = m and r = r and st' = st', OF ok m(1) m(2) m(3) refl] obtain s' where
    "on_file t m (sm_tables w) = (r, s')" "tables_ok s'" "tables_db s' = tables_db (sm_tables w)" "tf_fhs s' = tf_fhs (sm_tables w)"
    "tables_frame (sm_tables w) s'" by blast
  then show ?thesis using v by (auto simp: on_tables_def db_view_def tables_frame_def)
qed

lemma read_record:
  assumes "db_view w0 w" "rid \<in> dom (tables_db (sm_tables w0) t)"
  shows "\<exists>w'. on_tables (on_file t (get_record rid)) w = (Inr (record_at w0 t rid), w') \<and> db_view w0 w'"
proof -
  obtain fd h where t: "tf_fhs (sm_tables w0) t = Some (fd, h)"
    using assms(2) by (cases "tf_fhs (sm_tables w0) t") (auto simp: tables_db_def)
  note tv = table_view[OF assms(1) t]
  have "file_rec h (rm_pages (handle fd h (tf_pool (sm_tables w)))) rid \<noteq> None" using assms(2) tv(3) by auto
  then have "rid_ok h rid" using file_rec_SomeD unfolding rid_ok_def by blast
  from get_record_rel[OF tv(1) this] obtain st' where
    "get_record rid (handle fd h (tf_pool (sm_tables w))) = (Inr (record_at w0 t rid), st')"
    "rm_rel st' h (rm_pages (handle fd h (tf_pool (sm_tables w))))" "rm_frame (handle fd h (tf_pool (sm_tables w))) st'"
    using assms(2) tv(3) by (auto simp: record_at_def)
  from on_tables_read[where m = "get_record rid", OF assms(1) t this] show ?thesis .
qed

lemma read_scan_begin:
  assumes v: "db_view w0 w" and t: "tf_fhs (sm_tables w0) t = Some (fd, h)"
  shows "\<exists>w'. on_tables (on_file t RmScan) w = (Inr (scan_pos w0 t (table_rids w0 t)), w') \<and> db_view w0 w'"
proof -
  note tv = table_view[OF v t]
  from RmScan_rel[OF tv(1,2)] obtain rid' st' where
    r: "RmScan (handle fd h (tf_pool (sm_tables w))) = (Inr rid', st')"
    "rm_rel st' h (rm_pages (handle fd h (tf_pool (sm_tables w))))" "rm_frame (handle fd h (tf_pool (sm_tables w))) st'"
    "next_rid h (rm_pages (handle fd h (tf_pool (sm_tables w)))) (Rid 0 (-1)) rid'" by blast
  have "Rid 0 (-1) < r" if "r \<in> dom (tables_db (sm_tables w0) t)" for r
    using file_rec_SomeD[of h "rm_pages (handle fd h (tf_pool (sm_tables w)))" r] that tv(3)
    by (auto simp: less_Rid_def rid_less_def page_in_def)
  then have "set (table_rids w0 t) = {r \<in> dom (file_rec h (rm_pages (handle fd h (tf_pool (sm_tables w))))). Rid 0 (-1) < r}"
    using tv(3) by auto
  from next_rid_first[OF r(4) sorted_table_rids this] have "rid' = scan_pos w0 t (table_rids w0 t)"
    using tv(4) by (cases "table_rids w0 t") (simp_all add: scan_pos_def end_rid_def)
  with on_tables_read[where m = RmScan, OF v t r(1-3)] show ?thesis by simp
qed

lemma read_scan_next:
  assumes v: "db_view w0 w" and t: "tf_fhs (sm_tables w0) t = Some (fd, h)" and s: "table_rids w0 t = xs @ rid # rs"
  shows "\<exists>w'. on_tables (on_file t (scan_next rid)) w = (Inr (scan_pos w0 t rs), w') \<and> db_view w0 w'"
proof -
  note tv = table_view[OF v t]
  have d: "rid \<in> dom (tables_db (sm_tables w0) t)" using arg_cong[OF s, of set] by auto
  then have "file_rec h (rm_pages (handle fd h (tf_pool (sm_tables w)))) rid \<noteq> None" using tv(3) by auto
  from scan_next_rel[OF tv(1,2) this] obtain rid' st' where
    r: "scan_next rid (handle fd h (tf_pool (sm_tables w))) = (Inr rid', st')"
    "rm_rel st' h (rm_pages (handle fd h (tf_pool (sm_tables w))))" "rm_frame (handle fd h (tf_pool (sm_tables w))) st'"
    "next_rid h (rm_pages (handle fd h (tf_pool (sm_tables w)))) rid rid'" by blast
  have so: "sorted_wrt (<) (xs @ rid # rs)" using sorted_table_rids[of w0 t] s by simp
  then have "set rs = {r \<in> set (xs @ rid # rs). rid < r}" by (auto simp: sorted_wrt_append dest: less_asym)
  also have "\<dots> = {r \<in> dom (file_rec h (rm_pages (handle fd h (tf_pool (sm_tables w))))). rid < r}"
    using arg_cong[OF s, of set] tv(3) by auto
  finally have rs: "set rs = {r \<in> dom (file_rec h (rm_pages (handle fd h (tf_pool (sm_tables w))))). rid < r}" .
  have "sorted_wrt (<) rs" using so by (simp add: sorted_wrt_append)
  from next_rid_first[OF r(4) this rs] have "rid' = scan_pos w0 t rs" using tv(4) by (cases rs) (simp_all add: scan_pos_def end_rid_def)
  with on_tables_read[where m = "scan_next rid", OF v t r(1-3)] show ?thesis by simp
qed

lemma scan_pos_is_end:
  assumes v: "db_view w0 w" and t: "tf_fhs (sm_tables w0) t = Some (fd, h)" and s: "set rs \<subseteq> dom (tables_db (sm_tables w0) t)"
  shows "scan_is_end (table_hdr w t) (scan_pos w0 t rs) \<longleftrightarrow> rs = []"
proof (cases rs)
  case Nil
  then show ?thesis using v by (simp add: scan_pos_def end_rid_def scan_is_end_def)
next
  case (Cons r rs')
  then have "file_rec h (rm_pages (handle fd h (tf_pool (sm_tables w)))) r \<noteq> None"
    using s table_view(3)[OF v t] by auto
  then have "rid_page_no r < num_pages h" using file_rec_SomeD by (fastforce simp: page_in_def)
  then show ?thesis using Cons v table_view(4)[OF v t] by (simp add: scan_pos_def scan_is_end_def)
qed

end
