(* ===== verification/Executor.thy ===== *)
theory Executor
  imports Database
begin

text \<open>
  The executors of queries (\<open>execution/executor_abstract.h\<close> and the classes derived from it). An
  executor is its own state next to that of the database; the virtual methods of
  \<open>AbstractExecutor\<close> are the fields of \<open>exec_ops\<close>, and an executor with children takes their
  methods as an argument. The contract of the interface is the locale \<open>row_source\<close>: between
  \<open>beginTuple\<close> and the end an executor delivers a list of rows.
\<close>

section \<open>The interface\<close>

record 'e exec_ops =
  beginTuple :: "(database \<times> 'e, unit) comp"
  nextTuple :: "(database \<times> 'e, unit) comp"
  is_end :: "database \<times> 'e \<Rightarrow> bool"
  Next :: "(database \<times> 'e, bytes option) comp"
  cols :: "'e \<Rightarrow> ColMeta list"
  tupleLen :: "'e \<Rightarrow> nat"

text \<open>Computations on the database alone, and on the state of the executor.\<close>

definition on_db :: "(database, 'a) comp \<Rightarrow> (database \<times> 'e, 'a) comp" where
  "on_db m s = (case m (fst s) of (r, w) \<Rightarrow> (r, (w, snd s)))"

definition set_exec :: "('e \<Rightarrow> 'e) \<Rightarrow> (database \<times> 'e, unit) comp" where
  "set_exec f = modifyE (\<lambda>(w, e). (w, f e))"

definition get_col_offset :: "'e exec_ops \<Rightarrow> 'e \<Rightarrow> TabCol \<Rightarrow> rmdb_error + ColMeta" where
  "get_col_offset ops e target = find_col_meta (cols ops e) target"

text \<open>The loop \<open>for (beginTuple(); !is_end(); nextTuple()) Next()\<close> from where the executor stands.\<close>

fun drain :: "nat \<Rightarrow> 'e exec_ops \<Rightarrow> (database \<times> 'e, bytes option list) comp" where
  "drain fuel ops =
     bindE (getE (is_end ops)) (\<lambda>ended.
       if ended then returnE []
       else
         (case fuel of
            0 \<Rightarrow> throwE OutOfFuel
          | Suc fuel' \<Rightarrow>
              bindE (Next ops) (\<lambda>r.
                thenE (nextTuple ops)
                  (bindE (drain fuel' ops) (\<lambda>rs. returnE (r # rs))))))"

declare drain.simps [simp del]

definition run_query :: "nat \<Rightarrow> 'e exec_ops \<Rightarrow> (database \<times> 'e, bytes option list) comp" where
  "run_query fuel ops = thenE (beginTuple ops) (drain fuel ops)"

section \<open>Scanning a table\<close>

record seq_scan =
  ss_tab_name :: string
  ss_conds :: "Condition list"
  ss_cols :: "ColMeta list"
  ss_len :: nat
  ss_rid :: Rid
  ss_scan :: "Rid option"

definition seq_rid_end :: "(database \<times> seq_scan, unit) comp" where
  "seq_rid_end = modifyE (\<lambda>(w, e). (w, e\<lparr>ss_rid := Rid (num_pages (table_hdr w (ss_tab_name e))) (-1)\<rparr>))"

definition seq_scan_next :: "(database \<times> seq_scan, unit) comp" where
  "seq_scan_next =
     bindE (getE snd) (\<lambda>e.
       case ss_scan e of
         None \<Rightarrow> throwE UndefinedBehaviour
       | Some rid \<Rightarrow>
           bindE (on_db (on_tables (on_file (ss_tab_name e) (scan_next rid)))) (\<lambda>rid'.
             set_exec (\<lambda>e. e\<lparr>ss_scan := Some rid'\<rparr>)))"

text \<open>The loop to the next record that satisfies the conditions.\<close>

fun seq_advance :: "nat \<Rightarrow> (database \<times> seq_scan, unit) comp" where
  "seq_advance fuel =
     bindE (getE id) (\<lambda>(w, e).
       case ss_scan e of
         None \<Rightarrow> throwE UndefinedBehaviour
       | Some candidate \<Rightarrow>
           if scan_is_end (table_hdr w (ss_tab_name e)) candidate then seq_rid_end
           else
             (case fuel of
                0 \<Rightarrow> throwE OutOfFuel
              | Suc fuel' \<Rightarrow>
                  bindE (on_db (on_tables (on_file (ss_tab_name e) (get_record candidate)))) (\<lambda>rec.
                    case record_satisfies_conditions rec (ss_cols e) (ss_conds e) of
                      Inl x \<Rightarrow> throwE x
                    | Inr holds \<Rightarrow>
                        if holds then set_exec (\<lambda>e. e\<lparr>ss_rid := candidate\<rparr>)
                        else thenE seq_scan_next (seq_advance fuel'))))"

declare seq_advance.simps [simp del]

definition seq_begin :: "nat \<Rightarrow> (database \<times> seq_scan, unit) comp" where
  "seq_begin fuel =
     bindE (getE (ss_tab_name \<circ> snd)) (\<lambda>tab_name.
       bindE (on_db (on_tables (on_file tab_name RmScan))) (\<lambda>rid.
         thenE (set_exec (\<lambda>e. e\<lparr>ss_scan := Some rid\<rparr>)) (seq_advance fuel)))"

definition seq_is_end :: "database \<times> seq_scan \<Rightarrow> bool" where
  "seq_is_end s =
     (case ss_scan (snd s) of
        None \<Rightarrow> True
      | Some rid \<Rightarrow> scan_is_end (table_hdr (fst s) (ss_tab_name (snd s))) rid)"

definition seq_next_tuple :: "nat \<Rightarrow> (database \<times> seq_scan, unit) comp" where
  "seq_next_tuple fuel =
     bindE (getE seq_is_end) (\<lambda>ended. if ended then seq_rid_end else thenE seq_scan_next (seq_advance fuel))"

definition seq_next :: "(database \<times> seq_scan, bytes option) comp" where
  "seq_next =
     bindE (getE seq_is_end) (\<lambda>ended.
       if ended then returnE None
       else
         bindE (getE snd) (\<lambda>e.
           bindE (on_db (on_tables (on_file (ss_tab_name e) (get_record (ss_rid e))))) (\<lambda>rec. returnE (Some rec))))"

definition seq_scan_ops :: "nat \<Rightarrow> seq_scan exec_ops" where
  "seq_scan_ops fuel =
     \<lparr>beginTuple = seq_begin fuel, nextTuple = seq_next_tuple fuel, is_end = seq_is_end, Next = seq_next,
      cols = ss_cols, tupleLen = ss_len\<rparr>"

text \<open>The constructor without its lock: the length is that of the last column, which a table
  without columns does not have.\<close>

definition SeqScanExecutor :: "string \<Rightarrow> Condition list \<Rightarrow> (database, seq_scan) comp" where
  "SeqScanExecutor tab_name conds =
     bindE (getE id) (\<lambda>w.
       case get_table (sm_db w) tab_name of
         Inl e \<Rightarrow> throwE e
       | Inr tab \<Rightarrow>
           if tf_fhs (sm_tables w) tab_name = None then throwE OutOfRange
           else if tm_cols tab = [] then throwE UndefinedBehaviour
           else
             returnE \<lparr>ss_tab_name = tab_name, ss_conds = conds, ss_cols = tm_cols tab,
               ss_len = nat (cm_offset (last (tm_cols tab)) + cm_len (last (tm_cols tab))), ss_rid = Rid 0 0, ss_scan = None\<rparr>)"

section \<open>Projection\<close>

record 'e projection =
  pr_prev :: 'e
  pr_cols :: "ColMeta list"
  pr_len :: nat
  sel_idxs :: "nat list"

text \<open>A method of the child.\<close>

definition on_prev :: "(database \<times> 'e, 'a) comp \<Rightarrow> (database \<times> 'e projection, 'a) comp" where
  "on_prev m s = (case m (fst s, pr_prev (snd s)) of (r, (w, p)) \<Rightarrow> (r, (w, (snd s)\<lparr>pr_prev := p\<rparr>)))"

fun col_position :: "TabCol \<Rightarrow> ColMeta list \<Rightarrow> nat" where
  "col_position target [] = 0"
| "col_position target (col # cs) =
     (if cm_tab_name col = tc_tab_name target \<and> cm_name col = tc_col_name target then 0
      else Suc (col_position target cs))"

fun select_cols :: "ColMeta list \<Rightarrow> TabCol list \<Rightarrow> int \<Rightarrow> rmdb_error + (nat \<times> ColMeta) list" where
  "select_cols prev_cols [] curr_offset = Inr []"
| "select_cols prev_cols (sel # sels) curr_offset =
     (case find_col_meta prev_cols sel of
        Inl e \<Rightarrow> Inl e
      | Inr col \<Rightarrow>
          (case select_cols prev_cols sels (curr_offset + cm_len col) of
             Inl e \<Rightarrow> Inl e
           | Inr rest \<Rightarrow> Inr ((col_position sel prev_cols, col\<lparr>cm_offset := curr_offset\<rparr>) # rest)))"

definition ProjectionExecutor :: "'e exec_ops \<Rightarrow> 'e \<Rightarrow> TabCol list \<Rightarrow> rmdb_error + 'e projection" where
  "ProjectionExecutor ops prev sels =
     (case select_cols (cols ops prev) sels 0 of
        Inl e \<Rightarrow> Inl e
      | Inr picks \<Rightarrow> Inr \<lparr>pr_prev = prev, pr_cols = map snd picks, pr_len = nat (sum_list (map (cm_len \<circ> snd) picks)), sel_idxs = map fst picks\<rparr>)"

fun copy_fields :: "(ColMeta \<times> ColMeta) list \<Rightarrow> bytes \<Rightarrow> bytes \<Rightarrow> bytes" where
  "copy_fields [] src dst = dst"
| "copy_fields ((prev_col, curr_col) # cs) src dst =
     copy_fields cs src (mem_put dst (nat (cm_offset curr_col)) (mem_get src (nat (cm_offset prev_col)) (nat (cm_len prev_col))))"

definition project_record :: "'e exec_ops \<Rightarrow> 'e projection \<Rightarrow> bytes \<Rightarrow> bytes" where
  "project_record ops e prev_record =
     copy_fields (zip (map (\<lambda>i. cols ops (pr_prev e) ! i) (sel_idxs e)) (pr_cols e)) prev_record (replicate (pr_len e) 0)"

definition projection_next :: "'e exec_ops \<Rightarrow> (database \<times> 'e projection, bytes option) comp" where
  "projection_next ops =
     bindE (getE (\<lambda>s. is_end ops (fst s, pr_prev (snd s)))) (\<lambda>ended.
       if ended then returnE None
       else
         bindE (on_prev (Next ops)) (\<lambda>prev_record.
           case prev_record of
             None \<Rightarrow> throwE UndefinedBehaviour
           | Some rec \<Rightarrow> bindE (getE snd) (\<lambda>e. returnE (Some (project_record ops e rec)))))"

definition projection_ops :: "'e exec_ops \<Rightarrow> 'e projection exec_ops" where
  "projection_ops ops =
     \<lparr>beginTuple = on_prev (beginTuple ops), nextTuple = on_prev (nextTuple ops),
      is_end = (\<lambda>s. is_end ops (fst s, pr_prev (snd s))), Next = projection_next ops, cols = pr_cols, tupleLen = pr_len\<rparr>"

section \<open>The contract\<close>

text \<open>\<open>src e rows\<close>: the executor delivers \<open>rows\<close>; \<open>cur e rest\<close>: it has \<open>rest\<close> still to deliver. The
  database may change in what \<open>W\<close> leaves open.\<close>

definition kept :: "'e exec_ops \<Rightarrow> 'e \<Rightarrow> 'e \<Rightarrow> bool" where
  "kept ops e e' \<longleftrightarrow> cols ops e' = cols ops e \<and> tupleLen ops e' = tupleLen ops e"

lemma kept_refl [simp]: "kept ops e e"
  by (simp add: kept_def)

lemma kept_trans: "kept ops e e' \<Longrightarrow> kept ops e' e'' \<Longrightarrow> kept ops e e''"
  by (simp add: kept_def)

locale row_source =
  fixes ops :: "'e exec_ops"
    and W :: "database \<Rightarrow> bool"
    and src :: "'e \<Rightarrow> bytes list \<Rightarrow> bool"
    and cur :: "'e \<Rightarrow> bytes list \<Rightarrow> bool"
  assumes begin_ok: "W w \<Longrightarrow> src e rows \<Longrightarrow>
      \<exists>w' e'. beginTuple ops (w, e) = (Inr (), (w', e')) \<and> W w' \<and> src e' rows \<and> cur e' rows \<and> kept ops e e'"
    and next_ok: "W w \<Longrightarrow> src e rows \<Longrightarrow> cur e (r # rest) \<Longrightarrow>
      \<exists>w' e'. nextTuple ops (w, e) = (Inr (), (w', e')) \<and> W w' \<and> src e' rows \<and> cur e' rest \<and> kept ops e e'"
    and get_ok: "W w \<Longrightarrow> src e rows \<Longrightarrow> cur e (r # rest) \<Longrightarrow> \<exists>w'. Next ops (w, e) = (Inr (Some r), (w', e)) \<and> W w'"
    and end_ok: "W w \<Longrightarrow> src e rows \<Longrightarrow> cur e rest \<Longrightarrow> is_end ops (w, e) \<longleftrightarrow> rest = []"
    and len_ok: "src e rows \<Longrightarrow> r \<in> set rows \<Longrightarrow> length r = tupleLen ops e"
begin

lemma drain_ok:
  assumes "W w" "src e rows" "cur e rest" "length rest \<le> fuel"
  shows "\<exists>w' e'. drain fuel ops (w, e) = (Inr (map Some rest), (w', e')) \<and> W w' \<and> src e' rows \<and> cur e' [] \<and> kept ops e e'"
  using assms
proof (induction rest arbitrary: w e fuel)
  case Nil
  then show ?case using end_ok[OF Nil(1-3)] by (subst drain.simps) auto
next
  case (Cons r rest)
  obtain fuel' where f: "fuel = Suc fuel'" "length rest \<le> fuel'" using Cons.prems(4) by (cases fuel) auto
  obtain w1 where g: "Next ops (w, e) = (Inr (Some r), (w1, e))" "W w1" using get_ok[OF Cons.prems(1-3)] by blast
  obtain w2 e2 where n: "nextTuple ops (w1, e) = (Inr (), (w2, e2))" "W w2" "src e2 rows" "cur e2 rest" "kept ops e e2"
    using next_ok[OF g(2) Cons.prems(2,3)] by blast
  obtain w' e' where d: "drain fuel' ops (w2, e2) = (Inr (map Some rest), (w', e'))" "W w'" "src e' rows" "cur e' []" "kept ops e2 e'"
    using Cons.IH[OF n(2-4) f(2)] by blast
  have "drain fuel ops (w, e) = (Inr (map Some (r # rest)), (w', e'))"
    using end_ok[OF Cons.prems(1-3)] f(1) g(1) n(1) d(1) by (subst drain.simps) (simp add: bindE_Inr thenE_Inr)
  then show ?case using d kept_trans[OF n(5) d(5)] by blast
qed

lemma run_ok:
  assumes "W w" "src e rows" "length rows \<le> fuel"
  shows "\<exists>w' e'. run_query fuel ops (w, e) = (Inr (map Some rows), (w', e')) \<and> W w' \<and> src e' rows \<and> kept ops e e'"
proof -
  obtain w1 e1 where b: "beginTuple ops (w, e) = (Inr (), (w1, e1))" "W w1" "src e1 rows" "cur e1 rows" "kept ops e e1"
    using begin_ok[OF assms(1,2)] by blast
  obtain w' e' where "drain fuel ops (w1, e1) = (Inr (map Some rows), (w', e'))" "W w'" "src e' rows" "kept ops e1 e'"
    using drain_ok[OF b(2-4) assms(3)] by blast
  then show ?thesis using b(1) kept_trans[OF b(5)] by (auto simp: run_query_def thenE_Inr)
qed

end

section \<open>A scan delivers the records that satisfy its conditions\<close>

definition satisfies :: "seq_scan \<Rightarrow> bytes \<Rightarrow> bool" where
  "satisfies e rec \<longleftrightarrow> record_satisfies_conditions rec (ss_cols e) (ss_conds e) = Inr True"

definition ss_matches :: "database \<Rightarrow> seq_scan \<Rightarrow> Rid list \<Rightarrow> Rid list" where
  "ss_matches w e rids = filter (\<lambda>rid. satisfies e (record_at w (ss_tab_name e) rid)) rids"

definition ss_rows :: "database \<Rightarrow> seq_scan \<Rightarrow> Rid list \<Rightarrow> bytes list" where
  "ss_rows w e rids = map (record_at w (ss_tab_name e)) (ss_matches w e rids)"

definition ss_src :: "nat \<Rightarrow> database \<Rightarrow> seq_scan \<Rightarrow> bytes list \<Rightarrow> bool" where
  "ss_src fuel w0 e rows \<longleftrightarrow> tf_fhs (sm_tables w0) (ss_tab_name e) \<noteq> None \<and>
     (\<forall>rid \<in> set (table_rids w0 (ss_tab_name e)).
        (\<exists>b. record_satisfies_conditions (record_at w0 (ss_tab_name e) rid) (ss_cols e) (ss_conds e) = Inr b) \<and>
        length (record_at w0 (ss_tab_name e) rid) = ss_len e) \<and>
     length (table_rids w0 (ss_tab_name e)) \<le> fuel \<and> rows = ss_rows w0 e (table_rids w0 (ss_tab_name e))"

definition ss_cur :: "database \<Rightarrow> seq_scan \<Rightarrow> bytes list \<Rightarrow> bool" where
  "ss_cur w0 e rest \<longleftrightarrow>
     (\<exists>xs rs. table_rids w0 (ss_tab_name e) = xs @ rs \<and> ss_scan e = Some (scan_pos w0 (ss_tab_name e) rs) \<and>
        rest = ss_rows w0 e rs \<and>
        (case rs of [] \<Rightarrow> True | r # _ \<Rightarrow> ss_rid e = r \<and> satisfies e (record_at w0 (ss_tab_name e) r)))"

definition same_scan :: "seq_scan \<Rightarrow> seq_scan \<Rightarrow> bool" where
  "same_scan e e' \<longleftrightarrow> ss_tab_name e' = ss_tab_name e \<and> ss_conds e' = ss_conds e \<and> ss_cols e' = ss_cols e \<and> ss_len e' = ss_len e"

lemma same_scanD:
  assumes "same_scan e e'"
  shows "ss_src fuel w0 e' rows = ss_src fuel w0 e rows" "ss_rows w0 e' rs = ss_rows w0 e rs" "satisfies e' = satisfies e"
    "kept (seq_scan_ops fuel) e e'" "ss_tab_name e' = ss_tab_name e"
  using assms
  by (auto simp: same_scan_def ss_src_def ss_rows_def ss_matches_def satisfies_def[abs_def] kept_def seq_scan_ops_def)

lemma same_scan_upd [simp]: "same_scan e (e\<lparr>ss_rid := r\<rparr>)" "same_scan e (e\<lparr>ss_scan := p\<rparr>)" "same_scan e e"
  by (simp_all add: same_scan_def)

lemma same_scan_trans: "same_scan a b \<Longrightarrow> same_scan b c \<Longrightarrow> same_scan a c"
  by (simp add: same_scan_def)

lemma seq_advance_ok:
  assumes "db_view w0 w" "ss_src fuel0 w0 e rows" "table_rids w0 (ss_tab_name e) = xs @ rs"
    "ss_scan e = Some (scan_pos w0 (ss_tab_name e) rs)" "length rs \<le> fuel"
  shows "\<exists>w' e'. seq_advance fuel (w, e) = (Inr (), (w', e')) \<and> db_view w0 w' \<and> same_scan e e' \<and> ss_cur w0 e' (ss_rows w0 e rs)"
  using assms
proof (induction rs arbitrary: w e xs fuel)
  case Nil
  obtain fd h where t: "tf_fhs (sm_tables w0) (ss_tab_name e) = Some (fd, h)"
    using Nil(2) by (auto simp: ss_src_def)
  have "scan_is_end (table_hdr w (ss_tab_name e)) (scan_pos w0 (ss_tab_name e) [])" using scan_pos_is_end[OF Nil(1) t, of "[]"] by simp
  then have "seq_advance fuel (w, e) = (Inr (), (w, e\<lparr>ss_rid := Rid (num_pages (table_hdr w (ss_tab_name e))) (-1)\<rparr>))"
    using Nil(4) by (subst seq_advance.simps) (simp add: seq_rid_end_def)
  moreover have "ss_cur w0 (e\<lparr>ss_rid := Rid (num_pages (table_hdr w (ss_tab_name e))) (-1)\<rparr>) (ss_rows w0 e [])"
    unfolding ss_cur_def
    by (rule exI[of _ xs], rule exI[of _ "[]"]) (use Nil(3,4) in \<open>simp add: ss_rows_def ss_matches_def\<close>)
  ultimately show ?case using Nil(1) by auto
next
  case (Cons r rs)
  let ?t = "ss_tab_name e"
  obtain fd h where t: "tf_fhs (sm_tables w0) ?t = Some (fd, h)" using Cons.prems(2) by (auto simp: ss_src_def)
  have in_dom: "set (r # rs) \<subseteq> dom (tables_db (sm_tables w0) ?t)"
    using arg_cong[OF Cons.prems(3), of set] by auto
  have ne: "\<not> scan_is_end (table_hdr w ?t) (scan_pos w0 ?t (r # rs))" using scan_pos_is_end[OF Cons.prems(1) t in_dom] by simp
  obtain fuel' where f: "fuel = Suc fuel'" "length rs \<le> fuel'" using Cons.prems(5) by (cases fuel) auto
  obtain w1 where g: "on_tables (on_file ?t (get_record r)) w = (Inr (record_at w0 ?t r), w1)" "db_view w0 w1"
    using read_record[OF Cons.prems(1), of r ?t] in_dom by auto
  obtain b where b: "record_satisfies_conditions (record_at w0 ?t r) (ss_cols e) (ss_conds e) = Inr b"
    using Cons.prems(2) in_dom by (fastforce simp: ss_src_def)
  have sc: "scan_pos w0 ?t (r # rs) = r" by (simp add: scan_pos_def)
  show ?case
  proof (cases b)
    case True
    have "seq_advance fuel (w, e) = (Inr (), (w1, e\<lparr>ss_rid := r\<rparr>))"
      using Cons.prems(4) ne f(1) g(1) b True sc
      by (subst seq_advance.simps) (simp add: bindE_def on_db_def g(1) set_exec_def)
    moreover have "ss_cur w0 (e\<lparr>ss_rid := r\<rparr>) (ss_rows w0 e (r # rs))"
      unfolding ss_cur_def
      by (rule exI[of _ xs], rule exI[of _ "r # rs"]) (use Cons.prems(3,4) b True in \<open>simp add: satisfies_def same_scanD(2)[OF same_scan_upd(1)]\<close>)
    ultimately show ?thesis using g(2) by auto
  next
    case False
    obtain w2 where n: "on_tables (on_file ?t (scan_next r)) w1 = (Inr (scan_pos w0 ?t rs), w2)" "db_view w0 w2"
      using read_scan_next[OF g(2) t Cons.prems(3)] by blast
    define e1 where "e1 = e\<lparr>ss_scan := Some (scan_pos w0 ?t rs)\<rparr>"
    have e1: "ss_tab_name e1 = ?t" "ss_scan e1 = Some (scan_pos w0 ?t rs)" "same_scan e e1" by (simp_all add: e1_def)
    have step: "seq_advance fuel (w, e) = seq_advance fuel' (w2, e1)"
      using Cons.prems(4) ne f(1) b False sc e1_def
      by (subst seq_advance.simps)
        (simp add: bindE_def on_db_def g(1) seq_scan_next_def thenE_def bindE_def on_db_def n(1) set_exec_def)
    have "ss_src fuel0 w0 e1 rows" using Cons.prems(2) same_scanD(1)[OF e1(3)] by simp
    from Cons.IH[OF n(2) this, of "xs @ [r]" fuel'] e1 f(2) Cons.prems(3) obtain w' e' where
      "seq_advance fuel' (w2, e1) = (Inr (), (w', e'))" "db_view w0 w'" "same_scan e1 e'" "ss_cur w0 e' (ss_rows w0 e1 rs)" by auto
    moreover have "ss_rows w0 e1 rs = ss_rows w0 e (r # rs)"
      using same_scanD(2)[OF e1(3)] b False by (simp add: ss_rows_def ss_matches_def satisfies_def)
    ultimately show ?thesis using step same_scan_trans[OF e1(3)] by auto
  qed
qed

lemma ss_open:
  assumes "ss_src fuel w0 e rows"
  obtains fd h where "tf_fhs (sm_tables w0) (ss_tab_name e) = Some (fd, h)"
  using assms by (auto simp: ss_src_def)

lemma ss_cur_end:
  assumes "db_view w0 w" "ss_src fuel w0 e rows" "ss_cur w0 e rest"
  shows "seq_is_end (w, e) \<longleftrightarrow> rest = []"
proof -
  obtain fd h where t: "tf_fhs (sm_tables w0) (ss_tab_name e) = Some (fd, h)" by (rule ss_open[OF assms(2)])
  obtain xs rs where c: "table_rids w0 (ss_tab_name e) = xs @ rs" "ss_scan e = Some (scan_pos w0 (ss_tab_name e) rs)"
    "rest = ss_rows w0 e rs" "case rs of [] \<Rightarrow> True | r # _ \<Rightarrow> ss_rid e = r \<and> satisfies e (record_at w0 (ss_tab_name e) r)"
    using assms(3) by (auto simp: ss_cur_def)
  have "set rs \<subseteq> dom (tables_db (sm_tables w0) (ss_tab_name e))" using arg_cong[OF c(1), of set] by auto
  from scan_pos_is_end[OF assms(1) t this] have "seq_is_end (w, e) \<longleftrightarrow> rs = []" using c(2) by (simp add: seq_is_end_def)
  also have "\<dots> \<longleftrightarrow> rest = []" using c(3,4) by (cases rs) (simp_all add: ss_rows_def ss_matches_def)
  finally show ?thesis .
qed

lemma seq_begin_ok:
  assumes "db_view w0 w" "ss_src fuel w0 e rows"
  shows "\<exists>w' e'. seq_begin fuel (w, e) = (Inr (), (w', e')) \<and> db_view w0 w' \<and> same_scan e e' \<and> ss_cur w0 e' rows"
proof -
  obtain fd h where t: "tf_fhs (sm_tables w0) (ss_tab_name e) = Some (fd, h)" by (rule ss_open[OF assms(2)])
  obtain w1 where s: "on_tables (on_file (ss_tab_name e) RmScan) w = (Inr (scan_pos w0 (ss_tab_name e) (table_rids w0 (ss_tab_name e))), w1)"
    "db_view w0 w1" using read_scan_begin[OF assms(1) t] by blast
  define e1 where "e1 = e\<lparr>ss_scan := Some (scan_pos w0 (ss_tab_name e) (table_rids w0 (ss_tab_name e)))\<rparr>"
  have e1: "ss_tab_name e1 = ss_tab_name e" "same_scan e e1" by (simp_all add: e1_def)
  have "ss_src fuel w0 e1 rows" using assms(2) same_scanD(1)[OF e1(2)] by simp
  from seq_advance_ok[OF s(2) this, of "[]" "table_rids w0 (ss_tab_name e)" fuel] assms(2) obtain w' e' where
    a: "seq_advance fuel (w1, e1) = (Inr (), (w', e'))" "db_view w0 w'" "same_scan e1 e'" "ss_cur w0 e' (ss_rows w0 e1 (table_rids w0 (ss_tab_name e)))"
    by (auto simp: e1_def ss_src_def)
  have "seq_begin fuel (w, e) = (Inr (), (w', e'))"
    using a(1) by (simp add: seq_begin_def bindE_def on_db_def s(1) set_exec_def thenE_Inr e1_def)
  then show ?thesis
    using a same_scan_trans[OF e1(2) a(3)] same_scanD(2)[OF e1(2)] assms(2) by (auto simp: ss_src_def)
qed

lemma seq_next_tuple_ok:
  assumes "db_view w0 w" "ss_src fuel w0 e rows" "ss_cur w0 e (r # rest)"
  shows "\<exists>w' e'. seq_next_tuple fuel (w, e) = (Inr (), (w', e')) \<and> db_view w0 w' \<and> same_scan e e' \<and> ss_cur w0 e' rest"
proof -
  obtain fd h where t: "tf_fhs (sm_tables w0) (ss_tab_name e) = Some (fd, h)" by (rule ss_open[OF assms(2)])
  have ne: "\<not> seq_is_end (w, e)" using ss_cur_end[OF assms] by simp
  obtain xs rs where c: "table_rids w0 (ss_tab_name e) = xs @ rs" "ss_scan e = Some (scan_pos w0 (ss_tab_name e) rs)"
    "r # rest = ss_rows w0 e rs" "case rs of [] \<Rightarrow> True | r # _ \<Rightarrow> ss_rid e = r \<and> satisfies e (record_at w0 (ss_tab_name e) r)"
    using assms(3) by (auto simp: ss_cur_def)
  obtain rid rs' where rs: "rs = rid # rs'" using c(3) by (cases rs) (auto simp: ss_rows_def ss_matches_def)
  have rest: "rest = ss_rows w0 e rs'" using c(3,4) rs by (simp add: ss_rows_def ss_matches_def)
  obtain w1 where n: "on_tables (on_file (ss_tab_name e) (scan_next rid)) w = (Inr (scan_pos w0 (ss_tab_name e) rs'), w1)" "db_view w0 w1"
    using read_scan_next[OF assms(1) t, of xs rid rs'] c(1) rs by blast
  define e1 where "e1 = e\<lparr>ss_scan := Some (scan_pos w0 (ss_tab_name e) rs')\<rparr>"
  have e1: "ss_tab_name e1 = ss_tab_name e" "same_scan e e1" by (simp_all add: e1_def)
  have "ss_src fuel w0 e1 rows" using assms(2) same_scanD(1)[OF e1(2)] by simp
  moreover have "length rs' \<le> fuel" using assms(2) c(1) rs by (simp add: ss_src_def)
  ultimately obtain w' e' where
    a: "seq_advance fuel (w1, e1) = (Inr (), (w', e'))" "db_view w0 w'" "same_scan e1 e'" "ss_cur w0 e' (ss_rows w0 e1 rs')"
    using seq_advance_ok[OF n(2), of fuel e1 rows "xs @ [rid]" rs' fuel] c(1) rs by (auto simp: e1_def)
  have "ss_scan e = Some rid" using c(2) rs by (simp add: scan_pos_def)
  then have "seq_next_tuple fuel (w, e) = (Inr (), (w', e'))"
    using ne a(1) e1_def n(1) by (simp add: seq_next_tuple_def seq_scan_next_def thenE_def bindE_def on_db_def set_exec_def)
  then show ?thesis using a same_scan_trans[OF e1(2) a(3)] same_scanD(2)[OF e1(2)] rest by auto
qed

lemma seq_next_ok:
  assumes "db_view w0 w" "ss_src fuel w0 e rows" "ss_cur w0 e (r # rest)"
  shows "\<exists>w'. seq_next (w, e) = (Inr (Some r), (w', e)) \<and> db_view w0 w'"
proof -
  have ne: "\<not> seq_is_end (w, e)" using ss_cur_end[OF assms] by simp
  obtain xs rs where c: "table_rids w0 (ss_tab_name e) = xs @ rs" "r # rest = ss_rows w0 e rs"
    "case rs of [] \<Rightarrow> True | r # _ \<Rightarrow> ss_rid e = r \<and> satisfies e (record_at w0 (ss_tab_name e) r)"
    using assms(3) by (auto simp: ss_cur_def)
  obtain rid rs' where rs: "rs = rid # rs'" using c(2) by (cases rs) (auto simp: ss_rows_def ss_matches_def)
  have r: "r = record_at w0 (ss_tab_name e) rid" "ss_rid e = rid" using c(2,3) rs by (auto simp: ss_rows_def ss_matches_def)
  have "rid \<in> dom (tables_db (sm_tables w0) (ss_tab_name e))" using arg_cong[OF c(1), of set] rs by auto
  from read_record[OF assms(1) this] obtain w' where
    "on_tables (on_file (ss_tab_name e) (get_record rid)) w = (Inr r, w')" "db_view w0 w'" using r(1) by auto
  then show ?thesis using ne r(2) by (auto simp: seq_next_def bindE_def on_db_def)
qed

interpretation ss: row_source "seq_scan_ops fuel" "db_view w0" "ss_src fuel w0" "ss_cur w0" for fuel w0
proof
  fix w e rows assume "db_view w0 w" "ss_src fuel w0 e rows"
  then show "\<exists>w' e'. beginTuple (seq_scan_ops fuel) (w, e) = (Inr (), (w', e')) \<and> db_view w0 w' \<and> ss_src fuel w0 e' rows \<and> ss_cur w0 e' rows \<and>
      kept (seq_scan_ops fuel) e e'"
    using seq_begin_ok[of w0 w fuel e rows] same_scanD(1,4) by (fastforce simp: seq_scan_ops_def)
next
  fix w e rows r rest assume "db_view w0 w" "ss_src fuel w0 e rows" "ss_cur w0 e (r # rest)"
  then show "\<exists>w' e'. nextTuple (seq_scan_ops fuel) (w, e) = (Inr (), (w', e')) \<and> db_view w0 w' \<and> ss_src fuel w0 e' rows \<and> ss_cur w0 e' rest \<and>
      kept (seq_scan_ops fuel) e e'"
    using seq_next_tuple_ok[of w0 w fuel e rows r rest] same_scanD(1,4) by (fastforce simp: seq_scan_ops_def)
next
  fix w e rows r rest assume "db_view w0 w" "ss_src fuel w0 e rows" "ss_cur w0 e (r # rest)"
  then show "\<exists>w'. Next (seq_scan_ops fuel) (w, e) = (Inr (Some r), (w', e)) \<and> db_view w0 w'"
    using seq_next_ok by (simp add: seq_scan_ops_def)
next
  fix w e rows rest assume "db_view w0 w" "ss_src fuel w0 e rows" "ss_cur w0 e rest"
  then show "is_end (seq_scan_ops fuel) (w, e) \<longleftrightarrow> rest = []" using ss_cur_end by (simp add: seq_scan_ops_def)
next
  fix e rows r assume "ss_src fuel w0 e rows" "r \<in> set rows"
  then show "length r = tupleLen (seq_scan_ops fuel) e" by (auto simp: ss_src_def ss_rows_def ss_matches_def seq_scan_ops_def)
qed

section \<open>Projection copies the selected fields\<close>

definition field :: "ColMeta \<Rightarrow> bytes \<Rightarrow> bytes" where
  "field col rec = mem_get rec (nat (cm_offset col)) (nat (cm_len col))"

definition cols_wf :: "nat \<Rightarrow> ColMeta list \<Rightarrow> bool" where
  "cols_wf n cs \<longleftrightarrow> (\<forall>col \<in> set cs. 0 \<le> cm_offset col \<and> 0 \<le> cm_len col \<and> cm_offset col + cm_len col \<le> int n)"

lemma length_field: "cols_wf n cs \<Longrightarrow> col \<in> set cs \<Longrightarrow> length rec = n \<Longrightarrow> length (field col rec) = nat (cm_len col)"
  by (auto simp: cols_wf_def field_def intro!: length_mem_get)

text \<open>The columns of the projection stand one after the other.\<close>

fun packed :: "int \<Rightarrow> (ColMeta \<times> ColMeta) list \<Rightarrow> bool" where
  "packed off [] \<longleftrightarrow> True"
| "packed off ((p, c) # pcs) \<longleftrightarrow> cm_offset c = off \<and> packed (off + cm_len p) pcs"

lemma copy_fields_packed:
  assumes "packed off pcs" "0 \<le> off" "cols_wf n (map fst pcs)" "length src = n"
    "length dst = nat off + nat (sum_list (map (cm_len \<circ> fst) pcs))"
  shows "copy_fields pcs src dst = take (nat off) dst @ concat (map (\<lambda>(p, c). field p src) pcs)"
  using assms
proof (induction off pcs arbitrary: dst rule: packed.induct)
  case (2 off p c pcs)
  have len: "0 \<le> cm_len p" "length (field p src) = nat (cm_len p)"
    using 2(4,5) length_field[OF 2(4), of p src] by (auto simp: cols_wf_def)
  have nn: "0 \<le> sum_list (map (cm_len \<circ> fst) pcs)"
    using 2(4) by (intro sum_list_nonneg) (auto simp: cols_wf_def)
  have cp: "copy_fields ((p, c) # pcs) src dst = copy_fields pcs src (mem_put dst (nat off) (field p src))"
    using 2(2) by (simp add: field_def)
  have ld: "length dst = nat off + (nat (cm_len p) + nat (sum_list (map (cm_len \<circ> fst) pcs)))"
    using 2(6) len(1) nn by (simp add: nat_add_distrib comp_def)
  have off': "nat (off + cm_len p) = nat off + nat (cm_len p)" using 2(3) len(1) by simp
  have "length (mem_put dst (nat off) (field p src)) = nat (off + cm_len p) + nat (sum_list (map (cm_len \<circ> fst) pcs))"
    using ld len off' by (subst length_mem_put) simp_all
  moreover have "packed (off + cm_len p) pcs" "0 \<le> off + cm_len p" "cols_wf n (map fst pcs)" using 2(2,3,4) len(1) by (auto simp: cols_wf_def)
  ultimately have "copy_fields pcs src (mem_put dst (nat off) (field p src)) =
      take (nat (off + cm_len p)) (mem_put dst (nat off) (field p src)) @ concat (map (\<lambda>(p, c). field p src) pcs)"
    using 2(1)[OF _ _ _ 2(5), of "mem_put dst (nat off) (field p src)"] by (simp add: comp_def)
  also have "take (nat (off + cm_len p)) (mem_put dst (nat off) (field p src)) = take (nat off) dst @ field p src"
    using ld len off' by (simp add: mem_put_def)
  finally show ?case using cp by simp
qed simp

definition pr_ok :: "'e exec_ops \<Rightarrow> 'e projection \<Rightarrow> bool" where
  "pr_ok ops e \<longleftrightarrow> length (sel_idxs e) = length (pr_cols e) \<and> (\<forall>i \<in> set (sel_idxs e). i < length (cols ops (pr_prev e))) \<and>
     packed 0 (zip (map (\<lambda>i. cols ops (pr_prev e) ! i) (sel_idxs e)) (pr_cols e)) \<and>
     cols_wf (tupleLen ops (pr_prev e)) (cols ops (pr_prev e)) \<and>
     pr_len e = nat (sum_list (map (\<lambda>i. cm_len (cols ops (pr_prev e) ! i)) (sel_idxs e)))"

definition picked_cols :: "'e exec_ops \<Rightarrow> 'e projection \<Rightarrow> ColMeta list" where
  "picked_cols ops e = map (\<lambda>i. cols ops (pr_prev e) ! i) (sel_idxs e)"

lemma picked_zip:
  assumes "pr_ok ops e"
  shows "map fst (zip (picked_cols ops e) (pr_cols e)) = picked_cols ops e" "set (picked_cols ops e) \<subseteq> set (cols ops (pr_prev e))"
  using assms by (auto simp: pr_ok_def picked_cols_def)

lemma project_record_fields:
  assumes ok: "pr_ok ops e" and len: "length rec = tupleLen ops (pr_prev e)"
  shows "project_record ops e rec = concat (map (\<lambda>col. field col rec) (picked_cols ops e))"
    "length (project_record ops e rec) = pr_len e"
proof -
  let ?z = "zip (picked_cols ops e) (pr_cols e)"
  note pz = picked_zip[OF ok]
  have wf: "cols_wf (tupleLen ops (pr_prev e)) (picked_cols ops e)"
    using ok pz(2) unfolding pr_ok_def cols_wf_def by blast
  have m: "map (\<lambda>(p, c). field p rec) ?z = map (\<lambda>col. field col rec) (picked_cols ops e)"
  proof -
    have "map (\<lambda>(p, c). field p rec) ?z = map (\<lambda>col. field col rec) (map fst ?z)" by (simp add: comp_def case_prod_unfold)
    then show ?thesis using pz(1) by simp
  qed
  have "sum_list (map (cm_len \<circ> fst) ?z) = sum_list (map cm_len (picked_cols ops e))" using pz(1) by (metis map_map)
  then have "pr_len e = nat (sum_list (map (cm_len \<circ> fst) ?z))" using ok by (simp add: pr_ok_def picked_cols_def comp_def)
  with copy_fields_packed[of 0 ?z "tupleLen ops (pr_prev e)" rec "replicate (pr_len e) 0"] ok pz(1) wf len
  show eq: "project_record ops e rec = concat (map (\<lambda>col. field col rec) (picked_cols ops e))"
    by (simp add: project_record_def picked_cols_def pr_ok_def m[unfolded picked_cols_def])
  have lc: "length (concat (map (\<lambda>col. field col rec) cs)) = nat (sum_list (map cm_len cs))" if "cols_wf (length rec) cs" for cs
    using that
  proof (induction cs)
    case (Cons c cs)
    then have "0 \<le> cm_len c" "cols_wf (length rec) cs" "length (field c rec) = nat (cm_len c)" "0 \<le> sum_list (map cm_len cs)"
      using length_field[OF Cons.prems, of c rec] by (auto simp: cols_wf_def intro!: sum_list_nonneg)
    with Cons.IH show ?case by (simp add: nat_add_distrib)
  qed simp
  have "pr_len e = nat (sum_list (map cm_len (picked_cols ops e)))" using ok by (simp add: pr_ok_def picked_cols_def comp_def)
  then show "length (project_record ops e rec) = pr_len e" using lc[of "picked_cols ops e"] eq wf len by simp
qed

definition pr_src :: "'e exec_ops \<Rightarrow> ('e \<Rightarrow> bytes list \<Rightarrow> bool) \<Rightarrow> 'e projection \<Rightarrow> bytes list \<Rightarrow> bool" where
  "pr_src ops src e rows \<longleftrightarrow> pr_ok ops e \<and> (\<exists>prows. src (pr_prev e) prows \<and> rows = map (project_record ops e) prows)"

definition pr_cur :: "'e exec_ops \<Rightarrow> ('e \<Rightarrow> bytes list \<Rightarrow> bool) \<Rightarrow> 'e projection \<Rightarrow> bytes list \<Rightarrow> bool" where
  "pr_cur ops cur e rest \<longleftrightarrow> (\<exists>prest. cur (pr_prev e) prest \<and> rest = map (project_record ops e) prest)"

lemma on_prev_run: "m (w, pr_prev e) = (r, (w', p)) \<Longrightarrow> on_prev m (w, e) = (r, (w', e\<lparr>pr_prev := p\<rparr>))"
  by (simp add: on_prev_def)

lemma pr_moved:
  assumes "kept ops (pr_prev e) p" "pr_ok ops e"
  shows "pr_ok ops (e\<lparr>pr_prev := p\<rparr>)" "project_record ops (e\<lparr>pr_prev := p\<rparr>) = project_record ops e"
    "kept (projection_ops ops) e (e\<lparr>pr_prev := p\<rparr>)"
  using assms by (auto simp: kept_def pr_ok_def project_record_def[abs_def] projection_ops_def)

lemma projection_source:
  assumes "row_source ops W src cur"
  shows "row_source (projection_ops ops) W (pr_src ops src) (pr_cur ops cur)"
proof -
  show ?thesis
  proof
    fix w e rows assume w: "W w" and s: "pr_src ops src e rows"
    obtain prows where p: "pr_ok ops e" "src (pr_prev e) prows" "rows = map (project_record ops e) prows" using s by (auto simp: pr_src_def)
    from row_source.begin_ok[OF assms w p(2)] obtain w' q where
      q: "beginTuple ops (w, pr_prev e) = (Inr (), (w', q))" "W w'" "src q prows" "cur q prows" "kept ops (pr_prev e) q" by blast
    note m = pr_moved[OF q(5) p(1)]
    show "\<exists>w' e'. beginTuple (projection_ops ops) (w, e) = (Inr (), (w', e')) \<and> W w' \<and> pr_src ops src e' rows \<and> pr_cur ops cur e' rows \<and>
        kept (projection_ops ops) e e'"
      using on_prev_run[where m = "beginTuple ops" and e = e, OF q(1)] q(2-4) m p(3)
      by (auto simp: projection_ops_def pr_src_def pr_cur_def)
  next
    fix w e rows x rest assume w: "W w" and s: "pr_src ops src e rows" and c: "pr_cur ops cur e (x # rest)"
    obtain prows y ys where p: "pr_ok ops e" "src (pr_prev e) prows" "rows = map (project_record ops e) prows"
      "cur (pr_prev e) (y # ys)" "rest = map (project_record ops e) ys" using s c by (auto simp: pr_src_def pr_cur_def Cons_eq_map_conv)
    from row_source.next_ok[OF assms w p(2,4)] obtain w' q where
      q: "nextTuple ops (w, pr_prev e) = (Inr (), (w', q))" "W w'" "src q prows" "cur q ys" "kept ops (pr_prev e) q" by blast
    note m = pr_moved[OF q(5) p(1)]
    show "\<exists>w' e'. nextTuple (projection_ops ops) (w, e) = (Inr (), (w', e')) \<and> W w' \<and> pr_src ops src e' rows \<and> pr_cur ops cur e' rest \<and>
        kept (projection_ops ops) e e'"
      using on_prev_run[where m = "nextTuple ops" and e = e, OF q(1)] q(2-4) m p(3,5)
      by (auto simp: projection_ops_def pr_src_def pr_cur_def)
  next
    fix w e rows x rest assume w: "W w" and s: "pr_src ops src e rows" and c: "pr_cur ops cur e (x # rest)"
    obtain prows y ys where p: "pr_ok ops e" "src (pr_prev e) prows" "cur (pr_prev e) (y # ys)" "x = project_record ops e y"
      using s c by (auto simp: pr_src_def pr_cur_def Cons_eq_map_conv)
    from row_source.get_ok[OF assms w p(2,3)] obtain w' where g: "Next ops (w, pr_prev e) = (Inr (Some y), (w', pr_prev e))" "W w'" by blast
    have "\<not> is_end ops (w, pr_prev e)" using row_source.end_ok[OF assms w p(2,3)] by simp
    then show "\<exists>w'. Next (projection_ops ops) (w, e) = (Inr (Some x), (w', e)) \<and> W w'"
      using on_prev_run[where m = "Next ops" and e = e, OF g(1)] g(2) p(4)
      by (simp add: projection_ops_def projection_next_def bindE_def)
  next
    fix w e rows rest assume "W w" "pr_src ops src e rows" "pr_cur ops cur e rest"
    then show "is_end (projection_ops ops) (w, e) \<longleftrightarrow> rest = []"
      using row_source.end_ok[OF assms] by (fastforce simp: projection_ops_def pr_src_def pr_cur_def)
  next
    fix e rows x assume "pr_src ops src e rows" "x \<in> set rows"
    then show "length x = tupleLen (projection_ops ops) e"
      using project_record_fields(2) row_source.len_ok[OF assms] by (fastforce simp: projection_ops_def pr_src_def)
  qed
qed

lemma find_col_meta_position:
  assumes "find_col_meta cs sel = Inr col"
  shows "col_position sel cs < length cs" "cs ! col_position sel cs = col"
  using assms by (induction cs) (auto simp: find_col_meta_def split: option.splits if_splits)

lemma select_cols_ok:
  assumes "select_cols cs sels off = Inr picks"
  shows "packed off (zip (map (\<lambda>i. cs ! i) (map fst picks)) (map snd picks))"
    "\<forall>i \<in> set (map fst picks). i < length cs"
    "map (cm_len \<circ> snd) picks = map (\<lambda>i. cm_len (cs ! i)) (map fst picks)"
    "list_all2 (\<lambda>sel i. find_col_meta cs sel = Inr (cs ! i)) sels (map fst picks)"
  using assms
  by (induction cs sels off arbitrary: picks rule: select_cols.induct)
    (fastforce split: sum.splits simp: find_col_meta_position comp_def)+

text \<open>The executor a constructor call builds.\<close>

lemma ProjectionExecutor_ok:
  assumes "ProjectionExecutor ops prev sels = Inr e" "cols_wf (tupleLen ops prev) (cols ops prev)"
  shows "pr_ok ops e" "pr_prev e = prev"
    "list_all2 (\<lambda>sel col. find_col_meta (cols ops prev) sel = Inr col) sels (picked_cols ops e)"
proof -
  obtain picks where p: "select_cols (cols ops prev) sels 0 = Inr picks" "e = \<lparr>pr_prev = prev, pr_cols = map snd picks,
      pr_len = nat (sum_list (map (cm_len \<circ> snd) picks)), sel_idxs = map fst picks\<rparr>"
    using assms(1) by (auto simp: ProjectionExecutor_def split: sum.splits)
  note s = select_cols_ok[OF p(1)]
  have "sum_list (map (cm_len \<circ> snd) picks) = sum_list (map (\<lambda>i. cm_len (cols ops prev ! i)) (map fst picks))" using s(3) by (rule arg_cong)
  then have "pr_len e = nat (sum_list (map (\<lambda>i. cm_len (cols ops prev ! i)) (sel_idxs e)))" by (simp only: p(2) projection.simps)
  then show "pr_ok ops e" "pr_prev e = prev" using s(1,2) assms(2) by (simp_all add: p(2) pr_ok_def)
  show "list_all2 (\<lambda>sel col. find_col_meta (cols ops prev) sel = Inr col) sels (picked_cols ops e)"
    using s(4) by (simp add: p(2) picked_cols_def list_all2_map2)
qed

end
