(* ===== verification/Join.thy ===== *)
theory Join
  imports Executor "HOL-Library.Multiset"
begin

text \<open>
  The block nested-loop join (\<open>execution/executor_nestedloop_join.h\<close>): a block of left rows is kept
  in memory and the right child is read once per block. The join is a \<open>row_source\<close> again, and its rows are,
  up to their order, the pairs of rows that satisfy the conditions.
\<close>

section \<open>Definitions\<close>

record ('l, 'r) nl_join =
  nl_left :: 'l
  nl_right :: 'r
  nl_len :: nat
  nl_cols :: "ColMeta list"
  nl_conds :: "Condition list"
  nl_isend :: bool
  left_block :: "bytes option list"
  left_block_capacity :: nat
  left_block_idx :: nat
  right_tuple :: "bytes option"

abbreviation JOIN_BUFFER_BYTES :: nat where "JOIN_BUFFER_BYTES \<equiv> 4194304"

definition NestedLoopJoinExecutor :: "'l exec_ops \<Rightarrow> 'r exec_ops \<Rightarrow> 'l \<Rightarrow> 'r \<Rightarrow> Condition list \<Rightarrow> ('l, 'r) nl_join" where
  "NestedLoopJoinExecutor lops rops left right conds =
     \<lparr>nl_left = left, nl_right = right, nl_len = tupleLen lops left + tupleLen rops right,
      nl_cols = cols lops left @ map (\<lambda>col. col\<lparr>cm_offset := cm_offset col + int (tupleLen lops left)\<rparr>) (cols rops right),
      nl_conds = conds, nl_isend = True, left_block = [],
      left_block_capacity = max 1 (JOIN_BUFFER_BYTES div max 1 (tupleLen lops left)), left_block_idx = 0, right_tuple = None\<rparr>"

definition on_left :: "(database \<times> 'l, 'a) comp \<Rightarrow> (database \<times> ('l, 'r) nl_join, 'a) comp" where
  "on_left m s = (case m (fst s, nl_left (snd s)) of (r, (w, p)) \<Rightarrow> (r, (w, (snd s)\<lparr>nl_left := p\<rparr>)))"

definition on_right :: "(database \<times> 'r, 'a) comp \<Rightarrow> (database \<times> ('l, 'r) nl_join, 'a) comp" where
  "on_right m s = (case m (fst s, nl_right (snd s)) of (r, (w, p)) \<Rightarrow> (r, (w, (snd s)\<lparr>nl_right := p\<rparr>)))"

text \<open>The loop of \<open>load_next_left_block\<close>, with room for \<open>n\<close> more rows.\<close>

fun load_left :: "nat \<Rightarrow> 'l exec_ops \<Rightarrow> (database \<times> ('l, 'r) nl_join, unit) comp" where
  "load_left 0 lops = returnE ()"
| "load_left (Suc n) lops =
     bindE (getE (\<lambda>(w, e). is_end lops (w, nl_left e))) (\<lambda>ended.
       if ended then returnE ()
       else
         bindE (on_left (Next lops)) (\<lambda>r.
           thenE (set_exec (\<lambda>e. e\<lparr>left_block := left_block e @ [r]\<rparr>))
             (thenE (on_left (nextTuple lops)) (load_left n lops))))"

definition load_next_left_block :: "'l exec_ops \<Rightarrow> (database \<times> ('l, 'r) nl_join, bool) comp" where
  "load_next_left_block lops =
     thenE (set_exec (\<lambda>e. e\<lparr>left_block := [], left_block_idx := 0\<rparr>))
       (bindE (getE (left_block_capacity \<circ> snd)) (\<lambda>capacity.
         thenE (load_left capacity lops) (getE (\<lambda>s. left_block (snd s) \<noteq> []))))"

definition make_joined_record :: "'l exec_ops \<Rightarrow> 'r exec_ops \<Rightarrow> ('l, 'r) nl_join \<Rightarrow> bytes \<Rightarrow> bytes \<Rightarrow> bytes" where
  "make_joined_record lops rops e left_record right_record =
     take (tupleLen lops (nl_left e)) left_record @ take (tupleLen rops (nl_right e)) right_record"

text \<open>The search of the current block, from the index on, for a match of the right row.\<close>

fun find_match :: "'l exec_ops \<Rightarrow> 'r exec_ops \<Rightarrow> ('l, 'r) nl_join \<Rightarrow> bytes \<Rightarrow> bytes option list \<Rightarrow> nat \<Rightarrow> rmdb_error + nat option" where
  "find_match lops rops e r [] idx = Inr None"
| "find_match lops rops e r (None # ls) idx = Inl UndefinedBehaviour"
| "find_match lops rops e r (Some l # ls) idx =
     (case record_satisfies_conditions (make_joined_record lops rops e l r) (nl_cols e) (nl_conds e) of
        Inl x \<Rightarrow> Inl x
      | Inr holds \<Rightarrow> if holds then Inr (Some idx) else find_match lops rops e r ls (Suc idx))"

definition join_at_end :: "(database \<times> ('l, 'r) nl_join, unit) comp" where
  "join_at_end = set_exec (\<lambda>e. e\<lparr>nl_isend := True, right_tuple := None\<rparr>)"

text \<open>One round of the outer loop starts with a right row, or without one after the last.\<close>

fun advance_to_next_match :: "nat \<Rightarrow> 'l exec_ops \<Rightarrow> 'r exec_ops \<Rightarrow> (database \<times> ('l, 'r) nl_join, unit) comp" where
  "advance_to_next_match fuel lops rops =
     bindE (getE snd) (\<lambda>e.
       case fuel of
         0 \<Rightarrow> throwE OutOfFuel
       | Suc fuel' \<Rightarrow>
           (case right_tuple e of
              Some r \<Rightarrow>
                (case find_match lops rops e r (drop (left_block_idx e) (left_block e)) (left_block_idx e) of
                   Inl x \<Rightarrow> throwE x
                 | Inr (Some idx) \<Rightarrow> set_exec (\<lambda>e. e\<lparr>left_block_idx := idx\<rparr>)
                 | Inr None \<Rightarrow>
                     thenE (set_exec (\<lambda>e. e\<lparr>left_block_idx := 0\<rparr>))
                    (thenE (on_right (nextTuple rops))
                    (bindE (getE (\<lambda>(w, e). is_end rops (w, nl_right e))) (\<lambda>ended.
                      if ended
                      then thenE (set_exec (\<lambda>e. e\<lparr>right_tuple := None\<rparr>)) (advance_to_next_match fuel' lops rops)
                      else
                        bindE (on_right (Next rops)) (\<lambda>r'.
                          thenE (set_exec (\<lambda>e. e\<lparr>right_tuple := r'\<rparr>)) (advance_to_next_match fuel' lops rops))))))
            | None \<Rightarrow>
                bindE (load_next_left_block lops) (\<lambda>loaded.
                  if \<not> loaded then join_at_end
                  else
                    thenE (on_right (beginTuple rops))
                   (bindE (getE (\<lambda>(w, e). is_end rops (w, nl_right e))) (\<lambda>ended.
                     if ended then join_at_end
                     else
                       bindE (on_right (Next rops)) (\<lambda>r'.
                         thenE (set_exec (\<lambda>e. e\<lparr>right_tuple := r', left_block_idx := 0\<rparr>))
                           (advance_to_next_match fuel' lops rops)))))))"

declare advance_to_next_match.simps [simp del]

definition join_begin :: "nat \<Rightarrow> 'l exec_ops \<Rightarrow> 'r exec_ops \<Rightarrow> (database \<times> ('l, 'r) nl_join, unit) comp" where
  "join_begin fuel lops rops =
     thenE (set_exec (\<lambda>e. e\<lparr>nl_isend := False\<rparr>))
    (thenE (on_left (beginTuple lops))
    (bindE (load_next_left_block lops) (\<lambda>loaded.
      if \<not> loaded then set_exec (\<lambda>e. e\<lparr>nl_isend := True\<rparr>)
      else
        thenE (on_right (beginTuple rops))
       (bindE (getE (\<lambda>(w, e). is_end rops (w, nl_right e))) (\<lambda>ended.
         if ended then set_exec (\<lambda>e. e\<lparr>nl_isend := True, left_block := []\<rparr>)
         else
           bindE (on_right (Next rops)) (\<lambda>r.
             thenE (set_exec (\<lambda>e. e\<lparr>right_tuple := r, left_block_idx := 0\<rparr>))
               (advance_to_next_match fuel lops rops)))))))"

definition join_next_tuple :: "nat \<Rightarrow> 'l exec_ops \<Rightarrow> 'r exec_ops \<Rightarrow> (database \<times> ('l, 'r) nl_join, unit) comp" where
  "join_next_tuple fuel lops rops =
     bindE (getE (nl_isend \<circ> snd)) (\<lambda>ended.
       if ended then returnE ()
       else
         thenE (set_exec (\<lambda>e. e\<lparr>left_block_idx := left_block_idx e + 1\<rparr>)) (advance_to_next_match fuel lops rops))"

definition join_next :: "'l exec_ops \<Rightarrow> 'r exec_ops \<Rightarrow> (database \<times> ('l, 'r) nl_join, bytes option) comp" where
  "join_next lops rops =
     bindE (getE snd) (\<lambda>e.
       case right_tuple e of
         None \<Rightarrow> returnE None
       | Some r \<Rightarrow>
           if nl_isend e \<or> length (left_block e) \<le> left_block_idx e then returnE None
           else
             (case left_block e ! left_block_idx e of
                None \<Rightarrow> throwE UndefinedBehaviour
              | Some l \<Rightarrow> returnE (Some (make_joined_record lops rops e l r))))"

definition join_ops :: "nat \<Rightarrow> 'l exec_ops \<Rightarrow> 'r exec_ops \<Rightarrow> ('l, 'r) nl_join exec_ops" where
  "join_ops fuel lops rops =
     \<lparr>beginTuple = join_begin fuel lops rops, nextTuple = join_next_tuple fuel lops rops, is_end = (\<lambda>s. nl_isend (snd s)),
      Next = join_next lops rops, cols = nl_cols, tupleLen = nl_len\<rparr>"

section \<open>The rows of a join\<close>

definition pair_ok :: "ColMeta list \<Rightarrow> Condition list \<Rightarrow> bytes \<Rightarrow> bytes \<Rightarrow> bool" where
  "pair_ok cs conds l r \<longleftrightarrow> record_satisfies_conditions (l @ r) cs conds = Inr True"

definition row_matches :: "(bytes \<Rightarrow> bytes \<Rightarrow> bool) \<Rightarrow> bytes list \<Rightarrow> bytes \<Rightarrow> bytes list" where
  "row_matches P ls r = map (\<lambda>l. l @ r) (filter (\<lambda>l. P l r) ls)"

definition block_rows :: "(bytes \<Rightarrow> bytes \<Rightarrow> bool) \<Rightarrow> bytes list \<Rightarrow> bytes list \<Rightarrow> bytes list" where
  "block_rows P rs ls = concat (map (row_matches P ls) rs)"

function chunks :: "nat \<Rightarrow> 'a list \<Rightarrow> 'a list list" where
  "chunks c xs = (if xs = [] \<or> c = 0 then [] else take c xs # chunks c (drop c xs))"
  by pat_completeness auto
termination
  by (relation "measure (length \<circ> snd)") auto

declare chunks.simps [simp del]

definition join_rows :: "(bytes \<Rightarrow> bytes \<Rightarrow> bool) \<Rightarrow> nat \<Rightarrow> bytes list \<Rightarrow> bytes list \<Rightarrow> bytes list" where
  "join_rows P c rs ls = concat (map (block_rows P rs) (chunks c ls))"

lemma join_rows_Nil [simp]: "join_rows P c rs [] = []"
  by (simp add: join_rows_def chunks.simps)

lemma join_rows_step: "0 < c \<Longrightarrow> ls \<noteq> [] \<Longrightarrow> join_rows P c rs ls = block_rows P rs (take c ls) @ join_rows P c rs (drop c ls)"
  unfolding join_rows_def by (subst chunks.simps) simp

lemma join_rows_none: "join_rows P c [] ls = []"
  by (auto simp: join_rows_def block_rows_def)

lemma concat_chunks: "0 < c \<Longrightarrow> concat (chunks c xs) = xs"
  by (induction c xs rule: chunks.induct) (subst chunks.simps, simp)

text \<open>The pairs, left row by left row.\<close>

definition product_rows :: "(bytes \<Rightarrow> bytes \<Rightarrow> bool) \<Rightarrow> bytes list \<Rightarrow> bytes list \<Rightarrow> bytes list" where
  "product_rows P ls rs = concat (map (\<lambda>l. map (\<lambda>r. l @ r) (filter (P l) rs)) ls)"

lemma mset_block_rows: "mset (block_rows P rs ls) = mset (product_rows P ls rs)"
proof (induction rs)
  case Nil
  then show ?case by (induction ls) (auto simp: block_rows_def product_rows_def)
next
  case (Cons r rs)
  have "mset (product_rows P ls (r # rs)) = mset (row_matches P ls r) + mset (product_rows P ls rs)"
    by (induction ls) (auto simp: product_rows_def row_matches_def)
  then show ?case using Cons by (simp add: block_rows_def)
qed

lemma mset_join_rows:
  assumes "0 < c"
  shows "mset (join_rows P c rs ls) = mset (product_rows P ls rs)"
proof -
  have "mset (concat (map (block_rows P rs) bs)) = mset (product_rows P (concat bs) rs)" for bs
    by (induction bs) (auto simp: mset_block_rows product_rows_def)
  then show ?thesis using concat_chunks[OF assms, of ls] by (simp add: join_rows_def)
qed

section \<open>The join as a source of rows\<close>

text \<open>What does not change: the children deliver \<open>ls\<close> and \<open>rs\<close>, and the conditions can be evaluated on
  every pair.\<close>

definition nl_static :: "'l exec_ops \<Rightarrow> 'r exec_ops \<Rightarrow> ('l \<Rightarrow> bytes list \<Rightarrow> bool) \<Rightarrow> ('r \<Rightarrow> bytes list \<Rightarrow> bool) \<Rightarrow>
    bytes list \<Rightarrow> bytes list \<Rightarrow> ('l, 'r) nl_join \<Rightarrow> bool" where
  "nl_static lops rops lsrc rsrc ls rs e \<longleftrightarrow> lsrc (nl_left e) ls \<and> rsrc (nl_right e) rs \<and>
     nl_len e = tupleLen lops (nl_left e) + tupleLen rops (nl_right e) \<and> 0 < left_block_capacity e \<and>
     (\<forall>l \<in> set ls. \<forall>r \<in> set rs. \<exists>b. record_satisfies_conditions (l @ r) (nl_cols e) (nl_conds e) = Inr b)"

definition nl_src :: "nat \<Rightarrow> 'l exec_ops \<Rightarrow> 'r exec_ops \<Rightarrow> ('l \<Rightarrow> bytes list \<Rightarrow> bool) \<Rightarrow> ('r \<Rightarrow> bytes list \<Rightarrow> bool) \<Rightarrow>
    bytes list \<Rightarrow> bytes list \<Rightarrow> ('l, 'r) nl_join \<Rightarrow> bytes list \<Rightarrow> bool" where
  "nl_src fuel lops rops lsrc rsrc ls rs e rows \<longleftrightarrow>
     nl_static lops rops lsrc rsrc ls rs e \<and> (length ls + 2) * (length rs + 2) \<le> fuel \<and>
     rows = join_rows (pair_ok (nl_cols e) (nl_conds e)) (left_block_capacity e) rs ls"

definition nl_same :: "('l, 'r) nl_join \<Rightarrow> ('l, 'r) nl_join \<Rightarrow> bool" where
  "nl_same e e' \<longleftrightarrow> nl_len e' = nl_len e \<and> nl_cols e' = nl_cols e \<and> nl_conds e' = nl_conds e \<and>
     left_block_capacity e' = left_block_capacity e"

text \<open>A position before a search: the rows still to come and a bound on the rounds of the loop.\<close>

definition nl_before :: "('l \<Rightarrow> bytes list \<Rightarrow> bool) \<Rightarrow> ('r \<Rightarrow> bytes list \<Rightarrow> bool) \<Rightarrow> bytes list \<Rightarrow> bytes list \<Rightarrow>
    ('l, 'r) nl_join \<Rightarrow> bytes list \<Rightarrow> nat \<Rightarrow> bool" where
  "nl_before lcur rcur ls rs e rest n \<longleftrightarrow> \<not> nl_isend e \<and>
     (\<exists>lrest. lcur (nl_left e) lrest \<and> set lrest \<subseteq> set ls \<and> length lrest \<le> length ls \<and>
        (let P = pair_ok (nl_cols e) (nl_conds e); later = join_rows P (left_block_capacity e) rs lrest;
             rounds = 1 + length lrest * (length rs + 1)
         in case right_tuple e of
              None \<Rightarrow> rest = later \<and> n = rounds
            | Some r \<Rightarrow>
                (\<exists>blk rrest. left_block e = map Some blk \<and> set blk \<subseteq> set ls \<and> rcur (nl_right e) (r # rrest) \<and>
                   set (r # rrest) \<subseteq> set rs \<and> length (r # rrest) \<le> length rs \<and>
                   rest = row_matches P (drop (left_block_idx e) blk) r @ block_rows P rrest blk @ later \<and>
                   n = 1 + length rrest + rounds)))"

lemma nl_before_rightI:
  assumes "\<not> nl_isend e" "right_tuple e = Some r" "left_block e = map Some blk" "set blk \<subseteq> set ls" "rcur (nl_right e) (r # rrest)"
    "set (r # rrest) \<subseteq> set rs" "length (r # rrest) \<le> length rs" "lcur (nl_left e) lrest" "set lrest \<subseteq> set ls" "length lrest \<le> length ls"
    "rest = row_matches (pair_ok (nl_cols e) (nl_conds e)) (drop (left_block_idx e) blk) r @
       block_rows (pair_ok (nl_cols e) (nl_conds e)) rrest blk @ join_rows (pair_ok (nl_cols e) (nl_conds e)) (left_block_capacity e) rs lrest"
  shows "nl_before lcur rcur ls rs e rest (1 + length rrest + (1 + length lrest * (length rs + 1)))"
  unfolding nl_before_def Let_def assms(2) option.case
  using assms by (intro conjI exI[of _ lrest] exI[of _ blk] exI[of _ rrest]) simp_all

definition nl_cur :: "('l \<Rightarrow> bytes list \<Rightarrow> bool) \<Rightarrow> ('r \<Rightarrow> bytes list \<Rightarrow> bool) \<Rightarrow> bytes list \<Rightarrow> bytes list \<Rightarrow>
    ('l, 'r) nl_join \<Rightarrow> bytes list \<Rightarrow> bool" where
  "nl_cur lcur rcur ls rs e rest \<longleftrightarrow>
     (if nl_isend e then rest = []
      else
        (\<exists>l r n. right_tuple e = Some r \<and> left_block_idx e < length (left_block e) \<and> left_block e ! left_block_idx e = Some l \<and>
           pair_ok (nl_cols e) (nl_conds e) l r \<and> nl_before lcur rcur ls rs e rest n))"

locale join_of = l: row_source lops W lsrc lcur + r: row_source rops W rsrc rcur
  for lops :: "'l exec_ops" and rops :: "'r exec_ops" and W lsrc lcur rsrc rcur
begin

lemma on_left_run: "m (w, nl_left e) = (x, (w', p)) \<Longrightarrow> on_left m (w, e) = (x, (w', e\<lparr>nl_left := p\<rparr>))"
  by (simp add: on_left_def)

lemma on_right_run: "m (w, nl_right e) = (x, (w', p)) \<Longrightarrow> on_right m (w, e) = (x, (w', e\<lparr>nl_right := p\<rparr>))"
  by (simp add: on_right_def)

lemma joined:
  assumes "nl_static lops rops lsrc rsrc ls rs e" "l \<in> set ls" "r \<in> set rs"
  shows "make_joined_record lops rops e l r = l @ r"
  using assms l.len_ok r.len_ok by (auto simp: nl_static_def make_joined_record_def)

lemma static_left:
  "nl_static lops rops lsrc rsrc ls rs e \<Longrightarrow> lsrc p ls \<Longrightarrow> kept lops (nl_left e) p \<Longrightarrow> nl_static lops rops lsrc rsrc ls rs (e\<lparr>nl_left := p\<rparr>)"
  by (simp add: nl_static_def kept_def)

lemma static_right:
  "nl_static lops rops lsrc rsrc ls rs e \<Longrightarrow> rsrc p rs \<Longrightarrow> kept rops (nl_right e) p \<Longrightarrow> nl_static lops rops lsrc rsrc ls rs (e\<lparr>nl_right := p\<rparr>)"
  by (simp add: nl_static_def kept_def)

lemma static_upd [simp]:
  "nl_static lops rops lsrc rsrc ls rs (e\<lparr>left_block := b\<rparr>) = nl_static lops rops lsrc rsrc ls rs e"
  "nl_static lops rops lsrc rsrc ls rs (e\<lparr>left_block_idx := i\<rparr>) = nl_static lops rops lsrc rsrc ls rs e"
  "nl_static lops rops lsrc rsrc ls rs (e\<lparr>right_tuple := t\<rparr>) = nl_static lops rops lsrc rsrc ls rs e"
  "nl_static lops rops lsrc rsrc ls rs (e\<lparr>nl_isend := z\<rparr>) = nl_static lops rops lsrc rsrc ls rs e"
  by (simp_all add: nl_static_def)

lemma load_left_ok:
  assumes "W w" "nl_static lops rops lsrc rsrc ls rs e" "lcur (nl_left e) lrest"
  shows "\<exists>w' p. load_left n lops (w, e) = (Inr (), (w', e\<lparr>nl_left := p, left_block := left_block e @ map Some (take n lrest)\<rparr>)) \<and>
    W w' \<and> lsrc p ls \<and> kept lops (nl_left e) p \<and> lcur p (drop n lrest)"
  using assms
proof (induction n arbitrary: w e lrest)
  case 0
  then show ?case by (intro exI[of _ w] exI[of _ "nl_left e"]) (simp add: nl_static_def)
next
  case (Suc n)
  have s: "lsrc (nl_left e) ls" using Suc.prems(2) by (simp add: nl_static_def)
  show ?case
  proof (cases lrest)
    case Nil
    then have "is_end lops (w, nl_left e)" using l.end_ok[OF Suc.prems(1) s Suc.prems(3)] by simp
    then show ?thesis using Suc.prems s Nil by (intro exI[of _ w] exI[of _ "nl_left e"]) simp
  next
    case (Cons x xs)
    have ne: "\<not> is_end lops (w, nl_left e)" using l.end_ok[OF Suc.prems(1) s Suc.prems(3)] Cons by simp
    obtain w1 where g: "Next lops (w, nl_left e) = (Inr (Some x), (w1, nl_left e))" "W w1"
      using l.get_ok[OF Suc.prems(1) s] Suc.prems(3) Cons by blast
    obtain w2 p1 where n: "nextTuple lops (w1, nl_left e) = (Inr (), (w2, p1))" "W w2" "lsrc p1 ls" "lcur p1 xs" "kept lops (nl_left e) p1"
      using l.next_ok[OF g(2) s] Suc.prems(3) Cons by blast
    define e1 where "e1 = e\<lparr>left_block := left_block e @ [Some x], nl_left := p1\<rparr>"
    have eq: "e1\<lparr>nl_left := p, left_block := left_block e1 @ ys\<rparr> = e\<lparr>nl_left := p, left_block := left_block e @ Some x # ys\<rparr>" for p ys
      by (cases e) (simp add: e1_def)
    have "nl_static lops rops lsrc rsrc ls rs e1" using Suc.prems(2) n(3,5) by (simp add: e1_def nl_static_def kept_def)
    from Suc.IH[OF n(2) this, of xs] n(4) obtain w' p where
      i: "load_left n lops (w2, e1) = (Inr (), (w', e1\<lparr>nl_left := p, left_block := left_block e1 @ map Some (take n xs)\<rparr>))"
      "W w'" "lsrc p ls" "kept lops (nl_left e1) p" "lcur p (drop n xs)" by (auto simp: e1_def)
    have "load_left (Suc n) lops (w, e) = load_left n lops (w2, e1)"
      using ne g(1) n(1) by (simp add: bindE_def thenE_def on_left_def set_exec_def e1_def)
    moreover have "kept lops (nl_left e) p" using kept_trans[OF n(5), of p] i(4) by (simp add: e1_def)
    ultimately show ?thesis using i(1-3,5) Cons by (intro exI[of _ w'] exI[of _ p]) (simp add: eq)
  qed
qed

lemma load_next_left_block_ok:
  assumes "W w" "nl_static lops rops lsrc rsrc ls rs e" "lcur (nl_left e) lrest"
  shows "\<exists>w' p. load_next_left_block lops (w, e) =
      (Inr (lrest \<noteq> []), (w', e\<lparr>nl_left := p, left_block := map Some (take (left_block_capacity e) lrest), left_block_idx := 0\<rparr>)) \<and>
    W w' \<and> lsrc p ls \<and> kept lops (nl_left e) p \<and> lcur p (drop (left_block_capacity e) lrest)"
proof -
  let ?e = "e\<lparr>left_block := [], left_block_idx := 0\<rparr>"
  have "nl_static lops rops lsrc rsrc ls rs ?e" "lcur (nl_left ?e) lrest" using assms(2,3) by simp_all
  from load_left_ok[OF assms(1) this, of "left_block_capacity e"] obtain w' p where
    "load_left (left_block_capacity e) lops (w, ?e) =
      (Inr (), (w', ?e\<lparr>nl_left := p, left_block := map Some (take (left_block_capacity e) lrest)\<rparr>))"
    "W w'" "lsrc p ls" "kept lops (nl_left e) p" "lcur p (drop (left_block_capacity e) lrest)" by auto
  moreover have "0 < left_block_capacity e" using assms(2) by (simp add: nl_static_def)
  ultimately show ?thesis
    by (intro exI[of _ w'] exI[of _ p]) (auto simp: load_next_left_block_def set_exec_def bindE_def thenE_def)
qed

lemma find_match_ok:
  assumes "nl_static lops rops lsrc rsrc ls rs e" "set blk \<subseteq> set ls" "r \<in> set rs"
  shows "find_match lops rops e r (map Some blk) i =
    Inr (case dropWhile (\<lambda>l. \<not> pair_ok (nl_cols e) (nl_conds e) l r) blk of
           [] \<Rightarrow> None | _ \<Rightarrow> Some (i + length (takeWhile (\<lambda>l. \<not> pair_ok (nl_cols e) (nl_conds e) l r) blk)))"
  using assms(2)
proof (induction blk arbitrary: i)
  case (Cons l blk)
  then obtain b where b: "record_satisfies_conditions (l @ r) (nl_cols e) (nl_conds e) = Inr b"
    using assms(1,3) by (fastforce simp: nl_static_def)
  then have "pair_ok (nl_cols e) (nl_conds e) l r \<longleftrightarrow> b" by (simp add: pair_ok_def)
  with b Cons joined[OF assms(1) _ assms(3), of l] show ?case
    by (cases b; cases "dropWhile (\<lambda>l. \<not> pair_ok (nl_cols e) (nl_conds e) l r) blk") (auto simp del: dropWhile_eq_Nil_conv)
qed simp

text \<open>One search in the current block.\<close>

lemma find_match_cases:
  assumes st: "nl_static lops rops lsrc rsrc ls rs e" and blk: "left_block e = map Some blk" "set blk \<subseteq> set ls" and r: "r \<in> set rs"
  shows "find_match lops rops e r (drop (left_block_idx e) (left_block e)) (left_block_idx e) = Inr None \<and>
      row_matches (pair_ok (nl_cols e) (nl_conds e)) (drop (left_block_idx e) blk) r = [] \<or>
    (\<exists>j. find_match lops rops e r (drop (left_block_idx e) (left_block e)) (left_block_idx e) = Inr (Some j) \<and>
      j < length blk \<and> pair_ok (nl_cols e) (nl_conds e) (blk ! j) r \<and>
      row_matches (pair_ok (nl_cols e) (nl_conds e)) (drop (left_block_idx e) blk) r =
      row_matches (pair_ok (nl_cols e) (nl_conds e)) (drop j blk) r)"
proof -
  let ?P = "\<lambda>l. pair_ok (nl_cols e) (nl_conds e) l r" and ?d = "drop (left_block_idx e) blk"
  let ?k = "length (takeWhile (\<lambda>l. \<not> ?P l) ?d)" and ?j = "left_block_idx e + length (takeWhile (\<lambda>l. \<not> ?P l) ?d)"
  have "set ?d \<subseteq> set ls" using blk(2) set_drop_subset by fastforce
  from find_match_ok[OF st this r] have fm: "find_match lops rops e r (drop (left_block_idx e) (left_block e)) (left_block_idx e) =
      Inr (case dropWhile (\<lambda>l. \<not> ?P l) ?d of [] \<Rightarrow> None | _ \<Rightarrow> Some ?j)" using blk(1) by (simp add: drop_map)
  have dw: "dropWhile (\<lambda>l. \<not> ?P l) ?d = drop ?k ?d" by (simp add: dropWhile_eq_drop)
  have flt: "filter ?P ?d = filter ?P (drop ?k ?d)"
  proof -
    have "filter ?P (takeWhile (\<lambda>l. \<not> ?P l) ?d) = []" by (auto simp: filter_empty_conv dest: set_takeWhileD)
    then show ?thesis using takeWhile_dropWhile_id[of "\<lambda>l. \<not> ?P l" ?d] dw by (metis append_Nil filter_append)
  qed
  show ?thesis
  proof (cases "dropWhile (\<lambda>l. \<not> ?P l) ?d")
    case Nil
    then have "filter ?P ?d = []" using flt dw by simp
    then show ?thesis using fm Nil by (simp add: row_matches_def)
  next
    case (Cons x xs)
    then have x: "?P x" using hd_dropWhile[of "\<lambda>l. \<not> ?P l" ?d] by simp
    have "drop ?j blk = x # xs" using Cons dw by (simp add: add.commute)
    then have "?j < length blk" "blk ! ?j = x" by (metis drop_eq_Nil list.distinct(1) not_le_imp_less, metis drop_eq_Nil hd_drop_conv_nth list.distinct(1) list.sel(1) not_le_imp_less)
    moreover have "filter ?P ?d = filter ?P (drop ?j blk)" using flt by (simp add: add.commute)
    ultimately show ?thesis using fm Cons x by (auto simp: row_matches_def simp del: filter.simps)
  qed
qed

text \<open>A round of the loop ends the search or leaves fewer rounds.\<close>

definition round_done :: "bytes list \<Rightarrow> bytes list \<Rightarrow> nat \<Rightarrow> database \<times> ('l, 'r) nl_join \<Rightarrow> bytes list \<Rightarrow> nat \<Rightarrow> bool" where
  "round_done ls rs fuel s rest n \<longleftrightarrow>
     (\<exists>w' e'. W w' \<and> nl_static lops rops lsrc rsrc ls rs e' \<and> nl_same (snd s) e' \<and>
        (advance_to_next_match (Suc fuel) lops rops s = (Inr (), (w', e')) \<and> nl_cur lcur rcur ls rs e' rest \<or>
         advance_to_next_match (Suc fuel) lops rops s = advance_to_next_match fuel lops rops (w', e') \<and>
         (\<exists>n'. n' < n \<and> nl_before lcur rcur ls rs e' rest n')))"

lemma round_doneI:
  "W w' \<Longrightarrow> nl_static lops rops lsrc rsrc ls rs e' \<Longrightarrow> nl_same e e' \<Longrightarrow> advance_to_next_match (Suc fuel) lops rops (w, e) = (Inr (), (w', e')) \<Longrightarrow>
    nl_cur lcur rcur ls rs e' rest \<Longrightarrow> round_done ls rs fuel (w, e) rest n"
  unfolding round_done_def by (rule exI[of _ w'], rule exI[of _ e']) simp

lemma round_right:
  assumes w: "W w" and st: "nl_static lops rops lsrc rsrc ls rs e" and b: "nl_before lcur rcur ls rs e rest n"
    and r: "right_tuple e = Some r"
  shows "round_done ls rs fuel (w, e) rest n"
proof -
  let ?P = "pair_ok (nl_cols e) (nl_conds e)" and ?c = "left_block_capacity e"
  have src: "rsrc (nl_right e) rs" using st by (simp add: nl_static_def)
  obtain lrest blk rrest where lr: "lcur (nl_left e) lrest" "set lrest \<subseteq> set ls" "length lrest \<le> length ls" and ni: "\<not> nl_isend e"
    and blk: "left_block e = map Some blk" "set blk \<subseteq> set ls" and rr: "rcur (nl_right e) (r # rrest)" "set (r # rrest) \<subseteq> set rs" "length (r # rrest) \<le> length rs"
    and rest: "rest = row_matches ?P (drop (left_block_idx e) blk) r @ block_rows ?P rrest blk @ join_rows ?P ?c rs lrest"
    and n: "n = 1 + length rrest + (1 + length lrest * (length rs + 1))"
    using b r by (auto simp: nl_before_def Let_def)
  have rin: "r \<in> set rs" using rr(2) by simp
  from find_match_cases[OF st blk rin] show ?thesis
  proof (elim disjE exE conjE)
    fix j assume j: "find_match lops rops e r (drop (left_block_idx e) (left_block e)) (left_block_idx e) = Inr (Some j)"
      "j < length blk" "?P (blk ! j) r" "row_matches ?P (drop (left_block_idx e) blk) r = row_matches ?P (drop j blk) r"
    have "nl_before lcur rcur ls rs (e\<lparr>left_block_idx := j\<rparr>) rest n"
      using lr ni blk rr rest n j(4) r by (auto simp: nl_before_def Let_def)
    then have "nl_cur lcur rcur ls rs (e\<lparr>left_block_idx := j\<rparr>) rest"
      using ni r blk(1) j(2,3) by (auto simp: nl_cur_def)
    moreover have "advance_to_next_match (Suc fuel) lops rops (w, e) = (Inr (), (w, e\<lparr>left_block_idx := j\<rparr>))"
      using r j(1) by (subst advance_to_next_match.simps) (simp add: set_exec_def)
    ultimately show ?thesis by (intro round_doneI[OF w, of _ _ "e\<lparr>left_block_idx := j\<rparr>"]) (use st in \<open>simp_all add: nl_same_def\<close>)
  next
    assume f: "find_match lops rops e r (drop (left_block_idx e) (left_block e)) (left_block_idx e) = Inr None"
      "row_matches ?P (drop (left_block_idx e) blk) r = []"
    obtain w1 p where x: "nextTuple rops (w, nl_right e) = (Inr (), (w1, p))" "W w1" "rsrc p rs" "rcur p rrest" "kept rops (nl_right e) p"
      using r.next_ok[OF w src rr(1)] by blast
    have en: "is_end rops (w1, p) \<longleftrightarrow> rrest = []" using r.end_ok[OF x(2-4)] .
    show ?thesis
    proof (cases rrest)
      case Nil
      define e1 where "e1 = e\<lparr>left_block_idx := 0, nl_right := p, right_tuple := None\<rparr>"
      have "advance_to_next_match (Suc fuel) lops rops (w, e) = advance_to_next_match fuel lops rops (w1, e1)"
        using r f(1) x(1) en Nil by (subst advance_to_next_match.simps) (simp add: set_exec_def thenE_def bindE_def on_right_def e1_def)
      moreover have "nl_before lcur rcur ls rs e1 rest (1 + length lrest * (length rs + 1))"
        using lr ni rest f(2) Nil by (auto simp: nl_before_def Let_def e1_def block_rows_def)
      moreover have "nl_static lops rops lsrc rsrc ls rs e1" "nl_same e e1"
        using static_right[OF st x(3,5)] st x(3,5) by (simp_all add: e1_def nl_static_def kept_def nl_same_def)
      ultimately show ?thesis using x(2) n unfolding round_done_def by fastforce
    next
      case (Cons r' rrest')
      obtain w2 where g: "Next rops (w1, p) = (Inr (Some r'), (w2, p))" "W w2" using r.get_ok[OF x(2,3)] x(4) Cons by blast
      define e1 where "e1 = e\<lparr>left_block_idx := 0, nl_right := p, right_tuple := Some r'\<rparr>"
      have "advance_to_next_match (Suc fuel) lops rops (w, e) = advance_to_next_match fuel lops rops (w2, e1)"
        using r f(1) x(1) en Cons g(1)
        by (subst advance_to_next_match.simps) (simp add: set_exec_def thenE_def bindE_def on_right_def e1_def)
      moreover have "nl_before lcur rcur ls rs e1 rest (1 + length rrest' + (1 + length lrest * (length rs + 1)))"
        using lr ni rest f(2) Cons blk rr(2,3) x(4)
        by (intro nl_before_rightI[where r = r' and blk = blk]) (auto simp: e1_def block_rows_def)
      moreover have "nl_static lops rops lsrc rsrc ls rs e1" "nl_same e e1"
        using st x(3,5) by (simp_all add: e1_def nl_static_def kept_def nl_same_def)
      ultimately show ?thesis using g(2) n Cons unfolding round_done_def by fastforce
    qed
  qed
qed

lemma round_block:
  assumes w: "W w" and st: "nl_static lops rops lsrc rsrc ls rs e" and b: "nl_before lcur rcur ls rs e rest n"
    and r: "right_tuple e = None"
  shows "round_done ls rs fuel (w, e) rest n"
proof -
  let ?P = "pair_ok (nl_cols e) (nl_conds e)" and ?c = "left_block_capacity e"
  have src: "rsrc (nl_right e) rs" "0 < ?c" using st by (simp_all add: nl_static_def)
  obtain lrest where lr: "lcur (nl_left e) lrest" "set lrest \<subseteq> set ls" "length lrest \<le> length ls" and ni: "\<not> nl_isend e"
    and rest: "rest = join_rows ?P ?c rs lrest" and n: "n = 1 + length lrest * (length rs + 1)"
    using b r by (auto simp: nl_before_def Let_def)
  obtain w1 p where x: "load_next_left_block lops (w, e) =
      (Inr (lrest \<noteq> []), (w1, e\<lparr>nl_left := p, left_block := map Some (take ?c lrest), left_block_idx := 0\<rparr>))"
    "W w1" "lsrc p ls" "kept lops (nl_left e) p" "lcur p (drop ?c lrest)"
    using load_next_left_block_ok[OF w st lr(1)] by blast
  show ?thesis
  proof (cases "lrest = []")
    case True
    define e1 where "e1 = e\<lparr>nl_left := p, left_block := [], left_block_idx := 0, nl_isend := True, right_tuple := None\<rparr>"
    have "advance_to_next_match (Suc fuel) lops rops (w, e) = (Inr (), (w1, e1))"
      using r x(1) True by (subst advance_to_next_match.simps) (simp add: bindE_def join_at_end_def set_exec_def e1_def)
    moreover have "nl_static lops rops lsrc rsrc ls rs e1" "nl_same e e1" "nl_cur lcur rcur ls rs e1 rest"
      using st x(3,4) True rest by (simp_all add: e1_def nl_static_def kept_def nl_same_def nl_cur_def)
    ultimately show ?thesis by (intro round_doneI[OF x(2), of _ _ e1])
  next
    case False
    obtain w2 q where y: "beginTuple rops (w1, nl_right e) = (Inr (), (w2, q))" "W w2" "rsrc q rs" "rcur q rs" "kept rops (nl_right e) q"
      using r.begin_ok[OF x(2) src(1)] by blast
    have en: "is_end rops (w2, q) \<longleftrightarrow> rs = []" using r.end_ok[OF y(2-4)] .
    show ?thesis
    proof (cases rs)
      case Nil
      define e1 where "e1 = e\<lparr>nl_left := p, left_block := map Some (take ?c lrest), left_block_idx := 0, nl_right := q,
        nl_isend := True, right_tuple := None\<rparr>"
      have "advance_to_next_match (Suc fuel) lops rops (w, e) = (Inr (), (w2, e1))"
        using r x(1) False y(1) en Nil
        by (subst advance_to_next_match.simps) (simp add: bindE_def thenE_def on_right_def join_at_end_def set_exec_def e1_def)
      moreover have "nl_static lops rops lsrc rsrc ls rs e1" "nl_same e e1" "nl_cur lcur rcur ls rs e1 rest"
        using st x(3,4) y(3,5) rest Nil by (simp_all add: e1_def nl_static_def kept_def nl_same_def nl_cur_def join_rows_none)
      ultimately show ?thesis by (intro round_doneI[OF y(2), of _ _ e1])
    next
      case (Cons r' rrest)
      obtain w3 where g: "Next rops (w2, q) = (Inr (Some r'), (w3, q))" "W w3" using r.get_ok[OF y(2,3)] y(4) Cons by blast
      define e1 where "e1 = e\<lparr>nl_left := p, left_block := map Some (take ?c lrest), nl_right := q, right_tuple := Some r',
        left_block_idx := 0\<rparr>"
      have "advance_to_next_match (Suc fuel) lops rops (w, e) = advance_to_next_match fuel lops rops (w3, e1)"
        using r x(1) False y(1) en Cons g(1)
        by (subst advance_to_next_match.simps) (simp add: bindE_def thenE_def on_right_def set_exec_def e1_def)
      moreover have "set (take ?c lrest) \<subseteq> set ls" "set (drop ?c lrest) \<subseteq> set ls"
        using lr(2) set_take_subset[of ?c lrest] set_drop_subset[of ?c lrest] by blast+
      then have "nl_before lcur rcur ls rs e1 rest (1 + length rrest + (1 + length (drop ?c lrest) * (length rs + 1)))"
        using ni rest y(4) x(5) Cons lr(3) join_rows_step[OF src(2) False, of ?P rs]
        by (intro nl_before_rightI[where r = r' and blk = "take ?c lrest"]) (auto simp: e1_def block_rows_def)
      moreover have "nl_static lops rops lsrc rsrc ls rs e1" "nl_same e e1"
        using st x(3,4) y(3,5) by (simp_all add: e1_def nl_static_def kept_def nl_same_def)
      moreover have "1 + length rrest + (1 + length (drop ?c lrest) * (length rs + 1)) < n"
      proof -
        have "length (drop ?c lrest) + 1 \<le> length lrest" using src(2) False by (cases lrest) auto
        then have "(length (drop ?c lrest) + 1) * (length rs + 1) \<le> length lrest * (length rs + 1)" by (rule mult_le_mono1)
        then show ?thesis using n Cons by simp
      qed
      ultimately show ?thesis using g(2) unfolding round_done_def by fastforce
    qed
  qed
qed

lemma nl_same_trans: "nl_same a b \<Longrightarrow> nl_same b c \<Longrightarrow> nl_same a c"
  by (simp add: nl_same_def)

lemma advance_ok:
  assumes "W w" "nl_static lops rops lsrc rsrc ls rs e" "nl_before lcur rcur ls rs e rest n" "n \<le> fuel"
  shows "\<exists>w' e'. advance_to_next_match fuel lops rops (w, e) = (Inr (), (w', e')) \<and> W w' \<and>
    nl_static lops rops lsrc rsrc ls rs e' \<and> nl_same e e' \<and> nl_cur lcur rcur ls rs e' rest"
  using assms
proof (induction fuel arbitrary: w e n)
  case 0
  then show ?case by (auto simp: nl_before_def Let_def split: option.splits)
next
  case (Suc fuel)
  have "round_done ls rs fuel (w, e) rest n"
    using round_right[OF Suc.prems(1-3)] round_block[OF Suc.prems(1-3)] by (cases "right_tuple e") auto
  then obtain w1 e1 where o: "W w1" "nl_static lops rops lsrc rsrc ls rs e1" "nl_same e e1"
    "advance_to_next_match (Suc fuel) lops rops (w, e) = (Inr (), (w1, e1)) \<and> nl_cur lcur rcur ls rs e1 rest \<or>
     advance_to_next_match (Suc fuel) lops rops (w, e) = advance_to_next_match fuel lops rops (w1, e1) \<and>
     (\<exists>n'. n' < n \<and> nl_before lcur rcur ls rs e1 rest n')" by (auto simp: round_done_def)
  from o(4) show ?case
  proof (elim disjE conjE exE)
    fix n' assume b: "advance_to_next_match (Suc fuel) lops rops (w, e) = advance_to_next_match fuel lops rops (w1, e1)"
      "n' < n" "nl_before lcur rcur ls rs e1 rest n'"
    from Suc.IH[OF o(1,2) b(3)] b(2) Suc.prems(4) b(1) nl_same_trans[OF o(3)] show ?thesis by fastforce
  qed (use o in blast)
qed

lemma nl_src_moved:
  assumes "nl_static lops rops lsrc rsrc ls rs e'" "nl_same e e'" "nl_src fuel lops rops lsrc rsrc ls rs e rows"
  shows "nl_src fuel lops rops lsrc rsrc ls rs e' rows" "kept (join_ops fuel lops rops) e e'"
  using assms by (simp_all add: nl_src_def nl_same_def kept_def join_ops_def)

lemma rounds_bound:
  assumes "nl_before lcur rcur ls rs e rest n"
  shows "n \<le> (length ls + 2) * (length rs + 2)"
proof -
  obtain lrest :: "bytes list" and k where "length lrest \<le> length ls" "k \<le> length rs" "n \<le> k + (1 + length lrest * (length rs + 1))"
  proof (cases "right_tuple e")
    case None
    from assms obtain lrest :: "bytes list" where "length lrest \<le> length ls" "n = 1 + length lrest * (length rs + 1)"
      unfolding nl_before_def Let_def None option.case by blast
    with that[of lrest 0] show ?thesis by simp
  next
    case (Some r)
    from assms obtain lrest rrest :: "bytes list" where "length lrest \<le> length ls" "length (r # rrest) \<le> length rs"
      "n = 1 + length rrest + (1 + length lrest * (length rs + 1))" unfolding nl_before_def Let_def Some option.case by blast
    with that[of lrest "length (r # rrest)"] show ?thesis by simp
  qed
  moreover from this(1) have "length lrest * (length rs + 1) \<le> length ls * (length rs + 1)" by (rule mult_le_mono1)
  ultimately show ?thesis by simp
qed

lemma begin_join:
  assumes w: "W w" and s: "nl_src fuel lops rops lsrc rsrc ls rs e rows"
  shows "\<exists>w' e'. join_begin fuel lops rops (w, e) = (Inr (), (w', e')) \<and> W w' \<and> nl_static lops rops lsrc rsrc ls rs e' \<and> nl_same e e' \<and>
    nl_cur lcur rcur ls rs e' rows"
proof -
  let ?P = "pair_ok (nl_cols e) (nl_conds e)" and ?c = "left_block_capacity e"
  have st: "nl_static lops rops lsrc rsrc ls rs e" and fuel: "(length ls + 2) * (length rs + 2) \<le> fuel" and rows: "rows = join_rows ?P ?c rs ls"
    using s by (simp_all add: nl_src_def)
  have src: "lsrc (nl_left e) ls" "rsrc (nl_right e) rs" "0 < ?c" using st by (simp_all add: nl_static_def)
  obtain w1 p where b: "beginTuple lops (w, nl_left e) = (Inr (), (w1, p))" "W w1" "lsrc p ls" "lcur p ls" "kept lops (nl_left e) p"
    using l.begin_ok[OF w src(1)] by blast
  let ?e1 = "e\<lparr>nl_isend := False, nl_left := p\<rparr>"
  have "nl_static lops rops lsrc rsrc ls rs ?e1" using st b(3,5) by (simp add: nl_static_def kept_def)
  from load_next_left_block_ok[OF b(2) this, of ls] b(4) obtain w2 q where
    x: "load_next_left_block lops (w1, ?e1) = (Inr (ls \<noteq> []), (w2, ?e1\<lparr>nl_left := q, left_block := map Some (take ?c ls), left_block_idx := 0\<rparr>))"
    "W w2" "lsrc q ls" "kept lops p q" "lcur q (drop ?c ls)" by auto
  have kq: "kept lops (nl_left e) q" using kept_trans[OF b(5) x(4)] .
  show ?thesis
  proof (cases "ls = []")
    case True
    define e1 where "e1 = e\<lparr>nl_isend := False, nl_left := q, left_block := [], left_block_idx := 0, nl_isend := True\<rparr>"
    have "join_begin fuel lops rops (w, e) = (Inr (), (w2, e1))"
      using b(1) x(1) True by (simp add: join_begin_def set_exec_def thenE_def bindE_def on_left_def e1_def)
    then show ?thesis
      using x(2,3) kq st True rows by (intro exI[of _ w2] exI[of _ e1]) (simp add: e1_def nl_static_def kept_def nl_same_def nl_cur_def)
  next
    case False
    obtain w3 t where y: "beginTuple rops (w2, nl_right e) = (Inr (), (w3, t))" "W w3" "rsrc t rs" "rcur t rs" "kept rops (nl_right e) t"
      using r.begin_ok[OF x(2) src(2)] by blast
    have en: "is_end rops (w3, t) \<longleftrightarrow> rs = []" using r.end_ok[OF y(2-4)] .
    show ?thesis
    proof (cases rs)
      case Nil
      define e1 where "e1 = e\<lparr>nl_left := q, left_block_idx := 0, nl_right := t, nl_isend := True, left_block := []\<rparr>"
      have "join_begin fuel lops rops (w, e) = (Inr (), (w3, e1))"
        using b(1) x(1) False y(1) en Nil
        by (simp add: join_begin_def set_exec_def thenE_def bindE_def on_left_def on_right_def e1_def)
      then show ?thesis
        using y(2,3,5) x(3) kq st Nil rows
        by (intro exI[of _ w3] exI[of _ e1]) (simp add: e1_def nl_static_def kept_def nl_same_def nl_cur_def join_rows_none)
    next
      case (Cons r' rrest)
      obtain w4 where g: "Next rops (w3, t) = (Inr (Some r'), (w4, t))" "W w4" using r.get_ok[OF y(2,3)] y(4) Cons by blast
      define e1 where "e1 = e\<lparr>nl_isend := False, nl_left := q, left_block := map Some (take ?c ls), nl_right := t, right_tuple := Some r',
        left_block_idx := 0\<rparr>"
      have st1: "nl_static lops rops lsrc rsrc ls rs e1" "nl_same e e1"
        using st x(3) kq y(3,5) by (simp_all add: e1_def nl_static_def kept_def nl_same_def)
      have "set (take ?c ls) \<subseteq> set ls" "set (drop ?c ls) \<subseteq> set ls" by (rule set_take_subset, rule set_drop_subset)
      then have "nl_before lcur rcur ls rs e1 rows (1 + length rrest + (1 + length (drop ?c ls) * (length rs + 1)))"
        using y(4) x(5) Cons rows join_rows_step[OF src(3) False, of ?P rs]
        by (intro nl_before_rightI[where r = r' and blk = "take ?c ls"]) (auto simp: e1_def block_rows_def)
      from advance_ok[OF g(2) st1(1) this order_trans[OF rounds_bound[OF this] fuel]] obtain w' e' where
        a: "advance_to_next_match fuel lops rops (w4, e1) = (Inr (), (w', e'))" "W w'" "nl_static lops rops lsrc rsrc ls rs e'" "nl_same e1 e'"
        "nl_cur lcur rcur ls rs e' rows" by blast
      have "join_begin fuel lops rops (w, e) = advance_to_next_match fuel lops rops (w4, e1)"
        using b(1) x(1) False y(1) en Cons g(1)
        by (simp add: join_begin_def set_exec_def thenE_def bindE_def on_left_def on_right_def e1_def)
      then show ?thesis using a nl_same_trans[OF st1(2) a(4)] by auto
    qed
  qed
qed

lemma next_join:
  assumes w: "W w" and s: "nl_src fuel lops rops lsrc rsrc ls rs e rows" and c: "nl_cur lcur rcur ls rs e (x # rest)"
  shows "\<exists>w' e'. join_next_tuple fuel lops rops (w, e) = (Inr (), (w', e')) \<and> W w' \<and> nl_static lops rops lsrc rsrc ls rs e' \<and> nl_same e e' \<and>
      nl_cur lcur rcur ls rs e' rest"
    "join_next lops rops (w, e) = (Inr (Some x), (w, e))"
proof -
  let ?P = "pair_ok (nl_cols e) (nl_conds e)"
  have st: "nl_static lops rops lsrc rsrc ls rs e" and fuel: "(length ls + 2) * (length rs + 2) \<le> fuel"
    using s by (simp_all add: nl_src_def)
  obtain l r n where i: "\<not> nl_isend e" "right_tuple e = Some r" "left_block_idx e < length (left_block e)"
    "left_block e ! left_block_idx e = Some l" "?P l r" "nl_before lcur rcur ls rs e (x # rest) n"
    using c by (auto simp: nl_cur_def split: if_splits)
  obtain lrest blk rrest where lr: "lcur (nl_left e) lrest" "set lrest \<subseteq> set ls" "length lrest \<le> length ls"
    and blk: "left_block e = map Some blk" "set blk \<subseteq> set ls" and rr: "rcur (nl_right e) (r # rrest)" "set (r # rrest) \<subseteq> set rs" "length (r # rrest) \<le> length rs"
    and rest: "x # rest = row_matches ?P (drop (left_block_idx e) blk) r @ block_rows ?P rrest blk @ join_rows ?P (left_block_capacity e) rs lrest"
    using i(2,6) by (auto simp: nl_before_def Let_def)
  have l: "left_block_idx e < length blk" "blk ! left_block_idx e = l" using i(3,4) blk(1) by auto
  have "drop (left_block_idx e) blk = l # drop (Suc (left_block_idx e)) blk" using Cons_nth_drop_Suc[OF l(1)] l(2) by simp
  then have x: "x = l @ r" and rest': "rest = row_matches ?P (drop (Suc (left_block_idx e)) blk) r @ block_rows ?P rrest blk @
      join_rows ?P (left_block_capacity e) rs lrest"
    using rest i(5) by (simp_all add: row_matches_def)
  have "l \<in> set ls" "r \<in> set rs" using l blk(2) rr(2) by auto
  with joined[OF st] have "make_joined_record lops rops e l r = x" using x by simp
  then show "join_next lops rops (w, e) = (Inr (Some x), (w, e))" using i by (simp add: join_next_def)
  define e1 where "e1 = e\<lparr>left_block_idx := left_block_idx e + 1\<rparr>"
  have "nl_before lcur rcur ls rs e1 rest (1 + length rrest + (1 + length lrest * (length rs + 1)))"
    using i(1,2) blk rr lr rest' by (intro nl_before_rightI[where r = r and blk = blk]) (auto simp: e1_def)
  moreover have "nl_static lops rops lsrc rsrc ls rs e1" "nl_same e e1" using st by (simp_all add: e1_def nl_same_def)
  ultimately obtain w' e' where
    a: "advance_to_next_match fuel lops rops (w, e1) = (Inr (), (w', e'))" "W w'" "nl_static lops rops lsrc rsrc ls rs e'" "nl_same e1 e'"
    "nl_cur lcur rcur ls rs e' rest"
    using advance_ok[OF w, of ls rs e1 rest _ fuel] rounds_bound fuel by (meson order_trans)
  have "join_next_tuple fuel lops rops (w, e) = (Inr (), (w', e'))"
    using a(1) i(1) by (simp add: join_next_tuple_def set_exec_def e1_def)
  then show "\<exists>w' e'. join_next_tuple fuel lops rops (w, e) = (Inr (), (w', e')) \<and> W w' \<and> nl_static lops rops lsrc rsrc ls rs e' \<and> nl_same e e' \<and>
      nl_cur lcur rcur ls rs e' rest"
    using a nl_same_trans[OF \<open>nl_same e e1\<close> a(4)] by blast
qed

lemma cur_end: "nl_cur lcur rcur ls rs e rest \<Longrightarrow> nl_isend e \<longleftrightarrow> rest = []"
proof (cases "nl_isend e")
  case False
  assume "nl_cur lcur rcur ls rs e rest"
  with False obtain l r blk tl where "left_block e = map Some blk" "left_block_idx e < length (left_block e)" "left_block e ! left_block_idx e = Some l"
    "pair_ok (nl_cols e) (nl_conds e) l r" "rest = row_matches (pair_ok (nl_cols e) (nl_conds e)) (drop (left_block_idx e) blk) r @ tl"
    by (auto simp: nl_cur_def nl_before_def Let_def)
  moreover from this(1-3) have "drop (left_block_idx e) blk = l # drop (Suc (left_block_idx e)) blk" by (auto simp: Cons_nth_drop_Suc[symmetric])
  ultimately have "l \<in> set (drop (left_block_idx e) blk)" by simp
  then show ?thesis using False \<open>pair_ok _ _ l r\<close> \<open>rest = _\<close> by (auto simp: row_matches_def filter_empty_conv)
qed (auto simp: nl_cur_def)

lemma source: "row_source (join_ops fuel lops rops) W (nl_src fuel lops rops lsrc rsrc ls rs) (nl_cur lcur rcur ls rs)"
proof
  fix w e rows assume "W w" and s: "nl_src fuel lops rops lsrc rsrc ls rs e rows"
  from begin_join[OF this] nl_src_moved[OF _ _ s]
  show "\<exists>w' e'. beginTuple (join_ops fuel lops rops) (w, e) = (Inr (), (w', e')) \<and> W w' \<and> nl_src fuel lops rops lsrc rsrc ls rs e' rows \<and>
      nl_cur lcur rcur ls rs e' rows \<and> kept (join_ops fuel lops rops) e e'"
    by (fastforce simp: join_ops_def)
next
  fix w e rows x rest assume w: "W w" and s: "nl_src fuel lops rops lsrc rsrc ls rs e rows" and c: "nl_cur lcur rcur ls rs e (x # rest)"
  from next_join[OF w s c] nl_src_moved[OF _ _ s]
  show "\<exists>w' e'. nextTuple (join_ops fuel lops rops) (w, e) = (Inr (), (w', e')) \<and> W w' \<and> nl_src fuel lops rops lsrc rsrc ls rs e' rows \<and>
      nl_cur lcur rcur ls rs e' rest \<and> kept (join_ops fuel lops rops) e e'"
    "\<exists>w'. Next (join_ops fuel lops rops) (w, e) = (Inr (Some x), (w', e)) \<and> W w'"
    using w by (fastforce simp: join_ops_def)+
next
  fix w e rows rest assume "nl_cur lcur rcur ls rs e rest"
  then show "is_end (join_ops fuel lops rops) (w, e) \<longleftrightarrow> rest = []" using cur_end by (simp add: join_ops_def)
next
  fix e rows x assume s: "nl_src fuel lops rops lsrc rsrc ls rs e rows" and x: "x \<in> set rows"
  have c: "0 < left_block_capacity e" and st: "lsrc (nl_left e) ls" "rsrc (nl_right e) rs"
    "nl_len e = tupleLen lops (nl_left e) + tupleLen rops (nl_right e)" using s by (simp_all add: nl_src_def nl_static_def)
  have "set rows = set (product_rows (pair_ok (nl_cols e) (nl_conds e)) ls rs)"
    using s by (simp add: nl_src_def) (rule mset_eq_setD, rule mset_join_rows[OF c])
  with x have "x \<in> set (product_rows (pair_ok (nl_cols e) (nl_conds e)) ls rs)" by simp
  then obtain l r where "l \<in> set ls" "r \<in> set rs" "x = l @ r" by (auto simp: product_rows_def)
  then show "length x = tupleLen (join_ops fuel lops rops) e"
    using l.len_ok[OF st(1)] r.len_ok[OF st(2)] st(3) by (simp add: join_ops_def)
qed

end

interpretation scans: join_of "seq_scan_ops f" "seq_scan_ops g" "db_view w0" "ss_src f w0" "ss_cur w0" "ss_src g w0" "ss_cur w0" for f g w0
  by unfold_locales

end
