(* ===== verification/SortAggregate.thy ===== *)
theory SortAggregate
  imports Executor "HOL-Library.Multiset"
begin

text \<open>
  Sorting with a limit and aggregation (\<open>execution/execution_sort.h\<close> and
  \<open>execution/executor_aggregate.h\<close>). Both read their child to the end in \<open>beginTuple\<close>.
  \<open>std::stable_sort\<close> is modelled by insertion; its result is determined by its specification. A row
  the child does not deliver is a null pointer, and using it is not defined.
\<close>

section \<open>Sorting\<close>

record SortKey =
  sk_col :: TabCol
  sk_is_desc :: bool

record 'e sort_exec =
  so_prev :: 'e
  sort_keys :: "SortKey list"
  sort_cols :: "ColMeta list"
  so_records :: "bytes list"
  so_cursor :: nat
  so_limit :: int

fun find_sort_cols :: "'e exec_ops \<Rightarrow> 'e \<Rightarrow> SortKey list \<Rightarrow> rmdb_error + ColMeta list" where
  "find_sort_cols ops e [] = Inr []"
| "find_sort_cols ops e (key # keys) =
     (case get_col_offset ops e (sk_col key) of
        Inl x \<Rightarrow> Inl x
      | Inr col \<Rightarrow> (case find_sort_cols ops e keys of Inl x \<Rightarrow> Inl x | Inr rest \<Rightarrow> Inr (col # rest)))"

definition SortExecutor :: "'e exec_ops \<Rightarrow> 'e \<Rightarrow> SortKey list \<Rightarrow> int \<Rightarrow> rmdb_error + 'e sort_exec" where
  "SortExecutor ops prev keys limit =
     (case find_sort_cols ops prev keys of
        Inl x \<Rightarrow> Inl x
      | Inr cs \<Rightarrow> Inr \<lparr>so_prev = prev, sort_keys = keys, sort_cols = cs, so_records = [], so_cursor = 0, so_limit = limit\<rparr>)"

text \<open>The comparison handed to \<open>std::stable_sort\<close>; the fields of one column can always be
  compared.\<close>

fun sort_less :: "(SortKey \<times> ColMeta) list \<Rightarrow> bytes \<Rightarrow> bytes \<Rightarrow> bool" where
  "sort_less [] lhs rhs \<longleftrightarrow> False"
| "sort_less ((key, col) # keys) lhs rhs \<longleftrightarrow>
     (case compare_raw_data (drop (nat (cm_offset col)) lhs) (cm_type col) (cm_len col)
             (drop (nat (cm_offset col)) rhs) (cm_type col) (cm_len col) of
        Inl x \<Rightarrow> False
      | Inr cmp \<Rightarrow>
          if cmp = 0 then sort_less keys lhs rhs
          else if sk_is_desc key then 0 < cmp else cmp < 0)"

fun insert_sorted :: "('a \<Rightarrow> 'a \<Rightarrow> bool) \<Rightarrow> 'a \<Rightarrow> 'a list \<Rightarrow> 'a list" where
  "insert_sorted lt x [] = [x]"
| "insert_sorted lt x (y # ys) = (if lt y x then y # insert_sorted lt x ys else x # y # ys)"

definition stable_sort :: "('a \<Rightarrow> 'a \<Rightarrow> bool) \<Rightarrow> 'a list \<Rightarrow> 'a list" where
  "stable_sort lt xs = foldr (insert_sorted lt) xs []"

definition on_sort_prev :: "(database \<times> 'e, 'a) comp \<Rightarrow> (database \<times> 'e sort_exec, 'a) comp" where
  "on_sort_prev m s = (case m (fst s, so_prev (snd s)) of (r, (w, p)) \<Rightarrow> (r, (w, (snd s)\<lparr>so_prev := p\<rparr>)))"

definition sort_records :: "'e sort_exec \<Rightarrow> bytes list \<Rightarrow> bytes list" where
  "sort_records e recs =
     (if sort_keys e = [] then recs else stable_sort (sort_less (zip (sort_keys e) (sort_cols e))) recs)"

definition limited :: "int \<Rightarrow> 'a list \<Rightarrow> 'a list" where
  "limited limit xs = (if 0 \<le> limit \<and> limit < int (length xs) then take (nat limit) xs else xs)"

definition sort_begin :: "nat \<Rightarrow> 'e exec_ops \<Rightarrow> (database \<times> 'e sort_exec, unit) comp" where
  "sort_begin fuel ops =
     thenE (set_exec (\<lambda>e. e\<lparr>so_records := [], so_cursor := 0\<rparr>))
    (bindE (on_sort_prev (run_query fuel ops)) (\<lambda>rows.
      if None \<in> set rows then throwE UndefinedBehaviour
      else
        set_exec (\<lambda>e. e\<lparr>so_records := limited (so_limit e) (sort_records e (map the rows))\<rparr>)))"

definition sort_is_end :: "database \<times> 'e sort_exec \<Rightarrow> bool" where
  "sort_is_end s \<longleftrightarrow> length (so_records (snd s)) \<le> so_cursor (snd s)"

definition sort_next_tuple :: "(database \<times> 'e sort_exec, unit) comp" where
  "sort_next_tuple =
     set_exec (\<lambda>e. if so_cursor e < length (so_records e) then e\<lparr>so_cursor := so_cursor e + 1\<rparr> else e)"

definition sort_next :: "(database \<times> 'e sort_exec, bytes option) comp" where
  "sort_next =
     bindE (getE sort_is_end) (\<lambda>ended.
       if ended then returnE None else getE (\<lambda>(w, e). Some (so_records e ! so_cursor e)))"

definition sort_ops :: "nat \<Rightarrow> 'e exec_ops \<Rightarrow> 'e sort_exec exec_ops" where
  "sort_ops fuel ops =
     \<lparr>beginTuple = sort_begin fuel ops, nextTuple = sort_next_tuple, is_end = sort_is_end, Next = sort_next,
      cols = (\<lambda>e. cols ops (so_prev e)), tupleLen = (\<lambda>e. tupleLen ops (so_prev e))\<rparr>"

section \<open>Aggregation\<close>

datatype AggType = AGG_COUNT | AGG_MAX | AGG_MIN | AGG_SUM

record AggregateExpr =
  agg_type :: AggType
  is_count_star :: bool
  agg_col :: TabCol
  agg_alias :: string

record 'e agg_exec =
  ag_prev :: 'e
  aggregates :: "AggregateExpr list"
  ag_cols :: "ColMeta list"
  source_cols :: "ColMeta list"
  ag_len :: nat
  ag_is_end :: bool
  ag_result :: "bytes option"

text \<open>\<open>ColMeta source_col{}\<close>\<close>

definition zero_col :: ColMeta where
  "zero_col = \<lparr>cm_tab_name = [], cm_name = [], cm_type = TYPE_INT, cm_len = 0, cm_offset = 0, cm_index = False\<rparr>"

definition out_col_shape :: "AggregateExpr \<Rightarrow> ColMeta \<Rightarrow> ColType \<times> int" where
  "out_col_shape agg source_col =
     (case agg_type agg of
        AGG_COUNT \<Rightarrow> (TYPE_BIGINT, 8)
      | AGG_SUM \<Rightarrow> if cm_type source_col = TYPE_FLOAT then (TYPE_FLOAT, 4) else (TYPE_BIGINT, 8)
      | _ \<Rightarrow> (cm_type source_col, cm_len source_col))"

fun agg_layout :: "'e exec_ops \<Rightarrow> 'e \<Rightarrow> AggregateExpr list \<Rightarrow> int \<Rightarrow> rmdb_error + (ColMeta \<times> ColMeta) list" where
  "agg_layout ops e [] offset = Inr []"
| "agg_layout ops e (agg # aggs) offset =
     (case (if is_count_star agg then Inr zero_col else get_col_offset ops e (agg_col agg)) of
        Inl x \<Rightarrow> Inl x
      | Inr source_col \<Rightarrow>
          (case out_col_shape agg source_col of
             (type, len) \<Rightarrow>
               (case agg_layout ops e aggs (offset + len) of
                  Inl x \<Rightarrow> Inl x
                | Inr rest \<Rightarrow>
                    Inr ((source_col, \<lparr>cm_tab_name = [], cm_name = agg_alias agg, cm_type = type, cm_len = len, cm_offset = offset,
                                       cm_index = False\<rparr>) # rest))))"

definition AggregateExecutor :: "'e exec_ops \<Rightarrow> 'e \<Rightarrow> AggregateExpr list \<Rightarrow> rmdb_error + 'e agg_exec" where
  "AggregateExecutor ops prev aggs =
     (case agg_layout ops prev aggs 0 of
        Inl x \<Rightarrow> Inl x
      | Inr layout \<Rightarrow>
          Inr \<lparr>ag_prev = prev, aggregates = aggs, ag_cols = map snd layout, source_cols = map fst layout,
               ag_len = nat (sum_list (map (cm_len \<circ> snd) layout)), ag_is_end = True, ag_result = None\<rparr>)"

text \<open>The accumulators of one aggregate: \<open>count_values[i]\<close>, \<open>numeric_sums[i]\<close>, and \<open>best_values[i]\<close> when
  \<open>initialized[i]\<close>.\<close>

record agg_acc =
  ac_count :: int
  ac_sum :: long_double
  ac_best :: "bytes option"

definition init_acc :: agg_acc where
  "init_acc = \<lparr>ac_count = 0, ac_sum = LFin 0, ac_best = None\<rparr>"

definition agg_update :: "AggregateExpr \<Rightarrow> ColMeta \<Rightarrow> bytes \<Rightarrow> agg_acc \<Rightarrow> rmdb_error + agg_acc" where
  "agg_update agg source_col rec acc =
     (let data = drop (nat (cm_offset source_col)) rec; value = take (nat (cm_len source_col)) data in
      case agg_type agg of
        AGG_COUNT \<Rightarrow> Inr (acc\<lparr>ac_count := ac_count acc + 1\<rparr>)
      | AGG_SUM \<Rightarrow>
          if is_numeric_type (cm_type source_col)
          then Inr (acc\<lparr>ac_sum := ld_add (ac_sum acc) (number_at (cm_type source_col) data)\<rparr>)
          else Inl (IncompatibleTypeError ''SUM'' (coltype2str (cm_type source_col)))
      | _ \<Rightarrow>
          (case ac_best acc of
             None \<Rightarrow> Inr (acc\<lparr>ac_best := Some value\<rparr>)
           | Some best \<Rightarrow>
               (case compare_raw_data data (cm_type source_col) (cm_len source_col) best (cm_type source_col) (cm_len source_col) of
                  Inl x \<Rightarrow> Inl x
                | Inr cmp \<Rightarrow>
                    Inr (if agg_type agg = AGG_MAX \<and> 0 < cmp \<or> agg_type agg = AGG_MIN \<and> cmp < 0
                         then acc\<lparr>ac_best := Some value\<rparr> else acc))))"

fun agg_row :: "(AggregateExpr \<times> ColMeta) list \<Rightarrow> bytes \<Rightarrow> agg_acc list \<Rightarrow> rmdb_error + agg_acc list" where
  "agg_row ((agg, col) # aggs) rec (acc # accs) =
     (case agg_update agg col rec acc of
        Inl x \<Rightarrow> Inl x
      | Inr acc' \<Rightarrow> (case agg_row aggs rec accs of Inl x \<Rightarrow> Inl x | Inr accs' \<Rightarrow> Inr (acc' # accs')))"
| "agg_row _ rec accs = Inr []"

definition agg_finish :: "AggregateExpr \<Rightarrow> ColMeta \<Rightarrow> agg_acc \<Rightarrow> rmdb_error + bytes" where
  "agg_finish agg out_col acc =
     (case agg_type agg of
        AGG_COUNT \<Rightarrow> Inr (le_bytes 8 (ac_count acc))
      | AGG_SUM \<Rightarrow>
          if cm_type out_col = TYPE_FLOAT then Inr (le_bytes 4 (float_of_ld (ac_sum acc)))
          else (case int_of_ld int64 (ac_sum acc) of Inl x \<Rightarrow> Inl x | Inr i \<Rightarrow> Inr (le_bytes 8 i))
      | _ \<Rightarrow>
          (case ac_best acc of
             Some best \<Rightarrow> Inr (take (nat (cm_len out_col)) best)
           | None \<Rightarrow> Inr (replicate (nat (cm_len out_col)) 0)))"

fun agg_output :: "(AggregateExpr \<times> ColMeta \<times> agg_acc) list \<Rightarrow> bytes \<Rightarrow> rmdb_error + bytes" where
  "agg_output [] dest = Inr dest"
| "agg_output ((agg, out_col, acc) # rest) dest =
     (case agg_finish agg out_col acc of
        Inl x \<Rightarrow> Inl x
      | Inr bs \<Rightarrow> agg_output rest (mem_put dest (nat (cm_offset out_col)) bs))"

definition on_agg_prev :: "(database \<times> 'e, 'a) comp \<Rightarrow> (database \<times> 'e agg_exec, 'a) comp" where
  "on_agg_prev m s = (case m (fst s, ag_prev (snd s)) of (r, (w, p)) \<Rightarrow> (r, (w, (snd s)\<lparr>ag_prev := p\<rparr>)))"

text \<open>The loop over the rows of the child.\<close>

fun agg_drain :: "nat \<Rightarrow> 'e exec_ops \<Rightarrow> (AggregateExpr \<times> ColMeta) list \<Rightarrow> agg_acc list \<Rightarrow> (database \<times> 'e agg_exec, agg_acc list) comp" where
  "agg_drain fuel ops aggs accs =
     bindE (getE (\<lambda>(w, e). is_end ops (w, ag_prev e))) (\<lambda>ended.
       if ended then returnE accs
       else
         (case fuel of
            0 \<Rightarrow> throwE OutOfFuel
          | Suc fuel' \<Rightarrow>
              bindE (on_agg_prev (Next ops)) (\<lambda>row.
                case row of
                  None \<Rightarrow> throwE UndefinedBehaviour
                | Some rec \<Rightarrow>
                    (case agg_row aggs rec accs of
                       Inl x \<Rightarrow> throwE x
                     | Inr accs' \<Rightarrow> thenE (on_agg_prev (nextTuple ops)) (agg_drain fuel' ops aggs accs')))))"

declare agg_drain.simps [simp del]

definition agg_begin :: "nat \<Rightarrow> 'e exec_ops \<Rightarrow> (database \<times> 'e agg_exec, unit) comp" where
  "agg_begin fuel ops =
     bindE (getE snd) (\<lambda>e.
       thenE (set_exec (\<lambda>e. e\<lparr>ag_result := Some (replicate (ag_len e) 0)\<rparr>))
      (thenE (on_agg_prev (beginTuple ops))
      (bindE (agg_drain fuel ops (zip (aggregates e) (source_cols e)) (map (\<lambda>_. init_acc) (aggregates e))) (\<lambda>accs.
        case agg_output (zip (aggregates e) (zip (ag_cols e) accs)) (replicate (ag_len e) 0) of
          Inl x \<Rightarrow> throwE x
        | Inr result \<Rightarrow> set_exec (\<lambda>e. e\<lparr>ag_result := Some result, ag_is_end := False\<rparr>)))))"

definition agg_next :: "(database \<times> 'e agg_exec, bytes option) comp" where
  "agg_next = getE (\<lambda>(w, e). if ag_is_end e then None else ag_result e)"

definition agg_ops :: "nat \<Rightarrow> 'e exec_ops \<Rightarrow> 'e agg_exec exec_ops" where
  "agg_ops fuel ops =
     \<lparr>beginTuple = agg_begin fuel ops, nextTuple = set_exec (\<lambda>e. e\<lparr>ag_is_end := True\<rparr>), is_end = (\<lambda>(w, e). ag_is_end e),
      Next = agg_next, cols = ag_cols, tupleLen = ag_len\<rparr>"

section \<open>Stable sorting\<close>

lemma mset_insert_sorted [simp]: "mset (insert_sorted lt x ys) = add_mset x (mset ys)"
  by (induction ys) auto

lemma mset_stable_sort [simp]: "mset (stable_sort lt xs) = mset xs"
  by (induction xs) (simp_all add: stable_sort_def)

lemma set_insert_sorted [simp]: "set (insert_sorted lt x ys) = insert x (set ys)"
  by (simp flip: set_mset_mset)

lemma set_stable_sort [simp]: "set (stable_sort lt xs) = set xs"
  by (simp flip: set_mset_mset)

text \<open>What \<open>std::stable_sort\<close> asks of the comparison on the elements it sorts.\<close>

locale strict_weak_order =
  fixes lt :: "'a \<Rightarrow> 'a \<Rightarrow> bool" and A :: "'a set"
  assumes asym: "a \<in> A \<Longrightarrow> b \<in> A \<Longrightarrow> lt a b \<Longrightarrow> \<not> lt b a"
    and split: "a \<in> A \<Longrightarrow> b \<in> A \<Longrightarrow> c \<in> A \<Longrightarrow> lt a c \<Longrightarrow> lt a b \<or> lt b c"
begin

lemma insert_sorted_ordered:
  assumes "x \<in> A" "set ys \<subseteq> A" "sorted_wrt (\<lambda>a b. \<not> lt b a) ys"
  shows "sorted_wrt (\<lambda>a b. \<not> lt b a) (insert_sorted lt x ys)"
  using assms
proof (induction ys)
  case (Cons y ys)
  show ?case
  proof (cases "lt y x")
    case True
    then show ?thesis using Cons asym[of y x] by auto
  next
    case False
    have "\<not> lt z x" if "z \<in> set ys" for z using split[of z y x] that Cons.prems False by auto
    then show ?thesis using Cons.prems False by auto
  qed
qed simp

lemma insert_sorted_stable:
  assumes "x \<in> A" "set ys \<subseteq> A" "a \<in> A"
  shows "filter (\<lambda>y. \<not> lt a y \<and> \<not> lt y a) (insert_sorted lt x ys) = filter (\<lambda>y. \<not> lt a y \<and> \<not> lt y a) (x # ys)"
  using assms(2)
proof (induction ys)
  case (Cons y ys)
  have "\<not> (\<not> lt a y \<and> \<not> lt y a)" if "lt y x" "\<not> lt a x" "\<not> lt x a"
    using split[of y a x] that Cons.prems assms by auto
  then show ?case using Cons by auto
qed simp

lemma stable_sort_ordered: "set xs \<subseteq> A \<Longrightarrow> sorted_wrt (\<lambda>a b. \<not> lt b a) (stable_sort lt xs)"
proof (induction xs)
  case (Cons x xs)
  then show ?case using insert_sorted_ordered[of x "stable_sort lt xs"] set_stable_sort[of lt xs] by (simp add: stable_sort_def)
qed (simp add: stable_sort_def)

lemma stable_sort_stable:
  "set xs \<subseteq> A \<Longrightarrow> a \<in> A \<Longrightarrow>
    filter (\<lambda>y. \<not> lt a y \<and> \<not> lt y a) (stable_sort lt xs) = filter (\<lambda>y. \<not> lt a y \<and> \<not> lt y a) xs"
proof (induction xs)
  case (Cons x xs)
  then show ?case using insert_sorted_stable[of x "stable_sort lt xs" a] set_stable_sort[of lt xs] by (simp add: stable_sort_def)
qed (simp add: stable_sort_def)

end

text \<open>The rows whose sort fields have the length of their types and are no NaN; their order is that of
  the ranks of the fields.\<close>

definition sort_rank :: "ColMeta \<Rightarrow> bytes \<Rightarrow> int list" where
  "sort_rank col r = col_rank (cm_type col) (cm_len col) (drop (nat (cm_offset col)) r)"

definition sortable_field :: "ColMeta \<Rightarrow> bytes \<Rightarrow> bool" where
  "sortable_field col r \<longleftrightarrow>
     (let f = drop (nat (cm_offset col)) r in col_wf (cm_type col) (cm_len col) f \<and> nat (cm_len col) \<le> length f)"

definition sortable :: "(SortKey \<times> ColMeta) list \<Rightarrow> bytes set" where
  "sortable keys = {r. \<forall>(key, col) \<in> set keys. sortable_field col r}"

lemma field_compare:
  assumes "sortable_field col a" "sortable_field col b"
  shows "\<exists>c. compare_raw_data (drop (nat (cm_offset col)) a) (cm_type col) (cm_len col) (drop (nat (cm_offset col)) b) (cm_type col) (cm_len col) = Inr c \<and>
    (c < 0 \<longleftrightarrow> sort_rank col a < sort_rank col b) \<and> (c = 0 \<longleftrightarrow> sort_rank col a = sort_rank col b) \<and> (0 < c \<longleftrightarrow> sort_rank col b < sort_rank col a)"
proof -
  let ?a = "drop (nat (cm_offset col)) a" and ?b = "drop (nat (cm_offset col)) b"
  have "ix_compare_col ?a ?b (cm_type col) (cm_len col) < 0 \<longleftrightarrow> sort_rank col a < sort_rank col b"
    "ix_compare_col ?a ?b (cm_type col) (cm_len col) = 0 \<longleftrightarrow> sort_rank col a = sort_rank col b"
    using assms col_rank_cmp(1,2)[of "cm_type col" "cm_len col" ?a ?b] by (simp_all add: sort_rank_def sortable_field_def Let_def)
  then show ?thesis by (auto simp: compare_raw_data_col)
qed

lemma sort_less_Cons:
  assumes "sortable_field col a" "sortable_field col b"
  shows "sort_less ((key, col) # keys) a b \<longleftrightarrow>
    (if sort_rank col a = sort_rank col b then sort_less keys a b
     else if sk_is_desc key then sort_rank col b < sort_rank col a else sort_rank col a < sort_rank col b)"
  using field_compare[OF assms] by auto

declare sort_less.simps(2) [simp del]

lemma sortable_Cons: "r \<in> sortable ((key, col) # keys) \<longleftrightarrow> sortable_field col r \<and> r \<in> sortable keys"
  by (auto simp: sortable_def)

lemma sort_less_order: "strict_weak_order (sort_less keys) (sortable keys)"
proof (induction keys)
  case Nil
  show ?case by unfold_locales simp_all
next
  case (Cons kc keys)
  obtain key col where kc: "kc = (key, col)" by (cases kc)
  note asym = strict_weak_order.asym[OF Cons.IH] and split = strict_weak_order.split[OF Cons.IH]
  show ?case
  proof
    fix a b assume "a \<in> sortable (kc # keys)" "b \<in> sortable (kc # keys)" "sort_less (kc # keys) a b"
    then show "\<not> sort_less (kc # keys) b a"
      using asym[of a b] by (auto simp: kc sortable_Cons sort_less_Cons split: if_splits)
  next
    fix a b c assume "a \<in> sortable (kc # keys)" "b \<in> sortable (kc # keys)" "c \<in> sortable (kc # keys)" "sort_less (kc # keys) a c"
    then show "sort_less (kc # keys) a b \<or> sort_less (kc # keys) b c"
      using split[of a b c] by (auto simp: kc sortable_Cons sort_less_Cons split: if_splits)
  qed
qed

interpretation sl: strict_weak_order "sort_less keys" "sortable keys" for keys
  by (rule sort_less_order)

section \<open>Sorting as a source of rows\<close>

definition so_src :: "nat \<Rightarrow> ('e \<Rightarrow> bytes list \<Rightarrow> bool) \<Rightarrow> 'e sort_exec \<Rightarrow> bytes list \<Rightarrow> bool" where
  "so_src fuel src e rows \<longleftrightarrow>
     (\<exists>prows. src (so_prev e) prows \<and> length prows \<le> fuel \<and> rows = limited (so_limit e) (sort_records e prows))"

definition so_cur :: "'e sort_exec \<Rightarrow> bytes list \<Rightarrow> bool" where
  "so_cur e rest \<longleftrightarrow> rest = drop (so_cursor e) (so_records e)"

lemma set_sort_records [simp]: "set (sort_records e rows) = set rows"
  by (simp add: sort_records_def)

lemma set_limited: "set (limited n xs) \<subseteq> set xs"
  by (auto simp: limited_def dest: in_set_takeD)

lemma sort_source:
  assumes "row_source ops W src cur"
  shows "row_source (sort_ops fuel ops) W (so_src fuel src) so_cur"
proof
  fix w e rows assume w: "W w" and s: "so_src fuel src e rows"
  obtain prows where p: "src (so_prev e) prows" "length prows \<le> fuel" "rows = limited (so_limit e) (sort_records e prows)"
    using s by (auto simp: so_src_def)
  define e1 where "e1 = e\<lparr>so_records := [], so_cursor := 0\<rparr>"
  have e1: "so_prev e1 = so_prev e" by (simp add: e1_def)
  from row_source.run_ok[OF assms w p(1,2)] obtain w' q where
    q: "run_query fuel ops (w, so_prev e) = (Inr (map Some prows), (w', q))" "W w'" "src q prows" "kept ops (so_prev e) q" by blast
  let ?e' = "e1\<lparr>so_prev := q, so_records := rows\<rparr>"
  have sr: "sort_records (e1\<lparr>so_prev := q\<rparr>) = sort_records e" "sort_records ?e' = sort_records e"
    by (simp_all add: sort_records_def fun_eq_iff e1_def)
  have "beginTuple (sort_ops fuel ops) (w, e) = (Inr (), (w', ?e'))"
    using q(1) p(3) sr(1) e1
    by (auto simp: sort_ops_def sort_begin_def set_exec_def thenE_def bindE_def on_sort_prev_def e1_def[symmetric] comp_def)
      (simp add: e1_def)
  moreover have "so_src fuel src ?e' rows" "so_cur ?e' rows"
    using p q sr by (auto simp: so_src_def so_cur_def e1_def intro!: exI[of _ prows])
  moreover have "kept (sort_ops fuel ops) e ?e'" using q(4) by (simp add: kept_def sort_ops_def)
  ultimately show "\<exists>w' e'. beginTuple (sort_ops fuel ops) (w, e) = (Inr (), (w', e')) \<and> W w' \<and> so_src fuel src e' rows \<and> so_cur e' rows \<and>
      kept (sort_ops fuel ops) e e'" using q(2) by blast
next
  fix w e rows r rest assume w: "W w" and s: "so_src fuel src e rows" and c: "so_cur e (r # rest)"
  have lt: "so_cursor e < length (so_records e)" using c by (auto simp: so_cur_def) (metis drop_eq_Nil list.distinct(1) not_le_imp_less)
  have "rest = drop (Suc (so_cursor e)) (so_records e)" using c by (simp add: so_cur_def) (metis drop_Suc list.sel(3) tl_drop)
  moreover have "sort_records (e\<lparr>so_cursor := Suc (so_cursor e)\<rparr>) = sort_records e" by (simp add: sort_records_def fun_eq_iff)
  ultimately show "\<exists>w' e'. nextTuple (sort_ops fuel ops) (w, e) = (Inr (), (w', e')) \<and> W w' \<and> so_src fuel src e' rows \<and> so_cur e' rest \<and>
      kept (sort_ops fuel ops) e e'"
    using w s lt by (simp add: sort_ops_def sort_next_tuple_def set_exec_def so_src_def so_cur_def kept_def)
next
  fix w e rows r rest assume w: "W w" and s: "so_src fuel src e rows" and c: "so_cur e (r # rest)"
  have lt: "so_cursor e < length (so_records e)" using c by (auto simp: so_cur_def) (metis drop_eq_Nil list.distinct(1) not_le_imp_less)
  then have "r = so_records e ! so_cursor e" using c by (simp add: so_cur_def flip: Cons_nth_drop_Suc)
  then show "\<exists>w'. Next (sort_ops fuel ops) (w, e) = (Inr (Some r), (w', e)) \<and> W w'"
    using w lt by (simp add: sort_ops_def sort_next_def sort_is_end_def)
next
  fix w e rows rest assume "W w" "so_src fuel src e rows" "so_cur e rest"
  then show "is_end (sort_ops fuel ops) (w, e) \<longleftrightarrow> rest = []" by (simp add: sort_ops_def sort_is_end_def so_cur_def)
next
  fix e rows r assume "so_src fuel src e rows" "r \<in> set rows"
  then obtain prows where "src (so_prev e) prows" "r \<in> set prows"
    using set_limited set_sort_records by (fastforce simp: so_src_def)
  then show "length r = tupleLen (sort_ops fuel ops) e" using row_source.len_ok[OF assms] by (simp add: sort_ops_def)
qed

section \<open>Aggregation as a source of rows\<close>

fun agg_rows :: "(AggregateExpr \<times> ColMeta) list \<Rightarrow> bytes list \<Rightarrow> agg_acc list \<Rightarrow> rmdb_error + agg_acc list" where
  "agg_rows aggs [] accs = Inr accs"
| "agg_rows aggs (r # rows) accs = (case agg_row aggs r accs of Inl x \<Rightarrow> Inl x | Inr accs' \<Rightarrow> agg_rows aggs rows accs')"

definition agg_result :: "'e agg_exec \<Rightarrow> bytes list \<Rightarrow> rmdb_error + bytes" where
  "agg_result e rows =
     (case agg_rows (zip (aggregates e) (source_cols e)) rows (map (\<lambda>_. init_acc) (aggregates e)) of
        Inl x \<Rightarrow> Inl x
      | Inr accs \<Rightarrow> agg_output (zip (aggregates e) (zip (ag_cols e) accs)) (replicate (ag_len e) 0))"

lemma agg_result_upd [simp]:
  "agg_result (e\<lparr>ag_prev := q\<rparr>) = agg_result e" "agg_result (e\<lparr>ag_result := r\<rparr>) = agg_result e"
  "agg_result (e\<lparr>ag_is_end := b\<rparr>) = agg_result e"
  by (simp_all add: agg_result_def fun_eq_iff split: sum.split)

definition ag_src :: "nat \<Rightarrow> ('e \<Rightarrow> bytes list \<Rightarrow> bool) \<Rightarrow> 'e agg_exec \<Rightarrow> bytes list \<Rightarrow> bool" where
  "ag_src fuel src e rows \<longleftrightarrow>
     (\<exists>prows res. src (ag_prev e) prows \<and> length prows \<le> fuel \<and> agg_result e prows = Inr res \<and> length res = ag_len e \<and> rows = [res])"

definition ag_cur :: "'e agg_exec \<Rightarrow> bytes list \<Rightarrow> bool" where
  "ag_cur e rest \<longleftrightarrow> (if ag_is_end e then rest = [] else (\<exists>res. ag_result e = Some res \<and> rest = [res]))"

lemma agg_drain_ok:
  assumes src: "row_source ops W src cur" and "W w" "src (ag_prev e) rows" "cur (ag_prev e) rest" "length rest \<le> fuel"
    "agg_rows aggs rest accs = Inr accs'"
  shows "\<exists>w' q. agg_drain fuel ops aggs accs (w, e) = (Inr accs', (w', e\<lparr>ag_prev := q\<rparr>)) \<and> W w' \<and> src q rows \<and> kept ops (ag_prev e) q"
  using assms(2-)
proof (induction rest arbitrary: w e fuel accs)
  case Nil
  then show ?case using row_source.end_ok[OF src Nil(1-3)]
    by (intro exI[of _ w] exI[of _ "ag_prev e"], subst agg_drain.simps) simp
next
  case (Cons r rest)
  obtain fuel' where f: "fuel = Suc fuel'" "length rest \<le> fuel'" using Cons.prems(4) by (cases fuel) auto
  obtain a1 where a: "agg_row aggs r accs = Inr a1" "agg_rows aggs rest a1 = Inr accs'" using Cons.prems(5) by (auto split: sum.splits)
  obtain w1 where g: "Next ops (w, ag_prev e) = (Inr (Some r), (w1, ag_prev e))" "W w1" using row_source.get_ok[OF src Cons.prems(1-3)] by blast
  obtain w2 p where n: "nextTuple ops (w1, ag_prev e) = (Inr (), (w2, p))" "W w2" "src p rows" "cur p rest" "kept ops (ag_prev e) p"
    using row_source.next_ok[OF src g(2) Cons.prems(2,3)] by blast
  obtain w' q where d: "agg_drain fuel' ops aggs a1 (w2, e\<lparr>ag_prev := p\<rparr>) = (Inr accs', (w', e\<lparr>ag_prev := q\<rparr>))" "W w'" "src q rows" "kept ops p q"
    using Cons.IH[OF n(2), of "e\<lparr>ag_prev := p\<rparr>" fuel' a1] n(3,4) f(2) a(2) by auto
  have "agg_drain fuel ops aggs accs (w, e) = (Inr accs', (w', e\<lparr>ag_prev := q\<rparr>))"
    using row_source.end_ok[OF src Cons.prems(1-3)] f(1) g(1) n(1) d(1) a(1)
    by (subst agg_drain.simps) (simp add: bindE_def thenE_def on_agg_prev_def)
  then show ?case using d kept_trans[OF n(5) d(4)] by blast
qed

lemma aggregate_source:
  assumes "row_source ops W src cur"
  shows "row_source (agg_ops fuel ops) W (ag_src fuel src) ag_cur"
proof
  fix w e rows assume w: "W w" and s: "ag_src fuel src e rows"
  obtain prows res where p: "src (ag_prev e) prows" "length prows \<le> fuel" "agg_result e prows = Inr res" "length res = ag_len e" "rows = [res]"
    using s by (auto simp: ag_src_def)
  obtain accs where a: "agg_rows (zip (aggregates e) (source_cols e)) prows (map (\<lambda>_. init_acc) (aggregates e)) = Inr accs"
    "agg_output (zip (aggregates e) (zip (ag_cols e) accs)) (replicate (ag_len e) 0) = Inr res"
    using p(3) by (auto simp: agg_result_def split: sum.splits)
  define e1 where "e1 = e\<lparr>ag_result := Some (replicate (ag_len e) 0)\<rparr>"
  obtain w1 p1 where b: "beginTuple ops (w, ag_prev e) = (Inr (), (w1, p1))" "W w1" "src p1 prows" "cur p1 prows" "kept ops (ag_prev e) p1"
    using row_source.begin_ok[OF assms w p(1)] by blast
  from agg_drain_ok[OF assms b(2), where e = "e1\<lparr>ag_prev := p1\<rparr>" and rows = prows, OF _ _ p(2) a(1)] b(3,4) obtain w' q where
    d: "agg_drain fuel ops (zip (aggregates e) (source_cols e)) (map (\<lambda>_. init_acc) (aggregates e)) (w1, e1\<lparr>ag_prev := p1\<rparr>) =
      (Inr accs, (w', e1\<lparr>ag_prev := q\<rparr>))" "W w'" "src q prows" "kept ops p1 q" by auto
  let ?e' = "e1\<lparr>ag_prev := q, ag_result := Some res, ag_is_end := False\<rparr>"
  have "beginTuple (agg_ops fuel ops) (w, e) = (Inr (), (w', ?e'))"
    using b(1) d(1) a(2)
    by (simp add: agg_ops_def agg_begin_def thenE_def bindE_def set_exec_def on_agg_prev_def getE_def modifyE_def e1_def)
  moreover have "agg_result ?e' = agg_result e" by (simp add: e1_def)
  then have "ag_src fuel src ?e' rows" using p(2-5) d(3) by (auto simp: ag_src_def e1_def intro!: exI[of _ prows])
  moreover have "ag_cur ?e' rows" "kept (agg_ops fuel ops) e ?e'" using p(5) by (simp_all add: ag_cur_def kept_def agg_ops_def e1_def)
  ultimately show "\<exists>w' e'. beginTuple (agg_ops fuel ops) (w, e) = (Inr (), (w', e')) \<and> W w' \<and> ag_src fuel src e' rows \<and> ag_cur e' rows \<and>
      kept (agg_ops fuel ops) e e'" using d(2) by blast
next
  fix w e rows r rest assume "W w" and s: "ag_src fuel src e rows" and c: "ag_cur e (r # rest)"
  have "ag_src fuel src (e\<lparr>ag_is_end := True\<rparr>) rows" using s by (simp add: ag_src_def)
  then show "\<exists>w' e'. nextTuple (agg_ops fuel ops) (w, e) = (Inr (), (w', e')) \<and> W w' \<and> ag_src fuel src e' rows \<and> ag_cur e' rest \<and>
      kept (agg_ops fuel ops) e e'"
    using \<open>W w\<close> c by (auto simp: agg_ops_def set_exec_def ag_cur_def kept_def split: if_splits)
qed (auto simp: agg_ops_def agg_next_def ag_cur_def ag_src_def kept_def split: if_splits)

end
