(* ===== verification/Aggregate.thy ===== *)
theory Aggregate
  imports SortAggregate
begin

text \<open>
  What the aggregates compute (\<open>execution/executor_aggregate.h\<close>, modelled in \<open>SortAggregate\<close>): the
  number of rows, the exact sum of an integer column as long as it fits, and a greatest or least
  field.
\<close>

section \<open>One aggregate\<close>

fun agg_fold :: "AggregateExpr \<Rightarrow> ColMeta \<Rightarrow> bytes list \<Rightarrow> agg_acc \<Rightarrow> rmdb_error + agg_acc" where
  "agg_fold agg col [] acc = Inr acc"
| "agg_fold agg col (r # rows) acc = (case agg_update agg col r acc of Inl x \<Rightarrow> Inl x | Inr acc' \<Rightarrow> agg_fold agg col rows acc')"

lemma fold_count: "agg_type agg = AGG_COUNT \<Longrightarrow> agg_fold agg col rows acc = Inr (acc\<lparr>ac_count := ac_count acc + int (length rows)\<rparr>)"
  by (induction rows arbitrary: acc) (simp_all add: agg_update_def add.commute add.left_commute)

lemma fold_sum:
  assumes "agg_type agg = AGG_SUM" "is_numeric_type (cm_type col)"
  shows "agg_fold agg col rows acc =
    Inr (acc\<lparr>ac_sum := foldl (\<lambda>s r. ld_add s (number_at (cm_type col) (drop (nat (cm_offset col)) r))) (ac_sum acc) rows\<rparr>)"
  using assms by (induction rows arbitrary: acc) (simp_all add: agg_update_def Let_def)

text \<open>The sums on the way need at most 64 bits.\<close>

fun sums_fit :: "int \<Rightarrow> int list \<Rightarrow> bool" where
  "sums_fit s [] \<longleftrightarrow> True"
| "sums_fit s (x # xs) \<longleftrightarrow> \<bar>s + x\<bar> < 2 ^ 64 \<and> sums_fit (s + x) xs"

definition int_field :: "ColMeta \<Rightarrow> bytes \<Rightarrow> int" where
  "int_field col r = integral_at (cm_type col) (drop (nat (cm_offset col)) r)"

lemma foldl_sum:
  assumes "is_integral_type (cm_type col)" "sums_fit s (map (int_field col) rows)"
  shows "foldl (\<lambda>s r. ld_add s (number_at (cm_type col) (drop (nat (cm_offset col)) r))) (ld_of_int s) rows =
    ld_of_int (s + sum_list (map (int_field col) rows))"
  using assms by (induction rows arbitrary: s) (simp_all add: number_at_def int_field_def ld_add_int add.assoc)

text \<open>The greatest and the least field.\<close>

lemma field_take:
  assumes "sortable_field col r"
  shows "col_rank (cm_type col) (cm_len col) (field col r) = sort_rank col r" "col_wf (cm_type col) (cm_len col) (field col r)"
    "length (field col r) = nat (cm_len col)"
  using assms
  by (cases "cm_type col"; auto simp: sortable_field_def sort_rank_def field_def mem_get_def Let_def min_def)+

lemma best_compare:
  assumes "sortable_field col r" "sortable_field col b"
  shows "\<exists>c. compare_raw_data (drop (nat (cm_offset col)) r) (cm_type col) (cm_len col) (field col b) (cm_type col) (cm_len col) = Inr c \<and>
    (c < 0 \<longleftrightarrow> sort_rank col r < sort_rank col b) \<and> (0 < c \<longleftrightarrow> sort_rank col b < sort_rank col r)"
proof -
  have wf: "col_wf (cm_type col) (cm_len col) (drop (nat (cm_offset col)) r)" "nat (cm_len col) \<le> length (drop (nat (cm_offset col)) r)"
    using assms(1) by (simp_all add: sortable_field_def Let_def)
  from col_rank_cmp(1,2)[OF wf(1) field_take(2)[OF assms(2)] wf(2)] field_take[OF assms(2)] show ?thesis
    by (auto simp: compare_raw_data_col sort_rank_def)
qed

text \<open>\<open>beats agg col a b\<close>: the field of \<open>a\<close> is at least as good as that of \<open>b\<close>.\<close>

definition beats :: "AggregateExpr \<Rightarrow> ColMeta \<Rightarrow> bytes \<Rightarrow> bytes \<Rightarrow> bool" where
  "beats agg col a b \<longleftrightarrow> (if agg_type agg = AGG_MAX then sort_rank col b \<le> sort_rank col a else sort_rank col a \<le> sort_rank col b)"

lemma fold_best:
  assumes "agg_type agg = AGG_MAX \<or> agg_type agg = AGG_MIN" "\<forall>r \<in> set (b # rows). sortable_field col r"
    "ac_best acc = Some (field col b)"
  shows "\<exists>r \<in> set (b # rows). agg_fold agg col rows acc = Inr (acc\<lparr>ac_best := Some (field col r)\<rparr>) \<and> (\<forall>r' \<in> set (b # rows). beats agg col r r')"
  using assms(2,3)
proof (induction rows arbitrary: b acc)
  case Nil
  then show ?case by (auto simp: beats_def)
next
  case (Cons x rows)
  obtain c where c: "compare_raw_data (drop (nat (cm_offset col)) x) (cm_type col) (cm_len col) (field col b) (cm_type col) (cm_len col) = Inr c"
    "c < 0 \<longleftrightarrow> sort_rank col x < sort_rank col b" "0 < c \<longleftrightarrow> sort_rank col b < sort_rank col x"
    using best_compare[of col x b] Cons.prems(1) by auto
  define y where "y = (if agg_type agg = AGG_MAX \<and> 0 < c \<or> agg_type agg = AGG_MIN \<and> c < 0 then x else b)"
  have u: "agg_update agg col x acc = Inr (acc\<lparr>ac_best := Some (field col y)\<rparr>)"
    using assms(1) Cons.prems(2) c(1) by (cases "agg_type agg") (auto simp: agg_update_def Let_def y_def field_def mem_get_def)
  have y: "y \<in> {x, b}" "beats agg col y x" "beats agg col y b" using assms(1) c(2,3) by (auto simp: y_def beats_def)
  obtain r where r: "r \<in> set (y # rows)"
    "agg_fold agg col rows (acc\<lparr>ac_best := Some (field col y)\<rparr>) = Inr (acc\<lparr>ac_best := Some (field col y), ac_best := Some (field col r)\<rparr>)"
    "\<forall>r' \<in> set (y # rows). beats agg col r r'"
    using Cons.IH[of y "acc\<lparr>ac_best := Some (field col y)\<rparr>"] Cons.prems(1) y(1) by auto
  have "beats agg col r x" "beats agg col r b" using r(3) y(2,3) by (auto simp: beats_def split: if_splits)
  then show ?case using u r y(1) by (intro bexI[of _ r]) auto
qed

section \<open>All of them\<close>

lemma agg_row_all:
  assumes "length cs = length aggs" "length accs = length aggs" "length mid = length aggs"
    "\<And>i. i < length aggs \<Longrightarrow> agg_update (aggs ! i) (cs ! i) r (accs ! i) = Inr (mid ! i)"
  shows "agg_row (zip aggs cs) r accs = Inr mid"
  using assms
proof (induction aggs arbitrary: cs accs mid)
  case (Cons agg aggs)
  obtain col cs' acc accs' m mid' where eq: "cs = col # cs'" "accs = acc # accs'" "mid = m # mid'"
    using Cons.prems(1-3) by (cases cs; cases accs; cases mid) auto
  have "agg_update agg col r acc = Inr m" using Cons.prems(4)[of 0] eq by simp
  moreover have "agg_row (zip aggs cs') r accs' = Inr mid'"
    using Cons.prems(4)[of "Suc _"] Cons.prems(1-3) eq by (intro Cons.IH) auto
  ultimately show ?case using eq by simp
qed simp

lemma agg_rows_fold:
  assumes "length cs = length aggs" "length accs = length aggs" "length accs' = length aggs"
    "\<And>i. i < length aggs \<Longrightarrow> agg_fold (aggs ! i) (cs ! i) rows (accs ! i) = Inr (accs' ! i)"
  shows "agg_rows (zip aggs cs) rows accs = Inr accs'"
  using assms
proof (induction rows arbitrary: accs)
  case Nil
  then show ?case by (auto intro: nth_equalityI)
next
  case (Cons r rows)
  define mid where "mid = map (\<lambda>i. projr (agg_update (aggs ! i) (cs ! i) r (accs ! i))) [0..<length aggs]"
  have m: "agg_update (aggs ! i) (cs ! i) r (accs ! i) = Inr (mid ! i)" "agg_fold (aggs ! i) (cs ! i) rows (mid ! i) = Inr (accs' ! i)"
    if "i < length aggs" for i
    using Cons.prems(4)[OF that] that by (auto simp: mid_def split: sum.splits)
  have "agg_row (zip aggs cs) r accs = Inr mid" using Cons.prems(1,2) m(1) by (intro agg_row_all) (simp_all add: mid_def)
  then show ?case using Cons.IH[of mid] Cons.prems m(2) by (simp add: mid_def)
qed

section \<open>The row\<close>

definition agg_spec :: "AggregateExpr \<Rightarrow> ColMeta \<Rightarrow> bytes list \<Rightarrow> bytes \<Rightarrow> bool" where
  "agg_spec agg col rows bs \<longleftrightarrow>
     (case agg_type agg of
        AGG_COUNT \<Rightarrow> bs = le_bytes 8 (int (length rows))
      | AGG_SUM \<Rightarrow>
          if cm_type col = TYPE_FLOAT
          then bs = le_bytes 4 (float_of_ld (foldl (\<lambda>s r. ld_add s (number_at TYPE_FLOAT (drop (nat (cm_offset col)) r))) (LFin 0) rows))
          else bs = le_bytes 8 (sum_list (map (int_field col) rows))
      | _ \<Rightarrow>
          if rows = [] then bs = replicate (nat (cm_len col)) 0
          else \<exists>r \<in> set rows. bs = field col r \<and> (\<forall>r' \<in> set rows. beats agg col r r'))"

definition agg_fine :: "AggregateExpr \<Rightarrow> ColMeta \<Rightarrow> bytes list \<Rightarrow> bool" where
  "agg_fine agg col rows \<longleftrightarrow>
     (case agg_type agg of
        AGG_COUNT \<Rightarrow> True
      | AGG_SUM \<Rightarrow>
          is_numeric_type (cm_type col) \<and>
          (is_integral_type (cm_type col) \<longrightarrow> sums_fit 0 (map (int_field col) rows) \<and> int64 (sum_list (map (int_field col) rows)))
      | _ \<Rightarrow> 0 \<le> cm_len col \<and> (\<forall>r \<in> set rows. sortable_field col r))"

lemma agg_best_ok:
  assumes "agg_fine agg col rows" "out_col_shape agg col = (cm_type out, cm_len out)" "agg_type agg = AGG_MAX \<or> agg_type agg = AGG_MIN"
  shows "\<exists>acc bs. agg_fold agg col rows init_acc = Inr acc \<and> agg_finish agg out acc = Inr bs \<and> agg_spec agg col rows bs \<and> int (length bs) = cm_len out"
proof -
  have fine: "0 \<le> cm_len col" "\<forall>r \<in> set rows. sortable_field col r" "cm_len out = cm_len col"
    using assms by (auto simp: agg_fine_def out_col_shape_def)
  show ?thesis
  proof (cases rows)
    case Nil
    then show ?thesis using assms(3) fine by (auto simp: init_acc_def agg_finish_def agg_spec_def)
  next
    case (Cons b rest)
    have "agg_update agg col b init_acc = Inr (init_acc\<lparr>ac_best := Some (field col b)\<rparr>)"
      using assms(3) by (auto simp: agg_update_def init_acc_def Let_def field_def mem_get_def)
    moreover obtain r where r: "r \<in> set rows" "\<forall>r' \<in> set rows. beats agg col r r'"
      "agg_fold agg col rest (init_acc\<lparr>ac_best := Some (field col b)\<rparr>) = Inr (init_acc\<lparr>ac_best := Some (field col r)\<rparr>)"
      using fold_best[OF assms(3), of b rest col "init_acc\<lparr>ac_best := Some (field col b)\<rparr>"] fine(2) Cons by auto
    ultimately have "agg_fold agg col rows init_acc = Inr (init_acc\<lparr>ac_best := Some (field col r)\<rparr>)" using Cons by simp
    moreover have len: "length (field col r) = nat (cm_len col)" using field_take(3) fine(2) r(1) by blast
    then have "agg_finish agg out (init_acc\<lparr>ac_best := Some (field col r)\<rparr>) = Inr (field col r)"
      using assms(3) fine(3) by (auto simp: agg_finish_def)
    moreover have "agg_spec agg col rows (field col r)" using assms(3) r Cons by (auto simp: agg_spec_def)
    ultimately show ?thesis using len fine by auto
  qed
qed

lemma agg_one_ok:
  assumes "agg_fine agg col rows" "out_col_shape agg col = (cm_type out, cm_len out)"
  shows "\<exists>acc bs. agg_fold agg col rows init_acc = Inr acc \<and> agg_finish agg out acc = Inr bs \<and> agg_spec agg col rows bs \<and> int (length bs) = cm_len out"
proof (cases "agg_type agg")
  case AGG_COUNT
  then show ?thesis using assms(2) by (auto simp: fold_count agg_finish_def agg_spec_def init_acc_def out_col_shape_def)
next
  case AGG_SUM
  have num: "is_numeric_type (cm_type col)" using assms(1) AGG_SUM by (simp add: agg_fine_def)
  note f = fold_sum[OF AGG_SUM num, of rows init_acc]
  show ?thesis
  proof (cases "cm_type col = TYPE_FLOAT")
    case True
    then show ?thesis using AGG_SUM f assms(2) by (auto simp: agg_finish_def agg_spec_def init_acc_def out_col_shape_def)
  next
    case False
    then have int: "is_integral_type (cm_type col)" using num by (auto simp: is_numeric_type_def is_integral_type_def)
    have fits: "sums_fit 0 (map (int_field col) rows)" "int64 (sum_list (map (int_field col) rows))"
      using assms(1) AGG_SUM int by (simp_all add: agg_fine_def)
    have "ac_sum init_acc = ld_of_int 0" by (simp add: init_acc_def ld_of_int_def)
    then have "agg_fold agg col rows init_acc = Inr (init_acc\<lparr>ac_sum := ld_of_int (sum_list (map (int_field col) rows))\<rparr>)"
      using f foldl_sum[OF int fits(1)] by simp
    then show ?thesis using AGG_SUM False assms(2) int_of_ld_int[of int64, OF fits(2)]
      by (auto simp: agg_finish_def agg_spec_def out_col_shape_def)
  qed
qed (use assms agg_best_ok in blast)+

fun packed_outs :: "int \<Rightarrow> ColMeta list \<Rightarrow> bool" where
  "packed_outs off [] \<longleftrightarrow> True"
| "packed_outs off (c # cs) \<longleftrightarrow> cm_offset c = off \<and> packed_outs (off + cm_len c) cs"

lemma agg_output_concat:
  assumes "list_all2 (\<lambda>(agg, out, acc) bs. agg_finish agg out acc = Inr bs \<and> int (length bs) = cm_len out) xs bss"
    "packed_outs off (map (\<lambda>(agg, out, acc). out) xs)" "0 \<le> off" "length dst = nat off + length (concat bss)"
  shows "agg_output xs dst = Inr (take (nat off) dst @ concat bss)"
  using assms
proof (induction xs bss arbitrary: off dst rule: list_all2_induct)
  case (Cons x xs bs bss)
  obtain agg out acc where x: "x = (agg, out, acc)" by (cases x)
  have len: "int (length bs) = cm_len out" "agg_finish agg out acc = Inr bs" using Cons.hyps(1) x by simp_all
  have off: "cm_offset out = off" "nat (off + cm_len out) = nat off + length bs" using Cons.prems(1,2) x len(1) by auto
  have ld: "length dst = nat off + (length bs + length (concat bss))" using Cons.prems(3) by simp
  have "agg_output xs (mem_put dst (nat off) bs) = Inr (take (nat (off + cm_len out)) (mem_put dst (nat off) bs) @ concat bss)"
    using Cons.prems x len ld off(2) by (intro Cons.IH) (auto simp: length_mem_put)
  moreover have "take (nat (off + cm_len out)) (mem_put dst (nat off) bs) = take (nat off) dst @ bs"
    using ld off(2) by (simp add: mem_put_def)
  ultimately show ?case using x len(2) off(1) by simp
qed simp

lemma agg_layout_ok:
  assumes "agg_layout ops e aggs off = Inr layout"
  shows "packed_outs off (map snd layout)"
    "list_all2 (\<lambda>agg (col, out). out_col_shape agg col = (cm_type out, cm_len out) \<and>
       (if is_count_star agg then col = zero_col else get_col_offset ops e (agg_col agg) = Inr col)) aggs layout"
  using assms
  by (induction ops e aggs off arbitrary: layout rule: agg_layout.induct)
    (fastforce split: sum.splits prod.splits if_splits)+

text \<open>The executor a constructor call builds delivers the values of its aggregates, one after the
  other.\<close>

lemma AggregateExecutor_ok:
  assumes a: "AggregateExecutor ops prev aggs = Inr a"
    and fine: "\<And>agg col. (agg, col) \<in> set (zip aggs (source_cols a)) \<Longrightarrow> agg_fine agg col rows"
  shows "\<exists>bss. agg_result a rows = Inr (concat bss) \<and> length (concat bss) = ag_len a \<and> length bss = length aggs \<and>
    (\<forall>i < length aggs. agg_spec (aggs ! i) (source_cols a ! i) rows (bss ! i)) \<and> ag_prev a = prev"
proof -
  obtain layout where l: "agg_layout ops prev aggs 0 = Inr layout" and a': "a = \<lparr>ag_prev = prev, aggregates = aggs, ag_cols = map snd layout,
      source_cols = map fst layout, ag_len = nat (sum_list (map (cm_len \<circ> snd) layout)), ag_is_end = True, ag_result = None\<rparr>"
    using a by (auto simp: AggregateExecutor_def split: sum.splits)
  note ly = agg_layout_ok[OF l]
  have n: "length layout = length aggs" using list_all2_lengthD[OF ly(2)] by simp
  have "\<exists>acc bs. agg_fold (aggs ! i) (fst (layout ! i)) rows init_acc = Inr acc \<and> agg_finish (aggs ! i) (snd (layout ! i)) acc = Inr bs \<and>
      agg_spec (aggs ! i) (fst (layout ! i)) rows bs \<and> int (length bs) = cm_len (snd (layout ! i))" if "i < length aggs" for i
  proof (rule agg_one_ok)
    show "agg_fine (aggs ! i) (fst (layout ! i)) rows"
      using that n by (intro fine) (auto simp: a' set_zip intro!: exI[of _ i])
    show "out_col_shape (aggs ! i) (fst (layout ! i)) = (cm_type (snd (layout ! i)), cm_len (snd (layout ! i)))"
      using list_all2_nthD[OF ly(2) that] by (auto split: prod.splits)
  qed
  then obtain facc fbs where f: "\<And>i. i < length aggs \<Longrightarrow> agg_fold (aggs ! i) (fst (layout ! i)) rows init_acc = Inr (facc i)"
    "\<And>i. i < length aggs \<Longrightarrow> agg_finish (aggs ! i) (snd (layout ! i)) (facc i) = Inr (fbs i)"
    "\<And>i. i < length aggs \<Longrightarrow> agg_spec (aggs ! i) (fst (layout ! i)) rows (fbs i)"
    "\<And>i. i < length aggs \<Longrightarrow> int (length (fbs i)) = cm_len (snd (layout ! i))" by metis
  define accs bss where "accs = map facc [0..<length aggs]" and "bss = map fbs [0..<length aggs]"
  have lens: "length accs = length aggs" "length bss = length aggs" by (simp_all add: accs_def bss_def)
  have r: "agg_rows (zip aggs (map fst layout)) rows (map (\<lambda>_. init_acc) aggs) = Inr accs"
    by (rule agg_rows_fold) (simp_all add: n lens f(1) accs_def)
  have "map (\<lambda>bs. int (length bs)) bss = map (cm_len \<circ> snd) layout"
    by (rule nth_equalityI) (simp_all add: n lens f(4) bss_def)
  moreover have "int (length (concat bss)) = sum_list (map (\<lambda>bs. int (length bs)) bss)"
    for bss :: "bytes list" by (induction bss) simp_all
  ultimately have "int (length (concat bss)) = sum_list (map (cm_len \<circ> snd) layout)" by simp
  then have len: "length (concat bss) = ag_len a" by (simp add: a')
  have "list_all2 (\<lambda>(agg, out, acc) bs. agg_finish agg out acc = Inr bs \<and> int (length bs) = cm_len out) (zip aggs (zip (map snd layout) accs)) bss"
    by (auto simp: list_all2_conv_all_nth n lens f(2,4) accs_def bss_def)
  moreover have "map (\<lambda>(agg, out, acc). out) (zip aggs (zip (map snd layout) accs)) = map snd layout"
    by (rule nth_equalityI) (simp_all add: n lens)
  ultimately have "agg_output (zip aggs (zip (map snd layout) accs)) (replicate (ag_len a) 0) = Inr (concat bss)"
    using agg_output_concat[of _ bss 0 "replicate (ag_len a) 0"] ly(1) len by auto
  then have "agg_result a rows = Inr (concat bss)" using r by (simp add: agg_result_def a')
  moreover have "\<forall>i < length aggs. agg_spec (aggs ! i) (source_cols a ! i) rows (bss ! i)" using f(3) n by (simp add: a' bss_def)
  ultimately show ?thesis using len lens(2) by (auto simp: a')
qed

end
