(* ===== verification/LogRecord.thy ===== *)
theory LogRecord
  imports RecordPage DiskManager
begin

text \<open>
  Log records and the log manager (\<open>recovery/log_defs.h\<close>, \<open>recovery/log_manager.h\<close>,
  \<open>recovery/log_manager.cpp\<close>) and the reader of the log (\<open>read_all_logs\<close> and
  \<open>parse_log_record\<close> of \<open>recovery/log_recovery.cpp\<close>), on bytes. The subclasses of \<open>LogRecord\<close>
  are the constructors of \<open>log_body\<close>. What is written is shown to be read back, also when the
  last record of the file is torn.
\<close>

section \<open>Records\<close>

datatype LogType = UPDATE | INSERT | DELETE | begin_log | commit_log | ABORT_log

fun LogType_code :: "LogType \<Rightarrow> int" where
  "LogType_code UPDATE = 0"
| "LogType_code INSERT = 1"
| "LogType_code DELETE = 2"
| "LogType_code begin_log = 3"
| "LogType_code commit_log = 4"
| "LogType_code ABORT_log = 5"

datatype log_body =
    BeginLogRecord
  | CommitLogRecord
  | AbortLogRecord
  | InsertLogRecord (insert_value: bytes) (ins_rid: Rid) (ins_table_name: bytes)
  | DeleteLogRecord (delete_value: bytes) (del_rid: Rid) (del_table_name: bytes)
  | UpdateLogRecord (old_value: bytes) (new_value: bytes) (upd_rid: Rid) (upd_table_name: bytes)

fun log_type :: "log_body \<Rightarrow> LogType" where
  "log_type BeginLogRecord = begin_log"
| "log_type CommitLogRecord = commit_log"
| "log_type AbortLogRecord = ABORT_log"
| "log_type (InsertLogRecord _ _ _) = INSERT"
| "log_type (DeleteLogRecord _ _ _) = DELETE"
| "log_type (UpdateLogRecord _ _ _ _) = UPDATE"

record LogRecord =
  lsn :: lsn_t
  log_tot_len :: int
  log_tid :: txn_id_t
  log_prev_lsn :: lsn_t
  body :: log_body

abbreviation OFFSET_LOG_TYPE :: nat where "OFFSET_LOG_TYPE \<equiv> 0"
abbreviation OFFSET_LSN :: nat where "OFFSET_LSN \<equiv> 4"
abbreviation OFFSET_LOG_TOT_LEN :: nat where "OFFSET_LOG_TOT_LEN \<equiv> 8"
abbreviation OFFSET_LOG_TID :: nat where "OFFSET_LOG_TID \<equiv> 12"
abbreviation OFFSET_PREV_LSN :: nat where "OFFSET_PREV_LSN \<equiv> 16"
abbreviation OFFSET_LOG_DATA :: nat where "OFFSET_LOG_DATA \<equiv> 20"
abbreviation LOG_HEADER_SIZE :: nat where "LOG_HEADER_SIZE \<equiv> 20"

text \<open>The length a constructor computes, and the record it builds: the log sequence numbers are
  filled in later.\<close>

fun body_len :: "log_body \<Rightarrow> nat" where
  "body_len (InsertLogRecord v rid tab) = 4 + length v + 8 + (8 + length tab)"
| "body_len (DeleteLogRecord v rid tab) = 4 + length v + 8 + (8 + length tab)"
| "body_len (UpdateLogRecord v w rid tab) = (4 + length v) + (4 + length w) + 8 + (8 + length tab)"
| "body_len _ = 0"

definition make_log :: "txn_id_t \<Rightarrow> log_body \<Rightarrow> LogRecord" where
  "make_log tid bd =
     \<lparr>lsn = INVALID_LSN, log_tot_len = int (LOG_HEADER_SIZE + body_len bd), log_tid = tid,
      log_prev_lsn = INVALID_LSN, body = bd\<rparr>"

section \<open>Serialisation\<close>

definition rid_bytes :: "Rid \<Rightarrow> bytes" where
  "rid_bytes rid = le_bytes 4 (rid_page_no rid) @ le_bytes 4 (rid_slot_no rid)"

definition value_bytes :: "bytes \<Rightarrow> bytes" where
  "value_bytes v = le_bytes 4 (int (length v)) @ v"

definition name_bytes :: "bytes \<Rightarrow> bytes" where
  "name_bytes tab = le_bytes 8 (int (length tab)) @ tab"

fun serialize_body :: "log_body \<Rightarrow> bytes" where
  "serialize_body (InsertLogRecord v rid tab) = value_bytes v @ rid_bytes rid @ name_bytes tab"
| "serialize_body (DeleteLogRecord v rid tab) = value_bytes v @ rid_bytes rid @ name_bytes tab"
| "serialize_body (UpdateLogRecord v w rid tab) =
     value_bytes v @ value_bytes w @ rid_bytes rid @ name_bytes tab"
| "serialize_body _ = []"

definition serialize :: "LogRecord \<Rightarrow> bytes" where
  "serialize r =
     le_bytes 4 (LogType_code (log_type (body r))) @ le_bytes 4 (lsn r) @ le_bytes 4 (log_tot_len r) @
     le_bytes 4 (log_tid r) @ le_bytes 4 (log_prev_lsn r) @ serialize_body (body r)"

section \<open>Parsing\<close>

definition read_int :: "bytes \<Rightarrow> nat \<Rightarrow> int" where
  "read_int src off = le_sint (mem_get src off 4)"

text \<open>\<open>RmRecord::Deserialize\<close>, a record identifier and a table name read at an offset.\<close>

definition Deserialize :: "bytes \<Rightarrow> nat \<Rightarrow> bytes" where
  "Deserialize src off = mem_get src (off + 4) (nat (read_int src off))"

definition read_rid :: "bytes \<Rightarrow> nat \<Rightarrow> Rid" where
  "read_rid src off = Rid (read_int src off) (read_int src (off + 4))"

definition read_name :: "bytes \<Rightarrow> nat \<Rightarrow> bytes" where
  "read_name src off = mem_get src (off + 8) (nat (le_uint (mem_get src off 8)))"

definition deserialize_body :: "LogType \<Rightarrow> bytes \<Rightarrow> log_body" where
  "deserialize_body ty src =
     (case ty of
        begin_log \<Rightarrow> BeginLogRecord
      | commit_log \<Rightarrow> CommitLogRecord
      | ABORT_log \<Rightarrow> AbortLogRecord
      | INSERT \<Rightarrow>
          let v = Deserialize src OFFSET_LOG_DATA; off = OFFSET_LOG_DATA + length v + 4
          in InsertLogRecord v (read_rid src off) (read_name src (off + 8))
      | DELETE \<Rightarrow>
          let v = Deserialize src OFFSET_LOG_DATA; off = OFFSET_LOG_DATA + 4 + length v
          in DeleteLogRecord v (read_rid src off) (read_name src (off + 8))
      | UPDATE \<Rightarrow>
          let v = Deserialize src OFFSET_LOG_DATA; off = OFFSET_LOG_DATA + (4 + length v);
              w = Deserialize src off; off' = off + (4 + length w)
          in UpdateLogRecord v w (read_rid src off') (read_name src (off' + 8)))"

definition LogType_of_code :: "int \<Rightarrow> LogType option" where
  "LogType_of_code c = map_of [(0, UPDATE), (1, INSERT), (2, DELETE), (3, begin_log), (4, commit_log), (5, ABORT_log)] c"

definition parse_log_record :: "bytes \<Rightarrow> LogRecord option" where
  "parse_log_record data =
     (case LogType_of_code (read_int data OFFSET_LOG_TYPE) of
        None \<Rightarrow> None
      | Some ty \<Rightarrow>
          Some \<lparr>lsn = read_int data OFFSET_LSN, log_tot_len = le_uint (mem_get data OFFSET_LOG_TOT_LEN 4),
                log_tid = read_int data OFFSET_LOG_TID, log_prev_lsn = read_int data OFFSET_PREV_LSN,
                body = deserialize_body ty data\<rparr>)"

text \<open>The loop of \<open>read_all_logs\<close> over the bytes read; \<open>data\<close> is what follows the offset. A
  length field of \<open>2 ^ 31\<close> or more, which no log manager writes, becomes negative in the cast to
  \<open>int\<close> and would move the offset before the buffer, which C++ leaves undefined; the model ends
  there.\<close>

function read_logs :: "bytes \<Rightarrow> LogRecord list" where
  "read_logs data =
     (if LOG_HEADER_SIZE \<le> length data
      then
        let log_len = le_uint (mem_get data OFFSET_LOG_TOT_LEN 4) in
        if log_len < int LOG_HEADER_SIZE \<or> int (length data) < log_len then []
        else case parse_log_record data of
               None \<Rightarrow> []
             | Some r \<Rightarrow> r # read_logs (drop (nat log_len) data)
      else [])"
  by pat_completeness auto
termination
  by (relation "measure length") auto

declare read_logs.simps [simp del]

definition read_all_logs :: "int \<Rightarrow> (disk_manager, LogRecord list) comp" where
  "read_all_logs ofd =
     bindE (getE (\<lambda>d. get_file_size d LOG_FILE_NAME)) (\<lambda>file_size.
       if file_size \<le> 0 then returnE []
       else
         bindE (read_log ofd file_size 0) (\<lambda>(read_size, got).
           returnE (if 0 < read_size then read_logs (take (nat read_size) got) else [])))"

section \<open>Round trips\<close>

text \<open>A record as the constructors build it, with fields in the range of their C types.\<close>

fun body_wf :: "log_body \<Rightarrow> bool" where
  "body_wf (InsertLogRecord v rid tab) \<longleftrightarrow> int (length v) < 2 ^ 31 \<and> int32 (rid_page_no rid) \<and> int32 (rid_slot_no rid)"
| "body_wf (DeleteLogRecord v rid tab) \<longleftrightarrow> int (length v) < 2 ^ 31 \<and> int32 (rid_page_no rid) \<and> int32 (rid_slot_no rid)"
| "body_wf (UpdateLogRecord v w rid tab) \<longleftrightarrow> int (length v) < 2 ^ 31 \<and> int (length w) < 2 ^ 31 \<and>
     int32 (rid_page_no rid) \<and> int32 (rid_slot_no rid)"
| "body_wf _ \<longleftrightarrow> True"

definition log_wf :: "LogRecord \<Rightarrow> bool" where
  "log_wf r \<longleftrightarrow> int32 (lsn r) \<and> int32 (log_tid r) \<and> int32 (log_prev_lsn r) \<and> body_wf (body r) \<and>
     log_tot_len r = int (LOG_HEADER_SIZE + body_len (body r)) \<and> log_tot_len r < 2 ^ 31"

lemma length_serialize: "length (serialize r) = LOG_HEADER_SIZE + body_len (body r)"
  by (cases "body r") (simp_all add: serialize_def value_bytes_def rid_bytes_def name_bytes_def)

lemma mem_get_append: "length xs = off \<Longrightarrow> mem_get (xs @ ys) (off + k) n = mem_get ys k n"
  by (simp add: mem_get_def)

lemma mem_get_prefix: "length xs = n \<Longrightarrow> mem_get (xs @ ys) 0 n = xs"
  by (simp add: mem_get_def)

lemma mem_get_skip:
  "length xs = off \<Longrightarrow> mem_get (xs @ ys) off n = mem_get ys 0 n"
  using mem_get_append[of xs off ys 0 n] by simp

lemma read_parts:
  assumes "length pre = off"
  shows "int32 x \<Longrightarrow> read_int (pre @ le_bytes 4 x @ ys) off = x"
    "int (length v) < 2 ^ 31 \<Longrightarrow> Deserialize (pre @ value_bytes v @ ys) off = v"
    "int32 (rid_page_no rid) \<Longrightarrow> int32 (rid_slot_no rid) \<Longrightarrow> read_rid (pre @ rid_bytes rid @ ys) off = rid"
    "int (length tab) < 2 ^ 31 \<Longrightarrow> read_name (pre @ name_bytes tab @ ys) off = tab"
proof -
  show i: "read_int (pre @ le_bytes 4 x @ ys) off = x" if "int32 x" for x ys
    using that by (simp add: read_int_def mem_get_skip[OF assms] mem_get_prefix)
  show "Deserialize (pre @ value_bytes v @ ys) off = v" if "int (length v) < 2 ^ 31"
  proof -
    have "read_int (pre @ le_bytes 4 (int (length v)) @ (v @ ys)) off = int (length v)"
      using that by (intro i) (simp add: int32_def)
    then show ?thesis
      using mem_get_append[OF assms, of "le_bytes 4 (int (length v)) @ v @ ys" 4 "length v"]
      by (simp add: Deserialize_def value_bytes_def mem_get_skip mem_get_prefix)
  qed
  show "read_rid (pre @ rid_bytes rid @ ys) off = rid" if "int32 (rid_page_no rid)" "int32 (rid_slot_no rid)"
  proof -
    have a: "read_int (pre @ le_bytes 4 (rid_page_no rid) @ (le_bytes 4 (rid_slot_no rid) @ ys)) off = rid_page_no rid"
      by (rule i[OF that(1)])
    have "mem_get (pre @ le_bytes 4 (rid_page_no rid) @ le_bytes 4 (rid_slot_no rid) @ ys) (off + 4) 4 = le_bytes 4 (rid_slot_no rid)"
      using mem_get_append[OF assms, of "le_bytes 4 (rid_page_no rid) @ le_bytes 4 (rid_slot_no rid) @ ys" 4 4]
      by (simp add: mem_get_skip mem_get_prefix)
    with a that(2) show ?thesis by (simp add: read_rid_def rid_bytes_def read_int_def)
  qed
  show "read_name (pre @ name_bytes tab @ ys) off = tab" if "int (length tab) < 2 ^ 31"
  proof -
    have "le_uint (le_bytes 8 (int (length tab))) = int (length tab)" using that by (intro le_uint_nonneg) auto
    then show ?thesis
      using mem_get_append[OF assms, of "le_bytes 8 (int (length tab)) @ tab @ ys" 8 "length tab"]
      by (simp add: read_name_def name_bytes_def mem_get_skip[OF assms] mem_get_skip mem_get_prefix)
  qed
qed

lemma LogType_code_inv [simp]: "LogType_of_code (LogType_code ty) = Some ty"
  by (cases ty) (simp_all add: LogType_of_code_def)

lemma body_roundtrip:
  assumes "length hdr = LOG_HEADER_SIZE" "body_wf bd" "int (body_len bd) < 2 ^ 31"
  shows "deserialize_body (log_type bd) (hdr @ serialize_body bd @ ys) = bd"
proof (cases bd)
  case (InsertLogRecord v rid tab)
  let ?src = "hdr @ value_bytes v @ rid_bytes rid @ name_bytes tab @ ys"
  have v: "Deserialize ?src LOG_HEADER_SIZE = v"
    using assms InsertLogRecord by (intro read_parts(2)) auto
  have "read_rid ((hdr @ value_bytes v) @ rid_bytes rid @ (name_bytes tab @ ys)) (LOG_HEADER_SIZE + length v + 4) = rid"
    using assms InsertLogRecord by (intro read_parts(3)) (auto simp: value_bytes_def)
  moreover have "read_name ((hdr @ value_bytes v @ rid_bytes rid) @ name_bytes tab @ ys) (LOG_HEADER_SIZE + length v + 4 + 8) = tab"
    using assms InsertLogRecord by (intro read_parts(4)) (auto simp: value_bytes_def rid_bytes_def)
  ultimately show ?thesis using InsertLogRecord v by (simp add: deserialize_body_def Let_def)
next
  case (DeleteLogRecord v rid tab)
  let ?src = "hdr @ value_bytes v @ rid_bytes rid @ name_bytes tab @ ys"
  have v: "Deserialize ?src LOG_HEADER_SIZE = v"
    using assms DeleteLogRecord by (intro read_parts(2)) auto
  have "read_rid ((hdr @ value_bytes v) @ rid_bytes rid @ (name_bytes tab @ ys)) (LOG_HEADER_SIZE + 4 + length v) = rid"
    using assms DeleteLogRecord by (intro read_parts(3)) (auto simp: value_bytes_def)
  moreover have "read_name ((hdr @ value_bytes v @ rid_bytes rid) @ name_bytes tab @ ys) (LOG_HEADER_SIZE + 4 + length v + 8) = tab"
    using assms DeleteLogRecord by (intro read_parts(4)) (auto simp: value_bytes_def rid_bytes_def)
  ultimately show ?thesis using DeleteLogRecord v by (simp add: deserialize_body_def Let_def)
next
  case (UpdateLogRecord v w rid tab)
  let ?src = "hdr @ value_bytes v @ value_bytes w @ rid_bytes rid @ name_bytes tab @ ys"
  have v: "Deserialize ?src LOG_HEADER_SIZE = v"
    using assms UpdateLogRecord by (intro read_parts(2)) auto
  have "Deserialize ((hdr @ value_bytes v) @ value_bytes w @ (rid_bytes rid @ name_bytes tab @ ys)) (LOG_HEADER_SIZE + (4 + length v)) = w"
    using assms UpdateLogRecord by (intro read_parts(2)) (auto simp: value_bytes_def)
  moreover have "read_rid ((hdr @ value_bytes v @ value_bytes w) @ rid_bytes rid @ (name_bytes tab @ ys))
      (LOG_HEADER_SIZE + (4 + length v) + (4 + length w)) = rid"
    using assms UpdateLogRecord by (intro read_parts(3)) (auto simp: value_bytes_def)
  moreover have "read_name ((hdr @ value_bytes v @ value_bytes w @ rid_bytes rid) @ name_bytes tab @ ys)
      (LOG_HEADER_SIZE + (4 + length v) + (4 + length w) + 8) = tab"
    using assms UpdateLogRecord by (intro read_parts(4)) (auto simp: value_bytes_def rid_bytes_def)
  ultimately show ?thesis using UpdateLogRecord v by (simp add: deserialize_body_def Let_def)
qed (simp_all add: deserialize_body_def)


lemma serialize_split:
  "serialize r @ ys =
     (le_bytes 4 (LogType_code (log_type (body r))) @ le_bytes 4 (lsn r) @ le_bytes 4 (log_tot_len r) @
      le_bytes 4 (log_tid r) @ le_bytes 4 (log_prev_lsn r)) @ serialize_body (body r) @ ys"
  by (simp add: serialize_def)

lemma LogType_code_int32: "int32 (LogType_code ty)"
  by (cases ty) (simp_all add: int32_def)

lemma header_fields:
  assumes "log_wf r"
  shows "read_int (serialize r @ ys) OFFSET_LOG_TYPE = LogType_code (log_type (body r))"
    "read_int (serialize r @ ys) OFFSET_LSN = lsn r"
    "le_uint (mem_get (serialize r @ ys) OFFSET_LOG_TOT_LEN 4) = log_tot_len r"
    "read_int (serialize r @ ys) OFFSET_LOG_TID = log_tid r"
    "read_int (serialize r @ ys) OFFSET_PREV_LSN = log_prev_lsn r"
proof -
  let ?t = "le_bytes 4 (LogType_code (log_type (body r)))" and ?l = "le_bytes 4 (lsn r)"
    and ?n = "le_bytes 4 (log_tot_len r)" and ?i = "le_bytes 4 (log_tid r)" and ?p = "le_bytes 4 (log_prev_lsn r)"
  note w = assms[unfolded log_wf_def]
  have "read_int ([] @ ?t @ (?l @ ?n @ ?i @ ?p @ serialize_body (body r) @ ys)) 0 = LogType_code (log_type (body r))"
    by (rule read_parts(1)) (simp_all add: LogType_code_int32)
  then show "read_int (serialize r @ ys) OFFSET_LOG_TYPE = LogType_code (log_type (body r))" by (simp add: serialize_def)
  have "read_int (?t @ ?l @ (?n @ ?i @ ?p @ serialize_body (body r) @ ys)) 4 = lsn r"
    using w by (intro read_parts(1)) simp_all
  then show "read_int (serialize r @ ys) OFFSET_LSN = lsn r" by (simp add: serialize_def)
  have "mem_get ((?t @ ?l) @ ?n @ (?i @ ?p @ serialize_body (body r) @ ys)) 8 4 = ?n"
    using mem_get_append[of "?t @ ?l" 8 "?n @ (?i @ ?p @ serialize_body (body r) @ ys)" 0 4] by (simp add: mem_get_prefix)
  then have "mem_get (serialize r @ ys) OFFSET_LOG_TOT_LEN 4 = ?n" by (simp add: serialize_def)
  moreover have "le_uint ?n = log_tot_len r" using w by (intro le_uint_nonneg) auto
  ultimately show "le_uint (mem_get (serialize r @ ys) OFFSET_LOG_TOT_LEN 4) = log_tot_len r" by simp
  have "read_int ((?t @ ?l @ ?n) @ ?i @ (?p @ serialize_body (body r) @ ys)) 12 = log_tid r"
    using w by (intro read_parts(1)) simp_all
  then show "read_int (serialize r @ ys) OFFSET_LOG_TID = log_tid r" by (simp add: serialize_def)
  have "read_int ((?t @ ?l @ ?n @ ?i) @ ?p @ (serialize_body (body r) @ ys)) 16 = log_prev_lsn r"
    using w by (intro read_parts(1)) simp_all
  then show "read_int (serialize r @ ys) OFFSET_PREV_LSN = log_prev_lsn r" by (simp add: serialize_def)
qed

lemma parse_serialize:
  assumes "log_wf r"
  shows "parse_log_record (serialize r @ ys) = Some r"
proof -
  have "deserialize_body (log_type (body r)) (serialize r @ ys) = body r"
    unfolding serialize_split using assms by (intro body_roundtrip) (auto simp: log_wf_def)
  with header_fields[OF assms, of ys] show ?thesis by (simp add: parse_log_record_def)
qed

lemma read_logs_cons:
  assumes "log_wf r"
  shows "read_logs (serialize r @ ys) = r # read_logs ys"
proof -
  have "int (length (serialize r)) = log_tot_len r" using assms by (simp add: length_serialize log_wf_def)
  then have "nat (log_tot_len r) = length (serialize r)" "int LOG_HEADER_SIZE \<le> log_tot_len r"
    "log_tot_len r \<le> int (length (serialize r @ ys))"
    using length_serialize[of r] by simp_all
  moreover have "LOG_HEADER_SIZE \<le> length (serialize r @ ys)" using length_serialize[of r] by simp
  ultimately show ?thesis
    by (subst read_logs.simps) (simp add: header_fields[OF assms] parse_serialize[OF assms] Let_def)
qed

text \<open>A proper prefix of a record, what a crash in the middle of a write leaves, is not read.\<close>

lemma read_logs_torn:
  assumes "log_wf r" "n < length (serialize r)"
  shows "read_logs (take n (serialize r)) = []"
proof (cases "LOG_HEADER_SIZE \<le> n")
  case False
  then show ?thesis by (subst read_logs.simps) (simp add: length_serialize)
next
  case True
  have "mem_get (take n (serialize r)) OFFSET_LOG_TOT_LEN 4 = mem_get (serialize r) OFFSET_LOG_TOT_LEN 4"
    using True by (simp add: mem_get_def drop_take)
  with header_fields(3)[OF assms(1), of "[]"] have "le_uint (mem_get (take n (serialize r)) OFFSET_LOG_TOT_LEN 4) = log_tot_len r"
    by simp
  moreover have "int n < log_tot_len r" using assms length_serialize[of r] by (simp add: log_wf_def)
  ultimately show ?thesis using assms(2) by (subst read_logs.simps) (simp add: Let_def)
qed

lemma read_logs_complete:
  "list_all log_wf rs \<Longrightarrow> read_logs (concat (map serialize rs) @ ys) = rs @ read_logs ys"
  by (induction rs) (simp_all add: read_logs_cons)

definition demo_log :: "LogRecord list" where
  "demo_log = [(make_log 7 BeginLogRecord)\<lparr>lsn := 0\<rparr>,
     (make_log 7 (UpdateLogRecord [1, 2] [3, 4] (Rid 1 5) [116]))\<lparr>lsn := 1, log_prev_lsn := 0\<rparr>]"

lemma demo_log_wf: "list_all log_wf demo_log" "log_wf (make_log 7 CommitLogRecord)"
  by (simp_all add: demo_log_def make_log_def log_wf_def int32_def)

text \<open>Property C22: reading the log back gives exactly the records that were serialised, in order; a
  last record of which only a part reached the file is left out.\<close>

theorem log_roundtrip_torn:
  assumes "list_all log_wf rs" "log_wf r" "n < length (serialize r)"
  shows "read_logs (concat (map serialize rs) @ take n (serialize r)) = rs"
  using assms by (simp add: read_logs_complete read_logs_torn)

theorem log_roundtrip_torn_witness:
  "read_logs (concat (map serialize demo_log) @ take 19 (serialize (make_log 7 CommitLogRecord))) = demo_log"
  by (rule log_roundtrip_torn) (use demo_log_wf in \<open>simp_all add: length_serialize make_log_def\<close>)

end
