(* ===== verification/LogManager.thy ===== *)
theory LogManager
  imports LogRecord
begin

text \<open>
  The log manager (\<open>recovery/log_manager.h\<close>, \<open>recovery/log_manager.cpp\<close>): the log buffer, the
  numbering of records and the writes to the log file. The disk manager it points to is the second
  part of the state. The latch makes each call atomic.
\<close>

section \<open>State and operations\<close>

abbreviation LOG_BUFFER_SIZE :: nat where "LOG_BUFFER_SIZE \<equiv> 4194304"

record log_buffer =
  lb_buffer :: bytes
  lb_offset :: nat

record log_manager =
  global_lsn :: lsn_t
  log_buf :: log_buffer
  persist_lsn :: lsn_t

type_synonym log_state = "log_manager \<times> disk_manager"

definition zeroed_buffer :: bytes where
  "zeroed_buffer = replicate (LOG_BUFFER_SIZE + 1) 0"

definition LogBuffer :: log_buffer where
  "LogBuffer = \<lparr>lb_buffer = zeroed_buffer, lb_offset = 0\<rparr>"

definition is_full :: "int \<Rightarrow> log_buffer \<Rightarrow> bool" where
  "is_full append_size lb \<longleftrightarrow> int LOG_BUFFER_SIZE < int (lb_offset lb) + append_size"

definition LogManager :: log_manager where
  "LogManager = \<lparr>global_lsn = 0, log_buf = LogBuffer, persist_lsn = INVALID_LSN\<rparr>"

text \<open>Writing the used part of the buffer to the log file.\<close>

definition write_buffer :: "int \<Rightarrow> (log_state, unit) comp" where
  "write_buffer ofd s =
     (case write_log ofd (lb_buffer (log_buf (fst s))) (lb_offset (log_buf (fst s))) (snd s) of
        (r, d) \<Rightarrow> (r, (fst s, d)))"

definition edit_log :: "(log_manager \<Rightarrow> log_manager) \<Rightarrow> (log_state, unit) comp" where
  "edit_log g = modifyE (\<lambda>(lm, d). (g lm, d))"

definition clear_buffer :: "log_manager \<Rightarrow> log_manager" where
  "clear_buffer lm = lm\<lparr>log_buf := \<lparr>lb_buffer = zeroed_buffer, lb_offset = 0\<rparr>\<rparr>"

definition put_record :: "LogRecord \<Rightarrow> log_manager \<Rightarrow> log_manager" where
  "put_record r lm =
     lm\<lparr>log_buf := \<lparr>lb_buffer = mem_put (lb_buffer (log_buf lm)) (lb_offset (log_buf lm)) (serialize r),
                   lb_offset = lb_offset (log_buf lm) + nat (log_tot_len r)\<rparr>\<rparr>"

definition add_log_to_buffer :: "int \<Rightarrow> LogRecord option \<Rightarrow> (log_state, lsn_t) comp" where
  "add_log_to_buffer ofd log_record =
     (case log_record of
        None \<Rightarrow> returnE INVALID_LSN
      | Some r \<Rightarrow>
          bindE (getE (\<lambda>s. is_full (log_tot_len r) (log_buf (fst s)))) (\<lambda>full.
            thenE
              (if full
               then thenE (write_buffer ofd)
                      (thenE
                        (if lsn r \<noteq> INVALID_LSN then edit_log (\<lambda>lm. lm\<lparr>persist_lsn := lsn r - 1\<rparr>)
                         else returnE ())
                        (edit_log clear_buffer))
               else returnE ())
              (bindE (getE (\<lambda>s. global_lsn (fst s))) (\<lambda>n.
                thenE (edit_log (\<lambda>lm. lm\<lparr>global_lsn := n + 1\<rparr>))
                  (thenE (edit_log (put_record (r\<lparr>lsn := n\<rparr>))) (returnE n))))))"

text \<open>The loop of \<open>flush_log_to_disk\<close> over the used part of the buffer; \<open>data\<close> is what follows
  the offset.\<close>

function find_last_lsn :: "bytes \<Rightarrow> lsn_t \<Rightarrow> lsn_t" where
  "find_last_lsn data last_lsn =
     (if LOG_HEADER_SIZE \<le> length data
      then
        let log_len = le_uint (mem_get data OFFSET_LOG_TOT_LEN 4) in
        if log_len = 0 \<or> int (length data) < log_len then last_lsn
        else find_last_lsn (drop (nat log_len) data) (read_int data OFFSET_LSN)
      else last_lsn)"
  by pat_completeness auto
termination
proof (relation "measure (length \<circ> fst)", simp, goal_cases)
  case (1 data last_lsn x)
  then have "0 < x" using le_uint_bounds[of "mem_get data 8 4"] by linarith
  with 1 show ?case by simp
qed

declare find_last_lsn.simps [simp del]

definition flush_log_to_disk :: "int \<Rightarrow> (log_state, unit) comp" where
  "flush_log_to_disk ofd =
     bindE (getE (\<lambda>s. log_buf (fst s))) (\<lambda>lb.
       if lb_offset lb = 0 then returnE ()
       else
         let last_lsn = find_last_lsn (take (lb_offset lb) (lb_buffer lb)) (read_int (lb_buffer lb) OFFSET_LSN) in
         thenE (write_buffer ofd)
           (thenE (edit_log (\<lambda>lm. lm\<lparr>persist_lsn := last_lsn\<rparr>)) (edit_log clear_buffer)))"

section \<open>The log as a sequence of records\<close>

text \<open>\<open>old\<close> are the records in the log file, \<open>pend\<close> those still in the buffer.\<close>

definition log_open :: "disk_manager \<Rightarrow> bool" where
  "log_open d \<longleftrightarrow> dm_inv d \<and> log_fd d \<noteq> -1 \<and> fd2path d (log_fd d) = Some LOG_FILE_NAME"

definition log_rel :: "log_state \<Rightarrow> LogRecord list \<Rightarrow> LogRecord list \<Rightarrow> bool" where
  "log_rel s old pend \<longleftrightarrow> log_open (snd s) \<and>
     os_files (dm_os (snd s)) LOG_FILE_NAME = Some (concat (map serialize old)) \<and>
     length (lb_buffer (log_buf (fst s))) = LOG_BUFFER_SIZE + 1 \<and>
     lb_offset (log_buf (fst s)) = length (concat (map serialize pend)) \<and>
     lb_offset (log_buf (fst s)) \<le> LOG_BUFFER_SIZE \<and>
     take (length (concat (map serialize pend))) (lb_buffer (log_buf (fst s))) = concat (map serialize pend) \<and>
     list_all log_wf old \<and> list_all log_wf pend"

lemma write_buffer_rel:
  assumes "log_rel s old pend"
  obtains d where "write_buffer ofd s = (Inr (), (fst s, d))" "log_open d"
    "os_files (dm_os d) = (os_files (dm_os (snd s)))(LOG_FILE_NAME \<mapsto> concat (map serialize (old @ pend)))"
proof -
  let ?lb = "log_buf (fst s)"
  have o: "dm_inv (snd s)" "fd2path (snd s) (log_fd (snd s)) = Some LOG_FILE_NAME" "log_fd (snd s) \<noteq> -1"
    "os_files (dm_os (snd s)) LOG_FILE_NAME = Some (concat (map serialize old))"
    "lb_offset ?lb \<le> length (lb_buffer ?lb)"
    using assms by (simp_all add: log_rel_def log_open_def)
  from write_log_appends[OF o] obtain d where d: "write_log ofd (lb_buffer ?lb) (lb_offset ?lb) (snd s) = (Inr (), d)"
    "dm_inv d" "os_files (dm_os d) = (os_files (dm_os (snd s)))(LOG_FILE_NAME \<mapsto>
        concat (map serialize old) @ take (lb_offset ?lb) (lb_buffer ?lb))"
    "fd2path d = fd2path (snd s)" "log_fd d = log_fd (snd s)" by blast
  show thesis
  proof (rule that)
    show "write_buffer ofd s = (Inr (), (fst s, d))" using d(1) by (simp add: write_buffer_def)
    show "log_open d" using d o by (simp add: log_open_def)
    show "os_files (dm_os d) = (os_files (dm_os (snd s)))(LOG_FILE_NAME \<mapsto> concat (map serialize (old @ pend)))"
      unfolding d(3) using assms by (auto simp: log_rel_def)
  qed
qed

lemma global_lsn_clear [simp]: "global_lsn (clear_buffer lm) = global_lsn lm"
  by (simp add: clear_buffer_def)

lemma clear_buffer_rel:
  assumes "log_open d" "os_files (dm_os d) LOG_FILE_NAME = Some (concat (map serialize old))" "list_all log_wf old"
  shows "log_rel (clear_buffer lm, d) old []"
  using assms by (simp add: log_rel_def clear_buffer_def zeroed_buffer_def)

lemma put_record_rel:
  assumes "log_rel (lm, d) old pend" "log_wf r" "lb_offset (log_buf lm) + length (serialize r) \<le> LOG_BUFFER_SIZE"
  shows "log_rel (put_record r lm, d) old (pend @ [r])"
proof -
  have "nat (log_tot_len r) = length (serialize r)" using assms(2) by (simp add: length_serialize log_wf_def)
  moreover have "take (lb_offset (log_buf lm) + length (serialize r))
      (mem_put (lb_buffer (log_buf lm)) (lb_offset (log_buf lm)) (serialize r)) =
      take (lb_offset (log_buf lm)) (lb_buffer (log_buf lm)) @ serialize r"
    using assms by (simp add: mem_put_def log_rel_def)
  ultimately show ?thesis using assms by (simp add: log_rel_def put_record_def length_mem_put)
qed

lemma add_log_rel:
  assumes rel: "log_rel s old pend" and wf: "log_wf (r\<lparr>lsn := global_lsn (fst s)\<rparr>)"
    and fits: "log_tot_len r \<le> int LOG_BUFFER_SIZE"
  shows "\<exists>s' old' pend'. add_log_to_buffer ofd (Some r) s = (Inr (global_lsn (fst s)), s') \<and>
    log_rel s' old' pend' \<and> old' @ pend' = old @ pend @ [r\<lparr>lsn := global_lsn (fst s)\<rparr>] \<and>
    (\<exists>xs. old' = old @ xs) \<and> pend' \<noteq> [] \<and> last pend' = r\<lparr>lsn := global_lsn (fst s)\<rparr> \<and>
    global_lsn (fst s') = global_lsn (fst s) + 1 \<and> (\<forall>f. f \<noteq> LOG_FILE_NAME \<longrightarrow> os_files (dm_os (snd s')) f = os_files (dm_os (snd s)) f)"
proof -
  let ?n = "global_lsn (fst s)" let ?r = "r\<lparr>lsn := ?n\<rparr>"
  obtain lm d where s: "s = (lm, d)" by fastforce
  have len: "int (length (serialize ?r)) = log_tot_len r" "length (serialize ?r) \<le> LOG_BUFFER_SIZE"
    using wf fits by (simp_all add: length_serialize log_wf_def)
  have put: "log_rel (put_record ?r (lm\<lparr>global_lsn := ?n + 1\<rparr>), d) old (pend @ [?r])"
    if "log_rel (lm, d) old pend" "lb_offset (log_buf lm) + length (serialize ?r) \<le> LOG_BUFFER_SIZE" for lm d old pend
    using that wf by (intro put_record_rel) (auto simp: log_rel_def)
  show ?thesis
  proof (cases "is_full (log_tot_len r) (log_buf lm)")
    case False
    then have "lb_offset (log_buf lm) + length (serialize ?r) \<le> LOG_BUFFER_SIZE"
      using len by (simp add: is_full_def)
    from put[OF rel[unfolded s] this] False s show ?thesis
      by (intro exI[of _ "(put_record ?r (lm\<lparr>global_lsn := ?n + 1\<rparr>), d)"] exI[of _ old] exI[of _ "pend @ [?r]"])
        (simp add: add_log_to_buffer_def edit_log_def put_record_def)
  next
    case True
    obtain d' where w: "write_buffer ofd s = (Inr (), (fst s, d'))" "log_open d'"
      "os_files (dm_os d') = (os_files (dm_os (snd s)))(LOG_FILE_NAME \<mapsto> concat (map serialize (old @ pend)))"
      using write_buffer_rel[OF rel] by metis
    define lm1 where "lm1 = clear_buffer (if lsn r \<noteq> INVALID_LSN then lm\<lparr>persist_lsn := lsn r - 1\<rparr> else lm)"
    have "log_rel (lm1, d') (old @ pend) []"
      unfolding lm1_def using w rel by (intro clear_buffer_rel) (auto simp: log_rel_def)
    moreover have o: "lb_offset (log_buf lm1) = 0" "global_lsn lm1 = ?n" by (simp_all add: lm1_def clear_buffer_def s)
    ultimately have "log_rel (put_record ?r (lm1\<lparr>global_lsn := ?n + 1\<rparr>), d') (old @ pend) [?r]"
      using put[of lm1 d' "old @ pend" "[]"] len by simp
    moreover have "add_log_to_buffer ofd (Some r) s = (Inr ?n, (put_record ?r (lm1\<lparr>global_lsn := ?n + 1\<rparr>), d'))"
      using True w(1) o(2) s unfolding lm1_def
      by (simp add: add_log_to_buffer_def edit_log_def thenE_def bindE_def)
    ultimately show ?thesis using w(3) by (force simp: put_record_def)
  qed
qed

lemma find_last_lsn_spec:
  "list_all log_wf rs \<Longrightarrow> find_last_lsn (concat (map serialize rs)) x = (if rs = [] then x else lsn (last rs))"
proof (induction rs arbitrary: x)
  case Nil
  show ?case by (subst find_last_lsn.simps) simp
next
  case (Cons r rs)
  let ?ys = "concat (map serialize rs)"
  have wf: "log_wf r" using Cons.prems by simp
  have "int (length (serialize r)) = log_tot_len r" using wf by (simp add: length_serialize log_wf_def)
  then have n: "nat (log_tot_len r) = length (serialize r)" "log_tot_len r \<noteq> 0"
    "log_tot_len r \<le> int (length (serialize r @ ?ys))"
    using length_serialize[of r] by auto
  have "LOG_HEADER_SIZE \<le> length (serialize r @ ?ys)" using length_serialize[of r] by simp
  with n have "find_last_lsn (serialize r @ ?ys) x = find_last_lsn ?ys (lsn r)"
    by (subst find_last_lsn.simps) (simp add: header_fields[OF wf] Let_def)
  with Cons show ?case by simp
qed

lemma flush_log_rel:
  assumes rel: "log_rel s old pend"
  shows "\<exists>s'. flush_log_to_disk ofd s = (Inr (), s') \<and> log_rel s' (old @ pend) [] \<and>
    global_lsn (fst s') = global_lsn (fst s) \<and>
    persist_lsn (fst s') = (if pend = [] then persist_lsn (fst s) else lsn (last pend)) \<and>
    (\<forall>f. f \<noteq> LOG_FILE_NAME \<longrightarrow> os_files (dm_os (snd s')) f = os_files (dm_os (snd s)) f)"
proof (cases "pend = []")
  case True
  with rel show ?thesis by (auto simp: flush_log_to_disk_def log_rel_def)
next
  case False
  then obtain r rs where pend: "pend = r # rs" by (cases pend) auto
  obtain d' where w: "write_buffer ofd s = (Inr (), (fst s, d'))" "log_open d'"
    "os_files (dm_os d') = (os_files (dm_os (snd s)))(LOG_FILE_NAME \<mapsto> concat (map serialize (old @ pend)))"
    using write_buffer_rel[OF rel] by metis
  have "lb_offset (log_buf (fst s)) \<noteq> 0" using rel pend length_serialize[of r] by (simp add: log_rel_def)
  moreover have "find_last_lsn (take (lb_offset (log_buf (fst s))) (lb_buffer (log_buf (fst s)))) x = lsn (last pend)" for x
    using rel False by (simp add: log_rel_def find_last_lsn_spec)
  ultimately have "flush_log_to_disk ofd s = (Inr (), (clear_buffer ((fst s)\<lparr>persist_lsn := lsn (last pend)\<rparr>), d'))"
    using w(1) by (simp add: flush_log_to_disk_def edit_log_def thenE_def bindE_def Let_def)
  moreover have "log_rel (clear_buffer ((fst s)\<lparr>persist_lsn := lsn (last pend)\<rparr>), d') (old @ pend) []"
    using w rel by (intro clear_buffer_rel) (auto simp: log_rel_def)
  ultimately show ?thesis using w(3) False by (simp add: clear_buffer_def)
qed

lemma read_all_logs_rel:
  assumes "log_rel s old pend"
  shows "read_all_logs ofd (snd s) = (Inr old, snd s)"
proof -
  let ?d = "snd s" and ?c = "concat (map serialize old)"
  have o: "dm_inv ?d" "fd2path ?d (log_fd ?d) = Some LOG_FILE_NAME" "log_fd ?d \<noteq> -1"
    "os_files (dm_os ?d) LOG_FILE_NAME = Some ?c" "list_all log_wf old"
    using assms by (simp_all add: log_rel_def log_open_def)
  have "os_fds (dm_os ?d) (log_fd ?d) = Some LOG_FILE_NAME" using o(1,2) by (simp add: dm_inv_def)
  then have c: "os_content (dm_os ?d) (log_fd ?d) = Some ?c" using o(4) by (simp add: os_content_def)
  have size: "get_file_size ?d LOG_FILE_NAME = int (length ?c)" using o(4) by (simp add: get_file_size_def)
  show ?thesis
  proof (cases old)
    case Nil
    with size show ?thesis by (simp add: read_all_logs_def)
  next
    case (Cons r rs)
    then have pos: "0 < length ?c" using length_serialize[of r] by simp
    have "read_log ofd (int (length ?c)) 0 ?d = (Inr (int (length ?c), ?c), ?d)"
      using pos c o(3) size
      by (simp add: read_log_def ensure_log_fd_def thenE_def bindE_def os_read_def mem_get_def Let_def assertE_def)
    then have "read_all_logs ofd ?d = (Inr (read_logs ?c), ?d)"
      using pos size by (auto simp: read_all_logs_def bindE_def)
    then show ?thesis using read_logs_complete[OF o(5), of "[]"] by (simp add: read_logs.simps[of "[]"])
  qed
qed

section \<open>Properties\<close>

definition demo_log_dm :: disk_manager where
  "demo_log_dm = \<lparr>path2fd = [LOG_FILE_NAME \<mapsto> 5], fd2path = [5 \<mapsto> LOG_FILE_NAME], log_fd = 5, fd2pageno = (\<lambda>_. 0),
     dm_os = \<lparr>os_files = [LOG_FILE_NAME \<mapsto> []], os_fds = [5 \<mapsto> LOG_FILE_NAME]\<rparr>\<rparr>"

lemma demo_log_rel: "log_rel (LogManager, demo_log_dm) [] []"
  by (simp add: log_rel_def log_open_def LogManager_def LogBuffer_def zeroed_buffer_def demo_log_dm_def dm_inv_def)

text \<open>A record handed to \<open>add_log_to_buffer\<close> gets the next log sequence number and is
  appended to the log; after \<open>flush_log_to_disk\<close> reading the log file gives all earlier records
  followed by it, and \<open>persist_lsn_\<close> is its number.\<close>

theorem logged_record_durable:
  assumes "log_rel s old pend" "log_wf (r\<lparr>lsn := global_lsn (fst s)\<rparr>)" "log_tot_len r \<le> int LOG_BUFFER_SIZE"
  shows "\<exists>s1 s2. add_log_to_buffer ofd (Some r) s = (Inr (global_lsn (fst s)), s1) \<and>
    flush_log_to_disk ofd s1 = (Inr (), s2) \<and>
    read_all_logs ofd (snd s2) = (Inr (old @ pend @ [r\<lparr>lsn := global_lsn (fst s)\<rparr>]), snd s2) \<and>
    persist_lsn (fst s2) = global_lsn (fst s) \<and> global_lsn (fst s2) = global_lsn (fst s) + 1 \<and>
    log_rel s2 (old @ pend @ [r\<lparr>lsn := global_lsn (fst s)\<rparr>]) []"
proof -
  from add_log_rel[OF assms] obtain s1 old' pend' where
    a: "add_log_to_buffer ofd (Some r) s = (Inr (global_lsn (fst s)), s1)" "log_rel s1 old' pend'"
    "old' @ pend' = old @ pend @ [r\<lparr>lsn := global_lsn (fst s)\<rparr>]" "pend' \<noteq> []"
    "last pend' = r\<lparr>lsn := global_lsn (fst s)\<rparr>" "global_lsn (fst s1) = global_lsn (fst s) + 1" by blast
  from flush_log_rel[OF a(2), of ofd] obtain s2 where
    f: "flush_log_to_disk ofd s1 = (Inr (), s2)" "log_rel s2 (old' @ pend') []"
    "global_lsn (fst s2) = global_lsn (fst s1)" "persist_lsn (fst s2) = lsn (last pend')"
    using a(4) by auto
  have "log_rel s2 (old @ pend @ [r\<lparr>lsn := global_lsn (fst s)\<rparr>]) []" using f(2) a(3) by simp
  with a f read_all_logs_rel[OF this] show ?thesis by (intro exI[of _ s1] exI[of _ s2]) simp
qed

theorem logged_record_durable_witness:
  "\<exists>s1 s2. add_log_to_buffer 9 (Some (make_log 3 BeginLogRecord)) (LogManager, demo_log_dm) = (Inr 0, s1) \<and>
    flush_log_to_disk 9 s1 = (Inr (), s2) \<and>
    read_all_logs 9 (snd s2) = (Inr [(make_log 3 BeginLogRecord)\<lparr>lsn := 0\<rparr>], snd s2)"
proof -
  have "log_wf ((make_log 3 BeginLogRecord)\<lparr>lsn := global_lsn (fst (LogManager, demo_log_dm))\<rparr>)"
    "log_tot_len (make_log 3 BeginLogRecord) \<le> int LOG_BUFFER_SIZE" "global_lsn LogManager = 0"
    by (simp_all add: make_log_def log_wf_def int32_def LogManager_def)
  with logged_record_durable[OF demo_log_rel, of "make_log 3 BeginLogRecord" 9] show ?thesis by auto
qed

end
