(* ===== verification/Recovery.thy ===== *)
theory Recovery
  imports TableFiles LogManager
begin

text \<open>
  Crash recovery (\<open>recovery/log_recovery.cpp\<close>): the analysis, redo and undo passes over the log
  and the open table files. The two passes are shown to implement \<open>recover_db\<close>, a function on
  the logical contents of the tables, and \<open>recover_db\<close> to restore the effects of exactly the
  committed transactions, whatever part of the changes had reached the table files.
\<close>

section \<open>The passes\<close>

text \<open>Names in the log are byte strings.\<close>

definition table_name_from_log :: "bytes \<Rightarrow> string" where
  "table_name_from_log bs = map (\<lambda>b. char_of (unat b)) bs"

definition record_exists :: "Rid \<Rightarrow> (rm_state, bool) comp" where
  "record_exists rid st =
     (let h = rm_hdr st in
      if rid_page_no rid < RM_FIRST_RECORD_PAGE \<or> num_pages h \<le> rid_page_no rid \<or> rid_slot_no rid < 0 \<or>
         num_records_per_page h \<le> rid_slot_no rid
      then (Inr False, st)
      else case is_record rid st of (Inl e, st') \<Rightarrow> (Inr False, st') | (Inr b, st') \<Rightarrow> (Inr b, st'))"

text \<open>The loops run for at most \<open>fuel\<close> rounds; the result tells whether they ended.\<close>

fun ensure_page_exists :: "nat \<Rightarrow> Rid \<Rightarrow> (rm_state, bool) comp" where
  "ensure_page_exists fuel rid =
     bindE (getE (\<lambda>st. num_pages (rm_hdr st))) (\<lambda>n.
       if n \<le> rid_page_no rid
       then
         (case fuel of
            0 \<Rightarrow> returnE False
          | Suc fuel' \<Rightarrow>
              bindE create_new_page_handle (\<lambda>f.
                bindE (getE (\<lambda>st. pg_id (page_at (rm_pool st) f))) (\<lambda>page_id.
                  thenE (on_pool (unpin_page page_id True)) (ensure_page_exists fuel' rid))))
       else returnE True)"

declare ensure_page_exists.simps [simp del]

definition put_record_at :: "nat \<Rightarrow> Rid \<Rightarrow> bytes \<Rightarrow> (rm_state, bool) comp" where
  "put_record_at fuel rid record =
     bindE (ensure_page_exists fuel rid) (\<lambda>ended.
       if \<not> ended then returnE False
       else
         bindE (record_exists rid) (\<lambda>present.
           if present then thenE (update_record rid record) (returnE True)
           else insert_record_at fuel rid record))"

definition delete_if_exists :: "Rid \<Rightarrow> (rm_state, bool) comp" where
  "delete_if_exists rid =
     bindE (record_exists rid) (\<lambda>present.
       if present then thenE (delete_record rid) (returnE True) else returnE True)"

definition redo_record :: "nat \<Rightarrow> txn_id_t list \<Rightarrow> LogRecord \<Rightarrow> (table_files, bool) comp" where
  "redo_record fuel committed_txns r =
     (if log_tid r \<notin> set committed_txns then returnE True
      else case body r of
        InsertLogRecord v rid tab \<Rightarrow> on_file (table_name_from_log tab) (put_record_at fuel rid v)
      | DeleteLogRecord v rid tab \<Rightarrow> on_file (table_name_from_log tab) (delete_if_exists rid)
      | UpdateLogRecord v w rid tab \<Rightarrow> on_file (table_name_from_log tab) (put_record_at fuel rid w)
      | _ \<Rightarrow> returnE True)"

definition undo_record :: "nat \<Rightarrow> txn_id_t list \<Rightarrow> txn_id_t list \<Rightarrow> LogRecord \<Rightarrow> (table_files, bool) comp" where
  "undo_record fuel all_txns finished_txns r =
     (if log_tid r \<notin> set all_txns \<or> log_tid r \<in> set finished_txns then returnE True
      else case body r of
        InsertLogRecord v rid tab \<Rightarrow> on_file (table_name_from_log tab) (delete_if_exists rid)
      | DeleteLogRecord v rid tab \<Rightarrow> on_file (table_name_from_log tab) (put_record_at fuel rid v)
      | UpdateLogRecord v w rid tab \<Rightarrow> on_file (table_name_from_log tab) (put_record_at fuel rid v)
      | _ \<Rightarrow> returnE True)"

fun for_logs :: "(LogRecord \<Rightarrow> (table_files, bool) comp) \<Rightarrow> LogRecord list \<Rightarrow> (table_files, bool) comp" where
  "for_logs f [] = returnE True"
| "for_logs f (r # rs) = bindE (f r) (\<lambda>ended. if ended then for_logs f rs else returnE False)"

definition committed_txns :: "LogRecord list \<Rightarrow> txn_id_t list" where
  "committed_txns logs = map log_tid (filter (\<lambda>r. log_type (body r) = commit_log) logs)"

definition finished_txns :: "LogRecord list \<Rightarrow> txn_id_t list" where
  "finished_txns logs =
     map log_tid (filter (\<lambda>r. log_type (body r) = commit_log \<or> log_type (body r) = ABORT_log) logs)"

definition all_txns :: "LogRecord list \<Rightarrow> txn_id_t list" where
  "all_txns logs = filter (\<lambda>t. t \<noteq> INVALID_TXN_ID) (map log_tid logs)"

definition read_logs_of :: "int \<Rightarrow> (table_files, LogRecord list) comp" where
  "read_logs_of ofd s = (case on_disk (read_all_logs ofd) (tf_pool s) of (r, b) \<Rightarrow> (r, s\<lparr>tf_pool := b\<rparr>))"

definition redo :: "nat \<Rightarrow> int \<Rightarrow> (table_files, bool) comp" where
  "redo fuel ofd = bindE (read_logs_of ofd) (\<lambda>logs. for_logs (redo_record fuel (committed_txns logs)) logs)"

text \<open>The undo pass up to the final \<open>rebuild_indexes\<close>.\<close>

definition undo :: "nat \<Rightarrow> int \<Rightarrow> (table_files, bool) comp" where
  "undo fuel ofd =
     bindE (read_logs_of ofd) (\<lambda>logs.
       for_logs (undo_record fuel (all_txns logs) (finished_txns logs)) (rev logs))"

text \<open>The analysis pass fills a buffer that nothing reads.\<close>

definition analyze :: "int \<Rightarrow> log_buffer \<Rightarrow> (disk_manager, log_buffer) comp" where
  "analyze ofd buf =
     bindE (getE (\<lambda>d. get_file_size d LOG_FILE_NAME)) (\<lambda>file_size.
       if file_size \<le> 0 then returnE buf
       else
         bindE (read_log ofd (min file_size (int LOG_BUFFER_SIZE)) 0) (\<lambda>(read_size, got).
           returnE \<lparr>lb_buffer = mem_put (lb_buffer buf) 0 got, lb_offset = nat (max 0 read_size)\<rparr>))"

section \<open>Recovery as a function on table contents\<close>

type_synonym db = "string \<Rightarrow> Rid \<rightharpoonup> bytes"

definition set_rec :: "string \<Rightarrow> Rid \<Rightarrow> bytes option \<Rightarrow> db \<Rightarrow> db" where
  "set_rec t rid v d = d(t := (d t)(rid := v))"

text \<open>The place a log record is about, and what it held before and after.\<close>

fun op_place :: "log_body \<Rightarrow> (string \<times> Rid) option" where
  "op_place (InsertLogRecord v rid tab) = Some (table_name_from_log tab, rid)"
| "op_place (DeleteLogRecord v rid tab) = Some (table_name_from_log tab, rid)"
| "op_place (UpdateLogRecord v w rid tab) = Some (table_name_from_log tab, rid)"
| "op_place _ = None"

fun op_before :: "log_body \<Rightarrow> bytes option" where
  "op_before (DeleteLogRecord v rid tab) = Some v"
| "op_before (UpdateLogRecord v w rid tab) = Some v"
| "op_before _ = None"

fun op_after :: "log_body \<Rightarrow> bytes option" where
  "op_after (InsertLogRecord v rid tab) = Some v"
| "op_after (UpdateLogRecord v w rid tab) = Some w"
| "op_after _ = None"

definition redo_db :: "txn_id_t list \<Rightarrow> LogRecord \<Rightarrow> db \<Rightarrow> db" where
  "redo_db committed r d =
     (case op_place (body r) of
        Some (t, rid) \<Rightarrow> if log_tid r \<in> set committed then set_rec t rid (op_after (body r)) d else d
      | None \<Rightarrow> d)"

definition undo_db :: "txn_id_t list \<Rightarrow> txn_id_t list \<Rightarrow> LogRecord \<Rightarrow> db \<Rightarrow> db" where
  "undo_db txns finished r d =
     (case op_place (body r) of
        Some (t, rid) \<Rightarrow>
          if log_tid r \<in> set txns \<and> log_tid r \<notin> set finished then set_rec t rid (op_before (body r)) d else d
      | None \<Rightarrow> d)"

definition recover_db :: "LogRecord list \<Rightarrow> db \<Rightarrow> db" where
  "recover_db logs d =
     fold (undo_db (all_txns logs) (finished_txns logs)) (rev logs) (fold (redo_db (committed_txns logs)) logs d)"

section \<open>The record operations\<close>

text \<open>\<open>enough m s r s'\<close>: with enough fuel the computation ends with this outcome.\<close>

definition enough :: "(nat \<Rightarrow> ('s, 'a) comp) \<Rightarrow> 's \<Rightarrow> rmdb_error + 'a \<Rightarrow> 's \<Rightarrow> bool" where
  "enough m s r s' \<longleftrightarrow> (\<exists>N. \<forall>fuel \<ge> N. m fuel s = (r, s'))"

lemma enoughI: "(\<And>fuel. N \<le> fuel \<Longrightarrow> m fuel s = (r, s')) \<Longrightarrow> enough m s r s'"
  unfolding enough_def by blast

lemma enough_bind:
  assumes "enough m s (Inr x) s1" "enough (\<lambda>fuel. g fuel x) s1 r s2"
  shows "enough (\<lambda>fuel. bindE (m fuel) (g fuel)) s r s2"
proof -
  obtain N M where "\<forall>fuel \<ge> N. m fuel s = (Inr x, s1)" "\<forall>fuel \<ge> M. g fuel x s1 = (r, s2)"
    using assms unfolding enough_def by blast
  then show ?thesis by (intro enoughI[of "max N M"]) (simp add: bindE_Inr)
qed

lemma enough_const: "m s = (r, s') \<Longrightarrow> enough (\<lambda>_. m) s r s'"
  by (simp add: enough_def)

lemma record_exists_ok:
  assumes "rm_ok L st"
  shows "\<exists>st'. record_exists rid st = (Inr (rm_records st rid \<noteq> None), st') \<and> rm_ok L st' \<and>
    rm_records st' = rm_records st \<and> rm_frame st st'"
proof -
  let ?h = "rm_hdr st"
  have r: "rm_rel st ?h (rm_pages st)" "file_wf L ?h (rm_pages st)" using assms by (simp_all add: rm_ok_def)
  show ?thesis
  proof (cases "rid_ok ?h rid")
    case True
    then have b: "\<not> (rid_page_no rid < RM_FIRST_RECORD_PAGE \<or> num_pages ?h \<le> rid_page_no rid \<or> rid_slot_no rid < 0 \<or>
         num_records_per_page ?h \<le> rid_slot_no rid)" by (auto simp: rid_ok_def page_in_def slot_ok_def)
    from is_record_rel[OF r(1) True] obtain st' where i: "is_record rid st = (Inr (rm_records st rid \<noteq> None), st')"
      "rm_rel st' ?h (rm_pages st)" "rm_frame st st'" by (auto simp: rm_records_def)
    from i b rm_ok_rel[OF i(2) r(2)] show ?thesis by (simp add: record_exists_def Let_def rm_records_def)
  next
    case False
    then have "rm_records st rid = None"
      using file_rec_SomeD[of ?h "rm_pages st" rid] unfolding rm_records_def rid_ok_def by blast
    moreover have "record_exists rid st = (Inr False, st)"
      using False by (auto simp: record_exists_def Let_def rid_ok_def page_in_def slot_ok_def)
    ultimately show ?thesis using assms by auto
  qed
qed

lemma new_page_step:
  assumes ok: "rm_ok UNIV st" and sz: "int32 (num_pages (rm_hdr st) + 1)"
  shows "\<exists>f st1 st2. create_new_page_handle st = (Inr f, st1) \<and>
    on_pool (unpin_page (pg_id (page_at (rm_pool st1) f)) True) st1 = (Inr True, st2) \<and> rm_ok UNIV st2 \<and>
    rm_records st2 = rm_records st \<and> rm_frame st st2 \<and> num_pages (rm_hdr st2) = num_pages (rm_hdr st) + 1"
proof -
  let ?h = "rm_hdr st" and ?pg = "rm_pages st"
  have r: "rm_rel st ?h ?pg" "file_wf UNIV ?h ?pg" using ok by (simp_all add: rm_ok_def)
  define h' where "h' = ?h\<lparr>num_pages := num_pages ?h + 1, first_free_page_no := num_pages ?h\<rparr>"
  obtain f st1 where f: "create_new_page_handle st = (Inr f, st1)"
    "rm_held st st1 f (num_pages ?h) h' (?pg(num_pages ?h := fresh_page ?h))"
    by (rule create_new_page_handle_ok[OF r h'_def])
  note e = file_wf_extend[OF r(2) disjI2[OF refl] sz h'_def]
  have len: "length ((?pg(num_pages ?h := fresh_page ?h)) (num_pages ?h)) = PAGE_SIZE"
    using fresh_page_ok(1)[OF file_wfD(1)[OF r(2)]] by (simp add: page_wf_def)
  obtain st2 where u: "unpin_handle (num_pages ?h) True st1 = (Inr True, st2)"
    "rm_rel st2 h' (?pg(num_pages ?h := fresh_page ?h))" "rm_frame st st2"
    by (rule held_release_same[OF f(2) len])
  have "pg_id (page_at (rm_pool st1) f) = PageId (rm_fd st1) (num_pages ?h)"
    using f(2) pool_invD(6)[of "{}" _ "rm_pool st1" "PageId (rm_fd st1) (num_pages ?h)" f] unfolding rm_held_def by blast
  with u(1) have "on_pool (unpin_page (pg_id (page_at (rm_pool st1) f)) True) st1 = (Inr True, st2)"
    by (simp add: unpin_handle_eq)
  moreover have "rm_hdr st2 = h'" using u(2) by (simp add: rm_rel_def)
  ultimately show ?thesis
    using f(1) u(3) e(2) rm_ok_rel[OF u(2) e(1)] by (auto simp: rm_records_def[of st] h'_def)
qed

lemma ensure_page_exists_ok:
  assumes "rm_ok UNIV st" "int32 (rid_page_no rid + 1)" "nat (rid_page_no rid + 1 - num_pages (rm_hdr st)) = n"
  shows "\<exists>st'. (\<forall>fuel \<ge> n. ensure_page_exists fuel rid st = (Inr True, st')) \<and> rm_ok UNIV st' \<and>
    rm_records st' = rm_records st \<and> rm_frame st st' \<and> rid_page_no rid < num_pages (rm_hdr st')"
  using assms
proof (induction n arbitrary: st)
  case 0
  then have "ensure_page_exists fuel rid st = (Inr True, st)" for fuel
    by (subst ensure_page_exists.simps) simp
  with 0 show ?case by (intro exI[of _ st]) auto
next
  case (Suc n)
  have "1 \<le> num_pages (rm_hdr st)" using Suc.prems(1) by (simp add: rm_ok_def file_wf_def)
  then have "int32 (num_pages (rm_hdr st) + 1)" using Suc.prems(2,3) by (simp add: int32_def)
  from new_page_step[OF Suc.prems(1) this] obtain f st1 st2 where
    s: "create_new_page_handle st = (Inr f, st1)"
    "on_pool (unpin_page (pg_id (page_at (rm_pool st1) f)) True) st1 = (Inr True, st2)" "rm_ok UNIV st2"
    "rm_records st2 = rm_records st" "rm_frame st st2" "num_pages (rm_hdr st2) = num_pages (rm_hdr st) + 1" by blast
  have "nat (rid_page_no rid + 1 - num_pages (rm_hdr st2)) = n" using s(6) Suc.prems(3) by linarith
  from Suc.IH[OF s(3) Suc.prems(2) this] obtain st' where
    t: "\<forall>fuel \<ge> n. ensure_page_exists fuel rid st2 = (Inr True, st')" "rm_ok UNIV st'" "rm_records st' = rm_records st2"
    "rm_frame st2 st'" "rid_page_no rid < num_pages (rm_hdr st')" by blast
  have "ensure_page_exists fuel rid st = (Inr True, st')" if "Suc n \<le> fuel" for fuel
  proof -
    obtain m where m: "fuel = Suc m" "n \<le> m" using \<open>Suc n \<le> fuel\<close> by (cases fuel) auto
    have "num_pages (rm_hdr st) \<le> rid_page_no rid" using Suc.prems(3) by simp
    with s(1,2) t(1) m show ?thesis
      by (subst ensure_page_exists.simps) (simp add: bindE_Inr thenE_Inr)
  qed
  then show ?case using t s(4) rm_frame_trans[OF s(5) t(4)] by (intro exI[of _ st']) simp
qed


lemma frame_room2: "rm_frame st st' \<Longrightarrow> bp_room2 (rm_pool st) \<Longrightarrow> bp_room2 (rm_pool st')"
  by (simp add: rm_frame_def bp_room2_def file_step_def pool_step_def)

lemma frame_slot_ok: "rm_frame st st' \<Longrightarrow> slot_ok (rm_hdr st') s = slot_ok (rm_hdr st) s"
  by (simp add: rm_frame_def hdr_grow_def slot_ok_def)

lemma put_record_at_ok:
  assumes ok: "rm_ok UNIV st" "bp_room2 (rm_pool st)" and rid: "1 \<le> rid_page_no rid" "int32 (rid_page_no rid + 1)"
      "slot_ok (rm_hdr st) (rid_slot_no rid)" and len: "length v = nat (record_size (rm_hdr st))"
  shows "\<exists>st'. enough (\<lambda>fuel. put_record_at fuel rid v) st (Inr True) st' \<and> rm_ok UNIV st' \<and>
    rm_records st' = (rm_records st)(rid \<mapsto> v) \<and> rm_frame st st'"
proof -
  from ensure_page_exists_ok[OF ok(1) rid(2) refl] obtain st1 where
    e: "\<forall>fuel \<ge> nat (rid_page_no rid + 1 - num_pages (rm_hdr st)). ensure_page_exists fuel rid st = (Inr True, st1)"
    "rm_ok UNIV st1" "rm_records st1 = rm_records st" "rm_frame st st1" "rid_page_no rid < num_pages (rm_hdr st1)" by blast
  from record_exists_ok[OF e(2), of rid] obtain st2 where
    x: "record_exists rid st1 = (Inr (rm_records st1 rid \<noteq> None), st2)" "rm_ok UNIV st2" "rm_records st2 = rm_records st1"
    "rm_frame st1 st2" by blast
  have fr: "rm_frame st st2" by (rule rm_frame_trans[OF e(4) x(4)])
  have g1: "hdr_grow (rm_hdr st1) (rm_hdr st2)" using x(4) by (simp add: rm_frame_def)
  have ro: "rid_ok (rm_hdr st2) rid"
    using rid(1,3) e(5) g1 frame_slot_ok[OF fr] by (simp add: rid_ok_def page_in_def hdr_grow_def)
  have l2: "length v = nat (record_size (rm_hdr st2))" using len fr by (simp add: rm_frame_def hdr_grow_def)
  have recs: "rm_records st2 = rm_records st" using e(3) x(3) by simp
  have "\<exists>st'. enough (\<lambda>fuel. if rm_records st1 rid \<noteq> None then thenE (update_record rid v) (returnE True)
      else insert_record_at fuel rid v) st2 (Inr True) st' \<and> rm_ok UNIV st' \<and>
      rm_records st' = (rm_records st)(rid \<mapsto> v) \<and> rm_frame st2 st'"
  proof (cases "rm_records st1 rid = None")
    case False
    then have "rm_records st2 rid \<noteq> None" using x(3) by simp
    from update_record_ok[OF x(2) ro this l2] False recs show ?thesis
      by (auto simp: thenE_Inr intro!: enough_const)
  next
    case True
    have rr: "rm_rel st2 (rm_hdr st2) (rm_pages st2)" "file_wf UNIV (rm_hdr st2) (rm_pages st2)"
      using x(2) by (simp_all add: rm_ok_def)
    from insert_record_at_rel[OF rr ro frame_room2[OF fr ok(2)] l2 order_refl] obtain st' h' pg' where
      i: "insert_record_at (nat (num_pages (rm_hdr st2))) rid v st2 = (Inr True, st')" "rm_rel st' h' pg'"
      "file_wf UNIV h' pg'" "file_rec h' pg' = (file_rec (rm_hdr st2) (rm_pages st2))(rid \<mapsto> v)" "rm_frame st2 st'" by blast
    have "enough (\<lambda>fuel. insert_record_at fuel rid v) st2 (Inr True) st'"
      using insert_record_at_mono[OF i(1)] by (rule enoughI)
    moreover have "rm_records st' = (rm_records st)(rid \<mapsto> v)"
      using rm_ok_rel(2)[OF i(2,3)] i(4) recs by (simp add: rm_records_def[of st2])
    ultimately show ?thesis using True i(5) rm_ok_rel(1)[OF i(2,3)] by auto
  qed
  then obtain st' where p: "enough (\<lambda>fuel. if rm_records st1 rid \<noteq> None then thenE (update_record rid v) (returnE True)
      else insert_record_at fuel rid v) st2 (Inr True) st'" "rm_ok UNIV st'" "rm_records st' = (rm_records st)(rid \<mapsto> v)"
      "rm_frame st2 st'" by blast
  have "enough (\<lambda>fuel. put_record_at fuel rid v) st (Inr True) st'"
    unfolding put_record_at_def
  proof (rule enough_bind)
    show "enough (\<lambda>fuel. ensure_page_exists fuel rid) st (Inr True) st1" using e(1) unfolding enough_def by blast
    have "enough (\<lambda>fuel. bindE (record_exists rid) (\<lambda>present. if present then thenE (update_record rid v) (returnE True)
        else insert_record_at fuel rid v)) st1 (Inr True) st'"
      by (rule enough_bind[where m = "\<lambda>_. record_exists rid", OF enough_const[where m = "record_exists rid", OF x(1)]])
        (rule p(1))
    then show "enough (\<lambda>fuel. if \<not> True then returnE False else bindE (record_exists rid) (\<lambda>present.
        if present then thenE (update_record rid v) (returnE True) else insert_record_at fuel rid v)) st1 (Inr True) st'" by simp
  qed
  then show ?thesis using p(2,3) rm_frame_trans[OF fr p(4)] by blast
qed

lemma delete_if_exists_ok:
  assumes ok: "rm_ok L st"
  shows "\<exists>st'. delete_if_exists rid st = (Inr True, st') \<and> rm_ok L st' \<and>
    rm_records st' = (rm_records st)(rid := None) \<and> rm_frame st st'"
proof -
  from record_exists_ok[OF ok, of rid] obtain st1 where
    x: "record_exists rid st = (Inr (rm_records st rid \<noteq> None), st1)" "rm_ok L st1" "rm_records st1 = rm_records st"
    "rm_frame st st1" by blast
  show ?thesis
  proof (cases "rm_records st rid = None")
    case True
    with x show ?thesis by (intro exI[of _ st1]) (simp add: delete_if_exists_def bindE_def fun_upd_idem)
  next
    case False
    then have "rid_ok (rm_hdr st1) rid"
      using file_rec_SomeD[of "rm_hdr st1" "rm_pages st1" rid] x(3) by (auto simp: rm_records_def[of st1] rid_ok_def)
    from delete_record_ok[OF x(2) this] x(3) False obtain st' where
      "delete_record rid st1 = (Inr (), st')" "rm_ok L st'" "rm_records st' = (rm_records st)(rid := None)" "rm_frame st1 st'"
      by auto
    with x(1) False rm_frame_trans[OF x(4)] show ?thesis
      by (intro exI[of _ st']) (simp add: delete_if_exists_def bindE_def thenE_def)
  qed
qed

section \<open>The passes refine \<open>recover_db\<close>\<close>

text \<open>A log record is applicable: it names an open table, a slot of its layout and values of its
  record size.\<close>

definition place_ok :: "table_files \<Rightarrow> string \<Rightarrow> Rid \<Rightarrow> bytes option \<Rightarrow> bool" where
  "place_ok s t rid v \<longleftrightarrow> 1 \<le> rid_page_no rid \<and> int32 (rid_page_no rid + 1) \<and>
     (case tf_fhs s t of
        None \<Rightarrow> False
      | Some (fd, h) \<Rightarrow> slot_ok h (rid_slot_no rid) \<and> (case v of None \<Rightarrow> True | Some bs \<Rightarrow> length bs = nat (record_size h)))"

definition log_ok :: "table_files \<Rightarrow> LogRecord \<Rightarrow> bool" where
  "log_ok s r \<longleftrightarrow>
     (case op_place (body r) of
        None \<Rightarrow> True
      | Some (t, rid) \<Rightarrow> place_ok s t rid (op_before (body r)) \<and> place_ok s t rid (op_after (body r)))"

lemma place_ok_frame: "tables_frame s s' \<Longrightarrow> place_ok s t rid v \<Longrightarrow> place_ok s' t rid v"
  using tables_frameD[of s s' t]
  by (fastforce simp: place_ok_def hdr_grow_def slot_ok_def split: option.splits prod.splits)

lemma log_ok_frame: "tables_frame s s' \<Longrightarrow> log_ok s r \<Longrightarrow> log_ok s' r"
  by (auto simp: log_ok_def place_ok_frame split: option.splits)

text \<open>Setting a place to a value, the common step of both passes.\<close>

definition set_place :: "Rid \<Rightarrow> bytes option \<Rightarrow> nat \<Rightarrow> (rm_state, bool) comp" where
  "set_place rid v fuel = (case v of None \<Rightarrow> delete_if_exists rid | Some bs \<Rightarrow> put_record_at fuel rid bs)"

lemma set_place_ok:
  assumes ok: "tables_ok s" and pl: "place_ok s t rid v"
  shows "\<exists>s'. enough (\<lambda>fuel. on_file t (set_place rid v fuel)) s (Inr True) s' \<and> tables_ok s' \<and>
    tables_db s' = set_rec t rid v (tables_db s) \<and> tables_frame s s'"
proof -
  obtain fd h where t: "tf_fhs s t = Some (fd, h)" using pl by (auto simp: place_ok_def split: option.splits)
  let ?st = "handle fd h (tf_pool s)"
  have st: "rm_ok UNIV ?st" "bp_room2 (rm_pool ?st)" using ok t by (auto simp: tables_ok_def)
  have "\<exists>st'. enough (set_place rid v) ?st (Inr True) st' \<and> rm_ok UNIV st' \<and>
    rm_records st' = (rm_records ?st)(rid := v) \<and> rm_frame ?st st'"
  proof (cases v)
    case None
    have "set_place rid None = (\<lambda>_. delete_if_exists rid)" by (simp add: set_place_def fun_eq_iff)
    with delete_if_exists_ok[OF st(1), of rid] None show ?thesis by (metis enough_const)
  next
    case (Some bs)
    with pl t have "1 \<le> rid_page_no rid" "int32 (rid_page_no rid + 1)" "slot_ok (rm_hdr ?st) (rid_slot_no rid)"
      "length bs = nat (record_size (rm_hdr ?st))" by (auto simp: place_ok_def)
    moreover have "set_place rid (Some bs) = (\<lambda>fuel. put_record_at fuel rid bs)" by (simp add: set_place_def fun_eq_iff)
    ultimately show ?thesis using put_record_at_ok[OF st] Some by simp
  qed
  then obtain st' where m: "enough (set_place rid v) ?st (Inr True) st'" "rm_ok UNIV st'"
    "rm_records st' = (rm_records ?st)(rid := v)" "rm_frame ?st st'" by blast
  obtain N where N: "\<And>fuel. N \<le> fuel \<Longrightarrow> set_place rid v fuel ?st = (Inr True, st')" using m(1) unfolding enough_def by blast
  from on_file_run[where m = "set_place rid v N", OF ok t N[OF order_refl] m(2,4)] obtain s' where
    s': "on_file t (set_place rid v N) s = (Inr True, s')" "tables_ok s'"
    "tables_db s' = (tables_db s)(t := rm_records st')" "tables_frame s s'" by blast
  have "on_file t (set_place rid v fuel) s = (Inr True, s')" if "N \<le> fuel" for fuel
    using s'(1) t N[OF that] N[OF order_refl] by (simp add: on_file_def)
  then have "enough (\<lambda>fuel. on_file t (set_place rid v fuel)) s (Inr True) s'" by (rule enoughI)
  moreover have "tables_db s' = set_rec t rid v (tables_db s)"
    using s'(3) m(3) t by (simp add: set_rec_def tables_db_def)
  ultimately show ?thesis using s'(2,4) by blast
qed

lemma redo_record_place:
  "redo_record fuel committed r =
     (case op_place (body r) of
        Some (t, rid) \<Rightarrow>
          if log_tid r \<in> set committed then on_file t (set_place rid (op_after (body r)) fuel) else returnE True
      | None \<Rightarrow> returnE True)"
  by (cases "body r") (simp_all add: redo_record_def set_place_def)

lemma undo_record_place:
  "undo_record fuel txns finished r =
     (case op_place (body r) of
        Some (t, rid) \<Rightarrow>
          if log_tid r \<in> set txns \<and> log_tid r \<notin> set finished
          then on_file t (set_place rid (op_before (body r)) fuel) else returnE True
      | None \<Rightarrow> returnE True)"
  by (cases "body r") (simp_all add: undo_record_def set_place_def)

lemma for_logs_ok:
  assumes step: "\<And>r s. r \<in> set rs \<Longrightarrow> tables_ok s \<Longrightarrow> log_ok s r \<Longrightarrow>
      \<exists>s'. enough (\<lambda>fuel. f fuel r) s (Inr True) s' \<and> tables_ok s' \<and> tables_db s' = g r (tables_db s) \<and> tables_frame s s'"
    and ok: "tables_ok s" "\<And>r. r \<in> set rs \<Longrightarrow> log_ok s r"
  shows "\<exists>s'. enough (\<lambda>fuel. for_logs (f fuel) rs) s (Inr True) s' \<and> tables_ok s' \<and>
    tables_db s' = fold g rs (tables_db s) \<and> tables_frame s s'"
  using assms
proof (induction rs arbitrary: s)
  case Nil
  then show ?case by (intro exI[of _ s]) (simp add: enough_const)
next
  case (Cons r rs)
  from Cons.prems obtain s1 where s1: "enough (\<lambda>fuel. f fuel r) s (Inr True) s1" "tables_ok s1"
    "tables_db s1 = g r (tables_db s)" "tables_frame s s1" by (meson list.set_intros(1))
  have lo: "log_ok s1 x" if "x \<in> set rs" for x using log_ok_frame[OF s1(4)] Cons.prems(3) that by simp
  have st: "\<exists>s'. enough (\<lambda>fuel. f fuel x) s (Inr True) s' \<and> tables_ok s' \<and> tables_db s' = g x (tables_db s) \<and> tables_frame s s'"
    if "x \<in> set rs" "tables_ok s" "log_ok s x" for x s using Cons.prems(1)[of x s] that by simp
  from Cons.IH[OF st s1(2) lo] obtain s2 where s2: "enough (\<lambda>fuel. for_logs (f fuel) rs) s1 (Inr True) s2"
    "tables_ok s2" "tables_db s2 = fold g rs (tables_db s1)" "tables_frame s1 s2" by blast
  have "enough (\<lambda>fuel. for_logs (f fuel) (r # rs)) s (Inr True) s2"
    unfolding for_logs.simps by (rule enough_bind[OF s1(1)]) (use s2(1) in simp)
  with s2(2,3) s1(3) tables_frame_trans[OF s1(4) s2(4)] show ?case by (intro exI[of _ s2]) simp
qed

text \<open>The log file of a state, and that both passes read it.\<close>

definition log_holds :: "table_files \<Rightarrow> LogRecord list \<Rightarrow> bool" where
  "log_holds s logs \<longleftrightarrow> log_open (bp_disk (tf_pool s)) \<and>
     (\<exists>c. os_files (dm_os (bp_disk (tf_pool s))) LOG_FILE_NAME = Some c \<and> read_logs c = logs)"

lemma log_holds_frame: "tables_frame s s' \<Longrightarrow> log_holds s logs \<Longrightarrow> log_holds s' logs"
  by (auto simp: tables_frame_def log_holds_def log_open_def dm_paths_def)

lemma read_logs_of_ok:
  assumes "log_holds s logs"
  shows "read_logs_of ofd s = (Inr logs, s)"
proof -
  let ?d = "bp_disk (tf_pool s)"
  obtain c where o: "dm_inv ?d" "fd2path ?d (log_fd ?d) = Some LOG_FILE_NAME" "log_fd ?d \<noteq> -1"
    "os_files (dm_os ?d) LOG_FILE_NAME = Some c" "read_logs c = logs"
    using assms by (auto simp: log_holds_def log_open_def)
  have "os_fds (dm_os ?d) (log_fd ?d) = Some LOG_FILE_NAME" using o(1,2) by (simp add: dm_inv_def)
  then have "os_content (dm_os ?d) (log_fd ?d) = Some c" using o(4) by (simp add: os_content_def)
  then have "read_all_logs ofd ?d = (Inr logs, ?d)"
    using o(3-5) read_logs.simps[of "[]"]
    by (cases "c = []") (auto simp: read_all_logs_def get_file_size_def read_log_def ensure_log_fd_def thenE_def bindE_def
        os_read_def mem_get_def Let_def assertE_def)
  then show ?thesis by (simp add: read_logs_of_def on_disk_def)
qed

lemma redo_ok:
  assumes ok: "tables_ok s" and lg: "log_holds s logs" "\<And>r. r \<in> set logs \<Longrightarrow> log_ok s r"
  shows "\<exists>s'. enough (\<lambda>fuel. redo fuel ofd) s (Inr True) s' \<and> tables_ok s' \<and>
    tables_db s' = fold (redo_db (committed_txns logs)) logs (tables_db s) \<and> tables_frame s s'"
proof -
  have "\<exists>s'. enough (\<lambda>fuel. redo_record fuel (committed_txns logs) r) s (Inr True) s' \<and> tables_ok s' \<and>
      tables_db s' = redo_db (committed_txns logs) r (tables_db s) \<and> tables_frame s s'"
    if "tables_ok s" "log_ok s r" for r s
  proof (cases "\<exists>t rid. op_place (body r) = Some (t, rid) \<and> log_tid r \<in> set (committed_txns logs)")
    case True
    then obtain t rid where p: "op_place (body r) = Some (t, rid)" "log_tid r \<in> set (committed_txns logs)" by blast
    with that(2) have "place_ok s t rid (op_after (body r))" by (simp add: log_ok_def)
    from set_place_ok[OF that(1) this] p show ?thesis by (simp add: redo_record_place redo_db_def)
  next
    case False
    then have "redo_record fuel (committed_txns logs) r = returnE True" "redo_db (committed_txns logs) r d = d" for fuel d
      by (auto simp: redo_record_place redo_db_def split: option.splits)
    with that show ?thesis by (intro exI[of _ s]) (simp add: enough_const)
  qed
  then obtain s' where
    s': "enough (\<lambda>fuel. for_logs (redo_record fuel (committed_txns logs)) logs) s (Inr True) s'" "tables_ok s'"
    "tables_db s' = fold (redo_db (committed_txns logs)) logs (tables_db s)" "tables_frame s s'"
    using for_logs_ok[of logs "\<lambda>fuel. redo_record fuel (committed_txns logs)" "redo_db (committed_txns logs)", OF _ ok lg(2)] by blast
  have "enough (\<lambda>fuel. redo fuel ofd) s (Inr True) s'"
    unfolding redo_def by (rule enough_bind[where m = "\<lambda>_. read_logs_of ofd", OF enough_const[where m = "read_logs_of ofd", OF read_logs_of_ok[OF lg(1)]]]) (rule s'(1))
  with s' show ?thesis by blast
qed

lemma undo_ok:
  assumes ok: "tables_ok s" and lg: "log_holds s logs" "\<And>r. r \<in> set logs \<Longrightarrow> log_ok s r"
  shows "\<exists>s'. enough (\<lambda>fuel. undo fuel ofd) s (Inr True) s' \<and> tables_ok s' \<and>
    tables_db s' = fold (undo_db (all_txns logs) (finished_txns logs)) (rev logs) (tables_db s) \<and> tables_frame s s'"
proof -
  let ?a = "all_txns logs" and ?f = "finished_txns logs"
  have "\<exists>s'. enough (\<lambda>fuel. undo_record fuel ?a ?f r) s (Inr True) s' \<and> tables_ok s' \<and>
      tables_db s' = undo_db ?a ?f r (tables_db s) \<and> tables_frame s s'"
    if "tables_ok s" "log_ok s r" for r s
  proof (cases "\<exists>t rid. op_place (body r) = Some (t, rid) \<and> log_tid r \<in> set ?a \<and> log_tid r \<notin> set ?f")
    case True
    then obtain t rid where p: "op_place (body r) = Some (t, rid)" "log_tid r \<in> set ?a \<and> log_tid r \<notin> set ?f" by blast
    with that(2) have "place_ok s t rid (op_before (body r))" by (simp add: log_ok_def)
    from set_place_ok[OF that(1) this] p show ?thesis by (simp add: undo_record_place undo_db_def)
  next
    case False
    then have "undo_record fuel ?a ?f r = returnE True" "undo_db ?a ?f r d = d" for fuel d
      by (auto simp: undo_record_place undo_db_def split: option.splits)
    with that show ?thesis by (intro exI[of _ s]) (simp add: enough_const)
  qed
  moreover have "log_ok s r" if "r \<in> set (rev logs)" for r using lg(2) that by simp
  ultimately obtain s' where
    s': "enough (\<lambda>fuel. for_logs (undo_record fuel ?a ?f) (rev logs)) s (Inr True) s'" "tables_ok s'"
    "tables_db s' = fold (undo_db ?a ?f) (rev logs) (tables_db s)" "tables_frame s s'"
    using for_logs_ok[of "rev logs" "\<lambda>fuel. undo_record fuel ?a ?f" "undo_db ?a ?f", OF _ ok] by blast
  have "enough (\<lambda>fuel. undo fuel ofd) s (Inr True) s'"
    unfolding undo_def by (rule enough_bind[where m = "\<lambda>_. read_logs_of ofd", OF enough_const[where m = "read_logs_of ofd", OF read_logs_of_ok[OF lg(1)]]]) (rule s'(1))
  with s' show ?thesis by blast
qed


section \<open>What recovery restores\<close>

text \<open>Redo and undo at one place of one table.\<close>

definition at_place :: "string \<Rightarrow> Rid \<Rightarrow> LogRecord \<Rightarrow> bool" where
  "at_place t rid r \<longleftrightarrow> op_place (body r) = Some (t, rid)"

lemma redo_db_place:
  "redo_db C r d t rid = (if at_place t rid r \<and> log_tid r \<in> set C then op_after (body r) else d t rid)"
  by (auto simp: redo_db_def set_rec_def at_place_def split: option.splits)

lemma undo_db_place:
  "undo_db A F r d t rid =
     (if at_place t rid r \<and> log_tid r \<in> set A \<and> log_tid r \<notin> set F then op_before (body r) else d t rid)"
  by (auto simp: undo_db_def set_rec_def at_place_def split: option.splits)

lemma fold_place:
  assumes "\<And>r d. r \<in> set rs \<Longrightarrow> g r d t rid = f r (d t rid)"
  shows "fold g rs d t rid = fold f rs (d t rid)"
  using assms by (induction rs arbitrary: d) auto

text \<open>A log is a faithful history of \<open>d0\<close>: every record carries the value its place held, which
  is the value the last earlier record on that place left there.\<close>

fun history_of :: "db \<Rightarrow> LogRecord list \<Rightarrow> bool" where
  "history_of d [] \<longleftrightarrow> True"
| "history_of d (r # rs) \<longleftrightarrow>
     (case op_place (body r) of
        None \<Rightarrow> history_of d rs
      | Some (t, rid) \<Rightarrow> d t rid = op_before (body r) \<and> history_of (set_rec t rid (op_after (body r)) d) rs)"

text \<open>No transaction writes a place that an unfinished transaction wrote before it, as strict
  two-phase locking ensures.\<close>

fun strict_history :: "txn_id_t list \<Rightarrow> LogRecord list \<Rightarrow> bool" where
  "strict_history C [] \<longleftrightarrow> True"
| "strict_history C (r # rs) \<longleftrightarrow>
     (op_place (body r) \<noteq> None \<and> log_tid r \<notin> set C \<longrightarrow>
        list_all (\<lambda>q. op_place (body q) = op_place (body r) \<longrightarrow> log_tid q \<notin> set C) rs) \<and>
     strict_history C rs"

text \<open>The effect of the committed transactions alone.\<close>

definition committed_db :: "LogRecord list \<Rightarrow> db \<Rightarrow> db" where
  "committed_db logs d = fold (redo_db (committed_txns logs)) logs d"

lemma replay_place:
  fixes C :: "txn_id_t list"
  assumes "history_of d rs" "strict_history C rs" "d t rid = v0" "(\<forall>r \<in> set rs. \<not> at_place t rid r) \<longrightarrow> v1 = v0"
  defines "red \<equiv> \<lambda>r v. if at_place t rid r \<and> log_tid r \<in> set C then op_after (body r) else v"
    and "und \<equiv> \<lambda>r v. if at_place t rid r \<and> log_tid r \<notin> set C then op_before (body r) else v"
  shows "fold und (rev rs) (fold red rs v1) = fold red rs v0"
  using assms(1-4)
proof (induction rs arbitrary: d v0 v1)
  case Nil
  then show ?case by simp
next
  case (Cons r rs)
  have str: "strict_history C rs" using Cons.prems(2) by simp
  show ?case
  proof (cases "at_place t rid r")
    case False
    have "\<exists>d'. history_of d' rs \<and> d' t rid = v0"
    proof (cases "op_place (body r)")
      case None
      with Cons.prems show ?thesis by auto
    next
      case (Some p)
      with False Cons.prems(1,3) show ?thesis
        by (intro exI[of _ "set_rec (fst p) (snd p) (op_after (body r)) d"]) (auto simp: at_place_def set_rec_def split: prod.splits)
    qed
    then obtain d' where "history_of d' rs" "d' t rid = v0" by blast
    from Cons.IH[OF this(1) str this(2)] Cons.prems(4) False show ?thesis by (simp add: red_def und_def)
  next
    case True
    then have h: "op_before (body r) = v0" "history_of (set_rec t rid (op_after (body r)) d) rs"
      using Cons.prems(1,3) by (auto simp: at_place_def)
    show ?thesis
    proof (cases "log_tid r \<in> set C")
      case True
      have "set_rec t rid (op_after (body r)) d t rid = op_after (body r)" by (simp add: set_rec_def)
      from Cons.IH[OF h(2) str this, of "op_after (body r)"] True \<open>at_place t rid r\<close> show ?thesis by (simp add: red_def und_def)
    next
      case False
      then have no: "\<not> (at_place t rid q \<and> log_tid q \<in> set C)" if "q \<in> set rs" for q
        using Cons.prems(2) \<open>at_place t rid r\<close> that by (auto simp: at_place_def list_all_iff)
      have "fold red rs v0 = v0" using no by (induction rs arbitrary: v0) (auto simp: red_def)
      with False h(1) \<open>at_place t rid r\<close> show ?thesis by (simp add: red_def und_def)
    qed
  qed
qed

text \<open>A log in which every transaction committed or was still running.\<close>

definition no_aborts :: "LogRecord list \<Rightarrow> bool" where
  "no_aborts logs \<longleftrightarrow> list_all (\<lambda>r. log_type (body r) \<noteq> ABORT_log \<and> log_tid r \<noteq> INVALID_TXN_ID) logs"

lemma no_aborts_txns:
  assumes "no_aborts logs"
  shows "set (finished_txns logs) = set (committed_txns logs)" "r \<in> set logs \<Longrightarrow> log_tid r \<in> set (all_txns logs)"
  using assms by (auto simp: no_aborts_def list_all_iff finished_txns_def committed_txns_def all_txns_def)

lemma recover_db_committed:
  assumes "history_of d0 logs" "strict_history (committed_txns logs) logs" "no_aborts logs"
    "\<And>t rid. (\<forall>r \<in> set logs. \<not> at_place t rid r) \<Longrightarrow> d1 t rid = d0 t rid"
  shows "recover_db logs d1 = committed_db logs d0"
proof (intro ext)
  fix t rid
  let ?C = "committed_txns logs"
  let ?red = "\<lambda>r v. if at_place t rid r \<and> log_tid r \<in> set ?C then op_after (body r) else v"
  let ?und = "\<lambda>r v. if at_place t rid r \<and> log_tid r \<notin> set ?C then op_before (body r) else v"
  have red: "fold (redo_db ?C) logs d t rid = fold ?red logs (d t rid)" for d
    by (rule fold_place) (simp add: redo_db_place)
  have "fold (undo_db (all_txns logs) (finished_txns logs)) (rev logs) d t rid = fold ?und (rev logs) (d t rid)" for d
    by (rule fold_place) (use no_aborts_txns[OF assms(3)] in \<open>auto simp: undo_db_place\<close>)
  then have "recover_db logs d1 t rid = fold ?und (rev logs) (fold ?red logs (d1 t rid))"
    by (simp add: recover_db_def red)
  also have "\<dots> = fold ?red logs (d0 t rid)"
    by (rule replay_place[OF assms(1,2) refl]) (use assms(4) in blast)
  finally show "recover_db logs d1 t rid = committed_db logs d0 t rid" by (simp add: committed_db_def red)
qed

text \<open>Applying the log a second time changes nothing: at each place every pass either keeps the
  value or sets a fixed one.\<close>

lemma recover_db_idem: "recover_db logs (recover_db logs d) = recover_db logs d"
proof (intro ext)
  fix t rid
  define kc :: "(bytes option \<Rightarrow> bytes option) \<Rightarrow> bool" where "kc f \<longleftrightarrow> f = id \<or> (\<exists>c. f = (\<lambda>_. c))" for f
  have kcf: "kc (fold f rs)" if "\<And>r. kc (f r)" for f :: "LogRecord \<Rightarrow> bytes option \<Rightarrow> bytes option" and rs
  proof (induction rs)
    case (Cons r rs)
    then show ?case using that[of r] by (auto simp: kc_def comp_def)
  qed (simp add: kc_def id_def)
  let ?red = "\<lambda>r v. if at_place t rid r \<and> log_tid r \<in> set (committed_txns logs) then op_after (body r) else v"
  let ?und = "\<lambda>r v. if at_place t rid r \<and> log_tid r \<in> set (all_txns logs) \<and> log_tid r \<notin> set (finished_txns logs)
    then op_before (body r) else v"
  have f: "recover_db logs d t rid = fold ?und (rev logs) (fold ?red logs (d t rid))" for d
  proof -
    have "fold (redo_db (committed_txns logs)) logs e t rid = fold ?red logs (e t rid)" for e
      by (rule fold_place) (simp add: redo_db_place)
    moreover have "fold (undo_db (all_txns logs) (finished_txns logs)) (rev logs) e t rid = fold ?und (rev logs) (e t rid)" for e
      by (rule fold_place) (simp add: undo_db_place)
    ultimately show ?thesis by (simp add: recover_db_def)
  qed
  have "kc (\<lambda>v. if b then c else v)" for b c by (cases b) (auto simp: kc_def id_def)
  then have "kc (fold ?und (rev logs))" "kc (fold ?red logs)" by (auto intro: kcf)
  then show "recover_db logs (recover_db logs d) t rid = recover_db logs d t rid"
    unfolding f by (auto simp: kc_def)
qed

text \<open>A place that only finished, not committed, transactions changed is left alone.\<close>

lemma recover_db_skips:
  assumes "\<forall>r \<in> set logs. at_place t rid r \<longrightarrow>
     log_tid r \<notin> set (committed_txns logs) \<and> log_tid r \<in> set (finished_txns logs)"
  shows "recover_db logs d t rid = d t rid"
proof -
  have "fold (redo_db (committed_txns logs)) logs e t rid = fold (\<lambda>r v. v) logs (e t rid)" for e
    by (rule fold_place) (use assms in \<open>auto simp: redo_db_place\<close>)
  moreover have "fold (undo_db (all_txns logs) (finished_txns logs)) (rev logs) e t rid = fold (\<lambda>r v. v) (rev logs) (e t rid)" for e
    by (rule fold_place) (use assms in \<open>auto simp: undo_db_place\<close>)
  moreover have "fold (\<lambda>r v. v) (xs :: LogRecord list) v = v" for xs and v :: "bytes option" by (induction xs) auto
  ultimately show ?thesis by (simp add: recover_db_def)
qed

lemma recover_refines:
  assumes ok: "tables_ok s" and lg: "log_holds s logs" "\<And>r. r \<in> set logs \<Longrightarrow> log_ok s r"
  shows "\<exists>s1 s2. enough (\<lambda>fuel. redo fuel ofd) s (Inr True) s1 \<and> enough (\<lambda>fuel. undo fuel ofd) s1 (Inr True) s2 \<and>
    tables_ok s2 \<and> tables_db s2 = recover_db logs (tables_db s) \<and> tables_frame s s2"
proof -
  from redo_ok[OF ok lg, of ofd] obtain s1 where r: "enough (\<lambda>fuel. redo fuel ofd) s (Inr True) s1" "tables_ok s1"
    "tables_db s1 = fold (redo_db (committed_txns logs)) logs (tables_db s)" "tables_frame s s1" by blast
  from undo_ok[OF r(2) log_holds_frame[OF r(4) lg(1)] log_ok_frame[OF r(4) lg(2)], of ofd] obtain s2 where
    u: "enough (\<lambda>fuel. undo fuel ofd) s1 (Inr True) s2" "tables_ok s2"
    "tables_db s2 = fold (undo_db (all_txns logs) (finished_txns logs)) (rev logs) (tables_db s1)" "tables_frame s1 s2" by blast
  show ?thesis using r u tables_frame_trans[OF r(4) u(4)] by (intro exI[of _ s1] exI[of _ s2]) (simp add: recover_db_def)
qed

text \<open>Both passes end, and lead from one state to the other.\<close>

definition recovers_to :: "int \<Rightarrow> table_files \<Rightarrow> table_files \<Rightarrow> bool" where
  "recovers_to ofd s s2 \<longleftrightarrow>
     (\<exists>N s1. \<forall>fuel \<ge> N. redo fuel ofd s = (Inr True, s1) \<and> undo fuel ofd s1 = (Inr True, s2))"

lemma recovers_to_db:
  assumes "tables_ok s" "log_holds s logs" "\<forall>r \<in> set logs. log_ok s r"
  shows "\<exists>s2. recovers_to ofd s s2 \<and> tables_ok s2 \<and> tables_db s2 = recover_db logs (tables_db s) \<and> tables_frame s s2"
proof -
  obtain s1 s2 where e: "enough (\<lambda>fuel. redo fuel ofd) s (Inr True) s1" "enough (\<lambda>fuel. undo fuel ofd) s1 (Inr True) s2"
    "tables_ok s2" "tables_db s2 = recover_db logs (tables_db s)" "tables_frame s s2"
    using recover_refines[OF assms(1,2), of ofd] assms(3) by blast
  then obtain N M where n: "\<forall>fuel \<ge> N. redo fuel ofd s = (Inr True, s1)" "\<forall>fuel \<ge> M. undo fuel ofd s1 = (Inr True, s2)"
    unfolding enough_def by blast
  have "recovers_to ofd s s2" unfolding recovers_to_def using n by (intro exI[of _ "max N M"] exI[of _ s1]) simp
  with e show ?thesis by blast
qed

section \<open>Properties\<close>

text \<open>An empty table and a log with one committed and one unfinished transaction, for the
  witnesses.\<close>

definition demo_history :: "LogRecord list" where
  "demo_history =
     [make_log 1 BeginLogRecord, make_log 1 (InsertLogRecord (replicate 8 1) (Rid 1 0) [116]),
      make_log 2 BeginLogRecord, make_log 1 CommitLogRecord,
      make_log 2 (InsertLogRecord (replicate 8 2) (Rid 1 1) [116])]"

lemma demo_name: "table_name_from_log [116] = ''t''"
  by code_simp

definition demo_tables :: "LogRecord list \<Rightarrow> table_files" where
  "demo_tables logs = \<lparr>tf_fhs = [''t'' \<mapsto> (3, init_file_hdr 8)],
     tf_pool = BufferPoolManager 0 3
       \<lparr>path2fd = [''t'' \<mapsto> 3, LOG_FILE_NAME \<mapsto> 5], fd2path = [3 \<mapsto> ''t'', 5 \<mapsto> LOG_FILE_NAME], log_fd = 5,
        fd2pageno = (\<lambda>_. 1),
        dm_os = \<lparr>os_files = [''t'' \<mapsto> [], LOG_FILE_NAME \<mapsto> concat (map serialize logs)],
                 os_fds = [3 \<mapsto> ''t'', 5 \<mapsto> LOG_FILE_NAME]\<rparr>\<rparr>\<rparr>"

lemma demo_tables_ok:
  "tables_ok (demo_tables logs)" "tables_db (demo_tables logs) = (\<lambda>_. Map.empty)"
  "list_all log_wf logs \<Longrightarrow> log_holds (demo_tables logs) logs"
proof -
  let ?d = "bp_disk (tf_pool (demo_tables logs))" and ?b = "tf_pool (demo_tables logs)"
  let ?h = "init_file_hdr 8" and ?st = "handle 3 (init_file_hdr 8) (tf_pool (demo_tables logs))"
  have dm: "dm_inv ?d" by (auto simp: dm_inv_def demo_tables_def BufferPoolManager_def LOG_FILE_NAME_def)
  then have inv: "bp_inv {} ?b" by (simp add: demo_tables_def BufferPoolManager_def bp_inv_init[unfolded BufferPoolManager_def])
  have v: "bp_room ?b" "bp_room2 ?b" "bp_open ?b 3" "bp_cached ?b = {}" "fd2pageno ?d 3 = 1"
    by (simp_all add: bp_room_def bp_room2_def bp_open_def bp_cached_def demo_tables_def BufferPoolManager_def
        bp_pins_def find_frame_def LOG_FILE_NAME_def)
  have h: "num_pages ?h = 1" "\<And>p. \<not> page_in ?h p" by (simp_all add: init_file_hdr_def Let_def page_in_def)
  have "rm_rel ?st ?h undefined" using inv v h by (auto simp: rm_rel_def)
  note r = rm_ok_rel[OF this demo_file_rel(2)[where L = UNIV]]
  have fhs: "tf_fhs (demo_tables logs) = [''t'' \<mapsto> (3, ?h)]" by (simp add: demo_tables_def)
  show "tables_ok (demo_tables logs)" using r(1) v(2) by (auto simp: tables_ok_def fhs split: if_splits)
  have "file_rec ?h undefined = Map.empty" using h by (auto simp: file_rec_def fun_eq_iff)
  then show "tables_db (demo_tables logs) = (\<lambda>_. Map.empty)" using r(2) by (auto simp: tables_db_def fhs fun_eq_iff)
  show "log_holds (demo_tables logs) logs" if "list_all log_wf logs"
    using dm read_logs_complete[OF that, of "[]"] read_logs.simps[of "[]"]
    by (auto simp: log_holds_def log_open_def demo_tables_def BufferPoolManager_def)
qed

lemma demo_history_ok:
  "list_all log_wf demo_history" "\<forall>r \<in> set demo_history. log_ok (demo_tables logs) r"
  "history_of (\<lambda>_. Map.empty) demo_history" "strict_history (committed_txns demo_history) demo_history"
  "no_aborts demo_history"
  by (simp_all add: demo_history_def log_wf_def make_log_def int32_def log_ok_def place_ok_def demo_tables_def
      init_file_hdr_def Let_def slot_ok_def set_rec_def committed_txns_def no_aborts_def demo_name)



text \<open>Property C23: recovery is idempotent: running it again on the same log, as after a crash right
  after recovery, leaves the contents of all tables as they are.\<close>

theorem recover_idempotent:
  assumes "tables_ok s" "log_holds s logs" "\<forall>r \<in> set logs. log_ok s r"
  shows "\<exists>s2 s3. recovers_to ofd s s2 \<and> recovers_to ofd s2 s3 \<and> tables_db s3 = tables_db s2"
proof -
  obtain s2 where s2: "recovers_to ofd s s2" "tables_ok s2" "tables_db s2 = recover_db logs (tables_db s)" "tables_frame s s2"
    using recovers_to_db[OF assms, of ofd] by blast
  obtain s3 where "recovers_to ofd s2 s3" "tables_db s3 = recover_db logs (tables_db s2)"
    using recovers_to_db[OF s2(2) log_holds_frame[OF s2(4) assms(2)], of ofd] assms(3) log_ok_frame[OF s2(4)] by blast
  with s2 show ?thesis by (metis recover_db_idem)
qed

theorem recover_idempotent_witness:
  "\<exists>s2 s3. recovers_to 9 (demo_tables demo_history) s2 \<and> recovers_to 9 s2 s3 \<and> tables_db s3 = tables_db s2"
  by (rule recover_idempotent[OF demo_tables_ok(1) demo_tables_ok(3)[OF demo_history_ok(1)] demo_history_ok(2)])

text \<open>Property C35: recovery does nothing about a transaction whose abort is in the log: if all
  changes of a place were made by transactions that aborted and did not commit, the place keeps
  what the table file holds, also when that is a value an aborted transaction wrote and the
  roll-back did not reach the file.\<close>

theorem recovery_skips_aborted:
  assumes "tables_ok s" "log_holds s logs" "\<forall>r \<in> set logs. log_ok s r"
    "\<forall>r \<in> set logs. at_place t rid r \<longrightarrow>
       log_tid r \<notin> set (committed_txns logs) \<and> log_tid r \<in> set (finished_txns logs)"
  shows "\<exists>s2. recovers_to ofd s s2 \<and> tables_db s2 t rid = tables_db s t rid"
  using recovers_to_db[OF assms(1-3), of ofd] recover_db_skips[OF assms(4)] by metis

definition demo_aborted :: "LogRecord list" where
  "demo_aborted =
     [make_log 1 BeginLogRecord, make_log 1 (InsertLogRecord (replicate 8 7) (Rid 1 0) [116]), make_log 1 AbortLogRecord]"

theorem recovery_skips_aborted_witness:
  "\<exists>s2. recovers_to 9 (demo_tables demo_aborted) s2 \<and> tables_db s2 ''t'' (Rid 1 0) = None"
proof -
  have "\<forall>r \<in> set demo_aborted. at_place ''t'' (Rid 1 0) r \<longrightarrow>
     log_tid r \<notin> set (committed_txns demo_aborted) \<and> log_tid r \<in> set (finished_txns demo_aborted)"
    by (simp add: demo_aborted_def make_log_def committed_txns_def finished_txns_def)
  moreover have "list_all log_wf demo_aborted" "\<forall>r \<in> set demo_aborted. log_ok (demo_tables demo_aborted) r"
    by (simp_all add: demo_aborted_def log_wf_def make_log_def int32_def log_ok_def place_ok_def demo_tables_def
        init_file_hdr_def Let_def slot_ok_def demo_name)
  ultimately show ?thesis
    using recovery_skips_aborted[OF demo_tables_ok(1) demo_tables_ok(3), of demo_aborted "''t''" "Rid 1 0" 9]
    by (simp add: demo_tables_ok(2))
qed





end
