(* ===== verification/Queries.thy ===== *)
theory Queries
  imports Join Aggregate Recovery
begin

text \<open>
  Queries over the tables of a database: the plans the executors make up (\<open>execution/\<close>) run from
  \<open>beginTuple\<close> to the end and deliver the rows the query asks for. The database keeps its contents;
  only what the buffer pool holds changes.
\<close>

section \<open>Scans of a database\<close>

text \<open>The table is open, its records have the length of its columns, and the conditions of the scan can be
  evaluated on them.\<close>

definition scan_fine :: "database \<Rightarrow> seq_scan \<Rightarrow> bool" where
  "scan_fine w e \<longleftrightarrow> tf_fhs (sm_tables w) (ss_tab_name e) \<noteq> None \<and>
     (\<forall>rid \<in> dom (tables_db (sm_tables w) (ss_tab_name e)).
        (\<exists>b. record_satisfies_conditions (record_at w (ss_tab_name e) rid) (ss_cols e) (ss_conds e) = Inr b) \<and>
        length (record_at w (ss_tab_name e) rid) = ss_len e)"

text \<open>The records that satisfy the conditions, in the order of their identifiers.\<close>

definition scan_rows :: "database \<Rightarrow> seq_scan \<Rightarrow> bytes list" where
  "scan_rows w e =
     filter (\<lambda>r. record_satisfies_conditions r (ss_cols e) (ss_conds e) = Inr True)
       (map (record_at w (ss_tab_name e)) (table_rids w (ss_tab_name e)))"

lemma scan_src:
  assumes "scan_fine w e" "length (table_rids w (ss_tab_name e)) \<le> fuel"
  shows "ss_src fuel w e (scan_rows w e)"
proof -
  have "scan_rows w e = ss_rows w e (table_rids w (ss_tab_name e))"
    by (simp add: scan_rows_def ss_rows_def ss_matches_def satisfies_def[abs_def] filter_map comp_def)
  then show ?thesis using assms by (simp add: ss_src_def scan_fine_def)
qed

lemma scan_rows_length: "length (scan_rows w e) \<le> length (table_rids w (ss_tab_name e))"
  using length_filter_le[of _ "map (record_at w (ss_tab_name e)) (table_rids w (ss_tab_name e))"] by (simp add: scan_rows_def)

lemma scan_rows_len: "scan_fine w e \<Longrightarrow> r \<in> set (scan_rows w e) \<Longrightarrow> length r = ss_len e"
  by (auto simp: scan_rows_def scan_fine_def)

text \<open>A database with one record.\<close>

definition demo_table_cols :: "ColMeta list" where
  "demo_table_cols =
     [\<lparr>cm_tab_name = ''t'', cm_name = ''a'', cm_type = TYPE_INT, cm_len = 4, cm_offset = 0, cm_index = False\<rparr>,
      \<lparr>cm_tab_name = ''t'', cm_name = ''b'', cm_type = TYPE_INT, cm_len = 4, cm_offset = 4, cm_index = False\<rparr>]"

definition demo_catalog :: DbMeta where
  "demo_catalog = \<lparr>db_name = ''d'', db_tabs = [(''t'', \<lparr>tm_name = ''t'', tm_cols = demo_table_cols, tm_indexes = []\<rparr>)]\<rparr>"

definition demo_scan :: seq_scan where
  "demo_scan = \<lparr>ss_tab_name = ''t'', ss_conds = [], ss_cols = demo_table_cols, ss_len = 8, ss_rid = Rid 0 0, ss_scan = None\<rparr>"

lemma demo_database:
  obtains w where "tables_ok (sm_tables w)" "scan_fine w demo_scan" "length (table_rids w ''t'') = 1"
    "scan_rows w demo_scan = [replicate 8 1]" "SeqScanExecutor ''t'' [] w = (Inr demo_scan, w)" "sm_db w = demo_catalog"
    "fd2path (bp_disk (tf_pool (sm_tables w))) = [3 \<mapsto> ''t'', 5 \<mapsto> LOG_FILE_NAME]"
proof -
  let ?s = "demo_tables []" and ?h = "init_file_hdr 8"
  let ?st = "handle 3 ?h (tf_pool ?s)"
  have t: "tf_fhs ?s ''t'' = Some (3, ?h)" by (simp add: demo_tables_def)
  have ok: "rm_ok UNIV ?st" using demo_tables_ok(1)[of "[]"] t unfolding tables_ok_def by blast
  have h: "int32 (num_pages (rm_hdr ?st) + 1)" "length (replicate 8 (1::byte)) = nat (record_size (rm_hdr ?st))"
    by (simp_all add: handle_def init_file_hdr_def Let_def int32_def)
  from insert_record_ok[OF ok h] obtain rid st' where
    i: "insert_record (replicate 8 1) ?st = (Inr rid, st')" "rm_ok UNIV st'" "rm_records st' = (rm_records ?st)(rid \<mapsto> replicate 8 1)" "rm_frame ?st st'" by blast
  from on_file_run[where m = "insert_record (replicate 8 1)", OF demo_tables_ok(1) t i(1,2,4)] obtain s' where
    s': "tables_ok s'" "tables_db s' = (tables_db ?s)(''t'' := rm_records st')" "tables_frame ?s s'" by blast
  have "rm_records ?st = Map.empty" using t demo_tables_ok(2)[of "[]", THEN fun_cong, of "''t''"] by (simp add: tables_db_def)
  then have d: "tables_db s' ''t'' = [rid \<mapsto> replicate 8 1]" using s'(2) i(3) by simp
  have o: "tf_fhs s' ''t'' \<noteq> None" using fun_cong[OF d, of rid] by (cases "tf_fhs s' ''t''") (simp_all add: tables_db_def)
  define w where "w = \<lparr>sm_db = demo_catalog, sm_tables = s', sm_ihs = Map.empty\<rparr>"
  have r: "table_rids w ''t'' = [rid]" "record_at w ''t'' rid = replicate 8 1" using d by (simp_all add: w_def table_rids_def record_at_def)
  show ?thesis
  proof (rule that[of w])
    show "tables_ok (sm_tables w)" using s'(1) by (simp add: w_def)
    show "scan_fine w demo_scan" using o d r(2) by (auto simp: scan_fine_def w_def demo_scan_def)
    show "scan_rows w demo_scan = [replicate 8 1]" using r by (simp add: scan_rows_def demo_scan_def)
    show "SeqScanExecutor ''t'' [] w = (Inr demo_scan, w)"
      using o by (simp add: SeqScanExecutor_def w_def get_table_def demo_catalog_def demo_table_cols_def demo_scan_def)
    show "fd2path (bp_disk (tf_pool (sm_tables w))) = [3 \<mapsto> ''t'', 5 \<mapsto> LOG_FILE_NAME]"
      using s'(3) by (simp add: w_def tables_frame_def demo_tables_def BufferPoolManager_def)
  qed (simp add: r, simp add: w_def)
qed

section \<open>Properties\<close>

text \<open>Property C11: a sequential scan ends and delivers exactly the records of its table that satisfy its
  conditions, each once and in the order of their identifiers, and leaves the contents of the database as they
  are.\<close>

theorem seq_scan_delivers:
  assumes "tables_ok (sm_tables w)" "SeqScanExecutor t conds w = (Inr e, w0)" "scan_fine w e" "length (table_rids w t) \<le> fuel"
  shows "\<exists>w' e'. run_query fuel (seq_scan_ops fuel) (w, e) =
      (Inr (map Some (filter (\<lambda>r. record_satisfies_conditions r (ss_cols e) conds = Inr True) (map (record_at w t) (table_rids w t)))), (w', e')) \<and>
    db_view w w'"
proof -
  have e: "ss_tab_name e = t" "ss_conds e = conds"
    using assms(2) by (auto simp: SeqScanExecutor_def split: sum.splits if_splits)
  have s: "ss_src fuel w e (scan_rows w e)" using scan_src[OF assms(3)] assms(4) e(1) by simp
  have "length (scan_rows w e) \<le> fuel" using scan_rows_length[of w e] assms(4) e(1) by simp
  from ss.run_ok[OF db_view_refl[OF assms(1)] s this] show ?thesis using e by (auto simp: scan_rows_def)
qed

theorem seq_scan_delivers_witness:
  "\<exists>w w' e'. SeqScanExecutor ''t'' [] w = (Inr demo_scan, w) \<and>
     run_query 1 (seq_scan_ops 1) (w, demo_scan) = (Inr [Some (replicate 8 1)], (w', e'))"
proof (rule demo_database)
  fix w assume w: "tables_ok (sm_tables w)" "scan_fine w demo_scan" "length (table_rids w ''t'') = 1"
    "scan_rows w demo_scan = [replicate 8 1]" "SeqScanExecutor ''t'' [] w = (Inr demo_scan, w)"
  have "length (table_rids w ''t'') \<le> 1" using w(3) by simp
  from seq_scan_delivers[OF w(1,5,2) this] obtain w' e' where
    "run_query 1 (seq_scan_ops 1) (w, demo_scan) = (Inr (map Some (scan_rows w demo_scan)), (w', e'))"
    by (auto simp: scan_rows_def demo_scan_def)
  with w(4,5) show ?thesis by auto
qed

text \<open>Property C16: a projection of a scan delivers, for each row of the scan and in their order, the
  concatenation of the fields of the selected columns.\<close>

theorem projection_delivers:
  assumes "tables_ok (sm_tables w)" "scan_fine w e" "length (table_rids w (ss_tab_name e)) \<le> fuel"
    "cols_wf (ss_len e) (ss_cols e)" "ProjectionExecutor (seq_scan_ops fuel) e sels = Inr p"
  shows "\<exists>cs w' p'. list_all2 (\<lambda>sel col. find_col_meta (ss_cols e) sel = Inr col) sels cs \<and>
    run_query fuel (projection_ops (seq_scan_ops fuel)) (w, p) =
      (Inr (map (\<lambda>r. Some (concat (map (\<lambda>col. field col r) cs))) (scan_rows w e)), (w', p')) \<and> db_view w w'"
proof -
  let ?ops = "seq_scan_ops fuel"
  have c: "cols ?ops e = ss_cols e" "tupleLen ?ops e = ss_len e" by (simp_all add: seq_scan_ops_def)
  note p = ProjectionExecutor_ok[OF assms(5), unfolded c, OF assms(4)]
  have "project_record ?ops p r = concat (map (\<lambda>col. field col r) (picked_cols ?ops p))" if "r \<in> set (scan_rows w e)" for r
    using project_record_fields(1)[OF p(1)] scan_rows_len[OF assms(2) that] p(2) c(2) by simp
  then have rows: "map (project_record ?ops p) (scan_rows w e) = map (\<lambda>r. concat (map (\<lambda>col. field col r) (picked_cols ?ops p))) (scan_rows w e)" by simp
  have src: "pr_src ?ops (ss_src fuel w) p (map (project_record ?ops p) (scan_rows w e))"
    using p(1,2) scan_src[OF assms(2,3)] by (auto simp: pr_src_def)
  have "length (map (project_record ?ops p) (scan_rows w e)) \<le> fuel" using scan_rows_length[of w e] assms(3) by simp
  from row_source.run_ok[OF projection_source[OF ss.row_source_axioms] db_view_refl[OF assms(1)] src this] rows p(3)
  show ?thesis by (auto simp: comp_def)
qed

theorem projection_delivers_witness:
  "\<exists>w p. (\<exists>w' p'. run_query 1 (projection_ops (seq_scan_ops 1)) (w, p) = (Inr [Some (replicate 4 1)], (w', p')))"
proof (rule demo_database)
  fix w assume w: "tables_ok (sm_tables w)" "scan_fine w demo_scan" "length (table_rids w ''t'') = 1" "scan_rows w demo_scan = [replicate 8 1]"
  let ?sel = "\<lparr>tc_tab_name = ''t'', tc_col_name = ''b''\<rparr>"
  obtain p where p: "ProjectionExecutor (seq_scan_ops 1) demo_scan [?sel] = Inr p"
    by (simp add: ProjectionExecutor_def find_col_meta_def seq_scan_ops_def demo_scan_def demo_table_cols_def)
  have "cols_wf (ss_len demo_scan) (ss_cols demo_scan)" "length (table_rids w (ss_tab_name demo_scan)) \<le> 1"
    using w(3) by (simp_all add: cols_wf_def demo_scan_def demo_table_cols_def)
  from projection_delivers[OF w(1,2) this(2,1) p] w(4) show ?thesis
    by (auto simp: list_all2_Cons1 find_col_meta_def demo_scan_def demo_table_cols_def field_def mem_get_def numeral_eq_Suc)
qed







end
