(* ===== verification/Printer.thy ===== *)
theory Printer
  imports Queries
begin

text \<open>
  Showing the result of a query (\<open>record_printer.h\<close>, \<open>QlManager::select_from\<close> of
  \<open>execution/execution_manager.cpp\<close>, and the listings of \<open>system/sm_manager.cpp\<close>). The buffer for the client is the text
  in its first \<open>*offset_\<close> bytes; it has room for \<open>BUFFER_LENGTH\<close> bytes, and nothing but the tests of
  the printer keeps a copy within them. The file \<open>output.txt\<close> is the text appended to it.
\<close>

section \<open>The output buffer\<close>

record out_state =
  sent :: string
  ellipsis :: bool
  outfile :: string

abbreviation BUFFER_LENGTH :: nat where "BUFFER_LENGTH \<equiv> 8192"
abbreviation RECORD_COUNT_LENGTH :: nat where "RECORD_COUNT_LENGTH \<equiv> 40"
abbreviation COL_WIDTH :: nat where "COL_WIDTH \<equiv> 16"

definition has_room :: "nat \<Rightarrow> string \<Rightarrow> out_state \<Rightarrow> bool" where
  "has_room reserve str c \<longleftrightarrow> \<not> ellipsis c \<and> length (sent c) + reserve + length str < BUFFER_LENGTH"

definition send_text :: "nat \<Rightarrow> string \<Rightarrow> out_state \<Rightarrow> out_state" where
  "send_text reserve str c =
     (if has_room reserve str c then c\<lparr>sent := sent c @ str\<rparr> else c\<lparr>ellipsis := True\<rparr>)"

definition write_file :: "string \<Rightarrow> out_state \<Rightarrow> out_state" where
  "write_file str c = c\<lparr>outfile := outfile c @ str\<rparr>"

definition print_separator :: "nat \<Rightarrow> out_state \<Rightarrow> out_state" where
  "print_separator num_cols c =
     send_text RECORD_COUNT_LENGTH (''+'' @ newline)
       (fold (\<lambda>str. send_text RECORD_COUNT_LENGTH str) (replicate num_cols (''+'' @ replicate (COL_WIDTH + 2) (CHR ''-''))) c)"

text \<open>A cell: text that is too long is cut, shorter text is set to the right.\<close>

definition cell :: "string \<Rightarrow> string" where
  "cell str =
     (let col = (if COL_WIDTH < length str then take (COL_WIDTH - 3) str @ ''...'' else str)
      in ''| '' @ replicate (COL_WIDTH - length col) (CHR '' '') @ col @ '' '')"

text \<open>When there is no room for the end of the line it is left out, and nothing marks that.\<close>

definition end_line :: "out_state \<Rightarrow> out_state" where
  "end_line c =
     (if has_room RECORD_COUNT_LENGTH (''|'' @ newline) c then c\<lparr>sent := sent c @ ''|'' @ newline\<rparr> else c)"

definition print_cells :: "string list \<Rightarrow> out_state \<Rightarrow> out_state" where
  "print_cells rec_str c = end_line (fold (\<lambda>col. send_text RECORD_COUNT_LENGTH (cell col)) rec_str c)"

definition print_rec :: "nat \<Rightarrow> string list \<Rightarrow> out_state \<Rightarrow> rmdb_error + out_state" where
  "print_rec num_cols rec_str c =
     (if length rec_str \<noteq> num_cols then Inl AssertionFailure else Inr (print_cells rec_str c))"

definition count_text :: "nat \<Rightarrow> bool \<Rightarrow> string" where
  "count_text num_rec short =
     (if short then ''... ...'' @ newline else []) @ ''Total record(s): '' @ nat_to_string num_rec @ newline"

definition print_record_count :: "nat \<Rightarrow> out_state \<Rightarrow> out_state" where
  "print_record_count num_rec c = c\<lparr>sent := sent c @ count_text num_rec (ellipsis c)\<rparr>"

section \<open>The text of a field\<close>

definition div_round_even :: "int \<Rightarrow> int \<Rightarrow> int" where
  "div_round_even n d =
     (let q = n div d; r = n mod d in if d < 2 * r \<or> d = 2 * r \<and> odd q then q + 1 else q)"

text \<open>The conversion \<open>%f\<close>: six digits after the point, the last one rounded to the nearest.\<close>

definition float_to_string :: "float32 \<Rightarrow> string" where
  "float_to_string u =
     (if 2 ^ 31 \<le> u then ''-'' else []) @
     (if float_nan u then ''nan''
      else if float_inf u then ''inf''
      else
        let micro = div_round_even (scale_mag (float_mag u) * 10 ^ 6) ld_unit
        in int_to_string (micro div 10 ^ 6) @ ''.'' @ fmt_int 6 (micro mod 10 ^ 6))"

definition text_at :: "ColType \<Rightarrow> bytes \<Rightarrow> int \<Rightarrow> string" where
  "text_at type rec_buf len =
     (case type of
        TYPE_INT \<Rightarrow> int_to_string (le_sint (take 4 rec_buf))
      | TYPE_BIGINT \<Rightarrow> int_to_string (le_sint (take 8 rec_buf))
      | TYPE_FLOAT \<Rightarrow> float_to_string (le_uint (take 4 rec_buf))
      | TYPE_DATETIME \<Rightarrow> format_datetime_value (le_sint (take 8 rec_buf))
      | TYPE_STRING \<Rightarrow> map (\<lambda>b. char_of (unat b)) (takeWhile (\<lambda>b. b \<noteq> 0) (take (nat len) rec_buf)))"

definition row_text :: "ColMeta list \<Rightarrow> bytes \<Rightarrow> string list" where
  "row_text cs rec = map (\<lambda>col. text_at (cm_type col) (drop (nat (cm_offset col)) rec) (cm_len col)) cs"

definition file_line :: "string list \<Rightarrow> string" where
  "file_line strs = ''|'' @ concat (map (\<lambda>str. '' '' @ str @ '' |'') strs) @ newline"

section \<open>Running a query\<close>

type_synonym 'e select_state = "(database \<times> 'e) \<times> out_state"

definition on_exec :: "(database \<times> 'e, 'a) comp \<Rightarrow> ('e select_state, 'a) comp" where
  "on_exec m s = (case m (fst s) of (r, x) \<Rightarrow> (r, (x, snd s)))"

definition on_out :: "(out_state \<Rightarrow> out_state) \<Rightarrow> ('e select_state, unit) comp" where
  "on_out f = modifyE (\<lambda>(x, c). (x, f c))"

definition try_out :: "(out_state \<Rightarrow> rmdb_error + out_state) \<Rightarrow> ('e select_state, unit) comp" where
  "try_out f s = (case f (snd s) of Inl e \<Rightarrow> (Inl e, s) | Inr c \<Rightarrow> (Inr (), (fst s, c)))"

definition select_row :: "nat \<Rightarrow> 'e exec_ops \<Rightarrow> ('e select_state, unit) comp" where
  "select_row num_cols ops =
     bindE (on_exec (Next ops)) (\<lambda>tuple.
       case tuple of
         None \<Rightarrow> throwE UndefinedBehaviour
       | Some rec \<Rightarrow>
           bindE (getE (\<lambda>s. row_text (cols ops (snd (fst s))) rec)) (\<lambda>columns.
             thenE (try_out (print_rec num_cols columns))
               (on_out (write_file (file_line columns)))))"

fun select_loop :: "nat \<Rightarrow> nat \<Rightarrow> 'e exec_ops \<Rightarrow> nat \<Rightarrow> ('e select_state, nat) comp" where
  "select_loop fuel num_cols ops num_rec =
     bindE (getE (\<lambda>s. is_end ops (fst s))) (\<lambda>ended.
       if ended then returnE num_rec
       else
         (case fuel of
            0 \<Rightarrow> throwE OutOfFuel
          | Suc fuel' \<Rightarrow>
              thenE (select_row num_cols ops)
                (thenE (on_exec (nextTuple ops)) (select_loop fuel' num_cols ops (Suc num_rec)))))"

declare select_loop.simps [simp del]

definition select_from :: "nat \<Rightarrow> 'e exec_ops \<Rightarrow> TabCol list \<Rightarrow> ('e select_state, unit) comp" where
  "select_from fuel ops targets =
     (let captions = map tc_col_name targets; n = length targets in
      if n = 0 then throwE AssertionFailure
      else
        thenE (on_out (print_separator n))
          (thenE (try_out (print_rec n captions))
            (thenE (on_out (print_separator n))
              (thenE (on_out (write_file (file_line captions)))
                (thenE (on_exec (beginTuple ops))
                  (bindE (select_loop fuel n ops 0) (\<lambda>num_rec.
                    thenE (on_out (print_separator n))
                      (on_out (print_record_count num_rec)))))))))"

section \<open>Listings of the catalog\<close>

definition format_index_column_list :: "ColMeta list \<Rightarrow> string" where
  "format_index_column_list cs =
     ''('' @ (case cs of [] \<Rightarrow> [] | c # cs' \<Rightarrow> cm_name c @ concat (map (\<lambda>c. '','' @ cm_name c) cs')) @ '')''"

definition append_context_line :: "string \<Rightarrow> out_state \<Rightarrow> out_state" where
  "append_context_line line c = send_text 0 line c"

definition show_tables :: "DbMeta \<Rightarrow> out_state \<Rightarrow> out_state" where
  "show_tables db c =
     print_separator 1
       (fold (\<lambda>(_, tab) c. write_file (''| '' @ tm_name tab @ '' |'' @ newline) (print_cells [tm_name tab] c)) (db_tabs db)
         (print_separator 1 (print_cells [''Tables''] (print_separator 1 (write_file (''| Tables |'' @ newline) c)))))"

definition show_index :: "DbMeta \<Rightarrow> string \<Rightarrow> out_state \<Rightarrow> rmdb_error + out_state" where
  "show_index db tab_name c =
     (case get_table db tab_name of
        Inl e \<Rightarrow> Inl e
      | Inr tab \<Rightarrow>
          Inr (fold (\<lambda>index c.
            let line = ''| '' @ tm_name tab @ '' | unique | '' @ format_index_column_list (im_cols index) @ '' |'' @ newline
            in write_file line (append_context_line line c)) (tm_indexes tab) c))"

definition desc_table :: "DbMeta \<Rightarrow> string \<Rightarrow> out_state \<Rightarrow> rmdb_error + out_state" where
  "desc_table db tab_name c =
     (case get_table db tab_name of
        Inl e \<Rightarrow> Inl e
      | Inr tab \<Rightarrow>
          Inr (print_separator 3
            (fold (\<lambda>col. print_cells [cm_name col, coltype2str (cm_type col), if cm_index col then ''YES'' else ''NO'']) (tm_cols tab)
              (print_separator 3 (print_cells [''Field'', ''Type'', ''Index''] (print_separator 3 c))))))"

section \<open>The buffer is never overrun\<close>

definition fits :: "out_state \<Rightarrow> bool" where
  "fits c \<longleftrightarrow> length (sent c) + RECORD_COUNT_LENGTH < BUFFER_LENGTH"

text \<open>The buffer holds all of a text, or it is marked as cut, or so full that whatever is printed next will mark it.\<close>

definition shows_text :: "string \<Rightarrow> out_state \<Rightarrow> bool" where
  "shows_text t c \<longleftrightarrow> ellipsis c \<or> sent c = t \<or> BUFFER_LENGTH \<le> length (sent c) + RECORD_COUNT_LENGTH + 2"

lemma fits_send [simp]: "fits c \<Longrightarrow> fits (send_text RECORD_COUNT_LENGTH str c)"
  by (simp add: send_text_def has_room_def fits_def)

lemma fits_fold [simp]: "fits c \<Longrightarrow> fits (fold (\<lambda>str. send_text RECORD_COUNT_LENGTH (f str)) strs c)"
  by (induction strs arbitrary: c) simp_all

lemma fits_separator [simp]: "fits c \<Longrightarrow> fits (print_separator n c)"
  unfolding print_separator_def by (intro fits_send fits_fold[where f = "\<lambda>x. x"])

lemma fits_print [simp]: "fits c \<Longrightarrow> fits (print_cells strs c)" "fits (write_file str c) = fits c"
proof -
  have "fits c \<Longrightarrow> fits (end_line c)" for c by (simp add: end_line_def has_room_def fits_def)
  then show "fits c \<Longrightarrow> fits (print_cells strs c)" by (simp add: print_cells_def)
qed (simp add: fits_def write_file_def)

lemma shows_send: "shows_text t c \<Longrightarrow> 2 \<le> length str \<Longrightarrow> shows_text (t @ str) (send_text RECORD_COUNT_LENGTH str c)"
  "shows_text t c \<Longrightarrow> 2 \<le> length str \<Longrightarrow> \<not> ellipsis (send_text RECORD_COUNT_LENGTH str c) \<Longrightarrow>
     sent (send_text RECORD_COUNT_LENGTH str c) = t @ str"
  by (auto simp: shows_text_def send_text_def has_room_def)

lemma shows_fold:
  "shows_text t c \<Longrightarrow> \<forall>x \<in> set xs. 2 \<le> length (f x) \<Longrightarrow>
     shows_text (t @ concat (map f xs)) (fold (\<lambda>x. send_text RECORD_COUNT_LENGTH (f x)) xs c)"
proof (induction xs arbitrary: t c)
  case (Cons x xs)
  then show ?case using Cons.IH[OF shows_send(1)[OF Cons.prems(1), of "f x"]] by simp
qed simp

lemma length_cell: "2 \<le> length (cell str)"
  by (simp add: cell_def Let_def)

definition separator_text :: "nat \<Rightarrow> string" where
  "separator_text n = concat (replicate n (''+'' @ replicate (COL_WIDTH + 2) (CHR ''-''))) @ ''+'' @ newline"

definition record_text :: "string list \<Rightarrow> string" where
  "record_text strs = concat (map cell strs) @ ''|'' @ newline"

lemma shows_separator: "shows_text t c \<Longrightarrow> shows_text (t @ separator_text n) (print_separator n c)"
  "shows_text t c \<Longrightarrow> \<not> ellipsis (print_separator n c) \<Longrightarrow> sent (print_separator n c) = t @ separator_text n"
proof -
  let ?xs = "replicate n (''+'' @ replicate (COL_WIDTH + 2) (CHR ''-''))"
  assume "shows_text t c"
  then have "shows_text (t @ concat ?xs) (fold (\<lambda>x. send_text RECORD_COUNT_LENGTH x) ?xs c)"
    using shows_fold[of t c ?xs "\<lambda>x. x"] by simp
  note shows_send[OF this, of "''+'' @ newline"]
  then show "shows_text (t @ separator_text n) (print_separator n c)"
    "\<not> ellipsis (print_separator n c) \<Longrightarrow> sent (print_separator n c) = t @ separator_text n"
    by (simp_all add: print_separator_def separator_text_def)
qed

lemma shows_record: "shows_text t c \<Longrightarrow> shows_text (t @ record_text strs) (print_cells strs c)"
proof -
  assume "shows_text t c"
  then have "shows_text (t @ concat (map cell strs)) (fold (\<lambda>x. send_text RECORD_COUNT_LENGTH (cell x)) strs c)"
    using shows_fold[of t c strs cell] length_cell by simp
  then show ?thesis by (auto simp: print_cells_def end_line_def record_text_def shows_text_def has_room_def)
qed

lemma shows_write [simp]: "shows_text t (write_file str c) = shows_text t c"
  by (simp add: shows_text_def write_file_def)

lemma outfile_send [simp]: "outfile (send_text r str c) = outfile c" "outfile (end_line c) = outfile c"
  by (simp_all add: send_text_def end_line_def)

lemma outfile_fold [simp]: "outfile (fold (\<lambda>x. send_text r (f x)) xs c) = outfile c"
  by (induction xs arbitrary: c) simp_all

lemma outfile_separator [simp]: "outfile (print_separator n c) = outfile c"
  unfolding print_separator_def by (simp only: outfile_send outfile_fold[where f = "\<lambda>x. x"])

lemma outfile_print [simp]: "outfile (print_cells strs c) = outfile c" "outfile (write_file str c) = outfile c @ str"
  by (simp_all add: print_cells_def write_file_def)

section \<open>The printed table\<close>

definition print_rows :: "string list list \<Rightarrow> out_state \<Rightarrow> out_state" where
  "print_rows rows = fold (\<lambda>row c. write_file (file_line row) (print_cells row c)) rows"

lemma print_rows_ok:
  "fits c \<Longrightarrow> fits (print_rows rows c)" "outfile (print_rows rows c) = outfile c @ concat (map file_line rows)"
  "shows_text t c \<Longrightarrow> shows_text (t @ concat (map record_text rows)) (print_rows rows c)"
proof -
  show "fits c \<Longrightarrow> fits (print_rows rows c)" by (induction rows arbitrary: c) (simp_all add: print_rows_def)
  show "outfile (print_rows rows c) = outfile c @ concat (map file_line rows)" by (induction rows arbitrary: c) (simp_all add: print_rows_def)
  show "shows_text t c \<Longrightarrow> shows_text (t @ concat (map record_text rows)) (print_rows rows c)"
  proof (induction rows arbitrary: c t)
    case (Cons row rows)
    from Cons.IH[of "t @ record_text row" "write_file (file_line row) (print_cells row c)"] shows_record[OF Cons.prems, of row]
    show ?case by (simp add: print_rows_def)
  qed (simp add: print_rows_def)
qed

text \<open>The whole of the table, as it is printed when there is room.\<close>

definition table_text :: "string list \<Rightarrow> string list list \<Rightarrow> string" where
  "table_text captions rows =
     separator_text (length captions) @ record_text captions @ separator_text (length captions) @
     concat (map record_text rows) @ separator_text (length captions) @ count_text (length rows) False"

definition print_table :: "string list \<Rightarrow> string list list \<Rightarrow> out_state \<Rightarrow> out_state" where
  "print_table captions rows c =
     (let n = length captions
      in print_record_count (length rows)
           (print_separator n
             (print_rows rows (write_file (file_line captions) (print_separator n (print_cells captions (print_separator n c)))))))"

lemma print_table_ok:
  assumes "sent c = []" "\<not> ellipsis c" "length rows < 10 ^ 14"
  shows "length (sent (print_table captions rows c)) < BUFFER_LENGTH"
    "outfile (print_table captions rows c) = outfile c @ file_line captions @ concat (map file_line rows)"
    "ellipsis (print_table captions rows c) \<or> sent (print_table captions rows c) = table_text captions rows"
proof -
  let ?n = "length captions"
  let ?h = "write_file (file_line captions) (print_separator ?n (print_cells captions (print_separator ?n c)))"
  let ?c = "print_separator ?n (print_rows rows ?h)"
  have f: "fits ?c" using assms(1) by (simp add: print_rows_ok(1) fits_def[of c])
  have "length (nat_to_string (length rows)) \<le> 14" using length_nat_to_string[of 14 "length rows"] assms(3) by simp
  then have "length (count_text (length rows) b) \<le> RECORD_COUNT_LENGTH" for b by (simp add: count_text_def)
  from this[of "ellipsis ?c"] show "length (sent (print_table captions rows c)) < BUFFER_LENGTH"
    using f by (simp add: print_table_def print_record_count_def Let_def fits_def)
  show "outfile (print_table captions rows c) = outfile c @ file_line captions @ concat (map file_line rows)"
    by (simp add: print_table_def print_record_count_def Let_def print_rows_ok(2))
  have "shows_text [] c" using assms(1) by (simp add: shows_text_def)
  from shows_separator(1)[OF shows_record[OF shows_separator(1)[OF this]], of ?n captions ?n]
  have "shows_text (separator_text ?n @ record_text captions @ separator_text ?n) ?h" by simp
  note rows = shows_separator(2)[OF print_rows_ok(3)[OF this], of ?n rows]
  show "ellipsis (print_table captions rows c) \<or> sent (print_table captions rows c) = table_text captions rows"
  proof (cases "ellipsis ?c")
    case False
    then show ?thesis using rows[OF False] by (simp add: print_table_def print_record_count_def Let_def table_text_def)
  qed (simp add: print_table_def print_record_count_def Let_def)
qed

section \<open>The loop over the rows\<close>

lemma select_cols_length: "select_cols cs sels off = Inr picks \<Longrightarrow> length picks = length sels"
  by (induction sels arbitrary: off picks) (auto split: sum.splits)

context row_source
begin

lemma select_loop_ok:
  assumes "W w" "src e rows" "cur e rest" "length rest \<le> fuel" "length (cols ops e) = n"
  shows "\<exists>w' e'. select_loop fuel n ops k ((w, e), c) =
      (Inr (k + length rest), ((w', e'), print_rows (map (row_text (cols ops e)) rest) c)) \<and> W w'"
  using assms
proof (induction rest arbitrary: w e fuel k c)
  case Nil
  then show ?case using end_ok[OF Nil(1-3)] by (subst select_loop.simps) (auto simp: print_rows_def)
next
  case (Cons r rest)
  obtain fuel' where f: "fuel = Suc fuel'" "length rest \<le> fuel'" using Cons.prems(4) by (cases fuel) auto
  obtain w1 where g: "Next ops (w, e) = (Inr (Some r), (w1, e))" "W w1" using get_ok[OF Cons.prems(1-3)] by blast
  obtain w2 e2 where n: "nextTuple ops (w1, e) = (Inr (), (w2, e2))" "W w2" "src e2 rows" "cur e2 rest" "kept ops e e2"
    using next_ok[OF g(2) Cons.prems(2,3)] by blast
  let ?c = "write_file (file_line (row_text (cols ops e) r)) (print_cells (row_text (cols ops e) r) c)"
  have c2: "cols ops e2 = cols ops e" using n(5) by (simp add: kept_def)
  obtain w' e' where d: "select_loop fuel' n ops (Suc k) ((w2, e2), ?c) =
      (Inr (Suc k + length rest), ((w', e'), print_rows (map (row_text (cols ops e2)) rest) ?c))" "W w'"
    using Cons.IH[OF n(2-4) f(2)] c2 Cons.prems(5) by metis
  have "select_row n ops ((w, e), c) = (Inr (), ((w1, e), ?c))"
    using g(1) Cons.prems(5)
    by (simp add: select_row_def on_exec_def try_out_def on_out_def print_rec_def row_text_def bindE_Inr thenE_Inr)
  then have "select_loop fuel n ops k ((w, e), c) =
      (Inr (k + length (r # rest)), ((w', e'), print_rows (map (row_text (cols ops e)) (r # rest)) c))"
    using end_ok[OF Cons.prems(1-3)] f(1) n(1) d(1) c2
    by (subst select_loop.simps) (simp add: bindE_Inr thenE_Inr on_exec_def print_rows_def)
  then show ?case using d(2) by blast
qed

lemma select_from_ok:
  assumes "W w" "src e rows" "length rows \<le> fuel" "length (cols ops e) = length targets" "targets \<noteq> []"
  shows "\<exists>w' e'. select_from fuel ops targets ((w, e), c) =
    (Inr (), ((w', e'), print_table (map tc_col_name targets) (map (row_text (cols ops e)) rows) c)) \<and> W w'"
proof -
  let ?n = "length targets" and ?cap = "map tc_col_name targets"
  let ?c = "write_file (file_line ?cap) (print_separator ?n (print_cells ?cap (print_separator ?n c)))"
  obtain w1 e1 where b: "beginTuple ops (w, e) = (Inr (), (w1, e1))" "W w1" "src e1 rows" "cur e1 rows" "kept ops e e1"
    using begin_ok[OF assms(1,2)] by blast
  have c1: "cols ops e1 = cols ops e" using b(5) by (simp add: kept_def)
  obtain w' e' where l: "select_loop fuel ?n ops 0 ((w1, e1), ?c) =
      (Inr (length rows), ((w', e'), print_rows (map (row_text (cols ops e)) rows) ?c))" "W w'"
    using select_loop_ok[OF b(2-4) assms(3), of ?n 0 ?c] assms(4) c1 by auto
  have "select_from fuel ops targets ((w, e), c) =
    (Inr (), ((w', e'), print_table ?cap (map (row_text (cols ops e)) rows) c))"
    using b(1) l(1) assms(5)
    by (simp add: select_from_def on_exec_def try_out_def on_out_def print_rec_def print_table_def Let_def bindE_Inr thenE_Inr)
  then show ?thesis using l(2) by blast
qed

end


definition demo_projection :: "seq_scan projection" where
  "demo_projection = \<lparr>pr_prev = demo_scan, pr_cols = [(demo_table_cols ! 1)\<lparr>cm_offset := 0\<rparr>], pr_len = 4, sel_idxs = [1]\<rparr>"

definition empty_out :: out_state where
  "empty_out = \<lparr>sent = [], ellipsis = False, outfile = []\<rparr>"


end
