(* ===== verification/Transaction.thy ===== *)
theory Transaction
  imports RecordPage
begin

unbundle bit_operations_syntax

text \<open>
  Transactions and the identities of lockable objects (\<open>transaction/txn_defs.h\<close>,
  \<open>transaction/transaction.h\<close>). The \<open>lock_set_\<close> of a transaction is a list without
  duplicates: its order stands for the iteration order of the hash set.
\<close>

datatype TransactionState = DEFAULT | GROWING | SHRINKING | COMMITTED | ABORTED

datatype IsolationLevel = READ_UNCOMMITTED | REPEATABLE_READ | READ_COMMITTED | SERIALIZABLE

datatype WType = INSERT_TUPLE | DELETE_TUPLE | UPDATE_TUPLE

text \<open>The record of a write; an insertion has no stored image.\<close>

record WriteRecord =
  wr_type :: WType
  wr_tab_name :: string
  wr_rid :: Rid
  wr_record :: "bytes option"

datatype LockDataType = TABLE | RECORD

datatype LockDataId = LockDataId (ld_fd: int) (ld_rid: Rid) (ld_type: LockDataType)

definition table_lock_id :: "int \<Rightarrow> LockDataId" where
  "table_lock_id fd = LockDataId fd (Rid (-1) (-1)) TABLE"

definition record_lock_id :: "int \<Rightarrow> Rid \<Rightarrow> LockDataId" where
  "record_lock_id fd rid = LockDataId fd rid RECORD"

text \<open>The key \<open>Get\<close> hashes, in 64-bit arithmetic (\<open>TABLE\<close> is 0, \<open>RECORD\<close> is 1).\<close>

definition LockDataId_Get :: "LockDataId \<Rightarrow> 64 word" where
  "LockDataId_Get l =
     (case ld_type l of
        TABLE \<Rightarrow> word_of_int (ld_fd l)
      | RECORD \<Rightarrow>
          push_bit 63 1 OR push_bit 31 (word_of_int (ld_fd l)) OR
          push_bit 16 (word_of_int (rid_page_no (ld_rid l))) OR word_of_int (rid_slot_no (ld_rid l)))"

datatype TransactionAbortException =
  TransactionAbortException (abort_txn_id: txn_id_t) (abort_reason: AbortReason)

definition GetInfo :: "TransactionAbortException \<Rightarrow> string" where
  "GetInfo e =
     (let who = ''Transaction '' @ int_to_string (abort_txn_id e) in
      case abort_reason e of
        LOCK_ON_SHIRINKING \<Rightarrow> who @ '' aborted because it cannot request locks on SHRINKING phase'' @ [char_of (10 :: nat)]
      | UPGRADE_CONFLICT \<Rightarrow> who @ '' aborted because another transaction is waiting for upgrading'' @ [char_of (10 :: nat)]
      | DEADLOCK_PREVENTION \<Rightarrow> who @ '' aborted for deadlock prevention'' @ [char_of (10 :: nat)])"

record transaction =
  txn_mode :: bool
  txn_state :: TransactionState
  isolation_level :: IsolationLevel
  prev_lsn :: lsn_t
  txn_id :: txn_id_t
  start_ts :: timestamp_t
  write_set :: "WriteRecord list"
  lock_set :: "LockDataId list"
  index_latch_page_set :: "int list"
  index_deleted_page_set :: "int list"

text \<open>The constructor; \<open>junk\<close> is the timestamp it leaves uninitialised.\<close>

definition new_transaction :: "timestamp_t \<Rightarrow> txn_id_t \<Rightarrow> transaction" where
  "new_transaction junk tid =
     \<lparr>txn_mode = False, txn_state = DEFAULT, isolation_level = SERIALIZABLE, prev_lsn = INVALID_LSN,
      txn_id = tid, start_ts = junk, write_set = [], lock_set = [], index_latch_page_set = [],
      index_deleted_page_set = []\<rparr>"

definition append_write_record :: "WriteRecord \<Rightarrow> transaction \<Rightarrow> transaction" where
  "append_write_record w t = t\<lparr>write_set := write_set t @ [w]\<rparr>"

definition lock_set_insert :: "LockDataId \<Rightarrow> transaction \<Rightarrow> transaction" where
  "lock_set_insert l t = t\<lparr>lock_set := List.insert l (lock_set t)\<rparr>"

definition lock_set_erase :: "LockDataId \<Rightarrow> transaction \<Rightarrow> transaction" where
  "lock_set_erase l t = t\<lparr>lock_set := removeAll l (lock_set t)\<rparr>"

lemma lock_set_ops [simp]:
  "set (lock_set (lock_set_insert l t)) = insert l (set (lock_set t))"
  "set (lock_set (lock_set_erase l t)) = set (lock_set t) - {l}"
  "txn_id (lock_set_insert l t) = txn_id t" "txn_id (lock_set_erase l t) = txn_id t"
  "txn_state (lock_set_insert l t) = txn_state t" "txn_state (lock_set_erase l t) = txn_state t"
  by (simp_all add: lock_set_insert_def lock_set_erase_def)

end
