(* ===== verification/LockManager.thy ===== *)
theory LockManager
  imports Transaction
begin

text \<open>
  The lock manager (\<open>transaction/concurrency/lock_manager.h\<close>, \<open>lock_manager.cpp\<close>): no-wait
  two-phase locking with a queue of requests per object. The transaction is passed by pointer,
  so every operation returns it updated; the latch makes each call atomic, and an interleaving
  of transactions is a sequence of calls. The step relation \<open>lock_step\<close> ranges over all of them.
\<close>

section \<open>Lock modes\<close>

datatype LockMode = SHARED | EXLUCSIVE | INTENTION_SHARED | INTENTION_EXCLUSIVE | S_IX

datatype GroupLockMode = NON_LOCK | IS | IX | S | X | SIX

record LockRequest =
  lr_txn_id :: txn_id_t
  lr_mode :: LockMode
  lr_granted :: bool

record LockRequestQueue =
  request_queue :: "LockRequest list"
  group_lock_mode :: GroupLockMode

type_synonym lock_table = "LockDataId \<rightharpoonup> LockRequestQueue"

definition empty_queue :: LockRequestQueue where
  "empty_queue = \<lparr>request_queue = [], group_lock_mode = NON_LOCK\<rparr>"

fun group_mode_for :: "LockMode \<Rightarrow> GroupLockMode" where
  "group_mode_for SHARED = S"
| "group_mode_for EXLUCSIVE = X"
| "group_mode_for INTENTION_SHARED = IS"
| "group_mode_for INTENTION_EXCLUSIVE = IX"
| "group_mode_for S_IX = SIX"

fun group_mode_rank :: "GroupLockMode \<Rightarrow> int" where
  "group_mode_rank NON_LOCK = 0"
| "group_mode_rank IS = 1"
| "group_mode_rank IX = 2"
| "group_mode_rank S = 3"
| "group_mode_rank SIX = 4"
| "group_mode_rank X = 5"

definition is_compatible :: "LockMode \<Rightarrow> LockMode \<Rightarrow> bool" where
  "is_compatible held_mode request_mode =
     (if held_mode = EXLUCSIVE \<or> request_mode = EXLUCSIVE then False
      else if held_mode = S_IX \<or> request_mode = S_IX
        then held_mode = INTENTION_SHARED \<or> request_mode = INTENTION_SHARED
      else if held_mode = SHARED then request_mode = SHARED \<or> request_mode = INTENTION_SHARED
      else if request_mode = SHARED then held_mode = SHARED \<or> held_mode = INTENTION_SHARED
      else True)"

definition refresh_group_lock_mode :: "LockRequestQueue \<Rightarrow> LockRequestQueue" where
  "refresh_group_lock_mode q =
     q\<lparr>group_lock_mode :=
        fold (\<lambda>r g.
           if \<not> lr_granted r then g
           else if group_mode_rank g < group_mode_rank (group_mode_for (lr_mode r))
             then group_mode_for (lr_mode r) else g) (request_queue q) NON_LOCK\<rparr>"

section \<open>Locking and unlocking\<close>

text \<open>The first request of a transaction in a queue, and its update in place.\<close>

fun find_request :: "txn_id_t \<Rightarrow> LockRequest list \<Rightarrow> LockRequest option" where
  "find_request t [] = None"
| "find_request t (r # rs) = (if lr_txn_id r = t then Some r else find_request t rs)"

fun grant_request :: "txn_id_t \<Rightarrow> LockMode \<Rightarrow> LockRequest list \<Rightarrow> LockRequest list" where
  "grant_request t m [] = [\<lparr>lr_txn_id = t, lr_mode = m, lr_granted = True\<rparr>]"
| "grant_request t m (r # rs) =
     (if lr_txn_id r = t then r\<lparr>lr_mode := m, lr_granted := True\<rparr> # rs else r # grant_request t m rs)"

fun erase_request :: "txn_id_t \<Rightarrow> LockRequest list \<Rightarrow> LockRequest list" where
  "erase_request t [] = []"
| "erase_request t (r # rs) = (if lr_txn_id r = t then rs else r # erase_request t rs)"

definition already_covered :: "LockRequest option \<Rightarrow> LockMode \<Rightarrow> bool" where
  "already_covered existing m =
     (case existing of
        None \<Rightarrow> False
      | Some r \<Rightarrow> lr_granted r \<and>
          (lr_mode r = m \<or> lr_mode r = EXLUCSIVE \<or>
           lr_mode r = SHARED \<and> m = INTENTION_SHARED \<or> lr_mode r = S_IX \<and> m \<noteq> EXLUCSIVE))"

text \<open>\<open>lock\<close> returns the outcome, the transaction and the lock table; a null transaction is
  \<open>None\<close>. \<open>lock_table_[id]\<close> creates the queue when there is none.\<close>

definition lock ::
  "LockDataId \<Rightarrow> LockMode \<Rightarrow> transaction option \<Rightarrow> lock_table \<Rightarrow>
   (TransactionAbortException + bool) \<times> transaction option \<times> lock_table" where
  "lock lid m txn lt =
     (case txn of
        None \<Rightarrow> (Inr True, None, lt)
      | Some t \<Rightarrow>
          if txn_state t = SHRINKING
          then (Inl (TransactionAbortException (txn_id t) LOCK_ON_SHIRINKING), Some t, lt)
          else
            let q = (case lt lid of None \<Rightarrow> empty_queue | Some q \<Rightarrow> q);
                lt1 = lt(lid \<mapsto> q);
                existing = find_request (txn_id t) (request_queue q)
            in if already_covered existing m then (Inr True, Some (lock_set_insert lid t), lt1)
               else if list_ex (\<lambda>r. lr_granted r \<and> lr_txn_id r \<noteq> txn_id t \<and> \<not> is_compatible (lr_mode r) m)
                      (request_queue q)
               then (Inl (TransactionAbortException (txn_id t) DEADLOCK_PREVENTION), Some t, lt1)
               else
                 let q' = refresh_group_lock_mode
                            (q\<lparr>request_queue := grant_request (txn_id t) m (request_queue q)\<rparr>)
                 in (Inr True, Some (lock_set_insert lid t), lt(lid \<mapsto> q')))"

definition lock_shared_on_record where
  "lock_shared_on_record txn rid tab_fd = lock (record_lock_id tab_fd rid) SHARED txn"

definition lock_exclusive_on_record where
  "lock_exclusive_on_record txn rid tab_fd = lock (record_lock_id tab_fd rid) EXLUCSIVE txn"

definition lock_shared_on_table where
  "lock_shared_on_table txn tab_fd = lock (table_lock_id tab_fd) SHARED txn"

definition lock_exclusive_on_table where
  "lock_exclusive_on_table txn tab_fd = lock (table_lock_id tab_fd) EXLUCSIVE txn"

definition lock_IS_on_table where
  "lock_IS_on_table txn tab_fd = lock (table_lock_id tab_fd) INTENTION_SHARED txn"

definition lock_IX_on_table where
  "lock_IX_on_table txn tab_fd = lock (table_lock_id tab_fd) INTENTION_EXCLUSIVE txn"

definition unlock ::
  "LockDataId \<Rightarrow> transaction option \<Rightarrow> lock_table \<Rightarrow> bool \<times> transaction option \<times> lock_table" where
  "unlock lid txn lt =
     (case txn of
        None \<Rightarrow> (True, None, lt)
      | Some t \<Rightarrow>
          case lt lid of
            None \<Rightarrow> (False, Some t, lt)
          | Some q \<Rightarrow>
              if find_request (txn_id t) (request_queue q) = None then (True, Some t, lt)
              else
                let rs = erase_request (txn_id t) (request_queue q);
                    q' = refresh_group_lock_mode (q\<lparr>request_queue := rs\<rparr>);
                    t' = lock_set_erase lid t
                in (True,
                    Some (if txn_state t = GROWING then t'\<lparr>txn_state := SHRINKING\<rparr> else t'),
                    if rs = [] then lt(lid := None) else lt(lid \<mapsto> q')))"

text \<open>What \<open>commit\<close> and \<open>abort\<close> do with the locks of a transaction: unlock each, then clear the
  set.\<close>

definition unlock_all :: "LockDataId list \<Rightarrow> transaction \<times> lock_table \<Rightarrow> transaction \<times> lock_table" where
  "unlock_all lids = fold (\<lambda>lid (t, lt). case unlock lid (Some t) lt of (_, t', lt') \<Rightarrow> (the t', lt')) lids"

definition release_locks :: "transaction \<Rightarrow> lock_table \<Rightarrow> transaction \<times> lock_table" where
  "release_locks t lt =
     (case unlock_all (lock_set t) (t, lt) of
        (t', lt') \<Rightarrow> (t'\<lparr>lock_set := [], index_latch_page_set := [], index_deleted_page_set := []\<rparr>, lt'))"

section \<open>Queues\<close>

lemma is_compatible_sym: "is_compatible a b = is_compatible b a"
  by (cases a; cases b) (simp_all add: is_compatible_def)

definition held_mode :: "lock_table \<Rightarrow> LockDataId \<Rightarrow> txn_id_t \<Rightarrow> LockMode option" where
  "held_mode lt lid t =
     (case lt lid of None \<Rightarrow> None | Some q \<Rightarrow> map_option lr_mode (find_request t (request_queue q)))"

definition queue_ok :: "LockRequestQueue \<Rightarrow> bool" where
  "queue_ok q \<longleftrightarrow> distinct (map lr_txn_id (request_queue q)) \<and> (\<forall>r \<in> set (request_queue q). lr_granted r) \<and>
     (\<forall>r \<in> set (request_queue q). \<forall>r' \<in> set (request_queue q).
        lr_txn_id r \<noteq> lr_txn_id r' \<longrightarrow> is_compatible (lr_mode r) (lr_mode r')) \<and>
     refresh_group_lock_mode q = q"

lemma find_request_SomeD: "find_request t rs = Some r \<Longrightarrow> r \<in> set rs \<and> lr_txn_id r = t"
  by (induction rs) (auto split: if_splits)

lemma find_request_None: "find_request t rs = None \<longleftrightarrow> t \<notin> lr_txn_id ` set rs"
  by (induction rs) auto

lemma find_request_mem: "distinct (map lr_txn_id rs) \<Longrightarrow> r \<in> set rs \<Longrightarrow> find_request (lr_txn_id r) rs = Some r"
  by (induction rs) (auto simp: image_iff)

lemma find_request_grant:
  "find_request t' (grant_request t m rs) =
     (if t' = t then Some (case find_request t rs of
        None \<Rightarrow> \<lparr>lr_txn_id = t, lr_mode = m, lr_granted = True\<rparr> | Some r \<Rightarrow> r\<lparr>lr_mode := m, lr_granted := True\<rparr>)
      else find_request t' rs)"
  by (induction rs) auto

lemma find_request_erase:
  "distinct (map lr_txn_id rs) \<Longrightarrow> find_request t' (erase_request t rs) = (if t' = t then None else find_request t' rs)"
  by (induction rs) (auto simp: find_request_None)

lemma ids_grant: "lr_txn_id ` set (grant_request t m rs) = insert t (lr_txn_id ` set rs)"
  by (induction rs) auto

lemma distinct_grant: "distinct (map lr_txn_id rs) \<Longrightarrow> distinct (map lr_txn_id (grant_request t m rs))"
  by (induction rs) (auto simp: ids_grant image_iff dest!: arg_cong[of _ _ "(\<in>) _"])

lemma mem_grant: "r \<in> set (grant_request t m rs) \<Longrightarrow> distinct (map lr_txn_id rs) \<Longrightarrow>
    lr_txn_id r = t \<and> lr_mode r = m \<and> lr_granted r \<or> lr_txn_id r \<noteq> t \<and> r \<in> set rs"
  by (induction rs) (auto split: if_splits intro: rev_image_eqI)

lemma set_erase: "set (erase_request t rs) \<subseteq> set rs"
  by (induction rs) auto

lemma distinct_erase: "distinct (map lr_txn_id rs) \<Longrightarrow> distinct (map lr_txn_id (erase_request t rs))"
  using set_erase by (induction rs) fastforce+

lemma refresh_idem [simp]: "refresh_group_lock_mode (refresh_group_lock_mode q) = refresh_group_lock_mode q"
  by (simp add: refresh_group_lock_mode_def)

lemma request_queue_refresh [simp]: "request_queue (refresh_group_lock_mode q) = request_queue q"
  by (simp add: refresh_group_lock_mode_def)

lemma queue_ok_empty [simp]: "queue_ok empty_queue"
  by (simp add: queue_ok_def empty_queue_def refresh_group_lock_mode_def)

lemma queue_ok_grant:
  assumes ok: "queue_ok q"
    and compat: "\<not> list_ex (\<lambda>r. lr_granted r \<and> lr_txn_id r \<noteq> t \<and> \<not> is_compatible (lr_mode r) m) (request_queue q)"
  shows "queue_ok (refresh_group_lock_mode (q\<lparr>request_queue := grant_request t m (request_queue q)\<rparr>))"
proof -
  have d: "distinct (map lr_txn_id (request_queue q))" using ok by (simp add: queue_ok_def)
  have c: "is_compatible (lr_mode r) m" if "r \<in> set (request_queue q)" "lr_txn_id r \<noteq> t" for r
    using compat ok that by (auto simp: list_ex_iff queue_ok_def)
  have "is_compatible (lr_mode r) (lr_mode r')"
    if "r \<in> set (grant_request t m (request_queue q))" "r' \<in> set (grant_request t m (request_queue q))"
      "lr_txn_id r \<noteq> lr_txn_id r'" for r r'
    using mem_grant[OF that(1) d] mem_grant[OF that(2) d] that(3) c ok is_compatible_sym
    by (auto simp: queue_ok_def)
  moreover have "lr_granted r" if "r \<in> set (grant_request t m (request_queue q))" for r
    using mem_grant[OF that d] ok by (auto simp: queue_ok_def)
  ultimately show ?thesis using distinct_grant[OF d] by (simp add: queue_ok_def)
qed

lemma queue_ok_erase:
  "queue_ok q \<Longrightarrow> queue_ok (refresh_group_lock_mode (q\<lparr>request_queue := erase_request t (request_queue q)\<rparr>))"
  using set_erase[of t "request_queue q"] distinct_erase[of "request_queue q" t]
  by (auto simp: queue_ok_def)

section \<open>The lock table\<close>

definition table_ok :: "lock_table \<Rightarrow> bool" where
  "table_ok lt \<longleftrightarrow> (\<forall>lid q. lt lid = Some q \<longrightarrow> queue_ok q)"

lemma held_mode_Some:
  "table_ok lt \<Longrightarrow> held_mode lt lid t = Some m \<longleftrightarrow>
     (\<exists>q r. lt lid = Some q \<and> r \<in> set (request_queue q) \<and> lr_txn_id r = t \<and> lr_mode r = m)"
  unfolding held_mode_def table_ok_def queue_ok_def
  by (auto split: option.splits dest: find_request_SomeD) (metis find_request_mem option.simps(9))

lemma table_ok_compatible:
  assumes "table_ok lt" "held_mode lt lid t = Some m" "held_mode lt lid t' = Some m'" "t \<noteq> t'"
  shows "is_compatible m m'"
  using assms(2-4) assms(1)[unfolded table_ok_def queue_ok_def] unfolding held_mode_Some[OF assms(1)]
  by (metis option.inject)

text \<open>The three ways a call to \<open>lock\<close> can go.\<close>

lemma lock_cases:
  assumes ok: "table_ok lt"
  obtains (shrinking) "txn_state t = SHRINKING"
      "lock lid m (Some t) lt = (Inl (TransactionAbortException (txn_id t) LOCK_ON_SHIRINKING), Some t, lt)"
  | (covered) lt' where "txn_state t \<noteq> SHRINKING"
      "lock lid m (Some t) lt = (Inr True, Some (lock_set_insert lid t), lt')" "table_ok lt'"
      "held_mode lt' = held_mode lt" "\<exists>m'. held_mode lt lid (txn_id t) = Some m' \<and>
        (m' = m \<or> m' = EXLUCSIVE \<or> m' = SHARED \<and> m = INTENTION_SHARED \<or> m' = S_IX \<and> m \<noteq> EXLUCSIVE)"
  | (conflict) lt' t' m' where "txn_state t \<noteq> SHRINKING"
      "lock lid m (Some t) lt = (Inl (TransactionAbortException (txn_id t) DEADLOCK_PREVENTION), Some t, lt')"
      "table_ok lt'" "held_mode lt' = held_mode lt" "held_mode lt lid t' = Some m'" "t' \<noteq> txn_id t" "\<not> is_compatible m' m"
  | (granted) lt' where "txn_state t \<noteq> SHRINKING"
      "lock lid m (Some t) lt = (Inr True, Some (lock_set_insert lid t), lt')" "table_ok lt'"
      "held_mode lt' = (\<lambda>l u. if l = lid \<and> u = txn_id t then Some m else held_mode lt l u)"
      "\<And>u mu. u \<noteq> txn_id t \<Longrightarrow> held_mode lt lid u = Some mu \<Longrightarrow> is_compatible mu m"
proof (cases "txn_state t = SHRINKING")
  case True
  then show thesis by (intro shrinking) (simp_all add: lock_def)
next
  case False
  define q where "q = (case lt lid of None \<Rightarrow> empty_queue | Some q \<Rightarrow> q)"
  have qok: "queue_ok q" using ok by (auto simp: q_def table_ok_def split: option.splits)
  have hq: "held_mode lt lid u = map_option lr_mode (find_request u (request_queue q))" for u
    by (simp add: held_mode_def q_def empty_queue_def split: option.splits)
  have h1: "held_mode (lt(lid \<mapsto> q)) = held_mode lt" and ok1: "table_ok (lt(lid \<mapsto> q))"
    using hq ok qok by (auto simp: held_mode_def table_ok_def fun_eq_iff)
  let ?ex = "find_request (txn_id t) (request_queue q)"
  let ?bad = "list_ex (\<lambda>r. lr_granted r \<and> lr_txn_id r \<noteq> txn_id t \<and> \<not> is_compatible (lr_mode r) m) (request_queue q)"
  note run = lock_def Let_def q_def[symmetric]
  show thesis
  proof (cases "already_covered ?ex m")
    case True
    then have "lock lid m (Some t) lt = (Inr True, Some (lock_set_insert lid t), lt(lid \<mapsto> q))"
      using False by (simp add: run)
    moreover have "\<exists>m'. held_mode lt lid (txn_id t) = Some m' \<and>
        (m' = m \<or> m' = EXLUCSIVE \<or> m' = SHARED \<and> m = INTENTION_SHARED \<or> m' = S_IX \<and> m \<noteq> EXLUCSIVE)"
      using True by (auto simp: already_covered_def hq split: option.splits)
    ultimately show thesis using covered[OF False _ ok1 h1] by blast
  next
    case nc: False
    show thesis
    proof (cases ?bad)
      case True
      then obtain r where r: "r \<in> set (request_queue q)" "lr_txn_id r \<noteq> txn_id t" "\<not> is_compatible (lr_mode r) m"
        by (auto simp: list_ex_iff)
      have "held_mode lt lid (lr_txn_id r) = Some (lr_mode r)"
        using find_request_mem[OF _ r(1)] qok by (simp add: hq queue_ok_def)
      moreover have "lock lid m (Some t) lt = (Inl (TransactionAbortException (txn_id t) DEADLOCK_PREVENTION), Some t, lt(lid \<mapsto> q))"
        using False nc True by (simp add: run)
      ultimately show thesis using conflict[OF False _ ok1 h1] r(2,3) by blast
    next
      case nb: False
      let ?q = "refresh_group_lock_mode (q\<lparr>request_queue := grant_request (txn_id t) m (request_queue q)\<rparr>)"
      have "lock lid m (Some t) lt = (Inr True, Some (lock_set_insert lid t), lt(lid \<mapsto> ?q))"
        using False nc nb by (simp add: run)
      moreover have "table_ok (lt(lid \<mapsto> ?q))" using ok queue_ok_grant[OF qok nb] by (simp add: table_ok_def)
      moreover have "held_mode (lt(lid \<mapsto> ?q)) = (\<lambda>l u. if l = lid \<and> u = txn_id t then Some m else held_mode lt l u)"
        using hq by (auto simp: held_mode_def find_request_grant fun_eq_iff split: option.splits)
      moreover have "is_compatible mu m" if "u \<noteq> txn_id t" "held_mode lt lid u = Some mu" for u mu
        using that nb qok by (auto simp: hq list_ex_iff queue_ok_def dest!: find_request_SomeD)
      ultimately show thesis using granted[OF False] by blast
    qed
  qed
qed

lemma unlock_held:
  assumes ok: "table_ok lt" and u: "unlock lid (Some t) lt = (b, Some t', lt')"
  shows "table_ok lt'" "held_mode lt' = (\<lambda>l u. if l = lid \<and> u = txn_id t then None else held_mode lt l u)"
    "txn_id t' = txn_id t" "set (lock_set t') \<subseteq> set (lock_set t)"
    "l \<noteq> lid \<Longrightarrow> l \<in> set (lock_set t') \<longleftrightarrow> l \<in> set (lock_set t)"
proof -
  have "table_ok lt' \<and> held_mode lt' = (\<lambda>l u. if l = lid \<and> u = txn_id t then None else held_mode lt l u)"
  proof (cases "lt lid")
    case None
    with u ok show ?thesis by (auto simp: unlock_def held_mode_def intro!: ext)
  next
    case (Some q)
    with ok have qok: "queue_ok q" by (simp add: table_ok_def)
    then have d: "distinct (map lr_txn_id (request_queue q))" by (simp add: queue_ok_def)
    have e: "find_request u (erase_request (txn_id t) (request_queue q)) =
        (if u = txn_id t then None else find_request u (request_queue q))" for u
      by (rule find_request_erase[OF d])
    have n: "erase_request (txn_id t) (request_queue q) = [] \<Longrightarrow> u \<noteq> txn_id t \<Longrightarrow> find_request u (request_queue q) = None" for u
      using e[of u] by simp
    let ?q = "refresh_group_lock_mode (q\<lparr>request_queue := erase_request (txn_id t) (request_queue q)\<rparr>)"
    consider (none) "find_request (txn_id t) (request_queue q) = None" "lt' = lt"
      | (gone) "erase_request (txn_id t) (request_queue q) = []" "lt' = lt(lid := None)"
      | (left) "lt' = lt(lid \<mapsto> ?q)"
      using u Some by (auto simp: unlock_def Let_def split: if_splits)
    then show ?thesis
      using Some ok queue_ok_erase[OF qok, of "txn_id t"] e n
      by cases (auto simp: held_mode_def table_ok_def intro!: ext)
  qed
  then show "table_ok lt'" "held_mode lt' = (\<lambda>l u. if l = lid \<and> u = txn_id t then None else held_mode lt l u)" by blast+
  show "txn_id t' = txn_id t" "set (lock_set t') \<subseteq> set (lock_set t)"
    "l \<noteq> lid \<Longrightarrow> l \<in> set (lock_set t') \<longleftrightarrow> l \<in> set (lock_set t)"
    using u by (auto simp: unlock_def Let_def lock_set_erase_def split: option.splits if_splits)
qed

lemma unlock_total: "\<exists>b t' lt'. unlock lid (Some t) lt = (b, Some t', lt')"
  by (auto simp: unlock_def Let_def split: option.splits)

lemma unlock_all_held:
  assumes "table_ok lt"
  shows "case unlock_all lids (t, lt) of (t', lt') \<Rightarrow> table_ok lt' \<and> txn_id t' = txn_id t \<and>
    held_mode lt' = (\<lambda>l u. if l \<in> set lids \<and> u = txn_id t then None else held_mode lt l u)"
  using assms
proof (induction lids arbitrary: t lt)
  case Nil
  then show ?case by (simp add: unlock_all_def)
next
  case (Cons lid lids)
  obtain b t1 lt1 where u: "unlock lid (Some t) lt = (b, Some t1, lt1)" using unlock_total by blast
  note h = unlock_held[OF Cons.prems u]
  have "unlock_all (lid # lids) (t, lt) = unlock_all lids (t1, lt1)" by (simp add: unlock_all_def u)
  with Cons.IH[OF h(1), of t1] h(2,3) show ?case by (auto intro!: ext split: prod.splits)
qed

section \<open>Transactions against the lock table\<close>

record lock_sys =
  ls_table :: lock_table
  ls_txns :: "txn_id_t \<rightharpoonup> transaction"

definition empty_sys :: lock_sys where
  "empty_sys = \<lparr>ls_table = Map.empty, ls_txns = Map.empty\<rparr>"

text \<open>One call, by any transaction: it starts, asks for a lock (granted or refused), gives one
  back, or ends, releasing all it has.\<close>

inductive lock_step :: "lock_sys \<Rightarrow> lock_sys \<Rightarrow> bool" where
  begin_step: "ls_txns s t = None \<Longrightarrow> t' = (new_transaction 0 t)\<lparr>txn_state := GROWING\<rparr> \<Longrightarrow>
    lock_step s (s\<lparr>ls_txns := (ls_txns s)(t \<mapsto> t')\<rparr>)"
| lock_step: "ls_txns s t = Some tx \<Longrightarrow> lock lid m (Some tx) (ls_table s) = (r, Some tx', lt') \<Longrightarrow>
    lock_step s (s\<lparr>ls_table := lt', ls_txns := (ls_txns s)(t \<mapsto> tx')\<rparr>)"
| unlock_step: "ls_txns s t = Some tx \<Longrightarrow> unlock lid (Some tx) (ls_table s) = (b, Some tx', lt') \<Longrightarrow>
    lock_step s (s\<lparr>ls_table := lt', ls_txns := (ls_txns s)(t \<mapsto> tx')\<rparr>)"
| end_step: "ls_txns s t = Some tx \<Longrightarrow> release_locks tx (ls_table s) = (tx', lt') \<Longrightarrow> st \<in> {COMMITTED, ABORTED} \<Longrightarrow>
    lock_step s (s\<lparr>ls_table := lt', ls_txns := (ls_txns s)(t \<mapsto> tx'\<lparr>txn_state := st\<rparr>)\<rparr>)"

inductive_cases lock_stepE: "lock_step s s'"

definition lock_reachable :: "lock_sys \<Rightarrow> bool" where
  "lock_reachable s \<longleftrightarrow> lock_step\<^sup>*\<^sup>* empty_sys s"

text \<open>The lock set of a transaction lists exactly the objects it has a request on.\<close>

definition sys_ok :: "lock_sys \<Rightarrow> bool" where
  "sys_ok s \<longleftrightarrow> table_ok (ls_table s) \<and>
     (\<forall>t tx. ls_txns s t = Some tx \<longrightarrow> txn_id tx = t \<and>
        (\<forall>lid. held_mode (ls_table s) lid t \<noteq> None \<longrightarrow> lid \<in> set (lock_set tx))) \<and>
     (\<forall>t lid. ls_txns s t = None \<longrightarrow> held_mode (ls_table s) lid t = None)"

lemma sys_okD:
  assumes "sys_ok s" "ls_txns s t = Some tx"
  shows "table_ok (ls_table s)" "txn_id tx = t" "lid \<notin> set (lock_set tx) \<Longrightarrow> held_mode (ls_table s) lid t = None"
  using assms unfolding sys_ok_def by blast+

lemma sys_ok_lock_step:
  assumes ok: "sys_ok s" and t: "ls_txns s t = Some tx" and l: "lock lid m (Some tx) (ls_table s) = (r, Some tx', lt')"
  shows "sys_ok (s\<lparr>ls_table := lt', ls_txns := (ls_txns s)(t \<mapsto> tx')\<rparr>)"
proof -
  have tid: "txn_id tx = t" and tok: "table_ok (ls_table s)" using ok t by (auto simp: sys_ok_def)
  show ?thesis
    by (rule lock_cases[OF tok, of tx lid m]) (use ok t l tid in \<open>auto simp: sys_ok_def split: if_splits\<close>)
qed

lemma sys_ok_step: "lock_step s s' \<Longrightarrow> sys_ok s \<Longrightarrow> sys_ok s'"
proof (induction rule: lock_step.induct)
  case (begin_step s t t')
  then show ?case by (auto simp: sys_ok_def new_transaction_def)
next
  case (lock_step s t tx lid m r tx' lt')
  then show ?case by (intro sys_ok_lock_step)
next
  case (unlock_step s t tx lid b tx' lt')
  have tid: "txn_id tx = t" and tok: "table_ok (ls_table s)" using unlock_step by (auto simp: sys_ok_def)
  note h = unlock_held[OF tok unlock_step(2)]
  show ?case using unlock_step(1,3) h tid by (auto simp: sys_ok_def)
next
  case (end_step s t tx tx' lt' st)
  have tid: "txn_id tx = t" and tok: "table_ok (ls_table s)" using end_step by (auto simp: sys_ok_def)
  obtain t1 where u: "unlock_all (lock_set tx) (tx, ls_table s) = (t1, lt')"
    and tx': "tx' = t1\<lparr>lock_set := [], index_latch_page_set := [], index_deleted_page_set := []\<rparr>"
    using end_step(2) by (auto simp: release_locks_def split: prod.splits)
  from unlock_all_held[OF tok, where lids = "lock_set tx" and t = tx] u tid have
    h: "table_ok lt'" "txn_id t1 = t" "held_mode lt' = (\<lambda>l u. if l \<in> set (lock_set tx) \<and> u = t then None else held_mode (ls_table s) l u)"
    by auto
  show ?case using end_step(1,4) h tx' sys_okD(3)[OF end_step(4,1)] by (auto simp: sys_ok_def split: if_splits)
qed

lemma sys_ok_reachable: "lock_reachable s \<Longrightarrow> sys_ok s"
  unfolding lock_reachable_def
proof (induction rule: rtranclp_induct)
  case base
  then show ?case by (simp add: sys_ok_def empty_sys_def table_ok_def held_mode_def)
qed (rule sys_ok_step)

section \<open>Properties\<close>


text \<open>Two transactions with a shared lock on the same record, for the witnesses.\<close>

definition demo_lid :: LockDataId where "demo_lid = record_lock_id 3 (Rid 1 0)"

text \<open>The calls as functions on the system, to build reachable states with.\<close>

definition sys_begin :: "txn_id_t \<Rightarrow> lock_sys \<Rightarrow> lock_sys" where
  "sys_begin t s = s\<lparr>ls_txns := (ls_txns s)(t \<mapsto> (new_transaction 0 t)\<lparr>txn_state := GROWING\<rparr>)\<rparr>"

definition sys_lock :: "txn_id_t \<Rightarrow> LockDataId \<Rightarrow> LockMode \<Rightarrow> lock_sys \<Rightarrow> lock_sys" where
  "sys_lock t lid m s =
     (case lock lid m (ls_txns s t) (ls_table s) of
        (r, tx', lt') \<Rightarrow> s\<lparr>ls_table := lt', ls_txns := (ls_txns s)(t := tx')\<rparr>)"

lemma lock_total: "\<exists>r tx' lt'. lock lid m (Some tx) lt = (r, Some tx', lt')"
  by (simp add: lock_def Let_def)

lemma sys_reachable:
  "lock_reachable s \<Longrightarrow> ls_txns s t = None \<Longrightarrow> lock_reachable (sys_begin t s)"
  "lock_reachable s \<Longrightarrow> ls_txns s t \<noteq> None \<Longrightarrow> lock_reachable (sys_lock t lid m s)"
proof -
  show "lock_reachable (sys_begin t s)" if "lock_reachable s" "ls_txns s t = None"
    using that begin_step[of s t] by (auto simp: lock_reachable_def sys_begin_def)
  assume s: "lock_reachable s" "ls_txns s t \<noteq> None"
  then obtain tx where tx: "ls_txns s t = Some tx" by blast
  obtain r tx' lt' where l: "lock lid m (Some tx) (ls_table s) = (r, Some tx', lt')" using lock_total by blast
  from lock_step[OF tx l] s(1) show "lock_reachable (sys_lock t lid m s)"
    by (auto simp: lock_reachable_def sys_lock_def tx l)
qed

definition demo_sys :: lock_sys where
  "demo_sys = sys_lock 2 demo_lid SHARED (sys_lock 1 demo_lid SHARED (sys_begin 2 (sys_begin 1 empty_sys)))"

lemmas sys_eval = sys_begin_def sys_lock_def lock_def Let_def empty_sys_def empty_queue_def already_covered_def
  new_transaction_def demo_lid_def record_lock_id_def lock_set_insert_def held_mode_def is_compatible_def

lemma demo_sys_ok: "lock_reachable demo_sys" "held_mode (ls_table demo_sys) demo_lid 1 = Some SHARED"
  "held_mode (ls_table demo_sys) demo_lid 2 = Some SHARED"
proof -
  show "lock_reachable demo_sys"
    unfolding demo_sys_def by (intro sys_reachable) (simp_all add: sys_eval lock_reachable_def)
qed (simp_all add: demo_sys_def sys_eval)




text \<open>Property C33: at the end of a transaction, in every reachable state, releasing the locks in its
  lock set leaves it holding no lock at all, and changes no other transaction's locks.\<close>

theorem release_locks_releases_all:
  assumes "lock_reachable s" "ls_txns s t = Some tx"
  shows "case release_locks tx (ls_table s) of (tx', lt') \<Rightarrow>
    lock_set tx' = [] \<and> (\<forall>lid. held_mode lt' lid t = None) \<and>
    (\<forall>lid u. u \<noteq> t \<longrightarrow> held_mode lt' lid u = held_mode (ls_table s) lid u)"
proof -
  note s = sys_okD[OF sys_ok_reachable[OF assms(1)] assms(2)]
  note ok = s(1) and tid = s(2) and ls = s(3)
  from unlock_all_held[OF ok, where lids = "lock_set tx" and t = tx] show ?thesis
    using ls tid by (auto simp: release_locks_def split: prod.splits)
qed

theorem release_locks_releases_all_witness:
  "\<exists>tx. ls_txns demo_sys 1 = Some tx \<and>
    (case release_locks tx (ls_table demo_sys) of (tx', lt') \<Rightarrow> held_mode lt' demo_lid 1 = None \<and>
       held_mode lt' demo_lid 2 = Some SHARED)"
proof -
  obtain tx where tx: "ls_txns demo_sys 1 = Some tx" by (simp add: demo_sys_def sys_eval)
  from release_locks_releases_all[OF demo_sys_ok(1) tx] demo_sys_ok(3) tx show ?thesis by (auto split: prod.splits)
qed


end
