(* ===== verification/Engine.thy ===== *)
theory Engine
  imports Executor LockManager LogManager
begin

text \<open>
  Statements that change tables, and transactions (\<open>execution/executor_insert.h\<close>,
  \<open>executor_delete.h\<close>, \<open>executor_update.h\<close>, \<open>transaction/transaction_manager.cpp\<close>). The state puts the
  database, the lock table, the log manager and the transactions side by side; the log manager writes through
  the disk manager of the buffer pool. A pointer to a transaction is its number, and \<open>txn_map\<close> is the store
  of the transaction objects. \<open>ofd\<close> is the descriptor the operating system would hand out for the log file, and
  \<open>fuel\<close> bounds the depth of index searches and the walk over the free pages.
\<close>

section \<open>State\<close>

record engine =
  en_db :: database
  en_locks :: lock_table
  en_log :: log_manager
  txn_map :: "txn_id_t \<rightharpoonup> transaction"
  next_txn_id :: txn_id_t
  next_timestamp :: timestamp_t

text \<open>\<open>Context\<close>: whether the pointers to the lock manager and the log manager are set, and the
  transaction.\<close>

record Context =
  cx_lock_mgr :: bool
  cx_log_mgr :: bool
  cx_txn :: "txn_id_t option"

definition on_sm :: "(database, 'a) comp \<Rightarrow> (engine, 'a) comp" where
  "on_sm m s = (case m (en_db s) of (r, w) \<Rightarrow> (r, s\<lparr>en_db := w\<rparr>))"

definition on_fh :: "string \<Rightarrow> (rm_state, 'a) comp \<Rightarrow> (engine, 'a) comp" where
  "on_fh tab_name m = on_sm (on_tables (on_file tab_name m))"

abbreviation en_disk :: "engine \<Rightarrow> disk_manager" where
  "en_disk s \<equiv> bp_disk (tf_pool (sm_tables (en_db s)))"

definition set_disk :: "disk_manager \<Rightarrow> database \<Rightarrow> database" where
  "set_disk d w = w\<lparr>sm_tables := (sm_tables w)\<lparr>tf_pool := (tf_pool (sm_tables w))\<lparr>bp_disk := d\<rparr>\<rparr>\<rparr>"

definition on_log :: "(log_state, 'a) comp \<Rightarrow> (engine, 'a) comp" where
  "on_log m s = (case m (en_log s, en_disk s) of (r, (lm, d)) \<Rightarrow> (r, s\<lparr>en_log := lm, en_db := set_disk d (en_db s)\<rparr>))"

definition txn_of :: "engine \<Rightarrow> txn_id_t \<Rightarrow> transaction" where
  "txn_of s tid = the (txn_map s tid)"

definition edit_txn :: "txn_id_t \<Rightarrow> (transaction \<Rightarrow> transaction) \<Rightarrow> (engine, unit) comp" where
  "edit_txn tid f = modifyE (\<lambda>s. s\<lparr>txn_map := (txn_map s)(tid \<mapsto> f (txn_of s tid))\<rparr>)"

section \<open>Locks, log records and index entries\<close>

definition lock_table_for :: "(transaction option \<Rightarrow> int \<Rightarrow> lock_table \<Rightarrow> (TransactionAbortException + bool) \<times> transaction option \<times> lock_table) \<Rightarrow>
    Context \<Rightarrow> string \<Rightarrow> (engine, unit) comp" where
  "lock_table_for lock_on_table ctx tab_name =
     (case (cx_lock_mgr ctx, cx_txn ctx) of
        (True, Some tid) \<Rightarrow>
          (\<lambda>s. case lock_on_table (Some (txn_of s tid)) (fst (the (tf_fhs (sm_tables (en_db s)) tab_name))) (en_locks s) of
                 (r, t, lt) \<Rightarrow>
                   ((case r of Inl e \<Rightarrow> Inl (TransactionAbort (abort_txn_id e) (abort_reason e)) | Inr _ \<Rightarrow> Inr ()),
                    s\<lparr>en_locks := lt, txn_map := (txn_map s)(tid \<mapsto> the t)\<rparr>))
      | _ \<Rightarrow> returnE ())"

text \<open>A log record of the transaction is chained to its previous one, added to the buffer, and, for
  all but \<open>BEGIN\<close>, the buffer is flushed.\<close>

definition chain_log :: "int \<Rightarrow> txn_id_t \<Rightarrow> log_body \<Rightarrow> (engine, unit) comp" where
  "chain_log ofd tid bd =
     bindE (getE (\<lambda>s. (make_log tid bd)\<lparr>log_prev_lsn := prev_lsn (txn_of s tid)\<rparr>)) (\<lambda>log_record.
       bindE (on_log (add_log_to_buffer ofd (Some log_record))) (\<lambda>n. edit_txn tid (\<lambda>t. t\<lparr>prev_lsn := n\<rparr>)))"

definition log_and_flush :: "int \<Rightarrow> Context \<Rightarrow> log_body \<Rightarrow> (engine, unit) comp" where
  "log_and_flush ofd ctx bd =
     (case (cx_log_mgr ctx, cx_txn ctx) of
        (True, Some tid) \<Rightarrow> thenE (chain_log ofd tid bd) (on_log (flush_log_to_disk ofd))
      | _ \<Rightarrow> returnE ())"

definition get_index_name :: "string \<Rightarrow> string list \<Rightarrow> string" where
  "get_index_name filename index_cols = filename @ concat (map (\<lambda>col. ''_'' @ col) index_cols) @ ''.idx''"

definition index_file :: "string \<Rightarrow> IndexMeta \<Rightarrow> string" where
  "index_file tab_name index = get_index_name tab_name (map cm_name (im_cols index))"

text \<open>A call on the handle of an index, skipped when the index is not open.\<close>

definition on_open_index :: "string \<Rightarrow> (ix_state, 'a) comp \<Rightarrow> (engine, unit) comp" where
  "on_open_index index_name m =
     bindE (getE (\<lambda>s. sm_ihs (en_db s) index_name)) (\<lambda>ih.
       if ih = None then returnE () else thenE (on_sm (on_index index_name m)) (returnE ()))"

definition delete_index_entries :: "nat \<Rightarrow> TabMeta \<Rightarrow> string \<Rightarrow> bytes \<Rightarrow> (engine, unit) comp" where
  "delete_index_entries fuel tab table_name record =
     mapE (\<lambda>index. on_open_index (index_file table_name index) (delete_entry fuel (build_index_key index record))) (tm_indexes tab)"

definition insert_index_entries :: "nat \<Rightarrow> TabMeta \<Rightarrow> string \<Rightarrow> bytes \<Rightarrow> Rid \<Rightarrow> (engine, unit) comp" where
  "insert_index_entries fuel tab table_name record rid =
     mapE (\<lambda>index. on_open_index (index_file table_name index) (insert_entry fuel (build_index_key index record) rid)) (tm_indexes tab)"

text \<open>The entries of a record that changes, for the indexes whose key changes.\<close>

definition move_index_entries :: "nat \<Rightarrow> TabMeta \<Rightarrow> string \<Rightarrow> bytes \<Rightarrow> bytes \<Rightarrow> Rid \<Rightarrow> (engine, unit) comp" where
  "move_index_entries fuel tab table_name old_record new_record rid =
     mapE (\<lambda>index.
       if build_index_key index old_record = build_index_key index new_record then returnE ()
       else
         on_open_index (index_file table_name index)
           (thenE (delete_entry fuel (build_index_key index old_record)) (insert_entry fuel (build_index_key index new_record) rid)))
       (tm_indexes tab)"

definition write_record :: "WType \<Rightarrow> string \<Rightarrow> Rid \<Rightarrow> bytes option \<Rightarrow> WriteRecord" where
  "write_record ty tab_name rid rec = \<lparr>wr_type = ty, wr_tab_name = tab_name, wr_rid = rid, wr_record = rec\<rparr>"

text \<open>The transaction remembers a change.\<close>

definition remember :: "Context \<Rightarrow> WriteRecord \<Rightarrow> (engine, unit) comp" where
  "remember ctx wr = (case cx_txn ctx of None \<Rightarrow> returnE () | Some tid \<Rightarrow> edit_txn tid (append_write_record wr))"

section \<open>Statements\<close>

text \<open>The table and the open file, and the lock on the table, as the constructors get them.\<close>

definition open_for_change :: "Context \<Rightarrow> string \<Rightarrow> (TabMeta \<Rightarrow> rmdb_error option) \<Rightarrow> (engine, TabMeta) comp" where
  "open_for_change ctx tab_name check =
     bindE (getE (\<lambda>s. get_table (sm_db (en_db s)) tab_name)) (\<lambda>found.
       case found of
         Inl e \<Rightarrow> throwE e
       | Inr tab \<Rightarrow>
           (case check tab of
              Some e \<Rightarrow> throwE e
            | None \<Rightarrow>
                bindE (getE (\<lambda>s. tf_fhs (sm_tables (en_db s)) tab_name)) (\<lambda>fh.
                  if fh = None then throwE OutOfRange
                  else thenE (lock_table_for lock_exclusive_on_table ctx tab_name) (returnE tab))))"

definition InsertExecutor :: "Context \<Rightarrow> string \<Rightarrow> Value list \<Rightarrow> (engine, TabMeta) comp" where
  "InsertExecutor ctx tab_name values =
     open_for_change ctx tab_name (\<lambda>tab. if length values \<noteq> length (tm_cols tab) then Some InvalidValueCountError else None)"

definition DeleteExecutor :: "Context \<Rightarrow> string \<Rightarrow> (engine, TabMeta) comp" where
  "DeleteExecutor ctx tab_name = open_for_change ctx tab_name (\<lambda>_. None)"

definition UpdateExecutor :: "Context \<Rightarrow> string \<Rightarrow> (engine, TabMeta) comp" where
  "UpdateExecutor ctx tab_name = open_for_change ctx tab_name (\<lambda>_. None)"

fun fill_record :: "(Value \<times> ColMeta) list \<Rightarrow> bytes \<Rightarrow> rmdb_error + bytes" where
  "fill_record [] rec = Inr rec"
| "fill_record ((value, col) # rest) rec =
     (case cast_value_to_col_type value col of
        Inl e \<Rightarrow> Inl e
      | Inr val \<Rightarrow>
          (case init_raw (cm_len col) val of
             Inl e \<Rightarrow> Inl e
           | Inr val' \<Rightarrow> fill_record rest (mem_put rec (nat (cm_offset col)) (the (v_raw val')))))"

text \<open>\<open>junk\<close> is the record buffer before it is filled, which the code does not initialise.\<close>

definition insert_next :: "nat \<Rightarrow> int \<Rightarrow> Context \<Rightarrow> bytes \<Rightarrow> string \<Rightarrow> TabMeta \<Rightarrow> Value list \<Rightarrow> (engine, Rid) comp" where
  "insert_next fuel ofd ctx junk tab_name tab values =
     (case fill_record (zip values (tm_cols tab)) junk of
        Inl e \<Rightarrow> throwE e
      | Inr rec \<Rightarrow>
          thenE (mapE (\<lambda>index. on_sm (on_index (index_file tab_name index) (ensure_index_key_unique fuel (build_index_key index rec) None)))
                  (tm_indexes tab))
         (bindE (on_fh tab_name (insert_record rec)) (\<lambda>rid.
           thenE (log_and_flush ofd ctx (InsertLogRecord rec rid (bytes_of_string tab_name)))
          (thenE (remember ctx (write_record INSERT_TUPLE tab_name rid None))
          (thenE (mapE (\<lambda>index. on_sm (on_index (index_file tab_name index) (insert_entry fuel (build_index_key index rec) rid)))
                   (tm_indexes tab))
             (returnE rid))))))"

definition delete_one :: "nat \<Rightarrow> int \<Rightarrow> Context \<Rightarrow> string \<Rightarrow> TabMeta \<Rightarrow> Rid \<Rightarrow> (engine, unit) comp" where
  "delete_one fuel ofd ctx tab_name tab rid =
     bindE (on_fh tab_name (get_record rid)) (\<lambda>record.
       thenE (log_and_flush ofd ctx (DeleteLogRecord record rid (bytes_of_string tab_name)))
      (thenE (remember ctx (write_record DELETE_TUPLE tab_name rid (Some record)))
      (thenE (delete_index_entries fuel tab tab_name record) (on_fh tab_name (delete_record rid)))))"

definition delete_next :: "nat \<Rightarrow> int \<Rightarrow> Context \<Rightarrow> string \<Rightarrow> TabMeta \<Rightarrow> Rid list \<Rightarrow> (engine, unit) comp" where
  "delete_next fuel ofd ctx tab_name tab rids = mapE (delete_one fuel ofd ctx tab_name tab) rids"

fun set_fields :: "TabMeta \<Rightarrow> SetClause list \<Rightarrow> bytes \<Rightarrow> rmdb_error + bytes" where
  "set_fields tab [] rec = Inr rec"
| "set_fields tab (clause # clauses) rec =
     (case get_col tab (tc_col_name (set_lhs clause)) of
        Inl e \<Rightarrow> Inl e
      | Inr col \<Rightarrow>
          (case fill_record [(set_rhs clause, col)] rec of
             Inl e \<Rightarrow> Inl e
           | Inr rec' \<Rightarrow> set_fields tab clauses rec'))"

definition update_one :: "nat \<Rightarrow> int \<Rightarrow> Context \<Rightarrow> string \<Rightarrow> TabMeta \<Rightarrow> SetClause list \<Rightarrow> Rid \<Rightarrow> (engine, unit) comp" where
  "update_one fuel ofd ctx tab_name tab set_clauses rid =
     bindE (on_fh tab_name (get_record rid)) (\<lambda>old_record.
       thenE (remember ctx (write_record UPDATE_TUPLE tab_name rid (Some old_record)))
         (case set_fields tab set_clauses old_record of
            Inl e \<Rightarrow> throwE e
          | Inr new_record \<Rightarrow>
              thenE (mapE (\<lambda>index.
                       if build_index_key index old_record = build_index_key index new_record then returnE ()
                       else on_open_index (index_file tab_name index)
                              (ensure_index_key_unique fuel (build_index_key index new_record) (Some rid)))
                       (tm_indexes tab))
             (thenE (move_index_entries fuel tab tab_name old_record new_record rid)
             (thenE (log_and_flush ofd ctx (UpdateLogRecord old_record new_record rid (bytes_of_string tab_name)))
                (on_fh tab_name (update_record rid new_record))))))"

definition update_next :: "nat \<Rightarrow> int \<Rightarrow> Context \<Rightarrow> string \<Rightarrow> TabMeta \<Rightarrow> SetClause list \<Rightarrow> Rid list \<Rightarrow> (engine, unit) comp" where
  "update_next fuel ofd ctx tab_name tab set_clauses rids = mapE (update_one fuel ofd ctx tab_name tab set_clauses) rids"

text \<open>The constructor of the sequential scan with its lock.\<close>

definition open_seq_scan :: "Context \<Rightarrow> string \<Rightarrow> Condition list \<Rightarrow> (engine, seq_scan) comp" where
  "open_seq_scan ctx tab_name conds =
     bindE (on_sm (SeqScanExecutor tab_name conds)) (\<lambda>e.
       thenE (lock_table_for lock_shared_on_table ctx tab_name) (returnE e))"

section \<open>Transactions\<close>

text \<open>\<open>txn = None\<close> is the null pointer; \<open>junk\<close> is the timestamp the constructor leaves uninitialised. The
  call has a log manager or not.\<close>

definition txn_begin :: "int \<Rightarrow> bool \<Rightarrow> timestamp_t \<Rightarrow> txn_id_t option \<Rightarrow> (engine, txn_id_t) comp" where
  "txn_begin ofd logging junk txn =
     bindE (case txn of
              Some tid \<Rightarrow> returnE tid
            | None \<Rightarrow>
                bindE (getE next_txn_id) (\<lambda>tid.
                  thenE (modifyE (\<lambda>s. s\<lparr>next_txn_id := tid + 1, txn_map := (txn_map s)(tid \<mapsto> new_transaction junk tid)\<rparr>)) (returnE tid)))
       (\<lambda>tid.
         bindE (getE next_timestamp) (\<lambda>ts.
           thenE (modifyE (\<lambda>s. s\<lparr>next_timestamp := ts + 1\<rparr>))
          (thenE (edit_txn tid (\<lambda>t. t\<lparr>start_ts := ts, txn_state := GROWING\<rparr>))
          (thenE (if logging then chain_log ofd tid BeginLogRecord else returnE ()) (returnE tid)))))"

definition txn_ended :: "engine \<Rightarrow> txn_id_t \<Rightarrow> bool" where
  "txn_ended s tid \<longleftrightarrow> txn_state (txn_of s tid) = COMMITTED \<or> txn_state (txn_of s tid) = ABORTED"

definition drop_locks :: "txn_id_t \<Rightarrow> (engine, unit) comp" where
  "drop_locks tid =
     modifyE (\<lambda>s. case release_locks (txn_of s tid) (en_locks s) of
       (t, lt) \<Rightarrow> s\<lparr>en_locks := lt, txn_map := (txn_map s)(tid \<mapsto> t)\<rparr>)"

definition txn_commit :: "int \<Rightarrow> bool \<Rightarrow> txn_id_t option \<Rightarrow> (engine, unit) comp" where
  "txn_commit ofd logging txn =
     (case txn of
        None \<Rightarrow> returnE ()
      | Some tid \<Rightarrow>
          bindE (getE (\<lambda>s. txn_ended s tid)) (\<lambda>ended.
            if ended then returnE ()
            else
              thenE (if logging then thenE (chain_log ofd tid CommitLogRecord) (on_log (flush_log_to_disk ofd)) else returnE ())
             (thenE (edit_txn tid (\<lambda>t. t\<lparr>write_set := []\<rparr>))
             (thenE (drop_locks tid) (edit_txn tid (\<lambda>t. t\<lparr>txn_state := COMMITTED\<rparr>))))))"

text \<open>Undoing one entry of the write set, taken from its back.\<close>

definition undo_write :: "nat \<Rightarrow> WriteRecord \<Rightarrow> (engine, unit) comp" where
  "undo_write fuel wr =
     (let table_name = wr_tab_name wr; rid = wr_rid wr; image = the (wr_record wr) in
      bindE (getE (\<lambda>s. get_table (sm_db (en_db s)) table_name)) (\<lambda>found.
        case found of
          Inl e \<Rightarrow> throwE e
        | Inr tab \<Rightarrow>
            bindE (getE (\<lambda>s. tf_fhs (sm_tables (en_db s)) table_name)) (\<lambda>fh.
              if fh = None then throwE OutOfRange
              else
                (case wr_type wr of
                   INSERT_TUPLE \<Rightarrow>
                     bindE (on_fh table_name (is_record rid)) (\<lambda>present.
                       if \<not> present then returnE ()
                       else
                         bindE (on_fh table_name (get_record rid)) (\<lambda>record.
                           thenE (delete_index_entries fuel tab table_name record) (on_fh table_name (delete_record rid))))
                 | DELETE_TUPLE \<Rightarrow>
                     thenE (on_fh table_name (insert_record_at fuel rid image)) (insert_index_entries fuel tab table_name image rid)
                 | UPDATE_TUPLE \<Rightarrow>
                     bindE (on_fh table_name (is_record rid)) (\<lambda>present.
                       if \<not> present then returnE ()
                       else
                         bindE (on_fh table_name (get_record rid)) (\<lambda>current_record.
                           thenE (move_index_entries fuel tab table_name current_record image rid)
                             (on_fh table_name (update_record rid image))))))))"

definition txn_abort :: "nat \<Rightarrow> int \<Rightarrow> bool \<Rightarrow> txn_id_t option \<Rightarrow> (engine, unit) comp" where
  "txn_abort fuel ofd logging txn =
     (case txn of
        None \<Rightarrow> returnE ()
      | Some tid \<Rightarrow>
          bindE (getE (\<lambda>s. txn_ended s tid)) (\<lambda>ended.
            if ended then returnE ()
            else
              bindE (getE (\<lambda>s. write_set (txn_of s tid))) (\<lambda>ws.
                thenE (mapE (\<lambda>wr. thenE (edit_txn tid (\<lambda>t. t\<lparr>write_set := butlast (write_set t)\<rparr>)) (undo_write fuel wr)) (rev ws))
               (thenE (drop_locks tid)
               (thenE (if logging then thenE (chain_log ofd tid AbortLogRecord) (on_log (flush_log_to_disk ofd)) else returnE ())
                  (edit_txn tid (\<lambda>t. t\<lparr>txn_state := ABORTED\<rparr>)))))))"

end
