(* ===== verification/Rollback.thy ===== *)
theory Rollback
  imports Engine Recovery
begin

text \<open>
  Rolling a transaction back (\<open>transaction/transaction_manager.cpp\<close>, modelled in \<open>Engine\<close>): whatever
  statements a transaction has run, each to its end or to an error, aborting it gives every table the contents
  it had when the transaction began, and takes its locks away.
\<close>

section \<open>Writing the log\<close>

text \<open>A disk manager whose log file has other contents.\<close>

definition log_written :: "disk_manager \<Rightarrow> bytes \<Rightarrow> disk_manager" where
  "log_written d c = d\<lparr>dm_os := (dm_os d)\<lparr>os_files := (os_files (dm_os d))(LOG_FILE_NAME \<mapsto> c)\<rparr>\<rparr>"

lemma log_written_twice [simp]: "log_written (log_written d c) c' = log_written d c'"
  by (simp add: log_written_def)

lemma log_open_written: "log_open d \<Longrightarrow> log_open (log_written d c)"
  by (auto simp: log_open_def log_written_def dm_inv_def)

lemma log_written_same: "log_open d \<Longrightarrow> \<exists>c. log_written d c = d"
proof -
  assume "log_open d"
  then obtain c where "os_files (dm_os d) LOG_FILE_NAME = Some c" by (fastforce simp: log_open_def dm_inv_def)
  then have "(os_files (dm_os d))(LOG_FILE_NAME \<mapsto> c) = os_files (dm_os d)" by auto
  then show ?thesis by (auto simp: log_written_def intro!: exI[of _ c])
qed

definition log_ready :: "log_state \<Rightarrow> bool" where
  "log_ready s \<longleftrightarrow> log_open (snd s) \<and> lb_offset (log_buf (fst s)) \<le> length (lb_buffer (log_buf (fst s)))"

lemma write_buffer_ready:
  assumes "log_ready (lm, d)"
  shows "\<exists>c. write_buffer ofd (lm, d) = (Inr (), (lm, log_written d c))"
proof -
  obtain c where c: "os_files (dm_os d) LOG_FILE_NAME = Some c" "os_fds (dm_os d) (log_fd d) = Some LOG_FILE_NAME" "log_fd d \<noteq> -1"
    using assms by (fastforce simp: log_ready_def log_open_def dm_inv_def)
  let ?bs = "take (lb_offset (log_buf lm)) (lb_buffer (log_buf lm))"
  have "write_log ofd (lb_buffer (log_buf lm)) (lb_offset (log_buf lm)) d = (Inr (), log_written d (pwrite c (length c) ?bs))"
    using c assms by (simp add: write_log_def ensure_log_fd_def thenE_def bindE_def os_write_def os_content_def Let_def log_written_def log_ready_def)
  then show ?thesis by (auto simp: write_buffer_def)
qed

lemma put_record_ready:
  assumes "log_ready (lm, d)" "log_tot_len r = int (length (serialize r))"
  shows "log_ready (put_record r lm, d)"
  using assms by (simp add: log_ready_def put_record_def mem_put_def)

lemma clear_buffer_ready: "log_open d \<Longrightarrow> log_ready (clear_buffer lm, d)"
  by (simp add: log_ready_def clear_buffer_def)

lemma log_ready_upd [simp]:
  "log_ready (lm\<lparr>global_lsn := n\<rparr>, d) = log_ready (lm, d)" "log_ready (lm\<lparr>persist_lsn := n\<rparr>, d) = log_ready (lm, d)"
  by (simp_all add: log_ready_def)

lemma add_log_ready:
  assumes rd: "log_ready (lm, d)" and len: "log_tot_len r = int (LOG_HEADER_SIZE + body_len (body r))"
  shows "\<exists>lm' c n. add_log_to_buffer ofd (Some r) (lm, d) = (Inr n, (lm', log_written d c)) \<and> log_ready (lm', log_written d c)"
proof -
  have op: "log_open d" using rd by (simp add: log_ready_def)
  obtain c0 where c0: "log_written d c0 = d" using log_written_same[OF op] by blast
  have tot: "log_tot_len (r\<lparr>lsn := n\<rparr>) = int (length (serialize (r\<lparr>lsn := n\<rparr>)))" for n using len by (simp add: length_serialize)
  show ?thesis
  proof (cases "is_full (log_tot_len r) (log_buf lm)")
    case False
    then have "add_log_to_buffer ofd (Some r) (lm, d) =
        (Inr (global_lsn lm), (put_record (r\<lparr>lsn := global_lsn lm\<rparr>) (lm\<lparr>global_lsn := global_lsn lm + 1\<rparr>), d))"
      by (simp add: add_log_to_buffer_def edit_log_def thenE_def)
    moreover have "log_ready (put_record (r\<lparr>lsn := global_lsn lm\<rparr>) (lm\<lparr>global_lsn := global_lsn lm + 1\<rparr>), d)"
      by (rule put_record_ready[OF _ tot]) (use rd in simp)
    ultimately show ?thesis using c0 by (intro exI[of _ "put_record _ _"] exI[of _ c0]) auto
  next
    case True
    obtain c where w: "write_buffer ofd (lm, d) = (Inr (), (lm, log_written d c))" using write_buffer_ready[OF rd] by blast
    define lm1 where "lm1 = clear_buffer (if lsn r \<noteq> INVALID_LSN then lm\<lparr>persist_lsn := lsn r - 1\<rparr> else lm)"
    have g: "global_lsn lm1 = global_lsn lm" by (simp add: lm1_def clear_buffer_def)
    have "add_log_to_buffer ofd (Some r) (lm, d) =
        (Inr (global_lsn lm), (put_record (r\<lparr>lsn := global_lsn lm\<rparr>) (lm1\<lparr>global_lsn := global_lsn lm + 1\<rparr>), log_written d c))"
      using True w g by (simp add: add_log_to_buffer_def edit_log_def thenE_def bindE_def lm1_def modifyE_def returnE_def getE_def)
    moreover have "log_ready (lm1, log_written d c)"
      unfolding lm1_def by (rule clear_buffer_ready[OF log_open_written[OF op]])
    then have "log_ready (put_record (r\<lparr>lsn := global_lsn lm\<rparr>) (lm1\<lparr>global_lsn := global_lsn lm + 1\<rparr>), log_written d c)"
      by (intro put_record_ready[OF _ tot]) simp
    ultimately show ?thesis by blast
  qed
qed

lemma flush_log_ready:
  assumes rd: "log_ready (lm, d)"
  shows "\<exists>lm' c. flush_log_to_disk ofd (lm, d) = (Inr (), (lm', log_written d c)) \<and> log_ready (lm', log_written d c)"
proof (cases "lb_offset (log_buf lm) = 0")
  case True
  obtain c0 where "log_written d c0 = d" using log_written_same rd by (auto simp: log_ready_def)
  then show ?thesis using True rd by (intro exI[of _ lm] exI[of _ c0]) (simp add: flush_log_to_disk_def)
next
  case False
  obtain c where w: "write_buffer ofd (lm, d) = (Inr (), (lm, log_written d c))" using write_buffer_ready[OF rd] by blast
  let ?n = "find_last_lsn (take (lb_offset (log_buf lm)) (lb_buffer (log_buf lm))) (read_int (lb_buffer (log_buf lm)) OFFSET_LSN)"
  have "flush_log_to_disk ofd (lm, d) = (Inr (), (clear_buffer (lm\<lparr>persist_lsn := ?n\<rparr>), log_written d c))"
    using False w by (simp add: flush_log_to_disk_def edit_log_def thenE_def bindE_def Let_def modifyE_def getE_def)
  then show ?thesis using clear_buffer_ready[OF log_open_written] rd by (auto simp: log_ready_def)
qed

section \<open>The tables do not see the log\<close>

lemma disk_page_written:
  assumes "log_open d" "fd2path d fd = Some p" "p \<noteq> LOG_FILE_NAME"
  shows "disk_page (log_written d c) fd n = disk_page d fd n"
proof -
  have "os_fds (dm_os d) fd = Some p" using assms by (auto simp: log_open_def dm_inv_def)
  then show ?thesis using assms(3) by (simp add: disk_page_def os_content_def log_written_def)
qed

lemma log_written_same_files:
  fixes c
  assumes "log_open (bp_disk b)"
  shows "same_files b (log_written (bp_disk b) c)"
proof -
  have "disk_page (log_written (bp_disk b) c) fd n = disk_page (bp_disk b) fd n" if "bp_open b fd" for fd n
    using that disk_page_written[OF assms] by (auto simp: bp_open_def)
  moreover have "dm_inv (log_written (bp_disk b) c)" using log_open_written[OF assms] by (simp add: log_open_def)
  ultimately show ?thesis by (auto simp: same_files_def log_written_def)
qed

lemma set_disk_sel [simp]:
  "sm_db (set_disk d w) = sm_db w" "sm_ihs (set_disk d w) = sm_ihs w" "tf_fhs (sm_tables (set_disk d w)) = tf_fhs (sm_tables w)"
  "tf_pool (sm_tables (set_disk d w)) = (tf_pool (sm_tables w))\<lparr>bp_disk := d\<rparr>"
  by (simp_all add: set_disk_def)

lemma tables_log_written:
  fixes c
  assumes "tables_ok (sm_tables w)" "log_open (bp_disk (tf_pool (sm_tables w)))"
  defines "w' \<equiv> set_disk (log_written (bp_disk (tf_pool (sm_tables w))) c) w"
  shows "tables_ok (sm_tables w')" "tables_db (sm_tables w') = tables_db (sm_tables w)"
  using tables_new_disk[OF assms(1) log_written_same_files[OF assms(2)], where c1 = c] by (simp_all add: w'_def set_disk_def)

section \<open>What stays\<close>

definition eng_inv :: "engine \<Rightarrow> bool" where
  "eng_inv s \<longleftrightarrow> tables_ok (sm_tables (en_db s)) \<and> log_ready (en_log s, en_disk s)"

abbreviation contents :: "engine \<Rightarrow> string \<Rightarrow> Rid \<rightharpoonup> bytes" where
  "contents s \<equiv> tables_db (sm_tables (en_db s))"

abbreviation open_files :: "engine \<Rightarrow> string \<rightharpoonup> int \<times> RmFileHdr" where
  "open_files s \<equiv> tf_fhs (sm_tables (en_db s))"

text \<open>The catalog and the open files up to growth, and what the transaction has to undo.\<close>

definition grows :: "engine \<Rightarrow> engine \<Rightarrow> bool" where
  "grows s s' \<longleftrightarrow> eng_inv s' \<and> sm_db (en_db s') = sm_db (en_db s) \<and>
     (\<forall>t fd h. open_files s t = Some (fd, h) \<longrightarrow> (\<exists>h'. open_files s' t = Some (fd, h') \<and> hdr_grow h h'))"

definition moved :: "txn_id_t \<Rightarrow> engine \<Rightarrow> engine \<Rightarrow> bool" where
  "moved tid s s' \<longleftrightarrow> grows s s' \<and>
     write_set (txn_of s' tid) = write_set (txn_of s tid) \<and> txn_state (txn_of s' tid) = txn_state (txn_of s tid)"

lemma grows_refl: "eng_inv s \<Longrightarrow> grows s s"
  by (simp add: grows_def)

lemma growsD:
  assumes "grows s s'"
  shows "eng_inv s'" "sm_db (en_db s') = sm_db (en_db s)" "open_files s t = Some (fd, h) \<Longrightarrow> \<exists>h'. open_files s' t = Some (fd, h') \<and> hdr_grow h h'"
  using assms unfolding grows_def by blast+

lemma grows_trans:
  assumes "grows s s'" "grows s' s''"
  shows "grows s s''"
proof -
  have "\<exists>h''. open_files s'' t = Some (fd, h'') \<and> hdr_grow h h''" if t: "open_files s t = Some (fd, h)" for t fd h
  proof -
    obtain h' where h': "open_files s' t = Some (fd, h')" "hdr_grow h h'" using growsD(3)[OF assms(1) t] by blast
    obtain h'' where "open_files s'' t = Some (fd, h'')" "hdr_grow h' h''" using growsD(3)[OF assms(2) h'(1)] by blast
    then show ?thesis using hdr_grow_trans[OF h'(2)] by blast
  qed
  then show ?thesis using growsD(1,2)[OF assms(1)] growsD(1,2)[OF assms(2)] by (simp add: grows_def)
qed

lemma moved_refl: "eng_inv s \<Longrightarrow> moved tid s s"
  by (simp add: moved_def grows_refl)

lemma movedD:
  assumes "moved tid s s'"
  shows "grows s s'" "eng_inv s'" "write_set (txn_of s' tid) = write_set (txn_of s tid)" "txn_state (txn_of s' tid) = txn_state (txn_of s tid)"
  using assms growsD(1) unfolding moved_def by blast+

lemma moved_trans: "moved tid s s' \<Longrightarrow> moved tid s' s'' \<Longrightarrow> moved tid s s''"
  unfolding moved_def using grows_trans by fastforce

text \<open>\<open>stays tid m\<close>: whatever its result, \<open>m\<close> changes no table.\<close>

definition unchanged :: "txn_id_t \<Rightarrow> engine \<Rightarrow> engine \<Rightarrow> bool" where
  "unchanged tid s s' \<longleftrightarrow> moved tid s s' \<and> contents s' = contents s \<and> open_files s' = open_files s"

lemma unchangedD: "unchanged tid s s' \<Longrightarrow> moved tid s s'" "unchanged tid s s' \<Longrightarrow> contents s' = contents s"
  "unchanged tid s s' \<Longrightarrow> open_files s' = open_files s" "unchanged tid s s' \<Longrightarrow> eng_inv s'"
  using movedD(2) by (auto simp: unchanged_def)

lemma unchanged_refl: "eng_inv s \<Longrightarrow> unchanged tid s s"
  by (simp add: unchanged_def moved_refl)

lemma unchanged_trans: "unchanged tid s s' \<Longrightarrow> unchanged tid s' s'' \<Longrightarrow> unchanged tid s s''"
  using moved_trans by (auto simp: unchanged_def)

definition stays :: "txn_id_t \<Rightarrow> (engine, 'a) comp \<Rightarrow> bool" where
  "stays tid m \<longleftrightarrow> (\<forall>s r s'. eng_inv s \<longrightarrow> m s = (r, s') \<longrightarrow> unchanged tid s s')"

lemma staysI: "(\<And>s r s'. eng_inv s \<Longrightarrow> m s = (r, s') \<Longrightarrow> unchanged tid s s') \<Longrightarrow> stays tid m"
  unfolding stays_def by blast

lemma staysD: "stays tid m \<Longrightarrow> eng_inv s \<Longrightarrow> m s = (r, s') \<Longrightarrow> unchanged tid s s'"
  unfolding stays_def by blast

lemma stays_basic [simp]: "stays tid (returnE x)" "stays tid (throwE e)" "stays tid (getE f)"
  by (auto simp: stays_def returnE_def throwE_def getE_def unchanged_refl)

lemma stays_bind:
  assumes "stays tid m" "\<And>x. stays tid (f x)"
  shows "stays tid (bindE m f)"
proof (rule staysI)
  fix s r s' assume s: "eng_inv s" "bindE m f s = (r, s')"
  obtain x s1 where m: "m s = (x, s1)" by fastforce
  note s1 = staysD[OF assms(1) s(1) m]
  show "unchanged tid s s'"
  proof (cases x)
    case (Inl e)
    then show ?thesis using s(2) m s1 by (simp add: bindE_def)
  next
    case (Inr y)
    then have "f y s1 = (r, s')" using s(2) m by (simp add: bindE_def)
    from staysD[OF assms(2) unchangedD(4)[OF s1] this] unchanged_trans[OF s1] show ?thesis by blast
  qed
qed

lemma stays_then: "stays tid m \<Longrightarrow> stays tid n \<Longrightarrow> stays tid (thenE m n)"
  unfolding thenE_def by (rule stays_bind)

lemma stays_map: "(\<And>x. x \<in> set xs \<Longrightarrow> stays tid (f x)) \<Longrightarrow> stays tid (mapE f xs)"
  by (induction xs) (simp_all add: stays_then)

lemma stays_index: "stays tid (on_sm (on_index name m))"
  by (rule staysI)
    (auto simp: on_sm_def on_index_def unchanged_def moved_def grows_def eng_inv_def txn_of_def split: option.splits prod.splits)

lemma stays_open_index: "stays tid (on_open_index name m)"
  unfolding on_open_index_def by (auto intro!: stays_bind stays_then stays_index)

lemma stays_log:
  assumes "\<And>lm d. log_ready (lm, d) \<Longrightarrow> \<exists>lm' c r. m (lm, d) = (r, (lm', log_written d c)) \<and> log_ready (lm', log_written d c)"
  shows "stays tid (on_log m)"
proof (rule staysI)
  fix s r s' assume s: "eng_inv s" "on_log m s = (r, s')"
  then have rd: "log_ready (en_log s, en_disk s)" and ok: "tables_ok (sm_tables (en_db s))" by (simp_all add: eng_inv_def)
  obtain lm' c where m: "m (en_log s, en_disk s) = (r, (lm', log_written (en_disk s) c))" "log_ready (lm', log_written (en_disk s) c)"
    "s' = s\<lparr>en_log := lm', en_db := set_disk (log_written (en_disk s) c) (en_db s)\<rparr>"
    using assms[OF rd] s(2) by (auto simp: on_log_def)
  have "log_open (en_disk s)" using rd by (simp add: log_ready_def)
  from tables_log_written[OF ok this, of c] m(2) show "unchanged tid s s'"
    by (simp add: m(3) unchanged_def moved_def grows_def eng_inv_def txn_of_def)
qed

lemma stays_edit:
  assumes "\<And>t. write_set (f t) = write_set t" "\<And>t. txn_state (f t) = txn_state t"
  shows "stays tid (edit_txn tid' f)"
  by (rule staysI) (auto simp: edit_txn_def unchanged_def moved_def grows_def eng_inv_def txn_of_def assms)

lemma make_log_len: "log_tot_len ((make_log tid bd)\<lparr>log_prev_lsn := p\<rparr>) = int (LOG_HEADER_SIZE + body_len (body ((make_log tid bd)\<lparr>log_prev_lsn := p\<rparr>)))"
  by (simp add: make_log_def)

lemma stays_chain_log: "stays tid (chain_log ofd tid' bd)"
proof (rule staysI)
  fix s r s' assume s: "eng_inv s" "chain_log ofd tid' bd s = (r, s')"
  let ?r = "(make_log tid' bd)\<lparr>log_prev_lsn := prev_lsn (txn_of s tid')\<rparr>"
  have "stays tid (bindE (on_log (add_log_to_buffer ofd (Some ?r))) (\<lambda>n. edit_txn tid' (\<lambda>t. t\<lparr>prev_lsn := n\<rparr>)))"
    by (rule stays_bind[OF stays_log stays_edit]) (use add_log_ready[OF _ make_log_len] in \<open>simp_all, blast\<close>)
  from staysD[OF this s(1)] s(2) show "unchanged tid s s'" by (simp add: chain_log_def)
qed

lemma stays_flush: "stays tid (on_log (flush_log_to_disk ofd))"
  by (rule stays_log) (use flush_log_ready in blast)

lemma stays_log_and_flush: "stays tid (log_and_flush ofd ctx bd)"
  unfolding log_and_flush_def
  by (cases "cx_log_mgr ctx"; cases "cx_txn ctx") (simp_all add: stays_then stays_chain_log stays_flush)

lemma log_succeeds:
  assumes "eng_inv s"
  shows "\<exists>s'. chain_log ofd tid bd s = (Inr (), s')" "\<exists>s'. on_log (flush_log_to_disk ofd) s = (Inr (), s')"
proof -
  have rd: "log_ready (en_log s, en_disk s)" using assms by (simp add: eng_inv_def)
  from flush_log_ready[OF rd, of ofd] show "\<exists>s'. on_log (flush_log_to_disk ofd) s = (Inr (), s')" by (auto simp: on_log_def)
  from add_log_ready[OF rd make_log_len[where tid = tid and bd = bd and p = "prev_lsn (txn_of s tid)"], of ofd] show "\<exists>s'. chain_log ofd tid bd s = (Inr (), s')"
    by (auto simp: chain_log_def bindE_def on_log_def edit_txn_def getE_def)
qed

lemma log_and_flush_succeeds:
  assumes "eng_inv s"
  shows "\<exists>s'. log_and_flush ofd ctx bd s = (Inr (), s')"
proof (cases "cx_log_mgr ctx \<and> cx_txn ctx \<noteq> None")
  case True
  then obtain tid where t: "cx_log_mgr ctx" "cx_txn ctx = Some tid" by auto
  obtain s1 where s1: "chain_log ofd tid bd s = (Inr (), s1)" using log_succeeds(1)[OF assms] by blast
  then have "eng_inv s1" using staysD[OF stays_chain_log[of tid] assms s1] unchangedD(4) by blast
  from log_succeeds(2)[OF this] s1 t show ?thesis by (auto simp: log_and_flush_def thenE_Inr)
qed (auto simp: log_and_flush_def split: bool.splits option.splits)

lemma lock_txn: "lock lid m (Some t) lt = (r, t', lt') \<Longrightarrow> \<exists>ls. t' = Some (t\<lparr>lock_set := ls\<rparr>)"
  by (auto simp: lock_def Let_def lock_set_insert_def split: if_splits intro: exI[of _ "lock_set t"])

lemma stays_lock:
  assumes "\<And>t fd lt r t' lt'. lk (Some t) fd lt = (r, t', lt') \<Longrightarrow> \<exists>ls. t' = Some (t\<lparr>lock_set := ls\<rparr>)"
  shows "stays tid (lock_table_for lk ctx tab_name)"
proof (rule staysI)
  fix s r s' assume s: "eng_inv s" "lock_table_for lk ctx tab_name s = (r, s')"
  show "unchanged tid s s'"
  proof (cases "cx_lock_mgr ctx \<and> cx_txn ctx \<noteq> None")
    case True
    then obtain tid' where c: "cx_lock_mgr ctx" "cx_txn ctx = Some tid'" by auto
    obtain x t lt where l: "lk (Some (txn_of s tid')) (fst (the (open_files s tab_name))) (en_locks s) = (x, t, lt)" by (rule prod_cases3)
    obtain ls where "t = Some ((txn_of s tid')\<lparr>lock_set := ls\<rparr>)" using assms[OF l] by blast
    then have "s' = s\<lparr>en_locks := lt, txn_map := (txn_map s)(tid' \<mapsto> (txn_of s tid')\<lparr>lock_set := ls\<rparr>)\<rparr>"
      using s(2) c l by (simp add: lock_table_for_def)
    then show ?thesis using s(1) by (auto simp: unchanged_def moved_def grows_def eng_inv_def txn_of_def)
  next
    case False
    then show ?thesis using s unchanged_refl by (cases "cx_lock_mgr ctx"; cases "cx_txn ctx") (auto simp: lock_table_for_def)
  qed
qed

lemma stays_table_locks:
  "stays tid (lock_table_for lock_exclusive_on_table ctx t)" "stays tid (lock_table_for lock_shared_on_table ctx t)"
  by (rule stays_lock, simp add: lock_exclusive_on_table_def lock_shared_on_table_def lock_txn)+

lemma stays_open_for_change: "stays tid (open_for_change ctx t check)"
  unfolding open_for_change_def
  by (intro stays_bind stays_basic) (auto split: sum.splits option.splits intro!: stays_bind stays_then stays_table_locks)

section \<open>Single calls on a table\<close>

lemma on_fh_run:
  assumes inv: "eng_inv s" and t: "open_files s t = Some (fd, h)"
    and m: "m (handle fd h (tf_pool (sm_tables (en_db s)))) = (r, st')" "rm_ok UNIV st'" "rm_frame (handle fd h (tf_pool (sm_tables (en_db s)))) st'"
  shows "\<exists>s'. on_fh t m s = (r, s') \<and> moved tid s s' \<and> contents s' = (contents s)(t := rm_records st') \<and> txn_map s' = txn_map s"
proof -
  have ok: "tables_ok (sm_tables (en_db s))" using inv by (simp add: eng_inv_def)
  from on_file_run[where m = m, OF ok t m] obtain w where w: "on_file t m (sm_tables (en_db s)) = (r, w)" "tables_ok w"
    "tables_db w = (tables_db (sm_tables (en_db s)))(t := rm_records st')" "tables_frame (sm_tables (en_db s)) w" by blast
  let ?s' = "s\<lparr>en_db := (en_db s)\<lparr>sm_tables := w\<rparr>\<rparr>"
  have "log_open (bp_disk (tf_pool w))"
    using inv w(4) by (auto simp: eng_inv_def log_ready_def log_open_def tables_frame_def dm_paths_def)
  then have "eng_inv ?s'" using inv w(2) by (simp add: eng_inv_def log_ready_def)
  then have "moved tid s ?s'" using w(4) by (simp add: moved_def grows_def tables_frame_def txn_of_def)
  then show ?thesis using w by (intro exI[of _ ?s']) (simp add: on_fh_def on_sm_def on_tables_def)
qed

lemma table_handle:
  assumes "eng_inv s" "open_files s t = Some (fd, h)"
  defines "st \<equiv> handle fd h (tf_pool (sm_tables (en_db s)))"
  shows "rm_ok UNIV st" "rm_records st = contents s t" "rm_hdr st = h" "bp_room2 (rm_pool st)"
  using assms unfolding eng_inv_def tables_ok_def by (auto simp: tables_db_def)

lemma fh_get:
  assumes "eng_inv s" "open_files s t = Some (fd, h)" "rid_ok h rid"
  shows "\<exists>s'. on_fh t (get_record rid) s = ((case contents s t rid of
      None \<Rightarrow> Inl (RecordNotFoundError (rid_page_no rid) (rid_slot_no rid)) | Some bs \<Rightarrow> Inr bs), s') \<and>
    moved tid s s' \<and> contents s' = contents s \<and> txn_map s' = txn_map s"
proof -
  note st = table_handle[OF assms(1,2)]
  from get_record_ok[OF st(1), of rid] assms(3) st(2,3) obtain st' where
    "get_record rid (handle fd h (tf_pool (sm_tables (en_db s)))) = ((case contents s t rid of
      None \<Rightarrow> Inl (RecordNotFoundError (rid_page_no rid) (rid_slot_no rid)) | Some bs \<Rightarrow> Inr bs), st')"
    "rm_ok UNIV st'" "rm_records st' = contents s t" "rm_frame (handle fd h (tf_pool (sm_tables (en_db s)))) st'" by auto
  from on_fh_run[where m = "get_record rid", OF assms(1,2) this(1,2,4)] this(3) show ?thesis by auto
qed

lemma fh_insert:
  assumes "eng_inv s" "open_files s t = Some (fd, h)" "int32 (num_pages h + 1)" "length buf = nat (record_size h)"
  shows "\<exists>s' rid. on_fh t (insert_record buf) s = (Inr rid, s') \<and> contents s t rid = None \<and> moved tid s s' \<and>
    contents s' = (contents s)(t := (contents s t)(rid \<mapsto> buf)) \<and> txn_map s' = txn_map s"
proof -
  note st = table_handle[OF assms(1,2)]
  from insert_record_ok[OF st(1), of buf] assms(3,4) st(2,3) obtain rid st' where
    "insert_record buf (handle fd h (tf_pool (sm_tables (en_db s)))) = (Inr rid, st')" "contents s t rid = None"
    "rm_ok UNIV st'" "rm_records st' = (contents s t)(rid \<mapsto> buf)" "rm_frame (handle fd h (tf_pool (sm_tables (en_db s)))) st'" by auto
  with on_fh_run[where m = "insert_record buf" and tid = tid, OF assms(1,2) this(1,3,5)] show ?thesis by auto
qed

lemma fh_delete:
  assumes "eng_inv s" "open_files s t = Some (fd, h)" "rid_ok h rid" "contents s t rid \<noteq> None"
  shows "\<exists>s'. on_fh t (delete_record rid) s = (Inr (), s') \<and> moved tid s s' \<and>
    contents s' = (contents s)(t := (contents s t)(rid := None)) \<and> txn_map s' = txn_map s"
proof -
  note st = table_handle[OF assms(1,2)]
  from delete_record_ok[OF st(1), of rid] assms(3,4) st(2,3) obtain st' where
    "delete_record rid (handle fd h (tf_pool (sm_tables (en_db s)))) = (Inr (), st')"
    "rm_ok UNIV st'" "rm_records st' = (contents s t)(rid := None)" "rm_frame (handle fd h (tf_pool (sm_tables (en_db s)))) st'" by auto
  with on_fh_run[where m = "delete_record rid", OF assms(1,2) this(1,2,4)] show ?thesis by auto
qed

lemma fh_update:
  assumes "eng_inv s" "open_files s t = Some (fd, h)" "rid_ok h rid" "contents s t rid \<noteq> None" "length buf = nat (record_size h)"
  shows "\<exists>s'. on_fh t (update_record rid buf) s = (Inr (), s') \<and> moved tid s s' \<and>
    contents s' = (contents s)(t := (contents s t)(rid \<mapsto> buf)) \<and> txn_map s' = txn_map s"
proof -
  note st = table_handle[OF assms(1,2)]
  from update_record_ok[OF st(1), of rid buf] assms(3-5) st(2,3) obtain st' where
    "update_record rid buf (handle fd h (tf_pool (sm_tables (en_db s)))) = (Inr (), st')"
    "rm_ok UNIV st'" "rm_records st' = (contents s t)(rid \<mapsto> buf)" "rm_frame (handle fd h (tf_pool (sm_tables (en_db s)))) st'" by auto
  with on_fh_run[where m = "update_record rid buf", OF assms(1,2) this(1,2,4)] show ?thesis by auto
qed

lemma fh_is_record:
  assumes "eng_inv s" "open_files s t = Some (fd, h)" "rid_ok h rid"
  shows "\<exists>s'. on_fh t (is_record rid) s = (Inr (contents s t rid \<noteq> None), s') \<and> moved tid s s' \<and> contents s' = contents s \<and> txn_map s' = txn_map s"
proof -
  note st = table_handle[OF assms(1,2)]
  let ?st = "handle fd h (tf_pool (sm_tables (en_db s)))"
  have r: "rm_rel ?st h (rm_pages ?st)" "file_wf UNIV h (rm_pages ?st)" using st(1,3) by (simp_all add: rm_ok_def)
  from is_record_rel[OF r(1) assms(3)] obtain st' where i: "is_record rid ?st = (Inr (file_rec h (rm_pages ?st) rid \<noteq> None), st')"
    "rm_rel st' h (rm_pages ?st)" "rm_frame ?st st'" by blast
  have c: "file_rec h (rm_pages ?st) = contents s t" using st(2,3) by (simp add: rm_records_def)
  with on_fh_run[where m = "is_record rid", OF assms(1,2) i(1) rm_ok_rel(1)[OF i(2) r(2)] i(3)] rm_ok_rel(2)[OF i(2) r(2)]
  show ?thesis by (auto simp: rm_records_def)
qed

lemma fh_insert_at:
  assumes "eng_inv s" "open_files s t = Some (fd, h)" "rid_ok h rid" "length buf = nat (record_size h)" "nat (num_pages h) \<le> fuel"
  shows "\<exists>s'. on_fh t (insert_record_at fuel rid buf) s = (Inr True, s') \<and> moved tid s s' \<and>
    contents s' = (contents s)(t := (contents s t)(rid \<mapsto> buf)) \<and> txn_map s' = txn_map s"
proof -
  note st = table_handle[OF assms(1,2)]
  let ?st = "handle fd h (tf_pool (sm_tables (en_db s)))"
  have r: "rm_rel ?st h (rm_pages ?st)" "file_wf UNIV h (rm_pages ?st)" using st(1,3) by (simp_all add: rm_ok_def)
  from insert_record_at_rel[OF r assms(3) st(4) assms(4,5)] obtain st' h' pg' where
    i: "insert_record_at fuel rid buf ?st = (Inr True, st')" "rm_rel st' h' pg'" "file_wf UNIV h' pg'"
    "file_rec h' pg' = (file_rec h (rm_pages ?st))(rid \<mapsto> buf)" "rm_frame ?st st'" by blast
  have c: "file_rec h (rm_pages ?st) = contents s t" using st(2,3) by (simp add: rm_records_def)
  note k = rm_ok_rel[OF i(2,3)]
  have "rm_records st' = (contents s t)(rid \<mapsto> buf)" using k(2) i(4) c by (simp add: rm_records_def)
  with on_fh_run[where m = "insert_record_at fuel rid buf", OF assms(1,2) i(1) k(1) i(5)] show ?thesis by auto
qed

section \<open>What aborting restores\<close>

definition undo_abs :: "WriteRecord \<Rightarrow> (string \<Rightarrow> Rid \<rightharpoonup> bytes) \<Rightarrow> string \<Rightarrow> Rid \<rightharpoonup> bytes" where
  "undo_abs wr db =
     (case wr_type wr of
        INSERT_TUPLE \<Rightarrow> db(wr_tab_name wr := (db (wr_tab_name wr))(wr_rid wr := None))
      | DELETE_TUPLE \<Rightarrow> db(wr_tab_name wr := (db (wr_tab_name wr))(wr_rid wr \<mapsto> the (wr_record wr)))
      | UPDATE_TUPLE \<Rightarrow>
          if db (wr_tab_name wr) (wr_rid wr) = None then db
          else db(wr_tab_name wr := (db (wr_tab_name wr))(wr_rid wr \<mapsto> the (wr_record wr))))"

definition rolled :: "WriteRecord list \<Rightarrow> (string \<Rightarrow> Rid \<rightharpoonup> bytes) \<Rightarrow> string \<Rightarrow> Rid \<rightharpoonup> bytes" where
  "rolled ws db = fold undo_abs (rev ws) db"

lemma rolled_snoc [simp]: "rolled (ws @ [wr]) db = rolled ws (undo_abs wr db)"
  by (simp add: rolled_def)

text \<open>The entries of the write set can be undone.\<close>

definition wr_fine :: "engine \<Rightarrow> WriteRecord \<Rightarrow> bool" where
  "wr_fine s wr \<longleftrightarrow> (\<exists>tab. get_table (sm_db (en_db s)) (wr_tab_name wr) = Inr tab) \<and>
     (\<exists>fd h. open_files s (wr_tab_name wr) = Some (fd, h) \<and> rid_ok h (wr_rid wr) \<and>
        (wr_type wr \<noteq> INSERT_TUPLE \<longrightarrow> length (the (wr_record wr)) = nat (record_size h)))"

lemma rid_ok_grow: "hdr_grow h h' \<Longrightarrow> rid_ok h rid \<Longrightarrow> rid_ok h' rid"
  by (simp add: hdr_grow_def rid_ok_def page_in_def slot_ok_def)

lemma wr_fine_grows:
  assumes "grows s s'" "wr_fine s wr"
  shows "wr_fine s' wr"
proof -
  obtain tab fd h where w: "get_table (sm_db (en_db s)) (wr_tab_name wr) = Inr tab" "open_files s (wr_tab_name wr) = Some (fd, h)"
    "rid_ok h (wr_rid wr)" "wr_type wr \<noteq> INSERT_TUPLE \<longrightarrow> length (the (wr_record wr)) = nat (record_size h)"
    using assms(2) by (auto simp: wr_fine_def)
  obtain h' where h': "open_files s' (wr_tab_name wr) = Some (fd, h')" "hdr_grow h h'" using growsD(3)[OF assms(1) w(2)] by blast
  have "record_size h' = record_size h" using h'(2) by (simp add: hdr_grow_def)
  then show ?thesis using w h' growsD(2)[OF assms(1)] rid_ok_grow[OF h'(2) w(3)] by (auto simp: wr_fine_def)
qed

definition rb_inv :: "txn_id_t \<Rightarrow> (string \<Rightarrow> Rid \<rightharpoonup> bytes) \<Rightarrow> engine \<Rightarrow> bool" where
  "rb_inv tid d0 s \<longleftrightarrow> eng_inv s \<and> rolled (write_set (txn_of s tid)) (contents s) = d0 \<and>
     (\<forall>wr \<in> set (write_set (txn_of s tid)). wr_fine s wr)"

lemma rb_inv_moved:
  assumes "rb_inv tid d0 s" "moved tid s s'" "contents s' = contents s"
  shows "rb_inv tid d0 s'"
  using assms(1,3) movedD[OF assms(2)] wr_fine_grows by (auto simp: rb_inv_def)

text \<open>The changes of a statement: each result leaves something that can be rolled back.\<close>

definition undoable :: "txn_id_t \<Rightarrow> (string \<Rightarrow> Rid \<rightharpoonup> bytes) \<Rightarrow> (engine, 'a) comp \<Rightarrow> engine \<Rightarrow> bool" where
  "undoable tid d0 m s \<longleftrightarrow> (\<forall>r s'. m s = (r, s') \<longrightarrow> rb_inv tid d0 s' \<and> grows s s' \<and> txn_state (txn_of s' tid) = txn_state (txn_of s tid))"

lemma undoable_stays: "stays tid m \<Longrightarrow> rb_inv tid d0 s \<Longrightarrow> undoable tid d0 m s"
  unfolding undoable_def using staysD rb_inv_moved movedD unchangedD by (metis rb_inv_def)

lemma undoable_bind:
  assumes "m s = (x, s1)" "grows s s1" "txn_state (txn_of s1 tid) = txn_state (txn_of s tid)" "\<And>e. x = Inl e \<Longrightarrow> rb_inv tid d0 s1"
    "\<And>y. x = Inr y \<Longrightarrow> undoable tid d0 (f y) s1"
  shows "undoable tid d0 (bindE m f) s"
  unfolding undoable_def
proof (intro allI impI)
  fix r s' assume b: "bindE m f s = (r, s')"
  show "rb_inv tid d0 s' \<and> grows s s' \<and> txn_state (txn_of s' tid) = txn_state (txn_of s tid)"
  proof (cases x)
    case (Inl e)
    then have "s' = s1" using b assms(1) by (simp add: bindE_def)
    then show ?thesis using assms(2,3) assms(4)[OF Inl] by simp
  next
    case (Inr y)
    then have "f y s1 = (r, s')" using b assms(1) by (simp add: bindE_def)
    then show ?thesis using assms(5)[OF Inr] grows_trans[OF assms(2)] assms(3) unfolding undoable_def by metis
  qed
qed

lemma undoable_then:
  assumes "m s = (x, s1)" "grows s s1" "txn_state (txn_of s1 tid) = txn_state (txn_of s tid)" "\<And>e. x = Inl e \<Longrightarrow> rb_inv tid d0 s1"
    "\<And>y. x = Inr y \<Longrightarrow> undoable tid d0 n s1"
  shows "undoable tid d0 (thenE m n) s"
  unfolding thenE_def by (rule undoable_bind[where m = m, OF assms])

lemma undoable_bind_ok:
  assumes "m s = (Inr y, s1)" "grows s s1" "txn_state (txn_of s1 tid) = txn_state (txn_of s tid)" "undoable tid d0 (f y) s1"
  shows "undoable tid d0 (bindE m f) s"
  by (rule undoable_bind[where m = m, OF assms(1-3)]) (use assms(4) in simp_all)

lemma undoable_then_ok:
  assumes "m s = (Inr y, s1)" "grows s s1" "txn_state (txn_of s1 tid) = txn_state (txn_of s tid)" "undoable tid d0 n s1"
  shows "undoable tid d0 (thenE m n) s"
  unfolding thenE_def by (rule undoable_bind_ok[where m = m, OF assms])

lemma undoable_stays_then:
  assumes "stays tid m" "rb_inv tid d0 s" "\<And>s1. rb_inv tid d0 s1 \<Longrightarrow> unchanged tid s s1 \<Longrightarrow> undoable tid d0 n s1"
  shows "undoable tid d0 (thenE m n) s"
proof -
  obtain x s1 where m: "m s = (x, s1)" by fastforce
  have inv: "eng_inv s" using assms(2) by (simp add: rb_inv_def)
  have k: "unchanged tid s s1" by (rule staysD[OF assms(1) inv m])
  have "rb_inv tid d0 s1" by (rule rb_inv_moved[OF assms(2) unchangedD(1,2)[OF k]])
  then show ?thesis using assms(3) k movedD[OF unchangedD(1)[OF k]] by (intro undoable_then[where m = m, OF m]) auto
qed

section \<open>Statements can be rolled back\<close>

definition table_fine :: "engine \<Rightarrow> string \<Rightarrow> TabMeta \<Rightarrow> bool" where
  "table_fine s t tab \<longleftrightarrow> get_table (sm_db (en_db s)) t = Inr tab \<and>
     (\<exists>fd h. open_files s t = Some (fd, h) \<and> cols_wf (nat (record_size h)) (tm_cols tab))"

definition hdr_of :: "engine \<Rightarrow> string \<Rightarrow> RmFileHdr" where
  "hdr_of s t = snd (the (open_files s t))"

lemma table_fineE:
  assumes "table_fine s t tab"
  obtains fd where "get_table (sm_db (en_db s)) t = Inr tab" "open_files s t = Some (fd, hdr_of s t)"
    "cols_wf (nat (record_size (hdr_of s t))) (tm_cols tab)"
  using assms by (auto simp: table_fine_def hdr_of_def)

lemma table_fine_grows:
  assumes "grows s s'" "table_fine s t tab"
  shows "table_fine s' t tab" "hdr_grow (hdr_of s t) (hdr_of s' t)"
proof -
  obtain fd where f: "get_table (sm_db (en_db s)) t = Inr tab" "open_files s t = Some (fd, hdr_of s t)"
    "cols_wf (nat (record_size (hdr_of s t))) (tm_cols tab)" by (rule table_fineE[OF assms(2)])
  obtain h' where h': "open_files s' t = Some (fd, h')" "hdr_grow (hdr_of s t) h'" using growsD(3)[OF assms(1) f(2)] by blast
  then show "table_fine s' t tab" using f growsD(2)[OF assms(1)] by (auto simp: table_fine_def hdr_grow_def)
  show "hdr_grow (hdr_of s t) (hdr_of s' t)" using h' by (simp add: hdr_of_def)
qed

lemma stored_record:
  assumes "eng_inv s" "open_files s t = Some (fd, h)" "contents s t rid = Some rec"
  shows "rid_ok h rid" "length rec = nat (record_size h)"
proof -
  note st = table_handle[OF assms(1,2)]
  let ?st = "handle fd h (tf_pool (sm_tables (en_db s)))"
  have r: "file_wf UNIV h (rm_pages ?st)" "file_rec h (rm_pages ?st) rid = Some rec" using st assms(3) by (simp_all add: rm_ok_def rm_records_def)
  then show "rid_ok h rid" using file_rec_SomeD[of h "rm_pages ?st" rid] by (simp add: rid_ok_def)
  then have p: "page_in h (rid_page_no rid)" "slot_ok h (rid_slot_no rid)"
    "page_rec h (rm_pages ?st (rid_page_no rid)) (rid_slot_no rid) = Some rec"
    using r(2) file_rec_page by (simp_all add: rid_ok_def)
  have "length (rm_pages ?st (rid_page_no rid)) = PAGE_SIZE" using file_wfD(3)[OF r(1) p(1)] by (simp add: page_wf_def)
  then show "length rec = nat (record_size h)"
    using p(3) slot_offset_bounds(2)[OF file_wfD(1)[OF r(1)] p(2)] by (auto simp: page_rec_def get_slot_def intro!: length_mem_get split: if_splits)
qed

lemma remember_ok:
  assumes "rb_inv tid d0 s" "cx_txn ctx = Some tid" "rolled (write_set (txn_of s tid)) (undo_abs wr (contents s)) = d1" "wr_fine s wr"
  shows "\<exists>s'. remember ctx wr s = (Inr (), s') \<and> rb_inv tid d1 s' \<and> grows s s' \<and> contents s' = contents s \<and>
    txn_state (txn_of s' tid) = txn_state (txn_of s tid)"
proof -
  define s' where "s' = s\<lparr>txn_map := (txn_map s)(tid \<mapsto> append_write_record wr (txn_of s tid))\<rparr>"
  have r: "remember ctx wr s = (Inr (), s')" using assms(2) by (simp add: remember_def edit_txn_def s'_def)
  have g: "grows s s'" using assms(1) by (simp add: grows_def eng_inv_def rb_inv_def s'_def)
  have w: "write_set (txn_of s' tid) = write_set (txn_of s tid) @ [wr]" "contents s' = contents s" "txn_state (txn_of s' tid) = txn_state (txn_of s tid)"
    by (simp_all add: s'_def txn_of_def append_write_record_def)
  have "rb_inv tid d1 s'" using assms(1,3,4) w g growsD(1) wr_fine_grows by (auto simp: rb_inv_def)
  then show ?thesis using r g w by blast
qed

lemma raw_length:
  assumes "init_raw len v = Inr v'" "0 \<le> len"
  shows "length (the (v_raw v')) = nat len"
proof -
  have "int (length bs) = len" if "raw_bytes d len = Inr bs" for d bs using that by (cases d) (auto split: if_splits simp: bytes_of_string_def)
  then show ?thesis using assms by (fastforce simp: init_raw_def split: if_splits sum.splits)
qed

lemma fill_record_length:
  assumes "fill_record vcs rec = Inr rec'" "cols_wf (length rec) (map snd vcs)"
  shows "length rec' = length rec"
  using assms
proof (induction vcs rec rule: fill_record.induct)
  case (2 v col vcs rec)
  obtain v1 v2 where c: "cast_value_to_col_type v col = Inr v1" "init_raw (cm_len col) v1 = Inr v2"
    "fill_record vcs (mem_put rec (nat (cm_offset col)) (the (v_raw v2))) = Inr rec'" using 2(2) by (auto split: sum.splits)
  have w: "0 \<le> cm_len col" "0 \<le> cm_offset col" "cm_offset col + cm_len col \<le> int (length rec)" using 2(3) by (auto simp: cols_wf_def)
  have l: "length (mem_put rec (nat (cm_offset col)) (the (v_raw v2))) = length rec"
    using raw_length[OF c(2) w(1)] w by (subst length_mem_put) auto
  show ?case using 2(1)[OF c(1,2,3)] 2(3) l by (simp add: cols_wf_def)
qed simp

lemma set_fields_length:
  assumes "set_fields tab clauses rec = Inr rec'" "cols_wf (length rec) (tm_cols tab)"
  shows "length rec' = length rec"
  using assms
proof (induction tab clauses rec rule: set_fields.induct)
  case (2 tab clause clauses rec)
  obtain col r1 where c: "get_col tab (tc_col_name (set_lhs clause)) = Inr col" "fill_record [(set_rhs clause, col)] rec = Inr r1"
    "set_fields tab clauses r1 = Inr rec'" using 2(2) by (auto split: sum.splits simp del: fill_record.simps)
  have "col \<in> set (tm_cols tab)" using c(1) by (auto simp: get_col_def find_Some_iff split: option.splits)
  then have "length r1 = length rec" using fill_record_length[OF c(2)] 2(3) by (auto simp: cols_wf_def)
  then show ?case using 2(1)[OF c(1,2)] c(3) 2(3) by simp
qed simp

lemma undoable_throw: "rb_inv tid d0 s \<Longrightarrow> undoable tid d0 (throwE e) s"
  by (rule undoable_stays) simp_all

lemma insert_undoable:
  assumes rb: "rb_inv tid d0 s" and tid: "cx_txn ctx = Some tid" and tab: "table_fine s t tab"
    and room: "int32 (num_pages (hdr_of s t) + 1)" and junk: "length junk = nat (record_size (hdr_of s t))"
  shows "undoable tid d0 (insert_next fuel ofd ctx junk t tab values) s"
proof (cases "fill_record (zip values (tm_cols tab)) junk")
  case (Inl e)
  then show ?thesis using undoable_throw[OF rb] by (simp add: insert_next_def)
next
  case (Inr rec)
  obtain fd where f: "get_table (sm_db (en_db s)) t = Inr tab" "open_files s t = Some (fd, hdr_of s t)"
    "cols_wf (nat (record_size (hdr_of s t))) (tm_cols tab)" by (rule table_fineE[OF tab])
  have "set (map snd (zip values (tm_cols tab))) \<subseteq> set (tm_cols tab)" by (auto dest: set_zip_rightD)
  then have len: "length rec = nat (record_size (hdr_of s t))" using fill_record_length[OF Inr] f(3) junk by (auto simp: cols_wf_def)
  have st: "stays tid (mapE (\<lambda>index. on_sm (on_index (index_file t index) (m index))) xs)" for m :: "_ \<Rightarrow> (ix_state, 'z) comp" and xs
    by (rule stays_map) (rule stays_index)
  let ?wr = "\<lambda>rid. write_record INSERT_TUPLE t rid None"
  show ?thesis
    unfolding insert_next_def Inr sum.case
  proof (rule undoable_stays_then[OF st rb])
    fix s1 assume rb1: "rb_inv tid d0 s1" and u1: "unchanged tid s s1"
    have inv1: "eng_inv s1" and o1: "open_files s1 t = Some (fd, hdr_of s t)" using rb1 unchangedD(3)[OF u1] f(2) by (simp_all add: rb_inv_def)
    obtain s2 rid where i: "on_fh t (insert_record rec) s1 = (Inr rid, s2)" "contents s1 t rid = None" "moved tid s1 s2"
      "contents s2 = (contents s1)(t := (contents s1 t)(rid \<mapsto> rec))" using fh_insert[OF inv1 o1 room len] by blast
    note g2 = movedD[OF i(3)]
    obtain h2 where h2: "open_files s2 t = Some (fd, h2)" using growsD(3)[OF g2(1) o1] by blast
    have undone: "rolled (write_set (txn_of s2 tid)) (undo_abs (?wr rid) (contents s2)) = d0"
    proof -
      have "undo_abs (?wr rid) (contents s2) = contents s1" using i(2,4) by (auto simp: undo_abs_def write_record_def fun_eq_iff)
      then show ?thesis using rb1 g2(3) by (simp add: rb_inv_def)
    qed
    have "contents s2 t rid = Some rec" using i(4) by simp
    then have fine: "wr_fine s2 (?wr rid)"
      using stored_record(1)[OF g2(2) h2] h2 f(1) growsD(2)[OF movedD(1)[OF unchangedD(1)[OF u1]]] growsD(2)[OF g2(1)]
      by (auto simp: wr_fine_def write_record_def)
    have fine2: "\<forall>wr \<in> set (write_set (txn_of s2 tid)). wr_fine s2 wr" using rb1 g2 wr_fine_grows by (auto simp: rb_inv_def)
    obtain s3 where l: "log_and_flush ofd ctx (InsertLogRecord rec rid (bytes_of_string t)) s2 = (Inr (), s3)"
      using log_and_flush_succeeds[OF g2(2)] by blast
    have u3: "unchanged tid s2 s3" by (rule staysD[OF stays_log_and_flush g2(2) l])
    note g3 = movedD[OF unchangedD(1)[OF u3]]
    have "rb_inv tid (rolled (write_set (txn_of s3 tid)) (contents s3)) s3"
      using g3 fine2 wr_fine_grows by (auto simp: rb_inv_def)
    from remember_ok[OF this tid, of "?wr rid" d0] undone fine wr_fine_grows[OF g3(1)] g3(3) unchangedD(2)[OF u3]
    obtain s4 where s4: "remember ctx (?wr rid) s3 = (Inr (), s4)" "rb_inv tid d0 s4" "grows s3 s4"
      "txn_state (txn_of s4 tid) = txn_state (txn_of s3 tid)" by auto
    let ?rest = "thenE (mapE (\<lambda>index. on_sm (on_index (index_file t index) (insert_entry fuel (build_index_key index rec) rid))) (tm_indexes tab))
      (returnE rid)"
    have "undoable tid d0 ?rest s4" using s4(2) st by (intro undoable_stays stays_then) auto
    then have "undoable tid d0 (thenE (remember ctx (?wr rid)) ?rest) s3"
      by (rule undoable_then_ok[where m = "remember ctx (?wr rid)", OF s4(1,3,4)])
    then have "undoable tid d0 (thenE (log_and_flush ofd ctx (InsertLogRecord rec rid (bytes_of_string t)))
        (thenE (remember ctx (?wr rid)) ?rest)) s2"
      by (rule undoable_then_ok[where m = "log_and_flush ofd ctx (InsertLogRecord rec rid (bytes_of_string t))", OF l g3(1,4)])
    then show "undoable tid d0 (bindE (on_fh t (insert_record rec)) (\<lambda>rid.
        thenE (log_and_flush ofd ctx (InsertLogRecord rec rid (bytes_of_string t))) (thenE (remember ctx (?wr rid))
          (thenE (mapE (\<lambda>index. on_sm (on_index (index_file t index) (insert_entry fuel (build_index_key index rec) rid))) (tm_indexes tab))
             (returnE rid))))) s1"
      by (rule undoable_bind_ok[where m = "on_fh t (insert_record rec)", OF i(1) g2(1,4)])
  qed
qed

lemma stays_delete_entries: "stays tid (delete_index_entries fuel tab t rec)"
  unfolding delete_index_entries_def by (rule stays_map) (rule stays_open_index)

lemma stays_insert_entries: "stays tid (insert_index_entries fuel tab t rec rid)"
  unfolding insert_index_entries_def by (rule stays_map) (rule stays_open_index)

lemma stays_move_entries: "stays tid (move_index_entries fuel tab t old new rid)"
  unfolding move_index_entries_def by (rule stays_map) (simp add: stays_open_index)

text \<open>An old image is remembered while the record still has it.\<close>

lemma remember_image:
  assumes "rb_inv tid d0 s" "cx_txn ctx = Some tid" "table_fine s t tab" "contents s t rid = Some rec" "ty \<noteq> INSERT_TUPLE"
  shows "\<exists>s'. remember ctx (write_record ty t rid (Some rec)) s = (Inr (), s') \<and> rb_inv tid d0 s' \<and> grows s s' \<and> contents s' = contents s \<and>
    txn_state (txn_of s' tid) = txn_state (txn_of s tid) \<and> write_set (txn_of s' tid) = write_set (txn_of s tid) @ [write_record ty t rid (Some rec)]"
proof -
  let ?wr = "write_record ty t rid (Some rec)"
  obtain fd where f: "get_table (sm_db (en_db s)) t = Inr tab" "open_files s t = Some (fd, hdr_of s t)" by (rule table_fineE[OF assms(3)])
  have inv: "eng_inv s" using assms(1) by (simp add: rb_inv_def)
  have fine: "wr_fine s ?wr" using stored_record[OF inv f(2) assms(4)] f by (auto simp: wr_fine_def write_record_def)
  have "undo_abs ?wr (contents s) = contents s"
    using assms(4,5) by (cases ty) (auto simp: undo_abs_def write_record_def fun_eq_iff)
  then have "rolled (write_set (txn_of s tid)) (undo_abs ?wr (contents s)) = d0" using assms(1) by (simp add: rb_inv_def)
  from remember_ok[OF assms(1,2) this fine] assms(2) show ?thesis
    by (auto simp: remember_def edit_txn_def txn_of_def append_write_record_def)
qed

text \<open>The change itself, with its entry at the end of the write set.\<close>

lemma rb_inv_change:
  assumes "rb_inv tid d0 s" "write_set (txn_of s tid) = ws @ [wr]" "moved tid s s'" "undo_abs wr (contents s') = undo_abs wr (contents s)"
  shows "rb_inv tid d0 s'"
  using assms movedD[OF assms(3)] wr_fine_grows by (auto simp: rb_inv_def)

lemma undoable_result:
  assumes "m s = (r, s')" "rb_inv tid d0 s'" "grows s s'" "txn_state (txn_of s' tid) = txn_state (txn_of s tid)"
  shows "undoable tid d0 m s"
  using assms by (simp add: undoable_def)

lemma delete_one_undoable:
  assumes rb: "rb_inv tid d0 s" and tid: "cx_txn ctx = Some tid" and tab: "table_fine s t tab" and rid: "rid_ok (hdr_of s t) rid"
  shows "undoable tid d0 (delete_one fuel ofd ctx t tab rid) s"
proof -
  let ?wr = "\<lambda>rec. write_record DELETE_TUPLE t rid (Some rec)"
  obtain fd where f: "open_files s t = Some (fd, hdr_of s t)" by (rule table_fineE[OF tab])
  have inv: "eng_inv s" using rb by (simp add: rb_inv_def)
  obtain x s1 where g: "on_fh t (get_record rid) s = (x, s1)" "moved tid s s1" "contents s1 = contents s"
    "x = (case contents s t rid of None \<Rightarrow> Inl (RecordNotFoundError (rid_page_no rid) (rid_slot_no rid)) | Some bs \<Rightarrow> Inr bs)"
    using fh_get[OF inv f rid] by blast
  note g1 = movedD[OF g(2)]
  have rb1: "rb_inv tid d0 s1" by (rule rb_inv_moved[OF rb g(2,3)])
  show ?thesis
    unfolding delete_one_def
  proof (rule undoable_bind[where m = "on_fh t (get_record rid)", OF g(1) g1(1) g1(4)])
    fix rec assume "x = Inr rec"
    then have rec: "contents s1 t rid = Some rec" using g(3,4) by (auto split: option.splits)
    show "undoable tid d0 (thenE (log_and_flush ofd ctx (DeleteLogRecord rec rid (bytes_of_string t)))
        (thenE (remember ctx (?wr rec)) (thenE (delete_index_entries fuel tab t rec) (on_fh t (delete_record rid))))) s1"
    proof (rule undoable_stays_then[OF stays_log_and_flush rb1])
      fix s2 assume rb2: "rb_inv tid d0 s2" and u2: "unchanged tid s1 s2"
      note g2 = movedD[OF unchangedD(1)[OF u2]]
      have t2: "table_fine s2 t tab" using table_fine_grows(1)[OF grows_trans[OF g1(1) g2(1)] tab] .
      from remember_image[OF rb2 tid t2, of rid rec DELETE_TUPLE] rec unchangedD(2)[OF u2] obtain s3 where
        r: "remember ctx (?wr rec) s2 = (Inr (), s3)" "grows s2 s3" "txn_state (txn_of s3 tid) = txn_state (txn_of s2 tid)"
        "rb_inv tid d0 s3" "contents s3 = contents s2" "write_set (txn_of s3 tid) = write_set (txn_of s2 tid) @ [?wr rec]" by auto
      have "undoable tid d0 (thenE (delete_index_entries fuel tab t rec) (on_fh t (delete_record rid))) s3"
      proof (rule undoable_stays_then[OF stays_delete_entries r(4)])
        fix s4 assume rb4: "rb_inv tid d0 s4" and u4: "unchanged tid s3 s4"
        note g4 = movedD[OF unchangedD(1)[OF u4]]
        have "table_fine s4 t tab" using table_fine_grows(1)[OF grows_trans[OF r(2) g4(1)] t2] .
        then obtain fd4 where f4: "open_files s4 t = Some (fd4, hdr_of s4 t)" by (rule table_fineE)
        have c4: "contents s4 t rid = Some rec" using unchangedD(2)[OF u4] r(5) unchangedD(2)[OF u2] rec by simp
        have inv4: "eng_inv s4" using rb4 by (simp add: rb_inv_def)
        obtain s5 where d: "on_fh t (delete_record rid) s4 = (Inr (), s5)" "moved tid s4 s5" "contents s5 = (contents s4)(t := (contents s4 t)(rid := None))"
          using fh_delete[OF inv4 f4 stored_record(1)[OF inv4 f4 c4]] c4 by blast
        have "undo_abs (?wr rec) (contents s5) = undo_abs (?wr rec) (contents s4)" using d(3) by (simp add: undo_abs_def write_record_def)
        then have "rb_inv tid d0 s5" using rb_inv_change[OF rb4 _ d(2)] g4(3) r(6) by simp
        then show "undoable tid d0 (on_fh t (delete_record rid)) s4"
          using undoable_result[where m = "on_fh t (delete_record rid)", OF d(1)] movedD[OF d(2)] by blast
      qed
      then show "undoable tid d0 (thenE (remember ctx (?wr rec)) (thenE (delete_index_entries fuel tab t rec) (on_fh t (delete_record rid)))) s2"
        by (rule undoable_then_ok[where m = "remember ctx (?wr rec)", OF r(1-3)])
    qed
  qed (rule rb1)
qed

lemma update_one_undoable:
  assumes rb: "rb_inv tid d0 s" and tid: "cx_txn ctx = Some tid" and tab: "table_fine s t tab" and rid: "rid_ok (hdr_of s t) rid"
  shows "undoable tid d0 (update_one fuel ofd ctx t tab clauses rid) s"
proof -
  let ?wr = "\<lambda>rec. write_record UPDATE_TUPLE t rid (Some rec)"
  obtain fd where f: "open_files s t = Some (fd, hdr_of s t)" by (rule table_fineE[OF tab])
  have inv: "eng_inv s" using rb by (simp add: rb_inv_def)
  obtain x s1 where g: "on_fh t (get_record rid) s = (x, s1)" "moved tid s s1" "contents s1 = contents s"
    "x = (case contents s t rid of None \<Rightarrow> Inl (RecordNotFoundError (rid_page_no rid) (rid_slot_no rid)) | Some bs \<Rightarrow> Inr bs)"
    using fh_get[OF inv f rid] by blast
  note g1 = movedD[OF g(2)]
  have rb1: "rb_inv tid d0 s1" by (rule rb_inv_moved[OF rb g(2,3)])
  have t1: "table_fine s1 t tab" by (rule table_fine_grows(1)[OF g1(1) tab])
  show ?thesis
    unfolding update_one_def
  proof (rule undoable_bind[where m = "on_fh t (get_record rid)", OF g(1) g1(1) g1(4)])
    fix rec assume "x = Inr rec"
    then have rec: "contents s1 t rid = Some rec" using g(3,4) by (auto split: option.splits)
    from remember_image[OF rb1 tid t1 rec, of UPDATE_TUPLE] obtain s2 where
      r: "remember ctx (?wr rec) s1 = (Inr (), s2)" "grows s1 s2" "txn_state (txn_of s2 tid) = txn_state (txn_of s1 tid)"
      "rb_inv tid d0 s2" "contents s2 = contents s1" "write_set (txn_of s2 tid) = write_set (txn_of s1 tid) @ [?wr rec]" by auto
    have t2: "table_fine s2 t tab" by (rule table_fine_grows(1)[OF r(2) t1])
    let ?rest = "case set_fields tab clauses rec of Inl e \<Rightarrow> throwE e
      | Inr new \<Rightarrow>
          thenE (mapE (\<lambda>index. if build_index_key index rec = build_index_key index new then returnE ()
              else on_open_index (index_file t index) (ensure_index_key_unique fuel (build_index_key index new) (Some rid))) (tm_indexes tab))
         (thenE (move_index_entries fuel tab t rec new rid)
         (thenE (log_and_flush ofd ctx (UpdateLogRecord rec new rid (bytes_of_string t))) (on_fh t (update_record rid new))))"
    have "undoable tid d0 ?rest s2"
    proof (cases "set_fields tab clauses rec")
      case (Inl e)
      then show ?thesis using undoable_throw[OF r(4)] by simp
    next
      case (Inr new)
      have st: "stays tid (mapE (\<lambda>index. if build_index_key index rec = build_index_key index new then returnE ()
          else on_open_index (index_file t index) (ensure_index_key_unique fuel (build_index_key index new) (Some rid))) (tm_indexes tab))"
        by (rule stays_map) (simp add: stays_open_index)
      have upd: "undoable tid d0 (on_fh t (update_record rid new)) s3" if rb3: "rb_inv tid d0 s3" and u3: "unchanged tid s2 s3" for s3
      proof -
        note g3 = movedD[OF unchangedD(1)[OF u3]]
        obtain fd3 where f3: "open_files s3 t = Some (fd3, hdr_of s3 t)" "cols_wf (nat (record_size (hdr_of s3 t))) (tm_cols tab)"
          using table_fine_grows(1)[OF g3(1) t2] by (rule table_fineE)
        have c3: "contents s3 t rid = Some rec" using unchangedD(2)[OF u3] r(5) rec by simp
        have inv3: "eng_inv s3" using rb3 by (simp add: rb_inv_def)
        note sr = stored_record[OF inv3 f3(1) c3]
        have "length new = nat (record_size (hdr_of s3 t))" using set_fields_length[OF Inr] sr(2) f3(2) by simp
        from fh_update[OF inv3 f3(1) sr(1) _ this] c3 obtain s4 where
          d: "on_fh t (update_record rid new) s3 = (Inr (), s4)" "moved tid s3 s4" "contents s4 = (contents s3)(t := (contents s3 t)(rid \<mapsto> new))" by auto
        have "undo_abs (?wr rec) (contents s4) = undo_abs (?wr rec) (contents s3)" using d(3) c3 by (simp add: undo_abs_def write_record_def)
        then have "rb_inv tid d0 s4" using rb_inv_change[OF rb3 _ d(2)] g3(3) r(6) by simp
        then show ?thesis using undoable_result[where m = "on_fh t (update_record rid new)", OF d(1)] movedD[OF d(2)] by blast
      qed
      show ?thesis
        unfolding Inr sum.case
        by (rule undoable_stays_then[OF st r(4)], rule undoable_stays_then[OF stays_move_entries], assumption,
            rule undoable_stays_then[OF stays_log_and_flush], assumption, rule upd, assumption, blast intro: unchanged_trans)
    qed
    then show "undoable tid d0 (thenE (remember ctx (?wr rec)) ?rest) s1"
      by (rule undoable_then_ok[where m = "remember ctx (?wr rec)", OF r(1-3)])
  qed (rule rb1)
qed

lemma undoable_map:
  assumes "rb_inv tid d0 s" "\<And>x s1. x \<in> set xs \<Longrightarrow> rb_inv tid d0 s1 \<Longrightarrow> grows s s1 \<Longrightarrow> undoable tid d0 (f x) s1"
  shows "undoable tid d0 (mapE f xs) s"
proof -
  have "undoable tid d0 (mapE f xs) s1" if "rb_inv tid d0 s1" "grows s s1" for s1
    using that assms(2)
  proof (induction xs arbitrary: s1)
    case Nil
    then show ?case unfolding mapE.simps by (intro undoable_stays stays_basic)
  next
    case (Cons x xs)
    obtain r s2 where m: "f x s1 = (r, s2)" by fastforce
    have "undoable tid d0 (f x) s1" using Cons.prems by simp
    then have k: "rb_inv tid d0 s2" "grows s1 s2" "txn_state (txn_of s2 tid) = txn_state (txn_of s1 tid)"
      using m unfolding undoable_def by blast+
    have "undoable tid d0 (mapE f xs) s2" using Cons.IH[OF k(1) grows_trans[OF Cons.prems(2) k(2)]] Cons.prems(3) by simp
    then show ?case using undoable_then[where m = "f x", OF m k(2,3)] k(1) by simp
  qed
  then show ?thesis using assms(1) grows_refl by (simp add: rb_inv_def)
qed

text \<open>What a transaction does between its beginning and its end: it opens tables for statements and scans,
  taking locks, and runs statements, each to its end or to an error. A statement has its metadata from the catalog,
  room for a new page in the file, and identifiers of the pages of the file.\<close>

inductive txn_step :: "int \<Rightarrow> Context \<Rightarrow> engine \<Rightarrow> engine \<Rightarrow> bool" for ofd ctx where
  open_step: "open_for_change ctx t check s = (r, s') \<Longrightarrow> txn_step ofd ctx s s'"
| insert_step: "table_fine s t tab \<Longrightarrow> int32 (num_pages (hdr_of s t) + 1) \<Longrightarrow> length junk = nat (record_size (hdr_of s t)) \<Longrightarrow>
    insert_next fuel ofd ctx junk t tab values s = (r', s') \<Longrightarrow> txn_step ofd ctx s s'"
| delete_step: "table_fine s t tab \<Longrightarrow> \<forall>rid \<in> set rids. rid_ok (hdr_of s t) rid \<Longrightarrow>
    delete_next fuel ofd ctx t tab rids s = (r, s') \<Longrightarrow> txn_step ofd ctx s s'"
| update_step: "table_fine s t tab \<Longrightarrow> \<forall>rid \<in> set rids. rid_ok (hdr_of s t) rid \<Longrightarrow>
    update_next fuel ofd ctx t tab clauses rids s = (r, s') \<Longrightarrow> txn_step ofd ctx s s'"

lemma txn_step_rb:
  assumes "txn_step ofd ctx s s'" "rb_inv tid d0 s" "cx_txn ctx = Some tid"
  shows "rb_inv tid d0 s' \<and> grows s s' \<and> txn_state (txn_of s' tid) = txn_state (txn_of s tid)"
  using assms
proof (cases rule: txn_step.cases)
  case (open_step t check r)
  then show ?thesis using undoable_stays[OF stays_open_for_change assms(2)] unfolding undoable_def by blast
next
  case (insert_step t tab junk fuel vs r)
  then show ?thesis using insert_undoable[OF assms(2,3) insert_step(1-3)] unfolding undoable_def by blast
next
  case (delete_step t tab rids fuel r)
  have "undoable tid d0 (delete_next fuel ofd ctx t tab rids) s"
    unfolding delete_next_def
  proof (rule undoable_map[OF assms(2)])
    fix rid s1 assume r: "rid \<in> set rids" "rb_inv tid d0 s1" "grows s s1"
    note g = table_fine_grows[OF r(3) delete_step(1)]
    show "undoable tid d0 (delete_one fuel ofd ctx t tab rid) s1"
      using delete_step(2) r(1) by (intro delete_one_undoable[OF r(2) assms(3) g(1)] rid_ok_grow[OF g(2)]) blast
  qed
  then show ?thesis using delete_step(3) unfolding undoable_def by blast
next
  case (update_step t tab rids fuel clauses r)
  have "undoable tid d0 (update_next fuel ofd ctx t tab clauses rids) s"
    unfolding update_next_def
  proof (rule undoable_map[OF assms(2)])
    fix rid s1 assume r: "rid \<in> set rids" "rb_inv tid d0 s1" "grows s s1"
    note g = table_fine_grows[OF r(3) update_step(1)]
    show "undoable tid d0 (update_one fuel ofd ctx t tab clauses rid) s1"
      using update_step(2) r(1) by (intro update_one_undoable[OF r(2) assms(3) g(1)] rid_ok_grow[OF g(2)]) blast
  qed
  then show ?thesis using update_step(3) unfolding undoable_def by blast
qed

lemma txn_steps_rb:
  assumes "(txn_step ofd ctx)\<^sup>*\<^sup>* s s'" "rb_inv tid d0 s" "cx_txn ctx = Some tid"
  shows "rb_inv tid d0 s' \<and> grows s s' \<and> txn_state (txn_of s' tid) = txn_state (txn_of s tid)"
  using assms(1)
proof (induction rule: rtranclp_induct)
  case base
  then show ?case using assms(2) grows_refl by (simp add: rb_inv_def)
next
  case (step s1 s2)
  then show ?case using txn_step_rb[OF step(2) _ assms(3)] grows_trans by metis
qed

section \<open>Aborting\<close>

definition no_indexes :: "DbMeta \<Rightarrow> bool" where
  "no_indexes db \<longleftrightarrow> (\<forall>t tab. get_table db t = Inr tab \<longrightarrow> tm_indexes tab = [])"

lemma file_pages_bound: "eng_inv s \<Longrightarrow> open_files s t = Some (fd, h) \<Longrightarrow> nat (num_pages h) \<le> 2 ^ 31"
proof -
  assume a: "eng_inv s" "open_files s t = Some (fd, h)"
  note st = table_handle[OF a]
  have "int32 (num_pages h)" using st(1,3) file_wfD(4) by (auto simp: rm_ok_def)
  then show ?thesis by (simp add: int32_def nat_le_iff)
qed

lemma undo_write_ok:
  assumes inv: "eng_inv s" and fine: "wr_fine s wr" and ni: "no_indexes (sm_db (en_db s))" and fuel: "2 ^ 31 \<le> fuel"
  shows "\<exists>s'. undo_write fuel wr s = (Inr (), s') \<and> moved tid s s' \<and> contents s' = undo_abs wr (contents s)"
proof -
  let ?t = "wr_tab_name wr" and ?rid = "wr_rid wr" and ?image = "the (wr_record wr)"
  obtain tab fd h where w: "get_table (sm_db (en_db s)) ?t = Inr tab" "open_files s ?t = Some (fd, h)" "rid_ok h ?rid"
    "wr_type wr \<noteq> INSERT_TUPLE \<longrightarrow> length ?image = nat (record_size h)" using fine by (auto simp: wr_fine_def)
  have ix: "tm_indexes tab = []" using ni w(1) by (simp add: no_indexes_def)
  have fu: "nat (num_pages h) \<le> fuel" using file_pages_bound[OF inv w(2)] fuel by linarith
  obtain s1 where i: "on_fh ?t (is_record ?rid) s = (Inr (contents s ?t ?rid \<noteq> None), s1)" "moved tid s s1" "contents s1 = contents s"
    using fh_is_record[OF inv w(2,3)] by blast
  note m1 = movedD[OF i(2)]
  obtain h1 where h1: "open_files s1 ?t = Some (fd, h1)" "hdr_grow h h1" using growsD(3)[OF m1(1) w(2)] by blast
  have present: "\<exists>rec s2 h2. contents s ?t ?rid = Some rec \<and> on_fh ?t (get_record ?rid) s1 = (Inr rec, s2) \<and> moved tid s s2 \<and> contents s2 = contents s \<and>
      open_files s2 ?t = Some (fd, h2) \<and> hdr_grow h h2" if p: "contents s ?t ?rid \<noteq> None"
  proof -
    obtain rec where rec: "contents s ?t ?rid = Some rec" using p by blast
    obtain s2 where g: "on_fh ?t (get_record ?rid) s1 = (Inr rec, s2)" "moved tid s1 s2" "contents s2 = contents s1"
      using fh_get[OF m1(2) h1(1) rid_ok_grow[OF h1(2) w(3)]] i(3) rec by auto
    obtain h2 where "open_files s2 ?t = Some (fd, h2)" "hdr_grow h1 h2" using growsD(3)[OF movedD(1)[OF g(2)] h1(1)] by blast
    then show ?thesis using rec g moved_trans[OF i(2) g(2)] i(3) hdr_grow_trans[OF h1(2)] by auto
  qed
  show ?thesis
  proof (cases "wr_type wr")
    case INSERT_TUPLE
    show ?thesis
    proof (cases "contents s ?t ?rid = None")
      case True
      then have "undo_write fuel wr s = (Inr (), s1)"
        using i(1) w(1,2) INSERT_TUPLE by (simp add: undo_write_def Let_def bindE_def getE_def)
      moreover have "undo_abs wr (contents s) = contents s" using True INSERT_TUPLE by (auto simp: undo_abs_def fun_eq_iff)
      ultimately show ?thesis using i(2,3) by auto
    next
      case False
      then obtain rec s2 h2 where p: "on_fh ?t (get_record ?rid) s1 = (Inr rec, s2)" "moved tid s s2" "contents s2 = contents s"
        "open_files s2 ?t = Some (fd, h2)" "hdr_grow h h2" using present by blast
      from fh_delete[OF movedD(2)[OF p(2)] p(4) rid_ok_grow[OF p(5) w(3)], where tid = tid] False p(3) obtain s3 where
        d: "on_fh ?t (delete_record ?rid) s2 = (Inr (), s3)" "moved tid s2 s3" "contents s3 = (contents s)(?t := (contents s ?t)(?rid := None))" by auto
      have "undo_write fuel wr s = (Inr (), s3)"
        using i(1) w(1,2) INSERT_TUPLE False p(1) d(1) ix
        by (simp add: undo_write_def Let_def bindE_def getE_def thenE_def delete_index_entries_def)
      then show ?thesis using moved_trans[OF p(2) d(2)] d(3) INSERT_TUPLE by (auto simp: undo_abs_def)
    qed
  next
    case DELETE_TUPLE
    from fh_insert_at[OF inv w(2,3) _ fu, where tid = tid and buf = ?image] w(4) DELETE_TUPLE obtain s3 where
      d: "on_fh ?t (insert_record_at fuel ?rid ?image) s = (Inr True, s3)" "moved tid s s3" "contents s3 = (contents s)(?t := (contents s ?t)(?rid \<mapsto> ?image))" by auto
    have "undo_write fuel wr s = (Inr (), s3)"
      using w(1,2) DELETE_TUPLE d(1) ix by (simp add: undo_write_def Let_def bindE_def getE_def thenE_def insert_index_entries_def)
    then show ?thesis using d(2,3) DELETE_TUPLE by (auto simp: undo_abs_def)
  next
    case UPDATE_TUPLE
    show ?thesis
    proof (cases "contents s ?t ?rid = None")
      case True
      then have "undo_write fuel wr s = (Inr (), s1)"
        using i(1) w(1,2) UPDATE_TUPLE by (simp add: undo_write_def Let_def bindE_def getE_def)
      then show ?thesis using i(2,3) True UPDATE_TUPLE by (auto simp: undo_abs_def)
    next
      case False
      then obtain rec s2 h2 where p: "on_fh ?t (get_record ?rid) s1 = (Inr rec, s2)" "moved tid s s2" "contents s2 = contents s"
        "open_files s2 ?t = Some (fd, h2)" "hdr_grow h h2" using present by blast
      have "length ?image = nat (record_size h2)" using w(4) UPDATE_TUPLE p(5) by (simp add: hdr_grow_def)
      from fh_update[OF movedD(2)[OF p(2)] p(4) rid_ok_grow[OF p(5) w(3)] _ this, where tid = tid] False p(3) obtain s3 where
        d: "on_fh ?t (update_record ?rid ?image) s2 = (Inr (), s3)" "moved tid s2 s3" "contents s3 = (contents s)(?t := (contents s ?t)(?rid \<mapsto> ?image))" by auto
      have "undo_write fuel wr s = (Inr (), s3)"
        using i(1) w(1,2) UPDATE_TUPLE False p(1) d(1) ix
        by (simp add: undo_write_def Let_def bindE_def getE_def thenE_def move_index_entries_def)
      then show ?thesis using moved_trans[OF p(2) d(2)] d(3) UPDATE_TUPLE False by (auto simp: undo_abs_def)
    qed
  qed
qed

lemma rollback_ok:
  assumes "eng_inv s" "write_set (txn_of s tid) = ws" "\<forall>wr \<in> set ws. wr_fine s wr" "no_indexes (sm_db (en_db s))" "2 ^ 31 \<le> fuel"
  shows "\<exists>s'. mapE (\<lambda>wr. thenE (edit_txn tid (\<lambda>t. t\<lparr>write_set := butlast (write_set t)\<rparr>)) (undo_write fuel wr)) (rev ws) s = (Inr (), s') \<and>
    eng_inv s' \<and> contents s' = rolled ws (contents s) \<and> write_set (txn_of s' tid) = [] \<and> txn_state (txn_of s' tid) = txn_state (txn_of s tid)"
  using assms
proof (induction ws arbitrary: s rule: rev_induct)
  case Nil
  then show ?case by (simp add: rolled_def)
next
  case (snoc wr ws)
  define s1 where "s1 = s\<lparr>txn_map := (txn_map s)(tid \<mapsto> (txn_of s tid)\<lparr>write_set := butlast (write_set (txn_of s tid))\<rparr>)\<rparr>"
  have s1: "contents s1 = contents s" "write_set (txn_of s1 tid) = ws" "txn_state (txn_of s1 tid) = txn_state (txn_of s tid)"
    "sm_db (en_db s1) = sm_db (en_db s)" "eng_inv s1" "wr_fine s1 = wr_fine s"
    using snoc.prems(1,2) by (simp_all add: s1_def txn_of_def eng_inv_def wr_fine_def fun_eq_iff)
  have "wr_fine s1 wr" "no_indexes (sm_db (en_db s1))" using snoc.prems(3,4) s1(4,6) by simp_all
  from undo_write_ok[OF s1(5) this snoc.prems(5), of tid] obtain s2 where
    u: "undo_write fuel wr s1 = (Inr (), s2)" "moved tid s1 s2" "contents s2 = undo_abs wr (contents s)" using s1(1) by auto
  note m = movedD[OF u(2)]
  have "\<forall>wr \<in> set ws. wr_fine s2 wr" "write_set (txn_of s2 tid) = ws" "no_indexes (sm_db (en_db s2))"
    using snoc.prems(3,4) s1 wr_fine_grows[OF m(1)] m(3) growsD(2)[OF m(1)] by auto
  from snoc.IH[OF m(2) this(2,1,3) snoc.prems(5)] obtain s' where
    "mapE (\<lambda>wr. thenE (edit_txn tid (\<lambda>t. t\<lparr>write_set := butlast (write_set t)\<rparr>)) (undo_write fuel wr)) (rev ws) s2 = (Inr (), s')"
    "eng_inv s'" "contents s' = rolled ws (contents s2)" "write_set (txn_of s' tid) = []" "txn_state (txn_of s' tid) = txn_state (txn_of s2 tid)" by blast
  moreover have "thenE (edit_txn tid (\<lambda>t. t\<lparr>write_set := butlast (write_set t)\<rparr>)) (undo_write fuel wr) s = (Inr (), s2)"
    using u(1) by (simp add: thenE_def edit_txn_def s1_def)
  ultimately show ?case using u(3) s1(3) m(4) by (auto simp: thenE_Inr)
qed

lemma unlock_all_writes: "write_set (fst (unlock_all lids (t, lt))) = write_set t"
proof (induction lids arbitrary: t lt)
  case (Cons lid lids)
  obtain b t' lt' where u: "unlock lid (Some t) lt = (b, t', lt')" by (rule prod_cases3)
  then have "write_set (the t') = write_set t" by (auto simp: unlock_def Let_def lock_set_erase_def split: option.splits if_splits)
  then show ?case using Cons.IH[of "the t'" lt'] u by (simp add: unlock_all_def)
qed (simp add: unlock_all_def)

lemma release_locks_clears:
  assumes "release_locks t lt = (t', lt')"
  shows "lock_set t' = []" "write_set t' = write_set t"
  using assms unlock_all_writes[of "lock_set t" t lt] by (auto simp: release_locks_def split: prod.splits)

lemma drop_locks_ok:
  assumes "eng_inv s"
  shows "\<exists>s'. drop_locks tid s = (Inr (), s') \<and> eng_inv s' \<and> contents s' = contents s \<and> lock_set (txn_of s' tid) = []"
proof -
  obtain t lt where r: "release_locks (txn_of s tid) (en_locks s) = (t, lt)" by fastforce
  then have "lock_set t = []" by (rule release_locks_clears)
  then show ?thesis using r assms by (simp add: drop_locks_def eng_inv_def txn_of_def)
qed

lemma abort_ok:
  assumes rb: "rb_inv tid d0 s" and ni: "no_indexes (sm_db (en_db s))" and fuel: "2 ^ 31 \<le> fuel" and act: "\<not> txn_ended s tid"
  shows "\<exists>s'. txn_abort fuel ofd logging (Some tid) s = (Inr (), s') \<and> contents s' = d0 \<and> txn_state (txn_of s' tid) = ABORTED \<and>
    lock_set (txn_of s' tid) = []"
proof -
  have inv: "eng_inv s" and fine: "\<forall>wr \<in> set (write_set (txn_of s tid)). wr_fine s wr"
    and d0: "rolled (write_set (txn_of s tid)) (contents s) = d0" using rb by (simp_all add: rb_inv_def)
  let ?loop = "\<lambda>ws. mapE (\<lambda>wr. thenE (edit_txn tid (\<lambda>t. t\<lparr>write_set := butlast (write_set t)\<rparr>)) (undo_write fuel wr)) (rev ws)"
  obtain s1 where l: "?loop (write_set (txn_of s tid)) s = (Inr (), s1)" "eng_inv s1" "contents s1 = d0"
    using rollback_ok[OF inv refl fine ni fuel] d0 by blast
  obtain s2 where k: "drop_locks tid s1 = (Inr (), s2)" "eng_inv s2" "contents s2 = d0" "lock_set (txn_of s2 tid) = []"
    using drop_locks_ok[OF l(2)] l(3) by metis
  obtain s3 where g: "(if logging then thenE (chain_log ofd tid AbortLogRecord) (on_log (flush_log_to_disk ofd)) else returnE ()) s2 = (Inr (), s3)"
    "contents s3 = d0" "lock_set (txn_of s3 tid) = []"
  proof (cases logging)
    case True
    obtain s4 where c: "chain_log ofd tid AbortLogRecord s2 = (Inr (), s4)" using log_succeeds(1)[OF k(2)] by blast
    have u: "unchanged tid s2 s4" by (rule staysD[OF stays_chain_log k(2) c])
    obtain s5 where f: "on_log (flush_log_to_disk ofd) s4 = (Inr (), s5)" using log_succeeds(2)[OF unchangedD(4)[OF u]] by blast
    have u2: "unchanged tid s4 s5" by (rule staysD[OF stays_flush unchangedD(4)[OF u] f])
    have "lock_set (txn_of s5 tid) = lock_set (txn_of s4 tid)" using f by (auto simp: on_log_def txn_of_def split: prod.splits)
    moreover have "lock_set (txn_of s4 tid) = lock_set (txn_of s2 tid)"
      using c by (auto simp: chain_log_def bindE_def getE_def on_log_def edit_txn_def txn_of_def modifyE_def split: prod.splits sum.splits)
    ultimately show ?thesis
      by (rule_tac that[of s5]) (use True c f k u u2 unchangedD(2) in \<open>simp_all add: thenE_Inr\<close>)
  qed (use that[of s2] k in simp)
  have "txn_abort fuel ofd logging (Some tid) s = (Inr (), s3\<lparr>txn_map := (txn_map s3)(tid \<mapsto> (txn_of s3 tid)\<lparr>txn_state := ABORTED\<rparr>)\<rparr>)"
    using act l(1) k(1) g(1) unfolding txn_abort_def
    by (simp add: bindE_def getE_def thenE_def edit_txn_def)
  then show ?thesis using g by (simp add: txn_of_def)
qed

lemma begin_run:
  assumes inv: "eng_inv s"
  shows "\<exists>s'. txn_begin ofd logging junk None s = (Inr (next_txn_id s), s') \<and> rb_inv (next_txn_id s) (contents s) s' \<and>
    \<not> txn_ended s' (next_txn_id s) \<and> sm_db (en_db s') = sm_db (en_db s) \<and> open_files s' = open_files s \<and> contents s' = contents s"
proof -
  define t0 where "t0 = (new_transaction junk (next_txn_id s))\<lparr>start_ts := next_timestamp s, txn_state := GROWING\<rparr>"
  define s1 where "s1 = s\<lparr>next_txn_id := next_txn_id s + 1, next_timestamp := next_timestamp s + 1, txn_map := (txn_map s)(next_txn_id s \<mapsto> t0)\<rparr>"
  have inv1: "eng_inv s1" and c1: "contents s1 = contents s" "open_files s1 = open_files s" and db1: "sm_db (en_db s1) = sm_db (en_db s)"
    using inv by (simp_all add: s1_def eng_inv_def)
  have w1: "write_set (txn_of s1 (next_txn_id s)) = []" "txn_state (txn_of s1 (next_txn_id s)) = GROWING"
    by (simp_all add: s1_def txn_of_def t0_def new_transaction_def)
  let ?log = "if logging then chain_log ofd (next_txn_id s) BeginLogRecord else returnE ()"
  obtain s2 where l: "?log s1 = (Inr (), s2)" using log_succeeds(1)[OF inv1, of ofd "next_txn_id s" BeginLogRecord] by (cases logging) auto
  have "stays (next_txn_id s) ?log" by (simp add: stays_chain_log)
  then have u: "unchanged (next_txn_id s) s1 s2" using staysD[where m = ?log, OF _ inv1 l] by blast
  note m = movedD[OF unchangedD(1)[OF u]]
  have "txn_begin ofd logging junk None s = (Inr (next_txn_id s), s2)"
    using l by (simp add: txn_begin_def bindE_def thenE_def getE_def edit_txn_def txn_of_def s1_def t0_def modifyE_def)
  moreover have "rb_inv (next_txn_id s) (contents s) s2" using m w1 unchangedD(2)[OF u] c1 by (simp add: rb_inv_def rolled_def)
  moreover have "\<not> txn_ended s2 (next_txn_id s)" using m w1 by (simp add: txn_ended_def)
  moreover have "sm_db (en_db s2) = sm_db (en_db s)" "open_files s2 = open_files s" "contents s2 = contents s"
    using growsD(2)[OF m(1)] db1 c1 unchangedD(2,3)[OF u] by simp_all
  ultimately show ?thesis by blast
qed

section \<open>Insertion\<close>

lemma insert_ok:
  assumes inv: "eng_inv s" and tid: "cx_txn ctx = Some tid" and tab: "table_fine s t tab" and ni: "tm_indexes tab = []"
    and room: "int32 (num_pages (hdr_of s t) + 1)" and junk: "length junk = nat (record_size (hdr_of s t))"
    and rec: "fill_record (zip values (tm_cols tab)) junk = Inr rec"
  shows "\<exists>rid s'. insert_next fuel ofd ctx junk t tab values s = (Inr rid, s') \<and> eng_inv s' \<and> contents s t rid = None \<and>
    contents s' = (contents s)(t := (contents s t)(rid \<mapsto> rec)) \<and>
    write_set (txn_of s' tid) = write_set (txn_of s tid) @ [write_record INSERT_TUPLE t rid None]"
proof -
  obtain fd where f: "open_files s t = Some (fd, hdr_of s t)" "cols_wf (nat (record_size (hdr_of s t))) (tm_cols tab)" by (rule table_fineE[OF tab])
  have "set (map snd (zip values (tm_cols tab))) \<subseteq> set (tm_cols tab)" by (auto dest: set_zip_rightD)
  then have len: "length rec = nat (record_size (hdr_of s t))" using fill_record_length[OF rec] f(2) junk by (auto simp: cols_wf_def)
  obtain s1 rid where i: "on_fh t (insert_record rec) s = (Inr rid, s1)" "contents s t rid = None" "moved tid s s1"
    "contents s1 = (contents s)(t := (contents s t)(rid \<mapsto> rec))" using fh_insert[OF inv f(1) room len] by blast
  obtain s2 where l: "log_and_flush ofd ctx (InsertLogRecord rec rid (bytes_of_string t)) s1 = (Inr (), s2)"
    using log_and_flush_succeeds[OF movedD(2)[OF i(3)]] by blast
  have u: "unchanged tid s1 s2" by (rule staysD[OF stays_log_and_flush movedD(2)[OF i(3)] l])
  let ?wr = "write_record INSERT_TUPLE t rid None"
  let ?s3 = "s2\<lparr>txn_map := (txn_map s2)(tid \<mapsto> append_write_record ?wr (txn_of s2 tid))\<rparr>"
  have "insert_next fuel ofd ctx junk t tab values s = (Inr rid, ?s3)"
    using rec ni i(1) l tid by (simp add: insert_next_def bindE_def thenE_def remember_def edit_txn_def)
  moreover have "eng_inv ?s3" using unchangedD(4)[OF u] by (simp add: eng_inv_def)
  moreover have "contents ?s3 = (contents s)(t := (contents s t)(rid \<mapsto> rec))" using unchangedD(2)[OF u] i(4) by simp
  moreover have "write_set (txn_of ?s3 tid) = write_set (txn_of s tid) @ [?wr]"
    using movedD(3)[OF unchangedD(1)[OF u]] movedD(3)[OF i(3)] by (simp add: txn_of_def append_write_record_def)
  ultimately show ?thesis using i(2) by blast
qed

section \<open>Properties\<close>


definition demo_row_cols :: "ColMeta list" where
  "demo_row_cols =
     [\<lparr>cm_tab_name = ''t'', cm_name = ''a'', cm_type = TYPE_INT, cm_len = 4, cm_offset = 0, cm_index = False\<rparr>,
      \<lparr>cm_tab_name = ''t'', cm_name = ''b'', cm_type = TYPE_INT, cm_len = 4, cm_offset = 4, cm_index = False\<rparr>]"

definition demo_row_tab :: TabMeta where
  "demo_row_tab = \<lparr>tm_name = ''t'', tm_cols = demo_row_cols, tm_indexes = []\<rparr>"

definition demo_engine :: engine where
  "demo_engine = \<lparr>en_db = \<lparr>sm_db = \<lparr>db_name = ''d'', db_tabs = [(''t'', demo_row_tab)]\<rparr>, sm_tables = demo_tables [], sm_ihs = Map.empty\<rparr>,
     en_locks = Map.empty, en_log = LogManager, txn_map = Map.empty, next_txn_id = 0, next_timestamp = 0\<rparr>"

definition demo_ctx :: Context where
  "demo_ctx = \<lparr>cx_lock_mgr = True, cx_log_mgr = True, cx_txn = Some 0\<rparr>"

abbreviation int_value :: "int \<Rightarrow> Value" where
  "int_value i \<equiv> \<lparr>v_data = IntVal i, v_raw = None\<rparr>"

lemma demo_engine_ok: "eng_inv demo_engine" "no_indexes (sm_db (en_db demo_engine))"
proof -
  have "log_holds (demo_tables []) []" using demo_tables_ok(3)[of "[]"] by simp
  then have "log_open (en_disk demo_engine)" by (simp add: log_holds_def demo_engine_def)
  then show "eng_inv demo_engine" using demo_tables_ok(1)[of "[]"] by (simp add: eng_inv_def demo_engine_def log_ready_def LogManager_def LogBuffer_def)
  show "no_indexes (sm_db (en_db demo_engine))" by (auto simp: no_indexes_def demo_engine_def get_table_def demo_row_tab_def split: option.splits if_splits)
qed

lemma demo_begin:
  obtains s0 where "txn_begin 9 True 0 None demo_engine = (Inr 0, s0)" "eng_inv s0" "table_fine s0 ''t'' demo_row_tab"
    "int32 (num_pages (hdr_of s0 ''t'') + 1)" "length (replicate 8 (0 :: byte)) = nat (record_size (hdr_of s0 ''t''))" "contents s0 ''t'' = Map.empty"
proof -
  obtain s0 where b: "txn_begin 9 True 0 None demo_engine = (Inr 0, s0)" "eng_inv s0" "sm_db (en_db s0) = sm_db (en_db demo_engine)"
    "open_files s0 = open_files demo_engine" "contents s0 = contents demo_engine"
    using begin_run[OF demo_engine_ok(1), of 9 True 0] by (auto simp: rb_inv_def demo_engine_def)
  have t: "open_files s0 ''t'' = Some (3, init_file_hdr 8)" using b(4) by (simp add: demo_engine_def demo_tables_def)
  have h: "hdr_of s0 ''t'' = init_file_hdr 8" "record_size (init_file_hdr 8) = 8" "int32 (num_pages (init_file_hdr 8) + 1)"
    using t by (simp_all add: hdr_of_def init_file_hdr_def Let_def int32_def)
  show thesis
  proof (rule that[OF b(1,2)])
    show "table_fine s0 ''t'' demo_row_tab"
      using t h b(3) by (simp add: table_fine_def demo_engine_def get_table_def cols_wf_def demo_row_tab_def demo_row_cols_def)
    show "contents s0 ''t'' = Map.empty" using b(5) demo_tables_ok(2)[of "[]"] by (simp add: demo_engine_def)
  qed (use h in simp_all)
qed

lemma demo_row: "cx_txn demo_ctx = Some 0" "tm_indexes demo_row_tab = []"
  "fill_record (zip [int_value 7, int_value 8] (tm_cols demo_row_tab)) (replicate 8 0) = Inr (le_bytes 4 7 @ le_bytes 4 8)"
  by (simp_all add: demo_ctx_def demo_row_tab_def demo_row_cols_def cast_value_to_col_type_def cast_data_def init_raw_def mem_put_def numeral_eq_Suc)

lemma demo_insert:
  obtains s0 s1 rid where "txn_begin 9 True 0 None demo_engine = (Inr 0, s0)" "txn_step 9 demo_ctx s0 s1"
    "contents s1 ''t'' = [rid \<mapsto> le_bytes 4 7 @ le_bytes 4 8]"
proof (rule demo_begin)
  fix s0 assume b: "txn_begin 9 True 0 None demo_engine = (Inr 0, s0)" "eng_inv s0" "table_fine s0 ''t'' demo_row_tab"
    "int32 (num_pages (hdr_of s0 ''t'') + 1)" "length (replicate 8 (0 :: byte)) = nat (record_size (hdr_of s0 ''t''))" "contents s0 ''t'' = Map.empty"
  from insert_ok[OF b(2) demo_row(1) b(3) demo_row(2) b(4,5) demo_row(3), of 0 9] obtain rid s1 where
    i: "insert_next 0 9 demo_ctx (replicate 8 0) ''t'' demo_row_tab [int_value 7, int_value 8] s0 = (Inr rid, s1)"
    "contents s1 = (contents s0)(''t'' := (contents s0 ''t'')(rid \<mapsto> le_bytes 4 7 @ le_bytes 4 8))" by blast
  have "txn_step 9 demo_ctx s0 s1" by (rule txn_step.insert_step[OF b(3-5) i(1)])
  then show thesis using that[OF b(1)] i(2) b(6) by simp
qed






end
