(* ===== verification/Analyze.thy ===== *)
theory Analyze
  imports SortAggregate
begin

text \<open>
  Statements as the parser delivers them (\<open>parser/ast.h\<close>) and their semantic analysis
  (\<open>analyze/analyze.h\<close>, \<open>analyze/analyze.cpp\<close>): the names of columns are resolved against the catalog,
  literals are cast to the types of the columns they are compared with. The analysis reads the catalog and
  changes nothing, so it is a function of it. What it lets pass is shown to be evaluated without exceptions.
\<close>

section \<open>Fallible functions\<close>

definition andthen :: "'e + 'a \<Rightarrow> ('a \<Rightarrow> 'e + 'b) \<Rightarrow> 'e + 'b" where
  "andthen r f = (case r of Inl e \<Rightarrow> Inl e | Inr x \<Rightarrow> f x)"

fun for_all :: "('a \<Rightarrow> 'e + 'b) \<Rightarrow> 'a list \<Rightarrow> 'e + 'b list" where
  "for_all f [] = Inr []"
| "for_all f (x # xs) = andthen (f x) (\<lambda>y. andthen (for_all f xs) (\<lambda>ys. Inr (y # ys)))"

lemma andthen_simps [simp]: "andthen (Inl e) f = Inl e" "andthen (Inr x) f = f x"
  by (simp_all add: andthen_def)

lemma andthen_Inr: "andthen r f = Inr y \<longleftrightarrow> (\<exists>x. r = Inr x \<and> f x = Inr y)"
  by (cases r) simp_all

lemma for_all_Inr: "for_all f xs = Inr ys \<longleftrightarrow> list_all2 (\<lambda>x y. f x = Inr y) xs ys"
  by (induction xs arbitrary: ys) (auto simp: andthen_Inr list_all2_Cons1)

lemma list_all2_in2: "list_all2 P xs ys \<Longrightarrow> y \<in> set ys \<Longrightarrow> \<exists>x \<in> set xs. P x y"
  by (induction rule: list_all2_induct) auto

lemma find_append: "find P (xs @ ys) = (case find P xs of None \<Rightarrow> find P ys | Some x \<Rightarrow> Some x)"
  by (induction xs) simp_all

section \<open>Syntax trees\<close>

datatype SvType = SV_TYPE_INT | SV_TYPE_BIGINT | SV_TYPE_FLOAT | SV_TYPE_STRING | SV_TYPE_DATETIME | SV_TYPE_BOOL

datatype SvCompOp = SV_OP_EQ | SV_OP_NE | SV_OP_LT | SV_OP_GT | SV_OP_LE | SV_OP_GE

datatype OrderByDir = OrderBy_DEFAULT | OrderBy_ASC | OrderBy_DESC

datatype AggFuncType = AggFunc_COUNT | AggFunc_MAX | AggFunc_MIN | AggFunc_SUM

datatype SetKnobType = EnableNestLoop | EnableSortMerge

datatype sv_value = IntLit int | FloatLit float32 | StringLit string | BoolLit bool

record sv_col =
  sc_tab_name :: string
  sc_col_name :: string

datatype sv_expr = ValueExpr sv_value | ColExpr sv_col

record BinaryExpr =
  be_lhs :: sv_col
  be_op :: SvCompOp
  be_rhs :: sv_expr

record sv_set_clause =
  sv_set_col :: string
  sv_set_val :: sv_value

record AggFunc =
  af_type :: AggFuncType
  af_is_count_star :: bool
  af_col :: "sv_col option"
  af_alias :: string

record OrderBy =
  ob_col :: sv_col
  ob_dir :: OrderByDir

text \<open>The column of \<open>COUNT(*)\<close> is a null pointer. The parser makes no other fields than column definitions.\<close>

record sv_col_def =
  cd_col_name :: string
  cd_type :: SvType
  cd_len :: int

record select_stmt =
  sel_cols :: "sv_col list"
  sel_aggs :: "AggFunc list"
  sel_tabs :: "string list"
  sel_conds :: "BinaryExpr list"
  sel_orders :: "OrderBy list"
  sel_limit :: int

definition has_aggregate :: "select_stmt \<Rightarrow> bool" where
  "has_aggregate x \<longleftrightarrow> sel_aggs x \<noteq> []"

definition has_sort :: "select_stmt \<Rightarrow> bool" where
  "has_sort x \<longleftrightarrow> sel_orders x \<noteq> []"

definition has_limit :: "select_stmt \<Rightarrow> bool" where
  "has_limit x \<longleftrightarrow> 0 \<le> sel_limit x"

datatype TreeNode =
    Help
  | ShowTables
  | ShowIndex string
  | TxnBegin
  | TxnCommit
  | TxnAbort
  | TxnRollback
  | CreateTable string "sv_col_def list"
  | DropTable string
  | DescTable string
  | CreateIndex string "string list"
  | DropIndex string "string list"
  | InsertStmt string "sv_value list"
  | DeleteStmt string "BinaryExpr list"
  | UpdateStmt string "sv_set_clause list" "BinaryExpr list"
  | SelectStmt select_stmt
  | SetStmt SetKnobType bool

section \<open>Queries\<close>

record Query =
  q_parse :: TreeNode
  q_conds :: "Condition list"
  q_cols :: "TabCol list"
  q_aggregates :: "AggregateExpr list"
  q_has_aggregate :: bool
  q_tables :: "string list"
  q_set_clauses :: "SetClause list"
  q_values :: "Value list"

definition new_Query :: "TreeNode \<Rightarrow> Query" where
  "new_Query parse = \<lparr>q_parse = parse, q_conds = [], q_cols = [], q_aggregates = [], q_has_aggregate = False, q_tables = [],
     q_set_clauses = [], q_values = []\<rparr>"

section \<open>Types and literals\<close>

definition is_compatible_type :: "ColType \<Rightarrow> ColType \<Rightarrow> bool" where
  "is_compatible_type lhs_type rhs_type \<longleftrightarrow>
     lhs_type = rhs_type \<or>
     lhs_type = TYPE_DATETIME \<and> rhs_type = TYPE_STRING \<or> lhs_type = TYPE_STRING \<and> rhs_type = TYPE_DATETIME \<or>
     (lhs_type = TYPE_INT \<or> lhs_type = TYPE_BIGINT \<or> lhs_type = TYPE_FLOAT) \<and>
     (rhs_type = TYPE_INT \<or> rhs_type = TYPE_BIGINT \<or> rhs_type = TYPE_FLOAT)"

definition is_sum_supported_type :: "ColType \<Rightarrow> bool" where
  "is_sum_supported_type type \<longleftrightarrow> type = TYPE_INT \<or> type = TYPE_BIGINT \<or> type = TYPE_FLOAT"

definition default_aggregate_alias :: "AggType \<Rightarrow> TabCol \<Rightarrow> bool \<Rightarrow> string" where
  "default_aggregate_alias type col count_star =
     (case type of
        AGG_COUNT \<Rightarrow> if count_star then ''COUNT(*)'' else ''COUNT('' @ tc_col_name col @ '')''
      | AGG_MAX \<Rightarrow> ''MAX('' @ tc_col_name col @ '')''
      | AGG_MIN \<Rightarrow> ''MIN('' @ tc_col_name col @ '')''
      | AGG_SUM \<Rightarrow> ''SUM('' @ tc_col_name col @ '')'')"

text \<open>The last branch of the conversion reads \<open>float_val\<close> whatever member the union holds; a string
  leaves it unset.\<close>

fun numeric_of :: "val_data \<Rightarrow> rmdb_error + long_double" where
  "numeric_of (IntVal i) = Inr (ld_of_int i)"
| "numeric_of (BigintVal i) = Inr (ld_of_int i)"
| "numeric_of (FloatVal u) = Inr (ld_of_float u)"
| "numeric_of (DatetimeVal i) = Inr (ld_of_float (i mod 2 ^ 32))"
| "numeric_of (StrVal s) = Inl UndefinedBehaviour"

definition set_numeric :: "ColType \<Rightarrow> ColType \<Rightarrow> long_double \<Rightarrow> rmdb_error + val_data" where
  "set_numeric target_type value_type numeric =
     (case target_type of
        TYPE_FLOAT \<Rightarrow> Inr (FloatVal (float_of_ld numeric))
      | TYPE_INT \<Rightarrow> andthen (ld_to_range (- (2 ^ 31)) (2 ^ 31 - 1) TYPE_INT numeric) (\<lambda>i. Inr (IntVal i))
      | TYPE_BIGINT \<Rightarrow> andthen (ld_to_range (- (2 ^ 63)) (2 ^ 63 - 1) TYPE_BIGINT numeric) (\<lambda>i. Inr (BigintVal i))
      | _ \<Rightarrow> Inl (IncompatibleTypeError (coltype2str target_type) (coltype2str value_type)))"

definition cast_value_to_type :: "Value \<Rightarrow> ColType \<Rightarrow> rmdb_error + Value" where
  "cast_value_to_type v target_type =
     (if val_type v = target_type then Inr v
      else if target_type = TYPE_DATETIME
      then
        (case v_data v of
           StrVal s \<Rightarrow> andthen (parse_datetime_string s) (\<lambda>i. Inr (v\<lparr>v_data := DatetimeVal i\<rparr>))
         | _ \<Rightarrow> Inl (IncompatibleTypeError (coltype2str target_type) (coltype2str (val_type v))))
      else if \<not> is_compatible_type (val_type v) target_type
      then Inl (IncompatibleTypeError (coltype2str target_type) (coltype2str (val_type v)))
      else
        andthen (numeric_of (v_data v)) (\<lambda>numeric.
          andthen (set_numeric target_type (val_type v) numeric) (\<lambda>d. Inr (v\<lparr>v_data := d\<rparr>))))"

definition convert_sv_value :: "sv_value \<Rightarrow> rmdb_error + Value" where
  "convert_sv_value sv_val =
     (case sv_val of
        IntLit i \<Rightarrow> Inr \<lparr>v_data = BigintVal i, v_raw = None\<rparr>
      | FloatLit u \<Rightarrow> Inr \<lparr>v_data = FloatVal u, v_raw = None\<rparr>
      | StringLit s \<Rightarrow> Inr \<lparr>v_data = StrVal s, v_raw = None\<rparr>
      | BoolLit b \<Rightarrow> Inl (InternalError ''Unexpected sv value type''))"

fun convert_sv_comp_op :: "SvCompOp \<Rightarrow> CompOp" where
  "convert_sv_comp_op SV_OP_EQ = OP_EQ"
| "convert_sv_comp_op SV_OP_NE = OP_NE"
| "convert_sv_comp_op SV_OP_LT = OP_LT"
| "convert_sv_comp_op SV_OP_GT = OP_GT"
| "convert_sv_comp_op SV_OP_LE = OP_LE"
| "convert_sv_comp_op SV_OP_GE = OP_GE"

fun convert_sv_agg_type :: "AggFuncType \<Rightarrow> AggType" where
  "convert_sv_agg_type AggFunc_COUNT = AGG_COUNT"
| "convert_sv_agg_type AggFunc_MAX = AGG_MAX"
| "convert_sv_agg_type AggFunc_MIN = AGG_MIN"
| "convert_sv_agg_type AggFunc_SUM = AGG_SUM"

section \<open>Columns and conditions\<close>

fun infer_tab_name :: "ColMeta list \<Rightarrow> string \<Rightarrow> string \<Rightarrow> rmdb_error + string" where
  "infer_tab_name [] col_name tab_name = Inr tab_name"
| "infer_tab_name (col # cs) col_name tab_name =
     (if cm_name col = col_name
      then if tab_name \<noteq> [] then Inl (AmbiguousColumnError col_name) else infer_tab_name cs col_name (cm_tab_name col)
      else infer_tab_name cs col_name tab_name)"

definition check_column :: "ColMeta list \<Rightarrow> TabCol \<Rightarrow> rmdb_error + TabCol" where
  "check_column all_cols target =
     (if tc_tab_name target = []
      then
        andthen (infer_tab_name all_cols (tc_col_name target) []) (\<lambda>tab_name.
          if tab_name = [] then Inl (ColumnNotFoundError (tc_col_name target)) else Inr (target\<lparr>tc_tab_name := tab_name\<rparr>))
      else if \<exists>col \<in> set all_cols. cm_tab_name col = tc_tab_name target \<and> cm_name col = tc_col_name target then Inr target
      else Inl (ColumnNotFoundError (tc_tab_name target @ ''.'' @ tc_col_name target)))"

definition get_all_cols :: "DbMeta \<Rightarrow> string list \<Rightarrow> rmdb_error + ColMeta list" where
  "get_all_cols db tab_names =
     andthen (for_all (\<lambda>t. andthen (get_table db t) (\<lambda>tab. Inr (tm_cols tab))) tab_names) (\<lambda>css. Inr (concat css))"

definition tab_col :: "sv_col \<Rightarrow> TabCol" where
  "tab_col c = \<lparr>tc_tab_name = sc_tab_name c, tc_col_name = sc_col_name c\<rparr>"

text \<open>The members of a new \<open>Condition\<close>; its value is read only when the right-hand side is one.\<close>

definition no_col :: TabCol where
  "no_col = \<lparr>tc_tab_name = [], tc_col_name = []\<rparr>"

definition no_value :: Value where
  "no_value = \<lparr>v_data = IntVal 0, v_raw = None\<rparr>"

definition clause_of :: "BinaryExpr \<Rightarrow> rmdb_error + Condition" where
  "clause_of expr =
     (case be_rhs expr of
        ValueExpr sv_val \<Rightarrow>
          andthen (convert_sv_value sv_val) (\<lambda>v.
            Inr \<lparr>lhs_col = tab_col (be_lhs expr), cond_op = convert_sv_comp_op (be_op expr), is_rhs_val = True, rhs_col = no_col,
                 rhs_val = v\<rparr>)
      | ColExpr c \<Rightarrow>
          Inr \<lparr>lhs_col = tab_col (be_lhs expr), cond_op = convert_sv_comp_op (be_op expr), is_rhs_val = False, rhs_col = tab_col c,
               rhs_val = no_value\<rparr>)"

definition get_clause :: "BinaryExpr list \<Rightarrow> rmdb_error + Condition list" where
  "get_clause sv_conds = for_all clause_of sv_conds"

definition table_col :: "DbMeta \<Rightarrow> TabCol \<Rightarrow> rmdb_error + ColMeta" where
  "table_col db c = andthen (get_table db (tc_tab_name c)) (\<lambda>tab. get_col tab (tc_col_name c))"

definition check_types :: "ColType \<Rightarrow> ColType \<Rightarrow> Condition \<Rightarrow> rmdb_error + Condition" where
  "check_types lhs_type rhs_type cond =
     (if is_compatible_type lhs_type rhs_type then Inr cond
      else Inl (IncompatibleTypeError (coltype2str lhs_type) (coltype2str rhs_type)))"

definition check_cond :: "DbMeta \<Rightarrow> ColMeta list \<Rightarrow> Condition \<Rightarrow> rmdb_error + Condition" where
  "check_cond db all_cols cond =
     andthen (check_column all_cols (lhs_col cond)) (\<lambda>lhs.
       andthen (if is_rhs_val cond then Inr (rhs_col cond) else check_column all_cols (rhs_col cond)) (\<lambda>rhs.
         andthen (table_col db lhs) (\<lambda>lhs_meta.
           if is_rhs_val cond
           then
             andthen (cast_value_to_type (rhs_val cond) (cm_type lhs_meta)) (\<lambda>v.
               andthen (init_raw (cm_len lhs_meta) v) (\<lambda>v'.
                 check_types (cm_type lhs_meta) (val_type v') (cond\<lparr>lhs_col := lhs, rhs_val := v'\<rparr>)))
           else
             andthen (table_col db rhs) (\<lambda>rhs_meta.
               check_types (cm_type lhs_meta) (cm_type rhs_meta) (cond\<lparr>lhs_col := lhs, rhs_col := rhs\<rparr>)))))"

definition check_clause :: "DbMeta \<Rightarrow> string list \<Rightarrow> Condition list \<Rightarrow> rmdb_error + Condition list" where
  "check_clause db tab_names conds = andthen (get_all_cols db tab_names) (\<lambda>all_cols. for_all (check_cond db all_cols) conds)"

section \<open>Statements\<close>

definition analyze_agg :: "DbMeta \<Rightarrow> ColMeta list \<Rightarrow> AggFunc \<Rightarrow> rmdb_error + AggregateExpr" where
  "analyze_agg db all_cols sv_agg =
     (let type = convert_sv_agg_type (af_type sv_agg) in
      andthen
        (if af_is_count_star sv_agg then Inr no_col
         else
           (case af_col sv_agg of
              None \<Rightarrow> Inl UndefinedBehaviour
            | Some c \<Rightarrow>
                andthen (check_column all_cols (tab_col c)) (\<lambda>col.
                  andthen (table_col db col) (\<lambda>col_meta.
                    if type = AGG_SUM \<and> \<not> is_sum_supported_type (cm_type col_meta)
                    then Inl (IncompatibleTypeError ''SUM'' (coltype2str (cm_type col_meta)))
                    else Inr col))))
        (\<lambda>col. Inr \<lparr>agg_type = type, is_count_star = af_is_count_star sv_agg, agg_col = col,
                    agg_alias = (if af_alias sv_agg = [] then default_aggregate_alias type col (af_is_count_star sv_agg) else af_alias sv_agg)\<rparr>))"

definition select_targets :: "DbMeta \<Rightarrow> ColMeta list \<Rightarrow> select_stmt \<Rightarrow> rmdb_error + AggregateExpr list \<times> TabCol list" where
  "select_targets db all_cols x =
     (if has_aggregate x
      then
        andthen (for_all (analyze_agg db all_cols) (sel_aggs x)) (\<lambda>aggs.
          Inr (aggs, map (\<lambda>agg. \<lparr>tc_tab_name = [], tc_col_name = agg_alias agg\<rparr>) aggs))
      else if sel_cols x = []
      then Inr ([], map (\<lambda>col. \<lparr>tc_tab_name = cm_tab_name col, tc_col_name = cm_name col\<rparr>) all_cols)
      else andthen (for_all (check_column all_cols) (map tab_col (sel_cols x))) (\<lambda>cs. Inr ([], cs)))"

text \<open>The names of the tables are moved out of the syntax tree.\<close>

definition analyze_select :: "DbMeta \<Rightarrow> select_stmt \<Rightarrow> rmdb_error + Query" where
  "analyze_select db x =
     andthen (for_all (get_table db) (sel_tabs x)) (\<lambda>_.
       andthen (get_all_cols db (sel_tabs x)) (\<lambda>all_cols.
         andthen (select_targets db all_cols x) (\<lambda>(aggs, targets).
           andthen (get_clause (sel_conds x)) (\<lambda>conds.
             andthen (check_clause db (sel_tabs x) conds) (\<lambda>conds'.
               Inr ((new_Query (SelectStmt (x\<lparr>sel_tabs := []\<rparr>)))
                     \<lparr>q_tables := sel_tabs x, q_has_aggregate := has_aggregate x, q_aggregates := aggs, q_cols := targets,
                      q_conds := conds'\<rparr>))))))"

definition analyze_set :: "DbMeta \<Rightarrow> string \<Rightarrow> sv_set_clause \<Rightarrow> rmdb_error + SetClause" where
  "analyze_set db tab_name sv =
     andthen (get_all_cols db [tab_name]) (\<lambda>all_cols.
       andthen (check_column all_cols \<lparr>tc_tab_name = tab_name, tc_col_name = sv_set_col sv\<rparr>) (\<lambda>lhs.
         andthen (convert_sv_value (sv_set_val sv)) (\<lambda>v.
           andthen (get_table db tab_name) (\<lambda>tab.
             andthen (get_col tab (tc_col_name lhs)) (\<lambda>col.
               andthen (cast_value_to_type v (cm_type col)) (\<lambda>rhs. Inr \<lparr>set_lhs = lhs, set_rhs = rhs\<rparr>))))))"

definition analyze_update :: "DbMeta \<Rightarrow> string \<Rightarrow> sv_set_clause list \<Rightarrow> BinaryExpr list \<Rightarrow> rmdb_error + Query" where
  "analyze_update db tab_name sets sv_conds =
     andthen (get_table db tab_name) (\<lambda>_.
       andthen (for_all (analyze_set db tab_name) sets) (\<lambda>sets'.
         andthen (get_clause sv_conds) (\<lambda>conds.
           andthen (check_clause db [tab_name] conds) (\<lambda>conds'.
             Inr ((new_Query (UpdateStmt tab_name sets sv_conds))\<lparr>q_tables := [tab_name], q_set_clauses := sets', q_conds := conds'\<rparr>)))))"

definition analyze_delete :: "DbMeta \<Rightarrow> string \<Rightarrow> BinaryExpr list \<Rightarrow> rmdb_error + Query" where
  "analyze_delete db tab_name sv_conds =
     andthen (get_table db tab_name) (\<lambda>_.
       andthen (get_clause sv_conds) (\<lambda>conds.
         andthen (check_clause db [tab_name] conds) (\<lambda>conds'.
           Inr ((new_Query (DeleteStmt tab_name sv_conds))\<lparr>q_conds := conds'\<rparr>))))"

definition analyze_insert :: "DbMeta \<Rightarrow> string \<Rightarrow> sv_value list \<Rightarrow> rmdb_error + Query" where
  "analyze_insert db tab_name vals =
     andthen (get_table db tab_name) (\<lambda>_.
       andthen (for_all convert_sv_value vals) (\<lambda>vs.
         Inr ((new_Query (InsertStmt tab_name vals))\<lparr>q_values := vs\<rparr>)))"

definition do_analyze :: "DbMeta \<Rightarrow> TreeNode \<Rightarrow> rmdb_error + Query" where
  "do_analyze db parse =
     (case parse of
        SelectStmt x \<Rightarrow> analyze_select db x
      | UpdateStmt tab_name sets conds \<Rightarrow> analyze_update db tab_name sets conds
      | DeleteStmt tab_name conds \<Rightarrow> analyze_delete db tab_name conds
      | InsertStmt tab_name vals \<Rightarrow> analyze_insert db tab_name vals
      | _ \<Rightarrow> Inr (new_Query parse))"

section \<open>Casts\<close>

lemma cast_value_to_type_eq: "cast_value_to_type v ty = andthen (cast_data ty (v_data v)) (\<lambda>d. Inr (v\<lparr>v_data := d\<rparr>))"
proof (cases "data_type (v_data v) = ty \<or> ty = TYPE_DATETIME")
  case True
  then show ?thesis
    by (cases "v_data v") (auto simp: cast_value_to_type_def cast_data_def andthen_def split: sum.splits)
next
  case False
  then show ?thesis
    by (cases ty; cases "v_data v")
      (auto simp: cast_value_to_type_def cast_data_def cast_numeric_def set_numeric_def is_compatible_type_def is_numeric_type_def
        andthen_def split: sum.splits)
qed

lemma cast_data_type: "cast_data ty d = Inr d' \<Longrightarrow> data_type d' = ty"
  by (cases d; cases ty) (auto simp: cast_data_def cast_numeric_def is_numeric_type_def split: sum.splits if_splits)

section \<open>What the analysis establishes\<close>

text \<open>The columns of a table carry its name, and no table has the empty name.\<close>

definition catalog_ok :: "DbMeta \<Rightarrow> bool" where
  "catalog_ok db \<longleftrightarrow> (\<forall>(t, tab) \<in> set (db_tabs db). t \<noteq> [] \<and> (\<forall>col \<in> set (tm_cols tab). cm_tab_name col = t))"

definition provides :: "DbMeta \<Rightarrow> string list \<Rightarrow> ColMeta list \<Rightarrow> bool" where
  "provides db ts cs \<longleftrightarrow>
     (\<forall>c m. tc_tab_name c \<in> set ts \<and> table_col db c = Inr m \<longrightarrow> (\<exists>m'. find_col_meta cs c = Inr m' \<and> cm_type m' = cm_type m))"

text \<open>Columns are compared with values and with columns that are strings if they are.\<close>

definition same_kind :: "DbMeta \<Rightarrow> Condition \<Rightarrow> bool" where
  "same_kind db cond \<longleftrightarrow>
     is_rhs_val cond \<or>
     (case (table_col db (lhs_col cond), table_col db (rhs_col cond)) of
        (Inr l, Inr r) \<Rightarrow> cm_type l = TYPE_STRING \<longleftrightarrow> cm_type r = TYPE_STRING
      | _ \<Rightarrow> False)"

lemma get_table_catalog:
  assumes "catalog_ok db" "get_table db t = Inr tab"
  shows "t \<noteq> []" "col \<in> set (tm_cols tab) \<Longrightarrow> cm_tab_name col = t"
proof -
  have "(t, tab) \<in> set (db_tabs db)" using assms(2) by (auto simp: get_table_def dest: map_of_SomeD split: option.splits)
  then show "t \<noteq> []" "col \<in> set (tm_cols tab) \<Longrightarrow> cm_tab_name col = t" using assms(1) by (auto simp: catalog_ok_def)
qed

lemma get_all_cols_Inr:
  assumes "get_all_cols db ts = Inr all" "col \<in> set all"
  obtains t tab where "t \<in> set ts" "get_table db t = Inr tab" "col \<in> set (tm_cols tab)"
proof -
  obtain css where css: "list_all2 (\<lambda>t cs. andthen (get_table db t) (\<lambda>tab. Inr (tm_cols tab)) = Inr cs) ts css" "all = concat css"
    using assms(1) by (auto simp: get_all_cols_def andthen_Inr for_all_Inr)
  then obtain cs where cs: "cs \<in> set css" "col \<in> set cs" using assms(2) by auto
  obtain t where "t \<in> set ts" "andthen (get_table db t) (\<lambda>tab. Inr (tm_cols tab)) = Inr cs"
    using list_all2_in2[OF css(1) cs(1)] by blast
  then show thesis using that cs(2) by (auto simp: andthen_Inr)
qed

lemma all_cols_known:
  assumes "catalog_ok db" "get_all_cols db ts = Inr all" "col \<in> set all"
  shows "cm_tab_name col \<in> set ts" "cm_tab_name col \<noteq> []"
    "\<exists>m. table_col db \<lparr>tc_tab_name = cm_tab_name col, tc_col_name = cm_name col\<rparr> = Inr m"
proof -
  obtain t tab where t: "t \<in> set ts" "get_table db t = Inr tab" "col \<in> set (tm_cols tab)"
    using get_all_cols_Inr[OF assms(2,3)] .
  have [simp]: "cm_tab_name col = t" using get_table_catalog(2)[OF assms(1) t(2,3)] .
  show "cm_tab_name col \<in> set ts" "cm_tab_name col \<noteq> []" using t(1) get_table_catalog(1)[OF assms(1) t(2)] by simp_all
  have "find (\<lambda>c. cm_name c = cm_name col) (tm_cols tab) \<noteq> None" using t(3) by (auto simp: find_None_iff)
  then show "\<exists>m. table_col db \<lparr>tc_tab_name = cm_tab_name col, tc_col_name = cm_name col\<rparr> = Inr m"
    using t(2) by (auto simp: table_col_def get_col_def)
qed

lemma infer_tab_name_Inr:
  assumes "infer_tab_name cs name t0 = Inr t" "t \<noteq> []"
  shows "t = t0 \<or> (\<exists>col \<in> set cs. cm_name col = name \<and> cm_tab_name col = t)"
  using assms by (induction cs name t0 rule: infer_tab_name.induct) (auto split: if_splits)

lemma check_column_ok:
  assumes "catalog_ok db" "get_all_cols db ts = Inr all" "check_column all c = Inr c'"
  shows "tc_tab_name c' \<in> set ts \<and> (\<exists>m. table_col db c' = Inr m)"
proof -
  obtain col where "col \<in> set all" "c' = \<lparr>tc_tab_name = cm_tab_name col, tc_col_name = cm_name col\<rparr>"
  proof (cases "tc_tab_name c = []")
    case True
    then obtain t where "infer_tab_name all (tc_col_name c) [] = Inr t" "t \<noteq> []" "c' = c\<lparr>tc_tab_name := t\<rparr>"
      using assms(3) by (auto simp: check_column_def andthen_Inr split: if_splits)
    then show ?thesis using infer_tab_name_Inr[of all "tc_col_name c" "[]" t] that by fastforce
  next
    case False
    then show ?thesis using assms(3) that by (auto simp: check_column_def split: if_splits)
  qed
  then show ?thesis using all_cols_known[OF assms(1,2)] by simp
qed

lemma compare_raw_data_total:
  assumes "is_compatible_type a b" "a = TYPE_STRING \<longleftrightarrow> b = TYPE_STRING"
  shows "\<exists>i. compare_raw_data x a n y b m = Inr i"
  using assms by (auto simp: compare_raw_data_def is_compatible_type_def is_numeric_type_def Let_def)

lemma check_types_Inr: "check_types a b cond = Inr cond' \<longleftrightarrow> is_compatible_type a b \<and> cond' = cond"
  by (auto simp: check_types_def)

lemma init_raw_Inr: "init_raw len v = Inr v' \<Longrightarrow> \<exists>bs. v' = v\<lparr>v_raw := Some bs\<rparr>"
  by (auto simp: init_raw_def split: if_splits sum.splits)

lemma check_cond_val:
  assumes "check_cond db all cond = Inr cond'" "is_rhs_val cond"
  shows "is_rhs_val cond'" "\<exists>m raw. table_col db (lhs_col cond') = Inr m \<and> v_raw (rhs_val cond') = Some raw \<and> val_type (rhs_val cond') = cm_type m"
    "check_column all (lhs_col cond) = Inr (lhs_col cond')"
  using assms init_raw_Inr cast_data_type
  by (fastforce simp: check_cond_def andthen_Inr check_types_Inr cast_value_to_type_eq)+

lemma check_cond_col:
  assumes "check_cond db all cond = Inr cond'" "\<not> is_rhs_val cond"
  shows "\<not> is_rhs_val cond'" "\<exists>l r. table_col db (lhs_col cond') = Inr l \<and> table_col db (rhs_col cond') = Inr r \<and> is_compatible_type (cm_type l) (cm_type r)"
    "check_column all (lhs_col cond) = Inr (lhs_col cond')" "check_column all (rhs_col cond) = Inr (rhs_col cond')"
  using assms by (auto simp: check_cond_def andthen_Inr check_types_Inr)

lemma check_cond_evaluates:
  assumes cat: "catalog_ok db" and cs: "get_all_cols db ts = Inr all" "provides db ts cs"
    and c: "check_cond db all cond = Inr cond'" "same_kind db cond'"
  shows "\<exists>b. condition_holds rec cs cond' = Inr b"
proof (cases "is_rhs_val cond")
  case True
  note v = check_cond_val[OF c(1) True]
  obtain m raw where m: "table_col db (lhs_col cond') = Inr m" "v_raw (rhs_val cond') = Some raw" "val_type (rhs_val cond') = cm_type m"
    using v(2) by blast
  obtain m' where "find_col_meta cs (lhs_col cond') = Inr m'" "cm_type m' = cm_type m"
    using cs(2) m(1) check_column_ok[OF cat cs(1) v(3)] unfolding provides_def by blast
  then show ?thesis
    using v(1) m(2,3) compare_raw_data_total[of "cm_type m" "cm_type m"]
    by (auto simp: condition_holds_def cond_rhs_def is_compatible_type_def split: sum.splits) (metis sum.distinct(1))
next
  case False
  note v = check_cond_col[OF c(1) False]
  obtain l r where m: "table_col db (lhs_col cond') = Inr l" "table_col db (rhs_col cond') = Inr r" "is_compatible_type (cm_type l) (cm_type r)"
    using v(2) by blast
  obtain l' where l': "find_col_meta cs (lhs_col cond') = Inr l'" "cm_type l' = cm_type l"
    using cs(2) m(1) check_column_ok[OF cat cs(1) v(3)] unfolding provides_def by blast
  obtain r' where r': "find_col_meta cs (rhs_col cond') = Inr r'" "cm_type r' = cm_type r"
    using cs(2) m(2) check_column_ok[OF cat cs(1) v(4)] unfolding provides_def by blast
  have "cm_type l = TYPE_STRING \<longleftrightarrow> cm_type r = TYPE_STRING" using c(2) v(1) m(1,2) by (simp add: same_kind_def)
  note compare_raw_data_total[OF m(3) this]
  then show ?thesis
    using v(1) l' r' by (auto simp: condition_holds_def cond_rhs_def split: sum.splits) (metis sum.distinct(1))
qed

lemma conditions_evaluate:
  assumes "\<And>c. c \<in> set conds \<Longrightarrow> \<exists>b. condition_holds rec cs c = Inr b"
  shows "\<exists>b. record_satisfies_conditions rec cs conds = Inr b"
  using assms by (induction conds) fastforce+

lemma check_clause_evaluates:
  assumes "catalog_ok db" "provides db ts cs" "check_clause db ts conds = Inr conds'" "\<forall>c \<in> set conds'. same_kind db c"
  shows "\<exists>b. record_satisfies_conditions rec cs conds' = Inr b"
proof (rule conditions_evaluate)
  fix c assume c: "c \<in> set conds'"
  obtain all where all: "get_all_cols db ts = Inr all" "list_all2 (\<lambda>x y. check_cond db all x = Inr y) conds conds'"
    using assms(3) by (auto simp: check_clause_def andthen_Inr for_all_Inr)
  then obtain d where "check_cond db all d = Inr c" using list_all2_in2[OF all(2) c] by blast
  then show "\<exists>b. condition_holds rec cs c = Inr b"
    using check_cond_evaluates[OF assms(1) all(1) assms(2)] assms(4) c by blast
qed

lemma provides_all_cols:
  assumes "catalog_ok db" "get_all_cols db ts = Inr all"
  shows "provides db ts all"
proof -
  obtain css where css: "list_all2 (\<lambda>t cs. andthen (get_table db t) (\<lambda>tab. Inr (tm_cols tab)) = Inr cs) ts css" "all = concat css"
    using assms(2) by (auto simp: get_all_cols_def andthen_Inr for_all_Inr)
  have "\<exists>m'. find_col_meta (concat css) c = Inr m' \<and> cm_type m' = cm_type m"
    if "tc_tab_name c \<in> set ts" "table_col db c = Inr m" for c m
    using css(1) that(1)
  proof (induction rule: list_all2_induct)
    case (Cons t ts cs css)
    obtain tab where tab: "get_table db t = Inr tab" "cs = tm_cols tab" using Cons(1) by (auto simp: andthen_Inr)
    let ?P = "\<lambda>col. cm_tab_name col = tc_tab_name c \<and> cm_name col = tc_col_name c"
    show ?case
    proof (cases "tc_tab_name c = t")
      case True
      then have "find (\<lambda>col. cm_name col = tc_col_name c) cs = Some m"
        using that(2) tab by (auto simp: table_col_def get_col_def split: option.splits)
      moreover have "find ?P cs = find (\<lambda>col. cm_name col = tc_col_name c) cs"
        by (rule find_cong) (use True tab get_table_catalog(2)[OF assms(1) tab(1)] in auto)
      ultimately show ?thesis by (simp add: find_col_meta_def find_append)
    next
      case False
      then have "find ?P cs = None"
        using tab get_table_catalog(2)[OF assms(1) tab(1)] by (auto simp: find_None_iff)
      then show ?thesis using Cons False by (simp add: find_col_meta_def find_append)
    qed
  qed simp
  then show ?thesis using css(2) by (simp add: provides_def)
qed

lemma select_cols_found:
  assumes "\<And>c. c \<in> set sels \<Longrightarrow> \<exists>m. find_col_meta cs c = Inr m"
  shows "\<exists>picks. select_cols cs sels off = Inr picks"
  using assms
proof (induction sels arbitrary: off)
  case (Cons c sels)
  obtain m where m: "find_col_meta cs c = Inr m" using Cons.prems[of c] by auto
  obtain picks where "select_cols cs sels (off + cm_len m) = Inr picks" using Cons.IH Cons.prems by (meson list.set_intros(2))
  with m show ?case by simp
qed simp

lemma select_targets_found:
  assumes "catalog_ok db" "get_all_cols db ts = Inr all" "provides db ts cs" "select_targets db all x = Inr (aggs, targets)" "\<not> has_aggregate x"
    "c \<in> set targets"
  shows "\<exists>m. find_col_meta cs c = Inr m"
proof -
  have "tc_tab_name c \<in> set ts \<and> (\<exists>m. table_col db c = Inr m)"
  proof (cases "sel_cols x = []")
    case True
    then show ?thesis using assms all_cols_known[OF assms(1,2)] by (auto simp: select_targets_def)
  next
    case False
    then have "list_all2 (\<lambda>d c. check_column all d = Inr c) (map tab_col (sel_cols x)) targets"
      using assms(4,5) by (auto simp: select_targets_def andthen_Inr for_all_Inr)
    from list_all2_in2[OF this assms(6)] show ?thesis using check_column_ok[OF assms(1,2)] by blast
  qed
  then show ?thesis using assms(3) unfolding provides_def by blast
qed

text \<open>The tables whose columns the conditions of a statement may name.\<close>

definition stmt_tables :: "TreeNode \<Rightarrow> string list" where
  "stmt_tables parse =
     (case parse of SelectStmt x \<Rightarrow> sel_tabs x | UpdateStmt t _ _ \<Rightarrow> [t] | DeleteStmt t _ \<Rightarrow> [t] | _ \<Rightarrow> [])"

lemma do_analyze_clause:
  assumes "do_analyze db parse = Inr q"
  shows "q_conds q = [] \<or> (\<exists>conds. check_clause db (stmt_tables parse) conds = Inr (q_conds q))"
  using assms
  by (cases parse)
    (auto simp: do_analyze_def stmt_tables_def analyze_select_def analyze_update_def analyze_delete_def analyze_insert_def andthen_Inr
      new_Query_def)

lemma do_analyze_targets:
  assumes "do_analyze db parse = Inr q" "\<not> q_has_aggregate q"
  shows "q_cols q = [] \<or> (\<exists>all x aggs. get_all_cols db (stmt_tables parse) = Inr all \<and> \<not> has_aggregate x \<and>
    select_targets db all x = Inr (aggs, q_cols q))"
  using assms
  by (cases parse;
    auto simp: do_analyze_def stmt_tables_def analyze_select_def analyze_update_def analyze_delete_def analyze_insert_def andthen_Inr
      new_Query_def; blast)


text \<open>\<open>SELECT id FROM t WHERE id = 5 AND name <> 'x'\<close>\<close>

definition demo_stmt :: TreeNode where
  "demo_stmt = SelectStmt \<lparr>sel_cols = [\<lparr>sc_tab_name = [], sc_col_name = ''id''\<rparr>], sel_aggs = [], sel_tabs = [''t''],
     sel_conds = [\<lparr>be_lhs = \<lparr>sc_tab_name = [], sc_col_name = ''id''\<rparr>, be_op = SV_OP_EQ, be_rhs = ValueExpr (IntLit 5)\<rparr>,
       \<lparr>be_lhs = \<lparr>sc_tab_name = ''t'', sc_col_name = ''name''\<rparr>, be_op = SV_OP_NE, be_rhs = ValueExpr (StringLit ''x'')\<rparr>],
     sel_orders = [], sel_limit = -1\<rparr>"

definition demo_query :: Query where
  "demo_query = (case do_analyze demo_db demo_stmt of Inr q \<Rightarrow> q | Inl _ \<Rightarrow> new_Query Help)"


end
