(* ===== verification/Planner.thy ===== *)
theory Planner
  imports Analyze "HOL-Library.Multiset"
begin

text \<open>
  Plans and the planner (\<open>optimizer/plan.h\<close>, \<open>optimizer/planner.h\<close>, \<open>optimizer/planner.cpp\<close>,
  \<open>optimizer/optimizer.h\<close>). A plan is a tree; a null \<open>shared_ptr<Plan>\<close> is \<open>NoPlan\<close>. No node of a plan is
  shared by two parents, so that the conditions \<open>push_conds\<close> appends in place are appended in a copy here. The conditions of a query are shown to
  end up in the plan, each at a place where it can be evaluated, and the plan to accept the rows the query asks for.
\<close>

section \<open>Plans\<close>

datatype PlanTag =
    T_Help | T_ShowTable | T_ShowIndex | T_DescTable | T_CreateTable | T_DropTable | T_CreateIndex | T_DropIndex | T_SetKnob
  | T_Insert | T_Update | T_Delete | T_select | T_Transaction_begin | T_Transaction_commit | T_Transaction_abort | T_Transaction_rollback
  | T_SeqScan | T_IndexScan | T_NestLoop | T_SortMerge | T_Sort | T_Aggregate | T_Projection

record ColDef =
  def_name :: string
  def_type :: ColType
  def_len :: int

record scan_plan =
  sp_tag :: PlanTag
  sp_tab_name :: string
  sp_cols :: "ColMeta list"
  sp_conds :: "Condition list"
  sp_len :: int
  sp_index_col_names :: "string list"

datatype Plan =
    NoPlan
  | ScanPlan scan_plan
  | JoinPlan PlanTag Plan Plan "Condition list"
  | ProjectionPlan Plan "TabCol list"
  | SortPlan Plan "SortKey list" int
  | AggregatePlan Plan "AggregateExpr list" "TabCol list"
  | DMLPlan PlanTag Plan string "Value list" "Condition list" "SetClause list"
  | DDLPlan PlanTag string "string list" "ColDef list"
  | OtherPlan PlanTag string
  | SetKnobPlan SetKnobType bool

text \<open>The constructor of \<open>ScanPlan\<close>; a table without columns has no last one.\<close>

definition new_ScanPlan :: "DbMeta \<Rightarrow> PlanTag \<Rightarrow> string \<Rightarrow> Condition list \<Rightarrow> string list \<Rightarrow> rmdb_error + Plan" where
  "new_ScanPlan db tag tab_name conds index_col_names =
     andthen (get_table db tab_name) (\<lambda>tab.
       if tm_cols tab = [] then Inl UndefinedBehaviour
       else
         Inr (ScanPlan \<lparr>sp_tag = tag, sp_tab_name = tab_name, sp_cols = tm_cols tab, sp_conds = conds,
           sp_len = cm_offset (last (tm_cols tab)) + cm_len (last (tm_cols tab)), sp_index_col_names = index_col_names\<rparr>))"

section \<open>Choosing an index\<close>

definition has_eq_cond_for_col :: "Condition list \<Rightarrow> string \<Rightarrow> string \<Rightarrow> bool" where
  "has_eq_cond_for_col conds tab_name col_name \<longleftrightarrow>
     (\<exists>cond \<in> set conds. is_rhs_val cond \<and> tc_tab_name (lhs_col cond) = tab_name \<and> tc_col_name (lhs_col cond) = col_name \<and>
        cond_op cond = OP_EQ)"

definition has_range_cond_for_col :: "Condition list \<Rightarrow> string \<Rightarrow> string \<Rightarrow> bool" where
  "has_range_cond_for_col conds tab_name col_name \<longleftrightarrow>
     (\<exists>cond \<in> set conds. is_rhs_val cond \<and> tc_tab_name (lhs_col cond) = tab_name \<and> tc_col_name (lhs_col cond) = col_name \<and>
        cond_op cond \<noteq> OP_EQ \<and> cond_op cond \<noteq> OP_NE)"

fun prefix_match :: "ColMeta list \<Rightarrow> Condition list \<Rightarrow> string \<Rightarrow> nat" where
  "prefix_match [] conds tab_name = 0"
| "prefix_match (col # cs) conds tab_name =
     (if has_eq_cond_for_col conds tab_name (cm_name col) then Suc (prefix_match cs conds tab_name)
      else if has_range_cond_for_col conds tab_name (cm_name col) then 1
      else 0)"

definition calc_index_prefix_match :: "IndexMeta \<Rightarrow> Condition list \<Rightarrow> string \<Rightarrow> nat" where
  "calc_index_prefix_match index conds tab_name = prefix_match (im_cols index) conds tab_name"

fun best_index :: "IndexMeta list \<Rightarrow> Condition list \<Rightarrow> string \<Rightarrow> nat \<times> string list \<Rightarrow> nat \<times> string list" where
  "best_index [] conds tab_name best = best"
| "best_index (index # indexes) conds tab_name best =
     (let prefix_len = calc_index_prefix_match index conds tab_name
      in best_index indexes conds tab_name (if fst best < prefix_len then (prefix_len, map cm_name (im_cols index)) else best))"

text \<open>The result \<open>true\<close> with the columns of the best index, or \<open>false\<close> without columns.\<close>

definition get_index_cols :: "DbMeta \<Rightarrow> string \<Rightarrow> Condition list \<Rightarrow> rmdb_error + bool \<times> string list" where
  "get_index_cols db tab_name curr_conds =
     andthen (get_table db tab_name) (\<lambda>tab.
       case best_index (tm_indexes tab) curr_conds tab_name (0, []) of (best_prefix, names) \<Rightarrow> Inr (0 < best_prefix, names))"

definition plan_scan :: "DbMeta \<Rightarrow> string \<Rightarrow> Condition list \<Rightarrow> rmdb_error + Plan" where
  "plan_scan db tab_name conds =
     andthen (get_index_cols db tab_name conds) (\<lambda>(index_exist, names).
       if index_exist then new_ScanPlan db T_IndexScan tab_name conds names else new_ScanPlan db T_SeqScan tab_name conds [])"

section \<open>Distributing the conditions\<close>

definition pops :: "string \<Rightarrow> Condition \<Rightarrow> bool" where
  "pops tab_name c \<longleftrightarrow>
     tab_name = tc_tab_name (lhs_col c) \<and> is_rhs_val c \<or> tc_tab_name (lhs_col c) = tc_tab_name (rhs_col c)"

definition pop_conds :: "Condition list \<Rightarrow> string \<Rightarrow> Condition list \<times> Condition list" where
  "pop_conds conds tab_name = (filter (pops tab_name) conds, filter (\<lambda>c. \<not> pops tab_name c) conds)"

fun swap_op :: "CompOp \<Rightarrow> CompOp" where
  "swap_op OP_EQ = OP_EQ"
| "swap_op OP_NE = OP_NE"
| "swap_op OP_LT = OP_GT"
| "swap_op OP_GT = OP_LT"
| "swap_op OP_LE = OP_GE"
| "swap_op OP_GE = OP_LE"

definition swap_cond :: "Condition \<Rightarrow> Condition" where
  "swap_cond c = c\<lparr>lhs_col := rhs_col c, rhs_col := lhs_col c, cond_op := swap_op (cond_op c)\<rparr>"

fun push_conds :: "Condition \<Rightarrow> Plan \<Rightarrow> nat \<times> Plan" where
  "push_conds c (ScanPlan x) =
     (if sp_tab_name x = tc_tab_name (lhs_col c) then 1 else if sp_tab_name x = tc_tab_name (rhs_col c) then 2 else 0, ScanPlan x)"
| "push_conds c (JoinPlan tag l r conds) =
     (case push_conds c l of
        (left_res, l') \<Rightarrow>
          if left_res = 3 then (3, JoinPlan tag l' r conds)
          else
            (case push_conds c r of
               (right_res, r') \<Rightarrow>
                 if right_res = 3 then (3, JoinPlan tag l' r' conds)
                 else if left_res = 0 \<or> right_res = 0 then (left_res + right_res, JoinPlan tag l' r' conds)
                 else (3, JoinPlan tag l' r' (conds @ [if left_res = 2 then swap_cond c else c]))))"
| "push_conds c plan = (0, plan)"

text \<open>The state of \<open>make_one_rel\<close>: \<open>scantbl\<close> and \<open>joined_tables\<close>.\<close>

record join_state =
  scantbl :: "int list"
  joined_tables :: "string list"

fun scan_position :: "string \<Rightarrow> Plan list \<Rightarrow> nat \<Rightarrow> rmdb_error + (nat \<times> Plan) option" where
  "scan_position table [] i = Inr None"
| "scan_position table (ScanPlan x # plans) i =
     (if sp_tab_name x = table then Inr (Some (i, ScanPlan x)) else scan_position table plans (Suc i))"
| "scan_position table (p # plans) i = Inl UndefinedBehaviour"

definition pop_scan :: "string \<Rightarrow> Plan list \<Rightarrow> join_state \<Rightarrow> rmdb_error + Plan \<times> join_state" where
  "pop_scan table plans s =
     andthen (scan_position table plans 0) (\<lambda>found.
       case found of
         None \<Rightarrow> Inr (NoPlan, s)
       | Some (i, p) \<Rightarrow> Inr (p, s\<lparr>scantbl := (scantbl s)[i := 1], joined_tables := joined_tables s @ [table]\<rparr>))"

record knobs =
  enable_nestedloop_join :: bool
  enable_sortmerge_join :: bool

definition first_join :: "knobs \<Rightarrow> Plan list \<Rightarrow> Condition \<Rightarrow> join_state \<Rightarrow> rmdb_error + Plan \<times> join_state" where
  "first_join k plans c s =
     andthen (pop_scan (tc_tab_name (lhs_col c)) plans s) (\<lambda>(left, s1).
       andthen (pop_scan (tc_tab_name (rhs_col c)) plans s1) (\<lambda>(right, s2).
         if enable_nestedloop_join k then Inr (JoinPlan T_NestLoop left right [c], s2)
         else if enable_sortmerge_join k then Inr (JoinPlan T_SortMerge left right [c], s2)
         else Inl (RMDBError ''No join executor selected!'')))"

definition pop_if_new :: "string \<Rightarrow> Plan list \<Rightarrow> join_state \<Rightarrow> rmdb_error + Plan \<times> join_state" where
  "pop_if_new table plans s = (if table \<notin> set (joined_tables s) then pop_scan table plans s else Inr (NoPlan, s))"

definition next_join :: "Plan list \<Rightarrow> Condition \<Rightarrow> Plan \<times> join_state \<Rightarrow> rmdb_error + Plan \<times> join_state" where
  "next_join plans c = (\<lambda>(plan, s).
     andthen (pop_if_new (tc_tab_name (lhs_col c)) plans s) (\<lambda>(left, s1).
       let isneedreverse = (tc_tab_name (rhs_col c) \<notin> set (joined_tables s1)) in
       andthen (pop_if_new (tc_tab_name (rhs_col c)) plans s1) (\<lambda>(right, s2).
         if left \<noteq> NoPlan \<and> right \<noteq> NoPlan
         then Inr (JoinPlan T_NestLoop (JoinPlan T_NestLoop left right [c]) plan [], s2)
         else if left \<noteq> NoPlan \<or> right \<noteq> NoPlan
         then
           if isneedreverse then Inr (JoinPlan T_NestLoop right plan [swap_cond c], s2)
           else Inr (JoinPlan T_NestLoop left plan [c], s2)
         else Inr (snd (push_conds c plan), s2))))"

fun more_joins :: "Plan list \<Rightarrow> Condition list \<Rightarrow> Plan \<times> join_state \<Rightarrow> rmdb_error + Plan \<times> join_state" where
  "more_joins plans [] ps = Inr ps"
| "more_joins plans (c # conds) ps = andthen (next_join plans c ps) (more_joins plans conds)"

fun join_rest :: "(int \<times> Plan) list \<Rightarrow> Plan \<Rightarrow> Plan" where
  "join_rest [] plan = plan"
| "join_rest ((flag, p) # rest) plan = join_rest rest (if flag = -1 then JoinPlan T_NestLoop p plan [] else plan)"

fun plan_scans :: "DbMeta \<Rightarrow> string list \<Rightarrow> Condition list \<Rightarrow> rmdb_error + Plan list \<times> Condition list" where
  "plan_scans db [] conds = Inr ([], conds)"
| "plan_scans db (t # ts) conds =
     (case pop_conds conds t of
        (curr_conds, conds') \<Rightarrow>
          andthen (plan_scan db t curr_conds) (\<lambda>p.
            andthen (plan_scans db ts conds') (\<lambda>(ps, rest). Inr (p # ps, rest))))"

definition make_one_rel :: "knobs \<Rightarrow> DbMeta \<Rightarrow> Query \<Rightarrow> rmdb_error + Plan" where
  "make_one_rel k db q =
     andthen (plan_scans db (q_tables q) (q_conds q)) (\<lambda>(plans, conds).
       let n = length (q_tables q); s = \<lparr>scantbl = replicate n (-1), joined_tables = replicate n []\<rparr> in
       if n = 1 then Inr (hd plans)
       else if n = 0 then Inl UndefinedBehaviour
       else
         andthen
           (case conds of
              [] \<Rightarrow> Inr (hd plans, s\<lparr>scantbl := (scantbl s)[0 := 1]\<rparr>)
            | c # conds' \<Rightarrow> andthen (first_join k plans c s) (more_joins plans conds'))
           (\<lambda>(plan, s'). Inr (join_rest (zip (scantbl s') plans) plan)))"

section \<open>Statements\<close>

definition all_table_cols :: "DbMeta \<Rightarrow> string list \<Rightarrow> rmdb_error + ColMeta list" where
  "all_table_cols db tables =
     andthen (for_all (\<lambda>t. andthen (get_table db t) (\<lambda>tab. Inr (tm_cols tab))) tables) (\<lambda>css. Inr (concat css))"

fun match_tab :: "ColMeta list \<Rightarrow> string \<Rightarrow> string \<Rightarrow> rmdb_error + string" where
  "match_tab [] col_name matched_tab = Inr matched_tab"
| "match_tab (col # cs) col_name matched_tab =
     (if cm_name col \<noteq> col_name then match_tab cs col_name matched_tab
      else if matched_tab \<noteq> [] then Inl (AmbiguousColumnError col_name)
      else match_tab cs col_name (cm_tab_name col))"

definition resolve_order_col :: "ColMeta list \<Rightarrow> sv_col \<Rightarrow> rmdb_error + TabCol" where
  "resolve_order_col all_cols c =
     (if sc_tab_name c \<noteq> [] then Inr (tab_col c)
      else
        andthen (match_tab all_cols (sc_col_name c) []) (\<lambda>matched_tab.
          if matched_tab = [] then Inl (ColumnNotFoundError (sc_col_name c))
          else Inr ((tab_col c)\<lparr>tc_tab_name := matched_tab\<rparr>)))"

definition generate_sort_plan :: "DbMeta \<Rightarrow> Query \<Rightarrow> select_stmt \<Rightarrow> Plan \<Rightarrow> rmdb_error + Plan" where
  "generate_sort_plan db q x plan =
     (if \<not> has_sort x \<and> \<not> has_limit x then Inr plan
      else
        andthen (all_table_cols db (q_tables q)) (\<lambda>all_cols.
          andthen
            (for_all (\<lambda>ord. andthen (resolve_order_col all_cols (ob_col ord)) (\<lambda>c. Inr \<lparr>sk_col = c, sk_is_desc = (ob_dir ord = OrderBy_DESC)\<rparr>))
              (sel_orders x))
            (\<lambda>keys. Inr (SortPlan plan keys (sel_limit x)))))"

definition physical_optimization :: "knobs \<Rightarrow> DbMeta \<Rightarrow> Query \<Rightarrow> select_stmt \<Rightarrow> rmdb_error + Plan" where
  "physical_optimization k db q x = andthen (make_one_rel k db q) (generate_sort_plan db q x)"

definition generate_select_plan :: "knobs \<Rightarrow> DbMeta \<Rightarrow> Query \<Rightarrow> select_stmt \<Rightarrow> rmdb_error + Plan" where
  "generate_select_plan k db q x =
     andthen (physical_optimization k db q x) (\<lambda>plan.
       Inr (if q_has_aggregate q then AggregatePlan plan (q_aggregates q) (q_cols q) else ProjectionPlan plan (q_cols q)))"

fun interp_sv_type :: "SvType \<Rightarrow> rmdb_error + ColType" where
  "interp_sv_type SV_TYPE_INT = Inr TYPE_INT"
| "interp_sv_type SV_TYPE_BIGINT = Inr TYPE_BIGINT"
| "interp_sv_type SV_TYPE_FLOAT = Inr TYPE_FLOAT"
| "interp_sv_type SV_TYPE_STRING = Inr TYPE_STRING"
| "interp_sv_type SV_TYPE_DATETIME = Inr TYPE_DATETIME"
| "interp_sv_type SV_TYPE_BOOL = Inl OutOfRange"

definition interp_field :: "sv_col_def \<Rightarrow> rmdb_error + ColDef" where
  "interp_field f = andthen (interp_sv_type (cd_type f)) (\<lambda>ty. Inr \<lparr>def_name = cd_col_name f, def_type = ty, def_len = cd_len f\<rparr>)"

definition do_planner :: "knobs \<Rightarrow> DbMeta \<Rightarrow> Query \<Rightarrow> rmdb_error + Plan" where
  "do_planner k db q =
     (case q_parse q of
        CreateTable t fs \<Rightarrow> andthen (for_all interp_field fs) (\<lambda>col_defs. Inr (DDLPlan T_CreateTable t [] col_defs))
      | DropTable t \<Rightarrow> Inr (DDLPlan T_DropTable t [] [])
      | CreateIndex t names \<Rightarrow> Inr (DDLPlan T_CreateIndex t names [])
      | DropIndex t names \<Rightarrow> Inr (DDLPlan T_DropIndex t names [])
      | InsertStmt t _ \<Rightarrow> Inr (DMLPlan T_Insert NoPlan t (q_values q) [] [])
      | DeleteStmt t _ \<Rightarrow> andthen (plan_scan db t (q_conds q)) (\<lambda>scan. Inr (DMLPlan T_Delete scan t [] (q_conds q) []))
      | UpdateStmt t _ _ \<Rightarrow> andthen (plan_scan db t (q_conds q)) (\<lambda>scan. Inr (DMLPlan T_Update scan t [] (q_conds q) (q_set_clauses q)))
      | SelectStmt x \<Rightarrow> andthen (generate_select_plan k db q x) (\<lambda>p. Inr (DMLPlan T_select p [] [] [] []))
      | _ \<Rightarrow> Inl (InternalError ''Unexpected AST root''))"

definition plan_query :: "knobs \<Rightarrow> DbMeta \<Rightarrow> Query \<Rightarrow> rmdb_error + Plan" where
  "plan_query k db q =
     (case q_parse q of
        Help \<Rightarrow> Inr (OtherPlan T_Help [])
      | ShowTables \<Rightarrow> Inr (OtherPlan T_ShowTable [])
      | ShowIndex t \<Rightarrow> Inr (OtherPlan T_ShowIndex t)
      | DescTable t \<Rightarrow> Inr (OtherPlan T_DescTable t)
      | TxnBegin \<Rightarrow> Inr (OtherPlan T_Transaction_begin [])
      | TxnAbort \<Rightarrow> Inr (OtherPlan T_Transaction_abort [])
      | TxnCommit \<Rightarrow> Inr (OtherPlan T_Transaction_commit [])
      | TxnRollback \<Rightarrow> Inr (OtherPlan T_Transaction_rollback [])
      | SetStmt knob b \<Rightarrow> Inr (SetKnobPlan knob b)
      | _ \<Rightarrow> do_planner k db q)"

section \<open>What a plan computes\<close>

text \<open>A row of a query is a record for each of its tables. A condition is evaluated on the fields of its columns.\<close>

definition env_field :: "DbMeta \<Rightarrow> (string \<Rightarrow> bytes) \<Rightarrow> TabCol \<Rightarrow> rmdb_error + bytes \<times> ColType \<times> int" where
  "env_field db env c =
     andthen (table_col db c) (\<lambda>m. Inr (drop (nat (cm_offset m)) (env (tc_tab_name c)), cm_type m, cm_len m))"

definition env_rhs :: "DbMeta \<Rightarrow> (string \<Rightarrow> bytes) \<Rightarrow> Condition \<Rightarrow> rmdb_error + bytes \<times> ColType \<times> int" where
  "env_rhs db env c =
     (if is_rhs_val c
      then
        (case v_raw (rhs_val c) of
           None \<Rightarrow> Inl (InternalError ''Condition raw value is not initialized'')
         | Some raw \<Rightarrow> Inr (raw, val_type (rhs_val c), int (length raw)))
      else env_field db env (rhs_col c))"

definition env_holds :: "DbMeta \<Rightarrow> (string \<Rightarrow> bytes) \<Rightarrow> Condition \<Rightarrow> bool" where
  "env_holds db env c \<longleftrightarrow>
     andthen (env_field db env (lhs_col c)) (\<lambda>(lhs, lhs_type, lhs_len).
       andthen (env_rhs db env c) (\<lambda>(rhs, rhs_type, rhs_len).
         andthen (compare_raw_data lhs lhs_type lhs_len rhs rhs_type rhs_len) (\<lambda>cmp.
           Inr (evaluate_compare_result cmp (cond_op c))))) = Inr True"

fun plan_tables :: "Plan \<Rightarrow> string list" where
  "plan_tables (ScanPlan x) = [sp_tab_name x]"
| "plan_tables (JoinPlan tag l r conds) = plan_tables l @ plan_tables r"
| "plan_tables p = []"

fun accepts :: "DbMeta \<Rightarrow> (string \<Rightarrow> bytes) \<Rightarrow> Plan \<Rightarrow> bool" where
  "accepts db env (ScanPlan x) \<longleftrightarrow> (\<forall>c \<in> set (sp_conds x). env_holds db env c)"
| "accepts db env (JoinPlan tag l r conds) \<longleftrightarrow> accepts db env l \<and> accepts db env r \<and> (\<forall>c \<in> set conds. env_holds db env c)"
| "accepts db env p \<longleftrightarrow> False"

text \<open>Every condition names columns of the rows it is evaluated on.\<close>

fun placed :: "Plan \<Rightarrow> bool" where
  "placed (ScanPlan x) \<longleftrightarrow>
     (\<forall>c \<in> set (sp_conds x). tc_tab_name (lhs_col c) = sp_tab_name x \<and> (is_rhs_val c \<or> tc_tab_name (rhs_col c) = sp_tab_name x))"
| "placed (JoinPlan tag l r conds) \<longleftrightarrow> placed l \<and> placed r \<and>
     (\<forall>c \<in> set conds. \<not> is_rhs_val c \<and> tc_tab_name (lhs_col c) \<in> set (plan_tables l) \<and> tc_tab_name (rhs_col c) \<in> set (plan_tables r))"
| "placed p \<longleftrightarrow> False"

section \<open>Flipping a condition\<close>

lemma cmp3_swap: "cmp3 b a = - cmp3 a b"
  by (simp add: cmp3_def)

lemma memcmp_swap: "memcmp b a n = - memcmp a b n"
  by (induction a b n rule: memcmp.induct) (auto simp: cmp3_def)

lemma compare_strings_swap: "compare_strings b nb a na = - compare_strings a na b nb"
  using memcmp_swap[of b a "min na nb"] by (auto simp: compare_strings_def Let_def min.commute)

lemma ld_less_swap: "ld_less x y \<Longrightarrow> \<not> ld_less y x"
  by (cases x; cases y; simp)

lemma float_less_swap: "float_less u v \<Longrightarrow> \<not> float_less v u"
  by (simp add: float_less_def)

lemma compare_raw_data_swap:
  "compare_raw_data b tb nb a ta na =
     (case compare_raw_data a ta na b tb nb of
        Inl e \<Rightarrow> Inl (IncompatibleTypeError (coltype2str tb) (coltype2str ta))
      | Inr i \<Rightarrow> Inr (- i))"
proof -
  note swaps = cmp3_swap[of "integral_at tb b" "integral_at ta a"] cmp3_swap[of "le_sint (take 8 b)" "le_sint (take 8 a)"]
    cmp3_swap[of "le_sint (take 4 b)" "le_sint (take 4 a)"]
    compare_strings_swap[of b "nat nb" a "nat na"] ld_less_swap[of "number_at ta a" "number_at tb b"]
    float_less_swap[of "le_uint (take 4 a)" "le_uint (take 4 b)"]
  show ?thesis
    by (cases ta; cases tb; use swaps in \<open>simp add: compare_raw_data_def Let_def is_numeric_type_def is_integral_type_def\<close>)
qed

lemma evaluate_swap: "evaluate_compare_result (- i) (swap_op op) = evaluate_compare_result i op"
  by (cases op) auto

lemma env_holds_swap:
  assumes "\<not> is_rhs_val c"
  shows "env_holds db env (swap_cond c) = env_holds db env c"
proof (cases "\<exists>l r. env_field db env (lhs_col c) = Inr l \<and> env_field db env (rhs_col c) = Inr r")
  case True
  then obtain l lt ln r rt rn where "env_field db env (lhs_col c) = Inr (l, lt, ln)" "env_field db env (rhs_col c) = Inr (r, rt, rn)"
    by auto
  then show ?thesis
    using assms compare_raw_data_swap[of r rt rn l lt ln] evaluate_swap
    by (cases "compare_raw_data l lt ln r rt rn") (simp_all add: env_holds_def env_rhs_def swap_cond_def)
next
  case False
  then show ?thesis
    using assms by (cases "env_field db env (lhs_col c)"; cases "env_field db env (rhs_col c)")
      (auto simp: env_holds_def env_rhs_def swap_cond_def)
qed

section \<open>Scans\<close>

definition is_scan_of :: "string \<Rightarrow> Plan \<Rightarrow> bool" where
  "is_scan_of t p \<longleftrightarrow> placed p \<and> plan_tables p = [t] \<and> (\<exists>x. p = ScanPlan x)"

lemma plan_scan_ok:
  assumes "get_table db t = Inr tab" "tm_cols tab \<noteq> []"
    and "\<And>c. c \<in> set conds \<Longrightarrow> tc_tab_name (lhs_col c) = t \<and> (is_rhs_val c \<or> tc_tab_name (rhs_col c) = t)"
  shows "\<exists>p. plan_scan db t conds = Inr p \<and> is_scan_of t p \<and> (\<forall>env. accepts db env p \<longleftrightarrow> (\<forall>c \<in> set conds. env_holds db env c))"
  using assms
  by (auto simp: plan_scan_def get_index_cols_def new_ScanPlan_def is_scan_of_def split: prod.splits)

text \<open>A condition that both compares columns and names one table is popped by the scan of the first table.\<close>

definition cond_ready :: "string list \<Rightarrow> Condition \<Rightarrow> bool" where
  "cond_ready ts c \<longleftrightarrow> tc_tab_name (lhs_col c) \<noteq> [] \<and>
     (if is_rhs_val c then tc_tab_name (lhs_col c) \<in> set ts \<and> tc_tab_name (rhs_col c) = []
      else tc_tab_name (lhs_col c) = tc_tab_name (rhs_col c) \<longrightarrow> (\<exists>t ts'. ts = t # ts' \<and> tc_tab_name (lhs_col c) = t))"

definition join_cond :: "Condition \<Rightarrow> bool" where
  "join_cond c \<longleftrightarrow> \<not> is_rhs_val c \<and> tc_tab_name (lhs_col c) \<noteq> tc_tab_name (rhs_col c)"

lemma plan_scans_ok:
  assumes "\<And>t. t \<in> set ts \<Longrightarrow> \<exists>tab. get_table db t = Inr tab \<and> tm_cols tab \<noteq> []" "\<And>c. c \<in> set conds \<Longrightarrow> cond_ready ts c"
  shows "\<exists>ps. plan_scans db ts conds = Inr (ps, filter join_cond conds) \<and> list_all2 is_scan_of ts ps \<and>
    (\<forall>env. (\<forall>c \<in> set conds. env_holds db env c) \<longleftrightarrow>
       (\<forall>p \<in> set ps. accepts db env p) \<and> (\<forall>c \<in> set (filter join_cond conds). env_holds db env c))"
  using assms
proof (induction ts arbitrary: conds)
  case Nil
  have "join_cond c" if "c \<in> set conds" for c using Nil(2)[OF that] by (auto simp: cond_ready_def join_cond_def split: if_splits)
  then have "filter join_cond conds = conds" by (simp add: filter_True)
  then show ?case by simp
next
  case (Cons t ts)
  let ?pop = "filter (pops t) conds" and ?rest = "filter (\<lambda>c. \<not> pops t c) conds"
  have popped: "tc_tab_name (lhs_col c) = t \<and> (is_rhs_val c \<or> tc_tab_name (rhs_col c) = t)" if "c \<in> set ?pop" for c
    using that Cons.prems(2)[of c] by (auto simp: cond_ready_def pops_def split: if_splits)
  obtain tab where "get_table db t = Inr tab" "tm_cols tab \<noteq> []" using Cons.prems(1) by auto
  from plan_scan_ok[OF this popped] obtain p where
    p: "plan_scan db t ?pop = Inr p" "is_scan_of t p" "\<And>env. accepts db env p \<longleftrightarrow> (\<forall>c \<in> set ?pop. env_holds db env c)" by blast
  have "cond_ready ts c" if "c \<in> set ?rest" for c
    using that Cons.prems(2)[of c] by (auto simp: cond_ready_def pops_def split: if_splits)
  then obtain ps where ps: "plan_scans db ts ?rest = Inr (ps, filter join_cond ?rest)" "list_all2 is_scan_of ts ps"
    "\<And>env. (\<forall>c \<in> set ?rest. env_holds db env c) \<longleftrightarrow>
       (\<forall>p \<in> set ps. accepts db env p) \<and> (\<forall>c \<in> set (filter join_cond ?rest). env_holds db env c)"
    using Cons.IH[of ?rest] Cons.prems(1) by auto
  have f: "\<not> pops t c \<and> join_cond c \<longleftrightarrow> join_cond c" for c by (auto simp: join_cond_def pops_def)
  have "(\<forall>c \<in> set conds. env_holds db env c) \<longleftrightarrow> (\<forall>c \<in> set ?pop. env_holds db env c) \<and> (\<forall>c \<in> set ?rest. env_holds db env c)" for env
    by auto
  then show ?case using p ps by (intro exI[of _ "p # ps"]) (simp add: pop_conds_def f)
qed

section \<open>Joins\<close>

lemma push_conds_ok:
  assumes "placed p" "join_cond c" "distinct (plan_tables p)"
  shows "fst (push_conds c p) = (if tc_tab_name (lhs_col c) \<in> set (plan_tables p)
           then if tc_tab_name (rhs_col c) \<in> set (plan_tables p) then 3 else 1
           else if tc_tab_name (rhs_col c) \<in> set (plan_tables p) then 2 else 0) \<and>
         placed (snd (push_conds c p)) \<and> plan_tables (snd (push_conds c p)) = plan_tables p \<and>
         (fst (push_conds c p) \<noteq> 3 \<longrightarrow> snd (push_conds c p) = p) \<and>
         (fst (push_conds c p) = 3 \<longrightarrow> (\<forall>env. accepts db env (snd (push_conds c p)) \<longleftrightarrow> accepts db env p \<and> env_holds db env c))"
  using assms
proof (induction p)
  case (JoinPlan tag l r conds)
  let ?a = "tc_tab_name (lhs_col c)" and ?b = "tc_tab_name (rhs_col c)"
  have c: "\<not> is_rhs_val c" "?a \<noteq> ?b" using JoinPlan.prems(2) by (simp_all add: join_cond_def)
  have swap: "env_holds db env (swap_cond c) = env_holds db env c" "\<not> is_rhs_val (swap_cond c)" "tc_tab_name (lhs_col (swap_cond c)) = ?b"
    "tc_tab_name (rhs_col (swap_cond c)) = ?a" for env
    using c(1) by (simp_all add: env_holds_swap) (simp_all add: swap_cond_def)
  have pl: "placed l" "placed r" "distinct (plan_tables l)" "distinct (plan_tables r)"
    and ne: "\<not> (?a \<in> set (plan_tables l) \<and> ?a \<in> set (plan_tables r))" "\<not> (?b \<in> set (plan_tables l) \<and> ?b \<in> set (plan_tables r))"
    and pc: "\<forall>c \<in> set conds. \<not> is_rhs_val c \<and> tc_tab_name (lhs_col c) \<in> set (plan_tables l) \<and> tc_tab_name (rhs_col c) \<in> set (plan_tables r)"
    using JoinPlan.prems(1,3) by auto
  obtain lr l' where l: "push_conds c l = (lr, l')" by (cases "push_conds c l")
  obtain rr r' where r: "push_conds c r = (rr, r')" by (cases "push_conds c r")
  note IH = JoinPlan.IH(1)[OF pl(1) JoinPlan.prems(2) pl(3), unfolded l fst_conv snd_conv]
    JoinPlan.IH(2)[OF pl(2) JoinPlan.prems(2) pl(4), unfolded r fst_conv snd_conv]
  show ?case
    by (cases "?a \<in> set (plan_tables l)"; cases "?a \<in> set (plan_tables r)"; cases "?b \<in> set (plan_tables l)"; cases "?b \<in> set (plan_tables r)";
      use IH ne pl pc c swap in \<open>simp add: l r\<close>) blast+
qed (auto simp: join_cond_def)

text \<open>The scans of the tables, each known by the name of its table.\<close>

definition joined :: "string list \<Rightarrow> string list \<Rightarrow> join_state" where
  "joined tables js = \<lparr>scantbl = map (\<lambda>t. if t \<in> set js then 1 else -1) tables, joined_tables = replicate (length tables) [] @ js\<rparr>"

lemma scan_position_ok:
  assumes "distinct tables" "\<And>t. t \<in> set tables \<Longrightarrow> is_scan_of t (sc t)" "i < length tables"
  shows "scan_position (tables ! i) (map sc tables) n = Inr (Some (n + i, sc (tables ! i)))"
  using assms
proof (induction tables arbitrary: i n)
  case (Cons t tables)
  obtain x where x: "sc t = ScanPlan x" "sp_tab_name x = t" using Cons.prems(2)[of t] by (auto simp: is_scan_of_def)
  show ?case
  proof (cases i)
    case (Suc j)
    then have "scan_position (tables ! j) (map sc tables) (Suc n) = Inr (Some (Suc n + j, sc (tables ! j)))"
      by (intro Cons.IH) (use Cons.prems in auto)
    then show ?thesis using x Suc Cons.prems by auto
  qed (simp add: x)
qed simp

lemma pop_scan_ok:
  assumes "distinct tables" "\<And>t. t \<in> set tables \<Longrightarrow> is_scan_of t (sc t)" "t \<in> set tables"
  shows "pop_scan t (map sc tables) (joined tables js) = Inr (sc t, joined tables (js @ [t]))"
proof -
  obtain i where i: "i < length tables" "tables ! i = t" using assms(3) by (auto simp: in_set_conv_nth)
  have "(map (\<lambda>t. if t \<in> set js then 1 else -1) tables)[i := 1] = map (\<lambda>u. if u \<in> set (js @ [t]) then (1::int) else -1) tables"
    using i assms(1) by (intro nth_equalityI) (auto simp: nth_list_update nth_eq_iff_index_eq)
  then show ?thesis using scan_position_ok[OF assms(1,2) i(1), of 0] i(2) by (simp add: pop_scan_def joined_def)
qed

text \<open>The joins made so far: the plan, the tables in it and the conditions it checks.\<close>

definition join_inv :: "DbMeta \<Rightarrow> string list \<Rightarrow> (string \<Rightarrow> Plan) \<Rightarrow> Condition set \<Rightarrow> Plan \<times> join_state \<Rightarrow> bool" where
  "join_inv db tables sc C ps \<longleftrightarrow>
     (\<exists>js. snd ps = joined tables js \<and> set js \<subseteq> set tables \<and> mset js = mset (plan_tables (fst ps)) \<and> distinct js \<and> placed (fst ps) \<and>
        (\<forall>env. accepts db env (fst ps) \<longleftrightarrow> (\<forall>t \<in> set js. accepts db env (sc t)) \<and> (\<forall>c \<in> C. env_holds db env c)))"

lemma first_join_ok:
  assumes t: "distinct tables" "\<And>t. t \<in> set tables \<Longrightarrow> is_scan_of t (sc t)"
    and c: "join_cond c" "tc_tab_name (lhs_col c) \<in> set tables" "tc_tab_name (rhs_col c) \<in> set tables"
    and k: "enable_nestedloop_join k \<or> enable_sortmerge_join k"
  shows "\<exists>ps. first_join k (map sc tables) c (joined tables []) = Inr ps \<and> join_inv db tables sc {c} ps"
proof -
  let ?a = "tc_tab_name (lhs_col c)" and ?b = "tc_tab_name (rhs_col c)"
  let ?p = "\<lambda>tag. JoinPlan tag (sc ?a) (sc ?b) [c]"
  have "join_inv db tables sc {c} (?p tag, joined tables [?a, ?b])" for tag
    unfolding join_inv_def using c t(2)[OF c(2)] t(2)[OF c(3)]
    by (intro exI[of _ "[?a, ?b]"]) (auto simp: is_scan_of_def join_cond_def)
  then show ?thesis
    using k pop_scan_ok[where sc = sc, OF t c(2), of "[]"] pop_scan_ok[where sc = sc, OF t c(3), of "[?a]"]
    by (auto simp: first_join_def)
qed

lemma pop_if_new_ok:
  assumes "distinct tables" "\<And>t. t \<in> set tables \<Longrightarrow> is_scan_of t (sc t)" "t \<in> set tables" "[] \<notin> set tables"
  shows "pop_if_new t (map sc tables) (joined tables js) =
    Inr (if t \<in> set js then (NoPlan, joined tables js) else (sc t, joined tables (js @ [t])))"
  using pop_scan_ok[where sc = sc, OF assms(1-3)] assms(3,4) by (auto simp: pop_if_new_def joined_def)

lemma next_join_ok:
  assumes t: "distinct tables" "\<And>t. t \<in> set tables \<Longrightarrow> is_scan_of t (sc t)" "[] \<notin> set tables"
    and c: "join_cond c" "tc_tab_name (lhs_col c) \<in> set tables" "tc_tab_name (rhs_col c) \<in> set tables"
    and inv: "join_inv db tables sc C ps"
  shows "\<exists>ps'. next_join (map sc tables) c ps = Inr ps' \<and> join_inv db tables sc (insert c C) ps'"
proof -
  let ?a = "tc_tab_name (lhs_col c)" and ?b = "tc_tab_name (rhs_col c)"
  have ab: "?a \<noteq> ?b" "\<not> is_rhs_val c" using c(1) by (simp_all add: join_cond_def)
  obtain p js where ps: "ps = (p, joined tables js)" "set js \<subseteq> set tables" "mset js = mset (plan_tables p)" "distinct js" "placed p"
    "\<And>env. accepts db env p \<longleftrightarrow> (\<forall>t \<in> set js. accepts db env (sc t)) \<and> (\<forall>c \<in> C. env_holds db env c)"
    using inv unfolding join_inv_def by (metis prod.collapse)
  have set_js: "set js = set (plan_tables p)" using ps(3) by (rule mset_eq_setD)
  have sa: "sc ?a \<noteq> NoPlan" "placed (sc ?a)" "plan_tables (sc ?a) = [?a]" using t(2)[OF c(2)] by (auto simp: is_scan_of_def)
  have sb: "sc ?b \<noteq> NoPlan" "placed (sc ?b)" "plan_tables (sc ?b) = [?b]" using t(2)[OF c(3)] by (auto simp: is_scan_of_def)
  note pops = pop_if_new_ok[where sc = sc, OF t(1,2) c(2) t(3)] pop_if_new_ok[where sc = sc, OF t(1,2) c(3) t(3)]
  have seen: "u \<in> set (joined_tables (joined tables ks)) \<longleftrightarrow> u \<in> set ks" if "u \<noteq> []" for u ks
    using that by (auto simp: joined_def)
  have ne: "?a \<noteq> []" "?b \<noteq> []" using c(2,3) t(3) by auto
  have swap: "env_holds db env (swap_cond c) = env_holds db env c" "\<not> is_rhs_val (swap_cond c)" "tc_tab_name (lhs_col (swap_cond c)) = ?b"
    "tc_tab_name (rhs_col (swap_cond c)) = ?a" for env
    using ab(2) by (simp_all add: env_holds_swap) (simp_all add: swap_cond_def)
  consider (both) "?a \<notin> set js" "?b \<notin> set js" | (left) "?a \<notin> set js" "?b \<in> set js" | (right) "?a \<in> set js" "?b \<notin> set js"
    | (none) "?a \<in> set js" "?b \<in> set js" by blast
  then show ?thesis
  proof cases
    case both
    have "join_inv db tables sc (insert c C) (JoinPlan T_NestLoop (JoinPlan T_NestLoop (sc ?a) (sc ?b) [c]) p [], joined tables (js @ [?a, ?b]))"
      unfolding join_inv_def using both ab ps c sa sb by (intro exI[of _ "js @ [?a, ?b]"]) auto
    then show ?thesis using both pops ab sa(1) sb(1) by (auto simp: next_join_def ps(1) Let_def)
  next
    case left
    have "join_inv db tables sc (insert c C) (JoinPlan T_NestLoop (sc ?a) p [c], joined tables (js @ [?a]))"
      unfolding join_inv_def using left ab ps c sa set_js by (intro exI[of _ "js @ [?a]"]) auto
    then show ?thesis using left pops ab sa(1) seen[OF ne(2)] by (auto simp: next_join_def ps(1) Let_def)
  next
    case right
    have "join_inv db tables sc (insert c C) (JoinPlan T_NestLoop (sc ?b) p [swap_cond c], joined tables (js @ [?b]))"
      unfolding join_inv_def using right ab ps c sb set_js swap by (intro exI[of _ "js @ [?b]"]) auto
    then show ?thesis using right pops ab sb(1) seen[OF ne(2)] by (auto simp: next_join_def ps(1) Let_def)
  next
    case none
    have d: "distinct (plan_tables p)" using ps(3,4) by (metis mset_eq_imp_distinct_iff)
    note push = push_conds_ok[OF ps(5) c(1) d, of db]
    have "join_inv db tables sc (insert c C) (snd (push_conds c p), joined tables js)"
      unfolding join_inv_def using none push ps set_js by (intro exI[of _ js]) auto
    then show ?thesis using none pops by (auto simp: next_join_def ps(1) Let_def)
  qed
qed

lemma more_joins_ok:
  assumes "distinct tables" "\<And>t. t \<in> set tables \<Longrightarrow> is_scan_of t (sc t)" "[] \<notin> set tables"
    and "\<And>c. c \<in> set conds \<Longrightarrow> join_cond c \<and> tc_tab_name (lhs_col c) \<in> set tables \<and> tc_tab_name (rhs_col c) \<in> set tables"
    and "join_inv db tables sc C ps"
  shows "\<exists>ps'. more_joins (map sc tables) conds ps = Inr ps' \<and> join_inv db tables sc (C \<union> set conds) ps'"
  using assms(4,5)
proof (induction conds arbitrary: C ps)
  case (Cons c conds)
  have c: "join_cond c" "tc_tab_name (lhs_col c) \<in> set tables" "tc_tab_name (rhs_col c) \<in> set tables" using Cons.prems(1)[of c] by auto
  obtain ps1 where ps1: "next_join (map sc tables) c ps = Inr ps1" "join_inv db tables sc (insert c C) ps1"
    using next_join_ok[where sc = sc, OF assms(1-3) c Cons.prems(2)] by blast
  from Cons.IH[OF Cons.prems(1) ps1(2)] show ?case using ps1(1) by auto
qed simp

lemma join_rest_ok:
  assumes "\<And>t. t \<in> set ts \<Longrightarrow> is_scan_of t (sc t)" "placed p"
  shows "placed (join_rest (zip (map (\<lambda>t. if t \<in> J then 1 else -1) ts) (map sc ts)) p) \<and>
    mset (plan_tables (join_rest (zip (map (\<lambda>t. if t \<in> J then 1 else -1) ts) (map sc ts)) p)) =
      mset (filter (\<lambda>t. t \<notin> J) ts) + mset (plan_tables p) \<and>
    (\<forall>env. accepts db env (join_rest (zip (map (\<lambda>t. if t \<in> J then 1 else -1) ts) (map sc ts)) p) \<longleftrightarrow>
       (\<forall>t \<in> set ts - J. accepts db env (sc t)) \<and> accepts db env p)"
  using assms
proof (induction ts arbitrary: p)
  case (Cons t ts)
  have sc: "placed (sc t)" "plan_tables (sc t) = [t]" using Cons.prems(1)[of t] by (auto simp: is_scan_of_def)
  have IH: "placed q \<Longrightarrow> ?case" if "q = (if t \<in> J then p else JoinPlan T_NestLoop (sc t) p [])" for q
    using Cons.IH[of q] Cons.prems(1) sc that by (cases "t \<in> J") auto
  show ?case by (rule IH[OF refl]) (use sc Cons.prems(2) in simp)
qed simp

section \<open>From the analysis to the plan\<close>

lemma check_cond_rhs: "check_cond db all cond = Inr cond' \<Longrightarrow> is_rhs_val cond \<Longrightarrow> rhs_col cond' = rhs_col cond"
  by (auto simp: check_cond_def andthen_Inr check_types_Inr)

lemma clause_of_val: "clause_of e = Inr c \<Longrightarrow> is_rhs_val c \<Longrightarrow> rhs_col c = no_col"
  by (auto simp: clause_of_def andthen_Inr split: sv_expr.splits)

lemma analyzed_conds:
  assumes "catalog_ok db" "analyze_select db x = Inr q" "c \<in> set (q_conds q)"
  shows "tc_tab_name (lhs_col c) \<in> set (sel_tabs x)" "is_rhs_val c \<Longrightarrow> rhs_col c = no_col"
    "\<not> is_rhs_val c \<Longrightarrow> tc_tab_name (rhs_col c) \<in> set (sel_tabs x)"
proof -
  obtain conds all where a: "get_clause (sel_conds x) = Inr conds" "get_all_cols db (sel_tabs x) = Inr all"
    "list_all2 (\<lambda>d c. check_cond db all d = Inr c) conds (q_conds q)"
    using assms(2) by (auto simp: analyze_select_def andthen_Inr check_clause_def for_all_Inr new_Query_def)
  obtain d where d: "d \<in> set conds" "check_cond db all d = Inr c" using list_all2_in2[OF a(3) assms(3)] by blast
  obtain e where e: "clause_of e = Inr d" using list_all2_in2[OF a(1)[unfolded get_clause_def for_all_Inr] d(1)] by blast
  have "tc_tab_name (lhs_col c) \<in> set (sel_tabs x) \<and> (is_rhs_val c \<longrightarrow> rhs_col c = no_col) \<and>
    (\<not> is_rhs_val c \<longrightarrow> tc_tab_name (rhs_col c) \<in> set (sel_tabs x))"
  proof (cases "is_rhs_val d")
    case True
    then show ?thesis
      using check_cond_val[OF d(2) True] check_column_ok[OF assms(1) a(2)] check_cond_rhs[OF d(2) True] clause_of_val[OF e True] by auto
  next
    case False
    then show ?thesis using check_cond_col[OF d(2) False] check_column_ok[OF assms(1) a(2)] by auto
  qed
  then show "tc_tab_name (lhs_col c) \<in> set (sel_tabs x)" "is_rhs_val c \<Longrightarrow> rhs_col c = no_col"
    "\<not> is_rhs_val c \<Longrightarrow> tc_tab_name (rhs_col c) \<in> set (sel_tabs x)" by auto
qed

lemma list_all2_in1: "list_all2 P xs ys \<Longrightarrow> x \<in> set xs \<Longrightarrow> \<exists>y. P x y"
  by (induction rule: list_all2_induct) auto

lemma analyzed_tables:
  assumes "catalog_ok db" "analyze_select db x = Inr q"
  shows "q_tables q = sel_tabs x" "t \<in> set (sel_tabs x) \<Longrightarrow> \<exists>tab. get_table db t = Inr tab" "[] \<notin> set (sel_tabs x)"
proof -
  show q: "q_tables q = sel_tabs x" using assms(2) by (auto simp: analyze_select_def andthen_Inr new_Query_def)
  obtain tabs where tabs: "list_all2 (\<lambda>t tab. get_table db t = Inr tab) (sel_tabs x) tabs"
    using assms(2) by (auto simp: analyze_select_def andthen_Inr for_all_Inr)
  show ex: "t \<in> set (sel_tabs x) \<Longrightarrow> \<exists>tab. get_table db t = Inr tab" for t
    by (rule list_all2_in1[OF tabs])
  then show "[] \<notin> set (sel_tabs x)" using get_table_catalog(1)[OF assms(1)] by blast
qed

lemma mset_filter_split: "mset xs = mset (filter (\<lambda>x. \<not> P x) xs) + mset (filter P xs)"
  by (induction xs) simp_all

lemma list_all2_scans:
  assumes "list_all2 is_scan_of ts ps" "distinct ts"
  obtains sc where "ps = map sc ts" "\<And>t. t \<in> set ts \<Longrightarrow> is_scan_of t (sc t)"
proof
  let ?sc = "the \<circ> map_of (zip ts ps)"
  have len: "length ts = length ps" using assms(1) by (rule list_all2_lengthD)
  have nth: "?sc (ts ! i) = ps ! i" if "i < length ts" for i using that assms(2) len by (simp add: map_of_zip_nth)
  show "ps = map ?sc ts" using len nth by (intro nth_equalityI) simp_all
  show "is_scan_of t (?sc t)" if "t \<in> set ts" for t
    using that nth assms(1) by (metis in_set_conv_nth list_all2_nthD)
qed

text \<open>The joins of two or more scans.\<close>

lemma joins_ok:
  assumes t: "distinct tables" "\<And>t. t \<in> set tables \<Longrightarrow> is_scan_of t (sc t)" "[] \<notin> set tables" "tables \<noteq> []"
    and conds: "\<And>c. c \<in> set conds \<Longrightarrow> join_cond c \<and> tc_tab_name (lhs_col c) \<in> set tables \<and> tc_tab_name (rhs_col c) \<in> set tables"
    and k: "enable_nestedloop_join k \<or> enable_sortmerge_join k"
  obtains pl J where
    "(case conds of
        [] \<Rightarrow> Inr (hd (map sc tables), (joined tables [])\<lparr>scantbl := (scantbl (joined tables []))[0 := 1]\<rparr>)
      | c # conds' \<Rightarrow> andthen (first_join k (map sc tables) c (joined tables [])) (more_joins (map sc tables) conds')) = Inr pl"
    "scantbl (snd pl) = map (\<lambda>t. if t \<in> J then 1 else -1) tables" "J \<subseteq> set tables"
    "mset (plan_tables (fst pl)) = mset (filter (\<lambda>t. t \<in> J) tables)" "placed (fst pl)"
    "\<And>env. accepts db env (fst pl) \<longleftrightarrow> (\<forall>t \<in> J. accepts db env (sc t)) \<and> (\<forall>c \<in> set conds. env_holds db env c)"
proof (cases conds)
  case Nil
  obtain u us where ts: "tables = u # us" using t(4) by (cases tables) auto
  have "is_scan_of u (sc u)" "u \<notin> set us" "filter (\<lambda>t. t = u) us = []" using t(1,2) ts by (auto simp: filter_empty_conv)
  then show ?thesis
    using ts Nil by (intro that[of "(sc u, (joined tables [])\<lparr>scantbl := (scantbl (joined tables []))[0 := 1]\<rparr>)" "{u}"])
      (auto simp: joined_def is_scan_of_def)
next
  case (Cons c conds')
  have c: "join_cond c" "tc_tab_name (lhs_col c) \<in> set tables" "tc_tab_name (rhs_col c) \<in> set tables" using conds[of c] Cons by auto
  have cs: "join_cond d \<and> tc_tab_name (lhs_col d) \<in> set tables \<and> tc_tab_name (rhs_col d) \<in> set tables" if "d \<in> set conds'" for d
    using conds[of d] Cons that by simp
  obtain ps1 where ps1: "first_join k (map sc tables) c (joined tables []) = Inr ps1" "join_inv db tables sc {c} ps1"
    using first_join_ok[where sc = sc, OF t(1,2) c k] by blast
  obtain ps where ps: "more_joins (map sc tables) conds' ps1 = Inr ps" "join_inv db tables sc ({c} \<union> set conds') ps"
    using more_joins_ok[where sc = sc, OF t(1-3) cs ps1(2)] by blast
  obtain js where js: "snd ps = joined tables js" "set js \<subseteq> set tables" "mset js = mset (plan_tables (fst ps))" "distinct js" "placed (fst ps)"
    "\<forall>env. accepts db env (fst ps) \<longleftrightarrow> (\<forall>t \<in> set js. accepts db env (sc t)) \<and> (\<forall>c \<in> {c} \<union> set conds'. env_holds db env c)"
    using ps(2) unfolding join_inv_def by blast
  have "mset js = mset (filter (\<lambda>t. t \<in> set js) tables)"
    using js(2,4) t(1) by (subst set_eq_iff_mset_eq_distinct[symmetric]) auto
  then show ?thesis
    using ps(1) ps1(1) js Cons by (intro that[of ps "set js"]) (simp_all add: joined_def)
qed


text \<open>\<open>SELECT * FROM t, u WHERE id < 5 AND k = id\<close>, with the join condition written the other way round.\<close>

definition plan_catalog :: DbMeta where
  "plan_catalog = demo_db\<lparr>db_tabs := [(''t'', demo_tab), (''u'', \<lparr>tm_name = ''u'', tm_cols =
     [\<lparr>cm_tab_name = ''u'', cm_name = ''k'', cm_type = TYPE_INT, cm_len = 4, cm_offset = 0, cm_index = False\<rparr>,
      \<lparr>cm_tab_name = ''u'', cm_name = ''n'', cm_type = TYPE_INT, cm_len = 4, cm_offset = 4, cm_index = False\<rparr>], tm_indexes = []\<rparr>)]\<rparr>"

definition plan_stmt :: select_stmt where
  "plan_stmt = \<lparr>sel_cols = [], sel_aggs = [], sel_tabs = [''t'', ''u''],
     sel_conds = [\<lparr>be_lhs = \<lparr>sc_tab_name = [], sc_col_name = ''id''\<rparr>, be_op = SV_OP_LT, be_rhs = ValueExpr (IntLit 5)\<rparr>,
       \<lparr>be_lhs = \<lparr>sc_tab_name = [], sc_col_name = ''k''\<rparr>, be_op = SV_OP_EQ, be_rhs = ColExpr \<lparr>sc_tab_name = [], sc_col_name = ''id''\<rparr>\<rparr>],
     sel_orders = [], sel_limit = -1\<rparr>"

definition plan_query_demo :: Query where
  "plan_query_demo = (case do_analyze plan_catalog (SelectStmt plan_stmt) of Inr q \<Rightarrow> q | Inl _ \<Rightarrow> new_Query Help)"


section \<open>Comparisons within another table\<close>

text \<open>Property C38: a comparison of two columns of a table that is not the first one is handed to the scan of the first table,
  where its evaluation on any record fails because the columns are not found.\<close>

theorem same_table_cond_misplaced:
  assumes "catalog_ok db" "do_analyze db (SelectStmt x) = Inr q" "sel_tabs x = t # ts" "get_table db t = Inr tab" "tm_cols tab \<noteq> []"
    and "c \<in> set (q_conds q)" "\<not> is_rhs_val c" "tc_tab_name (lhs_col c) = tc_tab_name (rhs_col c)" "tc_tab_name (lhs_col c) \<noteq> t"
  shows "\<exists>s. plan_scan db t (fst (pop_conds (q_conds q) t)) = Inr (ScanPlan s) \<and> c \<in> set (sp_conds s) \<and>
    condition_holds rec (sp_cols s) c = Inl (ColumnNotFoundError (tc_tab_name (lhs_col c) @ ''.'' @ tc_col_name (lhs_col c)))"
proof -
  have "find (\<lambda>col. cm_tab_name col = tc_tab_name (lhs_col c) \<and> cm_name col = tc_col_name (lhs_col c)) (tm_cols tab) = None"
    using get_table_catalog(2)[OF assms(1,4)] assms(9) by (auto simp: find_None_iff)
  then have "condition_holds rec (tm_cols tab) c = Inl (ColumnNotFoundError (tc_tab_name (lhs_col c) @ ''.'' @ tc_col_name (lhs_col c)))"
    by (simp add: condition_holds_def find_col_meta_def)
  then show ?thesis
    using assms(4-8)
    by (auto simp: pop_conds_def pops_def plan_scan_def get_index_cols_def new_ScanPlan_def split: prod.splits)
qed

definition misplaced_stmt :: select_stmt where
  "misplaced_stmt = plan_stmt\<lparr>sel_conds := [\<lparr>be_lhs = \<lparr>sc_tab_name = ''u'', sc_col_name = ''k''\<rparr>, be_op = SV_OP_EQ,
     be_rhs = ColExpr \<lparr>sc_tab_name = ''u'', sc_col_name = ''n''\<rparr>\<rparr>]\<rparr>"

definition misplaced_query :: Query where
  "misplaced_query = (case do_analyze plan_catalog (SelectStmt misplaced_stmt) of Inr q \<Rightarrow> q | Inl _ \<Rightarrow> new_Query Help)"

theorem same_table_cond_misplaced_witness:
  "\<exists>s. plan_scan plan_catalog ''t'' (fst (pop_conds (q_conds misplaced_query) ''t'')) = Inr (ScanPlan s) \<and>
     condition_holds [] (sp_cols s) (hd (q_conds misplaced_query)) = Inl (ColumnNotFoundError ''u.k'')"
proof -
  let ?c = "hd (q_conds misplaced_query)"
  have 1: "catalog_ok plan_catalog" "do_analyze plan_catalog (SelectStmt misplaced_stmt) = Inr misplaced_query"
    "sel_tabs misplaced_stmt = ''t'' # [''u'']" "get_table plan_catalog ''t'' = Inr demo_tab" "tm_cols demo_tab \<noteq> []" by code_simp+
  have 2: "?c \<in> set (q_conds misplaced_query)" "\<not> is_rhs_val ?c" "tc_tab_name (lhs_col ?c) = tc_tab_name (rhs_col ?c)"
    "tc_tab_name (lhs_col ?c) \<noteq> ''t''" by code_simp+
  have 3: "tc_tab_name (lhs_col ?c) @ ''.'' @ tc_col_name (lhs_col ?c) = ''u.k''" by code_simp
  show ?thesis using same_table_cond_misplaced[OF 1 2, of "[]", unfolded 3] by blast
qed

end
