(* ===== verification/IxTreeInv.thy ===== *)
theory IxTreeInv
  imports IxTree
begin

text \<open>
  The invariant of the B+ tree, and search. A tree is a stack of levels, the list of the leaves
  first and the list of the root alone last; each level lists the pages of the level below as its
  children, in order. The separator of a page is the first key on it, except for the leftmost page
  of a level, whose separator is never looked at. The entries of the index are the pairs of the
  leaves from left to right.
\<close>

section \<open>Levels\<close>

type_synonym nodes = "page_id_t \<rightharpoonup> ix_node"

abbreviation prs :: "nodes \<Rightarrow> page_id_t \<Rightarrow> (bytes \<times> Rid) list" where
  "prs N p \<equiv> nd_pairs (the (N p))"

abbreviation par :: "nodes \<Rightarrow> page_id_t \<Rightarrow> page_id_t" where
  "par N p \<equiv> nd_parent (the (N p))"

abbreviation isleaf :: "nodes \<Rightarrow> page_id_t \<Rightarrow> bool" where
  "isleaf N p \<equiv> nd_is_leaf (the (N p))"

definition pg :: "bytes \<times> Rid \<Rightarrow> page_id_t" where
  "pg kv = rid_page_no (snd kv)"

definition key0 :: "nodes \<Rightarrow> page_id_t \<Rightarrow> bytes" where
  "key0 N p = fst (hd (prs N p))"

definition flat :: "nodes \<Rightarrow> page_id_t list \<Rightarrow> (bytes \<times> Rid) list" where
  "flat N ps = concat (map (prs N) ps)"

definition chs :: "nodes \<Rightarrow> page_id_t list \<Rightarrow> page_id_t list" where
  "chs N qs = map pg (flat N qs)"

text \<open>The level \<open>qs\<close> holds the pages \<open>ps\<close>, with separators \<open>K\<close>.\<close>

definition linked :: "(page_id_t \<Rightarrow> bytes) \<Rightarrow> nodes \<Rightarrow> page_id_t list \<Rightarrow> page_id_t list \<Rightarrow> bool" where
  "linked K N qs ps \<longleftrightarrow> chs N qs = ps \<and>
     (\<forall>q \<in> set qs. \<not> isleaf N q \<and> prs N q \<noteq> [] \<and>
       (\<forall>kv \<in> set (prs N q). par N (pg kv) = q \<and> (pg kv \<noteq> hd ps \<longrightarrow> fst kv = K (pg kv))))"

fun stacked :: "(page_id_t \<Rightarrow> bytes) \<Rightarrow> nodes \<Rightarrow> page_id_t \<Rightarrow> page_id_t list \<Rightarrow> page_id_t list list \<Rightarrow> bool" where
  "stacked K N r ps [] \<longleftrightarrow> ps = [r] \<and> par N r = IX_NO_PAGE"
| "stacked K N r ps (qs # Us) \<longleftrightarrow> linked K N qs ps \<and> stacked (key0 N) N r qs Us"

text \<open>How many pairs a node has: the root may have few, the others have at least \<open>mn\<close>.\<close>

definition size_ok :: "nat \<Rightarrow> nat \<Rightarrow> ix_node \<Rightarrow> bool" where
  "size_ok mn mx n \<longleftrightarrow> length (nd_pairs n) < mx \<and>
     (if nd_parent n = IX_NO_PAGE then nd_is_leaf n \<or> 2 \<le> length (nd_pairs n) else mn \<le> length (nd_pairs n))"

text \<open>The leaves and the list header page form a ring.\<close>

definition ring :: "nodes \<Rightarrow> page_id_t list \<Rightarrow> bool" where
  "ring N ps \<longleftrightarrow> successively (\<lambda>a b. nd_next_leaf (the (N a)) = b \<and> nd_prev_leaf (the (N b)) = a)
     (IX_LEAF_HEADER_PAGE # ps @ [IX_LEAF_HEADER_PAGE])"

definition pages_ok :: "nodes \<Rightarrow> page_id_t \<Rightarrow> page_id_t list \<Rightarrow> bool" where
  "pages_ok N m ps \<longleftrightarrow> distinct ps \<and> (\<forall>p \<in> set ps. p \<in> dom N \<and> 2 \<le> p \<and> p < m)"

definition tree_inv ::
  "(bytes \<Rightarrow> 'r :: linorder) \<Rightarrow> (bytes \<Rightarrow> bool) \<Rightarrow> ix_state \<Rightarrow> page_id_t list \<Rightarrow> page_id_t list list \<Rightarrow> bool" where
  "tree_inv rank ok s ps Us \<longleftrightarrow>
     (let N = ix_nodes s; h = ix_hdr s; mx = nat (get_max_size h) in
      stacked (key0 N) N (root_page h) ps Us \<and> pages_ok N (ix_next_page s) (ps @ concat Us) \<and> 2 < ix_next_page s \<and>
      (\<forall>p \<in> set (ps @ concat Us). size_ok (mx div 2) mx (the (N p))) \<and>
      (\<forall>p \<in> set ps. isleaf N p) \<and> ordered_by rank (flat N ps) \<and> (\<forall>kv \<in> set (flat N ps). ok (fst kv)) \<and>
      IX_LEAF_HEADER_PAGE \<in> dom N \<and> ring N ps \<and> first_leaf h = hd ps \<and> last_leaf h = last ps)"

section \<open>Facts about levels\<close>

lemma pages_okD: "pages_ok N m ps \<Longrightarrow> p \<in> set ps \<Longrightarrow> p \<in> dom N \<and> 0 \<le> p \<and> 2 \<le> p \<and> p < m"
  by (auto simp: pages_ok_def)

lemma pages_ok_mono: "pages_ok N m ps \<Longrightarrow> dom N \<subseteq> dom N' \<Longrightarrow> m \<le> m' \<Longrightarrow> pages_ok N' m' ps"
  by (fastforce simp: pages_ok_def)

lemma pages_ok_append:
  "pages_ok N m (ps @ qs) \<longleftrightarrow> pages_ok N m ps \<and> pages_ok N m qs \<and> set ps \<inter> set qs = {}"
  by (auto simp: pages_ok_def)

lemma pages_ok_Cons: "pages_ok N m (p # ps) \<longleftrightarrow> p \<notin> set ps \<and> p \<in> dom N \<and> 2 \<le> p \<and> p < m \<and> pages_ok N m ps"
  by (auto simp: pages_ok_def)

lemma flat_simps [simp]: "flat N [] = []" "flat N (p # ps) = prs N p @ flat N ps" "flat N (ps @ qs) = flat N ps @ flat N qs"
  by (simp_all add: flat_def)

lemma chs_simps [simp]: "chs N [] = []" "chs N (p # ps) = map pg (prs N p) @ chs N ps" "chs N (ps @ qs) = chs N ps @ chs N qs"
  by (simp_all add: chs_def)

lemma flat_cong: "(\<And>p. p \<in> set ps \<Longrightarrow> prs N' p = prs N p) \<Longrightarrow> flat N' ps = flat N ps"
  by (induction ps) auto

lemma chs_cong: "(\<And>p. p \<in> set ps \<Longrightarrow> prs N' p = prs N p) \<Longrightarrow> chs N' ps = chs N ps"
  by (simp add: chs_def cong: flat_cong)

lemma distinct_not_hd: "distinct (A @ B) \<Longrightarrow> A \<noteq> [] \<Longrightarrow> b \<in> set B \<Longrightarrow> b \<noteq> hd (A @ B)"
  by (cases A) auto

lemma linkedD:
  assumes "linked K N qs ps" "q \<in> set qs"
  shows "\<not> isleaf N q" "prs N q \<noteq> []" "kv \<in> set (prs N q) \<Longrightarrow> par N (pg kv) = q"
    "kv \<in> set (prs N q) \<Longrightarrow> pg kv \<in> set ps" "kv \<in> set (prs N q) \<Longrightarrow> pg kv \<noteq> hd ps \<Longrightarrow> fst kv = K (pg kv)"
proof -
  note l = assms(1)[unfolded linked_def]
  show "\<not> isleaf N q" "prs N q \<noteq> []" using l assms(2) by blast+
  assume kv: "kv \<in> set (prs N q)"
  show "par N (pg kv) = q" "pg kv \<noteq> hd ps \<Longrightarrow> fst kv = K (pg kv)" using l assms(2) kv by blast+
  have "kv \<in> set (flat N qs)" using assms(2) kv by (auto simp: flat_def)
  then show "pg kv \<in> set ps" using l by (auto simp: chs_def)
qed

lemma linked_chs: "linked K N qs ps \<Longrightarrow> chs N qs = ps"
  by (simp add: linked_def)

lemma linked_nonempty: "linked K N qs ps \<Longrightarrow> qs \<noteq> [] \<Longrightarrow> ps \<noteq> []"
  by (cases qs) (auto simp: linked_def)

lemma stacked_nonempty: "stacked K N r ps Us \<Longrightarrow> ps \<noteq> []"
proof (induction Us arbitrary: K ps)
  case (Cons qs Us)
  then have "qs \<noteq> []" "linked K N qs ps" by auto
  then show ?case by (metis linked_nonempty)
qed simp

lemma linked_cong:
  assumes "linked K N qs ps" "\<And>q. q \<in> set qs \<Longrightarrow> prs N' q = prs N q \<and> isleaf N' q = isleaf N q"
    "\<And>p. p \<in> set ps \<Longrightarrow> par N' p = par N p \<and> (p \<noteq> hd ps \<longrightarrow> K' p = K p)"
  shows "linked K' N' qs ps"
  using assms linkedD[OF assms(1)] chs_cong[of qs N' N] unfolding linked_def by metis

text \<open>A page of the lower level has one place in the upper one.\<close>

lemma linked_place:
  assumes "linked K N qs ps" "p \<in> set ps"
  shows "\<exists>C q D X kv Y. qs = C @ q # D \<and> prs N q = X @ kv # Y \<and> pg kv = p \<and> par N p = q \<and>
    ps = chs N C @ map pg X @ p # map pg Y @ chs N D"
proof -
  obtain q kv where q: "q \<in> set qs" "kv \<in> set (prs N q)" "pg kv = p"
    using assms by (auto simp: linked_def chs_def flat_def)
  then obtain C D X Y where s: "qs = C @ q # D" "prs N q = X @ kv # Y" by (meson split_list)
  have "ps = chs N C @ map pg X @ p # map pg Y @ chs N D" using linked_chs[OF assms(1)] s q(3) by simp
  with s q linkedD(3)[OF assms(1) q(1,2)] show ?thesis by blast
qed

lemma find_child_at:
  assumes "nd_pairs n = X @ kv # Y" "pg kv \<notin> set (map pg X)"
  shows "find_child (pg kv) n = Inr (length X)"
proof -
  have "child_index (pg kv) (X @ kv # Y) = length X" using assms(2) by (induction X) (auto simp: pg_def)
  then show ?thesis by (simp add: find_child_def Let_def assms(1) get_size_def)
qed

text \<open>The separators in a node are the first keys of its children, apart from the leftmost page.\<close>

lemma linked_keys:
  assumes l: "linked K N qs ps" and d: "distinct ps" and q: "q \<in> set qs"
  shows "map fst (tl (prs N q)) = map K (map pg (tl (prs N q)))"
    "q \<noteq> hd qs \<Longrightarrow> map fst (prs N q) = map K (map pg (prs N q))"
proof -
  obtain C D where qs: "qs = C @ q # D" using q by (meson split_list)
  obtain a as where a: "prs N q = a # as" using linkedD(2)[OF l q] by (cases "prs N q") auto
  have ps: "ps = chs N C @ map pg (a # as) @ chs N D" using linked_chs[OF l] qs a by simp
  have "pg b \<noteq> hd ps" if "b \<in> set as" for b
    using distinct_not_hd[of "chs N C @ [pg a]" "map pg as @ chs N D" "pg b"] d that by (simp add: ps)
  then show "map fst (tl (prs N q)) = map K (map pg (tl (prs N q)))"
    using linkedD(5)[OF l q] a by auto
  show "map fst (prs N q) = map K (map pg (prs N q))" if "q \<noteq> hd qs"
  proof -
    have "C \<noteq> []" using that qs by auto
    then obtain c C' where C: "C = c # C'" by (cases C) auto
    have "prs N c \<noteq> []" using linkedD(2)[OF l, of c] qs C by auto
    then have "chs N C \<noteq> []" using C by simp
    then have "pg b \<noteq> hd ps" if "b \<in> set (prs N q)" for b
      using distinct_not_hd[of "chs N C" "map pg (prs N q) @ chs N D" "pg b"] d that by (auto simp: ps a)
    then show ?thesis using linkedD(5)[OF l q] by auto
  qed
qed

section \<open>Search\<close>

text \<open>The page of a level in which a key belongs.\<close>

definition covers :: "(bytes \<Rightarrow> 'r :: linorder) \<Rightarrow> nodes \<Rightarrow> page_id_t list \<Rightarrow> bytes \<Rightarrow> page_id_t \<Rightarrow> bool" where
  "covers rank N ps x p \<longleftrightarrow> (\<exists>A B. ps = A @ p # B \<and> (A \<noteq> [] \<longrightarrow> rank (key0 N p) \<le> rank x) \<and>
     (B \<noteq> [] \<longrightarrow> rank x < rank (key0 N (hd B))))"

definition in_order :: "(bytes \<Rightarrow> 'r :: linorder) \<Rightarrow> (bytes \<Rightarrow> bool) \<Rightarrow> nodes \<Rightarrow> page_id_t list \<Rightarrow> bool" where
  "in_order rank ok N ps \<longleftrightarrow>
     sorted_wrt (\<lambda>p p'. rank (key0 N p) < rank (key0 N p')) (tl ps) \<and> (\<forall>p \<in> set (tl ps). ok (key0 N p))"

lemma in_order_up:
  assumes l: "linked (key0 N) N qs ps" and d: "distinct ps" "distinct qs" and o: "in_order rank ok N ps"
  shows "in_order rank ok N qs"
    "q \<in> set qs \<Longrightarrow> ordered_by rank (tl (prs N q)) \<and> (\<forall>kv \<in> set (tl (prs N q)). ok (fst kv))"
proof -
  let ?lt = "\<lambda>p p'. rank (key0 N p) < rank (key0 N p')"
  have fst_key: "key0 N q = key0 N (hd (map pg (prs N q)))" if "q \<in> set (tl qs)" for q
  proof -
    have q: "q \<in> set qs" "q \<noteq> hd qs" using that d(2) by (cases qs; auto)+
    then show ?thesis using linked_keys(2)[OF l d(1) q] linkedD(2)[OF l q(1)] by (cases "prs N q") (auto simp: key0_def)
  qed
  have sub: "sorted_wrt ?lt (map (\<lambda>q. hd (map pg (prs N q))) rs) \<and> (\<forall>q \<in> set rs. ok (key0 N (hd (map pg (prs N q)))))"
    if "sorted_wrt ?lt (chs N rs)" "\<forall>p \<in> set (chs N rs). ok (key0 N p)" "\<forall>q \<in> set rs. prs N q \<noteq> []" for rs
    using that
  proof (induction rs)
    case (Cons r rs)
    obtain a as where a: "prs N r = a # as" using Cons.prems(3) by (cases "prs N r") auto
    have "hd (map pg (prs N q)) \<in> set (chs N rs)" if "q \<in> set rs" for q
      using that Cons.prems(3) by (fastforce simp: chs_def flat_def hd_map intro: hd_in_set)
    with Cons a show ?case by (auto simp: sorted_wrt_append)
  qed simp
  show "in_order rank ok N qs"
  proof (cases qs)
    case (Cons r rs)
    have "prs N r \<noteq> []" using linkedD(2)[OF l] Cons by simp
    then have "tl ps = tl (map pg (prs N r)) @ chs N rs" using linked_chs[OF l] Cons by auto
    then have "sorted_wrt ?lt (chs N rs)" "\<forall>p \<in> set (chs N rs). ok (key0 N p)"
      using o by (auto simp: in_order_def sorted_wrt_append)
    then have "sorted_wrt ?lt (map (\<lambda>q. hd (map pg (prs N q))) rs) \<and> (\<forall>q \<in> set rs. ok (key0 N (hd (map pg (prs N q)))))"
      using sub linkedD(2)[OF l] Cons by simp
    moreover have "sorted_wrt ?lt rs" if "sorted_wrt ?lt (map (\<lambda>q. hd (map pg (prs N q))) rs)"
      using that unfolding sorted_wrt_map by (rule sorted_wrt_mono_rel[rotated]) (use fst_key Cons in auto)
    ultimately show ?thesis using fst_key Cons by (simp add: in_order_def)
  qed (simp add: in_order_def)
  show "ordered_by rank (tl (prs N q)) \<and> (\<forall>kv \<in> set (tl (prs N q)). ok (fst kv))" if "q \<in> set qs"
  proof -
    obtain C D where qs: "qs = C @ q # D" using \<open>q \<in> set qs\<close> by (meson split_list)
    obtain a as where a: "prs N q = a # as" using linkedD(2)[OF l \<open>q \<in> set qs\<close>] by (cases "prs N q") auto
    have ps: "ps = chs N C @ pg a # map pg as @ chs N D" using linked_chs[OF l] qs a by simp
    then have s: "sorted_wrt ?lt (map pg as)" "\<forall>p \<in> set (map pg as). ok (key0 N p)"
      using o by (cases "chs N C"; auto simp: in_order_def sorted_wrt_append)+
    have k: "map fst as = map (key0 N) (map pg as)" using linked_keys(1)[OF l d(1) \<open>q \<in> set qs\<close>] a by simp
    then have kk: "fst kv = key0 N (pg kv)" if "kv \<in> set as" for kv using that by auto
    have "sorted_wrt (\<lambda>x y. rank (fst x) < rank (fst y)) as"
      using s(1) unfolding sorted_wrt_map by (rule sorted_wrt_mono_rel[rotated]) (auto simp: kk)
    then show ?thesis using s(2) a kk by (auto simp: ordered_by_def)
  qed
qed

lemma in_order_leaves:
  assumes "ordered_by rank (flat N ps)" "\<forall>kv \<in> set (flat N ps). ok (fst kv)" "\<forall>p \<in> set (tl ps). prs N p \<noteq> []"
  shows "in_order rank ok N ps"
proof -
  have "sorted_wrt (\<lambda>p p'. rank (key0 N p) < rank (key0 N p')) rs \<and> (\<forall>p \<in> set rs. ok (key0 N p))"
    if "ordered_by rank (flat N rs)" "\<forall>kv \<in> set (flat N rs). ok (fst kv)" "\<forall>p \<in> set rs. prs N p \<noteq> []" for rs
    using that
  proof (induction rs)
    case (Cons r rs)
    have "hd (prs N p) \<in> set (flat N rs)" if "p \<in> set rs" for p
      using that Cons.prems(3) hd_in_set[of "prs N p"] unfolding flat_def by fastforce
    moreover have "hd (prs N r) \<in> set (prs N r)" using Cons.prems(3) by simp
    ultimately show ?case using Cons by (auto simp: ordered_append key0_def)
  qed simp
  from this[of "tl ps"] assms show ?thesis by (cases ps) (auto simp: in_order_def ordered_append)
qed

lemma covers_down:
  assumes l: "linked (key0 N) N qs ps" and d: "distinct ps" and c: "covers rank N qs x q"
    and o: "ordered_by rank (tl (prs N q))"
  shows "covers rank N ps x (pg (prs N q ! child_pos rank x (prs N q)))"
proof -
  obtain C D where qs: "qs = C @ q # D" and lo: "C \<noteq> [] \<longrightarrow> rank (key0 N q) \<le> rank x"
    and hi: "D \<noteq> [] \<longrightarrow> rank x < rank (key0 N (hd D))" using c by (auto simp: covers_def)
  let ?kvs = "prs N q" and ?i = "child_pos rank x (prs N q)"
  have q: "q \<in> set qs" using qs by simp
  have ne: "?kvs \<noteq> []" using linkedD(2)[OF l q] .
  have i: "?i < length ?kvs" by (rule child_pos_less[OF ne])
  let ?p = "pg (?kvs ! ?i)" and ?A = "chs N C @ map pg (take ?i ?kvs)" and ?B = "map pg (drop (Suc ?i) ?kvs) @ chs N D"
  have ps: "ps = ?A @ ?p # ?B"
    using linked_chs[OF l] qs arg_cong[OF id_take_nth_drop[OF i], of "map pg"] by simp
  have key_i: "fst (?kvs ! j) = key0 N (pg (?kvs ! j))" if "j < length ?kvs" "pg (?kvs ! j) \<noteq> hd ps" for j
    using linkedD(5)[OF l q, of "?kvs ! j"] that by simp
  have notin_B: "b \<noteq> hd ps" if "b \<in> set ?B" for b
    using distinct_not_hd[of "?A @ [?p]" ?B b] d ps that by simp
  have lower: "rank (key0 N ?p) \<le> rank x" if "?A \<noteq> []"
  proof -
    have nh: "?p \<noteq> hd ps" using distinct_not_hd[OF d[unfolded ps] that, of ?p] ps by simp
    show ?thesis
    proof (cases "?i = 0")
      case True
      then have "C \<noteq> []" using that by auto
      then show ?thesis using lo key_i[OF i nh] True ne by (simp add: key0_def hd_conv_nth)
    next
      case False
      then show ?thesis using child_pos_nth[OF o, of ?i x] i key_i[OF i nh] by simp
    qed
  qed
  have upper: "rank x < rank (key0 N (hd ?B))" if "?B \<noteq> []"
  proof (cases "Suc ?i < length ?kvs")
    case True
    then have hdB: "hd ?B = pg (?kvs ! Suc ?i)" by (simp add: hd_append hd_map hd_drop_conv_nth)
    have "pg (?kvs ! Suc ?i) \<noteq> hd ps" using notin_B[OF hd_in_set[OF that]] hdB by simp
    then show ?thesis using child_pos_nth[OF o, of "Suc ?i" x] True key_i[OF True] hdB by simp
  next
    case False
    then have "drop (Suc ?i) ?kvs = []" by simp
    then have "chs N D \<noteq> []" using that by simp
    then obtain e D' where D: "D = e # D'" by (cases D) auto
    have e: "e \<in> set qs" using D qs by simp
    obtain a as where a: "prs N e = a # as" using linkedD(2)[OF l e] by (cases "prs N e") auto
    have "hd ?B = pg a" using \<open>drop (Suc ?i) ?kvs = []\<close> D a by simp
    moreover have "pg a \<noteq> hd ps" by (rule notin_B) (simp add: D a)
    ultimately show ?thesis using hi D a linkedD(5)[OF l e, of a] by (simp add: key0_def)
  qed
  show ?thesis unfolding covers_def using ps lower upper by blast
qed


lemma fetch_node_ok [simp]: "p \<in> dom (ix_nodes s) \<Longrightarrow> 0 \<le> p \<Longrightarrow> fetch_node p s = (Inr p, s)"
  by (auto simp: fetch_node_def)

lemma ask_node_apply [simp]: "ask_node p f s = (f (ix_hdr s) (node_at s p), s)"
  by (simp add: ask_node_def)

lemma stacked_distinct_up: "distinct (ps @ concat (qs # Us)) \<Longrightarrow> distinct (qs @ concat Us)"
  by simp

context key_order
begin

lemma descend_ok:
  assumes h: "hdr_for types lens (ix_hdr s)" and x: "ok x" and N: "N = ix_nodes s"
  shows "stacked (key0 N) N r ps Us \<Longrightarrow> pages_ok N m (ps @ concat Us) \<Longrightarrow> in_order rank ok N ps \<Longrightarrow> length Us \<le> fuel \<Longrightarrow>
    \<exists>p. covers rank N ps x p \<and> descend fuel x False r s = descend (fuel - length Us) x False p s"
proof (induction Us arbitrary: ps)
  case Nil
  then show ?case by (intro exI[of _ r]) (auto simp: covers_def)
next
  case (Cons qs Us)
  have l: "linked (key0 N) N qs ps" and st: "stacked (key0 N) N r qs Us" using Cons.prems(1) by auto
  have d: "distinct ps" "distinct qs" and pq: "pages_ok N m (qs @ concat Us)" using Cons.prems(2) by (auto simp: pages_ok_def)
  note up = in_order_up[OF l d Cons.prems(3)]
  obtain q where c: "covers rank N qs x q" and e: "descend fuel x False r s = descend (fuel - length Us) x False q s"
    using Cons.IH[OF st pq up(1)] Cons.prems(4) by auto
  let ?p = "pg (prs N q ! child_pos rank x (prs N q))"
  have q: "q \<in> set qs" using c by (auto simp: covers_def)
  have cp: "covers rank N ps x ?p" by (rule covers_down[OF l d(1) c]) (use up(2)[OF q] in blast)
  then have "?p \<in> set ps" by (auto simp: covers_def)
  then have p: "?p \<in> dom N" "0 \<le> ?p" using pages_okD[OF Cons.prems(2), of ?p] by simp_all
  obtain f where f: "fuel - length Us = Suc f" "fuel - length (qs # Us) = f"
    using Cons.prems(4) by (metis diff_Suc_Suc Suc_diff_le length_Cons)
  have "internal_lookup (ix_hdr s) (the (N q)) x = Inr ?p"
    using internal_lookup_child[OF h _ _ x linkedD(2)[OF l q]] up(2)[OF q] by (simp add: value_at_def get_rid_def pg_def)
  then have "descend (Suc f) x False q s = descend f x False ?p s"
    using linkedD(1)[OF l q] p by (subst descend.simps) (simp add: N bindE_def)
  then have "descend fuel x False r s = descend (fuel - length (qs # Us)) x False ?p s" using e f by simp
  then show ?case using cp by blast
qed

text \<open>In the leaf that covers a key, the key is where it is in the whole list of entries.\<close>

lemma flat_split_key:
  assumes "ordered_by rank (flat N ps)" "covers rank N ps x p" "\<forall>p \<in> set (tl ps). prs N p \<noteq> []" "distinct ps"
  shows "\<exists>A B. ps = A @ p # B \<and> (A \<noteq> [] \<longrightarrow> rank (key0 N p) \<le> rank x) \<and>
    (\<forall>kv \<in> set (flat N A). rank (fst kv) < rank x) \<and> (\<forall>kv \<in> set (flat N B). rank x < rank (fst kv))"
proof -
  obtain A B where ps: "ps = A @ p # B" and lo: "A \<noteq> [] \<longrightarrow> rank (key0 N p) \<le> rank x"
    and hi: "B \<noteq> [] \<longrightarrow> rank x < rank (key0 N (hd B))" using assms(2) by (auto simp: covers_def)
  have o: "ordered_by rank (flat N A @ prs N p @ flat N B)" using assms(1) ps by simp
  have "rank (fst kv) < rank x" if "kv \<in> set (flat N A)" for kv
  proof -
    have A: "A \<noteq> []" using that by auto
    then have "prs N p \<noteq> []" using assms(3) ps by (cases A) auto
    then have "rank (fst kv) < rank (key0 N p)" using o that by (auto simp: ordered_append key0_def)
    then show ?thesis using lo A by simp
  qed
  moreover have "rank x < rank (fst kv)" if kv: "kv \<in> set (flat N B)" for kv
  proof -
    obtain b B' where B: "B = b # B'" using kv by (cases B) auto
    have "prs N b \<noteq> []" using assms(3) ps B by (cases A) auto
    then obtain a as where a: "prs N b = a # as" by (cases "prs N b") auto
    have "rank (key0 N b) \<le> rank (fst kv)"
      using o kv B a by (auto simp: ordered_append ordered_Cons key0_def intro: less_imp_le)
    then show ?thesis using hi B by simp
  qed
  ultimately show ?thesis using ps lo by blast
qed

end

lemma lookup_by_part:
  assumes "\<forall>kv \<in> set xs. rank (fst kv) < rank x" "\<forall>kv \<in> set ys. rank x < rank (fst kv)"
  shows "lookup_by rank x (xs @ kvs @ ys) = lookup_by rank x kvs"
    "insert_by rank x v (xs @ kvs @ ys) = xs @ insert_by rank x v kvs @ ys"
    "delete_by rank x (xs @ kvs @ ys) = xs @ delete_by rank x kvs @ ys"
proof -
  have f: "filter (\<lambda>kv. rank (fst kv) < rank x) xs = xs" "filter (\<lambda>kv. rank (fst kv) < rank x) ys = []"
    "filter (\<lambda>kv. rank x < rank (fst kv)) xs = []" "filter (\<lambda>kv. rank x < rank (fst kv)) ys = ys"
    "filter (\<lambda>kv. rank (fst kv) \<noteq> rank x) xs = xs" "filter (\<lambda>kv. rank (fst kv) \<noteq> rank x) ys = ys"
    "filter (\<lambda>kv. rank (fst kv) = rank x) xs = []" "filter (\<lambda>kv. rank (fst kv) = rank x) ys = []"
    using assms by (fastforce simp: filter_id_conv filter_empty_conv)+
  then show "insert_by rank x v (xs @ kvs @ ys) = xs @ insert_by rank x v kvs @ ys"
    "delete_by rank x (xs @ kvs @ ys) = xs @ delete_by rank x kvs @ ys" by (simp_all add: insert_by_def delete_by_def)
  show "lookup_by rank x (xs @ kvs @ ys) = lookup_by rank x kvs" using f by (simp add: lookup_by_def find_filter)
qed

section \<open>The whole tree\<close>

lemma stacked_last: "stacked K N r ps Us \<Longrightarrow> last (ps # Us) = [r] \<and> par N r = IX_NO_PAGE"
  by (induction Us arbitrary: K ps) auto

lemma stacked_root_in: "stacked K N r ps Us \<Longrightarrow> r \<in> set (ps @ concat Us) \<and> (Us \<noteq> [] \<longrightarrow> r \<in> set (concat Us))"
proof (induction Us arbitrary: K ps)
  case (Cons qs Us)
  then show ?case using Cons.IH[of "key0 N" qs] by auto
qed auto

lemma stacked_root:
  assumes "stacked K N r ps Us" "\<forall>p \<in> set (ps @ concat Us). 0 \<le> p" "p \<in> set (ps @ concat Us)"
  shows "(par N p = IX_NO_PAGE) = (p = r)"
  using assms
proof (induction Us arbitrary: K ps)
  case (Cons qs Us)
  have r: "r \<in> set (qs @ concat Us)" "par N r = IX_NO_PAGE"
    using stacked_last[of "key0 N" N r qs Us] stacked_root_in[of "key0 N" N r qs Us] Cons.prems(1) by auto
  show ?case
  proof (cases "p \<in> set (qs @ concat Us)")
    case True
    then show ?thesis using Cons.IH[of "key0 N" qs] Cons.prems by auto
  next
    case False
    then have p: "p \<in> set ps" using Cons.prems(3) by auto
    obtain q where "q \<in> set qs" "par N p = q" using linked_place[of K N qs ps p] Cons.prems(1) p by auto
    moreover have "\<forall>q \<in> set qs. 0 \<le> q" using Cons.prems(2) by simp
    ultimately show ?thesis using False r(1) by force
  qed
qed auto

lemma stacked_height:
  assumes "stacked K N r ps Us" "\<forall>p \<in> set (concat Us). 2 \<le> length (prs N p)"
  shows "2 ^ length Us \<le> length ps"
  using assms
proof (induction Us arbitrary: K ps)
  case (Cons qs Us)
  have "2 ^ length Us \<le> length qs" using Cons by auto
  moreover have "length ps = (\<Sum>q \<leftarrow> qs. length (prs N q))"
    using Cons.prems(1) by (auto simp: linked_def chs_def flat_def length_concat comp_def)
  moreover have "2 * length rs \<le> (\<Sum>q \<leftarrow> rs. length (prs N q))" if "\<forall>q \<in> set rs. 2 \<le> length (prs N q)" for rs
    using that by (induction rs) auto
  ultimately show ?case using Cons.prems(2) by fastforce
qed auto

text \<open>The parts of the invariant.\<close>

lemma tree_invD:
  assumes "tree_inv rank ok s ps Us"
  shows "stacked (key0 (ix_nodes s)) (ix_nodes s) (root_page (ix_hdr s)) ps Us"
    "pages_ok (ix_nodes s) (ix_next_page s) (ps @ concat Us)" "2 < ix_next_page s"
    "p \<in> set (ps @ concat Us) \<Longrightarrow> size_ok (nat (get_max_size (ix_hdr s)) div 2) (nat (get_max_size (ix_hdr s))) (node_at s p)"
    "p \<in> set ps \<Longrightarrow> isleaf (ix_nodes s) p" "ordered_by rank (flat (ix_nodes s) ps)"
    "\<forall>kv \<in> set (flat (ix_nodes s) ps). ok (fst kv)" "IX_LEAF_HEADER_PAGE \<in> dom (ix_nodes s)" "ring (ix_nodes s) ps"
    "first_leaf (ix_hdr s) = hd ps" "last_leaf (ix_hdr s) = last ps"
  using assms by (simp_all add: tree_inv_def Let_def)

lemma hdr_for_max: "hdr_for types lens h \<Longrightarrow> 4 \<le> nat (get_max_size h) \<and> 2 \<le> nat (get_max_size h) div 2"
  by (auto simp: hdr_for_def get_max_size_def)

lemma tree_inv_sizes:
  assumes t: "tree_inv rank ok s ps Us" and h: "hdr_for types lens (ix_hdr s)"
  shows "p \<in> set (concat Us) \<Longrightarrow> 2 \<le> length (prs (ix_nodes s) p)"
    "p \<in> set ps \<Longrightarrow> Us \<noteq> [] \<Longrightarrow> 2 \<le> length (prs (ix_nodes s) p)"
    "p \<in> set (ps @ concat Us) \<Longrightarrow> int (length (prs (ix_nodes s) p)) < get_max_size (ix_hdr s)"
proof -
  note d = tree_invD[OF t]
  let ?N = "ix_nodes s"
  note mx = hdr_for_max[OF h]
  have nn: "\<forall>p \<in> set (ps @ concat Us). 0 \<le> p" using pages_okD[OF d(2)] by blast
  have nl: "\<not> isleaf ?N p" if "p \<in> set (concat Us)" "stacked K ?N r ls Us" for K p r ls Us
    using that
  proof (induction Us arbitrary: K ls)
    case (Cons qs Us)
    then show ?case using linkedD(1)[of K ?N qs ls p] by auto
  qed simp
  show "2 \<le> length (prs ?N p)" if "p \<in> set (concat Us)"
    using d(4)[of p] that nl[OF that d(1)] mx by (auto simp: size_ok_def split: if_splits)
  show "2 \<le> length (prs ?N p)" if p: "p \<in> set ps" "Us \<noteq> []"
  proof -
    have "root_page (ix_hdr s) \<in> set (concat Us)" using stacked_root_in[OF d(1)] p(2) by simp
    then have "p \<noteq> root_page (ix_hdr s)" using p d(2) by (auto simp: pages_ok_def)
    then have "par ?N p \<noteq> IX_NO_PAGE" using stacked_root[OF d(1) nn, of p] p by simp
    then show ?thesis using d(4)[of p] p mx by (auto simp: size_ok_def split: if_splits)
  qed
  show "int (length (prs ?N p)) < get_max_size (ix_hdr s)" if "p \<in> set (ps @ concat Us)"
    using d(4)[OF that] mx by (auto simp: size_ok_def)
qed

lemma tree_inv_height:
  assumes t: "tree_inv rank ok s ps Us" and h: "hdr_for types lens (ix_hdr s)"
  shows "length Us \<le> length (flat (ix_nodes s) ps)"
proof (cases "Us = []")
  case False
  have "2 ^ length Us \<le> length ps"
    by (rule stacked_height[OF tree_invD(1)[OF t]]) (use tree_inv_sizes(1)[OF t h] in blast)
  moreover have "length rs \<le> length (flat N rs)" if "\<forall>p \<in> set rs. 2 \<le> length (prs N p)" for rs N
    using that by (induction rs) auto
  then have "length ps \<le> length (flat (ix_nodes s) ps)" using tree_inv_sizes(2)[OF t h _ False] by blast
  ultimately show ?thesis using less_exp[of "length Us"] by linarith
qed simp

context key_order
begin

lemma tree_inv_nonempty:
  assumes t: "tree_inv rank ok s ps Us" and h: "hdr_for types lens (ix_hdr s)"
  shows "\<forall>p \<in> set (tl ps). prs (ix_nodes s) p \<noteq> []"
proof (cases "Us = []")
  case True
  then show ?thesis using tree_invD(1)[OF t] by simp
next
  case False
  then show ?thesis using tree_inv_sizes(2)[OF t h _ False] by (metis list.set_sel(2) list.size(3) not_numeral_le_zero tl_Nil)
qed

lemma find_leaf_page_ok:
  assumes t: "tree_inv rank ok s ps Us" and h: "hdr_for types lens (ix_hdr s)" and x: "ok x" and f: "length Us \<le> fuel"
  shows "\<exists>A p B. find_leaf_page fuel x False s = (Inr p, s) \<and> ps = A @ p # B \<and> (A \<noteq> [] \<longrightarrow> rank (key0 (ix_nodes s) p) \<le> rank x) \<and>
    (\<forall>kv \<in> set (flat (ix_nodes s) A). rank (fst kv) < rank x) \<and> (\<forall>kv \<in> set (flat (ix_nodes s) B). rank x < rank (fst kv))"
proof -
  let ?N = "ix_nodes s" and ?r = "root_page (ix_hdr s)"
  note d = tree_invD[OF t]
  have "in_order rank ok ?N ps" by (rule in_order_leaves[OF d(6,7) tree_inv_nonempty[OF t h]])
  then obtain p where p: "covers rank ?N ps x p" "descend fuel x False ?r s = descend (fuel - length Us) x False p s"
    using descend_ok[OF h x refl d(1,2) _ f] by blast
  have "p \<in> set ps" using p(1) by (auto simp: covers_def)
  then have l: "isleaf ?N p" by (rule d(5))
  have r: "?r \<in> set (ps @ concat Us)"
    using stacked_root_in[OF d(1)] by auto
  have "find_leaf_page fuel x False s = descend fuel x False ?r s"
    using pages_okD[OF d(2) r] by (simp add: find_leaf_page_def bindE_def)
  also have "\<dots> = (Inr p, s)" unfolding p(2) using l by (subst descend.simps) simp
  finally have "find_leaf_page fuel x False s = (Inr p, s)" .
  moreover have "distinct ps" using d(2) by (simp add: pages_ok_def)
  ultimately show ?thesis using flat_split_key[OF d(6) p(1) tree_inv_nonempty[OF t h]] by blast
qed

lemma get_value_ok:
  assumes t: "tree_inv rank ok s ps Us" and h: "hdr_for types lens (ix_hdr s)" and x: "ok x" and f: "length Us \<le> fuel"
  shows "get_value fuel x s = (Inr (lookup_by rank x (flat (ix_nodes s) ps)), s)"
proof -
  let ?N = "ix_nodes s"
  note d = tree_invD[OF t]
  obtain A p B where p: "find_leaf_page fuel x False s = (Inr p, s)" "ps = A @ p # B"
    "\<forall>kv \<in> set (flat ?N A). rank (fst kv) < rank x" "\<forall>kv \<in> set (flat ?N B). rank x < rank (fst kv)"
    using find_leaf_page_ok[OF assms] by blast
  have "leaf_lookup (ix_hdr s) (node_at s p) x = lookup_by rank x (prs ?N p)"
    by (rule leaf_lookup_lookup[OF h _ _ x]) (use d(6,7) p(2) in \<open>auto simp: ordered_append\<close>)
  also have "\<dots> = lookup_by rank x (flat ?N ps)" unfolding p(2) using lookup_by_part(1)[OF p(3,4)] by simp
  finally show ?thesis using p(1) by (simp add: get_value_def bindE_def)
qed

end

end
