(* ===== verification/IxTreeInsert.thy ===== *)
theory IxTreeInsert
  imports IxTreeInv
begin

text \<open>
  Insertion into the B+ tree: a split keeps a level and its children linked, the new page is
  passed to the level above, and the entries afterwards are those before with the new pair at its
  place.
\<close>

section \<open>Running the steps\<close>

lemma edit_node_apply [simp]: "edit_node p f s = (Inr (), s\<lparr>ix_nodes := (ix_nodes s)(p \<mapsto> f (node_at s p))\<rparr>)"
  by (simp add: edit_node_def set_node_def)

lemma update_root_apply [simp]: "update_root_page_no r s = (Inr (), s\<lparr>ix_hdr := (ix_hdr s)\<lparr>root_page := r\<rparr>\<rparr>)"
  by (simp add: update_root_page_no_def)

lemma call_insert_pairs:
  assumes "pos \<le> length (nd_pairs (node_at s p))" "int (length (nd_pairs (node_at s p)) + length kvs) \<le> get_max_size (ix_hdr s)"
  shows "call_node p (\<lambda>h. insert_pairs h pos kvs) s = (Inr (), s\<lparr>ix_nodes := (ix_nodes s)(p \<mapsto>
    (node_at s p)\<lparr>nd_pairs := take pos (nd_pairs (node_at s p)) @ kvs @ drop pos (nd_pairs (node_at s p))\<rparr>)\<rparr>)"
  using assms by (simp add: call_node_def insert_pairs_def get_size_def set_node_def)

lemma create_node_apply:
  "create_node s = (Inr (ix_next_page s), s\<lparr>ix_hdr := (ix_hdr s)\<lparr>ix_num_pages := ix_num_pages (ix_hdr s) + 1\<rparr>,
     ix_next_page := ix_next_page s + 1, ix_nodes := (ix_nodes s)(ix_next_page s \<mapsto> zero_node)\<rparr>)"
  by (simp add: create_node_def set_node_def Let_def)

text \<open>Giving pages a new parent.\<close>

definition reparent :: "page_id_t \<Rightarrow> page_id_t list \<Rightarrow> nodes \<Rightarrow> nodes" where
  "reparent m cs N = (\<lambda>x. if x \<in> set cs then map_option (\<lambda>n. n\<lparr>nd_parent := m\<rparr>) (N x) else N x)"

lemma reparent_simps [simp]:
  "dom (reparent m cs N) = dom N"
  "x \<in> dom N \<Longrightarrow> the (reparent m cs N x) = (if x \<in> set cs then (the (N x))\<lparr>nd_parent := m\<rparr> else the (N x))"
  by (auto simp: reparent_def dom_def)

lemma reparent_Cons: "reparent m (c # cs) N = reparent m cs (reparent m [c] N)"
proof
  fix x
  show "reparent m (c # cs) N x = reparent m cs (reparent m [c] N) x" by (cases "N x") (auto simp: reparent_def)
qed

lemma maintain_child_run:
  assumes "\<not> isleaf (ix_nodes s) m" "i < length (prs (ix_nodes s) m)" "pg (prs (ix_nodes s) m ! i) \<in> dom (ix_nodes s)"
    "0 \<le> pg (prs (ix_nodes s) m ! i)"
  shows "maintain_child m i s = (Inr (), s\<lparr>ix_nodes := reparent m [pg (prs (ix_nodes s) m ! i)] (ix_nodes s)\<rparr>)"
proof -
  let ?c = "pg (prs (ix_nodes s) m ! i)"
  have "(ix_nodes s)(?c \<mapsto> (node_at s ?c)\<lparr>nd_parent := m\<rparr>) = reparent m [?c] (ix_nodes s)"
    using assms(3) by (auto simp: reparent_def fun_eq_iff)
  then show ?thesis
    using assms by (simp add: maintain_child_def slot_of_def get_size_def value_at_def get_rid_def bindE_def pg_def)
qed

lemma maintain_children_run:
  assumes "\<not> isleaf (ix_nodes s) m" "m \<in> dom (ix_nodes s)" "\<forall>i \<in> set js. i < length (prs (ix_nodes s) m)"
    "\<forall>c \<in> set (map pg (prs (ix_nodes s) m)). c \<in> dom (ix_nodes s) \<and> 0 \<le> c"
  shows "mapE (maintain_child m) js s =
    (Inr (), s\<lparr>ix_nodes := reparent m (map (\<lambda>i. pg (prs (ix_nodes s) m ! i)) js) (ix_nodes s)\<rparr>)"
  using assms
proof (induction js arbitrary: s)
  case Nil
  then show ?case by (simp add: reparent_def)
next
  case (Cons j js)
  let ?c = "pg (prs (ix_nodes s) m ! j)" and ?N = "reparent m [pg (prs (ix_nodes s) m ! j)] (ix_nodes s)"
  let ?s = "s\<lparr>ix_nodes := ?N\<rparr>"
  have m: "prs ?N m = prs (ix_nodes s) m" "isleaf ?N m = isleaf (ix_nodes s) m" using Cons.prems(2) by auto
  have "maintain_child m j s = (Inr (), ?s)" by (rule maintain_child_run) (use Cons.prems in auto)
  moreover have "mapE (maintain_child m) js ?s =
      (Inr (), ?s\<lparr>ix_nodes := reparent m (map (\<lambda>i. pg (prs ?N m ! i)) js) ?N\<rparr>)"
    using Cons.IH[of ?s] Cons.prems m by simp
  ultimately show ?case by (simp add: thenE_def bindE_def m reparent_Cons[symmetric])
qed

lemma link_new_leaf_run:
  assumes "nd_next_leaf (node_at s p) = nx" "nx \<in> dom (ix_nodes s)" "0 \<le> nx" "nx \<noteq> p" "nx \<noteq> m" "m \<noteq> p"
  shows "link_new_leaf p m s = (Inr (), s\<lparr>ix_nodes := (ix_nodes s)(m \<mapsto> (node_at s m)\<lparr>nd_prev_leaf := p, nd_next_leaf := nx\<rparr>,
      nx \<mapsto> (node_at s nx)\<lparr>nd_prev_leaf := m\<rparr>, p \<mapsto> (node_at s p)\<lparr>nd_next_leaf := m\<rparr>),
    ix_hdr := (ix_hdr s)\<lparr>last_leaf := if last_leaf (ix_hdr s) = p then m else last_leaf (ix_hdr s)\<rparr>\<rparr>)"
  using assms by (auto simp: link_new_leaf_def thenE_def bindE_def set_node_def fetch_node_def fun_upd_twist)

text \<open>A split in general: the pairs are shared out, and then a leaf is linked into the ring or
  the moved children get their new parent.\<close>

definition halved :: "ix_state \<Rightarrow> page_id_t \<Rightarrow> ix_state" where
  "halved s p =
     (let m = ix_next_page s; n = node_at s p; k = length (nd_pairs n) div 2 in
      s\<lparr>ix_hdr := (ix_hdr s)\<lparr>ix_num_pages := ix_num_pages (ix_hdr s) + 1\<rparr>, ix_next_page := m + 1,
        ix_nodes := (ix_nodes s)(
          m \<mapsto> \<lparr>nd_next_free_page_no = IX_NO_PAGE, nd_parent = nd_parent n, nd_is_leaf = nd_is_leaf n,
            nd_prev_leaf = IX_NO_PAGE, nd_next_leaf = IX_NO_PAGE, nd_pairs = drop k (nd_pairs n)\<rparr>,
          p \<mapsto> n\<lparr>nd_pairs := take k (nd_pairs n)\<rparr>)\<rparr>)"

lemma split_node_run:
  assumes "p \<noteq> ix_next_page s" "int (length (nd_pairs (node_at s p))) \<le> get_max_size (ix_hdr s)"
  shows "split_node p s = thenE (if nd_is_leaf (node_at s p) then link_new_leaf p (ix_next_page s)
      else mapE (maintain_child (ix_next_page s)) [0..<length (nd_pairs (node_at s p)) - length (nd_pairs (node_at s p)) div 2])
     (returnE (ix_next_page s)) (halved s p)"
proof -
  have "int (length (drop (length (nd_pairs (node_at s p)) div 2) (nd_pairs (node_at s p)))) \<le> get_max_size (ix_hdr s)"
    using assms(2) by simp
  then show ?thesis
    using assms by (simp add: split_node_def create_node_apply bindE_def thenE_def set_node_def Let_def call_insert_pairs
        get_max_size_def halved_def)
qed

lemma halved_simps [simp]:
  "ix_next_page (halved s p) = ix_next_page s + 1"
  "ix_hdr (halved s p) = (ix_hdr s)\<lparr>ix_num_pages := ix_num_pages (ix_hdr s) + 1\<rparr>"
  by (simp_all add: halved_def Let_def)

lemma split_internal_run:
  assumes "p \<noteq> ix_next_page s" "int (length (prs (ix_nodes s) p)) \<le> get_max_size (ix_hdr s)" "\<not> isleaf (ix_nodes s) p"
    "\<forall>kv \<in> set (prs (ix_nodes s) p). pg kv \<in> dom (ix_nodes s) \<and> 0 \<le> pg kv"
  shows "split_node p s = (Inr (ix_next_page s), (halved s p)\<lparr>ix_nodes :=
    reparent (ix_next_page s) (map pg (drop (length (prs (ix_nodes s) p) div 2) (prs (ix_nodes s) p))) (ix_nodes (halved s p))\<rparr>)"
proof -
  let ?m = "ix_next_page s" and ?kvs = "prs (ix_nodes s) p" and ?h = "halved s p"
  let ?k = "length (prs (ix_nodes s) p) div 2"
  have m: "prs (ix_nodes ?h) ?m = drop ?k ?kvs" "isleaf (ix_nodes ?h) ?m = False" "?m \<in> dom (ix_nodes ?h)"
    using assms(1,3) by (auto simp: halved_def Let_def)
  have d: "\<forall>c \<in> set (map pg (drop ?k ?kvs)). c \<in> dom (ix_nodes ?h) \<and> 0 \<le> c"
    using assms(4) by (auto simp: halved_def Let_def dest!: in_set_dropD)
  have "mapE (maintain_child ?m) [0..<length ?kvs - ?k] ?h =
    (Inr (), ?h\<lparr>ix_nodes := reparent ?m (map (\<lambda>i. pg (prs (ix_nodes ?h) ?m ! i)) [0..<length ?kvs - ?k]) (ix_nodes ?h)\<rparr>)"
    by (rule maintain_children_run) (use m d in \<open>simp_all\<close>)
  moreover have "map (\<lambda>i. pg (drop ?k ?kvs ! i)) [0..<length ?kvs - ?k] = map pg (drop ?k ?kvs)"
    by (rule nth_equalityI) simp_all
  ultimately show ?thesis using assms(3) by (simp add: split_node_run[OF assms(1,2)] thenE_def bindE_def m)
qed

section \<open>Levels under insertion\<close>

text \<open>Two nodes that differ at most in their parent.\<close>

definition same_node :: "ix_node option \<Rightarrow> ix_node option \<Rightarrow> bool" where
  "same_node n n' \<longleftrightarrow> n \<noteq> None \<and> n' \<noteq> None \<and> the n' = (the n)\<lparr>nd_parent := nd_parent (the n')\<rparr>"

lemma same_nodeD:
  assumes "same_node (N p) (N' p)"
  shows "prs N' p = prs N p" "isleaf N' p = isleaf N p" "key0 N' p = key0 N p" "p \<in> dom N'" "p \<in> dom N"
    "nd_next_leaf (the (N' p)) = nd_next_leaf (the (N p))" "nd_prev_leaf (the (N' p)) = nd_prev_leaf (the (N p))"
proof -
  have e: "the (N' p) = (the (N p))\<lparr>nd_parent := par N' p\<rparr>" and n: "N p \<noteq> None" "N' p \<noteq> None"
    using assms by (auto simp: same_node_def)
  show "prs N' p = prs N p" "isleaf N' p = isleaf N p"
    "nd_next_leaf (the (N' p)) = nd_next_leaf (the (N p))" "nd_prev_leaf (the (N' p)) = nd_prev_leaf (the (N p))"
    by (subst e; simp)+
  then show "key0 N' p = key0 N p" by (simp add: key0_def)
  show "p \<in> dom N'" "p \<in> dom N" using n by auto
qed

lemma same_node_refl [simp]: "p \<in> dom N \<Longrightarrow> same_node (N p) (N p)"
  by (auto simp: same_node_def)

lemma same_node_trans: "same_node a b \<Longrightarrow> same_node b c \<Longrightarrow> same_node a c"
  by (cases a; cases b; cases c) (auto simp: same_node_def, metis ix_node.update_convs(2) ix_node.surjective)

lemma key0_cong: "prs N' p = prs N p \<Longrightarrow> key0 N' p = key0 N p"
  by (simp add: key0_def)

lemma stacked_cong:
  assumes "stacked K N r ps Us" "\<And>p. p \<in> set (concat Us) \<Longrightarrow> prs N' p = prs N p \<and> isleaf N' p = isleaf N p"
    "\<And>p. p \<in> set (ps @ concat Us) \<Longrightarrow> par N' p = par N p" "\<And>p. p \<in> set ps \<Longrightarrow> p \<noteq> hd ps \<Longrightarrow> K' p = K p"
  shows "stacked K' N' r ps Us"
  using assms
proof (induction Us arbitrary: K K' ps)
  case (Cons qs Us)
  have "linked K' N' qs ps" by (rule linked_cong[of K N]) (use Cons.prems in auto)
  moreover have "stacked (key0 N') N' r qs Us"
    by (rule Cons.IH[of "key0 N"]) (use Cons.prems key0_cong[of N'] in auto)
  ultimately show ?case by simp
qed simp

lemma linked_add:
  assumes l: "linked K N (C @ q # D) ps" and q: "prs N q = X @ kv # Y"
    and ps: "ps = chs N C @ map pg X @ pg kv # map pg Y @ chs N D" and d: "distinct (C @ q # D)"
    and N': "prs N' q = X @ kv # (k, Rid n i) # Y" "\<And>p. p \<in> set (C @ D) \<Longrightarrow> prs N' p = prs N p"
      "\<And>p. p \<in> set (C @ q # D) \<Longrightarrow> isleaf N' p = isleaf N p" "\<And>p. p \<in> set ps \<Longrightarrow> par N' p = par N p \<and> K' p = K p"
      "par N' n = q" "K' n = k"
  shows "linked K' N' (C @ q # D) (chs N C @ map pg X @ pg kv # n # map pg Y @ chs N D)" (is "linked K' N' _ ?ps")
proof -
  have c: "chs N' C = chs N C" "chs N' D = chs N D" using N'(2) by (auto intro!: chs_cong)
  have hd: "hd ?ps = hd ps" by (simp add: ps hd_append)
  have chs: "chs N' (C @ q # D) = ?ps" by (simp add: c N'(1) pg_def)
  have old: "par N' (pg e) = p \<and> (pg e \<noteq> hd ps \<longrightarrow> fst e = K' (pg e))" if "p \<in> set (C @ q # D)" "e \<in> set (prs N p)" for p e
    using linkedD(3,4,5)[OF l that] N'(4)[of "pg e"] by simp
  have "\<not> isleaf N' p \<and> prs N' p \<noteq> [] \<and> (\<forall>e \<in> set (prs N' p). par N' (pg e) = p \<and> (pg e \<noteq> hd ?ps \<longrightarrow> fst e = K' (pg e)))"
    if p: "p \<in> set (C @ q # D)" for p
  proof (cases "p = q")
    case True
    have "par N' (pg e) = q \<and> (pg e \<noteq> hd ps \<longrightarrow> fst e = K' (pg e))" if "e \<in> set (X @ kv # (k, Rid n i) # Y)" for e
      using old[of q e] that q N'(5,6) by (auto simp: pg_def)
    then show ?thesis using True N'(1,3) linkedD(1)[OF l p] p by (auto simp: hd)
  next
    case False
    then have "p \<in> set (C @ D)" using p by auto
    then show ?thesis using old[OF p] N'(2)[of p] N'(3)[OF p] linkedD(1,2)[OF l p] by (simp add: hd)
  qed
  then show ?thesis unfolding linked_def using chs by blast
qed

lemma distinct_parts: "distinct (A @ B @ C @ D) \<Longrightarrow> x \<in> set B \<Longrightarrow> x \<notin> set C"
  by auto

lemma distinct_disj: "distinct (A @ B @ C) \<Longrightarrow> set A \<inter> set B = {}"
  by auto

lemma linked_split:
  assumes l: "linked K N (C @ q # D) ps" and d: "distinct ps" "m \<notin> set (C @ q # D)" "distinct (C @ q # D)"
    and kvs: "prs N q = kvs" "0 < k" "k < length kvs"
    and N': "prs N' q = take k kvs" "prs N' m = drop k kvs" "\<And>p. p \<in> set (C @ D) \<Longrightarrow> prs N' p = prs N p"
      "\<And>p. p \<in> set (C @ q # D) \<Longrightarrow> isleaf N' p = isleaf N p" "\<not> isleaf N' m"
      "\<And>p. p \<in> set ps \<Longrightarrow> par N' p = (if p \<in> set (map pg (drop k kvs)) then m else par N p) \<and> K' p = K p"
  shows "linked K' N' (C @ q # m # D) ps"
proof -
  have c: "chs N' C = chs N C" "chs N' D = chs N D" using N'(3) by (auto intro!: chs_cong)
  have e: "map pg kvs = map pg (take k kvs) @ map pg (drop k kvs)" by (metis append_take_drop_id map_append)
  have chs: "chs N' (C @ q # m # D) = ps" using linked_chs[OF l] by (simp add: c N'(1,2) kvs(1) e)
  have dd: "distinct (chs N C @ map pg (take k kvs) @ map pg (drop k kvs) @ chs N D)"
    using d(1) chs by (simp add: c N'(1,2))
  have key: "fst e = K' (pg e)" if "p \<in> set (C @ q # D)" "e \<in> set (prs N p)" "pg e \<noteq> hd ps" for p e
    using linkedD(4,5)[OF l that(1,2)] N'(6)[of "pg e"] that(3) by simp
  have q: "q \<in> set (C @ q # D)" by simp
  have pq: "par N' (pg e) = q" if "e \<in> set (take k kvs)" for e
  proof -
    have "pg e \<in> set (map pg (take k kvs))" using that by simp
    then have "pg e \<notin> set (map pg (drop k kvs))" by (rule distinct_parts[OF dd])
    then show ?thesis using N'(6)[of "pg e"] linkedD(3,4)[OF l q, of e] in_set_takeD[OF that] kvs(1) by simp
  qed
  have pm: "par N' (pg e) = m" if "e \<in> set (drop k kvs)" for e
    using N'(6)[of "pg e"] linkedD(4)[OF l q, of e] in_set_dropD[OF that] kvs(1) that by simp
  have po: "par N' (pg e) = p" if "p \<in> set (C @ D)" "e \<in> set (prs N p)" for p e
  proof -
    have p: "p \<in> set (C @ q # D)" using that(1) by auto
    have "pg e \<in> set (chs N C) \<union> set (chs N D)" using that by (auto simp: chs_def flat_def)
    then have "pg e \<notin> set (map pg (drop k kvs))" using dd by auto
    then show ?thesis using N'(6)[of "pg e"] linkedD(3,4)[OF l p that(2)] by simp
  qed
  have "\<not> isleaf N' p \<and> prs N' p \<noteq> [] \<and> (\<forall>e \<in> set (prs N' p). par N' (pg e) = p \<and> (pg e \<noteq> hd ps \<longrightarrow> fst e = K' (pg e)))"
    if p: "p \<in> set (C @ q # m # D)" for p
  proof -
    consider "p = q" | "p = m" | "p \<in> set (C @ D)" using p by auto
    then show ?thesis
    proof cases
      case 1
      then show ?thesis using pq key[OF q] linkedD(1)[OF l q] N'(1) N'(4)[OF q] kvs by (auto dest: in_set_takeD)
    next
      case 2
      then show ?thesis using pm key[OF q] N'(2,5) kvs by (auto dest: in_set_dropD)
    next
      case 3
      then have "p \<in> set (C @ q # D)" by auto
      then show ?thesis using po[OF 3] key[of p] linkedD(1,2)[OF l, of p] N'(3)[OF 3] N'(4)[of p] by auto
    qed
  qed
  then show ?thesis unfolding linked_def using chs by blast
qed


section \<open>Passing a new page to the level above\<close>

text \<open>What stays of a header.\<close>

definition hdr_keep :: "IxFileHdr \<Rightarrow> IxFileHdr \<Rightarrow> bool" where
  "hdr_keep h h' \<longleftrightarrow> h'\<lparr>ix_num_pages := 0, root_page := 0, last_leaf := 0\<rparr> = h\<lparr>ix_num_pages := 0, root_page := 0, last_leaf := 0\<rparr>"

lemma hdr_keep_refl [simp]: "hdr_keep h h"
  by (simp add: hdr_keep_def)

lemma hdr_keep_trans: "hdr_keep a b \<Longrightarrow> hdr_keep b c \<Longrightarrow> hdr_keep a c"
  by (simp add: hdr_keep_def)

lemma hdr_keep_upd [simp]:
  "hdr_keep a (b\<lparr>ix_num_pages := n\<rparr>) = hdr_keep a b" "hdr_keep a (b\<lparr>root_page := r\<rparr>) = hdr_keep a b"
  "hdr_keep a (b\<lparr>last_leaf := l\<rparr>) = hdr_keep a b"
  by (simp_all add: hdr_keep_def)

lemma hdr_keepD:
  assumes "hdr_keep h h'"
  shows "get_max_size h' = get_max_size h" "get_min_size h' = get_min_size h" "hdr_for types lens h' = hdr_for types lens h"
    "first_leaf h' = first_leaf h" "col_tot_len h' = col_tot_len h"
proof -
  note e = assms[unfolded hdr_keep_def]
  have "btree_order h' = btree_order h" "col_types h' = col_types h" "col_lens h' = col_lens h"
    and c: "col_tot_len h' = col_tot_len h" "first_leaf h' = first_leaf h"
    using arg_cong[OF e, of btree_order] arg_cong[OF e, of col_types] arg_cong[OF e, of col_lens]
      arg_cong[OF e, of col_tot_len] arg_cong[OF e, of first_leaf] by simp_all
  then show "get_max_size h' = get_max_size h" "get_min_size h' = get_min_size h" "hdr_for types lens h' = hdr_for types lens h"
    "first_leaf h' = first_leaf h" "col_tot_len h' = col_tot_len h"
    by (simp_all add: get_max_size_def get_min_size_def hdr_for_def)
qed

lemma size_okI: "2 \<le> mn \<Longrightarrow> mn \<le> length (nd_pairs n) \<Longrightarrow> length (nd_pairs n) < mx \<Longrightarrow> size_ok mn mx n"
  by (auto simp: size_ok_def)

lemma size_ok_cong:
  "size_ok mn mx (the (N p)) \<Longrightarrow> par N' p = par N p \<Longrightarrow> isleaf N' p = isleaf N p \<Longrightarrow> length (prs N' p) = length (prs N p) \<Longrightarrow>
    size_ok mn mx (the (N' p))"
  by (simp add: size_ok_def)

lemma new_root_run:
  assumes "m = ix_next_page s" "o1 \<noteq> m" "n1 \<noteq> m" "o1 \<noteq> n1" "prs (ix_nodes s) o1 \<noteq> []" "2 \<le> get_max_size (ix_hdr s)"
  shows "\<exists>s'. new_root o1 k n1 s = (Inr (), s') \<and> ix_next_page s' = m + 1 \<and> root_page (ix_hdr s') = m \<and>
    hdr_keep (ix_hdr s) (ix_hdr s') \<and> last_leaf (ix_hdr s') = last_leaf (ix_hdr s) \<and>
    ix_nodes s' = (ix_nodes s)(m \<mapsto> \<lparr>nd_next_free_page_no = IX_NO_PAGE, nd_parent = IX_NO_PAGE, nd_is_leaf = False,
       nd_prev_leaf = IX_NO_PAGE, nd_next_leaf = IX_NO_PAGE,
       nd_pairs = [(key0 (ix_nodes s) o1, Rid o1 (-1)), (k, Rid n1 (-1))]\<rparr>,
     o1 \<mapsto> (node_at s o1)\<lparr>nd_parent := m\<rparr>, n1 \<mapsto> (node_at s n1)\<lparr>nd_parent := m\<rparr>)"
  using assms
  by (simp add: new_root_def create_node_apply bindE_def thenE_def slot_of_def get_size_def call_insert_pairs get_key_def
      key0_def hd_conv_nth get_max_size_def)


text \<open>The part of the tree above a level, and what an operation on it leaves alone.\<close>

definition upper_ok :: "nat \<Rightarrow> nat \<Rightarrow> ix_state \<Rightarrow> page_id_t list \<Rightarrow> page_id_t list list \<Rightarrow> bool" where
  "upper_ok mn mx s ps Us \<longleftrightarrow>
     stacked (key0 (ix_nodes s)) (ix_nodes s) (root_page (ix_hdr s)) ps Us \<and>
     pages_ok (ix_nodes s) (ix_next_page s) (ps @ concat Us) \<and> (\<forall>p \<in> set (concat Us). size_ok mn mx (node_at s p)) \<and>
     int mx = get_max_size (ix_hdr s) \<and> mn = mx div 2 \<and> 4 \<le> mx"

definition upper_frame :: "ix_state \<Rightarrow> page_id_t list \<Rightarrow> page_id_t list list \<Rightarrow> ix_state \<Rightarrow> bool" where
  "upper_frame s ps Us s' \<longleftrightarrow>
     (\<forall>p \<in> set ps. same_node (ix_nodes s p) (ix_nodes s' p)) \<and>
     (\<forall>p. p < ix_next_page s \<longrightarrow> p \<notin> set (ps @ concat Us) \<longrightarrow> ix_nodes s' p = ix_nodes s p) \<and>
     ix_next_page s \<le> ix_next_page s' \<and> hdr_keep (ix_hdr s) (ix_hdr s') \<and> last_leaf (ix_hdr s') = last_leaf (ix_hdr s)"

lemma insert_at_root:
  assumes u: "upper_ok mn mx s (A @ o1 # B) []" and pk: "pages_ok (ix_nodes s) (ix_next_page s) (n1 # A @ o1 # B)"
    and o1: "prs (ix_nodes s) o1 \<noteq> []" and k: "key0 (ix_nodes s) n1 = k"
  shows "\<exists>s' Us'. insert_into_parent fuel o1 k n1 s = (Inr (), s') \<and> upper_ok mn mx s' (A @ o1 # n1 # B) Us' \<and> Us' \<noteq> [] \<and>
    (\<forall>p \<in> set (concat Us'). ix_next_page s \<le> p) \<and> upper_frame s (A @ o1 # n1 # B) [] s'"
proof -
  let ?N = "ix_nodes s" and ?m = "ix_next_page s"
  have AB: "A = []" "B = []" and par: "par ?N o1 = IX_NO_PAGE" using u by (cases A; auto simp: upper_ok_def)+
  have d: "o1 \<noteq> ?m" "n1 \<noteq> ?m" "o1 \<noteq> n1" and dom: "o1 \<in> dom ?N" "n1 \<in> dom ?N" and ge: "2 \<le> o1" "2 \<le> n1" "o1 < ?m" "n1 < ?m"
    using pk by (auto simp: pages_ok_def)
  have mx: "2 \<le> get_max_size (ix_hdr s)" using u by (auto simp: upper_ok_def)
  obtain s' where s': "new_root o1 k n1 s = (Inr (), s')" "ix_next_page s' = ?m + 1" "root_page (ix_hdr s') = ?m"
    "hdr_keep (ix_hdr s) (ix_hdr s')" "last_leaf (ix_hdr s') = last_leaf (ix_hdr s)" and N':
    "ix_nodes s' = ?N(?m \<mapsto> \<lparr>nd_next_free_page_no = IX_NO_PAGE, nd_parent = IX_NO_PAGE, nd_is_leaf = False,
       nd_prev_leaf = IX_NO_PAGE, nd_next_leaf = IX_NO_PAGE, nd_pairs = [(key0 ?N o1, Rid o1 (-1)), (k, Rid n1 (-1))]\<rparr>,
     o1 \<mapsto> (node_at s o1)\<lparr>nd_parent := ?m\<rparr>, n1 \<mapsto> (node_at s n1)\<lparr>nd_parent := ?m\<rparr>)"
    using new_root_run[OF refl d o1 mx, of k] by blast
  have run: "insert_into_parent fuel o1 k n1 s = (Inr (), s')"
    using par s'(1) by (subst insert_into_parent.simps) (simp add: is_root_page_def)
  have "linked (key0 (ix_nodes s')) (ix_nodes s') [?m] [o1, n1]"
    using d k by (auto simp: linked_def N' pg_def key0_def)
  then have "stacked (key0 (ix_nodes s')) (ix_nodes s') (root_page (ix_hdr s')) [o1, n1] [[?m]]"
    using d by (simp add: s'(3) N')
  moreover have "pages_ok (ix_nodes s') (ix_next_page s') ([o1, n1] @ concat [[?m]])"
    using d ge by (auto simp: pages_ok_def N' s'(2))
  moreover have "\<forall>p \<in> set (concat [[?m]]). size_ok mn mx (node_at s' p)"
    using u d by (auto simp: size_ok_def N' upper_ok_def)
  ultimately have "upper_ok mn mx s' [o1, n1] [[?m]]" using u hdr_keepD(1)[OF s'(4)] by (auto simp: upper_ok_def)
  moreover have "upper_frame s [o1, n1] [] s'"
    using dom d s'(2,4,5) by (auto simp: upper_frame_def N' same_node_def)
  ultimately show ?thesis using run AB by (intro exI[of _ s'] exI[of _ "[[?m]]"]) simp
qed

text \<open>A pair for the new page in the parent of the old one.\<close>

definition with_child :: "ix_state \<Rightarrow> page_id_t \<Rightarrow> (bytes \<times> Rid) list \<Rightarrow> page_id_t \<Rightarrow> ix_state" where
  "with_child s q kvs n1 =
     s\<lparr>ix_nodes := (ix_nodes s)(q \<mapsto> (node_at s q)\<lparr>nd_pairs := kvs\<rparr>, n1 \<mapsto> (node_at s n1)\<lparr>nd_parent := q\<rparr>)\<rparr>"

lemma insert_child_step:
  assumes u: "upper_ok mn mx s (A @ o1 # B) (qs # Us)" and pk: "pages_ok (ix_nodes s) (ix_next_page s) (n1 # A @ o1 # B @ qs @ concat Us)"
    and k: "key0 (ix_nodes s) n1 = k"
  shows "\<exists>C q D X kv Y s1. qs = C @ q # D \<and> prs (ix_nodes s) q = X @ kv # Y \<and> s1 = with_child s q (X @ kv # (k, Rid n1 (-1)) # Y) n1 \<and>
    insert_into_parent fuel o1 k n1 s =
      (if length (prs (ix_nodes s1) q) < mx then (Inr (), s1)
       else case fuel of 0 \<Rightarrow> (Inl OutOfFuel, s1)
         | Suc fuel' \<Rightarrow> bindE (split_node q) (\<lambda>m. bindE (ask_node m (slot_of 0 get_key)) (\<lambda>fk. insert_into_parent fuel' q fk m)) s1) \<and>
    linked (key0 (ix_nodes s1)) (ix_nodes s1) qs (A @ o1 # n1 # B) \<and>
    stacked (key0 (ix_nodes s1)) (ix_nodes s1) (root_page (ix_hdr s)) qs Us \<and>
    pages_ok (ix_nodes s1) (ix_next_page s) (A @ o1 # n1 # B @ qs @ concat Us)"
proof -
  let ?N = "ix_nodes s"
  have l: "linked (key0 ?N) ?N qs (A @ o1 # B)" and st: "stacked (key0 ?N) ?N (root_page (ix_hdr s)) qs Us"
    using u by (auto simp: upper_ok_def)
  obtain C q D X kv Y where q: "qs = C @ q # D" "prs ?N q = X @ kv # Y" "pg kv = o1" "par ?N o1 = q"
    "A @ o1 # B = chs ?N C @ map pg X @ o1 # map pg Y @ chs ?N D" using linked_place[OF l, of o1] by auto
  have d: "distinct (n1 # A @ o1 # B @ qs @ concat Us)" using pk by (simp add: pages_ok_def)
  then have nA: "o1 \<notin> set A" "o1 \<notin> set B" by auto
  then have AB: "A = chs ?N C @ map pg X" "B = map pg Y @ chs ?N D"
    using q(5) append_Cons_eq_iff[of o1 A B "chs ?N C @ map pg X" "map pg Y @ chs ?N D"] by auto
  then have nX: "o1 \<notin> set (map pg X)" using nA by simp
  have n: "n1 \<noteq> q" "n1 \<notin> set (A @ o1 # B)" "n1 \<notin> set qs" "q \<notin> set (A @ o1 # B)" "distinct qs" "n1 \<notin> set (concat Us)" "q \<notin> set (concat Us)"
    using d q(1) by auto
  have qd: "q \<in> dom ?N" "0 \<le> q" "n1 \<in> dom ?N" using pages_okD[OF pk, of q] pages_okD[OF pk, of n1] q(1) by auto
  have sq: "length (prs ?N q) < mx" using u q(1) by (auto simp: upper_ok_def size_ok_def)
  define s1 where "s1 = with_child s q (X @ kv # (k, Rid n1 (-1)) # Y) n1"
  have N1: "ix_nodes s1 = ?N(q \<mapsto> (node_at s q)\<lparr>nd_pairs := X @ kv # (k, Rid n1 (-1)) # Y\<rparr>, n1 \<mapsto> (node_at s n1)\<lparr>nd_parent := q\<rparr>)"
    and h1: "ix_hdr s1 = ix_hdr s" by (simp_all add: s1_def with_child_def)
  have mxe: "get_max_size (ix_hdr s) = int mx" using u by (simp add: upper_ok_def)
  have fc: "find_child o1 (node_at s q) = Inr (length X)"
    using find_child_at[OF q(2)] nX q(3) by simp
  have ci: "call_node q (\<lambda>h. insert_pairs h (length X + 1) [(k, Rid n1 (-1))]) s =
      (Inr (), s\<lparr>ix_nodes := ?N(q \<mapsto> (node_at s q)\<lparr>nd_pairs := X @ kv # (k, Rid n1 (-1)) # Y\<rparr>)\<rparr>)"
    using call_insert_pairs[of "length X + 1" s q "[(k, Rid n1 (-1))]"] sq q(2) mxe by simp
  have "nd_parent (node_at s o1) \<noteq> INVALID_PAGE_ID" using q(4) qd(2) by simp
  then have run: "insert_into_parent fuel o1 k n1 s =
      (if length (prs (ix_nodes s1) q) < mx then (Inr (), s1)
       else case fuel of 0 \<Rightarrow> (Inl OutOfFuel, s1)
         | Suc fuel' \<Rightarrow> bindE (split_node q) (\<lambda>m. bindE (ask_node m (slot_of 0 get_key)) (\<lambda>fk. insert_into_parent fuel' q fk m)) s1)"
    using q(4) qd fc ci n(1) mxe
    by (subst insert_into_parent.simps)
      (auto simp: is_root_page_def bindE_def thenE_def s1_def with_child_def get_size_def split: nat.splits)
  have lk: "linked (key0 (ix_nodes s1)) (ix_nodes s1) qs (A @ o1 # n1 # B)"
  proof -
    have "linked (key0 (ix_nodes s1)) (ix_nodes s1) (C @ q # D) (chs ?N C @ map pg X @ pg kv # n1 # map pg Y @ chs ?N D)"
    proof (rule linked_add[OF l[unfolded q(1)] q(2)])
      show "A @ o1 # B = chs ?N C @ map pg X @ pg kv # map pg Y @ chs ?N D" using q by simp
      show "distinct (C @ q # D)" using n q(1) by simp
      show "prs (ix_nodes s1) q = X @ kv # (k, Rid n1 (-1)) # Y" using n by (simp add: N1)
      show "key0 (ix_nodes s1) n1 = k" using k n by (simp add: N1 key0_def)
      show "par (ix_nodes s1) n1 = q" by (simp add: N1)
      show "prs (ix_nodes s1) p = prs ?N p" if "p \<in> set (C @ D)" for p using that n q(1) by (auto simp: N1)
      show "isleaf (ix_nodes s1) p = isleaf ?N p" if "p \<in> set (C @ q # D)" for p using that n q(1) by (auto simp: N1)
      show "par (ix_nodes s1) p = par ?N p \<and> key0 (ix_nodes s1) p = key0 ?N p" if "p \<in> set (A @ o1 # B)" for p
        using that n by (auto simp: N1 key0_def)
    qed
    then show ?thesis using AB q by simp
  qed
  have k0: "key0 (ix_nodes s1) p = key0 ?N p" for p using q(2) n by (cases X) (auto simp: N1 key0_def)
  have stk: "stacked (key0 (ix_nodes s1)) (ix_nodes s1) (root_page (ix_hdr s)) qs Us"
    by (rule stacked_cong[OF st]) (use n k0 in \<open>auto simp: N1\<close>)
  have "pages_ok (ix_nodes s1) (ix_next_page s) (A @ o1 # n1 # B @ qs @ concat Us)"
    using pk qd by (auto simp: pages_ok_def N1)
  with q run lk stk s1_def show ?thesis by blast
qed


lemma upper_frame_trans:
  assumes "upper_frame s ps (qs # Us) s'" "upper_frame s' qs' Us s''"
    and "\<forall>p \<in> set ps. p < ix_next_page s' \<and> p \<notin> set (qs' @ concat Us)"
    and "set qs \<subseteq> set qs'" "\<forall>p \<in> set qs'. p < ix_next_page s \<longrightarrow> p \<in> set qs"
  shows "upper_frame s ps (qs # Us) s''"
proof -
  have "same_node (ix_nodes s p) (ix_nodes s'' p)" if "p \<in> set ps" for p
    using assms that unfolding upper_frame_def by metis
  moreover have "ix_nodes s'' p = ix_nodes s p" if "p < ix_next_page s" "p \<notin> set (ps @ concat (qs # Us))" for p
  proof -
    have "p \<notin> set (qs' @ concat Us)" "p < ix_next_page s'" using that assms by (auto simp: upper_frame_def)
    then show ?thesis using that assms(1,2) unfolding upper_frame_def by metis
  qed
  moreover have "ix_next_page s \<le> ix_next_page s''" "hdr_keep (ix_hdr s) (ix_hdr s'')" "last_leaf (ix_hdr s'') = last_leaf (ix_hdr s)"
    using assms(1,2) hdr_keep_trans by (auto simp: upper_frame_def)
  ultimately show ?thesis by (simp add: upper_frame_def)
qed

lemma split_level:
  assumes l: "linked (key0 (ix_nodes s)) (ix_nodes s) (C @ q # D) ps" and st: "stacked (key0 (ix_nodes s)) (ix_nodes s) r (C @ q # D) Us"
    and pk: "pages_ok (ix_nodes s) (ix_next_page s) (ps @ (C @ q # D) @ concat Us)"
    and sz: "int (length (prs (ix_nodes s) q)) \<le> get_max_size (ix_hdr s)" "2 \<le> length (prs (ix_nodes s) q)" and m2: "2 \<le> ix_next_page s"
  shows "\<exists>s2. split_node q s = (Inr (ix_next_page s), s2) \<and> (let m = ix_next_page s; k = length (prs (ix_nodes s) q) div 2 in
    linked (key0 (ix_nodes s2)) (ix_nodes s2) (C @ q # m # D) ps \<and> stacked (key0 (ix_nodes s2)) (ix_nodes s2) r (C @ q # D) Us \<and>
    pages_ok (ix_nodes s2) (ix_next_page s2) (ps @ (C @ q # m # D) @ concat Us) \<and>
    prs (ix_nodes s2) q = take k (prs (ix_nodes s) q) \<and> prs (ix_nodes s2) m = drop k (prs (ix_nodes s) q) \<and>
    (\<forall>p. p < m \<longrightarrow> p \<notin> set (q # ps) \<longrightarrow> ix_nodes s2 p = ix_nodes s p) \<and> (\<forall>p \<in> set ps. same_node (ix_nodes s p) (ix_nodes s2 p)) \<and>
    ix_next_page s2 = m + 1 \<and> ix_hdr s2 = (ix_hdr s)\<lparr>ix_num_pages := ix_num_pages (ix_hdr s) + 1\<rparr>)"
proof -
  let ?N = "ix_nodes s" and ?m = "ix_next_page s"
  let ?kvs = "prs ?N q" and ?k = "length (prs ?N q) div 2" and ?H = "ix_nodes (halved s q)"
  let ?cs = "map pg (drop ?k ?kvs)"
  have q: "q \<in> set (C @ q # D)" by simp
  have nl: "\<not> isleaf ?N q" using linkedD(1)[OF l q] .
  have lt: "p \<in> dom ?N \<and> 0 \<le> p \<and> p < ?m" if "p \<in> set (ps @ (C @ q # D) @ concat Us)" for p using pages_okD[OF pk that] by simp
  then have ql: "q \<noteq> ?m" "q \<in> dom ?N" and psm: "?m \<notin> set ps" "?m \<notin> set (C @ q # D)" "?m \<notin> set (concat Us)" by force+
  have d: "distinct ps" "distinct (C @ q # D)" "q \<notin> set ps" "set ps \<inter> set (C @ q # D) = {}" "q \<notin> set (concat Us)"
    "set ps \<inter> set (concat Us) = {}" "set (C @ D) \<inter> set (concat Us) = {}" "q \<notin> set (C @ D)"
    using pk by (auto simp: pages_ok_def)
  have ch: "pg kv \<in> set ps" if "kv \<in> set ?kvs" for kv using linkedD(4)[OF l q that] .
  define s2 where "s2 = (halved s q)\<lparr>ix_nodes := reparent ?m ?cs ?H\<rparr>"
  have run: "split_node q s = (Inr ?m, s2)" unfolding s2_def
    by (rule split_internal_run) (use ql sz nl ch lt in auto)
  have dH: "dom ?H = insert ?m (dom ?N)" using ql(2) by (auto simp: halved_def Let_def)
  have H: "the (?H q) = (the (?N q))\<lparr>nd_pairs := take ?k ?kvs\<rparr>" "prs ?H ?m = drop ?k ?kvs" "isleaf ?H ?m = False"
    "p \<noteq> q \<Longrightarrow> p \<noteq> ?m \<Longrightarrow> ?H p = ?N p" for p using nl ql by (auto simp: halved_def Let_def)
  have cs: "set ?cs \<subseteq> set ps" using ch by (auto dest: in_set_dropD)
  have N2: "ix_nodes s2 = reparent ?m ?cs ?H" by (simp add: s2_def)
  have nq: "p \<in> set (C @ D) \<Longrightarrow> p \<notin> set ?cs \<and> p \<noteq> q \<and> p \<noteq> ?m \<and> p \<in> dom ?N" for p using cs d(3,4,8) psm lt[of p] by auto
  have q2: "the (ix_nodes s2 q) = (the (?N q))\<lparr>nd_pairs := take ?k ?kvs\<rparr>" using cs d(3) ql H dH by (auto simp: N2)
  have m2': "prs (ix_nodes s2) ?m = drop ?k ?kvs" "isleaf (ix_nodes s2) ?m = False" using H dH by (simp_all add: N2)
  have o2: "ix_nodes s2 p = ?N p" if "p \<noteq> q" "p \<noteq> ?m" "p \<notin> set ?cs" for p using that H(4)[of p] by (simp add: N2 reparent_def)
  have ps2: "the (ix_nodes s2 p) = (if p \<in> set ?cs then (the (?N p))\<lparr>nd_parent := ?m\<rparr> else the (?N p)) \<and> p \<in> dom (ix_nodes s2)"
    if "p \<in> set ps" for p
  proof -
    have "p \<noteq> q" "p \<noteq> ?m" "p \<in> dom ?N" using that d(3) psm lt[of p] by auto
    then show ?thesis using H(4)[of p] dH by (simp add: N2)
  qed
  have k0: "key0 (ix_nodes s2) p = key0 ?N p" if "p \<in> set (ps @ (C @ q # D))" for p
  proof -
    have "hd (take ?k ?kvs) = hd ?kvs" using sz(2) by (cases ?kvs) (auto simp: take_Cons')
    then show ?thesis using that ps2[of p] o2[of p] q2 nq[of p] by (auto simp: key0_def)
  qed
  have "linked (key0 (ix_nodes s2)) (ix_nodes s2) (C @ q # ?m # D) ps"
  proof (rule linked_split[OF l d(1) psm(2) d(2) refl])
    show "0 < ?k" "?k < length ?kvs" using sz(2) by auto
    show "prs (ix_nodes s2) q = take ?k ?kvs" "prs (ix_nodes s2) ?m = drop ?k ?kvs" "\<not> isleaf (ix_nodes s2) ?m" using q2 m2' by simp_all
    show "prs (ix_nodes s2) p = prs ?N p" if "p \<in> set (C @ D)" for p using o2[of p] nq[OF that] by simp
    show "isleaf (ix_nodes s2) p = isleaf ?N p" if "p \<in> set (C @ q # D)" for p using o2[of p] nq[of p] that q2 by auto
    show "par (ix_nodes s2) p = (if p \<in> set ?cs then ?m else par ?N p) \<and> key0 (ix_nodes s2) p = key0 ?N p" if "p \<in> set ps" for p
      using ps2[OF that] k0[of p] that by auto
  qed
  moreover have "stacked (key0 (ix_nodes s2)) (ix_nodes s2) r (C @ q # D) Us"
  proof (rule stacked_cong[OF st])
    have u: "ix_nodes s2 p = ?N p" if "p \<in> set (concat Us)" for p
    proof (rule o2)
      show "p \<notin> set ?cs" using that cs d(6) by blast
    qed (use that d(5) psm(3) in auto)
    show "prs (ix_nodes s2) p = prs ?N p \<and> isleaf (ix_nodes s2) p = isleaf ?N p" if "p \<in> set (concat Us)" for p using u[OF that] by simp
    show "par (ix_nodes s2) p = par ?N p" if "p \<in> set ((C @ q # D) @ concat Us)" for p
    proof (cases "p \<in> set (concat Us)")
      case False
      then show ?thesis using o2[of p] nq[of p] that q2 by auto
    qed (use u in simp)
    show "key0 (ix_nodes s2) p = key0 ?N p" if "p \<in> set (C @ q # D)" for p using k0[of p] that by auto
  qed
  moreover have "dom (ix_nodes s2) = insert ?m (dom ?N)" using dH by (simp add: N2)
  then have "pages_ok (ix_nodes s2) (ix_next_page s2) (ps @ (C @ q # ?m # D) @ concat Us)"
    using pages_ok_mono[OF pk, of "ix_nodes s2" "?m + 1"] psm m2
    by (auto simp: pages_ok_append pages_ok_Cons s2_def)
  moreover have "\<forall>p. p < ?m \<longrightarrow> p \<notin> set (q # ps) \<longrightarrow> ix_nodes s2 p = ?N p" using o2 cs by auto
  moreover have "\<forall>p \<in> set ps. same_node (?N p) (ix_nodes s2 p)" using ps2 lt by (auto simp: same_node_def)
  ultimately show ?thesis using run q2 m2' by (intro exI[of _ s2]) (simp add: Let_def s2_def)
qed


lemma insert_into_parent_ok:
  assumes "upper_ok mn mx s (A @ o1 # B) Us" "pages_ok (ix_nodes s) (ix_next_page s) (n1 # A @ o1 # B @ concat Us)"
    "prs (ix_nodes s) o1 \<noteq> []" "key0 (ix_nodes s) n1 = k" "length Us \<le> fuel"
  shows "\<exists>s' Us'. insert_into_parent fuel o1 k n1 s = (Inr (), s') \<and> upper_ok mn mx s' (A @ o1 # n1 # B) Us' \<and> Us' \<noteq> [] \<and>
    (\<forall>p \<in> set (concat Us'). p \<in> set (concat Us) \<or> ix_next_page s \<le> p) \<and> upper_frame s (A @ o1 # n1 # B) Us s'"
  using assms
proof (induction Us arbitrary: s A o1 B n1 k fuel)
  case Nil
  then show ?case using insert_at_root[of mn mx s A o1 B n1 k fuel] by auto
next
  case (Cons qs Us)
  let ?N = "ix_nodes s" and ?r = "root_page (ix_hdr s)" and ?ps = "A @ o1 # n1 # B"
  have pk: "pages_ok ?N (ix_next_page s) (n1 # A @ o1 # B @ qs @ concat Us)" using Cons.prems(2) by simp
  obtain C q D X kv Y s1 where q: "qs = C @ q # D" "prs ?N q = X @ kv # Y" and s1: "s1 = with_child s q (X @ kv # (k, Rid n1 (-1)) # Y) n1"
    and run: "insert_into_parent fuel o1 k n1 s =
      (if length (prs (ix_nodes s1) q) < mx then (Inr (), s1)
       else case fuel of 0 \<Rightarrow> (Inl OutOfFuel, s1)
         | Suc fuel' \<Rightarrow> bindE (split_node q) (\<lambda>m. bindE (ask_node m (slot_of 0 get_key)) (\<lambda>fk. insert_into_parent fuel' q fk m)) s1)"
    and l1: "linked (key0 (ix_nodes s1)) (ix_nodes s1) qs ?ps" and st1: "stacked (key0 (ix_nodes s1)) (ix_nodes s1) ?r qs Us"
    and pk1: "pages_ok (ix_nodes s1) (ix_next_page s) (A @ o1 # n1 # B @ qs @ concat Us)"
    using insert_child_step[OF Cons.prems(1) pk Cons.prems(4), of fuel] by (elim exE conjE) (rule that)
  note u = Cons.prems(1)[unfolded upper_ok_def]
  have mx: "int mx = get_max_size (ix_hdr s)" "mn = mx div 2" "4 \<le> mx" "2 \<le> mn" using u by auto
  have d: "n1 \<noteq> q" "distinct (A @ o1 # n1 # B @ qs @ concat Us)" using pk q(1) by (auto simp: pages_ok_def)
  have lq: "prs (ix_nodes s1) q = X @ kv # (k, Rid n1 (-1)) # Y" using d by (simp add: s1 with_child_def)
  have old: "length (prs ?N q) < mx" "size_ok mn mx (the (?N q))" using u q(1) by (auto simp: size_ok_def)
  have h1: "ix_hdr s1 = ix_hdr s" "ix_next_page s1 = ix_next_page s" by (simp_all add: s1 with_child_def)
  have so: "ix_nodes s1 p = ?N p" if "p \<noteq> q" "p \<noteq> n1" for p using that by (simp add: s1 with_child_def)
  have sz1: "size_ok mn mx (node_at s1 p)" if "p \<in> set (qs @ concat Us)" "p \<noteq> q" for p
  proof -
    have "p \<noteq> n1" using that d by auto
    then show ?thesis using so[of p] u that by auto
  qed
  have fr1: "upper_frame s ?ps (qs # Us) s1"
  proof -
    have "same_node (?N p) (ix_nodes s1 p)" if "p \<in> set ?ps" for p
      using that d q(1) pages_okD[OF pk, of p] by (auto simp: s1 with_child_def same_node_def)
    then show ?thesis using so q(1) by (auto simp: upper_frame_def h1)
  qed
  show ?case
  proof (cases "length (prs (ix_nodes s1) q) < mx")
    case True
    have "size_ok mn mx (node_at s1 q)"
      using True old(2) d(1) q(2) unfolding lq by (auto simp: size_ok_def s1 with_child_def split: if_splits)
    then have "upper_ok mn mx s1 ?ps (qs # Us)"
      using l1 st1 pk1 sz1 mx by (auto simp: upper_ok_def h1)
    then show ?thesis using True run fr1 by (intro exI[of _ s1] exI[of _ "qs # Us"]) simp
  next
    case False
    then have len: "length (prs (ix_nodes s1) q) = mx" using old(1) q(2) lq by simp
    obtain f where f: "fuel = Suc f" "length Us \<le> f" using Cons.prems(5) by (cases fuel) auto
    let ?m = "ix_next_page s"
    have pk1': "pages_ok (ix_nodes s1) (ix_next_page s1) (?ps @ (C @ q # D) @ concat Us)" using pk1 h1 q(1) by simp
    have m2: "2 \<le> ix_next_page s1" using pages_okD[OF pk1', of q] by simp
    obtain s2 where s2: "split_node q s1 = (Inr ?m, s2)"
      "linked (key0 (ix_nodes s2)) (ix_nodes s2) (C @ q # ?m # D) ?ps" "stacked (key0 (ix_nodes s2)) (ix_nodes s2) ?r (C @ q # D) Us"
      "pages_ok (ix_nodes s2) (ix_next_page s2) (?ps @ (C @ q # ?m # D) @ concat Us)"
      "prs (ix_nodes s2) q = take (mx div 2) (prs (ix_nodes s1) q)" "prs (ix_nodes s2) ?m = drop (mx div 2) (prs (ix_nodes s1) q)"
      "\<forall>p. p < ?m \<longrightarrow> p \<notin> set (q # ?ps) \<longrightarrow> ix_nodes s2 p = ix_nodes s1 p" "\<forall>p \<in> set ?ps. same_node (ix_nodes s1 p) (ix_nodes s2 p)"
      "ix_next_page s2 = ?m + 1" "ix_hdr s2 = (ix_hdr s)\<lparr>ix_num_pages := ix_num_pages (ix_hdr s) + 1\<rparr>"
      using split_level[OF l1[unfolded q(1)] st1[unfolded q(1)] pk1'] len mx m2 by (auto simp: Let_def h1)
    have pl: "length (prs (ix_nodes s2) q) = mx div 2" "length (prs (ix_nodes s2) ?m) = mx - mx div 2"
      using s2(5,6) len by simp_all
    have d2: "distinct (?ps @ (C @ q # ?m # D) @ concat Us)" using s2(4) by (simp add: pages_ok_def)
    have u2: "ix_nodes s2 p = ix_nodes s1 p" if "p \<in> set (C @ D @ concat Us)" for p
    proof -
      have "p \<notin> set (q # ?ps)" "p < ?m" using that d2 pages_okD[OF pk1', of p] h1(2) by auto
      then show ?thesis using s2(7) by blast
    qed
    have up2: "upper_ok mn mx s2 (C @ q # D) Us"
    proof -
      have "pages_ok (ix_nodes s2) (ix_next_page s2) ((C @ q # D) @ concat Us)" using s2(4) by (auto simp: pages_ok_def)
      moreover have "size_ok mn mx (node_at s2 p)" if "p \<in> set (concat Us)" for p
        using sz1[of p] u2[of p] that d2 by auto
      ultimately show ?thesis using s2(3,10) mx by (auto simp: upper_ok_def get_max_size_def)
    qed
    have pk2: "pages_ok (ix_nodes s2) (ix_next_page s2) (?m # C @ q # D @ concat Us)" using s2(4) by (auto simp: pages_ok_def)
    have ne: "prs (ix_nodes s2) q \<noteq> []" "prs (ix_nodes s2) ?m \<noteq> []" using pl mx by (auto simp flip: length_greater_0_conv)
    obtain s3 Us' where s3: "insert_into_parent f q (key0 (ix_nodes s2) ?m) ?m s2 = (Inr (), s3)"
      "upper_ok mn mx s3 (C @ q # ?m # D) Us'" "Us' \<noteq> []" "upper_frame s2 (C @ q # ?m # D) Us s3"
      and new3: "\<forall>p \<in> set (concat Us'). p \<in> set (concat Us) \<or> ix_next_page s2 \<le> p"
      using Cons.IH[OF up2 pk2 ne(1) refl f(2)] by blast
    have run3: "insert_into_parent fuel o1 k n1 s = (Inr (), s3)"
      using run False f(1) s2(1) s3(1) ne(2)
      by (simp add: bindE_def slot_of_def get_size_def get_key_def key0_def hd_conv_nth)
    note f3 = s3(4)[unfolded upper_frame_def]
    have ps3: "ix_nodes s3 p = ix_nodes s2 p" if "p \<in> set ?ps" for p
    proof -
      have "p < ix_next_page s2" "p \<notin> set ((C @ q # ?m # D) @ concat Us)"
        using that d2 pages_okD[OF s2(4), of p] by auto
      then show ?thesis using f3 by blast
    qed
    have same3: "same_node (ix_nodes s2 p) (ix_nodes s3 p)" if "p \<in> set (C @ q # ?m # D)" for p using f3 that by blast
    have l3: "linked (key0 (ix_nodes s3)) (ix_nodes s3) (C @ q # ?m # D) ?ps"
    proof (rule linked_cong[OF s2(2)])
      fix p assume "p \<in> set (C @ q # ?m # D)"
      note same3[OF this]
      then show "prs (ix_nodes s3) p = prs (ix_nodes s2) p \<and> isleaf (ix_nodes s3) p = isleaf (ix_nodes s2) p"
        by (simp add: same_nodeD)
    qed (use ps3 in \<open>auto simp: key0_def\<close>)
    have u3: "upper_ok mn mx s3 ?ps ((C @ q # ?m # D) # Us')"
    proof -
      note v = s3(2)[unfolded upper_ok_def]
      have "size_ok mn mx (node_at s3 p)" if p: "p \<in> set (C @ q # ?m # D)" for p
      proof -
        have "mn \<le> length (prs (ix_nodes s2) p) \<and> length (prs (ix_nodes s2) p) < mx"
        proof (cases "p \<in> {q, ?m}")
          case True
          then show ?thesis using pl mx by auto
        next
          case False
          then have pc: "p \<in> set (C @ D)" using p by auto
          then have "p \<noteq> ?r" using stacked_root_in[OF st1] stacked_last[OF st1] d2 q(1)
            by (cases Us) (auto simp: append_eq_Cons_conv)
          then have "par (ix_nodes s1) p \<noteq> IX_NO_PAGE"
            using stacked_root[OF st1, of p] pages_okD[OF pk1] pc q(1) by auto
          then show ?thesis using sz1[of p] u2[of p] pc False q(1) by (auto simp: size_ok_def)
        qed
        then show ?thesis using mx(4) same_nodeD(1)[of "ix_nodes s2" p "ix_nodes s3", OF same3[OF p]] by (intro size_okI) auto
      qed
      moreover have "pages_ok (ix_nodes s3) (ix_next_page s3) (?ps @ concat ((C @ q # ?m # D) # Us'))"
      proof -
        have ge: "ix_next_page s2 \<le> ix_next_page s3" using f3 by blast
        have "p \<in> dom (ix_nodes s3) \<and> 2 \<le> p \<and> p < ix_next_page s3" if "p \<in> set ?ps" for p
          using pages_okD[OF s2(4), of p] ps3[OF that] ge that by (auto simp: domIff)
        moreover have "distinct ?ps" using d2 by auto
        ultimately have p3: "pages_ok (ix_nodes s3) (ix_next_page s3) ?ps" unfolding pages_ok_def by blast
        have "p \<notin> set (concat Us')" if p: "p \<in> set ?ps" for p
        proof
          assume "p \<in> set (concat Us')"
          then have "p \<in> set (concat Us) \<or> ix_next_page s2 \<le> p" using new3 by blast
          moreover have "p < ix_next_page s2" using pages_okD[OF s2(4), of p] p by auto
          moreover have "p \<notin> set (concat Us)" using p d2 by auto
          ultimately show False by simp
        qed
        then have "set ?ps \<inter> set (concat Us') = {}" by blast
        moreover have "set ?ps \<inter> set (C @ q # ?m # D) = {}" by (rule distinct_disj[OF d2])
        ultimately have "set ?ps \<inter> set ((C @ q # ?m # D) @ concat Us') = {}" unfolding set_append by blast
        then show ?thesis using p3 v unfolding concat.simps pages_ok_append[of _ _ ?ps] by blast
      qed
      ultimately show ?thesis using v l3 by (auto simp: upper_ok_def)
    qed
    have fr2: "upper_frame s ?ps (qs # Us) s2"
    proof -
      have "same_node (?N p) (ix_nodes s2 p)" if "p \<in> set ?ps" for p
        using same_node_trans s2(8) fr1 that unfolding upper_frame_def by blast
      moreover have "ix_nodes s2 p = ?N p" if "p < ?m" "p \<notin> set (?ps @ concat (qs # Us))" for p
      proof -
        have "ix_nodes s2 p = ix_nodes s1 p" using s2(7) that q(1) by auto
        also have "\<dots> = ?N p" using fr1 that unfolding upper_frame_def by blast
        finally show ?thesis .
      qed
      ultimately show ?thesis using s2(9,10) by (simp add: upper_frame_def)
    qed
    have "upper_frame s ?ps (qs # Us) s3"
    proof (rule upper_frame_trans[OF fr2 s3(4)])
      show "\<forall>p \<in> set ?ps. p < ix_next_page s2 \<and> p \<notin> set ((C @ q # ?m # D) @ concat Us)"
        using d2 pages_okD[OF s2(4)] by auto
    qed (use q(1) in auto)
    moreover have "\<forall>p \<in> set (concat ((C @ q # ?m # D) # Us')). p \<in> set (concat (qs # Us)) \<or> ?m \<le> p"
      using new3 q(1) s2(9) by fastforce
    ultimately show ?thesis using run3 u3 by blast
  qed
qed

section \<open>The leaves\<close>

definition leaves_ok :: "(bytes \<Rightarrow> 'r :: linorder) \<Rightarrow> (bytes \<Rightarrow> bool) \<Rightarrow> nat \<Rightarrow> nat \<Rightarrow> ix_state \<Rightarrow> page_id_t list \<Rightarrow> bool" where
  "leaves_ok rank ok mn mx s ps \<longleftrightarrow>
     (\<forall>p \<in> set ps. isleaf (ix_nodes s) p \<and> size_ok mn mx (node_at s p)) \<and>
     ordered_by rank (flat (ix_nodes s) ps) \<and> (\<forall>kv \<in> set (flat (ix_nodes s) ps). ok (fst kv)) \<and>
     IX_LEAF_HEADER_PAGE \<in> dom (ix_nodes s) \<and> ring (ix_nodes s) ps \<and> 2 < ix_next_page s \<and>
     first_leaf (ix_hdr s) = hd ps \<and> last_leaf (ix_hdr s) = last ps"

lemma tree_inv_parts:
  assumes "hdr_for types lens (ix_hdr s)" "mx = nat (get_max_size (ix_hdr s))" "mn = mx div 2"
  shows "tree_inv rank ok s ps Us \<longleftrightarrow> upper_ok mn mx s ps Us \<and> leaves_ok rank ok mn mx s ps"
  using assms hdr_for_max[OF assms(1)] by (auto simp: tree_inv_def upper_ok_def leaves_ok_def Let_def)

lemma successively_change:
  assumes "successively P xs" "\<And>a b. a \<in> set (butlast xs) \<Longrightarrow> b \<in> set (tl xs) \<Longrightarrow> P a b \<Longrightarrow> Q a b"
  shows "successively Q xs"
  using assms
proof (induction xs rule: induct_list012)
  case (3 x y zs)
  have "successively Q (y # zs)"
    by (rule 3(2)) (use 3(3,4) in \<open>auto split: if_splits\<close>)
  then show ?case using 3(3) 3(4)[of x y] by simp
qed simp_all

lemma ring_split:
  assumes r: "ring N (A @ p # B)" and d: "distinct (1 # A @ p # m # B)" and nx: "nx = hd (B @ [1])"
    and N': "nd_next_leaf (the (N' p)) = m" "nd_prev_leaf (the (N' m)) = p" "nd_next_leaf (the (N' m)) = nx" "nd_prev_leaf (the (N' nx)) = m"
      "\<And>a. a \<in> set (1 # A @ B) \<Longrightarrow> nd_next_leaf (the (N' a)) = nd_next_leaf (the (N a))"
      "\<And>a. a \<in> set (1 # A @ p # B) \<Longrightarrow> a \<noteq> nx \<Longrightarrow> nd_prev_leaf (the (N' a)) = nd_prev_leaf (the (N a))"
  shows "ring N' (A @ p # m # B)"
proof -
  let ?P = "\<lambda>N a b. nd_next_leaf (the (N a)) = b \<and> nd_prev_leaf (the (N b)) = a"
  have s: "successively (?P N) (1 # A @ [p])" "successively (?P N) (B @ [1])"
    using r successively_append_iff[of "?P N" "1 # A @ [p]" "B @ [1]"] by (simp_all add: ring_def)
  have nxB: "nx \<in> set B \<or> nx = 1" using nx by (cases B) auto
  have "successively (?P N') (1 # A @ [p])"
  proof (rule successively_change[OF s(1)])
    fix a b assume ab: "a \<in> set (butlast (1 # A @ [p]))" "b \<in> set (tl (1 # A @ [p]))" "?P N a b"
    have "a \<in> set (1 # A @ B)" using ab(1) by (auto simp: butlast_append split: if_splits)
    moreover have "b \<in> set (1 # A @ p # B)" "b \<noteq> nx" using ab(2) nxB d by auto
    ultimately show "?P N' a b" using ab(3) N'(5)[of a] N'(6)[of b] by simp
  qed
  moreover have B1: "successively (?P N') (B @ [1])"
  proof (rule successively_change[OF s(2)])
    fix a b assume ab: "a \<in> set (butlast (B @ [1]))" "b \<in> set (tl (B @ [1]))" "?P N a b"
    have "b \<noteq> nx" using ab(2) nx d by (cases B) auto
    moreover have "b \<in> set (1 # A @ p # B)" using ab(2) by (cases B) auto
    ultimately show "?P N' a b" using ab N'(5)[of a] N'(6)[of b] by (auto simp: butlast_append)
  qed
  moreover have "successively (?P N') (m # B @ [1])" using B1 N'(3,4) nx by (auto simp: successively_Cons)
  moreover have "?P N' (last (1 # A @ [p])) (hd (m # B @ [1]))" using N'(1,2) by simp
  ultimately have "successively (?P N') ((1 # A @ [p]) @ m # B @ [1])" unfolding successively_append_iff by blast
  then show ?thesis by (simp add: ring_def)
qed

lemma ring_next:
  assumes "ring N (A @ p # B)"
  shows "nd_next_leaf (the (N p)) = hd (B @ [1])"
proof -
  let ?P = "\<lambda>a b. nd_next_leaf (the (N a)) = b \<and> nd_prev_leaf (the (N b)) = a"
  have "successively ?P ((1 # A @ [p]) @ (B @ [1]))" using assms by (simp add: ring_def)
  then have "?P (last (1 # A @ [p])) (hd (B @ [1]))" unfolding successively_append_iff by blast
  then show ?thesis by simp
qed

lemma split_leaf_run:
  assumes l: "isleaf (ix_nodes s) p" and nx: "nd_next_leaf (node_at s p) = nx" "nx \<in> dom (ix_nodes s)" "0 \<le> nx" "nx \<noteq> p" "nx < ix_next_page s"
    and p: "p < ix_next_page s" "int (length (prs (ix_nodes s) p)) \<le> get_max_size (ix_hdr s)"
  shows "\<exists>s2. split_node p s = (Inr (ix_next_page s), s2) \<and> (let m = ix_next_page s; k = length (prs (ix_nodes s) p) div 2 in
    ix_nodes s2 = (ix_nodes s)(m \<mapsto> \<lparr>nd_next_free_page_no = IX_NO_PAGE, nd_parent = par (ix_nodes s) p, nd_is_leaf = True,
        nd_prev_leaf = p, nd_next_leaf = nx, nd_pairs = drop k (prs (ix_nodes s) p)\<rparr>,
      nx \<mapsto> (node_at s nx)\<lparr>nd_prev_leaf := m\<rparr>, p \<mapsto> (node_at s p)\<lparr>nd_pairs := take k (prs (ix_nodes s) p), nd_next_leaf := m\<rparr>) \<and>
    ix_next_page s2 = m + 1 \<and> hdr_keep (ix_hdr s) (ix_hdr s2) \<and> root_page (ix_hdr s2) = root_page (ix_hdr s) \<and>
    last_leaf (ix_hdr s2) = (if last_leaf (ix_hdr s) = p then m else last_leaf (ix_hdr s)))"
proof -
  let ?m = "ix_next_page s" and ?H = "halved s p" and ?k = "length (prs (ix_nodes s) p) div 2"
  have ne: "nx \<noteq> ?m" "?m \<noteq> p" "p \<noteq> ?m" using nx(5) p(1) by auto
  have H: "node_at ?H p = (node_at s p)\<lparr>nd_pairs := take ?k (prs (ix_nodes s) p)\<rparr>" "node_at ?H nx = node_at s nx"
    "node_at ?H ?m = \<lparr>nd_next_free_page_no = IX_NO_PAGE, nd_parent = par (ix_nodes s) p, nd_is_leaf = True,
       nd_prev_leaf = IX_NO_PAGE, nd_next_leaf = IX_NO_PAGE, nd_pairs = drop ?k (prs (ix_nodes s) p)\<rparr>"
    using ne nx(4) l by (auto simp: halved_def Let_def)
  have nH: "nd_next_leaf (node_at ?H p) = nx" "nx \<in> dom (ix_nodes ?H)" using H nx(1,2) by (auto simp: halved_def Let_def)
  have HN: "ix_nodes ?H = (ix_nodes s)(?m \<mapsto> node_at ?H ?m, p \<mapsto> node_at ?H p)" by (auto simp: halved_def Let_def)
  note link = link_new_leaf_run[OF nH nx(3,4) ne(1,2)]
  have e: "(ix_nodes ?H)(?m \<mapsto> a, nx \<mapsto> b, p \<mapsto> c) = (ix_nodes s)(?m \<mapsto> a, nx \<mapsto> b, p \<mapsto> c)" for a b c
    by (subst HN) (use ne nx(4) in \<open>auto simp: fun_eq_iff\<close>)
  show ?thesis
    using split_node_run[OF ne(3) p(2)] l link
    by (intro exI[of _ "snd (link_new_leaf p ?m ?H)"]) (simp add: thenE_def bindE_def Let_def e H)
qed

lemma split_leaf_ok:
  assumes u: "upper_ok mn mx s (A @ p # B) Us" and lv: "isleaf (ix_nodes s) p" "length (prs (ix_nodes s) p) = mx"
    and r: "ring (ix_nodes s) (A @ p # B)" "1 \<in> dom (ix_nodes s)" "last_leaf (ix_hdr s) = last (A @ p # B)" "2 < ix_next_page s"
  shows "\<exists>s2. let m = ix_next_page s; N = ix_nodes s; N2 = ix_nodes s2 in split_node p s = (Inr m, s2) \<and>
    upper_ok mn mx s2 (A @ p # B) Us \<and> pages_ok N2 (m + 1) (m # A @ p # B @ concat Us) \<and>
    prs N2 p = take mn (prs N p) \<and> prs N2 m = drop mn (prs N p) \<and> isleaf N2 m \<and>
    (\<forall>x. x \<noteq> m \<longrightarrow> (x \<in> dom N2 \<longleftrightarrow> x \<in> dom N) \<and> par N2 x = par N x \<and> isleaf N2 x = isleaf N x \<and> (x \<noteq> p \<longrightarrow> prs N2 x = prs N x)) \<and>
    ring N2 (A @ p # m # B) \<and> last_leaf (ix_hdr s2) = last (A @ p # m # B) \<and>
    hdr_keep (ix_hdr s) (ix_hdr s2) \<and> ix_next_page s2 = m + 1"
proof -
  let ?N = "ix_nodes s" and ?m = "ix_next_page s" and ?nx = "hd (B @ [1])"
  note uu = u[unfolded upper_ok_def]
  have mx: "int mx = get_max_size (ix_hdr s)" "mn = mx div 2" "4 \<le> mx" using uu by auto
  have pk: "pages_ok ?N ?m ((A @ p # B) @ concat Us)" using uu by blast
  have d: "distinct ((A @ p # B) @ concat Us)" using pk by (simp add: pages_ok_def)
  have lt: "x \<in> dom ?N \<and> 2 \<le> x \<and> x < ?m" if "x \<in> set ((A @ p # B) @ concat Us)" for x using pages_okD[OF pk that] by simp
  have nx: "?nx \<in> dom ?N" "0 \<le> ?nx" "?nx \<noteq> p" "?nx < ?m"
    using lt[of p] lt[of ?nx] d r(2,4) by (cases B; auto)+
  obtain s2 where s2: "split_node p s = (Inr ?m, s2)"
    "ix_nodes s2 = ?N(?m \<mapsto> \<lparr>nd_next_free_page_no = IX_NO_PAGE, nd_parent = par ?N p, nd_is_leaf = True,
        nd_prev_leaf = p, nd_next_leaf = ?nx, nd_pairs = drop mn (prs ?N p)\<rparr>,
      ?nx \<mapsto> (node_at s ?nx)\<lparr>nd_prev_leaf := ?m\<rparr>, p \<mapsto> (node_at s p)\<lparr>nd_pairs := take mn (prs ?N p), nd_next_leaf := ?m\<rparr>)"
    "ix_next_page s2 = ?m + 1" "hdr_keep (ix_hdr s) (ix_hdr s2)" "root_page (ix_hdr s2) = root_page (ix_hdr s)"
    "last_leaf (ix_hdr s2) = (if last_leaf (ix_hdr s) = p then ?m else last_leaf (ix_hdr s))"
    using split_leaf_run[OF lv(1) ring_next[OF r(1)] nx] lt[of p] lv(2) mx by (auto simp: Let_def)
  let ?N2 = "ix_nodes s2"
  have pm: "p \<noteq> ?m" "?nx \<noteq> ?m" using lt[of p] nx(4) by auto
  have p2: "prs ?N2 p = take mn (prs ?N p)" "prs ?N2 ?m = drop mn (prs ?N p)" "isleaf ?N2 ?m"
    using pm by (simp_all add: s2(2))
  have o2: "(x \<in> dom ?N2 \<longleftrightarrow> x \<in> dom ?N) \<and> par ?N2 x = par ?N x \<and> isleaf ?N2 x = isleaf ?N x \<and> (x \<noteq> p \<longrightarrow> prs ?N2 x = prs ?N x)"
    if "x \<noteq> ?m" for x using that nx(1) lt[of p] by (auto simp: s2(2))
  have k0: "key0 ?N2 x = key0 ?N x" if "x \<noteq> ?m" for x
  proof (cases "x = p")
    case True
    have "hd (take mn (prs ?N p)) = hd (prs ?N p)" using lv(2) mx by (cases "prs ?N p") (auto simp: take_Cons')
    then show ?thesis using True p2 by (simp add: key0_def)
  qed (use o2[OF that] in \<open>simp add: key0_def\<close>)
  have pk2: "pages_ok ?N2 (?m + 1) (?m # A @ p # B @ concat Us)"
  proof -
    have "dom ?N2 = insert ?m (dom ?N)" using o2 by (auto simp: s2(2))
    then show ?thesis using pages_ok_mono[OF pk, of ?N2 "?m + 1"] lt r(4) by (force simp: pages_ok_Cons)
  qed
  have "upper_ok mn mx s2 (A @ p # B) Us"
  proof -
    have "stacked (key0 ?N2) ?N2 (root_page (ix_hdr s)) (A @ p # B) Us"
    proof (rule stacked_cong[of "key0 ?N" ?N])
      show "stacked (key0 ?N) ?N (root_page (ix_hdr s)) (A @ p # B) Us" using uu by blast
      have nm: "x \<noteq> ?m" if "x \<in> set ((A @ p # B) @ concat Us)" for x using lt[OF that] by simp
      show "prs ?N2 x = prs ?N x \<and> isleaf ?N2 x = isleaf ?N x" if "x \<in> set (concat Us)" for x
      proof -
        have "x \<noteq> p" using that d by auto
        then show ?thesis using nm[of x] o2[of x] that by auto
      qed
      show "par ?N2 x = par ?N x" if "x \<in> set ((A @ p # B) @ concat Us)" for x using nm[OF that] o2[of x] by blast
      show "key0 ?N2 x = key0 ?N x" if "x \<in> set (A @ p # B)" for x using nm[of x] k0[of x] that by auto
    qed
    moreover have "size_ok mn mx (node_at s2 x)" if "x \<in> set (concat Us)" for x
    proof -
      have "x \<noteq> ?m" "x \<noteq> p" using that lt[of x] d by auto
      then have e: "par ?N2 x = par ?N x" "isleaf ?N2 x = isleaf ?N x" "length (prs ?N2 x) = length (prs ?N x)"
        using o2[of x] by simp_all
      have "size_ok mn mx (the (?N x))" using uu that by blast
      then show ?thesis using e by (rule size_ok_cong)
    qed
    ultimately show ?thesis using uu pk2 s2(3,5) hdr_keepD(1)[OF s2(4)] by (auto simp: upper_ok_def pages_ok_Cons)
  qed
  moreover have "ring ?N2 (A @ p # ?m # B)"
  proof (rule ring_split[OF r(1) _ refl])
    have nm: "x \<noteq> ?m \<and> x \<noteq> 1" if "x \<in> set (A @ p # B)" for x using lt[of x] that by auto
    then have one: "1 \<noteq> p" "1 \<noteq> ?m" "1 \<notin> set (A @ B)" "?m \<notin> set (A @ p # B)" using r(4) by auto
    then show "distinct (1 # A @ p # ?m # B)" using d by auto
    show "nd_next_leaf (the (?N2 p)) = ?m" "nd_prev_leaf (the (?N2 ?nx)) = ?m" using nx(3) by (simp_all add: s2(2))
    show "nd_prev_leaf (the (?N2 ?m)) = p" "nd_next_leaf (the (?N2 ?m)) = ?nx" using pm by (simp_all add: s2(2))
    show "nd_next_leaf (the (?N2 a)) = nd_next_leaf (the (?N a))" if "a \<in> set (1 # A @ B)" for a
    proof -
      have "a \<noteq> p" "a \<noteq> ?m" using that d one nm by auto
      then show ?thesis by (simp add: s2(2))
    qed
    show "nd_prev_leaf (the (?N2 a)) = nd_prev_leaf (the (?N a))" if "a \<in> set (1 # A @ p # B)" "a \<noteq> ?nx" for a
    proof -
      have "a \<noteq> ?m" using that one nm by auto
      then show ?thesis using that(2) by (simp add: s2(2))
    qed
  qed
  moreover have "last_leaf (ix_hdr s2) = last (A @ p # ?m # B)"
    using s2(6) r(3) d by (auto dest: last_in_set)
  ultimately show ?thesis using s2 p2 o2 pk2 by (intro exI[of _ s2]) (simp add: Let_def)
qed

section \<open>Inserting an entry\<close>

lemma not_root_of_two:
  assumes u: "upper_ok mn mx s ps Us" and y: "y \<in> set ps" "z \<in> set ps" "y \<noteq> z"
  shows "par (ix_nodes s) y \<noteq> IX_NO_PAGE"
proof -
  let ?N = "ix_nodes s" and ?r = "root_page (ix_hdr s)"
  have st: "stacked (key0 ?N) ?N ?r ps Us" and pk: "pages_ok ?N (ix_next_page s) (ps @ concat Us)"
    using u by (auto simp: upper_ok_def)
  have "Us \<noteq> []" using st y by (cases Us) auto
  then have "?r \<in> set (concat Us)" using stacked_root_in[OF st] by blast
  then have "y \<noteq> ?r" using y(1) pk by (auto simp: pages_ok_def)
  then show ?thesis using stacked_root[OF st, of y] pages_okD[OF pk] y(1) by auto
qed

lemma length_insert_by:
  "ordered_by rank kvs \<Longrightarrow> lookup_by rank x kvs = None \<Longrightarrow> length (insert_by rank x v kvs) = length kvs + 1"
  by (simp add: insert_by_below)

lemma set_insert_by: "ordered_by rank kvs \<Longrightarrow> lookup_by rank x kvs = None \<Longrightarrow> set (insert_by rank x v kvs) = insert (x, v) (set kvs)"
  by (simp add: insert_by_below) (metis Un_insert_right append_take_drop_id set_append)

lemma hd_insert_by:
  "ordered_by rank kvs \<Longrightarrow> kvs \<noteq> [] \<Longrightarrow> rank (fst (hd kvs)) \<le> rank x \<Longrightarrow> lookup_by rank x kvs = None \<Longrightarrow>
    hd (insert_by rank x v kvs) = hd kvs"
  by (cases kvs) (auto simp: insert_by_def lookup_by_def find_None_iff)

text \<open>The insertion into the leaf: everything but that leaf stays.\<close>

definition leaf_inserted :: "(bytes \<Rightarrow> 'r :: linorder) \<Rightarrow> ix_state \<Rightarrow> page_id_t \<Rightarrow> bytes \<Rightarrow> Rid \<Rightarrow> ix_state" where
  "leaf_inserted rank s p x v = s\<lparr>ix_nodes := (ix_nodes s)(p \<mapsto> (node_at s p)\<lparr>nd_pairs := insert_by rank x v (prs (ix_nodes s) p)\<rparr>)\<rparr>"

context key_order
begin

lemma leaf_inserted_ok:
  assumes u: "upper_ok mn mx s (A @ p # B) Us" and lv: "leaves_ok rank ok mn mx s (A @ p # B)"
    and lo: "A \<noteq> [] \<longrightarrow> prs (ix_nodes s) p \<noteq> [] \<and> rank (key0 (ix_nodes s) p) \<le> rank x"
    and new: "lookup_by rank x (prs (ix_nodes s) p) = None"
  shows "upper_ok mn mx (leaf_inserted rank s p x v) (A @ p # B) Us"
    "ring (ix_nodes (leaf_inserted rank s p x v)) (A @ p # B)"
proof -
  let ?N = "ix_nodes s" and ?s1 = "leaf_inserted rank s p x v"
  let ?N1 = "ix_nodes ?s1"
  have N1: "?N1 = ?N(p \<mapsto> (node_at s p)\<lparr>nd_pairs := insert_by rank x v (prs ?N p)\<rparr>)" by (simp add: leaf_inserted_def)
  have o: "ordered_by rank (prs ?N p)" using lv by (auto simp: leaves_ok_def ordered_append)
  have pk: "pages_ok ?N (ix_next_page s) ((A @ p # B) @ concat Us)" using u by (simp add: upper_ok_def)
  then have d: "p \<notin> set (concat Us)" "distinct (A @ p # B)" by (auto simp: pages_ok_def)
  have "stacked (key0 ?N1) ?N1 (root_page (ix_hdr s)) (A @ p # B) Us"
  proof (rule stacked_cong[of "key0 ?N" ?N])
    show "stacked (key0 ?N) ?N (root_page (ix_hdr s)) (A @ p # B) Us" using u by (simp add: upper_ok_def)
    show "prs ?N1 y = prs ?N y \<and> isleaf ?N1 y = isleaf ?N y" if "y \<in> set (concat Us)" for y using that d by (auto simp: N1)
    show "par ?N1 y = par ?N y" for y by (simp add: N1)
    show "key0 ?N1 y = key0 ?N y" if "y \<in> set (A @ p # B)" "y \<noteq> hd (A @ p # B)" for y
    proof (cases "y = p")
      case True
      then have "A \<noteq> []" using that(2) by auto
      then show ?thesis using True hd_insert_by[OF o _ _ new, of v] lo by (simp add: N1 key0_def)
    qed (simp add: N1 key0_def)
  qed
  moreover have "pages_ok ?N1 (ix_next_page s) ((A @ p # B) @ concat Us)" using pages_ok_mono[OF pk, of ?N1] by (auto simp: N1)
  moreover have "size_ok mn mx (the (?N1 y))" if "y \<in> set (concat Us)" for y
    using u that d by (auto simp: upper_ok_def N1)
  ultimately show "upper_ok mn mx ?s1 (A @ p # B) Us" using u by (simp add: upper_ok_def) (simp add: leaf_inserted_def)
  show "ring ?N1 (A @ p # B)" using lv unfolding leaves_ok_def ring_def
    by (elim conjE) (erule successively_change, auto simp: N1)
qed

lemma leaves_ok_level:
  assumes lv: "leaves_ok rank ok mn mx s (A @ p # B)" and u: "upper_ok mn mx s (A @ p # B) Us"
    and y: "y \<in> set (A @ B)" and d: "distinct (A @ p # B)"
  shows "mn \<le> length (prs (ix_nodes s) y)" "length (prs (ix_nodes s) y) < mx"
proof -
  have "y \<noteq> p" using y d by auto
  then have "par (ix_nodes s) y \<noteq> IX_NO_PAGE" using not_root_of_two[OF u, of y p] y by auto
  moreover have "size_ok mn mx (the (ix_nodes s y))" using lv y by (auto simp: leaves_ok_def)
  ultimately show "mn \<le> length (prs (ix_nodes s) y)" "length (prs (ix_nodes s) y) < mx" by (auto simp: size_ok_def)
qed

lemma insert_entry_run:
  assumes t: "tree_inv rank ok s ps Us" and h: "hdr_for types lens (ix_hdr s)" and x: "ok x" and f: "length Us \<le> fuel"
    and new: "lookup_by rank x (flat (ix_nodes s) ps) = None"
  shows "\<exists>A p B. ps = A @ p # B \<and> (A \<noteq> [] \<longrightarrow> prs (ix_nodes s) p \<noteq> [] \<and> rank (key0 (ix_nodes s) p) \<le> rank x) \<and>
    lookup_by rank x (prs (ix_nodes s) p) = None \<and>
    insert_by rank x v (flat (ix_nodes s) ps) =
      flat (ix_nodes s) A @ insert_by rank x v (prs (ix_nodes s) p) @ flat (ix_nodes s) B \<and>
    insert_entry fuel x v s =
      (if int (length (insert_by rank x v (prs (ix_nodes s) p))) < get_max_size (ix_hdr s) then (Inr p, leaf_inserted rank s p x v)
       else bindE (split_node p) (\<lambda>m. bindE (ask_node m (slot_of 0 get_key)) (\<lambda>fk.
          bindE (getE (\<lambda>s. 0 \<le> key_compare (ix_hdr s) x fk)) (\<lambda>right.
            thenE (insert_into_parent fuel p fk m) (returnE (if right then m else p))))) (leaf_inserted rank s p x v))"
proof -
  let ?N = "ix_nodes s"
  note d = tree_invD[OF t]
  obtain A p B where p: "find_leaf_page fuel x False s = (Inr p, s)" "ps = A @ p # B" "A \<noteq> [] \<longrightarrow> rank (key0 ?N p) \<le> rank x"
    "\<forall>kv \<in> set (flat ?N A). rank (fst kv) < rank x" "\<forall>kv \<in> set (flat ?N B). rank x < rank (fst kv)"
    using find_leaf_page_ok[OF t h x f] by blast
  note part = lookup_by_part[OF p(4,5)]
  have ne: "prs ?N p \<noteq> []" if "A \<noteq> []" using tree_inv_nonempty[OF t h] p(2) that by (cases A) auto
  have lp: "lookup_by rank x (prs ?N p) = None" using new part(1)[of "prs ?N p"] p(2) by simp
  have o: "ordered_by rank (prs ?N p)" "\<forall>kv \<in> set (prs ?N p). ok (fst kv)" using d(6,7) p(2) by (auto simp: ordered_append)
  have "nd_insert (ix_hdr s) x v (node_at s p) = Inr ((node_at s p)\<lparr>nd_pairs := insert_by rank x v (prs ?N p)\<rparr>)"
    by (rule nd_insert_insert[OF h o x lp]) (use tree_inv_sizes(3)[OF t h, of p] p(2) in \<open>simp add: get_size_def\<close>)
  then have "call_node p (\<lambda>h. nd_insert h x v) s = (Inr (), leaf_inserted rank s p x v)"
    by (simp add: call_node_def leaf_inserted_def set_node_def)
  moreover have "get_value fuel x s = (Inr None, s)" using get_value_ok[OF t h x f] new by simp
  ultimately have "insert_entry fuel x v s =
      (if int (length (insert_by rank x v (prs ?N p))) < get_max_size (ix_hdr s) then (Inr p, leaf_inserted rank s p x v)
       else bindE (split_node p) (\<lambda>m. bindE (ask_node m (slot_of 0 get_key)) (\<lambda>fk.
          bindE (getE (\<lambda>s. 0 \<le> key_compare (ix_hdr s) x fk)) (\<lambda>right.
            thenE (insert_into_parent fuel p fk m) (returnE (if right then m else p))))) (leaf_inserted rank s p x v))"
    using p(1) by (simp add: insert_entry_def bindE_def thenE_def leaf_inserted_def get_size_def)
  then show ?thesis using p(2,3) ne lp part(2)[of v "prs ?N p"] by (intro exI[of _ A] exI[of _ p] exI[of _ B]) simp
qed

lemma insert_entry_full:
  fixes s :: ix_state and p :: page_id_t and x :: bytes and v :: Rid
  defines "s1 \<equiv> leaf_inserted rank s p x v" and "I \<equiv> insert_by rank x v (prs (ix_nodes s) p)"
  assumes u: "upper_ok mn mx s (A @ p # B) Us" and lv: "leaves_ok rank ok mn mx s (A @ p # B)" and h: "hdr_for types lens (ix_hdr s)"
    and lo: "A \<noteq> [] \<longrightarrow> prs (ix_nodes s) p \<noteq> [] \<and> rank (key0 (ix_nodes s) p) \<le> rank x"
    and new: "lookup_by rank x (prs (ix_nodes s) p) = None" and x: "ok x" and f: "length Us \<le> fuel"
    and full: "length I = mx" and oI: "ordered_by rank (flat (ix_nodes s) A @ I @ flat (ix_nodes s) B)"
  shows "\<exists>m q s3 Us'. bindE (split_node p) (\<lambda>m. bindE (ask_node m (slot_of 0 get_key)) (\<lambda>fk.
          bindE (getE (\<lambda>s. 0 \<le> key_compare (ix_hdr s) x fk)) (\<lambda>right.
            thenE (insert_into_parent fuel p fk m) (returnE (if right then m else p))))) s1 = (Inr q, s3) \<and>
    upper_ok mn mx s3 (A @ p # m # B) Us' \<and> leaves_ok rank ok mn mx s3 (A @ p # m # B) \<and> hdr_keep (ix_hdr s) (ix_hdr s3) \<and>
    flat (ix_nodes s3) (A @ p # m # B) = flat (ix_nodes s) A @ I @ flat (ix_nodes s) B \<and>
    (x, v) \<in> set (prs (ix_nodes s3) q)"
proof -
  let ?N = "ix_nodes s" and ?m = "ix_next_page s"
  have N1: "ix_nodes s1 = ?N(p \<mapsto> (node_at s p)\<lparr>nd_pairs := I\<rparr>)" and h1: "ix_hdr s1 = ix_hdr s" "ix_next_page s1 = ?m"
    by (simp_all add: s1_def I_def leaf_inserted_def)
  have u1: "upper_ok mn mx s1 (A @ p # B) Us" and r1: "ring (ix_nodes s1) (A @ p # B)"
    unfolding s1_def by (rule leaf_inserted_ok[OF u lv lo new])+
  note l = lv[unfolded leaves_ok_def]
  have lf: "isleaf (ix_nodes s1) p" "length (prs (ix_nodes s1) p) = mx" "1 \<in> dom (ix_nodes s1)"
    "last_leaf (ix_hdr s1) = last (A @ p # B)" "2 < ix_next_page s1" using l full by (simp_all add: N1 h1)
  obtain s2 where s2: "split_node p s1 = (Inr ?m, s2)" "upper_ok mn mx s2 (A @ p # B) Us"
    "pages_ok (ix_nodes s2) (?m + 1) (?m # A @ p # B @ concat Us)"
    "prs (ix_nodes s2) p = take mn I" "prs (ix_nodes s2) ?m = drop mn I" "isleaf (ix_nodes s2) ?m"
    and o2: "\<And>y. y \<noteq> ?m \<Longrightarrow> (y \<in> dom (ix_nodes s2) \<longleftrightarrow> y \<in> dom (ix_nodes s1)) \<and> par (ix_nodes s2) y = par (ix_nodes s1) y \<and>
      isleaf (ix_nodes s2) y = isleaf (ix_nodes s1) y \<and> (y \<noteq> p \<longrightarrow> prs (ix_nodes s2) y = prs (ix_nodes s1) y)"
    and r2: "ring (ix_nodes s2) (A @ p # ?m # B)" "last_leaf (ix_hdr s2) = last (A @ p # ?m # B)"
      "hdr_keep (ix_hdr s1) (ix_hdr s2)" "ix_next_page s2 = ?m + 1"
    using split_leaf_ok[OF u1 lf(1,2) r1 lf(3-5)] by (auto simp: Let_def N1 h1)
  have mx: "mn = mx div 2" "4 \<le> mx" using u by (auto simp: upper_ok_def)
  have ne: "prs (ix_nodes s2) p \<noteq> []" "prs (ix_nodes s2) ?m \<noteq> []" using s2(4,5) full mx by auto
  obtain s3 Us' where s3: "insert_into_parent fuel p (key0 (ix_nodes s2) ?m) ?m s2 = (Inr (), s3)"
    "upper_ok mn mx s3 (A @ p # ?m # B) Us'" "upper_frame s2 (A @ p # ?m # B) Us s3"
    using insert_into_parent_ok[OF s2(2) _ ne(1) refl f, of ?m] s2(3) r2(4) by auto
  note fr = s3(3)[unfolded upper_frame_def]
  have pkm: "pages_ok (ix_nodes s2) (?m + 1) (A @ p # ?m # B @ concat Us)" using s2(3) by (auto simp: pages_ok_def)
  have sm: "same_node (ix_nodes s2 y) (ix_nodes s3 y)" if "y \<in> set (A @ p # ?m # B)" for y using fr that by blast
  have one: "ix_nodes s3 1 = ix_nodes s2 1"
  proof -
    have "1 \<notin> set ((A @ p # ?m # B) @ concat Us)" using pages_okD[OF pkm, of 1] by auto
    moreover have "1 < ix_next_page s2" using lf(5) h1(2) r2(4) by simp
    ultimately show ?thesis using fr by blast
  qed
  have p3: "prs (ix_nodes s3) y = (if y = p then take mn I else if y = ?m then drop mn I else prs ?N y)" "isleaf (ix_nodes s3) y"
    if y: "y \<in> set (A @ p # ?m # B)" for y
  proof -
    have "isleaf ?N y" if "y \<noteq> ?m" using l y that by auto
    then show "prs (ix_nodes s3) y = (if y = p then take mn I else if y = ?m then drop mn I else prs ?N y)" "isleaf (ix_nodes s3) y"
      using same_nodeD(1,2)[of "ix_nodes s2" y "ix_nodes s3", OF sm[OF y]] s2(4-6) o2[of y]
      by (cases "y = ?m"; cases "y = p"; simp add: N1)+
  qed
  have d: "distinct (A @ p # ?m # B)" using pkm by (auto simp: pages_ok_def)
  have "flat (ix_nodes s3) A = flat ?N A" "flat (ix_nodes s3) B = flat ?N B"
    using p3(1) d by (auto intro!: flat_cong)
  then have fl: "flat (ix_nodes s3) (A @ p # ?m # B) = flat ?N A @ I @ flat ?N B"
    using p3(1)[of p] p3(1)[of ?m] d by auto
  have sz3: "size_ok mn mx (node_at s3 y)" if y: "y \<in> set (A @ p # ?m # B)" for y
  proof -
    have dd: "distinct (A @ p # B)" using d by auto
    have "mn \<le> length (prs (ix_nodes s3) y) \<and> length (prs (ix_nodes s3) y) < mx"
      using p3(1)[OF y] leaves_ok_level[OF lv u _ dd, of y] y full mx by auto
    then show ?thesis using mx by (intro size_okI) auto
  qed
  have okI: "\<forall>kv \<in> set (flat ?N A @ I @ flat ?N B). ok (fst kv)"
    using l x set_insert_by[OF _ new, of v] by (auto simp: I_def ordered_append)
  have ring3: "ring (ix_nodes s3) (A @ p # ?m # B)"
    using r2(1) unfolding ring_def
  proof (rule successively_change)
    have keep: "nd_next_leaf (the (ix_nodes s3 y)) = nd_next_leaf (the (ix_nodes s2 y))"
      "nd_prev_leaf (the (ix_nodes s3 y)) = nd_prev_leaf (the (ix_nodes s2 y))" if "y \<in> set (1 # (A @ p # ?m # B) @ [1])" for y
      using that sm[of y] same_nodeD(6,7)[of "ix_nodes s2" y "ix_nodes s3"] one by auto
    fix a b assume "a \<in> set (butlast (1 # (A @ p # ?m # B) @ [1]))" "b \<in> set (tl (1 # (A @ p # ?m # B) @ [1]))"
      "nd_next_leaf (the (ix_nodes s2 a)) = b \<and> nd_prev_leaf (the (ix_nodes s2 b)) = a"
    then show "nd_next_leaf (the (ix_nodes s3 a)) = b \<and> nd_prev_leaf (the (ix_nodes s3 b)) = a"
      using keep[of a] keep[of b] in_set_butlastD list.set_sel(2) by (metis list.sel(3) list.set_intros(2))
  qed
  have dom3: "1 \<in> dom (ix_nodes s3)" using o2[of 1] lf(3,5) h1(2) one by (auto simp: domIff)
  have hk: "hdr_keep (ix_hdr s) (ix_hdr s3)" using fr r2(3) h1 hdr_keep_trans by auto
  have "2 < ix_next_page s3" "last_leaf (ix_hdr s3) = last (A @ p # ?m # B)" using fr r2(2,4) lf(5) h1(2) by auto
  moreover have "first_leaf (ix_hdr s3) = hd (A @ p # ?m # B)" using l hdr_keepD(4)[OF hk] by (simp add: hd_append)
  ultimately have lvs: "leaves_ok rank ok mn mx s3 (A @ p # ?m # B)"
    unfolding leaves_ok_def fl using oI okI ring3 dom3 sz3 p3(2) by blast
  have "hdr_for types lens (ix_hdr s2)" using h hdr_keepD(3)[OF r2(3)] h1 by simp
  note kc = key_compare_for[OF this]
  let ?q = "if rank (key0 (ix_nodes s2) ?m) \<le> rank x then ?m else p"
  have "ordered_by rank (take mn I @ drop mn I)" using oI by (simp add: ordered_append)
  note oII = this[unfolded ordered_append]
  have km: "key0 (ix_nodes s2) ?m = fst (hd (drop mn I))" "drop mn I \<noteq> []" using s2(5) ne(2) by (simp_all add: key0_def)
  then have hdm: "hd (drop mn I) \<in> set (drop mn I)" by simp
  have "(x, v) \<in> set I" using set_insert_by[OF _ new, of v] l by (auto simp: I_def ordered_append)
  then have "(x, v) \<in> set (take mn I) \<or> (x, v) \<in> set (drop mn I)" by (metis Un_iff append_take_drop_id set_append)
  moreover have "\<not> rank (key0 (ix_nodes s2) ?m) \<le> rank x" if "(x, v) \<in> set (take mn I)"
    using oII that hdm km(1) by fastforce
  moreover have "rank (key0 (ix_nodes s2) ?m) \<le> rank x" if "(x, v) \<in> set (drop mn I)"
  proof -
    obtain a as where a: "drop mn I = a # as" using km(2) by (cases "drop mn I") auto
    have "ordered_by rank (a # as)" using oII a by simp
    then show ?thesis using that a km(1) by (fastforce simp: ordered_Cons)
  qed
  ultimately have mem: "(x, v) \<in> set (prs (ix_nodes s3) ?q)" using p3(1)[of p] p3(1)[of ?m] d by auto
  have "hd (drop mn I) \<in> set I" using hdm by (meson in_set_dropD)
  then have "ok (key0 (ix_nodes s2) ?m)" using okI km(1) by auto
  then have "(0 \<le> key_compare (ix_hdr s2) x (key0 (ix_nodes s2) ?m)) = (rank (key0 (ix_nodes s2) ?m) \<le> rank x)"
    using cmp_less[OF x, of "key0 (ix_nodes s2) ?m"] by (auto simp: kc not_less[symmetric])
  then have "bindE (split_node p) (\<lambda>m. bindE (ask_node m (slot_of 0 get_key)) (\<lambda>fk.
          bindE (getE (\<lambda>s. 0 \<le> key_compare (ix_hdr s) x fk)) (\<lambda>right.
            thenE (insert_into_parent fuel p fk m) (returnE (if right then m else p))))) s1 = (Inr ?q, s3)"
    using s2(1) s3(1) ne(2)
    by (simp add: bindE_def thenE_def slot_of_def get_size_def get_key_def key0_def hd_conv_nth)
  then show ?thesis using s3(2) hk fl mem lvs by blast
qed

lemma insert_entry_ok:
  assumes t: "tree_inv rank ok s ps Us" and h: "hdr_for types lens (ix_hdr s)" and x: "ok x" and f: "length Us \<le> fuel"
    and new: "lookup_by rank x (flat (ix_nodes s) ps) = None"
  shows "\<exists>q s' ps' Us'. insert_entry fuel x v s = (Inr q, s') \<and> tree_inv rank ok s' ps' Us' \<and> hdr_for types lens (ix_hdr s') \<and>
    flat (ix_nodes s') ps' = insert_by rank x v (flat (ix_nodes s) ps) \<and> (x, v) \<in> set (prs (ix_nodes s') q) \<and>
    hdr_keep (ix_hdr s) (ix_hdr s')"
proof -
  let ?N = "ix_nodes s"
  define mx where "mx = nat (get_max_size (ix_hdr s))"
  define mn where "mn = mx div 2"
  obtain A p B where ps: "ps = A @ p # B" and lo: "A \<noteq> [] \<longrightarrow> prs ?N p \<noteq> [] \<and> rank (key0 ?N p) \<le> rank x"
    and np: "lookup_by rank x (prs ?N p) = None"
    and ib: "insert_by rank x v (flat ?N ps) = flat ?N A @ insert_by rank x v (prs ?N p) @ flat ?N B"
    and run: "insert_entry fuel x v s =
      (if int (length (insert_by rank x v (prs (ix_nodes s) p))) < get_max_size (ix_hdr s) then (Inr p, leaf_inserted rank s p x v)
       else bindE (split_node p) (\<lambda>m. bindE (ask_node m (slot_of 0 get_key)) (\<lambda>fk.
          bindE (getE (\<lambda>s. 0 \<le> key_compare (ix_hdr s) x fk)) (\<lambda>right.
            thenE (insert_into_parent fuel p fk m) (returnE (if right then m else p))))) (leaf_inserted rank s p x v))"
    using insert_entry_run[OF t h x f new, of v] by (elim exE conjE) (rule that)
  note parts = tree_inv_parts[OF h mx_def mn_def, of rank ok]
  have u: "upper_ok mn mx s (A @ p # B) Us" and lv: "leaves_ok rank ok mn mx s (A @ p # B)" using t parts ps by auto
  have o: "ordered_by rank (prs ?N p)" using lv by (auto simp: leaves_ok_def ordered_append)
  let ?I = "insert_by rank x v (prs ?N p)" and ?s1 = "leaf_inserted rank s p x v"
  have oI: "ordered_by rank (flat ?N A @ ?I @ flat ?N B)"
    using insert_by_ordered[OF tree_invD(6)[OF t], of x v] ib by simp
  have len: "length ?I \<le> mx"
    using length_insert_by[OF o np, of v] tree_inv_sizes(3)[OF t h, of p] ps by (auto simp: mx_def)
  have mxi: "int mx = get_max_size (ix_hdr s)" using u by (simp add: upper_ok_def)
  show ?thesis
  proof (cases "length ?I < mx")
    case True
    have N1: "ix_nodes ?s1 = ?N(p \<mapsto> (node_at s p)\<lparr>nd_pairs := ?I\<rparr>)" and h1: "ix_hdr ?s1 = ix_hdr s" "ix_next_page ?s1 = ix_next_page s"
      by (simp_all add: leaf_inserted_def)
    have d: "distinct (A @ p # B)" using u by (auto simp: upper_ok_def pages_ok_def)
    have "flat (ix_nodes ?s1) A = flat ?N A" "flat (ix_nodes ?s1) B = flat ?N B" using d by (auto intro!: flat_cong simp: N1)
    then have fl: "flat (ix_nodes ?s1) ps = insert_by rank x v (flat ?N ps)" using ib ps by (simp add: N1)
    note l = lv[unfolded leaves_ok_def]
    have "size_ok mn mx (node_at ?s1 y)" if "y \<in> set (A @ p # B)" for y
    proof (cases "y = p")
      case True
      then show ?thesis using l \<open>length ?I < mx\<close> length_insert_by[OF o np, of v] by (auto simp: N1 size_ok_def split: if_splits)
    qed (use l that in \<open>auto simp: N1\<close>)
    moreover have "\<forall>kv \<in> set (flat ?N A @ ?I @ flat ?N B). ok (fst kv)" using l x set_insert_by[OF o np, of v] by auto
    ultimately have "leaves_ok rank ok mn mx ?s1 ps"
      using l oI leaf_inserted_ok(2)[OF u lv lo np, of v] fl ib ps by (auto simp: leaves_ok_def h1 N1)
    then have "tree_inv rank ok ?s1 ps Us"
      using leaf_inserted_ok(1)[OF u lv lo np, of v] tree_inv_parts[of types lens ?s1 mx mn rank ok] h ps by (simp add: h1 mx_def mn_def)
    moreover have "(x, v) \<in> set (prs (ix_nodes ?s1) p)" using set_insert_by[OF o np, of v] by (simp add: N1)
    ultimately show ?thesis using run True mxi h fl by (intro exI[of _ p] exI[of _ ?s1] exI[of _ ps] exI[of _ Us]) (simp add: h1)
  next
    case False
    then have "length ?I = mx" using len by simp
    from insert_entry_full[OF u lv h lo np x f this oI]
    obtain m q s3 Us' where s3: "bindE (split_node p) (\<lambda>m. bindE (ask_node m (slot_of 0 get_key)) (\<lambda>fk.
          bindE (getE (\<lambda>s. 0 \<le> key_compare (ix_hdr s) x fk)) (\<lambda>right.
            thenE (insert_into_parent fuel p fk m) (returnE (if right then m else p))))) ?s1 = (Inr q, s3)"
      "upper_ok mn mx s3 (A @ p # m # B) Us'" "leaves_ok rank ok mn mx s3 (A @ p # m # B)" "hdr_keep (ix_hdr s) (ix_hdr s3)"
      "flat (ix_nodes s3) (A @ p # m # B) = flat ?N A @ ?I @ flat ?N B" "(x, v) \<in> set (prs (ix_nodes s3) q)"
      by blast
    have h3: "hdr_for types lens (ix_hdr s3)" "get_max_size (ix_hdr s3) = get_max_size (ix_hdr s)"
      using hdr_keepD(1,3)[OF s3(4)] h by auto
    have "tree_inv rank ok s3 (A @ p # m # B) Us'"
      using tree_inv_parts[OF h3(1), of mx mn rank ok] s3(2,3) h3(2) by (simp add: mx_def mn_def)
    then show ?thesis using run False mxi s3 h3 ib by (intro exI[of _ q] exI[of _ s3] exI[of _ "A @ p # m # B"] exI[of _ Us']) simp
  qed
qed

end

end
