(* ===== verification/IxTreeDelete.thy ===== *)
theory IxTreeDelete
  imports IxTreeInsert
begin

text \<open>
  Deletion from the B+ tree: the first keys are passed up to the separators above, a node with too
  few pairs takes one from a neighbour or is merged with it, and the entries afterwards are those
  before without the deleted one.
\<close>

section \<open>Passing first keys up\<close>

lemma memcmp_eq:
  assumes "length a = n" "length b = n"
  shows "memcmp a b n = 0 \<longleftrightarrow> a = b"
proof -
  have "map uint a = map uint b \<longleftrightarrow> a = b" by (rule inj_map_eq_map) (simp add: inj_def word_uint_eq_iff)
  then show ?thesis using memcmp_rank(2)[of n a b] assms by simp
qed

text \<open>The first keys of a level, apart from its leftmost page, have the length of a key.\<close>

definition key_lens :: "nat \<Rightarrow> (page_id_t \<Rightarrow> bytes) \<Rightarrow> page_id_t list \<Rightarrow> bool" where
  "key_lens L K ps \<longleftrightarrow> (\<forall>p \<in> set ps. p \<noteq> hd ps \<longrightarrow> length (K p) = L)"

lemma linked_first_key:
  assumes l: "linked K N qs ps" and d: "distinct ps" and q: "q \<in> set qs" "q \<noteq> hd qs"
  shows "\<exists>p. p \<in> set ps \<and> p \<noteq> hd ps \<and> key0 N q = K p"
proof -
  obtain a as where a: "prs N q = a # as" using linkedD(2)[OF l q(1)] by (cases "prs N q") auto
  obtain C D where qs: "qs = C @ q # D" using q by (meson split_list)
  then obtain c C' where C: "C = c # C'" using q(2) by (cases C) auto
  have "prs N c \<noteq> []" using linkedD(2)[OF l, of c] qs C by auto
  then have "chs N C \<noteq> []" using C by simp
  moreover have ps: "ps = chs N C @ map pg (a # as) @ chs N D" using linked_chs[OF l] qs a by simp
  ultimately have "pg a \<noteq> hd ps" using distinct_not_hd[of "chs N C" "map pg (a # as) @ chs N D" "pg a"] d by simp
  moreover have "fst a = K (pg a)" using linkedD(5)[OF l q(1), of a] a calculation by simp
  ultimately show ?thesis using ps a by (intro exI[of _ "pg a"]) (simp add: key0_def)
qed

lemma key_lens_up:
  "linked K N qs ps \<Longrightarrow> distinct ps \<Longrightarrow> key_lens L K ps \<Longrightarrow> key_lens L (key0 N) qs"
  using linked_first_key unfolding key_lens_def by metis

text \<open>Setting one separator.\<close>

lemma linked_set_key:
  assumes l: "linked K N (C @ q # D) ps" and q: "prs N q = X @ kv # Y" and d: "distinct (C @ q # D)" "distinct ps"
    and N': "N' = N(q \<mapsto> (the (N q))\<lparr>nd_pairs := X @ (k, snd kv) # Y\<rparr>)"
    and K': "K' (pg kv) = k" "\<And>p. p \<in> set ps \<Longrightarrow> p \<noteq> pg kv \<Longrightarrow> p \<noteq> hd ps \<Longrightarrow> K' p = K p"
  shows "linked K' N' (C @ q # D) ps"
proof -
  have ps: "ps = chs N C @ map pg X @ pg kv # map pg Y @ chs N D" using linked_chs[OF l] q by simp
  have c: "chs N' C = chs N C" "chs N' D = chs N D" using d(1) by (auto intro!: chs_cong simp: N')
  have k: "fst e = K' (pg e)" if "p \<in> set (C @ q # D)" "e \<in> set (prs N p)" "pg e \<noteq> hd ps" "pg e \<noteq> pg kv" for p e
    using linkedD(4,5)[OF l that(1,2)] K'(2)[of "pg e"] that by simp
  have "pg kv \<notin> set (map pg X) \<union> set (map pg Y)" using d(2) by (simp add: ps)
  then have one: "pg e \<noteq> pg kv" if "e \<in> set X \<union> set Y" for e using that by (metis UnE UnI1 UnI2 image_eqI list.set_map)
  have oth: "pg e \<noteq> pg kv" if "p \<in> set (C @ D)" "e \<in> set (prs N p)" for p e
  proof -
    have "pg e \<in> set (chs N C) \<union> set (chs N D)" using that by (auto simp: chs_def flat_def)
    then show ?thesis using d(2) by (auto simp: ps)
  qed
  have par: "par N' x = par N x" for x by (simp add: N')
  have "\<not> isleaf N' p \<and> prs N' p \<noteq> [] \<and> (\<forall>e \<in> set (prs N' p). par N' (pg e) = p \<and> (pg e \<noteq> hd ps \<longrightarrow> fst e = K' (pg e)))"
    if p: "p \<in> set (C @ q # D)" for p
  proof (cases "p = q")
    case True
    have "par N (pg e) = q \<and> (pg e \<noteq> hd ps \<longrightarrow> fst e = K' (pg e))" if "e \<in> set (X @ (k, snd kv) # Y)" for e
    proof (cases "e = (k, snd kv)")
      case True
      then show ?thesis using K'(1) linkedD(3)[OF l p, of kv] \<open>p = q\<close> q by (simp add: pg_def)
    next
      case False
      then show ?thesis using that k[OF p, of e] one[of e] linkedD(3)[OF l p, of e] \<open>p = q\<close> q by auto
    qed
    then show ?thesis using True linkedD(1)[OF l p] by (simp add: par) (simp add: N')
  next
    case False
    then have "p \<in> set (C @ D)" using p by auto
    then show ?thesis using False linkedD(1,2,3)[OF l p] k[OF p] oth[of p] by (simp add: par) (simp add: N')
  qed
  moreover have "chs N' (C @ q # D) = ps" unfolding ps using c by (simp add: N' pg_def)
  ultimately show ?thesis unfolding linked_def by blast
qed

text \<open>Nodes whose separators may have changed, and nothing else.\<close>

definition same_but_keys :: "ix_node option \<Rightarrow> ix_node option \<Rightarrow> bool" where
  "same_but_keys n n' \<longleftrightarrow> n \<noteq> None \<and> n' \<noteq> None \<and> map snd (nd_pairs (the n')) = map snd (nd_pairs (the n)) \<and>
     the n' = (the n)\<lparr>nd_pairs := nd_pairs (the n')\<rparr>"

lemma same_but_keysD:
  assumes "same_but_keys (N p) (N' p)"
  shows "par N' p = par N p" "isleaf N' p = isleaf N p" "length (prs N' p) = length (prs N p)" "map snd (prs N' p) = map snd (prs N p)"
    "p \<in> dom N" "p \<in> dom N'"
proof -
  have e: "the (N' p) = (the (N p))\<lparr>nd_pairs := prs N' p\<rparr>" and s: "map snd (prs N' p) = map snd (prs N p)" and n: "N p \<noteq> None" "N' p \<noteq> None"
    using assms by (auto simp: same_but_keys_def)
  show "par N' p = par N p" "isleaf N' p = isleaf N p" by (subst e; simp)+
  show "map snd (prs N' p) = map snd (prs N p)" by (rule s)
  then show "length (prs N' p) = length (prs N p)" by (metis length_map)
  show "p \<in> dom N" "p \<in> dom N'" using n by auto
qed

lemma same_but_keys_refl [simp]: "p \<in> dom N \<Longrightarrow> same_but_keys (N p) (N p)"
  by (auto simp: same_but_keys_def)

lemma same_but_keys_trans: "same_but_keys a b \<Longrightarrow> same_but_keys b c \<Longrightarrow> same_but_keys a c"
proof -
  assume a: "same_but_keys a b" and b: "same_but_keys b c"
  have "the c = (the b)\<lparr>nd_pairs := nd_pairs (the c)\<rparr>" "the b = (the a)\<lparr>nd_pairs := nd_pairs (the b)\<rparr>"
    using a b by (simp_all add: same_but_keys_def)
  then have "the c = (the a)\<lparr>nd_pairs := nd_pairs (the c)\<rparr>" by (metis ix_node.update_convs(6) ix_node.surjective)
  then show ?thesis using a b by (simp add: same_but_keys_def)
qed


definition keys_frame :: "page_id_t list \<Rightarrow> nodes \<Rightarrow> nodes \<Rightarrow> bool" where
  "keys_frame qs N N' \<longleftrightarrow> (\<forall>p. p \<notin> set qs \<longrightarrow> N' p = N p) \<and> (\<forall>p \<in> set qs. same_but_keys (N p) (N' p))"

lemma keys_frameD:
  assumes "keys_frame qs N N'"
  shows "par N' p = par N p" "isleaf N' p = isleaf N p" "length (prs N' p) = length (prs N p)" "p \<notin> set qs \<Longrightarrow> N' p = N p" "dom N' = dom N"
proof -
  have e: "N' p = N p" if "p \<notin> set qs" for p using assms that by (simp add: keys_frame_def)
  have s: "same_but_keys (N p) (N' p)" if "p \<in> set qs" for p using assms that by (simp add: keys_frame_def)
  show "par N' p = par N p" "isleaf N' p = isleaf N p" "length (prs N' p) = length (prs N p)"
    using e[of p] same_but_keysD(1,2,3)[of N p N'] s[of p] by (cases "p \<in> set qs"; simp)+
  show "p \<notin> set qs \<Longrightarrow> N' p = N p" by (rule e)
  have "x \<in> dom N' \<longleftrightarrow> x \<in> dom N" for x
    using e[of x] same_but_keysD(5,6)[of N x N'] s[of x] by (cases "x \<in> set qs") (auto simp: domIff)
  then show "dom N' = dom N" by blast
qed

lemma keys_frame_refl: "set qs \<subseteq> dom N \<Longrightarrow> keys_frame qs N N"
  by (auto simp: keys_frame_def)

lemma keys_frame_trans:
  assumes "keys_frame qs N N1" "keys_frame rs N1 N2" "set qs \<subseteq> set us" "set rs \<subseteq> set us" "set us \<subseteq> dom N"
  shows "keys_frame us N N2"
proof -
  have "same_but_keys (N p) (N2 p)" if "p \<in> set us" for p
  proof -
    have "same_but_keys (N p) (N1 p)" using assms(1,5) that by (cases "p \<in> set qs") (auto simp: keys_frame_def)
    moreover have "same_but_keys (N1 p) (N2 p)"
      using assms(2) calculation by (cases "p \<in> set rs") (auto simp: keys_frame_def same_but_keys_def)
    ultimately show ?thesis by (rule same_but_keys_trans)
  qed
  moreover have "N2 p = N p" if "p \<notin> set us" for p
  proof -
    have "p \<notin> set qs" "p \<notin> set rs" using that assms(3,4) by auto
    then show ?thesis using assms(1,2) by (simp add: keys_frame_def)
  qed
  ultimately show ?thesis by (simp add: keys_frame_def)
qed

lemma maintain_parent_ok:
  assumes "stacked K (ix_nodes s) r ps Us" "pages_ok (ix_nodes s) m (ps @ concat Us)" "o1 \<in> set ps" "prs (ix_nodes s) o1 \<noteq> []"
    "\<And>p. p \<in> set ps \<Longrightarrow> p \<noteq> o1 \<Longrightarrow> p \<noteq> hd ps \<Longrightarrow> K p = key0 (ix_nodes s) p"
    "key_lens L K ps" "key_lens L (key0 (ix_nodes s)) ps" "L = nat (col_tot_len (ix_hdr s))" "length Us \<le> fuel"
  shows "\<exists>N'. maintain_parent fuel o1 s = (Inr (), s\<lparr>ix_nodes := N'\<rparr>) \<and> stacked (key0 N') N' r ps Us \<and>
    keys_frame (concat Us) (ix_nodes s) N'"
  using assms
proof (induction Us arbitrary: s K ps o1 fuel)
  case Nil
  then have "maintain_parent fuel o1 s = (Inr (), s\<lparr>ix_nodes := ix_nodes s\<rparr>)"
    by (subst maintain_parent.simps) simp
  then show ?case using Nil by (intro exI[of _ "ix_nodes s"]) (simp add: keys_frame_def)
next
  case (Cons qs Us)
  let ?N = "ix_nodes s"
  have l: "linked K ?N qs ps" and st: "stacked (key0 ?N) ?N r qs Us" using Cons.prems(1) by auto
  have d: "distinct ps" "distinct qs" "set ps \<inter> set qs = {}" "set ps \<inter> set (concat Us) = {}" "set qs \<inter> set (concat Us) = {}"
    and pq: "pages_ok ?N m (qs @ concat Us)" using Cons.prems(2) by (auto simp: pages_ok_def)
  obtain C q D X kv Y where q: "qs = C @ q # D" "prs ?N q = X @ kv # Y" "pg kv = o1" "par ?N o1 = q"
    "ps = chs ?N C @ map pg X @ o1 # map pg Y @ chs ?N D" using linked_place[OF l Cons.prems(3)] by auto
  have qin: "q \<in> set qs" using q(1) by simp
  have qd: "q \<in> dom ?N" "0 \<le> q" using pages_okD[OF pq, of q] qin by auto
  obtain f where f: "fuel = Suc f" "length Us \<le> f" using Cons.prems(9) by (cases fuel) auto
  have fc: "find_child o1 (node_at s q) = Inr (length X)" using find_child_at[OF q(2)] q(3,5) d(1) by auto
  let ?k = "key0 ?N o1"
  have get: "slot_of (length X) get_key (ix_hdr s) (node_at s q) = Inr (fst kv)" "slot_of 0 get_key (ix_hdr s) (node_at s o1) = Inr ?k"
    using q(2) Cons.prems(4) by (simp_all add: slot_of_def get_size_def get_key_def key0_def hd_conv_nth)
  define N1 where "N1 = ?N(q \<mapsto> (node_at s q)\<lparr>nd_pairs := X @ (?k, snd kv) # Y\<rparr>)"
  have sk: "set_key (length X) ?k (node_at s q) = (node_at s q)\<lparr>nd_pairs := X @ (?k, snd kv) # Y\<rparr>"
    using q(2) by (simp add: set_key_def get_rid_def)
  have run: "maintain_parent fuel o1 s = (if memcmp (fst kv) ?k L = 0 then (Inr (), s) else maintain_parent f q (s\<lparr>ix_nodes := N1\<rparr>))"
    using qd q(4) fc get Cons.prems(8) f(1) sk
    by (subst maintain_parent.simps) (auto simp: bindE_def thenE_def N1_def)
  have fk: "fst kv = K o1" if "o1 \<noteq> hd ps" using linkedD(5)[OF l qin, of kv] q that by simp
  show ?case
  proof (cases "memcmp (fst kv) ?k L = 0")
    case True
    have "K p = key0 ?N p" if p: "p \<in> set ps" "p \<noteq> hd ps" for p
    proof (cases "p = o1")
      case True
      then have "length (fst kv) = L" "length ?k = L" using p fk Cons.prems(6,7) by (auto simp: key_lens_def)
      then show ?thesis using \<open>memcmp (fst kv) ?k L = 0\<close> memcmp_eq fk True p by metis
    qed (use Cons.prems(5) p in auto)
    then have "stacked (key0 ?N) ?N r ps (qs # Us)"
      by (intro stacked_cong[OF Cons.prems(1)]) auto
    moreover have "set (concat (qs # Us)) \<subseteq> dom ?N" using pages_okD[OF pq] by auto
    ultimately show ?thesis using run True keys_frame_refl by (intro exI[of _ ?N]) auto
  next
    case False
    let ?s1 = "s\<lparr>ix_nodes := N1\<rparr>"
    have k0: "key0 N1 p = key0 ?N p" if "p \<noteq> q" for p using that by (simp add: N1_def key0_def)
    have l1: "linked (key0 N1) N1 qs ps"
      unfolding q(1)
    proof (rule linked_set_key[OF l[unfolded q(1)] q(2) _ d(1) N1_def])
      show "distinct (C @ q # D)" using d(2) q(1) by simp
      have nq: "p \<noteq> q" if "p \<in> set ps" for p using that d(3) qin by auto
      then show "key0 N1 (pg kv) = ?k" using q(3) k0 Cons.prems(3) by auto
      show "key0 N1 p = K p" if "p \<in> set ps" "p \<noteq> pg kv" "p \<noteq> hd ps" for p
        using k0[OF nq[OF that(1)]] Cons.prems(5)[of p] that q(3) by simp
    qed
    have kl1: "key_lens L (key0 N1) ps"
      using Cons.prems(7) k0 d(3) qin unfolding key_lens_def by (metis disjoint_iff)
    have st1: "stacked (key0 ?N) N1 r qs Us"
      by (rule stacked_cong[OF st]) (use d(5) qin in \<open>auto simp: N1_def\<close>)
    have dom1: "dom N1 = dom ?N" using qd(1) by (auto simp: N1_def)
    have "\<exists>N'. maintain_parent f q ?s1 = (Inr (), ?s1\<lparr>ix_nodes := N'\<rparr>) \<and> stacked (key0 N') N' r qs Us \<and>
      keys_frame (concat Us) (ix_nodes ?s1) N'"
    proof (rule Cons.IH[where K = "key0 ?N"])
      show "stacked (key0 ?N) (ix_nodes ?s1) r qs Us" using st1 by simp
      show "pages_ok (ix_nodes ?s1) m (qs @ concat Us)" using pages_ok_mono[OF pq, of N1 m] dom1 by simp
      show "prs (ix_nodes ?s1) q \<noteq> []" by (simp add: N1_def)
      show "key0 ?N p = key0 (ix_nodes ?s1) p" if "p \<noteq> q" for p using k0[OF that] by simp
      show "key_lens L (key0 ?N) qs" by (rule key_lens_up[OF l d(1) Cons.prems(6)])
      show "key_lens L (key0 (ix_nodes ?s1)) qs" using key_lens_up[OF l1 d(1) kl1] by simp
    qed (use qin f Cons.prems(8) in simp_all)
    then obtain N' where N': "maintain_parent f q ?s1 = (Inr (), s\<lparr>ix_nodes := N'\<rparr>)" "stacked (key0 N') N' r qs Us"
      "keys_frame (concat Us) N1 N'" by auto
    have e: "N' p = N1 p" if "p \<in> set (ps @ qs)" for p
      using keys_frameD(4)[OF N'(3), of p] that d(4,5) by auto
    have "linked (key0 N') N' qs ps"
      by (rule linked_cong[OF l1]) (use e in \<open>auto simp: key0_def\<close>)
    moreover have "keys_frame [q] ?N N1" using qd(1) q(2) by (auto simp: keys_frame_def N1_def same_but_keys_def)
    then have "keys_frame (concat (qs # Us)) ?N N'"
      by (rule keys_frame_trans[OF _ N'(3)]) (use qin pages_okD[OF pq] in auto)
    ultimately show ?thesis using run False N' by (intro exI[of _ N']) simp
  qed
qed


section \<open>The parent of two neighbours\<close>

lemma refresh_step:
  assumes l: "linked K (ix_nodes s) qs ps" and st: "stacked Kq (ix_nodes s) r qs Us" and pk: "pages_ok (ix_nodes s) m (ps @ qs @ concat Us)"
    and c: "c \<in> set ps" "par (ix_nodes s) c = q" "prs (ix_nodes s) c \<noteq> []"
  shows "\<exists>N1. refresh_key q c s = (Inr (), s\<lparr>ix_nodes := N1\<rparr>) \<and> linked (K(c := key0 (ix_nodes s) c)) N1 qs ps \<and> stacked Kq N1 r qs Us \<and>
    keys_frame [q] (ix_nodes s) N1 \<and> q \<in> set qs"
proof -
  let ?N = "ix_nodes s"
  obtain C q' D X kv Y where q: "qs = C @ q' # D" "prs ?N q' = X @ kv # Y" "pg kv = c" "par ?N c = q'"
    "ps = chs ?N C @ map pg X @ c # map pg Y @ chs ?N D" using linked_place[OF l c(1)] by auto
  have qq: "q' = q" using q(4) c(2) by simp
  have d: "distinct ps" "distinct qs" "q \<notin> set (concat Us)" "q \<in> dom ?N" using pk q(1) qq by (auto simp: pages_ok_def)
  let ?N1 = "?N(q \<mapsto> (the (?N q))\<lparr>nd_pairs := X @ (key0 ?N c, snd kv) # Y\<rparr>)"
  have fc: "find_child c (node_at s q) = Inr (length X)" using find_child_at[of "node_at s q" X kv Y] q d(1) qq by auto
  have "set_key (length X) (key0 ?N c) (node_at s q) = (node_at s q)\<lparr>nd_pairs := X @ (key0 ?N c, snd kv) # Y\<rparr>"
    using q(2) qq by (simp add: set_key_def get_rid_def)
  then have run: "refresh_key q c s = (Inr (), s\<lparr>ix_nodes := ?N1\<rparr>)"
    using fc c(3) by (simp add: refresh_key_def bindE_def slot_of_def get_size_def get_key_def key0_def hd_conv_nth)
  have "linked (K(c := key0 ?N c)) ?N1 qs ps"
    unfolding q(1) qq by (rule linked_set_key[OF l[unfolded q(1) qq] q(2)[unfolded qq] _ d(1) refl]) (use q d(2) qq in auto)
  moreover have "stacked Kq ?N1 r qs Us" by (rule stacked_cong[OF st]) (use d(3) in auto)
  moreover have "keys_frame [q] ?N ?N1" using d(4) q(2) qq by (auto simp: keys_frame_def same_but_keys_def)
  ultimately show ?thesis using run q(1) qq by (intro exI[of _ ?N1]) simp
qed

lemma keys_frame_key0: "keys_frame qs N N' \<Longrightarrow> p \<notin> set qs \<Longrightarrow> key0 N' p = key0 N p"
  using keys_frameD(4)[of qs N N' p] by (simp add: key0_def)

lemma keys_frame_prs: "keys_frame qs N N' \<Longrightarrow> prs N' p = [] \<longleftrightarrow> prs N p = []"
  using keys_frameD(3)[of qs N N' p] by (metis length_0_conv)

text \<open>After the separators of the children, the keys above.\<close>

lemma maintain_upper:
  assumes l: "linked K (ix_nodes s) qs ps" and st: "stacked Kq (ix_nodes s) r qs Us" and pk: "pages_ok (ix_nodes s) m (ps @ qs @ concat Us)"
    and K: "\<And>p. p \<in> set ps \<Longrightarrow> p \<noteq> hd ps \<Longrightarrow> K p = key0 (ix_nodes s) p"
    and Kq: "\<And>p. p \<in> set qs \<Longrightarrow> p \<noteq> q \<Longrightarrow> Kq p = key0 (ix_nodes s) p" "key_lens L Kq qs"
    and L: "key_lens L (key0 (ix_nodes s)) ps" "L = nat (col_tot_len (ix_hdr s))" and f: "length Us \<le> fuel" and q: "q \<in> set qs"
  shows "\<exists>N'. maintain_parent fuel q s = (Inr (), s\<lparr>ix_nodes := N'\<rparr>) \<and> stacked (key0 N') N' r ps (qs # Us) \<and>
    keys_frame (concat Us) (ix_nodes s) N'"
proof -
  let ?N = "ix_nodes s"
  have d: "distinct ps" "set ps \<inter> set (concat Us) = {}" "set qs \<inter> set (concat Us) = {}" using pk by (auto simp: pages_ok_def)
  have l': "linked (key0 ?N) ?N qs ps" by (rule linked_cong[OF l]) (use K in auto)
  obtain N' where N': "maintain_parent fuel q s = (Inr (), s\<lparr>ix_nodes := N'\<rparr>)" "stacked (key0 N') N' r qs Us"
    "keys_frame (concat Us) ?N N'"
    using maintain_parent_ok[OF st _ q linkedD(2)[OF l q] Kq(1) Kq(2) key_lens_up[OF l' d(1) L(1)] L(2) f, of m] pk
    by (auto simp: pages_ok_append)
  have e: "N' p = ?N p" if "p \<in> set (ps @ qs)" for p using keys_frameD(4)[OF N'(3), of p] that d(2,3) by auto
  have "linked (key0 N') N' qs ps" by (rule linked_cong[OF l']) (use e in \<open>auto simp: key0_def\<close>)
  then show ?thesis using N' by auto
qed

lemma redistribute_upper:
  assumes l: "linked K (ix_nodes s) qs ps" and st: "stacked (key0 (ix_nodes s)) (ix_nodes s) r qs Us"
    and pk: "pages_ok (ix_nodes s) m (ps @ qs @ concat Us)"
    and a: "a \<in> set ps" "par (ix_nodes s) a = q" "prs (ix_nodes s) a \<noteq> []" and b: "b \<in> set ps" "par (ix_nodes s) b = q" "prs (ix_nodes s) b \<noteq> []"
    and K: "\<And>p. p \<in> set ps \<Longrightarrow> p \<noteq> a \<Longrightarrow> p \<noteq> b \<Longrightarrow> p \<noteq> hd ps \<Longrightarrow> K p = key0 (ix_nodes s) p" and KL: "key_lens L K ps"
    and L: "key_lens L (key0 (ix_nodes s)) ps" "L = nat (col_tot_len (ix_hdr s))" and f: "length Us \<le> fuel"
  shows "\<exists>N'. thenE (refresh_key q a) (thenE (refresh_key q b) (maintain_parent fuel q)) s = (Inr (), s\<lparr>ix_nodes := N'\<rparr>) \<and>
    stacked (key0 N') N' r ps (qs # Us) \<and> keys_frame (qs @ concat Us) (ix_nodes s) N'"
proof -
  let ?N = "ix_nodes s"
  have d: "distinct ps" "distinct qs" "set ps \<inter> set qs = {}" using pk by (auto simp: pages_ok_def)
  obtain N1 where N1: "refresh_key q a s = (Inr (), s\<lparr>ix_nodes := N1\<rparr>)" "linked (K(a := key0 ?N a)) N1 qs ps" "stacked (key0 ?N) N1 r qs Us"
    "keys_frame [q] ?N N1" "q \<in> set qs" using refresh_step[OF l st pk a] by blast
  let ?s1 = "s\<lparr>ix_nodes := N1\<rparr>"
  have nq: "p \<noteq> q" if "p \<in> set ps" for p using that d(3) N1(5) by auto
  have k1: "key0 N1 p = key0 ?N p" if "p \<noteq> q" for p using keys_frame_key0[OF N1(4)] that by simp
  have pk1: "pages_ok N1 m (ps @ qs @ concat Us)" using pages_ok_mono[OF pk] keys_frameD(5)[OF N1(4)] by simp
  have b1: "par N1 b = q" "prs N1 b \<noteq> []" using b keys_frameD(1)[OF N1(4)] keys_frame_prs[OF N1(4)] by auto
  obtain N2 where N2: "refresh_key q b ?s1 = (Inr (), ?s1\<lparr>ix_nodes := N2\<rparr>)" "linked ((K(a := key0 ?N a))(b := key0 N1 b)) N2 qs ps"
    "stacked (key0 ?N) N2 r qs Us" "keys_frame [q] N1 N2"
    using refresh_step[of "K(a := key0 ?N a)" ?s1 qs ps "key0 ?N" r Us m b q] N1(2,3) pk1 b(1) b1 by auto
  let ?s2 = "s\<lparr>ix_nodes := N2\<rparr>"
  have k2: "key0 N2 p = key0 ?N p" if "p \<noteq> q" for p using keys_frame_key0[OF N2(4)] k1 that by simp
  have pk2: "pages_ok N2 m (ps @ qs @ concat Us)" using pages_ok_mono[OF pk1] keys_frameD(5)[OF N2(4)] by simp
  have "\<exists>N'. maintain_parent fuel q ?s2 = (Inr (), ?s2\<lparr>ix_nodes := N'\<rparr>) \<and> stacked (key0 N') N' r ps (qs # Us) \<and>
    keys_frame (concat Us) (ix_nodes ?s2) N'"
  proof (rule maintain_upper[where K = "(K(a := key0 ?N a))(b := key0 N1 b)" and Kq = "key0 ?N"])
    show "((K(a := key0 ?N a))(b := key0 N1 b)) p = key0 (ix_nodes ?s2) p" if "p \<in> set ps" "p \<noteq> hd ps" for p
      using K[of p] that k2[OF nq[OF that(1)]] k1[OF nq[OF that(1)]] by auto
    show "key_lens L (key0 ?N) qs" by (rule key_lens_up[OF l d(1) KL])
    show "key_lens L (key0 (ix_nodes ?s2)) ps" using L(1) k2 nq by (simp add: key_lens_def)
  qed (use N1(5) N2 pk2 k2 L(2) f in auto)
  then obtain N' where N': "maintain_parent fuel q ?s2 = (Inr (), s\<lparr>ix_nodes := N'\<rparr>)" "stacked (key0 N') N' r ps (qs # Us)"
    "keys_frame (concat Us) N2 N'" by auto
  have dm: "set (qs @ concat Us) \<subseteq> dom ?N" using pages_okD[OF pk] by auto
  have "keys_frame [q] ?N N2" by (rule keys_frame_trans[OF N1(4) N2(4)]) (use N1(5) dm in auto)
  then have "keys_frame (qs @ concat Us) ?N N'" by (rule keys_frame_trans[OF _ N'(3)]) (use N1(5) dm in auto)
  then show ?thesis using N1(1) N2(1) N' by (intro exI[of _ N']) (simp add: thenE_def bindE_def)
qed


lemma linked_erase:
  assumes l: "linked K N (C @ q # D) ps" and q: "prs N q = X @ kl # kg # Y" and d: "distinct (C @ q # D)"
    and N': "N' = N(q \<mapsto> (the (N q))\<lparr>nd_pairs := X @ kl # Y\<rparr>)"
  shows "linked K N' (C @ q # D) (chs N C @ map pg X @ pg kl # map pg Y @ chs N D)" (is "linked K N' _ ?ps")
proof -
  have ps: "ps = chs N C @ map pg X @ pg kl # pg kg # map pg Y @ chs N D" using linked_chs[OF l] q by simp
  then have hd: "hd ?ps = hd ps" by (simp add: hd_append)
  have c: "chs N' C = chs N C" "chs N' D = chs N D" using d by (auto intro!: chs_cong simp: N')
  have par: "par N' x = par N x" for x by (simp add: N')
  have "\<not> isleaf N' p \<and> prs N' p \<noteq> [] \<and> (\<forall>e \<in> set (prs N' p). par N' (pg e) = p \<and> (pg e \<noteq> hd ?ps \<longrightarrow> fst e = K (pg e)))"
    if p: "p \<in> set (C @ q # D)" for p
  proof -
    have "set (prs N' p) \<subseteq> set (prs N p)" "prs N' p \<noteq> []" "isleaf N' p = isleaf N p"
      using q linkedD(2)[OF l p] by (auto simp: N')
    then show ?thesis using linkedD(1,3,5)[OF l p] unfolding par hd by blast
  qed
  moreover have "chs N' (C @ q # D) = ?ps" using c by (simp add: N')
  ultimately show ?thesis unfolding linked_def by blast
qed

lemma merge_upper:
  assumes l: "linked K (ix_nodes s) (C @ q # D) (A @ l # g # B)" and st: "stacked (key0 (ix_nodes s)) (ix_nodes s) r (C @ q # D) Us"
    and pk: "pages_ok (ix_nodes s) m ((A @ l # g # B) @ (C @ q # D) @ concat Us)"
    and q: "prs (ix_nodes s) q = X @ kl # kg # Y" "pg kl = l" "pg kg = g" "A = chs (ix_nodes s) C @ map pg X" "B = map pg Y @ chs (ix_nodes s) D"
    and lp: "prs (ix_nodes s) l \<noteq> []"
    and K: "\<And>p. p \<in> set (A @ B) \<Longrightarrow> p \<noteq> hd (A @ l # g # B) \<Longrightarrow> K p = key0 (ix_nodes s) p" and KL: "key_lens L K (A @ l # g # B)"
    and L: "key_lens L (key0 (ix_nodes s)) (A @ l # g # B)" "L = nat (col_tot_len (ix_hdr s))" and f: "length Us \<le> fuel"
  shows "\<exists>N1 N'. thenE (call_node q (\<lambda>h. erase_pair (length X + 1))) (bindE (getE (\<lambda>s. get_size (node_at s q)))
      (\<lambda>n. if 0 < n then thenE (refresh_key q l) (maintain_parent fuel q) else returnE ())) s = (Inr (), s\<lparr>ix_nodes := N'\<rparr>) \<and>
    stacked (key0 N') N' r (A @ l # B) ((C @ q # D) # Us) \<and>
    N1 = (ix_nodes s)(q \<mapsto> (node_at s q)\<lparr>nd_pairs := X @ kl # Y\<rparr>) \<and> keys_frame ((C @ q # D) @ concat Us) N1 N'"
proof -
  let ?N = "ix_nodes s" and ?qs = "C @ q # D" and ?ps = "A @ l # B"
  let ?N1 = "?N(q \<mapsto> (node_at s q)\<lparr>nd_pairs := X @ kl # Y\<rparr>)"
  let ?s1 = "s\<lparr>ix_nodes := ?N1\<rparr>"
  have dd: "distinct ((A @ l # g # B) @ ?qs @ concat Us)" using pk by (simp add: pages_ok_def)
  then have d: "distinct (A @ l # g # B)" "distinct ?qs" "q \<notin> set (concat Us)" "q \<notin> set (A @ l # g # B)" by auto
  have qd: "q \<in> dom ?N" using pages_okD[OF pk, of q] by simp
  have c1: "call_node q (\<lambda>h. erase_pair (length X + 1)) s = (Inr (), ?s1)"
    using q(1) by (simp add: call_node_def erase_pair_def get_size_def set_node_def)
  have l1: "linked K ?N1 ?qs ?ps" using linked_erase[OF l q(1) d(2) refl] q by simp
  have st1: "stacked (key0 ?N) ?N1 r ?qs Us" by (rule stacked_cong[OF st]) (use d(3) in auto)
  have dom1: "dom ?N1 = dom ?N" using qd by auto
  have pk1: "pages_ok ?N1 m (?ps @ ?qs @ concat Us)" using pk unfolding pages_ok_def dom1 by auto
  have kl: "kl \<in> set (prs ?N q)" using q(1) by simp
  have lq: "par ?N1 l = q" using linkedD(3)[OF l _ kl] q(2) d(4) by auto
  have k1: "key0 ?N1 p = key0 ?N p" for p using q(1) by (cases X) (auto simp: key0_def)
  have lp1: "prs ?N1 l \<noteq> []" using lp d(4) by auto
  obtain N2 where N2: "refresh_key q l ?s1 = (Inr (), ?s1\<lparr>ix_nodes := N2\<rparr>)" "linked (K(l := key0 ?N1 l)) N2 ?qs ?ps"
    "stacked (key0 ?N) N2 r ?qs Us" "keys_frame [q] ?N1 N2"
    using refresh_step[of K ?s1 ?qs ?ps "key0 ?N" r Us m l q] l1 st1 pk1 lq lp1 by auto
  let ?s2 = "s\<lparr>ix_nodes := N2\<rparr>"
  have k2: "key0 N2 p = key0 ?N p" if "p \<noteq> q" for p using keys_frame_key0[OF N2(4)] k1 that by simp
  have nq: "p \<noteq> q" if "p \<in> set ?ps" for p using that d(4) by auto
  have hd: "hd ?ps = hd (A @ l # g # B)" by (simp add: hd_append)
  have "\<exists>N'. maintain_parent fuel q ?s2 = (Inr (), ?s2\<lparr>ix_nodes := N'\<rparr>) \<and> stacked (key0 N') N' r ?ps (?qs # Us) \<and>
    keys_frame (concat Us) (ix_nodes ?s2) N'"
  proof (rule maintain_upper[where K = "K(l := key0 ?N1 l)" and Kq = "key0 ?N"])
    show "linked (K(l := key0 ?N1 l)) (ix_nodes ?s2) ?qs ?ps" "stacked (key0 ?N) (ix_nodes ?s2) r ?qs Us" using N2(2,3) by simp_all
    show "pages_ok (ix_nodes ?s2) m (?ps @ ?qs @ concat Us)" using pages_ok_mono[OF pk1, of N2 m] keys_frameD(5)[OF N2(4)] by auto
    show "(K(l := key0 ?N1 l)) p = key0 (ix_nodes ?s2) p" if "p \<in> set ?ps" "p \<noteq> hd ?ps" for p
    proof (cases "p = l")
      case True
      then show ?thesis using k1[of l] k2[OF nq[OF that(1)]] by simp
    next
      case False
      then show ?thesis using K[of p] k2[OF nq[OF that(1)]] that hd by auto
    qed
    show "key_lens L (key0 ?N) ?qs" by (rule key_lens_up[OF l d(1) KL])
    show "key_lens L (key0 (ix_nodes ?s2)) ?ps" using L(1) k2 nq hd by (auto simp: key_lens_def)
    show "key0 ?N p = key0 (ix_nodes ?s2) p" if "p \<noteq> q" for p using k2[OF that] by simp
  qed (use L(2) f in simp_all)
  then obtain N' where N': "maintain_parent fuel q ?s2 = (Inr (), s\<lparr>ix_nodes := N'\<rparr>)" "stacked (key0 N') N' r ?ps (?qs # Us)"
    "keys_frame (concat Us) N2 N'" by auto
  have dm: "set (?qs @ concat Us) \<subseteq> dom ?N1" using pages_okD[OF pk1] by auto
  have "keys_frame (?qs @ concat Us) ?N1 N'" by (rule keys_frame_trans[OF N2(4) N'(3)]) (use dm in auto)
  then show ?thesis using c1 N2(1) N' by (intro exI[of _ ?N1] exI[of _ N']) (simp add: thenE_def bindE_def get_size_def)
qed


section \<open>Moving pairs between neighbours\<close>

text \<open>The keys of the pairs of a level have the length of a key, apart from the very first.\<close>

definition pair_lens :: "nat \<Rightarrow> (bytes \<times> Rid) list \<Rightarrow> bool" where
  "pair_lens L kvs \<longleftrightarrow> (\<forall>kv \<in> set (tl kvs). length (fst kv) = L)"

lemma pair_lens_key_lens:
  assumes "pair_lens L (flat N ps)" "\<forall>p \<in> set ps. prs N p \<noteq> []"
  shows "key_lens L (key0 N) ps"
proof -
  have "length (key0 N p) = L" if p: "p \<in> set ps" "p \<noteq> hd ps" for p
  proof -
    obtain c cs where ps: "ps = c # cs" using p by (cases ps) auto
    obtain a as where a: "prs N c = a # as" using assms(2) ps by (cases "prs N c") auto
    have "p \<in> set cs" using p ps by auto
    then have "hd (prs N p) \<in> set (flat N cs)" using assms(2) ps hd_in_set[of "prs N p"] unfolding flat_def by fastforce
    then show ?thesis using assms(1) ps a by (simp add: pair_lens_def key0_def)
  qed
  then show ?thesis by (simp add: key_lens_def)
qed

lemma linked_pair_lens:
  assumes l: "linked K N ps ls" and d: "distinct ls" and k: "key_lens L K ls"
  shows "pair_lens L (flat N ps)"
proof -
  have "length (fst kv) = L" if kv: "kv \<in> set (tl (flat N ps))" for kv
  proof -
    obtain a as where a: "flat N ps = a # as" using kv by (cases "flat N ps") auto
    have ls: "ls = pg a # map pg as" using linked_chs[OF l] a by (simp add: chs_def)
    have "pg kv \<in> set (map pg as)" using kv a by simp
    then have n: "pg kv \<noteq> hd ls" "pg kv \<in> set ls" using d ls by auto
    have "kv \<in> set (flat N ps)" using kv a by simp
    then obtain p where "p \<in> set ps" "kv \<in> set (prs N p)" by (auto simp: flat_def)
    then show ?thesis using linkedD(5)[OF l _ _ n(1)] k n by (simp add: key_lens_def)
  qed
  then show ?thesis by (simp add: pair_lens_def)
qed

lemma linked_regroup:
  assumes l: "linked K N ps ls" and f: "flat N' ps' = flat N ps"
    and n: "\<And>p. p \<in> set ps' \<Longrightarrow> \<not> isleaf N' p \<and> prs N' p \<noteq> []" "\<And>p kv. p \<in> set ps' \<Longrightarrow> kv \<in> set (prs N' p) \<Longrightarrow> par N' (pg kv) = p"
    and K: "\<And>p. p \<in> set ls \<Longrightarrow> K' p = K p"
  shows "linked K' N' ps' ls"
proof -
  have "fst kv = K' (pg kv)" if "p \<in> set ps'" "kv \<in> set (prs N' p)" "pg kv \<noteq> hd ls" for p kv
  proof -
    have "kv \<in> set (flat N ps)" using that(1,2) f[symmetric] by (auto simp: flat_def)
    then obtain p' where "p' \<in> set ps" "kv \<in> set (prs N p')" by (auto simp: flat_def)
    then show ?thesis using linkedD(4,5)[OF l, of p' kv] K[of "pg kv"] that(3) by simp
  qed
  then show ?thesis using n linked_chs[OF l] f by (simp add: linked_def chs_def)
qed

text \<open>After pairs moved between two neighbours, their parent is brought up to date.\<close>

lemma redistribute_rest:
  assumes l: "linked (key0 N) N qs ps" and st: "stacked (key0 N) N r qs Us" and pk: "pages_ok N m (ps @ qs @ concat Us)"
    and ps: "ps = A @ l # g # B" and q: "par N l = q" "par N g = q"
    and ln: "pair_lens L (flat N ps)" "\<forall>p \<in> set ps. prs N p \<noteq> []" "L = nat (col_tot_len (ix_hdr s2))"
    and N2: "N2 = ix_nodes s2" "\<And>p. p \<in> set (qs @ concat Us) \<Longrightarrow> N2 p = N p" "\<And>p. p \<in> set ps \<Longrightarrow> par N2 p = par N p"
      "\<And>p. p \<in> set (A @ B) \<Longrightarrow> prs N2 p = prs N p" "prs N2 l @ prs N2 g = prs N l @ prs N g" "prs N2 l \<noteq> []" "prs N2 g \<noteq> []" "dom N2 = dom N"
    and ab: "a = l \<and> b = g \<or> a = g \<and> b = l" and f: "length Us \<le> fuel"
  shows "\<exists>N'. thenE (refresh_key q a) (thenE (refresh_key q b) (maintain_parent fuel q)) s2 = (Inr (), s2\<lparr>ix_nodes := N'\<rparr>) \<and>
    stacked (key0 N') N' r ps (qs # Us) \<and> keys_frame (qs @ concat Us) N2 N' \<and> flat N2 ps = flat N ps"
proof -
  have fl: "flat N2 ps = flat N ps"
  proof -
    have "flat N2 A = flat N A" "flat N2 B = flat N B" using N2(4) by (auto intro!: flat_cong)
    then show ?thesis using N2(5) ps by simp
  qed
  have ne2: "\<forall>p \<in> set ps. prs N2 p \<noteq> []" using ln(2) N2(4,6,7) ps by auto
  have l2: "linked (key0 N) (ix_nodes s2) qs ps" by (rule linked_cong[OF l]) (use N2 in auto)
  have st2: "stacked (key0 (ix_nodes s2)) (ix_nodes s2) r qs Us"
    by (rule stacked_cong[OF st]) (use N2(1,2) in \<open>auto simp: key0_def\<close>)
  have pk2: "pages_ok (ix_nodes s2) m (ps @ qs @ concat Us)" using pages_ok_mono[OF pk, of N2 m] N2(1,8) by simp
  have "\<exists>N'. thenE (refresh_key q a) (thenE (refresh_key q b) (maintain_parent fuel q)) s2 = (Inr (), s2\<lparr>ix_nodes := N'\<rparr>) \<and>
    stacked (key0 N') N' r ps (qs # Us) \<and> keys_frame (qs @ concat Us) (ix_nodes s2) N'"
  proof (rule redistribute_upper[OF l2 st2 pk2])
    show "a \<in> set ps" "b \<in> set ps" using ab ps by auto
    show "par (ix_nodes s2) a = q" "par (ix_nodes s2) b = q" using ab ps q N2(1,3) by auto
    show "prs (ix_nodes s2) a \<noteq> []" "prs (ix_nodes s2) b \<noteq> []" using ab N2(1,6,7) by auto
    show "key0 N p = key0 (ix_nodes s2) p" if "p \<in> set ps" "p \<noteq> a" "p \<noteq> b" for p
    proof -
      have "p \<in> set (A @ B)" using that ab ps by auto
      then show ?thesis using N2(1,4) by (simp add: key0_def)
    qed
    show "key_lens L (key0 N) ps" by (rule pair_lens_key_lens[OF ln(1,2)])
    show "key_lens L (key0 (ix_nodes s2)) ps" using pair_lens_key_lens[of L N2 ps] ln(1) fl ne2 N2(1) by simp
  qed (use ln(3) f in simp_all)
  then show ?thesis using fl N2(1) by auto
qed

lemma merge_rest:
  assumes l: "linked (key0 N) N (C @ q # D) (A @ l # g # B)" and st: "stacked (key0 N) N r (C @ q # D) Us"
    and pk: "pages_ok N m ((A @ l # g # B) @ (C @ q # D) @ concat Us)"
    and q: "prs N q = X @ kl # kg # Y" "pg kl = l" "pg kg = g" "A = chs N C @ map pg X" "B = map pg Y @ chs N D"
    and ln: "pair_lens L (flat N (A @ l # g # B))" "\<forall>p \<in> set (A @ l # g # B). prs N p \<noteq> []" "L = nat (col_tot_len (ix_hdr s2))"
    and N2: "N2 = ix_nodes s2" "\<And>p. p \<in> set ((C @ q # D) @ concat Us) \<Longrightarrow> N2 p = N p" "\<And>p. p \<in> set (A @ l # g # B) \<Longrightarrow> par N2 p = par N p"
      "\<And>p. p \<in> set (A @ g # B) \<Longrightarrow> prs N2 p = prs N p" "prs N2 l = prs N l @ prs N g" "dom N2 = dom N"
    and f: "length Us \<le> fuel"
  shows "\<exists>N'. thenE (call_node q (\<lambda>h. erase_pair (length X + 1))) (bindE (getE (\<lambda>s. get_size (node_at s q)))
      (\<lambda>n. if 0 < n then thenE (refresh_key q l) (maintain_parent fuel q) else returnE ())) s2 = (Inr (), s2\<lparr>ix_nodes := N'\<rparr>) \<and>
    stacked (key0 N') N' r (A @ l # B) ((C @ q # D) # Us) \<and>
    keys_frame ((C @ q # D) @ concat Us) (N2(q \<mapsto> (the (N2 q))\<lparr>nd_pairs := X @ kl # Y\<rparr>)) N' \<and> flat N2 (A @ l # B) = flat N (A @ l # g # B)"
proof -
  let ?ps = "A @ l # g # B" and ?qs = "C @ q # D"
  have fl: "flat N2 (A @ l # B) = flat N ?ps"
  proof -
    have "flat N2 A = flat N A" "flat N2 B = flat N B" using N2(4) by (auto intro!: flat_cong)
    then show ?thesis using N2(5) by simp
  qed
  have l2: "linked (key0 N) (ix_nodes s2) ?qs ?ps" by (rule linked_cong[OF l]) (use N2 in auto)
  have st2: "stacked (key0 (ix_nodes s2)) (ix_nodes s2) r ?qs Us"
    by (rule stacked_cong[OF st]) (use N2(1,2) in \<open>auto simp: key0_def\<close>)
  have pk2: "pages_ok (ix_nodes s2) m (?ps @ ?qs @ concat Us)" using pages_ok_mono[OF pk, of N2 m] N2(1,6) by simp
  have c: "chs N2 C = chs N C" "chs N2 D = chs N D" using N2(2) by (auto intro!: chs_cong)
  have k0: "key0 N2 p = key0 N p" if "p \<in> set ?ps" for p
    using that N2(4)[of p] N2(5) ln(2) by (cases "p = l") (auto simp: key0_def)
  have KL: "key_lens L (key0 N) ?ps" by (rule pair_lens_key_lens[OF ln(1,2)])
  have "\<exists>N1 N'. thenE (call_node q (\<lambda>h. erase_pair (length X + 1))) (bindE (getE (\<lambda>s. get_size (node_at s q)))
      (\<lambda>n. if 0 < n then thenE (refresh_key q l) (maintain_parent fuel q) else returnE ())) s2 = (Inr (), s2\<lparr>ix_nodes := N'\<rparr>) \<and>
    stacked (key0 N') N' r (A @ l # B) (?qs # Us) \<and>
    N1 = (ix_nodes s2)(q \<mapsto> (node_at s2 q)\<lparr>nd_pairs := X @ kl # Y\<rparr>) \<and> keys_frame (?qs @ concat Us) N1 N'"
  proof (rule merge_upper[OF l2 st2 pk2 _ q(2,3)])
    show "prs (ix_nodes s2) q = X @ kl # kg # Y" using q(1) N2(1) N2(2)[of q] by simp
    show "A = chs (ix_nodes s2) C @ map pg X" "B = map pg Y @ chs (ix_nodes s2) D" using q(4,5) c N2(1) by simp_all
    show "prs (ix_nodes s2) l \<noteq> []" using N2(1,5) ln(2) by simp
    show "key0 N p = key0 (ix_nodes s2) p" if "p \<in> set (A @ B)" for p using k0[of p] that N2(1) by auto
    show "key_lens L (key0 N) ?ps" by (rule KL)
    show "key_lens L (key0 (ix_nodes s2)) ?ps" using KL k0 N2(1) by (simp add: key_lens_def)
  qed (use ln(3) f in simp_all)
  then show ?thesis using fl N2(1) by auto
qed


text \<open>The nodes after a redistribution or a merge, before the parent is touched.\<close>

definition moved :: "nodes \<Rightarrow> page_id_t \<Rightarrow> (bytes \<times> Rid) list \<Rightarrow> page_id_t \<Rightarrow> (bytes \<times> Rid) list \<Rightarrow> page_id_t \<Rightarrow> page_id_t list \<Rightarrow> nodes" where
  "moved N l L' g G' node cs =
     (let M = N(l \<mapsto> (the (N l))\<lparr>nd_pairs := L'\<rparr>, g \<mapsto> (the (N g))\<lparr>nd_pairs := G'\<rparr>)
      in if isleaf N node then M else reparent node cs M)"

lemma moved_facts:
  assumes "l \<noteq> g" "l \<in> dom N" "g \<in> dom N" "isleaf N node \<or> set cs \<subseteq> dom N"
  shows "prs (moved N l L' g G' node cs) p = (if p = l then L' else if p = g then G' else prs N p)"
    "isleaf (moved N l L' g G' node cs) p = isleaf N p"
    "par (moved N l L' g G' node cs) p = (if \<not> isleaf N node \<and> p \<in> set cs then node else par N p)"
    "dom (moved N l L' g G' node cs) = dom N"
    "p \<noteq> l \<Longrightarrow> p \<noteq> g \<Longrightarrow> p \<notin> set cs \<or> isleaf N node \<Longrightarrow> moved N l L' g G' node cs p = N p"
    "nd_next_leaf (the (moved N l L' g G' node cs p)) = nd_next_leaf (the (N p))"
    "nd_prev_leaf (the (moved N l L' g G' node cs p)) = nd_prev_leaf (the (N p))"
    "p \<noteq> l \<Longrightarrow> p \<noteq> g \<Longrightarrow> p \<in> dom N \<Longrightarrow> same_node (N p) (moved N l L' g G' node cs p)"
proof -
  let ?M = "N(l \<mapsto> (the (N l))\<lparr>nd_pairs := L'\<rparr>, g \<mapsto> (the (N g))\<lparr>nd_pairs := G'\<rparr>)"
  have d: "dom ?M = dom N" using assms(2,3) by auto
  have r: "reparent node cs ?M p = (if p \<in> set cs then Some ((the (?M p))\<lparr>nd_parent := node\<rparr>) else ?M p)" if "\<not> isleaf N node" for p
  proof (cases "p \<in> set cs")
    case True
    then have "p \<in> dom ?M" using assms(4) d that by blast
    then show ?thesis using True by (auto simp: reparent_def)
  qed (simp add: reparent_def)
  show "prs (moved N l L' g G' node cs) p = (if p = l then L' else if p = g then G' else prs N p)"
    "isleaf (moved N l L' g G' node cs) p = isleaf N p"
    "par (moved N l L' g G' node cs) p = (if \<not> isleaf N node \<and> p \<in> set cs then node else par N p)"
    "p \<noteq> l \<Longrightarrow> p \<noteq> g \<Longrightarrow> p \<notin> set cs \<or> isleaf N node \<Longrightarrow> moved N l L' g G' node cs p = N p"
    "nd_next_leaf (the (moved N l L' g G' node cs p)) = nd_next_leaf (the (N p))"
    "nd_prev_leaf (the (moved N l L' g G' node cs p)) = nd_prev_leaf (the (N p))"
    using assms(1) by (auto simp: moved_def Let_def r)
  show "dom (moved N l L' g G' node cs) = dom N" using d by (simp add: moved_def Let_def)
  show "same_node (N p) (moved N l L' g G' node cs p)" if "p \<noteq> l" "p \<noteq> g" "p \<in> dom N"
    using that by (auto simp: moved_def Let_def r same_node_def)
qed

lemma take_from_run:
  assumes i: "i < length (prs (ix_nodes s) nb)" and pos: "pos \<le> length (prs (ix_nodes s) node)"
    and room: "int (length (prs (ix_nodes s) node) + 1) \<le> get_max_size (ix_hdr s)" and ne: "node \<noteq> nb"
    and c: "\<not> isleaf (ix_nodes s) node \<Longrightarrow> pg (prs (ix_nodes s) nb ! i) \<in> dom (ix_nodes s) \<and> 0 \<le> pg (prs (ix_nodes s) nb ! i)"
  shows "take_from nb node i pos s = (Inr (), s\<lparr>ix_nodes :=
    moved (ix_nodes s) node (take pos (prs (ix_nodes s) node) @ prs (ix_nodes s) nb ! i # drop pos (prs (ix_nodes s) node))
      nb (take i (prs (ix_nodes s) nb) @ drop (i + 1) (prs (ix_nodes s) nb)) node [pg (prs (ix_nodes s) nb ! i)]\<rparr>)"
proof -
  let ?N = "ix_nodes s" and ?kv = "prs (ix_nodes s) nb ! i"
  let ?M = "?N(node \<mapsto> (the (?N node))\<lparr>nd_pairs := take pos (prs ?N node) @ ?kv # drop pos (prs ?N node)\<rparr>,
    nb \<mapsto> (the (?N nb))\<lparr>nd_pairs := take i (prs ?N nb) @ drop (i + 1) (prs ?N nb)\<rparr>)"
  have "maintain_child node pos (s\<lparr>ix_nodes := ?M\<rparr>) = (Inr (), s\<lparr>ix_nodes := reparent node [pg ?kv] ?M\<rparr>)" if nl: "\<not> isleaf ?N node"
    using maintain_child_run[of "s\<lparr>ix_nodes := ?M\<rparr>" node pos] nl ne pos c[OF nl] by (simp add: nth_append)
  moreover have "take_from nb node i pos s = (if isleaf ?N node then (Inr (), s\<lparr>ix_nodes := ?M\<rparr>) else maintain_child node pos (s\<lparr>ix_nodes := ?M\<rparr>))"
    using i pos room ne
    by (simp add: take_from_def bindE_def thenE_def slot_of_def get_size_def call_insert_pairs call_node_def[of nb] erase_pair_def set_node_def)
  ultimately show ?thesis by (auto simp: moved_def)
qed


definition merge_end :: "nat \<Rightarrow> page_id_t \<Rightarrow> page_id_t \<Rightarrow> nat \<Rightarrow> (ix_state, unit) comp" where
  "merge_end fuel l q index =
     thenE (call_node q (\<lambda>h. erase_pair index)) (bindE (getE (\<lambda>s. get_size (node_at s q)))
      (\<lambda>n. if 0 < n then thenE (refresh_key q l) (maintain_parent fuel q) else returnE ()))"

lemma merge_internal_run:
  assumes "l \<noteq> g" "l \<in> dom (ix_nodes s)" "g \<in> dom (ix_nodes s)" "\<not> isleaf (ix_nodes s) l"
    and "int (length (prs (ix_nodes s) l) + length (prs (ix_nodes s) g)) \<le> get_max_size (ix_hdr s)"
    and "\<forall>kv \<in> set (prs (ix_nodes s) l @ prs (ix_nodes s) g). pg kv \<in> dom (ix_nodes s) \<and> 0 \<le> pg kv"
  shows "merge_into fuel l g q index s = merge_end fuel l q index
    (s\<lparr>ix_nodes := moved (ix_nodes s) l (prs (ix_nodes s) l @ prs (ix_nodes s) g) g (prs (ix_nodes s) g) l (map pg (prs (ix_nodes s) g))\<rparr>)"
proof -
  let ?N = "ix_nodes s" and ?l = "prs (ix_nodes s) l" and ?g = "prs (ix_nodes s) g"
  let ?M = "?N(l \<mapsto> (the (?N l))\<lparr>nd_pairs := ?l @ ?g\<rparr>)"
  let ?s1 = "s\<lparr>ix_nodes := ?M\<rparr>"
  have "mapE (maintain_child l) [length ?l..<length ?l + length ?g] ?s1 = (Inr (), ?s1\<lparr>ix_nodes :=
      reparent l (map (\<lambda>i. pg (prs (ix_nodes ?s1) l ! i)) [length ?l..<length ?l + length ?g]) (ix_nodes ?s1)\<rparr>)"
    by (rule maintain_children_run) (use assms(2,4,6) in auto)
  moreover have "map (\<lambda>i. pg ((?l @ ?g) ! i)) [length ?l..<length ?l + length ?g] = map pg ?g"
    by (rule nth_equalityI) (simp_all add: nth_append)
  moreover have "?M(g \<mapsto> (the (?N g))\<lparr>nd_pairs := ?g\<rparr>) = ?M" using assms(1,3) by (auto simp: fun_eq_iff)
  ultimately show ?thesis using assms(1,4,5)
    by (simp add: merge_into_def merge_end_def bindE_def thenE_def call_insert_pairs moved_def get_size_def)
qed

lemma coalesce_cases:
  assumes l: "linked K (ix_nodes s) qs ps" and pk: "pages_ok (ix_nodes s) m (ps @ qs)" and o1: "o1 \<in> set ps"
    and sz: "int (length (prs (ix_nodes s) o1)) < get_min_size (ix_hdr s)" and two: "\<forall>q \<in> set qs. 2 \<le> length (prs (ix_nodes s) q)"
  shows "\<exists>A l g B C q D X kl kg Y. ps = A @ l # g # B \<and> qs = C @ q # D \<and> prs (ix_nodes s) q = X @ kl # kg # Y \<and> pg kl = l \<and> pg kg = g \<and>
    A = chs (ix_nodes s) C @ map pg X \<and> B = map pg Y @ chs (ix_nodes s) D \<and> par (ix_nodes s) l = q \<and> par (ix_nodes s) g = q \<and>
    (o1 = l \<or> o1 = g) \<and>
    coalesce_or_redistribute fuel o1 s =
      (if 2 * get_min_size (ix_hdr s) \<le> int (length (prs (ix_nodes s) l) + length (prs (ix_nodes s) g))
       then thenE (thenE (if o1 = l then take_from g l 0 (length (prs (ix_nodes s) l)) else take_from l g (length (prs (ix_nodes s) l) - 1) 0)
         (thenE (refresh_key q o1) (thenE (refresh_key q (if o1 = l then g else l)) (maintain_parent fuel q)))) (returnE False) s
       else case fuel of 0 \<Rightarrow> (Inl OutOfFuel, s)
         | Suc f \<Rightarrow> thenE (merge_into f l g q (length X + 1)) (coalesce_or_redistribute f q) s)"
proof -
  let ?N = "ix_nodes s"
  obtain C q D U kv V where q: "qs = C @ q # D" "prs ?N q = U @ kv # V" "pg kv = o1" "par ?N o1 = q"
    "ps = chs ?N C @ map pg U @ o1 # map pg V @ chs ?N D" using linked_place[OF l o1] by auto
  have qin: "q \<in> set qs" using q(1) by simp
  have d: "distinct ps" using pk by (simp add: pages_ok_def)
  have dm: "p \<in> dom ?N" "0 \<le> p" if "p \<in> set (ps @ qs)" for p using pages_okD[OF pk that] by simp_all
  have qd: "q \<in> dom ?N" "0 \<le> q" using dm[of q] qin by auto
  have fc: "find_child o1 (node_at s q) = Inr (length U)" using find_child_at[OF q(2)] q(3,5) d by auto
  have pq: "par ?N (pg e) = q \<and> pg e \<in> set ps" if "e \<in> set (prs ?N q)" for e using linkedD(3,4)[OF l qin that] by simp
  have nr: "nd_parent (node_at s o1) \<noteq> INVALID_PAGE_ID" using q(4) qd(2) by simp
  show ?thesis
  proof (cases U rule: rev_cases)
    case Nil
    then obtain kg Y where V: "V = kg # Y" using two qin q(2) by (cases V) auto
    have g: "pg kg \<in> dom ?N" "0 \<le> pg kg" using dm[of "pg kg"] pq[of kg] q(2) V by auto
    have og: "o1 \<noteq> pg kg" using d q(5) V by auto
    have vat: "slot_of 1 value_at (ix_hdr s) (node_at s q) = Inr (pg kg)"
      using q(2) Nil V by (simp add: slot_of_def get_size_def value_at_def get_rid_def pg_def)
    have "coalesce_or_redistribute fuel o1 s =
      (if 2 * get_min_size (ix_hdr s) \<le> int (length (prs ?N o1) + length (prs ?N (pg kg)))
       then thenE (redistribute fuel (pg kg) o1 q 0) (returnE False) s
       else case fuel of 0 \<Rightarrow> (Inl OutOfFuel, s) | Suc f \<Rightarrow> thenE (merge_into f o1 (pg kg) q 1) (coalesce_or_redistribute f q) s)"
      using nr sz q(4) qd g fc Nil vat
      by (subst coalesce_or_redistribute.simps)
        (auto simp: is_root_page_def bindE_def get_size_def add.commute split: nat.splits)
    moreover have "redistribute fuel (pg kg) o1 q 0 = thenE (bindE (getE (\<lambda>s. get_size (node_at s o1))) (\<lambda>pos. take_from (pg kg) o1 0 pos))
        (thenE (refresh_key q o1) (thenE (refresh_key q (pg kg)) (maintain_parent fuel q)))" by (simp add: redistribute_def)
    moreover have "thenE (bindE (getE (\<lambda>s. get_size (node_at s o1))) (\<lambda>pos. take_from (pg kg) o1 0 pos)) m s = thenE (take_from (pg kg) o1 0 (length (prs ?N o1))) m s" for m :: "(ix_state, unit) comp"
      by (simp add: thenE_def bindE_def get_size_def)
    ultimately have run: "coalesce_or_redistribute fuel o1 s =
      (if 2 * get_min_size (ix_hdr s) \<le> int (length (prs ?N o1) + length (prs ?N (pg kg)))
       then thenE (thenE (take_from (pg kg) o1 0 (length (prs ?N o1)))
         (thenE (refresh_key q o1) (thenE (refresh_key q (pg kg)) (maintain_parent fuel q)))) (returnE False) s
       else case fuel of 0 \<Rightarrow> (Inl OutOfFuel, s) | Suc f \<Rightarrow> thenE (merge_into f o1 (pg kg) q 1) (coalesce_or_redistribute f q) s)"
      by (simp add: thenE_def bindE_def)
    show ?thesis
      by (rule exI[of _ "chs ?N C"], rule exI[of _ o1], rule exI[of _ "pg kg"], rule exI[of _ "map pg Y @ chs ?N D"],
          rule exI[of _ C], rule exI[of _ q], rule exI[of _ D], rule exI[of _ "[]"], rule exI[of _ kv], rule exI[of _ kg], rule exI[of _ Y])
        (use q Nil V pq[of kg] run og in \<open>simp split: nat.split\<close>)
  next
    case (snoc X kl)
    have g: "pg kl \<in> dom ?N" "0 \<le> pg kl" using dm[of "pg kl"] pq[of kl] q(2) snoc by auto
    have ol: "o1 \<noteq> pg kl" using d q(5) snoc by auto
    have vat: "slot_of (length X) value_at (ix_hdr s) (node_at s q) = Inr (pg kl)"
      using q(2) snoc by (simp add: slot_of_def get_size_def value_at_def get_rid_def pg_def nth_append)
    have "coalesce_or_redistribute fuel o1 s =
      (if 2 * get_min_size (ix_hdr s) \<le> int (length (prs ?N (pg kl)) + length (prs ?N o1))
       then thenE (redistribute fuel (pg kl) o1 q (length X + 1)) (returnE False) s
       else case fuel of 0 \<Rightarrow> (Inl OutOfFuel, s) | Suc f \<Rightarrow> thenE (merge_into f (pg kl) o1 q (length X + 1)) (coalesce_or_redistribute f q) s)"
      using nr sz q(4) qd g fc snoc vat
      by (subst coalesce_or_redistribute.simps)
        (auto simp: is_root_page_def bindE_def get_size_def split: nat.splits)
    moreover have "redistribute fuel (pg kl) o1 q (length X + 1) = thenE (bindE (getE (\<lambda>s. get_size (node_at s (pg kl)))) (\<lambda>n. take_from (pg kl) o1 (n - 1) 0))
        (thenE (refresh_key q o1) (thenE (refresh_key q (pg kl)) (maintain_parent fuel q)))" by (simp add: redistribute_def)
    moreover have "thenE (bindE (getE (\<lambda>s. get_size (node_at s (pg kl)))) (\<lambda>n. take_from (pg kl) o1 (n - 1) 0)) m s = thenE (take_from (pg kl) o1 (length (prs ?N (pg kl)) - 1) 0) m s" for m :: "(ix_state, unit) comp"
      by (simp add: thenE_def bindE_def get_size_def)
    ultimately have run: "coalesce_or_redistribute fuel o1 s =
      (if 2 * get_min_size (ix_hdr s) \<le> int (length (prs ?N (pg kl)) + length (prs ?N o1))
       then thenE (thenE (take_from (pg kl) o1 (length (prs ?N (pg kl)) - 1) 0)
         (thenE (refresh_key q o1) (thenE (refresh_key q (pg kl)) (maintain_parent fuel q)))) (returnE False) s
       else case fuel of 0 \<Rightarrow> (Inl OutOfFuel, s) | Suc f \<Rightarrow> thenE (merge_into f (pg kl) o1 q (length X + 1)) (coalesce_or_redistribute f q) s)"
      by (simp add: thenE_def bindE_def)
    show ?thesis
      by (rule exI[of _ "chs ?N C @ map pg X"], rule exI[of _ "pg kl"], rule exI[of _ o1], rule exI[of _ "map pg V @ chs ?N D"],
          rule exI[of _ C], rule exI[of _ q], rule exI[of _ D], rule exI[of _ X], rule exI[of _ kl], rule exI[of _ kv], rule exI[of _ V])
        (use q snoc pq[of kl] run ol in simp)
  qed
qed


text \<open>A redistribution at a level: the level keeps its pages and its pairs.\<close>

lemma redistribute_level:
  assumes l: "linked (key0 (ix_nodes s)) (ix_nodes s) qs (A @ l # g # B)" and st: "stacked (key0 (ix_nodes s)) (ix_nodes s) r qs Us"
    and pk: "pages_ok (ix_nodes s) m ((A @ l # g # B) @ qs @ concat Us)" and q: "par (ix_nodes s) l = q" "par (ix_nodes s) g = q"
    and ln: "pair_lens L (flat (ix_nodes s) (A @ l # g # B))" "\<forall>p \<in> set (A @ l # g # B). prs (ix_nodes s) p \<noteq> []" "L = nat (col_tot_len (ix_hdr s))"
    and o1: "o1 = l \<or> o1 = g" and room: "int (length (prs (ix_nodes s) o1) + 1) \<le> get_max_size (ix_hdr s)"
    and nb: "2 \<le> length (prs (ix_nodes s) (if o1 = l then g else l))" and f: "length Us \<le> fuel" and same: "isleaf (ix_nodes s) l = isleaf (ix_nodes s) g"
    and c: "\<not> isleaf (ix_nodes s) l \<Longrightarrow> \<forall>kv \<in> set (prs (ix_nodes s) l @ prs (ix_nodes s) g). pg kv \<in> dom (ix_nodes s) \<and> 0 \<le> pg kv \<and>
        pg kv \<notin> set ((A @ l # g # B) @ qs @ concat Us) \<and> par (ix_nodes s) (pg kv) \<in> {l, g}"
  shows "\<exists>N2 N' L' G' kv. thenE (if o1 = l then take_from g l 0 (length (prs (ix_nodes s) l)) else take_from l g (length (prs (ix_nodes s) l) - 1) 0)
         (thenE (refresh_key q o1) (thenE (refresh_key q (if o1 = l then g else l)) (maintain_parent fuel q))) s = (Inr (), s\<lparr>ix_nodes := N'\<rparr>) \<and>
    stacked (key0 N') N' r (A @ l # g # B) (qs # Us) \<and> keys_frame (qs @ concat Us) N2 N' \<and>
    N2 = moved (ix_nodes s) l L' g G' o1 [pg kv] \<and> kv \<in> set (if o1 = l then L' else G') \<and> L' @ G' = prs (ix_nodes s) l @ prs (ix_nodes s) g \<and>
    length (if o1 = l then L' else G') = length (prs (ix_nodes s) o1) + 1 \<and> L' \<noteq> [] \<and> G' \<noteq> [] \<and>
    flat N2 (A @ l # g # B) = flat (ix_nodes s) (A @ l # g # B) \<and>
    (\<forall>e \<in> set L' \<union> set G'. e \<noteq> kv \<longrightarrow> (e \<in> set L' \<longrightarrow> e \<in> set (prs (ix_nodes s) l)) \<and> (e \<in> set G' \<longrightarrow> e \<in> set (prs (ix_nodes s) g)))"
proof -
  let ?N = "ix_nodes s" and ?ps = "A @ l # g # B"
  define i where "i = (if o1 = l then 0 else length (prs ?N l) - 1)"
  define kv where "kv = prs ?N (if o1 = l then g else l) ! i"
  define L' where "L' = (if o1 = l then prs ?N l @ [kv] else butlast (prs ?N l))"
  define G' where "G' = (if o1 = l then tl (prs ?N g) else kv # prs ?N g)"
  define N2 where "N2 = moved ?N l L' g G' o1 [pg kv]"
  have dd: "distinct (?ps @ qs @ concat Us)" using pk by (simp add: pages_ok_def)
  then have lg: "l \<noteq> g" by auto
  have dom: "l \<in> dom ?N" "g \<in> dom ?N" using pages_okD[OF pk, of l] pages_okD[OF pk, of g] by auto
  have ne: "prs ?N l \<noteq> []" "prs ?N g \<noteq> []" using ln(2) by auto
  have kvin: "kv \<in> set (prs ?N (if o1 = l then g else l))" unfolding kv_def i_def using ne nb by (auto intro!: nth_mem)
  have "prs ?N l ! (length (prs ?N l) - 1) = last (prs ?N l)" "prs ?N g ! 0 = hd (prs ?N g)"
    using ne by (simp_all add: last_conv_nth hd_conv_nth)
  then have kve: "kv = (if o1 = l then hd (prs ?N g) else last (prs ?N l))" by (simp add: kv_def i_def)
  have LG: "L' @ G' = prs ?N l @ prs ?N g" using ne o1 lg by (auto simp: L'_def G'_def kve)
  have lens: "L' \<noteq> []" "G' \<noteq> []" "length (if o1 = l then L' else G') = length (prs ?N o1) + 1"
  proof -
    have b: "butlast xs \<noteq> []" "tl xs \<noteq> []" if "2 \<le> length xs" for xs :: "(bytes \<times> Rid) list"
      using that by (cases xs; cases "tl xs"; auto)+
    show "L' \<noteq> []" "G' \<noteq> []" using nb ne b by (auto simp: L'_def G'_def split: if_splits)
    show "length (if o1 = l then L' else G') = length (prs ?N o1) + 1" using o1 by (auto simp: L'_def G'_def)
  qed
  have cs: "pg kv \<in> dom ?N" "0 \<le> pg kv" "pg kv \<notin> set (?ps @ qs @ concat Us)" if "\<not> isleaf ?N l"
    using c[OF that] kvin by (auto split: if_splits)
  have tf: "(if o1 = l then take_from g l 0 (length (prs ?N l)) else take_from l g (length (prs ?N l) - 1) 0) s = (Inr (), s\<lparr>ix_nodes := N2\<rparr>)"
  proof (cases "o1 = l")
    case True
    then show ?thesis
      using take_from_run[of 0 s g "length (prs ?N l)" l] ne lg room cs
      by (simp add: N2_def L'_def G'_def kv_def i_def drop_Suc)
  next
    case False
    then have "o1 = g" using o1 by simp
    moreover have "moved ?N l a g b g cs = moved ?N g b l a g cs" for a b cs using lg by (simp add: moved_def fun_upd_twist)
    ultimately show ?thesis
      using take_from_run[of "length (prs ?N l) - 1" s l 0 g] ne lg room cs same False
      by (simp add: N2_def L'_def G'_def kv_def i_def butlast_conv_take)
  qed
  have csd: "isleaf ?N o1 \<or> set [pg kv] \<subseteq> dom ?N" using cs(1) o1 same by auto
  note mf = moved_facts[OF lg dom csd, where L' = L' and G' = G']
  have N2f: "prs N2 p = (if p = l then L' else if p = g then G' else prs ?N p)" "p \<in> set (qs @ concat Us) \<Longrightarrow> N2 p = ?N p"
    "p \<in> set ?ps \<Longrightarrow> par N2 p = par ?N p" "dom N2 = dom ?N" for p
  proof -
    show "prs N2 p = (if p = l then L' else if p = g then G' else prs ?N p)" "dom N2 = dom ?N"
      using mf(1,4) by (simp_all add: N2_def)
    show "N2 p = ?N p" if "p \<in> set (qs @ concat Us)"
    proof -
      have "p \<noteq> l" "p \<noteq> g" "isleaf ?N o1 \<or> p \<noteq> pg kv" using that dd cs(3) o1 same by auto
      then show ?thesis by (auto simp: N2_def moved_def Let_def reparent_def)
    qed
    show "par N2 p = par ?N p" if "p \<in> set ?ps"
    proof -
      have "isleaf ?N o1 \<or> p \<noteq> pg kv" using that cs(3) o1 same by auto
      then show ?thesis using lg by (auto simp: N2_def moved_def Let_def reparent_def)
    qed
  qed
  have "\<exists>N'. thenE (refresh_key q o1) (thenE (refresh_key q (if o1 = l then g else l)) (maintain_parent fuel q)) (s\<lparr>ix_nodes := N2\<rparr>) =
      (Inr (), s\<lparr>ix_nodes := N2\<rparr>\<lparr>ix_nodes := N'\<rparr>) \<and> stacked (key0 N') N' r ?ps (qs # Us) \<and> keys_frame (qs @ concat Us) N2 N' \<and> flat N2 ?ps = flat ?N ?ps"
  proof (rule redistribute_rest[OF l st pk refl q ln(1,2)])
    show "prs N2 p = prs ?N p" if "p \<in> set (A @ B)" for p using that dd N2f(1)[of p] by auto
    show "prs N2 l @ prs N2 g = prs ?N l @ prs ?N g" using N2f(1)[of l] N2f(1)[of g] lg LG by simp
    show "prs N2 l \<noteq> []" "prs N2 g \<noteq> []" using N2f(1)[of l] N2f(1)[of g] lg lens by simp_all
    show "o1 = l \<and> (if o1 = l then g else l) = g \<or> o1 = g \<and> (if o1 = l then g else l) = l" using o1 lg by auto
  qed (use ln(3) N2f f in simp_all)
  then obtain N' where N': "thenE (refresh_key q o1) (thenE (refresh_key q (if o1 = l then g else l)) (maintain_parent fuel q)) (s\<lparr>ix_nodes := N2\<rparr>) =
      (Inr (), s\<lparr>ix_nodes := N'\<rparr>)" "stacked (key0 N') N' r ?ps (qs # Us)" "keys_frame (qs @ concat Us) N2 N'" "flat N2 ?ps = flat ?N ?ps"
    by auto
  have mem: "kv \<in> set (if o1 = l then L' else G')" by (simp add: L'_def G'_def)
  have "\<forall>e \<in> set L' \<union> set G'. e \<noteq> kv \<longrightarrow> (e \<in> set L' \<longrightarrow> e \<in> set (prs ?N l)) \<and> (e \<in> set G' \<longrightarrow> e \<in> set (prs ?N g))"
    using ne by (auto simp: L'_def G'_def dest: in_set_butlastD list.set_sel(2) split: if_splits)
  then show ?thesis using tf N' N2_def lens LG mem
    by (intro exI[of _ N2] exI[of _ N'] exI[of _ L'] exI[of _ G'] exI[of _ kv]) (simp add: thenE_def bindE_def)
qed


lemma flat_sub: "kv \<in> set (prs N p) \<Longrightarrow> p \<in> set ps \<Longrightarrow> kv \<in> set (flat N ps)"
  by (auto simp: flat_def)

lemma flat_unique:
  "distinct (flat N ps) \<Longrightarrow> p \<in> set ps \<Longrightarrow> p' \<in> set ps \<Longrightarrow> p \<noteq> p' \<Longrightarrow> e \<in> set (prs N p) \<Longrightarrow> e \<notin> set (prs N p')"
proof (induction ps)
  case (Cons a ps)
  then show ?case using flat_sub[of e N p ps] flat_sub[of e N p' ps] by auto
qed simp

text \<open>A level of internal nodes and the level below it, after a redistribution.\<close>

lemma redistribute_lower:
  assumes l: "linked K N (A @ l # g # B) ls" and d: "distinct ls" "distinct (A @ l # g # B)" and nl: "\<not> isleaf N o1" and o1: "o1 = l \<or> o1 = g"
    and dom: "set (A @ l # g # B) \<subseteq> dom N" "set ls \<subseteq> dom N"
    and N2: "N2 = moved N l L' g G' o1 [pg kv]" "kv \<in> set (if o1 = l then L' else G')" "L' @ G' = prs N l @ prs N g" "L' \<noteq> []" "G' \<noteq> []"
      "\<forall>e \<in> set L' \<union> set G'. e \<noteq> kv \<longrightarrow> (e \<in> set L' \<longrightarrow> e \<in> set (prs N l)) \<and> (e \<in> set G' \<longrightarrow> e \<in> set (prs N g))"
      "flat N2 (A @ l # g # B) = flat N (A @ l # g # B)"
  shows "linked K N2 (A @ l # g # B) ls"
proof -
  have lg: "l \<noteq> g" using d(2) by auto
  have kvf: "kv \<in> set (prs N l @ prs N g)" using N2(2) unfolding N2(3)[symmetric] by (auto split: if_splits)
  then have kvin: "kv \<in> set (flat N (A @ l # g # B))" by auto
  have "pg kv \<in> set ls" using linked_chs[OF l] kvin by (auto simp: chs_def)
  then have cs: "isleaf N o1 \<or> set [pg kv] \<subseteq> dom N" using dom(2) by auto
  have dl: "l \<in> dom N" "g \<in> dom N" using dom(1) by auto
  note mf = moved_facts[OF lg dl cs, where L' = L' and G' = G']
  have inj: "e = kv" if "e \<in> set (flat N (A @ l # g # B))" "pg e = pg kv" for e
  proof -
    have "distinct (map pg (flat N (A @ l # g # B)))" using d(1) linked_chs[OF l] by (simp add: chs_def)
    then have "inj_on pg (set (flat N (A @ l # g # B)))" by (simp only: distinct_map)
    then show ?thesis using that kvin by (meson inj_onD)
  qed
  show ?thesis
  proof (rule linked_regroup[OF l N2(7)])
    fix p assume p: "p \<in> set (A @ l # g # B)"
    show "\<not> isleaf N2 p \<and> prs N2 p \<noteq> []"
      using linkedD(1,2)[OF l p] mf(1,2)[of p] N2(1,4,5) by simp
    fix e assume e: "e \<in> set (prs N2 p)"
    have ef: "e \<in> set (flat N (A @ l # g # B))" using flat_sub[of e N2 p "A @ l # g # B"] e p unfolding N2(7) by blast
    show "par N2 (pg e) = p"
    proof (cases "e = kv")
      case True
      have "p = o1"
      proof (rule ccontr)
        assume po: "p \<noteq> o1"
        have "distinct (map pg (flat N2 (A @ l # g # B)))" using d(1) linked_chs[OF l] N2(7) by (simp add: chs_def)
        then have df: "distinct (flat N2 (A @ l # g # B))" by (simp only: distinct_map)
        have "kv \<in> set (prs N2 o1)" using N2(2) mf(1)[of o1] N2(1) o1 lg by auto
        moreover have "o1 \<in> set (A @ l # g # B)" using o1 by auto
        ultimately show False using flat_unique[OF df p _ po, of e] e True by blast
      qed
      then show ?thesis using True mf(3)[of "pg kv"] N2(1) nl by simp
    next
      case False
      then have "pg e \<noteq> pg kv" using inj[OF ef] by auto
      then have "par N2 (pg e) = par N (pg e)" using mf(3)[of "pg e"] N2(1) by simp
      moreover have "e \<in> set (prs N p)" using e mf(1)[of p] N2(1,6) False by (auto split: if_splits)
      ultimately show ?thesis using linkedD(3)[OF l p] by simp
    qed
  qed simp
qed


section \<open>Underfull internal nodes\<close>

text \<open>The tree above a level \<open>ls\<close>, in which one node of the next level may have a pair too few.\<close>

definition under_ok :: "nat \<Rightarrow> nat \<Rightarrow> nat \<Rightarrow> ix_state \<Rightarrow> page_id_t list \<Rightarrow> page_id_t list \<Rightarrow> page_id_t list list \<Rightarrow> page_id_t \<Rightarrow> bool" where
  "under_ok mn mx L s ls ps Us o1 \<longleftrightarrow>
     (let N = ix_nodes s in
      linked (key0 N) N ps ls \<and> stacked (key0 N) N (root_page (ix_hdr s)) ps Us \<and>
      pages_ok N (ix_next_page s) (ls @ ps @ concat Us) \<and> (\<forall>p \<in> set (concat Us). size_ok mn mx (the (N p))) \<and>
      (\<forall>p \<in> set ps. p \<noteq> o1 \<longrightarrow> size_ok mn mx (the (N p))) \<and> o1 \<in> set ps \<and> length (prs N o1) < mx \<and>
      (if par N o1 = IX_NO_PAGE then 1 \<le> length (prs N o1) else mn \<le> length (prs N o1) + 1) \<and> key_lens L (key0 N) ls \<and>
      int mx = get_max_size (ix_hdr s) \<and> mn = mx div 2 \<and> 4 \<le> mx \<and> L = nat (col_tot_len (ix_hdr s)))"

definition shrunk :: "nat \<Rightarrow> nat \<Rightarrow> ix_state \<Rightarrow> page_id_t list \<Rightarrow> page_id_t list list \<Rightarrow> ix_state \<Rightarrow> page_id_t list list \<Rightarrow> bool" where
  "shrunk mn mx s ls Us s' Us' \<longleftrightarrow> upper_ok mn mx s' ls Us' \<and> set (concat Us') \<subseteq> set (concat Us) \<and>
     (\<forall>p \<in> set ls. same_node (ix_nodes s p) (ix_nodes s' p)) \<and> (\<forall>p. p \<notin> set (ls @ concat Us) \<longrightarrow> ix_nodes s' p = ix_nodes s p) \<and>
     ix_next_page s' = ix_next_page s \<and> hdr_keep (ix_hdr s) (ix_hdr s') \<and> last_leaf (ix_hdr s') = last_leaf (ix_hdr s)"

lemma get_min_size_nat: "int mx = get_max_size h \<Longrightarrow> mn = mx div 2 \<Longrightarrow> get_min_size h = int mn"
  by (auto simp: get_min_size_def get_max_size_def)

lemma shrunk_root:
  assumes u: "under_ok mn mx L s ls ps [] o1"
  shows "\<exists>b s' Us'. coalesce_or_redistribute fuel o1 s = (Inr b, s') \<and> shrunk mn mx s ls [ps] s' Us'"
proof -
  let ?N = "ix_nodes s"
  note uu = u[unfolded under_ok_def Let_def]
  have ps: "ps = [o1]" "par ?N o1 = IX_NO_PAGE" using uu by auto
  have l: "linked (key0 ?N) ?N [o1] ls" using uu ps by auto
  have nl: "\<not> isleaf ?N o1" "chs ?N [o1] = ls" using linkedD(1)[OF l] linked_chs[OF l] by auto
  have pk: "pages_ok ?N (ix_next_page s) (ls @ [o1])" using uu ps by auto
  have mx: "int mx = get_max_size (ix_hdr s)" "mn = mx div 2" "4 \<le> mx" using uu by auto
  show ?thesis
  proof (cases "length (prs ?N o1) = 1")
    case True
    then obtain kv where kv: "prs ?N o1 = [kv]" by (cases "prs ?N o1") auto
    have ls: "ls = [pg kv]" using nl(2) kv by simp
    have c: "pg kv \<in> dom ?N" "0 \<le> pg kv" "pg kv \<noteq> o1" using pages_okD[OF pk, of "pg kv"] pk ls by (auto simp: pages_ok_def)
    let ?s' = "s\<lparr>ix_nodes := ?N(pg kv \<mapsto> (the (?N (pg kv)))\<lparr>nd_parent := IX_NO_PAGE\<rparr>), ix_hdr := (ix_hdr s)\<lparr>root_page := pg kv\<rparr>\<rparr>"
    have "coalesce_or_redistribute fuel o1 s = (Inr True, ?s')"
      using ps(2) nl(1) kv c by (subst coalesce_or_redistribute.simps)
        (simp add: is_root_page_def adjust_root_def get_size_def value_at_def get_rid_def thenE_def bindE_def pg_def)
    moreover have "upper_ok mn mx ?s' ls []"
      using ls c mx pages_okD[OF pk, of "pg kv"] by (auto simp: upper_ok_def pages_ok_def get_max_size_def)
    then have "shrunk mn mx s ls [ps] ?s' []" using ls c by (auto simp: shrunk_def same_node_def)
    ultimately show ?thesis by blast
  next
    case False
    then have "coalesce_or_redistribute fuel o1 s = (Inr False, s)"
      using ps(2) nl(1) by (subst coalesce_or_redistribute.simps) (simp add: is_root_page_def adjust_root_def get_size_def)
    moreover have "size_ok mn mx (the (?N o1))" using uu ps False by (auto simp: size_ok_def)
    then have "upper_ok mn mx s ls [ps]" using uu ps by (auto simp: upper_ok_def)
    then have "shrunk mn mx s ls [ps] s [ps]" using pages_okD[OF pk] by (auto simp: shrunk_def)
    ultimately show ?thesis by blast
  qed
qed

lemma under_ok_done:
  assumes u: "under_ok mn mx L s ls ps Us o1" and sz: "mn \<le> length (prs (ix_nodes s) o1)"
  shows "shrunk mn mx s ls (ps # Us) s (ps # Us)"
proof -
  note uu = u[unfolded under_ok_def Let_def]
  have "2 \<le> mn" using uu by auto
  then have "size_ok mn mx (node_at s o1)" by (rule size_okI) (use uu sz in auto)
  then have "upper_ok mn mx s ls (ps # Us)" using uu by (auto simp: upper_ok_def)
  then show ?thesis using pages_okD[of "ix_nodes s" "ix_next_page s" "ls @ ps @ concat Us"] uu by (auto simp: shrunk_def)
qed


lemma keys_frame_flat: "keys_frame qs N N' \<Longrightarrow> set ps \<inter> set qs = {} \<Longrightarrow> flat N' ps = flat N ps"
  using keys_frameD(4)[of qs N N'] by (intro flat_cong) (metis disjoint_iff)

text \<open>The level above again, from the level itself.\<close>

lemma upper_ok_add:
  assumes u: "upper_ok mn mx s ps Us" and l: "linked (key0 (ix_nodes s)) (ix_nodes s) ps ls"
    and sz: "\<And>p. p \<in> set ps \<Longrightarrow> mn \<le> length (prs (ix_nodes s) p) \<and> length (prs (ix_nodes s) p) < mx"
    and pk: "pages_ok (ix_nodes s) (ix_next_page s) ls" "set ls \<inter> set (ps @ concat Us) = {}"
  shows "upper_ok mn mx s ls (ps # Us)"
proof -
  have "2 \<le> mn" using u by (auto simp: upper_ok_def)
  then have "\<forall>p \<in> set ps. size_ok mn mx (node_at s p)" using sz by (auto intro: size_okI)
  moreover have "pages_ok (ix_nodes s) (ix_next_page s) (ls @ ps @ concat Us)" using u pk by (auto simp: upper_ok_def pages_ok_append)
  ultimately show ?thesis using u l by (auto simp: upper_ok_def)
qed

lemma level_sizes:
  assumes u: "under_ok mn mx L s ls ps (qs # Us) o1" and p: "p \<in> set ps"
  shows "par (ix_nodes s) p \<noteq> IX_NO_PAGE" "p \<noteq> o1 \<Longrightarrow> mn \<le> length (prs (ix_nodes s) p)" "length (prs (ix_nodes s) p) < mx"
    "mn \<le> length (prs (ix_nodes s) p) + 1"
proof -
  note uu = u[unfolded under_ok_def Let_def]
  obtain q where "q \<in> set qs" "par (ix_nodes s) p = q"
    using linked_place[of "key0 (ix_nodes s)" "ix_nodes s" qs ps p] uu p by auto
  moreover have "0 \<le> q" if "q \<in> set qs" for q
    using uu pages_okD[of "ix_nodes s" "ix_next_page s" "ls @ ps @ concat (qs # Us)" q] that by auto
  ultimately show np: "par (ix_nodes s) p \<noteq> IX_NO_PAGE" by force
  show "p \<noteq> o1 \<Longrightarrow> mn \<le> length (prs (ix_nodes s) p)" "length (prs (ix_nodes s) p) < mx" "mn \<le> length (prs (ix_nodes s) p) + 1"
    using uu np p by (cases "p = o1"; force simp: size_ok_def)+
qed

text \<open>The children of a level of internal nodes.\<close>

lemma level_children:
  assumes u: "under_ok mn mx L s ls ps Us o1" and p: "p \<in> set ps" "kv \<in> set (prs (ix_nodes s) p)"
  shows "pg kv \<in> dom (ix_nodes s) \<and> 0 \<le> pg kv \<and> pg kv \<notin> set (ps @ concat Us) \<and> par (ix_nodes s) (pg kv) = p"
proof -
  note uu = u[unfolded under_ok_def Let_def]
  have "pg kv \<in> set ls" "par (ix_nodes s) (pg kv) = p"
    using linkedD(3,4)[of "key0 (ix_nodes s)" "ix_nodes s" ps ls p kv] uu p by auto
  then show ?thesis using uu pages_okD[of "ix_nodes s" "ix_next_page s" "ls @ ps @ concat Us" "pg kv"] by (auto simp: pages_ok_def)
qed

end
