(* ===== verification/IxTreeShrink.thy ===== *)
theory IxTreeShrink
  imports IxTreeDelete
begin

text \<open>
  Deletion from the B+ tree, continued: the levels of internal nodes after a redistribution and after a merge, the
  climb of \<open>coalesce_or_redistribute\<close> through the levels.
\<close>

section \<open>Internal nodes\<close>

lemma under_redistribute:
  assumes u: "under_ok mn mx L s ls (A @ l # g # B) (qs # Us) o1" and q: "par (ix_nodes s) l = q" "par (ix_nodes s) g = q" and o1: "o1 = l \<or> o1 = g"
    and sz: "length (prs (ix_nodes s) o1) < mn" "2 * mn \<le> length (prs (ix_nodes s) l) + length (prs (ix_nodes s) g)" and f: "length Us \<le> fuel"
  shows "\<exists>s'. thenE (if o1 = l then take_from g l 0 (length (prs (ix_nodes s) l)) else take_from l g (length (prs (ix_nodes s) l) - 1) 0)
         (thenE (refresh_key q o1) (thenE (refresh_key q (if o1 = l then g else l)) (maintain_parent fuel q))) s = (Inr (), s') \<and>
    shrunk mn mx s ls ((A @ l # g # B) # qs # Us) s' ((A @ l # g # B) # qs # Us)"
proof -
  let ?N = "ix_nodes s" and ?ps = "A @ l # g # B" and ?r = "root_page (ix_hdr s)"
  note uu = u[unfolded under_ok_def Let_def]
  have lk: "linked (key0 ?N) ?N ?ps ls" "linked (key0 ?N) ?N qs ?ps" "stacked (key0 ?N) ?N ?r qs Us" using uu by auto
  have pk: "pages_ok ?N (ix_next_page s) (ls @ ?ps @ qs @ concat Us)" and mx: "int mx = get_max_size (ix_hdr s)" "mn = mx div 2" "4 \<le> mx"
    and L: "L = nat (col_tot_len (ix_hdr s))" using uu by auto
  have d: "distinct ls" "distinct ?ps" "set ls \<inter> set (?ps @ qs @ concat Us) = {}" "set ?ps \<inter> set (qs @ concat Us) = {}" and lg: "l \<noteq> g"
    using pk by (auto simp: pages_ok_def)
  have dom: "set ?ps \<subseteq> dom ?N" "set ls \<subseteq> dom ?N" using pages_okD[OF pk] by auto
  have pkp: "pages_ok ?N (ix_next_page s) (?ps @ qs @ concat Us)" using pk by (simp add: pages_ok_append)
  have nl: "\<not> isleaf ?N p" "prs ?N p \<noteq> []" if "p \<in> set ?ps" for p using linkedD(1,2)[OF lk(1) that] by auto
  have pl: "pair_lens L (flat ?N ?ps)" using linked_pair_lens[OF lk(1) d(1)] uu by blast
  let ?nb = "if o1 = l then g else l"
  have on: "length (prs ?N o1) + 1 = mn" using sz(1) level_sizes(4)[OF u, of o1] o1 by auto
  have nbs: "mn + 1 \<le> length (prs ?N ?nb)" using sz(2) on o1 lg by (auto split: if_splits)
  have nbx: "length (prs ?N ?nb) < mx" using level_sizes(3)[OF u, of ?nb] by auto
  have room: "int (length (prs ?N o1) + 1) \<le> get_max_size (ix_hdr s)" "2 \<le> length (prs ?N ?nb)" using on nbs mx by linarith+
  have same: "isleaf ?N l = isleaf ?N g" and ne: "\<forall>p \<in> set ?ps. prs ?N p \<noteq> []" using nl by auto
  have ch: "\<forall>e \<in> set (prs ?N l @ prs ?N g). pg e \<in> dom ?N \<and> 0 \<le> pg e \<and> pg e \<notin> set (?ps @ qs @ concat Us) \<and> par ?N (pg e) \<in> {l, g}"
  proof
    fix e assume "e \<in> set (prs ?N l @ prs ?N g)"
    then have "e \<in> set (prs ?N l) \<or> e \<in> set (prs ?N g)" by simp
    then show "pg e \<in> dom ?N \<and> 0 \<le> pg e \<and> pg e \<notin> set (?ps @ qs @ concat Us) \<and> par ?N (pg e) \<in> {l, g}"
      using level_children[OF u, of l e] level_children[OF u, of g e] by (elim disjE) simp_all
  qed
  obtain N2 N' L' G' kv where run: "thenE (if o1 = l then take_from g l 0 (length (prs ?N l)) else take_from l g (length (prs ?N l) - 1) 0)
         (thenE (refresh_key q o1) (thenE (refresh_key q ?nb) (maintain_parent fuel q))) s = (Inr (), s\<lparr>ix_nodes := N'\<rparr>)"
    and st': "stacked (key0 N') N' ?r ?ps (qs # Us)" and kf: "keys_frame (qs @ concat Us) N2 N'" and N2: "N2 = moved ?N l L' g G' o1 [pg kv]"
    and kv: "kv \<in> set (if o1 = l then L' else G')" and LG: "L' @ G' = prs ?N l @ prs ?N g"
      "length (if o1 = l then L' else G') = length (prs ?N o1) + 1" "L' \<noteq> []" "G' \<noteq> []"
    and fl: "flat N2 ?ps = flat ?N ?ps"
    and sub: "\<forall>e \<in> set L' \<union> set G'. e \<noteq> kv \<longrightarrow> (e \<in> set L' \<longrightarrow> e \<in> set (prs ?N l)) \<and> (e \<in> set G' \<longrightarrow> e \<in> set (prs ?N g))"
    using redistribute_level[OF lk(2,3) pkp q pl ne L o1 room f same ch] by (elim exE conjE) (rule that)
  have "kv \<in> set (prs ?N l @ prs ?N g)" using kv unfolding LG(1)[symmetric] by (auto split: if_splits)
  then have kvf: "kv \<in> set (flat ?N ?ps)" by auto
  then have pgk: "pg kv \<in> set ls" using linked_chs[OF lk(1)] by (auto simp: chs_def)
  have cs: "isleaf ?N o1 \<or> set [pg kv] \<subseteq> dom ?N" using pgk dom(2) by auto
  have dl: "l \<in> dom ?N" "g \<in> dom ?N" using dom(1) by auto
  note mf = moved_facts[OF lg dl cs, where L' = L' and G' = G', folded N2]
  have nlo: "\<not> isleaf ?N o1" using nl(1)[of o1] o1 by auto
  have l2: "linked (key0 ?N) N2 ?ps ls"
    by (rule redistribute_lower[OF lk(1) d(1,2) nlo o1 dom N2 kv LG(1,3,4) sub fl])
  have low: "p \<notin> set (qs @ concat Us)" if "p \<in> set (ls @ ?ps)" for p using that d(3,4) unfolding set_append by blast
  have e: "N' p = N2 p" if "p \<in> set (ls @ ?ps)" for p by (rule keys_frameD(4)[OF kf low[OF that]])
  have k0: "key0 N' p = key0 ?N p" if "p \<in> set ls" for p
  proof -
    have "p \<noteq> l" "p \<noteq> g" using that d(3) by auto
    then show ?thesis using e[of p] mf(1)[of p] that by (simp add: key0_def)
  qed
  have l': "linked (key0 N') N' ?ps ls" by (rule linked_cong[OF l2]) (use e k0 in auto)
  have dN: "dom N' = dom ?N" using keys_frameD(5)[OF kf] mf(4) by simp
  let ?s' = "s\<lparr>ix_nodes := N'\<rparr>"
  have old: "N2 p = ?N p" if "p \<in> set (qs @ concat Us)" for p
  proof -
    have "p \<notin> set (ls @ ?ps)" using low that by blast
    then show ?thesis using pgk by (intro mf(5)) auto
  qed
  have szu: "size_ok mn mx (the (N' p))" if p: "p \<in> set (concat (qs # Us))" for p
    by (rule size_ok_cong[where N = ?N]) (use uu p old[of p] keys_frameD(1-3)[OF kf, of p] in auto)
  have up: "upper_ok mn mx ?s' ?ps (qs # Us)"
    using st' szu mx pages_ok_mono[OF pkp, of N' "ix_next_page s"] dN by (simp add: upper_ok_def)
  have szp: "mn \<le> length (prs N' p) \<and> length (prs N' p) < mx" if p: "p \<in> set ?ps" for p
  proof -
    have "length L' + length G' = length (prs ?N l) + length (prs ?N g)" using arg_cong[OF LG(1), of length] by simp
    then have "length L' = (if o1 = l then mn else length (prs ?N l) - 1)" "length G' = (if o1 = l then length (prs ?N g) - 1 else mn)"
      using LG(2) on o1 by (auto split: if_splits)
    then show ?thesis using mf(1)[of p] e[of p] p level_sizes(2,3)[OF u p] nbs nbx on o1 lg mx by (auto split: if_splits)
  qed
  have "upper_ok mn mx ?s' ls (?ps # qs # Us)"
    by (rule upper_ok_add[OF up]) (use l' szp pk dN d(3) in \<open>auto simp: pages_ok_def\<close>)
  moreover have "same_node (?N p) (N' p)" if "p \<in> set ls" for p
    using mf(8)[of p] e[of p] that d(3) dom(2) by auto
  moreover have "N' p = ?N p" if "p \<notin> set (ls @ concat (?ps # qs # Us))" for p
    using keys_frameD(4)[OF kf, of p] mf(5)[of p] that pgk by auto
  ultimately have "shrunk mn mx s ls (?ps # qs # Us) ?s' (?ps # qs # Us)" by (simp add: shrunk_def)
  with run show ?thesis by blast
qed

text \<open>The parent of two merged pages has lost a pair.\<close>

lemma merged_under_ok:
  assumes st: "stacked (key0 N') N' (root_page (ix_hdr s')) ps' ((C @ q # D) # Us)" and s': "ix_nodes s' = N'"
    and kf: "keys_frame ((C @ q # D) @ concat Us) (N2(q \<mapsto> (the (N2 q))\<lparr>nd_pairs := X @ kl # Y\<rparr>)) N'"
    and N2: "\<And>p. p \<in> set ((C @ q # D) @ concat Us) \<Longrightarrow> N2 p = N p" and q: "prs N q = X @ kl # kg # Y"
    and sz: "\<And>p. p \<in> set ((C @ q # D) @ concat Us) \<Longrightarrow> size_ok mn mx (the (N p))"
    and pl: "pair_lens L (flat N' ps')" "\<forall>p \<in> set ps'. prs N' p \<noteq> []" and pk: "pages_ok N' (ix_next_page s') (ps' @ (C @ q # D) @ concat Us)"
    and mx: "int mx = get_max_size (ix_hdr s')" "mn = mx div 2" "4 \<le> mx" "L = nat (col_tot_len (ix_hdr s'))"
  shows "under_ok mn mx L s' ps' (C @ q # D) Us q"
proof -
  let ?qs = "C @ q # D"
  have frm: "par N' p = par N p" "isleaf N' p = isleaf N p" "length (prs N' p) = (if p = q then length (prs N q) - 1 else length (prs N p))"
    if p: "p \<in> set (?qs @ concat Us)" for p
    using keys_frameD(1-3)[OF kf, of p] N2[OF p] q by auto
  have szu: "size_ok mn mx (the (N' p))" if p: "p \<in> set (?qs @ concat Us)" "p \<noteq> q" for p
    by (rule size_ok_cong[where N = N]) (use sz[OF p(1)] frm[OF p(1)] p(2) in auto)
  have szq: "length (prs N' q) < mx" "if par N' q = IX_NO_PAGE then 1 \<le> length (prs N' q) else mn \<le> length (prs N' q) + 1"
    using sz[of q] frm[of q] q by (auto simp: size_ok_def)
  have qU: "p \<noteq> q" if "p \<in> set (concat Us)" for p using that pk by (auto simp: pages_ok_def)
  have "key_lens L (key0 N') ps'" by (rule pair_lens_key_lens[OF pl])
  then show ?thesis unfolding under_ok_def Let_def using st s' pk szu szq mx qU by (auto split: if_splits)
qed

text \<open>A merge leaves one page less in the level, and a parent with one pair less.\<close>

lemma under_merge:
  assumes u: "under_ok mn mx L s ls (A @ l # g # B) ((C @ q # D) # Us) o1" and o1: "o1 = l \<or> o1 = g"
    and q: "prs (ix_nodes s) q = X @ kl # kg # Y" "pg kl = l" "pg kg = g" "A = chs (ix_nodes s) C @ map pg X" "B = map pg Y @ chs (ix_nodes s) D"
    and sz: "length (prs (ix_nodes s) l) + length (prs (ix_nodes s) g) < 2 * mn" and f: "length Us \<le> fuel"
  shows "\<exists>N'. merge_into fuel l g q (length X + 1) s = (Inr (), s\<lparr>ix_nodes := N'\<rparr>) \<and>
    under_ok mn mx L (s\<lparr>ix_nodes := N'\<rparr>) (A @ l # B) (C @ q # D) Us q \<and> linked (key0 N') N' (A @ l # B) ls \<and>
    (\<forall>p \<in> set (A @ l # B). mn \<le> length (prs N' p) \<and> length (prs N' p) < mx) \<and> (\<forall>p \<in> set ls. same_node (ix_nodes s p) (N' p)) \<and>
    (\<forall>p. p \<notin> set (ls @ (A @ l # B) @ (C @ q # D) @ concat Us) \<longrightarrow> N' p = ix_nodes s p)"
proof -
  let ?N = "ix_nodes s" and ?ps = "A @ l # g # B" and ?qs = "C @ q # D" and ?r = "root_page (ix_hdr s)"
  note uu = u[unfolded under_ok_def Let_def]
  have lk: "linked (key0 ?N) ?N ?ps ls" "linked (key0 ?N) ?N ?qs ?ps" "stacked (key0 ?N) ?N ?r ?qs Us" using uu by auto
  have pk: "pages_ok ?N (ix_next_page s) (ls @ ?ps @ ?qs @ concat Us)" and mx: "int mx = get_max_size (ix_hdr s)" "mn = mx div 2" "4 \<le> mx"
    and L: "L = nat (col_tot_len (ix_hdr s))" using uu by auto
  have d: "distinct ls" "distinct ?ps" "set ls \<inter> set (?ps @ ?qs @ concat Us) = {}" "set ?ps \<inter> set (?qs @ concat Us) = {}" "distinct (?qs @ concat Us)"
    and lg: "l \<noteq> g" using pk by (auto simp: pages_ok_def)
  have dom: "set ?ps \<subseteq> dom ?N" "set ls \<subseteq> dom ?N" "set (?qs @ concat Us) \<subseteq> dom ?N" using pages_okD[OF pk] by auto
  have dl: "l \<in> dom ?N" "g \<in> dom ?N" using dom(1) by auto
  have pkp: "pages_ok ?N (ix_next_page s) (?ps @ ?qs @ concat Us)" using pk by (simp add: pages_ok_append)
  have nl: "\<not> isleaf ?N p" "prs ?N p \<noteq> []" if "p \<in> set ?ps" for p using linkedD(1,2)[OF lk(1) that] by auto
  have pl: "pair_lens L (flat ?N ?ps)" using linked_pair_lens[OF lk(1) d(1)] uu by blast
  have chl: "pg e \<in> set ls" "par ?N (pg e) = p" if "p \<in> set ?ps" "e \<in> set (prs ?N p)" for p e using linkedD(3,4)[OF lk(1) that] by auto
  define N2 where "N2 = moved ?N l (prs ?N l @ prs ?N g) g (prs ?N g) l (map pg (prs ?N g))"
  have cs: "isleaf ?N l \<or> set (map pg (prs ?N g)) \<subseteq> dom ?N" using chl(1)[of g] dom(2) by auto
  note mf = moved_facts[OF lg dl cs, where L' = "prs ?N l @ prs ?N g" and G' = "prs ?N g", folded N2_def]
  have "int (length (prs ?N l) + length (prs ?N g)) \<le> get_max_size (ix_hdr s)" using sz mx by linarith
  moreover have "\<forall>e \<in> set (prs ?N l @ prs ?N g). pg e \<in> dom ?N \<and> 0 \<le> pg e"
  proof
    fix e assume "e \<in> set (prs ?N l @ prs ?N g)"
    then have "pg e \<in> set ls" using chl(1)[of l e] chl(1)[of g e] by auto
    then show "pg e \<in> dom ?N \<and> 0 \<le> pg e" using pages_okD[OF pk, of "pg e"] by simp
  qed
  ultimately have mi: "merge_into fuel l g q (length X + 1) s = merge_end fuel l q (length X + 1) (s\<lparr>ix_nodes := N2\<rparr>)"
    unfolding N2_def by (intro merge_internal_run[OF lg dl]) (use nl(1)[of l] in auto)
  have low: "p \<notin> set (?qs @ concat Us)" if "p \<in> set (ls @ ?ps)" for p using that d(3,4) unfolding set_append by blast
  have gls: "set (map pg (prs ?N g)) \<subseteq> set ls" using chl(1)[of g] by auto
  have lsp: "p \<notin> set ls" if "p \<in> set ?ps" for p using that d(3) unfolding set_append by blast
  have same2: "N2 p = ?N p" if "p \<in> set (?qs @ concat Us)" for p
  proof -
    have "p \<notin> set (ls @ ?ps)" using low that by blast
    then show ?thesis using gls by (intro mf(5)) auto
  qed
  have par2: "par N2 p = par ?N p" if "p \<in> set ?ps" for p
    using mf(3)[of p] lsp[OF that] gls by auto
  have "\<exists>N'. merge_end fuel l q (length X + 1) (s\<lparr>ix_nodes := N2\<rparr>) = (Inr (), s\<lparr>ix_nodes := N2\<rparr>\<lparr>ix_nodes := N'\<rparr>) \<and>
    stacked (key0 N') N' ?r (A @ l # B) (?qs # Us) \<and>
    keys_frame (?qs @ concat Us) (N2(q \<mapsto> (the (N2 q))\<lparr>nd_pairs := X @ kl # Y\<rparr>)) N' \<and> flat N2 (A @ l # B) = flat ?N ?ps"
    unfolding merge_end_def
  proof (rule merge_rest[OF lk(2,3) pkp q pl])
    show "\<forall>p \<in> set ?ps. prs ?N p \<noteq> []" using nl(2) by blast
    show "prs N2 p = prs ?N p" if "p \<in> set (A @ g # B)" for p using mf(1)[of p] that d(2) lg by auto
    show "prs N2 l = prs ?N l @ prs ?N g" using mf(1)[of l] by simp
  qed (use L f mf(4) same2 par2 in simp_all)
  then obtain N' where N': "merge_into fuel l g q (length X + 1) s = (Inr (), s\<lparr>ix_nodes := N'\<rparr>)"
    "stacked (key0 N') N' ?r (A @ l # B) (?qs # Us)" "keys_frame (?qs @ concat Us) (N2(q \<mapsto> (the (N2 q))\<lparr>nd_pairs := X @ kl # Y\<rparr>)) N'"
    "flat N2 (A @ l # B) = flat ?N ?ps" using mi by auto
  let ?N1 = "N2(q \<mapsto> (the (N2 q))\<lparr>nd_pairs := X @ kl # Y\<rparr>)"
  have e: "N' p = N2 p" if "p \<notin> set (?qs @ concat Us)" for p using keys_frameD(4)[OF N'(3) that] that by auto
  have dN: "dom N' = dom ?N" using keys_frameD(5)[OF N'(3)] mf(4) dom(3) by auto
  have l2: "linked (key0 ?N) N2 (A @ l # B) ls"
  proof (rule linked_regroup[OF lk(1) N'(4)])
    fix p assume p: "p \<in> set (A @ l # B)"
    then have pp: "p \<in> set ?ps" "p \<noteq> g" using d(2) by auto
    show "\<not> isleaf N2 p \<and> prs N2 p \<noteq> []" using mf(1,2)[of p] nl[OF pp(1)] by auto
    fix kv assume kv: "kv \<in> set (prs N2 p)"
    show "par N2 (pg kv) = p"
    proof (cases "p = l")
      case True
      then have "kv \<in> set (prs ?N l) \<or> kv \<in> set (prs ?N g)" using kv mf(1)[of l] by simp
      then show ?thesis using True mf(3)[of "pg kv"] nl(1)[of l] chl(2)[of l kv] by auto
    next
      case False
      then have "kv \<in> set (prs ?N p)" using kv mf(1)[of p] pp(2) by simp
      moreover have "pg kv \<notin> set (map pg (prs ?N g))"
      proof
        assume "pg kv \<in> set (map pg (prs ?N g))"
        then have "par ?N (pg kv) = g" using chl(2)[of g] by auto
        then show False using chl(2)[OF pp(1) calculation] pp(2) by simp
      qed
      ultimately show ?thesis using mf(3)[of "pg kv"] chl(2)[OF pp(1)] by simp
    qed
  qed simp
  have el: "N' p = N2 p" if "p \<in> set (ls @ ?ps)" for p by (rule e[OF low[OF that]])
  have k0: "key0 N' p = key0 ?N p" if "p \<in> set ls" for p
  proof -
    have "p \<noteq> l" "p \<noteq> g" using that d(3) by auto
    then show ?thesis using el[of p] mf(1)[of p] that by (simp add: key0_def)
  qed
  have l': "linked (key0 N') N' (A @ l # B) ls" by (rule linked_cong[OF l2]) (use el k0 in auto)
  have szp: "mn \<le> length (prs N' p) \<and> length (prs N' p) < mx" if p: "p \<in> set (A @ l # B)" for p
  proof -
    have pp: "p \<in> set ?ps" "p \<noteq> g" using p d(2) by auto
    have "N' p = N2 p" by (rule el) (use pp in auto)
    then have "prs N' p = (if p = l then prs ?N l @ prs ?N g else prs ?N p)" using mf(1)[of p] pp(2) by simp
    moreover have "mn \<le> length (prs ?N l) + length (prs ?N g)"
      using level_sizes(2)[OF u, of l] level_sizes(2)[OF u, of g] o1 lg by auto
    ultimately show ?thesis using level_sizes(2,3)[OF u pp(1)] sz mx o1 pp(2) by (auto split: if_splits)
  qed
  have pl': "pair_lens L (flat N' (A @ l # B))"
  proof -
    have "flat N' (A @ l # B) = flat N2 (A @ l # B)" using el by (intro flat_cong) auto
    then show ?thesis using pl N'(4) by simp
  qed
  have "pages_ok N' (ix_next_page s) ((A @ l # B) @ ?qs @ concat Us)"
    using pkp dN unfolding pages_ok_def by auto
  moreover have "size_ok mn mx (the (?N p))" if "p \<in> set (?qs @ concat Us)" for p using uu that by auto
  moreover have "\<forall>p \<in> set (A @ l # B). prs N' p \<noteq> []" using szp mx by fastforce
  ultimately have "under_ok mn mx L (s\<lparr>ix_nodes := N'\<rparr>) (A @ l # B) ?qs Us q"
    using merged_under_ok[OF _ _ N'(3) same2 q(1) _ pl', of "s\<lparr>ix_nodes := N'\<rparr>" mn mx] N'(2) mx L by auto
  moreover have "same_node (?N p) (N' p)" if "p \<in> set ls" for p
    using mf(8)[of p] el[of p] that d(3) dom(2) by auto
  moreover have "N' p = ?N p" if "p \<notin> set (ls @ (A @ l # B) @ ?qs @ concat Us)" for p
  proof (cases "p = g")
    case True
    have "g \<notin> set (map pg (prs ?N g))" using chl(1)[of g] d(3) by auto
    then show ?thesis using True e[of g] that dl(2) lg by (auto simp: N2_def moved_def reparent_def Let_def)
  next
    case False
    moreover have "p \<notin> set (map pg (prs ?N g))" using gls that by auto
    ultimately have "N2 p = ?N p" using that by (intro mf(5)) auto
    then show ?thesis using e[of p] that by simp
  qed
  ultimately show ?thesis using N'(1) l' szp by blast
qed

text \<open>What the climb through the upper levels leaves below.\<close>

lemma shrunk_add:
  assumes sh: "shrunk mn mx (s\<lparr>ix_nodes := N1\<rparr>) ps' Vs s' Us'" and l: "linked (key0 N1) N1 ps' ls"
    and sz: "\<forall>p \<in> set ps'. mn \<le> length (prs N1 p) \<and> length (prs N1 p) < mx" and sm: "\<forall>p \<in> set ls. same_node (ix_nodes s p) (N1 p)"
    and oth: "\<forall>p. p \<notin> set (ls @ ps' @ concat Vs) \<longrightarrow> N1 p = ix_nodes s p"
    and pk: "pages_ok (ix_nodes s) (ix_next_page s) ls" "set ls \<inter> set (ps @ concat Vs) = {}" "set ps' \<subseteq> set ps"
  shows "shrunk mn mx s ls (ps # Vs) s' (ps' # Us')"
proof -
  note h = sh[unfolded shrunk_def]
  let ?N' = "ix_nodes s'"
  have e: "?N' p = N1 p" if "p \<in> set ls" for p
  proof -
    have "p \<notin> set (ps' @ concat Vs)" using that pk(2,3) unfolding set_append by blast
    then show ?thesis using h by simp
  qed
  have sp: "same_node (N1 p) (?N' p)" if "p \<in> set ps'" for p using h that by simp
  have "linked (key0 ?N') ?N' ps' ls"
    by (rule linked_cong[OF l]) (use e same_nodeD(1,2)[of N1 _ ?N', OF sp] in \<open>auto simp: key0_def\<close>)
  moreover have "pages_ok ?N' (ix_next_page s') ls"
  proof -
    have "p \<in> dom ?N'" if "p \<in> set ls" for p using e[OF that] sm that same_nodeD(4)[of "ix_nodes s" p N1] by (auto simp: dom_def)
    then show ?thesis using pk(1) h by (simp add: pages_ok_def)
  qed
  moreover have "set ls \<inter> set (ps' @ concat Us') = {}" using pk(2,3) h unfolding set_append by blast
  moreover have "mn \<le> length (prs ?N' p) \<and> length (prs ?N' p) < mx" if "p \<in> set ps'" for p
    using sz same_nodeD(1)[of N1 p ?N', OF sp[OF that]] that by simp
  ultimately have "upper_ok mn mx s' ls (ps' # Us')" using h by (intro upper_ok_add) simp_all
  moreover have "?N' p = ix_nodes s p" if "p \<notin> set (ls @ concat (ps # Vs))" for p
  proof -
    have "p \<notin> set (ls @ ps' @ concat Vs)" using that pk(3) by auto
    then show ?thesis using h oth by simp
  qed
  moreover have "set (concat (ps' # Us')) \<subseteq> set (concat (ps # Vs))" using h pk(3) by auto
  ultimately show ?thesis using h sm e by (simp add: shrunk_def)
qed

lemma thenE_returnE: "m s = (Inr u, s') \<Longrightarrow> thenE m (returnE b) s = (Inr b, s')"
  by (simp add: thenE_Inr)

lemma not_root_run:
  assumes "par (ix_nodes s) o1 \<noteq> IX_NO_PAGE" "get_min_size (ix_hdr s) \<le> int (length (prs (ix_nodes s) o1))"
  shows "coalesce_or_redistribute fuel o1 s = (Inr False, s)"
  using assms by (subst coalesce_or_redistribute.simps) (simp add: is_root_page_def get_size_def)

lemma coalesce_under:
  "under_ok mn mx L s ls ps Us o1 \<Longrightarrow> length Us \<le> fuel \<Longrightarrow>
    \<exists>b s' Us'. coalesce_or_redistribute fuel o1 s = (Inr b, s') \<and> shrunk mn mx s ls (ps # Us) s' Us'"
proof (induction Us arbitrary: s ls ps o1 fuel)
  case Nil
  then show ?case using shrunk_root by blast
next
  case (Cons qs Us)
  let ?N = "ix_nodes s"
  note u = Cons.prems(1)
  note uu = u[unfolded under_ok_def Let_def]
  have o1: "o1 \<in> set ps" and mx: "int mx = get_max_size (ix_hdr s)" "mn = mx div 2" "4 \<le> mx" using uu by auto
  have min: "get_min_size (ix_hdr s) = int mn" by (rule get_min_size_nat[OF mx(1,2)])
  show ?case
  proof (cases "mn \<le> length (prs ?N o1)")
    case True
    then show ?thesis using not_root_run[OF level_sizes(1)[OF u o1]] under_ok_done[OF u True] min by (intro exI[of _ False] exI[of _ s] exI[of _ "ps # qs # Us"]) simp
  next
    case False
    have pk: "pages_ok ?N (ix_next_page s) (ls @ ps @ qs @ concat Us)" using uu by auto
    then have pk2: "pages_ok ?N (ix_next_page s) (ps @ qs)" "pages_ok ?N (ix_next_page s) ls" by (auto simp: pages_ok_append)
    have lk: "linked (key0 ?N) ?N qs ps" using uu by auto
    have two: "\<forall>q \<in> set qs. 2 \<le> length (prs ?N q)"
    proof
      fix q assume "q \<in> set qs"
      then have "size_ok mn mx (the (?N q))" "\<not> isleaf ?N q" using uu linkedD(1)[OF lk] by auto
      then show "2 \<le> length (prs ?N q)" using mx by (auto simp: size_ok_def split: if_splits)
    qed
    have sz: "int (length (prs ?N o1)) < get_min_size (ix_hdr s)" using False min by simp
    obtain A l g B C q D X kl kg Y where ps: "ps = A @ l # g # B" "qs = C @ q # D" "prs ?N q = X @ kl # kg # Y" "pg kl = l" "pg kg = g"
      "A = chs ?N C @ map pg X" "B = map pg Y @ chs ?N D" "par ?N l = q" "par ?N g = q" "o1 = l \<or> o1 = g" and run: "coalesce_or_redistribute fuel o1 s =
      (if 2 * get_min_size (ix_hdr s) \<le> int (length (prs ?N l) + length (prs ?N g))
       then thenE (thenE (if o1 = l then take_from g l 0 (length (prs ?N l)) else take_from l g (length (prs ?N l) - 1) 0)
         (thenE (refresh_key q o1) (thenE (refresh_key q (if o1 = l then g else l)) (maintain_parent fuel q)))) (returnE False) s
       else case fuel of 0 \<Rightarrow> (Inl OutOfFuel, s)
         | Suc f \<Rightarrow> thenE (merge_into f l g q (length X + 1)) (coalesce_or_redistribute f q) s)"
      using coalesce_cases[OF lk pk2(1) o1 sz two, of fuel] by (elim exE conjE) (rule that)
    show ?thesis
    proof (cases "2 * mn \<le> length (prs ?N l) + length (prs ?N g)")
      case True
      have "length Us \<le> fuel" "length (prs ?N o1) < mn" using Cons.prems(2) False by simp_all
      then obtain s' where s': "thenE (if o1 = l then take_from g l 0 (length (prs ?N l)) else take_from l g (length (prs ?N l) - 1) 0)
         (thenE (refresh_key q o1) (thenE (refresh_key q (if o1 = l then g else l)) (maintain_parent fuel q))) s = (Inr (), s')"
        "shrunk mn mx s ls (ps # qs # Us) s' (ps # qs # Us)"
        using under_redistribute[OF u[unfolded ps(1)] ps(8-10) _ True] unfolding ps(1) by blast
      have c: "2 * get_min_size (ix_hdr s) \<le> int (length (prs ?N l) + length (prs ?N g))" using True min by linarith
      have "coalesce_or_redistribute fuel o1 s = (Inr False, s')" unfolding run if_P[OF c] by (intro thenE_returnE) (rule s'(1))
      then show ?thesis using s'(2) by blast
    next
      case mg: False
      obtain f where f: "fuel = Suc f" "length Us \<le> f" using Cons.prems(2) by (cases fuel) auto
      have less: "length (prs ?N l) + length (prs ?N g) < 2 * mn" using mg by simp
      obtain N' where N': "merge_into f l g q (length X + 1) s = (Inr (), s\<lparr>ix_nodes := N'\<rparr>)"
        "under_ok mn mx L (s\<lparr>ix_nodes := N'\<rparr>) (A @ l # B) qs Us q" "linked (key0 N') N' (A @ l # B) ls"
        "\<forall>p \<in> set (A @ l # B). mn \<le> length (prs N' p) \<and> length (prs N' p) < mx" "\<forall>p \<in> set ls. same_node (?N p) (N' p)"
        "\<forall>p. p \<notin> set (ls @ (A @ l # B) @ qs @ concat Us) \<longrightarrow> N' p = ?N p"
        using under_merge[OF u[unfolded ps(1,2)] ps(10,3-7) less f(2)] unfolding ps(2) by blast
      from Cons.IH[OF N'(2) f(2)] obtain b s' Us' where s': "coalesce_or_redistribute f q (s\<lparr>ix_nodes := N'\<rparr>) = (Inr b, s')"
        "shrunk mn mx (s\<lparr>ix_nodes := N'\<rparr>) (A @ l # B) (qs # Us) s' Us'" by blast
      have "\<not> 2 * get_min_size (ix_hdr s) \<le> int (length (prs ?N l) + length (prs ?N g))" using mg min by linarith
      then have "coalesce_or_redistribute fuel o1 s = (Inr b, s')" unfolding run using f(1) N'(1) s'(1) by (simp add: thenE_def bindE_def)
      moreover have "shrunk mn mx s ls (ps # qs # Us) s' ((A @ l # B) # Us')"
        by (rule shrunk_add[OF s'(2) N'(3-5)]) (use N'(6) pk pk2(2) ps(1) in \<open>auto simp: pages_ok_append pages_ok_Cons\<close>)
      ultimately show ?thesis by blast
    qed
  qed
qed

end
