(* ===== verification/IxTreeRemove.thy ===== *)
theory IxTreeRemove
  imports IxTreeShrink
begin

text \<open>
  Deletion from the B+ tree, completed: the leaves and their ring after a redistribution and after a merge, the root
  leaf, and \<open>delete_entry\<close> as a whole.
\<close>

section \<open>The leaves\<close>

text \<open>What holds of the leaves apart from their sizes.\<close>

definition leaves_core :: "(bytes \<Rightarrow> 'r :: linorder) \<Rightarrow> (bytes \<Rightarrow> bool) \<Rightarrow> ix_state \<Rightarrow> page_id_t list \<Rightarrow> bool" where
  "leaves_core rank ok s ps \<longleftrightarrow> (\<forall>p \<in> set ps. isleaf (ix_nodes s) p) \<and>
     ordered_by rank (flat (ix_nodes s) ps) \<and> (\<forall>kv \<in> set (flat (ix_nodes s) ps). ok (fst kv)) \<and>
     IX_LEAF_HEADER_PAGE \<in> dom (ix_nodes s) \<and> ring (ix_nodes s) ps \<and> 2 < ix_next_page s \<and>
     first_leaf (ix_hdr s) = hd ps \<and> last_leaf (ix_hdr s) = last ps"

lemma leaves_ok_core: "leaves_ok rank ok mn mx s ps \<longleftrightarrow> leaves_core rank ok s ps \<and> (\<forall>p \<in> set ps. size_ok mn mx (node_at s p))"
  by (auto simp: leaves_ok_def leaves_core_def)

lemma ring_cong:
  assumes "ring N ps" "\<And>p. p \<in> set (1 # ps) \<Longrightarrow> nd_next_leaf (the (N' p)) = nd_next_leaf (the (N p)) \<and> nd_prev_leaf (the (N' p)) = nd_prev_leaf (the (N p))"
  shows "ring N' ps"
  unfolding ring_def
proof (rule successively_change[OF assms(1)[unfolded ring_def]])
  fix a b assume ab: "a \<in> set (butlast (1 # ps @ [1]))" "b \<in> set (tl (1 # ps @ [1]))" "nd_next_leaf (the (N a)) = b \<and> nd_prev_leaf (the (N b)) = a"
  have "a \<in> set (1 # ps)" using ab(1) by (auto simp: butlast_append split: if_splits)
  moreover have "b \<in> set (1 # ps)" using ab(2) by auto
  ultimately show "nd_next_leaf (the (N' a)) = b \<and> nd_prev_leaf (the (N' b)) = a" using ab(3) assms(2) by simp
qed

lemma ring_join:
  assumes r: "ring N (A @ l # g # B)" and d: "distinct (1 # A @ l # g # B)" and nx: "nx = hd (B @ [1])"
    and N': "nd_next_leaf (the (N' l)) = nx" "nd_prev_leaf (the (N' nx)) = l"
      "\<And>a. a \<in> set (1 # A @ B) \<Longrightarrow> nd_next_leaf (the (N' a)) = nd_next_leaf (the (N a))"
      "\<And>a. a \<in> set (1 # A @ l # B) \<Longrightarrow> a \<noteq> nx \<Longrightarrow> nd_prev_leaf (the (N' a)) = nd_prev_leaf (the (N a))"
  shows "ring N' (A @ l # B)"
proof -
  let ?P = "\<lambda>N a b. nd_next_leaf (the (N a)) = b \<and> nd_prev_leaf (the (N b)) = a"
  have s: "successively (?P N) (1 # A @ [l])" "successively (?P N) (B @ [1])"
    using r successively_append_iff[of "?P N" "1 # A @ [l]" "g # B @ [1]"] successively_append_iff[of "?P N" "[g]" "B @ [1]"]
    by (simp_all add: ring_def)
  have nxB: "nx \<in> set B \<or> nx = 1" using nx by (cases B) auto
  have "successively (?P N') (1 # A @ [l])"
  proof (rule successively_change[OF s(1)])
    fix a b assume ab: "a \<in> set (butlast (1 # A @ [l]))" "b \<in> set (tl (1 # A @ [l]))" "?P N a b"
    have "a \<in> set (1 # A @ B)" using ab(1) by (auto simp: butlast_append split: if_splits)
    moreover have "b \<in> set (1 # A @ l # B)" "b \<noteq> nx" using ab(2) nxB d by auto
    ultimately show "?P N' a b" using ab(3) N'(3)[of a] N'(4)[of b] by simp
  qed
  moreover have "successively (?P N') (B @ [1])"
  proof (rule successively_change[OF s(2)])
    fix a b assume ab: "a \<in> set (butlast (B @ [1]))" "b \<in> set (tl (B @ [1]))" "?P N a b"
    have "b \<noteq> nx" using ab(2) nx d by (cases B) auto
    moreover have "b \<in> set (1 # A @ l # B)" using ab(2) by (cases B) auto
    ultimately show "?P N' a b" using ab N'(3)[of a] N'(4)[of b] by (auto simp: butlast_append)
  qed
  ultimately have "successively (?P N') ((1 # A @ [l]) @ B @ [1])"
    using N'(1,2) nx by (subst successively_append_iff) simp
  then show ?thesis by (simp add: ring_def)
qed

lemma leaves_shrunk:
  assumes sh: "shrunk mn mx s ps Vs s' Us'" and lv: "leaves_core rank ok s ps" and mn: "2 \<le> mn"
    and sz: "\<forall>p \<in> set ps. mn \<le> length (prs (ix_nodes s) p) \<and> length (prs (ix_nodes s) p) < mx" and one: "1 \<notin> set (ps @ concat Vs)"
  shows "leaves_ok rank ok mn mx s' ps" "flat (ix_nodes s') ps = flat (ix_nodes s) ps"
proof -
  note h = sh[unfolded shrunk_def] and c = lv[unfolded leaves_core_def]
  let ?N = "ix_nodes s" and ?N' = "ix_nodes s'"
  have sp: "same_node (?N p) (?N' p)" if "p \<in> set ps" for p using h that by simp
  note sd = same_nodeD[of ?N _ ?N', OF sp]
  have o: "?N' 1 = ?N 1" using h one by simp
  show fl: "flat ?N' ps = flat ?N ps" using sd(1) by (intro flat_cong)
  have "ring ?N ps" using c by simp
  then have "ring ?N' ps"
  proof (rule ring_cong)
    fix p assume "p \<in> set (1 # ps)"
    then consider "p = 1" | "p \<in> set ps" by auto
    then show "nd_next_leaf (the (?N' p)) = nd_next_leaf (the (?N p)) \<and> nd_prev_leaf (the (?N' p)) = nd_prev_leaf (the (?N p))"
      using o sd(6,7) by cases simp_all
  qed
  moreover have "size_ok mn mx (the (?N' p))" if "p \<in> set ps" for p using sz sd(1)[OF that] that mn by (intro size_okI) auto
  moreover have "first_leaf (ix_hdr s') = first_leaf (ix_hdr s)" using hdr_keepD(4) h by blast
  moreover have "1 \<in> dom ?N'" using o c by (simp add: dom_def)
  moreover have "ix_next_page s' = ix_next_page s" "last_leaf (ix_hdr s') = last_leaf (ix_hdr s)" using h by simp_all
  ultimately show "leaves_ok rank ok mn mx s' ps" unfolding leaves_ok_core leaves_core_def fl using c sd(2) by simp
qed

text \<open>A tree in which one leaf may have a pair too few.\<close>

definition leaf_under :: "nat \<Rightarrow> nat \<Rightarrow> nat \<Rightarrow> ix_state \<Rightarrow> page_id_t list \<Rightarrow> page_id_t list list \<Rightarrow> page_id_t \<Rightarrow> bool" where
  "leaf_under mn mx L s ps Us o1 \<longleftrightarrow> upper_ok mn mx s ps Us \<and> pair_lens L (flat (ix_nodes s) ps) \<and> L = nat (col_tot_len (ix_hdr s)) \<and>
     o1 \<in> set ps \<and> (\<forall>p \<in> set ps. p \<noteq> o1 \<longrightarrow> size_ok mn mx (node_at s p)) \<and> length (prs (ix_nodes s) o1) < mx \<and>
     (par (ix_nodes s) o1 \<noteq> IX_NO_PAGE \<longrightarrow> mn \<le> length (prs (ix_nodes s) o1) + 1)"

lemma leaf_under_sizes:
  assumes u: "leaf_under mn mx L s ps (qs # Us) o1" and p: "p \<in> set ps"
  shows "par (ix_nodes s) p \<noteq> IX_NO_PAGE" "p \<noteq> o1 \<Longrightarrow> mn \<le> length (prs (ix_nodes s) p)" "length (prs (ix_nodes s) p) < mx"
    "mn \<le> length (prs (ix_nodes s) p) + 1" "prs (ix_nodes s) p \<noteq> []"
proof -
  let ?N = "ix_nodes s"
  note uu = u[unfolded leaf_under_def upper_ok_def]
  have st: "stacked (key0 ?N) ?N (root_page (ix_hdr s)) ps (qs # Us)" and pk: "pages_ok ?N (ix_next_page s) (ps @ concat (qs # Us))" using uu by auto
  have r: "root_page (ix_hdr s) \<in> set (concat (qs # Us))" using stacked_root_in[OF st] by blast
  then have "p \<noteq> root_page (ix_hdr s)" using p pk unfolding pages_ok_append by blast
  then show np: "par ?N p \<noteq> IX_NO_PAGE" using stacked_root[OF st, of p] pages_okD[OF pk] p by auto
  show "p \<noteq> o1 \<Longrightarrow> mn \<le> length (prs ?N p)" "length (prs ?N p) < mx" and m: "mn \<le> length (prs ?N p) + 1"
    using uu np p by (cases "p = o1"; force simp: size_ok_def)+
  have "2 \<le> mn" using uu by auto
  then show "prs ?N p \<noteq> []" using m by auto
qed

lemma leaf_redistribute:
  assumes u: "leaf_under mn mx L s (A @ l # g # B) (qs # Us) o1" and lv: "leaves_core rank ok s (A @ l # g # B)"
    and q: "par (ix_nodes s) l = q" "par (ix_nodes s) g = q" and o1: "o1 = l \<or> o1 = g"
    and sz: "length (prs (ix_nodes s) o1) < mn" "2 * mn \<le> length (prs (ix_nodes s) l) + length (prs (ix_nodes s) g)" and f: "length Us \<le> fuel"
  shows "\<exists>N'. thenE (if o1 = l then take_from g l 0 (length (prs (ix_nodes s) l)) else take_from l g (length (prs (ix_nodes s) l) - 1) 0)
         (thenE (refresh_key q o1) (thenE (refresh_key q (if o1 = l then g else l)) (maintain_parent fuel q))) s = (Inr (), s\<lparr>ix_nodes := N'\<rparr>) \<and>
    upper_ok mn mx (s\<lparr>ix_nodes := N'\<rparr>) (A @ l # g # B) (qs # Us) \<and> leaves_ok rank ok mn mx (s\<lparr>ix_nodes := N'\<rparr>) (A @ l # g # B) \<and>
    flat N' (A @ l # g # B) = flat (ix_nodes s) (A @ l # g # B)"
proof -
  let ?N = "ix_nodes s" and ?ps = "A @ l # g # B" and ?r = "root_page (ix_hdr s)"
  note uu = u[unfolded leaf_under_def upper_ok_def] and c = lv[unfolded leaves_core_def]
  have lk: "linked (key0 ?N) ?N qs ?ps" "stacked (key0 ?N) ?N ?r qs Us" using uu by auto
  have pk: "pages_ok ?N (ix_next_page s) (?ps @ qs @ concat Us)" and mx: "int mx = get_max_size (ix_hdr s)" "mn = mx div 2" "4 \<le> mx"
    and L: "L = nat (col_tot_len (ix_hdr s))" and pl: "pair_lens L (flat ?N ?ps)" using uu by auto
  have d: "distinct ?ps" "set ?ps \<inter> set (qs @ concat Us) = {}" and lg: "l \<noteq> g" using pk by (auto simp: pages_ok_def)
  have dom: "set ?ps \<subseteq> dom ?N" "l \<in> dom ?N" "g \<in> dom ?N" using pages_okD[OF pk] by auto
  have lf: "isleaf ?N p" if "p \<in> set ?ps" for p using c that by blast
  let ?nb = "if o1 = l then g else l"
  have on: "length (prs ?N o1) + 1 = mn" using sz(1) leaf_under_sizes(4)[OF u, of o1] o1 by auto
  have nbs: "mn + 1 \<le> length (prs ?N ?nb)" using sz(2) on o1 lg by (auto split: if_splits)
  have nbx: "length (prs ?N ?nb) < mx" using leaf_under_sizes(3)[OF u, of ?nb] by auto
  have room: "int (length (prs ?N o1) + 1) \<le> get_max_size (ix_hdr s)" "2 \<le> length (prs ?N ?nb)" using on nbs mx by linarith+
  have same: "isleaf ?N l = isleaf ?N g" and ne: "\<forall>p \<in> set ?ps. prs ?N p \<noteq> []" using lf leaf_under_sizes(5)[OF u] by auto
  obtain N2 N' L' G' kv where run: "thenE (if o1 = l then take_from g l 0 (length (prs ?N l)) else take_from l g (length (prs ?N l) - 1) 0)
         (thenE (refresh_key q o1) (thenE (refresh_key q ?nb) (maintain_parent fuel q))) s = (Inr (), s\<lparr>ix_nodes := N'\<rparr>)"
    and st': "stacked (key0 N') N' ?r ?ps (qs # Us)" and kf: "keys_frame (qs @ concat Us) N2 N'" and N2: "N2 = moved ?N l L' g G' o1 [pg kv]"
    and LG: "L' @ G' = prs ?N l @ prs ?N g" "length (if o1 = l then L' else G') = length (prs ?N o1) + 1"
    and fl: "flat N2 ?ps = flat ?N ?ps"
    by (rule redistribute_level[OF lk pk q pl ne L o1 room f same, THEN exE]) (use lf[of l] in simp, elim exE conjE, rule that)
  have lo: "isleaf ?N o1" using lf[of o1] o1 by auto
  then have cs: "isleaf ?N o1 \<or> set [pg kv] \<subseteq> dom ?N" by simp
  note mf = moved_facts[OF lg dom(2,3) cs, where L' = L' and G' = G', folded N2]
  have low: "p \<notin> set (qs @ concat Us)" if "p \<in> set (1 # ?ps)" for p
  proof (cases "p = 1")
    case True
    then show ?thesis using pages_okD[OF pk, of 1] by auto
  next
    case False
    then have "p \<in> set ?ps" using that by auto
    then show ?thesis using d(2) by blast
  qed
  have e: "N' p = N2 p" if "p \<in> set (1 # ?ps)" for p by (rule keys_frameD(4)[OF kf low[OF that]])
  have old: "N2 p = ?N p" if "p \<notin> set ?ps" for p using that lo by (intro mf(5)) auto
  have dN: "dom N' = dom ?N" using keys_frameD(5)[OF kf] mf(4) by simp
  let ?s' = "s\<lparr>ix_nodes := N'\<rparr>"
  have szu: "size_ok mn mx (the (N' p))" if p: "p \<in> set (concat (qs # Us))" for p
  proof (rule size_ok_cong[where N = ?N])
    have "p \<notin> set ?ps" using p d(2) by auto
    then have "N2 p = ?N p" by (rule old)
    then show "par N' p = par ?N p" "isleaf N' p = isleaf ?N p" "length (prs N' p) = length (prs ?N p)" using keys_frameD(1-3)[OF kf, of p] by simp_all
  qed (use uu p in auto)
  have "upper_ok mn mx ?s' ?ps (qs # Us)"
    using st' szu mx pages_ok_mono[OF pk, of N' "ix_next_page s"] dN by (simp add: upper_ok_def)
  moreover have szp: "size_ok mn mx (the (N' p))" if p: "p \<in> set ?ps" for p
  proof -
    have "length L' + length G' = length (prs ?N l) + length (prs ?N g)" using arg_cong[OF LG(1), of length] by simp
    then have "length L' = (if o1 = l then mn else length (prs ?N l) - 1)" "length G' = (if o1 = l then length (prs ?N g) - 1 else mn)"
      using LG(2) on o1 by (auto split: if_splits)
    then have "mn \<le> length (prs N' p) \<and> length (prs N' p) < mx"
      using mf(1)[of p] e[of p] p leaf_under_sizes(2,3)[OF u p] nbs nbx on o1 lg mx by (auto split: if_splits)
    then show ?thesis using mx by (intro size_okI) auto
  qed
  moreover have fl': "flat N' ?ps = flat ?N ?ps" using fl flat_cong[of ?ps N' N2] e by simp
  moreover have "leaves_core rank ok ?s' ?ps"
  proof -
    have "ring ?N ?ps" using c by blast
    then have "ring N' ?ps" by (rule ring_cong) (use e mf(6,7) in simp)
    moreover have "isleaf N' p" if "p \<in> set ?ps" for p using e[of p] mf(2)[of p] lf[OF that] that by simp
    ultimately show ?thesis using c dN fl' by (simp add: leaves_core_def)
  qed
  ultimately show ?thesis using run by (intro exI[of _ N']) (simp add: leaves_ok_core)
qed

text \<open>Two leaves merged, before the parent is touched.\<close>

definition leaf_merged :: "ix_state \<Rightarrow> page_id_t \<Rightarrow> page_id_t \<Rightarrow> page_id_t \<Rightarrow> ix_state" where
  "leaf_merged s l g nx = s\<lparr>ix_hdr := (if last_leaf (ix_hdr s) = g then (ix_hdr s)\<lparr>last_leaf := l\<rparr> else ix_hdr s),
     ix_nodes := (ix_nodes s)(l \<mapsto> (node_at s l)\<lparr>nd_pairs := prs (ix_nodes s) l @ prs (ix_nodes s) g, nd_next_leaf := nx\<rparr>,
       nx \<mapsto> (node_at s nx)\<lparr>nd_prev_leaf := l\<rparr>)\<rparr>"

lemma merge_leaf_run:
  assumes "l \<noteq> g" "nx \<noteq> l" "nx \<noteq> g" "l \<in> dom (ix_nodes s)" "0 \<le> l" "nx \<in> dom (ix_nodes s)" "0 \<le> nx"
    and "isleaf (ix_nodes s) l" "isleaf (ix_nodes s) g" "nd_prev_leaf (node_at s g) = l" "nd_next_leaf (node_at s g) = nx"
    and "int (length (prs (ix_nodes s) l) + length (prs (ix_nodes s) g)) \<le> get_max_size (ix_hdr s)"
  shows "merge_into fuel l g q index s = merge_end fuel l q index (leaf_merged s l g nx)"
  using assms
  by (simp add: merge_into_def merge_end_def erase_leaf_def bindE_def thenE_def call_insert_pairs get_size_def leaf_merged_def)

lemma ring_prev:
  assumes "ring N (A @ l # g # B)"
  shows "nd_prev_leaf (the (N g)) = l"
proof -
  let ?P = "\<lambda>a b. nd_next_leaf (the (N a)) = b \<and> nd_prev_leaf (the (N b)) = a"
  have "successively ?P ((1 # A @ [l]) @ (g # B @ [1]))" using assms by (simp add: ring_def)
  then have "?P (last (1 # A @ [l])) (hd (g # B @ [1]))" unfolding successively_append_iff by blast
  then show ?thesis by simp
qed

lemma leaf_merged_facts:
  assumes "l \<noteq> g" "nx \<noteq> l" "l \<in> dom (ix_nodes s)" "nx \<in> dom (ix_nodes s)"
  shows "prs (ix_nodes (leaf_merged s l g nx)) p = (if p = l then prs (ix_nodes s) l @ prs (ix_nodes s) g else prs (ix_nodes s) p)"
    "isleaf (ix_nodes (leaf_merged s l g nx)) p = isleaf (ix_nodes s) p" "par (ix_nodes (leaf_merged s l g nx)) p = par (ix_nodes s) p"
    "dom (ix_nodes (leaf_merged s l g nx)) = dom (ix_nodes s)" "p \<noteq> l \<Longrightarrow> p \<noteq> nx \<Longrightarrow> ix_nodes (leaf_merged s l g nx) p = ix_nodes s p"
    "nd_next_leaf (node_at (leaf_merged s l g nx) p) = (if p = l then nx else nd_next_leaf (node_at s p))"
    "nd_prev_leaf (node_at (leaf_merged s l g nx) p) = (if p = nx then l else nd_prev_leaf (node_at s p))"
    "ix_next_page (leaf_merged s l g nx) = ix_next_page s" "hdr_keep (ix_hdr s) (ix_hdr (leaf_merged s l g nx))"
    "root_page (ix_hdr (leaf_merged s l g nx)) = root_page (ix_hdr s)"
    "last_leaf (ix_hdr (leaf_merged s l g nx)) = (if last_leaf (ix_hdr s) = g then l else last_leaf (ix_hdr s))"
  using assms by (auto simp: leaf_merged_def)

lemma leaf_merge:
  assumes u: "leaf_under mn mx L s (A @ l # g # B) ((C @ q # D) # Us) o1" and lv: "leaves_core rank ok s (A @ l # g # B)" and o1: "o1 = l \<or> o1 = g"
    and q: "prs (ix_nodes s) q = X @ kl # kg # Y" "pg kl = l" "pg kg = g" "A = chs (ix_nodes s) C @ map pg X" "B = map pg Y @ chs (ix_nodes s) D"
    and sz: "length (prs (ix_nodes s) l) + length (prs (ix_nodes s) g) < 2 * mn" and f: "length Us \<le> fuel"
  shows "\<exists>s1. merge_into fuel l g q (length X + 1) s = (Inr (), s1) \<and> under_ok mn mx L s1 (A @ l # B) (C @ q # D) Us q \<and>
    leaves_core rank ok s1 (A @ l # B) \<and> (\<forall>p \<in> set (A @ l # B). mn \<le> length (prs (ix_nodes s1) p) \<and> length (prs (ix_nodes s1) p) < mx) \<and>
    flat (ix_nodes s1) (A @ l # B) = flat (ix_nodes s) (A @ l # g # B) \<and> hdr_keep (ix_hdr s) (ix_hdr s1)"
proof -
  let ?N = "ix_nodes s" and ?ps = "A @ l # g # B" and ?qs = "C @ q # D" and ?r = "root_page (ix_hdr s)" and ?nx = "hd (B @ [1])"
  note uu = u[unfolded leaf_under_def upper_ok_def] and c = lv[unfolded leaves_core_def]
  have lk: "linked (key0 ?N) ?N ?qs ?ps" "stacked (key0 ?N) ?N ?r ?qs Us" using uu by auto
  have pk: "pages_ok ?N (ix_next_page s) (?ps @ ?qs @ concat Us)" and mx: "int mx = get_max_size (ix_hdr s)" "mn = mx div 2" "4 \<le> mx"
    and L: "L = nat (col_tot_len (ix_hdr s))" and pl: "pair_lens L (flat ?N ?ps)" using uu by auto
  have d: "distinct ?ps" "set ?ps \<inter> set (?qs @ concat Us) = {}" and lg: "l \<noteq> g" using pk by (auto simp: pages_ok_def)
  have big: "2 \<le> p" if "p \<in> set (?ps @ ?qs @ concat Us)" for p using pages_okD[OF pk that] by simp
  have one: "1 \<notin> set (?ps @ ?qs @ concat Us)" using big[of 1] by auto
  have nxB: "?nx \<in> set B \<or> ?nx = 1" by (cases B) auto
  have nx: "?nx \<noteq> l" "?nx \<noteq> g" "?nx \<in> dom ?N" "0 \<le> ?nx" "?nx \<notin> set (?qs @ concat Us)"
  proof -
    show "?nx \<noteq> l" "?nx \<noteq> g" "?nx \<notin> set (?qs @ concat Us)" using nxB d one by auto
    show "?nx \<in> dom ?N" "0 \<le> ?nx" using nxB c pages_okD[OF pk, of ?nx] by auto
  qed
  have ld: "l \<in> dom ?N" "0 \<le> l" using pages_okD[OF pk, of l] by simp_all
  have lf: "isleaf ?N p" if "p \<in> set ?ps" for p using c that by blast
  have rg: "ring ?N ?ps" using c by blast
  then have "nd_next_leaf (node_at s g) = ?nx" using ring_next[of ?N "A @ [l]" g B] by simp
  then have mi: "merge_into fuel l g q (length X + 1) s = merge_end fuel l q (length X + 1) (leaf_merged s l g ?nx)"
    using ring_prev[OF rg] lg nx ld lf[of l] lf[of g] sz mx by (intro merge_leaf_run) auto
  define s2 where "s2 = leaf_merged s l g ?nx"
  note mf = leaf_merged_facts[OF lg nx(1) ld(1) nx(3), folded s2_def]
  have same2: "ix_nodes s2 p = ?N p" if "p \<in> set (?qs @ concat Us)" for p
  proof (rule mf(5))
    show "p \<noteq> l" using that d(2) by auto
    show "p \<noteq> ?nx" using that nx(5) by blast
  qed
  have L2: "L = nat (col_tot_len (ix_hdr s2))" using L hdr_keepD(5)[OF mf(9)] by simp
  have "\<exists>N'. merge_end fuel l q (length X + 1) s2 = (Inr (), s2\<lparr>ix_nodes := N'\<rparr>) \<and> stacked (key0 N') N' ?r (A @ l # B) (?qs # Us) \<and>
    keys_frame (?qs @ concat Us) ((ix_nodes s2)(q \<mapsto> (node_at s2 q)\<lparr>nd_pairs := X @ kl # Y\<rparr>)) N' \<and> flat (ix_nodes s2) (A @ l # B) = flat ?N ?ps"
    unfolding merge_end_def
  proof (rule merge_rest[OF lk pk q pl _ L2 refl same2])
    show "\<forall>p \<in> set ?ps. prs ?N p \<noteq> []" using leaf_under_sizes(5)[OF u] by blast
    show "prs (ix_nodes s2) p = prs ?N p" if "p \<in> set (A @ g # B)" for p using mf(1)[of p] that d(1) lg by auto
  qed (use f mf(1,3,4) in simp_all)
  then obtain N' where N': "merge_end fuel l q (length X + 1) s2 = (Inr (), s2\<lparr>ix_nodes := N'\<rparr>)" "stacked (key0 N') N' ?r (A @ l # B) (?qs # Us)"
    "keys_frame (?qs @ concat Us) ((ix_nodes s2)(q \<mapsto> (node_at s2 q)\<lparr>nd_pairs := X @ kl # Y\<rparr>)) N'" "flat (ix_nodes s2) (A @ l # B) = flat ?N ?ps" by blast
  let ?s1 = "s2\<lparr>ix_nodes := N'\<rparr>"
  have low: "p \<notin> set (?qs @ concat Us)" if "p \<in> set (1 # ?ps)" for p
    using that d(2) one by (cases "p = 1") auto
  have e: "N' p = ix_nodes s2 p" if "p \<in> set (1 # ?ps)" for p using keys_frameD(4)[OF N'(3) low[OF that]] low[OF that] by auto
  have sub: "p \<in> set (1 # ?ps)" if "p \<in> set (A @ l # B)" for p using that by auto
  have dN: "dom N' = dom ?N"
  proof -
    have "q \<in> dom ?N" using pages_okD[OF pk, of q] by simp
    then show ?thesis using keys_frameD(5)[OF N'(3)] mf(4) by auto
  qed
  have p1: "prs N' p = (if p = l then prs ?N l @ prs ?N g else prs ?N p)" if "p \<in> set (1 # ?ps)" for p using e[OF that] mf(1)[of p] by simp
  have fl: "flat N' (A @ l # B) = flat ?N ?ps" using N'(4) flat_cong[of "A @ l # B" N' "ix_nodes s2"] e sub by simp
  have szp: "mn \<le> length (prs N' p) \<and> length (prs N' p) < mx" if p: "p \<in> set (A @ l # B)" for p
  proof (cases "p = l")
    case True
    have "mn \<le> length (prs ?N l) \<or> mn \<le> length (prs ?N g)" using leaf_under_sizes(2)[OF u, of l] leaf_under_sizes(2)[OF u, of g] o1 lg by auto
    then show ?thesis using True p1[of l] sz mx(2) by auto
  next
    case False
    have pp: "p \<in> set ?ps" "p \<noteq> o1" using p False d(1) o1 by auto
    then show ?thesis using p1[OF sub[OF p]] False leaf_under_sizes(2,3)[OF u pp(1)] by simp
  qed
  have "under_ok mn mx L ?s1 (A @ l # B) ?qs Us q"
  proof (rule merged_under_ok[OF _ _ N'(3) same2 q(1)])
    show "stacked (key0 N') N' (root_page (ix_hdr ?s1)) (A @ l # B) (?qs # Us)" using N'(2) mf(10) by simp
    show "size_ok mn mx (node_at s p)" if "p \<in> set (?qs @ concat Us)" for p using uu that by auto
    show "pair_lens L (flat N' (A @ l # B))" using pl fl by simp
    show "\<forall>p \<in> set (A @ l # B). prs N' p \<noteq> []" using szp mx by fastforce
    show "pages_ok N' (ix_next_page ?s1) ((A @ l # B) @ ?qs @ concat Us)" using pk dN mf(8) unfolding pages_ok_def by auto
    show "int mx = get_max_size (ix_hdr ?s1)" using mx(1) hdr_keepD(1)[OF mf(9)] by simp
    show "L = nat (col_tot_len (ix_hdr ?s1))" using L2 by simp
  qed (simp, assumption, rule mx(2), rule mx(3))
  moreover have "leaves_core rank ok ?s1 (A @ l # B)"
  proof -
    have "ring N' (A @ l # B)"
    proof (rule ring_join[OF rg _ refl])
      show "distinct (1 # ?ps)" using d(1) one by auto
      show "nd_next_leaf (the (N' l)) = ?nx" using e[of l] mf(6)[of l] by simp
      show "nd_prev_leaf (the (N' ?nx)) = l"
      proof -
        have "?nx \<in> set (1 # ?ps)" using nxB by auto
        then show ?thesis using e[of ?nx] mf(7)[of ?nx] by simp
      qed
      show "nd_next_leaf (the (N' a)) = nd_next_leaf (node_at s a)" if "a \<in> set (1 # A @ B)" for a
        using e[of a] mf(6)[of a] that d(1) one by auto
      show "nd_prev_leaf (the (N' a)) = nd_prev_leaf (node_at s a)" if "a \<in> set (1 # A @ l # B)" "a \<noteq> ?nx" for a
        using e[of a] mf(7)[of a] that by auto
    qed
    moreover have "isleaf N' p" if "p \<in> set (A @ l # B)" for p
      using e[OF sub[OF that]] mf(2)[of p] lf[of p] that by auto
    moreover have "last_leaf (ix_hdr s2) = last (A @ l # B)" using mf(11) c d(1) by (cases B rule: rev_cases) auto
    moreover have "first_leaf (ix_hdr s2) = hd (A @ l # B)" using hdr_keepD(4)[OF mf(9)] c by (simp add: hd_append)
    ultimately show ?thesis using c dN fl mf(8) by (simp add: leaves_core_def)
  qed
  moreover have "merge_into fuel l g q (length X + 1) s = (Inr (), ?s1)" using mi N'(1) by (simp add: s2_def)
  ultimately show ?thesis using szp fl mf(9) by (intro exI[of _ ?s1]) simp
qed

text \<open>An underfull leaf is filled up or merged away; the entries stay.\<close>

lemma leaf_coalesce:
  assumes u: "leaf_under mn mx L s ps Us o1" and lv: "leaves_core rank ok s ps" and f: "length Us \<le> fuel"
  shows "\<exists>b s' ps' Us'. coalesce_or_redistribute fuel o1 s = (Inr b, s') \<and> upper_ok mn mx s' ps' Us' \<and> leaves_ok rank ok mn mx s' ps' \<and>
    flat (ix_nodes s') ps' = flat (ix_nodes s) ps \<and> hdr_keep (ix_hdr s) (ix_hdr s')"
proof (cases Us)
  case Nil
  let ?N = "ix_nodes s"
  note uu = u[unfolded leaf_under_def upper_ok_def] and c = lv[unfolded leaves_core_def]
  have ps: "ps = [o1]" "root_page (ix_hdr s) = o1" "par ?N o1 = IX_NO_PAGE" "isleaf ?N o1" using uu c Nil by auto
  have "first_leaf (ix_hdr s) = o1" "last_leaf (ix_hdr s) = o1" using c ps by auto
  then have "(ix_hdr s)\<lparr>root_page := o1\<rparr>\<lparr>first_leaf := o1, last_leaf := o1\<rparr> = ix_hdr s" using ps(2) by (cases "ix_hdr s") simp
  then have "coalesce_or_redistribute fuel o1 s = (Inr False, s)" using ps
    by (subst coalesce_or_redistribute.simps) (simp add: is_root_page_def adjust_root_def get_size_def thenE_def bindE_def)
  moreover have "size_ok mn mx (node_at s o1)" using uu ps by (simp add: size_ok_def)
  then have "leaves_ok rank ok mn mx s ps" using lv ps by (simp add: leaves_ok_core)
  ultimately show ?thesis using u by (intro exI[of _ False] exI[of _ s] exI[of _ ps] exI[of _ Us]) (simp add: leaf_under_def)
next
  case (Cons qs Vs)
  let ?N = "ix_nodes s"
  note u = u[unfolded Cons] and c = lv[unfolded leaves_core_def]
  note uu = u[unfolded leaf_under_def upper_ok_def]
  have o1: "o1 \<in> set ps" and mx: "int mx = get_max_size (ix_hdr s)" "mn = mx div 2" "4 \<le> mx" using uu by auto
  have min: "get_min_size (ix_hdr s) = int mn" by (rule get_min_size_nat[OF mx(1,2)])
  show ?thesis
  proof (cases "mn \<le> length (prs ?N o1)")
    case True
    have "2 \<le> mn" using mx by simp
    then have "size_ok mn mx (node_at s o1)" using True leaf_under_sizes(3)[OF u o1] by (intro size_okI)
    then have "leaves_ok rank ok mn mx s ps" using lv uu by (auto simp: leaves_ok_core)
    moreover have "coalesce_or_redistribute fuel o1 s = (Inr False, s)"
      using not_root_run[OF leaf_under_sizes(1)[OF u o1], of fuel] True min by simp
    ultimately show ?thesis using u by (intro exI[of _ False] exI[of _ s] exI[of _ ps] exI[of _ "qs # Vs"]) (simp add: leaf_under_def)
  next
    case False
    have pk: "pages_ok ?N (ix_next_page s) (ps @ qs @ concat Vs)" using uu by auto
    then have pk2: "pages_ok ?N (ix_next_page s) (ps @ qs)" by (auto simp: pages_ok_append)
    have lk: "linked (key0 ?N) ?N qs ps" using uu by auto
    have two: "\<forall>q \<in> set qs. 2 \<le> length (prs ?N q)"
    proof
      fix q assume "q \<in> set qs"
      then have "size_ok mn mx (the (?N q))" "\<not> isleaf ?N q" using uu linkedD(1)[OF lk] by auto
      then show "2 \<le> length (prs ?N q)" using mx by (auto simp: size_ok_def split: if_splits)
    qed
    have sz: "int (length (prs ?N o1)) < get_min_size (ix_hdr s)" using False min by simp
    obtain A l g B C q D X kl kg Y where ps: "ps = A @ l # g # B" "qs = C @ q # D" "prs ?N q = X @ kl # kg # Y" "pg kl = l" "pg kg = g"
      "A = chs ?N C @ map pg X" "B = map pg Y @ chs ?N D" "par ?N l = q" "par ?N g = q" "o1 = l \<or> o1 = g" and run: "coalesce_or_redistribute fuel o1 s =
      (if 2 * get_min_size (ix_hdr s) \<le> int (length (prs ?N l) + length (prs ?N g))
       then thenE (thenE (if o1 = l then take_from g l 0 (length (prs ?N l)) else take_from l g (length (prs ?N l) - 1) 0)
         (thenE (refresh_key q o1) (thenE (refresh_key q (if o1 = l then g else l)) (maintain_parent fuel q)))) (returnE False) s
       else case fuel of 0 \<Rightarrow> (Inl OutOfFuel, s)
         | Suc f \<Rightarrow> thenE (merge_into f l g q (length X + 1)) (coalesce_or_redistribute f q) s)"
      using coalesce_cases[OF lk pk2 o1 sz two, of fuel] by (elim exE conjE) (rule that)
    show ?thesis
    proof (cases "2 * mn \<le> length (prs ?N l) + length (prs ?N g)")
      case True
      have "length Vs \<le> fuel" "length (prs ?N o1) < mn" using f Cons False by simp_all
      then obtain N' where N': "thenE (if o1 = l then take_from g l 0 (length (prs ?N l)) else take_from l g (length (prs ?N l) - 1) 0)
         (thenE (refresh_key q o1) (thenE (refresh_key q (if o1 = l then g else l)) (maintain_parent fuel q))) s = (Inr (), s\<lparr>ix_nodes := N'\<rparr>)"
        "upper_ok mn mx (s\<lparr>ix_nodes := N'\<rparr>) ps (qs # Vs)" "leaves_ok rank ok mn mx (s\<lparr>ix_nodes := N'\<rparr>) ps" "flat N' ps = flat ?N ps"
        using leaf_redistribute[OF u[unfolded ps(1)] lv[unfolded ps(1)] ps(8-10) _ True] unfolding ps(1) by blast
      have c: "2 * get_min_size (ix_hdr s) \<le> int (length (prs ?N l) + length (prs ?N g))" using True min by linarith
      have "coalesce_or_redistribute fuel o1 s = (Inr False, s\<lparr>ix_nodes := N'\<rparr>)" unfolding run if_P[OF c] by (intro thenE_returnE) (rule N'(1))
      then show ?thesis using N'(2-4) by (intro exI[of _ False] exI[of _ "s\<lparr>ix_nodes := N'\<rparr>"] exI[of _ ps] exI[of _ "qs # Vs"]) simp
    next
      case mg: False
      obtain n where n: "fuel = Suc n" "length Vs \<le> n" using f Cons by (cases fuel) auto
      have less: "length (prs ?N l) + length (prs ?N g) < 2 * mn" using mg by simp
      obtain s1 where s1: "merge_into n l g q (length X + 1) s = (Inr (), s1)" "under_ok mn mx L s1 (A @ l # B) qs Vs q"
        "leaves_core rank ok s1 (A @ l # B)" "\<forall>p \<in> set (A @ l # B). mn \<le> length (prs (ix_nodes s1) p) \<and> length (prs (ix_nodes s1) p) < mx"
        "flat (ix_nodes s1) (A @ l # B) = flat ?N ps" "hdr_keep (ix_hdr s) (ix_hdr s1)"
        using leaf_merge[OF u[unfolded ps(1,2)] lv[unfolded ps(1)] ps(10,3-7) less n(2)] unfolding ps(1,2) by blast
      from coalesce_under[OF s1(2) n(2)] obtain b s' Us' where s': "coalesce_or_redistribute n q s1 = (Inr b, s')"
        "shrunk mn mx s1 (A @ l # B) (qs # Vs) s' Us'" by blast
      have "2 \<le> mn" using mx by simp
      moreover have "1 \<notin> set ((A @ l # B) @ concat (qs # Vs))" using pages_okD[OF pk, of 1] ps(1) by auto
      ultimately have lf: "leaves_ok rank ok mn mx s' (A @ l # B)" "flat (ix_nodes s') (A @ l # B) = flat ?N ps"
        using leaves_shrunk[OF s'(2) s1(3) _ s1(4)] s1(5) by simp_all
      have "upper_ok mn mx s' (A @ l # B) Us'" "hdr_keep (ix_hdr s) (ix_hdr s')" using s'(2) s1(6) hdr_keep_trans by (auto simp: shrunk_def)
      moreover have "\<not> 2 * get_min_size (ix_hdr s) \<le> int (length (prs ?N l) + length (prs ?N g))" using mg min by linarith
      then have "coalesce_or_redistribute fuel o1 s = (Inr b, s')" unfolding run using n(1) s1(1) s'(1) by (simp add: thenE_def bindE_def)
      ultimately show ?thesis using lf by blast
    qed
  qed
qed

section \<open>Deleting an entry\<close>

definition leaf_removed :: "(bytes \<Rightarrow> 'r :: linorder) \<Rightarrow> ix_state \<Rightarrow> page_id_t \<Rightarrow> bytes \<Rightarrow> ix_state" where
  "leaf_removed rank s p x = s\<lparr>ix_nodes := (ix_nodes s)(p \<mapsto> (node_at s p)\<lparr>nd_pairs := delete_by rank x (prs (ix_nodes s) p)\<rparr>)\<rparr>"

lemma length_delete_by:
  assumes "ordered_by rank kvs"
  shows "length (delete_by rank x kvs) = (if lookup_by rank x kvs = None then length kvs else length kvs - 1)"
    "lookup_by rank x kvs \<noteq> None \<Longrightarrow> kvs \<noteq> []"
proof -
  have "below rank x kvs < length kvs" if "lookup_by rank x kvs \<noteq> None"
    using that by (auto simp: lookup_by_below[OF assms] Let_def split: if_splits)
  then show "length (delete_by rank x kvs) = (if lookup_by rank x kvs = None then length kvs else length kvs - 1)"
    by (auto simp: delete_by_below[OF assms])
  show "lookup_by rank x kvs \<noteq> None \<Longrightarrow> kvs \<noteq> []" by (auto simp: lookup_by_def)
qed

lemma delete_by_absent: "lookup_by rank x kvs = None \<Longrightarrow> delete_by rank x kvs = kvs"
  by (auto simp: delete_by_def lookup_by_def find_None_iff intro!: filter_True)

context key_order
begin

lemma ok_pair_lens:
  assumes "hdr_for types lens h" "\<forall>kv \<in> set kvs. ok (fst kv)"
  shows "pair_lens (nat (col_tot_len h)) kvs"
proof -
  have "ok (fst kv)" if "kv \<in> set (tl kvs)" for kv using assms(2) that by (cases kvs) auto
  then show ?thesis using ok_length assms(1) by (simp add: pair_lens_def hdr_for_def)
qed

text \<open>The leaf without the entry, and the separators above it.\<close>

lemma leaf_removed_keys:
  assumes u: "upper_ok mn mx s (A @ p # B) Us" and lv: "leaves_ok rank ok mn mx s (A @ p # B)" and h: "hdr_for types lens (ix_hdr s)"
    and f: "length Us \<le> fuel"
  shows "\<exists>N2. (if \<not> is_root_page (node_at (leaf_removed rank s p x) p) \<and> 0 < get_size (node_at (leaf_removed rank s p x) p)
      then maintain_parent fuel p else returnE ()) (leaf_removed rank s p x) = (Inr (), s\<lparr>ix_nodes := N2\<rparr>) \<and>
    stacked (key0 N2) N2 (root_page (ix_hdr s)) (A @ p # B) Us \<and> keys_frame (concat Us) (ix_nodes (leaf_removed rank s p x)) N2"
proof -
  let ?N = "ix_nodes s" and ?ps = "A @ p # B" and ?r = "root_page (ix_hdr s)" and ?s1 = "leaf_removed rank s p x"
  define N1 where "N1 = ix_nodes ?s1"
  have N1: "N1 = ?N(p \<mapsto> (node_at s p)\<lparr>nd_pairs := delete_by rank x (prs ?N p)\<rparr>)" by (simp add: N1_def leaf_removed_def)
  have s1: "?s1 = s\<lparr>ix_nodes := N1\<rparr>" "ix_nodes ?s1 = N1" "ix_hdr ?s1 = ix_hdr s" by (simp_all add: N1 leaf_removed_def)
  note uu = u[unfolded upper_ok_def] and l = lv[unfolded leaves_ok_def]
  have st: "stacked (key0 ?N) ?N ?r ?ps Us" and pk: "pages_ok ?N (ix_next_page s) (?ps @ concat Us)" and mx: "mn = mx div 2" "4 \<le> mx" using uu by auto
  have dp: "p \<in> dom ?N" using pages_okD[OF pk, of p] by simp
  have pU: "p \<notin> set (concat Us)" using pk by (auto simp: pages_ok_def)
  have st1: "stacked (key0 ?N) N1 ?r ?ps Us" by (rule stacked_cong[OF st]) (use pU in \<open>auto simp: N1\<close>)
  have pk1: "pages_ok N1 (ix_next_page s) (?ps @ concat Us)" using pages_ok_mono[OF pk, of N1] by (auto simp: N1)
  have dU: "set (concat Us) \<subseteq> dom N1" using pages_okD[OF pk1] by auto
  show ?thesis
  proof (cases "Us = []")
    case True
    have ps: "?ps = [p]" "par N1 p = IX_NO_PAGE" "?r = p" using st1 True by (cases A; auto)+
    then have "stacked (key0 N1) N1 ?r ?ps Us" using True by simp
    then show ?thesis using ps True by (intro exI[of _ N1]) (simp add: s1 is_root_page_def keys_frame_refl)
  next
    case False
    have "?r \<in> set (concat Us)" using stacked_root_in[OF st] False by blast
    then have nr: "par ?N y \<noteq> IX_NO_PAGE" if "y \<in> set ?ps" for y
    proof -
      have "y \<noteq> ?r" using that \<open>?r \<in> set (concat Us)\<close> pk unfolding pages_ok_append by blast
      then show ?thesis using stacked_root[OF st, of y] pages_okD[OF pk] that by auto
    qed
    have szN: "2 \<le> length (prs ?N y)" if "y \<in> set ?ps" for y
      using l nr[OF that] that mx by (auto simp: size_ok_def split: if_splits)
    have op: "ordered_by rank (prs ?N p)" using l by (auto simp: ordered_append)
    have "length (prs N1 p) = (if lookup_by rank x (prs ?N p) = None then length (prs ?N p) else length (prs ?N p) - 1)"
      using length_delete_by(1)[OF op] by (simp add: N1)
    then have ne1: "prs N1 p \<noteq> []" using szN[of p] by (auto split: if_splits)
    have neN: "\<forall>y \<in> set ?ps. prs ?N y \<noteq> []" using szN by fastforce
    have neA: "\<forall>y \<in> set ?ps. prs N1 y \<noteq> []" using neN ne1 by (auto simp: N1)
    have sub: "set (flat N1 ?ps) \<subseteq> set (flat ?N ?ps)"
    proof
      fix kv assume "kv \<in> set (flat N1 ?ps)"
      then obtain y where y: "y \<in> set ?ps" "kv \<in> set (prs N1 y)" by (auto simp: flat_def)
      then have "kv \<in> set (prs ?N y)" by (auto simp: N1 delete_by_def split: if_splits)
      then show "kv \<in> set (flat ?N ?ps)" using y(1) by (rule flat_sub)
    qed
    have okN: "\<forall>kv \<in> set (flat ?N ?ps). ok (fst kv)" using l by blast
    have ok1: "\<forall>kv \<in> set (flat N1 ?ps). ok (fst kv)" using okN sub by blast
    note kl = pair_lens_key_lens[OF ok_pair_lens[OF h okN] neN] and kl1 = pair_lens_key_lens[OF ok_pair_lens[OF h ok1] neA]
    have "\<exists>N'. maintain_parent fuel p ?s1 = (Inr (), ?s1\<lparr>ix_nodes := N'\<rparr>) \<and> stacked (key0 N') N' ?r ?ps Us \<and> keys_frame (concat Us) (ix_nodes ?s1) N'"
    proof (rule maintain_parent_ok[where K = "key0 ?N" and m = "ix_next_page s"])
      show "key0 ?N y = key0 (ix_nodes ?s1) y" if "y \<noteq> p" for y using that by (simp add: s1 key0_def N1)
    qed (use st1 pk1 ne1 kl kl1 f in \<open>simp_all add: s1(1)\<close>)
    moreover have "\<not> is_root_page (node_at ?s1 p)" using nr[of p] by (simp add: s1 N1 is_root_page_def)
    ultimately show ?thesis using ne1 by (auto simp: s1 get_size_def)
  qed
qed

lemma leaf_removed_ok:
  assumes u: "upper_ok mn mx s (A @ p # B) Us" and lv: "leaves_ok rank ok mn mx s (A @ p # B)" and h: "hdr_for types lens (ix_hdr s)"
    and there: "lookup_by rank x (prs (ix_nodes s) p) \<noteq> None"
    and st: "stacked (key0 N2) N2 (root_page (ix_hdr s)) (A @ p # B) Us" and kf: "keys_frame (concat Us) (ix_nodes (leaf_removed rank s p x)) N2"
  shows "leaf_under mn mx (nat (col_tot_len (ix_hdr s))) (s\<lparr>ix_nodes := N2\<rparr>) (A @ p # B) Us p"
    "leaves_core rank ok (s\<lparr>ix_nodes := N2\<rparr>) (A @ p # B)"
    "flat N2 (A @ p # B) = flat (ix_nodes s) A @ delete_by rank x (prs (ix_nodes s) p) @ flat (ix_nodes s) B"
proof -
  let ?N = "ix_nodes s" and ?ps = "A @ p # B" and ?D = "delete_by rank x (prs (ix_nodes s) p)"
  let ?N1 = "?N(p \<mapsto> (node_at s p)\<lparr>nd_pairs := ?D\<rparr>)"
  note kf = kf[unfolded leaf_removed_def, simplified]
  note uu = u[unfolded upper_ok_def] and l = lv[unfolded leaves_ok_def]
  have pk: "pages_ok ?N (ix_next_page s) (?ps @ concat Us)" using uu by auto
  have d: "distinct ?ps" "set ?ps \<inter> set (concat Us) = {}" and dp: "p \<in> dom ?N" using pk by (auto simp: pages_ok_def)
  have dN: "dom N2 = dom ?N" using keys_frameD(5)[OF kf] dp by auto
  have low: "y \<notin> set (concat Us)" if "y \<in> set (1 # ?ps)" for y
    using that d(2) pages_okD[OF pk, of 1] by (cases "y = 1") auto
  have e: "N2 y = ?N1 y" if "y \<in> set (1 # ?ps)" for y by (rule keys_frameD(4)[OF kf low[OF that]])
  have prs2: "prs N2 y = (if y = p then ?D else prs ?N y)" if "y \<in> set ?ps" for y using e[of y] that by simp
  have "flat N2 A = flat ?N A" "flat N2 B = flat ?N B" using prs2 d(1) by (auto intro!: flat_cong)
  then show fl: "flat N2 ?ps = flat ?N A @ ?D @ flat ?N B" using prs2[of p] by simp
  have op: "ordered_by rank (prs ?N p)" using l by (auto simp: ordered_append)
  have len: "length ?D + 1 = length (prs ?N p)" using length_delete_by[OF op, of x] there by (cases "prs ?N p") auto
  have sub: "set ?D \<subseteq> set (prs ?N p)" by (auto simp: delete_by_def)
  have okf: "\<forall>kv \<in> set (flat N2 ?ps). ok (fst kv)" using l sub unfolding fl by auto
  have ordf: "ordered_by rank (flat N2 ?ps)"
  proof -
    have "ordered_by rank (flat ?N A @ prs ?N p @ flat ?N B)" using l by simp
    then show ?thesis using delete_by_ordered[OF op, of x] sub unfolding fl ordered_append set_append by blast
  qed
  have szu: "size_ok mn mx (the (N2 y))" if "y \<in> set (concat Us)" for y
  proof (rule size_ok_cong[where N = ?N])
    have "y \<noteq> p" using that d(2) by auto
    then show "par N2 y = par ?N y" "isleaf N2 y = isleaf ?N y" "length (prs N2 y) = length (prs ?N y)" using keys_frameD(1-3)[OF kf, of y] by simp_all
  qed (use uu that in auto)
  have up: "upper_ok mn mx (s\<lparr>ix_nodes := N2\<rparr>) ?ps Us" using st szu uu pages_ok_mono[OF pk, of N2 "ix_next_page s"] dN by (simp add: upper_ok_def)
  have szl: "size_ok mn mx (the (N2 y))" if "y \<in> set ?ps" "y \<noteq> p" for y using l e[of y] that by auto
  have "size_ok mn mx (node_at s p)" using l by simp
  then have "length ?D < mx" "par N2 p \<noteq> IX_NO_PAGE \<longrightarrow> mn \<le> length ?D + 1" using len e[of p] by (auto simp: size_ok_def)
  then show "leaf_under mn mx (nat (col_tot_len (ix_hdr s))) (s\<lparr>ix_nodes := N2\<rparr>) ?ps Us p"
    unfolding leaf_under_def using up ok_pair_lens[OF h okf] szl prs2[of p] by simp
  have "ring ?N ?ps" using l by blast
  then have "ring N2 ?ps" by (rule ring_cong) (use e in auto)
  moreover have "isleaf N2 y" if "y \<in> set ?ps" for y using l e[of y] that by auto
  ultimately show "leaves_core rank ok (s\<lparr>ix_nodes := N2\<rparr>) ?ps" using l ordf okf dN by (simp add: leaves_core_def)
qed

lemma delete_entry_ok:
  assumes t: "tree_inv rank ok s ps Us" and h: "hdr_for types lens (ix_hdr s)" and x: "ok x" and f: "length Us \<le> fuel"
  shows "\<exists>s' ps' Us'. delete_entry fuel x s = (Inr (lookup_by rank x (flat (ix_nodes s) ps) \<noteq> None), s') \<and> tree_inv rank ok s' ps' Us' \<and>
    flat (ix_nodes s') ps' = delete_by rank x (flat (ix_nodes s) ps) \<and> hdr_keep (ix_hdr s) (ix_hdr s')"
proof -
  let ?N = "ix_nodes s"
  define mx where "mx = nat (get_max_size (ix_hdr s))"
  define mn where "mn = mx div 2"
  note parts = tree_inv_parts[OF h mx_def mn_def, of rank ok]
  obtain A p B where p: "find_leaf_page fuel x False s = (Inr p, s)" "ps = A @ p # B"
    "\<forall>kv \<in> set (flat ?N A). rank (fst kv) < rank x" "\<forall>kv \<in> set (flat ?N B). rank x < rank (fst kv)"
    using find_leaf_page_ok[OF t h x f] by (elim exE conjE) (rule that)
  note part = lookup_by_part[OF p(3,4)]
  have u: "upper_ok mn mx s (A @ p # B) Us" and lv: "leaves_ok rank ok mn mx s (A @ p # B)" using t parts p(2) by auto
  let ?s1 = "leaf_removed rank s p x" and ?D = "delete_by rank x (prs ?N p)"
  have o: "ordered_by rank (prs ?N p)" "\<forall>kv \<in> set (prs ?N p). ok (fst kv)" using lv by (auto simp: leaves_ok_def ordered_append)
  have fd: "find_leaf_page fuel x False s = (Inr p, s)" "call_node p (\<lambda>h. nd_remove h x) s = (Inr (), ?s1)"
    using p(1) nd_remove_delete[OF h o x] by (simp_all add: call_node_def leaf_removed_def set_node_def)
  have g1: "get_size (node_at ?s1 p) = length ?D" by (simp add: leaf_removed_def get_size_def)
  have run: "delete_entry fuel x s = (if length ?D = length (prs ?N p) then (Inr False, ?s1)
     else thenE (if \<not> is_root_page (node_at ?s1 p) \<and> 0 < get_size (node_at ?s1 p) then maintain_parent fuel p else returnE ())
       (thenE (coalesce_or_redistribute fuel p) (returnE True)) ?s1)"
    using fd g1 by (simp add: delete_entry_def bindE_def[where m = "find_leaf_page fuel x False"] bindE_def[where m = "getE f" for f]
        thenE_def[where m = "call_node p f" for f] bindE_def[where m = "call_node p f" for f] get_size_def)
  have whole: "delete_by rank x (flat ?N ps) = flat ?N A @ ?D @ flat ?N B" "lookup_by rank x (flat ?N ps) = lookup_by rank x (prs ?N p)"
    using part(1)[of "prs ?N p"] part(3)[of "prs ?N p"] p(2) by simp_all
  show ?thesis
  proof (cases "lookup_by rank x (prs ?N p) = None")
    case True
    have "p \<in> dom ?N" using tree_invD(2)[OF t] p(2) by (auto simp: pages_ok_def)
    then have "?s1 = s" using delete_by_absent[OF True] by (auto simp: leaf_removed_def fun_upd_idem)
    then have "delete_entry fuel x s = (Inr False, s)" using run delete_by_absent[OF True] by simp
    moreover have "delete_by rank x (flat ?N ps) = flat ?N ps" by (rule delete_by_absent) (simp add: whole(2) True)
    ultimately show ?thesis using t whole(2) True by (intro exI[of _ s] exI[of _ ps] exI[of _ Us]) simp
  next
    case False
    have ne: "length ?D \<noteq> length (prs ?N p)" using length_delete_by[OF o(1), of x] False by (cases "prs ?N p") auto
    obtain N2 where N2: "(if \<not> is_root_page (node_at ?s1 p) \<and> 0 < get_size (node_at ?s1 p) then maintain_parent fuel p else returnE ()) ?s1 =
        (Inr (), s\<lparr>ix_nodes := N2\<rparr>)" "stacked (key0 N2) N2 (root_page (ix_hdr s)) (A @ p # B) Us" "keys_frame (concat Us) (ix_nodes ?s1) N2"
      using leaf_removed_keys[OF u lv h f, of x] by (elim exE conjE) (rule that)
    note ok = leaf_removed_ok[OF u lv h False N2(2,3)]
    obtain b s' ps' Us' where s': "coalesce_or_redistribute fuel p (s\<lparr>ix_nodes := N2\<rparr>) = (Inr b, s')" "upper_ok mn mx s' ps' Us'"
      "leaves_ok rank ok mn mx s' ps'" "flat (ix_nodes s') ps' = delete_by rank x (flat ?N ps)" "hdr_keep (ix_hdr s) (ix_hdr s')"
      using leaf_coalesce[OF ok(1,2) f] ok(3) whole(1) by auto
    have "delete_entry fuel x s = (Inr True, s')" unfolding run using ne N2(1) s'(1) by (simp add: thenE_def bindE_def)
    moreover have h': "hdr_for types lens (ix_hdr s')" "get_max_size (ix_hdr s') = get_max_size (ix_hdr s)" using hdr_keepD(1,3)[OF s'(5)] h by auto
    then have "tree_inv rank ok s' ps' Us'" using tree_inv_parts[OF h'(1), of mx mn rank ok] s'(2,3) by (simp add: mx_def mn_def)
    ultimately show ?thesis using s'(4,5) whole(2) False by (intro exI[of _ s'] exI[of _ ps'] exI[of _ Us']) simp
  qed
qed

end

end
