(* ===== verification/Index.thy ===== *)
theory Index
  imports IxTreeRemove
begin

text \<open>
  An index as its clients see it: a list of entries in the order of their keys. \<open>index_holds\<close> says
  that the nodes form a B+ tree with these entries; the properties say what the operations of
  \<open>IxIndexHandle\<close> do to the list.
\<close>

definition index_holds :: "ColType list \<Rightarrow> int list \<Rightarrow> ix_state \<Rightarrow> (bytes \<times> Rid) list \<Rightarrow> bool" where
  "index_holds types lens s es \<longleftrightarrow> hdr_for types lens (ix_hdr s) \<and>
     (\<exists>ps Us. tree_inv (key_rank types lens) (key_wf types lens) s ps Us \<and> flat (ix_nodes s) ps = es)"

abbreviation ix_lookup :: "ColType list \<Rightarrow> int list \<Rightarrow> bytes \<Rightarrow> (bytes \<times> Rid) list \<Rightarrow> Rid option" where
  "ix_lookup types lens \<equiv> lookup_by (key_rank types lens)"

abbreviation ix_insert :: "ColType list \<Rightarrow> int list \<Rightarrow> bytes \<Rightarrow> Rid \<Rightarrow> (bytes \<times> Rid) list \<Rightarrow> (bytes \<times> Rid) list" where
  "ix_insert types lens \<equiv> insert_by (key_rank types lens)"

abbreviation ix_delete :: "ColType list \<Rightarrow> int list \<Rightarrow> bytes \<Rightarrow> (bytes \<times> Rid) list \<Rightarrow> (bytes \<times> Rid) list" where
  "ix_delete types lens \<equiv> delete_by (key_rank types lens)"

lemma index_holdsE:
  assumes "index_holds types lens s es"
  obtains ps Us where "hdr_for types lens (ix_hdr s)" "tree_inv (key_rank types lens) (key_wf types lens) s ps Us"
    "es = flat (ix_nodes s) ps" "length Us \<le> length es"
proof -
  obtain ps Us where *: "hdr_for types lens (ix_hdr s)" "tree_inv (key_rank types lens) (key_wf types lens) s ps Us"
    "es = flat (ix_nodes s) ps" using assms by (auto simp: index_holds_def)
  show ?thesis by (rule that[OF *]) (use tree_inv_height[OF *(2,1)] *(3) in simp)
qed

text \<open>The entries are in order, so a key has at most one.\<close>

lemma index_ordered: "index_holds types lens s es \<Longrightarrow> ordered_by (key_rank types lens) es"
  by (elim index_holdsE) (simp add: tree_invD(6))

section \<open>A new index\<close>

text \<open>The nodes of a new index file: the list header and an empty root.\<close>

definition leaf_header_node :: ix_node where
  "leaf_header_node = \<lparr>nd_next_free_page_no = IX_NO_PAGE, nd_parent = IX_NO_PAGE, nd_is_leaf = True,
     nd_prev_leaf = IX_INIT_ROOT_PAGE, nd_next_leaf = IX_INIT_ROOT_PAGE, nd_pairs = []\<rparr>"

definition init_root_node :: ix_node where
  "init_root_node = \<lparr>nd_next_free_page_no = IX_NO_PAGE, nd_parent = IX_NO_PAGE, nd_is_leaf = True,
     nd_prev_leaf = IX_LEAF_HEADER_PAGE, nd_next_leaf = IX_LEAF_HEADER_PAGE, nd_pairs = []\<rparr>"

definition new_index :: "IxFileHdr \<Rightarrow> ix_state" where
  "new_index h = \<lparr>ix_hdr = h, ix_nodes = [1 \<mapsto> leaf_header_node, 2 \<mapsto> init_root_node], ix_next_page = 3\<rparr>"

text \<open>Pages may have been skipped: only the numbers of new pages depend on the counter.\<close>

lemma fresh_index_holds:
  assumes "hdr_for types lens h" "root_page h = 2" "first_leaf h = 2" "last_leaf h = 2" "3 \<le> n"
  shows "index_holds types lens \<lparr>ix_hdr = h, ix_nodes = [1 \<mapsto> leaf_header_node, 2 \<mapsto> init_root_node], ix_next_page = n\<rparr> []"
    (is "index_holds _ _ ?s _")
proof -
  have "tree_inv (key_rank types lens) (key_wf types lens) ?s [2] []"
    using assms
    by (simp add: hdr_for_def get_max_size_def tree_inv_def pages_ok_def size_ok_def ring_def leaf_header_node_def init_root_node_def ordered_by_def)
  moreover have "flat (ix_nodes ?s) [2] = []" by (simp add: init_root_node_def)
  ultimately show ?thesis using assms(1) by (auto simp: index_holds_def)
qed

lemma new_index_holds:
  assumes "hdr_for types lens h" "root_page h = 2" "first_leaf h = 2" "last_leaf h = 2"
  shows "index_holds types lens (new_index h) []"
  using fresh_index_holds[OF assms, of 3] by (simp add: new_index_def)

lemma demo_index:
  "index_holds [TYPE_INT, TYPE_STRING] [4, 12] (new_index demo_ix_hdr) []"
  "key_wf [TYPE_INT, TYPE_STRING] [4, 12] (replicate 16 7)"
  by (simp_all add: new_index_holds demo_ix_hdr_def hdr_for_def)

section \<open>Operations on the entries\<close>

lemma index_finds:
  assumes "index_holds types lens s es" "key_wf types lens key" "length es \<le> fuel"
  shows "get_value fuel key s = (Inr (ix_lookup types lens key es), s)"
  using assms by (elim index_holdsE) (simp add: ko.get_value_ok)

lemma index_inserts:
  assumes "index_holds types lens s es" "key_wf types lens key" "length es \<le> fuel" "ix_lookup types lens key es = None"
  obtains p s' where "insert_entry fuel key rid s = (Inr p, s')" "index_holds types lens s' (ix_insert types lens key rid es)"
    "(key, rid) \<in> set (nd_pairs (node_at s' p))" "hdr_keep (ix_hdr s) (ix_hdr s')"
proof -
  from assms(1) obtain ps Us where t: "hdr_for types lens (ix_hdr s)" "tree_inv (key_rank types lens) (key_wf types lens) s ps Us"
    "es = flat (ix_nodes s) ps" "length Us \<le> length es" by (rule index_holdsE)
  have f: "length Us \<le> fuel" using t(4) assms(3) by simp
  obtain p s' ps' Us' where r: "insert_entry fuel key rid s = (Inr p, s')" "tree_inv (key_rank types lens) (key_wf types lens) s' ps' Us'"
    "hdr_for types lens (ix_hdr s')" "flat (ix_nodes s') ps' = ix_insert types lens key rid (flat (ix_nodes s) ps)"
    "(key, rid) \<in> set (prs (ix_nodes s') p)" "hdr_keep (ix_hdr s) (ix_hdr s')"
    using ko.insert_entry_ok[OF t(2,1) assms(2) f assms(4)[unfolded t(3)], of rid] by (elim exE conjE) (rule that)
  have "index_holds types lens s' (ix_insert types lens key rid es)" using r(2-4) t(3) unfolding index_holds_def by blast
  with r(1,5,6) show ?thesis by (intro that) simp_all
qed

section \<open>Properties\<close>

text \<open>Property C5: a search finds exactly the entry of the key, without changing the index.\<close>

theorem index_get_value:
  assumes "index_holds types lens s es" "key_wf types lens key" "length es \<le> fuel"
  shows "get_value fuel key s = (Inr (ix_lookup types lens key es), s)"
  using assms by (rule index_finds)

theorem index_get_value_witness:
  "get_value 0 (replicate 16 7) (new_index demo_ix_hdr) = (Inr None, new_index demo_ix_hdr)"
  using index_get_value[OF demo_index, of 0] by (simp add: lookup_by_def)

text \<open>Property C3: an insertion refines insertion into the ordered list of entries. If the key has
  an entry already, the unique constraint is reported and nothing changes; otherwise the new entry
  is put at its place, whatever nodes have to be split, and the returned page holds it.\<close>

theorem index_insert_refines:
  assumes "index_holds types lens s es" "key_wf types lens key" "length es \<le> fuel"
  shows "if ix_lookup types lens key es \<noteq> None
    then insert_entry fuel key rid s = (Inl (RMDBError ''Unique index constraint violated''), s)
    else \<exists>p s'. insert_entry fuel key rid s = (Inr p, s') \<and> index_holds types lens s' (ix_insert types lens key rid es) \<and>
      (key, rid) \<in> set (nd_pairs (node_at s' p))"
proof (cases "ix_lookup types lens key es = None")
  case True
  obtain p s' where "insert_entry fuel key rid s = (Inr p, s')" "index_holds types lens s' (ix_insert types lens key rid es)"
    "(key, rid) \<in> set (nd_pairs (node_at s' p))" using index_inserts[OF assms True] .
  then show ?thesis using True by simp
next
  case False
  then show ?thesis using index_finds[OF assms] by (simp add: insert_entry_def bindE_def)
qed

theorem index_insert_refines_witness:
  "\<exists>p s'. insert_entry 0 (replicate 16 7) (Rid 1 0) (new_index demo_ix_hdr) = (Inr p, s') \<and>
    index_holds [TYPE_INT, TYPE_STRING] [4, 12] s' [(replicate 16 7, Rid 1 0)]"
  using index_insert_refines[OF demo_index, of 0 "Rid 1 0"] by (auto simp: lookup_by_def insert_by_def)

text \<open>Property C4: a deletion refines deletion from the ordered list of entries: the result says
  whether the key had an entry, that entry is taken out, and the nodes form a B+ tree again, whatever
  pairs were moved between neighbours, whatever nodes were merged, and also when the root was replaced.\<close>

theorem index_delete_refines:
  assumes "index_holds types lens s es" "key_wf types lens key" "length es \<le> fuel"
  shows "\<exists>s'. delete_entry fuel key s = (Inr (ix_lookup types lens key es \<noteq> None), s') \<and>
    index_holds types lens s' (ix_delete types lens key es)"
proof -
  from assms(1) obtain ps Us where t: "hdr_for types lens (ix_hdr s)" "tree_inv (key_rank types lens) (key_wf types lens) s ps Us"
    "es = flat (ix_nodes s) ps" "length Us \<le> length es" by (rule index_holdsE)
  have f: "length Us \<le> fuel" using t(4) assms(3) by simp
  obtain s' ps' Us' where r: "delete_entry fuel key s = (Inr (ix_lookup types lens key (flat (ix_nodes s) ps) \<noteq> None), s')"
    "tree_inv (key_rank types lens) (key_wf types lens) s' ps' Us'" "flat (ix_nodes s') ps' = ix_delete types lens key (flat (ix_nodes s) ps)"
    "hdr_keep (ix_hdr s) (ix_hdr s')"
    using ko.delete_entry_ok[OF t(2,1) assms(2) f] by (elim exE conjE) (rule that)
  have "hdr_for types lens (ix_hdr s')" using hdr_keepD(3)[OF r(4)] t(1) by blast
  then have "index_holds types lens s' (ix_delete types lens key es)" using r(2,3) t(3) unfolding index_holds_def by blast
  then show ?thesis using r(1) t(3) by blast
qed

theorem index_delete_refines_witness:
  "\<exists>s s'. index_holds [TYPE_INT, TYPE_STRING] [4, 12] s [(replicate 16 7, Rid 1 0)] \<and>
    delete_entry 1 (replicate 16 7) s = (Inr True, s') \<and> index_holds [TYPE_INT, TYPE_STRING] [4, 12] s' []"
proof -
  have new: "ix_lookup [TYPE_INT, TYPE_STRING] [4, 12] (replicate 16 7) [] = None" by (simp add: lookup_by_def)
  obtain p s where s: "index_holds [TYPE_INT, TYPE_STRING] [4, 12] s (ix_insert [TYPE_INT, TYPE_STRING] [4, 12] (replicate 16 7) (Rid 1 0) [])"
    using index_inserts[OF demo_index _ new, of 0 "Rid 1 0"] by auto
  then have s1: "index_holds [TYPE_INT, TYPE_STRING] [4, 12] s [(replicate 16 7, Rid 1 0)]" by (simp add: insert_by_def)
  from index_delete_refines[OF s1 demo_index(2), of 1] show ?thesis using s1 by (auto simp: lookup_by_def delete_by_def)
qed

text \<open>Property C24: the tree is balanced: a search in an index of fewer than \<open>2 ^ (n + 1)\<close> entries
  ends after at most \<open>n\<close> steps down.\<close>

theorem index_search_depth:
  assumes "index_holds types lens s es" "key_wf types lens key" "length es < 2 ^ Suc n"
  shows "\<exists>p. find_leaf_page n key False s = (Inr p, s)"
proof -
  from assms(1) obtain ps Us where t: "hdr_for types lens (ix_hdr s)" "tree_inv (key_rank types lens) (key_wf types lens) s ps Us"
    "es = flat (ix_nodes s) ps" by (rule index_holdsE)
  have h: "length Us \<le> n"
  proof (cases "Us = []")
    case False
    have "2 ^ length Us \<le> length ps"
      by (rule stacked_height[OF tree_invD(1)[OF t(2)]]) (use tree_inv_sizes(1)[OF t(2,1)] in blast)
    moreover have "2 * length rs \<le> length (flat N rs)" if "\<forall>p \<in> set rs. 2 \<le> length (prs N p)" for rs N
      using that by (induction rs) auto
    then have "2 * length ps \<le> length es" using tree_inv_sizes(2)[OF t(2,1) _ False] t(3) by blast
    ultimately have "(2::nat) ^ length Us < 2 ^ n" using assms(3) unfolding power_Suc by linarith
    then have "length Us < n" by (rule power_less_imp_less_exp[rotated]) simp
    then show ?thesis by simp
  qed simp
  obtain p where "find_leaf_page n key False s = (Inr p, s)"
    using ko.find_leaf_page_ok[OF t(2,1) assms(2) h] by (elim exE conjE) (rule that)
  then show ?thesis by blast
qed

theorem index_search_depth_witness:
  "\<exists>p. find_leaf_page 0 (replicate 16 7) False (new_index demo_ix_hdr) = (Inr p, new_index demo_ix_hdr)"
  using index_search_depth[OF demo_index, of 0] by simp

end
