(* ===== verification/IxPositions.thy ===== *)
theory IxPositions
  imports Index
begin

text \<open>
  Positions in an index (\<open>Iid\<close>) as places in the ordered list of its entries: what \<open>lower_bound\<close>,
  \<open>upper_bound\<close>, \<open>leaf_begin\<close> and \<open>leaf_end\<close> of \<open>IxIndexHandle\<close> find, and how \<open>IxScan\<close> moves. A place has one
  position only, so a scan stops where it should.
\<close>

section \<open>The position of a place\<close>

fun iid_at :: "nodes \<Rightarrow> page_id_t list \<Rightarrow> nat \<Rightarrow> Iid" where
  "iid_at N [] k = Iid (-1) (int k)"
| "iid_at N (p # ps) k = (if k < length (prs N p) \<or> ps = [] then Iid p (int k) else iid_at N ps (k - length (prs N p)))"

lemma iid_at_append:
  assumes "B \<noteq> []"
  shows "iid_at N (A @ B) (length (flat N A) + k) = iid_at N B k"
  using assms by (induction A) (auto simp: add.assoc)

text \<open>The places of a level: in a page, or after the last pair.\<close>

lemma place_cases:
  assumes "ps \<noteq> []" "k \<le> length (flat N ps)"
  obtains (inside) A p B i where "ps = A @ p # B" "k = length (flat N A) + i" "i < length (prs N p)"
  | (at_end) "k = length (flat N ps)"
  using assms
proof (induction ps arbitrary: k thesis)
  case (Cons p ps)
  show ?case
  proof (cases "k < length (prs N p)")
    case True
    then show ?thesis using Cons.prems(1)[of "[]" p ps k] by simp
  next
    case False
    show ?thesis
    proof (cases "ps = []")
      case True
      then show ?thesis using Cons.prems(2,4) False by simp
    next
      case ne: False
      have le: "k - length (prs N p) \<le> length (flat N ps)" using Cons.prems(4) by simp
      show ?thesis
      proof (rule Cons.IH[OF _ _ ne le])
        fix A q B i assume "ps = A @ q # B" "k - length (prs N p) = length (flat N A) + i" "i < length (prs N q)"
        then show ?thesis using Cons.prems(1)[of "p # A" q B i] False by simp
      next
        assume "k - length (prs N p) = length (flat N ps)"
        then show ?thesis using Cons.prems(2) False by simp
      qed
    qed
  qed
qed simp

lemma iid_at_inside:
  assumes "i < length (prs N p)"
  shows "iid_at N (A @ p # B) (length (flat N A) + i) = Iid p (int i)"
  using assms by (simp add: iid_at_append)

lemma iid_at_end:
  assumes "ps \<noteq> []"
  shows "iid_at N ps (length (flat N ps)) = Iid (last ps) (int (length (prs N (last ps))))"
proof -
  have ps: "ps = butlast ps @ [last ps]" using assms by simp
  have "iid_at N (butlast ps @ [last ps]) (length (flat N (butlast ps)) + length (prs N (last ps))) =
      Iid (last ps) (int (length (prs N (last ps))))"
    by (simp add: iid_at_append)
  moreover have "length (flat N ps) = length (flat N (butlast ps)) + length (prs N (last ps))"
    by (subst ps) simp
  ultimately show ?thesis using ps by simp
qed

lemma iid_at_page_end:
  assumes "B \<noteq> []" "prs N (hd B) \<noteq> []"
  shows "iid_at N (A @ p # B) (length (flat N A) + length (prs N p)) = Iid (hd B) 0"
  using iid_at_append[OF assms(1), of N "A @ [p]" 0] assms by (cases B) auto

lemma iid_at_inj:
  assumes d: "distinct ps" and k: "k \<le> length (flat N ps)" "k' \<le> length (flat N ps)" and e: "iid_at N ps k = iid_at N ps k'" and ne: "ps \<noteq> []"
  shows "k = k'"
  using assms
proof (induction ps arbitrary: k k')
  case (Cons p ps)
  have page: "iid_page_no (iid_at N ps j) \<in> set ps" if "ps \<noteq> []" for j
    using that by (induction ps arbitrary: j) auto
  show ?case
  proof (cases "ps = []")
    case False
    have "iid_at N ps j \<noteq> Iid p i" for i j using page[OF False, of j] Cons.prems(1) by (auto dest: arg_cong[of _ _ iid_page_no])
    moreover have "k - length (prs N p) = k' - length (prs N p)"
      if "\<not> k < length (prs N p)" "\<not> k' < length (prs N p)"
      using Cons.IH[of "k - length (prs N p)" "k' - length (prs N p)"] Cons.prems that False by simp
    ultimately show ?thesis using Cons.prems(4) False by (auto split: if_splits dest: sym)
  qed (use Cons.prems in simp)
qed simp

section \<open>Bounds\<close>

text \<open>The number of pairs whose keys are not above \<open>x\<close>.\<close>

definition not_above :: "('k \<Rightarrow> 'r :: linorder) \<Rightarrow> 'k \<Rightarrow> ('k \<times> 'v) list \<Rightarrow> nat" where
  "not_above rank x kvs = length (takeWhile (\<lambda>kv. rank (fst kv) \<le> rank x) kvs)"

lemma not_above_le: "not_above rank x kvs \<le> length kvs"
  by (simp add: not_above_def length_takeWhile_le)

lemma bounds_part:
  assumes "\<forall>kv \<in> set xs. rank (fst kv) < rank x" "\<forall>kv \<in> set ys. rank x < rank (fst kv)"
  shows "below rank x (xs @ kvs @ ys) = length xs + below rank x kvs"
    "not_above rank x (xs @ kvs @ ys) = length xs + not_above rank x kvs"
proof -
  have y: "takeWhile (\<lambda>kv. rank (fst kv) < rank x) ys = []" "takeWhile (\<lambda>kv. rank (fst kv) \<le> rank x) ys = []"
    using assms(2) by (cases ys; fastforce simp: not_less not_le)+
  show "below rank x (xs @ kvs @ ys) = length xs + below rank x kvs"
    using assms(1) y(1) by (auto simp: below_def takeWhile_append takeWhile_eq_all_conv[THEN iffD2])
  show "not_above rank x (xs @ kvs @ ys) = length xs + not_above rank x kvs"
    using assms(1) y(2) by (auto simp: not_above_def takeWhile_append less_imp_le takeWhile_eq_all_conv[THEN iffD2])
qed

lemma not_above_filter:
  assumes "ordered_by rank kvs"
  shows "not_above rank x kvs = length (filter (\<lambda>kv. rank (fst kv) \<le> rank x) kvs)"
    "take (not_above rank x kvs) kvs = filter (\<lambda>kv. rank (fst kv) \<le> rank x) kvs"
    "drop (not_above rank x kvs) kvs = filter (\<lambda>kv. rank x < rank (fst kv)) kvs"
proof -
  let ?P = "\<lambda>kv. rank (fst kv) \<le> rank x"
  have tw: "takeWhile ?P kvs = filter ?P kvs \<and> dropWhile ?P kvs = filter (\<lambda>kv. rank x < rank (fst kv)) kvs"
    using assms
  proof (induction kvs)
    case (Cons kv kvs)
    show ?case
    proof (cases "?P kv")
      case False
      then have a: "rank x < rank (fst kv')" if "kv' \<in> set kvs" for kv'
        using Cons.prems that by (auto simp: ordered_Cons not_le dest: less_trans)
      then have "filter ?P kvs = []" "filter (\<lambda>kv. rank x < rank (fst kv)) kvs = kvs"
        by (auto simp: filter_empty_conv filter_id_conv not_le)
      then show ?thesis using False by simp
    qed (use Cons in \<open>simp add: ordered_Cons\<close>)
  qed simp
  then show "not_above rank x kvs = length (filter ?P kvs)" by (simp add: not_above_def)
  show "take (not_above rank x kvs) kvs = filter ?P kvs" "drop (not_above rank x kvs) kvs = filter (\<lambda>kv. rank x < rank (fst kv)) kvs"
    unfolding not_above_def takeWhile_eq_take[symmetric] dropWhile_eq_drop[symmetric] using tw by blast+
qed

lemma not_above_nth:
  assumes "ordered_by rank kvs" "i < length kvs"
  shows "rank (fst (kvs ! i)) \<le> rank x \<longleftrightarrow> i < not_above rank x kvs"
proof (cases "i < not_above rank x kvs")
  case True
  then have "kvs ! i \<in> set (take (not_above rank x kvs) kvs)" using assms(2) by (auto simp: in_set_conv_nth)
  then show ?thesis using True not_above_filter(2)[OF assms(1), of x] by simp
next
  case False
  then have "drop (not_above rank x kvs) kvs ! (i - not_above rank x kvs) = kvs ! i" using assms(2) by simp
  moreover have "i - not_above rank x kvs < length (drop (not_above rank x kvs) kvs)" using False assms(2) by simp
  ultimately have "kvs ! i \<in> set (drop (not_above rank x kvs) kvs)" by (metis nth_mem)
  then show ?thesis using False not_above_filter(3)[OF assms(1), of x] by (simp add: not_le)
qed

text \<open>A larger key has its place further on.\<close>

lemma takeWhile_length_mono: "(\<And>x. P x \<Longrightarrow> Q x) \<Longrightarrow> length (takeWhile P xs) \<le> length (takeWhile Q xs)"
  by (induction xs) auto

lemma places_mono:
  "rank a \<le> rank b \<Longrightarrow> below rank a kvs \<le> not_above rank b kvs"
  "rank a < rank b \<Longrightarrow> not_above rank a kvs \<le> not_above rank b kvs"
  "rank a < rank b \<Longrightarrow> below rank a kvs \<le> below rank b kvs"
  "rank a < rank b \<Longrightarrow> not_above rank a kvs \<le> below rank b kvs"
  unfolding below_def not_above_def by (auto intro!: takeWhile_length_mono)

lemma not_above_below:
  assumes "ordered_by rank kvs"
  shows "not_above rank x kvs =
    (if below rank x kvs < length kvs \<and> rank (fst (kvs ! below rank x kvs)) = rank x then below rank x kvs + 1 else below rank x kvs)"
proof -
  have "length (filter (\<lambda>kv. rank (fst kv) \<le> rank x) kvs) =
      length (filter (\<lambda>kv. rank (fst kv) < rank x) kvs) + length (filter (\<lambda>kv. rank (fst kv) = rank x) kvs)"
    by (induction kvs) (auto simp: order_le_less)
  then show ?thesis using equal_filter[OF assms, of x] not_above_filter(1)[OF assms] below_filter[OF assms] by (simp add: Let_def)
qed

context key_order
begin

lemma iid_from_ok:
  assumes t: "tree_inv rank ok s ps Us" and h: "hdr_for types lens (ix_hdr s)" and ps: "ps = A @ p # B"
    and i: "i \<le> length (prs (ix_nodes s) p)"
  shows "iid_from p i s = (Inr (iid_at (ix_nodes s) ps (length (flat (ix_nodes s) A) + i)), s)"
proof -
  let ?N = "ix_nodes s"
  note d = tree_invD[OF t]
  have di: "distinct ps" using d(2) by (simp add: pages_ok_def)
  have lst: "last ps \<in> dom ?N" "0 \<le> last ps" using pages_okD[OF d(2), of "last ps"] ps by auto
  consider (inside) "i < length (prs ?N p)" | (more) "i = length (prs ?N p)" "B \<noteq> []" | (at_end) "i = length (prs ?N p)" "B = []"
    using i by fastforce
  then show ?thesis
  proof cases
    case inside
    then show ?thesis using ps by (simp add: iid_from_def bindE_def get_size_def iid_at_inside)
  next
    case more
    have "p \<noteq> last ps" using di ps more(2) by auto
    moreover have "nd_next_leaf (node_at s p) = hd B" using ring_next[of ?N A p B] d(9) ps more(2) by simp
    moreover have "hd B \<in> set (tl ps)" using ps more(2) by (cases A) auto
    then have "prs ?N (hd B) \<noteq> []" using tree_inv_nonempty[OF t h] by blast
    ultimately show ?thesis using more ps d(11) iid_at_page_end[of B ?N A p] by (simp add: iid_from_def bindE_def get_size_def)
  next
    case at_end
    then have "iid_at ?N ps (length (flat ?N A) + i) = Iid (last ps) (int (length (prs ?N (last ps))))"
      using iid_at_end[of ps ?N] ps by simp
    then show ?thesis using at_end ps d(11) lst by (simp add: iid_from_def leaf_end_def bindE_def get_size_def)
  qed
qed

lemma leaf_begin_ok:
  assumes t: "tree_inv rank ok s ps Us" and h: "hdr_for types lens (ix_hdr s)"
  shows "leaf_begin s = iid_at (ix_nodes s) ps 0"
proof -
  note d = tree_invD[OF t]
  have ne: "ps \<noteq> []" using stacked_nonempty[OF d(1)] .
  have "prs (ix_nodes s) (hd ps) \<noteq> []" if "tl ps \<noteq> []"
  proof -
    have "Us \<noteq> []" using d(1) that by (cases Us) auto
    then show ?thesis using tree_inv_sizes(2)[OF t h, of "hd ps"] ne by force
  qed
  then show ?thesis using d(10) ne by (cases ps) (auto simp: leaf_begin_def)
qed

lemma leaf_end_ok:
  assumes t: "tree_inv rank ok s ps Us"
  shows "leaf_end s = (Inr (iid_at (ix_nodes s) ps (length (flat (ix_nodes s) ps))), s)"
proof -
  note d = tree_invD[OF t]
  have ne: "ps \<noteq> []" using stacked_nonempty[OF d(1)] .
  then have "last ps \<in> dom (ix_nodes s)" "0 \<le> last ps" using pages_okD[OF d(2), of "last ps"] by auto
  then show ?thesis using d(11) iid_at_end[OF ne] by (simp add: leaf_end_def bindE_def get_size_def)
qed

text \<open>The two bounds.\<close>

lemma ix_bounds_ok:
  assumes t: "tree_inv rank ok s ps Us" and h: "hdr_for types lens (ix_hdr s)" and x: "ok x" and f: "length Us \<le> fuel"
  shows "ix_lower_bound fuel x s = (Inr (iid_at (ix_nodes s) ps (below rank x (flat (ix_nodes s) ps))), s)"
    "ix_upper_bound fuel x s = (Inr (iid_at (ix_nodes s) ps (not_above rank x (flat (ix_nodes s) ps))), s)"
proof -
  let ?N = "ix_nodes s"
  note d = tree_invD[OF t]
  obtain A p B where p: "find_leaf_page fuel x False s = (Inr p, s)" "ps = A @ p # B"
    "\<forall>kv \<in> set (flat ?N A). rank (fst kv) < rank x" "\<forall>kv \<in> set (flat ?N B). rank x < rank (fst kv)"
    using find_leaf_page_ok[OF assms] by blast
  have o: "ordered_by rank (prs ?N p)" "\<forall>kv \<in> set (prs ?N p). ok (fst kv)" using d(6,7) p(2) by (auto simp: ordered_append)
  note lb = nd_lower_bound_below[OF h o x]
  note part = bounds_part[OF p(3,4), of "prs ?N p"]
  have flat: "flat ?N ps = flat ?N A @ prs ?N p @ flat ?N B" using p(2) by simp
  show "ix_lower_bound fuel x s = (Inr (iid_at ?N ps (below rank x (flat ?N ps))), s)"
    using iid_from_ok[OF t h p(2) below_le[of rank x "prs ?N p"]] part(1) flat p(1) lb
    by (simp add: ix_lower_bound_def bindE_def)
  have "key_compare (ix_hdr s) (get_key (node_at s p) b) x = 0 \<longleftrightarrow> rank (fst (prs ?N p ! b)) = rank x" if "b < length (prs ?N p)" for b
    using cmp_eq[of "get_key (node_at s p) b" x] o(2) x that by (simp add: key_compare_for[OF h] get_key_def)
  then have "(below rank x (prs ?N p) < length (prs ?N p) \<and> key_compare (ix_hdr s) (get_key (node_at s p) (below rank x (prs ?N p))) x = 0) \<longleftrightarrow>
      (below rank x (prs ?N p) < length (prs ?N p) \<and> rank (fst (prs ?N p ! below rank x (prs ?N p))) = rank x)" by blast
  then have "ix_upper_bound fuel x s = iid_from p (not_above rank x (prs ?N p)) s"
    using p(1) lb not_above_below[OF o(1), of x] by (simp only: ix_upper_bound_def bindE_def getE_apply prod.case sum.case get_size_def)
  then show "ix_upper_bound fuel x s = (Inr (iid_at ?N ps (not_above rank x (flat ?N ps))), s)"
    using iid_from_ok[OF t h p(2) not_above_le[of rank x "prs ?N p"]] part(2) flat by simp
qed

lemma get_rid_at_ok:
  assumes t: "tree_inv rank ok s ps Us" and k: "k < length (flat (ix_nodes s) ps)"
  shows "get_rid_at (iid_at (ix_nodes s) ps k) s = (Inr (snd (flat (ix_nodes s) ps ! k)), s)"
proof -
  let ?N = "ix_nodes s"
  note d = tree_invD[OF t]
  obtain A p B i where p: "ps = A @ p # B" "k = length (flat ?N A) + i" "i < length (prs ?N p)"
    by (rule place_cases[OF stacked_nonempty[OF d(1)] less_imp_le[OF k]]) (use k in auto)
  have "p \<in> dom ?N" "0 \<le> p" using pages_okD[OF d(2), of p] p(1) by auto
  moreover have "flat ?N ps ! k = prs ?N p ! i" using p by (simp add: nth_append)
  ultimately show ?thesis using p iid_at_inside[of i ?N p A B] by (simp add: get_rid_at_def bindE_def get_size_def get_rid_def)
qed

lemma ix_scan_next_ok:
  assumes t: "tree_inv rank ok s ps Us" and h: "hdr_for types lens (ix_hdr s)" and k: "k < length (flat (ix_nodes s) ps)"
    and sc: "sc_iid sc = iid_at (ix_nodes s) ps k" "sc_iid sc \<noteq> sc_end sc"
  shows "ix_scan_next sc s = (Inr (sc\<lparr>sc_iid := iid_at (ix_nodes s) ps (Suc k)\<rparr>), s)"
proof -
  let ?N = "ix_nodes s"
  note d = tree_invD[OF t]
  obtain A p B i where p: "ps = A @ p # B" "k = length (flat ?N A) + i" "i < length (prs ?N p)"
    by (rule place_cases[OF stacked_nonempty[OF d(1)] less_imp_le[OF k]]) (use k in auto)
  have i: "sc_iid sc = Iid p (int i)" using sc(1) p iid_at_inside[of i ?N p A B] by simp
  have dom: "p \<in> dom ?N" "0 \<le> p" and lf: "isleaf ?N p" using pages_okD[OF d(2), of p] d(5)[of p] p(1) by auto
  let ?nx = "if p \<noteq> last_leaf (ix_hdr s) \<and> int i + 1 = int (length (prs ?N p)) then Iid (nd_next_leaf (node_at s p)) 0 else Iid p (int i + 1)"
  have "iid_from p (Suc i) s = (Inr ?nx, s)"
  proof (cases "Suc i < length (prs ?N p)")
    case False
    then have "length (prs ?N p) = Suc i" using p(3) by simp
    moreover have "last ps \<in> dom ?N" "0 \<le> last ps" using pages_okD[OF d(2), of "last ps"] p(1) by auto
    ultimately show ?thesis using d(11) by (auto simp: iid_from_def leaf_end_def bindE_def get_size_def)
  qed (simp add: iid_from_def bindE_def get_size_def)
  then have "iid_at ?N ps (Suc k) = ?nx" using iid_from_ok[OF t h p(1), of "Suc i"] p(2,3) by simp
  then show ?thesis using sc(2) i dom lf p(3)
    by (simp add: ix_scan_next_def ix_scan_is_end_def thenE_def bindE_def get_size_def)
qed

end

end
