(* ===== verification/IndexScan.thy ===== *)
theory IndexScan
  imports Queries Engine Planner IxPositions
begin

text \<open>
  The scan of a table through an index (\<open>execution/executor_index_scan.h\<close>): the bounds its conditions put on the
  columns of the index, the range of keys they make up, and the executor that walks over the entries in the range.
  It is shown to deliver the same rows as the scan of the whole table.
\<close>

section \<open>Smallest and largest values\<close>

definition min_value :: "ColMeta \<Rightarrow> bytes" where
  "min_value col =
     (case cm_type col of
        TYPE_INT \<Rightarrow> le_bytes 4 (- (2 ^ 31))
      | TYPE_BIGINT \<Rightarrow> le_bytes 8 (- (2 ^ 63))
      | TYPE_DATETIME \<Rightarrow> le_bytes 8 (- (2 ^ 63))
      | TYPE_FLOAT \<Rightarrow> le_bytes 4 0xFF7FFFFF
      | TYPE_STRING \<Rightarrow> replicate (nat (cm_len col)) 0)"

definition max_value :: "ColMeta \<Rightarrow> bytes" where
  "max_value col =
     (case cm_type col of
        TYPE_INT \<Rightarrow> le_bytes 4 (2 ^ 31 - 1)
      | TYPE_BIGINT \<Rightarrow> le_bytes 8 (2 ^ 63 - 1)
      | TYPE_DATETIME \<Rightarrow> le_bytes 8 (2 ^ 63 - 1)
      | TYPE_FLOAT \<Rightarrow> le_bytes 4 0x7F7FFFFF
      | TYPE_STRING \<Rightarrow> replicate (nat (cm_len col)) 0xFF)"

section \<open>Bounds on columns\<close>

record ColumnBound =
  bd_eq :: "Value option"
  bd_lower :: "Value option"
  lower_inclusive :: bool
  bd_upper :: "Value option"
  upper_inclusive :: bool

definition no_bound :: ColumnBound where
  "no_bound = \<lparr>bd_eq = None, bd_lower = None, lower_inclusive = True, bd_upper = None, upper_inclusive = True\<rparr>"

text \<open>Reading \<open>col.len\<close> bytes of the raw value of a bound.\<close>

definition raw_data :: "Value \<Rightarrow> ColMeta \<Rightarrow> rmdb_error + bytes" where
  "raw_data v col =
     (case v_raw v of
        None \<Rightarrow> Inl UndefinedBehaviour
      | Some raw \<Rightarrow> if int (length raw) < cm_len col then Inl UndefinedBehaviour else Inr (take (nat (cm_len col)) raw))"

definition compare_bound_value :: "Value \<Rightarrow> Value \<Rightarrow> ColMeta \<Rightarrow> rmdb_error + int" where
  "compare_bound_value lhs rhs col =
     andthen (raw_data lhs col) (\<lambda>l.
       andthen (raw_data rhs col) (\<lambda>r. compare_raw_data l (cm_type col) (cm_len col) r (cm_type col) (cm_len col)))"

definition raise_lower :: "ColMeta \<Rightarrow> Value \<Rightarrow> bool \<Rightarrow> ColumnBound \<Rightarrow> rmdb_error + ColumnBound" where
  "raise_lower col v inclusive b =
     (case bd_lower b of
        None \<Rightarrow> Inr (b\<lparr>bd_lower := Some v, lower_inclusive := inclusive\<rparr>)
      | Some old \<Rightarrow>
          andthen (compare_bound_value v old col) (\<lambda>cmp.
            Inr (if 0 < cmp \<or> cmp = 0 \<and> \<not> inclusive \<and> lower_inclusive b
                 then b\<lparr>bd_lower := Some v, lower_inclusive := inclusive\<rparr> else b)))"

definition reduce_upper :: "ColMeta \<Rightarrow> Value \<Rightarrow> bool \<Rightarrow> ColumnBound \<Rightarrow> rmdb_error + ColumnBound" where
  "reduce_upper col v inclusive b =
     (case bd_upper b of
        None \<Rightarrow> Inr (b\<lparr>bd_upper := Some v, upper_inclusive := inclusive\<rparr>)
      | Some old \<Rightarrow>
          andthen (compare_bound_value v old col) (\<lambda>cmp.
            Inr (if cmp < 0 \<or> cmp = 0 \<and> \<not> inclusive \<and> upper_inclusive b
                 then b\<lparr>bd_upper := Some v, upper_inclusive := inclusive\<rparr> else b)))"

definition add_bound :: "ColMeta \<Rightarrow> Condition \<Rightarrow> ColumnBound \<Rightarrow> rmdb_error + ColumnBound" where
  "add_bound col cond b =
     (let v = rhs_val cond in
      case cond_op cond of
        OP_EQ \<Rightarrow> Inr \<lparr>bd_eq = Some v, bd_lower = Some v, lower_inclusive = True, bd_upper = Some v, upper_inclusive = True\<rparr>
      | OP_GT \<Rightarrow> raise_lower col v False b
      | OP_GE \<Rightarrow> raise_lower col v True b
      | OP_LT \<Rightarrow> reduce_upper col v False b
      | OP_LE \<Rightarrow> reduce_upper col v True b
      | OP_NE \<Rightarrow> Inr b)"

text \<open>A condition bounds the first column of the index it is about.\<close>

fun bound_column :: "string \<Rightarrow> Condition \<Rightarrow> (ColMeta \<times> ColumnBound) list \<Rightarrow> rmdb_error + (ColMeta \<times> ColumnBound) list" where
  "bound_column tab_name cond [] = Inr []"
| "bound_column tab_name cond ((col, b) # bounds) =
     (if tc_tab_name (lhs_col cond) \<noteq> tab_name \<or> tc_col_name (lhs_col cond) \<noteq> cm_name col
      then andthen (bound_column tab_name cond bounds) (\<lambda>bounds'. Inr ((col, b) # bounds'))
      else andthen (add_bound col cond b) (\<lambda>b'. Inr ((col, b') # bounds)))"

fun collect_bounds :: "string \<Rightarrow> Condition list \<Rightarrow> (ColMeta \<times> ColumnBound) list \<Rightarrow> rmdb_error + (ColMeta \<times> ColumnBound) list" where
  "collect_bounds tab_name [] bounds = Inr bounds"
| "collect_bounds tab_name (cond # conds) bounds =
     (if \<not> is_rhs_val cond \<or> cond_op cond = OP_NE then collect_bounds tab_name conds bounds
      else andthen (bound_column tab_name cond bounds) (collect_bounds tab_name conds))"

section \<open>The range of keys\<close>

record scan_range =
  lower_key :: bytes
  upper_key :: bytes
  lower_incl :: bool
  upper_incl :: bool
  used_prefix :: bool
  range_consumed :: bool
  sr_offset :: nat

definition put_slots :: "bytes \<Rightarrow> bytes \<Rightarrow> scan_range \<Rightarrow> scan_range" where
  "put_slots l u r = r\<lparr>lower_key := mem_put (lower_key r) (sr_offset r) l, upper_key := mem_put (upper_key r) (sr_offset r) u\<rparr>"

definition skip_col :: "ColMeta \<Rightarrow> scan_range \<Rightarrow> scan_range" where
  "skip_col col r = r\<lparr>sr_offset := sr_offset r + nat (cm_len col)\<rparr>"

definition bound_data :: "Value option \<Rightarrow> ColMeta \<Rightarrow> bytes \<Rightarrow> rmdb_error + bytes" where
  "bound_data bound col other = (case bound of Some v \<Rightarrow> raw_data v col | None \<Rightarrow> Inr other)"

text \<open>The loop over the columns: equalities, then at most one range. The result is the range and the
  columns from \<open>stop_col\<close> on. The flags \<open>use_lower\<close> and \<open>use_upper\<close> of the code are always \<open>used_prefix\<close>.\<close>

fun prefix_loop :: "(ColMeta \<times> ColumnBound) list \<Rightarrow> scan_range \<Rightarrow> rmdb_error + scan_range \<times> ColMeta list" where
  "prefix_loop [] r = Inr (r, [])"
| "prefix_loop ((col, b) # bounds) r =
     (case bd_eq b of
        Some v \<Rightarrow>
          andthen (raw_data v col) (\<lambda>data.
            prefix_loop bounds (skip_col col (put_slots data data (r\<lparr>used_prefix := True\<rparr>))))
      | None \<Rightarrow>
          if bd_lower b \<noteq> None \<or> bd_upper b \<noteq> None
          then
            andthen (bound_data (bd_lower b) col (min_value col)) (\<lambda>l.
              andthen (bound_data (bd_upper b) col (max_value col)) (\<lambda>u.
                Inr (skip_col col (put_slots l u
                       (r\<lparr>lower_incl := (bd_lower b \<noteq> None \<longrightarrow> lower_inclusive b), upper_incl := (bd_upper b \<noteq> None \<longrightarrow> upper_inclusive b),
                          used_prefix := True, range_consumed := True\<rparr>)), map fst bounds)))
          else Inr (r, col # map fst bounds))"

definition set_inclusive :: "scan_range \<Rightarrow> scan_range" where
  "set_inclusive r = (if used_prefix r \<and> \<not> range_consumed r then r\<lparr>lower_incl := True, upper_incl := True\<rparr> else r)"

fun fill_rest :: "ColMeta list \<Rightarrow> scan_range \<Rightarrow> scan_range" where
  "fill_rest [] r = r"
| "fill_rest (col # cs) r =
     fill_rest cs (skip_col col
       (if used_prefix r
        then put_slots (if range_consumed r \<and> \<not> lower_incl r then max_value col else min_value col)
               (if range_consumed r \<and> \<not> upper_incl r then min_value col else max_value col) r
        else r))"

fun compare_composite_key :: "ColMeta list \<Rightarrow> bytes \<Rightarrow> bytes \<Rightarrow> rmdb_error + int" where
  "compare_composite_key [] lhs rhs = Inr 0"
| "compare_composite_key (col # cs) lhs rhs =
     andthen (compare_raw_data lhs (cm_type col) (cm_len col) rhs (cm_type col) (cm_len col)) (\<lambda>cmp.
       if cmp \<noteq> 0 then Inr cmp
       else compare_composite_key cs (drop (nat (cm_len col)) lhs) (drop (nat (cm_len col)) rhs))"

definition empty_range :: "nat \<Rightarrow> scan_range" where
  "empty_range n = \<lparr>lower_key = replicate n 0, upper_key = replicate n 0, lower_incl = True, upper_incl = True,
     used_prefix = False, range_consumed = False, sr_offset = 0\<rparr>"

text \<open>The columns \<open>cols[0], ..., cols[col_num - 1]\<close>, each without a bound.\<close>

definition index_columns :: "IndexMeta \<Rightarrow> (ColMeta \<times> ColumnBound) list" where
  "index_columns index = map (\<lambda>col. (col, no_bound)) (take (nat (im_col_num index)) (im_cols index))"

definition key_range :: "string \<Rightarrow> IndexMeta \<Rightarrow> Condition list \<Rightarrow> rmdb_error + scan_range" where
  "key_range tab_name index conds =
     andthen (collect_bounds tab_name conds (index_columns index)) (\<lambda>bounds.
       andthen (prefix_loop bounds (empty_range (nat (im_col_tot_len index)))) (\<lambda>(r, rest).
         Inr (fill_rest rest (set_inclusive r))))"

text \<open>The positions of the ends of the range.\<close>

definition build_scan_range :: "nat \<Rightarrow> string \<Rightarrow> IndexMeta \<Rightarrow> Condition list \<Rightarrow> (ix_state, Iid \<times> Iid) comp" where
  "build_scan_range fuel tab_name index conds =
     (case key_range tab_name index conds of
        Inl e \<Rightarrow> throwE e
      | Inr r \<Rightarrow>
          if \<not> used_prefix r
          then bindE (getE leaf_begin) (\<lambda>lower. bindE leaf_end (\<lambda>upper. returnE (lower, upper)))
          else
            (case compare_composite_key (im_cols index) (lower_key r) (upper_key r) of
               Inl e \<Rightarrow> throwE e
             | Inr cmp \<Rightarrow>
                 if 0 < cmp \<or> cmp = 0 \<and> (\<not> lower_incl r \<or> \<not> upper_incl r)
                 then bindE (getE leaf_begin) (\<lambda>p. returnE (p, p))
                 else
                   bindE (if lower_incl r then ix_lower_bound fuel (lower_key r) else ix_upper_bound fuel (lower_key r)) (\<lambda>lower.
                     bindE (if upper_incl r then ix_upper_bound fuel (upper_key r) else ix_lower_bound fuel (upper_key r)) (\<lambda>upper.
                       returnE (lower, upper)))))"

section \<open>The executor\<close>

record index_scan =
  xs_tab_name :: string
  xs_conds :: "Condition list"
  xs_cols :: "ColMeta list"
  xs_len :: nat
  xs_index :: IndexMeta
  xs_rid :: Rid
  xs_scan :: "ix_scan option"

text \<open>A call on \<open>ih_\<close>.\<close>

definition on_ih :: "index_scan \<Rightarrow> (ix_state, 'a) comp \<Rightarrow> (database \<times> index_scan, 'a) comp" where
  "on_ih e m = on_db (on_index (index_file (xs_tab_name e) (xs_index e)) m)"

definition xs_rid_end :: "(database \<times> index_scan, unit) comp" where
  "xs_rid_end = modifyE (\<lambda>(w, e). (w, e\<lparr>xs_rid := Rid (num_pages (table_hdr w (xs_tab_name e))) (-1)\<rparr>))"

definition xs_scan_next :: "(database \<times> index_scan, unit) comp" where
  "xs_scan_next =
     bindE (getE snd) (\<lambda>e.
       case xs_scan e of
         None \<Rightarrow> throwE UndefinedBehaviour
       | Some sc \<Rightarrow> bindE (on_ih e (ix_scan_next sc)) (\<lambda>sc'. set_exec (\<lambda>e. e\<lparr>xs_scan := Some sc'\<rparr>)))"

fun advance_to_match :: "nat \<Rightarrow> (database \<times> index_scan, unit) comp" where
  "advance_to_match fuel =
     bindE (getE snd) (\<lambda>e.
       case xs_scan e of
         None \<Rightarrow> xs_rid_end
       | Some sc \<Rightarrow>
           if ix_scan_is_end sc then xs_rid_end
           else
             (case fuel of
                0 \<Rightarrow> throwE OutOfFuel
              | Suc fuel' \<Rightarrow>
                  bindE (on_ih e (ix_scan_rid sc)) (\<lambda>candidate.
                    bindE (on_db (on_tables (on_file (xs_tab_name e) (get_record candidate)))) (\<lambda>rec.
                      case record_satisfies_conditions rec (xs_cols e) (xs_conds e) of
                        Inl x \<Rightarrow> throwE x
                      | Inr holds \<Rightarrow>
                          if holds then set_exec (\<lambda>e. e\<lparr>xs_rid := candidate\<rparr>)
                          else thenE xs_scan_next (advance_to_match fuel')))))"

declare advance_to_match.simps [simp del]

definition xs_begin :: "nat \<Rightarrow> (database \<times> index_scan, unit) comp" where
  "xs_begin fuel =
     bindE (getE snd) (\<lambda>e.
       bindE (on_ih e (build_scan_range fuel (xs_tab_name e) (xs_index e) (xs_conds e))) (\<lambda>(lower, upper).
         thenE (set_exec (\<lambda>e. e\<lparr>xs_scan := Some \<lparr>sc_iid = lower, sc_end = upper\<rparr>\<rparr>)) (advance_to_match fuel)))"

definition xs_is_end :: "database \<times> index_scan \<Rightarrow> bool" where
  "xs_is_end s = (case xs_scan (snd s) of None \<Rightarrow> True | Some sc \<Rightarrow> ix_scan_is_end sc)"

definition xs_next_tuple :: "nat \<Rightarrow> (database \<times> index_scan, unit) comp" where
  "xs_next_tuple fuel =
     bindE (getE xs_is_end) (\<lambda>ended. if ended then xs_rid_end else thenE xs_scan_next (advance_to_match fuel))"

definition xs_next :: "(database \<times> index_scan, bytes option) comp" where
  "xs_next =
     bindE (getE xs_is_end) (\<lambda>ended.
       if ended then returnE None
       else
         bindE (getE snd) (\<lambda>e.
           bindE (on_db (on_tables (on_file (xs_tab_name e) (get_record (xs_rid e))))) (\<lambda>rec. returnE (Some rec))))"

definition index_scan_ops :: "nat \<Rightarrow> index_scan exec_ops" where
  "index_scan_ops fuel =
     \<lparr>beginTuple = xs_begin fuel, nextTuple = xs_next_tuple fuel, is_end = xs_is_end, Next = xs_next,
      cols = xs_cols, tupleLen = xs_len\<rparr>"

text \<open>The constructor: conditions about another table are turned round.\<close>

fun turn_conds :: "string \<Rightarrow> Condition list \<Rightarrow> rmdb_error + Condition list" where
  "turn_conds tab_name [] = Inr []"
| "turn_conds tab_name (cond # conds) =
     (if tc_tab_name (lhs_col cond) \<noteq> tab_name
      then
        if \<not> is_rhs_val cond \<and> tc_tab_name (rhs_col cond) = tab_name
        then andthen (turn_conds tab_name conds) (\<lambda>cs. Inr (swap_cond cond # cs))
        else Inl AssertionFailure
      else andthen (turn_conds tab_name conds) (\<lambda>cs. Inr (cond # cs)))"

definition IndexScanExecutor :: "string \<Rightarrow> Condition list \<Rightarrow> string list \<Rightarrow> (database, index_scan) comp" where
  "IndexScanExecutor tab_name conds index_col_names =
     bindE (getE id) (\<lambda>w.
       case andthen (get_table (sm_db w) tab_name) (\<lambda>tab.
              andthen (get_index_meta tab index_col_names) (\<lambda>index.
                if sm_ihs w (index_file tab_name index) = None \<or> tf_fhs (sm_tables w) tab_name = None then Inl OutOfRange
                else if tm_cols tab = [] then Inl UndefinedBehaviour
                else
                  andthen (turn_conds tab_name conds) (\<lambda>cs.
                    Inr \<lparr>xs_tab_name = tab_name, xs_conds = cs, xs_cols = tm_cols tab,
                      xs_len = nat (cm_offset (last (tm_cols tab)) + cm_len (last (tm_cols tab))), xs_index = index,
                      xs_rid = Rid 0 0, xs_scan = None\<rparr>))) of
         Inl e \<Rightarrow> throwE e
       | Inr e \<Rightarrow> returnE e)"

text \<open>With its lock, which the constructor takes before it looks at the conditions; a failed assertion ends the
  program.\<close>

definition open_index_scan :: "Context \<Rightarrow> string \<Rightarrow> Condition list \<Rightarrow> string list \<Rightarrow> (engine, index_scan) comp" where
  "open_index_scan ctx tab_name conds index_col_names =
     bindE (on_sm (IndexScanExecutor tab_name conds index_col_names)) (\<lambda>e.
       thenE (lock_table_for lock_shared_on_table ctx tab_name) (returnE e))"

section \<open>Values of columns\<close>

text \<open>The bytes of a field of an index column: of its length, and for a float neither a NaN nor an infinity.\<close>

definition col_fine :: "ColMeta \<Rightarrow> bytes \<Rightarrow> bool" where
  "col_fine c bs \<longleftrightarrow> length bs = nat (cm_len c) \<and> col_wf (cm_type c) (cm_len c) bs \<and>
     (cm_type c = TYPE_FLOAT \<longrightarrow> float_mag (le_uint (take 4 bs)) < 255 * 2 ^ 23)"

abbreviation crank :: "ColMeta \<Rightarrow> bytes \<Rightarrow> int list" where
  "crank c \<equiv> col_rank (cm_type c) (cm_len c)"

abbreviation raw_of :: "Value \<Rightarrow> bytes" where
  "raw_of v \<equiv> the (v_raw v)"

definition value_fine :: "ColMeta \<Rightarrow> Value \<Rightarrow> bool" where
  "value_fine c v \<longleftrightarrow> v_raw v \<noteq> None \<and> col_fine c (raw_of v)"

lemma le_sint_range: "- (256 ^ length bs) \<le> 2 * le_sint bs \<and> 2 * le_sint bs < 256 ^ length bs"
  using le_uint_bounds[of bs] by (auto simp: le_sint_def Let_def)

lemma extreme_bytes:
  fixes bs :: "byte list"
  shows "replicate (length bs) 0 \<le> map uint bs" "map uint bs \<le> replicate (length bs) 255"
proof -
  have b: "0 \<le> uint b" "uint b \<le> 255" for b :: byte using uint_lt2p[of b] by simp_all
  show "replicate (length bs) 0 \<le> map uint bs" by (induction bs) (use b(1) in \<open>auto simp: order_le_less\<close>)
  show "map uint bs \<le> replicate (length bs) 255" by (induction bs) (use b(2) in \<open>auto simp: order_le_less\<close>)
qed

lemma min_max_fine:
  assumes "col_fine c bs"
  shows "col_fine c (min_value c)" "col_fine c (max_value c)" "crank c (min_value c) \<le> crank c bs" "crank c bs \<le> crank c (max_value c)"
proof -
  have "col_fine c (min_value c) \<and> col_fine c (max_value c) \<and> crank c (min_value c) \<le> crank c bs \<and> crank c bs \<le> crank c (max_value c)"
  proof (cases "cm_type c")
    case TYPE_FLOAT
    have mag: "0 \<le> float_mag (le_uint bs)" by (simp add: float_mag_def)
    have "length bs = 4" "float_mag (le_uint bs) < 255 * 2 ^ 23" using assms TYPE_FLOAT by (auto simp: col_fine_def)
    then have "- 0x7F7FFFFF \<le> float_rank (le_uint bs)" "float_rank (le_uint bs) \<le> 0x7F7FFFFF" using mag by (auto simp: float_rank_def)
    then show ?thesis using assms TYPE_FLOAT \<open>length bs = 4\<close>
      by (auto simp: col_fine_def min_value_def max_value_def le_uint_le_bytes float_mag_def float_nan_def float_rank_def order_le_less)
  next
    case TYPE_STRING
    then show ?thesis using assms extreme_bytes[of bs] by (simp add: col_fine_def min_value_def max_value_def)
  qed (use assms le_sint_range[of bs] in \<open>auto simp: col_fine_def min_value_def max_value_def int32_def int64_def order_le_less\<close>)
  then show "col_fine c (min_value c)" "col_fine c (max_value c)" "crank c (min_value c) \<le> crank c bs" "crank c bs \<le> crank c (max_value c)"
    by blast+
qed

lemma extreme_lengths: "col_fine c bs \<Longrightarrow> length (min_value c) = nat (cm_len c) \<and> length (max_value c) = nat (cm_len c)"
  using min_max_fine(1,2)[of c bs] by (simp add: col_fine_def)

lemma compare_fine:
  assumes "col_fine c a" "col_fine c b"
  shows "ix_compare_col a b (cm_type c) (cm_len c) < 0 \<longleftrightarrow> crank c a < crank c b"
    "ix_compare_col a b (cm_type c) (cm_len c) = 0 \<longleftrightarrow> crank c a = crank c b"
    "0 < ix_compare_col a b (cm_type c) (cm_len c) \<longleftrightarrow> crank c b < crank c a"
  using col_rank_cmp[of "cm_type c" "cm_len c" a b] assms
  by (auto simp: col_fine_def not_less order_le_less) 

lemma raw_data_fine: "value_fine c v \<Longrightarrow> raw_data v c = Inr (raw_of v)"
  by (auto simp: value_fine_def col_fine_def raw_data_def)

lemma compare_bound_fine:
  "value_fine c v \<Longrightarrow> value_fine c v' \<Longrightarrow>
    compare_bound_value v v' c = Inr (ix_compare_col (raw_of v) (raw_of v') (cm_type c) (cm_len c))"
  by (simp add: compare_bound_value_def raw_data_fine compare_raw_data_col)

section \<open>Bounds hold for the records that satisfy the conditions\<close>

definition in_bound :: "ColMeta \<Rightarrow> bytes \<Rightarrow> ColumnBound \<Rightarrow> bool" where
  "in_bound c f b \<longleftrightarrow> (\<forall>v. bd_eq b = Some v \<longrightarrow> crank c f = crank c (raw_of v)) \<and>
     (\<forall>v. bd_lower b = Some v \<longrightarrow> crank c (raw_of v) < crank c f \<or> lower_inclusive b \<and> crank c (raw_of v) = crank c f) \<and>
     (\<forall>v. bd_upper b = Some v \<longrightarrow> crank c f < crank c (raw_of v) \<or> upper_inclusive b \<and> crank c f = crank c (raw_of v))"

definition bound_fine :: "ColMeta \<Rightarrow> ColumnBound \<Rightarrow> bool" where
  "bound_fine c b \<longleftrightarrow> (\<forall>v. bd_eq b = Some v \<or> bd_lower b = Some v \<or> bd_upper b = Some v \<longrightarrow> value_fine c v)"

lemma add_bound_ok:
  assumes b: "bound_fine c b" and v: "value_fine c (rhs_val cond)"
  shows "\<exists>b'. add_bound c cond b = Inr b' \<and> bound_fine c b' \<and>
    (\<forall>f. col_fine c f \<longrightarrow> in_bound c f b \<longrightarrow>
       evaluate_compare_result (ix_compare_col f (raw_of (rhs_val cond)) (cm_type c) (cm_len c)) (cond_op cond) \<longrightarrow> in_bound c f b')"
proof -
  have r: "col_fine c (raw_of (rhs_val cond))" using v by (simp add: value_fine_def)
  note cmp = compare_fine[OF _ r]
  have lo: "\<exists>b'. raise_lower c (rhs_val cond) i b = Inr b' \<and> bound_fine c b' \<and>
      (\<forall>f. in_bound c f b \<longrightarrow> crank c (raw_of (rhs_val cond)) < crank c f \<or> i \<and> crank c (raw_of (rhs_val cond)) = crank c f \<longrightarrow> in_bound c f b')" for i
    using b v by (cases "bd_lower b") (auto simp: raise_lower_def bound_fine_def in_bound_def compare_bound_fine)
  have hi: "\<exists>b'. reduce_upper c (rhs_val cond) i b = Inr b' \<and> bound_fine c b' \<and>
      (\<forall>f. in_bound c f b \<longrightarrow> crank c f < crank c (raw_of (rhs_val cond)) \<or> i \<and> crank c f = crank c (raw_of (rhs_val cond)) \<longrightarrow> in_bound c f b')" for i
    using b v by (cases "bd_upper b") (auto simp: reduce_upper_def bound_fine_def in_bound_def compare_bound_fine)
  show ?thesis
  proof (cases "cond_op cond")
    case OP_EQ
    then show ?thesis using v cmp(2) by (auto simp: add_bound_def Let_def bound_fine_def in_bound_def)
  next
    case OP_NE
    then show ?thesis using b by (simp add: add_bound_def Let_def)
  next
    case OP_LT
    then show ?thesis using hi[of False] cmp(1) by (simp add: add_bound_def Let_def) blast
  next
    case OP_GT
    then show ?thesis using lo[of False] cmp(3) by (simp add: add_bound_def Let_def) blast
  next
    case OP_LE
    have "ix_compare_col f (raw_of (rhs_val cond)) (cm_type c) (cm_len c) \<le> 0 \<longleftrightarrow>
        crank c f < crank c (raw_of (rhs_val cond)) \<or> crank c f = crank c (raw_of (rhs_val cond))" if "col_fine c f" for f
      using cmp(1,2)[OF that] by linarith
    then show ?thesis using hi[of True] OP_LE by (simp add: add_bound_def Let_def) blast
  next
    case OP_GE
    have "0 \<le> ix_compare_col f (raw_of (rhs_val cond)) (cm_type c) (cm_len c) \<longleftrightarrow>
        crank c (raw_of (rhs_val cond)) < crank c f \<or> crank c (raw_of (rhs_val cond)) = crank c f" if "col_fine c f" for f
      using cmp(2,3)[OF that] by (auto simp: order_le_less)
    then show ?thesis using lo[of True] OP_GE by (simp add: add_bound_def Let_def) blast
  qed
qed

text \<open>\<open>f c\<close> is the field of column \<open>c\<close> in a record. A condition on an index column has a value of that column.\<close>

definition on_col :: "string \<Rightarrow> Condition \<Rightarrow> ColMeta \<Rightarrow> bool" where
  "on_col tab_name cond c \<longleftrightarrow> is_rhs_val cond \<and> tc_tab_name (lhs_col cond) = tab_name \<and> tc_col_name (lhs_col cond) = cm_name c"

definition cond_fine :: "string \<Rightarrow> ColMeta list \<Rightarrow> Condition \<Rightarrow> bool" where
  "cond_fine tab_name cs cond \<longleftrightarrow> (\<forall>c \<in> set cs. on_col tab_name cond c \<longrightarrow> value_fine c (rhs_val cond))"

definition fields_hold :: "string \<Rightarrow> ColMeta list \<Rightarrow> (ColMeta \<Rightarrow> bytes) \<Rightarrow> Condition \<Rightarrow> bool" where
  "fields_hold tab_name cs f cond \<longleftrightarrow> (\<forall>c \<in> set cs. on_col tab_name cond c \<longrightarrow>
     evaluate_compare_result (ix_compare_col (f c) (raw_of (rhs_val cond)) (cm_type c) (cm_len c)) (cond_op cond))"

definition bounds_fine :: "(ColMeta \<times> ColumnBound) list \<Rightarrow> bool" where
  "bounds_fine bs \<longleftrightarrow> (\<forall>(c, b) \<in> set bs. bound_fine c b)"

definition in_bounds :: "(ColMeta \<Rightarrow> bytes) \<Rightarrow> (ColMeta \<times> ColumnBound) list \<Rightarrow> bool" where
  "in_bounds f bs \<longleftrightarrow> (\<forall>(c, b) \<in> set bs. in_bound c (f c) b)"

lemma bounds_simps [simp]:
  "bounds_fine []" "bounds_fine ((c, b) # bs) \<longleftrightarrow> bound_fine c b \<and> bounds_fine bs"
  "in_bounds f []" "in_bounds f ((c, b) # bs) \<longleftrightarrow> in_bound c (f c) b \<and> in_bounds f bs"
  by (auto simp: bounds_fine_def in_bounds_def)

lemma bound_column_ok:
  assumes "bounds_fine bs" "cond_fine tab_name (map fst bs) cond" "is_rhs_val cond"
  shows "\<exists>bs'. bound_column tab_name cond bs = Inr bs' \<and> map fst bs' = map fst bs \<and> bounds_fine bs' \<and>
    (\<forall>f. (\<forall>c \<in> set (map fst bs). col_fine c (f c)) \<longrightarrow> fields_hold tab_name (map fst bs) f cond \<longrightarrow> in_bounds f bs \<longrightarrow> in_bounds f bs')"
  using assms
proof (induction bs)
  case (Cons cb bs)
  obtain c b where cb: "cb = (c, b)" by (cases cb)
  show ?case
  proof (cases "on_col tab_name cond c")
    case True
    have b: "bound_fine c b" "value_fine c (rhs_val cond)" using Cons.prems True cb by (simp_all add: cond_fine_def)
    obtain b' where "add_bound c cond b = Inr b'" "bound_fine c b'"
      "\<forall>f. col_fine c f \<longrightarrow> in_bound c f b \<longrightarrow>
         evaluate_compare_result (ix_compare_col f (raw_of (rhs_val cond)) (cm_type c) (cm_len c)) (cond_op cond) \<longrightarrow> in_bound c f b'"
      using add_bound_ok[OF b] by blast
    then show ?thesis using cb True Cons.prems by (auto simp: on_col_def fields_hold_def)
  next
    case False
    obtain bs' where "bound_column tab_name cond bs = Inr bs'" "map fst bs' = map fst bs" "bounds_fine bs'"
      "\<forall>f. (\<forall>c \<in> set (map fst bs). col_fine c (f c)) \<longrightarrow> fields_hold tab_name (map fst bs) f cond \<longrightarrow> in_bounds f bs \<longrightarrow> in_bounds f bs'"
      using Cons.IH Cons.prems cb by (auto simp: cond_fine_def)
    then show ?thesis using cb False Cons.prems by (auto simp: on_col_def fields_hold_def)
  qed
qed simp

lemma collect_bounds_ok:
  assumes "bounds_fine bs" "\<forall>cond \<in> set conds. cond_fine tab_name (map fst bs) cond"
  shows "\<exists>bs'. collect_bounds tab_name conds bs = Inr bs' \<and> map fst bs' = map fst bs \<and> bounds_fine bs' \<and>
    (\<forall>f. (\<forall>c \<in> set (map fst bs). col_fine c (f c)) \<longrightarrow> (\<forall>cond \<in> set conds. fields_hold tab_name (map fst bs) f cond) \<longrightarrow>
      in_bounds f bs \<longrightarrow> in_bounds f bs')"
  using assms
proof (induction conds arbitrary: bs)
  case (Cons cond conds)
  show ?case
  proof (cases "\<not> is_rhs_val cond \<or> cond_op cond = OP_NE")
    case True
    then show ?thesis using Cons.IH[OF Cons.prems(1)] Cons.prems(2) by auto
  next
    case False
    obtain b1 where b1: "bound_column tab_name cond bs = Inr b1" "map fst b1 = map fst bs" "bounds_fine b1"
      "\<forall>f. (\<forall>c \<in> set (map fst bs). col_fine c (f c)) \<longrightarrow> fields_hold tab_name (map fst bs) f cond \<longrightarrow> in_bounds f bs \<longrightarrow> in_bounds f b1"
      using bound_column_ok[OF Cons.prems(1), of tab_name cond] Cons.prems(2) False by auto
    obtain b2 where b2: "collect_bounds tab_name conds b1 = Inr b2" "map fst b2 = map fst bs" "bounds_fine b2"
      "\<forall>f. (\<forall>c \<in> set (map fst bs). col_fine c (f c)) \<longrightarrow> (\<forall>cond \<in> set conds. fields_hold tab_name (map fst bs) f cond) \<longrightarrow>
        in_bounds f b1 \<longrightarrow> in_bounds f b2"
      using Cons.IH[OF b1(3)] Cons.prems(2) b1(2) by auto
    show ?thesis using False b1 b2 by auto
  qed
qed simp

section \<open>The keys of the range\<close>

text \<open>What the loops leave in the two buffers.\<close>

definition bounded :: "ColumnBound \<Rightarrow> bool" where
  "bounded b \<longleftrightarrow> bd_lower b \<noteq> None \<or> bd_upper b \<noteq> None"

fun range_keys :: "(ColMeta \<times> ColumnBound) list \<Rightarrow> bytes \<times> bytes" where
  "range_keys [] = ([], [])"
| "range_keys ((c, b) # bs) =
     (case bd_eq b of
        Some v \<Rightarrow> (raw_of v @ fst (range_keys bs), raw_of v @ snd (range_keys bs))
      | None \<Rightarrow>
          if bounded b
          then
            ((case bd_lower b of Some v \<Rightarrow> raw_of v | None \<Rightarrow> min_value c) @
               concat (map (if bd_lower b \<noteq> None \<and> \<not> lower_inclusive b then max_value else min_value) (map fst bs)),
             (case bd_upper b of Some v \<Rightarrow> raw_of v | None \<Rightarrow> max_value c) @
               concat (map (if bd_upper b \<noteq> None \<and> \<not> upper_inclusive b then min_value else max_value) (map fst bs)))
          else (concat (map min_value (c # map fst bs)), concat (map max_value (c # map fst bs))))"

fun range_incl :: "(ColMeta \<times> ColumnBound) list \<Rightarrow> bool \<times> bool" where
  "range_incl [] = (True, True)"
| "range_incl ((c, b) # bs) =
     (if bd_eq b \<noteq> None then range_incl bs
      else (bd_lower b \<noteq> None \<longrightarrow> lower_inclusive b, bd_upper b \<noteq> None \<longrightarrow> upper_inclusive b))"

definition key_len :: "ColMeta list \<Rightarrow> nat" where
  "key_len cs = sum_list (map (nat \<circ> cm_len) cs)"

definition has_values :: "ColMeta \<Rightarrow> bool" where
  "has_values c \<longleftrightarrow> (\<exists>bs. col_fine c bs)"

lemma key_len_simps [simp]: "key_len [] = 0" "key_len (c # cs) = nat (cm_len c) + key_len cs"
  by (simp_all add: key_len_def)

lemma fill_rest_ok:
  assumes "used_prefix r" "\<forall>c \<in> set cs. has_values c" "length (lower_key r) = sr_offset r + key_len cs" "length (upper_key r) = sr_offset r + key_len cs"
  shows "lower_key (fill_rest cs r) = take (sr_offset r) (lower_key r) @ concat (map (if range_consumed r \<and> \<not> lower_incl r then max_value else min_value) cs)"
    "upper_key (fill_rest cs r) = take (sr_offset r) (upper_key r) @ concat (map (if range_consumed r \<and> \<not> upper_incl r then min_value else max_value) cs)"
    "lower_incl (fill_rest cs r) = lower_incl r" "upper_incl (fill_rest cs r) = upper_incl r" "used_prefix (fill_rest cs r)"
proof -
  have "lower_key (fill_rest cs r) = take (sr_offset r) (lower_key r) @ concat (map (if range_consumed r \<and> \<not> lower_incl r then max_value else min_value) cs) \<and>
    upper_key (fill_rest cs r) = take (sr_offset r) (upper_key r) @ concat (map (if range_consumed r \<and> \<not> upper_incl r then min_value else max_value) cs) \<and>
    lower_incl (fill_rest cs r) = lower_incl r \<and> upper_incl (fill_rest cs r) = upper_incl r \<and> used_prefix (fill_rest cs r)"
    using assms
  proof (induction cs arbitrary: r)
    case (Cons c cs)
    have l: "length (min_value c) = nat (cm_len c)" "length (max_value c) = nat (cm_len c)"
      using Cons.prems(2) extreme_lengths by (auto simp: has_values_def)
    let ?r = "skip_col c (put_slots (if range_consumed r \<and> \<not> lower_incl r then max_value c else min_value c)
        (if range_consumed r \<and> \<not> upper_incl r then min_value c else max_value c) r)"
    have "used_prefix ?r" "length (lower_key ?r) = sr_offset ?r + key_len cs" "length (upper_key ?r) = sr_offset ?r + key_len cs"
      using Cons.prems l by (auto simp: skip_col_def put_slots_def mem_put_def)
    moreover have "take (sr_offset ?r) (lower_key ?r) = take (sr_offset r) (lower_key r) @ (if range_consumed r \<and> \<not> lower_incl r then max_value c else min_value c)"
      "take (sr_offset ?r) (upper_key ?r) = take (sr_offset r) (upper_key r) @ (if range_consumed r \<and> \<not> upper_incl r then min_value c else max_value c)"
      using Cons.prems(3,4) l by (auto simp: skip_col_def put_slots_def mem_put_def)
    moreover have "range_consumed ?r = range_consumed r" "lower_incl ?r = lower_incl r" "upper_incl ?r = upper_incl r"
      by (simp_all add: skip_col_def put_slots_def)
    moreover have "fill_rest (c # cs) r = fill_rest cs ?r" using Cons.prems(1) by simp
    ultimately show ?case using Cons.IH[of ?r] Cons.prems(2) by simp
  qed simp
  then show "lower_key (fill_rest cs r) = take (sr_offset r) (lower_key r) @ concat (map (if range_consumed r \<and> \<not> lower_incl r then max_value else min_value) cs)"
    "upper_key (fill_rest cs r) = take (sr_offset r) (upper_key r) @ concat (map (if range_consumed r \<and> \<not> upper_incl r then min_value else max_value) cs)"
    "lower_incl (fill_rest cs r) = lower_incl r" "upper_incl (fill_rest cs r) = upper_incl r" "used_prefix (fill_rest cs r)" by blast+
qed

lemma fill_rest_used: "used_prefix (fill_rest cs r) = used_prefix r"
  by (induction cs arbitrary: r) (simp_all add: skip_col_def put_slots_def)

definition prefix_used :: "(ColMeta \<times> ColumnBound) list \<Rightarrow> bool" where
  "prefix_used bs \<longleftrightarrow> (case bs of [] \<Rightarrow> False | (c, b) # _ \<Rightarrow> bd_eq b \<noteq> None \<or> bounded b)"

lemma prefix_loop_unused: "\<not> prefix_used bs \<Longrightarrow> prefix_loop bs r = Inr (r, map fst bs)"
proof (cases bs)
  case (Cons cb bs')
  moreover obtain c b where "cb = (c, b)" by (cases cb)
  moreover assume "\<not> prefix_used bs"
  ultimately have "bd_eq b = None" "bd_lower b = None" "bd_upper b = None" by (simp_all add: prefix_used_def bounded_def)
  then show ?thesis using Cons \<open>cb = (c, b)\<close> by simp
qed simp

lemma prefix_loop_ok:
  assumes "bounds_fine bs" "\<forall>c \<in> set (map fst bs). has_values c" "used_prefix r \<or> prefix_used bs" "\<not> range_consumed r" "lower_incl r" "upper_incl r"
    "length (lower_key r) = sr_offset r + key_len (map fst bs)" "length (upper_key r) = sr_offset r + key_len (map fst bs)"
  shows "\<exists>r' rest q. prefix_loop bs r = Inr (r', rest) \<and> fill_rest rest (set_inclusive r') = q \<and>
    lower_key q = take (sr_offset r) (lower_key r) @ fst (range_keys bs) \<and> upper_key q = take (sr_offset r) (upper_key r) @ snd (range_keys bs) \<and>
    lower_incl q = fst (range_incl bs) \<and> upper_incl q = snd (range_incl bs) \<and> used_prefix q"
  using assms
proof (induction bs arbitrary: r)
  case Nil
  then show ?case by (simp add: set_inclusive_def prefix_used_def)
next
  case (Cons cb bs)
  obtain c b where cb: "cb = (c, b)" by (cases cb)
  have cv: "has_values c" using Cons.prems(2) cb by simp
  have l: "length (min_value c) = nat (cm_len c)" "length (max_value c) = nat (cm_len c)"
    using cv extreme_lengths by (auto simp: has_values_def)
  have fine: "value_fine c v" if "bd_eq b = Some v \<or> bd_lower b = Some v \<or> bd_upper b = Some v" for v
    using Cons.prems(1) that cb by (auto simp: bound_fine_def)
  have rl: "length (raw_of v) = nat (cm_len c)" if "value_fine c v" for v using that by (simp add: value_fine_def col_fine_def)
  consider (eq) v where "bd_eq b = Some v" | (rng) "bd_eq b = None" "bounded b" | (none) "bd_eq b = None" "\<not> bounded b" by blast
  then show ?case
  proof cases
    case eq
    let ?r = "skip_col c (put_slots (raw_of v) (raw_of v) (r\<lparr>used_prefix := True\<rparr>))"
    have len: "length (raw_of v) = nat (cm_len c)" using rl fine eq by blast
    have t: "take (sr_offset ?r) (lower_key ?r) = take (sr_offset r) (lower_key r) @ raw_of v"
      "take (sr_offset ?r) (upper_key ?r) = take (sr_offset r) (upper_key r) @ raw_of v"
      "length (lower_key ?r) = sr_offset ?r + key_len (map fst bs)" "length (upper_key ?r) = sr_offset ?r + key_len (map fst bs)"
      using Cons.prems(7,8) len cb by (auto simp: skip_col_def put_slots_def mem_put_def)
    have "\<exists>r' rest q. prefix_loop bs ?r = Inr (r', rest) \<and> fill_rest rest (set_inclusive r') = q \<and>
      lower_key q = take (sr_offset ?r) (lower_key ?r) @ fst (range_keys bs) \<and> upper_key q = take (sr_offset ?r) (upper_key ?r) @ snd (range_keys bs) \<and>
      lower_incl q = fst (range_incl bs) \<and> upper_incl q = snd (range_incl bs) \<and> used_prefix q"
      by (rule Cons.IH) (use Cons.prems t cb in \<open>simp_all add: skip_col_def put_slots_def\<close>)
    moreover have "prefix_loop (cb # bs) r = prefix_loop bs ?r" using eq cb raw_data_fine[of c v] fine by simp
    ultimately show ?thesis using eq cb t(1,2) by simp
  next
    case rng
    define lo where "lo = (case bd_lower b of Some v \<Rightarrow> raw_of v | None \<Rightarrow> min_value c)"
    define hi where "hi = (case bd_upper b of Some v \<Rightarrow> raw_of v | None \<Rightarrow> max_value c)"
    let ?r = "skip_col c (put_slots lo hi (r\<lparr>lower_incl := (bd_lower b \<noteq> None \<longrightarrow> lower_inclusive b), upper_incl := (bd_upper b \<noteq> None \<longrightarrow> upper_inclusive b),
        used_prefix := True, range_consumed := True\<rparr>))"
    have bd: "bound_data (bd_lower b) c (min_value c) = Inr lo" "bound_data (bd_upper b) c (max_value c) = Inr hi"
      "length lo = nat (cm_len c)" "length hi = nat (cm_len c)"
      using fine rl l raw_data_fine by (auto simp: bound_data_def lo_def hi_def split: option.splits)
    have run: "prefix_loop (cb # bs) r = Inr (?r, map fst bs)" using rng bd(1,2) cb by (simp add: bounded_def)
    have t: "take (sr_offset ?r) (lower_key ?r) = take (sr_offset r) (lower_key r) @ lo"
      "take (sr_offset ?r) (upper_key ?r) = take (sr_offset r) (upper_key r) @ hi"
      "length (lower_key ?r) = sr_offset ?r + key_len (map fst bs)" "length (upper_key ?r) = sr_offset ?r + key_len (map fst bs)"
      using Cons.prems(7,8) bd(3,4) cb by (auto simp: skip_col_def put_slots_def mem_put_def)
    have s: "set_inclusive ?r = ?r" "used_prefix ?r" "range_consumed ?r" "lower_incl ?r = (bd_lower b \<noteq> None \<longrightarrow> lower_inclusive b)"
      "upper_incl ?r = (bd_upper b \<noteq> None \<longrightarrow> upper_inclusive b)"
      by (simp_all add: set_inclusive_def skip_col_def put_slots_def)
    have v: "\<forall>c \<in> set (map fst bs). has_values c" using Cons.prems(2) by simp
    note fr = fill_rest_ok[OF s(2) v t(3,4)]
    show ?thesis unfolding run s(1)
      by (rule exI, rule exI, rule exI, rule conjI[OF refl], subst s(1), rule conjI[OF refl])
        (use fr s t rng cb in \<open>auto simp: lo_def hi_def\<close>)
  next
    case none
    have u: "used_prefix r" using Cons.prems(3) none cb by (simp add: prefix_used_def)
    have s: "set_inclusive r = r" using Cons.prems(5,6) by (simp add: set_inclusive_def)
    have run: "prefix_loop (cb # bs) r = Inr (r, map fst (cb # bs))" using none cb by (simp add: bounded_def)
    note fr = fill_rest_ok[OF u Cons.prems(2,7,8)]
    show ?thesis
      by (rule exI[of _ r], rule exI[of _ "map fst (cb # bs)"], rule exI[of _ "fill_rest (map fst (cb # bs)) r"], unfold s, intro conjI)
        (use fr run Cons.prems(4-6) none cb in \<open>simp_all add: bounded_def\<close>)
  qed
qed

section \<open>The range contains the keys of matching records\<close>

lemma append_le_iff:
  fixes a b c d :: "int list"
  assumes "length a = length b"
  shows "a @ c \<le> b @ d \<longleftrightarrow> a < b \<or> a = b \<and> c \<le> d"
  using append_less_iff[OF assms, of c d] assms by (auto simp: order_le_less)

abbreviation types_of :: "ColMeta list \<Rightarrow> ColType list" where
  "types_of cs \<equiv> map cm_type cs"

abbreviation lens_of :: "ColMeta list \<Rightarrow> int list" where
  "lens_of cs \<equiv> map cm_len cs"

lemma fine_append:
  assumes "col_fine c x"
  shows "col_wf (cm_type c) (cm_len c) (x @ y)" "crank c (x @ y) = crank c x" "drop (nat (cm_len c)) (x @ y) = y" "nat (cm_len c) \<le> length (x @ y)"
  using assms by (cases "cm_type c"; simp add: col_fine_def)+

lemma length_crank: "col_fine c x \<Longrightarrow> col_fine c y \<Longrightarrow> length (crank c x) = length (crank c y)"
  using col_rank_cmp(3)[of "cm_type c" "cm_len c" x y] by (simp add: col_fine_def)

lemma key_wf_concat:
  "\<forall>c \<in> set cs. col_fine c (g c) \<Longrightarrow> key_wf (types_of cs) (lens_of cs) (concat (map g cs))"
  by (induction cs) (simp_all add: fine_append del: drop_append length_append)

lemma key_rank_concat_le:
  assumes "\<forall>c \<in> set cs. col_fine c (g c) \<and> col_fine c (h c) \<and> crank c (g c) \<le> crank c (h c)"
  shows "key_rank (types_of cs) (lens_of cs) (concat (map g cs)) \<le> key_rank (types_of cs) (lens_of cs) (concat (map h cs))"
  using assms
proof (induction cs)
  case (Cons c cs)
  then show ?case using length_crank[of c "g c" "h c"] by (auto simp: fine_append append_le_iff simp del: drop_append)
qed simp

lemma has_values_extremes: "has_values c \<Longrightarrow> col_fine c (min_value c) \<and> col_fine c (max_value c)"
  using min_max_fine(1,2) by (auto simp: has_values_def)

text \<open>The parts of the two keys at a column with a range.\<close>

definition low_end :: "ColMeta \<Rightarrow> ColumnBound \<Rightarrow> bytes" where
  "low_end c b = (case bd_lower b of Some v \<Rightarrow> raw_of v | None \<Rightarrow> min_value c)"

definition high_end :: "ColMeta \<Rightarrow> ColumnBound \<Rightarrow> bytes" where
  "high_end c b = (case bd_upper b of Some v \<Rightarrow> raw_of v | None \<Rightarrow> max_value c)"

lemma ends_fine: "bound_fine c b \<Longrightarrow> has_values c \<Longrightarrow> col_fine c (low_end c b) \<and> col_fine c (high_end c b)"
  using has_values_extremes[of c] by (auto simp: low_end_def high_end_def bound_fine_def value_fine_def split: option.splits)

lemma ends_cover:
  assumes "in_bound c f b" "col_fine c f"
  shows "crank c (low_end c b) < crank c f \<or> (bd_lower b \<noteq> None \<longrightarrow> lower_inclusive b) \<and> crank c (low_end c b) = crank c f"
    "crank c f < crank c (high_end c b) \<or> (bd_upper b \<noteq> None \<longrightarrow> upper_inclusive b) \<and> crank c f = crank c (high_end c b)"
  using assms min_max_fine(3,4)[OF assms(2)] by (auto simp: in_bound_def low_end_def high_end_def order_le_less split: option.splits)

lemma range_keys_simps:
  "bd_eq b = Some v \<Longrightarrow> range_keys ((c, b) # bs) = (raw_of v @ fst (range_keys bs), raw_of v @ snd (range_keys bs))"
  "bd_eq b = None \<Longrightarrow> range_keys ((c, b) # bs) =
     (low_end c b @ concat (map (if bd_lower b \<noteq> None \<and> \<not> lower_inclusive b then max_value else min_value) (map fst bs)),
      high_end c b @ concat (map (if bd_upper b \<noteq> None \<and> \<not> upper_inclusive b then min_value else max_value) (map fst bs)))"
  by (auto simp: bounded_def low_end_def high_end_def split: option.splits)

declare range_keys.simps(2) [simp del]

lemma range_keys_wf:
  assumes "bounds_fine bs" "\<forall>c \<in> set (map fst bs). has_values c"
  shows "key_wf (types_of (map fst bs)) (lens_of (map fst bs)) (fst (range_keys bs)) \<and>
    key_wf (types_of (map fst bs)) (lens_of (map fst bs)) (snd (range_keys bs))"
  using assms
proof (induction bs)
  case (Cons cb bs)
  obtain c b where cb: "cb = (c, b)" by (cases cb)
  have c: "has_values c" "bound_fine c b" using Cons.prems cb by simp_all
  have fill: "key_wf (types_of (map fst bs)) (lens_of (map fst bs)) (concat (map g (map fst bs)))" if "g = min_value \<or> g = max_value" for g
    by (rule key_wf_concat) (use that Cons.prems(2) has_values_extremes in auto)
  show ?case
  proof (cases "bd_eq b")
    case None
    then show ?thesis using cb ends_fine[OF c(2,1)] fill
      by (simp add: range_keys_simps fine_append del: drop_append length_append map_map)
  next
    case (Some v)
    then have "col_fine c (raw_of v)" using c(2) by (simp add: bound_fine_def value_fine_def)
    then show ?thesis using Cons.IH Cons.prems cb Some by (simp add: range_keys_simps fine_append del: drop_append length_append)
  qed
qed simp

lemma range_keys_cover:
  assumes "bounds_fine bs" "in_bounds f bs" "\<forall>c \<in> set (map fst bs). col_fine c (f c)"
  defines "rk \<equiv> key_rank (types_of (map fst bs)) (lens_of (map fst bs))" and "k \<equiv> concat (map f (map fst bs))"
  shows "(if fst (range_incl bs) then rk (fst (range_keys bs)) \<le> rk k else rk (fst (range_keys bs)) < rk k) \<and>
    (if snd (range_incl bs) then rk k \<le> rk (snd (range_keys bs)) else rk k < rk (snd (range_keys bs)))"
  using assms(1-3) unfolding rk_def k_def
proof (induction bs)
  case (Cons cb bs)
  obtain c b where cb: "cb = (c, b)" by (cases cb)
  have f: "col_fine c (f c)" "bound_fine c b" "in_bound c (f c) b" using Cons.prems cb by simp_all
  have fill: "key_rank (types_of (map fst bs)) (lens_of (map fst bs)) (concat (map min_value (map fst bs))) \<le>
        key_rank (types_of (map fst bs)) (lens_of (map fst bs)) (concat (map f (map fst bs)))"
      "key_rank (types_of (map fst bs)) (lens_of (map fst bs)) (concat (map f (map fst bs))) \<le>
        key_rank (types_of (map fst bs)) (lens_of (map fst bs)) (concat (map max_value (map fst bs)))"
    by (rule key_rank_concat_le; use Cons.prems(3) min_max_fine in auto)+
  show ?case
  proof (cases "bd_eq b")
    case None
    have e: "col_fine c (low_end c b)" "col_fine c (high_end c b)" using ends_fine f by (auto simp: has_values_def)
    note ln = length_crank[OF e(1) f(1)] length_crank[OF f(1) e(2)]
    show ?thesis using cb None ends_cover[OF f(3,1)] e f(1) fill ln
      by (auto simp: range_keys_simps fine_append append_le_iff append_less_iff simp del: drop_append map_map)
  next
    case (Some v)
    then have v: "col_fine c (raw_of v)" "crank c (f c) = crank c (raw_of v)" using f by (simp_all add: bound_fine_def value_fine_def in_bound_def)
    then show ?thesis using Cons.IH Cons.prems cb Some f(1)
      by (simp add: range_keys_simps fine_append append_le_iff append_less_iff del: drop_append map_map)
  qed
qed simp

section \<open>The range of positions\<close>

definition index_cols_ok :: "IndexMeta \<Rightarrow> bool" where
  "index_cols_ok index \<longleftrightarrow> im_col_num index = int (length (im_cols index)) \<and> im_col_tot_len index = sum_list (lens_of (im_cols index)) \<and>
     (\<forall>c \<in> set (im_cols index). has_values c)"

definition fields_match :: "string \<Rightarrow> IndexMeta \<Rightarrow> Condition list \<Rightarrow> (ColMeta \<Rightarrow> bytes) \<Rightarrow> bool" where
  "fields_match tab_name index conds f \<longleftrightarrow> (\<forall>c \<in> set (im_cols index). col_fine c (f c)) \<and>
     (\<forall>cond \<in> set conds. fields_hold tab_name (im_cols index) f cond)"

definition fields_key :: "IndexMeta \<Rightarrow> (ColMeta \<Rightarrow> bytes) \<Rightarrow> bytes" where
  "fields_key index f = concat (map f (im_cols index))"

abbreviation irank :: "IndexMeta \<Rightarrow> bytes \<Rightarrow> int list" where
  "irank index \<equiv> key_rank (types_of (im_cols index)) (lens_of (im_cols index))"

abbreviation iwf :: "IndexMeta \<Rightarrow> bytes \<Rightarrow> bool" where
  "iwf index \<equiv> key_wf (types_of (im_cols index)) (lens_of (im_cols index))"

lemma has_values_len: "has_values c \<Longrightarrow> 0 \<le> cm_len c"
  by (cases "cm_type c") (auto simp: has_values_def col_fine_def)

lemma key_len_sum: "\<forall>c \<in> set cs. has_values c \<Longrightarrow> int (key_len cs) = sum_list (lens_of cs)"
proof (induction cs)
  case (Cons c cs)
  then show ?case using has_values_len[of c] by simp
qed simp

lemma key_range_ok:
  assumes i: "index_cols_ok index" and c: "\<forall>cond \<in> set conds. cond_fine tab_name (im_cols index) cond"
  shows "\<exists>r. key_range tab_name index conds = Inr r \<and> (used_prefix r \<longrightarrow> iwf index (lower_key r) \<and> iwf index (upper_key r) \<and>
    (\<forall>f. fields_match tab_name index conds f \<longrightarrow>
      (if lower_incl r then irank index (lower_key r) \<le> irank index (fields_key index f) else irank index (lower_key r) < irank index (fields_key index f)) \<and>
      (if upper_incl r then irank index (fields_key index f) \<le> irank index (upper_key r) else irank index (fields_key index f) < irank index (upper_key r))))"
proof -
  let ?cs = "im_cols index" and ?r = "empty_range (nat (im_col_tot_len index))"
  have cols: "map fst (index_columns index) = ?cs" using i by (simp add: index_columns_def index_cols_ok_def comp_def)
  have b0: "bounds_fine (index_columns index)" "in_bounds f (index_columns index)" for f
    by (auto simp: index_columns_def no_bound_def bounds_fine_def bound_fine_def in_bounds_def in_bound_def)
  obtain bs where bs: "collect_bounds tab_name conds (index_columns index) = Inr bs" "map fst bs = ?cs" "bounds_fine bs"
    "\<forall>f. (\<forall>c \<in> set ?cs. col_fine c (f c)) \<longrightarrow> (\<forall>cond \<in> set conds. fields_hold tab_name ?cs f cond) \<longrightarrow> in_bounds f bs"
    using collect_bounds_ok[OF b0(1), of conds tab_name] c cols b0(2) by auto
  have v: "\<forall>c \<in> set (map fst bs). has_values c" using i bs(2) by (simp add: index_cols_ok_def)
  have len: "nat (im_col_tot_len index) = key_len (map fst bs)" using key_len_sum[OF v] i bs(2) by (simp add: index_cols_ok_def)
  show ?thesis
  proof (cases "prefix_used bs")
    case True
    have e: "used_prefix ?r \<or> prefix_used bs" "\<not> range_consumed ?r" "lower_incl ?r" "upper_incl ?r"
      "length (lower_key ?r) = sr_offset ?r + key_len (map fst bs)" "length (upper_key ?r) = sr_offset ?r + key_len (map fst bs)"
      using True len by (simp_all add: empty_range_def)
    from prefix_loop_ok[OF bs(3) v e] obtain r' rest q where
      q: "prefix_loop bs ?r = Inr (r', rest)" "fill_rest rest (set_inclusive r') = q" "lower_key q = fst (range_keys bs)" "upper_key q = snd (range_keys bs)"
      "lower_incl q = fst (range_incl bs)" "upper_incl q = snd (range_incl bs)"
      by (auto simp: empty_range_def)
    have "key_range tab_name index conds = Inr q" using bs(1) q(1,2) by (simp add: key_range_def)
    moreover have "(if fst (range_incl bs) then irank index (fst (range_keys bs)) \<le> irank index (fields_key index f)
          else irank index (fst (range_keys bs)) < irank index (fields_key index f)) \<and>
        (if snd (range_incl bs) then irank index (fields_key index f) \<le> irank index (snd (range_keys bs))
          else irank index (fields_key index f) < irank index (snd (range_keys bs)))" if "fields_match tab_name index conds f" for f
      using range_keys_cover[OF bs(3), of f, unfolded bs(2)] bs(4) that unfolding fields_match_def fields_key_def by blast
    moreover have "iwf index (lower_key q)" "iwf index (upper_key q)" using range_keys_wf[OF bs(3) v] bs(2) q(3,4) by simp_all
    ultimately show ?thesis unfolding q(3-6)[symmetric] by blast
  next
    case False
    then have "key_range tab_name index conds = Inr (fill_rest (map fst bs) (set_inclusive ?r))"
      using bs(1) by (simp add: key_range_def prefix_loop_unused)
    moreover have "\<not> used_prefix (fill_rest (map fst bs) (set_inclusive ?r))"
      by (simp add: fill_rest_used set_inclusive_def empty_range_def)
    ultimately show ?thesis by simp
  qed
qed

lemma compare_composite: "compare_composite_key cs a b = Inr (ix_compare (types_of cs) (lens_of cs) a b)"
  by (induction cs arbitrary: a b) (simp_all add: compare_raw_data_col Let_def)

lemma build_scan_range_ok:
  assumes i: "index_cols_ok index" and c: "\<forall>cond \<in> set conds. cond_fine tab_name (im_cols index) cond"
    and h: "hdr_for (types_of (im_cols index)) (lens_of (im_cols index)) (ix_hdr s)"
    and t: "tree_inv (irank index) (iwf index) s ps Us" and f: "length Us \<le> fuel"
  shows "\<exists>kl ku. build_scan_range fuel tab_name index conds s = (Inr (iid_at (ix_nodes s) ps kl, iid_at (ix_nodes s) ps ku), s) \<and>
    kl \<le> ku \<and> ku \<le> length (flat (ix_nodes s) ps) \<and>
    (\<forall>g j. fields_match tab_name index conds g \<longrightarrow> j < length (flat (ix_nodes s) ps) \<longrightarrow>
      irank index (fst (flat (ix_nodes s) ps ! j)) = irank index (fields_key index g) \<longrightarrow> kl \<le> j \<and> j < ku)"
proof -
  let ?es = "flat (ix_nodes s) ps" and ?pos = "iid_at (ix_nodes s) ps"
  note lb = ko.leaf_begin_ok[OF t h] and le = ko.leaf_end_ok[OF t] and o = tree_invD(6)[OF t]
  obtain r where r: "key_range tab_name index conds = Inr r"
    "used_prefix r \<Longrightarrow> iwf index (lower_key r) \<and> iwf index (upper_key r)"
    "\<And>g. used_prefix r \<Longrightarrow> fields_match tab_name index conds g \<Longrightarrow>
      (if lower_incl r then irank index (lower_key r) \<le> irank index (fields_key index g) else irank index (lower_key r) < irank index (fields_key index g)) \<and>
      (if upper_incl r then irank index (fields_key index g) \<le> irank index (upper_key r) else irank index (fields_key index g) < irank index (upper_key r))"
    using key_range_ok[OF i c] by blast
  show ?thesis
  proof (cases "used_prefix r")
    case False
    then have "build_scan_range fuel tab_name index conds s = (Inr (?pos 0, ?pos (length ?es)), s)"
      using r(1) lb le by (simp add: build_scan_range_def bindE_def)
    then show ?thesis by blast
  next
    case True
    let ?L = "lower_key r" and ?U = "upper_key r"
    let ?cmp = "ix_compare (types_of (im_cols index)) (lens_of (im_cols index)) ?L ?U"
    have wf: "iwf index ?L" "iwf index ?U" using r(2)[OF True] by auto
    note cmp = ix_compare_rank[OF wf]
    show ?thesis
    proof (cases "0 < ?cmp \<or> ?cmp = 0 \<and> (\<not> lower_incl r \<or> \<not> upper_incl r)")
      case empty: True
      then have "build_scan_range fuel tab_name index conds s = (Inr (?pos 0, ?pos 0), s)"
        using r(1) True lb by (simp add: build_scan_range_def bindE_def compare_composite)
      moreover have "\<not> fields_match tab_name index conds g" for g
      proof
        assume "fields_match tab_name index conds g"
        from r(3)[OF True this] empty cmp show False by (auto split: if_splits)
      qed
      ultimately show ?thesis by blast
    next
      case False
      then have lt: "irank index ?L < irank index ?U \<or> irank index ?L = irank index ?U \<and> lower_incl r \<and> upper_incl r"
        using cmp by (auto simp: not_less)
      define kl where "kl = (if lower_incl r then below (irank index) ?L ?es else not_above (irank index) ?L ?es)"
      define ku where "ku = (if upper_incl r then not_above (irank index) ?U ?es else below (irank index) ?U ?es)"
      have "build_scan_range fuel tab_name index conds s = (Inr (?pos kl, ?pos ku), s)"
        using r(1) True False ko.ix_bounds_ok[OF t h wf(1) f] ko.ix_bounds_ok[OF t h wf(2) f]
        by (auto simp: build_scan_range_def bindE_def compare_composite kl_def ku_def)
      moreover have "kl \<le> ku" using lt places_mono[of "irank index" ?L ?U ?es] by (auto simp: kl_def ku_def)
      moreover have "ku \<le> length ?es" by (simp add: ku_def below_le not_above_le)
      moreover have "kl \<le> j \<and> j < ku" if "fields_match tab_name index conds g" "j < length ?es"
        "irank index (fst (?es ! j)) = irank index (fields_key index g)" for g j
      proof -
        let ?K = "irank index (fields_key index g)"
        have "below (irank index) x ?es \<le> j \<longleftrightarrow> irank index x \<le> ?K" "not_above (irank index) x ?es \<le> j \<longleftrightarrow> irank index x < ?K"
          "j < below (irank index) x ?es \<longleftrightarrow> ?K < irank index x" "j < not_above (irank index) x ?es \<longleftrightarrow> ?K \<le> irank index x" for x
          using below_nth[OF o that(2), of x] not_above_nth[OF o that(2), of x] that(3) by auto
        then show ?thesis using r(3)[OF True that(1)] by (auto simp: kl_def ku_def split: if_splits)
      qed
      ultimately show ?thesis by blast
    qed
  qed
qed

section \<open>The executor walks over the range\<close>

definition xs_satisfies :: "index_scan \<Rightarrow> bytes \<Rightarrow> bool" where
  "xs_satisfies e rec \<longleftrightarrow> record_satisfies_conditions rec (xs_cols e) (xs_conds e) = Inr True"

definition xs_rows :: "database \<Rightarrow> index_scan \<Rightarrow> Rid list \<Rightarrow> bytes list" where
  "xs_rows w e rids = filter (xs_satisfies e) (map (record_at w (xs_tab_name e)) rids)"

definition xs_fields :: "bytes \<Rightarrow> ColMeta \<Rightarrow> bytes" where
  "xs_fields rec c = field c rec"

text \<open>The index of the scan is open and holds entries of records of the table, on which the conditions can be
  evaluated.\<close>

definition entry_fine :: "database \<Rightarrow> index_scan \<Rightarrow> bytes \<times> Rid \<Rightarrow> bool" where
  "entry_fine w e kr \<longleftrightarrow>
     (let rec = record_at w (xs_tab_name e) (snd kr) in
      snd kr \<in> dom (tables_db (sm_tables w) (xs_tab_name e)) \<and> fst kr = fields_key (xs_index e) (xs_fields rec) \<and> length rec = xs_len e \<and>
      (\<exists>b. record_satisfies_conditions rec (xs_cols e) (xs_conds e) = Inr b) \<and>
      (xs_satisfies e rec \<longrightarrow> fields_match (xs_tab_name e) (xs_index e) (xs_conds e) (xs_fields rec)))"

definition xs_open :: "database \<Rightarrow> index_scan \<Rightarrow> ix_state \<Rightarrow> (bytes \<times> Rid) list \<Rightarrow> bool" where
  "xs_open w e ix es \<longleftrightarrow> sm_ihs w (index_file (xs_tab_name e) (xs_index e)) = Some ix \<and>
     index_holds (types_of (im_cols (xs_index e))) (lens_of (im_cols (xs_index e))) ix es \<and> index_cols_ok (xs_index e) \<and>
     (\<forall>cond \<in> set (xs_conds e). cond_fine (xs_tab_name e) (im_cols (xs_index e)) cond) \<and> (\<forall>kr \<in> set es. entry_fine w e kr)"

definition xs_src :: "nat \<Rightarrow> database \<Rightarrow> index_scan \<Rightarrow> bytes list \<Rightarrow> bool" where
  "xs_src fuel w e rows \<longleftrightarrow> (\<exists>ix es. xs_open w e ix es \<and> length es \<le> fuel \<and> rows = xs_rows w e (map snd es))"

definition xs_at :: "database \<Rightarrow> index_scan \<Rightarrow> ix_state \<Rightarrow> page_id_t list \<Rightarrow> nat \<Rightarrow> nat \<Rightarrow> bool" where
  "xs_at w e ix ps k ku \<longleftrightarrow> xs_open w e ix (flat (ix_nodes ix) ps) \<and>
     hdr_for (types_of (im_cols (xs_index e))) (lens_of (im_cols (xs_index e))) (ix_hdr ix) \<and>
     (\<exists>Us. tree_inv (irank (xs_index e)) (iwf (xs_index e)) ix ps Us) \<and>
     k \<le> ku \<and> ku \<le> length (flat (ix_nodes ix) ps) \<and>
     xs_scan e = Some \<lparr>sc_iid = iid_at (ix_nodes ix) ps k, sc_end = iid_at (ix_nodes ix) ps ku\<rparr>"

definition xs_rest :: "database \<Rightarrow> index_scan \<Rightarrow> ix_state \<Rightarrow> page_id_t list \<Rightarrow> nat \<Rightarrow> nat \<Rightarrow> bytes list" where
  "xs_rest w e ix ps k ku = xs_rows w e (map snd (drop k (take ku (flat (ix_nodes ix) ps))))"

definition xs_cur :: "nat \<Rightarrow> database \<Rightarrow> index_scan \<Rightarrow> bytes list \<Rightarrow> bool" where
  "xs_cur fuel w e rest \<longleftrightarrow> (\<exists>ix ps k ku. xs_at w e ix ps k ku \<and> ku \<le> fuel \<and> rest = xs_rest w e ix ps k ku \<and>
     (k < ku \<longrightarrow> xs_rid e = snd (flat (ix_nodes ix) ps ! k) \<and> xs_satisfies e (record_at w (xs_tab_name e) (xs_rid e))))"

definition same_xs :: "index_scan \<Rightarrow> index_scan \<Rightarrow> bool" where
  "same_xs e e' \<longleftrightarrow> xs_tab_name e' = xs_tab_name e \<and> xs_conds e' = xs_conds e \<and> xs_cols e' = xs_cols e \<and> xs_len e' = xs_len e \<and> xs_index e' = xs_index e"

lemma same_xsD:
  assumes "same_xs e e'"
  shows "xs_open w e' = xs_open w e" "xs_src fuel w e' = xs_src fuel w e" "xs_rows w e' = xs_rows w e" "xs_rest w e' = xs_rest w e"
    "kept (index_scan_ops fuel) e e'" "xs_satisfies e' = xs_satisfies e"
proof -
  show s: "xs_satisfies e' = xs_satisfies e" using assms by (auto simp: same_xs_def xs_satisfies_def[abs_def])
  show r: "xs_rows w e' = xs_rows w e" using assms s by (auto simp: same_xs_def xs_rows_def[abs_def])
  then show "xs_rest w e' = xs_rest w e" by (simp add: xs_rest_def[abs_def])
  have "entry_fine w e' = entry_fine w e" using assms s by (auto simp: same_xs_def entry_fine_def[abs_def])
  then show o: "xs_open w e' = xs_open w e" using assms by (auto simp: same_xs_def xs_open_def[abs_def])
  show "xs_src fuel w e' = xs_src fuel w e" using o r by (simp add: xs_src_def[abs_def])
  show "kept (index_scan_ops fuel) e e'" using assms by (simp add: same_xs_def kept_def index_scan_ops_def)
qed

lemma same_xs_upd [simp]: "same_xs e (e\<lparr>xs_rid := r\<rparr>)" "same_xs e (e\<lparr>xs_scan := p\<rparr>)" "same_xs e e"
  by (simp_all add: same_xs_def)

lemma same_xs_trans: "same_xs a b \<Longrightarrow> same_xs b c \<Longrightarrow> same_xs a c"
  by (simp add: same_xs_def)

lemma on_ih_same:
  assumes "sm_ihs w (index_file (xs_tab_name e) (xs_index e)) = Some ix" "m ix = (r, ix)"
  shows "on_ih e m (w, e') = (r, (w, e'))"
proof -
  have "w\<lparr>sm_ihs := (sm_ihs w)(index_file (xs_tab_name e) (xs_index e) \<mapsto> ix)\<rparr> = w" using assms(1) by (simp add: fun_upd_idem)
  then show ?thesis using assms by (simp add: on_ih_def on_db_def on_index_def)
qed

lemma xs_atD:
  assumes "xs_at w0 e ix ps k ku" "db_view w0 w"
  obtains Us where "tree_inv (irank (xs_index e)) (iwf (xs_index e)) ix ps Us"
    "hdr_for (types_of (im_cols (xs_index e))) (lens_of (im_cols (xs_index e))) (ix_hdr ix)"
    "sm_ihs w (index_file (xs_tab_name e) (xs_index e)) = Some ix" "k \<le> ku" "ku \<le> length (flat (ix_nodes ix) ps)"
    "xs_scan e = Some \<lparr>sc_iid = iid_at (ix_nodes ix) ps k, sc_end = iid_at (ix_nodes ix) ps ku\<rparr>"
  using assms by (auto simp: xs_at_def xs_open_def db_view_def)

lemma xs_at_end:
  assumes "xs_at w0 e ix ps k ku" "db_view w0 w"
  shows "xs_is_end (w, e) \<longleftrightarrow> k = ku"
proof -
  obtain Us where t: "tree_inv (irank (xs_index e)) (iwf (xs_index e)) ix ps Us" and k: "k \<le> ku" "ku \<le> length (flat (ix_nodes ix) ps)"
    and s: "xs_scan e = Some \<lparr>sc_iid = iid_at (ix_nodes ix) ps k, sc_end = iid_at (ix_nodes ix) ps ku\<rparr>"
    by (rule xs_atD[OF assms]) 
  have "distinct ps" "ps \<noteq> []" using tree_invD(1,2)[OF t] by (auto simp: pages_ok_def dest: stacked_nonempty)
  then show ?thesis using s k iid_at_inj[of ps k "ix_nodes ix" ku] by (auto simp: xs_is_end_def ix_scan_is_end_def)
qed

lemma xs_scan_next_ok:
  assumes "xs_at w0 e ix ps k ku" "db_view w0 w" "k < ku"
  shows "\<exists>e'. xs_scan_next (w, e) = (Inr (), (w, e')) \<and> same_xs e e' \<and> xs_at w0 e' ix ps (Suc k) ku"
proof -
  obtain Us where t: "tree_inv (irank (xs_index e)) (iwf (xs_index e)) ix ps Us" and k: "ku \<le> length (flat (ix_nodes ix) ps)"
    and h: "hdr_for (types_of (im_cols (xs_index e))) (lens_of (im_cols (xs_index e))) (ix_hdr ix)"
    and i: "sm_ihs w (index_file (xs_tab_name e) (xs_index e)) = Some ix"
    and s: "xs_scan e = Some \<lparr>sc_iid = iid_at (ix_nodes ix) ps k, sc_end = iid_at (ix_nodes ix) ps ku\<rparr>"
    by (rule xs_atD[OF assms(1,2)])
  let ?sc = "\<lparr>sc_iid = iid_at (ix_nodes ix) ps k, sc_end = iid_at (ix_nodes ix) ps ku\<rparr>"
  have "\<not> xs_is_end (w, e)" using xs_at_end[OF assms(1,2)] assms(3) by simp
  then have ne: "sc_iid ?sc \<noteq> sc_end ?sc" using s by (simp add: xs_is_end_def ix_scan_is_end_def)
  have "ix_scan_next ?sc ix = (Inr (?sc\<lparr>sc_iid := iid_at (ix_nodes ix) ps (Suc k)\<rparr>), ix)"
    by (rule ko.ix_scan_next_ok[OF t h _ _ ne]) (use assms(3) k in simp_all)
  from on_ih_same[where m = "ix_scan_next ?sc", OF i this] have "xs_scan_next (w, e) =
      (Inr (), (w, e\<lparr>xs_scan := Some (?sc\<lparr>sc_iid := iid_at (ix_nodes ix) ps (Suc k)\<rparr>)\<rparr>))"
    using s by (simp add: xs_scan_next_def bindE_def set_exec_def)
  moreover have "xs_at w0 (e\<lparr>xs_scan := Some (?sc\<lparr>sc_iid := iid_at (ix_nodes ix) ps (Suc k)\<rparr>)\<rparr>) ix ps (Suc k) ku"
    using assms(1,3) same_xsD(1)[OF same_xs_upd(2)] by (simp add: xs_at_def)
  ultimately show ?thesis by auto
qed

lemma xs_entry:
  assumes "xs_at w0 e ix ps k ku" "k < ku"
  shows "entry_fine w0 e (flat (ix_nodes ix) ps ! k)"
    "xs_rest w0 e ix ps k ku = (if xs_satisfies e (record_at w0 (xs_tab_name e) (snd (flat (ix_nodes ix) ps ! k)))
       then [record_at w0 (xs_tab_name e) (snd (flat (ix_nodes ix) ps ! k))] else []) @ xs_rest w0 e ix ps (Suc k) ku"
proof -
  have k: "k < length (flat (ix_nodes ix) ps)" "k < length (take ku (flat (ix_nodes ix) ps))"
    using assms by (auto simp: xs_at_def)
  show "entry_fine w0 e (flat (ix_nodes ix) ps ! k)" using assms(1) k(1) by (simp add: xs_at_def xs_open_def)
  have "drop k (take ku (flat (ix_nodes ix) ps)) = flat (ix_nodes ix) ps ! k # drop (Suc k) (take ku (flat (ix_nodes ix) ps))"
    using Cons_nth_drop_Suc[OF k(2)] assms(2) by simp
  then show "xs_rest w0 e ix ps k ku = (if xs_satisfies e (record_at w0 (xs_tab_name e) (snd (flat (ix_nodes ix) ps ! k)))
       then [record_at w0 (xs_tab_name e) (snd (flat (ix_nodes ix) ps ! k))] else []) @ xs_rest w0 e ix ps (Suc k) ku"
    by (simp add: xs_rest_def xs_rows_def)
qed

lemma advance_to_match_ok:
  assumes "db_view w0 w" "xs_at w0 e ix ps k ku" "ku - k \<le> fuel" "ku \<le> fuel0"
  shows "\<exists>w' e'. advance_to_match fuel (w, e) = (Inr (), (w', e')) \<and> db_view w0 w' \<and> same_xs e e' \<and> xs_cur fuel0 w0 e' (xs_rest w0 e ix ps k ku)"
  using assms
proof (induction "ku - k" arbitrary: w e k fuel)
  case 0
  obtain Us where s: "k \<le> ku" "xs_scan e = Some \<lparr>sc_iid = iid_at (ix_nodes ix) ps k, sc_end = iid_at (ix_nodes ix) ps ku\<rparr>"
    by (rule xs_atD[OF 0(3,2)])
  have k: "k = ku" using 0(1) s(1) by simp
  define e' where "e' = e\<lparr>xs_rid := Rid (num_pages (table_hdr w (xs_tab_name e))) (-1)\<rparr>"
  have "advance_to_match fuel (w, e) = (Inr (), (w, e'))"
    using s(2) k by (subst advance_to_match.simps) (simp add: ix_scan_is_end_def xs_rid_end_def e'_def bindE_def)
  moreover have sm: "same_xs e e'" by (simp add: e'_def)
  moreover have "xs_at w0 e' ix ps k ku" using 0(3) same_xsD(1)[OF sm] by (simp add: xs_at_def e'_def)
  then have "xs_cur fuel0 w0 e' (xs_rest w0 e ix ps k ku)" unfolding xs_cur_def same_xsD(4)[OF sm, symmetric] using k 0(5) by blast
  ultimately show ?case using 0(2) by blast
next
  case (Suc d)
  have k: "k < ku" using Suc.hyps(2) by simp
  obtain Us where t: "tree_inv (irank (xs_index e)) (iwf (xs_index e)) ix ps Us" and ku: "ku \<le> length (flat (ix_nodes ix) ps)"
    and i: "sm_ihs w (index_file (xs_tab_name e) (xs_index e)) = Some ix"
    and s: "xs_scan e = Some \<lparr>sc_iid = iid_at (ix_nodes ix) ps k, sc_end = iid_at (ix_nodes ix) ps ku\<rparr>"
    by (rule xs_atD[OF Suc.prems(2,1)])
  let ?sc = "\<lparr>sc_iid = iid_at (ix_nodes ix) ps k, sc_end = iid_at (ix_nodes ix) ps ku\<rparr>" and ?t = "xs_tab_name e"
  let ?rid = "snd (flat (ix_nodes ix) ps ! k)" and ?rec = "record_at w0 (xs_tab_name e) (snd (flat (ix_nodes ix) ps ! k))"
  obtain fuel' where f: "fuel = Suc fuel'" "ku - Suc k \<le> fuel'" using Suc.prems(3) k by (cases fuel) auto
  have ne: "\<not> ix_scan_is_end ?sc" using xs_at_end[OF Suc.prems(2,1)] k s by (simp add: xs_is_end_def)
  have "ix_scan_rid ?sc ix = (Inr ?rid, ix)" using ko.get_rid_at_ok[OF t, of k] k ku by (simp add: ix_scan_rid_def)
  note g = on_ih_same[where m = "ix_scan_rid ?sc" and e' = e, OF i this]
  note en = xs_entry[OF Suc.prems(2) k]
  then have d: "?rid \<in> dom (tables_db (sm_tables w0) ?t)" by (simp add: entry_fine_def Let_def)
  obtain w1 where r: "on_tables (on_file ?t (get_record ?rid)) w = (Inr ?rec, w1)" "db_view w0 w1" using read_record[OF Suc.prems(1) d] by blast
  obtain b where b: "record_satisfies_conditions ?rec (xs_cols e) (xs_conds e) = Inr b" using en(1) by (auto simp: entry_fine_def Let_def)
  show ?case
  proof (cases b)
    case True
    define e' where "e' = e\<lparr>xs_rid := ?rid\<rparr>"
    have "advance_to_match fuel (w, e) = (Inr (), (w1, e'))"
      using s ne f(1) b True by (subst advance_to_match.simps) (simp add: bindE_def g on_db_def r(1) set_exec_def e'_def)
    moreover have sm: "same_xs e e'" by (simp add: e'_def)
    moreover have "xs_at w0 e' ix ps k ku" using Suc.prems(2) same_xsD(1)[OF sm] by (simp add: xs_at_def e'_def)
    moreover have "xs_rid e' = ?rid" "xs_satisfies e' ?rec" "xs_tab_name e' = ?t" using b True same_xsD(6)[OF sm] by (simp_all add: e'_def xs_satisfies_def)
    ultimately have "xs_cur fuel0 w0 e' (xs_rest w0 e ix ps k ku)"
      unfolding xs_cur_def same_xsD(4)[OF sm, symmetric] using Suc.prems(4) by metis
    then show ?thesis using \<open>advance_to_match fuel (w, e) = _\<close> r(2) sm by blast
  next
    case False
    obtain e1 where n: "xs_scan_next (w1, e) = (Inr (), (w1, e1))" "same_xs e e1" "xs_at w0 e1 ix ps (Suc k) ku"
      using xs_scan_next_ok[OF Suc.prems(2) r(2) k] by blast
    have step: "advance_to_match fuel (w, e) = advance_to_match fuel' (w1, e1)"
      using s ne f(1) b False n(1) by (subst advance_to_match.simps) (simp add: bindE_def g on_db_def r(1) thenE_def)
    have "xs_rest w0 e ix ps k ku = xs_rest w0 e1 ix ps (Suc k) ku" using en(2) b False same_xsD(4)[OF n(2)] by (simp add: xs_satisfies_def)
    moreover have "d = ku - Suc k" using Suc.hyps(2) by simp
    ultimately show ?thesis using Suc.hyps(1)[OF _ r(2) n(3) f(2) Suc.prems(4)] step same_xs_trans[OF n(2)] by metis
  qed
qed

text \<open>No record outside the range satisfies the conditions.\<close>

lemma range_rows:
  assumes en: "\<forall>kr \<in> set es. entry_fine w0 e kr"
    and cov: "\<And>g j. fields_match (xs_tab_name e) (xs_index e) (xs_conds e) g \<Longrightarrow> j < length es \<Longrightarrow>
      irank (xs_index e) (fst (es ! j)) = irank (xs_index e) (fields_key (xs_index e) g) \<Longrightarrow> kl \<le> j \<and> j < ku"
    and k: "kl \<le> ku" "ku \<le> length es"
  shows "xs_rows w0 e (map snd (drop kl (take ku es))) = xs_rows w0 e (map snd es)"
proof -
  have none: "xs_rows w0 e (map snd xs) = []" if xs: "\<And>kr. kr \<in> set xs \<Longrightarrow> \<exists>j < length es. kr = es ! j \<and> \<not> (kl \<le> j \<and> j < ku)" for xs
  proof -
    have "\<not> xs_satisfies e (record_at w0 (xs_tab_name e) (snd kr))" if kr: "kr \<in> set xs" for kr
    proof
      assume sat: "xs_satisfies e (record_at w0 (xs_tab_name e) (snd kr))"
      obtain j where j: "j < length es" "kr = es ! j" "\<not> (kl \<le> j \<and> j < ku)" using xs[OF kr] by blast
      then have "entry_fine w0 e kr" using en by simp
      then show False using cov[of "xs_fields (record_at w0 (xs_tab_name e) (snd kr))", OF _ j(1)] sat j(2,3)
        by (auto simp: entry_fine_def Let_def)
    qed
    then show ?thesis by (auto simp: xs_rows_def filter_empty_conv)
  qed
  have es: "es = take kl es @ drop kl (take ku es) @ drop ku es"
    using k(1) by (metis append_assoc append_take_drop_id min.absorb1 take_take)
  have "xs_rows w0 e (map snd (take kl es)) = []"
  proof (rule none)
    fix kr assume "kr \<in> set (take kl es)"
    then obtain j where "j < kl" "kr = es ! j" by (auto simp: in_set_conv_nth)
    then show "\<exists>j < length es. kr = es ! j \<and> \<not> (kl \<le> j \<and> j < ku)" using k by (intro exI[of _ j]) auto
  qed
  moreover have "xs_rows w0 e (map snd (drop ku es)) = []"
  proof (rule none)
    fix kr assume "kr \<in> set (drop ku es)"
    then obtain j where "j < length es - ku" "kr = es ! (ku + j)" by (auto simp: in_set_conv_nth)
    then show "\<exists>j < length es. kr = es ! j \<and> \<not> (kl \<le> j \<and> j < ku)" by (intro exI[of _ "ku + j"]) auto
  qed
  ultimately show ?thesis by (subst (2) es) (simp add: xs_rows_def)
qed

lemma xs_begin_ok:
  assumes "db_view w0 w" "xs_src fuel w0 e rows"
  shows "\<exists>w' e'. xs_begin fuel (w, e) = (Inr (), (w', e')) \<and> db_view w0 w' \<and> same_xs e e' \<and> xs_cur fuel w0 e' rows"
proof -
  obtain ix es where x: "xs_open w0 e ix es" "length es \<le> fuel" "rows = xs_rows w0 e (map snd es)" using assms(2) by (auto simp: xs_src_def)
  note xo = x(1)[unfolded xs_open_def]
  have io: "index_cols_ok (xs_index e)" "\<forall>cond \<in> set (xs_conds e). cond_fine (xs_tab_name e) (im_cols (xs_index e)) cond" using xo by auto
  have i: "sm_ihs w (index_file (xs_tab_name e) (xs_index e)) = Some ix" using xo assms(1) by (simp add: db_view_def)
  obtain ps Us where t: "hdr_for (types_of (im_cols (xs_index e))) (lens_of (im_cols (xs_index e))) (ix_hdr ix)"
    "tree_inv (irank (xs_index e)) (iwf (xs_index e)) ix ps Us" "es = flat (ix_nodes ix) ps" "length Us \<le> length es"
    using xo by (auto elim: index_holdsE)
  have "length Us \<le> fuel" using t(4) x(2) by simp
  from build_scan_range_ok[OF io t(1,2) this] obtain kl ku where
    b: "build_scan_range fuel (xs_tab_name e) (xs_index e) (xs_conds e) ix = (Inr (iid_at (ix_nodes ix) ps kl, iid_at (ix_nodes ix) ps ku), ix)"
    "kl \<le> ku" "ku \<le> length es"
    "\<And>g j. fields_match (xs_tab_name e) (xs_index e) (xs_conds e) g \<Longrightarrow> j < length es \<Longrightarrow>
      irank (xs_index e) (fst (es ! j)) = irank (xs_index e) (fields_key (xs_index e) g) \<Longrightarrow> kl \<le> j \<and> j < ku"
    using t(3) by blast
  note g = on_ih_same[where m = "build_scan_range fuel (xs_tab_name e) (xs_index e) (xs_conds e)" and e' = e, OF i b(1)]
  define e1 where "e1 = e\<lparr>xs_scan := Some \<lparr>sc_iid = iid_at (ix_nodes ix) ps kl, sc_end = iid_at (ix_nodes ix) ps ku\<rparr>\<rparr>"
  have sm: "same_xs e e1" by (simp add: e1_def)
  have "xs_at w0 e1 ix ps kl ku" using same_xsD(1)[OF sm] x(1) t b(2,3) by (auto simp: xs_at_def e1_def)
  moreover have "ku - kl \<le> fuel" "ku \<le> fuel" using b(3) x(2) by simp_all
  ultimately obtain w' e' where
    a: "advance_to_match fuel (w, e1) = (Inr (), (w', e'))" "db_view w0 w'" "same_xs e1 e'" "xs_cur fuel w0 e' (xs_rest w0 e1 ix ps kl ku)"
    using advance_to_match_ok[OF assms(1)] by blast
  have "xs_begin fuel (w, e) = (Inr (), (w', e'))"
    using a(1) by (simp add: xs_begin_def bindE_def g set_exec_def thenE_Inr e1_def)
  moreover have "xs_rest w0 e1 ix ps kl ku = rows"
    using range_rows[OF _ b(4,2,3)] xo same_xsD(4)[OF sm] t(3) x(3) by (simp add: xs_rest_def)
  ultimately show ?thesis using a same_xs_trans[OF sm a(3)] by auto
qed


lemma xs_curE:
  assumes "xs_cur fuel w0 e rest"
  obtains ix ps k ku where "xs_at w0 e ix ps k ku" "rest = xs_rest w0 e ix ps k ku" "ku \<le> fuel"
    "k < ku \<longrightarrow> xs_rid e = snd (flat (ix_nodes ix) ps ! k) \<and> xs_satisfies e (record_at w0 (xs_tab_name e) (xs_rid e))"
  using assms unfolding xs_cur_def by blast

lemma xs_cur_end:
  assumes "db_view w0 w" "xs_cur fuel w0 e rest"
  shows "xs_is_end (w, e) \<longleftrightarrow> rest = []"
proof -
  obtain ix ps k ku where c: "xs_at w0 e ix ps k ku" "rest = xs_rest w0 e ix ps k ku"
    "k < ku \<longrightarrow> xs_rid e = snd (flat (ix_nodes ix) ps ! k) \<and> xs_satisfies e (record_at w0 (xs_tab_name e) (xs_rid e))"
    by (rule xs_curE[OF assms(2)])
  have "rest \<noteq> []" if "k < ku" using xs_entry(2)[OF c(1) that] c(2,3) that by auto
  moreover have "rest = []" if "k = ku" using c(2) that by (simp add: xs_rest_def xs_rows_def)
  ultimately show ?thesis using xs_at_end[OF c(1) assms(1)] c(1) by (auto simp: xs_at_def)
qed

lemma xs_cur_step:
  assumes "db_view w0 w" "xs_cur fuel w0 e (r # rest)"
  obtains ix ps k ku where "xs_at w0 e ix ps k ku" "k < ku" "ku \<le> fuel" "rest = xs_rest w0 e ix ps (Suc k) ku"
    "r = record_at w0 (xs_tab_name e) (xs_rid e)" "xs_rid e \<in> dom (tables_db (sm_tables w0) (xs_tab_name e))"
proof -
  obtain ix ps k ku where c: "xs_at w0 e ix ps k ku" "r # rest = xs_rest w0 e ix ps k ku" "ku \<le> fuel"
    "k < ku \<longrightarrow> xs_rid e = snd (flat (ix_nodes ix) ps ! k) \<and> xs_satisfies e (record_at w0 (xs_tab_name e) (xs_rid e))"
    by (rule xs_curE[OF assms(2)])
  have k: "k < ku" using xs_at_end[OF c(1) assms(1)] xs_cur_end[OF assms] c(1) by (auto simp: xs_at_def)
  show thesis by (rule that[OF c(1) k c(3)]) (use xs_entry[OF c(1) k] c(2,4) k in \<open>auto simp: entry_fine_def Let_def\<close>)
qed

lemma xs_next_tuple_ok:
  assumes "db_view w0 w" "xs_cur fuel w0 e (r # rest)"
  shows "\<exists>w' e'. xs_next_tuple fuel (w, e) = (Inr (), (w', e')) \<and> db_view w0 w' \<and> same_xs e e' \<and> xs_cur fuel w0 e' rest"
proof -
  obtain ix ps k ku where c: "xs_at w0 e ix ps k ku" "k < ku" "ku \<le> fuel" "rest = xs_rest w0 e ix ps (Suc k) ku" by (rule xs_cur_step[OF assms])
  have ne: "\<not> xs_is_end (w, e)" using xs_cur_end[OF assms] by simp
  obtain e1 where n: "xs_scan_next (w, e) = (Inr (), (w, e1))" "same_xs e e1" "xs_at w0 e1 ix ps (Suc k) ku"
    using xs_scan_next_ok[OF c(1) assms(1) c(2)] by blast
  have "ku - Suc k \<le> fuel" using c(3) by simp
  from advance_to_match_ok[OF assms(1) n(3) this c(3)] obtain w' e' where
    a: "advance_to_match fuel (w, e1) = (Inr (), (w', e'))" "db_view w0 w'" "same_xs e1 e'" "xs_cur fuel w0 e' (xs_rest w0 e1 ix ps (Suc k) ku)" by blast
  have "xs_next_tuple fuel (w, e) = (Inr (), (w', e'))" using ne n(1) a(1) by (simp add: xs_next_tuple_def bindE_def thenE_def)
  then show ?thesis using a c(4) same_xs_trans[OF n(2) a(3)] same_xsD(4)[OF n(2)] by auto
qed

lemma xs_next_ok:
  assumes "db_view w0 w" "xs_cur fuel w0 e (r # rest)"
  shows "\<exists>w'. xs_next (w, e) = (Inr (Some r), (w', e)) \<and> db_view w0 w'"
proof -
  have ne: "\<not> xs_is_end (w, e)" using xs_cur_end[OF assms] by simp
  have r: "r = record_at w0 (xs_tab_name e) (xs_rid e)" "xs_rid e \<in> dom (tables_db (sm_tables w0) (xs_tab_name e))"
    using xs_cur_step[OF assms] by metis+
  from read_record[OF assms(1) r(2)] obtain w' where
    "on_tables (on_file (xs_tab_name e) (get_record (xs_rid e))) w = (Inr r, w')" "db_view w0 w'" using r(1) by auto
  then show ?thesis using ne by (auto simp: xs_next_def bindE_def on_db_def)
qed

lemma xs_src_len: "xs_src fuel w0 e rows \<Longrightarrow> r \<in> set rows \<Longrightarrow> length r = xs_len e"
  by (fastforce simp: xs_src_def xs_rows_def xs_open_def entry_fine_def Let_def)

interpretation xs: row_source "index_scan_ops fuel" "db_view w0" "xs_src fuel w0" "xs_cur fuel w0" for fuel w0
proof
  fix w e rows assume "db_view w0 w" "xs_src fuel w0 e rows"
  then show "\<exists>w' e'. beginTuple (index_scan_ops fuel) (w, e) = (Inr (), (w', e')) \<and> db_view w0 w' \<and> xs_src fuel w0 e' rows \<and> xs_cur fuel w0 e' rows \<and>
      kept (index_scan_ops fuel) e e'"
    using xs_begin_ok[of w0 w fuel e rows] same_xsD(2,5) by (fastforce simp: index_scan_ops_def)
next
  fix w e rows r rest assume "db_view w0 w" "xs_src fuel w0 e rows" "xs_cur fuel w0 e (r # rest)"
  then show "\<exists>w' e'. nextTuple (index_scan_ops fuel) (w, e) = (Inr (), (w', e')) \<and> db_view w0 w' \<and> xs_src fuel w0 e' rows \<and> xs_cur fuel w0 e' rest \<and>
      kept (index_scan_ops fuel) e e'"
    using xs_next_tuple_ok[of w0 w fuel e r rest] same_xsD(2,5) by (fastforce simp: index_scan_ops_def)
next
  fix w e rows r rest assume "db_view w0 w" "xs_src fuel w0 e rows" "xs_cur fuel w0 e (r # rest)"
  then show "\<exists>w'. Next (index_scan_ops fuel) (w, e) = (Inr (Some r), (w', e)) \<and> db_view w0 w'"
    using xs_next_ok by (simp add: index_scan_ops_def)
next
  fix w e rows rest assume "db_view w0 w" "xs_src fuel w0 e rows" "xs_cur fuel w0 e rest"
  then show "is_end (index_scan_ops fuel) (w, e) \<longleftrightarrow> rest = []" using xs_cur_end by (simp add: index_scan_ops_def)
next
  fix e rows r assume "xs_src fuel w0 e rows" "r \<in> set rows"
  then show "length r = tupleLen (index_scan_ops fuel) e" using xs_src_len by (simp add: index_scan_ops_def)
qed

section \<open>Scanning through an index is scanning the table\<close>

text \<open>The key of a record is made up of its fields.\<close>

lemma copy_key_cols_fields:
  assumes "\<forall>c \<in> set cs. length (field c rec) = nat (cm_len c)" "off + key_len cs \<le> length key"
  shows "copy_key_cols cs rec off key = take off key @ concat (map (\<lambda>c. field c rec) cs) @ drop (off + key_len cs) key"
  using assms
proof (induction cs arbitrary: off key)
  case (Cons c cs)
  let ?key = "mem_put key off (field c rec)"
  have l: "length (field c rec) = nat (cm_len c)" "off \<le> length key" using Cons.prems by auto
  then have "length ?key = length key" using Cons.prems(2) by (simp add: mem_put_def)
  moreover have "take (off + nat (cm_len c)) ?key = take off key @ field c rec" "drop (off + nat (cm_len c) + n) ?key = drop (off + nat (cm_len c) + n) key" for n
    using l by (simp_all add: mem_put_def ac_simps)
  ultimately show ?case using Cons.IH[of "off + nat (cm_len c)" ?key] Cons.prems by (simp add: field_def[of c] add.assoc)
qed simp

lemma build_index_key_fields:
  assumes "index_cols_ok index" "\<forall>c \<in> set (im_cols index). col_fine c (field c rec)"
  shows "build_index_key index rec = fields_key index (xs_fields rec)"
proof -
  have "nat (im_col_tot_len index) = key_len (im_cols index)"
    using assms(1) key_len_sum[of "im_cols index"] by (simp add: index_cols_ok_def)
  then show ?thesis
    using copy_key_cols_fields[of "im_cols index" rec 0 "replicate (nat (im_col_tot_len index)) 0"] assms(2)
    by (simp add: build_index_key_def fields_key_def xs_fields_def[abs_def] col_fine_def)
qed

lemma memcmp_take: "memcmp (take n a) b n = memcmp a b n"
  by (induction a b n rule: memcmp.induct) auto

lemma compare_field:
  assumes "has_values c"
  shows "ix_compare_col (drop (nat (cm_offset c)) rec) b (cm_type c) (cm_len c) = ix_compare_col (field c rec) b (cm_type c) (cm_len c)"
  using assms by (cases "cm_type c") (auto simp: field_def mem_get_def has_values_def col_fine_def memcmp_take)

definition index_col_of :: "ColMeta list \<Rightarrow> string \<Rightarrow> ColMeta \<Rightarrow> bool" where
  "index_col_of cs t c \<longleftrightarrow>
     (\<exists>m. find_col_meta cs \<lparr>tc_tab_name = t, tc_col_name = cm_name c\<rparr> = Inr m \<and> cm_type m = cm_type c \<and> cm_len m = cm_len c \<and> cm_offset m = cm_offset c)"

lemma condition_on_field:
  assumes h: "condition_holds rec cs cond = Inr True" and c: "on_col t cond c" "index_col_of cs t c" "has_values c"
    and v: "value_fine c (rhs_val cond)" "val_type (rhs_val cond) = cm_type c"
  shows "evaluate_compare_result (ix_compare_col (field c rec) (raw_of (rhs_val cond)) (cm_type c) (cm_len c)) (cond_op cond)"
proof -
  obtain m where m: "find_col_meta cs \<lparr>tc_tab_name = t, tc_col_name = cm_name c\<rparr> = Inr m" "cm_type m = cm_type c" "cm_len m = cm_len c" "cm_offset m = cm_offset c"
    using c(2) by (auto simp: index_col_of_def)
  have "find_col_meta cs (lhs_col cond) = Inr m" using m(1) c(1) by (auto simp: find_col_meta_def on_col_def split: option.splits)
  moreover have "cond_rhs rec cs cond = Inr (raw_of (rhs_val cond), cm_type c, cm_len c)"
    using c(1) v has_values_len[OF c(3)] by (auto simp: cond_rhs_def on_col_def value_fine_def col_fine_def)
  ultimately show ?thesis using h m compare_field[OF c(3), of rec] by (simp add: condition_holds_def compare_raw_data_col)
qed

lemma all_conditions_hold:
  "record_satisfies_conditions rec cs conds = Inr True \<Longrightarrow> cond \<in> set conds \<Longrightarrow> condition_holds rec cs cond = Inr True"
  by (induction conds) (auto split: sum.splits if_splits)

text \<open>The index of the scan holds an entry for each record of the table and no other, under the key made of the
  record. The columns of the index are columns of the table, their fields and the values compared with them are of the
  type and length of the column, and floats among them are finite.\<close>

definition index_serves :: "database \<Rightarrow> index_scan \<Rightarrow> bool" where
  "index_serves w x \<longleftrightarrow>
     (let t = xs_tab_name x; index = xs_index x; rids = dom (tables_db (sm_tables w) t) in
      index_cols_ok index \<and>
      (\<forall>c \<in> set (im_cols index). index_col_of (xs_cols x) t c \<and> (\<forall>rid \<in> rids. col_fine c (field c (record_at w t rid))) \<and>
        (\<forall>cond \<in> set (xs_conds x). on_col t cond c \<longrightarrow> value_fine c (rhs_val cond) \<and> val_type (rhs_val cond) = cm_type c)) \<and>
      (\<exists>ix es. sm_ihs w (index_file t index) = Some ix \<and> index_holds (types_of (im_cols index)) (lens_of (im_cols index)) ix es \<and>
        mset (map snd es) = mset (table_rids w t) \<and> (\<forall>(key, rid) \<in> set es. key = build_index_key index (record_at w t rid))))"

definition scan_of :: "index_scan \<Rightarrow> seq_scan" where
  "scan_of x = \<lparr>ss_tab_name = xs_tab_name x, ss_conds = xs_conds x, ss_cols = xs_cols x, ss_len = xs_len x, ss_rid = Rid 0 0, ss_scan = None\<rparr>"

lemma index_serves_open:
  assumes s: "index_serves w x" and f: "scan_fine w (scan_of x)"
  obtains ix es where "xs_open w x ix es" "mset (map snd es) = mset (table_rids w (xs_tab_name x))"
    "\<forall>(key, rid) \<in> set es. key = build_index_key (xs_index x) (record_at w (xs_tab_name x) rid)"
proof -
  let ?t = "xs_tab_name x" and ?i = "xs_index x"
  note ss = s[unfolded index_serves_def Let_def]
  obtain ix es where e: "sm_ihs w (index_file ?t ?i) = Some ix" "index_holds (types_of (im_cols ?i)) (lens_of (im_cols ?i)) ix es"
    "mset (map snd es) = mset (table_rids w ?t)" "\<forall>(key, rid) \<in> set es. key = build_index_key ?i (record_at w ?t rid)"
    using ss by blast
  have io: "index_cols_ok ?i" using ss by blast
  have cond: "value_fine c (rhs_val cond) \<and> val_type (rhs_val cond) = cm_type c \<and> index_col_of (xs_cols x) ?t c \<and> has_values c"
    if "c \<in> set (im_cols ?i)" "cond \<in> set (xs_conds x)" "on_col ?t cond c" for c cond
    using ss that by (auto simp: index_cols_ok_def)
  have "entry_fine w x kr" if kr: "kr \<in> set es" for kr
  proof -
    obtain key rid where k: "kr = (key, rid)" by (cases kr)
    let ?rec = "record_at w ?t rid"
    have "rid \<in> set (map snd es)" using kr k by force
    then have rid: "rid \<in> dom (tables_db (sm_tables w) ?t)" using e(3) by (metis set_mset_mset set_table_rids)
    have fine: "\<forall>c \<in> set (im_cols ?i). col_fine c (field c ?rec)" using ss rid by blast
    have "fields_match ?t ?i (xs_conds x) (xs_fields ?rec)" if "xs_satisfies x ?rec"
      unfolding fields_match_def fields_hold_def xs_fields_def
      using fine cond condition_on_field[OF all_conditions_hold] that by (metis xs_satisfies_def)
    moreover have "key = fields_key ?i (xs_fields ?rec)" using e(4) kr k build_index_key_fields[OF io fine] by auto
    ultimately show ?thesis using rid f k by (auto simp: entry_fine_def Let_def scan_fine_def scan_of_def)
  qed
  then have "xs_open w x ix es" using e(1,2) io cond by (auto simp: xs_open_def cond_fine_def)
  with e(3,4) show thesis using that by blast
qed

lemma turn_conds_id: "\<forall>cond \<in> set conds. tc_tab_name (lhs_col cond) = t \<Longrightarrow> turn_conds t conds = Inr conds"
  by (induction conds) simp_all

lemma IndexScanExecutor_ok:
  assumes "IndexScanExecutor t conds names w = (Inr x, w')" "SeqScanExecutor t conds w = (Inr e, w'')"
    "\<forall>cond \<in> set conds. tc_tab_name (lhs_col cond) = t"
  shows "xs_tab_name x = t" "xs_conds x = conds" "scan_of x = e"
  using assms turn_conds_id[OF assms(3)]
  by (auto simp: IndexScanExecutor_def SeqScanExecutor_def andthen_Inr scan_of_def split: sum.splits if_splits)

section \<open>Properties\<close>

text \<open>Property C8: a scan through an index that agrees with the table ends and delivers the same rows as the
  scan of the whole table, each as often, in the order of their keys, and leaves the contents of the database as they are.\<close>

theorem index_scan_as_seq_scan:
  assumes "tables_ok (sm_tables w)" "SeqScanExecutor t conds w = (Inr e, w1)" "scan_fine w e"
    "IndexScanExecutor t conds names w = (Inr x, w2)" "index_serves w x"
    "\<forall>cond \<in> set conds. tc_tab_name (lhs_col cond) = t" "length (table_rids w t) \<le> fuel"
  shows "\<exists>rows rows' ws e' wx x'.
    run_query fuel (seq_scan_ops fuel) (w, e) = (Inr (map Some rows), (ws, e')) \<and>
    run_query fuel (index_scan_ops fuel) (w, x) = (Inr (map Some rows'), (wx, x')) \<and> db_view w wx \<and> mset rows' = mset rows \<and>
    sorted_wrt (\<lambda>a b. irank (xs_index x) (build_index_key (xs_index x) a) < irank (xs_index x) (build_index_key (xs_index x) b)) rows'"
proof -
  note x = IndexScanExecutor_ok[OF assms(4,2,6)]
  have e: "ss_tab_name e = t" "ss_conds e = conds" "ss_cols e = xs_cols x" using x by (auto simp: scan_of_def)
  obtain ix es where o: "xs_open w x ix es" "mset (map snd es) = mset (table_rids w t)"
    "\<forall>(key, rid) \<in> set es. key = build_index_key (xs_index x) (record_at w t rid)"
    by (rule index_serves_open[OF assms(5)]) (use assms(3) x in auto)
  have len: "length es = length (table_rids w t)" using arg_cong[OF o(2), of size] by simp
  then have "length es \<le> fuel" using assms(7) by simp
  then have "xs_src fuel w x (xs_rows w x (map snd es))" using o(1) unfolding xs_src_def by blast
  moreover have "length (xs_rows w x (map snd es)) \<le> fuel"
    using length_filter_le[of "xs_satisfies x" "map (record_at w (xs_tab_name x)) (map snd es)"] len assms(7) by (simp add: xs_rows_def)
  ultimately obtain wx x' where "run_query fuel (index_scan_ops fuel) (w, x) = (Inr (map Some (xs_rows w x (map snd es))), (wx, x'))" "db_view w wx"
    using xs.run_ok[OF db_view_refl[OF assms(1)]] by blast
  moreover have "ss_src fuel w e (scan_rows w e)" "length (scan_rows w e) \<le> fuel"
    using scan_src[OF assms(3)] scan_rows_length[of w e] assms(7) e(1) by simp_all
  then obtain ws e' where "run_query fuel (seq_scan_ops fuel) (w, e) = (Inr (map Some (scan_rows w e)), (ws, e'))"
    using ss.run_ok[OF db_view_refl[OF assms(1)]] by blast
  moreover have "mset (xs_rows w x (map snd es)) = mset (scan_rows w e)"
  proof -
    have "mset (map (record_at w t) (map snd es)) = mset (map (record_at w t) (table_rids w t))" using o(2) by (metis mset_map)
    then have "mset (filter P (map (record_at w t) (map snd es))) = mset (filter P (map (record_at w t) (table_rids w t)))" for P
      by (metis mset_filter)
    then show ?thesis using x e by (simp add: xs_rows_def scan_rows_def xs_satisfies_def[abs_def] del: map_map)
  qed
  moreover have "sorted_wrt (\<lambda>a b. irank (xs_index x) (build_index_key (xs_index x) a) < irank (xs_index x) (build_index_key (xs_index x) b))
      (xs_rows w x (map snd es))"
  proof -
    have "ordered_by (irank (xs_index x)) es" using o(1) index_ordered by (auto simp: xs_open_def)
    then have "sorted_wrt (\<lambda>a b. irank (xs_index x) (build_index_key (xs_index x) (record_at w t (snd a))) <
        irank (xs_index x) (build_index_key (xs_index x) (record_at w t (snd b)))) es"
      unfolding ordered_by_def by (rule sorted_wrt_mono_rel[rotated]) (use o(3) in \<open>fastforce split: prod.splits\<close>)
    then show ?thesis unfolding xs_rows_def by (intro sorted_wrt_filter) (simp add: sorted_wrt_map x(1))
  qed
  ultimately show ?thesis by blast
qed

text \<open>A table with one record and an index on its first column, and the condition \<open>a >= 0\<close>.\<close>

definition one_col_hdr :: "ColType \<Rightarrow> IxFileHdr" where
  "one_col_hdr ty = demo_ix_hdr\<lparr>col_num := 1, col_types := [ty], col_lens := [4], col_tot_len := 4\<rparr>"

definition one_entry_index :: "ColType \<Rightarrow> bytes \<Rightarrow> Rid \<Rightarrow> ix_state" where
  "one_entry_index ty key rid = \<lparr>ix_hdr = one_col_hdr ty, ix_nodes = [1 \<mapsto> leaf_header_node, 2 \<mapsto> init_root_node\<lparr>nd_pairs := [(key, rid)]\<rparr>], ix_next_page = 3\<rparr>"

lemma one_entry_tree:
  assumes "key_wf [ty] [4] key"
  shows "tree_inv (key_rank [ty] [4]) (key_wf [ty] [4]) (one_entry_index ty key rid) [2] []" "hdr_for [ty] [4] (ix_hdr (one_entry_index ty key rid))"
    "flat (ix_nodes (one_entry_index ty key rid)) [2] = [(key, rid)]"
  using assms
  by (simp_all add: one_entry_index_def one_col_hdr_def demo_ix_hdr_def get_max_size_def tree_inv_def pages_ok_def size_ok_def ring_def
      leaf_header_node_def init_root_node_def ordered_by_def hdr_for_def del: key_wf.simps)

lemma one_entry_holds: "key_wf [ty] [4] key \<Longrightarrow> index_holds [ty] [4] (one_entry_index ty key rid) [(key, rid)]"
  unfolding index_holds_def using one_entry_tree by blast

definition demo_index_meta :: IndexMeta where
  "demo_index_meta = \<lparr>im_tab_name = ''t'', im_col_tot_len = 4, im_col_num = 1, im_cols = [hd demo_table_cols]\<rparr>"

definition demo_cond :: Condition where
  "demo_cond = \<lparr>lhs_col = \<lparr>tc_tab_name = ''t'', tc_col_name = ''a''\<rparr>, cond_op = OP_GE, is_rhs_val = True,
     rhs_col = \<lparr>tc_tab_name = [], tc_col_name = []\<rparr>, rhs_val = \<lparr>v_data = IntVal 0, v_raw = Some (le_bytes 4 0)\<rparr>\<rparr>"

definition indexed_catalog :: DbMeta where
  "indexed_catalog = \<lparr>db_name = ''d'', db_tabs = [(''t'', \<lparr>tm_name = ''t'', tm_cols = demo_table_cols, tm_indexes = [demo_index_meta]\<rparr>)]\<rparr>"

definition demo_index_scan :: index_scan where
  "demo_index_scan = \<lparr>xs_tab_name = ''t'', xs_conds = [demo_cond], xs_cols = demo_table_cols, xs_len = 8, xs_index = demo_index_meta,
     xs_rid = Rid 0 0, xs_scan = None\<rparr>"

lemma demo_indexed:
  obtains w where "tables_ok (sm_tables w)" "SeqScanExecutor ''t'' [demo_cond] w = (Inr (scan_of demo_index_scan), w)" "scan_fine w (scan_of demo_index_scan)"
    "IndexScanExecutor ''t'' [demo_cond] [''a''] w = (Inr demo_index_scan, w)" "index_serves w demo_index_scan" "length (table_rids w ''t'') \<le> 1"
proof (rule demo_database)
  fix w assume w: "tables_ok (sm_tables w)" "scan_fine w demo_scan" "length (table_rids w ''t'') = 1" "scan_rows w demo_scan = [replicate 8 1]"
  obtain rid where rid: "table_rids w ''t'' = [rid]" using w(3) by (cases "table_rids w ''t''") auto
  have rec: "record_at w ''t'' rid = replicate 8 1" using w(4) rid by (simp add: scan_rows_def demo_scan_def)
  have dom: "dom (tables_db (sm_tables w) ''t'') = {rid}" using set_table_rids[of w "''t''"] rid by simp
  let ?key = "replicate 4 1 :: bytes"
  let ?ix = "one_entry_index TYPE_INT ?key rid"
  define w' where "w' = w\<lparr>sm_db := indexed_catalog, sm_ihs := [index_file ''t'' demo_index_meta \<mapsto> ?ix]\<rparr>"
  have same: "sm_tables w' = sm_tables w" "table_rids w' = table_rids w" "record_at w' = record_at w"
    by (simp_all add: w'_def table_rids_def[abs_def] record_at_def[abs_def])
  have o: "tf_fhs (sm_tables w) ''t'' \<noteq> None" using w(2) by (simp add: scan_fine_def demo_scan_def)
  have sat: "record_satisfies_conditions (replicate 8 1) demo_table_cols [demo_cond] = Inr True" by code_simp
  have key: "build_index_key demo_index_meta (replicate 8 1) = ?key" by code_simp
  show thesis
  proof (rule that[of w'])
    show "tables_ok (sm_tables w')" "length (table_rids w' ''t'') \<le> 1" using w(1,3) same by simp_all
    show "SeqScanExecutor ''t'' [demo_cond] w' = (Inr (scan_of demo_index_scan), w')"
      using o by (simp add: SeqScanExecutor_def w'_def get_table_def indexed_catalog_def demo_table_cols_def scan_of_def demo_index_scan_def)
    show "IndexScanExecutor ''t'' [demo_cond] [''a''] w' = (Inr demo_index_scan, w')"
      using o by (simp add: IndexScanExecutor_def w'_def get_table_def indexed_catalog_def demo_table_cols_def demo_index_scan_def get_index_meta_def
          index_on_def demo_index_meta_def index_file_def demo_cond_def)
    show "scan_fine w' (scan_of demo_index_scan)"
      using o dom rec sat same by (auto simp: scan_fine_def scan_of_def demo_index_scan_def)
    have fine: "col_fine (hd demo_table_cols) (field (hd demo_table_cols) (replicate 8 1))" "value_fine (hd demo_table_cols) (rhs_val demo_cond)"
      "index_col_of demo_table_cols ''t'' (hd demo_table_cols)"
      by (simp_all add: col_fine_def demo_table_cols_def field_def mem_get_def value_fine_def demo_cond_def index_col_of_def find_col_meta_def)
    then have "index_cols_ok demo_index_meta" by (auto simp: index_cols_ok_def demo_index_meta_def has_values_def) (simp add: demo_table_cols_def)
    moreover have "index_holds [TYPE_INT] [4] ?ix [(?key, rid)]" by (rule one_entry_holds) simp
    moreover have "val_type (rhs_val demo_cond) = cm_type (hd demo_table_cols)" "cm_type (hd demo_table_cols) = TYPE_INT" "cm_len (hd demo_table_cols) = 4"
      by (simp_all add: demo_cond_def demo_table_cols_def)
    ultimately show "index_serves w' demo_index_scan"
      unfolding index_serves_def Let_def
      by (intro conjI exI[of _ ?ix] exI[of _ "[(?key, rid)]"])
        (use fine same dom rid rec key in \<open>auto simp: demo_index_scan_def demo_index_meta_def w'_def\<close>)
  qed
qed

theorem index_scan_as_seq_scan_witness:
  "\<exists>w rows rows' ws e' wx x'. run_query 1 (seq_scan_ops 1) (w, scan_of demo_index_scan) = (Inr (map Some rows), (ws, e')) \<and>
    run_query 1 (index_scan_ops 1) (w, demo_index_scan) = (Inr (map Some rows'), (wx, x')) \<and> mset rows' = mset rows"
proof (rule demo_indexed)
  fix w assume w: "tables_ok (sm_tables w)" "SeqScanExecutor ''t'' [demo_cond] w = (Inr (scan_of demo_index_scan), w)" "scan_fine w (scan_of demo_index_scan)"
    "IndexScanExecutor ''t'' [demo_cond] [''a''] w = (Inr demo_index_scan, w)" "index_serves w demo_index_scan" "length (table_rids w ''t'') \<le> 1"
  have "\<forall>cond \<in> set [demo_cond]. tc_tab_name (lhs_col cond) = ''t''" by (simp add: demo_cond_def)
  from index_scan_as_seq_scan[OF w(1-5) this w(6)] show ?thesis by blast
qed

text \<open>A table with one float column, a record that holds minus infinity, and the condition \<open>f < 1.0\<close>.\<close>

definition float_cols :: "ColMeta list" where
  "float_cols = [\<lparr>cm_tab_name = ''t'', cm_name = ''f'', cm_type = TYPE_FLOAT, cm_len = 4, cm_offset = 0, cm_index = True\<rparr>]"

definition float_index_meta :: IndexMeta where
  "float_index_meta = \<lparr>im_tab_name = ''t'', im_col_tot_len = 4, im_col_num = 1, im_cols = float_cols\<rparr>"

definition below_one :: Condition where
  "below_one = \<lparr>lhs_col = \<lparr>tc_tab_name = ''t'', tc_col_name = ''f''\<rparr>, cond_op = OP_LT, is_rhs_val = True,
     rhs_col = \<lparr>tc_tab_name = [], tc_col_name = []\<rparr>, rhs_val = \<lparr>v_data = FloatVal 0x3F800000, v_raw = Some (le_bytes 4 0x3F800000)\<rparr>\<rparr>"

definition minus_infinity :: bytes where
  "minus_infinity = le_bytes 4 0xFF800000"


end
