(* ===== verification/SystemManager.thy ===== *)
theory SystemManager
  imports IndexScan
begin

text \<open>
  The statements that change the catalog, and opening and closing a database (\<open>system/sm_manager.cpp\<close>), with the
  operations on index files they use (\<open>index/ix_manager.h\<close>). Table files live on the disk of the buffer pool; an index
  file is its header page and its nodes, as an open index is. What \<open>open(2)\<close> returns is a parameter for table files;
  opening an index file does not fail. The directory of the database is the current one.
\<close>

section \<open>Index files\<close>

record ix_file =
  xf_header :: bytes
  xf_nodes :: "page_id_t \<rightharpoonup> ix_node"

text \<open>\<open>ix_opened\<close> are the index files \<open>DiskManager\<close> has a descriptor for.\<close>

record sm_state =
  sm_base :: database
  ix_files :: "string \<rightharpoonup> ix_file"
  ix_opened :: "string set"

definition on_base :: "(database, 'a) comp \<Rightarrow> (sm_state, 'a) comp" where
  "on_base m s = (case m (sm_base s) of (r, w) \<Rightarrow> (r, s\<lparr>sm_base := w\<rparr>))"

definition on_bpm :: "(buffer_pool, 'a) comp \<Rightarrow> (database, 'a) comp" where
  "on_bpm m w =
     (case m (tf_pool (sm_tables w)) of (r, b) \<Rightarrow> (r, w\<lparr>sm_tables := (sm_tables w)\<lparr>tf_pool := b\<rparr>\<rparr>))"

definition edit_db :: "(DbMeta \<Rightarrow> DbMeta) \<Rightarrow> (sm_state, unit) comp" where
  "edit_db f = modifyE (\<lambda>s. s\<lparr>sm_base := (sm_base s)\<lparr>sm_db := f (sm_db (sm_base s))\<rparr>\<rparr>)"

definition edit_ihs :: "((string \<rightharpoonup> ix_state) \<Rightarrow> string \<rightharpoonup> ix_state) \<Rightarrow> (sm_state, unit) comp" where
  "edit_ihs f = modifyE (\<lambda>s. s\<lparr>sm_base := (sm_base s)\<lparr>sm_ihs := f (sm_ihs (sm_base s))\<rparr>\<rparr>)"

definition index_name :: "string \<Rightarrow> ColMeta list \<Rightarrow> string" where
  "index_name filename index_cols = get_index_name filename (map cm_name index_cols)"

definition ix_exists :: "sm_state \<Rightarrow> string \<Rightarrow> ColMeta list \<Rightarrow> bool" where
  "ix_exists s filename index_cols \<longleftrightarrow> ix_files s (index_name filename index_cols) \<noteq> None"

text \<open>The header of a new index; \<open>24\<close> is the size of \<open>IxPageHdr\<close> and \<open>8\<close> that of \<open>Rid\<close>.\<close>

definition new_ix_hdr :: "ColMeta list \<Rightarrow> IxFileHdr" where
  "new_ix_hdr index_cols =
     (let tot = sum_list (map cm_len index_cols);
          order = (int PAGE_SIZE - 24) div (tot + 8) - 1
      in update_tot_len \<lparr>ix_first_free_page_no = IX_NO_PAGE, ix_num_pages = IX_INIT_NUM_PAGES, root_page = IX_INIT_ROOT_PAGE,
           col_num = int (length index_cols), col_types = map cm_type index_cols, col_lens = map cm_len index_cols,
           col_tot_len = tot, btree_order = order, keys_size = (order + 1) * tot,
           first_leaf = IX_INIT_ROOT_PAGE, last_leaf = IX_INIT_ROOT_PAGE, tot_len = 0\<rparr>)"

definition put_ix_file :: "string \<Rightarrow> ix_file \<Rightarrow> (sm_state, unit) comp" where
  "put_ix_file name f = modifyE (\<lambda>s. s\<lparr>ix_files := (ix_files s)(name \<mapsto> f)\<rparr>)"

definition set_opened :: "string \<Rightarrow> bool \<Rightarrow> (sm_state, unit) comp" where
  "set_opened name b = modifyE (\<lambda>s. s\<lparr>ix_opened := (if b then insert name (ix_opened s) else ix_opened s - {name})\<rparr>)"

text \<open>Columns that are too long are only found after the file has been created and opened.\<close>

definition ix_create_index :: "string \<Rightarrow> ColMeta list \<Rightarrow> (sm_state, unit) comp" where
  "ix_create_index filename index_cols =
     (let name = index_name filename index_cols; tot = sum_list (map cm_len index_cols); h = new_ix_hdr index_cols in
      bindE (getE (\<lambda>s. ix_exists s filename index_cols)) (\<lambda>ex.
        if ex then throwE (FileExistsError name)
        else
          thenE (put_ix_file name \<lparr>xf_header = [], xf_nodes = Map.empty\<rparr>)
         (thenE (set_opened name True)
           (if IX_MAX_COL_LEN < tot then throwE (InvalidColLengthError tot)
            else
              thenE (assertE (2 < btree_order h))
                (case ix_serialize h of
                   Inl e \<Rightarrow> throwE e
                 | Inr data \<Rightarrow>
                     thenE (put_ix_file name \<lparr>xf_header = data, xf_nodes = [1 \<mapsto> leaf_header_node, 2 \<mapsto> init_root_node]\<rparr>)
                       (set_opened name False))))))"

text \<open>The number of pages of the file, from its size.\<close>

definition ix_file_pages :: "ix_file \<Rightarrow> page_id_t" where
  "ix_file_pages f = 1 + Max (insert 0 (dom (xf_nodes f)))"

text \<open>The constructor of \<open>IxIndexHandle\<close> reads the header page, which is zero after the header, and moves the page
  counter on by one.\<close>

definition IxIndexHandle :: "ix_file \<Rightarrow> rmdb_error + ix_state" where
  "IxIndexHandle f =
     (if xf_header f = [] then Inl (InternalError ''DiskManager::read_page Error'')
      else
        (case ix_deserialize (xf_header f @ replicate (PAGE_SIZE - length (xf_header f)) 0) of
           Inl e \<Rightarrow> Inl e
         | Inr h \<Rightarrow> Inr \<lparr>ix_hdr = h, ix_nodes = xf_nodes f, ix_next_page = ix_file_pages f + 1\<rparr>))"

definition ix_open_index :: "string \<Rightarrow> ColMeta list \<Rightarrow> (sm_state, ix_state) comp" where
  "ix_open_index filename index_cols =
     (let name = index_name filename index_cols in
      bindE (getE (\<lambda>s. ix_files s name)) (\<lambda>found.
        case found of
          None \<Rightarrow> throwE (FileNotFoundError name)
        | Some f \<Rightarrow>
            thenE (set_opened name True)
              (case IxIndexHandle f of Inl e \<Rightarrow> throwE e | Inr ih \<Rightarrow> returnE ih)))"

definition ix_close_index :: "string \<Rightarrow> ix_state \<Rightarrow> (sm_state, unit) comp" where
  "ix_close_index name ih =
     (case ix_serialize (ix_hdr ih) of
        Inl e \<Rightarrow> throwE e
      | Inr data \<Rightarrow>
          thenE (put_ix_file name \<lparr>xf_header = data, xf_nodes = ix_nodes ih\<rparr>) (set_opened name False))"

definition ix_destroy_index :: "string \<Rightarrow> ColMeta list \<Rightarrow> (sm_state, unit) comp" where
  "ix_destroy_index filename index_cols =
     (let name = index_name filename index_cols in
      bindE (getE id) (\<lambda>s.
        if ix_files s name = None then throwE (FileNotFoundError name)
        else if name \<in> ix_opened s then throwE (FileNotClosedError name)
        else modifyE (\<lambda>s. s\<lparr>ix_files := (ix_files s)(name := None)\<rparr>)))"

section \<open>The catalog\<close>

definition DB_META_NAME :: string where "DB_META_NAME = ''db.meta''"

definition flush_meta :: "(sm_state, unit) comp" where
  "flush_meta =
     bindE (getE (sm_db \<circ> sm_base)) (\<lambda>db.
       on_base (on_bpm (on_disk (modifyE (\<lambda>d.
         d\<lparr>dm_os := (dm_os d)\<lparr>os_files := (os_files (dm_os d))(DB_META_NAME \<mapsto> bytes_of_string (show_db db))\<rparr>\<rparr>)))))"

text \<open>A change of \<open>db_.tabs_[tab_name]\<close> through a reference, and of the first column of a name.\<close>

definition edit_tab :: "string \<Rightarrow> (TabMeta \<Rightarrow> TabMeta) \<Rightarrow> (sm_state, unit) comp" where
  "edit_tab tab_name f = edit_db (\<lambda>db. db\<lparr>db_tabs := map (\<lambda>(n, t). if n = tab_name then (n, f t) else (n, t)) (db_tabs db)\<rparr>)"

fun set_col_index :: "string \<Rightarrow> bool \<Rightarrow> ColMeta list \<Rightarrow> ColMeta list" where
  "set_col_index name b [] = []"
| "set_col_index name b (col # cs) = (if cm_name col = name then col\<lparr>cm_index := b\<rparr> # cs else col # set_col_index name b cs)"

definition mark_col :: "string \<Rightarrow> bool \<Rightarrow> TabMeta \<Rightarrow> TabMeta" where
  "mark_col name b tab = tab\<lparr>tm_cols := set_col_index name b (tm_cols tab)\<rparr>"

definition find_table :: "string \<Rightarrow> (sm_state, TabMeta) comp" where
  "find_table tab_name =
     bindE (getE (\<lambda>s. get_table (sm_db (sm_base s)) tab_name)) (\<lambda>r. case r of Inl e \<Rightarrow> throwE e | Inr tab \<Rightarrow> returnE tab)"

section \<open>Tables\<close>

text \<open>The columns in order, each behind the one before; the sum of the lengths is a C \<open>int\<close>.\<close>

fun place_cols :: "string \<Rightarrow> int \<Rightarrow> ColDef list \<Rightarrow> ColMeta list" where
  "place_cols tab_name curr_offset [] = []"
| "place_cols tab_name curr_offset (d # ds) =
     \<lparr>cm_tab_name = tab_name, cm_name = def_name d, cm_type = def_type d, cm_len = def_len d, cm_offset = curr_offset, cm_index = False\<rparr> #
     place_cols tab_name (curr_offset + def_len d) ds"

fun lens_fit :: "int \<Rightarrow> ColDef list \<Rightarrow> bool" where
  "lens_fit curr_offset [] \<longleftrightarrow> True"
| "lens_fit curr_offset (d # ds) \<longleftrightarrow> int32 (curr_offset + def_len d) \<and> lens_fit (curr_offset + def_len d) ds"

definition create_table :: "int \<Rightarrow> int \<Rightarrow> int \<Rightarrow> bytes \<Rightarrow> string \<Rightarrow> ColDef list \<Rightarrow> (sm_state, unit) comp" where
  "create_table ofd1 ofd2 ofd3 junk tab_name col_defs =
     bindE (getE (\<lambda>s. is_table (sm_db (sm_base s)) tab_name)) (\<lambda>ex.
       if ex then throwE (TableExistsError tab_name)
       else if \<not> lens_fit 0 col_defs then throwE UndefinedBehaviour
       else
         thenE (on_base (on_bpm (on_disk (rm_create_file ofd1 ofd2 tab_name (sum_list (map def_len col_defs))))))
        (thenE (edit_db (SetTabMeta tab_name \<lparr>tm_name = tab_name, tm_cols = place_cols tab_name 0 col_defs, tm_indexes = []\<rparr>))
        (bindE (on_base (on_bpm (rm_open_file junk ofd3 tab_name))) (\<lambda>fh.
          thenE (on_base (modifyE (\<lambda>w. if tf_fhs (sm_tables w) tab_name = None
                   then w\<lparr>sm_tables := (sm_tables w)\<lparr>tf_fhs := (tf_fhs (sm_tables w))(tab_name \<mapsto> fh)\<rparr>\<rparr> else w)))
            flush_meta))))"

text \<open>Closing the index if it is open, and forgetting its handle.\<close>

definition close_if_open :: "string \<Rightarrow> (sm_state, unit) comp" where
  "close_if_open name =
     bindE (getE (\<lambda>s. sm_ihs (sm_base s) name)) (\<lambda>found.
       case found of
         None \<Rightarrow> returnE ()
       | Some ih \<Rightarrow> thenE (ix_close_index name ih) (edit_ihs (\<lambda>ihs. ihs(name := None))))"

definition close_table :: "string \<Rightarrow> (sm_state, unit) comp" where
  "close_table tab_name =
     bindE (getE (\<lambda>s. tf_fhs (sm_tables (sm_base s)) tab_name)) (\<lambda>fh.
       if fh = None then returnE ()
       else
         thenE (on_base (on_tables (on_file tab_name rm_close_file)))
           (on_base (modifyE (\<lambda>w. w\<lparr>sm_tables := (sm_tables w)\<lparr>tf_fhs := (tf_fhs (sm_tables w))(tab_name := None)\<rparr>\<rparr>))))"

definition drop_table :: "string \<Rightarrow> (sm_state, unit) comp" where
  "drop_table tab_name =
     bindE (find_table tab_name) (\<lambda>tab.
       thenE (mapE (\<lambda>index. thenE (close_if_open (index_name tab_name (im_cols index))) (ix_destroy_index tab_name (im_cols index))) (tm_indexes tab))
      (thenE (close_table tab_name)
      (thenE (on_base (on_bpm (on_disk (rm_destroy_file tab_name))))
      (thenE (edit_db (\<lambda>db. db\<lparr>db_tabs := filter (\<lambda>(n, t). n \<noteq> tab_name) (db_tabs db)\<rparr>))
        flush_meta))))"

section \<open>Indexes\<close>

definition ensure_unique_key :: "nat \<Rightarrow> bytes \<Rightarrow> Rid option \<Rightarrow> (ix_state, unit) comp" where
  "ensure_unique_key fuel key self_rid =
     bindE (get_value fuel key) (\<lambda>hit.
       if hit \<noteq> None \<and> (self_rid = None \<or> hit \<noteq> self_rid) then throwE (RMDBError ''Unique index constraint violated'')
       else returnE ())"

definition on_ix :: "(ix_state, 'a) comp \<Rightarrow> (database \<times> ix_state, 'a) comp" where
  "on_ix m s = (case m (snd s) of (r, ix) \<Rightarrow> (r, (fst s, ix)))"

text \<open>The loop over the records of the table; \<open>check\<close> says whether uniqueness is tested before an insertion.
  \<open>n\<close> bounds the number of records.\<close>

fun fill_index :: "nat \<Rightarrow> bool \<Rightarrow> nat \<Rightarrow> string \<Rightarrow> IndexMeta \<Rightarrow> Rid \<Rightarrow> (database \<times> ix_state, unit) comp" where
  "fill_index fuel check n tab_name index rid =
     bindE (getE (\<lambda>s. scan_is_end (table_hdr (fst s) tab_name) rid)) (\<lambda>ended.
       if ended then returnE ()
       else
         (case n of
            0 \<Rightarrow> throwE OutOfFuel
          | Suc n' \<Rightarrow>
              bindE (on_db (on_tables (on_file tab_name (get_record rid)))) (\<lambda>rec.
                thenE (if check then on_ix (ensure_unique_key fuel (build_index_key index rec) None) else returnE ())
               (thenE (on_ix (insert_entry fuel (build_index_key index rec) rid))
               (bindE (on_db (on_tables (on_file tab_name (scan_next rid)))) (\<lambda>next.
                  fill_index fuel check n' tab_name index next))))))"

declare fill_index.simps [simp del]

definition scan_into_index :: "nat \<Rightarrow> bool \<Rightarrow> nat \<Rightarrow> string \<Rightarrow> IndexMeta \<Rightarrow> (database \<times> ix_state, unit) comp" where
  "scan_into_index fuel check n tab_name index =
     bindE (on_db (on_tables (on_file tab_name RmScan))) (\<lambda>rid. fill_index fuel check n tab_name index rid)"

text \<open>Running the loop on an index handle that is not in \<open>ihs_\<close> yet: the result is the outcome and the handle.\<close>

definition with_handle :: "ix_state \<Rightarrow> (database \<times> ix_state, unit) comp \<Rightarrow> (sm_state, (rmdb_error + unit) \<times> ix_state) comp" where
  "with_handle ih m s = (case m (sm_base s, ih) of (r, (w, ih')) \<Rightarrow> (Inr (r, ih'), s\<lparr>sm_base := w\<rparr>))"

fun get_cols :: "TabMeta \<Rightarrow> string list \<Rightarrow> rmdb_error + ColMeta list" where
  "get_cols tab [] = Inr []"
| "get_cols tab (name # names) = andthen (get_col tab name) (\<lambda>col. andthen (get_cols tab names) (\<lambda>cs. Inr (col # cs)))"

definition new_index_meta :: "string \<Rightarrow> ColMeta list \<Rightarrow> IndexMeta" where
  "new_index_meta tab_name index_cols =
     \<lparr>im_tab_name = tab_name, im_col_tot_len = sum_list (map cm_len index_cols), im_col_num = int (length index_cols), im_cols = index_cols\<rparr>"

definition create_index :: "nat \<Rightarrow> nat \<Rightarrow> string \<Rightarrow> string list \<Rightarrow> (sm_state, unit) comp" where
  "create_index fuel n tab_name col_names =
     bindE (find_table tab_name) (\<lambda>tab.
       if is_index tab col_names then throwE (IndexExistsError tab_name col_names)
       else
         (case get_cols tab col_names of
            Inl e \<Rightarrow> throwE e
          | Inr index_cols \<Rightarrow>
              (let index = new_index_meta tab_name index_cols; name = index_name tab_name index_cols in
               thenE (ix_create_index tab_name index_cols)
              (bindE (ix_open_index tab_name index_cols) (\<lambda>ih.
               bindE (getE (\<lambda>s. tf_fhs (sm_tables (sm_base s)) tab_name)) (\<lambda>fh.
                 if fh = None then throwE OutOfRange
                 else
                   bindE (with_handle ih (scan_into_index fuel True n tab_name index)) (\<lambda>(r, ih').
                     case r of
                       Inl e \<Rightarrow> thenE (ix_close_index name ih') (thenE (ix_destroy_index tab_name index_cols) (throwE e))
                     | Inr _ \<Rightarrow>
                         thenE (edit_tab tab_name (\<lambda>t. fold (\<lambda>c. mark_col c True) col_names t))
                        (thenE (edit_tab tab_name (\<lambda>t. t\<lparr>tm_indexes := tm_indexes t @ [index]\<rparr>))
                        (thenE (edit_ihs (\<lambda>ihs. ihs(name \<mapsto> ih')))
                          flush_meta)))))))))"

text \<open>The first index with these columns is erased.\<close>

definition still_indexed :: "IndexMeta list \<Rightarrow> string \<Rightarrow> bool" where
  "still_indexed indexes name \<longleftrightarrow> (\<exists>index \<in> set indexes. \<exists>c \<in> set (im_cols index). cm_name c = name)"

fun remove_index :: "string list \<Rightarrow> IndexMeta list \<Rightarrow> IndexMeta list" where
  "remove_index col_names [] = []"
| "remove_index col_names (index # indexes) = (if index_on col_names index then indexes else index # remove_index col_names indexes)"

definition drop_index :: "string \<Rightarrow> string list \<Rightarrow> (sm_state, unit) comp" where
  "drop_index tab_name col_names =
     bindE (find_table tab_name) (\<lambda>tab.
       case get_index_meta tab col_names of
         Inl e \<Rightarrow> throwE e
       | Inr index \<Rightarrow>
           thenE (close_if_open (index_name tab_name (im_cols index)))
          (thenE (ix_destroy_index tab_name (im_cols index))
          (thenE (edit_tab tab_name (\<lambda>t. t\<lparr>tm_indexes := remove_index col_names (tm_indexes t)\<rparr>))
          (thenE (edit_tab tab_name (\<lambda>t. fold (\<lambda>c. mark_col (cm_name c) (still_indexed (tm_indexes t) (cm_name c))) (im_cols index) t))
            flush_meta))))"

definition drop_index_cols :: "string \<Rightarrow> ColMeta list \<Rightarrow> (sm_state, unit) comp" where
  "drop_index_cols tab_name cs = drop_index tab_name (map cm_name cs)"

text \<open>Rebuilding: an index that is open or on disk is thrown away and built again.\<close>

definition rebuild_index :: "nat \<Rightarrow> nat \<Rightarrow> string \<Rightarrow> IndexMeta \<Rightarrow> (sm_state, unit) comp" where
  "rebuild_index fuel n tab_name index =
     (let name = index_name tab_name (im_cols index) in
      thenE (close_if_open name)
     (bindE (getE (\<lambda>s. ix_exists s tab_name (im_cols index))) (\<lambda>ex.
      thenE (if ex then ix_destroy_index tab_name (im_cols index) else returnE ())
     (thenE (ix_create_index tab_name (im_cols index))
     (bindE (ix_open_index tab_name (im_cols index)) (\<lambda>ih.
      bindE (with_handle ih (scan_into_index fuel False n tab_name index)) (\<lambda>(r, ih').
        case r of
          Inl e \<Rightarrow> throwE e
        | Inr _ \<Rightarrow> edit_ihs (\<lambda>ihs. ihs(name \<mapsto> ih')))))))))"

definition rebuild_indexes :: "nat \<Rightarrow> nat \<Rightarrow> (sm_state, unit) comp" where
  "rebuild_indexes fuel n =
     bindE (getE (db_tabs \<circ> sm_db \<circ> sm_base)) (\<lambda>tabs.
       mapE (\<lambda>(tab_name, tab).
         bindE (getE (\<lambda>s. tf_fhs (sm_tables (sm_base s)) tab_name)) (\<lambda>fh.
           if fh = None then throwE OutOfRange
           else mapE (rebuild_index fuel n tab_name) (tm_indexes tab))) tabs)"

section \<open>Opening and closing a database\<close>

text \<open>\<open>ofd\<close> gives the descriptor of each table file. A catalog that cannot be read leaves \<open>db_\<close> half filled.\<close>

definition open_db :: "(string \<Rightarrow> int) \<Rightarrow> bytes \<Rightarrow> (sm_state, unit) comp" where
  "open_db ofd junk =
     thenE (modifyE (\<lambda>s. s\<lparr>sm_base := (sm_base s)\<lparr>sm_db := \<lparr>db_name = [], db_tabs = []\<rparr>, sm_ihs := Map.empty,
              sm_tables := (sm_tables (sm_base s))\<lparr>tf_fhs := Map.empty\<rparr>\<rparr>\<rparr>))
    (bindE (getE (\<lambda>s. os_files (dm_os (bp_disk (tf_pool (sm_tables (sm_base s))))) DB_META_NAME)) (\<lambda>meta.
       case meta of
         None \<Rightarrow> throwE (FileNotFoundError DB_META_NAME)
       | Some bs \<Rightarrow>
           (case read_db (map (\<lambda>b. char_of (unat b)) bs) of
              None \<Rightarrow> throwE UndefinedBehaviour
            | Some (db, _) \<Rightarrow>
                thenE (edit_db (\<lambda>_. db))
                  (mapE (\<lambda>(tab_name, tab).
                     bindE (on_base (on_bpm (rm_open_file junk (ofd tab_name) tab_name))) (\<lambda>fh.
                       thenE (on_base (modifyE (\<lambda>w. w\<lparr>sm_tables := (sm_tables w)\<lparr>tf_fhs := (tf_fhs (sm_tables w))(tab_name \<mapsto> fh)\<rparr>\<rparr>)))
                         (mapE (\<lambda>index.
                            bindE (ix_open_index tab_name (im_cols index)) (\<lambda>ih.
                              edit_ihs (\<lambda>ihs. if ihs (index_name tab_name (im_cols index)) = None
                                then ihs(index_name tab_name (im_cols index) \<mapsto> ih) else ihs))) (tm_indexes tab))))
                     (db_tabs db)))))"

text \<open>\<open>ih_names\<close> and \<open>fh_names\<close> are the keys of the hash maps in the order of their iteration.\<close>

definition close_db :: "string list \<Rightarrow> string list \<Rightarrow> (sm_state, unit) comp" where
  "close_db ih_names fh_names =
     bindE (getE (db_name \<circ> sm_db \<circ> sm_base)) (\<lambda>name.
       if name = [] then returnE ()
       else
         thenE flush_meta
        (thenE (mapE (\<lambda>n. bindE (getE (\<lambda>s. sm_ihs (sm_base s) n)) (\<lambda>ih. ix_close_index n (the ih))) ih_names)
        (thenE (edit_ihs (\<lambda>_. Map.empty))
        (thenE (mapE (\<lambda>t. on_base (on_tables (on_file t rm_close_file))) fh_names)
        (thenE (on_base (modifyE (\<lambda>w. w\<lparr>sm_tables := (sm_tables w)\<lparr>tf_fhs := Map.empty\<rparr>\<rparr>)))
          (edit_db (\<lambda>_. \<lparr>db_name = [], db_tabs = []\<rparr>)))))))"


section \<open>A new index file\<close>

text \<open>The columns a header page has room for, of a total length an index allows.\<close>

definition cols_fit :: "ColMeta list \<Rightarrow> bool" where
  "cols_fit cs \<longleftrightarrow> (\<forall>c \<in> set cs. 0 \<le> cm_len c) \<and> sum_list (lens_of cs) \<le> IX_MAX_COL_LEN \<and> length cs \<le> 507"

lemma sum_list_bound: "\<forall>x \<in> set xs. 0 \<le> x \<Longrightarrow> x \<in> set xs \<Longrightarrow> x \<le> sum_list xs" for xs :: "int list"
  by (rule member_le_sum_list) auto

lemma order_range:
  assumes "0 \<le> k" "k \<le> 512"
  shows "2 < (4072::int) div (k + 8) - 1" "(4072::int) div (k + 8) - 1 \<le> 508"
proof -
  have "(4072::int) div 520 \<le> 4072 div (k + 8)" using assms by (intro zdiv_mono2) simp_all
  then show "2 < (4072::int) div (k + 8) - 1" by simp
  have "(4072::int) div (k + 8) \<le> 4072 div 8" using assms by (intro zdiv_mono2) simp_all
  then show "(4072::int) div (k + 8) - 1 \<le> 508" by simp
qed

lemma new_ix_hdr_ok:
  assumes "cols_fit cs"
  shows "hdr_for (types_of cs) (lens_of cs) (new_ix_hdr cs)" "ix_hdr_wf (new_ix_hdr cs)"
    "root_page (new_ix_hdr cs) = 2" "first_leaf (new_ix_hdr cs) = 2" "last_leaf (new_ix_hdr cs) = 2"
proof -
  let ?k = "sum_list (lens_of cs)" and ?o = "4072 div (sum_list (lens_of cs) + 8) - (1::int)"
  have k: "0 \<le> ?k" "?k \<le> 512" using assms by (auto simp: cols_fit_def intro!: sum_list_nonneg)
  note o = order_range[OF k]
  show "hdr_for (types_of cs) (lens_of cs) (new_ix_hdr cs)" using o(1) by (simp add: hdr_for_def new_ix_hdr_def Let_def update_tot_len_def)
  have "(?o + 1) * ?k \<le> 509 * 512" using o k by (intro mult_mono) simp_all
  moreover have "0 \<le> (?o + 1) * ?k" using o(1) k(1) by simp
  ultimately have ks: "int32 ((?o + 1) * ?k)" unfolding int32_def by (simp del: mult_minus_left)
  have "int32 (cm_len c)" if "c \<in> set cs" for c
    using assms that k(2) sum_list_bound[of "map cm_len cs" "cm_len c"] by (auto simp: cols_fit_def int32_def)
  moreover have "int32 (ColType_code ty)" for ty by (cases ty) (simp_all add: int32_def)
  moreover have "length cs \<le> 507" using assms by (simp add: cols_fit_def)
  ultimately show "ix_hdr_wf (new_ix_hdr cs)" using ks o k
    by (auto simp: ix_hdr_wf_def new_ix_hdr_def Let_def update_tot_len_def hdr_fields_def list_all_iff int32_def)
qed (simp_all add: new_ix_hdr_def Let_def update_tot_len_def)

text \<open>Creating an index file and opening it gives an empty index.\<close>

lemma create_and_open:
  assumes cs: "cols_fit cs" and new: "ix_files s (index_name t cs) = None"
  defines "name \<equiv> index_name t cs"
  obtains f s1 ih where "ix_create_index t cs s = (Inr (), s1)"
    "ix_open_index t cs s1 = (Inr ih, s\<lparr>ix_files := (ix_files s)(name \<mapsto> f), ix_opened := insert name (ix_opened s)\<rparr>)"
    "index_holds (types_of cs) (lens_of cs) ih []" "ix_hdr ih = new_ix_hdr cs"
proof -
  let ?h = "new_ix_hdr cs"
  note h = new_ix_hdr_ok[OF cs]
  obtain bs where bs: "ix_serialize ?h = Inr bs" "int (length bs) = tot_len ?h" using ix_hdr_roundtrip[OF h(2), of "[]"] by blast
  then have de: "ix_deserialize (bs @ replicate (PAGE_SIZE - length bs) 0) = Inr ?h"
    using ix_hdr_roundtrip[OF h(2), of "replicate (PAGE_SIZE - length bs) 0"] by auto
  have ne: "bs \<noteq> []" using bs(2) by (auto simp: new_ix_hdr_def Let_def update_tot_len_def)
  define f where "f = \<lparr>xf_header = bs, xf_nodes = [1 \<mapsto> leaf_header_node, 2 \<mapsto> init_root_node]\<rparr>"
  define s1 where "s1 = s\<lparr>ix_files := (ix_files s)(name \<mapsto> f), ix_opened := ix_opened s - {name}\<rparr>"
  define ih where "ih = \<lparr>ix_hdr = ?h, ix_nodes = [1 \<mapsto> leaf_header_node, 2 \<mapsto> init_root_node], ix_next_page = 4\<rparr>"
  have tot: "\<not> IX_MAX_COL_LEN < sum_list (lens_of cs)" using cs by (simp add: cols_fit_def)
  have "2 < btree_order ?h" using h(1) by (simp add: hdr_for_def)
  then have "ix_create_index t cs s = (Inr (), s1)"
    using new tot bs(1) by (simp add: ix_create_index_def Let_def ix_exists_def put_ix_file_def set_opened_def s1_def f_def name_def)
  moreover have "ix_file_pages f = 3" by (simp add: ix_file_pages_def f_def)
  then have "IxIndexHandle f = Inr ih" using de ne by (simp add: IxIndexHandle_def f_def ih_def)
  then have "ix_open_index t cs s1 = (Inr ih, s\<lparr>ix_files := (ix_files s)(name \<mapsto> f), ix_opened := insert name (ix_opened s)\<rparr>)"
    by (simp add: ix_open_index_def Let_def s1_def name_def set_opened_def)
  moreover have "index_holds (types_of cs) (lens_of cs) ih []" unfolding ih_def by (rule fresh_index_holds) (use h in simp_all)
  ultimately show ?thesis by (rule that) (simp add: ih_def)
qed

section \<open>Building an index from a table\<close>

text \<open>The key of a record, the entry the index should have for it, and the rank of the key.\<close>

definition rid_key :: "database \<Rightarrow> string \<Rightarrow> IndexMeta \<Rightarrow> Rid \<Rightarrow> bytes" where
  "rid_key w t index rid = build_index_key index (record_at w t rid)"

definition table_entries :: "database \<Rightarrow> string \<Rightarrow> IndexMeta \<Rightarrow> (bytes \<times> Rid) list" where
  "table_entries w t index = map (\<lambda>rid. (rid_key w t index rid, rid)) (table_rids w t)"

definition keys_distinct :: "database \<Rightarrow> string \<Rightarrow> IndexMeta \<Rightarrow> bool" where
  "keys_distinct w t index \<longleftrightarrow>
     distinct (map (\<lambda>rid. key_rank (types_of (im_cols index)) (lens_of (im_cols index)) (rid_key w t index rid)) (table_rids w t))"

lemma lookup_by_None: "lookup_by rank x kvs = None \<longleftrightarrow> rank x \<notin> set (map (\<lambda>kv. rank (fst kv)) kvs)"
  by (force simp: lookup_by_def find_None_iff)

lemma mset_insert_by:
  assumes "ordered_by rank kvs" "lookup_by rank x kvs = None"
  shows "mset (insert_by rank x v kvs) = add_mset (x, v) (mset kvs)"
proof -
  have "mset (take n kvs) + mset (drop n kvs) = mset kvs" for n by (metis append_take_drop_id mset_append)
  then show ?thesis by (simp add: insert_by_below[OF assms])
qed

text \<open>One step: the key is new and its entry is added, or the loop ends with the error.\<close>

lemma add_entry:
  assumes ix: "index_holds types lens ih es" and k: "key_wf types lens key" and f: "length es \<le> fuel"
  obtains (added) p ih' es' where "ix_lookup types lens key es = None" "insert_entry fuel key rid ih = (Inr p, ih')"
      "ensure_unique_key fuel key None ih = (Inr (), ih)" "index_holds types lens ih' es'"
      "mset es' = add_mset (key, rid) (mset es)" "hdr_keep (ix_hdr ih) (ix_hdr ih')"
    | (clash) "ix_lookup types lens key es \<noteq> None"
      "insert_entry fuel key rid ih = (Inl (RMDBError ''Unique index constraint violated''), ih)"
      "ensure_unique_key fuel key None ih = (Inl (RMDBError ''Unique index constraint violated''), ih)"
proof (cases "ix_lookup types lens key es = None")
  case True
  obtain p ih' where "insert_entry fuel key rid ih = (Inr p, ih')" "index_holds types lens ih' (ix_insert types lens key rid es)"
    "hdr_keep (ix_hdr ih) (ix_hdr ih')" using index_inserts[OF ix k f True] .
  then show ?thesis
    using True index_finds[OF ix k f] mset_insert_by[OF index_ordered[OF ix] True, of rid]
    by (intro added) (simp_all add: ensure_unique_key_def bindE_def)
next
  case False
  then show ?thesis using index_finds[OF ix k f]
    by (intro clash) (simp_all add: ensure_unique_key_def insert_entry_def bindE_def)
qed

lemma fill_index_ok:
  fixes w0 t index
  defines "types \<equiv> map cm_type (im_cols index)" and "lens \<equiv> map cm_len (im_cols index)"
    and "entries \<equiv> \<lambda>rids. mset (map (\<lambda>rid. (rid_key w0 t index rid, rid)) rids)"
    and "ranks \<equiv> map (\<lambda>rid. key_rank (types_of (im_cols index)) (lens_of (im_cols index)) (rid_key w0 t index rid))"
  assumes t: "tf_fhs (sm_tables w0) t = Some (fd, h)" and wf: "\<forall>rid \<in> set (table_rids w0 t). key_wf types lens (rid_key w0 t index rid)"
    and fuel: "length (table_rids w0 t) \<le> fuel"
  shows "db_view w0 w \<Longrightarrow> table_rids w0 t = xs @ rs \<Longrightarrow> index_holds types lens ih es \<Longrightarrow> mset es = entries xs \<Longrightarrow> distinct (ranks xs) \<Longrightarrow>
    length rs \<le> n \<Longrightarrow>
    \<exists>r w' ih' es'. fill_index fuel check n t index (scan_pos w0 t rs) (w, ih) = (r, (w', ih')) \<and> db_view w0 w' \<and>
      hdr_keep (ix_hdr ih) (ix_hdr ih') \<and>
      (if distinct (ranks (table_rids w0 t)) then r = Inr () \<and> index_holds types lens ih' es' \<and> mset es' = entries (table_rids w0 t)
       else r = Inl (RMDBError ''Unique index constraint violated''))"
proof (induction rs arbitrary: w ih es xs n)
  case Nil
  have "scan_is_end (table_hdr w t) (scan_pos w0 t [])" using scan_pos_is_end[OF Nil.prems(1) t, of "[]"] by simp
  then have "fill_index fuel check n t index (scan_pos w0 t []) (w, ih) = (Inr (), (w, ih))" by (subst fill_index.simps) simp
  then show ?case using Nil.prems by auto
next
  case (Cons rid rs)
  note v = Cons.prems(1) and rids = Cons.prems(2)
  obtain n' where n: "n = Suc n'" "length rs \<le> n'" using Cons.prems(6) by (cases n) auto
  have mem: "rid \<in> set (table_rids w0 t)" "set (rid # rs) \<subseteq> set (table_rids w0 t)" by (simp_all only: rids set_append) auto
  then have dm: "rid \<in> dom (tables_db (sm_tables w0) t)" "set (rid # rs) \<subseteq> dom (tables_db (sm_tables w0) t)" by (simp_all only: set_table_rids)
  have e: "\<not> scan_is_end (table_hdr w t) (scan_pos w0 t (rid # rs))" using scan_pos_is_end[OF v t dm(2)] by simp
  have p: "scan_pos w0 t (rid # rs) = rid" by (simp add: scan_pos_def)
  obtain w1 where r1: "on_tables (on_file t (get_record rid)) w = (Inr (record_at w0 t rid), w1)" "db_view w0 w1" using read_record[OF v dm(1)] by blast
  let ?key = "rid_key w0 t index rid"
  have key: "key_wf types lens ?key" using wf mem(1) by blast
  have "length es = length xs" using arg_cong[OF Cons.prems(4), of size] by (simp add: entries_def)
  then have f: "length es \<le> fuel" using fuel rids by simp
  have "set (map (\<lambda>kv. key_rank types lens (fst kv)) es) = set (ranks xs)"
    using arg_cong[OF Cons.prems(4), of set_mset] by (simp add: entries_def ranks_def image_image types_def lens_def)
  then have lk: "ix_lookup types lens ?key es = None \<longleftrightarrow> key_rank types lens ?key \<notin> set (ranks xs)" by (simp add: lookup_by_None)
  have run: "fill_index fuel check n t index (scan_pos w0 t (rid # rs)) (w, ih) =
      thenE (if check then on_ix (ensure_unique_key fuel ?key None) else returnE ())
        (thenE (on_ix (insert_entry fuel ?key rid))
        (bindE (on_db (on_tables (on_file t (scan_next rid)))) (\<lambda>next. fill_index fuel check n' t index next))) (w1, ih)"
    using e by (subst fill_index.simps) (simp add: p n bindE_Inr[of _ _ "record_at w0 t rid"] on_db_def r1(1) rid_key_def)
  from Cons.prems(3) key f show ?case
  proof (cases rule: add_entry[where rid = rid])
    case (added q ih' es')
    obtain w2 where r2: "on_tables (on_file t (scan_next rid)) w1 = (Inr (scan_pos w0 t rs), w2)" "db_view w0 w2"
      using read_scan_next[OF r1(2) t rids] by blast
    have rids': "table_rids w0 t = (xs @ [rid]) @ rs" using rids by simp
    have d: "distinct (ranks (xs @ [rid]))" using Cons.prems(5) lk added(1) by (simp add: ranks_def types_def lens_def)
    have m: "mset es' = entries (xs @ [rid])" using added(5) Cons.prems(4) by (simp add: entries_def)
    have "fill_index fuel check n t index (scan_pos w0 t (rid # rs)) (w, ih) = fill_index fuel check n' t index (scan_pos w0 t rs) (w2, ih')"
      unfolding run using added(2,3) r2(1) by (simp add: on_ix_def on_db_def thenE_def bindE_def returnE_def)
    moreover obtain r w' ih'' es'' where "fill_index fuel check n' t index (scan_pos w0 t rs) (w2, ih') = (r, (w', ih''))" "db_view w0 w'"
      "hdr_keep (ix_hdr ih') (ix_hdr ih'')" "if distinct (ranks (table_rids w0 t)) then r = Inr () \<and> index_holds types lens ih'' es'' \<and> mset es'' = entries (table_rids w0 t)
       else r = Inl (RMDBError ''Unique index constraint violated'')"
      using Cons.IH[OF r2(2) rids' added(4) m d n(2)] by (elim exE conjE) (rule that)
    ultimately show ?thesis using hdr_keep_trans[OF added(6)] by (intro exI[of _ r] exI[of _ w'] exI[of _ ih''] exI[of _ es'']) simp
  next
    case clash
    then have "\<not> distinct (ranks (table_rids w0 t))" using lk rids by (auto simp: ranks_def types_def lens_def)
    moreover have "fill_index fuel check n t index (scan_pos w0 t (rid # rs)) (w, ih) = (Inl (RMDBError ''Unique index constraint violated''), (w1, ih))"
      unfolding run using clash(2,3) by (simp add: on_ix_def thenE_def bindE_def returnE_def)
    ultimately show ?thesis using r1(2) by simp
  qed
qed

lemma scan_into_index_ok:
  assumes ok: "tables_ok (sm_tables w)" and t: "tf_fhs (sm_tables w) t = Some fh"
    and ix: "index_holds (types_of (im_cols index)) (lens_of (im_cols index)) ih []"
    and wf: "\<forall>rid \<in> set (table_rids w t). key_wf (types_of (im_cols index)) (lens_of (im_cols index)) (rid_key w t index rid)"
    and len: "length (table_rids w t) \<le> fuel" "length (table_rids w t) \<le> n"
  obtains r w' ih' es where "scan_into_index fuel check n t index (w, ih) = (r, (w', ih'))" "db_view w w'"
    "hdr_keep (ix_hdr ih) (ix_hdr ih')"
    "if keys_distinct w t index
     then r = Inr () \<and> index_holds (types_of (im_cols index)) (lens_of (im_cols index)) ih' es \<and> mset es = mset (table_entries w t index)
     else r = Inl (RMDBError ''Unique index constraint violated'')"
proof -
  obtain fd h where th: "tf_fhs (sm_tables w) t = Some (fd, h)" using t by (cases fh) simp
  obtain w1 where w1: "on_tables (on_file t RmScan) w = (Inr (scan_pos w t (table_rids w t)), w1)" "db_view w w1"
    using read_scan_begin[OF db_view_refl[OF ok] th] by blast
  have "scan_into_index fuel check n t index (w, ih) = fill_index fuel check n t index (scan_pos w t (table_rids w t)) (w1, ih)"
    using w1(1) by (simp add: scan_into_index_def bindE_def on_db_def)
  moreover have none: "mset [] = mset (map (\<lambda>rid. (rid_key w t index rid, rid)) [])"
    "distinct (map (\<lambda>rid. key_rank (types_of (im_cols index)) (lens_of (im_cols index)) (rid_key w t index rid)) [])" by simp_all
  ultimately show ?thesis
    using fill_index_ok[OF th wf len(1) w1(2) append_Nil[symmetric] ix none len(2), of check, folded keys_distinct_def table_entries_def]
    by (elim exE conjE) (rule that, simp_all)
qed

section \<open>Writing the catalog\<close>

text \<open>No open file is the one of the catalog.\<close>

definition meta_apart :: "database \<Rightarrow> bool" where
  "meta_apart w \<longleftrightarrow> (\<forall>fd. fd2path (bp_disk (tf_pool (sm_tables w))) fd \<noteq> Some DB_META_NAME)"

definition meta_on_disk :: "database \<Rightarrow> bytes option" where
  "meta_on_disk w = os_files (dm_os (bp_disk (tf_pool (sm_tables w)))) DB_META_NAME"

lemma meta_same_files:
  assumes inv: "dm_inv d" and ne: "\<forall>fd. fd2path d fd \<noteq> Some DB_META_NAME" and b: "bp_disk b = d"
  shows "same_files b (d\<lparr>dm_os := (dm_os d)\<lparr>os_files := (os_files (dm_os d))(DB_META_NAME \<mapsto> c)\<rparr>\<rparr>)"
proof -
  have "os_fds (dm_os d) fd = fd2path d fd" if "fd2path d fd \<noteq> None" for fd using inv that by (auto simp: dm_inv_def)
  then show ?thesis using inv ne b by (auto simp: same_files_def dm_inv_def bp_open_def disk_page_def os_content_def fun_eq_iff)
qed

lemma flush_meta_ok:
  assumes ok: "tables_ok (sm_tables (sm_base s))" and t: "tf_fhs (sm_tables (sm_base s)) t = Some fh" and m: "meta_apart (sm_base s)"
  obtains w' where "flush_meta s = (Inr (), s\<lparr>sm_base := w'\<rparr>)" "db_view (sm_base s) w'"
    "meta_on_disk w' = Some (bytes_of_string (show_db (sm_db (sm_base s))))"
proof -
  let ?w = "sm_base s"
  let ?d = "bp_disk (tf_pool (sm_tables ?w))"
  let ?d' = "?d\<lparr>dm_os := (dm_os ?d)\<lparr>os_files := (os_files (dm_os ?d))(DB_META_NAME \<mapsto> bytes_of_string (show_db (sm_db ?w)))\<rparr>\<rparr>"
  obtain fd h where "tf_fhs (sm_tables ?w) t = Some (fd, h)" using t by (cases fh) simp
  then have "rm_ok UNIV (handle fd h (tf_pool (sm_tables ?w)))" using ok unfolding tables_ok_def by blast
  then have "dm_inv ?d" using pool_invD(2) by (auto simp: rm_ok_def rm_rel_def)
  then have "same_files (tf_pool (sm_tables ?w)) ?d'" using m by (intro meta_same_files) (simp_all add: meta_apart_def)
  note n = tables_new_disk[OF ok this]
  show ?thesis
  proof (rule that)
    show "flush_meta s = (Inr (), s\<lparr>sm_base := ?w\<lparr>sm_tables := (sm_tables ?w)\<lparr>tf_pool := (tf_pool (sm_tables ?w))\<lparr>bp_disk := ?d'\<rparr>\<rparr>\<rparr>\<rparr>)"
      by (simp add: flush_meta_def on_base_def on_bpm_def on_disk_def)
  qed (use n in \<open>simp_all add: db_view_def meta_on_disk_def\<close>)
qed

section \<open>Creating an index\<close>

lemma serialize_keep:
  assumes "hdr_keep h h'" "ix_serialize h = Inr bs"
  shows "\<exists>bs'. ix_serialize h' = Inr bs'"
proof -
  note e = assms(1)[unfolded hdr_keep_def]
  have "col_num h' = col_num h" "tot_len h' = tot_len h" "col_types h' = col_types h" "col_lens h' = col_lens h"
    using arg_cong[OF e, of col_num] arg_cong[OF e, of tot_len] arg_cong[OF e, of col_types] arg_cong[OF e, of col_lens] by simp_all
  then have "length (hdr_fields h') = length (hdr_fields h)" by (simp add: hdr_fields_def)
  moreover have "length (concat (map (le_bytes 4) (hdr_fields x))) = 4 * length (hdr_fields x)" for x
    by (simp add: length_concat comp_def sum_list_triv)
  ultimately show ?thesis using assms(2) \<open>tot_len h' = tot_len h\<close> by (simp add: ix_serialize_def Let_def split: if_splits)
qed

lemma get_table_edit:
  assumes "get_table db t = Inr tab"
  shows "get_table (db\<lparr>db_tabs := map (\<lambda>(n, x). if n = t then (n, f x) else (n, x)) (db_tabs db)\<rparr>) t' = (if t' = t then Inr (f tab) else get_table db t')"
proof -
  have "map_of (map (\<lambda>(n, x). if n = t then (n, f x) else (n, x)) xs) t' = map_option (\<lambda>x. if t' = t then f x else x) (map_of xs t')" for xs
    by (induction xs) auto
  then show ?thesis using assms by (auto simp: get_table_def split: option.splits)
qed

lemma mark_cols_indexes [simp]: "tm_indexes (fold (\<lambda>c. mark_col c b) names tab) = tm_indexes tab"
  by (induction names arbitrary: tab) (simp_all add: mark_col_def)

text \<open>The catalog with the columns marked and the index added.\<close>

definition with_index :: "string list \<Rightarrow> IndexMeta \<Rightarrow> TabMeta \<Rightarrow> TabMeta" where
  "with_index names index tab = (let tab' = fold (\<lambda>c. mark_col c True) names tab in tab'\<lparr>tm_indexes := tm_indexes tab' @ [index]\<rparr>)"

lemma edit_tab_apply: "edit_tab t f s = (Inr (), s\<lparr>sm_base := (sm_base s)\<lparr>sm_db := (sm_db (sm_base s))\<lparr>db_tabs :=
    map (\<lambda>(n, x). if n = t then (n, f x) else (n, x)) (db_tabs (sm_db (sm_base s)))\<rparr>\<rparr>\<rparr>)"
  by (simp add: edit_tab_def edit_db_def)

lemma discard_index:
  assumes "ix_serialize (ix_hdr ih) = Inr bs"
  shows "thenE (ix_close_index (index_name t cs) ih) (thenE (ix_destroy_index t cs) (throwE e)) s =
    (Inl e, s\<lparr>ix_files := (ix_files s)(index_name t cs := None), ix_opened := ix_opened s - {index_name t cs}\<rparr>)"
  using assms by (simp add: ix_close_index_def ix_destroy_index_def Let_def put_ix_file_def set_opened_def thenE_def bindE_def)

text \<open>The state after the loop has filled the index: what is left to do is the catalog.\<close>

definition register_index :: "string \<Rightarrow> string list \<Rightarrow> IndexMeta \<Rightarrow> string \<Rightarrow> ix_state \<Rightarrow> (sm_state, unit) comp" where
  "register_index t names index name ih =
     thenE (edit_tab t (\<lambda>tab. fold (\<lambda>c. mark_col c True) names tab))
    (thenE (edit_tab t (\<lambda>tab. tab\<lparr>tm_indexes := tm_indexes tab @ [index]\<rparr>))
    (thenE (edit_ihs (\<lambda>ihs. ihs(name \<mapsto> ih))) flush_meta))"

lemma register_index_ok:
  assumes ok: "tables_ok (sm_tables (sm_base s))" and t: "tf_fhs (sm_tables (sm_base s)) t' = Some fh" and m: "meta_apart (sm_base s)"
    and tab: "get_table (sm_db (sm_base s)) t = Inr tab"
  obtains w' where "register_index t names index name ih s = (Inr (), s\<lparr>sm_base := w'\<rparr>)"
    "tables_ok (sm_tables w')" "tables_db (sm_tables w') = tables_db (sm_tables (sm_base s))" "tf_fhs (sm_tables w') = tf_fhs (sm_tables (sm_base s))"
    "sm_ihs w' = (sm_ihs (sm_base s))(name \<mapsto> ih)"
    "\<forall>u. get_table (sm_db w') u = (if u = t then Inr (with_index names index tab) else get_table (sm_db (sm_base s)) u)"
    "meta_on_disk w' = Some (bytes_of_string (show_db (sm_db w')))"
proof -
  define s1 where "s1 = snd (edit_tab t (\<lambda>tab. fold (\<lambda>c. mark_col c True) names tab) s)"
  define s2 where "s2 = snd (edit_tab t (\<lambda>tab. tab\<lparr>tm_indexes := tm_indexes tab @ [index]\<rparr>) s1)"
  define s3 where "s3 = snd (edit_ihs (\<lambda>ihs. ihs(name \<mapsto> ih)) s2)"
  have same: "sm_tables (sm_base s3) = sm_tables (sm_base s)" "sm_ihs (sm_base s3) = (sm_ihs (sm_base s))(name \<mapsto> ih)"
    "ix_files s3 = ix_files s" "ix_opened s3 = ix_opened s"
    by (simp_all add: s1_def s2_def s3_def edit_tab_apply edit_ihs_def)
  have "get_table (sm_db (sm_base s1)) u = (if u = t then Inr (fold (\<lambda>c. mark_col c True) names tab) else get_table (sm_db (sm_base s)) u)" for u
    using get_table_edit[OF tab] by (simp add: s1_def edit_tab_apply)
  then have tb: "get_table (sm_db (sm_base s3)) u = (if u = t then Inr (with_index names index tab) else get_table (sm_db (sm_base s)) u)" for u
    using get_table_edit[of "sm_db (sm_base s1)" t] by (simp add: s2_def s3_def edit_tab_apply edit_ihs_def with_index_def Let_def)
  have run: "register_index t names index name ih s = flush_meta s3"
    by (simp add: register_index_def s1_def s2_def s3_def edit_tab_apply thenE_Inr edit_ihs_def)
  obtain w' where w': "flush_meta s3 = (Inr (), s3\<lparr>sm_base := w'\<rparr>)" "db_view (sm_base s3) w'"
    "meta_on_disk w' = Some (bytes_of_string (show_db (sm_db (sm_base s3))))"
    by (rule flush_meta_ok[of s3 t' fh]) (use ok t m in \<open>simp_all add: same meta_apart_def\<close>)
  have "s3\<lparr>sm_base := w'\<rparr> = s\<lparr>sm_base := w'\<rparr>" using same by simp
  then show ?thesis using w' tb run same by (intro that[of w']) (simp_all add: db_view_def)
qed

lemma create_index_run:
  assumes tab: "get_table (sm_db (sm_base s)) t = Inr tab" "\<not> is_index tab names" "get_cols tab names = Inr cs"
    and new: "ix_create_index t cs s = (Inr (), s1)" "ix_open_index t cs s1 = (Inr ih, s2)"
    and opened: "tf_fhs (sm_tables (sm_base s2)) t \<noteq> None"
    and fill: "scan_into_index fuel True n t (new_index_meta t cs) (sm_base s2, ih) = (r, (w', ih'))"
  shows "create_index fuel n t names s =
    (case r of
       Inl e \<Rightarrow> thenE (ix_close_index (index_name t cs) ih') (thenE (ix_destroy_index t cs) (throwE e))
     | Inr _ \<Rightarrow> register_index t names (new_index_meta t cs) (index_name t cs) ih') (s2\<lparr>sm_base := w'\<rparr>)"
proof -
  have "find_table t s = (Inr tab, s)" using tab(1) by (simp add: find_table_def)
  then show ?thesis
    using tab(2,3) new opened fill
    by (cases r) (simp_all add: create_index_def bindE_Inr[where m = "find_table t"] bindE_Inr[where m = "ix_open_index t cs"] thenE_Inr[where m = "ix_create_index t cs"] Let_def
        bindE_Inr[where x = "(r, ih')"] with_handle_def register_index_def del: not_None_eq)
qed

text \<open>Property C10: creating an index on a table. If no two records have equal keys, the new index has one entry for each
  record of the table, with the key of the record, it is open under its name, the catalog has it, in memory and on disk, and
  the tables are as before. Otherwise the statement fails with the unique constraint, and the catalog, the open
  indexes and the index files are what they were: the half-built file is gone.\<close>

theorem create_index_builds:
  assumes tab: "get_table (sm_db (sm_base s)) t = Inr tab" "\<not> is_index tab names" "get_cols tab names = Inr cs" "cols_fit cs"
    and new: "ix_files s (index_name t cs) = None" "index_name t cs \<notin> ix_opened s"
    and ok: "tables_ok (sm_tables (sm_base s))" "tf_fhs (sm_tables (sm_base s)) t = Some fh" "meta_apart (sm_base s)"
    and wf: "\<forall>rid \<in> set (table_rids (sm_base s) t). key_wf (types_of cs) (lens_of cs) (rid_key (sm_base s) t (new_index_meta t cs) rid)"
    and len: "length (table_rids (sm_base s) t) \<le> fuel" "length (table_rids (sm_base s) t) \<le> n"
  shows "if keys_distinct (sm_base s) t (new_index_meta t cs)
    then \<exists>s' ih es. create_index fuel n t names s = (Inr (), s') \<and>
      sm_ihs (sm_base s') = (sm_ihs (sm_base s))(index_name t cs \<mapsto> ih) \<and>
      index_holds (types_of cs) (lens_of cs) ih es \<and> mset es = mset (table_entries (sm_base s) t (new_index_meta t cs)) \<and>
      (\<forall>u. get_table (sm_db (sm_base s')) u =
        (if u = t then Inr (with_index names (new_index_meta t cs) tab) else get_table (sm_db (sm_base s)) u)) \<and>
      meta_on_disk (sm_base s') = Some (bytes_of_string (show_db (sm_db (sm_base s')))) \<and>
      tables_ok (sm_tables (sm_base s')) \<and> tables_db (sm_tables (sm_base s')) = tables_db (sm_tables (sm_base s))
    else \<exists>s'. create_index fuel n t names s = (Inl (RMDBError ''Unique index constraint violated''), s') \<and>
      sm_db (sm_base s') = sm_db (sm_base s) \<and> sm_ihs (sm_base s') = sm_ihs (sm_base s) \<and>
      ix_files s' = ix_files s \<and> ix_opened s' = ix_opened s \<and>
      tables_ok (sm_tables (sm_base s')) \<and> tables_db (sm_tables (sm_base s')) = tables_db (sm_tables (sm_base s))"
proof -
  let ?w = "sm_base s" and ?name = "index_name t cs" and ?index = "new_index_meta t cs"
  obtain f s1 ih where o: "ix_create_index t cs s = (Inr (), s1)"
    "ix_open_index t cs s1 = (Inr ih, s\<lparr>ix_files := (ix_files s)(?name \<mapsto> f), ix_opened := insert ?name (ix_opened s)\<rparr>)" (is "_ = (_, ?s2)")
    "index_holds (types_of cs) (lens_of cs) ih []" "ix_hdr ih = new_ix_hdr cs"
    using create_and_open[OF tab(4) new(1)] .
  have c: "im_cols ?index = cs" by (simp add: new_index_meta_def)
  obtain r w' ih' es where sc: "scan_into_index fuel True n t ?index (?w, ih) = (r, (w', ih'))" "db_view ?w w'" "hdr_keep (ix_hdr ih) (ix_hdr ih')"
    "if keys_distinct ?w t ?index
     then r = Inr () \<and> index_holds (types_of cs) (lens_of cs) ih' es \<and> mset es = mset (table_entries ?w t ?index)
     else r = Inl (RMDBError ''Unique index constraint violated'')"
    by (rule scan_into_index_ok[of ?w t fh ?index ih fuel n True, unfolded c]) (use ok wf len o(3) in blast)+
  have run: "create_index fuel n t names s =
    (case r of
       Inl e \<Rightarrow> thenE (ix_close_index ?name ih') (thenE (ix_destroy_index t cs) (throwE e))
     | Inr _ \<Rightarrow> register_index t names ?index ?name ih') (?s2\<lparr>sm_base := w'\<rparr>)"
    by (rule create_index_run[OF tab(1-3) o(1,2)]) (use ok(2) sc(1) in simp_all)
  note v = sc(2)[unfolded db_view_def]
  show ?thesis
  proof (cases "keys_distinct ?w t ?index")
    case True
    define s3 where "s3 = ?s2\<lparr>sm_base := w'\<rparr>"
    have b3: "sm_base s3 = w'" by (simp add: s3_def)
    obtain w2 where w2: "register_index t names ?index ?name ih' s3 = (Inr (), s3\<lparr>sm_base := w2\<rparr>)" "tables_ok (sm_tables w2)"
      "tables_db (sm_tables w2) = tables_db (sm_tables w')" "sm_ihs w2 = (sm_ihs w')(?name \<mapsto> ih')"
      "\<forall>u. get_table (sm_db w2) u = (if u = t then Inr (with_index names ?index tab) else get_table (sm_db w') u)"
      "meta_on_disk w2 = Some (bytes_of_string (show_db (sm_db w2)))"
      by (rule register_index_ok[of s3 t fh t tab names ?index ?name ih']) (use v ok tab(1) in \<open>auto simp: b3 meta_apart_def\<close>)
    then show ?thesis using True sc(4) run v
      by (simp add: s3_def) blast
  next
    case False
    obtain bs where "ix_serialize (new_ix_hdr cs) = Inr bs" using ix_hdr_roundtrip[OF new_ix_hdr_ok(2)[OF tab(4)]] by blast
    then obtain bs' where "ix_serialize (ix_hdr ih') = Inr bs'" using serialize_keep[OF sc(3)] o(4) by auto
    note d = discard_index[OF this, of t cs]
    have "(ix_files s)(?name := None) = ix_files s" using new(1) by auto
    then show ?thesis using False sc(4) run v new(2) by (simp add: d)
  qed
qed

text \<open>The table with one record, and no index on it.\<close>

lemma demo_sm:
  obtains w rid fh where "tables_ok (sm_tables w)" "tf_fhs (sm_tables w) ''t'' = Some fh" "sm_db w = demo_catalog" "meta_apart w"
    "table_rids w ''t'' = [rid]" "rid_key w ''t'' (new_index_meta ''t'' [hd demo_table_cols]) rid = replicate 4 1"
proof (rule demo_database)
  fix w assume w: "tables_ok (sm_tables w)" "scan_fine w demo_scan" "length (table_rids w ''t'') = 1" "scan_rows w demo_scan = [replicate 8 1]"
    "sm_db w = demo_catalog" "fd2path (bp_disk (tf_pool (sm_tables w))) = [3 \<mapsto> ''t'', 5 \<mapsto> LOG_FILE_NAME]"
  obtain rid where rid: "table_rids w ''t'' = [rid]" using w(3) by (cases "table_rids w ''t''") auto
  have rec: "record_at w ''t'' rid = replicate 8 1" using w(4) rid by (simp add: scan_rows_def demo_scan_def)
  have "build_index_key (new_index_meta ''t'' [hd demo_table_cols]) (replicate 8 1) = replicate 4 1" by code_simp
  then have k: "rid_key w ''t'' (new_index_meta ''t'' [hd demo_table_cols]) rid = replicate 4 1" using rec by (simp add: rid_key_def)
  obtain fh where fh: "tf_fhs (sm_tables w) ''t'' = Some fh" using w(2) by (auto simp: scan_fine_def demo_scan_def)
  have m: "meta_apart w" using w(6) by (simp add: meta_apart_def DB_META_NAME_def LOG_FILE_NAME_def)
  show thesis by (rule that[OF w(1) fh w(5) m rid k])
qed

lemma demo_col: "types_of [hd demo_table_cols] = [TYPE_INT]" "lens_of [hd demo_table_cols] = [4]" "index_name ''t'' [hd demo_table_cols] = ''t_a.idx''"
  "cols_fit [hd demo_table_cols]"
  by (simp_all add: demo_table_cols_def index_name_def get_index_name_def cols_fit_def)

theorem create_index_builds_witness:
  "\<exists>s s' ih es. create_index 1 1 ''t'' [''a''] s = (Inr (), s') \<and> sm_ihs (sm_base s') ''t_a.idx'' = Some ih \<and>
     index_holds [TYPE_INT] [4] ih es \<and> map fst es = [replicate 4 1]"
proof (rule demo_sm)
  fix w rid fh assume w: "tables_ok (sm_tables w)" "tf_fhs (sm_tables w) ''t'' = Some fh" "sm_db w = demo_catalog" "meta_apart w"
    "table_rids w ''t'' = [rid]" "rid_key w ''t'' (new_index_meta ''t'' [hd demo_table_cols]) rid = replicate 4 1"
  let ?tab = "\<lparr>tm_name = ''t'', tm_cols = demo_table_cols, tm_indexes = []\<rparr>" and ?cs = "[hd demo_table_cols]"
  let ?s = "\<lparr>sm_base = w, ix_files = Map.empty, ix_opened = {}\<rparr>"
  have tab: "get_table (sm_db (sm_base ?s)) ''t'' = Inr ?tab" "\<not> is_index ?tab [''a'']" "get_cols ?tab [''a''] = Inr ?cs" "cols_fit ?cs"
    using w(3) by (simp_all add: get_table_def demo_catalog_def is_index_def get_col_def demo_table_cols_def cols_fit_def andthen_def)
  have "keys_distinct w ''t'' (new_index_meta ''t'' ?cs)" using w(5) by (simp add: keys_distinct_def)
  moreover have "table_entries w ''t'' (new_index_meta ''t'' ?cs) = [(replicate 4 1, rid)]" using w(5,6) by (simp add: table_entries_def)
  ultimately obtain s' ih where "create_index 1 1 ''t'' [''a''] ?s = (Inr (), s')" "sm_ihs (sm_base s') ''t_a.idx'' = Some ih"
    "index_holds [TYPE_INT] [4] ih [(replicate 4 1, rid)]"
    using create_index_builds[OF tab, of fh 1 1] w demo_col by auto
  then show ?thesis by (intro exI[of _ ?s] exI[of _ s'] exI[of _ ih] exI[of _ "[(replicate 4 1, rid)]"]) simp
qed

section \<open>Rebuilding the indexes\<close>

text \<open>A sequence of steps on disjoint parts of the state: each step makes its goal true where it is ready to run, and
  keeps what the others are ready for and have reached.\<close>

lemma mapE_frame:
  assumes refl: "\<And>s. fr {} s s" and trans: "\<And>A B s s1 s2. fr A s s1 \<Longrightarrow> fr B s1 s2 \<Longrightarrow> fr (A \<union> B) s s2"
    and keep: "\<And>x A s s'. Q x s \<Longrightarrow> fr A s s' \<Longrightarrow> nm x \<inter> A = {} \<Longrightarrow> Q x s'" "\<And>x A s s'. P x s \<Longrightarrow> fr A s s' \<Longrightarrow> nm x \<inter> A = {} \<Longrightarrow> P x s'"
    and step: "\<And>x s. x \<in> set xs \<Longrightarrow> Q x s \<Longrightarrow> \<exists>r s'. f x s = (Inr r, s') \<and> fr (nm x) s s' \<and> P x s'"
    and apart: "sorted_wrt (\<lambda>x y. nm x \<inter> nm y = {}) xs" and ready: "\<forall>x \<in> set xs. Q x s"
  shows "\<exists>s'. mapE f xs s = (Inr (), s') \<and> fr (\<Union>x \<in> set xs. nm x) s s' \<and> (\<forall>x \<in> set xs. P x s')"
  using step apart ready
proof (induction xs arbitrary: s)
  case Nil
  then show ?case using refl by simp
next
  case (Cons x xs)
  obtain r s1 where s1: "f x s = (Inr r, s1)" "fr (nm x) s s1" "P x s1" using Cons.prems(1)[of x s] Cons.prems(3) by auto
  have "\<forall>y \<in> set xs. Q y s1" using Cons.prems(2,3) keep(1)[OF _ s1(2)] by (auto simp: Int_commute)
  with Cons.IH[of s1] Cons.prems(1,2) obtain s' where s': "mapE f xs s1 = (Inr (), s')" "fr (\<Union>x \<in> set xs. nm x) s1 s'" "\<forall>x \<in> set xs. P x s'"
    by auto
  have "nm x \<inter> (\<Union>x \<in> set xs. nm x) = {}" using Cons.prems(2) by auto
  then have "P x s'" using keep(2)[OF s1(3) s'(2)] by blast
  then show ?case using s1(1) s'(1,3) trans[OF s1(2) s'(2)] by (simp add: thenE_Inr)
qed

text \<open>What an index needs to be built again, and what it is then.\<close>

definition closable :: "sm_state \<Rightarrow> string \<Rightarrow> bool" where
  "closable s name \<longleftrightarrow>
     (case sm_ihs (sm_base s) name of None \<Rightarrow> name \<notin> ix_opened s | Some ih \<Rightarrow> \<exists>bs. ix_serialize (ix_hdr ih) = Inr bs)"

definition rebuildable :: "nat \<Rightarrow> string \<Rightarrow> IndexMeta \<Rightarrow> sm_state \<Rightarrow> bool" where
  "rebuildable n t index s \<longleftrightarrow> tables_ok (sm_tables (sm_base s)) \<and> tf_fhs (sm_tables (sm_base s)) t \<noteq> None \<and>
     closable s (index_name t (im_cols index)) \<and> cols_fit (im_cols index) \<and> keys_distinct (sm_base s) t index \<and>
     (\<forall>rid \<in> set (table_rids (sm_base s) t). key_wf (types_of (im_cols index)) (lens_of (im_cols index)) (rid_key (sm_base s) t index rid)) \<and>
     length (table_rids (sm_base s) t) \<le> n"

definition index_current :: "string \<Rightarrow> IndexMeta \<Rightarrow> sm_state \<Rightarrow> bool" where
  "index_current t index s \<longleftrightarrow>
     (\<exists>ih es. sm_ihs (sm_base s) (index_name t (im_cols index)) = Some ih \<and>
        index_holds (types_of (im_cols index)) (lens_of (im_cols index)) ih es \<and> mset es = mset (table_entries (sm_base s) t index))"

text \<open>Only the indexes with names in a set change.\<close>

definition ix_frame :: "string set \<Rightarrow> sm_state \<Rightarrow> sm_state \<Rightarrow> bool" where
  "ix_frame A s s' \<longleftrightarrow> (tables_ok (sm_tables (sm_base s)) \<longrightarrow> tables_ok (sm_tables (sm_base s'))) \<and>
     tables_db (sm_tables (sm_base s')) = tables_db (sm_tables (sm_base s)) \<and>
     tf_fhs (sm_tables (sm_base s')) = tf_fhs (sm_tables (sm_base s)) \<and> sm_db (sm_base s') = sm_db (sm_base s) \<and>
     (\<forall>name. name \<notin> A \<longrightarrow> sm_ihs (sm_base s') name = sm_ihs (sm_base s) name \<and> (name \<in> ix_opened s' \<longleftrightarrow> name \<in> ix_opened s))"

lemma ix_frame_view:
  assumes "ix_frame A s s'"
  shows "table_rids (sm_base s') = table_rids (sm_base s)" "rid_key (sm_base s') = rid_key (sm_base s)"
    "table_entries (sm_base s') = table_entries (sm_base s)" "keys_distinct (sm_base s') = keys_distinct (sm_base s)"
proof -
  show r: "table_rids (sm_base s') = table_rids (sm_base s)" "rid_key (sm_base s') = rid_key (sm_base s)"
    using assms by (simp_all add: ix_frame_def table_rids_def[abs_def] rid_key_def[abs_def] record_at_def[abs_def])
  show "table_entries (sm_base s') = table_entries (sm_base s)" "keys_distinct (sm_base s') = keys_distinct (sm_base s)"
    by (simp_all add: fun_eq_iff table_entries_def keys_distinct_def r)
qed

lemma ix_frame_refl: "ix_frame A s s"
  by (simp add: ix_frame_def)

lemma ix_frame_trans: "ix_frame A s s1 \<Longrightarrow> ix_frame B s1 s2 \<Longrightarrow> ix_frame (A \<union> B) s s2"
  by (simp add: ix_frame_def)

lemma rebuildable_keep: "rebuildable n t index s \<Longrightarrow> ix_frame A s s' \<Longrightarrow> index_name t (im_cols index) \<notin> A \<Longrightarrow> rebuildable n t index s'"
  by (simp add: rebuildable_def ix_frame_view) (simp add: ix_frame_def closable_def split: option.splits)

lemma index_current_keep: "index_current t index s \<Longrightarrow> ix_frame A s s' \<Longrightarrow> index_name t (im_cols index) \<notin> A \<Longrightarrow> index_current t index s'"
  by (simp add: index_current_def ix_frame_view) (simp add: ix_frame_def)

lemma close_if_open_ok:
  assumes "closable s name"
  obtains s' where "close_if_open name s = (Inr (), s')" "name \<notin> ix_opened s'" "ix_frame {name} s s'"
proof (cases "sm_ihs (sm_base s) name")
  case None
  then show ?thesis using assms by (intro that[of s]) (simp_all add: closable_def close_if_open_def ix_frame_refl)
next
  case (Some ih)
  then obtain bs where bs: "ix_serialize (ix_hdr ih) = Inr bs" using assms by (auto simp: closable_def)
  let ?s' = "s\<lparr>ix_files := (ix_files s)(name \<mapsto> \<lparr>xf_header = bs, xf_nodes = ix_nodes ih\<rparr>), ix_opened := ix_opened s - {name},
    sm_base := (sm_base s)\<lparr>sm_ihs := (sm_ihs (sm_base s))(name := None)\<rparr>\<rparr>"
  have "close_if_open name s = (Inr (), ?s')"
    using Some bs by (simp add: close_if_open_def ix_close_index_def put_ix_file_def set_opened_def edit_ihs_def thenE_def bindE_def)
  moreover have "name \<notin> ix_opened ?s'" by simp
  moreover have "ix_frame {name} s ?s'" by (simp add: ix_frame_def)
  ultimately show ?thesis by (rule that)
qed

lemma rebuild_index_ok:
  assumes rb: "rebuildable n t index s"
  shows "\<exists>s'. rebuild_index n n t index s = (Inr (), s') \<and> ix_frame {index_name t (im_cols index)} s s' \<and> index_current t index s'"
proof -
  let ?cs = "im_cols index" let ?name = "index_name t ?cs"
  have c: "closable s ?name" "cols_fit ?cs" using rb by (simp_all add: rebuildable_def)
  obtain s1 where s1: "close_if_open ?name s = (Inr (), s1)" "?name \<notin> ix_opened s1" "ix_frame {?name} s s1" using close_if_open_ok[OF c(1)] .
  define s2 where "s2 = s1\<lparr>ix_files := (ix_files s1)(?name := None)\<rparr>"
  have d: "(if ix_exists s1 t ?cs then ix_destroy_index t ?cs else returnE ()) s1 = (Inr (), s2)"
    using s1(2) by (auto simp: ix_exists_def ix_destroy_index_def Let_def s2_def fun_upd_idem)
  have f2: "ix_frame {?name} s s2" using s1(3) by (simp add: ix_frame_def s2_def)
  have "ix_files s2 ?name = None" by (simp add: s2_def)
  from create_and_open[OF c(2) this] obtain f s3 ih where o: "ix_create_index t ?cs s2 = (Inr (), s3)"
    "ix_open_index t ?cs s3 = (Inr ih, s2\<lparr>ix_files := (ix_files s2)(?name \<mapsto> f), ix_opened := insert ?name (ix_opened s2)\<rparr>)" (is "_ = (_, ?s4)")
    "index_holds (types_of ?cs) (lens_of ?cs) ih []" .
  note fv = ix_frame_view[OF f2]
  obtain fh where t: "tf_fhs (sm_tables (sm_base s2)) t = Some fh" and ok: "tables_ok (sm_tables (sm_base s2))"
    using rb f2 by (auto simp: rebuildable_def ix_frame_def)
  obtain r w' ih' es where sc: "scan_into_index n False n t index (sm_base s2, ih) = (r, (w', ih'))" "db_view (sm_base s2) w'"
    "if keys_distinct (sm_base s2) t index
     then r = Inr () \<and> index_holds (types_of ?cs) (lens_of ?cs) ih' es \<and> mset es = mset (table_entries (sm_base s2) t index)
     else r = Inl (RMDBError ''Unique index constraint violated'')"
    by (rule scan_into_index_ok[OF ok t o(3), of n n False]) (use rb in \<open>simp_all add: rebuildable_def fv\<close>)
  let ?s' = "?s4\<lparr>sm_base := w'\<lparr>sm_ihs := (sm_ihs w')(?name \<mapsto> ih')\<rparr>\<rparr>"
  have kd: "keys_distinct (sm_base s2) t index" using rb by (simp add: rebuildable_def fv)
  have run: "rebuild_index n n t index s = (Inr (), ?s')"
    using s1(1) d o(1,2) sc(1,3) kd
    by (simp add: rebuild_index_def Let_def thenE_Inr[where m = "close_if_open ?name"] thenE_def bindE_def with_handle_def edit_ihs_def)
  have fr: "ix_frame {?name} s ?s'" using f2 sc(2) by (auto simp: ix_frame_def db_view_def)
  have "table_entries (w'\<lparr>sm_ihs := (sm_ihs w')(?name \<mapsto> ih')\<rparr>) = table_entries (sm_base s)" using ix_frame_view(3)[OF fr] by simp
  then have "index_current t index ?s'" using sc(3) kd by (auto simp: index_current_def fv(3))
  with run fr show ?thesis by blast
qed

text \<open>All indexes of a table.\<close>

definition index_names :: "string \<times> TabMeta \<Rightarrow> string list" where
  "index_names x = map (\<lambda>index. index_name (fst x) (im_cols index)) (tm_indexes (snd x))"

definition table_rebuildable :: "nat \<Rightarrow> string \<times> TabMeta \<Rightarrow> sm_state \<Rightarrow> bool" where
  "table_rebuildable n x s \<longleftrightarrow> tf_fhs (sm_tables (sm_base s)) (fst x) \<noteq> None \<and> (\<forall>index \<in> set (tm_indexes (snd x)). rebuildable n (fst x) index s)"

definition table_current :: "string \<times> TabMeta \<Rightarrow> sm_state \<Rightarrow> bool" where
  "table_current x s \<longleftrightarrow> (\<forall>index \<in> set (tm_indexes (snd x)). index_current (fst x) index s)"

lemma table_keep:
  shows "table_rebuildable n x s \<Longrightarrow> ix_frame A s s' \<Longrightarrow> set (index_names x) \<inter> A = {} \<Longrightarrow> table_rebuildable n x s'"
    and "table_current x s \<Longrightarrow> ix_frame A s s' \<Longrightarrow> set (index_names x) \<inter> A = {} \<Longrightarrow> table_current x s'"
proof -
  assume f: "ix_frame A s s'" and "set (index_names x) \<inter> A = {}"
  then have a: "index_name (fst x) (im_cols index) \<notin> A" if "index \<in> set (tm_indexes (snd x))" for index
    using that by (auto simp: index_names_def)
  have "tf_fhs (sm_tables (sm_base s')) = tf_fhs (sm_tables (sm_base s))" using f by (simp add: ix_frame_def)
  then show "table_rebuildable n x s \<Longrightarrow> table_rebuildable n x s'" "table_current x s \<Longrightarrow> table_current x s'"
    using rebuildable_keep[OF _ f a] index_current_keep[OF _ f a] unfolding table_rebuildable_def table_current_def by auto
qed

lemma disjoint_names: "distinct (map f xs) \<Longrightarrow> sorted_wrt (\<lambda>x y. {f x} \<inter> {f y} = {}) xs"
  by (auto simp: sorted_wrt_iff_nth_less distinct_conv_nth)

lemma disjoint_concat: "distinct (concat (map f xs)) \<Longrightarrow> sorted_wrt (\<lambda>x y. set (f x) \<inter> set (f y) = {}) xs"
  by (induction xs) auto

lemma distinct_part: "distinct (concat (map f xs)) \<Longrightarrow> x \<in> set xs \<Longrightarrow> distinct (f x)"
  by (induction xs) auto

lemma rebuild_table_ok:
  assumes "table_rebuildable n x s" "distinct (index_names x)"
  shows "\<exists>s'. mapE (rebuild_index n n (fst x)) (tm_indexes (snd x)) s = (Inr (), s') \<and> ix_frame (set (index_names x)) s s' \<and> table_current x s'"
proof -
  have "\<exists>s'. mapE (rebuild_index n n (fst x)) (tm_indexes (snd x)) s = (Inr (), s') \<and>
      ix_frame (\<Union>index \<in> set (tm_indexes (snd x)). {index_name (fst x) (im_cols index)}) s s' \<and>
      (\<forall>index \<in> set (tm_indexes (snd x)). index_current (fst x) index s')"
  proof (rule mapE_frame[where fr = ix_frame and Q = "rebuildable n (fst x)" and P = "index_current (fst x)" and nm = "\<lambda>index. {index_name (fst x) (im_cols index)}"])
    show "sorted_wrt (\<lambda>a b. {index_name (fst x) (im_cols a)} \<inter> {index_name (fst x) (im_cols b)} = {}) (tm_indexes (snd x))"
      using assms(2) unfolding index_names_def by (rule disjoint_names)
  qed (use ix_frame_refl ix_frame_trans rebuildable_keep index_current_keep rebuild_index_ok assms(1) in \<open>auto simp: table_rebuildable_def\<close>)
  moreover have "(\<Union>index \<in> set (tm_indexes (snd x)). {index_name (fst x) (im_cols index)}) = set (index_names x)" by (auto simp: index_names_def)
  ultimately show ?thesis by (simp add: table_current_def)
qed

text \<open>Property C12: after a restart every index of the catalog is built again from its table, whatever it held before, open or
  not: it then has exactly one entry for every record, with the key of the record. The tables and the catalog stay.\<close>

theorem rebuild_indexes_current:
  assumes "\<forall>x \<in> set (db_tabs (sm_db (sm_base s))). table_rebuildable n x s"
    and "distinct (concat (map index_names (db_tabs (sm_db (sm_base s)))))"
  shows "\<exists>s'. rebuild_indexes n n s = (Inr (), s') \<and>
    (\<forall>(t, tab) \<in> set (db_tabs (sm_db (sm_base s))). \<forall>index \<in> set (tm_indexes tab). index_current t index s') \<and>
    tables_db (sm_tables (sm_base s')) = tables_db (sm_tables (sm_base s)) \<and> sm_db (sm_base s') = sm_db (sm_base s)"
proof -
  let ?tabs = "db_tabs (sm_db (sm_base s))"
  let ?f = "\<lambda>(tab_name, tab). bindE (getE (\<lambda>s. tf_fhs (sm_tables (sm_base s)) tab_name)) (\<lambda>fh.
      if fh = None then throwE OutOfRange else mapE (rebuild_index n n tab_name) (tm_indexes tab))"
  have step: "\<exists>r s'. ?f x s = (Inr r, s') \<and> ix_frame (set (index_names x)) s s' \<and> table_current x s'"
    if "x \<in> set ?tabs" "table_rebuildable n x s" for x s
  proof -
    have "?f x s = mapE (rebuild_index n n (fst x)) (tm_indexes (snd x)) s" using that(2) by (cases x) (simp add: table_rebuildable_def del: not_None_eq)
    then show ?thesis using rebuild_table_ok[OF that(2) distinct_part[OF assms(2) that(1)]] by auto
  qed
  have "\<exists>s'. mapE ?f ?tabs s = (Inr (), s') \<and> ix_frame (\<Union>x \<in> set ?tabs. set (index_names x)) s s' \<and> (\<forall>x \<in> set ?tabs. table_current x s')"
    by (rule mapE_frame[where fr = ix_frame and Q = "table_rebuildable n" and P = table_current and nm = "\<lambda>x. set (index_names x)",
          OF ix_frame_refl ix_frame_trans table_keep step disjoint_concat[OF assms(2)] assms(1)])
  then obtain s' where "mapE ?f ?tabs s = (Inr (), s')" "ix_frame (\<Union>x \<in> set ?tabs. set (index_names x)) s s'" "\<forall>x \<in> set ?tabs. table_current x s'" by blast
  then show ?thesis by (intro exI[of _ s']) (auto simp: rebuild_indexes_def ix_frame_def table_current_def)
qed

theorem rebuild_indexes_current_witness:
  "\<exists>s s'. sm_ihs (sm_base s) = Map.empty \<and> rebuild_indexes 1 1 s = (Inr (), s') \<and> table_rids (sm_base s) ''t'' \<noteq> [] \<and>
     index_current ''t'' (new_index_meta ''t'' [hd demo_table_cols]) s'"
proof (rule demo_sm)
  fix w rid fh assume w: "tables_ok (sm_tables w)" "tf_fhs (sm_tables w) ''t'' = Some fh" "sm_db w = demo_catalog" "meta_apart w"
    "table_rids w ''t'' = [rid]" "rid_key w ''t'' (new_index_meta ''t'' [hd demo_table_cols]) rid = replicate 4 1"
  let ?index = "new_index_meta ''t'' [hd demo_table_cols]"
  let ?tab = "\<lparr>tm_name = ''t'', tm_cols = demo_table_cols, tm_indexes = [?index]\<rparr>"
  let ?w = "w\<lparr>sm_db := \<lparr>db_name = ''d'', db_tabs = [(''t'', ?tab)]\<rparr>, sm_ihs := Map.empty\<rparr>"
  let ?s = "\<lparr>sm_base = ?w, ix_files = Map.empty, ix_opened = {}\<rparr>"
  have v: "table_rids ?w ''t'' = [rid]" "rid_key ?w ''t'' ?index rid = replicate 4 1"
    using w(5,6) by (simp_all add: table_rids_def rid_key_def record_at_def)
  have c: "im_cols ?index = [hd demo_table_cols]" by (simp add: new_index_meta_def)
  have "keys_distinct ?w ''t'' ?index" using v(1) by (simp add: keys_distinct_def)
  moreover have "key_wf (types_of [hd demo_table_cols]) (lens_of [hd demo_table_cols]) (replicate 4 1)" unfolding demo_col by simp
  moreover have "set (table_rids ?w ''t'') = {rid}" by (simp only: v(1)) simp
  ultimately have "rebuildable 1 ''t'' ?index ?s"
    unfolding rebuildable_def c using w(1,2) v demo_col by (simp add: closable_def del: set_table_rids)
  then have "\<forall>x \<in> set (db_tabs (sm_db (sm_base ?s))). table_rebuildable 1 x ?s" using w(2) by (simp add: table_rebuildable_def)
  from rebuild_indexes_current[OF this] obtain s' where "rebuild_indexes 1 1 ?s = (Inr (), s')" "index_current ''t'' ?index s'"
    by (auto simp: index_names_def)
  then show ?thesis using v(1) by (intro exI[of _ ?s] exI[of _ s']) simp
qed

end
