(* ===== verification/Spec2Isabelle.thy ===== *)
theory Spec2Isabelle
  imports Printer Rollback SystemManager
begin

text \<open>
  A verification development of RMDB, the relational database system under \<open>src/src/\<close>.

  \<^bold>\<open>The program.\<close> RMDB is a server that keeps a database in a directory of files. From the bottom:
  \<open>DiskManager\<close> reads and writes pages of files; \<open>BufferPoolManager\<close> keeps pages in memory and asks an
  \<open>LRUReplacer\<close> which one to give up; \<open>RmFileHandle\<close> lays fixed-size records out on pages and \<open>RmScan\<close> walks over
  them; \<open>IxIndexHandle\<close> is a B+ tree from keys to record identifiers. \<open>SmManager\<close> holds the catalog, the open
  record files and the open indexes. Statements run as trees of executors, each of which delivers rows to the one
  above; those that change a table first lock it (\<open>LockManager\<close>), write a log record (\<open>LogManager\<close>) and remember
  what they did in the \<open>Transaction\<close>. \<open>TransactionManager\<close> begins, commits and rolls back; \<open>RecoveryManager\<close> reads the
  log at the start of the server and redoes or undoes what it finds.

  \<^bold>\<open>How it is modelled.\<close> Every stateful operation is a computation of \<open>Prelude\<close>: it maps a state to a result and a
  new state or to one of the exceptions of \<open>errors.h\<close>, with the state as it is when the exception leaves the
  operation. Objects are records with the fields of the class; a pointer into a pool is the index of the object, and
  memory is a list of bytes that is read and written at offsets, in little-endian order. Machine integers are words,
  or integers with their range as part of the invariant. Calls that the code makes atomic with a latch are single
  steps, and an interleaving of clients is a sequence of calls. What the operating system decides (the number of a
  new descriptor) and the iteration order of hash tables are arguments or left open.

  \<^bold>\<open>The theories.\<close>
  \<^item> \<open>Prelude\<close>: exceptions, computations, byte buffers, integer encodings.
  \<^item> \<open>LruReplacer\<close> (\<open>replacer/\<close>): the list and the hash map of the replacer; the locale \<open>replacer\<close> is the
    interface the pool relies on, and the model simulates a most-recent-first list.
  \<^item> \<open>DiskManager\<close> (\<open>storage/disk_manager.*\<close>): descriptors, file contents, page numbers, the log file.
  \<^item> \<open>BufferPool\<close> (\<open>storage/page.h\<close>, \<open>storage/buffer_pool_manager.*\<close>): frames, page table, free list; the pool is
    shown to be a cache of the pages of the files.
  \<^item> \<open>Bitmap\<close>, \<open>RecordPage\<close>, \<open>RecordFile\<close> (\<open>record/\<close>): slot bitmaps, the layout of a page, and the operations of
    \<open>RmFileHandle\<close>, \<open>RmScan\<close> and \<open>RmManager\<close>. A record file implements a finite map from record identifiers to bytes.
  \<^item> \<open>TableFiles\<close>, \<open>Database\<close> (\<open>system/sm_manager.h\<close>): all open tables over one pool, and the whole state of
    \<open>SmManager\<close>.
  \<^item> \<open>Transaction\<close>, \<open>LockManager\<close> (\<open>transaction/\<close>): transactions, lock modes and queues; the step relation
    \<open>lock_step\<close> ranges over all interleavings of requests.
  \<^item> \<open>LogRecord\<close>, \<open>LogManager\<close>, \<open>Recovery\<close> (\<open>recovery/\<close>): the bytes of log records and their reader, the log
    buffer, and the passes of recovery, which refine a function on the contents of the tables.
  \<^item> \<open>Types\<close>, \<open>IxNode\<close>, \<open>IxTree\<close>, \<open>IxTreeInv\<close>, \<open>IxTreeInsert\<close>, \<open>IxTreeDelete\<close>, \<open>IxTreeShrink\<close>, \<open>IxTreeRemove\<close>, \<open>Index\<close>,
    \<open>IxPositions\<close> (\<open>defs.h\<close>, \<open>index/\<close>): the order of keys, nodes, the tree operations on a store of nodes, the invariant by levels, the tree as a
    sorted list of entries, and the positions in it that \<open>lower_bound\<close>, \<open>upper_bound\<close> and \<open>IxScan\<close> name.
  \<^item> \<open>Datetime\<close>, \<open>Meta\<close>, \<open>Floats\<close>, \<open>Values\<close> (\<open>common/\<close>, \<open>system/sm_meta.h\<close>, \<open>execution/executor_utils.h\<close>): literals,
    the catalog and its text form, float arithmetic, casts, and the comparison of fields.
  \<^item> \<open>Executor\<close>, \<open>Join\<close>, \<open>SortAggregate\<close>, \<open>Aggregate\<close>, \<open>Queries\<close> (\<open>execution/\<close>): the methods of
    \<open>AbstractExecutor\<close> and the executors of queries; the locale \<open>row_source\<close> is their contract, and each executor
    interprets it when its children do.
  \<^item> \<open>Engine\<close>, \<open>Rollback\<close> (\<open>execution/executor_insert.h\<close>, \<open>executor_delete.h\<close>, \<open>executor_update.h\<close>,
    \<open>transaction/transaction_manager.cpp\<close>): the statements that change tables and the life of a transaction.
  \<^item> \<open>Analyze\<close>, \<open>Planner\<close>, \<open>Printer\<close> (\<open>parser/ast.h\<close>, \<open>analyze/\<close>, \<open>optimizer/\<close>, \<open>record_printer.h\<close>,
    \<open>execution/execution_manager.cpp\<close>): syntax trees and their semantic analysis, the plan of a query, and the text
    that a query, \<open>show tables\<close>, \<open>show index\<close> and \<open>desc\<close> send to the client through the fixed output buffer.
  \<^item> \<open>IndexScan\<close> (\<open>execution/executor_index_scan.h\<close>): the range of keys a list of conditions asks for, and the scan through
    an index; it interprets \<open>row_source\<close> too.
  \<^item> \<open>SystemManager\<close> (\<open>system/sm_manager.cpp\<close>, \<open>index/ix_manager.h\<close>): index files, the statements on tables and indexes,
    opening and closing a database, and rebuilding the indexes. An index file is its header page and its nodes.

  \<^bold>\<open>What is shown.\<close> Rolling back gives every table the contents it had at the beginning of the transaction, and after
  a commit the log on the disk holds all of its records; recovery restores exactly the effects of committed
  transactions, and running it again changes nothing. Record files, the replacer and the index implement their
  abstract counterparts, the B+ tree through splits, redistributions and merges; the buffer pool loses no write. Scans, projections, joins, sorting and aggregation deliver
  the rows the query asks for, and a scan through an index delivers the same rows as one of the whole table.
  Creating an index, or rebuilding it, makes it agree with its table. The conditions of an analyzed statement can be evaluated without an exception, and the
  tree of joins and scans the planner builds accepts the same rows as the conjunction of all conditions; what a query
  prints never leaves the output buffer. Log records, file headers, the catalog, pages and date literals survive being written and read
  back. Locks held at the same time are compatible, requests are answered as the matrix says, and releasing
  leaves none behind. Some properties state how the code deviates from what it means to do: they are named in the list of findings.

  \<^bold>\<open>Bounds and fuel.\<close> Loops over a list or towards a bound are recursive functions with a measure. Where the
  length of a loop depends on the files, the definition takes fuel, running out of it is a failure, and
  the properties show that a bound known beforehand is enough: the number of pages for the walk over free pages
  (page numbers are 32-bit, so \<open>2 ^ 31\<close> suffices for every file), the number of records plus one for a scan, the product of the
  lengths for a join, the number of levels for a descent in the tree.

  \<^bold>\<open>Assumptions about the platform.\<close> Integers are little-endian and as wide as on x86-64 Linux, \<open>long double\<close> has 64
  significant bits, calls on regular files do not fail for want of space, and \<open>std::stable_sort\<close> is a stable sort, of which there is only one.

  \<^bold>\<open>Not modelled.\<close> The SQL parser is generated code of flex and bison; the socket loop of \<open>rmdb.cpp\<close> and the client only move
  bytes; shell commands (\<open>mkdir\<close>, \<open>rm -r\<close>) and the text written to \<open>output.txt\<close> are input and output; with
  them \<open>create_db\<close>, \<open>drop_db\<close> and the change of directory in \<open>open_db\<close> and \<open>close_db\<close> are left out, and the database is in the current
  directory. \<open>portal.h\<close> and the dispatch of statements in \<open>execution_manager.cpp\<close> only pass plans to the executors modelled
  here. The nodes of an index are reached directly, not through the buffer pool.
\<close>

end
